(* ===== verification/Vault_Prelude.thy ===== *)
theory Vault_Prelude
  imports Main "HOL-Library.AList" "HOL-Library.Char_ord" "HOL-Library.List_Lexorder"
    "HOL-Library.Option_ord"
begin

text \<open>
  Shared vocabulary of the development.

  \<^item> JavaScript's \<open>Map\<close> (insertion ordered, one value per key) is an association list:
    \<open>map_of m k\<close> is \<open>m.get(k)\<close>, \<open>AList.update k v m\<close> is \<open>m.set(k, v)\<close> (an existing key
    keeps its position, a new one goes to the end), \<open>AList.delete k m\<close> is \<open>m.delete(k)\<close>,
    and \<open>map_from_pairs\<close> is \<open>new Map(pairs)\<close> (a later pair overwrites an earlier one).
  \<^item> JavaScript strings are \<open>string\<close> (lists of code units); \<open><\<close> on them is the code-unit
    lexicographic order of the imported \<open>List_Lexorder\<close> and \<open>Char_ord\<close>.
  \<^item> A thrown error is the \<open>Inl\<close> of a sum.

  The locales are the interfaces several components share: a keyed store, a machine whose
  steps may be refused and keep an invariant, and a merge that converges.
\<close>

named_theorems jsmap_simps \<open>lookups in insertion-ordered maps\<close>

type_synonym 'v jsmap = "(string \<times> 'v) list"

definition map_from_pairs :: "('k \<times> 'v) list \<Rightarrow> ('k \<times> 'v) list" where
  "map_from_pairs ps = fold (\<lambda>(k, v). AList.update k v) ps []"

definition distinct_keys :: "('k \<times> 'v) list \<Rightarrow> bool" where
  "distinct_keys m \<longleftrightarrow> distinct (map fst m)"

subsection \<open>Insertion-ordered maps\<close>

lemma distinct_keys_Nil [simp]: "distinct_keys []"
  by (simp add: distinct_keys_def)

lemma distinct_keys_Cons [simp]:
  "distinct_keys ((k, v) # m) \<longleftrightarrow> k \<notin> fst ` set m \<and> distinct_keys m"
  by (simp add: distinct_keys_def)

lemma distinct_keys_update [simp]: "distinct_keys m \<Longrightarrow> distinct_keys (AList.update k v m)"
  by (simp add: distinct_keys_def distinct_update)

lemma distinct_keys_delete [simp]: "distinct_keys m \<Longrightarrow> distinct_keys (AList.delete k m)"
  by (simp add: distinct_keys_def distinct_delete)

lemma distinct_keys_filter [simp]: "distinct_keys m \<Longrightarrow> distinct_keys (filter P m)"
  unfolding distinct_keys_def by (induction m) auto

lemma map_of_update [jsmap_simps]: "map_of (AList.update k v m) = (map_of m)(k \<mapsto> v)"
  by (rule update_conv')

lemma map_of_delete [jsmap_simps]: "map_of (AList.delete k m) = (map_of m)(k := None)"
  by (rule delete_conv')

lemma map_of_map_value: "map_of (map (\<lambda>(k, v). (k, f k v)) m) k = map_option (f k) (map_of m k)"
  by (induction m) auto

lemma map_of_filter_distinct:
  "distinct_keys m \<Longrightarrow>
   map_of (filter P m) k =
     (case map_of m k of None \<Rightarrow> None | Some v \<Rightarrow> if P (k, v) then Some v else None)"
proof (induction m)
  case Nil
  then show ?case by simp
next
  case (Cons p m)
  obtain a b where p: "p = (a, b)" by (cases p)
  show ?case
  proof (cases "k = a")
    case True
    with Cons.prems p have "map_of m k = None"
      by (simp add: map_of_eq_None_iff)
    with True Cons p show ?thesis by simp
  next
    case False
    with Cons p show ?thesis by simp
  qed
qed

lemma map_of_fold_update:
  "map_of (fold (\<lambda>(k, v). AList.update k v) ps m) = map_of m ++ map_of (rev ps)"
  by (induction ps arbitrary: m) (auto simp: jsmap_simps map_add_def fun_eq_iff split: option.splits)

lemma map_of_map_from_pairs [jsmap_simps]: "map_of (map_from_pairs ps) = map_of (rev ps)"
  by (simp add: map_from_pairs_def map_of_fold_update)

lemma distinct_keys_fold_update:
  "distinct_keys m \<Longrightarrow> distinct_keys (fold (\<lambda>(k, v). AList.update k v) ps m)"
  by (induction ps arbitrary: m) auto

lemma distinct_keys_map_from_pairs [simp]: "distinct_keys (map_from_pairs ps)"
  by (simp add: map_from_pairs_def distinct_keys_fold_update)

lemma distinct_keys_map_of_iff: "distinct_keys m \<Longrightarrow> map_of m k = Some v \<longleftrightarrow> (k, v) \<in> set m"
  by (auto simp: distinct_keys_def intro: map_of_SomeD)

lemma distinct_keys_rev [simp]: "distinct_keys (rev m) \<longleftrightarrow> distinct_keys m"
  by (simp add: distinct_keys_def flip: rev_map)

lemma map_of_rev_distinct:
  assumes "distinct_keys m"
  shows "map_of (rev m) = map_of m"
proof
  fix k
  have "map_of (rev m) k = Some v \<longleftrightarrow> map_of m k = Some v" for v
    using assms by (simp add: distinct_keys_map_of_iff)
  then show "map_of (rev m) k = map_of m k"
    by (metis option.exhaust)
qed

lemma find_SomeD: "find P xs = Some x \<Longrightarrow> x \<in> set xs \<and> P x"
  by (auto simp: find_Some_iff)

subsection \<open>Optional values, ordered with \<open>None\<close> least\<close>

lemma option_le_None_iff [simp]: "(x :: 'a :: linorder option) \<le> None \<longleftrightarrow> x = None"
  by (cases x) auto

lemma option_less_Some_iff: "x < Some (v :: 'a :: linorder) \<longleftrightarrow> (case x of None \<Rightarrow> True | Some y \<Rightarrow> y < v)"
  by (cases x) auto

lemma max_None [simp]:
  "max None x = (x :: 'a :: linorder option)" "max x None = (x :: 'a :: linorder option)"
  by (auto simp: max_def)

lemma max_Some_Some [simp]: "max (Some a) (Some b) = Some (max a (b :: 'a :: linorder))"
  by (auto simp: max_def)

subsection \<open>Interfaces\<close>

text \<open>What a client may rely on when it reads and writes one value per key.\<close>

locale keyed_store =
  fixes get :: "'s \<Rightarrow> 'k \<Rightarrow> 'v option"
    and put :: "'k \<Rightarrow> 'v \<Rightarrow> 's \<Rightarrow> 's"
    and del :: "'k \<Rightarrow> 's \<Rightarrow> 's"
  assumes get_put: "get (put k v s) k' = (if k' = k then Some v else get s k')"
    and get_del: "get (del k s) k' = (if k' = k then None else get s k')"
begin

lemma put_shadows: "get (put k v (put k w s)) = get (put k v s)"
  by (auto simp: get_put)

lemma del_put: "get (del k (put k v s)) = get (del k s)"
  by (auto simp: get_put get_del)

lemma get_fold_put_other:
  "k \<notin> fst ` set ps \<Longrightarrow> get (fold (\<lambda>(k, v). put k v) ps s) k = get s k"
  by (induction ps arbitrary: s) (auto simp: get_put)

lemma get_fold_del: "get (fold del ks s) k = (if k \<in> set ks then None else get s k)"
  by (induction ks arbitrary: s) (auto simp: get_del)

end

interpretation js_store: keyed_store map_of AList.update AList.delete
  by unfold_locales (auto simp: jsmap_simps)

text \<open>
  A component whose operations may be refused (an error leaves the caller's state as it
  was) and which promises an invariant.
\<close>

locale guarded_machine =
  fixes step :: "'op \<Rightarrow> 's \<Rightarrow> 'e + 's"
    and inv :: "'s \<Rightarrow> bool"
  assumes step_inv: "inv s \<Longrightarrow> step x s = Inr s' \<Longrightarrow> inv s'"
begin

fun run :: "'op list \<Rightarrow> 's \<Rightarrow> 's" where
  "run [] s = s"
| "run (x # xs) s = (case step x s of Inl e \<Rightarrow> run xs s | Inr s' \<Rightarrow> run xs s')"

lemma run_inv: "inv s \<Longrightarrow> inv (run xs s)"
  by (induction xs arbitrary: s) (auto split: sum.splits intro: step_inv)

end

text \<open>
  A replicated component: \<open>merge\<close> combines two well-formed states, \<open>obs\<close> is what can be
  observed of a state, and on observations merging is an idempotent commutative semigroup
  \<open>join\<close>. What is proved here once is that gossip order and repetition do not matter.
\<close>

locale convergent =
  fixes merge :: "'s \<Rightarrow> 's \<Rightarrow> 's"
    and inv :: "'s \<Rightarrow> bool"
    and obs :: "'s \<Rightarrow> 'o"
    and join :: "'o \<Rightarrow> 'o \<Rightarrow> 'o"
  assumes inv_merge: "inv a \<Longrightarrow> inv b \<Longrightarrow> inv (merge a b)"
    and obs_merge: "inv a \<Longrightarrow> inv b \<Longrightarrow> obs (merge a b) = join (obs a) (obs b)"
    and join_comm: "join (obs a) (obs b) = join (obs b) (obs a)"
    and join_assoc: "join (join (obs a) (obs b)) (obs c) = join (obs a) (join (obs b) (obs c))"
    and join_idem: "join (obs a) (obs a) = obs a"
begin

lemma merge_comm: "inv a \<Longrightarrow> inv b \<Longrightarrow> obs (merge a b) = obs (merge b a)"
  by (simp add: obs_merge join_comm)

lemma merge_assoc:
  "inv a \<Longrightarrow> inv b \<Longrightarrow> inv c \<Longrightarrow> obs (merge (merge a b) c) = obs (merge a (merge b c))"
  by (simp add: obs_merge inv_merge join_assoc)

lemma merge_idem: "inv a \<Longrightarrow> obs (merge a a) = obs a"
  by (simp add: obs_merge join_idem)

lemma merge_left_comm:
  assumes "inv a" "inv b" "inv c"
  shows "obs (merge (merge a b) c) = obs (merge (merge a c) b)"
proof -
  have "obs (merge (merge a b) c) = join (obs a) (join (obs b) (obs c))"
    using assms by (simp add: obs_merge inv_merge join_assoc)
  also have "\<dots> = join (obs a) (join (obs c) (obs b))"
    by (simp add: join_comm)
  also have "\<dots> = obs (merge (merge a c) b)"
    using assms by (simp add: obs_merge inv_merge join_assoc)
  finally show ?thesis .
qed

lemma merge_absorb: "inv a \<Longrightarrow> inv b \<Longrightarrow> obs (merge (merge a b) b) = obs (merge a b)"
  by (simp add: obs_merge inv_merge join_assoc join_idem)

text \<open>A device that receives the payloads \<open>xs\<close> one after the other.\<close>

definition absorb_all :: "'s list \<Rightarrow> 's \<Rightarrow> 's" where
  "absorb_all xs s = fold (\<lambda>x acc. merge acc x) xs s"

lemma absorb_all_Nil [simp]: "absorb_all [] s = s"
  by (simp add: absorb_all_def)

lemma absorb_all_Cons: "absorb_all (x # xs) s = absorb_all xs (merge s x)"
  by (simp add: absorb_all_def)

lemma inv_absorb_all: "inv s \<Longrightarrow> list_all inv xs \<Longrightarrow> inv (absorb_all xs s)"
  by (induction xs arbitrary: s) (auto simp: absorb_all_Cons inv_merge)

lemma absorb_all_cong:
  "obs s = obs t \<Longrightarrow> inv s \<Longrightarrow> inv t \<Longrightarrow> list_all inv xs \<Longrightarrow>
   obs (absorb_all xs s) = obs (absorb_all xs t)"
  by (induction xs arbitrary: s t) (auto simp: absorb_all_Cons obs_merge inv_merge)

lemma absorb_all_merge:
  "inv s \<Longrightarrow> inv x \<Longrightarrow> list_all inv xs \<Longrightarrow>
   obs (absorb_all xs (merge s x)) = obs (merge (absorb_all xs s) x)"
proof (induction xs arbitrary: s)
  case Nil
  then show ?case by simp
next
  case (Cons y ys)
  then have "obs (absorb_all (y # ys) (merge s x)) = obs (absorb_all ys (merge (merge s y) x))"
    unfolding absorb_all_Cons by (intro absorb_all_cong merge_left_comm inv_merge) auto
  also have "\<dots> = obs (merge (absorb_all (y # ys) s) x)"
    using Cons by (simp add: absorb_all_Cons inv_merge)
  finally show ?case .
qed

lemma absorb_known:
  "inv s \<Longrightarrow> list_all inv xs \<Longrightarrow> x \<in> set xs \<Longrightarrow>
   obs (merge (absorb_all xs s) x) = obs (absorb_all xs s)"
proof (induction xs arbitrary: s)
  case Nil
  then show ?case by simp
next
  case (Cons y ys)
  show ?case
  proof (cases "x \<in> set ys")
    case True
    with Cons show ?thesis by (simp add: absorb_all_Cons inv_merge)
  next
    case False
    with Cons.prems have x: "x = y" and inv: "inv y" "list_all inv ys" by auto
    have "obs (merge (absorb_all (y # ys) s) x) = obs (absorb_all ys (merge (merge s y) y))"
      using Cons.prems inv by (simp add: x absorb_all_Cons absorb_all_merge inv_merge)
    also have "\<dots> = obs (absorb_all (y # ys) s)"
      unfolding absorb_all_Cons using Cons.prems inv
      by (intro absorb_all_cong merge_absorb inv_merge) auto
    finally show ?thesis .
  qed
qed

lemma absorb_all_subset:
  "inv s \<Longrightarrow> list_all inv xs \<Longrightarrow> set ys \<subseteq> set xs \<Longrightarrow>
   obs (absorb_all ys (absorb_all xs s)) = obs (absorb_all xs s)"
proof (induction ys)
  case Nil
  then show ?case by simp
next
  case (Cons y ys)
  have "inv y" "list_all inv ys"
    using Cons.prems by (auto simp: list_all_iff)
  with Cons.prems have
    "obs (absorb_all (y # ys) (absorb_all xs s)) = obs (absorb_all ys (absorb_all xs s))"
    unfolding absorb_all_Cons by (intro absorb_all_cong absorb_known inv_merge inv_absorb_all) auto
  with Cons show ?case by simp
qed

lemma absorb_all_swap:
  "inv s \<Longrightarrow> list_all inv xs \<Longrightarrow> list_all inv ys \<Longrightarrow>
   obs (absorb_all ys (absorb_all xs s)) = obs (absorb_all xs (absorb_all ys s))"
proof (induction ys arbitrary: s)
  case Nil
  then show ?case by simp
next
  case (Cons y ys)
  then have "obs (absorb_all (y # ys) (absorb_all xs s)) = obs (absorb_all ys (absorb_all xs (merge s y)))"
    unfolding absorb_all_Cons
    by (intro absorb_all_cong absorb_all_merge [symmetric] inv_merge inv_absorb_all) auto
  also have "\<dots> = obs (absorb_all xs (absorb_all (y # ys) s))"
    using Cons by (simp add: absorb_all_Cons inv_merge)
  finally show ?case .
qed

lemma gossip_order_irrelevant:
  assumes "inv s" "list_all inv xs" "set xs = set ys"
  shows "obs (absorb_all xs s) = obs (absorb_all ys s)"
proof -
  have ys: "list_all inv ys"
    using assms by (simp add: list_all_iff)
  have "obs (absorb_all xs s) = obs (absorb_all ys (absorb_all xs s))"
    using assms by (simp add: absorb_all_subset)
  also have "\<dots> = obs (absorb_all xs (absorb_all ys s))"
    using assms ys by (simp add: absorb_all_swap)
  also have "\<dots> = obs (absorb_all ys s)"
    using assms ys by (simp add: absorb_all_subset)
  finally show ?thesis .
qed

end

text \<open>
  A self-delimiting encoding, read one item at a time from the front of a stream. The
  decoder is told the index of the item it reads (for its error messages) and returns the
  rest of the stream. It reads back what was written, and never looks beyond what it
  consumes; both facts lift to sequences.
\<close>

locale prefix_codec =
  fixes enc :: "'a \<Rightarrow> 'b list"
    and dec :: "nat \<Rightarrow> 'b list \<Rightarrow> 'e + ('a \<times> 'b list)"
    and ok :: "'a \<Rightarrow> bool"
  assumes dec_enc: "ok x \<Longrightarrow> dec i (enc x @ r) = Inr (x, r)"
    and dec_extend: "dec i bs = Inr (x, r) \<Longrightarrow> dec i (bs @ t) = Inr (x, r @ t)"
    and dec_ok: "dec i bs = Inr (x, r) \<Longrightarrow> ok x"
begin

fun dec_many :: "nat \<Rightarrow> nat \<Rightarrow> 'b list \<Rightarrow> 'e + ('a list \<times> 'b list)" where
  "dec_many i 0 bs = Inr ([], bs)"
| "dec_many i (Suc n) bs =
     (case dec i bs of
        Inl e \<Rightarrow> Inl e
      | Inr (x, r) \<Rightarrow> (case dec_many (Suc i) n r of Inl e \<Rightarrow> Inl e | Inr (xs, r') \<Rightarrow> Inr (x # xs, r')))"

lemma dec_many_enc: "list_all ok xs \<Longrightarrow> dec_many i (length xs) (concat (map enc xs) @ r) = Inr (xs, r)"
  by (induction xs arbitrary: i) (auto simp: dec_enc)

lemma dec_many_extend: "dec_many i n bs = Inr (xs, r) \<Longrightarrow> dec_many i n (bs @ t) = Inr (xs, r @ t)"
  by (induction n arbitrary: i bs xs r)
    (auto simp: dec_extend split: sum.splits prod.splits)

lemma dec_many_ok: "dec_many i n bs = Inr (xs, r) \<Longrightarrow> list_all ok xs \<and> length xs = n"
proof (induction n arbitrary: i bs xs r)
  case (Suc n)
  then obtain x r1 ys where x: "dec i bs = Inr (x, r1)"
    and ys: "dec_many (Suc i) n r1 = Inr (ys, r)" and xs: "xs = x # ys"
    by (auto split: sum.splits prod.splits)
  show ?case
    using Suc.IH [OF ys] dec_ok [OF x] xs by simp
qed simp

end

end
