(* ===== verification/Js_Text.thy ===== *)
theory Js_Text
  imports Vault_Prelude
begin

text \<open>
  Text the code builds with JavaScript's own functions: decimal rendering of a non-negative
  safe integer (\<open>String(n)\<close>, template literals, \<open>JSON.stringify\<close> of a number), and
  \<open>JSON.stringify\<close> of a string and of a flat array. Zod's \<open>int()\<close> admits safe integers
  only, which print without an exponent.
\<close>

definition is_digit :: "char \<Rightarrow> bool" where
  "is_digit c \<longleftrightarrow> 48 \<le> (of_char c :: nat) \<and> (of_char c :: nat) \<le> 57"

definition digit_char :: "nat \<Rightarrow> char" where
  "digit_char d = char_of (48 + d)"

fun dec :: "nat \<Rightarrow> string" where
  "dec n = (if n < 10 then [digit_char n] else dec (n div 10) @ [digit_char (n mod 10)])"

declare dec.simps [simp del]

definition undec :: "string \<Rightarrow> nat" where
  "undec s = foldl (\<lambda>a c. 10 * a + (of_char c - 48)) 0 s"

lemma of_digit_char: "d < 10 \<Longrightarrow> of_char (digit_char d) = 48 + d"
  by (simp add: digit_char_def)

lemma digit_char_digit [simp]: "d < 10 \<Longrightarrow> is_digit (digit_char d)"
  by (simp add: is_digit_def of_digit_char)

lemma undec_snoc: "undec (s @ [c]) = 10 * undec s + (of_char c - 48)"
  by (simp add: undec_def)

lemma undec_dec [simp]: "undec (dec n) = n"
proof (induction n rule: dec.induct)
  case (1 n)
  show ?case
  proof (cases "n < 10")
    case True
    then show ?thesis
      by (subst dec.simps) (simp add: undec_def of_digit_char)
  next
    case False
    with "1.IH" have "undec (dec n) = 10 * (n div 10) + n mod 10"
      by (subst dec.simps) (simp add: undec_snoc of_digit_char)
    then show ?thesis by simp
  qed
qed

lemma dec_inj: "dec m = dec n \<longleftrightarrow> m = n"
  by (metis undec_dec)

lemma dec_digits: "list_all is_digit (dec n)"
proof (induction n rule: dec.induct)
  case (1 n)
  show ?case
    by (subst dec.simps) (use "1.IH" in auto)
qed

lemma dec_nonempty [simp]: "dec n \<noteq> []"
  by (subst dec.simps) auto

lemma takeWhile_digits: "list_all is_digit s \<Longrightarrow> \<not> is_digit c \<Longrightarrow> takeWhile is_digit (s @ c # r) = s"
  by (induction s) auto

lemma dec_split:
  assumes "dec m @ c # r = dec n @ c # r'" and "\<not> is_digit c"
  shows "m = n \<and> r = r'"
proof -
  have "dec m = dec n"
    using takeWhile_digits [OF dec_digits assms(2)] assms(1) by metis
  with assms(1) show ?thesis
    by (simp add: dec_inj)
qed

text \<open>\<open>padStart(w, "0")\<close>.\<close>

definition pad_start :: "nat \<Rightarrow> string \<Rightarrow> string" where
  "pad_start w s = replicate (w - length s) (CHR ''0'') @ s"

lemma dec_length: "n < 10 ^ Suc k \<Longrightarrow> length (dec n) \<le> Suc k"
proof (induction k arbitrary: n)
  case 0
  then show ?case by (subst dec.simps) simp
next
  case (Suc k)
  show ?case
  proof (cases "n < 10")
    case False
    have "n div 10 < 10 ^ Suc k"
      using Suc.prems by (simp add: less_mult_imp_div_less mult.commute)
    with Suc.IH [OF this] False show ?thesis
      by (subst dec.simps) simp
  qed (subst dec.simps, simp)
qed

lemma undec_zeros: "undec (replicate k (CHR ''0'') @ s) = undec s"
  by (induction k) (simp_all add: undec_def)

lemma padded_dec:
  assumes "n < 10 ^ w" "0 < w"
  shows "length (pad_start w (dec n)) = w" "undec (pad_start w (dec n)) = n" "list_all is_digit (pad_start w (dec n))"
  using dec_length [of n "w - 1"] dec_digits [of n] assms
  by (auto simp: pad_start_def undec_zeros list_all_iff is_digit_def)

text \<open>Numerals of one width compare as their numbers do.\<close>

lemma undec_Cons: "undec (c # s) = (of_char c - 48) * 10 ^ length s + undec s"
proof (induction s rule: rev_induct)
  case (snoc d s)
  have "undec ((c # s) @ [d]) = 10 * undec (c # s) + (of_char d - 48)"
    by (rule undec_snoc)
  with snoc undec_snoc [of s d] show ?case
    by (simp add: algebra_simps)
qed (simp add: undec_def)

lemma undec_less: "list_all is_digit s \<Longrightarrow> undec s < 10 ^ length s"
proof (induction s)
  case (Cons c s)
  then have "(of_char c - 48 :: nat) \<le> 9" "undec s < 10 ^ length s"
    by (auto simp: is_digit_def)
  then have "(of_char c - 48) * 10 ^ length s + undec s < 9 * 10 ^ length s + 10 ^ length s"
    by (meson add_le_less_mono mult_le_mono1)
  then show ?case
    by (simp add: undec_Cons)
qed (simp add: undec_def)

lemma numerals_less:
  assumes "length s = length t" "list_all is_digit s" "list_all is_digit t"
  shows "s < t \<longleftrightarrow> undec s < undec t"
  using assms
proof (induction s t rule: list_induct2)
  case (Cons c s d t)
  define b where "b = (10 :: nat) ^ length t"
  have small: "undec s < b" "undec t < b"
    using Cons.prems Cons.hyps undec_less [of s] undec_less [of t] by (simp_all add: b_def)
  have digits: "(of_char c :: nat) \<ge> 48" "(of_char d :: nat) \<ge> 48"
    using Cons.prems by (simp_all add: is_digit_def)
  have "(of_char c - 48) * b + undec s < (of_char d - 48) * b + undec t \<longleftrightarrow>
      (of_char c - 48 :: nat) < of_char d - 48 \<or> of_char c - 48 = (of_char d - 48 :: nat) \<and> undec s < undec t"
    (is "?m * b + _ < ?n * b + _ \<longleftrightarrow> _")
  proof (cases "?m" "?n" rule: linorder_cases)
    case less
    then have "Suc ?m * b \<le> ?n * b" by (intro mult_le_mono1) simp
    with less small show ?thesis by simp
  next
    case greater
    then have "Suc ?n * b \<le> ?m * b" by (intro mult_le_mono1) simp
    with greater small show ?thesis by simp
  qed simp
  moreover have "c < d \<longleftrightarrow> (of_char c - 48 :: nat) < of_char d - 48" "c = d \<longleftrightarrow> of_char c - 48 = (of_char d - 48 :: nat)"
    using digits eq_diff_iff [of 48 "of_char c :: nat" "of_char d"] by (auto simp: less_char_def)
  ultimately show ?case
    using Cons by (simp add: undec_Cons b_def)
qed simp

lemma append_less_append:
  fixes s t :: string
  assumes "length s = length t"
  shows "s @ r < t @ r' \<longleftrightarrow> s < t \<or> s = t \<and> r < r'"
  using assms by (induction s t rule: list_induct2) auto

lemma padded_less:
  assumes "m < 10 ^ w" "n < 10 ^ w" "0 < w"
  shows "pad_start w (dec m) @ r < pad_start w (dec n) @ r' \<longleftrightarrow> m < n \<or> m = n \<and> r < r'"
  using padded_dec [OF assms(1,3)] padded_dec [OF assms(2,3)]
    append_less_append [of "pad_start w (dec m)" "pad_start w (dec n)"]
    numerals_less [of "pad_start w (dec m)" "pad_start w (dec n)"]
  by (metis)

subsection \<open>JSON strings\<close>

definition hex_digit :: "nat \<Rightarrow> char" where
  "hex_digit d = (if d < 10 then char_of (48 + d) else char_of (87 + d))"

definition json_escape :: "char \<Rightarrow> string" where
  "json_escape c =
     (if c = CHR 0x22 then [CHR 0x5C, CHR 0x22]
      else if c = CHR 0x5C then [CHR 0x5C, CHR 0x5C]
      else if c = CHR 0x08 then [CHR 0x5C, CHR ''b'']
      else if c = CHR 0x0C then [CHR 0x5C, CHR ''f'']
      else if c = CHR 0x0A then [CHR 0x5C, CHR ''n'']
      else if c = CHR 0x0D then [CHR 0x5C, CHR ''r'']
      else if c = CHR 0x09 then [CHR 0x5C, CHR ''t'']
      else if (of_char c :: nat) < 32
           then [CHR 0x5C, CHR ''u'', CHR ''0'', CHR ''0'',
                 hex_digit (of_char c div 16), hex_digit (of_char c mod 16)]
      else [c])"

definition json_string :: "string \<Rightarrow> string" where
  "json_string s = CHR 0x22 # concat (map json_escape s) @ [CHR 0x22]"

fun json_join :: "string list \<Rightarrow> string" where
  "json_join [] = []"
| "json_join [x] = x"
| "json_join (x # y # xs) = x @ CHR '','' # json_join (y # xs)"

definition json_array :: "string list \<Rightarrow> string" where
  "json_array xs = CHR ''['' # json_join xs @ [CHR '']'']"

text \<open>\<open>JSON.stringify\<close> of an object whose fields are already rendered, and \<open>TextEncoder.encode\<close> of
  scalar values.\<close>

definition json_object :: "(string \<times> string) list \<Rightarrow> string" where
  "json_object kvs = CHR ''{'' # json_join (map (\<lambda>(k, v). json_string k @ CHR '':'' # v) kvs) @ [CHR ''}'']"

definition utf8 :: "nat \<Rightarrow> nat list" where
  "utf8 c =
     (if c < 128 then [c]
      else if c < 2048 then [192 + c div 64, 128 + c mod 64]
      else if c < 65536 then [224 + c div 4096, 128 + c div 64 mod 64, 128 + c mod 64]
      else [240 + c div 262144, 128 + c div 4096 mod 64, 128 + c div 64 mod 64, 128 + c mod 64])"

definition utf8_bytes :: "nat list \<Rightarrow> nat list" where
  "utf8_bytes s = concat (map utf8 s)"

text \<open>\<open>toLowerCase\<close> on the code units below 256.\<close>

definition lower_char :: "char \<Rightarrow> char" where
  "lower_char c =
     (let n = of_char c :: nat
      in if (65 \<le> n \<and> n \<le> 90) \<or> (192 \<le> n \<and> n \<le> 222 \<and> n \<noteq> 215) then char_of (n + 32) else c)"

definition to_lower :: "string \<Rightarrow> string" where
  "to_lower s = map lower_char s"

lemma lower_char_idem [simp]: "lower_char (lower_char c) = lower_char c"
proof -
  have "(of_char (char_of (of_char c + 32 :: nat)) :: nat) = (of_char c + 32) mod 256"
    by simp
  moreover have "(of_char c :: nat) + 32 < 256" if "(of_char c :: nat) \<le> 222"
    using that by simp
  ultimately show ?thesis by (auto simp: lower_char_def Let_def)
qed

lemma to_lower_idem [simp]: "to_lower (to_lower s) = to_lower s"
  by (simp add: to_lower_def)

lemma hex_digit_inj: "d < 16 \<Longrightarrow> e < 16 \<Longrightarrow> hex_digit d = hex_digit e \<Longrightarrow> d = e"
proof -
  assume "d < 16" "e < 16" "hex_digit d = hex_digit e"
  then have "(of_char (hex_digit d) :: nat) = of_char (hex_digit e)" by simp
  with \<open>d < 16\<close> \<open>e < 16\<close> show "d = e"
    by (simp add: hex_digit_def split: if_splits)
qed

lemma control_char_inj:
  assumes "hex_digit (of_char c div 16) = hex_digit (of_char d div 16)"
    and "hex_digit (of_char c mod 16) = hex_digit (of_char d mod 16)"
    and "(of_char c :: nat) < 32" "(of_char d :: nat) < 32"
  shows "c = d"
proof -
  have "(of_char c :: nat) div 16 = of_char d div 16"
    using assms(1,3,4) by (intro hex_digit_inj) auto
  moreover have "(of_char c :: nat) mod 16 = of_char d mod 16"
    using assms(2) by (intro hex_digit_inj) auto
  ultimately have "(of_char c :: nat) = of_char d"
    by (metis div_mult_mod_eq)
  then show ?thesis by simp
qed

lemma json_escape_prefix_free:
  "json_escape c @ xs = json_escape d @ ys \<Longrightarrow> c = d \<and> xs = ys"
  by (auto simp: json_escape_def split: if_splits dest: control_char_inj)

lemma json_escape_start: "json_escape c @ xs \<noteq> CHR 0x22 # ys"
  by (auto simp: json_escape_def)

lemma json_body_split:
  "concat (map json_escape s) @ CHR 0x22 # r = concat (map json_escape t) @ CHR 0x22 # r' \<Longrightarrow>
   s = t \<and> r = r'"
proof (induction s arbitrary: t)
  case Nil
  then show ?case
    using json_escape_start by (cases t) (auto, metis)
next
  case (Cons c s)
  show ?case
  proof (cases t)
    case Nil
    with Cons.prems show ?thesis
      using json_escape_start by (auto simp: append_assoc) 
  next
    case (Cons d t')
    with Cons.prems have
      "json_escape c @ (concat (map json_escape s) @ CHR 0x22 # r) =
       json_escape d @ (concat (map json_escape t') @ CHR 0x22 # r')"
      by simp
    then have "c = d" "concat (map json_escape s) @ CHR 0x22 # r = concat (map json_escape t') @ CHR 0x22 # r'"
      using json_escape_prefix_free by blast+
    with Cons.IH Cons show ?thesis by simp
  qed
qed

lemma json_string_split: "json_string s @ r = json_string t @ r' \<Longrightarrow> s = t \<and> r = r'"
  using json_body_split [of s r t r'] by (simp add: json_string_def)

lemma json_string_inj [simp]: "json_string s = json_string t \<longleftrightarrow> s = t"
  using json_string_split [of s "[]" t "[]"] by auto

subsection \<open>Trimming\<close>

text \<open>White space as \<open>trim\<close> and \<open>\s\<close> accept it among the code units below 256.\<close>

definition is_space :: "char \<Rightarrow> bool" where
  "is_space c \<longleftrightarrow> (let n = of_char c :: nat in (9 \<le> n \<and> n \<le> 13) \<or> n = 32 \<or> n = 160)"

definition strip :: "(char \<Rightarrow> bool) \<Rightarrow> string \<Rightarrow> string" where
  "strip P s = rev (dropWhile P (rev (dropWhile P s)))"

definition trim :: "string \<Rightarrow> string" where
  "trim s = strip is_space s"

lemma strip_subset: "set (strip P s) \<subseteq> set s"
  unfolding strip_def by (metis set_dropWhileD set_rev subsetI)

lemma dropWhile_hd: "dropWhile P s = c # t \<Longrightarrow> \<not> P c"
  by (metis dropWhile_eq_Cons_conv)

lemma dropWhile_rev_hd:
  assumes "\<not> P (hd s)" "s \<noteq> []"
  shows "dropWhile P (rev s) \<noteq> [] \<and> hd (rev (dropWhile P (rev s))) = hd s"
proof -
  obtain c t where s: "s = c # t"
    using assms(2) by (cases s) auto
  then have "dropWhile P (rev t @ [c]) = dropWhile P (rev t) @ [c]"
    using assms(1) by (metis dropWhile_append3 list.sel(1))
  with s show ?thesis by simp
qed

lemma strip_hd: "strip P s \<noteq> [] \<Longrightarrow> \<not> P (hd (strip P s))"
proof -
  assume ne: "strip P s \<noteq> []"
  then have d: "dropWhile P s \<noteq> []" by (metis dropWhile.simps(1) rev.simps(1) strip_def)
  then have "\<not> P (hd (dropWhile P s))" by (rule hd_dropWhile)
  with d show ?thesis
    using dropWhile_rev_hd [of P "dropWhile P s"] by (simp add: strip_def)
qed

lemma dropWhile_all: "list_all P xs \<Longrightarrow> dropWhile P (xs @ ys) = dropWhile P ys"
  by (induction xs) simp_all

lemma strip_surrounded:
  assumes "list_all P l" "list_all P r" "s \<noteq> []" "\<not> P (hd s)" "\<not> P (last s)"
  shows "strip P (l @ s @ r) = s"
proof -
  have "dropWhile P (l @ s @ r) = s @ r"
    using assms(1,3,4) by (cases s) (simp_all add: dropWhile_all)
  moreover have "dropWhile P (rev (s @ r)) = rev s"
  proof -
    have "list_all P (rev r)"
      using assms(2) by (simp add: list_all_iff)
    then show ?thesis
      using assms(3,5) by (cases s rule: rev_cases) (simp_all add: dropWhile_all)
  qed
  ultimately show ?thesis
    by (simp add: strip_def)
qed

lemma trim_surrounded:
  "list_all is_space l \<Longrightarrow> list_all is_space r \<Longrightarrow> s \<noteq> [] \<Longrightarrow> \<not> is_space (hd s) \<Longrightarrow> \<not> is_space (last s) \<Longrightarrow>
   trim (l @ s @ r) = s"
  by (simp add: trim_def strip_surrounded)

subsection \<open>Splitting and joining\<close>

text \<open>\<open>split\<close> at a single character, and \<open>join\<close>.\<close>

fun split_on :: "char \<Rightarrow> string \<Rightarrow> string list" where
  "split_on c [] = [[]]"
| "split_on c (x # xs) =
     (if x = c then [] # split_on c xs
      else (case split_on c xs of [] \<Rightarrow> [[x]] | w # ws \<Rightarrow> (x # w) # ws))"

fun join_with :: "string \<Rightarrow> string list \<Rightarrow> string" where
  "join_with sep [] = []"
| "join_with sep [w] = w"
| "join_with sep (v # w # ws) = v @ sep @ join_with sep (w # ws)"

lemma split_on_nonempty [simp]: "split_on c s \<noteq> []"
  by (induction s) (auto split: list.splits)

lemma split_on_append: "split_on c (a @ c # b) = split_on c a @ split_on c b"
  by (induction a) (auto split: list.splits)

lemma join_with_Cons: "ws \<noteq> [] \<Longrightarrow> join_with sep (w # ws) = w @ sep @ join_with sep ws"
  by (cases ws) simp_all

lemma join_split [simp]: "join_with [c] (split_on c s) = s"
proof (induction s)
  case (Cons x s)
  obtain w ws where "split_on c s = w # ws" by (cases "split_on c s") auto
  with Cons show ?case by (cases ws) auto
qed simp

lemma split_on_none: "c \<notin> set s \<Longrightarrow> split_on c s = [s]"
  by (induction s) auto

lemma split_on_prefixed: "c \<notin> set k \<Longrightarrow> split_on c (k @ s) = (k @ hd (split_on c s)) # tl (split_on c s)"
proof (induction k)
  case (Cons x k)
  then show ?case by auto
qed simp

lemma split_on_pieces: "w \<in> set (split_on c s) \<Longrightarrow> c \<notin> set w"
  by (induction s arbitrary: w) (auto split: list.splits if_splits)

end
