(* ===== verification/Entry_Data.thy ===== *)
theory Entry_Data
  imports Js_Text
begin

text \<open>
  Decrypted entries (the entry types of \<open>packages/core/src/hooks/useVault.tsx\<close>) and the pure
  rules about them: the password changelog (\<open>vault/password-changelog.ts\<close>), tags
  (\<open>vault/tags.ts\<close>) and the projection into the autofill index (\<open>vault/autofill-index.ts\<close>).

  Times are epoch milliseconds. The locale-aware lower-casing of \<open>tagKey\<close> is the argument
  \<open>lower\<close>, and the platform's URL parser is the argument \<open>url\<close>, which returns the protocol
  and the host name of a string it can parse and \<open>None\<close> where \<open>new URL\<close> throws. White space
  is what \<open>trim\<close> and \<open>\s\<close> accept among the code units below 256.
\<close>

subsection \<open>Entries\<close>

record custom_field =
  cf_key :: string
  cf_value :: string
  cf_hidden :: "bool option"

record passkey =
  pk_credentialId :: string
  pk_rpId :: string
  pk_rpName :: "string option"
  pk_userHandle :: string
  pk_userName :: "string option"
  pk_userDisplayName :: "string option"
  pk_alg :: int
  pk_publicKeyCose :: string
  pk_privateKey :: string
  pk_signCount :: nat
  pk_createdAt :: nat
  pk_lastUsedAt :: "nat option"

record password_change =
  pc_value :: string
  pc_changedAt :: nat

datatype subdomain_match = ETLD1 | Exact | Subdomain

record breach_status =
  br_leaked :: bool
  br_checkedAt :: nat

record login_data =
  lg_urls :: "string list"
  lg_username :: string
  lg_password :: string
  lg_totp :: "string option"
  lg_breach :: "breach_status option"
  lg_autofillEnabled :: "bool option"
  lg_autoSubmit :: "bool option"
  lg_subdomainMatch :: "subdomain_match option"
  lg_passkeys :: "passkey list option"
  lg_passwordChangelog :: "password_change list option"

record card_data =
  cd_cardholderName :: string
  cd_number :: string
  cd_brand :: "string option"
  cd_expMonth :: string
  cd_expYear :: string
  cd_cvv :: string

record ssh_data =
  sk_publicKey :: string
  sk_privateKey :: string
  sk_passphrase :: "string option"
  sk_keyType :: "string option"

datatype entry_body = Login login_data | Card card_data | Note | SshKey ssh_data

record entry_data =
  en_name :: string
  en_notes :: "string option"
  en_customFields :: "custom_field list option"
  en_createdAt :: "nat option"
  en_updatedAt :: "nat option"
  en_lastUsedAt :: "nat option"
  en_archivedAt :: "nat option"
  en_tags :: "string list option"
  en_body :: entry_body

record entry = entry_data +
  en_id :: string

text \<open>\<open>{ id, ...data }\<close> and \<open>const { id, ...data } = entry\<close>.\<close>

definition with_id :: "string \<Rightarrow> entry_data \<Rightarrow> entry" where
  "with_id i d = entry_data.extend d \<lparr>en_id = i\<rparr>"

definition without_id :: "entry \<Rightarrow> entry_data" where
  "without_id e = entry_data.truncate e"

lemma with_id_simps [simp]:
  "en_id (with_id i d) = i" "without_id (with_id i d) = d"
  by (simp_all add: with_id_def without_id_def entry_data.defs)

lemma with_without_id [simp]: "with_id (en_id e) (without_id e) = e"
  by (simp add: with_id_def without_id_def entry_data.defs)

subsection \<open>The password changelog\<close>

definition MAX_PASSWORD_CHANGELOG :: nat where
  "MAX_PASSWORD_CHANGELOG = 5"

definition nextPasswordChangelog ::
  "entry option \<Rightarrow> login_data \<Rightarrow> nat \<Rightarrow> password_change list option" where
  "nextPasswordChangelog prev nxt changedAt =
     (case prev of
        None \<Rightarrow> None
      | Some p \<Rightarrow>
          (case en_body p of
             Login old \<Rightarrow>
               (let kept = (case lg_passwordChangelog old of None \<Rightarrow> [] | Some l \<Rightarrow> l)
                in if lg_password old = lg_password nxt \<or> lg_password old = []
                   then (if length kept > 0 then Some kept else None)
                   else Some (take MAX_PASSWORD_CHANGELOG
                          (\<lparr>pc_value = lg_password old, pc_changedAt = changedAt\<rparr> # kept)))
           | _ \<Rightarrow> None))"

definition withPasswordChangelog :: "entry \<Rightarrow> entry option \<Rightarrow> nat \<Rightarrow> entry" where
  "withPasswordChangelog nxt prev changedAt =
     (case en_body nxt of
        Login l \<Rightarrow>
          nxt\<lparr>en_body := Login (l\<lparr>lg_passwordChangelog := nextPasswordChangelog prev l changedAt\<rparr>)\<rparr>
      | _ \<Rightarrow> nxt)"

definition changelog_of :: "entry \<Rightarrow> password_change list" where
  "changelog_of e =
     (case en_body e of
        Login l \<Rightarrow> (case lg_passwordChangelog l of None \<Rightarrow> [] | Some c \<Rightarrow> c)
      | _ \<Rightarrow> [])"

subsection \<open>Tags\<close>

definition MAX_TAG_LENGTH :: nat where
  "MAX_TAG_LENGTH = 64"

definition MAX_TAGS_PER_ENTRY :: nat where
  "MAX_TAGS_PER_ENTRY = 32"

text \<open>\<open>replace(/\s+/g, "-")\<close>.\<close>

fun hyphenate :: "string \<Rightarrow> string" where
  "hyphenate [] = []"
| "hyphenate (c # s) =
     (if is_space c
      then (case s of [] \<Rightarrow> [CHR ''-''] | d # _ \<Rightarrow> if is_space d then hyphenate s else CHR ''-'' # hyphenate s)
      else c # hyphenate s)"

definition tagKey :: "(string \<Rightarrow> string) \<Rightarrow> string \<Rightarrow> string" where
  "tagKey lower tag = lower (trim tag)"

text \<open>One candidate, cleaned.\<close>

definition clean_tag :: "string \<Rightarrow> string" where
  "clean_tag s =
     take MAX_TAG_LENGTH
       (strip (\<lambda>c. c = CHR ''-'') (hyphenate (dropWhile (\<lambda>c. c = CHR ''#'') (trim s))))"

text \<open>
  The loop of \<open>normalizeTags\<close>. The check for a full list follows a push, so it runs only
  when a tag was added.
\<close>

fun normalize_loop ::
  "(string \<Rightarrow> string) \<Rightarrow> string list \<Rightarrow> string set \<Rightarrow> string list \<Rightarrow> string list" where
  "normalize_loop lower [] seen out = out"
| "normalize_loop lower (candidate # raw) seen out =
     (let tag = clean_tag candidate; key = tagKey lower tag
      in if tag = [] then normalize_loop lower raw seen out
         else if key \<in> seen then normalize_loop lower raw seen out
         else if length (out @ [tag]) \<ge> MAX_TAGS_PER_ENTRY then out @ [tag]
         else normalize_loop lower raw (insert key seen) (out @ [tag]))"

definition normalizeTags :: "(string \<Rightarrow> string) \<Rightarrow> string list option \<Rightarrow> string list option" where
  "normalizeTags lower raw =
     (case raw of
        None \<Rightarrow> None
      | Some cs \<Rightarrow>
          (let out = normalize_loop lower cs {} [] in if length out > 0 then Some out else None))"

definition tagsEqual :: "string list option \<Rightarrow> string list option \<Rightarrow> bool" where
  "tagsEqual a b \<longleftrightarrow>
     (case (a, b) of
        (None, None) \<Rightarrow> True
      | (Some x, Some y) \<Rightarrow> length x = length y \<and> list_all2 (=) x y
      | _ \<Rightarrow> False)"

definition hasTagKey :: "(string \<Rightarrow> string) \<Rightarrow> entry \<Rightarrow> string \<Rightarrow> bool" where
  "hasTagKey lower e key \<longleftrightarrow>
     list_ex (\<lambda>t. tagKey lower t = key) (case en_tags e of None \<Rightarrow> [] | Some ts \<Rightarrow> ts)"

text \<open>The vocabulary before it is sorted for display (the sort is the platform's collation).\<close>

definition tag_vocabulary :: "(string \<Rightarrow> string) \<Rightarrow> entry list \<Rightarrow> string jsmap" where
  "tag_vocabulary lower es =
     fold (\<lambda>e m. fold (\<lambda>t m. let key = tagKey lower t
                             in if key \<noteq> [] \<and> map_of m key = None then AList.update key t m else m)
                 (case en_tags e of None \<Rightarrow> [] | Some ts \<Rightarrow> ts) m) es []"

subsection \<open>The autofill index\<close>

type_synonym url_parser = "string \<Rightarrow> (string \<times> string) option"

definition APP_URI_SCHEMES :: "string list" where
  "APP_URI_SCHEMES = [''androidapp:'', ''android:'', ''iosapp:'', ''ios:'', ''appid:'']"

text \<open>A parsed protocol is already lower case.\<close>

definition isAppUri :: "url_parser \<Rightarrow> string \<Rightarrow> bool" where
  "isAppUri url s \<longleftrightarrow> (case url s of None \<Rightarrow> False | Some (protocol, _) \<Rightarrow> protocol \<in> set APP_URI_SCHEMES)"

definition appIdFromUri :: "url_parser \<Rightarrow> string \<Rightarrow> string option" where
  "appIdFromUri url s =
     (if \<not> isAppUri url s then None
      else (case url s of None \<Rightarrow> None | Some (_, host) \<Rightarrow> if length host > 0 then Some host else None))"

definition extractHostname :: "url_parser \<Rightarrow> string \<Rightarrow> string" where
  "extractHostname url s =
     (if isAppUri url s then [] else (case url s of None \<Rightarrow> s | Some (_, host) \<Rightarrow> host))"

definition autofillCustomFields :: "custom_field list option \<Rightarrow> (string \<times> string) list option" where
  "autofillCustomFields fs =
     (case fs of
        None \<Rightarrow> None
      | Some l \<Rightarrow>
          (let out = map (\<lambda>f. (cf_key f, cf_value f)) (filter (\<lambda>f. cf_value f \<noteq> []) l)
           in if length out > 0 then Some out else None))"

record login_index =
  li_id :: string
  li_hostnames :: "string list"
  li_name :: string
  li_username :: string
  li_password :: string
  li_totp :: "string option"
  li_customFields :: "(string \<times> string) list option"
  li_autofillEnabled :: "bool option"
  li_autoSubmit :: "bool option"
  li_subdomainMatch :: "subdomain_match option"
  li_passkeys :: "passkey list option"

record card_index =
  ci_id :: string
  ci_name :: string
  ci_brand :: "string option"
  ci_cardholderName :: string
  ci_number :: string
  ci_expMonth :: string
  ci_expYear :: string
  ci_cvv :: string
  ci_customFields :: "(string \<times> string) list option"

datatype index_entry = LoginIndex login_index | CardIndex card_index

definition loginIndexEntry :: "url_parser \<Rightarrow> entry \<Rightarrow> login_data \<Rightarrow> login_index" where
  "loginIndexEntry url e l =
     \<lparr>li_id = en_id e,
      li_hostnames = filter (\<lambda>h. length h > 0) (map (extractHostname url) (lg_urls l)),
      li_name = en_name e, li_username = lg_username l, li_password = lg_password l,
      li_totp = lg_totp l, li_customFields = autofillCustomFields (en_customFields e),
      li_autofillEnabled = lg_autofillEnabled l, li_autoSubmit = lg_autoSubmit l,
      li_subdomainMatch = lg_subdomainMatch l,
      li_passkeys = (case lg_passkeys l of None \<Rightarrow> None | Some [] \<Rightarrow> None | Some ps \<Rightarrow> Some ps)\<rparr>"

definition cardIndexEntry :: "entry \<Rightarrow> card_data \<Rightarrow> card_index" where
  "cardIndexEntry e c =
     \<lparr>ci_id = en_id e, ci_name = en_name e, ci_brand = cd_brand c,
      ci_cardholderName = cd_cardholderName c, ci_number = cd_number c,
      ci_expMonth = cd_expMonth c, ci_expYear = cd_expYear c, ci_cvv = cd_cvv c,
      ci_customFields = autofillCustomFields (en_customFields e)\<rparr>"

fun toAutofillIndex :: "url_parser \<Rightarrow> entry list \<Rightarrow> index_entry list" where
  "toAutofillIndex url [] = []"
| "toAutofillIndex url (e # es) =
     (if en_archivedAt e \<noteq> None then toAutofillIndex url es
      else (case en_body e of
              Login l \<Rightarrow> LoginIndex (loginIndexEntry url e l) # toAutofillIndex url es
            | Card c \<Rightarrow> CardIndex (cardIndexEntry e c) # toAutofillIndex url es
            | _ \<Rightarrow> toAutofillIndex url es))"

fun index_id :: "index_entry \<Rightarrow> string" where
  "index_id (LoginIndex l) = li_id l"
| "index_id (CardIndex c) = ci_id c"

subsection \<open>Cleaned tags\<close>

lemma hyphenate_no_space: "c \<in> set (hyphenate s) \<Longrightarrow> \<not> is_space c"
proof (induction s rule: hyphenate.induct)
  case (2 d s)
  then show ?case
    by (auto split: if_splits list.splits simp: is_space_def)
qed simp

definition tag_ok :: "string \<Rightarrow> bool" where
  "tag_ok t \<longleftrightarrow> t \<noteq> [] \<and> length t \<le> MAX_TAG_LENGTH \<and> list_all (\<lambda>c. \<not> is_space c) t \<and> hd t \<noteq> CHR ''-''"

lemma clean_tag_ok: "clean_tag s \<noteq> [] \<Longrightarrow> tag_ok (clean_tag s)"
  using strip_hd [of "\<lambda>c. c = CHR ''-''" "hyphenate (dropWhile (\<lambda>c. c = CHR ''#'') (trim s))"]
    strip_subset [of "\<lambda>c. c = CHR ''-''" "hyphenate (dropWhile (\<lambda>c. c = CHR ''#'') (trim s))"]
  by (auto simp: tag_ok_def clean_tag_def list_all_iff MAX_TAG_LENGTH_def
      dest!: in_set_takeD dest: hyphenate_no_space)

definition tags_ok :: "(string \<Rightarrow> string) \<Rightarrow> string list \<Rightarrow> bool" where
  "tags_ok lower ts \<longleftrightarrow>
     list_all tag_ok ts \<and> distinct (map (tagKey lower) ts) \<and> length ts \<le> MAX_TAGS_PER_ENTRY"

lemma normalize_loop_ok:
  "tags_ok lower out \<Longrightarrow> seen = tagKey lower ` set out \<Longrightarrow> length out < MAX_TAGS_PER_ENTRY \<Longrightarrow>
   tags_ok lower (normalize_loop lower raw seen out)"
proof (induction lower raw seen out rule: normalize_loop.induct)
  case (2 lower candidate raw seen out)
  let ?tag = "clean_tag candidate"
  show ?case
  proof (cases "?tag = [] \<or> tagKey lower ?tag \<in> seen")
    case True
    with "2.IH"(1,2) "2.prems" show ?thesis by (auto simp: Let_def)
  next
    case False
    then have ok: "tags_ok lower (out @ [?tag])"
      using "2.prems" clean_tag_ok [of candidate] by (auto simp: tags_ok_def)
    with False "2.IH"(3) "2.prems" show ?thesis by (auto simp: Let_def)
  qed
qed simp

subsection \<open>Properties\<close>

text \<open>A login edited again and again, each edit saved through \<open>withPasswordChangelog\<close>.\<close>

fun edits :: "entry \<Rightarrow> (login_data \<times> nat) list \<Rightarrow> entry" where
  "edits e [] = e"
| "edits e ((l, t) # es) = edits (withPasswordChangelog (e\<lparr>en_body := Login l\<rparr>) (Some e) t) es"

text \<open>The replaced passwords, newest first: a row per edit that replaces a non-blank password.\<close>

fun superseded :: "string \<Rightarrow> (login_data \<times> nat) list \<Rightarrow> password_change list \<Rightarrow> password_change list" where
  "superseded p [] acc = acc"
| "superseded p ((l, t) # es) acc =
     superseded (lg_password l) es
       (if p = lg_password l \<or> p = [] then acc else \<lparr>pc_value = p, pc_changedAt = t\<rparr> # acc)"

lemma edits_changelog:
  "en_body e = Login l0 \<Longrightarrow> changelog_of e = take MAX_PASSWORD_CHANGELOG acc \<Longrightarrow>
   changelog_of (edits e es) = take MAX_PASSWORD_CHANGELOG (superseded (lg_password l0) es acc)"
proof (induction es arbitrary: e l0 acc)
  case (Cons x es)
  obtain l t where x: "x = (l, t)" by (cases x)
  let ?e = "withPasswordChangelog (e\<lparr>en_body := Login l\<rparr>) (Some e) t"
  let ?acc = "if lg_password l0 = lg_password l \<or> lg_password l0 = [] then acc
    else \<lparr>pc_value = lg_password l0, pc_changedAt = t\<rparr> # acc"
  have "changelog_of ?e = take MAX_PASSWORD_CHANGELOG ?acc"
    using Cons.prems
    by (auto simp: changelog_of_def withPasswordChangelog_def nextPasswordChangelog_def
        MAX_PASSWORD_CHANGELOG_def Let_def split: option.splits)
  moreover have "en_body ?e = Login (l\<lparr>lg_passwordChangelog := nextPasswordChangelog (Some e) l t\<rparr>)"
    by (simp add: withPasswordChangelog_def)
  ultimately have "changelog_of (edits ?e es) =
      take MAX_PASSWORD_CHANGELOG (superseded (lg_password l) es ?acc)"
    using Cons.IH [of ?e] by fastforce
  then show ?case
    by (simp add: x)
qed simp

text \<open>The changelog is exactly the last five replaced passwords. However a login is edited
  after its creation, whatever changelog the edit form supplies, its changelog is the newest
  five of the non-blank passwords that an edit replaced, each with the time of that edit.\<close>

lemma changelog_is_last_five_replaced:
  "changelog_of (edits (withPasswordChangelog (e\<lparr>en_body := Login l\<rparr>) None t) es)
     = take MAX_PASSWORD_CHANGELOG (superseded (lg_password l) es [])"
  by (subst edits_changelog [where ?l0.0 = "l\<lparr>lg_passwordChangelog := None\<rparr>" and acc = "[]"])
    (simp_all add: withPasswordChangelog_def nextPasswordChangelog_def changelog_of_def)

text \<open>Stored tags are well formed. Whatever an import file or a form supplies, normalised
  tags are at most 32, pairwise different under the comparison key, and each is non-empty, at
  most 64 characters long, without white space and without a leading hyphen.\<close>

lemma normalized_tags_well_formed:
  "case normalizeTags lower raw of None \<Rightarrow> True | Some ts \<Rightarrow> ts \<noteq> [] \<and> tags_ok lower ts"
proof -
  have "tags_ok lower (normalize_loop lower cs {} [])" for cs
    by (rule normalize_loop_ok) (auto simp: tags_ok_def MAX_TAGS_PER_ENTRY_def)
  then show ?thesis
    by (auto simp: normalizeTags_def Let_def split: option.split)
qed

lemma login_index_source:
  "LoginIndex l \<in> set (toAutofillIndex url es) \<Longrightarrow>
   \<exists>e d. e \<in> set es \<and> en_body e = Login d \<and> l = loginIndexEntry url e d"
  by (induction es) (auto split: entry_body.splits if_splits)

lemma index_hostname:
  "h \<in> set (li_hostnames (loginIndexEntry url e d)) \<Longrightarrow>
   h \<noteq> [] \<and> (\<exists>u \<in> set (lg_urls d). \<not> isAppUri url u \<and> h = extractHostname url u)"
  by (auto simp: loginIndexEntry_def extractHostname_def split: if_splits)

lemma login_index_hosts:
  assumes "LoginIndex l \<in> set (toAutofillIndex url es)"
  shows "list_all (\<lambda>h. h \<noteq> [] \<and>
    list_ex (\<lambda>e. case en_body e of Login d \<Rightarrow> list_ex (\<lambda>u. \<not> isAppUri url u \<and> h = extractHostname url u) (lg_urls d)
                                 | _ \<Rightarrow> False) es) (li_hostnames l)"
proof -
  obtain e d where e: "e \<in> set es" "en_body e = Login d" and l: "l = loginIndexEntry url e d"
    using login_index_source [OF assms] by blast
  show ?thesis
    unfolding list_all_iff
  proof
    fix h assume "h \<in> set (li_hostnames l)"
    from index_hostname [OF this [unfolded l]]
    show "h \<noteq> [] \<and> list_ex (\<lambda>e. case en_body e of
        Login d \<Rightarrow> list_ex (\<lambda>u. \<not> isAppUri url u \<and> h = extractHostname url u) (lg_urls d)
      | _ \<Rightarrow> False) es"
      unfolding list_ex_iff using e by (auto intro!: bexI [of _ e])
  qed
qed

text \<open>The autofill index exposes live logins and cards only. Its entries are, in order,
  those of the vault's unarchived logins and cards; no app identifier reaches it as a host name
  and no empty host does.\<close>

lemma autofill_index_projection:
  "map index_id (toAutofillIndex url es) =
     map en_id (filter (\<lambda>e. en_archivedAt e = None \<and>
       (case en_body e of Login _ \<Rightarrow> True | Card _ \<Rightarrow> True | _ \<Rightarrow> False)) es) \<and>
   list_all (\<lambda>i. case i of
       LoginIndex l \<Rightarrow> list_all (\<lambda>h. h \<noteq> [] \<and>
         list_ex (\<lambda>e. case en_body e of Login d \<Rightarrow> list_ex (\<lambda>u. \<not> isAppUri url u \<and> h = extractHostname url u) (lg_urls d)
                                      | _ \<Rightarrow> False) es) (li_hostnames l)
     | CardIndex _ \<Rightarrow> True) (toAutofillIndex url es)"
proof (rule conjI)
  show "map index_id (toAutofillIndex url es) =
     map en_id (filter (\<lambda>e. en_archivedAt e = None \<and>
       (case en_body e of Login _ \<Rightarrow> True | Card _ \<Rightarrow> True | _ \<Rightarrow> False)) es)"
    by (induction es)
      (auto simp: loginIndexEntry_def cardIndexEntry_def split: entry_body.splits)
qed (auto simp: list_all_iff [of _ "toAutofillIndex url es"] split: index_entry.split dest: login_index_hosts)

text \<open>Cleaning is not idempotent: a \<open>#\<close> behind a leading hyphen is only dropped the second time.\<close>

lemma clean_tag_not_idempotent:
  "normalizeTags lower (Some [''-#foo'']) = Some [''#foo'']
   \<and> normalizeTags lower (Some [''#foo'']) = Some [''foo'']"
  by (simp add: normalizeTags_def clean_tag_def trim_def strip_def is_space_def MAX_TAG_LENGTH_def
      MAX_TAGS_PER_ENTRY_def Let_def)

end
