(* ===== verification/Bytes.thy ===== *)
theory Bytes
  imports Js_Text "HOL-Library.Word"
begin

text \<open>
  Byte and text conversions (\<open>packages/core/src/util/bytes.ts\<close>): base64 through the
  platform's \<open>btoa\<close> and \<open>atob\<close>, base64url and hexadecimal. The platform functions are written
  out as their standards give them: \<open>atob\<close> is the forgiving decoder (it skips white space,
  accepts missing padding and fails on any other character or on a length of one modulo
  four), and \<open>parseInt\<close> reads the longest prefix of digits.
\<close>

type_synonym u8 = "8 word"
type_synonym bytes = "u8 list"

definition byte :: "nat \<Rightarrow> u8" where
  "byte n = word_of_nat n"

lemma unat_byte [simp]: "n < 256 \<Longrightarrow> unat (byte n) = n"
  by (simp add: byte_def unsigned_of_nat take_bit_nat_eq_self)

lemma byte_unat [simp]: "byte (unat b) = b"
  by (simp add: byte_def)

lemma unat_u8 [simp]: "unat (b :: u8) < 256"
proof -
  have "unat b < 2 ^ LENGTH(8)" by (rule unsigned_less)
  then show ?thesis by simp
qed

subsection \<open>Base64\<close>

definition B64_ALPHABET :: string where
  "B64_ALPHABET = ''ABCDEFGHIJKLMNOPQRSTUVWXYZabcdefghijklmnopqrstuvwxyz0123456789+/''"

definition b64_char :: "nat \<Rightarrow> char" where
  "b64_char n = B64_ALPHABET ! n"

fun index_of :: "'a \<Rightarrow> 'a list \<Rightarrow> nat option" where
  "index_of x [] = None"
| "index_of x (y # ys) = (if x = y then Some 0 else map_option Suc (index_of x ys))"

definition b64_value :: "char \<Rightarrow> nat option" where
  "b64_value c = index_of c B64_ALPHABET"

fun btoa_nat :: "nat list \<Rightarrow> nat list" where
  "btoa_nat [] = []"
| "btoa_nat [a] = [a div 4, (a mod 4) * 16]"
| "btoa_nat [a, b] = [a div 4, (a mod 4) * 16 + b div 16, (b mod 16) * 4]"
| "btoa_nat (a # b # c # r) =
     [a div 4, (a mod 4) * 16 + b div 16, (b mod 16) * 4 + c div 64, c mod 64] @ btoa_nat r"

definition pad_b64 :: "string \<Rightarrow> string" where
  "pad_b64 s = s @ (if length s mod 4 = 0 then [] else replicate (4 - length s mod 4) CHR ''='')"

definition bytesToBase64 :: "bytes \<Rightarrow> string" where
  "bytesToBase64 bs = pad_b64 (map b64_char (btoa_nat (map unat bs)))"

fun atob_nat :: "nat list \<Rightarrow> nat list" where
  "atob_nat (p # q # r # s # t) =
     [p * 4 + q div 16, (q mod 16) * 16 + r div 4, (r mod 4) * 64 + s] @ atob_nat t"
| "atob_nat [p, q, r] = [p * 4 + q div 16, (q mod 16) * 16 + r div 4]"
| "atob_nat [p, q] = [p * 4 + q div 16]"
| "atob_nat _ = []"

definition is_ascii_space :: "char \<Rightarrow> bool" where
  "is_ascii_space c \<longleftrightarrow> (let n = of_char c :: nat in n = 9 \<or> n = 10 \<or> n = 12 \<or> n = 13 \<or> n = 32)"

definition drop_last_eq :: "string \<Rightarrow> string" where
  "drop_last_eq s = (if s \<noteq> [] \<and> last s = CHR ''='' then butlast s else s)"

fun all_some :: "'a option list \<Rightarrow> 'a list option" where
  "all_some [] = Some []"
| "all_some (None # xs) = None"
| "all_some (Some x # xs) = map_option ((#) x) (all_some xs)"

text \<open>\<open>None\<close> is the \<open>InvalidCharacterError\<close> that \<open>atob\<close> throws.\<close>

definition base64ToBytes :: "string \<Rightarrow> bytes option" where
  "base64ToBytes b64 =
     (let s = filter (\<lambda>c. \<not> is_ascii_space c) b64;
          s = (if length s mod 4 = 0
               then (if drop_last_eq s = s then s else drop_last_eq (drop_last_eq s)) else s)
      in if length s mod 4 = 1 then None
         else map_option (\<lambda>vs. map byte (atob_nat vs)) (all_some (map b64_value s)))"

subsection \<open>Base64url\<close>

definition replace_char :: "char \<Rightarrow> char \<Rightarrow> string \<Rightarrow> string" where
  "replace_char a b s = map (\<lambda>c. if c = a then b else c) s"

definition base64ToBase64Url :: "string \<Rightarrow> string" where
  "base64ToBase64Url b64 =
     rev (dropWhile (\<lambda>c. c = CHR ''='')
       (rev (replace_char CHR ''/'' CHR ''_'' (replace_char CHR ''+'' CHR ''-'' b64))))"

definition base64UrlToBase64 :: "string \<Rightarrow> string" where
  "base64UrlToBase64 s =
     (let rem = length s mod 4
      in replace_char CHR ''_'' CHR ''/'' (replace_char CHR ''-'' CHR ''+'' s) @
           (if rem \<noteq> 0 then replicate (4 - rem) CHR ''='' else []))"

definition bytesToBase64Url :: "bytes \<Rightarrow> string" where
  "bytesToBase64Url bs = base64ToBase64Url (bytesToBase64 bs)"

definition base64UrlToBytes :: "string \<Rightarrow> bytes option" where
  "base64UrlToBytes s = base64ToBytes (base64UrlToBase64 s)"

subsection \<open>Hexadecimal\<close>

definition HEX :: string where
  "HEX = ''0123456789abcdef''"

definition bytesToHex :: "bytes \<Rightarrow> string" where
  "bytesToHex bs = concat (map (\<lambda>b. [HEX ! (unat b div 16), HEX ! (unat b mod 16)]) bs)"

definition hex_value :: "char \<Rightarrow> nat option" where
  "hex_value c =
     (let n = of_char c :: nat
      in if 48 \<le> n \<and> n \<le> 57 then Some (n - 48)
         else if 97 \<le> n \<and> n \<le> 102 then Some (n - 87)
         else if 65 \<le> n \<and> n \<le> 70 then Some (n - 55)
         else None)"

text \<open>\<open>Number.parseInt(s, 16)\<close>; \<open>None\<close> is \<open>NaN\<close>.\<close>

definition parseInt16 :: "string \<Rightarrow> int option" where
  "parseInt16 s =
     (let t = dropWhile is_space s;
          neg = (t \<noteq> [] \<and> hd t = CHR ''-'');
          t = (if t \<noteq> [] \<and> (hd t = CHR ''-'' \<or> hd t = CHR ''+'') then tl t else t);
          t = (if take 2 t = ''0x'' \<or> take 2 t = ''0X'' then drop 2 t else t);
          ds = takeWhile (\<lambda>c. hex_value c \<noteq> None) t
      in if ds = [] then None
         else let v = foldl (\<lambda>a c. 16 * a + int (the (hex_value c))) 0 ds
              in Some (if neg then - v else v))"

text \<open>Storing a number in a byte array keeps its low eight bits, and \<open>NaN\<close> becomes zero.\<close>

definition hexToBytes :: "string \<Rightarrow> bytes" where
  "hexToBytes hex =
     map (\<lambda>i. case parseInt16 (take 2 (drop (i * 2) hex)) of None \<Rightarrow> 0 | Some v \<Rightarrow> word_of_int v)
       [0 ..< length hex div 2]"

definition hexToBase64 :: "string \<Rightarrow> string" where
  "hexToBase64 hex = bytesToBase64 (hexToBytes hex)"

definition base64ToHex :: "string \<Rightarrow> string option" where
  "base64ToHex b64 = map_option bytesToHex (base64ToBytes b64)"

subsection \<open>Round trips\<close>

lemma atob_btoa: "list_all (\<lambda>b. b < 256) xs \<Longrightarrow> atob_nat (btoa_nat xs) = xs"
proof (induction xs rule: btoa_nat.induct)
  case (4 a b c r)
  then have "b div 16 < 16" "c div 64 < 4" by auto
  with 4 show ?case by simp
qed auto

lemma btoa_range: "list_all (\<lambda>b. b < 256) xs \<Longrightarrow> list_all (\<lambda>v. v < 64) (btoa_nat xs)"
proof (induction xs rule: btoa_nat.induct)
  case (4 a b c r)
  then have "b div 16 < 16" "c div 64 < 4" "a mod 4 < 4" "b mod 16 < 16" by auto
  with 4 show ?case by auto
qed auto

lemma b64_alphabet_all: "list_all (\<lambda>n. b64_value (b64_char n) = Some n \<and>
    b64_char n \<noteq> CHR ''='' \<and> \<not> is_ascii_space (b64_char n) \<and> b64_char n \<noteq> CHR ''-'' \<and> b64_char n \<noteq> CHR ''_'') [0 ..< 64]"
  by code_simp

lemma b64_alphabet:
  "n < 64 \<Longrightarrow> b64_value (b64_char n) = Some n"
  "n < 64 \<Longrightarrow> b64_char n \<noteq> CHR ''=''"
  "n < 64 \<Longrightarrow> \<not> is_ascii_space (b64_char n)"
  "n < 64 \<Longrightarrow> b64_char n \<noteq> CHR ''-''"
  "n < 64 \<Longrightarrow> b64_char n \<noteq> CHR ''_''"
  using b64_alphabet_all by (auto simp: list_all_iff)

lemma all_some_map: "list_all (\<lambda>x. f x = Some (g x)) xs \<Longrightarrow> all_some (map f xs) = Some (map g xs)"
  by (induction xs) auto

lemma b64_values_chars: "list_all (\<lambda>v. v < 64) vs \<Longrightarrow> all_some (map b64_value (map b64_char vs)) = Some vs"
  by (induction vs) (auto simp: b64_alphabet)

lemma btoa_length_mod: "length (btoa_nat xs) mod 4 \<noteq> 1"
  by (induction xs rule: btoa_nat.induct) auto

text \<open>The unpadded text of a byte string.\<close>

definition b64_text :: "bytes \<Rightarrow> string" where
  "b64_text bs = map b64_char (btoa_nat (map unat bs))"

lemma btoa_bytes_range: "list_all (\<lambda>v. v < 64) (btoa_nat (map unat (bs :: bytes)))"
  by (rule btoa_range) (simp add: list_all_iff)

lemma b64_text_chars:
  assumes "c \<in> set (b64_text bs)"
  shows "c \<noteq> CHR ''='' \<and> \<not> is_ascii_space c \<and> c \<noteq> CHR ''-'' \<and> c \<noteq> CHR ''_''"
proof -
  obtain v where "v < 64" "c = b64_char v"
    using assms btoa_bytes_range [of bs] by (auto simp: b64_text_def list_all_iff)
  then show ?thesis
    by (simp add: b64_alphabet)
qed

lemma b64_text_mod: "length (b64_text bs) mod 4 \<noteq> 1"
  unfolding b64_text_def length_map by (rule btoa_length_mod)

lemma drop_last_eq_text: "list_all (\<lambda>c. c \<noteq> CHR ''='') s \<Longrightarrow> drop_last_eq s = s"
  by (cases s rule: rev_cases) (auto simp: drop_last_eq_def)

lemma pad_length: "length (pad_b64 s) mod 4 = 0"
  by (simp add: pad_b64_def) presburger

lemma unpad:
  assumes "list_all (\<lambda>c. c \<noteq> CHR ''='') s" "length s mod 4 \<noteq> 1"
  shows "(if drop_last_eq (pad_b64 s) = pad_b64 s then pad_b64 s else drop_last_eq (drop_last_eq (pad_b64 s))) = s"
proof -
  have "length s mod 4 = 0 \<or> length s mod 4 = 2 \<or> length s mod 4 = 3"
    using assms(2) by presburger
  then show ?thesis
    using drop_last_eq_text [OF assms(1)]
    by (auto simp: pad_b64_def) (auto simp: drop_last_eq_def numeral_2_eq_2 butlast_append)
qed

lemma base64_round_trip: "base64ToBytes (bytesToBase64 bs) = Some bs"
proof -
  have enc: "bytesToBase64 bs = pad_b64 (b64_text bs)"
    by (simp add: bytesToBase64_def b64_text_def)
  have noeq: "list_all (\<lambda>c. c \<noteq> CHR ''='') (b64_text bs)"
    by (auto simp: list_all_iff dest: b64_text_chars)
  have "filter (\<lambda>c. \<not> is_ascii_space c) (pad_b64 (b64_text bs)) = pad_b64 (b64_text bs)"
    by (auto simp: filter_id_conv pad_b64_def is_ascii_space_def dest: b64_text_chars)
  then have "base64ToBytes (bytesToBase64 bs) =
      map_option (\<lambda>vs. map byte (atob_nat vs)) (all_some (map b64_value (b64_text bs)))"
    unfolding base64ToBytes_def enc Let_def
    by (simp only: pad_length if_True unpad [OF noeq b64_text_mod] b64_text_mod if_False simp_thms)
  also have "\<dots> = Some (map byte (atob_nat (btoa_nat (map unat bs))))"
    using b64_values_chars [OF btoa_bytes_range] by (simp add: b64_text_def)
  also have "\<dots> = Some bs"
    by (simp add: atob_btoa list_all_iff comp_def)
  finally show ?thesis .
qed

lemma replace_replace:
  "b \<notin> set s \<Longrightarrow> replace_char b a (replace_char a b s) = s"
  unfolding replace_char_def by (induction s) auto

lemma set_replace_char: "c \<in> set (replace_char a b s) \<Longrightarrow> c = b \<or> c \<in> set s"
  by (auto simp: replace_char_def split: if_splits)

lemma dropWhile_pad:
  assumes "list_all (\<lambda>c. c \<noteq> e) s"
  shows "rev (dropWhile (\<lambda>c. c = e) (rev (s @ replicate n e))) = s"
proof -
  have "dropWhile (\<lambda>c. c = e) (rev s) = rev s"
    using assms by (cases "rev s") (auto simp: list_all_iff dropWhile_eq_self_iff dest: arg_cong [of _ _ rev])
  moreover have "dropWhile (\<lambda>c. c = e) (replicate n e @ t) = dropWhile (\<lambda>c. c = e) t" for t
    by (induction n) auto
  ultimately show ?thesis by simp
qed

lemma pad_b64_append: "\<exists>n. pad_b64 s = s @ replicate n CHR ''=''"
  by (auto simp: pad_b64_def intro: exI [of _ 0])

lemma base64url_round_trip: "base64UrlToBase64 (base64ToBase64Url (bytesToBase64 bs)) = bytesToBase64 bs"
proof -
  let ?t = "b64_text bs"
  let ?u = "replace_char CHR ''/'' CHR ''_'' (replace_char CHR ''+'' CHR ''-'' ?t)"
  obtain n where n: "pad_b64 ?t = ?t @ replicate n CHR ''=''"
    using pad_b64_append by blast
  have noeq: "list_all (\<lambda>c. c \<noteq> CHR ''='') ?u"
    by (auto simp: list_all_iff dest!: set_replace_char dest: b64_text_chars)
  have url: "base64ToBase64Url (pad_b64 ?t) = ?u"
    using dropWhile_pad [OF noeq] by (simp add: base64ToBase64Url_def n replace_char_def)
  have "CHR ''_'' \<notin> set (replace_char CHR ''+'' CHR ''-'' ?t)" "CHR ''-'' \<notin> set ?t"
    by (auto dest!: set_replace_char dest: b64_text_chars)
  then have rback: "replace_char CHR ''_'' CHR ''/'' ?u = replace_char CHR ''+'' CHR ''-'' ?t"
      "replace_char CHR ''-'' CHR ''+'' (replace_char CHR ''+'' CHR ''-'' ?t) = ?t"
    by (simp_all add: replace_replace)
  have swap: "replace_char CHR ''_'' CHR ''/'' (replace_char CHR ''-'' CHR ''+'' x) =
      replace_char CHR ''-'' CHR ''+'' (replace_char CHR ''_'' CHR ''/'' x)" for x
    by (simp add: replace_char_def)
  have "length ?u = length ?t"
    by (simp add: replace_char_def)
  then have "base64UrlToBase64 ?u = pad_b64 ?t"
    by (simp add: base64UrlToBase64_def swap rback pad_b64_def Let_def)
  then show ?thesis
    by (simp add: bytesToBase64_def flip: url b64_text_def)
qed

lemma hex_digits_all:
  "list_all (\<lambda>n. hex_value (HEX ! n) = Some n \<and> \<not> is_space (HEX ! n) \<and> HEX ! n \<noteq> CHR ''-'' \<and>
     HEX ! n \<noteq> CHR ''+'' \<and> HEX ! n \<noteq> CHR ''x'' \<and> HEX ! n \<noteq> CHR ''X'') [0 ..< 16]"
  by code_simp

lemma parse_hex_digits:
  assumes "m < 16" "n < 16"
  shows "parseInt16 [HEX ! m, HEX ! n] = Some (int (16 * m + n))"
proof -
  have d: "hex_value (HEX ! i) = Some i \<and> \<not> is_space (HEX ! i) \<and> HEX ! i \<noteq> CHR ''-'' \<and>
      HEX ! i \<noteq> CHR ''+'' \<and> HEX ! i \<noteq> CHR ''x'' \<and> HEX ! i \<noteq> CHR ''X''" if "i < 16" for i
    using hex_digits_all that by (simp add: list_all_iff)
  show ?thesis
    using d [OF assms(1)] d [OF assms(2)] by (simp add: parseInt16_def)
qed

lemma parse_hex_pair: "parseInt16 [HEX ! (unat b div 16), HEX ! (unat b mod 16)] = Some (int (unat (b :: u8)))"
proof -
  have "unat b div 16 < 16" "unat b mod 16 < 16"
    using unat_u8 [of b] by (auto simp: less_mult_imp_div_less)
  from parse_hex_digits [OF this] show ?thesis by simp
qed

lemma hex_round_trip: "hexToBytes (bytesToHex bs) = bs"
proof (induction bs)
  case Nil
  then show ?case by (simp add: hexToBytes_def bytesToHex_def)
next
  case (Cons b bs)
  have len: "length (bytesToHex (b # bs)) div 2 = Suc (length (bytesToHex bs) div 2)"
    by (simp add: bytesToHex_def)
  have shift: "take 2 (drop (Suc (Suc (i * 2))) (bytesToHex (b # bs))) = take 2 (drop (i * 2) (bytesToHex bs))" for i
    by (simp add: bytesToHex_def)
  have head: "take 2 (drop (0 * 2) (bytesToHex (b # bs))) = [HEX ! (unat b div 16), HEX ! (unat b mod 16)]"
    by (simp add: bytesToHex_def numeral_2_eq_2)
  have "hexToBytes (bytesToHex (b # bs)) = word_of_int (int (unat b)) # hexToBytes (bytesToHex bs)"
    unfolding hexToBytes_def len upt_conv_Cons [OF zero_less_Suc] list.map head parse_hex_pair
    by (simp add: map_Suc_upt [symmetric] shift del: upt_Suc)
  then show ?case
    using Cons by simp
qed

subsection \<open>Properties\<close>

text \<open>No conversion loses a byte. Every byte string comes back from its base64, its
  unpadded base64url and its hexadecimal text, and a decoded base64 is re-encoded to itself.\<close>

lemma bytes_round_trip:
  "base64ToBytes (bytesToBase64 bs) = Some bs \<and> base64UrlToBytes (bytesToBase64Url bs) = Some bs \<and>
   hexToBytes (bytesToHex bs) = bs \<and> base64ToHex (hexToBase64 (bytesToHex bs)) = Some (bytesToHex bs)"
  by (simp add: base64_round_trip base64UrlToBytes_def bytesToBase64Url_def base64url_round_trip
      hex_round_trip base64ToHex_def hexToBase64_def)

end
