(* ===== verification/Csv_Import.thy ===== *)
theory Csv_Import
  imports Entry_Data Bytes
begin

text \<open>
  Flat CSV exports (\<open>packages/core/src/import/shared.ts\<close>, \<open>import/csv-format.ts\<close>, \<open>import/csv.ts\<close>): the reader
  of rows, how a header tells the vendor, and the Apple and Google importers built on them.

  A text is its code units below 256; the byte order mark the reader drops is not among them, so a text is
  what follows it. The platform's URL parser is the argument \<open>url\<close>, as in \<open>Entry_Data\<close>.
\<close>

subsection \<open>Rows\<close>

fun csv_loop :: "string \<Rightarrow> bool \<Rightarrow> string \<Rightarrow> string list \<Rightarrow> string list list \<Rightarrow> string list list" where
  "csv_loop [] quoted field row rows =
     (if field \<noteq> [] \<or> row \<noteq> [] then rows @ [row @ [field]] else rows)"
| "csv_loop (c # cs) True field row rows =
     (if c \<noteq> CHR 0x22 then csv_loop cs True (field @ [c]) row rows
      else (case cs of
          d # ds \<Rightarrow> if d = CHR 0x22 then csv_loop ds True (field @ [CHR 0x22]) row rows
            else csv_loop cs False field row rows
        | [] \<Rightarrow> csv_loop cs False field row rows))"
| "csv_loop (c # cs) False field row rows =
     (if c = CHR 0x22 then csv_loop cs True field row rows
      else if c = CHR '','' then csv_loop cs False [] (row @ [field]) rows
      else if c = CHR 0x0A then csv_loop cs False [] [] (rows @ [row @ [field]])
      else if c = CHR 0x0D then
        (case cs of
           d # ds \<Rightarrow> csv_loop (if d = CHR 0x0A then ds else cs) False [] [] (rows @ [row @ [field]])
         | [] \<Rightarrow> csv_loop cs False [] [] (rows @ [row @ [field]]))
      else csv_loop cs False (field @ [c]) row rows)"

definition not_blank :: "string list \<Rightarrow> bool" where
  "not_blank r \<longleftrightarrow> length r > 1 \<or> (r \<noteq> [] \<and> hd r \<noteq> [])"

definition parseCsvRows :: "string \<Rightarrow> string list list" where
  "parseCsvRows text = filter not_blank (csv_loop text False [] [] [])"

subsection \<open>Results\<close>

record raw_field =
  rf_key :: string
  rf_value :: string
  rf_hidden :: "bool option"

definition toCustomFields :: "raw_field list \<Rightarrow> custom_field list option" where
  "toCustomFields pairs =
     (let out = map (\<lambda>f. \<lparr>cf_key = rf_key f, cf_value = rf_value f,
          cf_hidden = (if rf_hidden f = Some True then Some True else None)\<rparr>)
        (filter (\<lambda>f. rf_key f \<noteq> [] \<and> rf_value f \<noteq> []) pairs)
      in if out = [] then None else Some out)"

record import_result =
  ir_imported :: "entry_data list"
  ir_byType :: "(string \<times> nat) list"
  ir_skipped :: nat
  ir_warnings :: "string list"

definition type_of :: "entry_data \<Rightarrow> string" where
  "type_of e = (case en_body e of Login _ \<Rightarrow> ''login'' | Card _ \<Rightarrow> ''card'' | Note \<Rightarrow> ''note'' | SshKey _ \<Rightarrow> ''ssh-key'')"

definition tallyByType :: "entry_data list \<Rightarrow> (string \<times> nat) list" where
  "tallyByType es =
     fold (\<lambda>e m. AList.update (type_of e) (Suc (case map_of m (type_of e) of Some n \<Rightarrow> n | None \<Rightarrow> 0)) m) es []"

text \<open>\<open>valid\<close> is what \<open>entryDataSchema\<close> makes of a candidate; a candidate that is an \<open>entry_data\<close> already has
  the shape.\<close>

definition summarize :: "('c \<Rightarrow> entry_data option) \<Rightarrow> 'c list \<Rightarrow> nat \<Rightarrow> string list \<Rightarrow> import_result" where
  "summarize valid candidates skipped warnings =
     (let imported = List.map_filter valid candidates; dropped = length (filter (\<lambda>c. valid c = None) candidates)
      in \<lparr>ir_imported = imported, ir_byType = tallyByType imported, ir_skipped = skipped + dropped,
          ir_warnings = warnings @
            (if dropped > 0 then [dec dropped @ '' item(s) had an unexpected shape and were skipped.''] else [])\<rparr>)"

definition hostLabel :: "url_parser \<Rightarrow> string \<Rightarrow> string" where
  "hostLabel url u =
     (if u = [] then []
      else (case url u of
          Some (_, host) \<Rightarrow> if host = [] then u else host
        | None \<Rightarrow> (case url (''https://'' @ u) of
            Some (_, host) \<Rightarrow> if host = [] then u else host
          | None \<Rightarrow> u)))"

subsection \<open>Which vendor\<close>

record csv_format =
  fm_label :: string
  fm_signature :: "string list"
  fm_reject :: "string list"

definition APPLE_CSV :: csv_format where
  "APPLE_CSV = \<lparr>fm_label = ''Apple Passwords'',
     fm_signature = [''title'', ''url'', ''username'', ''password'', ''otpauth''], fm_reject = []\<rparr>"

definition GOOGLE_CSV :: csv_format where
  "GOOGLE_CSV = \<lparr>fm_label = ''Google Password Manager'',
     fm_signature = [''name'', ''url'', ''username'', ''password''], fm_reject = [''extra'', ''grouping'']\<rparr>"

definition LASTPASS_CSV :: csv_format where
  "LASTPASS_CSV = \<lparr>fm_label = ''LastPass'',
     fm_signature = [''url'', ''username'', ''password'', ''extra'', ''name'', ''grouping''], fm_reject = []\<rparr>"

definition ALL_CSV :: "csv_format list" where
  "ALL_CSV = [APPLE_CSV, GOOGLE_CSV, LASTPASS_CSV]"

definition headerLabels :: "string list list \<Rightarrow> string list" where
  "headerLabels rows = (case rows of [] \<Rightarrow> [] | row # _ \<Rightarrow> map (\<lambda>h. to_lower (trim h)) row)"

definition matchesFormat :: "csv_format \<Rightarrow> string list \<Rightarrow> bool" where
  "matchesFormat format header \<longleftrightarrow>
     list_all (\<lambda>h. h \<in> set header) (fm_signature format) \<and> \<not> list_ex (\<lambda>h. h \<in> set header) (fm_reject format)"

definition assertFormat :: "csv_format \<Rightarrow> string list \<Rightarrow> string + unit" where
  "assertFormat format header =
     (if matchesFormat format header then Inr ()
      else (case find (\<lambda>f. f \<noteq> format \<and> matchesFormat f header) ALL_CSV of
          Some actual \<Rightarrow> Inl (''This looks like an export from '' @ fm_label actual @ ''. Go back and choose '' @
              fm_label actual @ '' instead.'')
        | None \<Rightarrow> Inl (''This doesn'' @ [CHR 0x27] @ ''t look like an export from '' @ fm_label format @
              ''. Its first line should be the column names.'')))"

text \<open>No file is read by the wrong importer: a LastPass header is refused by Google's, which would drop its
  folders and codes, and the error names a format that does accept the file.\<close>

lemma lastpass_is_not_google: "matchesFormat LASTPASS_CSV header \<Longrightarrow> \<not> matchesFormat GOOGLE_CSV header"
  by (simp add: matchesFormat_def LASTPASS_CSV_def GOOGLE_CSV_def)

lemma wrong_file_is_named:
  assumes "\<not> matchesFormat format header" "f \<in> set ALL_CSV" "matchesFormat f header"
  shows "\<exists>g \<in> set ALL_CSV. matchesFormat g header \<and>
    assertFormat format header = Inl (''This looks like an export from '' @ fm_label g @ ''. Go back and choose '' @
      fm_label g @ '' instead.'')"
proof -
  have "f \<noteq> format" using assms(1,3) by auto
  then obtain g where g: "find (\<lambda>f. f \<noteq> format \<and> matchesFormat f header) ALL_CSV = Some g"
    using assms(2,3) by (cases "find (\<lambda>f. f \<noteq> format \<and> matchesFormat f header) ALL_CSV") (auto simp: find_None_iff)
  then have "g \<in> set ALL_CSV" "matchesFormat g header" by (auto dest!: find_SomeD)
  with g assms(1) show ?thesis by (auto simp: assertFormat_def)
qed

subsection \<open>Apple and Google\<close>

datatype csv_field = F_name | F_url | F_username | F_password | F_notes | F_totp

record csv_spec =
  sp_format :: csv_format
  sp_columns :: "csv_field \<Rightarrow> string list"

definition APPLE :: csv_spec where
  "APPLE = \<lparr>sp_format = APPLE_CSV, sp_columns = (\<lambda>f. case f of
     F_name \<Rightarrow> [''title''] | F_url \<Rightarrow> [''url''] | F_username \<Rightarrow> [''username''] | F_password \<Rightarrow> [''password'']
   | F_notes \<Rightarrow> [''notes''] | F_totp \<Rightarrow> [''otpauth''])\<rparr>"

definition GOOGLE :: csv_spec where
  "GOOGLE = \<lparr>sp_format = GOOGLE_CSV, sp_columns = (\<lambda>f. case f of
     F_name \<Rightarrow> [''name''] | F_url \<Rightarrow> [''url''] | F_username \<Rightarrow> [''username''] | F_password \<Rightarrow> [''password'']
   | F_notes \<Rightarrow> [''note'', ''notes''] | F_totp \<Rightarrow> [])\<rparr>"

fun first_column :: "string list \<Rightarrow> string list \<Rightarrow> nat option" where
  "first_column [] header = None"
| "first_column (a # aliases) header =
     (case index_of a header of Some i \<Rightarrow> Some i | None \<Rightarrow> first_column aliases header)"

definition cell :: "string list \<Rightarrow> nat option \<Rightarrow> string" where
  "cell row col = (case col of None \<Rightarrow> [] | Some i \<Rightarrow> if i < length row then row ! i else [])"

definition some_text :: "string \<Rightarrow> string option" where
  "some_text s = (if s = [] then None else Some s)"

definition plain_login :: "string \<Rightarrow> string option \<Rightarrow> string list \<Rightarrow> string \<Rightarrow> string \<Rightarrow> string option \<Rightarrow> string list option \<Rightarrow> entry_data" where
  "plain_login name notes urls username password totp tags =
     \<lparr>en_name = name, en_notes = notes, en_customFields = None, en_createdAt = None, en_updatedAt = None,
      en_lastUsedAt = None, en_archivedAt = None, en_tags = tags,
      en_body = Login \<lparr>lg_urls = urls, lg_username = username, lg_password = password, lg_totp = totp, lg_breach = None,
        lg_autofillEnabled = None, lg_autoSubmit = None, lg_subdomainMatch = None, lg_passkeys = None,
        lg_passwordChangelog = None\<rparr>\<rparr>"

text \<open>One row, given its cells; \<open>None\<close> is a row with nothing in it.\<close>

definition csv_login :: "url_parser \<Rightarrow> (csv_field \<Rightarrow> string) \<Rightarrow> entry_data option" where
  "csv_login url v =
     (if v F_url = [] \<and> v F_username = [] \<and> v F_password = [] \<and> v F_notes = [] \<and> v F_totp = [] then None
      else Some (plain_login
        (if v F_name \<noteq> [] then v F_name else if hostLabel url (v F_url) \<noteq> [] then hostLabel url (v F_url) else v F_username)
        (some_text (v F_notes)) (if v F_url \<noteq> [] then [v F_url] else []) (v F_username) (v F_password)
        (some_text (v F_totp)) None))"

definition parseSpec :: "url_parser \<Rightarrow> csv_spec \<Rightarrow> string \<Rightarrow> string + import_result" where
  "parseSpec url spec text =
     (let rows = parseCsvRows text; header = headerLabels rows
      in case assertFormat (sp_format spec) header of
           Inl e \<Rightarrow> Inl e
         | Inr _ \<Rightarrow>
             (let read = map (\<lambda>row. csv_login url (\<lambda>f. cell row (first_column (sp_columns spec f) header))) (drop 1 rows)
              in Inr (summarize Some (List.map_filter id read) (length (filter (\<lambda>r. r = None) read)) [])))"

definition parseApplePasswords :: "url_parser \<Rightarrow> string \<Rightarrow> string + import_result" where
  "parseApplePasswords url text = parseSpec url APPLE text"

definition parseGooglePasswords :: "url_parser \<Rightarrow> string \<Rightarrow> string + import_result" where
  "parseGooglePasswords url text = parseSpec url GOOGLE text"

subsection \<open>What a CSV text encodes\<close>

text \<open>RFC 4180: a field is written bare, or between quotes with its quotes doubled; lines end in LF or CRLF,
  and the last one need not.\<close>

definition bare_ok :: "string \<Rightarrow> bool" where
  "bare_ok f \<longleftrightarrow> list_all (\<lambda>c. c \<notin> {CHR 0x22, CHR '','', CHR 0x0A, CHR 0x0D}) f"

definition doubled :: "string \<Rightarrow> string" where
  "doubled f = concat (map (\<lambda>c. if c = CHR 0x22 then [CHR 0x22, CHR 0x22] else [c]) f)"

inductive field_enc :: "string \<Rightarrow> string \<Rightarrow> bool" where
  bare: "bare_ok f \<Longrightarrow> field_enc f f"
| quoted: "field_enc f (CHR 0x22 # doubled f @ [CHR 0x22])"

inductive line_enc :: "string list \<Rightarrow> string \<Rightarrow> bool" where
  one: "field_enc f t \<Longrightarrow> line_enc [f] t"
| more: "field_enc f t \<Longrightarrow> line_enc fs ts \<Longrightarrow> line_enc (f # fs) (t @ CHR '','' # ts)"

inductive csv_enc :: "string list list \<Rightarrow> string \<Rightarrow> bool" where
  none: "csv_enc [] []"
| final: "line_enc r t \<Longrightarrow> csv_enc [r] t"
| lf: "line_enc r t \<Longrightarrow> csv_enc rs ts \<Longrightarrow> csv_enc (r # rs) (t @ CHR 0x0A # ts)"
| crlf: "line_enc r t \<Longrightarrow> csv_enc rs ts \<Longrightarrow> csv_enc (r # rs) (t @ CHR 0x0D # CHR 0x0A # ts)"

text \<open>What may follow a field.\<close>

definition at_end :: "string \<Rightarrow> bool" where
  "at_end t \<longleftrightarrow> t = [] \<or> hd t \<in> {CHR '','', CHR 0x0A, CHR 0x0D}"

lemma at_end_simps [simp]:
  "at_end []" "at_end (CHR '','' # t)" "at_end (CHR 0x0A # t)" "at_end (CHR 0x0D # t)"
  by (simp_all add: at_end_def)

lemma loop_bare: "bare_ok f \<Longrightarrow> csv_loop (f @ t) False a row rows = csv_loop t False (a @ f) row rows"
  by (induction f arbitrary: a) (simp_all add: bare_ok_def)

lemma loop_doubled:
  assumes "t = [] \<or> hd t \<noteq> CHR 0x22"
  shows "csv_loop (doubled f @ CHR 0x22 # t) True a row rows = csv_loop t False (a @ f) row rows"
proof (induction f arbitrary: a)
  case Nil
  show ?case using assms by (cases t) (simp_all add: doubled_def)
next
  case (Cons c f)
  then show ?case by (simp add: doubled_def)
qed

lemma loop_field: "field_enc f s \<Longrightarrow> at_end t \<Longrightarrow> csv_loop (s @ t) False [] row rows = csv_loop t False f row rows"
  by (induction rule: field_enc.induct) (auto simp: loop_bare loop_doubled at_end_def)

lemma loop_line:
  "line_enc r s \<Longrightarrow> at_end t \<Longrightarrow> csv_loop (s @ t) False [] row rows = csv_loop t False (last r) (row @ butlast r) rows"
proof (induction arbitrary: row rule: line_enc.induct)
  case (more f s fs ts)
  have "fs \<noteq> []" using more(2) by (cases rule: line_enc.cases) auto
  with more show ?case by (simp add: loop_field)
qed (simp add: loop_field)

lemma line_row: "line_enc r s \<Longrightarrow> butlast r @ [last r] = r \<and> r \<noteq> []"
  by (cases rule: line_enc.cases) auto

lemma loop_text: "csv_enc rs t \<Longrightarrow> filter not_blank (csv_loop t False [] [] rows) = filter not_blank (rows @ rs)"
proof (induction arbitrary: rows rule: csv_enc.induct)
  case (final r t)
  have "csv_loop t False [] [] rows = csv_loop [] False (last r) (butlast r) rows"
    using loop_line [OF final, of "[]" "[]"] by simp
  with line_row [OF final] show ?case
    by (cases "last r = [] \<and> butlast r = []") (auto simp: not_blank_def)
next
  case (lf r t rs ts)
  have "csv_loop (t @ CHR 0x0A # ts) False [] [] rows = csv_loop ts False [] [] (rows @ [r])"
    using loop_line [OF lf(1), of "CHR 0x0A # ts" "[]"] line_row [OF lf(1)] by simp
  with lf(3) [of "rows @ [r]"] show ?case by simp
next
  case (crlf r t rs ts)
  have "csv_loop (t @ CHR 0x0D # CHR 0x0A # ts) False [] [] rows = csv_loop ts False [] [] (rows @ [r])"
    using loop_line [OF crlf(1), of "CHR 0x0D # CHR 0x0A # ts" "[]"] line_row [OF crlf(1)] by simp
  with crlf(3) [of "rows @ [r]"] show ?case by simp
qed simp

lemma csv_rows_round_trip: "csv_enc rows t \<Longrightarrow> parseCsvRows t = filter not_blank rows"
  using loop_text [of rows t "[]"] by (simp add: parseCsvRows_def)

text \<open>Every list of rows has an encoding: quote every field.\<close>

fun write_line :: "string list \<Rightarrow> string" where
  "write_line [] = []"
| "write_line [f] = CHR 0x22 # doubled f @ [CHR 0x22]"
| "write_line (f # g # fs) = (CHR 0x22 # doubled f @ [CHR 0x22]) @ CHR '','' # write_line (g # fs)"

fun write_csv :: "string list list \<Rightarrow> string" where
  "write_csv [] = []"
| "write_csv (r # rs) = write_line r @ CHR 0x0D # CHR 0x0A # write_csv rs"

lemma write_line_enc: "r \<noteq> [] \<Longrightarrow> line_enc r (write_line r)"
  by (induction r rule: write_line.induct) (use field_enc.quoted line_enc.intros in \<open>fastforce+\<close>)

lemma write_csv_enc: "list_all (\<lambda>r. r \<noteq> []) rs \<Longrightarrow> csv_enc rs (write_csv rs)"
  by (induction rs) (auto intro: csv_enc.intros write_line_enc)

subsection \<open>An export comes in as it went out\<close>

text \<open>A vendor's file: a header naming its columns in some order, with some spelling of case and spaces, and a
  row of cells per login.\<close>

definition names_columns :: "csv_spec \<Rightarrow> csv_field list \<Rightarrow> string list \<Rightarrow> bool" where
  "names_columns spec cols header \<longleftrightarrow> list_all2 (\<lambda>f h. sp_columns spec f \<noteq> [] \<and> to_lower (trim h) = hd (sp_columns spec f)) cols header"

definition export_row :: "csv_field list \<Rightarrow> (csv_field \<Rightarrow> string) \<Rightarrow> string list" where
  "export_row cols v = map v cols"

lemma index_of_map:
  "distinct xs \<Longrightarrow> inj_on g (set xs) \<Longrightarrow> f \<in> set xs \<Longrightarrow> \<exists>i < length xs. index_of (g f) (map g xs) = Some i \<and> xs ! i = f"
proof (induction xs)
  case (Cons x xs)
  show ?case
  proof (cases "f = x")
    case False
    then have "g f \<noteq> g x" using Cons.prems by (auto simp: inj_on_def)
    moreover obtain i where "i < length xs" "index_of (g f) (map g xs) = Some i" "xs ! i = f"
      using Cons False by auto
    ultimately show ?thesis by (intro exI [of _ "Suc i"]) simp
  qed simp
qed simp

lemma index_of_absent: "x \<notin> set xs \<Longrightarrow> index_of x xs = None"
  by (induction xs) auto

definition vendor_columns :: "csv_spec \<Rightarrow> csv_field list \<Rightarrow> bool" where
  "vendor_columns spec cols \<longleftrightarrow> distinct cols \<and>
     (\<forall>f. (f \<in> set cols \<longrightarrow> sp_columns spec f \<noteq> []) \<and> (sp_columns spec f \<noteq> [] \<and> f \<noteq> F_notes \<longrightarrow> f \<in> set cols))"

lemma columns_apart:
  assumes "spec \<in> {APPLE, GOOGLE}" "sp_columns spec f \<noteq> []" "hd (sp_columns spec f) \<in> set (sp_columns spec g)"
  shows "f = g"
  using assms by (cases f; cases g) (auto simp: APPLE_def GOOGLE_def)

lemma header_labels:
  assumes "names_columns spec cols header"
  shows "headerLabels (header # rest) = map (\<lambda>f. hd (sp_columns spec f)) cols"
  using assms unfolding names_columns_def headerLabels_def
  by (induction rule: list_all2_induct) simp_all

lemma no_column: "set as \<inter> set header = {} \<Longrightarrow> first_column as header = None"
  by (induction as) (auto simp: index_of_absent)

lemma cell_of_column:
  assumes spec: "spec \<in> {APPLE, GOOGLE}" and cols: "vendor_columns spec cols"
    and v: "f \<notin> set cols \<Longrightarrow> v f = []"
  shows "cell (export_row cols v) (first_column (sp_columns spec f) (map (\<lambda>f. hd (sp_columns spec f)) cols)) = v f"
proof (cases "f \<in> set cols")
  case True
  have "inj_on (\<lambda>f. hd (sp_columns spec f)) (set cols)"
    using columns_apart [OF spec] cols by (intro inj_onI) (metis hd_in_set vendor_columns_def)
  then obtain i where "i < length cols" "cols ! i = f"
    "index_of (hd (sp_columns spec f)) (map (\<lambda>f. hd (sp_columns spec f)) cols) = Some i"
    using index_of_map [of cols "\<lambda>f. hd (sp_columns spec f)" f] True cols by (auto simp: vendor_columns_def)
  moreover have "sp_columns spec f \<noteq> []" using True cols by (simp add: vendor_columns_def)
  ultimately show ?thesis
    by (cases "sp_columns spec f") (auto simp: cell_def export_row_def)
next
  case False
  have "set (sp_columns spec f) \<inter> set (map (\<lambda>f. hd (sp_columns spec f)) cols) = {}"
  proof (rule ccontr)
    assume "\<not> ?thesis"
    then obtain g where "g \<in> set cols" "hd (sp_columns spec g) \<in> set (sp_columns spec f)" by auto
    with columns_apart [OF spec, of g f] cols False show False by (simp add: vendor_columns_def)
  qed
  with False v show ?thesis by (simp add: no_column cell_def)
qed

lemma labels_clean:
  assumes "spec \<in> {APPLE, GOOGLE}" "sp_columns spec f \<noteq> []"
  shows "hd (sp_columns spec f) \<noteq> ''extra'' \<and> hd (sp_columns spec f) \<noteq> ''grouping''"
  using assms by (cases f) (auto simp: APPLE_def GOOGLE_def)

lemma vendor_file_accepted:
  assumes "spec \<in> {APPLE, GOOGLE}" "vendor_columns spec cols"
  shows "assertFormat (sp_format spec) (map (\<lambda>f. hd (sp_columns spec f)) cols) = Inr ()"
proof -
  let ?labels = "map (\<lambda>f. hd (sp_columns spec f)) cols"
  have lab: "hd (sp_columns spec f) \<in> set ?labels" if "sp_columns spec f \<noteq> []" "f \<noteq> F_notes" for f
    using that assms(2) by (simp add: vendor_columns_def)
  have clean: "h \<notin> set ?labels" if "h \<in> {''extra'', ''grouping''}" for h
  proof
    assume "h \<in> set ?labels"
    then obtain f where "f \<in> set cols" "h = hd (sp_columns spec f)" by auto
    with labels_clean [OF assms(1), of f] that assms(2) show False by (auto simp: vendor_columns_def)
  qed
  from assms(1) consider "spec = APPLE" | "spec = GOOGLE" by blast
  then have "matchesFormat (sp_format spec) ?labels"
  proof cases
    case 1
    then show ?thesis
      using lab [of F_name] lab [of F_url] lab [of F_username] lab [of F_password] lab [of F_totp]
      by (simp add: matchesFormat_def APPLE_def APPLE_CSV_def)
  next
    case 2
    then show ?thesis
      using lab [of F_name] lab [of F_url] lab [of F_username] lab [of F_password] clean [of "''extra''"] clean [of "''grouping''"]
      by (simp add: matchesFormat_def GOOGLE_def GOOGLE_CSV_def)
  qed
  then show ?thesis by (simp add: assertFormat_def)
qed

lemma vendor_columns_many: "spec \<in> {APPLE, GOOGLE} \<Longrightarrow> vendor_columns spec cols \<Longrightarrow> length cols > 1"
proof -
  assume a: "spec \<in> {APPLE, GOOGLE}" "vendor_columns spec cols"
  then have "{F_name, F_url} \<subseteq> set cols" by (auto simp: vendor_columns_def APPLE_def GOOGLE_def)
  then have "card {F_name, F_url} \<le> card (set cols)" by (intro card_mono) auto
  then show ?thesis using card_length [of cols] by simp
qed

lemma export_rows_read:
  assumes "spec \<in> {APPLE, GOOGLE}" "vendor_columns spec cols" "names_columns spec cols header"
    and "csv_enc (header # map (export_row cols) logins) t" "\<And>v f. v \<in> set logins \<Longrightarrow> f \<notin> set cols \<Longrightarrow> v f = []"
  shows "\<exists>r. parseSpec url spec t = Inr r \<and> ir_imported r = List.map_filter (csv_login url) logins \<and>
    ir_skipped r = length (filter (\<lambda>v. csv_login url v = None) logins) \<and> ir_warnings r = []"
proof -
  let ?labels = "map (\<lambda>f. hd (sp_columns spec f)) cols"
  have len: "length header = length cols"
    using assms(3) list_all2_lengthD by (fastforce simp: names_columns_def)
  have rows: "parseCsvRows t = header # map (export_row cols) logins"
    using csv_rows_round_trip [OF assms(4)] vendor_columns_many [OF assms(1,2)] len
    by (auto simp: not_blank_def export_row_def)
  have cells: "(\<lambda>f. cell (export_row cols v) (first_column (sp_columns spec f) ?labels)) = v" if "v \<in> set logins" for v
    using cell_of_column [OF assms(1,2)] assms(5) that by (intro ext) blast
  have read: "map (\<lambda>row. csv_login url (\<lambda>f. cell row (first_column (sp_columns spec f) ?labels)))
      (drop 1 (header # map (export_row cols) logins)) = map (csv_login url) logins"
    using cells by simp
  have "parseSpec url spec t = Inr (summarize Some (List.map_filter id (map (csv_login url) logins))
      (length (filter (\<lambda>r. r = None) (map (csv_login url) logins))) [])"
    unfolding parseSpec_def rows Let_def header_labels [OF assms(3)] read vendor_file_accepted [OF assms(1,2)] by simp
  then show ?thesis
    by (auto simp: summarize_def Let_def map_filter_def filter_map comp_def)
qed

text \<open>What the import of an exported login has to be, field by field, and the rows that carry a login at all:
  a row with no address, user name, password, notes and one-time-password secret has none, whatever its name.\<close>

definition carries :: "url_parser \<Rightarrow> (csv_field \<Rightarrow> string) \<Rightarrow> entry_data \<Rightarrow> bool" where
  "carries url v e \<longleftrightarrow>
     (\<exists>l. en_body e = Login l \<and> lg_username l = v F_username \<and> lg_password l = v F_password \<and>
        lg_urls l = (if v F_url = [] then [] else [v F_url]) \<and> lg_totp l = (if v F_totp = [] then None else Some (v F_totp)) \<and>
        lg_passkeys l = None \<and> lg_passwordChangelog l = None) \<and>
     en_notes e = (if v F_notes = [] then None else Some (v F_notes)) \<and> en_customFields e = None \<and> en_tags e = None \<and>
     (v F_name \<noteq> [] \<longrightarrow> en_name e = v F_name) \<and>
     (v F_name = [] \<and> v F_url \<noteq> [] \<longrightarrow> en_name e = hostLabel url (v F_url)) \<and>
     (v F_name = [] \<and> v F_url = [] \<longrightarrow> en_name e = v F_username)"

definition has_login :: "(csv_field \<Rightarrow> string) \<Rightarrow> bool" where
  "has_login v \<longleftrightarrow> v F_url \<noteq> [] \<or> v F_username \<noteq> [] \<or> v F_password \<noteq> [] \<or> v F_notes \<noteq> [] \<or> v F_totp \<noteq> []"

lemma hostLabel_some: "u \<noteq> [] \<Longrightarrow> hostLabel url u \<noteq> []"
  by (auto simp: hostLabel_def split: option.split)

lemma csv_login_carries: "if has_login v then \<exists>e. csv_login url v = Some e \<and> carries url v e else csv_login url v = None"
  by (auto simp: has_login_def csv_login_def carries_def plain_login_def some_text_def hostLabel_some)
    (simp_all add: hostLabel_def)

lemma logins_carry: "list_all2 (carries url) (filter has_login vs) (List.map_filter (csv_login url) vs)"
proof (induction vs)
  case (Cons v vs)
  then show ?case
    using csv_login_carries [of v url] by (auto simp: map_filter_simps split: if_splits)
qed (simp add: map_filter_simps)

lemma rows_without_login: "length (filter (\<lambda>v. csv_login url v = None) vs) = length (filter (\<lambda>v. \<not> has_login v) vs)"
proof -
  have "csv_login url v = None \<longleftrightarrow> \<not> has_login v" for v
    using csv_login_carries [of v url] by (cases "has_login v") auto
  then show ?thesis by simp
qed


definition sample_columns :: "csv_field list" where
  "sample_columns = [F_url, F_name, F_password, F_username]"

definition sample_header :: "string list" where
  "sample_header = [''URL'', '' Name'', ''password'', ''Username'']"

definition sample_row :: "csv_field \<Rightarrow> string" where
  "sample_row f = (case f of F_url \<Rightarrow> ''a.com'' | F_password \<Rightarrow> [CHR ''p'', CHR 0x22, CHR '','', CHR 0x0A] | F_username \<Rightarrow> ''u''
     | _ \<Rightarrow> [])"


end
