(* ===== verification/Cards.thy ===== *)
theory Cards
  imports Js_Text "HOL-Library.Sublist"
begin

text \<open>
  Payment card fields (\<open>packages/core/src/util/card.ts\<close>): issuer, checksum and what is wrong with a number,
  an expiry date or a security code; and the algorithm of an SSH key (\<open>deriveKeyType\<close> of \<open>util/ssh.ts\<close>).

  A schema is its list of refinements with their codes; each aborts, so the first that fails is the issue.
\<close>

subsection \<open>Numbers\<close>

datatype brand = Visa | Mastercard | Amex | Discover

definition cardDigits :: "string \<Rightarrow> string" where
  "cardDigits s = filter is_digit s"

definition between :: "char \<Rightarrow> char \<Rightarrow> char \<Rightarrow> bool" where
  "between lo hi c \<longleftrightarrow> (of_char lo :: nat) \<le> of_char c \<and> (of_char c :: nat) \<le> of_char hi"

definition cardBrand :: "string \<Rightarrow> brand option" where
  "cardBrand s =
     (let n = cardDigits s; first = take 1 n; second = drop 1 (take 2 n)
      in if first = ''4'' then Some Visa
         else if (first = ''5'' \<and> list_ex (between CHR ''1'' CHR ''5'') second) \<or>
                 (first = ''2'' \<and> list_ex (between CHR ''2'' CHR ''7'') second) then Some Mastercard
         else if first = ''3'' \<and> (second = ''4'' \<or> second = ''7'') then Some Amex
         else if take 4 n = ''6011'' \<or> take 2 n = ''65'' then Some Discover
         else None)"

fun brand_name :: "brand \<Rightarrow> string" where
  "brand_name Visa = ''Visa''"
| "brand_name Mastercard = ''Mastercard''"
| "brand_name Amex = ''Amex''"
| "brand_name Discover = ''Discover''"

definition MIN_CARD_DIGITS :: nat where "MIN_CARD_DIGITS = 12"
definition MAX_CARD_DIGITS :: nat where "MAX_CARD_DIGITS = 19"

fun BRAND_LENGTHS :: "brand \<Rightarrow> nat list" where
  "BRAND_LENGTHS Visa = [13, 16, 19]"
| "BRAND_LENGTHS Mastercard = [16]"
| "BRAND_LENGTHS Amex = [15]"
| "BRAND_LENGTHS Discover = [16, 19]"

text \<open>The loop of \<open>luhnValid\<close> runs from the last digit to the first.\<close>

fun luhn_loop :: "string \<Rightarrow> bool \<Rightarrow> nat \<Rightarrow> bool" where
  "luhn_loop [] double acc = (acc mod 10 = 0)"
| "luhn_loop (c # cs) double acc =
     (if \<not> is_digit c then False
      else let d = of_char c - 48; v = (if double then if d * 2 > 9 then d * 2 - 9 else d * 2 else d)
        in luhn_loop cs (\<not> double) (acc + v))"

definition luhnValid :: "string \<Rightarrow> bool" where
  "luhnValid digits \<longleftrightarrow> digits \<noteq> [] \<and> luhn_loop (rev digits) False 0"

subsection \<open>What is wrong with a field\<close>

datatype card_issue = NonDigit | Length | BrandLength | Checksum | Range

fun first_failing :: "((string \<Rightarrow> bool) \<times> card_issue) list \<Rightarrow> string \<Rightarrow> card_issue option" where
  "first_failing [] v = None"
| "first_failing ((ok, code) # checks) v = (if ok v then first_failing checks v else Some code)"

text \<open>\<open>issueOf\<close>; the schemas trim as it does, so \<open>min(1)\<close> never fails here.\<close>

definition issueOf :: "((string \<Rightarrow> bool) \<times> card_issue) list \<Rightarrow> string \<Rightarrow> card_issue option" where
  "issueOf checks s = (if trim s = [] then None else first_failing checks (trim s))"

definition CardNumberSchema :: "((string \<Rightarrow> bool) \<times> card_issue) list" where
  "CardNumberSchema =
     [(list_all (\<lambda>c. is_digit c \<or> is_space c \<or> c = CHR ''-''), NonDigit),
      (\<lambda>v. MIN_CARD_DIGITS \<le> length (cardDigits v) \<and> length (cardDigits v) \<le> MAX_CARD_DIGITS, Length),
      (\<lambda>v. case cardBrand (cardDigits v) of None \<Rightarrow> True | Some b \<Rightarrow> length (cardDigits v) \<in> set (BRAND_LENGTHS b),
       BrandLength),
      (\<lambda>v. luhnValid (cardDigits v), Checksum)]"

definition CardExpMonthSchema :: "((string \<Rightarrow> bool) \<times> card_issue) list" where
  "CardExpMonthSchema =
     [(\<lambda>v. list_all is_digit v \<and> 1 \<le> length v \<and> length v \<le> 2, NonDigit),
      (\<lambda>v. 1 \<le> undec v \<and> undec v \<le> 12, Range)]"

definition MIN_FULL_YEAR :: nat where "MIN_FULL_YEAR = 2000"
definition MAX_FULL_YEAR :: nat where "MAX_FULL_YEAR = 2099"

definition CardExpYearSchema :: "((string \<Rightarrow> bool) \<times> card_issue) list" where
  "CardExpYearSchema =
     [(\<lambda>v. list_all is_digit v \<and> v \<noteq> [], NonDigit),
      (\<lambda>v. length v = 2 \<or> length v = 4, Length),
      (\<lambda>v. length v = 2 \<or> (MIN_FULL_YEAR \<le> undec v \<and> undec v \<le> MAX_FULL_YEAR), Range)]"

definition CardCvvSchema :: "((string \<Rightarrow> bool) \<times> card_issue) list" where
  "CardCvvSchema =
     [(\<lambda>v. list_all is_digit v \<and> v \<noteq> [], NonDigit),
      (\<lambda>v. length v = 3 \<or> length v = 4, Length)]"

definition cardNumberIssue :: "string \<Rightarrow> card_issue option" where
  "cardNumberIssue = issueOf CardNumberSchema"

definition cardExpMonthIssue :: "string \<Rightarrow> card_issue option" where
  "cardExpMonthIssue = issueOf CardExpMonthSchema"

definition cardExpYearIssue :: "string \<Rightarrow> card_issue option" where
  "cardExpYearIssue = issueOf CardExpYearSchema"

definition cardCvvIssue :: "string \<Rightarrow> card_issue option" where
  "cardCvvIssue = issueOf CardCvvSchema"

subsection \<open>The algorithm of an SSH key\<close>

definition has_text :: "string \<Rightarrow> string \<Rightarrow> bool" where
  "has_text part s \<longleftrightarrow> sublist part s"

definition first_word :: "string \<Rightarrow> string" where
  "first_word s = takeWhile (Not \<circ> is_space) s"

definition deriveKeyType :: "string \<Rightarrow> string \<Rightarrow> string option" where
  "deriveKeyType publicKey privateKey =
     (let tok = to_lower (first_word (trim publicKey))
      in if has_text ''ed25519'' tok then Some ''ed25519''
         else if tok = ''ssh-rsa'' then Some ''rsa''
         else if prefix ''ecdsa-sha2'' tok \<or> prefix ''sk-ecdsa'' tok then Some ''ecdsa''
         else if tok = ''ssh-dss'' then Some ''dsa''
         else if has_text ''BEGIN OPENSSH PRIVATE KEY'' privateKey then Some ''openssh''
         else if has_text ''BEGIN RSA PRIVATE KEY'' privateKey then Some ''rsa''
         else if has_text ''BEGIN EC PRIVATE KEY'' privateKey then Some ''ecdsa''
         else if has_text ''BEGIN DSA PRIVATE KEY'' privateKey then Some ''dsa''
         else None)"

subsection \<open>The checksum finds typing errors\<close>

text \<open>The checksum as a weighted sum, from the last digit.\<close>

definition luhn_digit :: "bool \<Rightarrow> char \<Rightarrow> nat" where
  "luhn_digit double c =
     (let d = of_char c - 48 in if double then if d * 2 > 9 then d * 2 - 9 else d * 2 else d)"

fun luhn_sum :: "bool \<Rightarrow> string \<Rightarrow> nat" where
  "luhn_sum double [] = 0"
| "luhn_sum double (c # cs) = luhn_digit double c + luhn_sum (\<not> double) cs"

lemma luhn_loop_sum: "luhn_loop cs double n \<longleftrightarrow> list_all is_digit cs \<and> (n + luhn_sum double cs) mod 10 = 0"
  by (induction cs double n rule: luhn_loop.induct) (auto simp: luhn_digit_def Let_def add.assoc)

lemma luhnValid_sum: "luhnValid ds \<longleftrightarrow> ds \<noteq> [] \<and> list_all is_digit ds \<and> luhn_sum False (rev ds) mod 10 = 0"
  by (auto simp: luhnValid_def luhn_loop_sum)

lemma luhn_sum_append: "luhn_sum b (xs @ ys) = luhn_sum b xs + luhn_sum (b \<noteq> odd (length xs)) ys"
proof (induction xs arbitrary: b)
  case (Cons x xs)
  then show ?case by (cases b) simp_all
qed simp

lemma digit_range: "is_digit c \<Longrightarrow> \<exists>d < 10. c = digit_char d \<and> of_char c - 48 = d"
  by (auto simp: is_digit_def digit_char_def intro!: exI [of _ "of_char c - 48"])

text \<open>A doubled digit is still a digit, and no two digits double to the same one.\<close>

lemma luhn_digit_lt: "is_digit c \<Longrightarrow> luhn_digit b c < 10"
  by (auto dest!: digit_range simp: luhn_digit_def Let_def)

lemma luhn_digit_inj:
  assumes "is_digit c" "is_digit d" "luhn_digit b c = luhn_digit b d"
  shows "c = d"
proof -
  obtain x y where xy: "x < 10" "c = digit_char x" "of_char c - 48 = x" "y < 10" "d = digit_char y" "of_char d - 48 = y"
    using digit_range assms(1,2) by metis
  then have "x = y"
    using assms(3) by (auto simp: luhn_digit_def Let_def split: if_splits) presburger+
  with xy show ?thesis by simp
qed

lemma mod_10_eq: "(a + x) mod 10 = (a + y) mod 10 \<Longrightarrow> x < 10 \<Longrightarrow> y < 10 \<Longrightarrow> x = (y::nat)"
proof (induction x y rule: linorder_wlog)
  case (le x y)
  then have "10 dvd (a + y) - (a + x)"
    using mod_eq_dvd_iff_nat [of "a + x" "a + y" 10] by simp
  then have "10 dvd y - x" by simp
  moreover have "y - x < 10" using le by simp
  ultimately have "y - x = 0" using nat_dvd_not_less by blast
  with le show ?case by simp
qed simp

lemma luhn_single:
  assumes "luhnValid (l @ c # r)" "is_digit d" "d \<noteq> c"
  shows "\<not> luhnValid (l @ d # r)"
proof
  assume v: "luhnValid (l @ d # r)"
  let ?b = "odd (length r)" let ?n = "luhn_sum False (rev r) + luhn_sum (\<not> ?b) (rev l)"
  have c: "is_digit c" using assms(1) by (simp add: luhnValid_sum)
  have "(?n + luhn_digit ?b c) mod 10 = 0" "(?n + luhn_digit ?b d) mod 10 = 0"
    using assms(1) v by (simp_all add: luhnValid_sum luhn_sum_append ac_simps)
  then have "luhn_digit ?b c = luhn_digit ?b d"
    using mod_10_eq [of ?n "luhn_digit ?b c" "luhn_digit ?b d"] luhn_digit_lt c assms(2) by simp
  with luhn_digit_inj c assms(2,3) show False by blast
qed

definition weight :: "bool \<Rightarrow> nat \<Rightarrow> nat" where
  "weight double d = (if double then if d * 2 > 9 then d * 2 - 9 else d * 2 else d)"

lemma weights_of_pairs:
  "list_all (\<lambda>x. list_all (\<lambda>y. x = y \<or> (x = 0 \<and> y = 9) \<or> (x = 9 \<and> y = 0) \<or>
      (weight True x + weight False y) mod 10 \<noteq> (weight True y + weight False x) mod 10) [0..<10]) [0..<10]"
  by code_simp

text \<open>Neighbours \<open>c\<close> and \<open>d\<close>, one of them doubled: what the pair contributes tells their order, but for 0 and 9.\<close>

lemma luhn_pair_inj:
  assumes "is_digit c" "is_digit d" "c \<noteq> d" "{c, d} \<noteq> {CHR ''0'', CHR ''9''}"
  shows "(luhn_digit b c + luhn_digit (\<not> b) d) mod 10 \<noteq> (luhn_digit b d + luhn_digit (\<not> b) c) mod 10"
proof -
  obtain x y where x: "x < 10" "c = digit_char x" "of_char c - 48 = x" and y: "y < 10" "d = digit_char y" "of_char d - 48 = y"
    using digit_range assms(1,2) by metis
  have ends: "CHR ''0'' = digit_char 0" "CHR ''9'' = digit_char 9" by code_simp+
  have image: "{c, d} = digit_char ` {x, y}" "{CHR ''0'', CHR ''9''} = digit_char ` {0, 9}"
    using x(2) y(2) ends by simp_all
  have ne: "x \<noteq> y" using assms(3) x(2) y(2) by metis
  have "{x, y} \<noteq> {0, 9}"
  proof
    assume "{x, y} = {0, 9}"
    from arg_cong [OF this, of "image digit_char"] show False using image assms(4) by metis
  qed
  then have "\<not> (x = 0 \<and> y = 9)" "\<not> (x = 9 \<and> y = 0)" by auto
  with ne have "(weight True x + weight False y) mod 10 \<noteq> (weight True y + weight False x) mod 10"
    using weights_of_pairs [unfolded list_all_iff, THEN bspec, of x, THEN bspec, of y] x(1) y(1) by auto
  then show ?thesis
    using x(3) y(3) by (cases b) (simp_all add: luhn_digit_def weight_def Let_def add.commute)
qed

lemma luhn_transposed:
  assumes "luhnValid (l @ c # d # r)" "c \<noteq> d" "{c, d} \<noteq> {CHR ''0'', CHR ''9''}"
  shows "\<not> luhnValid (l @ d # c # r)"
proof
  assume v: "luhnValid (l @ d # c # r)"
  let ?b = "odd (length r)" let ?n = "luhn_sum False (rev r) + luhn_sum ?b (rev l)"
  have dig: "is_digit c" "is_digit d" using assms(1) by (simp_all add: luhnValid_sum)
  have "(?n + (luhn_digit ?b d + luhn_digit (\<not> ?b) c)) mod 10 = 0" "(?n + (luhn_digit ?b c + luhn_digit (\<not> ?b) d)) mod 10 = 0"
    using assms(1) v by (simp_all add: luhnValid_sum luhn_sum_append ac_simps)
  then have "(luhn_digit ?b d + luhn_digit (\<not> ?b) c) mod 10 = (luhn_digit ?b c + luhn_digit (\<not> ?b) d) mod 10"
    using mod_10_eq [of ?n "(luhn_digit ?b d + luhn_digit (\<not> ?b) c) mod 10" "(luhn_digit ?b c + luhn_digit (\<not> ?b) d) mod 10"]
    by (simp add: mod_add_right_eq)
  with luhn_pair_inj [OF dig assms(2,3), of ?b] show False by simp
qed

subsection \<open>What is accepted\<close>

definition plausible_number :: "string \<Rightarrow> bool" where
  "plausible_number v \<longleftrightarrow> list_all (\<lambda>c. is_digit c \<or> is_space c \<or> c = CHR ''-'') v \<and>
     12 \<le> length (cardDigits v) \<and> length (cardDigits v) \<le> 19 \<and>
     (case cardBrand (cardDigits v) of None \<Rightarrow> True | Some b \<Rightarrow> length (cardDigits v) \<in> set (BRAND_LENGTHS b)) \<and>
     luhnValid (cardDigits v)"

lemma cardNumberIssue_None: "cardNumberIssue s = None \<longleftrightarrow> trim s = [] \<or> plausible_number (trim s)"
  by (auto simp: cardNumberIssue_def issueOf_def CardNumberSchema_def plausible_number_def MIN_CARD_DIGITS_def
      MAX_CARD_DIGITS_def)

lemma cardExpMonthIssue_None: "cardExpMonthIssue s = None \<longleftrightarrow> trim s = [] \<or>
    (list_all is_digit (trim s) \<and> length (trim s) \<le> 2 \<and> undec (trim s) \<in> {1..12})"
  by (auto simp: cardExpMonthIssue_def issueOf_def CardExpMonthSchema_def Suc_le_eq)

lemma cardCvvIssue_None: "cardCvvIssue s = None \<longleftrightarrow> trim s = [] \<or>
    (list_all is_digit (trim s) \<and> length (trim s) \<in> {3, 4})"
  by (auto simp: cardCvvIssue_def issueOf_def CardCvvSchema_def)

lemma digit_not_space: "is_digit c \<Longrightarrow> \<not> is_space c"
  by (auto simp: is_digit_def is_space_def Let_def)

text \<open>Trimming keeps the digits.\<close>

lemma filter_dropWhile: "(\<And>x. P x \<Longrightarrow> \<not> Q x) \<Longrightarrow> filter Q (dropWhile P xs) = filter Q xs"
  by (induction xs) auto

lemma cardDigits_trim [simp]: "cardDigits (trim s) = cardDigits s"
proof -
  have d: "filter is_digit (dropWhile is_space t) = filter is_digit t" for t
    by (rule filter_dropWhile) (use digit_not_space in blast)
  have "filter is_digit (strip is_space s) = rev (filter is_digit (dropWhile is_space (rev (dropWhile is_space s))))"
    by (simp add: strip_def rev_filter [symmetric])
  then show ?thesis by (simp add: cardDigits_def trim_def d rev_filter)
qed

lemma digits_not_blank: "trim s = [] \<Longrightarrow> cardDigits s = []"
  using cardDigits_trim [of s] by (simp add: cardDigits_def)

text \<open>A mistyped card number is always reported. Where a number is accepted, changing any one of
  its digits, or exchanging two digits next to each other (other than a 0 and a 9), gives a number that is
  not, whatever its grouping, length and issuer.\<close>

lemma typing_error_is_reported:
  assumes "cardNumberIssue (l @ c # d # r) = None" "is_digit c" "is_digit d" "is_digit e"
  shows "(e \<noteq> c \<longrightarrow> cardNumberIssue (l @ e # d # r) \<noteq> None) \<and> (e \<noteq> d \<longrightarrow> cardNumberIssue (l @ c # e # r) \<noteq> None) \<and>
    (c \<noteq> d \<longrightarrow> {c, d} \<noteq> {CHR ''0'', CHR ''9''} \<longrightarrow> cardNumberIssue (l @ d # c # r) \<noteq> None)"
proof -
  have accepted: "luhnValid (cardDigits s)" if "cardNumberIssue s = None" "cardDigits s \<noteq> []" for s
    using that digits_not_blank [of s] by (auto simp: cardNumberIssue_None plausible_number_def)
  have digits: "cardDigits (l @ x # y # r) = cardDigits l @ x # y # cardDigits r" if "is_digit x" "is_digit y" for x y
    using that by (simp add: cardDigits_def)
  have v: "luhnValid (cardDigits l @ c # d # cardDigits r)"
    using accepted [OF assms(1)] digits assms(2,3) by simp
  have "\<not> luhnValid (cardDigits l @ e # d # cardDigits r)" if "e \<noteq> c"
    using luhn_single [OF v assms(4) that] .
  moreover have "\<not> luhnValid (cardDigits l @ c # e # cardDigits r)" if "e \<noteq> d"
    using luhn_single [of "cardDigits l @ [c]" d "cardDigits r" e] v that assms(4) by simp
  ultimately show ?thesis
    using accepted [of "l @ e # d # r"] accepted [of "l @ c # e # r"] accepted [of "l @ d # c # r"]
      luhn_transposed [OF v] digits assms(2-4) by auto
qed

lemma transposed_0_9_goes_unnoticed: "luhnValid ''4000000000000903'' \<and> luhnValid ''4000000000000093''"
  by code_simp

end
