(* ===== verification/Import_Fields.thy ===== *)
theory Import_Fields
  imports Csv_Import
begin

text \<open>Facts on the custom fields of an imported entry (\<open>toCustomFields\<close>), shared by the importers.\<close>

definition custom_of :: "raw_field \<Rightarrow> custom_field" where
  "custom_of f = \<lparr>cf_key = rf_key f, cf_value = rf_value f, cf_hidden = (if rf_hidden f = Some True then Some True else None)\<rparr>"

definition customs :: "entry_data \<Rightarrow> custom_field list" where
  "customs e = (case en_customFields e of None \<Rightarrow> [] | Some cs \<Rightarrow> cs)"

lemma custom_list:
  "(case toCustomFields fs of None \<Rightarrow> [] | Some cs \<Rightarrow> cs) = map custom_of (filter (\<lambda>f. rf_key f \<noteq> [] \<and> rf_value f \<noteq> []) fs)"
  by (simp add: toCustomFields_def Let_def custom_of_def)

lemma custom_set:
  "set (case toCustomFields fs of None \<Rightarrow> [] | Some cs \<Rightarrow> cs) = custom_of ` {f \<in> set fs. rf_key f \<noteq> [] \<and> rf_value f \<noteq> []}"
  by (simp add: custom_list)

lemma customs_keep:
  assumes "en_customFields e = toCustomFields fs" "f \<in> set fs" "rf_key f \<noteq> []" "rf_value f \<noteq> []"
  shows "custom_of f \<in> set (customs e)"
  using assms by (simp add: customs_def custom_set)

end
