(* ===== verification/KeePass.thy ===== *)
theory KeePass
  imports Passkey_Fields Exchange Import_Fields
begin

text \<open>
  KeePass databases: the XML export (\<open>packages/core/src/import/keepass.ts\<close>), the decrypted KDBX file
  (\<open>import/kdbx.ts\<close>) and the passkeys KeePassXC keeps as attributes of an entry (\<open>import/keepass-passkey.ts\<close>).

  What the XML parser returns is a tree of groups with its repeated children as lists (\<open>toArray\<close>); what the Rust core
  decrypts is a list of fields per entry. \<open>codepoint\<close> is \<open>String.fromCodePoint\<close>, which for a code below 256 is that
  character; \<open>lower\<close> is \<open>toLowerCase\<close> and \<open>core\<close> the core's reading of a PKCS#8 key, as in \<open>Exchange\<close>.
\<close>

subsection \<open>The XML text\<close>

fun hex_value_of :: "string \<Rightarrow> nat" where
  "hex_value_of s = foldl (\<lambda>a c. 16 * a + the (hex_value c)) 0 s"

definition NAMED_ENTITIES :: "(string \<times> string) list" where
  "NAMED_ENTITIES = [(''amp'', ''&''), (''lt'', ''<''), (''gt'', ''>''), (''quot'', [CHR 0x22]), (''apos'', [CHR 0x27])]"

text \<open>The replacement of a numeric reference: nothing to replace when out of range or a lone surrogate.\<close>

definition numeric_reference :: "(nat \<Rightarrow> string) \<Rightarrow> nat \<Rightarrow> string option" where
  "numeric_reference codepoint n = (if n > 0x10ffff \<or> (0xd800 \<le> n \<and> n \<le> 0xdfff) then None else Some (codepoint n))"

text \<open>A match of the pattern at an ampersand, by what follows it: the replacement or the text as it was, and the rest.\<close>

definition named_entity :: "string \<Rightarrow> (string \<times> string) option" where
  "named_entity s =
     (let name = takeWhile (\<lambda>c. c \<noteq> CHR '';'') s; rest = drop (length name) s
      in case (map_of NAMED_ENTITIES name, rest) of (Some t, c # r) \<Rightarrow> Some (t, r) | _ \<Rightarrow> None)"

definition numeric_entity :: "(nat \<Rightarrow> string) \<Rightarrow> (char \<Rightarrow> bool) \<Rightarrow> (string \<Rightarrow> nat) \<Rightarrow> nat \<Rightarrow> string \<Rightarrow> string \<Rightarrow> (string \<times> string) option" where
  "numeric_entity codepoint digit number most opening s =
     (let ds = takeWhile digit s; rest = drop (length ds) s
      in if ds = [] \<or> length ds > most \<or> rest = [] \<or> hd rest \<noteq> CHR '';'' then None
         else Some (case numeric_reference codepoint (number ds) of Some t \<Rightarrow> t | None \<Rightarrow> opening @ ds @ '';'', tl rest))"

definition is_hex :: "char \<Rightarrow> bool" where
  "is_hex c \<longleftrightarrow> hex_value c \<noteq> None"

definition XML_ENTITY :: "(nat \<Rightarrow> string) \<Rightarrow> string \<Rightarrow> (string \<times> string) option" where
  "XML_ENTITY codepoint s =
     (case s of
        c # x # r \<Rightarrow>
          if c = CHR ''#''
          then (if x = CHR ''x'' \<or> x = CHR ''X'' then numeric_entity codepoint is_hex hex_value_of 6 [CHR ''&'', c, x] r
                else numeric_entity codepoint is_digit undec 7 [CHR ''&'', c] (x # r))
          else named_entity s
      | _ \<Rightarrow> None)"

lemma XML_ENTITY_shorter: "XML_ENTITY codepoint s = Some (t, r) \<Longrightarrow> length r < length s"
  by (auto simp: XML_ENTITY_def named_entity_def numeric_entity_def Let_def split: list.splits if_splits option.splits)
    (metis length_drop length_Cons diff_le_self Suc_le_eq le_SucI less_Suc_eq_le | fastforce)+

function unescapeXml :: "(nat \<Rightarrow> string) \<Rightarrow> string \<Rightarrow> string" where
  "unescapeXml codepoint [] = []"
| "unescapeXml codepoint (c # cs) =
     (if c = CHR ''&''
      then (case XML_ENTITY codepoint cs of None \<Rightarrow> c # unescapeXml codepoint cs | Some (t, r) \<Rightarrow> t @ unescapeXml codepoint r)
      else c # unescapeXml codepoint cs)"
  by pat_completeness auto
termination
  by (relation "measure (length \<circ> snd)") (auto dest: XML_ENTITY_shorter)

subsection \<open>Groups and entries\<close>

definition RECYCLE_BIN :: string where "RECYCLE_BIN = ''Recycle Bin''"

text \<open>A value: absent, a text, or an element with a text and the \<open>ProtectInMemory\<close> attribute.\<close>

datatype xml_value = NoValue | TextValue string | NodeValue "string option" "string option"

record xml_string =
  xs_Key :: "string option"
  xs_Value :: xml_value

record xml_entry =
  xe_String :: "xml_string list"
  xe_Tags :: "string option"

datatype xml_group = XmlGroup (xg_Name: "string option") (xg_Group: "xml_group list") (xg_Entry: "xml_entry list")

definition readValue :: "(nat \<Rightarrow> string) \<Rightarrow> xml_value \<Rightarrow> string \<times> bool" where
  "readValue codepoint v =
     (case v of
        NoValue \<Rightarrow> ([], False)
      | TextValue t \<Rightarrow> (unescapeXml codepoint t, False)
      | NodeValue t a \<Rightarrow> (unescapeXml codepoint (case t of Some s \<Rightarrow> s | None \<Rightarrow> []), a = Some ''True''))"

fun collectEntries :: "(nat \<Rightarrow> string) \<Rightarrow> string list \<Rightarrow> xml_group \<Rightarrow> (xml_entry \<times> string list) list" where
  "collectEntries codepoint parents (XmlGroup gname gs es) =
     (let name = (case gname of None \<Rightarrow> None | Some n \<Rightarrow> if n = [] then None else Some (unescapeXml codepoint n))
      in if name = Some RECYCLE_BIN then []
         else (let path = (case name of None \<Rightarrow> parents | Some n \<Rightarrow> if n = [] then parents else parents @ [n])
               in map (\<lambda>e. (e, path)) es @ concat (map (collectEntries codepoint path) gs)))"

definition entryFields :: "(nat \<Rightarrow> string) \<Rightarrow> xml_entry \<times> string list \<Rightarrow> raw_field list" where
  "entryFields codepoint ep =
     (case ep of (e, path) \<Rightarrow>
       (let folders = join_with ''/'' (tl path)
        in map (\<lambda>s. case readValue codepoint (xs_Value s) of (t, h) \<Rightarrow>
               \<lparr>rf_key = unescapeXml codepoint (case xs_Key s of Some k \<Rightarrow> k | None \<Rightarrow> []), rf_value = t, rf_hidden = Some h\<rparr>) (xe_String e) @
           (case xe_Tags e of
              None \<Rightarrow> []
            | Some t \<Rightarrow> if t = [] then [] else [\<lparr>rf_key = ''Tags'', rf_value = unescapeXml codepoint t, rf_hidden = Some False\<rparr>]) @
           (if folders \<noteq> [] then [\<lparr>rf_key = ''Group'', rf_value = folders, rf_hidden = Some False\<rparr>] else [])))"

subsection \<open>An entry's fields\<close>

definition STANDARD_KEYS :: "string list" where
  "STANDARD_KEYS = [''Title'', ''UserName'', ''Password'', ''URL'', ''Notes'', ''Tags'', ''Group'']"

text \<open>\<open>split(/[,;]/)\<close>.\<close>

definition split_tags :: "string \<Rightarrow> string list" where
  "split_tags s = concat (map (split_on CHR '';'') (split_on CHR '','' s))"

record keepass_locals =
  kl_name :: string
  kl_username :: string
  kl_password :: string
  kl_url :: string
  kl_notes :: string
  kl_totp :: "string option"
  kl_extras :: "raw_field list"
  kl_tags :: "string list"

definition keepass_start :: keepass_locals where
  "keepass_start = \<lparr>kl_name = [], kl_username = [], kl_password = [], kl_url = [], kl_notes = [], kl_totp = None, kl_extras = [], kl_tags = []\<rparr>"

definition keepass_field :: "raw_field \<Rightarrow> keepass_locals \<Rightarrow> keepass_locals" where
  "keepass_field f s =
     (let k = rf_key f; v = rf_value f
      in if k = ''Title'' then s\<lparr>kl_name := v\<rparr>
         else if k = ''UserName'' then s\<lparr>kl_username := v\<rparr>
         else if k = ''Password'' then s\<lparr>kl_password := v\<rparr>
         else if k = ''URL'' then s\<lparr>kl_url := v\<rparr>
         else if k = ''Notes'' then s\<lparr>kl_notes := v\<rparr>
         else if k = ''otp'' then s\<lparr>kl_totp := (if v \<noteq> [] then Some v else kl_totp s)\<rparr>
         else if k = ''TOTP Seed'' then
           (if kl_totp s = None \<or> kl_totp s = Some [] then s\<lparr>kl_totp := Some v\<rparr> else s)
         else if k = ''TOTP Settings'' then s
         else if k = ''Tags'' then s\<lparr>kl_tags := kl_tags s @ split_tags v\<rparr>
         else if k = ''Group'' then s\<lparr>kl_tags := kl_tags s @ split_on CHR ''/'' v\<rparr>
         else if k \<in> set STANDARD_KEYS then s
         else s\<lparr>kl_extras := kl_extras s @ [f]\<rparr>)"

definition mapKeepassFields :: "(string \<Rightarrow> string) \<Rightarrow> raw_field list \<Rightarrow> entry_data" where
  "mapKeepassFields lower fs =
     (let s = fold keepass_field fs keepass_start
      in \<lparr>en_name = kl_name s, en_notes = some_text (kl_notes s), en_customFields = toCustomFields (kl_extras s), en_createdAt = None,
          en_updatedAt = None, en_lastUsedAt = None, en_archivedAt = None, en_tags = normalizeTags lower (Some (kl_tags s)),
          en_body = Login \<lparr>lg_urls = (if kl_url s \<noteq> [] then [kl_url s] else []), lg_username = kl_username s, lg_password = kl_password s,
            lg_totp = (case kl_totp s of None \<Rightarrow> None | Some t \<Rightarrow> some_text t), lg_breach = None, lg_autofillEnabled = None,
            lg_autoSubmit = None, lg_subdomainMatch = None, lg_passkeys = None, lg_passwordChangelog = None\<rparr>\<rparr>)"

subsection \<open>KeePassXC passkeys\<close>

definition PREFIX :: string where "PREFIX = ''KPEX_PASSKEY_''"
definition CREDENTIAL_ID :: string where "CREDENTIAL_ID = PREFIX @ ''CREDENTIAL_ID''"
definition PRIVATE_KEY_PEM :: string where "PRIVATE_KEY_PEM = PREFIX @ ''PRIVATE_KEY_PEM''"
definition RELYING_PARTY :: string where "RELYING_PARTY = PREFIX @ ''RELYING_PARTY''"
definition USERNAME :: string where "USERNAME = PREFIX @ ''USERNAME''"
definition USER_HANDLE :: string where "USER_HANDLE = PREFIX @ ''USER_HANDLE''"
definition LEGACY_USER_HANDLE :: string where "LEGACY_USER_HANDLE = PREFIX @ ''GENERATED_USER_ID''"

definition is_passkey_field :: "raw_field \<Rightarrow> bool" where
  "is_passkey_field f \<longleftrightarrow> prefix PREFIX (rf_key f)"

definition hasKeepassPasskey :: "raw_field list \<Rightarrow> bool" where
  "hasKeepassPasskey fs \<longleftrightarrow> list_ex is_passkey_field fs"

text \<open>A later value of a key replaces an earlier one.\<close>

definition partitionPasskeyFields :: "raw_field list \<Rightarrow> (string \<rightharpoonup> string) \<times> raw_field list" where
  "partitionPasskeyFields fs =
     (map_of (rev (map (\<lambda>f. (rf_key f, rf_value f)) (filter is_passkey_field fs))), filter (\<lambda>f. \<not> is_passkey_field f) fs)"

definition trimmed :: "(string \<rightharpoonup> string) \<Rightarrow> string \<Rightarrow> string" where
  "trimmed passkey k = (case passkey k of None \<Rightarrow> [] | Some v \<Rightarrow> trim v)"

definition required :: "(string \<rightharpoonup> string) \<Rightarrow> string \<Rightarrow> string \<Rightarrow> field_error + string" where
  "required passkey k label = (if trimmed passkey k = [] then Inl (Rejected (''has no '' @ label)) else Inr (trimmed passkey k))"

text \<open>Continue with the value unless something was thrown.\<close>

definition and_then :: "'e + 'a \<Rightarrow> ('a \<Rightarrow> 'e + 'b) \<Rightarrow> 'e + 'b" where
  "and_then x f = (case x of Inl e \<Rightarrow> Inl e | Inr a \<Rightarrow> f a)"

lemma and_then_Inr: "and_then x f = Inr b \<longleftrightarrow> (\<exists>a. x = Inr a \<and> f a = Inr b)"
  by (cases x) (auto simp: and_then_def)

text \<open>Credential id, user handle, relying party and PKCS#8 key, in the order they are read.\<close>

definition passkey_fields :: "(string \<rightharpoonup> string) \<Rightarrow> field_error + (string \<times> string \<times> string \<times> string)" where
  "passkey_fields passkey =
     and_then (and_then (required passkey CREDENTIAL_ID ''credential ID'') (\<lambda>v. bareBase64UrlToBase64 v MAX_CREDENTIAL_ID_BYTES)) (\<lambda>cid.
     and_then (and_then (if trimmed passkey USER_HANDLE \<noteq> [] then Inr (trimmed passkey USER_HANDLE)
                         else required passkey LEGACY_USER_HANDLE ''user handle'') userHandleToBase64) (\<lambda>uh.
     and_then (required passkey RELYING_PARTY ''relying-party ID'') (\<lambda>rp.
     if \<not> validRpId rp then Inl (Rejected ''has an invalid relying-party ID'')
     else and_then (and_then (required passkey PRIVATE_KEY_PEM ''private key'') pemToStandardBase64) (\<lambda>pk. Inr (cid, uh, rp, pk)))))"

text \<open>Converted and failed.\<close>

type_synonym conversion_tally = "nat \<times> nat"

record passkey_outcome =
  ko_credential :: "passkey option"
  ko_fields :: "raw_field list"
  ko_warnings :: "string list"
  ko_tally :: conversion_tally

definition convertKeepassPasskey :: "core_import \<Rightarrow> raw_field list \<Rightarrow> string \<Rightarrow> nat \<Rightarrow> passkey_outcome" where
  "convertKeepassPasskey core fs entryName importedAt =
     (if \<not> hasKeepassPasskey fs then \<lparr>ko_credential = None, ko_fields = fs, ko_warnings = [], ko_tally = (0, 0)\<rparr>
      else (case partitionPasskeyFields fs of (passkey, rest) \<Rightarrow>
        (case passkey_fields passkey of
           Inl e \<Rightarrow>
             \<lparr>ko_credential = None, ko_fields = fs,
              ko_warnings = [''The passkey on '' @ quoted entryName @ '' '' @
                (case rejectionReason e of Some r \<Rightarrow> r | None \<Rightarrow> ''could not be read'') @ '', so it was kept as fields instead.''],
              ko_tally = (0, 1)\<rparr>
         | Inr (cid, uh, rp, pkcs8) \<Rightarrow>
             (case core pkcs8 of
                Some (alg, cose, private) \<Rightarrow>
                  if private = [] \<or> cose = []
                  then \<lparr>ko_credential = None, ko_fields = fs,
                    ko_warnings = [''The passkey on '' @ quoted entryName @ '' has key material we can'' @ apostrophe @
                      ''t read, so it was kept as fields instead.''], ko_tally = (0, 1)\<rparr>
                  else \<lparr>ko_credential = Some \<lparr>pk_credentialId = cid, pk_rpId = rp, pk_rpName = None, pk_userHandle = uh,
                       pk_userName = some_text (trimmed passkey USERNAME), pk_userDisplayName = None, pk_alg = alg,
                       pk_publicKeyCose = cose, pk_privateKey = private, pk_signCount = 0, pk_createdAt = importedAt, pk_lastUsedAt = None\<rparr>,
                    ko_fields = rest, ko_warnings = [], ko_tally = (1, 0)\<rparr>
              | None \<Rightarrow>
                  \<lparr>ko_credential = None, ko_fields = fs,
                   ko_warnings = [''The passkey on '' @ quoted entryName @ '' has key material we can'' @ apostrophe @
                     ''t read, so it was kept as fields instead.''], ko_tally = (0, 1)\<rparr>))))"

definition with_passkeys :: "passkey list \<Rightarrow> entry_data \<Rightarrow> entry_data" where
  "with_passkeys ps e = (case en_body e of Login l \<Rightarrow> e\<lparr>en_body := Login (l\<lparr>lg_passkeys := Some ps\<rparr>)\<rparr> | _ \<Rightarrow> e)"

definition keepass_title :: "raw_field list \<Rightarrow> string" where
  "keepass_title fs =
     (case find (\<lambda>f. rf_key f = ''Title'') fs of None \<Rightarrow> ''Untitled'' | Some f \<Rightarrow> if rf_value f = [] then ''Untitled'' else rf_value f)"

definition mapKeepassEntry :: "(string \<Rightarrow> string) \<Rightarrow> core_import \<Rightarrow> raw_field list \<Rightarrow> nat \<Rightarrow> entry_data \<times> string list \<times> conversion_tally" where
  "mapKeepassEntry lower core fs importedAt =
     (let o1 = convertKeepassPasskey core fs (keepass_title fs) importedAt; e = mapKeepassFields lower (ko_fields o1)
      in (case ko_credential o1 of None \<Rightarrow> e | Some p \<Rightarrow> with_passkeys [p] e, ko_warnings o1, ko_tally o1))"

text \<open>The loop over the entries and its end, shared by both routes.\<close>

definition keepass_result :: "(string \<Rightarrow> string) \<Rightarrow> core_import \<Rightarrow> string \<Rightarrow> raw_field list list \<Rightarrow> nat \<Rightarrow> import_result" where
  "keepass_result lower core source fss importedAt =
     (let outs = map (\<lambda>fs. mapKeepassEntry lower core fs importedAt) fss;
          converted = sum_list (map (\<lambda>(_, _, c, _). c) outs); failed = sum_list (map (\<lambda>(_, _, _, f). f) outs)
      in summarize Some (map fst outs) 0 (concat (map (\<lambda>(_, ws, _). ws) outs) @
           (case systemicFailureWarning converted failed source of None \<Rightarrow> [] | Some m \<Rightarrow> [m])))"

text \<open>\<open>parsed\<close>: the groups under the root the XML parser found, or none.\<close>

definition parseKeePass :: "(nat \<Rightarrow> string) \<Rightarrow> (string \<Rightarrow> string) \<Rightarrow> core_import \<Rightarrow> xml_group list option \<Rightarrow> nat \<Rightarrow> string + import_result" where
  "parseKeePass codepoint lower core parsed importedAt =
     (case parsed of
        None \<Rightarrow> Inl (''This doesn'' @ apostrophe @ ''t look like a KeePass 2.x XML export.'')
      | Some gs \<Rightarrow>
          Inr (keepass_result lower core ''export'' (map (entryFields codepoint) (concat (map (collectEntries codepoint []) gs))) importedAt))"

definition kdbxEntriesToResult :: "(string \<Rightarrow> string) \<Rightarrow> core_import \<Rightarrow> (string \<times> string \<times> bool) list list \<Rightarrow> nat \<Rightarrow> import_result" where
  "kdbxEntriesToResult lower core raw importedAt =
     keepass_result lower core ''database''
       (map (map (\<lambda>(k, v, h). \<lparr>rf_key = k, rf_value = v, rf_hidden = Some h\<rparr>)) raw) importedAt"

subsection \<open>Text in and out of XML\<close>

text \<open>How a writer may show a character: as it is, by its name, by its number in decimal or hexadecimal.\<close>

definition hex_reference :: "nat \<Rightarrow> string" where
  "hex_reference n = [HEX ! (n div 16), HEX ! (n mod 16)]"

definition xml_shows :: "char \<Rightarrow> string \<Rightarrow> bool" where
  "xml_shows c r \<longleftrightarrow> (r = [c] \<and> c \<noteq> CHR ''&'') \<or> (\<exists>name. (name, [c]) \<in> set NAMED_ENTITIES \<and> r = ''&'' @ name @ '';'') \<or>
     r = ''&#'' @ dec (of_char c) @ '';'' \<or> r = ''&#x'' @ hex_reference (of_char c) @ '';''"

definition xml_shown :: "string \<Rightarrow> string \<Rightarrow> bool" where
  "xml_shown s t \<longleftrightarrow> (\<exists>rs. list_all2 xml_shows s rs \<and> t = concat rs)"

definition plain_codepoints :: "(nat \<Rightarrow> string) \<Rightarrow> bool" where
  "plain_codepoints codepoint \<longleftrightarrow> (\<forall>c. codepoint (of_char c) = [c])"

lemma char_small: "(of_char (c :: char) :: nat) < 256"
  using of_char_mod_256 [of c, where ?'a = nat] by (metis mod_less_divisor zero_less_numeral)

lemma dec_small: "length (dec (of_char c)) \<le> 7"
  using dec_length [of "of_char c" 6] char_small [of c] by simp

lemma named_unescape:
  "(name, t) \<in> set NAMED_ENTITIES \<Longrightarrow> unescapeXml codepoint (''&'' @ name @ '';'' @ r) = t @ unescapeXml codepoint r"
  by (auto simp: NAMED_ENTITIES_def XML_ENTITY_def named_entity_def Let_def)

lemma numeric_entity_text:
  assumes "ds \<noteq> []" "length ds \<le> most" "list_all digit ds" "\<not> digit CHR '';''" "number ds < 256"
  shows "numeric_entity codepoint digit number most opening (ds @ CHR '';'' # r) = Some (codepoint (number ds), r)"
proof -
  have "takeWhile digit (ds @ CHR '';'' # r) = ds"
    using assms(3,4) by (simp add: list_all_iff takeWhile_append)
  then show ?thesis
    using assms(1,2,5) by (simp add: numeric_entity_def numeric_reference_def Let_def)
qed

lemma dec_unescape:
  assumes "plain_codepoints codepoint"
  shows "unescapeXml codepoint (''&#'' @ dec (of_char c) @ '';'' @ r) = c # unescapeXml codepoint r"
proof -
  obtain d ds where d: "dec (of_char c) = d # ds" by (cases "dec (of_char c :: nat)") auto
  then have dig: "is_digit d" using dec_digits [of "of_char c"] by simp
  then have "d \<noteq> CHR ''x''" "d \<noteq> CHR ''X''" by (auto simp: is_digit_def)
  then have "XML_ENTITY codepoint (''#'' @ dec (of_char c) @ '';'' @ r) =
      numeric_entity codepoint is_digit undec 7 [CHR ''&'', CHR ''#''] (dec (of_char c) @ CHR '';'' # r)"
    by (simp add: XML_ENTITY_def d)
  also have "\<dots> = Some (codepoint (undec (dec (of_char c))), r)"
    by (rule numeric_entity_text) (simp add: d, rule dec_small, rule dec_digits, simp add: is_digit_def, simp add: char_small)
  finally show ?thesis using assms by (simp add: plain_codepoints_def)
qed

lemma hex_unescape:
  assumes "plain_codepoints codepoint"
  shows "unescapeXml codepoint (''&#x'' @ hex_reference (of_char c) @ '';'' @ r) = c # unescapeXml codepoint r"
proof -
  let ?n = "of_char c :: nat"
  have d: "hex_value (HEX ! i) = Some i" if "i < 16" for i
    using hex_digits_all that by (simp add: list_all_iff)
  have "?n div 16 < 16" using char_small [of c] by (simp add: less_mult_imp_div_less)
  then have v: "hex_value (HEX ! (?n div 16)) = Some (?n div 16)" "hex_value (HEX ! (?n mod 16)) = Some (?n mod 16)"
    by (simp_all add: d)
  have num: "hex_value_of (hex_reference ?n) = ?n"
    by (simp add: hex_reference_def v)
  have "XML_ENTITY codepoint (''#x'' @ hex_reference ?n @ '';'' @ r) =
      numeric_entity codepoint is_hex hex_value_of 6 [CHR ''&'', CHR ''#'', CHR ''x''] (hex_reference ?n @ CHR '';'' # r)"
    by (simp add: XML_ENTITY_def)
  also have "\<dots> = Some (codepoint (hex_value_of (hex_reference ?n)), r)"
    by (rule numeric_entity_text)
      (simp_all add: num char_small del: hex_value_of.simps, simp_all add: hex_reference_def is_hex_def v, simp add: hex_value_def)
  finally show ?thesis using assms by (simp add: plain_codepoints_def num del: hex_value_of.simps)
qed

lemma unescape_one:
  assumes "plain_codepoints codepoint" "xml_shows c r"
  shows "unescapeXml codepoint (r @ s) = c # unescapeXml codepoint s"
  using assms(2) dec_unescape [OF assms(1), of c s] hex_unescape [OF assms(1), of c s] named_unescape [of _ "[c]" codepoint s]
  unfolding xml_shows_def by auto

lemma unescape_shown:
  assumes "plain_codepoints codepoint" "xml_shown s t"
  shows "unescapeXml codepoint t = s"
proof -
  have "unescapeXml codepoint (concat rs) = s" if "list_all2 xml_shows s rs" for rs
    using that by (induction rule: list_all2_induct) (simp_all add: unescape_one [OF assms(1)])
  then show ?thesis using assms(2) by (auto simp: xml_shown_def)
qed

lemma shown_empty:
  assumes "xml_shown s t"
  shows "t = [] \<longleftrightarrow> s = []"
proof -
  have "r \<noteq> []" if "xml_shows c r" for c r
    using that by (auto simp: xml_shows_def)
  then show ?thesis
    using assms by (cases s) (auto simp: xml_shown_def list_all2_Cons1)
qed

subsection \<open>Two routes to one entry\<close>

text \<open>A database: groups with their names, entries with the text of their tags and their fields (key, value, protected).\<close>

datatype kp_group = KpGroup string "kp_group list" "(string \<times> (string \<times> string \<times> bool) list) list"

text \<open>What the core decrypts of it (\<open>parse_inner_xml\<close> of \<open>core-rust/src/kdbx.rs\<close>): the tags, the fields and the path,
  which leaves out the root group and unnamed groups; nothing of a group under the recycle bin. A field whose empty
  value the writer put in an empty-element tag is not listed, which \<open>listed\<close> decides for the fields without a value.
  A group's entries stand before its groups and an entry's tags before its fields, as KeePass writes them.\<close>

definition core_entry :: "(string \<times> string \<times> bool \<Rightarrow> bool) \<Rightarrow> string list \<Rightarrow> string \<times> (string \<times> string \<times> bool) list \<Rightarrow> (string \<times> string \<times> bool) list" where
  "core_entry listed names e =
     (let path = join_with ''/'' (filter (\<lambda>n. n \<noteq> []) (tl names))
      in (if fst e \<noteq> [] then [(''Tags'', fst e, False)] else []) @ filter (\<lambda>f. fst (snd f) \<noteq> [] \<or> listed f) (snd e) @
         (if path \<noteq> [] then [(''Group'', path, False)] else []))"

fun core_entries :: "(string \<times> string \<times> bool \<Rightarrow> bool) \<Rightarrow> string list \<Rightarrow> kp_group \<Rightarrow> (string \<times> string \<times> bool) list list" where
  "core_entries listed names (KpGroup n gs es) =
     (if n = RECYCLE_BIN then []
      else map (core_entry listed (names @ [n])) es @ concat (map (core_entries listed (names @ [n])) gs))"

text \<open>How it is exported: every text shown by \<open>esc\<close>, the tags in their own element; with \<open>xml_text \<circ> esc\<close> this is
  what the XML parser returns of the export, when it returns \<open>xml_text t\<close> of a text \<open>t\<close>. It trims white space around
  a text unless told not to, which \<open>parseKeePass\<close> does not, and turns every line end into a line feed; a text with
  neither comes back as it stands.\<close>

definition plain_text :: "string \<Rightarrow> bool" where
  "plain_text t \<longleftrightarrow> trim t = t \<and> CHR 0x0D \<notin> set t"

definition keeps_plain :: "(string \<Rightarrow> string) \<Rightarrow> bool" where
  "keeps_plain xml_text \<longleftrightarrow> (\<forall>t. plain_text t \<longrightarrow> xml_text t = t)"

definition write_entry :: "(string \<Rightarrow> string) \<Rightarrow> string \<times> (string \<times> string \<times> bool) list \<Rightarrow> xml_entry" where
  "write_entry esc e =
     \<lparr>xe_String = map (\<lambda>(k, v, h). \<lparr>xs_Key = Some (esc k),
        xs_Value = (if h then NodeValue (Some (esc v)) (Some ''True'') else TextValue (esc v))\<rparr>) (snd e),
      xe_Tags = (if fst e = [] then None else Some (esc (fst e)))\<rparr>"

fun write_group :: "(string \<Rightarrow> string) \<Rightarrow> kp_group \<Rightarrow> xml_group" where
  "write_group esc (KpGroup n gs es) = XmlGroup (Some (esc n)) (map (write_group esc) gs) (map (write_entry esc) es)"

text \<open>Fields have distinct names, none of the two the routes use themselves.\<close>

fun kp_ok :: "kp_group \<Rightarrow> bool" where
  "kp_ok (KpGroup n gs es) \<longleftrightarrow> list_all kp_ok gs \<and>
     list_all (\<lambda>e. distinct (map fst (snd e)) \<and> list_all (\<lambda>f. fst f \<noteq> ''Tags'' \<and> fst f \<noteq> ''Group'') (snd e)) es"

text \<open>Every text of the database is shown plainly. (White space shown by number is not white space.)\<close>

fun shown_plainly :: "(string \<Rightarrow> string) \<Rightarrow> kp_group \<Rightarrow> bool" where
  "shown_plainly esc (KpGroup n gs es) \<longleftrightarrow> plain_text (esc n) \<and> list_all (shown_plainly esc) gs \<and>
     list_all (\<lambda>e. plain_text (esc (fst e)) \<and> list_all (\<lambda>f. plain_text (esc (fst f)) \<and> plain_text (esc (fst (snd f)))) (snd e)) es"

lemma parsed_as_written:
  assumes "keeps_plain xml_text"
  shows "shown_plainly esc g \<Longrightarrow> write_group (xml_text \<circ> esc) g = write_group esc g"
proof (induction g)
  case (KpGroup n gs es)
  have k: "xml_text t = t" if "plain_text t" for t
    using assms that by (simp add: keeps_plain_def)
  have n: "xml_text (esc n) = esc n"
    using KpGroup.prems k unfolding shown_plainly.simps by blast
  have e: "write_entry (xml_text \<circ> esc) e = write_entry esc e" if "e \<in> set es" for e
  proof -
    have t: "xml_text (esc (fst e)) = esc (fst e)"
      using KpGroup.prems that k unfolding shown_plainly.simps list_all_iff by blast
    have f: "xml_text (esc (fst f)) = esc (fst f) \<and> xml_text (esc (fst (snd f))) = esc (fst (snd f))" if "f \<in> set (snd e)" for f
      using KpGroup.prems \<open>e \<in> set es\<close> that k unfolding shown_plainly.simps list_all_iff by blast
    show ?thesis
      unfolding write_entry_def comp_def t using f by (intro arg_cong2 [where f = "\<lambda>a b. \<lparr>xe_String = a, xe_Tags = b\<rparr>"] map_cong) auto
  qed
  have g: "write_group (xml_text \<circ> esc) g = write_group esc g" if "g \<in> set gs" for g
    using KpGroup.IH [OF that] KpGroup.prems that unfolding shown_plainly.simps list_all_iff by blast
  show ?case
    using e g by (simp add: n comp_def)
qed

definition raw_of :: "string \<times> string \<times> bool \<Rightarrow> raw_field" where
  "raw_of f = \<lparr>rf_key = fst f, rf_value = fst (snd f), rf_hidden = Some (snd (snd f))\<rparr>"

text \<open>The fields of an entry of the export: the core's, with the tags after the others.\<close>

definition tags_last :: "string list \<Rightarrow> string \<times> (string \<times> string \<times> bool) list \<Rightarrow> raw_field list" where
  "tags_last names e =
     (let path = join_with ''/'' (filter (\<lambda>n. n \<noteq> []) (tl names))
      in map raw_of (snd e) @ (if fst e \<noteq> [] then [raw_of (''Tags'', fst e, False)] else []) @
         (if path \<noteq> [] then [raw_of (''Group'', path, False)] else []))"

lemma entry_fields_written:
  assumes "plain_codepoints codepoint" "\<forall>s. xml_shown s (esc s)" "names \<noteq> []" "hd names \<noteq> []"
  shows "entryFields codepoint (write_entry esc e, filter (\<lambda>n. n \<noteq> []) names) = tags_last names e"
proof -
  have u: "unescapeXml codepoint (esc s) = s" for s
    using unescape_shown [OF assms(1)] assms(2) by blast
  have e: "esc s = [] \<longleftrightarrow> s = []" for s
    using shown_empty assms(2) by blast
  obtain n ns where n: "names = n # ns" "n \<noteq> []" using assms(3,4) by (cases names) auto
  have tl: "tl (filter (\<lambda>n. n \<noteq> []) names) = filter (\<lambda>n. n \<noteq> []) (tl names)"
    using n by simp
  show ?thesis
    by (auto simp: entryFields_def tags_last_def write_entry_def tl u e raw_of_def readValue_def Let_def comp_def split: if_splits)
qed

lemma collect_written:
  assumes "plain_codepoints codepoint" "\<forall>s. xml_shown s (esc s)"
  shows "collectEntries codepoint (filter (\<lambda>n. n \<noteq> []) names) (write_group esc g) =
    (case g of KpGroup n gs es \<Rightarrow> if n = RECYCLE_BIN then []
      else map (\<lambda>e. (write_entry esc e, filter (\<lambda>n. n \<noteq> []) (names @ [n]))) es @
        concat (map (\<lambda>g. collectEntries codepoint (filter (\<lambda>n. n \<noteq> []) (names @ [n])) (write_group esc g)) gs))"
proof -
  have u: "unescapeXml codepoint (esc s) = s" for s
    using unescape_shown [OF assms(1)] assms(2) by blast
  have e: "esc s = [] \<longleftrightarrow> s = []" for s
    using shown_empty assms(2) by blast
  show ?thesis
    by (cases g) (auto simp: u e Let_def comp_def RECYCLE_BIN_def)
qed

fun group_fields :: "string list \<Rightarrow> kp_group \<Rightarrow> raw_field list list" where
  "group_fields names (KpGroup n gs es) =
     (if n = RECYCLE_BIN then []
      else map (tags_last (names @ [n])) es @ concat (map (group_fields (names @ [n])) gs))"

lemma fields_written:
  assumes "plain_codepoints codepoint" "\<forall>s. xml_shown s (esc s)"
  shows "(case g of KpGroup n gs es \<Rightarrow> hd (names @ [n]) \<noteq> []) \<Longrightarrow>
    map (entryFields codepoint) (collectEntries codepoint (filter (\<lambda>n. n \<noteq> []) names) (write_group esc g)) = group_fields names g"
proof (induction names g rule: group_fields.induct)
  case (1 names n gs es)
  let ?ns = "names @ [n]"
  have named: "hd ?ns \<noteq> []" using 1(2) by simp
  have some: "?ns \<noteq> []" by simp
  have sub: "map (entryFields codepoint) (collectEntries codepoint (filter (\<lambda>n. n \<noteq> []) ?ns) (write_group esc g)) = group_fields ?ns g"
    if "g \<in> set gs" "n \<noteq> RECYCLE_BIN" for g
  proof (rule 1(1) [OF that(2,1)])
    show "case g of KpGroup m hs fs \<Rightarrow> hd (?ns @ [m]) \<noteq> []" using named by (cases g) (simp add: hd_append split: if_splits)
  qed
  let ?c = "\<lambda>g. collectEntries codepoint (filter (\<lambda>n. n \<noteq> []) ?ns) (write_group esc g)"
  show ?case
  proof (cases "n = RECYCLE_BIN")
    case True
    then show ?thesis
      using collect_written [OF assms, of names "KpGroup n gs es"] by (simp del: write_group.simps collectEntries.simps)
  next
    case False
    then have "map (entryFields codepoint) (collectEntries codepoint (filter (\<lambda>n. n \<noteq> []) names) (write_group esc (KpGroup n gs es))) =
        map (\<lambda>e. entryFields codepoint (write_entry esc e, filter (\<lambda>n. n \<noteq> []) ?ns)) es @
        concat (map (\<lambda>g. map (entryFields codepoint) (?c g)) gs)"
      by (simp only: collect_written [OF assms, of names "KpGroup n gs es"] kp_group.case if_False map_append map_map map_concat comp_def)
    also have "\<dots> = map (tags_last ?ns) es @ concat (map (group_fields ?ns) gs)"
      using sub [OF _ False] by (simp only: entry_fields_written [OF assms some named] cong: map_cong)
    finally show ?thesis using False by simp
  qed
qed

text \<open>Where the tags stand among the fields does not matter.\<close>

lemma tags_swap:
  assumes "rf_key t = ''Tags''" "rf_key f \<noteq> ''Tags''" "rf_key f \<noteq> ''Group''"
  shows "keepass_field f (keepass_field t s) = keepass_field t (keepass_field f s)"
  using assms by (auto simp: keepass_field_def Let_def)

lemma tags_past:
  assumes "rf_key t = ''Tags''" "list_all (\<lambda>f. rf_key f \<noteq> ''Tags'' \<and> rf_key f \<noteq> ''Group'') fs"
  shows "fold keepass_field fs (keepass_field t s) = keepass_field t (fold keepass_field fs s)"
  using assms(2) by (induction fs arbitrary: s) (simp_all add: tags_swap [OF assms(1)])

lemma map_fields_tags:
  assumes "rf_key t = ''Tags''" "list_all (\<lambda>f. rf_key f \<noteq> ''Tags'' \<and> rf_key f \<noteq> ''Group'') fs"
  shows "mapKeepassFields lower (t # fs @ gs) = mapKeepassFields lower (fs @ t # gs)"
  by (simp add: mapKeepassFields_def tags_past [OF assms])

lemma convert_tags:
  assumes "rf_key t = ''Tags''"
  shows "ko_credential (convertKeepassPasskey core (t # fs @ gs) n now) = ko_credential (convertKeepassPasskey core (fs @ t # gs) n now) \<and>
    ko_warnings (convertKeepassPasskey core (t # fs @ gs) n now) = ko_warnings (convertKeepassPasskey core (fs @ t # gs) n now) \<and>
    ko_tally (convertKeepassPasskey core (t # fs @ gs) n now) = ko_tally (convertKeepassPasskey core (fs @ t # gs) n now) \<and>
    (\<exists>us vs. set us \<subseteq> set fs \<and> ko_fields (convertKeepassPasskey core (t # fs @ gs) n now) = t # us @ vs \<and>
      ko_fields (convertKeepassPasskey core (fs @ t # gs) n now) = us @ t # vs)"
proof -
  have t: "\<not> is_passkey_field t" using assms by (simp add: is_passkey_field_def PREFIX_def)
  have "\<exists>us vs. set us \<subseteq> set fs \<and> t # fs @ gs = t # us @ vs \<and> fs @ t # gs = us @ t # vs" by blast
  moreover have "\<exists>us vs. set us \<subseteq> set fs \<and> t # filter P fs @ filter P gs = t # us @ vs \<and> filter P fs @ t # filter P gs = us @ t # vs" for P
    by (rule exI [of _ "filter P fs"]) auto
  ultimately show ?thesis
    using t by (simp add: convertKeepassPasskey_def partitionPasskeyFields_def hasKeepassPasskey_def
        split: sum.split option.split prod.split)
qed

lemma find_skip: "\<not> P t \<Longrightarrow> find P (fs @ t # gs) = find P (fs @ gs)"
  by (induction fs) auto

lemma map_entry_tags:
  assumes "rf_key t = ''Tags''" "list_all (\<lambda>f. rf_key f \<noteq> ''Tags'' \<and> rf_key f \<noteq> ''Group'') fs"
  shows "mapKeepassEntry lower core (t # fs @ gs) now = mapKeepassEntry lower core (fs @ t # gs) now"
proof -
  have title: "keepass_title (t # fs @ gs) = keepass_title (fs @ t # gs)"
    using assms(1) by (simp add: keepass_title_def find_skip)
  let ?n = "keepass_title (fs @ t # gs)"
  obtain us vs where uv: "set us \<subseteq> set fs" "ko_fields (convertKeepassPasskey core (t # fs @ gs) ?n now) = t # us @ vs"
    "ko_fields (convertKeepassPasskey core (fs @ t # gs) ?n now) = us @ t # vs"
    using convert_tags [OF assms(1), of core fs gs ?n now] by blast
  have "list_all (\<lambda>f. rf_key f \<noteq> ''Tags'' \<and> rf_key f \<noteq> ''Group'') us"
    using uv(1) assms(2) by (auto simp: list_all_iff)
  from map_fields_tags [OF assms(1) this, of lower vs] show ?thesis
    using convert_tags [OF assms(1), of core fs gs ?n now] uv(2,3) by (simp add: mapKeepassEntry_def Let_def title split: option.split)
qed

text \<open>A field without a value says nothing, and need not be listed.\<close>

definition alike :: "keepass_locals \<Rightarrow> keepass_locals \<Rightarrow> bool" where
  "alike s t \<longleftrightarrow> kl_name s = kl_name t \<and> kl_username s = kl_username t \<and> kl_password s = kl_password t \<and>
     kl_url s = kl_url t \<and> kl_notes s = kl_notes t \<and> kl_tags s = kl_tags t \<and>
     (kl_totp s = kl_totp t \<or> kl_totp s \<in> {None, Some []} \<and> kl_totp t \<in> {None, Some []}) \<and>
     filter (\<lambda>f. rf_key f \<noteq> [] \<and> rf_value f \<noteq> []) (kl_extras s) = filter (\<lambda>f. rf_key f \<noteq> [] \<and> rf_value f \<noteq> []) (kl_extras t)"

definition unset :: "string \<Rightarrow> keepass_locals \<Rightarrow> bool" where
  "unset k s \<longleftrightarrow> (k = ''Title'' \<longrightarrow> kl_name s = []) \<and> (k = ''UserName'' \<longrightarrow> kl_username s = []) \<and>
     (k = ''Password'' \<longrightarrow> kl_password s = []) \<and> (k = ''URL'' \<longrightarrow> kl_url s = []) \<and> (k = ''Notes'' \<longrightarrow> kl_notes s = [])"

lemma alike_refl: "alike s s"
  by (simp add: alike_def)

lemma alike_trans: "alike s t \<Longrightarrow> alike t u \<Longrightarrow> alike s u"
  unfolding alike_def by auto

definition named_field :: "raw_field \<Rightarrow> bool" where
  "named_field f \<longleftrightarrow> rf_key f \<in> set ([''otp'', ''TOTP Seed'', ''TOTP Settings''] @ STANDARD_KEYS)"

lemma field_locals:
  "kl_name (keepass_field f s) = (if rf_key f = ''Title'' then rf_value f else kl_name s)"
  "kl_username (keepass_field f s) = (if rf_key f = ''UserName'' then rf_value f else kl_username s)"
  "kl_password (keepass_field f s) = (if rf_key f = ''Password'' then rf_value f else kl_password s)"
  "kl_url (keepass_field f s) = (if rf_key f = ''URL'' then rf_value f else kl_url s)"
  "kl_notes (keepass_field f s) = (if rf_key f = ''Notes'' then rf_value f else kl_notes s)"
  "kl_totp (keepass_field f s) =
     (if rf_key f = ''otp'' then if rf_value f \<noteq> [] then Some (rf_value f) else kl_totp s
      else if rf_key f = ''TOTP Seed'' \<and> (kl_totp s = None \<or> kl_totp s = Some []) then Some (rf_value f) else kl_totp s)"
  "kl_tags (keepass_field f s) = kl_tags s @
     (if rf_key f = ''Tags'' then split_tags (rf_value f) else if rf_key f = ''Group'' then split_on CHR ''/'' (rf_value f) else [])"
  "kl_extras (keepass_field f s) = (if named_field f then kl_extras s else kl_extras s @ [f])"
  by (simp_all add: keepass_field_def Let_def named_field_def STANDARD_KEYS_def)

lemma alike_field: "alike s t \<Longrightarrow> alike (keepass_field f s) (keepass_field f t)"
  unfolding alike_def field_locals by (elim conjE, intro conjI) (simp_all, auto)

lemma empty_field:
  assumes "rf_value f = []" "rf_key f \<noteq> ''Tags''" "rf_key f \<noteq> ''Group''" "unset (rf_key f) s"
  shows "alike (keepass_field f s) s"
  unfolding alike_def field_locals using assms unfolding unset_def by (elim conjE, intro conjI) simp_all

lemma unset_other: "k \<noteq> rf_key f \<Longrightarrow> unset k s \<Longrightarrow> unset k (keepass_field f s)"
  unfolding unset_def field_locals by (elim conjE, intro conjI impI) simp_all

definition says_nothing :: "(raw_field \<Rightarrow> bool) \<Rightarrow> raw_field list \<Rightarrow> bool" where
  "says_nothing Q fs \<longleftrightarrow> distinct (map rf_key fs) \<and>
     (\<forall>f \<in> set fs. Q f \<or> (rf_value f = [] \<and> rf_key f \<noteq> ''Tags'' \<and> rf_key f \<noteq> ''Group''))"

lemma fold_listed:
  "says_nothing Q fs \<Longrightarrow> (\<And>f. f \<in> set fs \<Longrightarrow> unset (rf_key f) s) \<Longrightarrow> alike s t \<Longrightarrow>
     alike (fold keepass_field fs s) (fold keepass_field (filter Q fs) t)"
proof (induction fs arbitrary: s t)
  case (Cons f fs)
  have un: "unset (rf_key g) (keepass_field f s)" if "g \<in> set fs" for g
  proof (rule unset_other)
    show "rf_key g \<noteq> rf_key f"
      using Cons.prems(1) imageI [OF that, of rf_key] by (auto simp: says_nothing_def)
  qed (use Cons.prems(2) that in simp)
  have rest: "says_nothing Q fs" using Cons.prems(1) by (simp add: says_nothing_def)
  show ?case
  proof (cases "Q f")
    case True
    with Cons.IH [OF rest un alike_field [OF Cons.prems(3)]] show ?thesis by simp
  next
    case False
    then have "alike (keepass_field f s) s"
      using Cons.prems(1,2) by (intro empty_field) (auto simp: says_nothing_def)
    with Cons.IH [OF rest un alike_trans [OF _ Cons.prems(3)]] False show ?thesis by simp
  qed
qed simp

lemma map_fields_listed:
  assumes "says_nothing Q fs"
  shows "mapKeepassFields lower (filter Q fs) = mapKeepassFields lower fs"
proof -
  have "unset k keepass_start" for k
    by (simp add: unset_def keepass_start_def)
  from fold_listed [OF assms this alike_refl]
  have a: "alike (fold keepass_field fs keepass_start) (fold keepass_field (filter Q fs) keepass_start)" .
  have custom: "toCustomFields xs = toCustomFields ys"
    if "filter (\<lambda>f. rf_key f \<noteq> [] \<and> rf_value f \<noteq> []) xs = filter (\<lambda>f. rf_key f \<noteq> [] \<and> rf_value f \<noteq> []) ys" for xs ys
    using that by (simp add: toCustomFields_def)
  show ?thesis
    unfolding mapKeepassFields_def Let_def using a unfolding alike_def
    by (auto simp: some_text_def dest: custom)
qed

definition passkey_pairs :: "raw_field list \<Rightarrow> (string \<times> string) list" where
  "passkey_pairs fs = map (\<lambda>f. (rf_key f, rf_value f)) (filter is_passkey_field fs)"

lemma pairs_trimmed:
  "says_nothing Q fs \<Longrightarrow> trimmed (map_of (passkey_pairs (filter Q fs))) k = trimmed (map_of (passkey_pairs fs)) k"
proof (induction fs)
  case (Cons f fs)
  have rest: "says_nothing Q fs" using Cons.prems by (simp add: says_nothing_def)
  have absent: "map_of (passkey_pairs fs) (rf_key f) = None"
    using Cons.prems by (force simp: says_nothing_def passkey_pairs_def map_of_eq_None_iff)
  have "rf_value f = []" if "\<not> Q f"
    using that Cons.prems by (auto simp: says_nothing_def)
  moreover have "trim [] = []" by (simp add: trim_def strip_def)
  ultimately show ?case
    using Cons.IH [OF rest] absent
    by (cases "Q f"; cases "is_passkey_field f"; cases "rf_key f = k") (auto simp: passkey_pairs_def trimmed_def)
qed simp

lemma passkey_trimmed:
  assumes "says_nothing Q fs"
  shows "trimmed (fst (partitionPasskeyFields (filter Q fs))) = trimmed (fst (partitionPasskeyFields fs))"
proof -
  have p: "fst (partitionPasskeyFields xs) = map_of (passkey_pairs xs)" if "distinct (map rf_key xs)" for xs
  proof -
    have "distinct_keys (passkey_pairs xs)"
      using distinct_map_filter [OF that, of is_passkey_field] by (simp add: distinct_keys_def passkey_pairs_def comp_def)
    then show ?thesis
      by (simp add: partitionPasskeyFields_def passkey_pairs_def map_of_rev_distinct ext)
  qed
  have "distinct (map rf_key fs)" "distinct (map rf_key (filter Q fs))"
    using assms distinct_map_filter [of rf_key fs Q] by (simp_all add: says_nothing_def)
  then show ?thesis
    using pairs_trimmed [OF assms] by (intro ext) (simp add: p)
qed

lemma passkey_fields_trimmed: "trimmed p = trimmed q \<Longrightarrow> passkey_fields p = passkey_fields q"
proof -
  assume t: "trimmed p = trimmed q"
  then have "required p = required q" by (intro ext) (simp add: required_def)
  with t show ?thesis unfolding passkey_fields_def by metis
qed

lemma convert_results:
  "ko_credential (convertKeepassPasskey core xs n now) =
     (if \<not> hasKeepassPasskey xs then None
      else case passkey_fields (fst (partitionPasskeyFields xs)) of
        Inl _ \<Rightarrow> None
      | Inr r \<Rightarrow>
          (case core (snd (snd (snd r))) of None \<Rightarrow> None
           | Some m \<Rightarrow> if snd (snd m) = [] \<or> fst (snd m) = [] then None
               else Some \<lparr>pk_credentialId = fst r, pk_rpId = fst (snd (snd r)), pk_rpName = None, pk_userHandle = fst (snd r),
                 pk_userName = some_text (trimmed (fst (partitionPasskeyFields xs)) USERNAME), pk_userDisplayName = None, pk_alg = fst m,
                 pk_publicKeyCose = fst (snd m), pk_privateKey = snd (snd m), pk_signCount = 0, pk_createdAt = now, pk_lastUsedAt = None\<rparr>))" (is "_ = ?c")
  "ko_fields (convertKeepassPasskey core xs n now) =
     (if ko_credential (convertKeepassPasskey core xs n now) = None then xs else snd (partitionPasskeyFields xs))"
proof -
  have both: "(ko_credential (convertKeepassPasskey core xs n now) = ?c) \<and> (ko_fields (convertKeepassPasskey core xs n now) =
      (if ?c = None then xs else snd (partitionPasskeyFields xs)))"
  proof (cases "hasKeepassPasskey xs")
    case True
    show ?thesis
    proof (cases "passkey_fields (fst (partitionPasskeyFields xs))")
      case (Inl e)
      then show ?thesis using True by (simp add: convertKeepassPasskey_def case_prod_unfold)
    next
      case (Inr r)
      then show ?thesis
        using True by (cases "core (snd (snd (snd r)))") (simp_all add: convertKeepassPasskey_def case_prod_unfold)
    qed
  qed (simp add: convertKeepassPasskey_def)
  show "ko_credential (convertKeepassPasskey core xs n now) = ?c"
    by (rule conjunct1 [OF both])
  show "ko_fields (convertKeepassPasskey core xs n now) =
      (if ko_credential (convertKeepassPasskey core xs n now) = None then xs else snd (partitionPasskeyFields xs))"
    unfolding conjunct1 [OF both] by (rule conjunct2 [OF both])
qed

lemma convert_listed:
  assumes "says_nothing Q fs"
  shows "ko_credential (convertKeepassPasskey core (filter Q fs) n now) = ko_credential (convertKeepassPasskey core fs n now) \<and>
    ko_fields (convertKeepassPasskey core (filter Q fs) n now) = filter Q (ko_fields (convertKeepassPasskey core fs n now))"
proof -
  let ?p = "fst (partitionPasskeyFields fs)" and ?q = "fst (partitionPasskeyFields (filter Q fs))"
  have t: "trimmed ?q = trimmed ?p" by (rule passkey_trimmed [OF assms])
  have same: "passkey_fields ?q = passkey_fields ?p" "trimmed ?q USERNAME = trimmed ?p USERNAME"
    by (rule passkey_fields_trimmed [OF t], simp only: t)
  have rest: "snd (partitionPasskeyFields (filter Q fs)) = filter Q (snd (partitionPasskeyFields fs))"
    by (simp add: partitionPasskeyFields_def conj_commute)
  have none: "\<exists>e. passkey_fields ?p = Inl e" if "\<not> hasKeepassPasskey (filter Q fs)"
  proof -
    have "filter is_passkey_field (filter Q fs) = []"
      using that by (auto simp: hasKeepassPasskey_def list_ex_iff filter_empty_conv)
    then have "?q = Map.empty"
      by (simp add: partitionPasskeyFields_def)
    then have "trimmed ?p CREDENTIAL_ID = []"
      using fun_cong [OF t, of CREDENTIAL_ID] by (simp add: trimmed_def)
    then show ?thesis
      by (simp add: passkey_fields_def required_def and_then_def)
  qed
  have has: "hasKeepassPasskey (filter Q fs) \<Longrightarrow> hasKeepassPasskey fs"
    by (auto simp: hasKeepassPasskey_def list_ex_iff)
  have cred: "ko_credential (convertKeepassPasskey core (filter Q fs) n now) = ko_credential (convertKeepassPasskey core fs n now)"
  proof (cases "hasKeepassPasskey (filter Q fs)")
    case True
    then show ?thesis using has by (simp only: convert_results(1) same)
  next
    case False
    then obtain e where "passkey_fields ?p = Inl e" using none by blast
    with False show ?thesis by (simp add: convert_results(1))
  qed
  then show ?thesis
    unfolding convert_results(2) cred rest by simp
qed

lemma map_entry_listed:
  assumes "says_nothing Q fs"
  shows "fst (mapKeepassEntry lower core (filter Q fs) now) = fst (mapKeepassEntry lower core fs now)"
proof -
  have any: "ko_credential (convertKeepassPasskey core fs n now) = ko_credential (convertKeepassPasskey core fs m now) \<and>
      ko_fields (convertKeepassPasskey core fs n now) = ko_fields (convertKeepassPasskey core fs m now)" for n m
    by (auto simp: convertKeepassPasskey_def split: sum.split option.split prod.split)
  let ?n = "keepass_title (filter Q fs)" and ?m = "keepass_title fs"
  let ?fields = "ko_fields (convertKeepassPasskey core fs ?m now)"
  have "set ?fields \<subseteq> set fs"
    by (simp add: convert_results(2) partitionPasskeyFields_def)
  moreover have "distinct (map rf_key ?fields)"
    using assms distinct_map_filter [of rf_key fs "\<lambda>f. \<not> is_passkey_field f"]
    by (simp add: says_nothing_def convert_results(2) partitionPasskeyFields_def)
  ultimately have "says_nothing Q ?fields"
    using assms unfolding says_nothing_def by blast
  note fields = map_fields_listed [OF this]
  have c: "ko_credential (convertKeepassPasskey core (filter Q fs) ?n now) = ko_credential (convertKeepassPasskey core fs ?m now)"
    "ko_fields (convertKeepassPasskey core (filter Q fs) ?n now) = filter Q ?fields"
    using convert_listed [OF assms, of core ?n now] any [of ?n ?m] by simp_all
  show ?thesis
    unfolding mapKeepassEntry_def Let_def fst_conv c fields ..
qed

text \<open>One entry of the database: as the core lists it and as the export has it.\<close>

lemma core_entry_same:
  assumes "distinct (map fst (snd e))" "list_all (\<lambda>f. fst f \<noteq> ''Tags'' \<and> fst f \<noteq> ''Group'') (snd e)"
  shows "fst (mapKeepassEntry lower core (map raw_of (core_entry listed names e)) now) =
    fst (mapKeepassEntry lower core (tags_last names e) now)"
proof -
  define Q :: "raw_field \<Rightarrow> bool" where "Q f \<longleftrightarrow> rf_value f \<noteq> [] \<or> listed (rf_key f, rf_value f, rf_hidden f = Some True)" for f
  let ?all = "map raw_of (core_entry (\<lambda>_. True) names e)"
  have q: "Q (raw_of f) \<longleftrightarrow> fst (snd f) \<noteq> [] \<or> listed f" for f
    by (cases f) (simp add: Q_def raw_of_def)
  have tag: "raw_of (k, v, h) = \<lparr>rf_key = k, rf_value = v, rf_hidden = Some h\<rparr>" for k v h
    by (simp add: raw_of_def)
  have "map raw_of (core_entry listed names e) = filter Q ?all"
  proof -
    have "Q (raw_of (k, v, False))" if "v \<noteq> []" for k v
      using that by (simp add: q)
    moreover have "filter Q (map raw_of fs) = map raw_of (filter (\<lambda>f. fst (snd f) \<noteq> [] \<or> listed f) fs)" for fs
      by (simp only: filter_map comp_def q)
    ultimately show ?thesis
      by (simp add: core_entry_def Let_def)
  qed
  moreover have "says_nothing Q ?all"
  proof -
    have "distinct (map rf_key (map raw_of (snd e)))"
      using assms(1) by (simp add: comp_def raw_of_def)
    moreover have "''Tags'' \<notin> fst ` set (snd e)" "''Group'' \<notin> fst ` set (snd e)"
      using assms(2) by (auto simp: list_all_iff)
    ultimately have "distinct (map rf_key ?all)"
      by (auto simp: core_entry_def Let_def comp_def raw_of_def)
    moreover have "Q f \<or> (rf_value f = [] \<and> rf_key f \<noteq> ''Tags'' \<and> rf_key f \<noteq> ''Group'')" if "f \<in> set ?all" for f
      using that assms(2) by (auto simp: core_entry_def Let_def Q_def raw_of_def list_all_iff split: if_splits)
    ultimately show ?thesis by (simp add: says_nothing_def)
  qed
  ultimately have "fst (mapKeepassEntry lower core (map raw_of (core_entry listed names e)) now) =
      fst (mapKeepassEntry lower core ?all now)"
    by (simp only: map_entry_listed)
  also have "\<dots> = fst (mapKeepassEntry lower core (tags_last names e) now)"
  proof -
    have "list_all (\<lambda>f. rf_key f \<noteq> ''Tags'' \<and> rf_key f \<noteq> ''Group'') (map raw_of (snd e))"
      using assms(2) by (simp add: list_all_iff raw_of_def)
    note swap = map_entry_tags [OF _ this, of "raw_of (''Tags'', fst e, False)" lower core _ now]
    show ?thesis
      using swap [of "[]"] swap [of "[raw_of (''Group'', join_with ''/'' (filter (\<lambda>n. n \<noteq> []) (tl names)), False)]"]
      by (simp add: tags_last_def core_entry_def Let_def raw_of_def)
  qed
  finally show ?thesis .
qed

lemma core_entries_same:
  "kp_ok g \<Longrightarrow> map (\<lambda>fs. fst (mapKeepassEntry lower core fs now)) (group_fields ns g) =
     map (\<lambda>fs. fst (mapKeepassEntry lower core (map raw_of fs) now)) (core_entries listed ns g)"
proof (induction ns g rule: group_fields.induct)
  case (1 ns n gs es)
  have one: "fst (mapKeepassEntry lower core (tags_last (ns @ [n]) e) now) =
      fst (mapKeepassEntry lower core (map raw_of (core_entry listed (ns @ [n]) e)) now)" if "e \<in> set es" for e
    using core_entry_same [of e] 1(2) that by (simp add: list_all_iff)
  show ?case
  proof (cases "n = RECYCLE_BIN")
    case False
    have sub: "map (\<lambda>fs. fst (mapKeepassEntry lower core fs now)) (group_fields (ns @ [n]) g) =
        map (\<lambda>fs. fst (mapKeepassEntry lower core (map raw_of fs) now)) (core_entries listed (ns @ [n]) g)" if "g \<in> set gs" for g
      using 1(1) [OF False that] 1(2) that by (simp add: list_all_iff)
    show ?thesis
      using False by (simp add: one sub map_concat comp_def cong: map_cong)
  qed simp
qed


text \<open>A parser that trims and normalises.\<close>

fun unix_lines :: "string \<Rightarrow> string" where
  "unix_lines [] = []"
| "unix_lines (c # cs) =
     (if c = CHR 0x0D then (case cs of d # ds \<Rightarrow> if d = CHR 0x0A then CHR 0x0A # unix_lines ds else CHR 0x0A # unix_lines cs | [] \<Rightarrow> [CHR 0x0A])
      else c # unix_lines cs)"

definition sample_parser :: "string \<Rightarrow> string" where
  "sample_parser t = trim (unix_lines t)"

lemma sample_parser_plain: "keeps_plain sample_parser"
proof -
  have "CHR 0x0D \<notin> set t \<Longrightarrow> unix_lines t = t" for t
    by (induction t) auto
  then show ?thesis by (simp add: keeps_plain_def plain_text_def sample_parser_def)
qed

definition sample_db :: kp_group where
  "sample_db = KpGroup ''Db'' [KpGroup ''Work'' [] [(''a;b'', [(''Title'', ''Mail'', False), (''UserName'', [], False),
     (''Password'', ''<&> '', True)])]] []"


text \<open>A password with a space at its end, written as it is, loses the space by the XML route only.\<close>

lemma outer_space_is_trimmed:
  "map_sum id (map en_body \<circ> ir_imported) (parseKeePass (\<lambda>n. [char_of n]) id (\<lambda>_. None)
     (Some [write_group sample_parser (KpGroup ''Db'' [] [([], [(''Password'', ''p '', False)])])]) 7) =
   map_sum id (map en_body \<circ> ir_imported) (parseKeePass (\<lambda>n. [char_of n]) id (\<lambda>_. None)
     (Some [write_group id (KpGroup ''Db'' [] [([], [(''Password'', ''p'', False)])])]) 7) \<and>
   map en_body (ir_imported (kdbxEntriesToResult id (\<lambda>_. None) (core_entries (\<lambda>_. True) [] (KpGroup ''Db'' [] [([], [(''Password'', ''p '', False)])])) 7)) =
   [Login \<lparr>lg_urls = [], lg_username = [], lg_password = ''p '', lg_totp = None, lg_breach = None, lg_autofillEnabled = None,
      lg_autoSubmit = None, lg_subdomainMatch = None, lg_passkeys = None, lg_passwordChangelog = None\<rparr>]"
  by code_simp

text \<open>With an unnamed root the routes differ: the XML importer takes the first named folder for the root.\<close>

lemma unnamed_root_drops_folder:
  "map_sum id (map en_tags \<circ> ir_imported) (parseKeePass (\<lambda>n. [char_of n]) id (\<lambda>_. None)
     (Some [write_group id (KpGroup [] [KpGroup ''Work'' [] [([], [(''Title'', ''Mail'', False)])]] [])]) 7) = Inr [None] \<and>
   map en_tags (ir_imported (kdbxEntriesToResult id (\<lambda>_. None)
     (core_entries (\<lambda>_. True) [] (KpGroup [] [KpGroup ''Work'' [] [([], [(''Title'', ''Mail'', False)])]] [])) 7)) = [Some [''Work'']]"
  by code_simp

subsection \<open>A passkey moves or stays\<close>

lemma extras_kept: "kl_extras (fold keepass_field fs s) = kl_extras s @ filter (\<lambda>f. \<not> named_field f) fs"
  by (induction fs arbitrary: s) (auto simp: keepass_field_def named_field_def STANDARD_KEYS_def Let_def)

lemma custom_fields_of:
  "en_customFields (mapKeepassFields lower fs) = toCustomFields (filter (\<lambda>f. \<not> named_field f) fs)"
  by (simp add: mapKeepassFields_def Let_def extras_kept keepass_start_def)

lemma passkey_not_named: "is_passkey_field f \<Longrightarrow> \<not> named_field f \<and> rf_key f \<noteq> []"
  by (auto simp: is_passkey_field_def named_field_def STANDARD_KEYS_def PREFIX_def)

lemma passkey_fields_ok:
  assumes "passkey_fields m = Inr (cid, uh, rp, pk)"
  shows "stored_id MAX_CREDENTIAL_ID_BYTES cid \<and> stored_id MAX_USER_HANDLE_BYTES uh \<and> validRpId rp"
  using assms unfolding passkey_fields_def
  by (auto simp: and_then_Inr userHandleToBase64_def dest!: bare_stored split: if_splits)

lemma convert_cases:
  assumes "convertKeepassPasskey core fs n now = oc"
  shows "case ko_credential oc of
      None \<Rightarrow> ko_fields oc = fs \<and> (hasKeepassPasskey fs \<longrightarrow> ko_warnings oc \<noteq> [] \<and> ko_tally oc = (0, 1))
    | Some p \<Rightarrow> ko_fields oc = filter (\<lambda>f. \<not> is_passkey_field f) fs \<and> ko_tally oc = (1, 0) \<and>
        stored_id MAX_CREDENTIAL_ID_BYTES (pk_credentialId p) \<and> stored_id MAX_USER_HANDLE_BYTES (pk_userHandle p) \<and>
        validRpId (pk_rpId p) \<and> pk_privateKey p \<noteq> [] \<and> pk_publicKeyCose p \<noteq> []"
proof (cases "hasKeepassPasskey fs")
  case False
  with assms show ?thesis by (auto simp: convertKeepassPasskey_def)
next
  case True
  let ?m = "fst (partitionPasskeyFields fs)"
  show ?thesis
  proof (cases "passkey_fields ?m")
    case (Inl e)
    with assms True show ?thesis by (auto simp: convertKeepassPasskey_def case_prod_unfold)
  next
    case (Inr x)
    obtain cid uh rp pk where x: "x = (cid, uh, rp, pk)" by (metis prod_cases4)
    note ok = passkey_fields_ok [OF Inr [unfolded x]]
    show ?thesis
    proof (cases "core pk")
      case None
      with assms True Inr x show ?thesis by (auto simp: convertKeepassPasskey_def case_prod_unfold)
    next
      case (Some material)
      obtain alg cose prv where "material = (alg, cose, prv)" by (metis prod_cases3)
      with assms True Inr x Some ok show ?thesis
        by (cases "prv = [] \<or> cose = []") (auto simp: convertKeepassPasskey_def partitionPasskeyFields_def)
    qed
  qed
qed

definition passkeys_of :: "entry_data \<Rightarrow> passkey list" where
  "passkeys_of e = (case en_body e of Login l \<Rightarrow> (case lg_passkeys l of None \<Rightarrow> [] | Some ps \<Rightarrow> ps) | _ \<Rightarrow> [])"

text \<open>Property C33: a KeePassXC passkey either moves or stays, and is never in both places or in neither. If the entry it
  came with has a passkey after the import, that passkey has a relying party that is a domain, an id and a user handle
  within the caps and key material, and no attribute of the original, the private key among them, is left in a custom
  field. If not, every attribute with a value is a custom field of the entry, hidden if it was hidden, and a warning
  says so.\<close>

theorem keepass_passkey_moves_or_stays:
  assumes "mapKeepassEntry lower core fs now = (e, warnings, converted, failed)"
  shows "case passkeys_of e of
      [] \<Rightarrow> (\<forall>f\<in>set fs. is_passkey_field f \<and> rf_value f \<noteq> [] \<longrightarrow> custom_of f \<in> set (customs e)) \<and>
        (hasKeepassPasskey fs \<longrightarrow> warnings \<noteq> [] \<and> failed = 1)
    | p # ps \<Rightarrow> ps = [] \<and> stored_id MAX_CREDENTIAL_ID_BYTES (pk_credentialId p) \<and> stored_id MAX_USER_HANDLE_BYTES (pk_userHandle p) \<and>
        validRpId (pk_rpId p) \<and> pk_privateKey p \<noteq> [] \<and> pk_publicKeyCose p \<noteq> [] \<and>
        (\<forall>c\<in>set (customs e). \<not> prefix PREFIX (cf_key c)) \<and> converted = 1"
proof -
  let ?o = "convertKeepassPasskey core fs (keepass_title fs) now" and ?m = "mapKeepassFields lower"
  have body: "\<exists>l. en_body (?m gs) = Login l \<and> lg_passkeys l = None" for gs
    by (simp add: mapKeepassFields_def Let_def)
  have out: "e = (case ko_credential ?o of None \<Rightarrow> ?m (ko_fields ?o) | Some p \<Rightarrow> with_passkeys [p] (?m (ko_fields ?o)))"
    "warnings = ko_warnings ?o" "ko_tally ?o = (converted, failed)"
    using assms by (simp_all add: mapKeepassEntry_def Let_def)
  show ?thesis
  proof (cases "ko_credential ?o")
    case None
    then have fs: "ko_fields ?o = fs" using convert_cases [OF refl, of core fs "keepass_title fs" now] by simp
    obtain l where "en_body (?m fs) = Login l" "lg_passkeys l = None" using body by blast
    then have "passkeys_of e = []" using out(1) None fs by (simp add: passkeys_of_def)
    moreover have "custom_of f \<in> set (customs e)" if "f \<in> set fs" "is_passkey_field f" "rf_value f \<noteq> []" for f
      using that passkey_not_named [OF that(2)] None out(1) convert_cases [OF refl, of core fs "keepass_title fs" now]
      by (simp add: customs_def custom_fields_of custom_set)
    ultimately show ?thesis
      using None out(2,3) convert_cases [OF refl, of core fs "keepass_title fs" now] by simp
  next
    case (Some p)
    note c = convert_cases [OF refl, of core fs "keepass_title fs" now]
    have ps: "passkeys_of e = [p]" and cu: "en_customFields e = en_customFields (?m (ko_fields ?o))"
      using body [of "ko_fields ?o"] out(1) Some by (auto simp: passkeys_of_def with_passkeys_def)
    have "\<not> prefix PREFIX (cf_key c)" if "c \<in> set (customs e)" for c
      using that Some c by (auto simp: customs_def cu custom_fields_of custom_set custom_of_def is_passkey_field_def)
    then show ?thesis using ps c Some out(3) by simp
  qed
qed

text \<open>The plugin's settings of a one-time code are dropped: a code of another length or period is imported as the usual one.\<close>

lemma totp_settings_dropped:
  "mapKeepassFields lower (fs @ [\<lparr>rf_key = ''TOTP Settings'', rf_value = v, rf_hidden = h\<rparr>]) = mapKeepassFields lower fs"
  by (simp add: mapKeepassFields_def keepass_field_def)

theorem keepass_passkey_moves_or_stays_witness:
  "\<exists>e w c f. mapKeepassEntry id (\<lambda>_. None) [\<lparr>rf_key = CREDENTIAL_ID, rf_value = ''AAAA'', rf_hidden = Some True\<rparr>] 7 = (e, w, c, f) \<and>
     custom_of \<lparr>rf_key = CREDENTIAL_ID, rf_value = ''AAAA'', rf_hidden = Some True\<rparr> \<in> set (customs e)"
proof -
  let ?f = "\<lparr>rf_key = CREDENTIAL_ID, rf_value = ''AAAA'', rf_hidden = Some True\<rparr>"
  obtain e w c f where m: "mapKeepassEntry id (\<lambda>_. None) [?f] 7 = (e, w, c, f)" by (metis prod_cases4)
  have "ko_credential (convertKeepassPasskey (\<lambda>_. None) [?f] n 7) = None" for n
    by (simp add: convertKeepassPasskey_def case_prod_unfold split: sum.split)
  then have "passkeys_of (fst (mapKeepassEntry id (\<lambda>_. None) [?f] 7)) = []"
    by (simp add: mapKeepassEntry_def mapKeepassFields_def passkeys_of_def Let_def)
  then have "passkeys_of e = []" using m by simp
  then show ?thesis
    using keepass_passkey_moves_or_stays [OF m] m by (simp add: is_passkey_field_def CREDENTIAL_ID_def)
qed

end
