(* ===== verification/Json.thy ===== *)
theory Json
  imports Js_Text "HOL-Library.List_Lexorder" "HOL-Library.Char_ord"
begin

text \<open>
  JSON values as the code holds them after \<open>JSON.parse\<close> or in plain objects, and \<open>JSON.stringify\<close>. An object is the
  list of its properties in order, with distinct names; \<open>JUndef\<close> is an absent value. A number is a natural number,
  as every timestamp, count and kind in an entry or an export is.
\<close>

datatype json =
    JNull
  | JUndef
  | JBool bool
  | JNum nat
  | JStr string
  | JArr "json list"
  | JObj "(string \<times> json) list"

lemma size_snd_json: "(k, v) \<in> set kvs \<Longrightarrow> size v < Suc (size_list (size_prod (\<lambda>_. 0) size) kvs)"
  by (induction kvs) auto

lemma size_elem_json: "v \<in> set vs \<Longrightarrow> size v < Suc (size_list size (vs :: json list))"
  by (induction vs) auto

text \<open>Printing: an undefined property is left out, an undefined element is null.\<close>

function stringify :: "json \<Rightarrow> string" where
  "stringify JNull = ''null''"
| "stringify JUndef = ''null''"
| "stringify (JBool b) = (if b then ''true'' else ''false'')"
| "stringify (JNum n) = dec n"
| "stringify (JStr s) = json_string s"
| "stringify (JArr vs) = json_array (map stringify vs)"
| "stringify (JObj kvs) = json_object (map (\<lambda>(k, v). (k, stringify v)) (filter (\<lambda>(k, v). v \<noteq> JUndef) kvs))"
  by pat_completeness auto
termination
  by (relation "measure size") (auto dest: size_snd_json size_elem_json)

subsection \<open>Printing is injective\<close>

text \<open>Values with nothing undefined in them.\<close>

fun plain :: "json \<Rightarrow> bool" where
  "plain JUndef = False"
| "plain (JArr vs) = list_all plain vs"
| "plain (JObj kvs) = list_all (\<lambda>(k, v). plain v) kvs"
| "plain _ = True"

definition value_ends :: "string \<Rightarrow> bool" where
  "value_ends r \<longleftrightarrow> r = [] \<or> hd r \<in> set '',]}''"

fun json_kind :: "json \<Rightarrow> nat" where
  "json_kind JNull = 0"
| "json_kind JUndef = 0"
| "json_kind (JBool b) = (if b then 1 else 2)"
| "json_kind (JNum _) = 3"
| "json_kind (JStr _) = 4"
| "json_kind (JArr _) = 5"
| "json_kind (JObj _) = 6"

definition head_kind :: "char \<Rightarrow> nat" where
  "head_kind c = (if is_digit c then 3 else if c = CHR ''n'' then 0 else if c = CHR ''t'' then 1 else if c = CHR ''f'' then 2
     else if c = CHR 0x22 then 4 else if c = CHR ''['' then 5 else if c = CHR ''{'' then 6 else 7)"

lemma stringify_head: "\<exists>c cs. stringify v = c # cs \<and> head_kind c = json_kind v"
proof (cases v)
  case (JNum n)
  obtain c cs where "dec n = c # cs" by (cases "dec n") auto
  then show ?thesis using dec_digits [of n] JNum by (simp add: head_kind_def)
qed (auto simp: head_kind_def is_digit_def json_string_def json_array_def json_object_def)

lemma head_kind_marks: "head_kind (CHR '','') = 7" "head_kind (CHR '']'') = 7" "head_kind (CHR ''}'') = 7"
  by (simp_all add: head_kind_def is_digit_def)

lemma json_kind_less: "json_kind v < 7"
  by (cases v) auto

lemma json_join_Cons: "json_join (x # xs) @ c # r = x @ (if xs = [] then c # r else CHR '','' # json_join xs @ c # r)"
  by (cases xs) auto

lemma json_join_split:
  assumes "\<And>x y r r'. x \<in> set xs \<Longrightarrow> y \<in> set ys \<Longrightarrow> value_ends r \<Longrightarrow> value_ends r' \<Longrightarrow> f x @ r = f y @ r' \<Longrightarrow> x = y \<and> r = r'"
    and "\<And>x. x \<in> set xs \<union> set ys \<Longrightarrow> f x \<noteq> [] \<and> hd (f x) \<noteq> c" "c \<in> set '']}''"
    and "json_join (map f xs) @ c # r = json_join (map f ys) @ c # r'"
  shows "xs = ys \<and> r = r'"
  using assms(1,2,4)
proof (induction xs arbitrary: ys)
  case Nil
  show ?case
  proof (cases ys)
    case Nil
    with Nil.prems show ?thesis by simp
  next
    case (Cons y ys')
    have "f y \<noteq> []" "hd (f y) \<noteq> c" using Nil.prems(2) Cons by auto
    then show ?thesis using Nil.prems(3) Cons by (cases "f y") (auto simp: json_join_Cons)
  qed
next
  case (Cons x xs)
  show ?case
  proof (cases ys)
    case Nil
    have "f x \<noteq> []" "hd (f x) \<noteq> c" using Cons.prems(2) by auto
    then show ?thesis using Cons.prems(3) Nil by (cases "f x") (auto simp: json_join_Cons)
  next
    case (Cons y ys')
    let ?a = "if xs = [] then c # r else CHR '','' # json_join (map f xs) @ c # r"
    let ?b = "if ys' = [] then c # r' else CHR '','' # json_join (map f ys') @ c # r'"
    have "f x @ ?a = f y @ ?b"
      using Cons.prems(3) Cons by (simp add: json_join_Cons)
    moreover have "value_ends ?a" "value_ends ?b" using assms(3) by (auto simp: value_ends_def)
    ultimately have xy: "x = y" "?a = ?b"
      using Cons.prems(1) [of x y ?a ?b] Cons by auto
    have c: "c \<noteq> CHR '',''" using assms(3) by auto
    show ?thesis
    proof (cases "xs = []")
      case True
      with xy c Cons show ?thesis by (auto split: if_splits)
    next
      case False
      with xy(2) c have "ys' \<noteq> []" "json_join (map f xs) @ c # r = json_join (map f ys') @ c # r'"
        by (auto split: if_splits)
      then have "xs = ys' \<and> r = r'"
        using Cons.IH [of ys'] Cons.prems(1,2) Cons by auto
      with xy Cons show ?thesis by simp
    qed
  qed
qed

lemma dec_ends:
  assumes "dec m @ r = dec n @ r'" "value_ends r" "value_ends r'"
  shows "m = n \<and> r = r'"
proof -
  have tw: "takeWhile is_digit (dec k @ q) = dec k" if "value_ends q" for k q
  proof (cases q)
    case Nil
    then show ?thesis using dec_digits [of k] by (simp add: list_all_iff)
  next
    case (Cons c t)
    then show ?thesis using that takeWhile_digits [OF dec_digits] by (auto simp: value_ends_def is_digit_def)
  qed
  have "dec m = dec n" using tw [OF assms(2), of m] tw [OF assms(3), of n] assms(1) by metis
  with assms(1) show ?thesis by (simp add: dec_inj)
qed

lemma item_head: "stringify v \<noteq> [] \<and> hd (stringify v) \<noteq> CHR '']''"
proof -
  obtain c cs where "stringify v = c # cs" "head_kind c = json_kind v" using stringify_head by blast
  moreover have "head_kind (CHR '']'') = 7" "json_kind v < 7" using head_kind_marks json_kind_less by auto
  ultimately show ?thesis by auto
qed

lemma stringify_kind:
  assumes "stringify v @ r = stringify w @ r'"
  shows "json_kind v = json_kind w"
proof -
  obtain c cs d ds where "stringify v = c # cs" "head_kind c = json_kind v" "stringify w = d # ds" "head_kind d = json_kind w"
    using stringify_head by metis
  with assms show ?thesis by simp
qed

lemma stringify_split:
  "plain v \<Longrightarrow> plain w \<Longrightarrow> value_ends r \<Longrightarrow> value_ends r' \<Longrightarrow> stringify v @ r = stringify w @ r' \<Longrightarrow> v = w \<and> r = r'"
proof (induction v arbitrary: w r r')
  case JNull
  with stringify_kind [OF JNull.prems(5)] show ?case by (cases w) (auto split: if_splits)
next
  case JUndef
  then show ?case by simp
next
  case (JBool b)
  with stringify_kind [OF JBool.prems(5)] show ?case by (cases w) (auto split: if_splits)
next
  case (JNum n)
  with stringify_kind [OF JNum.prems(5)] show ?case using dec_ends [of n r _ r'] by (cases w) (auto split: if_splits)
next
  case (JStr s)
  with stringify_kind [OF JStr.prems(5)] show ?case using json_string_split [of s r _ r'] by (cases w) (auto split: if_splits)
next
  case (JArr vs)
  obtain ws where w: "w = JArr ws" "list_all plain ws"
    using stringify_kind [OF JArr.prems(5)] JArr.prems(2) by (cases w) (auto split: if_splits)
  have "vs = ws \<and> r = r'"
  proof (rule json_join_split [where f = stringify and c = "CHR '']''"])
    fix x y q q'
    assume "x \<in> set vs" "y \<in> set ws" "value_ends q" "value_ends q'" "stringify x @ q = stringify y @ q'"
    then show "x = y \<and> q = q'"
      using JArr.IH [of x y q q'] JArr.prems(1) w(2) by (simp add: list_all_iff)
  next
    show "json_join (map stringify vs) @ CHR '']'' # r = json_join (map stringify ws) @ CHR '']'' # r'"
      using JArr.prems(5) w by (simp add: json_array_def)
  qed (use item_head in auto)
  with w show ?case by simp
next
  case (JObj kvs)
  obtain kws where w: "w = JObj kws" "list_all (\<lambda>(k, v). plain v) kws"
    using stringify_kind [OF JObj.prems(5)] JObj.prems(2) by (cases w) (auto split: if_splits)
  let ?f = "\<lambda>(k, v). json_string k @ CHR '':'' # stringify v"
  have whole: "filter (\<lambda>(k, v). v \<noteq> JUndef) xs = xs" if "list_all (\<lambda>(k, v). plain v) xs" for xs :: "(string \<times> json) list"
    using that by (auto simp: filter_id_conv list_all_iff)
  have "kvs = kws \<and> r = r'"
  proof (rule json_join_split [where f = ?f and c = "CHR ''}''"])
    fix x y q q'
    assume xy: "x \<in> set kvs" "y \<in> set kws" "value_ends q" "value_ends q'" "?f x @ q = ?f y @ q'"
    obtain k v l u where kv: "x = (k, v)" "y = (l, u)" by (cases x; cases y) auto
    have "json_string k @ CHR '':'' # stringify v @ q = json_string l @ CHR '':'' # stringify u @ q'"
      using xy(5) kv by simp
    then have "k = l" "stringify v @ q = stringify u @ q'"
      using json_string_split [of k "CHR '':'' # stringify v @ q" l "CHR '':'' # stringify u @ q'"] by auto
    moreover have "plain v" "plain u" using xy(1,2) kv JObj.prems(1) w(2) by (auto simp: list_all_iff)
    ultimately show "x = y \<and> q = q'"
      using JObj.IH [of x v u q q'] xy kv by auto
  next
    fix x
    show "?f x \<noteq> [] \<and> hd (?f x) \<noteq> CHR ''}''" by (cases x) (simp add: json_string_def)
  next
    have "(\<lambda>(k, v). json_string k @ CHR '':'' # v) \<circ> (\<lambda>(k, v). (k, stringify v)) = ?f"
      by auto
    then show "json_join (map ?f kvs) @ CHR ''}'' # r = json_join (map ?f kws) @ CHR ''}'' # r'"
      using JObj.prems(1,5) w by (simp add: json_object_def whole)
  qed simp
  with w show ?case by simp
qed

lemma stringify_inj: "plain v \<Longrightarrow> plain w \<Longrightarrow> stringify v = stringify w \<longleftrightarrow> v = w"
  using stringify_split [of v w "[]" "[]"] by (auto simp: value_ends_def)

end
