(* ===== verification/Bitwarden.thy ===== *)
theory Bitwarden
  imports Passkey_Fields Exchange Json
begin

text \<open>
  Bitwarden's unencrypted JSON export (\<open>packages/core/src/import/bitwarden.ts\<close>): logins with their passkeys, cards, SSH
  keys, and everything else as notes.

  The export is what the code's schema makes of the parsed JSON (\<open>schema\<close>), with absent and null alike. \<open>date\<close> is
  \<open>Date.parse\<close> where it gives a number, \<open>lower\<close> is \<open>toLowerCase\<close>, \<open>core\<close> the core's reading of a PKCS#8 key.
\<close>

subsection \<open>The export\<close>

record bw_field =
  bf_name :: "string option"
  bf_value :: "string option"
  bf_type :: "nat option"

record bw_uri =
  bu_uri :: "string option"
  bu_match :: "nat option"

record bw_passkey =
  bp_credentialId :: string
  bp_keyType :: string
  bp_keyAlgorithm :: string
  bp_keyCurve :: string
  bp_keyValue :: string
  bp_rpId :: string
  bp_rpName :: "string option"
  bp_userHandle :: string
  bp_userName :: "string option"
  bp_userDisplayName :: "string option"
  bp_counter :: "string option"
  bp_creationDate :: "string option"

text \<open>A credential of another shape than \<open>passkeySchema\<close> is \<open>None\<close>.\<close>

record bw_login =
  bl_uris :: "bw_uri list option"
  bl_username :: "string option"
  bl_password :: "string option"
  bl_totp :: "string option"
  bl_fido2Credentials :: "bw_passkey option list option"

record bw_card =
  bc_cardholderName :: "string option"
  bc_brand :: "string option"
  bc_number :: "string option"
  bc_expMonth :: "string option"
  bc_expYear :: "string option"
  bc_code :: "string option"

record bw_item =
  bi_type :: "nat option"
  bi_name :: "string option"
  bi_notes :: "string option"
  bi_creationDate :: "string option"
  bi_archivedDate :: "string option"
  bi_folderId :: "string option"
  bi_collectionIds :: "string list option"
  bi_fields :: "bw_field list option"
  bi_login :: "bw_login option"
  bi_card :: "bw_card option"
  bi_identity :: "(string \<times> json) list option"
  bi_sshKey :: "(string option \<times> string option) option"

record bw_export =
  bx_items :: "bw_item list"
  bx_folders :: "(string option \<times> string option) list option"
  bx_collections :: "(string option \<times> string option) list option"

text \<open>\<open>x ?? ''\<close> is \<open>opt_text\<close>; \<open>x || undefined\<close>:\<close>

definition or_undefined :: "string option \<Rightarrow> string option" where
  "or_undefined x = (case x of None \<Rightarrow> None | Some s \<Rightarrow> some_text s)"

subsection \<open>Passkeys\<close>

text \<open>\<open>/^([0-9a-f]{8})-([0-9a-f]{4})-([0-9a-f]{4})-([0-9a-f]{4})-([0-9a-f]{12})$/i\<close>.\<close>

definition UUID :: "string \<Rightarrow> string list option" where
  "UUID s =
     (let gs = split_on CHR ''-'' s
      in if map length gs = [8, 4, 4, 4, 12] \<and> list_all (list_all (\<lambda>c. hex_value c \<noteq> None)) gs then Some gs else None)"

definition credentialIdToBase64 :: "string \<Rightarrow> field_error + string" where
  "credentialIdToBase64 v =
     (case UUID v of
        Some gs \<Rightarrow>
          (let bytes = hexToBytes (concat gs) in if bytes = [] then Inl (Rejected ''empty'') else Inr (bytesToBase64 bytes))
      | None \<Rightarrow>
          if \<not> prefix ''b64.'' v then Inl (Rejected ''neither a UUID nor a b64.-prefixed value'')
          else if length v > 4 + maxBase64UrlLength MAX_CREDENTIAL_ID_BYTES
          then Inl (Rejected (too_long MAX_CREDENTIAL_ID_BYTES ''byte''))
          else bareBase64UrlToBase64 (drop 4 v) MAX_CREDENTIAL_ID_BYTES)"

definition parseDate :: "(string \<Rightarrow> nat option) \<Rightarrow> string option \<Rightarrow> nat option" where
  "parseDate date v = (case v of None \<Rightarrow> None | Some s \<Rightarrow> if s = [] then None else date s)"

text \<open>The fields in their order, each with its name: the first that is refused, or all.\<close>

fun read_fields :: "(string \<times> (field_error + string)) list \<Rightarrow> (string \<times> field_error) + string list" where
  "read_fields [] = Inr []"
| "read_fields ((n, x) # fs) =
     (case x of
        Inl e \<Rightarrow> Inl (n, e)
      | Inr v \<Rightarrow> (case read_fields fs of Inl e \<Rightarrow> Inl e | Inr vs \<Rightarrow> Inr (v # vs)))"

definition skip_warning :: "string \<Rightarrow> string \<Rightarrow> field_error \<Rightarrow> string" where
  "skip_warning label n e =
     (case rejectionReason e of
        Some r \<Rightarrow> label @ '' has a '' @ n @ '' that is '' @ r @ '', so it was skipped.''
      | None \<Rightarrow> label @ '' has a '' @ n @ '' we couldn'' @ apostrophe @ ''t read, so it was skipped.'')"

text \<open>One credential: the passkey, the warnings, and what the tally counts.\<close>

definition import_passkey :: "core_import \<Rightarrow> (string \<Rightarrow> nat option) \<Rightarrow> string \<Rightarrow> nat option \<Rightarrow> nat \<Rightarrow> nat \<Rightarrow> bw_passkey option \<Rightarrow>
   passkey option \<times> string list \<times> nat \<times> nat" where
  "import_passkey core date loginName parentCreatedAt importedAt index raw =
     (let label = quoted loginName @ '' passkey '' @ dec (index + 1)
      in case raw of
           None \<Rightarrow> (None, [label @ '' had an unexpected shape and was skipped.''], 0, 0)
         | Some c \<Rightarrow>
             if bp_keyType c \<noteq> ''public-key'' \<or> bp_keyAlgorithm c \<noteq> ''ECDSA'' \<or> bp_keyCurve c \<noteq> ''P-256''
             then (None, [label @ '' uses an unsupported key type, algorithm, or curve and was skipped.''], 0, 0)
             else if \<not> validRpId (bp_rpId c) then (None, [label @ '' has an invalid relying-party ID and was skipped.''], 0, 0)
             else (case read_fields [(''credential ID'', credentialIdToBase64 (bp_credentialId c)),
                     (''user handle'', userHandleToBase64 (bp_userHandle c)),
                     (''private key'', pkcs8ToStandardBase64 (bp_keyValue c))] of
                 Inl (n, e) \<Rightarrow> (None, [skip_warning label n e], 0, 0)
               | Inr vs \<Rightarrow>
                   (case core (vs ! 2) of
                      None \<Rightarrow> (None, [label @ '' has invalid private-key material and was skipped.''], 0, 1)
                    | Some (alg, cose, private) \<Rightarrow>
                        if private = [] \<or> cose = []
                        then (None, [label @ '' has invalid private-key material and was skipped.''], 0, 1)
                        else (let created = parseDate date (bp_creationDate c)
                              in (Some \<lparr>pk_credentialId = vs ! 0, pk_rpId = bp_rpId c, pk_rpName = or_undefined (bp_rpName c),
                                    pk_userHandle = vs ! 1, pk_userName = or_undefined (bp_userName c),
                                    pk_userDisplayName = or_undefined (bp_userDisplayName c), pk_alg = alg, pk_publicKeyCose = cose,
                                    pk_privateKey = private, pk_signCount = 0,
                                    pk_createdAt = (case created of Some t \<Rightarrow> t | None \<Rightarrow>
                                      (case parentCreatedAt of Some t \<Rightarrow> t | None \<Rightarrow> importedAt)),
                                    pk_lastUsedAt = None\<rparr>,
                                  (if bp_counter c \<noteq> None \<and> bp_counter c \<noteq> Some ''0''
                                   then [label @ '' had its signature counter reset to zero.''] else []) @
                                  (if created = None then [label @ '' had no valid creation date; a fallback date was used.''] else []),
                                  1, 0)))))"

definition import_all :: "core_import \<Rightarrow> (string \<Rightarrow> nat option) \<Rightarrow> string \<Rightarrow> nat option \<Rightarrow> nat \<Rightarrow> bw_passkey option list \<Rightarrow>
   (passkey option \<times> string list \<times> nat \<times> nat) list" where
  "import_all core date loginName parentCreatedAt importedAt raws =
     map (\<lambda>(i, r). import_passkey core date loginName parentCreatedAt importedAt i r) (enumerate 0 raws)"

definition importPasskeys :: "core_import \<Rightarrow> (string \<Rightarrow> nat option) \<Rightarrow> bw_passkey option list option \<Rightarrow> string \<Rightarrow> nat option \<Rightarrow> nat \<Rightarrow>
   passkey list option \<times> string list \<times> nat \<times> nat" where
  "importPasskeys core date rawCredentials loginName parentCreatedAt importedAt =
     (case rawCredentials of
        None \<Rightarrow> (None, [], 0, 0)
      | Some raws \<Rightarrow>
          (let outs = import_all core date loginName parentCreatedAt importedAt raws;
               imported = List.map_filter fst outs
           in (if imported = [] then None else Some imported, concat (map (fst \<circ> snd) outs),
               sum_list (map (fst \<circ> snd \<circ> snd) outs), sum_list (map (snd \<circ> snd \<circ> snd) outs))))"

subsection \<open>Items\<close>

definition subdomainMatchFor :: "bw_uri list option \<Rightarrow> subdomain_match option" where
  "subdomainMatchFor uris =
     (if list_ex (\<lambda>u. bu_match u \<noteq> None \<and> bu_match u \<noteq> Some 0) (case uris of None \<Rightarrow> [] | Some us \<Rightarrow> us) then Some Exact else None)"

definition mapFields :: "bw_field list option \<Rightarrow> raw_field list" where
  "mapFields fs =
     (case fs of
        None \<Rightarrow> []
      | Some xs \<Rightarrow> map (\<lambda>f. \<lparr>rf_key = opt_text (bf_name f), rf_value = opt_text (bf_value f), rf_hidden = Some (bf_type f = Some 1)\<rparr>)
          (filter (\<lambda>f. bf_type f \<noteq> Some 3) xs))"

text \<open>\<open>String(value)\<close> of a JSON value; in an array null is empty.\<close>

function js_String :: "json \<Rightarrow> string" where
  "js_String JNull = ''null''"
| "js_String JUndef = ''undefined''"
| "js_String (JBool b) = (if b then ''true'' else ''false'')"
| "js_String (JNum n) = dec n"
| "js_String (JStr s) = s"
| "js_String (JArr vs) = join_with '','' (map (\<lambda>v. if v = JNull \<or> v = JUndef then [] else js_String v) vs)"
| "js_String (JObj kvs) = ''[object Object]''"
  by pat_completeness auto
termination
  by (relation "measure size") (auto dest: size_elem_json)

definition identity_fields :: "(string \<times> json) list option \<Rightarrow> raw_field list" where
  "identity_fields identity =
     (case identity of
        None \<Rightarrow> []
      | Some kvs \<Rightarrow> map (\<lambda>(k, v). \<lparr>rf_key = k, rf_value = (if v = JNull \<or> v = JUndef then [] else js_String v), rf_hidden = None\<rparr>) kvs)"

text \<open>Names of folders and collections by id; a later one of the same id replaces an earlier one.\<close>

definition name_by_id :: "bw_export \<Rightarrow> string \<rightharpoonup> string" where
  "name_by_id x =
     fold (\<lambda>(i, n) m. case (i, n) of (Some k, Some v) \<Rightarrow> if k \<noteq> [] \<and> v \<noteq> [] then m(k \<mapsto> v) else m | _ \<Rightarrow> m)
       ((case bx_folders x of None \<Rightarrow> [] | Some fs \<Rightarrow> fs) @ (case bx_collections x of None \<Rightarrow> [] | Some cs \<Rightarrow> cs)) Map.empty"

definition item_tags :: "(string \<Rightarrow> string) \<Rightarrow> (string \<rightharpoonup> string) \<Rightarrow> bw_item \<Rightarrow> string list option" where
  "item_tags lower names i =
     normalizeTags lower (Some (filter (\<lambda>n. n \<noteq> []) (List.map_filter
       (\<lambda>k. case k of None \<Rightarrow> None | Some s \<Rightarrow> if s = [] then None else names s)
       (bi_folderId i # map Some (case bi_collectionIds i of None \<Rightarrow> [] | Some cs \<Rightarrow> cs)))))"

definition empty_bw_login :: bw_login where
  "empty_bw_login = \<lparr>bl_uris = None, bl_username = None, bl_password = None, bl_totp = None, bl_fido2Credentials = None\<rparr>"

definition empty_bw_card :: bw_card where
  "empty_bw_card = \<lparr>bc_cardholderName = None, bc_brand = None, bc_number = None, bc_expMonth = None, bc_expYear = None, bc_code = None\<rparr>"

definition bitwarden_item :: "core_import \<Rightarrow> (string \<Rightarrow> nat option) \<Rightarrow> (string \<Rightarrow> string) \<Rightarrow> (string \<rightharpoonup> string) \<Rightarrow> nat \<Rightarrow> bw_item \<Rightarrow>
   entry_data \<times> string list \<times> nat \<times> nat" where
  "bitwarden_item core date lower names importedAt i =
     (let name = opt_text (bi_name i); fs = mapFields (bi_fields i); createdAt = parseDate date (bi_creationDate i);
          base = (\<lambda>cfs created body. \<lparr>en_name = name, en_notes = or_undefined (bi_notes i), en_customFields = toCustomFields cfs,
            en_createdAt = created, en_updatedAt = None, en_lastUsedAt = None, en_archivedAt = parseDate date (bi_archivedDate i),
            en_tags = item_tags lower names i, en_body = body\<rparr>)
      in if bi_type i = Some 1 then
           (let login = (case bi_login i of None \<Rightarrow> empty_bw_login | Some l \<Rightarrow> l)
            in case importPasskeys core date (bl_fido2Credentials login) name createdAt importedAt of
                 (passkeys, rest) \<Rightarrow>
                   (base fs createdAt (Login
                     \<lparr>lg_urls = filter (\<lambda>u. u \<noteq> []) (List.map_filter bu_uri (case bl_uris login of None \<Rightarrow> [] | Some us \<Rightarrow> us)),
                      lg_username = opt_text (bl_username login), lg_password = opt_text (bl_password login),
                      lg_totp = or_undefined (bl_totp login), lg_breach = None, lg_autofillEnabled = None, lg_autoSubmit = None,
                      lg_subdomainMatch = subdomainMatchFor (bl_uris login), lg_passkeys = passkeys, lg_passwordChangelog = None\<rparr>), rest))
         else if bi_type i = Some 3 then
           (let card = (case bi_card i of None \<Rightarrow> empty_bw_card | Some c \<Rightarrow> c); number = opt_text (bc_number card)
            in (base fs None (Card \<lparr>cd_cardholderName = opt_text (bc_cardholderName card), cd_number = number,
                 cd_brand = (case or_undefined (bc_brand card) of Some b \<Rightarrow> Some b | None \<Rightarrow> map_option brand_name (cardBrand number)),
                 cd_expMonth = opt_text (bc_expMonth card), cd_expYear = opt_text (bc_expYear card), cd_cvv = opt_text (bc_code card)\<rparr>),
                [], 0, 0))
         else if bi_type i = Some 5 then
           (let (pr, pu) = (case bi_sshKey i of None \<Rightarrow> (None, None) | Some k \<Rightarrow> k); publicKey = opt_text pu; privateKey = opt_text pr
            in (base fs None (SshKey \<lparr>sk_publicKey = publicKey, sk_privateKey = privateKey, sk_passphrase = None,
                 sk_keyType = deriveKeyType publicKey privateKey\<rparr>), [], 0, 0))
         else (base (fs @ identity_fields (bi_identity i)) None Note, [], 0, 0))"

definition is_true :: "json option \<Rightarrow> bool" where
  "is_true v \<longleftrightarrow> v = Some (JBool True)"

definition bw_encrypted :: "json \<Rightarrow> bool" where
  "bw_encrypted j = (case j of JObj kvs \<Rightarrow> is_true (map_of kvs ''encrypted'') \<or> is_true (map_of kvs ''passwordProtected'') | _ \<Rightarrow> False)"

datatype bw_error = BwFormatError | BwEncryptedError

text \<open>\<open>json\<close> is what \<open>JSON.parse\<close> gave, \<open>valid\<close> what \<open>entryDataSchema\<close> makes of an entry.\<close>

definition parseBitwarden :: "core_import \<Rightarrow> (string \<Rightarrow> nat option) \<Rightarrow> (string \<Rightarrow> string) \<Rightarrow> (json \<Rightarrow> bw_export option) \<Rightarrow>
   json option \<Rightarrow> nat \<Rightarrow> bw_error + import_result" where
  "parseBitwarden core date lower schema js importedAt =
     (case js of
        None \<Rightarrow> Inl BwFormatError
      | Some j \<Rightarrow>
          if bw_encrypted j then Inl BwEncryptedError
          else (case schema j of
              None \<Rightarrow> Inl BwFormatError
            | Some x \<Rightarrow>
                (let outs = map (bitwarden_item core date lower (name_by_id x) importedAt) (bx_items x);
                     converted = sum_list (map (fst \<circ> snd \<circ> snd) outs); failed = sum_list (map (snd \<circ> snd \<circ> snd) outs)
                 in Inr (summarize Some (map fst outs) 0 (concat (map (fst \<circ> snd) outs) @
                      (case systemicFailureWarning converted failed ''export'' of None \<Rightarrow> [] | Some m \<Rightarrow> [m]))))))"

subsection \<open>What Bitwarden writes of a passkey\<close>

text \<open>A passkey in bytes, and how an export shows it: the id as a UUID or as base64url behind \<open>b64.\<close>.\<close>

record wire_passkey =
  wp_id :: bytes
  wp_uuid :: bool
  wp_handle :: bytes
  wp_key :: bytes
  wp_rpId :: string
  wp_names :: "string option \<times> string option \<times> string option"
  wp_created :: "string option"

definition uuid_groups :: "bytes \<Rightarrow> string list" where
  "uuid_groups bs =
     (let h = bytesToHex bs in [take 8 h, take 4 (drop 8 h), take 4 (drop 12 h), take 4 (drop 16 h), take 12 (drop 20 h)])"

definition bw_write :: "wire_passkey \<Rightarrow> bw_passkey" where
  "bw_write w = (case wp_names w of (rp, un, dn) \<Rightarrow>
     \<lparr>bp_credentialId = (if wp_uuid w then join_with ''-'' (uuid_groups (wp_id w)) else ''b64.'' @ bytesToBase64Url (wp_id w)),
      bp_keyType = ''public-key'', bp_keyAlgorithm = ''ECDSA'', bp_keyCurve = ''P-256'', bp_keyValue = bytesToBase64Url (wp_key w),
      bp_rpId = wp_rpId w, bp_rpName = rp, bp_userHandle = bytesToBase64Url (wp_handle w), bp_userName = un,
      bp_userDisplayName = dn, bp_counter = Some ''0'', bp_creationDate = wp_created w\<rparr>)"

definition core_opens :: "core_import \<Rightarrow> wire_passkey \<Rightarrow> bool" where
  "core_opens core w \<longleftrightarrow> (case core (bytesToBase64 (wp_key w)) of Some (alg, cose, key) \<Rightarrow> cose \<noteq> [] \<and> key \<noteq> [] | None \<Rightarrow> False)"

definition wire_ok :: "core_import \<Rightarrow> wire_passkey \<Rightarrow> bool" where
  "wire_ok core w \<longleftrightarrow> wp_id w \<noteq> [] \<and> length (wp_id w) \<le> MAX_CREDENTIAL_ID_BYTES \<and> (wp_uuid w \<longrightarrow> length (wp_id w) = 16) \<and>
     wp_handle w \<noteq> [] \<and> length (wp_handle w) \<le> MAX_USER_HANDLE_BYTES \<and> wp_key w \<noteq> [] \<and> length (wp_key w) \<le> MAX_PKCS8_BYTES \<and>
     validRpId (wp_rpId w) \<and> core_opens core w"

definition arrives_as :: "core_import \<Rightarrow> (string \<Rightarrow> nat option) \<Rightarrow> nat option \<Rightarrow> nat \<Rightarrow> wire_passkey \<Rightarrow> passkey" where
  "arrives_as core date parentCreatedAt importedAt w =
     (case (the (core (bytesToBase64 (wp_key w))), wp_names w) of ((alg, cose, key), rp, un, dn) \<Rightarrow>
       \<lparr>pk_credentialId = bytesToBase64 (wp_id w), pk_rpId = wp_rpId w, pk_rpName = or_undefined rp,
        pk_userHandle = bytesToBase64 (wp_handle w), pk_userName = or_undefined un, pk_userDisplayName = or_undefined dn,
        pk_alg = alg, pk_publicKeyCose = cose, pk_privateKey = key, pk_signCount = 0,
        pk_createdAt = (case parseDate date (wp_created w) of Some t \<Rightarrow> t | None \<Rightarrow>
          (case parentCreatedAt of Some t \<Rightarrow> t | None \<Rightarrow> importedAt)),
        pk_lastUsedAt = None\<rparr>)"

lemma hex_text_length: "length (bytesToHex bs) = 2 * length bs"
  by (induction bs) (simp_all add: bytesToHex_def)

lemma hex_chars: "list_all (\<lambda>n. hex_value (HEX ! n) \<noteq> None \<and> HEX ! n \<noteq> CHR ''-'') [0 ..< 16]"
  by code_simp

lemma hex_text_chars: "c \<in> set (bytesToHex bs) \<Longrightarrow> hex_value c \<noteq> None \<and> c \<noteq> CHR ''-''"
proof -
  have "unat b div 16 < 16" "unat b mod 16 < 16" for b :: u8
    using unat_u8 [of b] by (auto simp: less_mult_imp_div_less)
  then show "c \<in> set (bytesToHex bs) \<Longrightarrow> hex_value c \<noteq> None \<and> c \<noteq> CHR ''-''"
    using hex_chars by (auto simp: bytesToHex_def list_all_iff)
qed

lemma split_joined: "ws \<noteq> [] \<Longrightarrow> list_all (\<lambda>w. c \<notin> set w) ws \<Longrightarrow> split_on c (join_with [c] ws) = ws"
proof (induction ws)
  case (Cons w ws)
  then show ?case
    by (cases ws) (simp_all add: split_on_none split_on_append join_with_Cons)
qed simp

lemma uuid_reads:
  assumes "length bs = 16"
  shows "credentialIdToBase64 (join_with ''-'' (uuid_groups bs)) = Inr (bytesToBase64 bs)"
proof -
  let ?h = "bytesToHex bs" and ?gs = "uuid_groups bs"
  have len: "length ?h = 32" using assms by (simp add: hex_text_length)
  have lens: "map length ?gs = [8, 4, 4, 4, 12]"
    using len by (simp add: uuid_groups_def Let_def)
  have "set g \<subseteq> set ?h" if "g \<in> set ?gs" for g
    using that by (auto simp: uuid_groups_def Let_def dest: in_set_takeD in_set_dropD)
  then have chars: "list_all (list_all (\<lambda>c. hex_value c \<noteq> None)) ?gs" "list_all (\<lambda>g. CHR ''-'' \<notin> set g) ?gs"
    using hex_text_chars [of _ bs] by (auto simp: list_all_iff) 
  have "concat ?gs = ?h"
  proof -
    have "take 12 (drop 20 ?h) = drop 20 ?h" using len by simp
    moreover have "take 4 (drop 16 ?h) @ drop 20 ?h = drop 16 ?h" "take 4 (drop 12 ?h) @ drop 16 ?h = drop 12 ?h"
      "take 4 (drop 8 ?h) @ drop 12 ?h = drop 8 ?h"
      using append_take_drop_id [of 4 "drop 16 ?h"] append_take_drop_id [of 4 "drop 12 ?h"] append_take_drop_id [of 4 "drop 8 ?h"]
      by (simp_all del: append_take_drop_id)
    ultimately show ?thesis by (simp add: uuid_groups_def Let_def)
  qed
  moreover have "UUID (join_with ''-'' ?gs) = Some ?gs"
    using split_joined [of ?gs "CHR ''-''"] chars lens by (simp add: UUID_def Let_def uuid_groups_def)
  moreover have "bs \<noteq> []" using assms by auto
  ultimately show ?thesis
    by (simp add: credentialIdToBase64_def hex_round_trip)
qed

lemma b64_id_reads:
  assumes "bs \<noteq> []" "length bs \<le> MAX_CREDENTIAL_ID_BYTES"
  shows "credentialIdToBase64 (''b64.'' @ bytesToBase64Url bs) = Inr (bytesToBase64 bs)"
proof -
  have "\<not> list_all (\<lambda>c. hex_value c \<noteq> None) (hd (split_on CHR ''-'' (''b64.'' @ s)))" for s
    by (auto simp: hex_value_def split: list.split)
  moreover have "hd (split_on c s) \<in> set (split_on c s)" for c s by simp
  ultimately have "UUID (''b64.'' @ bytesToBase64Url bs) = None"
    unfolding UUID_def Let_def list_all_iff by metis
  moreover have "length (bytesToBase64Url bs) \<le> maxBase64UrlLength MAX_CREDENTIAL_ID_BYTES"
    using strict_wire [OF assms] by (auto simp: strictBase64Url_def split: if_splits)
  ultimately show ?thesis
    using wire_id_stored [OF assms] by (simp add: credentialIdToBase64_def)
qed

lemma written_arrives:
  assumes "wire_ok core w"
  shows "\<exists>ws. import_passkey core date n p now i (Some (bw_write w)) = (Some (arrives_as core date p now w), ws, 1, 0)"
proof -
  obtain alg cose key where core: "core (bytesToBase64 (wp_key w)) = Some (alg, cose, key)" "cose \<noteq> []" "key \<noteq> []"
    using assms by (auto simp: wire_ok_def core_opens_def split: option.splits)
  obtain rp un dn where names: "wp_names w = (rp, un, dn)" by (metis prod_cases3)
  have cid: "credentialIdToBase64 (bp_credentialId (bw_write w)) = Inr (bytesToBase64 (wp_id w))"
    using assms uuid_reads [of "wp_id w"] b64_id_reads [of "wp_id w"] by (simp add: wire_ok_def bw_write_def names)
  have uh: "userHandleToBase64 (bp_userHandle (bw_write w)) = Inr (bytesToBase64 (wp_handle w))"
    using assms wire_id_stored by (simp add: wire_ok_def userHandleToBase64_def bw_write_def names)
  have key: "pkcs8ToStandardBase64 (bp_keyValue (bw_write w)) = Inr (bytesToBase64 (wp_key w))"
    using assms wire_key_stored by (simp add: wire_ok_def bw_write_def names)
  have rest: "bp_keyType (bw_write w) = ''public-key''" "bp_keyAlgorithm (bw_write w) = ''ECDSA''" "bp_keyCurve (bw_write w) = ''P-256''"
    "bp_rpId (bw_write w) = wp_rpId w" "bp_rpName (bw_write w) = rp" "bp_userName (bw_write w) = un"
    "bp_userDisplayName (bw_write w) = dn" "bp_creationDate (bw_write w) = wp_created w"
    by (simp_all add: bw_write_def names)
  have "validRpId (wp_rpId w)" using assms by (simp add: wire_ok_def)
  then show ?thesis
    by (simp add: import_passkey_def Let_def cid uh key rest core arrives_as_def names)
qed

lemma enumerate_arrives:
  assumes "list_all (wire_ok core) ws"
  shows "map fst (map (\<lambda>(i, r). import_passkey core date n p now i r) (enumerate k (map (Some \<circ> bw_write) ws))) =
      map (Some \<circ> arrives_as core date p now) ws \<and>
    map (snd \<circ> snd) (map (\<lambda>(i, r). import_passkey core date n p now i r) (enumerate k (map (Some \<circ> bw_write) ws))) =
      replicate (length ws) (1, 0)"
  using assms
proof (induction ws arbitrary: k)
  case (Cons w ws)
  obtain l where "import_passkey core date n p now k (Some (bw_write w)) = (Some (arrives_as core date p now w), l, 1, 0)"
    using written_arrives [of core w] Cons.prems by force
  with Cons show ?case by simp
qed simp

text \<open>A credential that is not imported is named in a warning of its own.\<close>

lemma import_passkey_cases:
  "case import_passkey core date n p now i raw of
     (None, ws, c, f) \<Rightarrow> c = 0 \<and> (\<exists>w. ws = [w] \<and> prefix (quoted n @ '' passkey '' @ dec (i + 1)) w)
   | (Some k, ws, c, f) \<Rightarrow> c = 1 \<and> f = 0 \<and> validRpId (pk_rpId k)"
proof (cases raw)
  case None
  then show ?thesis by (simp add: import_passkey_def Let_def)
next
  case (Some r)
  let ?r = "read_fields [(''credential ID'', credentialIdToBase64 (bp_credentialId r)),
      (''user handle'', userHandleToBase64 (bp_userHandle r)), (''private key'', pkcs8ToStandardBase64 (bp_keyValue r))]"
  show ?thesis
  proof (cases ?r)
    case (Inl a)
    with Some show ?thesis
      by (cases a; cases "snd a") (auto simp: import_passkey_def Let_def skip_warning_def rejectionReason_def)
  next
    case (Inr vs)
    with Some show ?thesis
      by (auto simp: import_passkey_def Let_def simp del: read_fields.simps split: option.split)
  qed
qed

text \<open>Property C35: passkeys survive the move from Bitwarden. Whatever passkeys a login of the export carries, written as
  Bitwarden writes them, with their ids as UUIDs or in base64url, every one whose key the core can read arrives, in
  order, under exactly its id, user handle, relying party and key, and none is counted as failed.\<close>

theorem bitwarden_passkeys_arrive:
  assumes "list_all (wire_ok core) ws" "ws \<noteq> []"
  shows "\<exists>warnings. importPasskeys core date (Some (map (Some \<circ> bw_write) ws)) name p now =
    (Some (map (arrives_as core date p now) ws), warnings, length ws, 0)"
proof -
  let ?outs = "import_all core date name p now (map (Some \<circ> bw_write) ws)"
  have outs: "map fst ?outs = map (Some \<circ> arrives_as core date p now) ws" "map (snd \<circ> snd) ?outs = replicate (length ws) (1, 0)"
    using enumerate_arrives [OF assms(1), of date name p now 0] by (simp_all add: import_all_def)
  have "List.map_filter fst xs = List.map_filter id (map fst xs)" for xs :: "(passkey option \<times> string list \<times> nat \<times> nat) list"
    by (simp add: map_filter_def filter_map comp_def)
  then have "List.map_filter fst ?outs = List.map_filter id (map (Some \<circ> arrives_as core date p now) ws)"
    unfolding outs(1) [symmetric] .
  then have ps: "List.map_filter fst ?outs = map (arrives_as core date p now) ws"
    by (simp add: map_filter_def comp_def)
  have "map (fst \<circ> snd \<circ> snd) ?outs = map fst (map (snd \<circ> snd) ?outs)" "map (snd \<circ> snd \<circ> snd) ?outs = map snd (map (snd \<circ> snd) ?outs)"
    by (simp_all add: comp_def)
  then have "sum_list (map (fst \<circ> snd \<circ> snd) ?outs) = length ws" "sum_list (map (snd \<circ> snd \<circ> snd) ?outs) = 0"
    by (simp_all add: outs(2) sum_list_replicate)
  then show ?thesis
    using ps assms(2) by (simp add: importPasskeys_def Let_def)
qed

definition sample_wire :: wire_passkey where
  "sample_wire = \<lparr>wp_id = replicate 16 7, wp_uuid = True, wp_handle = [1, 2, 3], wp_key = [9, 9], wp_rpId = ''a.com'',
     wp_names = (None, Some ''ann'', None), wp_created = None\<rparr>"

theorem bitwarden_passkeys_arrive_witness:
  "\<exists>warnings. importPasskeys (\<lambda>_. Some (-7, ''cose'', ''key'')) (\<lambda>_. None) (Some (map (Some \<circ> bw_write) [sample_wire])) ''Mail'' None 5 =
    (Some (map (arrives_as (\<lambda>_. Some (-7, ''cose'', ''key'')) (\<lambda>_. None) None 5) [sample_wire]), warnings, length [sample_wire], 0)"
proof (rule bitwarden_passkeys_arrive)
  have "validRpId ''a.com''"
    by (simp add: validRpId_def valid_label_def is_alnum_def ALNUM_def MAX_RP_ID_LENGTH_def)
  then show "list_all (wire_ok (\<lambda>_. Some (-7, ''cose'', ''key''))) [sample_wire]"
    by (simp add: wire_ok_def sample_wire_def core_opens_def MAX_CREDENTIAL_ID_BYTES_def MAX_USER_HANDLE_BYTES_def MAX_PKCS8_BYTES_def)
qed simp

text \<open>A URI the user set to match never, or only under a path, becomes one that is offered on its host.\<close>

lemma never_becomes_exact:
  "subdomainMatchFor (Some [\<lparr>bu_uri = Some u, bu_match = Some 5\<rparr>]) = Some Exact"
  by (simp add: subdomainMatchFor_def)

text \<open>The creation date is read for every item and kept for logins only.\<close>

lemma creation_date_dropped:
  "bi_type i \<noteq> Some 1 \<Longrightarrow> en_createdAt (fst (bitwarden_item core date lower names now i)) = None"
  by (simp add: bitwarden_item_def Let_def split: prod.split option.split)

end
