(* ===== verification/Zip_Imports.thy ===== *)
theory Zip_Imports
  imports Exchange Json Import_Fields "HOL-Library.Sublist"
begin

text \<open>
  Zipped exports (\<open>readZippedJson\<close> of \<open>packages/core/src/import/shared.ts\<close>) and the two importers over it: 1Password's
  \<open>.1pux\<close> (\<open>import/onepassword.ts\<close>) and Proton Pass (\<open>import/protonpass.ts\<close>).

  The archive is what the unzip library gives: names, sizes, and what \<open>JSON.parse\<close> makes of each file. A vendor's
  \<open>schema\<close> is an argument, with absent and null alike in what it returns; \<open>lower\<close> is \<open>toLowerCase\<close>.
\<close>

subsection \<open>The archive\<close>

record zip_file =
  zf_name :: string
  zf_bytes :: nat
  zf_json :: "json option"

datatype zip_error = ZipCorrupt | ZipUnsafe | ZipFormat

definition MAX_DECOMPRESSED_BYTES :: nat where "MAX_DECOMPRESSED_BYTES = 200 * 1024 * 1024"

definition assertUnzipUnderCap :: "zip_file list \<Rightarrow> bool" where
  "assertUnzipUnderCap files \<longleftrightarrow> sum_list (map zf_bytes files) \<le> MAX_DECOMPRESSED_BYTES"

text \<open>\<open>unzipped\<close>: none when the input is text or not a readable archive.\<close>

definition readZippedJson :: "zip_file list option \<Rightarrow> (zip_file list \<Rightarrow> zip_file option) \<Rightarrow> (json \<Rightarrow> 'a option) \<Rightarrow> zip_error + 'a" where
  "readZippedJson unzipped findData schema =
     (case unzipped of
        None \<Rightarrow> Inl ZipCorrupt
      | Some files \<Rightarrow>
          if \<not> assertUnzipUnderCap files then Inl ZipUnsafe
          else (case findData files of
              None \<Rightarrow> Inl ZipFormat
            | Some f \<Rightarrow>
                (case zf_json f of
                   None \<Rightarrow> Inl ZipFormat
                 | Some j \<Rightarrow> (case schema j of None \<Rightarrow> Inl ZipFormat | Some x \<Rightarrow> Inr x))))"

definition or_absent :: "string option \<Rightarrow> string option" where
  "or_absent x = (case x of None \<Rightarrow> None | Some s \<Rightarrow> some_text s)"

subsection \<open>1Password\<close>

datatype op_email = EmailText string | EmailObject "string option"

record op_value =
  ov_string :: "string option"
  ov_concealed :: "string option"
  ov_totp :: "string option"
  ov_creditCardNumber :: "string option"
  ov_monthYear :: "nat option"
  ov_email :: "op_email option"
  ov_phone :: "string option"
  ov_url :: "string option"
  ov_date :: "nat option"

record op_field =
  of_id :: "string option"
  of_title :: "string option"
  of_value :: "op_value option"

record op_login_field =
  ol_value :: "string option"
  ol_designation :: "string option"

record op_item =
  oi_categoryUuid :: "string option"
  oi_title :: "string option"
  oi_url :: "string option"
  oi_urls :: "string option list"
  oi_tags :: "string list option"
  oi_loginFields :: "op_login_field list"
  oi_sections :: "op_field list list"
  oi_notesPlain :: "string option"
  oi_password :: "string option"

text \<open>Text, hidden, and the one-time-code secret.\<close>

definition op_readValue :: "op_value option \<Rightarrow> string \<times> bool \<times> string option" where
  "op_readValue v =
     (case v of
        None \<Rightarrow> ([], False, None)
      | Some v \<Rightarrow>
          (case ov_totp v of Some t \<Rightarrow> (t, False, Some t) | None \<Rightarrow>
          (case ov_concealed v of Some t \<Rightarrow> (t, True, None) | None \<Rightarrow>
          (case ov_string v of Some t \<Rightarrow> (t, False, None) | None \<Rightarrow>
          (case ov_creditCardNumber v of Some t \<Rightarrow> (t, False, None) | None \<Rightarrow>
          (case ov_monthYear v of Some n \<Rightarrow> (dec n, False, None) | None \<Rightarrow>
          (case ov_url v of Some t \<Rightarrow> (t, False, None) | None \<Rightarrow>
          (case ov_phone v of Some t \<Rightarrow> (t, False, None) | None \<Rightarrow>
          (case ov_date v of Some n \<Rightarrow> (dec n, False, None) | None \<Rightarrow>
          (case ov_email v of
             Some (EmailText t) \<Rightarrow> (t, False, None)
           | Some (EmailObject t) \<Rightarrow> (opt_text t, False, None)
           | None \<Rightarrow> ([], False, None)))))))))))"

record flat_field =
  ff_id :: string
  ff_title :: string
  ff_text :: string
  ff_hidden :: bool
  ff_totp :: "string option"

definition flattenFields :: "op_item \<Rightarrow> flat_field list" where
  "flattenFields i =
     map (\<lambda>f. case op_readValue (of_value f) of (t, h, otp) \<Rightarrow>
         \<lparr>ff_id = opt_text (of_id f),
          ff_title = (case or_absent (of_title f) of Some s \<Rightarrow> s | None \<Rightarrow> (case or_absent (of_id f) of Some s \<Rightarrow> s | None \<Rightarrow> ''Field'')),
          ff_text = t, ff_hidden = h, ff_totp = otp\<rparr>)
       (concat (oi_sections i))"

definition push_url :: "string option \<Rightarrow> string list \<Rightarrow> string list" where
  "push_url u out = (case u of None \<Rightarrow> out | Some s \<Rightarrow> if s \<noteq> [] \<and> s \<notin> set out then out @ [s] else out)"

definition allUrls :: "op_item \<Rightarrow> string list" where
  "allUrls i = fold push_url (oi_url i # oi_urls i) []"

definition designated :: "string \<Rightarrow> op_item \<Rightarrow> string option" where
  "designated d i =
     (case find (\<lambda>f. ol_designation f = Some d) (oi_loginFields i) of None \<Rightarrow> None | Some f \<Rightarrow> ol_value f)"

definition op_loginCredentials :: "op_item \<Rightarrow> string \<times> string" where
  "op_loginCredentials i =
     (opt_text (designated ''username'' i),
      case designated ''password'' i of Some p \<Rightarrow> p | None \<Rightarrow> opt_text (oi_password i))"

definition extra_of :: "flat_field \<Rightarrow> raw_field" where
  "extra_of f = \<lparr>rf_key = ff_title f, rf_value = ff_text f, rf_hidden = Some (ff_hidden f)\<rparr>"

definition has_totp :: "flat_field \<Rightarrow> bool" where
  "has_totp f \<longleftrightarrow> (case ff_totp f of None \<Rightarrow> False | Some t \<Rightarrow> t \<noteq> [])"

definition op_base :: "string \<Rightarrow> string option \<Rightarrow> raw_field list \<Rightarrow> entry_body \<Rightarrow> entry_data" where
  "op_base name notes' extras body =
     \<lparr>en_name = name, en_notes = notes', en_customFields = toCustomFields extras, en_createdAt = None, en_updatedAt = None,
      en_lastUsedAt = None, en_archivedAt = None, en_tags = None, en_body = body\<rparr>"

definition plain_login :: "string list \<Rightarrow> string \<Rightarrow> string \<Rightarrow> string option \<Rightarrow> entry_body" where
  "plain_login urls username password totp =
     Login \<lparr>lg_urls = urls, lg_username = username, lg_password = password, lg_totp = totp, lg_breach = None, lg_autofillEnabled = None,
       lg_autoSubmit = None, lg_subdomainMatch = None, lg_passkeys = None, lg_passwordChangelog = None\<rparr>"

definition op_mapLogin :: "op_item \<Rightarrow> string \<Rightarrow> string option \<Rightarrow> entry_data" where
  "op_mapLogin i name notes' =
     (let flat = flattenFields i
      in case op_loginCredentials i of (username, password) \<Rightarrow>
           op_base name notes' (map extra_of (filter (\<lambda>f. \<not> has_totp f) flat))
             (plain_login (allUrls i) username password
               (case find has_totp flat of None \<Rightarrow> None | Some f \<Rightarrow> or_absent (ff_totp f))))"

record op_card =
  oc_number :: string
  oc_cardholderName :: string
  oc_cvv :: string
  oc_expMonth :: string
  oc_expYear :: string
  oc_extras :: "raw_field list"

text \<open>\<open>other\<close>: what \<open>Number\<close> makes of a text that is not up to fifteen digits, when that is a natural number.\<close>

definition js_number :: "(string \<Rightarrow> nat option) \<Rightarrow> string \<Rightarrow> nat option" where
  "js_number other s = (if list_all is_digit s \<and> length s \<le> 15 then Some (undec s) else other s)"

definition op_card_field :: "(string \<Rightarrow> nat option) \<Rightarrow> flat_field \<Rightarrow> op_card \<Rightarrow> op_card" where
  "op_card_field other f s =
     (if ff_id f = ''ccnum'' then s\<lparr>oc_number := ff_text f\<rparr>
      else if ff_id f = ''cardholder'' then s\<lparr>oc_cardholderName := ff_text f\<rparr>
      else if ff_id f = ''cvv'' then s\<lparr>oc_cvv := ff_text f\<rparr>
      else if ff_id f = ''expiry'' then
        (case js_number other (ff_text f) of
           None \<Rightarrow> s
         | Some n \<Rightarrow> if n > 0 then s\<lparr>oc_expYear := dec (n div 100), oc_expMonth := dec (n mod 100)\<rparr> else s)
      else if ff_id f = ''type'' then s
      else s\<lparr>oc_extras := oc_extras s @ [extra_of f]\<rparr>)"

definition op_mapCard :: "(string \<Rightarrow> nat option) \<Rightarrow> op_item \<Rightarrow> string \<Rightarrow> string option \<Rightarrow> entry_data" where
  "op_mapCard other i name notes' =
     (let s = fold (op_card_field other) (flattenFields i)
          \<lparr>oc_number = [], oc_cardholderName = [], oc_cvv = [], oc_expMonth = [], oc_expYear = [], oc_extras = []\<rparr>
      in op_base name notes' (oc_extras s)
           (Card \<lparr>cd_cardholderName = oc_cardholderName s, cd_number = oc_number s, cd_brand = map_option brand_name (cardBrand (oc_number s)),
             cd_expMonth = oc_expMonth s, cd_expYear = oc_expYear s, cd_cvv = oc_cvv s\<rparr>))"

definition found_text :: "(string \<Rightarrow> bool) \<Rightarrow> flat_field list \<Rightarrow> string" where
  "found_text P flat = (case find (P \<circ> ff_text) flat of None \<Rightarrow> [] | Some f \<Rightarrow> ff_text f)"

definition is_private_key :: "string \<Rightarrow> bool" where
  "is_private_key t \<longleftrightarrow> has_text ''PRIVATE KEY'' t"

definition is_public_key :: "string \<Rightarrow> bool" where
  "is_public_key t \<longleftrightarrow> prefix ''ssh-'' (trim t) \<or> prefix ''ecdsa-'' (trim t) \<or> prefix ''sk-'' (trim t)"

definition op_mapSshKey :: "op_item \<Rightarrow> string \<Rightarrow> string option \<Rightarrow> entry_data" where
  "op_mapSshKey i name notes' =
     (let flat = flattenFields i; privateKey = found_text is_private_key flat; publicKey = found_text is_public_key flat;
          extras = map extra_of (filter (\<lambda>f. ff_text f \<noteq> privateKey \<and> ff_text f \<noteq> publicKey) flat)
      in if privateKey = [] \<and> publicKey = [] then op_base name notes' extras Note
         else op_base name notes' extras (SshKey \<lparr>sk_publicKey = publicKey, sk_privateKey = privateKey, sk_passphrase = None,
           sk_keyType = deriveKeyType publicKey privateKey\<rparr>))"

definition op_mapNote :: "op_item \<Rightarrow> string \<Rightarrow> string option \<Rightarrow> entry_data" where
  "op_mapNote i name notes' = op_base name notes' (map extra_of (flattenFields i)) Note"

definition op_entry :: "(string \<Rightarrow> nat option) \<Rightarrow> (string \<Rightarrow> string) \<Rightarrow> op_item \<Rightarrow> entry_data" where
  "op_entry other lower i =
     (let name = opt_text (oi_title i); notes' = or_absent (oi_notesPlain i); c = oi_categoryUuid i;
          e = (if c = Some ''001'' \<or> c = Some ''005'' then op_mapLogin i name notes'
               else if c = Some ''002'' then op_mapCard other i name notes'
               else if c = Some ''114'' then op_mapSshKey i name notes'
               else op_mapNote i name notes')
      in case normalizeTags lower (oi_tags i) of None \<Rightarrow> e | Some ts \<Rightarrow> e\<lparr>en_tags := Some ts\<rparr>)"

text \<open>The data file by its exact name first, else the first that ends like it.\<close>

definition op_findData :: "zip_file list \<Rightarrow> zip_file option" where
  "op_findData files =
     (case find (\<lambda>f. zf_name f = ''export.data'') files of
        Some f \<Rightarrow> Some f
      | None \<Rightarrow> find (\<lambda>f. suffix ''export.data'' (zf_name f)) files)"

text \<open>The schema gives the items by account and vault.\<close>

definition parseOnePassword :: "(string \<Rightarrow> nat option) \<Rightarrow> (string \<Rightarrow> string) \<Rightarrow> (json \<Rightarrow> op_item list list list option) \<Rightarrow>
   zip_file list option \<Rightarrow> zip_error + import_result" where
  "parseOnePassword other lower schema unzipped =
     (case readZippedJson unzipped op_findData schema of
        Inl e \<Rightarrow> Inl e
      | Inr accounts \<Rightarrow> Inr (summarize Some (map (op_entry other lower) (concat (concat accounts))) 0 []))"

subsection \<open>Proton Pass\<close>

record pp_extra =
  pe_fieldName :: "string option"
  pe_type :: "string option"
  pe_content :: "string option"

text \<open>The typed members of a content, and all its members as the note of an unknown type lists them.\<close>

record pp_content =
  pc_itemEmail :: "string option"
  pc_itemUsername :: "string option"
  pc_username :: "string option"
  pc_password :: "string option"
  pc_urls :: "string list option"
  pc_totpUri :: "string option"
  pc_passkeys :: "json list option"
  pc_cardholderName :: "string option"
  pc_number :: "string option"
  pc_verificationNumber :: "string option"
  pc_expirationDate :: "string option"
  pc_pin :: "string option"
  pc_entries :: "(string \<times> json) list"

record pp_item =
  pi_state :: "nat option"
  pi_aliasEmail :: "string option"
  pi_type :: "string option"
  pi_name :: "string option"
  pi_note :: "string option"
  pi_content :: pp_content
  pi_extraFields :: "pp_extra list option"

record pp_vault =
  pv_name :: "string option"
  pv_items :: "pp_item list option"

definition STATE_TRASHED :: nat where "STATE_TRASHED = 2"

definition mapExtraFields :: "pp_extra list option \<Rightarrow> raw_field list" where
  "mapExtraFields extra =
     (case extra of
        None \<Rightarrow> []
      | Some fs \<Rightarrow> map (\<lambda>f. \<lparr>rf_key = opt_text (pe_fieldName f), rf_value = opt_text (pe_content f),
          rf_hidden = Some (pe_type f = Some ''hidden'')\<rparr>) fs)"

text \<open>\<open>num_text\<close>: \<open>String(Number(s))\<close> of a text that is not up to fifteen digits.\<close>

definition js_number_text :: "(string \<Rightarrow> string) \<Rightarrow> string \<Rightarrow> string" where
  "js_number_text num_text s = (if list_all is_digit s \<and> length s \<le> 15 then dec (undec s) else num_text s)"

definition pp_splitExpiry :: "(string \<Rightarrow> string) \<Rightarrow> string option \<Rightarrow> string \<times> string" where
  "pp_splitExpiry num_text raw =
     (case raw of
        None \<Rightarrow> ([], [])
      | Some s \<Rightarrow>
          if s = [] then ([], [])
          else if CHR ''-'' \<in> set s then
            (let parts = split_on CHR ''-'' s
             in (js_number_text num_text (if length parts > 1 then parts ! 1 else []), hd parts))
          else (js_number_text num_text (take 2 s), drop 2 s))"

definition pp_or :: "string option \<Rightarrow> string option \<Rightarrow> string option" where
  "pp_or a b = (case or_absent a of Some s \<Rightarrow> Some s | None \<Rightarrow> b)"

definition pp_base :: "string option \<Rightarrow> string list option \<Rightarrow> string \<Rightarrow> raw_field list \<Rightarrow> entry_body \<Rightarrow> entry_data" where
  "pp_base notes' tags' name extras body = (op_base name notes' extras body)\<lparr>en_tags := tags'\<rparr>"

definition pp_login :: "pp_item \<Rightarrow> string option \<Rightarrow> string list option \<Rightarrow> string \<Rightarrow> entry_data \<times> string list" where
  "pp_login i notes' tags' name =
     (let c = pi_content i; extra = mapExtraFields (pi_extraFields i);
          totpExtra = (case pi_extraFields i of None \<Rightarrow> None
            | Some fs \<Rightarrow> (case find (\<lambda>f. pe_type f = Some ''totp'') fs of None \<Rightarrow> None | Some f \<Rightarrow> pe_content f));
          username = opt_text (pp_or (pc_itemUsername c) (pp_or (pc_username c) (pp_or (pc_itemEmail c) (pi_aliasEmail i))));
          emailField = (case or_absent (pc_itemEmail c) of
              Some e \<Rightarrow> if e \<noteq> username then [\<lparr>rf_key = ''email'', rf_value = e, rf_hidden = None\<rparr>] else []
            | None \<Rightarrow> []);
          totp = pp_or (pc_totpUri c) totpExtra
      in (pp_base notes' tags' name (emailField @ filter (\<lambda>f. Some (rf_value f) \<noteq> totp) extra)
            (plain_login (filter (\<lambda>u. u \<noteq> []) (case pc_urls c of None \<Rightarrow> [] | Some us \<Rightarrow> us)) username (opt_text (pc_password c))
              (or_absent totp)),
          if pc_passkeys c \<noteq> None \<and> pc_passkeys c \<noteq> Some []
          then [quoted name @ '' has a passkey, which can'' @ apostrophe @ ''t be imported yet.''] else []))"

definition pp_entry :: "(string \<Rightarrow> string) \<Rightarrow> string list option \<Rightarrow> pp_item \<Rightarrow> entry_data \<times> string list" where
  "pp_entry num_text tags' i =
     (let name = opt_text (pi_name i); notes' = or_absent (pi_note i); c = pi_content i; extra = mapExtraFields (pi_extraFields i)
      in if pi_type i = Some ''login'' \<or> pi_type i = Some ''alias'' then pp_login i notes' tags' name
         else if pi_type i = Some ''creditCard'' then
           (case pp_splitExpiry num_text (pc_expirationDate c) of (expMonth, expYear) \<Rightarrow>
             (let number = opt_text (pc_number c);
                  pin = (case or_absent (pc_pin c) of Some p \<Rightarrow> [\<lparr>rf_key = ''PIN'', rf_value = p, rf_hidden = Some True\<rparr>] | None \<Rightarrow> [])
              in (pp_base notes' tags' name (pin @ extra)
                   (Card \<lparr>cd_cardholderName = opt_text (pc_cardholderName c), cd_number = number,
                     cd_brand = map_option brand_name (cardBrand number), cd_expMonth = expMonth, cd_expYear = expYear,
                     cd_cvv = opt_text (pc_verificationNumber c)\<rparr>), [])))
         else if pi_type i = Some ''note'' then (pp_base notes' tags' name extra Note, [])
         else (pp_base notes' tags' name
                (map (\<lambda>(k, v). \<lparr>rf_key = k, rf_value = (case v of JStr s \<Rightarrow> s | _ \<Rightarrow> []), rf_hidden = None\<rparr>) (pc_entries c) @ extra) Note, []))"

definition pp_vault_entries :: "(string \<Rightarrow> string) \<Rightarrow> (string \<Rightarrow> string) \<Rightarrow> pp_vault \<Rightarrow> (entry_data \<times> string list) list" where
  "pp_vault_entries num_text lower v =
     map (pp_entry num_text (normalizeTags lower (case pv_name v of None \<Rightarrow> Some [] | Some n \<Rightarrow> Some [n])))
       (filter (\<lambda>i. pi_state i \<noteq> Some STATE_TRASHED) (case pv_items v of None \<Rightarrow> [] | Some is \<Rightarrow> is))"

definition parseProtonPass :: "(string \<Rightarrow> string) \<Rightarrow> (string \<Rightarrow> string) \<Rightarrow> (json \<Rightarrow> pp_vault list option) \<Rightarrow> zip_file list option \<Rightarrow>
   zip_error + import_result" where
  "parseProtonPass num_text lower schema unzipped =
     (case readZippedJson unzipped (find (\<lambda>f. suffix ''data.json'' (zf_name f))) schema of
        Inl e \<Rightarrow> Inl e
      | Inr vaults \<Rightarrow>
          (let outs = concat (map (pp_vault_entries num_text lower) vaults)
           in Inr (summarize Some (map fst outs) 0 (concat (map snd outs)))))"

subsection \<open>What is kept\<close>

text \<open>A 1Password field of a login or of any item that becomes a note keeps its title, its text and whether it was concealed,
  unless it holds a one-time-code secret; the first such secret of a login becomes its one-time code.\<close>

lemma onepassword_keeps_fields:
  assumes "f \<in> set (flattenFields i)" "ff_text f \<noteq> []" "ff_title f \<noteq> []" "oi_categoryUuid i \<noteq> Some ''002''" "oi_categoryUuid i \<noteq> Some ''114''"
  shows "custom_of (extra_of f) \<in> set (customs (op_entry other lower i)) \<or>
    ((oi_categoryUuid i = Some ''001'' \<or> oi_categoryUuid i = Some ''005'') \<and> has_totp f)"
proof -
  let ?login = "oi_categoryUuid i = Some ''001'' \<or> oi_categoryUuid i = Some ''005''"
  have "en_customFields (op_entry other lower i) =
      toCustomFields (map extra_of (if ?login then filter (\<lambda>f. \<not> has_totp f) (flattenFields i) else flattenFields i))"
    using assms(4,5)
    by (simp add: op_entry_def op_mapLogin_def op_mapNote_def op_base_def Let_def split: option.split prod.split)
  from customs_keep [OF this, of "extra_of f"] show ?thesis
    using assms(1-3) by (cases ?login) (auto simp: extra_of_def)
qed

text \<open>A second one-time code of a login is dropped, and nothing says so.\<close>

definition sample_otp :: "string \<Rightarrow> op_field" where
  "sample_otp s = \<lparr>of_id = Some ''otp'', of_title = Some ''one-time password'', of_value = Some
     \<lparr>ov_string = None, ov_concealed = None, ov_totp = Some s, ov_creditCardNumber = None, ov_monthYear = None, ov_email = None,
      ov_phone = None, ov_url = None, ov_date = None\<rparr>\<rparr>"

definition sample_op_login :: op_item where
  "sample_op_login = \<lparr>oi_categoryUuid = Some ''001'', oi_title = Some ''Mail'', oi_url = None, oi_urls = [], oi_tags = None,
     oi_loginFields = [], oi_sections = [[sample_otp ''AAAA'', sample_otp ''BBBB'']], oi_notesPlain = None, oi_password = None\<rparr>"

lemma second_code_dropped:
  "op_entry other id sample_op_login = op_base ''Mail'' None [] (plain_login [] [] [] (Some ''AAAA''))"
  by (simp add: op_entry_def sample_op_login_def sample_otp_def op_mapLogin_def flattenFields_def op_readValue_def has_totp_def
      op_loginCredentials_def designated_def opt_text_def or_absent_def some_text_def allUrls_def push_url_def normalizeTags_def op_base_def)

text \<open>Trashed Proton items stay behind, and an archive beyond the cap, or without the vendor's file, is refused.\<close>

lemma proton_skips_trash:
  "length (pp_vault_entries num_text lower v) =
     length (filter (\<lambda>i. pi_state i \<noteq> Some STATE_TRASHED) (case pv_items v of None \<Rightarrow> [] | Some is \<Rightarrow> is))"
  by (simp add: pp_vault_entries_def)

lemma zip_refused:
  assumes "parseOnePassword other lower schema unzipped = Inr r"
  shows "\<exists>files f. unzipped = Some files \<and> sum_list (map zf_bytes files) \<le> 209715200 \<and> f \<in> set files \<and> suffix ''export.data'' (zf_name f)"
proof -
  obtain files f where "unzipped = Some files" "assertUnzipUnderCap files" "op_findData files = Some f"
    using assms by (auto simp: parseOnePassword_def readZippedJson_def split: sum.splits option.splits if_splits)
  moreover have "f \<in> set files \<and> suffix ''export.data'' (zf_name f)"
    using calculation(3) by (auto simp: op_findData_def find_Some_iff split: option.splits)
  ultimately show ?thesis by (auto simp: assertUnzipUnderCap_def MAX_DECOMPRESSED_BYTES_def)
qed

end
