(* ===== verification/Vek_Store.thy ===== *)
theory Vek_Store
  imports Vault_Prelude
begin

text \<open>
  The extension background's vault keys
  (\<open>packages/platform-extension/src/background/vek-store.ts\<close>): the in-memory map of vault keys,
  its mirror in \<open>chrome.storage.session\<close> and the epoch that outdates slow crypto replies.

  Commits are serialised by \<open>serializeMutation\<close> but suspend at every storage call, where
  anything else may run. A commit is therefore a value of \<open>commit\<close> (the storage call it waits
  for, with the locals that are live across it), \<open>start_commit\<close> runs the code up to the first
  call, and \<open>resume_commit\<close> the code from one call to the next. A storage call may succeed,
  be rejected, or be rejected after the browser applied it. A worker restart may happen at any
  point; the next worker hydrates from whatever reached storage.
\<close>

subsection \<open>State\<close>

record active_receipt =
  ar_revision :: nat
  ar_old :: "string option"
  ar_new :: "string option"

record vek_state =
  veks :: "string jsmap"
  mru :: "string list"
  activeId :: "string option"
  mutationEpoch :: nat
  durableVekCandidates :: "string list"
  lockMarkerPresent :: bool
  persistencePoisoned :: bool
  activeWriteRevision :: nat
  pendingActiveStorageChanges :: "active_receipt list"

text \<open>
  What \<open>chrome.storage.session\<close> holds under the store's keys: one key per vault (by vault id),
  the MRU list, the active id and the lock marker. Values of another type than the code accepts
  read as absent.
\<close>

record session_storage =
  st_veks :: "string jsmap"
  st_mru :: "string list option"
  st_active :: "string option"
  st_marker :: bool

definition fresh_vek_state :: vek_state where
  "fresh_vek_state =
     \<lparr>veks = [], mru = [], activeId = None, mutationEpoch = 0, durableVekCandidates = [],
      lockMarkerPresent = False, persistencePoisoned = False, activeWriteRevision = 0,
      pendingActiveStorageChanges = []\<rparr>"

definition MAX_PENDING_ACTIVE_CHANGES :: nat where
  "MAX_PENDING_ACTIVE_CHANGES = 8"

text \<open>Receipts of the module's own active-id writes.\<close>

definition expectActiveStorageChange ::
  "string option \<Rightarrow> string option \<Rightarrow> vek_state \<Rightarrow> active_receipt \<times> vek_state" where
  "expectActiveStorageChange oldValue newValue s =
     (let expected = \<lparr>ar_revision = Suc (activeWriteRevision s), ar_old = oldValue, ar_new = newValue\<rparr>;
          pending = pendingActiveStorageChanges s @ [expected]
      in (expected, s\<lparr>activeWriteRevision := Suc (activeWriteRevision s),
                     pendingActiveStorageChanges := drop (length pending - MAX_PENDING_ACTIVE_CHANGES) pending\<rparr>))"

fun remove_first :: "('a \<Rightarrow> bool) \<Rightarrow> 'a list \<Rightarrow> 'a list" where
  "remove_first P [] = []"
| "remove_first P (x # xs) = (if P x then xs else x # remove_first P xs)"

definition forgetExpectedActiveStorageChange :: "active_receipt \<Rightarrow> vek_state \<Rightarrow> vek_state" where
  "forgetExpectedActiveStorageChange expected s =
     s\<lparr>pendingActiveStorageChanges :=
         remove_first (\<lambda>c. ar_revision c = ar_revision expected) (pendingActiveStorageChanges s)\<rparr>"

definition consumeExpectedActiveStorageChange ::
  "string option \<Rightarrow> string option \<Rightarrow> vek_state \<Rightarrow> bool \<times> vek_state" where
  "consumeExpectedActiveStorageChange oldValue newValue s =
     (let hit = (\<lambda>c. ar_old c = oldValue \<and> ar_new c = newValue)
      in if list_ex hit (pendingActiveStorageChanges s)
         then (True, s\<lparr>pendingActiveStorageChanges := remove_first hit (pendingActiveStorageChanges s)\<rparr>)
         else (False, s))"

definition failClosed :: "vek_state \<Rightarrow> vek_state" where
  "failClosed s = s\<lparr>persistencePoisoned := True, veks := [], mru := [], activeId := None\<rparr>"

definition replacesVek :: "string \<Rightarrow> bool" where
  "replacesVek type \<longleftrightarrow>
     type \<in> {''CRYPTO_GENERATE_VEK'', ''CRYPTO_UNWRAP_PASSWORD_SLOT'', ''CRYPTO_UNWRAP_WEBAUTHN_SLOT'',
             ''CRYPTO_UNLOCK_WITH_VEK'', ''CRYPTO_ROTATE_VEK''}"

definition beginVekMutation :: "vek_state \<Rightarrow> nat \<times> vek_state" where
  "beginVekMutation s =
     (Suc (mutationEpoch s), s\<lparr>mutationEpoch := Suc (mutationEpoch s)\<rparr>)"

definition vekMutationIsCurrent :: "nat \<Rightarrow> vek_state \<Rightarrow> bool" where
  "vekMutationIsCurrent epoch s \<longleftrightarrow> epoch = mutationEpoch s"

definition applyActiveVaultId :: "string option \<Rightarrow> vek_state \<Rightarrow> bool \<times> vek_state" where
  "applyActiveVaultId v s =
     (if v = activeId s then (False, s)
      else (True, snd (beginVekMutation (s\<lparr>activeId := v\<rparr>))))"

definition getVek :: "string \<Rightarrow> vek_state \<Rightarrow> string option" where
  "getVek vaultId s = map_of (veks s) vaultId"

definition hasVek :: "string \<Rightarrow> vek_state \<Rightarrow> bool" where
  "hasVek vaultId s \<longleftrightarrow> map_of (veks s) vaultId \<noteq> None"

definition activeVaultLocked :: "vek_state \<Rightarrow> bool" where
  "activeVaultLocked s \<longleftrightarrow>
     persistencePoisoned s \<or> lockMarkerPresent s \<or>
     (case activeId s of None \<Rightarrow> True | Some a \<Rightarrow> \<not> hasVek a s)"

definition unlockedMru :: "vek_state \<Rightarrow> string list" where
  "unlockedMru s = filter (\<lambda>i. hasVek i s) (mru s)"

subsection \<open>Commits\<close>

text \<open>The bodies handed to \<open>serializeMutation\<close>.\<close>

datatype commit_op =
    SetVek string string nat
  | RemoveVek string
  | ClearAllVeks

text \<open>Why an install is rolled back: its storage write failed, or a newer transition began.\<close>

datatype rollback_reason = InstallFailed | Superseded

datatype commit =
    AwaitPut string string nat
  | AwaitUnmark string string nat
  | AwaitRollbackDrop string rollback_reason
  | AwaitRollbackMru string rollback_reason
  | AwaitRemoveDrop string
  | AwaitRemoveMru string
  | AwaitFailureMarker
  | AwaitClearMarker "string option" "string list"
  | AwaitClearList bool "string option" "string list"
  | AwaitClearDrop bool "active_receipt option" "string list"

datatype commit_result = Returned bool | Threw

datatype outcome = Await commit | Finished commit_result

text \<open>\<open>rollbackInstall\<close> up to its first storage call.\<close>

definition rollback_start :: "string \<Rightarrow> rollback_reason \<Rightarrow> vek_state \<Rightarrow> outcome \<times> vek_state" where
  "rollback_start vaultId why s =
     (Await (AwaitRollbackDrop vaultId why),
      s\<lparr>veks := AList.delete vaultId (veks s), mru := filter (\<lambda>i. i \<noteq> vaultId) (mru s)\<rparr>)"

text \<open>The end of \<open>setVek\<close>: the key counts only if no newer transition began meanwhile.\<close>

definition install_end :: "string \<Rightarrow> nat \<Rightarrow> vek_state \<Rightarrow> outcome \<times> vek_state" where
  "install_end vaultId epoch s =
     (if vekMutationIsCurrent epoch s then (Finished (Returned True), s)
      else rollback_start vaultId Superseded s)"

fun start_commit :: "commit_op \<Rightarrow> vek_state \<Rightarrow> outcome \<times> vek_state" where
  "start_commit (SetVek vaultId vek epoch) s =
     (if \<not> vekMutationIsCurrent epoch s then (Finished (Returned False), s)
      else if persistencePoisoned s then (Finished Threw, s)
      else (Await (AwaitPut vaultId vek epoch),
            s\<lparr>durableVekCandidates := List.insert vaultId (durableVekCandidates s),
              veks := AList.update vaultId vek (veks s),
              mru := vaultId # filter (\<lambda>i. i \<noteq> vaultId) (mru s)\<rparr>))"
| "start_commit (RemoveVek vaultId) s =
     (if persistencePoisoned s then (Finished Threw, s)
      else (Await (AwaitRemoveDrop vaultId),
            s\<lparr>veks := AList.delete vaultId (veks s), mru := filter (\<lambda>i. i \<noteq> vaultId) (mru s)\<rparr>))"
| "start_commit ClearAllVeks s =
     (Await (AwaitClearMarker (activeId s) (durableVekCandidates s @ map fst (veks s))),
      s\<lparr>veks := [], mru := [], activeId := None, lockMarkerPresent := True\<rparr>)"

text \<open>
  From one storage call to the next. \<open>ok\<close> says whether the call succeeded; \<open>found\<close> is what a
  successful \<open>get\<close> saw. A failed removal leaves the durable marker, closes and throws.
\<close>

definition leave_marker :: "vek_state \<Rightarrow> outcome \<times> vek_state" where
  "leave_marker s = (Await AwaitFailureMarker, s\<lparr>lockMarkerPresent := True\<rparr>)"

definition drop_candidates :: "string list \<Rightarrow> vek_state \<Rightarrow> vek_state" where
  "drop_candidates ids s =
     s\<lparr>durableVekCandidates := filter (\<lambda>i. i \<notin> set ids) (durableVekCandidates s)\<rparr>"

fun resume_commit :: "commit \<Rightarrow> bool \<Rightarrow> session_storage \<Rightarrow> vek_state \<Rightarrow> outcome \<times> vek_state" where
  "resume_commit (AwaitPut vaultId vek epoch) ok found s =
     (if \<not> ok then rollback_start vaultId InstallFailed s
      else if lockMarkerPresent s then (Await (AwaitUnmark vaultId vek epoch), s)
      else install_end vaultId epoch s)"
| "resume_commit (AwaitUnmark vaultId vek epoch) ok found s =
     (if \<not> ok then rollback_start vaultId InstallFailed s
      else install_end vaultId epoch (s\<lparr>lockMarkerPresent := False\<rparr>))"
| "resume_commit (AwaitRollbackDrop vaultId why) ok found s =
     (if ok then (Await (AwaitRollbackMru vaultId why), s) else leave_marker s)"
| "resume_commit (AwaitRollbackMru vaultId why) ok found s =
     (if ok then (Finished (case why of InstallFailed \<Rightarrow> Threw | Superseded \<Rightarrow> Returned False),
                  drop_candidates [vaultId] s)
      else leave_marker s)"
| "resume_commit (AwaitRemoveDrop vaultId) ok found s =
     (if ok then (Await (AwaitRemoveMru vaultId), s) else leave_marker s)"
| "resume_commit (AwaitRemoveMru vaultId) ok found s =
     (if ok then (Finished (Returned True), drop_candidates [vaultId] s) else leave_marker s)"
| "resume_commit AwaitFailureMarker ok found s = (Finished Threw, failClosed s)"
| "resume_commit (AwaitClearMarker before ids) ok found s =
     (Await (AwaitClearList (\<not> ok) before ids), s)"
| "resume_commit (AwaitClearList failed before ids) ok found s =
     (let ids' = (if ok then ids @ map fst (st_veks found) else ids);
          stored = (if ok then st_active found else before)
      in case stored of
           None \<Rightarrow> (Await (AwaitClearDrop (failed \<or> \<not> ok) None ids'), s)
         | Some a \<Rightarrow>
             (case expectActiveStorageChange (Some a) None s of
                (expected, s') \<Rightarrow> (Await (AwaitClearDrop (failed \<or> \<not> ok) (Some expected) ids'), s')))"
| "resume_commit (AwaitClearDrop failed expected ids) ok found s =
     (let s' = (if ok then drop_candidates ids s
                else (case expected of None \<Rightarrow> s | Some e \<Rightarrow> forgetExpectedActiveStorageChange e s))
      in if failed \<or> \<not> ok then (Finished Threw, failClosed s')
         else (Finished (Returned True), s'\<lparr>persistencePoisoned := False\<rparr>))"

subsection \<open>Hydration and the whole store\<close>

text \<open>
  \<open>vekStoreHydration\<close> in a fresh worker. A lock marker found in storage means a lock was
  interrupted: no key is revived and the stale ones are removed, or the worker closes.
  \<open>removed\<close> says whether that removal succeeds.
\<close>

definition hydrate :: "bool \<Rightarrow> session_storage \<Rightarrow> vek_state \<times> session_storage" where
  "hydrate removed st =
     (if st_marker st then
        (let s = fresh_vek_state\<lparr>lockMarkerPresent := True\<rparr>
         in if removed then (s, st\<lparr>st_veks := [], st_mru := None, st_active := None\<rparr>)
            else (failClosed s, st))
      else
        (let ks = st_veks st
         in (fresh_vek_state\<lparr>veks := ks, durableVekCandidates := map fst ks,
               mru := filter (\<lambda>i. map_of ks i \<noteq> None) (case st_mru st of None \<Rightarrow> [] | Some m \<Rightarrow> m),
               activeId := st_active st\<rparr>, st)))"

text \<open>What a storage call does to the storage. \<open>mru\<close> does not change while a commit waits.\<close>

fun apply_call :: "commit \<Rightarrow> vek_state \<Rightarrow> session_storage \<Rightarrow> session_storage" where
  "apply_call (AwaitPut vaultId vek epoch) s st =
     st\<lparr>st_veks := AList.update vaultId vek (st_veks st), st_mru := Some (mru s)\<rparr>"
| "apply_call (AwaitUnmark vaultId vek epoch) s st = st\<lparr>st_marker := False\<rparr>"
| "apply_call (AwaitRollbackDrop vaultId why) s st = st\<lparr>st_veks := AList.delete vaultId (st_veks st)\<rparr>"
| "apply_call (AwaitRollbackMru vaultId why) s st = st\<lparr>st_mru := Some (mru s)\<rparr>"
| "apply_call (AwaitRemoveDrop vaultId) s st = st\<lparr>st_veks := AList.delete vaultId (st_veks st)\<rparr>"
| "apply_call (AwaitRemoveMru vaultId) s st = st\<lparr>st_mru := Some (mru s)\<rparr>"
| "apply_call AwaitFailureMarker s st = st\<lparr>st_marker := True\<rparr>"
| "apply_call (AwaitClearMarker before ids) s st = st\<lparr>st_marker := True\<rparr>"
| "apply_call (AwaitClearList failed before ids) s st = st"
| "apply_call (AwaitClearDrop failed expected ids) s st =
     st\<lparr>st_veks := filter (\<lambda>(i, _). i \<notin> set ids) (st_veks st), st_mru := None, st_active := None\<rparr>"

record vek_sys =
  vs :: vek_state
  store :: session_storage
  running :: "commit option"
  queue :: "commit_op list"

text \<open>
  Everything that can happen: the module's operations, a UI view writing the active id, a
  delivered \<open>storage.onChanged\<close>, the mutation queue starting its next commit, the storage
  answering the running one, and a restart of the worker.
\<close>

datatype vek_event =
    CallSetVek string string nat
  | CallRemoveVek string
  | CallClearAllVeks
  | BeginMutation
  | ActiveRead "string option"
  | ActiveNotified "string option" "string option"
  | ViewSelects "string option"
  | StartNext
  | StorageAnswers bool bool
  | RestartWorker bool bool

text \<open>An install carries an epoch that was current at some earlier time.\<close>

fun vek_step :: "vek_event \<Rightarrow> vek_sys \<Rightarrow> unit + vek_sys" where
  "vek_step (CallSetVek vaultId vek epoch) y =
     (if epoch \<le> mutationEpoch (vs y) then Inr (y\<lparr>queue := queue y @ [SetVek vaultId vek epoch]\<rparr>) else Inl ())"
| "vek_step (CallRemoveVek vaultId) y =
     Inr (y\<lparr>vs := snd (beginVekMutation (vs y)), queue := queue y @ [RemoveVek vaultId]\<rparr>)"
| "vek_step CallClearAllVeks y =
     Inr (y\<lparr>vs := snd (beginVekMutation (vs y)), queue := queue y @ [ClearAllVeks]\<rparr>)"
| "vek_step BeginMutation y = Inr (y\<lparr>vs := snd (beginVekMutation (vs y))\<rparr>)"
| "vek_step (ActiveRead v) y = Inr (y\<lparr>vs := snd (applyActiveVaultId v (vs y))\<rparr>)"
| "vek_step (ActiveNotified oldValue newValue) y =
     (case consumeExpectedActiveStorageChange oldValue newValue (vs y) of
        (mine, s) \<Rightarrow> Inr (y\<lparr>vs := (if mine then s else snd (applyActiveVaultId newValue s))\<rparr>))"
| "vek_step (ViewSelects v) y = Inr (y\<lparr>store := (store y)\<lparr>st_active := v\<rparr>\<rparr>)"
| "vek_step StartNext y =
     (case (running y, queue y) of
        (None, op # ops) \<Rightarrow>
          (case start_commit op (vs y) of
             (Await c, s) \<Rightarrow> Inr (y\<lparr>vs := s, running := Some c, queue := ops\<rparr>)
           | (Finished r, s) \<Rightarrow> Inr (y\<lparr>vs := s, queue := ops\<rparr>))
      | _ \<Rightarrow> Inl ())"
| "vek_step (StorageAnswers ok applied) y =
     (case running y of
        None \<Rightarrow> Inl ()
      | Some c \<Rightarrow>
          (let st = (if ok \<or> applied then apply_call c (vs y) (store y) else store y)
           in case resume_commit c ok st (vs y) of
                (Await c', s) \<Rightarrow> Inr (y\<lparr>vs := s, store := st, running := Some c'\<rparr>)
              | (Finished r, s) \<Rightarrow> Inr (y\<lparr>vs := s, store := st, running := None\<rparr>)))"
| "vek_step (RestartWorker applied removed) y =
     (let st = (case running y of
                  None \<Rightarrow> store y
                | Some c \<Rightarrow> if applied then apply_call c (vs y) (store y) else store y)
      in case hydrate removed st of
           (s, st') \<Rightarrow> Inr \<lparr>vs = s, store = st', running = None, queue = []\<rparr>)"

fun vek_run :: "vek_event list \<Rightarrow> vek_sys \<Rightarrow> vek_sys" where
  "vek_run [] y = y"
| "vek_run (e # es) y = (case vek_step e y of Inl _ \<Rightarrow> vek_run es y | Inr y' \<Rightarrow> vek_run es y')"

definition fresh_vek_sys :: vek_sys where
  "fresh_vek_sys = \<lparr>vs = fresh_vek_state, store = \<lparr>st_veks = [], st_mru = None, st_active = None, st_marker = False\<rparr>,
                    running = None, queue = []\<rparr>"

subsection \<open>Invariants\<close>

text \<open>Memory and storage hold the same keys, except possibly for the vaults \<open>X\<close>.\<close>

definition agrees :: "string set \<Rightarrow> vek_state \<Rightarrow> session_storage \<Rightarrow> bool" where
  "agrees X s st \<longleftrightarrow> (\<forall>j. j \<notin> X \<longrightarrow> map_of (veks s) j = map_of (st_veks st) j)"

text \<open>
  Storage mirrors memory between commits; a running commit may differ on the vault it is
  about. A clearing store holds no key in memory, and none in storage that its removal misses
  unless it will close.
\<close>

fun commit_inv :: "commit \<Rightarrow> vek_state \<Rightarrow> session_storage \<Rightarrow> bool" where
  "commit_inv (AwaitPut i k e) s st \<longleftrightarrow>
     \<not> persistencePoisoned s \<and> map_of (veks s) i = Some k \<and> agrees {i} s st"
| "commit_inv (AwaitUnmark i k e) s st \<longleftrightarrow>
     \<not> persistencePoisoned s \<and> map_of (veks s) i = Some k \<and> agrees {} s st"
| "commit_inv (AwaitRollbackDrop i why) s st \<longleftrightarrow>
     \<not> persistencePoisoned s \<and> map_of (veks s) i = None \<and> agrees {i} s st"
| "commit_inv (AwaitRollbackMru i why) s st \<longleftrightarrow>
     \<not> persistencePoisoned s \<and> map_of (veks s) i = None \<and> agrees {} s st"
| "commit_inv (AwaitRemoveDrop i) s st \<longleftrightarrow>
     \<not> persistencePoisoned s \<and> map_of (veks s) i = None \<and> agrees {i} s st"
| "commit_inv (AwaitRemoveMru i) s st \<longleftrightarrow>
     \<not> persistencePoisoned s \<and> map_of (veks s) i = None \<and> agrees {} s st"
| "commit_inv AwaitFailureMarker s st \<longleftrightarrow> \<not> persistencePoisoned s \<and> lockMarkerPresent s"
| "commit_inv (AwaitClearMarker before ids) s st \<longleftrightarrow> veks s = [] \<and> mru s = [] \<and> lockMarkerPresent s"
| "commit_inv (AwaitClearList failed before ids) s st \<longleftrightarrow>
     veks s = [] \<and> mru s = [] \<and> lockMarkerPresent s \<and> (failed \<or> st_marker st)"
| "commit_inv (AwaitClearDrop failed expected ids) s st \<longleftrightarrow>
     veks s = [] \<and> mru s = [] \<and> lockMarkerPresent s \<and>
     (failed \<or> st_marker st \<and> fst ` set (st_veks st) \<subseteq> set ids)"

definition vek_inv :: "vek_sys \<Rightarrow> bool" where
  "vek_inv y \<longleftrightarrow>
     (persistencePoisoned (vs y) \<longrightarrow> veks (vs y) = [] \<and> mru (vs y) = []) \<and>
     (case running y of
        None \<Rightarrow> persistencePoisoned (vs y) \<or> agrees {} (vs y) (store y)
      | Some c \<Rightarrow> commit_inv c (vs y) (store y))"

text \<open>Steps that leave the keys alone keep the invariant.\<close>

definition same_keys :: "vek_state \<Rightarrow> vek_state \<Rightarrow> bool" where
  "same_keys s s' \<longleftrightarrow> veks s' = veks s \<and> mru s' = mru s \<and> lockMarkerPresent s' = lockMarkerPresent s \<and>
     persistencePoisoned s' = persistencePoisoned s"

lemma same_keys_intros [simp]:
  "same_keys s (snd (beginVekMutation s))"
  "same_keys s (snd (applyActiveVaultId v s))"
  "same_keys s (snd (consumeExpectedActiveStorageChange a b s))"
  "same_keys s (snd (expectActiveStorageChange a b s))"
  "same_keys s (forgetExpectedActiveStorageChange r s)"
  "same_keys s (drop_candidates ids s)"
  by (simp_all add: same_keys_def beginVekMutation_def applyActiveVaultId_def drop_candidates_def
      consumeExpectedActiveStorageChange_def expectActiveStorageChange_def forgetExpectedActiveStorageChange_def Let_def)

lemma same_keys_refl [simp]: "same_keys s s"
  by (simp add: same_keys_def)

lemma same_keys_trans: "same_keys s s' \<Longrightarrow> same_keys s' s'' \<Longrightarrow> same_keys s s''"
  by (simp add: same_keys_def)

lemma commit_inv_same:
  "same_keys s s' \<Longrightarrow> st_veks st' = st_veks st \<Longrightarrow> st_marker st' = st_marker st \<Longrightarrow>
   commit_inv c s st \<Longrightarrow> commit_inv c s' st'"
  by (cases c) (auto simp: same_keys_def agrees_def)

lemma vek_inv_same:
  assumes "vek_inv y" "same_keys (vs y) (vs y')" "st_veks (store y') = st_veks (store y)"
    "st_marker (store y') = st_marker (store y)" "running y' = running y"
  shows "vek_inv y'"
  using assms commit_inv_same [OF assms(2-4)]
  by (auto simp: vek_inv_def same_keys_def agrees_def split: option.splits)

lemma vek_inv_start:
  assumes "vek_inv y" "running y = None" "start_commit op (vs y) = (r, s)"
  shows "vek_inv (y\<lparr>vs := s, running := (case r of Await c \<Rightarrow> Some c | Finished _ \<Rightarrow> None), queue := ops\<rparr>)"
  using assms
  by (cases op) (auto simp: vek_inv_def agrees_def jsmap_simps split: if_splits)

text \<open>The result of a step of a commit: what the next call, or the idle store, must satisfy.\<close>

definition outcome_inv :: "outcome \<Rightarrow> vek_state \<Rightarrow> session_storage \<Rightarrow> bool" where
  "outcome_inv r s st \<longleftrightarrow>
     (persistencePoisoned s \<longrightarrow> veks s = [] \<and> mru s = []) \<and>
     (case r of Await c \<Rightarrow> commit_inv c s st | Finished _ \<Rightarrow> persistencePoisoned s \<or> agrees {} s st)"

lemma outcome_inv_simps:
  "outcome_inv (Await c) s st \<longleftrightarrow> (persistencePoisoned s \<longrightarrow> veks s = [] \<and> mru s = []) \<and> commit_inv c s st"
  "outcome_inv (Finished x) s st \<longleftrightarrow>
     (persistencePoisoned s \<longrightarrow> veks s = [] \<and> mru s = []) \<and> (persistencePoisoned s \<or> agrees {} s st)"
  by (simp_all add: outcome_inv_def)

lemma rollback_outcome:
  "\<not> persistencePoisoned s \<Longrightarrow> agrees {i} s st \<Longrightarrow> rollback_start i why s = (r, s') \<Longrightarrow> outcome_inv r s' st"
  by (auto simp: rollback_start_def outcome_inv_simps agrees_def jsmap_simps)

lemma install_outcome:
  "\<not> persistencePoisoned s \<Longrightarrow> agrees {} s st \<Longrightarrow> install_end i e s = (r, s') \<Longrightarrow> outcome_inv r s' st"
  by (auto simp: install_end_def outcome_inv_simps agrees_def intro: rollback_outcome split: if_splits)

lemma leave_marker_outcome:
  "\<not> persistencePoisoned s \<Longrightarrow> leave_marker s = (r, s') \<Longrightarrow> outcome_inv r s' st"
  by (auto simp: leave_marker_def outcome_inv_simps)

lemma failed_outcome: "outcome_inv (Finished x) (failClosed s) st"
  by (simp add: failClosed_def outcome_inv_simps)

lemma drop_candidates_keeps [simp]:
  "veks (drop_candidates ids s) = veks s" "mru (drop_candidates ids s) = mru s"
  "lockMarkerPresent (drop_candidates ids s) = lockMarkerPresent s"
  "persistencePoisoned (drop_candidates ids s) = persistencePoisoned s"
  "mutationEpoch (drop_candidates ids s) = mutationEpoch s"
  "agrees X (drop_candidates ids s) st = agrees X s st"
  by (simp_all add: drop_candidates_def agrees_def)

lemma expect_keeps [simp]:
  "expectActiveStorageChange a b s = (x, s') \<Longrightarrow>
   veks s' = veks s \<and> mru s' = mru s \<and> lockMarkerPresent s' = lockMarkerPresent s \<and>
   persistencePoisoned s' = persistencePoisoned s \<and> mutationEpoch s' = mutationEpoch s"
  by (auto simp: expectActiveStorageChange_def Let_def)

lemma forget_keeps [simp]:
  "veks (forgetExpectedActiveStorageChange r s) = veks s" "mru (forgetExpectedActiveStorageChange r s) = mru s"
  "mutationEpoch (forgetExpectedActiveStorageChange r s) = mutationEpoch s"
  by (simp_all add: forgetExpectedActiveStorageChange_def)

lemma filter_none: "fst ` set xs \<subseteq> set ids \<Longrightarrow> filter (\<lambda>(i, _). i \<notin> set ids) xs = []"
  by (auto simp: filter_empty_conv)

lemma resume_outcome:
  assumes "commit_inv c s st" "persistencePoisoned s \<longrightarrow> veks s = [] \<and> mru s = []"
    and "st' = (if ok \<or> applied then apply_call c s st else st)"
    and "resume_commit c ok st' s = (r, s')"
  shows "outcome_inv r s' st'"
proof (cases c)
  case (AwaitPut i k e)
  then have "agrees {i} s st'" "\<not> persistencePoisoned s" "ok \<Longrightarrow> agrees {} s st'"
    using assms(1,3) by (auto simp: agrees_def jsmap_simps)
  then show ?thesis
    using assms(1,4) AwaitPut
    by (auto simp: outcome_inv_simps intro: rollback_outcome install_outcome split: if_splits)
next
  case (AwaitUnmark i k e)
  then have "agrees {} s st'" "\<not> persistencePoisoned s" "agrees {i} s st'"
    using assms(1,3) by (auto simp: agrees_def)
  moreover have "agrees {} (s\<lparr>lockMarkerPresent := False\<rparr>) st'" if "agrees {} s st'"
    using that by (simp add: agrees_def)
  ultimately show ?thesis
    using assms(4) AwaitUnmark rollback_outcome [of s i st' InstallFailed r s']
      install_outcome [of "s\<lparr>lockMarkerPresent := False\<rparr>" st' i e r s']
    by (simp split: if_splits)
next
  case (AwaitRollbackDrop i why)
  then show ?thesis
    using assms
    by (auto simp: outcome_inv_simps agrees_def jsmap_simps intro: leave_marker_outcome split: if_splits)
next
  case (AwaitRollbackMru i why)
  then show ?thesis
    using assms by (auto simp: outcome_inv_simps agrees_def drop_candidates_def intro: leave_marker_outcome split: if_splits)
next
  case (AwaitRemoveDrop i)
  then show ?thesis
    using assms
    by (auto simp: outcome_inv_simps agrees_def jsmap_simps intro: leave_marker_outcome split: if_splits)
next
  case (AwaitRemoveMru i)
  then show ?thesis
    using assms by (auto simp: outcome_inv_simps agrees_def drop_candidates_def intro: leave_marker_outcome split: if_splits)
next
  case AwaitFailureMarker
  then show ?thesis using assms failed_outcome by auto
next
  case (AwaitClearMarker before ids)
  then show ?thesis using assms by (auto simp: outcome_inv_simps split: if_splits)
next
  case (AwaitClearList failed before ids)
  then show ?thesis
    using assms by (auto simp: outcome_inv_simps Let_def split: if_splits option.splits prod.splits)
next
  case (AwaitClearDrop failed expected ids)
  show ?thesis
  proof (cases "failed \<or> \<not> ok")
    case True
    then show ?thesis
      using assms(4) AwaitClearDrop by (auto simp: Let_def intro: failed_outcome)
  next
    case False
    then show ?thesis
      using assms AwaitClearDrop
      by (auto simp: Let_def outcome_inv_simps agrees_def filter_none drop_candidates_def)
  qed
qed

lemma hydrate_inv:
  "vek_inv \<lparr>vs = fst (hydrate removed st), store = snd (hydrate removed st), running = None, queue = []\<rparr>"
  by (auto simp: vek_inv_def hydrate_def agrees_def fresh_vek_state_def failClosed_def Let_def)

lemma vek_inv_outcome:
  "vek_inv (y\<lparr>vs := s, store := st, running := None\<rparr>) \<longleftrightarrow> outcome_inv (Finished x) s st"
  "vek_inv (y\<lparr>vs := s, store := st, running := Some c\<rparr>) \<longleftrightarrow> outcome_inv (Await c) s st"
  by (simp_all add: vek_inv_def outcome_inv_simps)

text \<open>Every event but a commit's progress and a restart leaves keys and storage alone.\<close>

fun enqueues :: "vek_event \<Rightarrow> commit_op list" where
  "enqueues (CallSetVek i k e) = [SetVek i k e]"
| "enqueues (CallRemoveVek i) = [RemoveVek i]"
| "enqueues CallClearAllVeks = [ClearAllVeks]"
| "enqueues _ = []"

fun quiet :: "vek_event \<Rightarrow> bool" where
  "quiet StartNext = False"
| "quiet (StorageAnswers _ _) = False"
| "quiet (RestartWorker _ _) = False"
| "quiet _ = True"

lemma quiet_step:
  assumes "quiet e" "vek_step e y = Inr y'"
  shows "same_keys (vs y) (vs y') \<and> st_veks (store y') = st_veks (store y) \<and>
    st_marker (store y') = st_marker (store y) \<and> running y' = running y \<and>
    queue y' = queue y @ enqueues e \<and> mutationEpoch (vs y) \<le> mutationEpoch (vs y')"
  using assms
  by (cases e)
    (auto simp: same_keys_def beginVekMutation_def applyActiveVaultId_def consumeExpectedActiveStorageChange_def
        Let_def split: if_splits)

lemma vek_step_inv:
  assumes inv: "vek_inv y" and step: "vek_step e y = Inr y'"
  shows "vek_inv y'"
proof (cases e)
  case StartNext
  then obtain op ops r s where q: "running y = None" "queue y = op # ops" "start_commit op (vs y) = (r, s)"
    using step by (auto split: option.splits list.splits prod.splits)
  show ?thesis
    using vek_inv_start [OF inv q(1,3), of ops] step StartNext q
    by (auto simp: q(1) vek_inv_def split: outcome.splits)
next
  case (StorageAnswers ok applied)
  then obtain c where c: "running y = Some c"
    using step by (auto split: option.splits)
  let ?st = "if ok \<or> applied then apply_call c (vs y) (store y) else store y"
  obtain r s where r: "resume_commit c ok ?st (vs y) = (r, s)"
    by fastforce
  have "outcome_inv r s ?st"
    using resume_outcome [OF _ _ _ r] inv c by (auto simp: vek_inv_def)
  then show ?thesis
    using step StorageAnswers c r
    by (auto simp: vek_inv_def outcome_inv_simps Let_def split: outcome.splits)
next
  case (RestartWorker applied removed)
  then show ?thesis
    using step hydrate_inv by (auto simp: Let_def split: prod.splits) (metis fst_conv snd_conv)+
qed (use quiet_step [OF _ step] in \<open>auto intro!: vek_inv_same [OF inv]\<close>)

interpretation vek_machine: guarded_machine vek_step vek_inv
  by unfold_locales (rule vek_step_inv)

lemma vek_run_machine: "vek_machine.run es y = vek_run es y"
  by (induction es arbitrary: y) (auto split: sum.split)

lemma vek_run_inv: "vek_inv y \<Longrightarrow> vek_inv (vek_run es y)"
  using vek_machine.run_inv by (simp add: vek_run_machine)

lemma fresh_inv: "vek_inv fresh_vek_sys"
  by (simp add: vek_inv_def fresh_vek_sys_def fresh_vek_state_def agrees_def)

subsection \<open>A lock and the unlocks before it\<close>

fun op_epoch :: "commit_op \<Rightarrow> nat" where
  "op_epoch (SetVek _ _ e) = e"
| "op_epoch _ = 0"

fun installs :: "commit \<Rightarrow> bool" where
  "installs (AwaitPut _ _ _) = True"
| "installs (AwaitUnmark _ _ _) = True"
| "installs _ = False"

text \<open>No unlock begun after epoch \<open>E\<close>, and no restart of the worker.\<close>

fun no_unlock_after :: "nat \<Rightarrow> vek_event \<Rightarrow> bool" where
  "no_unlock_after E (CallSetVek _ _ e) = (e \<le> E)"
| "no_unlock_after E (RestartWorker _ _) = False"
| "no_unlock_after E _ = True"

definition epochs_within :: "nat \<Rightarrow> vek_sys \<Rightarrow> bool" where
  "epochs_within E y \<longleftrightarrow> list_all (\<lambda>op. op_epoch op \<le> E) (queue y)"

definition clearing :: "nat \<Rightarrow> vek_sys \<Rightarrow> bool" where
  "clearing E y \<longleftrightarrow> E < mutationEpoch (vs y) \<and> epochs_within E y \<and>
     (ClearAllVeks \<in> set (queue y) \<or>
      veks (vs y) = [] \<and> (case running y of None \<Rightarrow> True | Some c \<Rightarrow> \<not> installs c))"

lemma start_epoch: "start_commit op s = (r, s') \<Longrightarrow> mutationEpoch s' = mutationEpoch s"
  by (cases op) (auto split: if_splits)

lemma resume_epoch: "resume_commit c ok st s = (r, s') \<Longrightarrow> mutationEpoch s' = mutationEpoch s"
  by (cases c)
    (auto simp: install_end_def rollback_start_def leave_marker_def failClosed_def Let_def
      split: if_splits option.splits prod.splits)

lemma start_stays_clear:
  "start_commit op s = (r, s') \<Longrightarrow> op = ClearAllVeks \<or> op_epoch op < mutationEpoch s \<and> veks s = [] \<Longrightarrow>
   veks s' = [] \<and> (case r of Finished _ \<Rightarrow> True | Await c \<Rightarrow> \<not> installs c)"
  by (cases op) (auto simp: vekMutationIsCurrent_def split: if_splits)

lemma resume_stays_clear:
  "resume_commit c ok st s = (r, s') \<Longrightarrow> \<not> installs c \<Longrightarrow> veks s = [] \<Longrightarrow>
   veks s' = [] \<and> (case r of Finished _ \<Rightarrow> True | Await c \<Rightarrow> \<not> installs c)"
  by (cases c)
    (auto simp: leave_marker_def failClosed_def Let_def split: if_splits option.splits prod.splits)

lemma clearing_step:
  assumes cl: "clearing E y" and step: "vek_step e y = Inr y'" and ok: "no_unlock_after E e"
  shows "clearing E y'"
proof (cases e)
  case StartNext
  then obtain op ops r s where q: "running y = None" "queue y = op # ops" "start_commit op (vs y) = (r, s)"
    using step by (auto split: option.splits list.splits prod.splits)
  have y': "vs y' = s" "queue y' = ops" "running y' = (case r of Finished _ \<Rightarrow> None | Await c \<Rightarrow> Some c)"
    using step StartNext q by (auto split: outcome.splits)
  have "op_epoch op < mutationEpoch (vs y)"
    using cl by (auto simp: clearing_def epochs_within_def q(2))
  then show ?thesis
    using cl start_epoch [OF q(3)] start_stays_clear [OF q(3)]
    by (auto simp: clearing_def epochs_within_def q(2) y' split: outcome.splits)
next
  case (StorageAnswers ok applied)
  then obtain c where c: "running y = Some c"
    using step by (auto split: option.splits)
  let ?st = "if ok \<or> applied then apply_call c (vs y) (store y) else store y"
  obtain r s where r: "resume_commit c ok ?st (vs y) = (r, s)"
    by fastforce
  have y': "vs y' = s" "queue y' = queue y" "running y' = (case r of Finished _ \<Rightarrow> None | Await c \<Rightarrow> Some c)"
    using step StorageAnswers c r by (auto simp: Let_def split: outcome.splits)
  then show ?thesis
    using cl resume_epoch [OF r] resume_stays_clear [OF r]
    by (auto simp: clearing_def epochs_within_def y' c split: outcome.splits)
qed (use quiet_step [OF _ step] cl ok in
    \<open>auto simp: clearing_def epochs_within_def same_keys_def split: option.splits\<close>)

lemma clearing_run: "clearing E y \<Longrightarrow> list_all (no_unlock_after E) es \<Longrightarrow> clearing E (vek_run es y)"
  by (induction es arbitrary: y) (auto split: sum.split intro: clearing_step)

text \<open>Queued epochs are never ahead of the current one.\<close>

lemma epochs_step:
  assumes ok: "epochs_within (mutationEpoch (vs y)) y" and step: "vek_step e y = Inr y'"
  shows "epochs_within (mutationEpoch (vs y')) y'"
proof (cases e)
  case StartNext
  then show ?thesis
    using ok step start_epoch
    by (auto simp: epochs_within_def split: option.splits list.splits prod.splits outcome.splits)
next
  case (StorageAnswers b applied)
  then show ?thesis
    using ok step resume_epoch
    by (fastforce simp: epochs_within_def Let_def split: option.splits prod.splits outcome.splits)
next
  case (CallSetVek i k n)
  then show ?thesis
    using ok step by (auto simp: epochs_within_def split: if_splits)
next
  case (RestartWorker applied removed)
  then show ?thesis
    using step by (auto simp: epochs_within_def Let_def split: prod.splits)
qed (use quiet_step [OF _ step] ok in \<open>auto simp: epochs_within_def list_all_iff intro: le_trans\<close>)

lemma epochs_run: "epochs_within (mutationEpoch (vs y)) y \<Longrightarrow>
  epochs_within (mutationEpoch (vs (vek_run es y))) (vek_run es y)"
  by (induction es arbitrary: y) (auto split: sum.split intro: epochs_step)

lemma vek_run_append: "vek_run (es @ fs) y = vek_run fs (vek_run es y)"
  by (induction es arbitrary: y) (auto split: sum.split)

subsection \<open>Properties\<close>

text \<open>Property C10: a lock outlives every unlock begun before it. However installs, storage writes and
  their failures interleave with \<open>clearAllVeks\<close>, once its commit has started no key is in memory
  and the active vault is locked, and stays so as long as no unlock begins after the lock: an
  install whose crypto reply arrives late, or whose write was under way, leaves nothing.\<close>

theorem lock_outlives_pending_unlocks:
  assumes "list_all (no_unlock_after (mutationEpoch (vs (vek_run es fresh_vek_sys)))) later"
    and "ClearAllVeks \<notin> set (queue (vek_run (es @ CallClearAllVeks # later) fresh_vek_sys))"
  shows "veks (vs (vek_run (es @ CallClearAllVeks # later) fresh_vek_sys)) = [] \<and>
    activeVaultLocked (vs (vek_run (es @ CallClearAllVeks # later) fresh_vek_sys))"
proof -
  let ?y = "vek_run es fresh_vek_sys"
  have "epochs_within (mutationEpoch (vs ?y)) ?y"
    by (rule epochs_run) (simp add: epochs_within_def fresh_vek_sys_def)
  then have "clearing (mutationEpoch (vs ?y))
      (?y\<lparr>vs := snd (beginVekMutation (vs ?y)), queue := queue ?y @ [ClearAllVeks]\<rparr>)"
    by (simp add: clearing_def epochs_within_def beginVekMutation_def)
  from clearing_run [OF this assms(1)] show ?thesis
    using assms(2)
    by (auto simp: vek_run_append clearing_def activeVaultLocked_def hasVek_def split: option.split)
qed

definition slow_unlock :: "vek_event list" where
  "slow_unlock = [CallSetVek ''a'' ''k'' 0, StartNext]"

definition after_the_lock :: "vek_event list" where
  "after_the_lock =
     [StorageAnswers True True, StorageAnswers True True, StorageAnswers True True, StartNext,
      CallSetVek ''a'' ''k'' 0, StorageAnswers True True, StorageAnswers True True, StorageAnswers True True, StartNext]"

theorem lock_outlives_pending_unlocks_witness:
  "veks (vs (vek_run slow_unlock fresh_vek_sys)) = [(''a'', ''k'')] \<and>
   veks (vs (vek_run (slow_unlock @ CallClearAllVeks # after_the_lock) fresh_vek_sys)) = []"
proof -
  have "veks (vs (vek_run slow_unlock fresh_vek_sys)) = [(''a'', ''k'')]"
    by code_simp
  moreover have "list_all (no_unlock_after (mutationEpoch (vs (vek_run slow_unlock fresh_vek_sys)))) after_the_lock"
    by code_simp
  moreover have "ClearAllVeks \<notin> set (queue (vek_run (slow_unlock @ CallClearAllVeks # after_the_lock) fresh_vek_sys))"
    by code_simp
  ultimately show ?thesis
    using lock_outlives_pending_unlocks [of slow_unlock after_the_lock] by blast
qed

text \<open>A worker restart revives no locked vault. Whatever calls, failures and restarts came
  before, between two commits of a store that has not closed, session storage holds exactly the
  keys in memory; so the worker that starts next unlocks no vault that was locked. A store that
  has closed after a failed cleanup holds no key at all.\<close>

lemma restart_revives_no_key:
  assumes "running (vek_run es fresh_vek_sys) = None"
  shows "if persistencePoisoned (vs (vek_run es fresh_vek_sys))
    then veks (vs (vek_run es fresh_vek_sys)) = [] \<and> activeVaultLocked (vs (vek_run es fresh_vek_sys))
    else map_of (st_veks (store (vek_run es fresh_vek_sys))) = map_of (veks (vs (vek_run es fresh_vek_sys))) \<and>
      map_of (veks (vs (vek_run (es @ [RestartWorker applied removed]) fresh_vek_sys)))
        \<subseteq>\<^sub>m map_of (veks (vs (vek_run es fresh_vek_sys)))"
proof -
  let ?y = "vek_run es fresh_vek_sys"
  have "vek_inv ?y"
    by (rule vek_run_inv [OF fresh_inv])
  then have "persistencePoisoned (vs ?y) \<and> veks (vs ?y) = [] \<or>
      \<not> persistencePoisoned (vs ?y) \<and> map_of (st_veks (store ?y)) = map_of (veks (vs ?y))"
    using assms by (auto simp: vek_inv_def agrees_def)
  then show ?thesis
    using assms
    by (auto simp: vek_run_append activeVaultLocked_def hydrate_def Let_def fresh_vek_state_def failClosed_def map_le_def)
qed

end
