(* ===== verification/Autofill_Session.thy ===== *)
theory Autofill_Session
  imports Vek_Store Entry_Data "HOL-Library.Sublist"
begin

text \<open>
  The extension background's autofill broker: which page gets which credential, and when
  (\<open>packages/platform-extension/src/background/autofill-index.ts\<close>), the session it is bound to
  (the state and predicates of \<open>background/session.ts\<close>), the hostname policy (\<open>dedupe.ts\<close>) and
  the sender check (\<open>sender.ts\<close>).

  The handlers are asynchronous. Between two awaits a handler runs alone; at an await anything
  may run. \<open>bg_event\<close> lists the atomic things that can happen to the shared state and a handler
  takes, for each of its awaits, the list of events that ran there. What the handlers use of
  the browser and of libraries is a record of arguments: the public-suffix lookup, lower-casing,
  URL parsing, the current one-time code of a stored key, and the extension's own identity.
\<close>

record af_host =
  getDomain :: "string \<Rightarrow> string option"
  toLowerCase :: "string \<Rightarrow> string"
  parseUrl :: url_parser
  totpCode :: "string \<Rightarrow> string option"
  EXTENSION_ORIGIN :: string
  runtime_id :: string

subsection \<open>Hostname policy and deduplication\<close>

definition registrableDomain :: "af_host \<Rightarrow> string \<Rightarrow> string" where
  "registrableDomain h hostname = (case getDomain h hostname of None \<Rightarrow> hostname | Some d \<Rightarrow> d)"

fun host_matches :: "af_host \<Rightarrow> subdomain_match \<Rightarrow> string \<Rightarrow> string \<Rightarrow> bool" where
  "host_matches h Exact pageHost entryHost = (entryHost = pageHost)"
| "host_matches h Subdomain pageHost entryHost =
     (pageHost = entryHost \<or> suffix (CHR ''.'' # entryHost) pageHost)"
| "host_matches h ETLD1 pageHost entryHost = (registrableDomain h entryHost = registrableDomain h pageHost)"

definition hostnameMatches :: "af_host \<Rightarrow> login_index \<Rightarrow> string \<Rightarrow> bool" where
  "hostnameMatches h e pageHostname =
     (let pageHost = toLowerCase h pageHostname;
          policy = (case li_subdomainMatch e of None \<Rightarrow> ETLD1 | Some p \<Rightarrow> p)
      in list_ex (\<lambda>raw. host_matches h policy pageHost (toLowerCase h raw)) (li_hostnames e))"

datatype dedupe_outcome = ExactMatch | SaveNew | UpdateOne "login_index list"

fun dedupe_loop ::
  "af_host \<Rightarrow> string \<Rightarrow> string \<Rightarrow> string \<Rightarrow> index_entry list \<Rightarrow> login_index list \<Rightarrow> login_index list option" where
  "dedupe_loop h hostname username password [] candidates = Some candidates"
| "dedupe_loop h hostname username password (CardIndex c # es) candidates =
     dedupe_loop h hostname username password es candidates"
| "dedupe_loop h hostname username password (LoginIndex l # es) candidates =
     (if \<not> hostnameMatches h l hostname then dedupe_loop h hostname username password es candidates
      else if li_username l = username \<and> li_password l = password then None
      else dedupe_loop h hostname username password es (candidates @ [l]))"

text \<open>The stable sort by whether the username matches is a partition.\<close>

definition dedupeCaptureFn ::
  "af_host \<Rightarrow> index_entry jsmap option \<Rightarrow> string \<Rightarrow> string \<Rightarrow> string \<Rightarrow> dedupe_outcome" where
  "dedupeCaptureFn h index hostname username password =
     (case index of
        None \<Rightarrow> SaveNew
      | Some m \<Rightarrow>
          (case dedupe_loop h hostname username password (map snd m) [] of
             None \<Rightarrow> ExactMatch
           | Some [] \<Rightarrow> SaveNew
           | Some candidates \<Rightarrow>
               UpdateOne (filter (\<lambda>c. li_username c = username) candidates @
                          filter (\<lambda>c. li_username c \<noteq> username) candidates)))"

subsection \<open>Senders\<close>

record sender =
  sd_origin :: "string option"
  sd_url :: "string option"
  sd_tab_id :: "nat option"
  sd_tab_url :: "string option"
  sd_has_tab :: bool
  sd_id :: "string option"

definition isExtensionSender :: "af_host \<Rightarrow> sender \<Rightarrow> bool" where
  "isExtensionSender h sd =
     (let src = (case sd_origin sd of Some s \<Rightarrow> s | None \<Rightarrow> (case sd_url sd of Some s \<Rightarrow> s | None \<Rightarrow> []))
      in if src \<noteq> [] then src = EXTENSION_ORIGIN h \<or> prefix (EXTENSION_ORIGIN h @ ''/'') src
         else sd_id sd = Some (runtime_id h) \<and> \<not> sd_has_tab sd)"

definition senderHostname :: "af_host \<Rightarrow> sender \<Rightarrow> string" where
  "senderHostname h sd =
     (let src = (case sd_origin sd of
                   Some s \<Rightarrow> s
                 | None \<Rightarrow> (case sd_url sd of
                              Some s \<Rightarrow> s
                            | None \<Rightarrow> (case sd_tab_url sd of Some s \<Rightarrow> s | None \<Rightarrow> [])))
      in if src \<noteq> [] then (case parseUrl h src of None \<Rightarrow> [] | Some (_, host) \<Rightarrow> host) else [])"

definition pageSenderHostname :: "af_host \<Rightarrow> sender \<Rightarrow> string option" where
  "pageSenderHostname h sd =
     (if isExtensionSender h sd \<or> sd_tab_id sd = None then None
      else if senderHostname h sd = [] then None else Some (senderHostname h sd))"

subsection \<open>The session\<close>

record owner =
  ow_vaultId :: string
  ow_generation :: nat
  ow_token :: string

record capability =
  cp_vaultId :: string
  cp_token :: string

record bg =
  bg_veks :: vek_state
  autofillSessionGeneration :: nat
  lockTransitions :: nat
  autofillSessionToken :: string
  autofillIndex :: "(owner \<times> index_entry jsmap) option"
  cacheRevision :: nat
  hydrationInFlight :: "(owner \<times> nat) option"
  knownHostnames :: "string list"

definition vaultLocked :: "bg \<Rightarrow> bool" where
  "vaultLocked s = activeVaultLocked (bg_veks s)"

definition getActiveVaultId :: "bg \<Rightarrow> string option" where
  "getActiveVaultId s = activeId (bg_veks s)"

definition autofillSessionIsStable :: "nat \<Rightarrow> bg \<Rightarrow> bool" where
  "autofillSessionIsStable g s \<longleftrightarrow> lockTransitions s = 0 \<and> g = autofillSessionGeneration s"

definition autofillSessionIsCurrent :: "nat \<Rightarrow> bg \<Rightarrow> bool" where
  "autofillSessionIsCurrent g s \<longleftrightarrow> autofillSessionIsStable g s \<and> \<not> vaultLocked s"

definition autofillSessionOwner :: "bg \<Rightarrow> owner option" where
  "autofillSessionOwner s =
     (case getActiveVaultId s of
        None \<Rightarrow> None
      | Some v \<Rightarrow>
          if \<not> autofillSessionIsCurrent (autofillSessionGeneration s) s then None
          else Some \<lparr>ow_vaultId = v, ow_generation = autofillSessionGeneration s, ow_token = autofillSessionToken s\<rparr>)"

definition autofillSessionOwnerIsCurrent :: "owner \<Rightarrow> bg \<Rightarrow> bool" where
  "autofillSessionOwnerIsCurrent ow s \<longleftrightarrow>
     getActiveVaultId s = Some (ow_vaultId ow) \<and> autofillSessionIsCurrent (ow_generation ow) s \<and>
     autofillSessionToken s = ow_token ow"

definition autofillSessionCapabilityIsCurrent :: "capability \<Rightarrow> bg \<Rightarrow> bool" where
  "autofillSessionCapabilityIsCurrent cap s =
     (case autofillSessionOwner s of
        None \<Rightarrow> False
      | Some ow \<Rightarrow> ow_vaultId ow = cp_vaultId cap \<and> ow_token ow = cp_token cap)"

text \<open>Transitions; \<open>tok\<close> is the random token drawn.\<close>

definition advanceAutofillSession :: "string \<Rightarrow> bg \<Rightarrow> bg" where
  "advanceAutofillSession tok s =
     s\<lparr>autofillSessionGeneration := Suc (autofillSessionGeneration s), autofillSessionToken := tok\<rparr>"

definition beginAutofillLockTransition :: "string \<Rightarrow> bg \<Rightarrow> bg" where
  "beginAutofillLockTransition tok s =
     (advanceAutofillSession tok s)\<lparr>lockTransitions := Suc (lockTransitions s)\<rparr>"

definition endAutofillLockTransition :: "bg \<Rightarrow> bg" where
  "endAutofillLockTransition s = s\<lparr>lockTransitions := lockTransitions s - 1\<rparr>"

definition applyActiveVaultTransition :: "string option \<Rightarrow> string \<Rightarrow> bg \<Rightarrow> bool \<times> bg" where
  "applyActiveVaultTransition v tok s =
     (case applyActiveVaultId v (bg_veks s) of
        (False, _) \<Rightarrow> (False, s)
      | (True, w) \<Rightarrow> (True, advanceAutofillSession tok (s\<lparr>bg_veks := w\<rparr>)))"

definition autofillGetSessionOwner :: "bg \<Rightarrow> capability option" where
  "autofillGetSessionOwner s =
     map_option (\<lambda>ow. \<lparr>cp_vaultId = ow_vaultId ow, cp_token = ow_token ow\<rparr>) (autofillSessionOwner s)"

subsection \<open>The index cache\<close>

definition sameOwner :: "owner \<Rightarrow> owner \<Rightarrow> bool" where
  "sameOwner l r \<longleftrightarrow>
     ow_vaultId l = ow_vaultId r \<and> ow_generation l = ow_generation r \<and> ow_token l = ow_token r"

definition currentIndex :: "bg \<Rightarrow> index_entry jsmap option \<times> bg" where
  "currentIndex s =
     (case (autofillSessionOwner s, autofillIndex s) of
        (Some ow, Some (ow', m)) \<Rightarrow>
          if sameOwner ow' ow then (Some m, s)
          else (None, s\<lparr>autofillIndex := None, cacheRevision := Suc (cacheRevision s)\<rparr>)
      | (None, Some _) \<Rightarrow> (None, s\<lparr>autofillIndex := None, cacheRevision := Suc (cacheRevision s)\<rparr>)
      | (_, None) \<Rightarrow> (None, s))"

definition publishIndex :: "owner \<Rightarrow> nat \<Rightarrow> index_entry jsmap \<Rightarrow> bg \<Rightarrow> bool \<times> bg" where
  "publishIndex ow revision m s =
     (if cacheRevision s \<noteq> revision \<or> \<not> autofillSessionOwnerIsCurrent ow s then (False, s)
      else (True, s\<lparr>autofillIndex := Some (ow, m)\<rparr>))"

definition clearIndex :: "bg \<Rightarrow> bg" where
  "clearIndex s = s\<lparr>autofillIndex := None, cacheRevision := Suc (cacheRevision s)\<rparr>"

definition getIndexEntry :: "string \<Rightarrow> bg \<Rightarrow> index_entry option \<times> bg" where
  "getIndexEntry i s =
     (case currentIndex s of
        (None, s') \<Rightarrow> (None, s')
      | (Some m, s') \<Rightarrow> (map_of m i, s'))"

definition know :: "string list \<Rightarrow> string list \<Rightarrow> string list" where
  "know hosts known = fold (\<lambda>x acc. if x \<in> set acc then acc else acc @ [x]) hosts known"

definition replace_entries :: "index_entry jsmap \<Rightarrow> bg \<Rightarrow> bg" where
  "replace_entries m s = s\<lparr>autofillIndex := map_option (\<lambda>(ow, _). (ow, m)) (autofillIndex s)\<rparr>"

definition addLoginEntry :: "login_index \<Rightarrow> bg \<Rightarrow> bg" where
  "addLoginEntry l s =
     (case currentIndex s of
        (None, s') \<Rightarrow> s'
      | (Some m, s') \<Rightarrow>
          (replace_entries (AList.update (li_id l) (LoginIndex l) m) s')
            \<lparr>knownHostnames := know (li_hostnames l) (knownHostnames s')\<rparr>)"

definition updateLoginCredentials :: "string \<Rightarrow> string \<Rightarrow> string \<Rightarrow> bg \<Rightarrow> bg" where
  "updateLoginCredentials i username password s =
     (case currentIndex s of
        (None, s') \<Rightarrow> s'
      | (Some m, s') \<Rightarrow>
          (case map_of m i of
             Some (LoginIndex l) \<Rightarrow>
               replace_entries (AList.update i (LoginIndex (l\<lparr>li_username := username, li_password := password\<rparr>)) m) s'
           | _ \<Rightarrow> s'))"

definition dedupeCapture :: "af_host \<Rightarrow> string \<Rightarrow> string \<Rightarrow> string \<Rightarrow> bg \<Rightarrow> dedupe_outcome \<times> bg" where
  "dedupeCapture h hostname username password s =
     (case currentIndex s of (m, s') \<Rightarrow> (dedupeCaptureFn h m hostname username password, s'))"

subsection \<open>Answers\<close>

record match_summary =
  ms_id :: string
  ms_name :: string
  ms_secondary :: string
  ms_autofillEnabled :: "bool option"
  ms_autoSubmit :: "bool option"

record query_result =
  qr_logins :: "match_summary list"
  qr_cards :: "match_summary list"
  qr_otps :: "match_summary list"
  qr_locked :: bool
  qr_hasPotentialMatch :: bool
  qr_disabled :: bool
  qr_generated :: "string option"
  qr_aliasReady :: "bool option"

text \<open>The four bullets of the card label are written \<open>****\<close>.\<close>

definition cardSecondary :: "card_index \<Rightarrow> string" where
  "cardSecondary c =
     (let digits = filter (\<lambda>x. x \<in> set ''0123456789'') (ci_number c);
          last4 = drop (length digits - 4) digits;
          tail = (if last4 \<noteq> [] then ''**** '' @ last4 else []);
          brand = (case ci_brand c of None \<Rightarrow> [] | Some b \<Rightarrow> b)
      in if brand = [] then tail else if tail = [] then brand else brand @ '' '' @ tail)"

definition disabledResult :: query_result where
  "disabledResult =
     \<lparr>qr_logins = [], qr_cards = [], qr_otps = [], qr_locked = False, qr_hasPotentialMatch = False,
      qr_disabled = True, qr_generated = None, qr_aliasReady = None\<rparr>"

definition login_summary :: "login_index \<Rightarrow> match_summary" where
  "login_summary l =
     \<lparr>ms_id = li_id l, ms_name = li_name l, ms_secondary = li_username l,
      ms_autofillEnabled = li_autofillEnabled l, ms_autoSubmit = li_autoSubmit l\<rparr>"

definition otp_summary :: "login_index \<Rightarrow> match_summary" where
  "otp_summary l = (login_summary l)\<lparr>ms_autoSubmit := None\<rparr>"

definition card_summary :: "card_index \<Rightarrow> match_summary" where
  "card_summary c =
     \<lparr>ms_id = ci_id c, ms_name = ci_name c, ms_secondary = cardSecondary c,
      ms_autofillEnabled = None, ms_autoSubmit = None\<rparr>"

fun matching_logins :: "af_host \<Rightarrow> string \<Rightarrow> index_entry list \<Rightarrow> login_index list" where
  "matching_logins h hostname [] = []"
| "matching_logins h hostname (LoginIndex l # es) =
     (if hostnameMatches h l hostname then l # matching_logins h hostname es else matching_logins h hostname es)"
| "matching_logins h hostname (CardIndex c # es) = matching_logins h hostname es"

fun card_entries :: "index_entry list \<Rightarrow> card_index list" where
  "card_entries [] = []"
| "card_entries (CardIndex c # es) = c # card_entries es"
| "card_entries (LoginIndex l # es) = card_entries es"

definition queryResult :: "af_host \<Rightarrow> string \<Rightarrow> bool \<Rightarrow> bool \<Rightarrow> bool \<Rightarrow> bg \<Rightarrow> query_result \<times> bg" where
  "queryResult h hostname hasLogin hasCard hasOtp s =
     (case currentIndex s of
        (idx, s') \<Rightarrow>
          (case (idx, vaultLocked s') of
             (Some m, False) \<Rightarrow>
               (let es = map snd m;
                    ls = matching_logins h hostname es;
                    logins = (if hasLogin then map login_summary ls else []);
                    otps = (if hasOtp
                            then map otp_summary (filter (\<lambda>l. case li_totp l of None \<Rightarrow> False | Some k \<Rightarrow> k \<noteq> []) ls)
                            else []);
                    cards = (if hasCard then map card_summary (card_entries es) else [])
                in (\<lparr>qr_logins = logins, qr_cards = cards, qr_otps = otps, qr_locked = False,
                     qr_hasPotentialMatch = (logins \<noteq> []), qr_disabled = False, qr_generated = None,
                     qr_aliasReady = None\<rparr>, s'))
           | _ \<Rightarrow>
               (\<lparr>qr_logins = [], qr_cards = [], qr_otps = [], qr_locked = True,
                 qr_hasPotentialMatch =
                   list_ex (\<lambda>x. registrableDomain h x = registrableDomain h hostname) (knownHostnames s'),
                 qr_disabled = False, qr_generated = None, qr_aliasReady = None\<rparr>, s')))"

text \<open>A one-time code; a key that does not parse, and no key, give none.\<close>

definition liveTotpCode :: "af_host \<Rightarrow> string option \<Rightarrow> string option" where
  "liveTotpCode h key = (case key of None \<Rightarrow> None | Some k \<Rightarrow> totpCode h k)"

datatype fill_payload =
    FillLogin string string "string option" "bool option" "(string \<times> string) list option"
  | FillCard string string string string string "(string \<times> string) list option"

fun payload_of :: "af_host \<Rightarrow> index_entry \<Rightarrow> fill_payload" where
  "payload_of h (LoginIndex l) =
     FillLogin (li_username l) (li_password l) (liveTotpCode h (li_totp l)) (li_autoSubmit l) (li_customFields l)"
| "payload_of h (CardIndex c) =
     FillCard (ci_cardholderName c) (ci_number c) (ci_expMonth c) (ci_expYear c) (ci_cvv c) (ci_customFields c)"

text \<open>\<open>None\<close> is the exception.\<close>

definition fetchFill :: "af_host \<Rightarrow> string \<Rightarrow> bg \<Rightarrow> fill_payload option \<times> bg" where
  "fetchFill h entryId s =
     (case getIndexEntry entryId s of (e, s') \<Rightarrow> (map_option (payload_of h) e, s'))"

definition authorizeFill :: "af_host \<Rightarrow> string \<Rightarrow> string \<Rightarrow> bg \<Rightarrow> bool \<times> bg" where
  "authorizeFill h entryId pageHostname s =
     (case getIndexEntry entryId s of
        (Some (LoginIndex l), s') \<Rightarrow> (hostnameMatches h l pageHostname, s')
      | (_, s') \<Rightarrow> (True, s'))"

subsection \<open>Rebuilding the index\<close>

text \<open>The projection of one decrypted entry (already migrated by \<open>normalizeEntryData\<close>).\<close>

definition hydrated_entry :: "af_host \<Rightarrow> string \<Rightarrow> entry_data \<Rightarrow> index_entry option" where
  "hydrated_entry h i d =
     (if en_archivedAt d \<noteq> None then None
      else (case en_body d of
              Login l \<Rightarrow>
                Some (LoginIndex
                  \<lparr>li_id = i,
                   li_hostnames = filter (\<lambda>x. length x > 0)
                     (map (extractHostname (parseUrl h)) (filter (\<lambda>u. u \<noteq> []) (lg_urls l))),
                   li_name = en_name d, li_username = lg_username l, li_password = lg_password l,
                   li_totp = lg_totp l, li_customFields = autofillCustomFields (en_customFields d),
                   li_autofillEnabled = lg_autofillEnabled l, li_autoSubmit = lg_autoSubmit l,
                   li_subdomainMatch = lg_subdomainMatch l, li_passkeys = None\<rparr>)
            | Card c \<Rightarrow>
                Some (CardIndex
                  \<lparr>ci_id = i, ci_name = en_name d, ci_brand = cd_brand c,
                   ci_cardholderName = cd_cardholderName c, ci_number = cd_number c,
                   ci_expMonth = cd_expMonth c, ci_expYear = cd_expYear c, ci_cvv = cd_cvv c,
                   ci_customFields = autofillCustomFields (en_customFields d)\<rparr>)
            | _ \<Rightarrow> None))"

text \<open>
  The loop of \<open>hydrateIndexForOwner\<close> over the encrypted entries, whose replies are \<open>rs\<close>: an
  entry the crypto host could not decrypt is skipped.
\<close>

fun hydrate_loop ::
  "af_host \<Rightarrow> (string \<times> entry_data option) list \<Rightarrow> index_entry jsmap \<times> string list \<Rightarrow>
   index_entry jsmap \<times> string list" where
  "hydrate_loop h [] acc = acc"
| "hydrate_loop h ((i, None) # rs) acc = hydrate_loop h rs acc"
| "hydrate_loop h ((i, Some d) # rs) (m, hosts) =
     (case hydrated_entry h i d of
        None \<Rightarrow> hydrate_loop h rs (m, hosts)
      | Some (LoginIndex l) \<Rightarrow> hydrate_loop h rs (AList.update i (LoginIndex l) m, know (li_hostnames l) hosts)
      | Some (CardIndex c) \<Rightarrow> hydrate_loop h rs (AList.update i (CardIndex c) m, hosts))"

text \<open>
  The synchronous start of \<open>hydrateAutofillIndexFromDisk\<close>: nothing to do, join the running
  build, or start one for the current owner and revision.
\<close>

datatype hydrate_start = NotUnlocked | Ready | Joined | Building owner nat

definition hydrateAutofillIndexFromDisk :: "bg \<Rightarrow> hydrate_start \<times> bg" where
  "hydrateAutofillIndexFromDisk s =
     (case autofillSessionOwner s of
        None \<Rightarrow> (NotUnlocked, s)
      | Some ow \<Rightarrow>
          (case currentIndex s of
             (Some _, s') \<Rightarrow> (Ready, s')
           | (None, s') \<Rightarrow>
               (case hydrationInFlight s' of
                  Some (ow', rv) \<Rightarrow>
                    if rv = cacheRevision s' \<and> sameOwner ow' ow then (Joined, s')
                    else (Building ow (cacheRevision s'), s'\<lparr>hydrationInFlight := Some (ow, cacheRevision s')\<rparr>)
                | None \<Rightarrow>
                    (Building ow (cacheRevision s'), s'\<lparr>hydrationInFlight := Some (ow, cacheRevision s')\<rparr>))))"

text \<open>
  The end of \<open>hydrateIndexForOwner\<close>, after the last reply: publish if the owner still owns the
  cache, then register the host names. A file without entries publishes an empty index.
\<close>

definition hydrate_publish ::
  "af_host \<Rightarrow> owner \<Rightarrow> nat \<Rightarrow> (string \<times> entry_data option) list \<Rightarrow> bg \<Rightarrow> bool \<times> bg" where
  "hydrate_publish h ow revision rs s =
     (case hydrate_loop h rs ([], []) of
        (m, hosts) \<Rightarrow>
          (case publishIndex ow revision m s of
             (False, s') \<Rightarrow> (False, s')
           | (True, s') \<Rightarrow> (True, s'\<lparr>knownHostnames := know hosts (knownHostnames s')\<rparr>)))"

definition hydrate_settled :: "owner \<Rightarrow> nat \<Rightarrow> bg \<Rightarrow> bg" where
  "hydrate_settled ow revision s =
     (if hydrationInFlight s = Some (ow, revision) then s\<lparr>hydrationInFlight := None\<rparr> else s)"

subsection \<open>What can happen at an await\<close>

text \<open>
  Every atomic step of the rest of the background: the transitions of \<open>session.ts\<close>, changes of
  the vault keys (which may also clear the active id), the steps of index builds, views pushing
  or clearing the index, and the corner prompt's and passkey store's edits of the live index.
  \<open>LoginAdded v l\<close> is \<open>addLoginEntry\<close> after a save into vault \<open>v\<close>; the code does not look at
  \<open>v\<close>.
\<close>

datatype bg_event =
    LockBegins string
  | LockEnds
  | SessionAdvances string
  | ActiveVault "string option" string
  | VeksChange vek_state
  | IndexCleared
  | IndexRead
  | HydrationStarts
  | HydrationPublishes owner nat "(string \<times> entry_data option) list"
  | HydrationSettles owner nat
  | IndexSet sender "index_entry list" capability
  | LoginAdded string login_index
  | CredentialsUpdated string string string

definition validSessionCapability :: "capability \<Rightarrow> bool" where
  "validSessionCapability cap \<longleftrightarrow>
     0 < length (cp_vaultId cap) \<and> length (cp_vaultId cap) \<le> 256 \<and>
     0 < length (cp_token cap) \<and> length (cp_token cap) \<le> 256"

datatype 'a reply = Reply 'a | Refused string

text \<open>\<open>autofillSetIndex\<close> up to its first await; the owner it captured is what it re-checks later.\<close>

definition set_index_now ::
  "af_host \<Rightarrow> sender \<Rightarrow> index_entry list \<Rightarrow> capability \<Rightarrow> bg \<Rightarrow> owner reply \<times> bg" where
  "set_index_now h sd es cap s =
     (if \<not> isExtensionSender h sd then (Refused ''forbidden'', s)
      else if \<not> validSessionCapability cap then (Refused ''invalid_request'', s)
      else if \<not> autofillSessionCapabilityIsCurrent cap s then (Refused ''unavailable'', s)
      else (case autofillSessionOwner s of
              None \<Rightarrow> (Refused ''unavailable'', s)
            | Some ow \<Rightarrow>
                if ow_vaultId ow \<noteq> cp_vaultId cap \<or> ow_token ow \<noteq> cp_token cap
                then (Refused ''unavailable'', s)
                else (Reply ow,
                      s\<lparr>knownHostnames :=
                          fold (\<lambda>e known. case e of LoginIndex l \<Rightarrow> know (li_hostnames l) known | _ \<Rightarrow> known) es [],
                        cacheRevision := Suc (cacheRevision s),
                        autofillIndex := Some (ow, map_from_pairs (map (\<lambda>e. (index_id e, e)) es))\<rparr>)))"

fun bg_step :: "af_host \<Rightarrow> bg_event \<Rightarrow> bg \<Rightarrow> bg" where
  "bg_step h (LockBegins tok) s = beginAutofillLockTransition tok s"
| "bg_step h LockEnds s = endAutofillLockTransition s"
| "bg_step h (SessionAdvances tok) s = advanceAutofillSession tok s"
| "bg_step h (ActiveVault v tok) s = snd (applyActiveVaultTransition v tok s)"
| "bg_step h (VeksChange w) s =
     (if activeId w = activeId (bg_veks s) \<or> activeId w = None then s\<lparr>bg_veks := w\<rparr> else s)"
| "bg_step h IndexCleared s = clearIndex s"
| "bg_step h IndexRead s = snd (currentIndex s)"
| "bg_step h HydrationStarts s = snd (hydrateAutofillIndexFromDisk s)"
| "bg_step h (HydrationPublishes ow rv rs) s = snd (hydrate_publish h ow rv rs s)"
| "bg_step h (HydrationSettles ow rv) s = hydrate_settled ow rv s"
| "bg_step h (IndexSet sd es cap) s = snd (set_index_now h sd es cap s)"
| "bg_step h (LoginAdded v l) s = addLoginEntry l s"
| "bg_step h (CredentialsUpdated i u p) s = updateLoginCredentials i u p s"

fun bg_run :: "af_host \<Rightarrow> bg_event list \<Rightarrow> bg \<Rightarrow> bg" where
  "bg_run h [] s = s"
| "bg_run h (e # es) s = bg_run h es (bg_step h e s)"

subsection \<open>The handlers\<close>

text \<open>A field of an untrusted message: absent, a boolean, or something else.\<close>

datatype js_flag = Absent | Flag bool | Junk

definition validQueryFlags :: "js_flag \<Rightarrow> js_flag \<Rightarrow> js_flag \<Rightarrow> bool" where
  "validQueryFlags a b c \<longleftrightarrow> a \<noteq> Junk \<and> b \<noteq> Junk \<and> c \<noteq> Junk"

record select_payload =
  sp_entryId :: "string option"
  sp_isAuto :: js_flag
  sp_otpOnly :: js_flag

definition validSelectPayload :: "select_payload \<Rightarrow> bool" where
  "validSelectPayload p \<longleftrightarrow>
     (case sp_entryId p of None \<Rightarrow> False | Some i \<Rightarrow> 0 < length i \<and> length i \<le> 256) \<and>
     sp_isAuto p \<noteq> Junk \<and> sp_otpOnly p \<noteq> Junk"

record fill_reply =
  fr_payload :: fill_payload
  fr_isAuto :: bool
  fr_otpOnly :: bool
  fr_sessionGeneration :: nat

text \<open>Awaits: the autofill switch, the index build, the auto-lock alarm.\<close>

definition autofillSelect ::
  "af_host \<Rightarrow> select_payload \<Rightarrow> sender \<Rightarrow> bool \<Rightarrow> bg_event list \<Rightarrow> bg_event list \<Rightarrow> bg_event list \<Rightarrow> bg \<Rightarrow>
   fill_reply reply \<times> bg" where
  "autofillSelect h p sd enabled es1 es2 es3 s =
     (if \<not> validSelectPayload p then (Refused ''invalid_request'', s)
      else (case pageSenderHostname h sd of
              None \<Rightarrow> (Refused ''forbidden'', s)
            | Some hostname \<Rightarrow>
                let g = autofillSessionGeneration s
                in if \<not> autofillSessionIsCurrent g s then (Refused ''unavailable'', s)
                   else
                     let s1 = bg_run h es1 s
                     in if \<not> enabled then (Refused ''unavailable'', s1)
                        else
                          let s2 = bg_run h es2 (snd (hydrateAutofillIndexFromDisk s1));
                              s3 = bg_run h es3 s2;
                              i = (case sp_entryId p of None \<Rightarrow> [] | Some i \<Rightarrow> i)
                          in if \<not> autofillSessionIsCurrent g s3 then (Refused ''unavailable'', s3)
                             else (case authorizeFill h i hostname s3 of
                                     (False, s4) \<Rightarrow> (Refused ''unavailable'', s4)
                                   | (True, s4) \<Rightarrow>
                                       (case fetchFill h i s4 of
                                          (None, s5) \<Rightarrow> (Refused ''unavailable'', s5)
                                        | (Some payload, s5) \<Rightarrow>
                                            (Reply \<lparr>fr_payload = payload, fr_isAuto = (sp_isAuto p = Flag True),
                                                    fr_otpOnly = (sp_otpOnly p = Flag True),
                                                    fr_sessionGeneration = g\<rparr>, s5)))))"

text \<open>
  Awaits: the switch, the index build, the password suggestion (\<open>generated\<close>, \<open>None\<close> when it
  throws), the alias configuration (likewise), the auto-lock alarm.
\<close>

definition autofillQuery ::
  "af_host \<Rightarrow> js_flag \<Rightarrow> js_flag \<Rightarrow> js_flag \<Rightarrow> sender \<Rightarrow> bool \<Rightarrow> string option \<Rightarrow> bool option \<Rightarrow>
   bg_event list \<Rightarrow> bg_event list \<Rightarrow> bg_event list \<Rightarrow> bg_event list \<Rightarrow> bg_event list \<Rightarrow> bg \<Rightarrow>
   query_result reply \<times> bg" where
  "autofillQuery h fLogin fCard fOtp sd enabled generated alias es1 es2 es3 es4 es5 s =
     (if \<not> validQueryFlags fLogin fCard fOtp then (Refused ''invalid_request'', s)
      else (case pageSenderHostname h sd of
              None \<Rightarrow> (Refused ''forbidden'', s)
            | Some hostname \<Rightarrow>
                let g = autofillSessionGeneration s;
                    s1 = bg_run h es1 s
                in if \<not> enabled then (Reply disabledResult, s1)
                   else
                     let s2 = bg_run h es2 (snd (hydrateAutofillIndexFromDisk s1));
                         hasLogin = (fLogin \<noteq> Flag False)
                     in (case queryResult h hostname hasLogin (fCard = Flag True) (fOtp = Flag True) s2 of
                           (r, s3) \<Rightarrow>
                             let s4 = (if hasLogin then bg_run h es3 s3 else s3)
                             in if hasLogin \<and> generated = None then (Refused ''unavailable'', s4)
                                else
                                  let s5 = (if hasLogin then bg_run h es4 s4 else s4)
                                  in if hasLogin \<and> alias = None then (Refused ''unavailable'', s5)
                                     else
                                       let s6 = (if qr_locked r then s5 else bg_run h es5 s5)
                                       in if \<not> autofillSessionIsStable g s6 then (Refused ''unavailable'', s6)
                                          else (Reply (if hasLogin then r\<lparr>qr_generated := generated, qr_aliasReady := alias\<rparr>
                                                       else r), s6))))"

text \<open>The extension's own views. Awaits: the index build, the auto-lock alarm.\<close>

definition autofillFind ::
  "af_host \<Rightarrow> string \<Rightarrow> js_flag \<Rightarrow> js_flag \<Rightarrow> js_flag \<Rightarrow> sender \<Rightarrow> bg_event list \<Rightarrow> bg_event list \<Rightarrow> bg \<Rightarrow>
   query_result reply \<times> bg" where
  "autofillFind h hostname fLogin fCard fOtp sd es1 es2 s =
     (let ask = queryResult h hostname (fLogin \<noteq> Flag False) (fCard = Flag True) (fOtp = Flag True)
      in if \<not> isExtensionSender h sd then (Refused ''forbidden'', s)
         else (case autofillSessionOwner s of
                 None \<Rightarrow>
                   if vaultLocked s then (case ask s of (r, s') \<Rightarrow> (Reply r, s'))
                   else (Refused ''unavailable'', s)
               | Some ow \<Rightarrow>
                   let s1 = bg_run h es1 (snd (hydrateAutofillIndexFromDisk s))
                   in if \<not> autofillSessionOwnerIsCurrent ow s1 then (Refused ''unavailable'', s1)
                      else (case ask s1 of
                              (r, s2) \<Rightarrow>
                                if qr_locked r then (Reply r, s2)
                                else
                                  let s3 = bg_run h es2 s2
                                  in if \<not> autofillSessionOwnerIsCurrent ow s3 then (Refused ''unavailable'', s3)
                                     else (case ask s3 of (r', s4) \<Rightarrow> (Reply r', s4)))))"

definition autofillFetch ::
  "af_host \<Rightarrow> string \<Rightarrow> sender \<Rightarrow> bg_event list \<Rightarrow> bg_event list \<Rightarrow> bg \<Rightarrow> fill_payload reply \<times> bg" where
  "autofillFetch h entryId sd es1 es2 s =
     (if \<not> isExtensionSender h sd then (Refused ''forbidden'', s)
      else (case autofillSessionOwner s of
              None \<Rightarrow> (Refused ''unavailable'', s)
            | Some ow \<Rightarrow>
                let s1 = bg_run h es1 (snd (hydrateAutofillIndexFromDisk s));
                    s2 = bg_run h es2 s1
                in if \<not> autofillSessionOwnerIsCurrent ow s2 then (Refused ''unavailable'', s2)
                   else (case fetchFill h entryId s2 of
                           (None, s3) \<Rightarrow> (Refused (''entry not found: '' @ entryId), s3)
                         | (Some payload, s3) \<Rightarrow> (Reply payload, s3))))"

text \<open>Awaits: persisting the host names, the auto-lock alarm.\<close>

definition autofillSetIndex ::
  "af_host \<Rightarrow> index_entry list \<Rightarrow> capability \<Rightarrow> sender \<Rightarrow> bg_event list \<Rightarrow> bg_event list \<Rightarrow> bg \<Rightarrow> unit reply \<times> bg" where
  "autofillSetIndex h es cap sd es1 es2 s =
     (case set_index_now h sd es cap s of
        (Refused e, s') \<Rightarrow> (Refused e, s')
      | (Reply ow, s') \<Rightarrow>
          let s2 = bg_run h es2 (bg_run h es1 s')
          in if autofillSessionOwnerIsCurrent ow s2 \<and> autofillSessionCapabilityIsCurrent cap s2
             then (Reply (), s2) else (Refused ''unavailable'', s2))"

text \<open>A message without a payload is the locked view's clear.\<close>

definition autofillClearIndex :: "af_host \<Rightarrow> capability option \<Rightarrow> sender \<Rightarrow> bg \<Rightarrow> unit reply \<times> bg" where
  "autofillClearIndex h payload sd s =
     (if \<not> isExtensionSender h sd then (Refused ''forbidden'', s)
      else (case payload of
              None \<Rightarrow> if vaultLocked s then (Reply (), clearIndex s) else (Refused ''invalid_request'', s)
            | Some cap \<Rightarrow>
                if \<not> validSessionCapability cap then (Refused ''invalid_request'', s)
                else if \<not> autofillSessionCapabilityIsCurrent cap s then (Refused ''unavailable'', s)
                else (Reply (), clearIndex s)))"

text \<open>\<open>n\<close> is the message's generation if it is a safe integer.\<close>

definition autofillRevalidateSubmit :: "af_host \<Rightarrow> int option \<Rightarrow> sender \<Rightarrow> bg \<Rightarrow> nat reply" where
  "autofillRevalidateSubmit h n sd s =
     (if pageSenderHostname h sd = None then Refused ''forbidden''
      else (case n of
              None \<Rightarrow> Refused ''invalid_request''
            | Some g \<Rightarrow>
                if g < 0 then Refused ''invalid_request''
                else if autofillSessionIsCurrent (nat g) s then Reply (nat g) else Refused ''unavailable''))"

subsection \<open>Session transitions\<close>

text \<open>
  The events that begin another session: a lock, an unlock or key replacement, a change of
  the active vault.
\<close>

fun transition :: "bg_event \<Rightarrow> bg \<Rightarrow> bool" where
  "transition (LockBegins _) s = True"
| "transition (SessionAdvances _) s = True"
| "transition (ActiveVault v _) s = (v \<noteq> getActiveVaultId s)"
| "transition _ s = False"

fun undisturbed :: "af_host \<Rightarrow> bg_event list \<Rightarrow> bg \<Rightarrow> bool" where
  "undisturbed h [] s = True"
| "undisturbed h (e # es) s = (\<not> transition e s \<and> undisturbed h es (bg_step h e s))"

lemma currentIndex_Some:
  "currentIndex s = (Some m, s') \<Longrightarrow>
   s' = s \<and> (\<exists>ow. autofillSessionOwner s = Some ow \<and> autofillIndex s = Some (ow, m))"
  by (auto simp: currentIndex_def sameOwner_def split: option.splits prod.splits if_splits)

lemma currentIndex_frame:
  "currentIndex s = (r, s') \<Longrightarrow>
   bg_veks s' = bg_veks s \<and> autofillSessionGeneration s' = autofillSessionGeneration s \<and>
   lockTransitions s' = lockTransitions s \<and> autofillSessionToken s' = autofillSessionToken s \<and>
   knownHostnames s' = knownHostnames s \<and>
   (autofillIndex s' = autofillIndex s \<or> autofillIndex s' = None)"
  by (auto simp: currentIndex_def split: option.splits prod.splits if_splits)

lemma owner_cong:
  "bg_veks s' = bg_veks s \<Longrightarrow> autofillSessionGeneration s' = autofillSessionGeneration s \<Longrightarrow>
   lockTransitions s' = lockTransitions s \<Longrightarrow> autofillSessionToken s' = autofillSessionToken s \<Longrightarrow>
   autofillSessionOwner s' = autofillSessionOwner s"
  by (simp add: autofillSessionOwner_def getActiveVaultId_def autofillSessionIsCurrent_def
      autofillSessionIsStable_def vaultLocked_def split: option.split)

lemma currentIndex_owner: "currentIndex s = (r, s') \<Longrightarrow> autofillSessionOwner s' = autofillSessionOwner s"
  using currentIndex_frame [of s r s'] owner_cong by blast

lemma hydrate_start_frame:
  "hydrateAutofillIndexFromDisk s = (r, s') \<Longrightarrow>
   bg_veks s' = bg_veks s \<and> autofillSessionGeneration s' = autofillSessionGeneration s \<and>
   (autofillIndex s' = autofillIndex s \<or> autofillIndex s' = None)"
  using currentIndex_frame [of s "fst (currentIndex s)" "snd (currentIndex s)"]
  by (auto simp: hydrateAutofillIndexFromDisk_def split: option.splits prod.splits if_splits)

lemma set_index_frame:
  "set_index_now h sd es cap s = (r, s') \<Longrightarrow>
   bg_veks s' = bg_veks s \<and> autofillSessionGeneration s' = autofillSessionGeneration s"
  by (auto simp: set_index_now_def split: option.splits if_splits)

lemma publish_frame:
  "hydrate_publish h ow rv rs s = (r, s') \<Longrightarrow>
   bg_veks s' = bg_veks s \<and> autofillSessionGeneration s' = autofillSessionGeneration s"
  by (auto simp: hydrate_publish_def publishIndex_def split: prod.splits if_splits bool.splits)

lemma edits_frame:
  "autofillSessionGeneration (addLoginEntry l s) = autofillSessionGeneration s"
  "autofillSessionGeneration (updateLoginCredentials i u p s) = autofillSessionGeneration s"
  using currentIndex_frame [of s "fst (currentIndex s)" "snd (currentIndex s)"]
  by (auto simp: addLoginEntry_def updateLoginCredentials_def replace_entries_def
      split: option.splits prod.splits index_entry.splits)

lemma bg_step_generation:
  "autofillSessionGeneration (bg_step h e s) =
     (if transition e s then Suc (autofillSessionGeneration s) else autofillSessionGeneration s)"
proof (cases e)
  case IndexRead
  then show ?thesis
    using currentIndex_frame [of s "fst (currentIndex s)" "snd (currentIndex s)"] by simp
next
  case HydrationStarts
  then show ?thesis
    using hydrate_start_frame [of s "fst (hydrateAutofillIndexFromDisk s)" "snd (hydrateAutofillIndexFromDisk s)"] by simp
next
  case (HydrationPublishes ow rv rs)
  then show ?thesis
    using publish_frame [of h ow rv rs s "fst (hydrate_publish h ow rv rs s)" "snd (hydrate_publish h ow rv rs s)"] by simp
next
  case (IndexSet sd es cap)
  then show ?thesis
    using set_index_frame [of h sd es cap s "fst (set_index_now h sd es cap s)" "snd (set_index_now h sd es cap s)"] by simp
qed (auto simp: beginAutofillLockTransition_def advanceAutofillSession_def endAutofillLockTransition_def
    applyActiveVaultTransition_def applyActiveVaultId_def getActiveVaultId_def clearIndex_def
    hydrate_settled_def edits_frame split: prod.splits)

lemma bg_run_generation:
  "autofillSessionGeneration s \<le> autofillSessionGeneration (bg_run h es s) \<and>
   (autofillSessionGeneration (bg_run h es s) = autofillSessionGeneration s \<longleftrightarrow> undisturbed h es s)"
proof (induction es arbitrary: s)
  case (Cons e es)
  from Cons [of "bg_step h e s"] show ?case
    by (auto simp: bg_step_generation split: if_splits)
qed simp

lemma bg_run_append: "bg_run h (es @ fs) s = bg_run h fs (bg_run h es s)"
  by (induction es arbitrary: s) auto

lemma undisturbed_append: "undisturbed h (es @ fs) s \<longleftrightarrow> undisturbed h es s \<and> undisturbed h fs (bg_run h es s)"
  by (induction es arbitrary: s) auto

subsection \<open>Whose entries the index holds\<close>

text \<open>
  \<open>B v i\<close> says that vault \<open>v\<close> holds an entry with id \<open>i\<close>. The rest of the system is honest when
  decrypting the file of \<open>v\<close> yields entries of \<open>v\<close>, a view that holds a capability for \<open>v\<close> pushes
  entries of \<open>v\<close>, and a background save reports an entry it saved into the vault that is active
  at that moment.
\<close>

fun honest :: "(string \<Rightarrow> string \<Rightarrow> bool) \<Rightarrow> bg_event \<Rightarrow> bg \<Rightarrow> bool" where
  "honest B (HydrationPublishes ow rv rs) s =
     list_all (\<lambda>(i, d). case d of None \<Rightarrow> True | Some _ \<Rightarrow> B (ow_vaultId ow) i) rs"
| "honest B (IndexSet sd es cap) s = list_all (\<lambda>e. B (cp_vaultId cap) (index_id e)) es"
| "honest B (LoginAdded v l) s = (B v (li_id l) \<and> getActiveVaultId s = Some v)"
| "honest B _ s = True"

fun honest_run :: "(string \<Rightarrow> string \<Rightarrow> bool) \<Rightarrow> af_host \<Rightarrow> bg_event list \<Rightarrow> bg \<Rightarrow> bool" where
  "honest_run B h [] s = True"
| "honest_run B h (e # es) s = (honest B e s \<and> honest_run B h es (bg_step h e s))"

definition owned :: "(string \<Rightarrow> string \<Rightarrow> bool) \<Rightarrow> bg \<Rightarrow> bool" where
  "owned B s \<longleftrightarrow>
     (case autofillIndex s of None \<Rightarrow> True | Some (ow, m) \<Rightarrow> dom (map_of m) \<subseteq> {i. B (ow_vaultId ow) i})"

lemma owned_cong: "autofillIndex s' = autofillIndex s \<or> autofillIndex s' = None \<Longrightarrow> owned B s \<Longrightarrow> owned B s'"
  by (auto simp: owned_def)

lemma hydrate_loop_dom:
  "dom (map_of (fst (hydrate_loop h rs acc))) \<subseteq> dom (map_of (fst acc)) \<union> {i. \<exists>d. (i, Some d) \<in> set rs}"
  by (induction h rs acc rule: hydrate_loop.induct)
    (fastforce simp: jsmap_simps split: option.splits index_entry.splits)+

lemma owner_active: "autofillSessionOwner s = Some ow \<Longrightarrow> getActiveVaultId s = Some (ow_vaultId ow)"
  by (auto simp: autofillSessionOwner_def split: option.splits if_splits)

lemma owned_publish:
  assumes "owned B s" "honest B (HydrationPublishes ow rv rs) s"
  shows "owned B (snd (hydrate_publish h ow rv rs s))"
proof -
  obtain m hosts where l: "hydrate_loop h rs ([], []) = (m, hosts)" by fastforce
  then have "dom (map_of m) \<subseteq> {i. B (ow_vaultId ow) i}"
    using hydrate_loop_dom [of h rs "([], [])"] assms(2) by (fastforce simp: list_all_iff)
  then show ?thesis
    using assms(1) by (auto simp: hydrate_publish_def publishIndex_def l owned_def)
qed

lemma owned_set:
  assumes "owned B s" "honest B (IndexSet sd es cap) s"
  shows "owned B (snd (set_index_now h sd es cap s))"
proof -
  have "dom (map_of (map_from_pairs (map (\<lambda>e. (index_id e, e)) es))) \<subseteq> {i. B (cp_vaultId cap) i}"
    using assms(2) by (auto simp: jsmap_simps list_all_iff dom_map_of_conv_image_fst)
  then show ?thesis
    using assms(1) unfolding owned_def set_index_now_def
    by (cases "autofillIndex s") (simp_all split: option.split prod.splits)
qed

lemma owned_replace:
  assumes "owned B s" "currentIndex s = (Some m, s')" "dom (map_of m') \<subseteq> dom (map_of m) \<union> X"
    and "\<And>i v. i \<in> X \<Longrightarrow> getActiveVaultId s = Some v \<Longrightarrow> B v i"
  shows "owned B (replace_entries m' s')"
proof -
  obtain ow where "s' = s" "autofillIndex s = Some (ow, m)" "getActiveVaultId s = Some (ow_vaultId ow)"
    using currentIndex_Some [OF assms(2)] owner_active by blast
  then show ?thesis
    using assms by (fastforce simp: owned_def replace_entries_def)
qed

lemma owned_step:
  assumes "owned B s" "honest B e s"
  shows "owned B (bg_step h e s)"
proof (cases e)
  case IndexRead
  then show ?thesis
    using currentIndex_frame [of s "fst (currentIndex s)" "snd (currentIndex s)"] owned_cong assms(1) by auto
next
  case HydrationStarts
  then show ?thesis
    using hydrate_start_frame [of s "fst (hydrateAutofillIndexFromDisk s)" "snd (hydrateAutofillIndexFromDisk s)"]
      owned_cong assms(1) by auto
next
  case (HydrationPublishes ow rv rs)
  then show ?thesis using owned_publish assms by simp
next
  case (IndexSet sd es cap)
  then show ?thesis using owned_set assms by simp
next
  case (LoginAdded v l)
  obtain r s' where c: "currentIndex s = (r, s')" by fastforce
  show ?thesis
  proof (cases r)
    case None
    then show ?thesis
      using LoginAdded c currentIndex_frame [OF c] owned_cong assms(1) by (auto simp: addLoginEntry_def)
  next
    case (Some m)
    have "owned B (replace_entries (AList.update (li_id l) (LoginIndex l) m) s')"
      using owned_replace [OF assms(1), of m s' "AList.update (li_id l) (LoginIndex l) m" "{li_id l}"] c Some assms(2) LoginAdded
      by (auto simp: jsmap_simps)
    then show ?thesis
      using LoginAdded c Some by (auto simp: addLoginEntry_def owned_def)
  qed
next
  case (CredentialsUpdated i u p)
  obtain r s' where c: "currentIndex s = (r, s')" by fastforce
  then have same: "owned B s'"
    using currentIndex_frame [OF c] owned_cong assms(1) by auto
  show ?thesis
  proof (cases r)
    case (Some m)
    have "owned B (replace_entries (AList.update i (LoginIndex l) m) s')" if "map_of m i \<noteq> None" for l
      using owned_replace [OF assms(1), of m s' "AList.update i (LoginIndex l) m" "{}"] c Some that
      by (auto simp: jsmap_simps)
    then show ?thesis
      using CredentialsUpdated c Some same
      by (auto simp: updateLoginCredentials_def split: option.split index_entry.split)
  qed (use CredentialsUpdated c same in \<open>auto simp: updateLoginCredentials_def\<close>)
qed (rule owned_cong [OF _ assms(1)],
    simp add: beginAutofillLockTransition_def advanceAutofillSession_def endAutofillLockTransition_def
      applyActiveVaultTransition_def clearIndex_def hydrate_settled_def split: prod.splits bool.splits)+

lemma owned_run: "owned B s \<Longrightarrow> honest_run B h es s \<Longrightarrow> owned B (bg_run h es s)"
  by (induction es arbitrary: s) (auto intro: owned_step)

subsection \<open>What a page can get\<close>

definition offered :: "af_host \<Rightarrow> string \<Rightarrow> index_entry \<Rightarrow> bool" where
  "offered h hostname e = (case e of LoginIndex l \<Rightarrow> hostnameMatches h l hostname | CardIndex _ \<Rightarrow> True)"

text \<open>\<open>e\<close> is in the index of the session that is current in \<open>s\<close>.\<close>

definition live_entry :: "bg \<Rightarrow> string \<Rightarrow> index_entry \<Rightarrow> bool" where
  "live_entry s i e \<longleftrightarrow>
     (\<exists>ow m. autofillIndex s = Some (ow, m) \<and> autofillSessionOwner s = Some ow \<and> map_of m i = Some e)"

lemma getIndexEntry_Some:
  "getIndexEntry i s = (Some e, s') \<Longrightarrow> s' = s \<and> live_entry s i e"
  by (auto simp: getIndexEntry_def live_entry_def split: prod.splits option.splits dest: currentIndex_Some)

lemma live_entry_unlocked:
  "live_entry s i e \<Longrightarrow> \<not> vaultLocked s \<and> lockTransitions s = 0 \<and> getActiveVaultId s \<noteq> None"
  by (auto simp: live_entry_def autofillSessionOwner_def autofillSessionIsCurrent_def autofillSessionIsStable_def
      split: option.splits if_splits)

lemma currentIndex_None: "currentIndex s = (None, s') \<Longrightarrow> autofillIndex s' = None"
  by (auto simp: currentIndex_def split: option.splits prod.splits if_splits)

lemma live_getIndexEntry: "live_entry s i e \<Longrightarrow> getIndexEntry i s = (Some e, s)"
  by (auto simp: live_entry_def getIndexEntry_def currentIndex_def sameOwner_def)

lemma authorize_live:
  assumes "authorizeFill h i hostname s = (True, s')" "live_entry s' i e"
  shows "s' = s \<and> offered h hostname e"
proof -
  obtain r t where c: "currentIndex s = (r, t)" by fastforce
  then have t: "s' = t"
    using assms(1) by (auto simp: authorizeFill_def getIndexEntry_def split: option.splits prod.splits index_entry.splits)
  have "s' = s"
  proof (cases r)
    case None
    then show ?thesis
      using c t assms(2) currentIndex_None [of s t] by (auto simp: live_entry_def)
  next
    case (Some m)
    then show ?thesis
      using c t currentIndex_Some [of s m t] by blast
  qed
  with assms show ?thesis
    using live_getIndexEntry [of s i e]
    by (auto simp: authorizeFill_def offered_def split: index_entry.splits)
qed

lemma fill_checked:
  assumes "authorizeFill h i hostname s3 = (True, s4)" "fetchFill h i s4 = (Some payload, s5)"
  shows "\<exists>e. s4 = s3 \<and> s5 = s3 \<and> live_entry s3 i e \<and> offered h hostname e \<and> payload = payload_of h e"
proof -
  obtain e where e: "getIndexEntry i s4 = (Some e, s5)" "payload = payload_of h e"
    using assms(2) by (auto simp: fetchFill_def split: prod.splits)
  then have "s5 = s4" "live_entry s4 i e"
    using getIndexEntry_Some by blast+
  with e authorize_live [OF assms(1)] show ?thesis by blast
qed

lemma select_cases:
  assumes "autofillSelect h p sd enabled es1 es2 es3 s = (Reply r, s')"
  shows "\<exists>i hostname e.
    sp_entryId p = Some i \<and> pageSenderHostname h sd = Some hostname \<and> enabled \<and>
    s' = bg_run h (es1 @ HydrationStarts # es2 @ es3) s \<and>
    autofillSessionIsCurrent (autofillSessionGeneration s) s' \<and>
    live_entry s' i e \<and> offered h hostname e \<and> fr_payload r = payload_of h e"
proof -
  let ?s3 = "bg_run h es3 (bg_run h es2 (snd (hydrateAutofillIndexFromDisk (bg_run h es1 s))))"
  obtain i hostname s4 payload where
    i: "sp_entryId p = Some i" "pageSenderHostname h sd = Some hostname" "enabled" and
    g: "autofillSessionIsCurrent (autofillSessionGeneration s) ?s3" and
    fill: "authorizeFill h i hostname ?s3 = (True, s4)" "fetchFill h i s4 = (Some payload, s')" and
    r: "fr_payload r = payload"
    using assms
    by (auto simp: autofillSelect_def Let_def validSelectPayload_def
        split: if_splits option.splits prod.splits bool.splits)
  have "?s3 = bg_run h (es1 @ HydrationStarts # es2 @ es3) s"
    by (simp add: bg_run_append)
  with fill_checked [OF fill] i g r show ?thesis by auto
qed

lemma queryResult_live:
  assumes "queryResult h hostname a b c s = (r, s')"
  shows "qr_locked r \<and> qr_logins r = [] \<and> qr_cards r = [] \<and> qr_otps r = [] \<or>
    (\<exists>ow m. s' = s \<and> autofillIndex s = Some (ow, m) \<and> autofillSessionOwner s = Some ow \<and> \<not> vaultLocked s \<and>
       \<not> qr_locked r \<and>
       qr_logins r = (if a then map login_summary (matching_logins h hostname (map snd m)) else []) \<and>
       qr_cards r = (if b then map card_summary (card_entries (map snd m)) else []))"
  using assms
  by (auto simp: queryResult_def Let_def split: prod.splits option.splits bool.splits if_splits dest: currentIndex_Some)

text \<open>The events of a query, in the order its awaits run.\<close>

definition query_events ::
  "js_flag \<Rightarrow> bg_event list \<Rightarrow> bg_event list \<Rightarrow> bg_event list \<Rightarrow> bg_event list \<Rightarrow> bg_event list \<Rightarrow> bg_event list" where
  "query_events fLogin es1 es2 es3 es4 es5 =
     es1 @ HydrationStarts # es2 @ (if fLogin \<noteq> Flag False then es3 @ es4 else []) @ es5"

text \<open>Extension pages drive the privileged handlers and no page does; pages alone get the page handlers.\<close>

lemma senders_are_separated:
  "if isExtensionSender h sd
   then fst (autofillSelect h p sd enabled es1 es2 es3 s) \<in> {Refused ''forbidden'', Refused ''invalid_request''} \<and>
     fst (autofillQuery h a b c sd enabled gen alias es1 es2 es3 es4 es5 s) \<in> {Refused ''forbidden'', Refused ''invalid_request''}
   else autofillFind h host a b c sd es1 es2 s = (Refused ''forbidden'', s) \<and>
     autofillFetch h i sd es1 es2 s = (Refused ''forbidden'', s) \<and>
     autofillSetIndex h es cap sd es1 es2 s = (Refused ''forbidden'', s) \<and>
     autofillClearIndex h pl sd s = (Refused ''forbidden'', s)"
  by (simp add: autofillSelect_def autofillQuery_def autofillFind_def autofillFetch_def autofillSetIndex_def
      set_index_now_def autofillClearIndex_def pageSenderHostname_def)

lemma dedupe_loop_eq:
  "dedupe_loop h hostname u p es acc =
     (let ls = matching_logins h hostname es
      in if list_ex (\<lambda>l. li_username l = u \<and> li_password l = p) ls then None else Some (acc @ ls))"
  by (induction es arbitrary: acc rule: matching_logins.induct [of _ h hostname]) (auto simp: Let_def)

subsection \<open>A concrete broker\<close>

definition sample_af_host :: af_host where
  "sample_af_host = \<lparr>getDomain = (\<lambda>_. None), toLowerCase = (\<lambda>s. s), parseUrl = (\<lambda>s. Some (''https:'', s)),
     totpCode = (\<lambda>_. None), EXTENSION_ORIGIN = ''chrome-extension://x'', runtime_id = ''x''\<rparr>"

definition sample_page :: sender where
  "sample_page = \<lparr>sd_origin = Some ''a.com'', sd_url = None, sd_tab_id = Some 1, sd_tab_url = None,
     sd_has_tab = True, sd_id = None\<rparr>"

definition sample_bg :: bg where
  "sample_bg = \<lparr>bg_veks = fresh_vek_state\<lparr>veks := [(''v'', ''k''), (''w'', ''j'')], activeId := Some ''v''\<rparr>,
     autofillSessionGeneration = 3, lockTransitions = 0, autofillSessionToken = ''t'', autofillIndex = None,
     cacheRevision = 0, hydrationInFlight = None, knownHostnames = []\<rparr>"

definition sample_owner :: owner where
  "sample_owner = \<lparr>ow_vaultId = ''v'', ow_generation = 3, ow_token = ''t''\<rparr>"

definition sample_login_data :: entry_data where
  "sample_login_data = \<lparr>en_name = ''A'', en_notes = None, en_customFields = None, en_createdAt = None,
     en_updatedAt = None, en_lastUsedAt = None, en_archivedAt = None, en_tags = None,
     en_body = Login \<lparr>lg_urls = [''a.com''], lg_username = ''u'', lg_password = ''p'', lg_totp = None, lg_breach = None,
       lg_autofillEnabled = None, lg_autoSubmit = None, lg_subdomainMatch = None, lg_passkeys = None,
       lg_passwordChangelog = None\<rparr>\<rparr>"

definition sample_built :: "bg_event list" where
  "sample_built = [HydrationPublishes sample_owner 0 [(''1'', Some sample_login_data)]]"

definition sample_select :: select_payload where
  "sample_select = \<lparr>sp_entryId = Some ''1'', sp_isAuto = Absent, sp_otpOnly = Absent\<rparr>"

definition sample_fill :: "fill_reply reply \<times> bg" where
  "sample_fill = autofillSelect sample_af_host sample_select sample_page True [IndexRead] sample_built [] sample_bg"

lemma sample_fill_reply:
  "fst sample_fill = Reply \<lparr>fr_payload = FillLogin ''u'' ''p'' None None None, fr_isAuto = False,
     fr_otpOnly = False, fr_sessionGeneration = 3\<rparr>"
  by code_simp

subsection \<open>Properties\<close>

text \<open>Property C7: a page is filled only inside one unlocked session and only with what its own host is
  offered. When \<open>autofillSelect\<close> answers with a credential, whatever ran during its awaits: the
  sender is a page with a verified host, no lock, unlock or change of vault began since the
  request arrived, the vault is unlocked at the moment of the answer, and the answer is the
  named entry of that session's index, which, for a login, matches the sender's host.\<close>

theorem fill_needs_session_and_host:
  assumes "autofillSelect h p sd enabled es1 es2 es3 s = (Reply r, s')"
  shows "undisturbed h (es1 @ HydrationStarts # es2 @ es3) s \<and> \<not> vaultLocked s' \<and> lockTransitions s' = 0 \<and>
    (\<exists>i hostname e. sp_entryId p = Some i \<and> pageSenderHostname h sd = Some hostname \<and>
       live_entry s' i e \<and> offered h hostname e \<and> fr_payload r = payload_of h e)"
proof -
  obtain i hostname e where c:
    "sp_entryId p = Some i" "pageSenderHostname h sd = Some hostname"
    "s' = bg_run h (es1 @ HydrationStarts # es2 @ es3) s"
    "autofillSessionIsCurrent (autofillSessionGeneration s) s'"
    "live_entry s' i e" "offered h hostname e" "fr_payload r = payload_of h e"
    using select_cases [OF assms] by blast
  have "undisturbed h (es1 @ HydrationStarts # es2 @ es3) s"
    using c(3,4) bg_run_generation [of s h "es1 @ HydrationStarts # es2 @ es3"]
    by (simp add: autofillSessionIsCurrent_def autofillSessionIsStable_def)
  moreover have "\<not> vaultLocked s' \<and> lockTransitions s' = 0"
    using live_entry_unlocked [OF c(5)] by blast
  ultimately show ?thesis
    using c(1,2,5-7) by auto
qed

theorem fill_needs_session_and_host_witness:
  "undisturbed sample_af_host ([IndexRead] @ HydrationStarts # sample_built @ []) sample_bg \<and>
   \<not> vaultLocked (snd sample_fill)"
  using fill_needs_session_and_host [of sample_af_host sample_select sample_page True "[IndexRead]" sample_built "[]"
      sample_bg "\<lparr>fr_payload = FillLogin ''u'' ''p'' None None None, fr_isAuto = False,
     fr_otpOnly = False, fr_sessionGeneration = 3\<rparr>" "snd sample_fill"] sample_fill_reply
  by (metis prod.collapse sample_fill_def)

text \<open>Credentials never cross vaults while the rest of the system is honest. From an empty
  index, through any events, what a page is filled with is an entry of the vault that is active
  at the moment of the answer.\<close>

lemma fill_stays_in_vault:
  assumes "autofillIndex s = None"
    and "honest_run B h (before @ es1 @ HydrationStarts # es2 @ es3) s"
    and "autofillSelect h p sd enabled es1 es2 es3 (bg_run h before s) = (Reply r, s')"
  shows "case (getActiveVaultId s', sp_entryId p) of (Some v, Some i) \<Rightarrow> B v i | _ \<Rightarrow> False"
proof -
  obtain i e where c: "sp_entryId p = Some i" "live_entry s' i e"
    "s' = bg_run h (es1 @ HydrationStarts # es2 @ es3) (bg_run h before s)"
    using select_cases [OF assms(3)] by blast
  have "owned B s'"
    using owned_run [OF _ assms(2)] assms(1) by (simp add: c(3) owned_def flip: bg_run_append)
  moreover obtain ow m where m: "autofillIndex s' = Some (ow, m)" "autofillSessionOwner s' = Some ow" "map_of m i = Some e"
    using c(2) by (auto simp: live_entry_def)
  ultimately have "B (ow_vaultId ow) i"
    by (auto simp: owned_def)
  then show ?thesis
    using owner_active [OF m(2)] by (simp add: c(1))
qed

text \<open>A page is told only what its own session and host allow. When \<open>autofillQuery\<close> lists
  anything, the sender is a page with a verified host and the switch is on, no lock, unlock or
  change of vault began between request and answer, and the logins are exactly those of the
  unlocked session's index that match the host; cards come from that index too.\<close>

lemma query_lists_session_matches:
  assumes "autofillQuery h fLogin fCard fOtp sd enabled generated alias es1 es2 es3 es4 es5 s = (Reply q, s')"
    and "qr_logins q \<noteq> [] \<or> qr_cards q \<noteq> [] \<or> qr_otps q \<noteq> []"
  shows "\<exists>hostname ow m t. pageSenderHostname h sd = Some hostname \<and> enabled \<and>
    undisturbed h (query_events fLogin es1 es2 es3 es4 es5) s \<and>
    t = bg_run h (es1 @ HydrationStarts # es2) s \<and> \<not> vaultLocked t \<and>
    autofillSessionOwner t = Some ow \<and> autofillIndex t = Some (ow, m) \<and>
    qr_logins q = (if fLogin \<noteq> Flag False then map login_summary (matching_logins h hostname (map snd m)) else []) \<and>
    qr_cards q = (if fCard = Flag True then map card_summary (card_entries (map snd m)) else [])"
proof -
  let ?t = "bg_run h es2 (snd (hydrateAutofillIndexFromDisk (bg_run h es1 s)))"
  have t: "?t = bg_run h (es1 @ HydrationStarts # es2) s"
    by (simp add: bg_run_append)
  obtain hostname where host: "pageSenderHostname h sd = Some hostname" and on: "enabled"
    using assms by (auto simp: autofillQuery_def Let_def disabledResult_def split: if_splits option.splits)
  obtain r u where q: "queryResult h hostname (fLogin \<noteq> Flag False) (fCard = Flag True) (fOtp = Flag True) ?t = (r, u)"
    by fastforce
  have parts: "qr_logins q = qr_logins r" "qr_cards q = qr_cards r" "qr_otps q = qr_otps r"
    using assms(1) host on q by (auto simp: autofillQuery_def Let_def split: if_splits)
  then obtain ow m where live: "u = ?t" "autofillIndex ?t = Some (ow, m)" "autofillSessionOwner ?t = Some ow"
    "\<not> vaultLocked ?t" "\<not> qr_locked r"
    "qr_logins r = (if fLogin \<noteq> Flag False then map login_summary (matching_logins h hostname (map snd m)) else [])"
    "qr_cards r = (if fCard = Flag True then map card_summary (card_entries (map snd m)) else [])"
    using queryResult_live [OF q] assms(2) by auto
  have s': "s' = bg_run h (query_events fLogin es1 es2 es3 es4 es5) s \<and>
      autofillSessionIsStable (autofillSessionGeneration s) s'"
    using assms(1) host on q live(1,5)
    by (auto simp: autofillQuery_def query_events_def bg_run_append Let_def split: if_splits)
  then have "undisturbed h (query_events fLogin es1 es2 es3 es4 es5) s"
    using bg_run_generation [of s h "query_events fLogin es1 es2 es3 es4 es5"]
    by (auto simp: autofillSessionIsStable_def)
  with host on live parts t show ?thesis by metis
qed

definition sample_answer :: "query_result reply \<times> bg" where
  "sample_answer = autofillQuery sample_af_host Absent Absent Absent sample_page True (Some ''g'') (Some False)
     [] sample_built [IndexRead] [] [] sample_bg"

text \<open>A captured credential is classified exactly. With an index at hand the prompt is
  suppressed iff some login of the host has exactly this user name and password; otherwise it
  offers a save iff no login of the host exists, and else an update of those logins, the ones
  with the captured user name first.\<close>

lemma capture_classification:
  "dedupeCaptureFn h (Some m) hostname u p =
     (let ls = matching_logins h hostname (map snd m)
      in if list_ex (\<lambda>l. li_username l = u \<and> li_password l = p) ls then ExactMatch
         else if ls = [] then SaveNew
         else UpdateOne (filter (\<lambda>l. li_username l = u) ls @ filter (\<lambda>l. li_username l \<noteq> u) ls))"
  by (auto simp: dedupeCaptureFn_def dedupe_loop_eq Let_def split: list.splits)

text \<open>A late background save joins whatever index is live. \<open>addLoginEntry\<close> does not check which
  vault the login was saved into: a login saved into vault \<open>w\<close> whose save finishes after the
  active vault became another one is filled from that other vault's session.\<close>

lemma late_save_joins_other_vault:
  assumes "autofillSessionOwner s = Some ow" "autofillIndex s = Some (ow, m)"
    and "pageSenderHostname h sd = Some hostname" "hostnameMatches h l hostname"
    and "0 < length (li_id l)" "length (li_id l) \<le> 256"
  shows "fst (autofillSelect h \<lparr>sp_entryId = Some (li_id l), sp_isAuto = Absent, sp_otpOnly = Absent\<rparr> sd True [] [] []
      (bg_step h (LoginAdded w l) s)) =
    Reply \<lparr>fr_payload = payload_of h (LoginIndex l), fr_isAuto = False, fr_otpOnly = False,
           fr_sessionGeneration = autofillSessionGeneration s\<rparr>"
proof -
  let ?s = "addLoginEntry l s"
  have s: "autofillSessionOwner ?s = Some ow" "autofillIndex ?s = Some (ow, AList.update (li_id l) (LoginIndex l) m)"
    "autofillSessionGeneration ?s = autofillSessionGeneration s"
    using assms(1,2) owner_cong [of ?s s]
    by (simp_all add: addLoginEntry_def currentIndex_def sameOwner_def replace_entries_def)
  then have "live_entry ?s (li_id l) (LoginIndex l)"
    by (simp add: live_entry_def jsmap_simps)
  note g = live_getIndexEntry [OF this]
  have "snd (hydrateAutofillIndexFromDisk ?s) = ?s"
    using s by (simp add: hydrateAutofillIndexFromDisk_def currentIndex_def sameOwner_def)
  moreover have "autofillSessionIsCurrent (autofillSessionGeneration ?s) ?s"
    using s(1) by (auto simp: autofillSessionOwner_def split: option.splits if_splits)
  ultimately show ?thesis
    using assms(3-6) s g
    by (simp add: autofillSelect_def validSelectPayload_def Let_def authorizeFill_def fetchFill_def)
qed

end
