(* ===== verification/Corner_Prompt.thy ===== *)
theory Corner_Prompt
  imports Autofill_Session Json
begin

text \<open>
  The save and update card of the extension (\<open>platform-extension/src/background/corner-prompt.ts\<close>): a page hands
  over a credential it captured, the background decides whether it is new, known or a change, parks it for its site
  and shows a card, and commits what the user answers, at once or after an unlock.

  The session, the index and the classification are those of \<open>Autofill_Session\<close>. A vault's file is the list of its
  decrypted entries; sealing them is \<open>reencryptOuterWithEntryChange\<close> of \<open>Entries_Blob\<close>, and \<open>writes\<close> says whether
  a commit's crypto and write went through. Random ids and what a rebuild of the index decrypts are arguments.
\<close>

record capture =
  cp_promptId :: string
  cp_etld1 :: string
  cp_hostname :: string
  cp_username :: string
  cp_password :: string
  cp_capturedAt :: nat
  cp_newLogin :: bool

datatype corner_intent = IntentSave | IntentUpdate

record handoff =
  ho_intent :: corner_intent
  ho_capture :: capture
  ho_chosenEntryId :: "string option"

datatype corner_payload =
    SaveLoginPrompt string string bool string string
  | UpdateLoginPrompt string string bool "(string \<times> string \<times> string) list" string

text \<open>The part of the background the cards use. A map is a \<open>Map\<close> of session storage.\<close>

record corner =
  co_bg :: bg
  co_disk :: "string \<Rightarrow> (string \<times> json) list"
  co_pending :: "string \<rightharpoonup> capture"
  co_handoff :: "handoff option"
  co_muted :: "string list"
  co_offer :: bool

text \<open>What a commit did: the vault, the entry it appended or changed, the capture with the name it was saved under, and for an update the login it
  found in the index.\<close>

record commit =
  cm_vault :: string
  cm_entry :: string
  cm_capture :: capture
  cm_target :: "login_index option"

datatype corner_action = Save | Update | SaveUnlockFirst | Dismiss | Never

record corner_response =
  cr_promptId :: string
  cr_action :: corner_action
  cr_editedUsername :: "string option"
  cr_chosenEntryId :: "string option"

definition clearPendingCapture :: "string \<Rightarrow> corner \<Rightarrow> corner" where
  "clearPendingCapture d w = w\<lparr>co_pending := (co_pending w)(d := None)\<rparr>"

definition writePendingCapture :: "capture \<Rightarrow> corner \<Rightarrow> corner" where
  "writePendingCapture c w = w\<lparr>co_pending := (co_pending w)(cp_etld1 c \<mapsto> c)\<rparr>"

text \<open>Awaiting the index: nothing to do, or a build that ends by publishing what it decrypted, \<open>rs\<close>.\<close>

definition hydrated :: "af_host \<Rightarrow> (string \<times> entry_data option) list \<Rightarrow> corner \<Rightarrow> corner" where
  "hydrated h rs w =
     (case hydrateAutofillIndexFromDisk (co_bg w) of
        (Building ow revision, s) \<Rightarrow> w\<lparr>co_bg := hydrate_settled ow revision (snd (hydrate_publish h ow revision rs s))\<rparr>
      | (_, s) \<Rightarrow> w\<lparr>co_bg := s\<rparr>)"

definition captureOutcome :: "af_host \<Rightarrow> capture \<Rightarrow> corner \<Rightarrow> dedupe_outcome \<times> corner" where
  "captureOutcome h c w =
     (if cp_newLogin c then (SaveNew, w)
      else case dedupeCapture h (cp_hostname c) (cp_username c) (cp_password c) (co_bg w) of
          (r, s) \<Rightarrow> (r, w\<lparr>co_bg := s\<rparr>))"

definition buildCornerPayload :: "capture \<Rightarrow> dedupe_outcome \<Rightarrow> bool \<Rightarrow> corner_payload option" where
  "buildCornerPayload c outcome locked =
     (case outcome of
        ExactMatch \<Rightarrow> None
      | SaveNew \<Rightarrow> Some (SaveLoginPrompt (cp_promptId c) (cp_hostname c) locked (cp_username c) (cp_password c))
      | UpdateOne candidates \<Rightarrow>
          Some (UpdateLoginPrompt (cp_promptId c) (cp_hostname c) locked
            (map (\<lambda>l. (li_id l, li_name l, li_username l)) candidates) (cp_password c)))"

definition newLoginPlaintext :: "capture \<Rightarrow> string option \<Rightarrow> json" where
  "newLoginPlaintext c editedUsername =
     JObj [(''type'', JStr ''login''), (''name'', JStr (cp_hostname c)), (''urls'', JArr [JStr (''https://'' @ cp_hostname c)]),
       (''username'', JStr (case editedUsername of None \<Rightarrow> cp_username c | Some u \<Rightarrow> u)), (''password'', JStr (cp_password c))]"

subsection \<open>Commits\<close>

text \<open>The active vault id; the crypto host refuses a vault that is locked. \<open>None\<close> is the exception.\<close>

definition commit_vault :: "bool \<Rightarrow> corner \<Rightarrow> string option" where
  "commit_vault writes w = (if writes \<and> \<not> vaultLocked (co_bg w) then getActiveVaultId (co_bg w) else None)"

definition put_disk :: "string \<Rightarrow> (string \<times> json) list \<Rightarrow> corner \<Rightarrow> corner" where
  "put_disk v es w = w\<lparr>co_disk := (co_disk w)(v := es)\<rparr>"

definition commitCornerSave :: "bool \<Rightarrow> string \<Rightarrow> capture \<Rightarrow> corner \<Rightarrow> commit option \<times> corner" where
  "commitCornerSave writes new_id c w =
     (case commit_vault writes w of
        None \<Rightarrow> (None, w)
      | Some v \<Rightarrow>
          (let w1 = put_disk v (co_disk w v @ [(new_id, newLoginPlaintext c None)]) w
           in (Some \<lparr>cm_vault = v, cm_entry = new_id, cm_capture = c, cm_target = None\<rparr>,
               w1\<lparr>co_bg := addLoginEntry
                 \<lparr>li_id = new_id, li_hostnames = [cp_hostname c], li_name = cp_hostname c, li_username = cp_username c,
                  li_password = cp_password c, li_totp = None, li_customFields = None, li_autofillEnabled = None,
                  li_autoSubmit = None, li_subdomainMatch = None, li_passkeys = None\<rparr> (co_bg w1)\<rparr>)))"

text \<open>Setting a property of a parsed object.\<close>

fun set_property :: "string \<Rightarrow> json \<Rightarrow> json \<Rightarrow> json" where
  "set_property k v (JObj kvs) = JObj (AList.update k v kvs)"
| "set_property k v j = j"

definition commitCornerUpdate :: "af_host \<Rightarrow> bool \<Rightarrow> capture \<Rightarrow> string \<Rightarrow> corner \<Rightarrow> commit option \<times> corner" where
  "commitCornerUpdate h writes c chosenEntryId w =
     (case getIndexEntry chosenEntryId (co_bg w) of
        (Some (LoginIndex l), s) \<Rightarrow>
          (let w1 = w\<lparr>co_bg := s\<rparr>; username = (if cp_username c \<noteq> [] then cp_username c else li_username l)
           in if \<not> hostnameMatches h l (cp_hostname c) then (None, w1)
              else case commit_vault writes w1 of
                  None \<Rightarrow> (None, w1)
                | Some v \<Rightarrow>
                    (let w2 = put_disk v (map (\<lambda>(i, j). if i \<noteq> chosenEntryId then (i, j)
                           else (i, set_property ''password'' (JStr (cp_password c)) (set_property ''username'' (JStr username) j)))
                           (co_disk w1 v)) w1
                     in (Some \<lparr>cm_vault = v, cm_entry = chosenEntryId, cm_capture = c, cm_target = Some l\<rparr>,
                         w2\<lparr>co_bg := updateLoginCredentials chosenEntryId username (cp_password c) (co_bg w2)\<rparr>)))
      | (_, s) \<Rightarrow> (None, w\<lparr>co_bg := s\<rparr>))"

subsection \<open>Handlers\<close>

datatype corner_reply = COk "corner_payload option" | CDone bool | CError

definition dispatchCornerPromptForCapture :: "af_host \<Rightarrow> (string \<times> entry_data option) list \<Rightarrow> capture \<Rightarrow> corner \<Rightarrow> corner_payload option \<times> corner" where
  "dispatchCornerPromptForCapture h rs c w =
     (if \<not> co_offer w then (None, w)
      else if cp_etld1 c \<in> set (co_muted w) then (None, w)
      else (let w1 = hydrated h rs w; locked = vaultLocked (co_bg w1)
            in case captureOutcome h c w1 of
                 (outcome, w2) \<Rightarrow>
                   (case buildCornerPayload c outcome locked of
                      None \<Rightarrow> (None, clearPendingCapture (cp_etld1 c) w2)
                    | Some p \<Rightarrow> (Some p, writePendingCapture c w2))))"

definition cornerPromptCapture :: "af_host \<Rightarrow> (string \<times> entry_data option) list \<Rightarrow> sender \<Rightarrow> string \<Rightarrow> string \<Rightarrow> bool \<Rightarrow> string \<Rightarrow> nat \<Rightarrow>
   corner \<Rightarrow> corner_reply \<times> corner" where
  "cornerPromptCapture h rs sd username password newLogin promptId now w =
     (let hostname = senderHostname h sd
      in if hostname = [] then (CError, w)
         else if password = [] then (COk None, w)
         else (case dispatchCornerPromptForCapture h rs
                 \<lparr>cp_promptId = promptId, cp_etld1 = registrableDomain h hostname, cp_hostname = hostname, cp_username = username,
                  cp_password = password, cp_capturedAt = now, cp_newLogin = newLogin\<rparr> w of (p, w') \<Rightarrow> (COk p, w')))"

definition cornerPromptQuery :: "af_host \<Rightarrow> (string \<times> entry_data option) list \<Rightarrow> sender \<Rightarrow> corner \<Rightarrow> corner_reply \<times> corner" where
  "cornerPromptQuery h rs sd w =
     (let hostname = senderHostname h sd; d = registrableDomain h hostname
      in if hostname = [] \<or> \<not> co_offer w then (COk None, w)
         else case co_pending w d of
             None \<Rightarrow> (COk None, w)
           | Some c \<Rightarrow>
               (let w1 = hydrated h rs w; locked = vaultLocked (co_bg w1)
                in case captureOutcome h c w1 of
                     (outcome, w2) \<Rightarrow>
                       (case buildCornerPayload c outcome locked of
                          None \<Rightarrow> (COk None, clearPendingCapture d w2)
                        | Some p \<Rightarrow> (COk (Some p), w2))))"

text \<open>The name typed on the card, when one was.\<close>

definition edited :: "string option \<Rightarrow> capture \<Rightarrow> capture" where
  "edited e c = (case e of None \<Rightarrow> c | Some u \<Rightarrow> if u = [] then c else c\<lparr>cp_username := u\<rparr>)"

text \<open>The commit of an answer by what the capture is now; \<open>target\<close> says what to do with the candidates of an update.
  The outer option is the exception of a commit.\<close>

datatype update_choice = UpdateEntry string | SaveInstead | NoTarget

definition commit_by_outcome :: "af_host \<Rightarrow> bool \<Rightarrow> string \<Rightarrow> capture \<Rightarrow> (login_index list \<Rightarrow> update_choice) \<Rightarrow> corner \<Rightarrow> commit option option \<times> corner" where
  "commit_by_outcome h writes new_id c target w =
     (case captureOutcome h c w of
        (ExactMatch, w1) \<Rightarrow> (Some None, w1)
      | (SaveNew, w1) \<Rightarrow> (case commitCornerSave writes new_id c w1 of (None, w2) \<Rightarrow> (None, w2) | (Some m, w2) \<Rightarrow> (Some (Some m), w2))
      | (UpdateOne candidates, w1) \<Rightarrow>
          (case target candidates of
             UpdateEntry i \<Rightarrow> (case commitCornerUpdate h writes c i w1 of (None, w2) \<Rightarrow> (None, w2) | (Some m, w2) \<Rightarrow> (Some (Some m), w2))
           | SaveInstead \<Rightarrow> (case commitCornerSave writes new_id c w1 of (None, w2) \<Rightarrow> (None, w2) | (Some m, w2) \<Rightarrow> (Some (Some m), w2))
           | NoTarget \<Rightarrow> (None, w1)))"

definition commit_list :: "commit option option \<Rightarrow> commit list" where
  "commit_list r = (case r of Some (Some m) \<Rightarrow> [m] | _ \<Rightarrow> [])"

definition save_unlock_target :: "string option \<Rightarrow> login_index list \<Rightarrow> update_choice" where
  "save_unlock_target chosen candidates =
     (case chosen of
        Some i \<Rightarrow> if i \<noteq> [] \<or> length candidates = 1 then UpdateEntry i else SaveInstead
      | None \<Rightarrow> if length candidates = 1 then UpdateEntry (li_id (hd candidates)) else SaveInstead)"

definition save_target :: "login_index list \<Rightarrow> update_choice" where
  "save_target candidates = (if length candidates = 1 then UpdateEntry (li_id (hd candidates)) else SaveInstead)"

text \<open>The site an answer comes from, and the steps that every answer takes for it.\<close>

definition answer_site :: "af_host \<Rightarrow> sender \<Rightarrow> string" where
  "answer_site h sd = (let hostname = senderHostname h sd in if hostname \<noteq> [] then registrableDomain h hostname else [])"

definition answer_capture :: "string \<Rightarrow> corner \<Rightarrow> capture option" where
  "answer_capture d w = (if d \<noteq> [] then co_pending w d else None)"

definition clear_site :: "string \<Rightarrow> corner \<Rightarrow> corner" where
  "clear_site d w = (if d \<noteq> [] then clearPendingCapture d w else w)"

definition appendNeverSaveSite :: "string \<Rightarrow> corner \<Rightarrow> corner" where
  "appendNeverSaveSite d w = w\<lparr>co_muted := (if d \<in> set (co_muted w) then co_muted w else co_muted w @ [d])\<rparr>"

definition mute_site :: "corner_action \<Rightarrow> string \<Rightarrow> corner \<Rightarrow> corner" where
  "mute_site a d w = (if a = Never \<and> d \<noteq> [] then appendNeverSaveSite d w else w)"

text \<open>The end of a commit: the capture is cleared whether or not it went through.\<close>

definition finish_answer :: "string \<Rightarrow> commit option option \<times> corner \<Rightarrow> corner_reply \<times> commit list \<times> corner" where
  "finish_answer d x = (case x of (res, w) \<Rightarrow> (if res = None then CError else COk None, commit_list res, clear_site d w))"

definition cornerPromptResponse :: "af_host \<Rightarrow> (string \<times> entry_data option) list \<Rightarrow> bool \<Rightarrow> string \<Rightarrow> sender \<Rightarrow> corner_response \<Rightarrow> corner \<Rightarrow>
   corner_reply \<times> commit list \<times> corner" where
  "cornerPromptResponse h rs writes new_id sd r w =
     (let d = answer_site h sd
      in case answer_capture d w of
           None \<Rightarrow> (COk None, [], clear_site d (mute_site (cr_action r) d w))
         | Some c \<Rightarrow>
             if cp_promptId c \<noteq> cr_promptId r then (COk None, [], clear_site d (mute_site (cr_action r) d w))
             else (case cr_action r of
                 Dismiss \<Rightarrow> (COk None, [], clear_site d w)
               | Never \<Rightarrow> (COk None, [], clear_site d (mute_site Never d w))
               | SaveUnlockFirst \<Rightarrow>
                   (let c' = edited (cr_editedUsername r) c
                    in if \<not> vaultLocked (co_bg w)
                       then finish_answer d (commit_by_outcome h writes new_id c' (save_unlock_target (cr_chosenEntryId r)) (hydrated h rs w))
                       else (COk None, [], w\<lparr>co_handoff := Some
                         \<lparr>ho_intent = (case cr_chosenEntryId r of None \<Rightarrow> IntentSave | Some i \<Rightarrow> if i = [] then IntentSave else IntentUpdate),
                          ho_capture = c', ho_chosenEntryId = cr_chosenEntryId r\<rparr>\<rparr>))
               | Save \<Rightarrow> finish_answer d (commit_by_outcome h writes new_id (edited (cr_editedUsername r) c) save_target (hydrated h rs w))
               | Update \<Rightarrow>
                   (case cr_chosenEntryId r of
                      None \<Rightarrow> (CError, [], w)
                    | Some i \<Rightarrow>
                        if i = [] then (CError, [], w)
                        else finish_answer d (case commitCornerUpdate h writes c i (hydrated h rs w) of (m, w') \<Rightarrow> (map_option Some m, w')))))"

text \<open>The flush in its two halves: it reads the handoff and awaits the session and the index, then consumes and commits.\<close>

definition flush_target :: "string option \<Rightarrow> login_index list \<Rightarrow> update_choice" where
  "flush_target chosen candidates =
     (let i = (case chosen of Some i \<Rightarrow> i | None \<Rightarrow> (case candidates of [] \<Rightarrow> [] | l # _ \<Rightarrow> li_id l))
      in if i = [] then NoTarget else UpdateEntry i)"

text \<open>\<open>refreshActiveVaultId\<close>: \<open>stored\<close> is the active id read back from session storage, when it could be read, and the
  token of a new session.\<close>

definition refreshActiveVaultId :: "(string option \<times> string) option \<Rightarrow> corner \<Rightarrow> corner" where
  "refreshActiveVaultId stored w =
     (case stored of None \<Rightarrow> w | Some (v, tok) \<Rightarrow> w\<lparr>co_bg := snd (applyActiveVaultTransition v tok (co_bg w))\<rparr>)"

definition flush_begins :: "af_host \<Rightarrow> (string option \<times> string) option \<Rightarrow> (string \<times> entry_data option) list \<Rightarrow> corner \<Rightarrow> handoff option \<times> corner" where
  "flush_begins h stored rs w =
     (case co_handoff w of
        None \<Rightarrow> (None, w)
      | Some ho \<Rightarrow> (let w1 = hydrated h rs (refreshActiveVaultId stored w) in if vaultLocked (co_bg w1) then (None, w1) else (Some ho, w1)))"

definition flush_commits :: "af_host \<Rightarrow> bool \<Rightarrow> string \<Rightarrow> handoff \<Rightarrow> corner \<Rightarrow> corner_reply \<times> commit list \<times> corner" where
  "flush_commits h writes new_id ho w =
     (case commit_by_outcome h writes new_id (ho_capture ho) (flush_target (ho_chosenEntryId ho)) (w\<lparr>co_handoff := None\<rparr>) of
        (res, w') \<Rightarrow> (if res = None then CError else CDone True, commit_list res, clearPendingCapture (cp_etld1 (ho_capture ho)) w'))"

definition cornerFlushHandoff :: "af_host \<Rightarrow> (string option \<times> string) option \<Rightarrow> (string \<times> entry_data option) list \<Rightarrow> bool \<Rightarrow> string \<Rightarrow> corner \<Rightarrow> corner_reply \<times> commit list \<times> corner" where
  "cornerFlushHandoff h stored rs writes new_id w =
     (case flush_begins h stored rs w of
        (None, w1) \<Rightarrow> (if co_handoff w = None then CDone False else CError, [], w1)
      | (Some ho, w1) \<Rightarrow> flush_commits h writes new_id ho w1)"

subsection \<open>Runs\<close>

text \<open>A flush that awaits carries its handoff; flushes may overlap with anything. \<open>rs\<close> is what a rebuild of the index decrypts.\<close>

type_synonym index_read = "(string \<times> entry_data option) list"

datatype corner_event =
    Captured sender string string bool string nat index_read
  | Queried sender index_read
  | Answered sender corner_response bool string index_read
  | FlushBegins "(string option \<times> string) option" index_read
  | FlushCommits nat bool string
  | SessionEvent bg_event
  | DiskWritten string "(string \<times> json) list"

fun corner_step :: "af_host \<Rightarrow> corner_event \<Rightarrow> corner \<times> handoff list \<Rightarrow> commit list \<times> corner \<times> handoff list" where
  "corner_step h (Captured sd username password newLogin promptId now rs) (w, fs) =
     ([], snd (cornerPromptCapture h rs sd username password newLogin promptId now w), fs)"
| "corner_step h (Queried sd rs) (w, fs) = ([], snd (cornerPromptQuery h rs sd w), fs)"
| "corner_step h (Answered sd r writes new_id rs) (w, fs) =
     (case cornerPromptResponse h rs writes new_id sd r w of (_, ms, w') \<Rightarrow> (ms, w', fs))"
| "corner_step h (FlushBegins stored rs) (w, fs) =
     (case flush_begins h stored rs w of (None, w') \<Rightarrow> ([], w', fs) | (Some ho, w') \<Rightarrow> ([], w', fs @ [ho]))"
| "corner_step h (FlushCommits n writes new_id) (w, fs) =
     (if n < length fs
      then (case flush_commits h writes new_id (fs ! n) w of (_, ms, w') \<Rightarrow> (ms, w', take n fs @ drop (Suc n) fs))
      else ([], w, fs))"
| "corner_step h (SessionEvent e) (w, fs) = ([], w\<lparr>co_bg := bg_step h e (co_bg w)\<rparr>, fs)"
| "corner_step h (DiskWritten v es) (w, fs) = ([], put_disk v es w, fs)"

fun corner_run :: "af_host \<Rightarrow> corner_event list \<Rightarrow> corner \<times> handoff list \<Rightarrow> corner \<times> handoff list" where
  "corner_run h [] x = x"
| "corner_run h (e # es) x = corner_run h es (snd (corner_step h e x))"

text \<open>A capture was handed over by a page of its own host, and its card answered by a page of its own site.\<close>

fun captured_by :: "af_host \<Rightarrow> capture \<Rightarrow> corner_event \<Rightarrow> bool" where
  "captured_by h c (Captured sd username password newLogin promptId now rs) \<longleftrightarrow>
     senderHostname h sd \<noteq> [] \<and> password \<noteq> [] \<and>
     c = \<lparr>cp_promptId = promptId, cp_etld1 = registrableDomain h (senderHostname h sd), cp_hostname = senderHostname h sd,
          cp_username = username, cp_password = password, cp_capturedAt = now, cp_newLogin = newLogin\<rparr>"
| "captured_by h c _ \<longleftrightarrow> False"

fun confirmed_by :: "af_host \<Rightarrow> capture \<Rightarrow> capture \<Rightarrow> corner_event \<Rightarrow> bool" where
  "confirmed_by h c c' (Answered sd r writes new_id rs) \<longleftrightarrow>
     cr_promptId r = cp_promptId c \<and> cr_action r \<noteq> Dismiss \<and> cr_action r \<noteq> Never \<and>
     registrableDomain h (senderHostname h sd) = cp_etld1 c \<and> (c' = c \<or> c' = edited (cr_editedUsername r) c)"
| "confirmed_by h c c' _ \<longleftrightarrow> False"

subsection \<open>What a commit is\<close>

lemma currentIndex_session: "currentIndex s = (r, s') \<Longrightarrow> bg_veks s' = bg_veks s"
  by (auto simp: currentIndex_def split: option.splits if_splits)

definition commit_ok :: "af_host \<Rightarrow> capture \<Rightarrow> corner \<Rightarrow> commit \<Rightarrow> bool" where
  "commit_ok h c w m \<longleftrightarrow> cm_capture m = c \<and> getActiveVaultId (co_bg w) = Some (cm_vault m) \<and> \<not> vaultLocked (co_bg w) \<and>
     (case cm_target m of None \<Rightarrow> True | Some l \<Rightarrow> hostnameMatches h l (cp_hostname c))"

text \<open>A commit leaves the parked captures alone, writes to no vault but its own, and there to one entry.\<close>

definition other_entries :: "string \<Rightarrow> (string \<times> json) list \<Rightarrow> (string \<times> json) list" where
  "other_entries i es = filter (\<lambda>e. fst e \<noteq> i) es"

definition disk_within :: "commit list \<Rightarrow> corner \<Rightarrow> corner \<Rightarrow> bool" where
  "disk_within ms w w' \<longleftrightarrow>
     (\<forall>v. co_disk w' v = co_disk w v \<or>
        (\<exists>m\<in>set ms. cm_vault m = v \<and> other_entries (cm_entry m) (co_disk w' v) = other_entries (cm_entry m) (co_disk w v)))"

lemma other_entries_map:
  "other_entries i (map (\<lambda>(k, j). if k \<noteq> i then (k, j) else (k, f j)) es) = other_entries i es"
  by (induction es) (auto simp: other_entries_def split: if_splits)

lemma other_entries_append [simp]: "other_entries i (es @ [(i, j)]) = other_entries i es"
  by (simp add: other_entries_def)

lemma disk_within_same: "co_disk w' = co_disk w \<Longrightarrow> disk_within [] w w'"
  by (simp add: disk_within_def)

lemma disk_within_put:
  assumes "co_disk w' = (co_disk w)(cm_vault m := es)"
    and "other_entries (cm_entry m) es = other_entries (cm_entry m) (co_disk w (cm_vault m))"
  shows "disk_within [m] w w'"
  using assms by (simp add: disk_within_def)

definition commits_only :: "af_host \<Rightarrow> capture \<Rightarrow> corner \<Rightarrow> corner \<Rightarrow> commit list \<Rightarrow> bool" where
  "commits_only h c w w' ms \<longleftrightarrow> co_pending w' = co_pending w \<and> co_handoff w' = co_handoff w \<and>
     list_all (commit_ok h c w') ms \<and> disk_within ms w w'"

lemma index_edits_session:
  "bg_veks (addLoginEntry l s) = bg_veks s" "bg_veks (updateLoginCredentials i u q s) = bg_veks s"
  by (auto simp: addLoginEntry_def updateLoginCredentials_def replace_entries_def dest: currentIndex_session
      split: option.splits prod.splits index_entry.splits)

lemma save_commits:
  assumes "commitCornerSave writes new_id c w = (r, w')"
  shows "commits_only h c w w' (commit_list (map_option Some r))"
  using assms
  by (auto simp: commitCornerSave_def commit_vault_def put_disk_def commits_only_def commit_list_def commit_ok_def
      vaultLocked_def getActiveVaultId_def Let_def index_edits_session intro!: disk_within_put disk_within_same
      simp: other_entries_map split: option.splits if_splits)

lemma getIndexEntry_session: "getIndexEntry i s = (r, s') \<Longrightarrow> bg_veks s' = bg_veks s"
  by (auto simp: getIndexEntry_def dest: currentIndex_session split: prod.splits option.splits)

lemma update_commits:
  assumes "commitCornerUpdate h writes c i w = (r, w')"
  shows "commits_only h c w w' (commit_list (map_option Some r))"
  using assms
  by (auto simp: commitCornerUpdate_def commit_vault_def put_disk_def commits_only_def commit_list_def commit_ok_def
      vaultLocked_def getActiveVaultId_def Let_def index_edits_session intro!: disk_within_put disk_within_same
      simp: other_entries_map split: option.splits if_splits prod.splits index_entry.splits)

lemma outcome_frame: "captureOutcome h c w = (r, w') \<Longrightarrow> w' = w\<lparr>co_bg := co_bg w'\<rparr>"
  by (auto simp: captureOutcome_def split: if_splits prod.splits)

lemma commits_only_frame: "commits_only h c (w\<lparr>co_bg := s\<rparr>) w' ms \<longleftrightarrow> commits_only h c w w' ms"
  by (simp add: commits_only_def disk_within_def)

lemma commits_none [simp]: "commits_only h c w w []"
  by (simp add: commits_only_def disk_within_def)

lemma commit_list_simps [simp]: "commit_list None = []" "commit_list (Some None) = []" "commit_list (Some (Some m)) = [m]"
  by (simp_all add: commit_list_def)

lemma update_commits':
  assumes "commitCornerUpdate h writes c i w = (None, w')"
  shows "commits_only h c w w' []"
  using update_commits [OF assms] by simp

lemma by_outcome_commits:
  assumes "commit_by_outcome h writes new_id c target w = (r, w')"
  shows "commits_only h c w w' (commit_list r)"
proof -
  obtain outcome w1 where o: "captureOutcome h c w = (outcome, w1)" by force
  have save: "commits_only h c w1 w2 (commit_list (map_option Some m))" if "commitCornerSave writes new_id c w1 = (m, w2)" for m w2
    using save_commits [OF that] .
  have update: "commits_only h c w1 w2 (commit_list (map_option Some m))" if "commitCornerUpdate h writes c i w1 = (m, w2)" for i m w2
    using update_commits [OF that] .
  have "commits_only h c w1 w' (commit_list r)"
  proof (cases outcome)
    case SaveNew
    with assms o show ?thesis
      by (cases "commitCornerSave writes new_id c w1"; cases "fst (commitCornerSave writes new_id c w1)")
        (auto simp: commit_by_outcome_def dest: save)
  next
    case (UpdateOne cs)
    show ?thesis
    proof (cases "target cs")
      case (UpdateEntry i)
      with assms o UpdateOne show ?thesis
        by (cases "commitCornerUpdate h writes c i w1"; cases "fst (commitCornerUpdate h writes c i w1)")
          (auto simp: commit_by_outcome_def dest: update)
    next
      case SaveInstead
      with assms o UpdateOne show ?thesis
        by (cases "commitCornerSave writes new_id c w1"; cases "fst (commitCornerSave writes new_id c w1)")
          (auto simp: commit_by_outcome_def dest: save)
    qed (use assms o UpdateOne in \<open>auto simp: commit_by_outcome_def\<close>)
  qed (use assms o in \<open>auto simp: commit_by_outcome_def\<close>)
  then have "commits_only h c (w\<lparr>co_bg := co_bg w1\<rparr>) w' (commit_list r)"
    by (rule back_subst [of "\<lambda>x. commits_only h c x w' (commit_list r)", OF _ outcome_frame [OF o]])
  then show ?thesis by (simp only: commits_only_frame)
qed

subsection \<open>What the handlers keep\<close>

lemma hydrated_frame: "\<exists>b. hydrated h rs w = w\<lparr>co_bg := b\<rparr>"
  by (cases "hydrateAutofillIndexFromDisk (co_bg w)"; cases "fst (hydrateAutofillIndexFromDisk (co_bg w))")
    (auto simp: hydrated_def)

lemma hydrated_simps [simp]:
  "co_pending (hydrated h rs w) = co_pending w" "co_handoff (hydrated h rs w) = co_handoff w"
  "co_disk (hydrated h rs w) = co_disk w"
  using hydrated_frame [of h rs w] by auto

lemma outcome_simps:
  assumes "captureOutcome h c w = (r, w')"
  shows "co_pending w' = co_pending w" "co_handoff w' = co_handoff w" "co_disk w' = co_disk w"
  by (subst outcome_frame [OF assms], simp)+

text \<open>A handler that commits nothing parks at most the capture it was given, and writes no vault.\<close>

definition parks :: "capture option \<Rightarrow> corner \<Rightarrow> corner \<Rightarrow> bool" where
  "parks k w w' \<longleftrightarrow> co_handoff w' = co_handoff w \<and> co_disk w' = co_disk w \<and>
     (\<forall>d c. co_pending w' d = Some c \<longrightarrow> co_pending w d = Some c \<or> (k = Some c \<and> cp_etld1 c = d))"

lemma capture_parks:
  assumes "cornerPromptCapture h rs sd username password newLogin promptId now w = (r, w')"
  shows "(parks None w w' \<or> (\<exists>c. parks (Some c) w w' \<and> captured_by h c (Captured sd username password newLogin promptId now rs)))"
proof (cases "senderHostname h sd = [] \<or> password = []")
  case True
  with assms show ?thesis by (auto simp: cornerPromptCapture_def parks_def Let_def split: if_splits)
next
  case False
  define c where "c = \<lparr>cp_promptId = promptId, cp_etld1 = registrableDomain h (senderHostname h sd), cp_hostname = senderHostname h sd,
    cp_username = username, cp_password = password, cp_capturedAt = now, cp_newLogin = newLogin\<rparr>"
  obtain p where d: "dispatchCornerPromptForCapture h rs c w = (p, w')"
    using assms False by (auto simp: cornerPromptCapture_def Let_def c_def split: prod.splits)
  obtain outcome w2 where o: "captureOutcome h c (hydrated h rs w) = (outcome, w2)" by force
  have "parks (Some c) w w'"
    using d o outcome_simps [OF o]
    by (auto simp: dispatchCornerPromptForCapture_def parks_def clearPendingCapture_def writePendingCapture_def
        split: if_splits option.splits)
  moreover have "captured_by h c (Captured sd username password newLogin promptId now rs)"
    using False by (simp add: c_def)
  ultimately show ?thesis by blast
qed

lemma query_parks:
  assumes "cornerPromptQuery h rs sd w = (r, w')"
  shows "parks None w w'"
proof (cases "co_pending w (registrableDomain h (senderHostname h sd))")
  case (Some c)
  obtain outcome w2 where o: "captureOutcome h c (hydrated h rs w) = (outcome, w2)" by force
  show ?thesis
    using assms Some o outcome_simps [OF o]
    by (auto simp: cornerPromptQuery_def parks_def clearPendingCapture_def Let_def split: if_splits option.splits)
qed (use assms in \<open>auto simp: cornerPromptQuery_def parks_def Let_def split: if_splits\<close>)

text \<open>An answer commits only a capture that is parked for the answering page's site under the answered prompt, and
  parks for later only such a capture.\<close>

lemma commits_only_from_hydrated: "commits_only h c (hydrated h rs w) w' ms \<Longrightarrow> commits_only h c w w' ms"
  using hydrated_frame [of h rs w] commits_only_frame [of h c _ w w' ms] by auto

definition answer_ok :: "af_host \<Rightarrow> corner_event \<Rightarrow> corner \<Rightarrow> corner \<Rightarrow> commit list \<Rightarrow> bool" where
  "answer_ok h e w w' ms \<longleftrightarrow>
     (\<forall>d c. co_pending w' d = Some c \<longrightarrow> co_pending w d = Some c) \<and> disk_within ms w w' \<and>
     (\<forall>m\<in>set ms. commit_ok h (cm_capture m) w' m \<and> (\<exists>d c. co_pending w d = Some c \<and> (cp_etld1 c = d \<longrightarrow> confirmed_by h c (cm_capture m) e))) \<and>
     (\<forall>ho. co_handoff w' = Some ho \<longrightarrow> co_handoff w = Some ho \<or>
        (\<exists>d c. co_pending w d = Some c \<and> (cp_etld1 c = d \<longrightarrow> confirmed_by h c (ho_capture ho) e)))"

lemma answer_quiet:
  assumes "\<And>d c. co_pending w' d = Some c \<Longrightarrow> co_pending w d = Some c" "co_disk w' = co_disk w" "co_handoff w' = co_handoff w"
  shows "answer_ok h e w w' []"
  using assms by (auto simp: answer_ok_def disk_within_same)

lemma answer_parks:
  assumes "co_pending w d = Some c" "cp_etld1 c = d \<Longrightarrow> confirmed_by h c (ho_capture ho) e"
  shows "answer_ok h e w (w\<lparr>co_handoff := Some ho\<rparr>) []"
proof -
  have "\<exists>d c. co_pending w d = Some c \<and> (cp_etld1 c = d \<longrightarrow> confirmed_by h c (ho_capture ho) e)"
    using assms by blast
  then show ?thesis by (simp add: answer_ok_def disk_within_same)
qed

lemma answer_commits:
  assumes "commits_only h c' w w1 ms" "co_pending w d = Some c" "cp_etld1 c = d \<Longrightarrow> confirmed_by h c c' e"
    "w' = (if clr then clearPendingCapture d w1 else w1)"
  shows "answer_ok h e w w' ms"
proof -
  have frame: "co_disk w' = co_disk w1" "co_handoff w' = co_handoff w1" "co_bg w' = co_bg w1"
    "\<And>d c. co_pending w' d = Some c \<Longrightarrow> co_pending w1 d = Some c"
    using assms(4) by (auto simp: clearPendingCapture_def split: if_splits)
  have ok: "commit_ok h (cm_capture m) w' m \<and> cm_capture m = c'" if "m \<in> set ms" for m
  proof -
    have "commit_ok h c' w1 m" using assms(1) that by (simp add: commits_only_def list_all_iff)
    then show ?thesis by (simp add: commit_ok_def frame)
  qed
  have "disk_within ms w w'" using assms(1) by (simp add: commits_only_def disk_within_def frame)
  moreover have pending: "co_pending w1 = co_pending w" and handoff: "co_handoff w' = co_handoff w"
    using assms(1) by (simp_all add: commits_only_def frame)
  moreover have "\<exists>d c. co_pending w d = Some c \<and> (cp_etld1 c = d \<longrightarrow> confirmed_by h c c' e)"
    using assms(2,3) by blast
  then have "\<forall>m\<in>set ms. commit_ok h (cm_capture m) w' m \<and>
      (\<exists>d c. co_pending w d = Some c \<and> (cp_etld1 c = d \<longrightarrow> confirmed_by h c (cm_capture m) e))"
    using ok by auto
  moreover have "\<forall>d c. co_pending w' d = Some c \<longrightarrow> co_pending w d = Some c"
    using frame(4) pending by simp
  ultimately show ?thesis
    unfolding answer_ok_def by simp
qed

lemma clear_site_frame:
  "co_disk (clear_site d w) = co_disk w" "co_handoff (clear_site d w) = co_handoff w" "co_bg (clear_site d w) = co_bg w"
  "co_pending (clear_site d w) k = Some c \<Longrightarrow> co_pending w k = Some c"
  "co_disk (mute_site a d w) = co_disk w" "co_handoff (mute_site a d w) = co_handoff w" "co_pending (mute_site a d w) = co_pending w"
  by (auto simp: clear_site_def clearPendingCapture_def mute_site_def appendNeverSaveSite_def split: if_splits)

lemma answer_clears: "answer_ok h e w (clear_site d w) []" "answer_ok h e w (clear_site d (mute_site a d w)) []"
  by (rule answer_quiet; use clear_site_frame in \<open>metis\<close>)+

lemma finish_ok:
  assumes "finish_answer d (res, w1) = (rep, ms, w')" "commits_only h c' (hydrated h rs w) w1 (commit_list res)"
    "answer_capture d w = Some c" "cp_etld1 c = d \<Longrightarrow> confirmed_by h c c' e"
  shows "answer_ok h e w w' ms"
proof -
  have "d \<noteq> []" "co_pending w d = Some c" using assms(3) by (auto simp: answer_capture_def split: if_splits)
  moreover have "ms = commit_list res" "w' = clear_site d w1" using assms(1) by (simp_all add: finish_answer_def)
  ultimately show ?thesis
    using answer_commits [OF commits_only_from_hydrated [OF assms(2)] _ assms(4), where clr = True] by (simp add: clear_site_def)
qed

lemma response_ok:
  assumes "cornerPromptResponse h rs writes new_id sd r w = (rep, ms, w')"
  shows "answer_ok h (Answered sd r writes new_id rs) w w' ms"
proof (cases "answer_capture (answer_site h sd) w")
  case None
  then show ?thesis using assms answer_clears by (auto simp: cornerPromptResponse_def Let_def)
next
  case (Some c)
  let ?d = "answer_site h sd" and ?e = "Answered sd r writes new_id rs" and ?c = "edited (cr_editedUsername r) c"
  show ?thesis
  proof (cases "cp_promptId c = cr_promptId r")
    case False
    then show ?thesis using assms Some answer_clears by (auto simp: cornerPromptResponse_def Let_def)
  next
    case True
    have p: "co_pending w ?d = Some c" and "?d \<noteq> []" using Some by (auto simp: answer_capture_def split: if_splits)
    then have "?d = registrableDomain h (senderHostname h sd)" by (auto simp: answer_site_def Let_def split: if_splits)
    then have confirm: "cp_etld1 c = ?d \<Longrightarrow> confirmed_by h c c' ?e"
      if "cr_action r \<noteq> Dismiss" "cr_action r \<noteq> Never" "c' = c \<or> c' = ?c" for c'
      using that True by simp
    have by_outcome: ?thesis
      if "finish_answer ?d (commit_by_outcome h writes new_id ?c target (hydrated h rs w)) = (rep, ms, w')"
        "cr_action r \<noteq> Dismiss" "cr_action r \<noteq> Never" for target
    proof -
      obtain res w1 where o: "commit_by_outcome h writes new_id ?c target (hydrated h rs w) = (res, w1)" by force
      show ?thesis
        by (rule finish_ok [OF _ by_outcome_commits [OF o] Some])
          (use that o in simp, rule confirm, use that in simp_all)
    qed
    show ?thesis
    proof (cases "cr_action r")
      case Save
      with assms Some True by_outcome show ?thesis by (simp add: cornerPromptResponse_def Let_def)
    next
      case Update
      show ?thesis
      proof (cases "\<exists>i. cr_chosenEntryId r = Some i \<and> i \<noteq> []")
        case False
        with assms Some True Update show ?thesis
          by (auto simp: cornerPromptResponse_def Let_def split: option.splits intro!: answer_quiet)
      next
        case i: True
        then obtain i where i: "cr_chosenEntryId r = Some i" "i \<noteq> []" by blast
        obtain m w1 where o: "commitCornerUpdate h writes c i (hydrated h rs w) = (m, w1)" by force
        show ?thesis
          by (rule finish_ok [OF _ update_commits [OF o] Some])
            (use assms Some True Update i o confirm in \<open>auto simp: cornerPromptResponse_def Let_def\<close>)
      qed
    next
      case SaveUnlockFirst
      show ?thesis
      proof (cases "vaultLocked (co_bg w)")
        case False
        with assms Some True SaveUnlockFirst by_outcome show ?thesis by (simp add: cornerPromptResponse_def Let_def)
      next
        case locked: True
        show ?thesis
          using assms Some True SaveUnlockFirst locked answer_parks [OF p, of h _ ?e] confirm [of ?c]
          by (auto simp: cornerPromptResponse_def Let_def)
      qed
    qed (use assms Some True answer_clears in \<open>auto simp: cornerPromptResponse_def Let_def\<close>)
  qed
qed

subsection \<open>Commits are confirmed\<close>

definition captured :: "af_host \<Rightarrow> capture \<Rightarrow> corner_event list \<Rightarrow> bool" where
  "captured h c es \<longleftrightarrow> list_ex (captured_by h c) es"

text \<open>A capture \<open>c'\<close> was confirmed in a run: a card answered for a capture handed over before.\<close>

definition confirmed :: "af_host \<Rightarrow> capture \<Rightarrow> corner_event list \<Rightarrow> bool" where
  "confirmed h c' es \<longleftrightarrow>
     (\<exists>n < length es. \<exists>c. captured h c (take n es) \<and> confirmed_by h c c' (es ! n))"

definition parked_ok :: "af_host \<Rightarrow> corner_event list \<Rightarrow> corner \<times> handoff list \<Rightarrow> bool" where
  "parked_ok h es x \<longleftrightarrow>
     (\<forall>d c. co_pending (fst x) d = Some c \<longrightarrow> cp_etld1 c = d \<and> captured h c es) \<and>
     (\<forall>ho. co_handoff (fst x) = Some ho \<or> ho \<in> set (snd x) \<longrightarrow> confirmed h (ho_capture ho) es)"

lemma captured_more: "captured h c es \<Longrightarrow> captured h c (es @ [e])"
  by (simp add: captured_def)

lemma confirmed_more: "confirmed h c es \<Longrightarrow> confirmed h c (es @ [e])"
  unfolding confirmed_def by (elim exE conjE, rule_tac x = n in exI) (auto simp: nth_append)

lemma confirmed_now: "captured h c es \<Longrightarrow> confirmed_by h c c' e \<Longrightarrow> confirmed h c' (es @ [e])"
  unfolding confirmed_def by (rule exI [of _ "length es"]) auto

definition step_ok :: "af_host \<Rightarrow> corner_event list \<Rightarrow> corner \<Rightarrow> corner \<Rightarrow> commit list \<Rightarrow> bool" where
  "step_ok h es w w' ms \<longleftrightarrow> disk_within ms w w' \<and>
     (\<forall>m\<in>set ms. confirmed h (cm_capture m) es \<and> commit_ok h (cm_capture m) w' m)"

lemma parked_quiet:
  assumes "parked_ok h es (w, fs)" "parks k w w'" "\<And>c. k = Some c \<Longrightarrow> captured_by h c e"
  shows "parked_ok h (es @ [e]) (w', fs) \<and> step_ok h (es @ [e]) w w' []"
proof -
  have "cp_etld1 c = d \<and> captured h c (es @ [e])" if "co_pending w' d = Some c" for d c
  proof -
    from assms(2) that consider "co_pending w d = Some c" | "k = Some c" "cp_etld1 c = d" unfolding parks_def by blast
    then show ?thesis
      using assms(1,3) captured_more [of h c es e] by cases (auto simp: parked_ok_def captured_def)
  qed
  moreover have "confirmed h (ho_capture ho) (es @ [e])" if "co_handoff w' = Some ho \<or> ho \<in> set fs" for ho
    using that assms confirmed_more unfolding parks_def parked_ok_def by auto
  ultimately show ?thesis
    using assms(2) by (simp add: parked_ok_def step_ok_def disk_within_same parks_def)
qed

lemma parked_answer:
  assumes "parked_ok h es (w, fs)" "answer_ok h e w w' ms"
  shows "parked_ok h (es @ [e]) (w', fs) \<and> step_ok h (es @ [e]) w w' ms"
proof -
  have now: "confirmed h c' (es @ [e])" if "\<exists>d c. co_pending w d = Some c \<and> (cp_etld1 c = d \<longrightarrow> confirmed_by h c c' e)" for c'
    using that assms(1) confirmed_now unfolding parked_ok_def by fastforce
  have "cp_etld1 c = d \<and> captured h c (es @ [e])" if "co_pending w' d = Some c" for d c
  proof -
    have "co_pending w d = Some c" using that assms(2) unfolding answer_ok_def by blast
    then show ?thesis using assms(1) captured_more [of h c es e] by (auto simp: parked_ok_def)
  qed
  moreover have "confirmed h (ho_capture ho) (es @ [e])" if "co_handoff w' = Some ho \<or> ho \<in> set fs" for ho
    using that assms confirmed_more now unfolding answer_ok_def parked_ok_def by (metis fst_conv snd_conv)
  ultimately show ?thesis
    using assms(2) now by (simp add: parked_ok_def step_ok_def answer_ok_def)
qed

lemma flush_commits_ok:
  assumes "flush_commits h writes new_id ho w = (r, ms, w')"
  shows "disk_within ms w w' \<and> (\<forall>m\<in>set ms. cm_capture m = ho_capture ho \<and> commit_ok h (cm_capture m) w' m) \<and>
     co_handoff w' = None \<and> (\<forall>d c. co_pending w' d = Some c \<longrightarrow> co_pending w d = Some c)"
proof -
  obtain res w1 where o: "commit_by_outcome h writes new_id (ho_capture ho) (flush_target (ho_chosenEntryId ho)) (w\<lparr>co_handoff := None\<rparr>) = (res, w1)"
    by force
  then have w': "w' = clearPendingCapture (cp_etld1 (ho_capture ho)) w1" "ms = commit_list res"
    using assms by (simp_all add: flush_commits_def)
  from by_outcome_commits [OF o] show ?thesis
    unfolding w' by (auto simp: commits_only_def clearPendingCapture_def disk_within_def commit_ok_def list_all_iff split: if_splits)
qed

lemma refresh_frame: "refreshActiveVaultId stored w = w\<lparr>co_bg := co_bg (refreshActiveVaultId stored w)\<rparr>"
  by (cases stored) (auto simp: refreshActiveVaultId_def split: prod.splits)

lemma refresh_simps [simp]:
  "co_pending (refreshActiveVaultId stored w) = co_pending w" "co_handoff (refreshActiveVaultId stored w) = co_handoff w"
  "co_disk (refreshActiveVaultId stored w) = co_disk w"
  by (subst refresh_frame, simp)+

lemma flush_begins_frame:
  assumes "flush_begins h stored rs w = (r, w')"
  shows "parks None w w' \<and> (\<forall>ho. r = Some ho \<longrightarrow> co_handoff w = Some ho \<and> \<not> vaultLocked (co_bg w'))"
  using assms by (auto simp: flush_begins_def parks_def Let_def split: option.splits if_splits)

lemma parked_step:
  assumes "parked_ok h es (w, fs)" "corner_step h e (w, fs) = (ms, w', fs')" "\<nexists>v f. e = DiskWritten v f"
  shows "parked_ok h (es @ [e]) (w', fs') \<and> step_ok h (es @ [e]) w w' ms"
proof (cases e)
  case (Captured sd username password newLogin promptId now rs)
  obtain r where o: "cornerPromptCapture h rs sd username password newLogin promptId now w = (r, w')"
    using assms(2) Captured by (cases "cornerPromptCapture h rs sd username password newLogin promptId now w") auto
  have "ms = []" "fs' = fs" using assms(2) Captured o by auto
  then show ?thesis
    using capture_parks [OF o] parked_quiet [OF assms(1)] Captured by (metis option.distinct(1) option.inject)
next
  case (Queried sd rs)
  obtain r where o: "cornerPromptQuery h rs sd w = (r, w')"
    using assms(2) Queried by (cases "cornerPromptQuery h rs sd w") auto
  have "ms = []" "fs' = fs" using assms(2) Queried o by auto
  then show ?thesis using parked_quiet [OF assms(1) query_parks [OF o]] by simp
next
  case (Answered sd r writes new_id rs)
  obtain rep where o: "cornerPromptResponse h rs writes new_id sd r w = (rep, ms, w')"
    using assms(2) Answered by (cases "cornerPromptResponse h rs writes new_id sd r w") auto
  have "fs' = fs" using assms(2) Answered o by auto
  then show ?thesis using parked_answer [OF assms(1) response_ok [OF o]] Answered by simp
next
  case (FlushBegins stored rs)
  obtain r where o: "flush_begins h stored rs w = (r, w')" and fs': "ms = []" "fs' = fs @ (case r of None \<Rightarrow> [] | Some ho \<Rightarrow> [ho])"
    using assms(2) FlushBegins by (auto split: prod.splits option.splits)
  have "parked_ok h (es @ [e]) (w', fs) \<and> step_ok h (es @ [e]) w w' []"
    using parked_quiet [OF assms(1)] flush_begins_frame [OF o] by blast
  moreover have "co_handoff w' = Some ho" if "r = Some ho" for ho
    using flush_begins_frame [OF o] that by (simp add: parks_def)
  ultimately show ?thesis
    unfolding fs' by (auto simp: parked_ok_def split: option.splits)
next
  case (FlushCommits n writes new_id)
  show ?thesis
  proof (cases "n < length fs")
    case False
    then show ?thesis
      using parked_quiet [OF assms(1), of None w e] assms(2) FlushCommits by (simp add: parks_def)
  next
    case True
    then obtain r where o: "flush_commits h writes new_id (fs ! n) w = (r, ms, w')" and fs': "fs' = take n fs @ drop (Suc n) fs"
      using assms(2) FlushCommits by (auto split: prod.splits)
    have "set fs' \<subseteq> set fs" unfolding fs' using set_take_subset [of n fs] set_drop_subset [of "Suc n" fs] by auto
    moreover have "confirmed h (ho_capture ho) (es @ [e])" if "ho \<in> set fs" for ho
      using assms(1) that confirmed_more by (simp add: parked_ok_def)
    moreover have "cp_etld1 c = d \<and> captured h c (es @ [e])" if "co_pending w' d = Some c" for d c
    proof -
      have "co_pending w d = Some c" using that flush_commits_ok [OF o] by blast
      then show ?thesis using assms(1) captured_more [of h c es e] by (auto simp: parked_ok_def)
    qed
    ultimately show ?thesis
      using flush_commits_ok [OF o] True by (auto simp: parked_ok_def step_ok_def)
  qed
next
  case (SessionEvent b)
  show ?thesis
    using parked_quiet [OF assms(1), of None w' e] assms(2) SessionEvent by (auto simp: parks_def)
qed (use assms(3) in simp)

lemma parked_disk:
  assumes "parked_ok h es (w, fs)"
  shows "parked_ok h (es @ [DiskWritten v f]) (put_disk v f w, fs)"
  using assms captured_more confirmed_more by (auto simp: parked_ok_def put_disk_def)

lemma parked_run:
  assumes "parked_ok h es x"
  shows "parked_ok h (es @ fs) (corner_run h fs x)"
  using assms
proof (induction fs arbitrary: es x)
  case (Cons e fs)
  obtain w hs where x: "x = (w, hs)" by force
  obtain ms w' hs' where st: "corner_step h e (w, hs) = (ms, w', hs')" by (metis prod_cases3)
  have "parked_ok h (es @ [e]) (w', hs')"
  proof (cases "\<exists>v f. e = DiskWritten v f")
    case True
    then show ?thesis using parked_disk Cons.prems st x by auto
  next
    case False
    then show ?thesis using parked_step [OF _ st] Cons.prems x by blast
  qed
  then show ?case using Cons.IH [of "es @ [e]" "(w', hs')"] x st by simp
qed simp


text \<open>A site with a saved login, where its visitor then signs in under another name.\<close>

definition sample_site :: corner where
  "sample_site = \<lparr>co_bg = sample_bg, co_disk = (\<lambda>v. if v = ''v'' then [(''1'', JObj [(''username'', JStr ''u''), (''password'', JStr ''p'')])] else []),
     co_pending = Map.empty, co_handoff = None, co_muted = [], co_offer = True\<rparr>"

definition sample_read :: index_read where
  "sample_read = [(''1'', Some sample_login_data)]"

definition sample_capture_event :: "bool \<Rightarrow> corner_event" where
  "sample_capture_event fresh = Captured sample_page ''other'' ''q'' fresh ''c1'' 0 sample_read"

definition answer :: "corner_action \<Rightarrow> string \<Rightarrow> corner_response" where
  "answer a i = \<lparr>cr_promptId = i, cr_action = a, cr_editedUsername = None, cr_chosenEntryId = None\<rparr>"


subsection \<open>What an answer also does\<close>

text \<open>"Save as new" answers \<open>Save\<close>. With one login saved for the site, the login is overwritten, name and password.\<close>

lemma save_as_new_overwrites:
  "co_disk (fst (corner_run sample_af_host [sample_capture_event False, Answered sample_page (answer Save ''c1'') True ''2'' []] (sample_site, []))) ''v'' =
     [(''1'', JObj [(''username'', JStr ''other''), (''password'', JStr ''q'')])]"
  by code_simp

text \<open>While the vault is locked every capture looks new; its save, flushed after the unlock, overwrites as well.\<close>

definition sample_locked :: corner where
  "sample_locked = sample_site\<lparr>co_bg := sample_bg\<lparr>bg_veks := (bg_veks sample_bg)\<lparr>veks := []\<rparr>\<rparr>\<rparr>"

lemma locked_save_overwrites:
  "fst (cornerPromptCapture sample_af_host [] sample_page ''other'' ''q'' False ''c1'' 0 sample_locked) =
      COk (Some (SaveLoginPrompt ''c1'' ''a.com'' True ''other'' ''q'')) \<and>
    co_disk (fst (corner_run sample_af_host [sample_capture_event False, Answered sample_page (answer SaveUnlockFirst ''c1'') True [] [],
      SessionEvent (VeksChange (bg_veks sample_bg)), FlushBegins None sample_read, FlushCommits 0 True ''2''] (sample_locked, []))) ''v'' =
      [(''1'', JObj [(''username'', JStr ''other''), (''password'', JStr ''q'')])]"
  by code_simp

text \<open>Two flushes that overlap both commit: a signup is saved twice.\<close>

lemma overlapping_flushes_save_twice:
  "length (co_disk (fst (corner_run sample_af_host [sample_capture_event True, Answered sample_page (answer SaveUnlockFirst ''c1'') True [] [],
     SessionEvent (VeksChange (bg_veks sample_bg)), FlushBegins None [], FlushBegins None [], FlushCommits 0 True ''2'', FlushCommits 0 True ''3'']
     (sample_locked, []))) ''v'') = 3"
  by code_simp

text \<open>An answer to an older card of the site drops the capture parked since, whatever the answer.\<close>

lemma stale_answer_drops_capture:
  assumes "answer_capture (answer_site h sd) w = Some c" "cp_promptId c \<noteq> cr_promptId r"
  shows "answer_capture (answer_site h sd) (snd (snd (cornerPromptResponse h rs writes new_id sd r w))) = None"
  using assms by (auto simp: cornerPromptResponse_def answer_capture_def clear_site_def clearPendingCapture_def Let_def split: if_splits)

text \<open>A save that fails, because the vault was locked in the meantime or its file was not written, loses the capture.\<close>

lemma failed_save_loses_capture:
  assumes "answer_capture (answer_site h sd) w = Some c" "cp_promptId c = cr_promptId r" "cr_action r = Save"
  shows "answer_capture (answer_site h sd) (snd (snd (cornerPromptResponse h rs False new_id sd r w))) = None"
proof -
  obtain res w1 where o: "commit_by_outcome h False new_id (edited (cr_editedUsername r) c) save_target (hydrated h rs w) = (res, w1)" by force
  then show ?thesis
    using assms
    by (auto simp: cornerPromptResponse_def finish_answer_def answer_capture_def clear_site_def clearPendingCapture_def Let_def split: if_splits)
qed

end
