(* ===== verification/Entry_Identity.thy ===== *)
theory Entry_Identity
  imports Json
begin

text \<open>
  Whether an entry is one the vault already holds (\<open>packages/core/src/vault/entry-identity.ts\<close>): the content of an
  entry without what the vault stamps on it, in a canonical order, as the text that identifies it; and the split of an
  import into what is new and what is not.
\<close>

definition METADATA_KEYS :: "string list" where
  "METADATA_KEYS = [''id'', ''createdAt'', ''updatedAt'', ''lastUsedAt'', ''archivedAt'', ''tags'', ''breach'']"

text \<open>Property names are not numerals, so the rebuilt object keeps the sorted order.\<close>

function canonical :: "json \<Rightarrow> json" where
  "canonical (JArr vs) = JArr (map canonical vs)"
| "canonical (JObj kvs) =
     JObj (map (\<lambda>(k, v). (k, canonical v))
       (filter (\<lambda>(k, v). k \<notin> set METADATA_KEYS \<and> v \<noteq> JUndef) (sort_key fst kvs)))"
| "canonical JNull = JNull"
| "canonical JUndef = JUndef"
| "canonical (JBool b) = JBool b"
| "canonical (JNum n) = JNum n"
| "canonical (JStr s) = JStr s"
  by pat_completeness auto
termination
  by (relation "measure size") (auto dest: size_snd_json size_elem_json)

definition entryContentKey :: "json \<Rightarrow> string" where
  "entryContentKey e = stringify (canonical e)"

text \<open>The loop over the incoming entries: the keys seen, the fresh ones, the count of the others.\<close>

fun split_loop :: "string list \<Rightarrow> json list \<Rightarrow> json list \<times> nat" where
  "split_loop seen [] = ([], 0)"
| "split_loop seen (e # es) =
     (let k = entryContentKey e
      in if k \<in> set seen then (case split_loop seen es of (fresh, n) \<Rightarrow> (fresh, n + 1))
         else (case split_loop (k # seen) es of (fresh, n) \<Rightarrow> (e # fresh, n)))"

definition splitAlreadyImported :: "json list \<Rightarrow> json list \<Rightarrow> json list \<times> nat" where
  "splitAlreadyImported existing incoming = split_loop (map entryContentKey existing) incoming"

subsection \<open>What the key identifies\<close>

text \<open>A JavaScript value: names distinct at every depth, no undefined element in an array.\<close>

fun js_value :: "json \<Rightarrow> bool" where
  "js_value (JArr vs) = list_all (\<lambda>v. v \<noteq> JUndef \<and> js_value v) vs"
| "js_value (JObj kvs) = (distinct (map fst kvs) \<and> list_all (\<lambda>(k, v). js_value v) kvs)"
| "js_value _ = True"

lemma canonical_undef: "canonical v = JUndef \<longleftrightarrow> v = JUndef"
  by (cases v) auto

lemma canonical_plain: "js_value v \<Longrightarrow> v \<noteq> JUndef \<Longrightarrow> plain (canonical v)"
  by (induction v rule: canonical.induct) (auto simp: list_all_iff)

text \<open>The content of an object: its defined properties that are not the vault's.\<close>

definition content_of :: "(string \<times> json) list \<Rightarrow> string \<Rightarrow> json option" where
  "content_of kvs k = (if k \<in> set METADATA_KEYS then None
     else case map_of kvs k of Some v \<Rightarrow> if v = JUndef then None else Some (canonical v) | None \<Rightarrow> None)"

lemma map_of_canonical:
  assumes "distinct (map fst kvs)"
  shows "map_of (map (\<lambda>(k, v). (k, canonical v)) (filter (\<lambda>(k, v). k \<notin> set METADATA_KEYS \<and> v \<noteq> JUndef) (sort_key fst kvs))) k =
    content_of kvs k"
proof -
  have m: "map_of (map (\<lambda>(k, v). (k, canonical v)) (filter (\<lambda>(k, v). k \<notin> set METADATA_KEYS \<and> v \<noteq> JUndef) xs)) k = content_of xs k"
    if "distinct (map fst xs)" for xs
    using that
  proof (induction xs)
    case (Cons x xs)
    obtain l v where "x = (l, v)" by (cases x)
    moreover have "map_of xs l = None" using Cons.prems calculation by (simp add: map_of_eq_None_iff)
    ultimately show ?case using Cons by (auto simp: content_of_def)
  qed (simp add: content_of_def)
  have "distinct (map fst (sort_key fst kvs))"
    using assms by (metis distinct_map set_sort distinct_sort inj_on_def)
  moreover have "map_of (sort_key fst kvs) = map_of kvs"
    using assms by (intro map_of_inject_set [THEN iffD2]) (auto simp: calculation)
  ultimately show ?thesis
    using m [of "sort_key fst kvs"] by (simp add: content_of_def)
qed

lemma canonical_object_eq:
  assumes "distinct (map fst xs)" "distinct (map fst ys)"
  shows "canonical (JObj xs) = canonical (JObj ys) \<longleftrightarrow> content_of xs = content_of ys"
proof
  assume "canonical (JObj xs) = canonical (JObj ys)"
  then show "content_of xs = content_of ys"
    using map_of_canonical [OF assms(1)] map_of_canonical [OF assms(2)] by (intro ext) (metis canonical.simps(2) json.inject(5))
next
  assume c: "content_of xs = content_of ys"
  let ?c = "\<lambda>kvs. map (\<lambda>(k, v). (k, canonical v)) (filter (\<lambda>(k, v). k \<notin> set METADATA_KEYS \<and> v \<noteq> JUndef) (sort_key fst kvs))"
  have keys: "map fst (?c kvs) = map fst (filter (\<lambda>(k, v). k \<notin> set METADATA_KEYS \<and> v \<noteq> JUndef) (sort_key fst kvs))" for kvs
    by (simp add: case_prod_unfold comp_def)
  have srt: "sorted (map fst (?c kvs))" for kvs
    unfolding keys by (intro sorted_filter) simp
  have dist: "distinct (map fst (?c kvs))" if "distinct (map fst kvs)" for kvs
    unfolding keys by (intro distinct_map_filter) (metis that distinct_map set_sort distinct_sort)
  have "map_of (?c xs) = map_of (?c ys)"
    using map_of_canonical [OF assms(1)] map_of_canonical [OF assms(2)] c by (intro ext) simp
  then have s: "set (?c xs) = set (?c ys)"
    using map_of_inject_set [OF dist [OF assms(1)] dist [OF assms(2)]] by simp
  have inj: "inj_on fst (set (?c xs))"
    using dist [OF assms(1)] by (simp only: distinct_map)
  have "?c xs = ?c ys"
  proof (rule map_sorted_distinct_set_unique [where f = fst])
    show "inj_on fst (set (?c xs) \<union> set (?c ys))"
      using inj unfolding s by (simp only: Un_absorb)
  qed (use s srt dist assms in auto)
  then show "canonical (JObj xs) = canonical (JObj ys)" by simp
qed

lemma content_key_eq:
  assumes "js_value (JObj xs)" "js_value (JObj ys)"
  shows "entryContentKey (JObj xs) = entryContentKey (JObj ys) \<longleftrightarrow> content_of xs = content_of ys"
  using canonical_plain [OF assms(1)] canonical_plain [OF assms(2)] assms canonical_object_eq
  by (simp add: entryContentKey_def stringify_inj del: canonical.simps)

subsection \<open>Importing twice\<close>

lemma split_loop_spec:
  assumes "split_loop seen es = (fresh, n)"
  shows "n + length fresh = length es \<and> set fresh \<subseteq> set es \<and> distinct (map entryContentKey fresh) \<and>
    entryContentKey ` set fresh \<inter> set seen = {} \<and> entryContentKey ` set es \<subseteq> set seen \<union> entryContentKey ` set fresh"
  using assms
proof (induction seen es arbitrary: fresh n rule: split_loop.induct)
  case (2 seen e es)
  show ?case
  proof (cases "entryContentKey e \<in> set seen")
    case True
    obtain f m where "split_loop seen es = (f, m)" by force
    then show ?thesis using 2(1) [OF refl True] 2(3) True by (auto simp: Let_def)
  next
    case False
    obtain f m where "split_loop (entryContentKey e # seen) es = (f, m)" by force
    then show ?thesis using 2(2) [OF refl False] 2(3) False by (auto simp: Let_def disjoint_iff)
  qed
qed simp

lemma split_loop_known: "entryContentKey ` set es \<subseteq> set seen \<Longrightarrow> split_loop seen es = ([], length es)"
  by (induction es) auto

text \<open>The seven properties the vault keeps for itself, and what it stored for an imported entry: the other
  properties have the values they had, in whatever order; those seven are whatever the vault made them.\<close>

definition stamp_names :: "string list" where
  "stamp_names = [''id'', ''createdAt'', ''updatedAt'', ''lastUsedAt'', ''archivedAt'', ''tags'', ''breach'']"

definition defined_at :: "(string \<times> json) list \<Rightarrow> string \<Rightarrow> json option" where
  "defined_at kvs k = (case map_of kvs k of Some v \<Rightarrow> if v = JUndef then None else Some v | None \<Rightarrow> None)"

definition entry_value :: "json \<Rightarrow> bool" where
  "entry_value e \<longleftrightarrow> js_value e \<and> (case e of JObj _ \<Rightarrow> True | _ \<Rightarrow> False)"

definition stored_as :: "json \<Rightarrow> json \<Rightarrow> bool" where
  "stored_as e s \<longleftrightarrow> (case (e, s) of
     (JObj xs, JObj ys) \<Rightarrow> js_value e \<and> js_value s \<and> (\<forall>k. k \<notin> set stamp_names \<longrightarrow> defined_at xs k = defined_at ys k)
   | _ \<Rightarrow> False)"

text \<open>Two entries with the same texts: every property but those seven that is a text in one is that text in the other.\<close>

definition same_texts :: "json \<Rightarrow> json \<Rightarrow> bool" where
  "same_texts e g \<longleftrightarrow> (case (e, g) of
     (JObj xs, JObj ys) \<Rightarrow> (\<forall>k t. k \<notin> set stamp_names \<longrightarrow> (map_of xs k = Some (JStr t) \<longleftrightarrow> map_of ys k = Some (JStr t)))
   | _ \<Rightarrow> False)"

lemma content_of_defined:
  "content_of kvs k = (if k \<in> set stamp_names then None else map_option canonical (defined_at kvs k))"
  by (simp add: content_of_def defined_at_def METADATA_KEYS_def stamp_names_def split: option.split)

lemma stored_same_key: "stored_as e s \<Longrightarrow> entryContentKey e = entryContentKey s"
proof -
  assume a: "stored_as e s"
  then obtain xs ys where o: "e = JObj xs" "s = JObj ys" by (auto simp: stored_as_def split: json.splits)
  with a have "content_of xs = content_of ys"
    by (intro ext) (auto simp: stored_as_def content_of_defined)
  then show ?thesis
    using a o content_key_eq [of xs ys] by (simp add: stored_as_def del: js_value.simps)
qed

lemma canonical_text: "canonical v = JStr t \<longleftrightarrow> v = JStr t"
  by (cases v) auto

lemma text_at: "k \<notin> set stamp_names \<Longrightarrow> content_of kvs k = Some (JStr t) \<longleftrightarrow> map_of kvs k = Some (JStr t)"
  by (auto simp: content_of_defined defined_at_def canonical_text split: option.splits)

lemma same_key_texts:
  assumes "entry_value e" "entry_value g" "entryContentKey e = entryContentKey g"
  shows "same_texts e g"
proof -
  obtain xs ys where o: "e = JObj xs" "g = JObj ys" using assms(1,2) by (auto simp: entry_value_def split: json.splits)
  then have "content_of xs = content_of ys"
    using assms content_key_eq [of xs ys] by (simp add: entry_value_def del: js_value.simps)
  then have "k \<notin> set stamp_names \<Longrightarrow> map_of xs k = Some (JStr t) \<longleftrightarrow> map_of ys k = Some (JStr t)" for k t
    using text_at [of k xs t] text_at [of k ys t] by simp
  then show ?thesis
    by (simp add: same_texts_def o)
qed


definition sample_entry :: "nat \<Rightarrow> string \<Rightarrow> json" where
  "sample_entry t u = JObj [(''updatedAt'', JNum t), (''title'', JStr ''Mail''), (''username'', JStr u), (''urls'', JArr [JStr ''a'', JStr ''b''])]"

definition sample_stored :: json where
  "sample_stored = JObj [(''username'', JStr ''y''), (''urls'', JArr [JStr ''a'', JStr ''b'']), (''id'', JStr ''7''),
     (''archivedAt'', JNum 9), (''createdAt'', JNum 3), (''tags'', JArr [JStr ''work'']), (''title'', JStr ''Mail''),
     (''updatedAt'', JNum 8), (''lastUsedAt'', JNum 8)]"


end
