(* ===== verification/Vault_Format.thy ===== *)
theory Vault_Format
  imports Bytes
begin

unbundle bit_operations_syntax

text \<open>
  The VLT1 v2 container (\<open>packages/core/src/vault-format.ts\<close>): unlock slots as
  type-length-value records between a fixed header and the encrypted entries. A
  \<open>Uint8Array\<close> is a list of 8-bit words; writing a field at the running offset of a buffer
  of the exact size is concatenation, and reading at a running offset is splitting the rest
  of the stream. A zod schema failure is the error \<open>SchemaError\<close>.
\<close>

definition MAGIC :: bytes where
  "MAGIC = [0x56, 0x4c, 0x54, 0x31]"

definition VERSION :: u8 where
  "VERSION = 2"

definition MAX_SLOTS :: nat where
  "MAX_SLOTS = 16"

definition LEN_IV :: nat where "LEN_IV = 12"
definition LEN_SALT :: nat where "LEN_SALT = 16"
definition LEN_VERIFIER :: nat where "LEN_VERIFIER = 32"
definition LEN_SLOT_ID :: nat where "LEN_SLOT_ID = 16"
definition LEN_WRAP_IV :: nat where "LEN_WRAP_IV = 12"
definition LEN_WRAPPED_VEK :: nat where "LEN_WRAPPED_VEK = 48"
definition LEN_HMAC_SECRET_SALT :: nat where "LEN_HMAC_SECRET_SALT = 32"

lemmas len_defs = LEN_IV_def LEN_SALT_def LEN_VERIFIER_def LEN_SLOT_ID_def LEN_WRAP_IV_def
  LEN_WRAPPED_VEK_def LEN_HMAC_SECRET_SALT_def

definition HEADER_FIXED_LEN :: nat where
  "HEADER_FIXED_LEN = length MAGIC + 1 + 1"

definition TLV_PREFIX_LEN :: nat where
  "TLV_PREFIX_LEN = 1 + 2"

definition PASSWORD_PAYLOAD_LEN :: nat where
  "PASSWORD_PAYLOAD_LEN = LEN_SLOT_ID + LEN_SALT + LEN_VERIFIER + LEN_WRAP_IV + LEN_WRAPPED_VEK"

definition WEBAUTHN_FIXED_LEN :: nat where
  "WEBAUTHN_FIXED_LEN =
     LEN_SLOT_ID + 2 + LEN_HMAC_SECRET_SALT + LEN_VERIFIER + LEN_WRAP_IV + LEN_WRAPPED_VEK"

definition SLOT_KIND_PASSWORD :: int where "SLOT_KIND_PASSWORD = 1"
definition SLOT_KIND_WEBAUTHN :: int where "SLOT_KIND_WEBAUTHN = 2"
definition SLOT_KIND_RECOVERY :: int where "SLOT_KIND_RECOVERY = 3"

lemmas kind_defs = SLOT_KIND_PASSWORD_def SLOT_KIND_WEBAUTHN_def SLOT_KIND_RECOVERY_def

definition KNOWN_KINDS :: "int list" where
  "KNOWN_KINDS = [SLOT_KIND_PASSWORD, SLOT_KIND_WEBAUTHN, SLOT_KIND_RECOVERY]"

text \<open>The five fields every known slot kind has.\<close>

record key_fields =
  slotId :: bytes
  salt :: bytes
  verifier :: bytes
  wrapIv :: bytes
  wrappedVek :: bytes

text \<open>An opaque slot's kind is any number in memory and one byte in the file.\<close>

datatype slot =
    PasswordSlot key_fields
  | WebauthnSlot bytes key_fields
  | RecoverySlot key_fields
  | OpaqueSlot int bytes

record vault_blob =
  slots :: "slot list"
  entriesIv :: bytes
  entriesCiphertext :: bytes

datatype format_error =
    SchemaError
  | SlotTooLarge nat
  | BlobTooShort nat
  | BadMagic
  | UnsupportedVersion u8
  | NoSlots
  | TooManySlots nat
  | SlotHeaderTruncated nat
  | SlotPayloadTruncated nat
  | WebauthnTooShort nat
  | WebauthnLengthMismatch nat
  | IvTruncated

fun slot_kind :: "slot \<Rightarrow> int" where
  "slot_kind (PasswordSlot _) = SLOT_KIND_PASSWORD"
| "slot_kind (WebauthnSlot _ _) = SLOT_KIND_WEBAUTHN"
| "slot_kind (RecoverySlot _) = SLOT_KIND_RECOVERY"
| "slot_kind (OpaqueSlot k _) = k"

definition key_fields_schema :: "nat \<Rightarrow> key_fields \<Rightarrow> bool" where
  "key_fields_schema saltLen f \<longleftrightarrow>
     length (slotId f) = LEN_SLOT_ID \<and> length (salt f) = saltLen \<and>
     length (verifier f) = LEN_VERIFIER \<and> length (wrapIv f) = LEN_WRAP_IV \<and>
     length (wrappedVek f) = LEN_WRAPPED_VEK"

fun slot_schema :: "slot \<Rightarrow> bool" where
  "slot_schema (PasswordSlot f) \<longleftrightarrow> key_fields_schema LEN_SALT f"
| "slot_schema (WebauthnSlot cid f) \<longleftrightarrow>
     1 \<le> length cid \<and> length cid \<le> 0xffff \<and> key_fields_schema LEN_HMAC_SECRET_SALT f"
| "slot_schema (RecoverySlot f) \<longleftrightarrow> key_fields_schema LEN_SALT f"
| "slot_schema (OpaqueSlot k p) \<longleftrightarrow> k \<notin> set KNOWN_KINDS"

definition blob_schema :: "vault_blob \<Rightarrow> bool" where
  "blob_schema b \<longleftrightarrow>
     list_all slot_schema (slots b) \<and> 1 \<le> length (slots b) \<and> length (slots b) \<le> MAX_SLOTS \<and>
     length (entriesIv b) = LEN_IV"

definition verifierPrefix :: bytes where
  "verifierPrefix = MAGIC @ [VERSION]"

subsection \<open>Encoding\<close>

text \<open>\<open>(n >> 8) & 0xff\<close> and \<open>n & 0xff\<close>.\<close>

definition u16be :: "nat \<Rightarrow> bytes" where
  "u16be n = [word_of_nat (drop_bit 8 n), word_of_nat n]"

text \<open>\<open>((a << 8) | b) & 0xffff\<close>.\<close>

definition read_u16be :: "u8 \<Rightarrow> u8 \<Rightarrow> nat" where
  "read_u16be a b = take_bit 16 (push_bit 8 (unat a) OR unat b)"

definition encodePasswordPayload :: "key_fields \<Rightarrow> bytes" where
  "encodePasswordPayload f = slotId f @ salt f @ verifier f @ wrapIv f @ wrappedVek f"

definition encodeWebauthnPayload :: "bytes \<Rightarrow> key_fields \<Rightarrow> bytes" where
  "encodeWebauthnPayload cid f =
     slotId f @ u16be (length cid) @ cid @ salt f @ verifier f @ wrapIv f @ wrappedVek f"

fun encodeSlotPayload :: "slot \<Rightarrow> bytes" where
  "encodeSlotPayload (PasswordSlot f) = encodePasswordPayload f"
| "encodeSlotPayload (WebauthnSlot cid f) = encodeWebauthnPayload cid f"
| "encodeSlotPayload (RecoverySlot f) = encodePasswordPayload f"
| "encodeSlotPayload (OpaqueSlot _ p) = p"

definition encode_slot :: "slot \<Rightarrow> bytes" where
  "encode_slot s =
     word_of_int (slot_kind s) # u16be (length (encodeSlotPayload s)) @ encodeSlotPayload s"

definition encodeVaultBlob :: "vault_blob \<Rightarrow> format_error + bytes" where
  "encodeVaultBlob b =
     (if \<not> blob_schema b then Inl SchemaError
      else (case find (\<lambda>s. length (encodeSlotPayload s) > 0xffff) (slots b) of
              Some s \<Rightarrow> Inl (SlotTooLarge (length (encodeSlotPayload s)))
            | None \<Rightarrow>
                Inr (MAGIC @ [VERSION, word_of_nat (length (slots b))] @
                     concat (map encode_slot (slots b)) @ entriesIv b @ entriesCiphertext b)))"

subsection \<open>Decoding\<close>

definition slicePasswordFields :: "bytes \<Rightarrow> key_fields" where
  "slicePasswordFields p =
     \<lparr>slotId = take LEN_SLOT_ID p,
      salt = take LEN_SALT (drop LEN_SLOT_ID p),
      verifier = take LEN_VERIFIER (drop (LEN_SLOT_ID + LEN_SALT) p),
      wrapIv = take LEN_WRAP_IV (drop (LEN_SLOT_ID + LEN_SALT + LEN_VERIFIER) p),
      wrappedVek = take LEN_WRAPPED_VEK (drop (LEN_SLOT_ID + LEN_SALT + LEN_VERIFIER + LEN_WRAP_IV) p)\<rparr>"

definition decodeWebauthnPayload :: "bytes \<Rightarrow> format_error + slot" where
  "decodeWebauthnPayload p =
     (if length p < WEBAUTHN_FIXED_LEN + 1 then Inl (WebauthnTooShort (length p))
      else
        let credIdLen = read_u16be (p ! LEN_SLOT_ID) (p ! (LEN_SLOT_ID + 1));
            off = LEN_SLOT_ID + 2
        in if off + credIdLen + LEN_HMAC_SECRET_SALT + LEN_VERIFIER + LEN_WRAP_IV + LEN_WRAPPED_VEK
              \<noteq> length p
           then Inl (WebauthnLengthMismatch credIdLen)
           else
             let off1 = off + credIdLen;
                 off2 = off1 + LEN_HMAC_SECRET_SALT;
                 off3 = off2 + LEN_VERIFIER;
                 off4 = off3 + LEN_WRAP_IV;
                 s = WebauthnSlot (take credIdLen (drop off p))
                       \<lparr>slotId = take LEN_SLOT_ID p,
                        salt = take LEN_HMAC_SECRET_SALT (drop off1 p),
                        verifier = take LEN_VERIFIER (drop off2 p),
                        wrapIv = take LEN_WRAP_IV (drop off3 p),
                        wrappedVek = take LEN_WRAPPED_VEK (drop off4 p)\<rparr>
             in if slot_schema s then Inr s else Inl SchemaError)"

definition decodeSlotPayload :: "int \<Rightarrow> bytes \<Rightarrow> format_error + slot" where
  "decodeSlotPayload kind p =
     (if kind = SLOT_KIND_PASSWORD then
        (let s = PasswordSlot (slicePasswordFields p) in if slot_schema s then Inr s else Inl SchemaError)
      else if kind = SLOT_KIND_WEBAUTHN then decodeWebauthnPayload p
      else if kind = SLOT_KIND_RECOVERY then
        (let s = RecoverySlot (slicePasswordFields p) in if slot_schema s then Inr s else Inl SchemaError)
      else Inr (OpaqueSlot kind p))"

text \<open>One round of the decoder's loop on the rest of the stream; \<open>i\<close> is the slot's index.\<close>

definition decode_slot :: "nat \<Rightarrow> bytes \<Rightarrow> format_error + (slot \<times> bytes)" where
  "decode_slot i rest =
     (if length rest < TLV_PREFIX_LEN then Inl (SlotHeaderTruncated i)
      else
        let kind = uint (rest ! 0); len = read_u16be (rest ! 1) (rest ! 2);
            rest = drop TLV_PREFIX_LEN rest
        in if length rest < len then Inl (SlotPayloadTruncated i)
           else (case decodeSlotPayload kind (take len rest) of
                   Inl e \<Rightarrow> Inl e
                 | Inr s \<Rightarrow> Inr (s, drop len rest)))"

fun decode_slots :: "nat \<Rightarrow> nat \<Rightarrow> bytes \<Rightarrow> format_error + (slot list \<times> bytes)" where
  "decode_slots i 0 rest = Inr ([], rest)"
| "decode_slots i (Suc n) rest =
     (case decode_slot i rest of
        Inl e \<Rightarrow> Inl e
      | Inr (s, rest') \<Rightarrow>
          (case decode_slots (Suc i) n rest' of
             Inl e \<Rightarrow> Inl e
           | Inr (ss, rest'') \<Rightarrow> Inr (s # ss, rest'')))"

definition decodeVaultBlob :: "bytes \<Rightarrow> format_error + vault_blob" where
  "decodeVaultBlob bs =
     (if length bs < HEADER_FIXED_LEN then Inl (BlobTooShort (length bs))
      else if take (length MAGIC) bs \<noteq> MAGIC then Inl BadMagic
      else if bs ! length MAGIC \<noteq> VERSION then Inl (UnsupportedVersion (bs ! length MAGIC))
      else
        let slotCount = unat (bs ! (length MAGIC + 1))
        in if slotCount = 0 then Inl NoSlots
           else if slotCount > MAX_SLOTS then Inl (TooManySlots slotCount)
           else (case decode_slots 0 slotCount (drop HEADER_FIXED_LEN bs) of
                   Inl e \<Rightarrow> Inl e
                 | Inr (ss, rest) \<Rightarrow>
                     if length rest < LEN_IV then Inl IvTruncated
                     else Inr \<lparr>slots = ss, entriesIv = take LEN_IV rest,
                               entriesCiphertext = drop LEN_IV rest\<rparr>))"

subsection \<open>Finding slots\<close>

fun findPasswordSlot_in :: "slot list \<Rightarrow> key_fields option" where
  "findPasswordSlot_in [] = None"
| "findPasswordSlot_in (PasswordSlot f # ss) = Some f"
| "findPasswordSlot_in (_ # ss) = findPasswordSlot_in ss"

definition findPasswordSlot :: "vault_blob \<Rightarrow> key_fields option" where
  "findPasswordSlot b = findPasswordSlot_in (slots b)"

definition findWebauthnSlots :: "vault_blob \<Rightarrow> slot list" where
  "findWebauthnSlots b = filter (\<lambda>s. slot_kind s = SLOT_KIND_WEBAUTHN) (slots b)"

definition findRecoverySlots :: "vault_blob \<Rightarrow> slot list" where
  "findRecoverySlots b = filter (\<lambda>s. slot_kind s = SLOT_KIND_RECOVERY) (slots b)"

subsection \<open>Slots read back\<close>

lemma read_u16be_u16be:
  assumes "n \<le> 0xffff"
  shows "read_u16be (word_of_nat (drop_bit 8 n)) (word_of_nat n) = n"
proof -
  have "push_bit 8 (take_bit 8 (drop_bit 8 n)) OR take_bit 8 n = take_bit 16 n"
    by (rule bit_eqI) (auto simp: bit_simps)
  moreover have "take_bit 16 n = n"
    using assms by (simp add: take_bit_nat_eq_self_iff)
  ultimately show ?thesis
    by (simp add: read_u16be_def unsigned_of_nat)
qed

lemma read_u16be_bound: "read_u16be a b \<le> 0xffff"
proof -
  have "read_u16be a b < 2 ^ 16"
    unfolding read_u16be_def by (rule take_bit_nat_less_exp)
  then show ?thesis by simp
qed

lemma length_encodePasswordPayload:
  "key_fields_schema LEN_SALT f \<Longrightarrow> length (encodePasswordPayload f) = PASSWORD_PAYLOAD_LEN"
  by (simp add: encodePasswordPayload_def key_fields_schema_def PASSWORD_PAYLOAD_LEN_def len_defs)

lemma slicePasswordFields_encode:
  "key_fields_schema LEN_SALT f \<Longrightarrow> slicePasswordFields (encodePasswordPayload f) = f"
  by (simp add: slicePasswordFields_def encodePasswordPayload_def key_fields_schema_def len_defs)

lemma decodeWebauthn_encode:
  assumes "slot_schema (WebauthnSlot cid f)"
  shows "decodeWebauthnPayload (encodeWebauthnPayload cid f) = Inr (WebauthnSlot cid f)"
  using assms read_u16be_u16be [of "length cid"]
  by (auto simp: decodeWebauthnPayload_def encodeWebauthnPayload_def u16be_def key_fields_schema_def
      len_defs WEBAUTHN_FIXED_LEN_def nth_append Let_def drop_Cons')

lemma decodeSlotPayload_encode:
  "slot_schema s \<Longrightarrow> decodeSlotPayload (slot_kind s) (encodeSlotPayload s) = Inr s"
  by (cases s)
    (auto simp: decodeSlotPayload_def slicePasswordFields_encode decodeWebauthn_encode kind_defs
      KNOWN_KINDS_def simp del: slot_schema.simps(2))

text \<open>The slots the file can hold: valid, at most 65535 bytes of payload, a one-byte kind.\<close>

definition slot_fits :: "slot \<Rightarrow> bool" where
  "slot_fits s \<longleftrightarrow>
     slot_schema s \<and> length (encodeSlotPayload s) \<le> 0xffff \<and> 0 \<le> slot_kind s \<and> slot_kind s < 256"

lemma decode_encode_slot:
  assumes "slot_fits s"
  shows "decode_slot i (encode_slot s @ r) = Inr (s, r)"
proof -
  have "uint (word_of_int (slot_kind s) :: u8) = slot_kind s"
    using assms by (simp add: slot_fits_def unsigned_of_int take_bit_int_eq_self)
  then show ?thesis
    using assms
    by (simp add: decode_slot_def encode_slot_def u16be_def TLV_PREFIX_LEN_def Let_def slot_fits_def
        read_u16be_u16be decodeSlotPayload_encode)
qed

lemma decode_slot_extend:
  assumes "decode_slot i bs = Inr (s, r)"
  shows "decode_slot i (bs @ t) = Inr (s, r @ t)"
proof -
  have len: "3 \<le> length bs" "read_u16be (bs ! 1) (bs ! 2) \<le> length bs - 3"
    using assms by (auto simp: decode_slot_def TLV_PREFIX_LEN_def Let_def split: if_splits)
  then have "(bs @ t) ! 0 = bs ! 0" "(bs @ t) ! 1 = bs ! 1" "(bs @ t) ! 2 = bs ! 2"
    by (auto simp: nth_append)
  with assms len show ?thesis
    by (auto simp: decode_slot_def TLV_PREFIX_LEN_def Let_def split: if_splits sum.splits)
qed

lemma decodeSlotPayload_schema:
  "decodeSlotPayload k p = Inr s \<Longrightarrow> slot_schema s \<and> slot_kind s = k"
  by (auto simp: decodeSlotPayload_def decodeWebauthnPayload_def Let_def KNOWN_KINDS_def kind_defs
      split: if_splits simp del: slot_schema.simps(1-3))

lemma length_sliced:
  "key_fields_schema LEN_SALT (slicePasswordFields p) \<Longrightarrow> PASSWORD_PAYLOAD_LEN \<le> length p"
  by (auto simp: key_fields_schema_def slicePasswordFields_def len_defs PASSWORD_PAYLOAD_LEN_def)

lemma length_payload_decoded:
  "decodeSlotPayload k p = Inr s \<Longrightarrow> length (encodeSlotPayload s) \<le> length p"
  by (auto simp: decodeSlotPayload_def decodeWebauthnPayload_def Let_def length_sliced
      length_encodePasswordPayload split: if_splits)
    (auto simp: encodeWebauthnPayload_def u16be_def len_defs key_fields_schema_def)

interpretation slot_codec: prefix_codec encode_slot decode_slot slot_fits
proof unfold_locales
  fix i bs s r
  assume dec: "decode_slot i bs = Inr (s, r)"
  define len where "len = read_u16be (bs ! 1) (bs ! 2)"
  from dec have "decodeSlotPayload (uint (bs ! 0)) (take len (drop TLV_PREFIX_LEN bs)) = Inr s"
    by (auto simp: decode_slot_def Let_def len_def split: if_splits sum.splits)
  from decodeSlotPayload_schema [OF this] length_payload_decoded [OF this]
  show "slot_fits s"
    using read_u16be_bound [of "bs ! 1" "bs ! 2"] uint_lt2p [of "bs ! 0"]
    by (auto simp: slot_fits_def len_def)
qed (simp_all add: decode_encode_slot decode_slot_extend)

lemma decode_slots_many: "decode_slots i n bs = slot_codec.dec_many i n bs"
  by (induction n arbitrary: i bs) (auto split: sum.splits)

subsection \<open>Blobs read back\<close>

definition blob_fits :: "vault_blob \<Rightarrow> bool" where
  "blob_fits b \<longleftrightarrow> blob_schema b \<and> list_all slot_fits (slots b)"

lemma slot_fits_sizes:
  "list_all slot_fits ss \<Longrightarrow> find (\<lambda>s. length (encodeSlotPayload s) > 0xffff) ss = None"
  by (auto simp: find_None_iff list_all_iff slot_fits_def not_less)

lemma encode_fits:
  "blob_fits b \<Longrightarrow>
   encodeVaultBlob b = Inr (MAGIC @ [VERSION, word_of_nat (length (slots b))] @
     concat (map encode_slot (slots b)) @ entriesIv b @ entriesCiphertext b)"
  by (simp add: blob_fits_def encodeVaultBlob_def slot_fits_sizes)

lemma decode_encode_fits:
  assumes "blob_fits b" "encodeVaultBlob b = Inr bs"
  shows "decodeVaultBlob bs = Inr b"
proof -
  have n: "unat (word_of_nat (length (slots b)) :: u8) = length (slots b)"
    using assms(1) by (simp add: unsigned_of_nat take_bit_nat_eq_self blob_fits_def blob_schema_def MAX_SLOTS_def)
  have "decode_slots 0 (length (slots b)) (concat (map encode_slot (slots b)) @ entriesIv b @ entriesCiphertext b)
      = Inr (slots b, entriesIv b @ entriesCiphertext b)"
    using assms(1) unfolding decode_slots_many
    by (intro slot_codec.dec_many_enc) (simp add: blob_fits_def)
  then show ?thesis
    using assms encode_fits [OF assms(1)]
    by (auto simp: decodeVaultBlob_def MAGIC_def HEADER_FIXED_LEN_def n blob_fits_def blob_schema_def
        MAX_SLOTS_def LEN_IV_def Let_def)
qed

lemma decoded_fits:
  assumes "decodeVaultBlob bs = Inr b"
  shows "blob_fits b"
proof -
  let ?n = "unat (bs ! (length MAGIC + 1))"
  obtain rest where rest: "decode_slots 0 ?n (drop HEADER_FIXED_LEN bs) = Inr (slots b, rest)"
    and iv: "LEN_IV \<le> length rest" "entriesIv b = take LEN_IV rest" and n: "?n \<noteq> 0" "?n \<le> MAX_SLOTS"
    using assms by (auto simp: decodeVaultBlob_def Let_def split: if_splits sum.splits)
  have "list_all slot_fits (slots b) \<and> length (slots b) = ?n"
    using slot_codec.dec_many_ok rest unfolding decode_slots_many by blast
  then show ?thesis
    using iv n by (auto simp: blob_fits_def blob_schema_def list_all_iff slot_fits_def)
qed

lemma decode_extend:
  assumes "decodeVaultBlob bs = Inr b"
  shows "decodeVaultBlob (bs @ t) = Inr (b\<lparr>entriesCiphertext := entriesCiphertext b @ t\<rparr>)"
proof -
  let ?n = "unat (bs ! (length MAGIC + 1))"
  obtain rest where rest: "decode_slots 0 ?n (drop HEADER_FIXED_LEN bs) = Inr (slots b, rest)"
    and hdr: "HEADER_FIXED_LEN \<le> length bs" "take (length MAGIC) bs = MAGIC" "bs ! length MAGIC = VERSION"
      "?n \<noteq> 0" "?n \<le> MAX_SLOTS"
    and iv: "LEN_IV \<le> length rest" "b = \<lparr>slots = slots b, entriesIv = take LEN_IV rest, entriesCiphertext = drop LEN_IV rest\<rparr>"
    using assms by (auto simp: decodeVaultBlob_def Let_def split: if_splits sum.splits)
  have "decode_slots 0 ?n (drop HEADER_FIXED_LEN bs @ t) = Inr (slots b, rest @ t)"
    using rest unfolding decode_slots_many by (rule slot_codec.dec_many_extend)
  moreover have "drop HEADER_FIXED_LEN (bs @ t) = drop HEADER_FIXED_LEN bs @ t"
    "take (length MAGIC) (bs @ t) = take (length MAGIC) bs" "(bs @ t) ! length MAGIC = bs ! length MAGIC"
    "(bs @ t) ! (length MAGIC + 1) = bs ! (length MAGIC + 1)" "\<not> length (bs @ t) < HEADER_FIXED_LEN"
    using hdr(1) by (auto simp: HEADER_FIXED_LEN_def MAGIC_def nth_append)
  ultimately show ?thesis
    unfolding decodeVaultBlob_def Let_def using hdr iv
    by (simp add: not_less flip: iv(2)) (metis (no_types, lifting) iv(2) vault_blob.ext_inject vault_blob.surjective vault_blob.update_convs(3))
qed

lemma encoded_fits:
  assumes "encodeVaultBlob b = Inr bs" "list_all (\<lambda>s. 0 \<le> slot_kind s \<and> slot_kind s < 256) (slots b)"
  shows "blob_fits b"
proof -
  have "blob_schema b" "find (\<lambda>s. length (encodeSlotPayload s) > 0xffff) (slots b) = None"
    using assms(1) by (auto simp: encodeVaultBlob_def split: if_splits option.splits)
  then show ?thesis
    using assms(2) by (auto simp: blob_fits_def blob_schema_def slot_fits_def list_all_iff find_None_iff not_less)
qed

subsection \<open>Properties\<close>

text \<open>Property C21: a vault reads back as it was written. Every vault the encoder accepts, when its
  opaque slots have a kind that is a byte, decodes from the bytes the encoder produced to
  exactly the same slots, IV and ciphertext.\<close>

theorem vault_blob_round_trip:
  assumes "encodeVaultBlob b = Inr bs" "list_all (\<lambda>s. 0 \<le> slot_kind s \<and> slot_kind s < 256) (slots b)"
  shows "decodeVaultBlob bs = Inr b"
  using encoded_fits [OF assms] assms(1) by (rule decode_encode_fits)

definition sample_blob :: "int \<Rightarrow> vault_blob" where
  "sample_blob k =
     \<lparr>slots = [OpaqueSlot k [7, 8]], entriesIv = replicate 12 3, entriesCiphertext = [1, 2]\<rparr>"

lemma encode_sample:
  "encodeVaultBlob (sample_blob 9) = Inr ([0x56, 0x4c, 0x54, 0x31, 2, 1, 9, 0, 2, 7, 8] @ replicate 12 3 @ [1, 2])"
  by (simp add: encodeVaultBlob_def sample_blob_def blob_schema_def KNOWN_KINDS_def kind_defs MAX_SLOTS_def
      LEN_IV_def MAGIC_def VERSION_def encode_slot_def u16be_def drop_bit_eq_div)

theorem vault_blob_round_trip_witness:
  "decodeVaultBlob ([0x56, 0x4c, 0x54, 0x31, 2, 1, 9, 0, 2, 7, 8] @ replicate 12 3 @ [1, 2]) = Inr (sample_blob 9)"
  by (rule vault_blob_round_trip [OF encode_sample]) (simp add: sample_blob_def)

text \<open>Whatever file is accepted is a valid vault and can be saved again. A successful
  decode has between 1 and 16 slots, all of the right field lengths, and encoding the decoded
  vault succeeds and yields bytes that decode to it; unknown slot kinds survive verbatim.\<close>

lemma decoded_vault_saves_again:
  assumes "decodeVaultBlob bs = Inr b"
  shows "blob_schema b \<and> (\<exists>bs'. encodeVaultBlob b = Inr bs' \<and> decodeVaultBlob bs' = Inr b)"
proof -
  have "blob_fits b"
    using assms by (rule decoded_fits)
  then show ?thesis
    using encode_fits [of b] decode_encode_fits [of b] by (auto simp: blob_fits_def)
qed

text \<open>Property C26: a file cut short inside its header, its slots or its IV is rejected. If \<open>bs\<close> decodes
  to \<open>b\<close>, any prefix that loses more than the ciphertext does not decode, whatever the cut.\<close>

theorem truncated_vault_is_rejected:
  assumes "decodeVaultBlob bs = Inr b" "n + length (entriesCiphertext b) < length bs"
  shows "\<exists>e. decodeVaultBlob (take n bs) = Inl e"
proof (cases "decodeVaultBlob (take n bs)")
  case (Inr c)
  then have "decodeVaultBlob (take n bs @ drop n bs) = Inr (c\<lparr>entriesCiphertext := entriesCiphertext c @ drop n bs\<rparr>)"
    by (rule decode_extend)
  with assms(1) have "entriesCiphertext b = entriesCiphertext c @ drop n bs"
    by simp
  with assms(2) show ?thesis by simp
qed simp

theorem truncated_vault_is_rejected_witness:
  "\<exists>e. decodeVaultBlob (take 22 ([0x56, 0x4c, 0x54, 0x31, 2, 1, 9, 0, 2, 7, 8] @ replicate 12 3 @ [1, 2])) = Inl e"
proof (rule truncated_vault_is_rejected)
  show "decodeVaultBlob ([0x56, 0x4c, 0x54, 0x31, 2, 1, 9, 0, 2, 7, 8] @ replicate 12 3 @ [1, 2]) = Inr (sample_blob 9)"
    by (rule decode_encode_fits [OF _ encode_sample])
      (simp add: blob_fits_def sample_blob_def blob_schema_def KNOWN_KINDS_def kind_defs MAX_SLOTS_def
        LEN_IV_def slot_fits_def)
qed (simp add: sample_blob_def)

text \<open>The kind of an opaque slot is written modulo 256, so a kind that is not a byte is not
  preserved: 257 comes back as a password slot.\<close>

lemma opaque_kind_is_truncated:
  "encode_slot (OpaqueSlot 257 p) = encode_slot (OpaqueSlot 1 p) \<and> slot_schema (OpaqueSlot 257 p)
   \<and> \<not> slot_schema (OpaqueSlot 1 p)"
  by (simp add: encode_slot_def KNOWN_KINDS_def kind_defs)

end
