(* ===== verification/Hlc.thy ===== *)
theory Hlc
  imports Vault_Prelude
begin

text \<open>
  The hybrid logical clock (\<open>packages/core/src/sync/hlc.ts\<close>): stamps and their total
  order, the drift budget, and the per-device clock with its local and receive events.
  Stamps carry schema-validated non-negative integers, so \<open>wall\<close> and \<open>counter\<close> are \<open>nat\<close>.
\<close>

datatype hlc = Hlc (wall: nat) (counter: nat) (node: string)

definition MAX_COUNTER :: nat where
  "MAX_COUNTER = 0x7fffffff"

definition HLC_MAX_DRIFT_MS :: nat where
  "HLC_MAX_DRIFT_MS = 5 * 60 * 1000"

definition compareHlc :: "hlc \<Rightarrow> hlc \<Rightarrow> int" where
  "compareHlc a b =
     (if wall a \<noteq> wall b then (if wall a < wall b then -1 else 1)
      else if counter a \<noteq> counter b then (if counter a < counter b then -1 else 1)
      else if node a \<noteq> node b then (if node a < node b then -1 else 1)
      else 0)"

definition maxHlc :: "hlc \<Rightarrow> hlc \<Rightarrow> hlc" where
  "maxHlc a b = (if compareHlc a b \<ge> 0 then a else b)"

definition isFutureStamp :: "hlc \<Rightarrow> nat \<Rightarrow> bool" where
  "isFutureStamp h now \<longleftrightarrow> wall h > now + HLC_MAX_DRIFT_MS"

text \<open>Both inputs are whole unix seconds; \<open>Math.round\<close> rounds halves up.\<close>

definition clockAheadMinutes :: "int \<Rightarrow> int \<Rightarrow> int option" where
  "clockAheadMinutes ourSec peerSec =
     (let aheadMs = (ourSec - peerSec) * 1000
      in if aheadMs > int HLC_MAX_DRIFT_MS then Some ((aheadMs + 30000) div 60000) else None)"

subsection \<open>The clock of one device\<close>

record hybrid_clock =
  clk_wall :: nat
  clk_counter :: nat
  clk_node :: string

datatype clock_error = EmptyNodeId | CounterOverflow

definition newHybridClock :: "string \<Rightarrow> clock_error + hybrid_clock" where
  "newHybridClock n =
     (if n = [] then Inl EmptyNodeId
      else Inr \<lparr>clk_wall = 0, clk_counter = 0, clk_node = n\<rparr>)"

definition guard :: "hybrid_clock \<Rightarrow> clock_error option" where
  "guard c = (if clk_counter c > MAX_COUNTER then Some CounterOverflow else None)"

definition stamp_of :: "hybrid_clock \<Rightarrow> hlc" where
  "stamp_of c = Hlc (clk_wall c) (clk_counter c) (clk_node c)"

text \<open>
  The guard runs after the fields are assigned, so a refused event still leaves the clock
  advanced: each operation returns the new clock beside its result.
\<close>

definition guarded_stamp :: "hybrid_clock \<Rightarrow> (clock_error + hlc) \<times> hybrid_clock" where
  "guarded_stamp c = ((case guard c of Some e \<Rightarrow> Inl e | None \<Rightarrow> Inr (stamp_of c)), c)"

definition send_clock :: "nat \<Rightarrow> hybrid_clock \<Rightarrow> hybrid_clock" where
  "send_clock pt c =
     (let prevWall = clk_wall c; w = max prevWall pt
      in c\<lparr>clk_wall := w, clk_counter := (if w = prevWall then clk_counter c + 1 else 0)\<rparr>)"

definition send :: "nat \<Rightarrow> hybrid_clock \<Rightarrow> (clock_error + hlc) \<times> hybrid_clock" where
  "send pt c = guarded_stamp (send_clock pt c)"

definition receive_clock :: "nat \<Rightarrow> hlc \<Rightarrow> hybrid_clock \<Rightarrow> hybrid_clock" where
  "receive_clock pt remote c =
     (let prevWall = clk_wall c; prevCounter = clk_counter c;
          remoteWall = min (wall remote) (pt + HLC_MAX_DRIFT_MS);
          w = max (max prevWall remoteWall) pt
      in c\<lparr>clk_wall := w,
           clk_counter :=
             (if w = prevWall \<and> w = remoteWall then max prevCounter (counter remote) + 1
              else if w = prevWall then prevCounter + 1
              else if w = remoteWall then counter remote + 1
              else 0)\<rparr>)"

definition receive :: "nat \<Rightarrow> hlc \<Rightarrow> hybrid_clock \<Rightarrow> (clock_error + hlc) \<times> hybrid_clock" where
  "receive pt remote c = guarded_stamp (receive_clock pt remote c)"

definition witness_stamp :: "nat \<Rightarrow> hlc \<Rightarrow> hybrid_clock \<Rightarrow> (clock_error + unit) \<times> hybrid_clock" where
  "witness_stamp pt remote c =
     (case receive pt remote c of (Inl e, c') \<Rightarrow> (Inl e, c') | (Inr _, c') \<Rightarrow> (Inr (), c'))"

subsection \<open>The stamp order\<close>

lemma compareHlc_range: "compareHlc a b \<in> {-1, 0, 1}"
  by (simp add: compareHlc_def)

lemma compareHlc_zero_iff: "compareHlc a b = 0 \<longleftrightarrow> a = b"
  by (cases a; cases b) (auto simp: compareHlc_def)

lemma compareHlc_swap: "compareHlc b a = - compareHlc a b"
  by (auto simp: compareHlc_def)

text \<open>The order of the source's comparator, as the order of the type.\<close>

instantiation hlc :: linorder
begin

definition less_eq_hlc :: "hlc \<Rightarrow> hlc \<Rightarrow> bool" where
  "less_eq_hlc a b \<longleftrightarrow> compareHlc a b \<le> 0"

definition less_hlc :: "hlc \<Rightarrow> hlc \<Rightarrow> bool" where
  "less_hlc a b \<longleftrightarrow> compareHlc a b < 0"

instance
proof
  fix a b c :: hlc
  show "(a < b) = (a \<le> b \<and> \<not> b \<le> a)"
    by (auto simp: less_hlc_def less_eq_hlc_def compareHlc_swap [of a b])
  show "a \<le> a"
    by (simp add: less_eq_hlc_def compareHlc_def)
  show "a \<le> b \<or> b \<le> a"
    by (simp add: less_eq_hlc_def compareHlc_swap [of a b] linear)
  show "a \<le> b \<Longrightarrow> b \<le> a \<Longrightarrow> a = b"
    by (simp add: less_eq_hlc_def compareHlc_swap [of a b] flip: compareHlc_zero_iff)
  show "a \<le> b \<Longrightarrow> b \<le> c \<Longrightarrow> a \<le> c"
    by (auto simp: less_eq_hlc_def compareHlc_def split: if_splits)
qed

end

lemma compareHlc_pos [simp]: "0 < compareHlc a b \<longleftrightarrow> b < a"
  by (simp add: less_hlc_def compareHlc_swap [of a b])

lemma compareHlc_nonpos [simp]: "compareHlc a b \<le> 0 \<longleftrightarrow> a \<le> b"
  by (simp add: less_eq_hlc_def)

lemma compareHlc_nonneg [simp]: "0 \<le> compareHlc a b \<longleftrightarrow> b \<le> a"
  by (simp add: less_eq_hlc_def compareHlc_swap [of a b] del: compareHlc_nonpos)

lemma compareHlc_neg [simp]: "compareHlc a b < 0 \<longleftrightarrow> a < b"
  by (simp add: less_hlc_def)

lemma maxHlc_max: "maxHlc a b = max a b"
  by (auto simp: maxHlc_def max_def)

lemma hlc_less_iff:
  "Hlc w c n < Hlc w' c' n' \<longleftrightarrow> w < w' \<or> (w = w' \<and> (c < c' \<or> (c = c' \<and> n < n')))"
  by (auto simp: less_hlc_def compareHlc_def)

lemma hlc_less_eq_wall: "a \<le> b \<Longrightarrow> wall a \<le> wall b"
  by (auto simp: less_eq_hlc_def compareHlc_def split: if_splits)

lemma isFutureStamp_mono: "a \<le> b \<Longrightarrow> \<not> isFutureStamp b now \<Longrightarrow> \<not> isFutureStamp a now"
  by (auto simp: isFutureStamp_def dest: hlc_less_eq_wall)

subsection \<open>Runs of a clock\<close>

datatype clock_event = Send nat | Receive nat hlc

fun event_time :: "clock_event \<Rightarrow> nat" where
  "event_time (Send pt) = pt"
| "event_time (Receive pt r) = pt"

fun clock_step :: "clock_event \<Rightarrow> hybrid_clock \<Rightarrow> (clock_error + hlc) \<times> hybrid_clock" where
  "clock_step (Send pt) c = send pt c"
| "clock_step (Receive pt r) c = receive pt r c"

fun clock_run :: "clock_event list \<Rightarrow> hybrid_clock \<Rightarrow> hlc list \<times> hybrid_clock" where
  "clock_run [] c = ([], c)"
| "clock_run (e # es) c =
     (case clock_step e c of (r, c') \<Rightarrow>
        (case clock_run es c' of (hs, c'') \<Rightarrow>
           ((case r of Inl _ \<Rightarrow> hs | Inr h \<Rightarrow> h # hs), c'')))"

lemmas clock_defs =
  send_def receive_def guarded_stamp_def guard_def stamp_of_def

lemma clk_node_send [simp]: "clk_node (send_clock pt c) = clk_node c"
  by (simp add: send_clock_def Let_def)

lemma clk_node_receive [simp]: "clk_node (receive_clock pt r c) = clk_node c"
  by (simp add: receive_clock_def Let_def)

lemma snd_send [simp]: "snd (send pt c) = send_clock pt c"
  by (simp add: clock_defs)

lemma snd_receive [simp]: "snd (receive pt r c) = receive_clock pt r c"
  by (simp add: clock_defs)

lemma send_clock_greater: "stamp_of c < stamp_of (send_clock pt c)"
  by (auto simp: stamp_of_def send_clock_def Let_def hlc_less_iff max_def)

lemma receive_clock_greater: "stamp_of c < stamp_of (receive_clock pt r c)"
  by (auto simp: stamp_of_def receive_clock_def Let_def hlc_less_iff max_def min_def)

lemma receive_clock_beats_remote:
  "wall r \<le> pt + HLC_MAX_DRIFT_MS \<Longrightarrow> r < stamp_of (receive_clock pt r c)"
  by (cases r) (auto simp: stamp_of_def receive_clock_def Let_def hlc_less_iff max_def min_def)

lemma clock_step_Inr: "clock_step e c = (Inr h, c') \<Longrightarrow> h = stamp_of c'"
  by (cases e) (auto simp: clock_defs split: if_splits)

lemma clock_step_greater: "stamp_of c < stamp_of (snd (clock_step e c))"
  by (cases e) (simp_all add: send_clock_greater receive_clock_greater)

lemma clock_step_wall:
  "clk_wall (snd (clock_step e c)) \<le> max (clk_wall c) (event_time e + HLC_MAX_DRIFT_MS)"
  by (cases e) (auto simp: send_clock_def receive_clock_def Let_def max_def)

lemma clock_step_wall_mono: "clk_wall c \<le> clk_wall (snd (clock_step e c))"
  by (cases e) (auto simp: send_clock_def receive_clock_def Let_def)

lemma clock_run_cases:
  assumes "clock_run (e # es) c = (hs, d)"
  obtains r c' hs' where "clock_step e c = (r, c')" "clock_run es c' = (hs', d)"
    "hs = (case r of Inl _ \<Rightarrow> hs' | Inr h \<Rightarrow> h # hs')"
  using assms by (auto split: prod.splits)

lemma clock_run_increasing:
  "clock_run es c = (hs, d) \<Longrightarrow>
     sorted_wrt (<) hs \<and> (\<forall>h \<in> set hs. stamp_of c < h) \<and> stamp_of c \<le> stamp_of d"
proof (induction es arbitrary: c hs)
  case Nil
  then show ?case by simp
next
  case (Cons e es)
  obtain r c' hs' where step: "clock_step e c = (r, c')" and run: "clock_run es c' = (hs', d)"
    and hs: "hs = (case r of Inl _ \<Rightarrow> hs' | Inr h \<Rightarrow> h # hs')"
    using Cons.prems by (rule clock_run_cases)
  have lt: "stamp_of c < stamp_of c'"
    using clock_step_greater [of c e] step by simp
  show ?case
    using Cons.IH [OF run] lt hs step by (auto split: sum.splits dest!: clock_step_Inr)
qed

lemma clock_run_wall:
  "clock_run es c = (hs, d) \<Longrightarrow> clk_wall c \<le> T + HLC_MAX_DRIFT_MS \<Longrightarrow>
   (\<forall>e \<in> set es. event_time e \<le> T) \<Longrightarrow>
     (\<forall>h \<in> set hs. wall h \<le> T + HLC_MAX_DRIFT_MS) \<and> clk_wall d \<le> T + HLC_MAX_DRIFT_MS"
proof (induction es arbitrary: c hs)
  case Nil
  then show ?case by simp
next
  case (Cons e es)
  obtain r c' hs' where step: "clock_step e c = (r, c')" and run: "clock_run es c' = (hs', d)"
    and hs: "hs = (case r of Inl _ \<Rightarrow> hs' | Inr h \<Rightarrow> h # hs')"
    using Cons.prems(1) by (rule clock_run_cases)
  have c': "clk_wall c' \<le> T + HLC_MAX_DRIFT_MS"
    using clock_step_wall [of e c] step Cons.prems(2,3) by auto
  then show ?case
    using Cons.IH [OF run] Cons.prems(3) hs step
    by (auto split: sum.splits dest!: clock_step_Inr simp: stamp_of_def)
qed

subsection \<open>Properties\<close>

text \<open>Whatever sequence of local writes and remote stamps a device sees, at whatever
  (even backward-moving) physical times, every stamp its clock emits is strictly greater than
  the clock's starting position and than every stamp it emitted before; refused events emit
  nothing and break nothing.\<close>

lemma clock_emits_increasing_stamps:
  "sorted_wrt (<) (stamp_of c # fst (clock_run es c))"
  using clock_run_increasing [of es c "fst (clock_run es c)" "snd (clock_run es c)"] by simp

text \<open>Causality. A stamp issued on receiving a remote stamp inside the drift budget
  beats that remote stamp as well as everything this clock issued before, and belongs to this
  device.\<close>

lemma receive_orders_after_remote:
  assumes "wall r \<le> pt + HLC_MAX_DRIFT_MS" and "fst (receive pt r c) = Inr h"
  shows "r < h \<and> stamp_of c < h \<and> node h = clk_node c"
  using assms clock_step_Inr [of "Receive pt r" c h "receive_clock pt r c"]
    receive_clock_beats_remote [OF assms(1), of c] receive_clock_greater [of c pt r]
  by (cases "receive pt r c") (auto simp: clock_defs split: if_splits)

text \<open>A peer cannot drag the clock into the future. If the clock starts within the
  drift budget of a time \<open>T\<close> and every event happens no later than \<open>T\<close>, then whatever
  stamps peers sent, no stamp the device emits looks future-dated to an observer at \<open>T\<close>,
  and neither does the clock's final position.\<close>

lemma clock_stays_within_drift:
  assumes "clk_wall c \<le> T + HLC_MAX_DRIFT_MS" and "list_all (\<lambda>e. event_time e \<le> T) es"
  shows "list_all (\<lambda>h. \<not> isFutureStamp h T)
           (stamp_of (snd (clock_run es c)) # fst (clock_run es c))"
  using clock_run_wall [of es c "fst (clock_run es c)" "snd (clock_run es c)" T] assms
  by (auto simp: list_all_iff isFutureStamp_def stamp_of_def)

text \<open>Counter overflow. A local write is refused exactly when physical time has not
  passed the clock's wall and the counter is exhausted; the refusal heals by itself, since the
  first write after physical time passes the wall is stamped with that time and counter 0.\<close>

lemma send_refused_iff_exhausted:
  "(fst (send pt c) = Inl CounterOverflow \<longleftrightarrow> pt \<le> clk_wall c \<and> MAX_COUNTER \<le> clk_counter c)
   \<and> (clk_wall c < pt \<longrightarrow> fst (send pt c) = Inr (Hlc pt 0 (clk_node c)))"
  by (auto simp: clock_defs send_clock_def Let_def max_def)

end
