(* ===== verification/Merge.thy ===== *)
theory Merge
  imports Hlc
begin

text \<open>
  The convergent merge kernel (\<open>packages/core/src/sync/merge.ts\<close>). The source is generic in
  a record type carrying an \<open>id\<close> and an \<open>hlc\<close>; here the two projections are the arguments
  \<open>rid\<close> and \<open>st\<close>. A \<open>Map\<close> is an insertion-ordered association list.

  The abstract view of a replica is, per id, the greatest record stamp and the greatest
  tombstone stamp, both in the order of \<open>compareHlc\<close> with \<open>None\<close> (nothing known) least.
\<close>

record 'r replica =
  records :: "'r jsmap"
  tombstones :: "hlc jsmap"

definition emptyReplica :: "'r replica" where
  "emptyReplica = \<lparr>records = [], tombstones = []\<rparr>"

text \<open>The body every loop of the file shares: keep the value with the greater stamp.\<close>

definition keep_max :: "('v \<Rightarrow> hlc) \<Rightarrow> string \<Rightarrow> 'v \<Rightarrow> 'v jsmap \<Rightarrow> 'v jsmap" where
  "keep_max st k v m =
     (case map_of m k of
        None \<Rightarrow> AList.update k v m
      | Some cur \<Rightarrow> if compareHlc (st v) (st cur) > 0 then AList.update k v m else m)"

definition replicaFrom ::
  "('r \<Rightarrow> string) \<Rightarrow> ('r \<Rightarrow> hlc) \<Rightarrow> 'r list \<Rightarrow> (string \<times> hlc) list \<Rightarrow> 'r replica" where
  "replicaFrom rid st recs tombs =
     \<lparr>records = fold (\<lambda>r. keep_max st (rid r) r) recs [],
      tombstones = fold (\<lambda>(i, h). keep_max id i h) tombs []\<rparr>"

definition putRecord ::
  "('r \<Rightarrow> string) \<Rightarrow> ('r \<Rightarrow> hlc) \<Rightarrow> 'r replica \<Rightarrow> 'r \<Rightarrow> 'r replica" where
  "putRecord rid st s r =
     (case map_of (records s) (rid r) of
        None \<Rightarrow> s\<lparr>records := AList.update (rid r) r (records s)\<rparr>
      | Some cur \<Rightarrow>
          if compareHlc (st r) (st cur) \<le> 0 then s
          else s\<lparr>records := AList.update (rid r) r (records s)\<rparr>)"

definition deleteRecord :: "'r replica \<Rightarrow> string \<Rightarrow> hlc \<Rightarrow> 'r replica" where
  "deleteRecord s i h =
     (case map_of (tombstones s) i of
        None \<Rightarrow> s\<lparr>tombstones := AList.update i h (tombstones s)\<rparr>
      | Some cur \<Rightarrow>
          if compareHlc h cur \<le> 0 then s
          else s\<lparr>tombstones := AList.update i h (tombstones s)\<rparr>)"

definition mergeReplicas :: "('r \<Rightarrow> hlc) \<Rightarrow> 'r replica \<Rightarrow> 'r replica \<Rightarrow> 'r replica" where
  "mergeReplicas st a b =
     \<lparr>records =
        fold (\<lambda>src acc. fold (\<lambda>(i, r). keep_max st i r) src acc) [records a, records b] [],
      tombstones =
        fold (\<lambda>src acc. fold (\<lambda>(i, h). keep_max id i h) src acc) [tombstones a, tombstones b] []\<rparr>"

definition liveRecords :: "('r \<Rightarrow> hlc) \<Rightarrow> 'r replica \<Rightarrow> 'r list" where
  "liveRecords st s =
     map snd (filter (\<lambda>(i, r). case map_of (tombstones s) i of
                                 None \<Rightarrow> True
                               | Some t \<Rightarrow> compareHlc (st r) t > 0) (records s))"

subsection \<open>The winner of a list of candidates\<close>

text \<open>The first candidate with the greatest stamp.\<close>

definition newer :: "('v \<Rightarrow> hlc) \<Rightarrow> 'v option \<Rightarrow> 'v option \<Rightarrow> 'v option" where
  "newer st x y =
     (case x of None \<Rightarrow> y
      | Some a \<Rightarrow> (case y of None \<Rightarrow> x | Some b \<Rightarrow> if st a < st b then y else x))"

definition best :: "('v \<Rightarrow> hlc) \<Rightarrow> 'v list \<Rightarrow> 'v option" where
  "best st vs = fold (\<lambda>v x. newer st x (Some v)) vs None"

lemma newer_None [simp]: "newer st None y = y" "newer st x None = x"
  by (auto simp: newer_def split: option.splits)

lemma newer_assoc: "newer st (newer st x y) z = newer st x (newer st y z)"
  by (auto simp: newer_def split: option.splits)

lemma newer_idem [simp]: "newer st x x = x"
  by (auto simp: newer_def split: option.splits)

lemma newer_cases: "newer st x y = x \<or> newer st x y = y"
  by (auto simp: newer_def split: option.splits)

lemma stamp_newer: "map_option st (newer st x y) = max (map_option st x) (map_option st y)"
  by (auto simp: newer_def max_def split: option.splits)

lemma best_Nil [simp]: "best st [] = None"
  by (simp add: best_def)

lemma fold_newer: "fold (\<lambda>v x. newer st x (Some v)) vs x = newer st x (best st vs)"
proof (induction vs arbitrary: x)
  case Nil
  then show ?case by simp
next
  case (Cons v vs)
  have "best st (v # vs) = newer st (Some v) (best st vs)"
    using Cons.IH [of "Some v"] by (simp add: best_def)
  then show ?case by (simp add: Cons.IH newer_assoc)
qed

lemma best_Cons [simp]: "best st (v # vs) = newer st (Some v) (best st vs)"
  using fold_newer [of st vs "Some v"] by (simp add: best_def)

lemma best_append [simp]: "best st (vs @ ws) = newer st (best st vs) (best st ws)"
  by (induction vs) (auto simp: newer_assoc)

lemma best_mem: "best st vs = Some v \<Longrightarrow> v \<in> set vs"
proof (induction vs)
  case Nil
  then show ?case by simp
next
  case (Cons w vs)
  then show ?case using newer_cases [of st "Some w" "best st vs"] by auto
qed

lemma best_None_iff [simp]: "best st vs = None \<longleftrightarrow> vs = []"
  by (cases vs) (auto simp: newer_def split: option.splits)

lemma best_ge: "v \<in> set vs \<Longrightarrow> Some (st v) \<le> map_option st (best st vs)"
  by (induction vs) (auto simp: stamp_newer simp flip: option.map(2) intro: max.coboundedI2)

definition values_at :: "string \<Rightarrow> 'v jsmap \<Rightarrow> 'v list" where
  "values_at k m = map snd (filter (\<lambda>p. fst p = k) m)"

lemma values_at_simps [simp]:
  "values_at k [] = []"
  "values_at k ((i, v) # m) = (if i = k then v # values_at k m else values_at k m)"
  "values_at k (m @ n) = values_at k m @ values_at k n"
  by (auto simp: values_at_def)

lemma best_values_at_distinct: "distinct_keys m \<Longrightarrow> best st (values_at k m) = map_of m k"
proof (induction m)
  case Nil
  then show ?case by simp
next
  case (Cons p m)
  obtain i v where p: "p = (i, v)" by (cases p)
  show ?case
  proof (cases "i = k")
    case True
    with Cons.prems p have "map_of m k = None"
      by (simp add: map_of_eq_None_iff)
    with True Cons p show ?thesis by simp
  next
    case False
    with Cons p show ?thesis by simp
  qed
qed

subsection \<open>Lookups through the loops\<close>

lemma map_of_keep_max:
  "map_of (keep_max st k v m) = (map_of m)(k := newer st (map_of m k) (Some v))"
  by (auto simp: keep_max_def newer_def jsmap_simps fun_eq_iff split: option.splits)

lemma distinct_keys_keep_max [simp]: "distinct_keys m \<Longrightarrow> distinct_keys (keep_max st k v m)"
  by (auto simp: keep_max_def split: option.splits)

lemma distinct_keys_fold_keep_max [simp]:
  "distinct_keys m \<Longrightarrow> distinct_keys (fold (\<lambda>(k, v). keep_max st k v) ps m)"
  by (induction ps arbitrary: m) auto

lemma map_of_fold_keep_max:
  "map_of (fold (\<lambda>(k, v). keep_max st k v) ps m) k = newer st (map_of m k) (best st (values_at k ps))"
  by (induction ps arbitrary: m) (auto simp: map_of_keep_max newer_assoc)

lemma fold_keep_max_records:
  "fold (\<lambda>r. keep_max st (rid r) r) rs m = fold (\<lambda>(k, v). keep_max st k v) (map (\<lambda>r. (rid r, r)) rs) m"
  by (induction rs arbitrary: m) auto

lemma values_at_records: "values_at k (map (\<lambda>r. (rid r, r)) rs) = filter (\<lambda>r. rid r = k) rs"
  by (induction rs) auto

lemma records_replicaFrom:
  "map_of (records (replicaFrom rid st rs ts)) k = best st (filter (\<lambda>r. rid r = k) rs)"
  by (simp add: replicaFrom_def fold_keep_max_records map_of_fold_keep_max values_at_records)

lemma tombstones_replicaFrom:
  "map_of (tombstones (replicaFrom rid st rs ts)) k = best id (values_at k ts)"
  by (simp add: replicaFrom_def map_of_fold_keep_max)

definition wf_replica :: "('r \<Rightarrow> string) \<Rightarrow> 'r replica \<Rightarrow> bool" where
  "wf_replica rid s \<longleftrightarrow>
     distinct_keys (records s) \<and> distinct_keys (tombstones s) \<and>
     list_all (\<lambda>(i, r). rid r = i) (records s)"

lemma set_update_subset: "set (AList.update k v m) \<subseteq> insert (k, v) (set m)"
  by (induction m) auto

lemma list_all_update: "P (k, v) \<Longrightarrow> list_all P m \<Longrightarrow> list_all P (AList.update k v m)"
  using set_update_subset [of k v m] by (auto simp: list_all_iff)

lemma list_all_keep_max: "P (k, v) \<Longrightarrow> list_all P m \<Longrightarrow> list_all P (keep_max st k v m)"
  by (auto simp: keep_max_def list_all_update split: option.splits)

lemma list_all_fold_keep_max:
  "list_all P ps \<Longrightarrow> list_all P m \<Longrightarrow> list_all P (fold (\<lambda>(k, v). keep_max st k v) ps m)"
  by (induction ps arbitrary: m) (auto simp: list_all_keep_max)

lemma wf_emptyReplica [simp]: "wf_replica rid emptyReplica"
  by (simp add: wf_replica_def emptyReplica_def)

lemma wf_replicaFrom [simp]: "wf_replica rid (replicaFrom rid st rs ts)"
proof -
  have "list_all (\<lambda>(i, r). rid r = i) (fold (\<lambda>(k, v). keep_max st k v) (map (\<lambda>r. (rid r, r)) rs) [])"
    by (rule list_all_fold_keep_max) (auto simp: list_all_iff)
  then show ?thesis
    by (simp add: wf_replica_def replicaFrom_def fold_keep_max_records)
qed

lemma wf_putRecord [simp]: "wf_replica rid s \<Longrightarrow> wf_replica rid (putRecord rid st s r)"
  by (auto simp: wf_replica_def putRecord_def list_all_update split: option.splits)

lemma wf_deleteRecord [simp]: "wf_replica rid s \<Longrightarrow> wf_replica rid (deleteRecord s i h)"
  by (auto simp: wf_replica_def deleteRecord_def split: option.splits)

lemma wf_mergeReplicas [simp]:
  "wf_replica rid a \<Longrightarrow> wf_replica rid b \<Longrightarrow> wf_replica rid (mergeReplicas st a b)"
  by (simp add: wf_replica_def mergeReplicas_def list_all_fold_keep_max)

lemma records_mergeReplicas:
  assumes "wf_replica rid a" "wf_replica rid b"
  shows "map_of (records (mergeReplicas st a b)) k = newer st (map_of (records a) k) (map_of (records b) k)"
  using assms
  by (simp add: mergeReplicas_def wf_replica_def map_of_fold_keep_max best_values_at_distinct)

lemma tombstones_mergeReplicas:
  assumes "wf_replica rid a" "wf_replica rid b"
  shows "map_of (tombstones (mergeReplicas st a b)) k = max (map_of (tombstones a) k) (map_of (tombstones b) k)"
  using assms stamp_newer [of id "map_of (tombstones a) k" "map_of (tombstones b) k"]
  by (simp add: mergeReplicas_def wf_replica_def map_of_fold_keep_max best_values_at_distinct
      option.map_id)

subsection \<open>The abstract view of a replica\<close>

type_synonym stamp_view = "(string \<Rightarrow> hlc option) \<times> (string \<Rightarrow> hlc option)"

definition replica_view :: "('r \<Rightarrow> hlc) \<Rightarrow> 'r replica \<Rightarrow> stamp_view" where
  "replica_view st s = (\<lambda>k. map_option st (map_of (records s) k), map_of (tombstones s))"

definition join_view :: "stamp_view \<Rightarrow> stamp_view \<Rightarrow> stamp_view" where
  "join_view a b = (\<lambda>k. max (fst a k) (fst b k), \<lambda>k. max (snd a k) (snd b k))"

lemma replica_view_merge:
  assumes "wf_replica rid a" "wf_replica rid b"
  shows "replica_view st (mergeReplicas st a b) = join_view (replica_view st a) (replica_view st b)"
  using assms
  by (auto simp: replica_view_def join_view_def records_mergeReplicas tombstones_mergeReplicas stamp_newer)

interpretation replicas: convergent "mergeReplicas st" "wf_replica rid" "replica_view st" join_view
  for st rid
  by unfold_locales
    (auto simp: replica_view_merge join_view_def max.assoc max.commute max.left_commute)

text \<open>What a replica shows to its user: the records no tombstone dominates.\<close>

definition live_lookup :: "('r \<Rightarrow> hlc) \<Rightarrow> 'r replica \<Rightarrow> string \<Rightarrow> 'r option" where
  "live_lookup st s k =
     (case map_of (records s) k of None \<Rightarrow> None
      | Some r \<Rightarrow> if map_of (tombstones s) k < Some (st r) then Some r else None)"

definition is_live :: "('r \<Rightarrow> hlc) \<Rightarrow> 'r replica \<Rightarrow> string \<times> 'r \<Rightarrow> bool" where
  "is_live st s = (\<lambda>(i, r). map_of (tombstones s) i < Some (st r))"

lemma liveRecords_filter: "liveRecords st s = map snd (filter (is_live st s) (records s))"
  by (auto simp: liveRecords_def is_live_def option_less_Some_iff
      intro!: arg_cong [of _ _ "map snd"] filter_cong split: option.splits)

lemma liveRecords_keyed:
  assumes "wf_replica rid s"
  shows "map (\<lambda>r. (rid r, r)) (liveRecords st s) = filter (is_live st s) (records s)"
proof -
  have "list_all (\<lambda>(i, r). rid r = i) m \<Longrightarrow> map (\<lambda>r. (rid r, r)) (map snd (filter P m)) = filter P m"
    for m and P :: "string \<times> 'a \<Rightarrow> bool"
    by (induction m) auto
  then show ?thesis
    using assms unfolding wf_replica_def liveRecords_filter by blast
qed

lemma map_of_live:
  "wf_replica rid s \<Longrightarrow> map_of (filter (is_live st s) (records s)) k = live_lookup st s k"
  by (auto simp: map_of_filter_distinct wf_replica_def live_lookup_def is_live_def split: option.split)

lemma best_liveRecords:
  assumes "wf_replica rid s"
  shows "best st' (filter (\<lambda>r. rid r = k) (liveRecords st s)) = live_lookup st s k"
proof -
  have "filter (\<lambda>r. rid r = k) (liveRecords st s) = values_at k (filter (is_live st s) (records s))"
    by (simp add: values_at_records flip: liveRecords_keyed [OF assms])
  moreover have "distinct_keys (filter (is_live st s) (records s))"
    using assms by (simp add: wf_replica_def)
  ultimately show ?thesis
    using assms by (simp add: best_values_at_distinct map_of_live)
qed

lemma set_liveRecords:
  assumes "wf_replica rid s"
  shows "r \<in> set (liveRecords st s) \<longleftrightarrow> live_lookup st s (rid r) = Some r"
proof -
  have "r \<in> set (liveRecords st s) \<longleftrightarrow> (rid r, r) \<in> set (filter (is_live st s) (records s))"
    unfolding liveRecords_keyed [OF assms, symmetric] by force
  also have "\<dots> \<longleftrightarrow> map_of (filter (is_live st s) (records s)) (rid r) = Some r"
    using assms by (intro distinct_keys_map_of_iff [symmetric]) (simp add: wf_replica_def)
  finally show ?thesis
    using assms by (simp add: map_of_live)
qed

lemma distinct_liveRecords:
  assumes "wf_replica rid s"
  shows "distinct (map rid (liveRecords st s))"
proof -
  have "map rid (liveRecords st s) = map fst (filter (is_live st s) (records s))"
    by (simp flip: liveRecords_keyed [OF assms])
  then show ?thesis
    using assms distinct_keys_filter by (auto simp: wf_replica_def distinct_keys_def)
qed

lemma live_lookup_id: "wf_replica rid s \<Longrightarrow> live_lookup st s k = Some r \<Longrightarrow> rid r = k"
  by (auto simp: live_lookup_def wf_replica_def list_all_iff dest!: map_of_SomeD
      split: option.splits if_splits)

text \<open>Liveness at the level of stamps.\<close>

definition live_stamp :: "hlc option \<Rightarrow> hlc option \<Rightarrow> hlc option" where
  "live_stamp r t = (if t < r then r else None)"

lemma stamp_live_lookup:
  "map_option st (live_lookup st s k) =
     live_stamp (fst (replica_view st s) k) (snd (replica_view st s) k)"
  by (auto simp: live_lookup_def live_stamp_def replica_view_def split: option.splits)

lemma live_stamp_max:
  "live_stamp (max (live_stamp a t) (live_stamp b u)) (max t u) = live_stamp (max a b) (max t u)"
  by (cases a; cases b; cases t; cases u) (auto simp: live_stamp_def max_def)

lemma live_stamp_idem [simp]: "live_stamp (live_stamp a t) t = live_stamp a t"
  by (simp add: live_stamp_def)

subsection \<open>Properties\<close>

text \<open>Gossip order and repetition do not matter. Two devices that start from the same
  well-formed replica and absorb the same set of peer replicas, in any order and with any
  repetition, hold the same greatest record stamp and greatest tombstone stamp for every id,
  so they show the same live stamps.\<close>

lemma replica_gossip_converges:
  assumes "wf_replica rid s" "list_all (wf_replica rid) xs" "set xs = set ys"
  shows "replica_view st (fold (\<lambda>x acc. mergeReplicas st acc x) xs s)
       = replica_view st (fold (\<lambda>x acc. mergeReplicas st acc x) ys s)"
  using replicas.gossip_order_irrelevant [OF assms, of st]
  unfolding replicas.absorb_all_def .

text \<open>Content convergence. When two replicas never hold different records under one id
  with one stamp (a stamp is issued once), merging them in either order gives the same record,
  not only the same stamp, for every id, and the record comes verbatim from one of them.\<close>

lemma merge_content_commutes:
  assumes "wf_replica rid a" "wf_replica rid b"
    and "\<And>r q. map_of (records a) k = Some r \<Longrightarrow> map_of (records b) k = Some q \<Longrightarrow> st r = st q \<Longrightarrow> r = q"
  shows "map_of (records (mergeReplicas st a b)) k = map_of (records (mergeReplicas st b a)) k
    \<and> map_of (records (mergeReplicas st a b)) k \<in> {map_of (records a) k, map_of (records b) k}"
  using assms(3)
  by (cases "map_of (records a) k"; cases "map_of (records b) k")
    (auto simp: records_mergeReplicas [OF assms(1,2)] records_mergeReplicas [OF assms(2,1)] newer_def
      not_less_iff_gr_or_eq)

lemma put_view:
  "replica_view st (putRecord rid st s r) = join_view (replica_view st s) ((Map.empty)(rid r := Some (st r)), Map.empty)"
  by (auto simp: replica_view_def join_view_def putRecord_def jsmap_simps fun_eq_iff max_def
      split: option.splits)

lemma delete_view:
  "replica_view st (deleteRecord s i h) = join_view (replica_view st s) (Map.empty, (Map.empty)(i := Some h))"
  by (auto simp: replica_view_def join_view_def deleteRecord_def jsmap_simps fun_eq_iff max_def
      split: option.splits)

text \<open>Local writes are merges. Putting a record or deleting an id has the same effect
  on the abstract state as merging in a replica that holds just that record or just that
  tombstone, so local edits and remote payloads obey the same laws.\<close>

lemma local_ops_are_merges:
  assumes "wf_replica rid s"
  shows "replica_view st (putRecord rid st s r) = replica_view st (mergeReplicas st s (replicaFrom rid st [r] []))
    \<and> replica_view st (deleteRecord s i h) = replica_view st (mergeReplicas st s (replicaFrom rid st [] [(i, h)]))"
  using assms
  by (auto simp: replica_view_merge put_view delete_view)
    (auto simp: replica_view_def records_replicaFrom tombstones_replicaFrom fun_eq_iff
      intro!: arg_cong [where f = "join_view _"])

end
