(* ===== verification/Vault_Merge.thy ===== *)
theory Vault_Merge
  imports Merge
begin

text \<open>
  The entries payload and its merge (\<open>packages/core/src/sync/entries-payload.ts\<close>,
  \<open>vault-merge.ts\<close> and \<open>apply-remote.ts\<close>): sealed entries, deletion tombstones and
  vault-scoped settings, the untrusted-payload filter, and the seam that merges a peer's
  payload into the local vault. A setting's value (\<open>z.unknown()\<close>) is the type parameter \<open>'v\<close>;
  a record-valued JavaScript object is an association list with distinct keys.
\<close>

record encrypted_entry =
  ee_id :: string
  ee_wrappedDek :: string
  ee_dekIv :: string
  ee_ciphertext :: string
  ee_iv :: string
  ee_hlc :: hlc

record tombstone =
  tb_id :: string
  tb_hlc :: hlc

record 'v synced_setting =
  ss_hlc :: hlc
  ss_value :: 'v

type_synonym 'v synced_settings = "'v synced_setting jsmap"

record 'v entries_payload =
  entries :: "encrypted_entry list"
  tombs :: "tombstone list"
  settings :: "'v synced_settings option"

definition emptyEntriesPayload :: "'v entries_payload" where
  "emptyEntriesPayload = \<lparr>entries = [], tombs = [], settings = None\<rparr>"

definition sanitizeRemoteEntriesPayload :: "'v entries_payload \<Rightarrow> nat \<Rightarrow> 'v entries_payload" where
  "sanitizeRemoteEntriesPayload p now =
     \<lparr>entries = filter (\<lambda>e. \<not> isFutureStamp (ee_hlc e) now) (entries p),
      tombs = filter (\<lambda>t. \<not> isFutureStamp (tb_hlc t) now) (tombs p),
      settings = map_option (filter (\<lambda>(k, r). \<not> isFutureStamp (ss_hlc r) now)) (settings p)\<rparr>"

subsection \<open>Merging two payloads\<close>

definition payloadToReplica :: "'v entries_payload \<Rightarrow> encrypted_entry replica" where
  "payloadToReplica p =
     replicaFrom ee_id ee_hlc (entries p) (map (\<lambda>t. (tb_id t, tb_hlc t)) (tombs p))"

definition replicaToPayload :: "encrypted_entry replica \<Rightarrow> 'v entries_payload" where
  "replicaToPayload s =
     \<lparr>entries = liveRecords ee_hlc s,
      tombs = map (\<lambda>(i, h). \<lparr>tb_id = i, tb_hlc = h\<rparr>) (tombstones s),
      settings = None\<rparr>"

definition mergeSyncedSettings ::
  "'v synced_settings option \<Rightarrow> 'v synced_settings option \<Rightarrow> 'v synced_settings option" where
  "mergeSyncedSettings a b =
     (case a of None \<Rightarrow> b
      | Some sa \<Rightarrow>
          (case b of None \<Rightarrow> a
           | Some sb \<Rightarrow> Some (fold (\<lambda>(k, r). keep_max ss_hlc k r) sb sa)))"

definition mergeEntriesPayload ::
  "'v entries_payload \<Rightarrow> 'v entries_payload \<Rightarrow> 'v entries_payload" where
  "mergeEntriesPayload a b =
     (let merged = replicaToPayload
            (mergeReplicas ee_hlc (payloadToReplica a) (payloadToReplica b))
      in (case mergeSyncedSettings (settings a) (settings b) of
            None \<Rightarrow> merged
          | Some s \<Rightarrow> merged\<lparr>settings := Some s\<rparr>))"

subsection \<open>Applying a remote payload\<close>

definition remoteStamps :: "'v entries_payload \<Rightarrow> hlc list" where
  "remoteStamps p = map ee_hlc (entries p) @ map tb_hlc (tombs p)"

definition stampMap :: "(string \<times> hlc) list \<Rightarrow> hlc jsmap" where
  "stampMap items = map_from_pairs items"

definition stampMapsEqual :: "hlc jsmap \<Rightarrow> hlc jsmap \<Rightarrow> bool" where
  "stampMapsEqual a b \<longleftrightarrow>
     length a = length b \<and>
     list_all (\<lambda>(i, h). case map_of b i of None \<Rightarrow> False | Some h' \<Rightarrow> compareHlc h h' = 0) a"

definition settingsStamps :: "'v synced_settings option \<Rightarrow> hlc jsmap" where
  "settingsStamps s = map_from_pairs (map (\<lambda>(k, r). (k, ss_hlc r)) (case s of None \<Rightarrow> [] | Some m \<Rightarrow> m))"

definition payloadsEquivalent :: "'v entries_payload \<Rightarrow> 'v entries_payload \<Rightarrow> bool" where
  "payloadsEquivalent a b \<longleftrightarrow>
     stampMapsEqual (stampMap (map (\<lambda>e. (ee_id e, ee_hlc e)) (entries a)))
                    (stampMap (map (\<lambda>e. (ee_id e, ee_hlc e)) (entries b))) \<and>
     stampMapsEqual (stampMap (map (\<lambda>t. (tb_id t, tb_hlc t)) (tombs a)))
                    (stampMap (map (\<lambda>t. (tb_id t, tb_hlc t)) (tombs b))) \<and>
     stampMapsEqual (settingsStamps (settings a)) (settingsStamps (settings b))"

text \<open>
  The host's port is its local payload and its effects in call order: witnessing stamps and
  writing the merged payload (\<open>VaultSyncPort\<close>).
\<close>

datatype 'v port_call = WitnessRemote "hlc list" | WriteMerged "'v entries_payload"

record 'v apply_result =
  ar_payload :: "'v entries_payload"
  ar_changed :: bool

definition applyRemotePayload ::
  "'v entries_payload \<Rightarrow> 'v entries_payload \<Rightarrow> nat \<Rightarrow> 'v apply_result \<times> 'v port_call list" where
  "applyRemotePayload local remote now =
     (let safe = sanitizeRemoteEntriesPayload remote now;
          merged = mergeEntriesPayload local safe;
          changed = (\<not> payloadsEquivalent local merged)
      in (\<lparr>ar_payload = merged, ar_changed = changed\<rparr>,
          (if changed then [WitnessRemote (remoteStamps safe), WriteMerged merged] else [])))"

text \<open>The port \<open>createVaultSyncPort\<close> builds: what its calls do to the stored payload and the clock.\<close>

record 'v sync_host =
  stored :: "'v entries_payload"
  host_clock :: hybrid_clock

text \<open>
  Every host witnesses with \<open>for (const hlc of stamps) clock.witness(hlc)\<close>: an overflowing
  stamp throws, which leaves the clock advanced so far and rejects the whole receive before
  the payload is written.
\<close>

fun witness_all :: "nat \<Rightarrow> hlc list \<Rightarrow> hybrid_clock \<Rightarrow> (clock_error + unit) \<times> hybrid_clock" where
  "witness_all pt [] c = (Inr (), c)"
| "witness_all pt (h # hs) c =
     (case witness_stamp pt h c of
        (Inl e, c') \<Rightarrow> (Inl e, c')
      | (Inr _, c') \<Rightarrow> witness_all pt hs c')"

fun port_run ::
  "nat \<Rightarrow> 'v port_call list \<Rightarrow> 'v sync_host \<Rightarrow> (clock_error + unit) \<times> 'v sync_host" where
  "port_run now [] s = (Inr (), s)"
| "port_run now (WitnessRemote hs # cs) s =
     (case witness_all now hs (host_clock s) of
        (Inl e, c) \<Rightarrow> (Inl e, s\<lparr>host_clock := c\<rparr>)
      | (Inr _, c) \<Rightarrow> port_run now cs (s\<lparr>host_clock := c\<rparr>))"
| "port_run now (WriteMerged p # cs) s = port_run now cs (s\<lparr>stored := p\<rparr>)"

definition sync_receive ::
  "nat \<Rightarrow> 'v entries_payload \<Rightarrow> 'v sync_host \<Rightarrow> (clock_error + unit) \<times> 'v sync_host" where
  "sync_receive now remote s =
     port_run now (snd (applyRemotePayload (stored s) remote now)) s"

subsection \<open>Lookups\<close>

definition wf_payload :: "'v entries_payload \<Rightarrow> bool" where
  "wf_payload p \<longleftrightarrow> (case settings p of None \<Rightarrow> True | Some m \<Rightarrow> distinct_keys m)"

definition entry_at :: "'v entries_payload \<Rightarrow> string \<Rightarrow> encrypted_entry option" where
  "entry_at p k = live_lookup ee_hlc (payloadToReplica p) k"

definition tomb_at :: "'v entries_payload \<Rightarrow> string \<Rightarrow> hlc option" where
  "tomb_at p k = map_of (tombstones (payloadToReplica p)) k"

definition setting_at :: "'v entries_payload \<Rightarrow> string \<Rightarrow> 'v synced_setting option" where
  "setting_at p k = (case settings p of None \<Rightarrow> None | Some m \<Rightarrow> map_of m k)"

lemma wf_payloadToReplica [simp]: "wf_replica ee_id (payloadToReplica p)"
  by (simp add: payloadToReplica_def)

lemma settings_merge [simp]:
  "settings (mergeEntriesPayload a b) = mergeSyncedSettings (settings a) (settings b)"
  by (simp add: mergeEntriesPayload_def replicaToPayload_def Let_def split: option.split)

lemma entries_merge:
  "entries (mergeEntriesPayload a b) = liveRecords ee_hlc (mergeReplicas ee_hlc (payloadToReplica a) (payloadToReplica b))"
  by (simp add: mergeEntriesPayload_def replicaToPayload_def Let_def split: option.split)

lemma tombs_merge:
  "map (\<lambda>t. (tb_id t, tb_hlc t)) (tombs (mergeEntriesPayload a b)) =
     tombstones (mergeReplicas ee_hlc (payloadToReplica a) (payloadToReplica b))"
  by (auto simp: mergeEntriesPayload_def replicaToPayload_def Let_def comp_def case_prod_unfold
      split: option.split)

lemma wf_payload_merge: "wf_payload a \<Longrightarrow> wf_payload b \<Longrightarrow> wf_payload (mergeEntriesPayload a b)"
  by (auto simp: wf_payload_def mergeSyncedSettings_def split: option.splits)

lemma tomb_at_eq: "tomb_at p k = best id (map tb_hlc (filter (\<lambda>t. tb_id t = k) (tombs p)))"
proof -
  have "values_at k (map (\<lambda>t. (tb_id t, tb_hlc t)) ts) = map tb_hlc (filter (\<lambda>t. tb_id t = k) ts)"
    for ts :: "tombstone list" by (induction ts) auto
  then show ?thesis
    by (simp add: tomb_at_def payloadToReplica_def tombstones_replicaFrom)
qed

lemma setting_at_merge:
  "wf_payload b \<Longrightarrow>
   setting_at (mergeEntriesPayload a b) k = newer ss_hlc (setting_at a k) (setting_at b k)"
  by (auto simp: setting_at_def mergeSyncedSettings_def wf_payload_def map_of_fold_keep_max
      best_values_at_distinct split: option.split)

lemma merged_tombstones:
  "map_of (tombstones (payloadToReplica (mergeEntriesPayload a b))) k =
   map_of (tombstones (mergeReplicas ee_hlc (payloadToReplica a) (payloadToReplica b))) k"
proof -
  have "wf_replica ee_id (mergeReplicas ee_hlc (payloadToReplica a) (payloadToReplica b))"
    by simp
  then have "distinct_keys (tombstones (mergeReplicas ee_hlc (payloadToReplica a) (payloadToReplica b)))"
    unfolding wf_replica_def by blast
  then show ?thesis
    by (simp add: payloadToReplica_def [of "mergeEntriesPayload a b"] tombstones_replicaFrom tombs_merge
        best_values_at_distinct)
qed

lemma merged_records:
  "map_of (records (payloadToReplica (mergeEntriesPayload a b))) k =
   live_lookup ee_hlc (mergeReplicas ee_hlc (payloadToReplica a) (payloadToReplica b)) k"
  by (simp add: payloadToReplica_def [of "mergeEntriesPayload a b"] records_replicaFrom entries_merge
      best_liveRecords)

lemma entry_at_merge_live:
  "entry_at (mergeEntriesPayload a b) k =
   live_lookup ee_hlc (mergeReplicas ee_hlc (payloadToReplica a) (payloadToReplica b)) k"
  (is "_ = live_lookup ee_hlc ?M k")
proof -
  have "entry_at (mergeEntriesPayload a b) k =
    (case live_lookup ee_hlc ?M k of None \<Rightarrow> None
     | Some r \<Rightarrow> if map_of (tombstones ?M) k < Some (ee_hlc r) then Some r else None)"
    by (simp only: entry_at_def live_lookup_def [where s = "payloadToReplica (mergeEntriesPayload a b)"]
        merged_tombstones merged_records)
  then show ?thesis
    by (auto simp: live_lookup_def split: option.splits if_splits)
qed

lemma tomb_at_merge: "tomb_at (mergeEntriesPayload a b) k = max (tomb_at a k) (tomb_at b k)"
  by (simp add: tomb_at_def merged_tombstones tombstones_mergeReplicas [of ee_id])

lemma stamp_entry_at:
  "map_option ee_hlc (entry_at p k) =
     live_stamp (map_option ee_hlc (map_of (records (payloadToReplica p)) k)) (tomb_at p k)"
  by (simp add: entry_at_def stamp_live_lookup) (simp add: replica_view_def tomb_at_def)

lemma stamp_entry_at_merge:
  "map_option ee_hlc (entry_at (mergeEntriesPayload a b) k) =
     live_stamp (max (map_option ee_hlc (entry_at a k)) (map_option ee_hlc (entry_at b k)))
                (max (tomb_at a k) (tomb_at b k))"
proof -
  let ?M = "mergeReplicas ee_hlc (payloadToReplica a) (payloadToReplica b)"
  let ?ra = "map_option ee_hlc (map_of (records (payloadToReplica a)) k)"
  let ?rb = "map_option ee_hlc (map_of (records (payloadToReplica b)) k)"
  have "map_option ee_hlc (entry_at (mergeEntriesPayload a b) k) =
        live_stamp (fst (replica_view ee_hlc ?M) k) (snd (replica_view ee_hlc ?M) k)"
    by (simp add: entry_at_merge_live stamp_live_lookup)
  also have "\<dots> = live_stamp (max ?ra ?rb) (max (tomb_at a k) (tomb_at b k))"
    by (simp add: replica_view_def records_mergeReplicas [of ee_id] tombstones_mergeReplicas [of ee_id]
        stamp_newer tomb_at_def)
  also have "\<dots> = live_stamp (max (live_stamp ?ra (tomb_at a k)) (live_stamp ?rb (tomb_at b k)))
                             (max (tomb_at a k) (tomb_at b k))"
    by (simp add: live_stamp_max)
  finally show ?thesis
    by (simp add: stamp_entry_at)
qed

subsection \<open>The observable state of a payload\<close>

type_synonym payload_obs =
  "(string \<Rightarrow> hlc option) \<times> (string \<Rightarrow> hlc option) \<times> (string \<Rightarrow> hlc option)"

definition payload_view :: "'v entries_payload \<Rightarrow> payload_obs" where
  "payload_view p =
     (\<lambda>k. map_option ee_hlc (entry_at p k), tomb_at p, \<lambda>k. map_option ss_hlc (setting_at p k))"

definition join_payload :: "payload_obs \<Rightarrow> payload_obs \<Rightarrow> payload_obs" where
  "join_payload x y =
     (case (x, y) of ((e, t, s), (e', t', s')) \<Rightarrow>
        (\<lambda>k. live_stamp (max (e k) (e' k)) (max (t k) (t' k)),
         \<lambda>k. max (t k) (t' k), \<lambda>k. max (s k) (s' k)))"

lemma payload_view_merge:
  "wf_payload b \<Longrightarrow>
   payload_view (mergeEntriesPayload a b) = join_payload (payload_view a) (payload_view b)"
  by (auto simp: payload_view_def join_payload_def stamp_entry_at_merge tomb_at_merge
      setting_at_merge stamp_newer)

lemma live_stamp_absorb: "t \<le> v \<Longrightarrow> live_stamp (max (live_stamp a t) c) v = live_stamp (max a c) v"
  by (auto simp: live_stamp_def max_def)

lemma live_stamp_assoc:
  "live_stamp (max (live_stamp (max a b) (max t u)) c) (max (max t u) v) =
   live_stamp (max a (live_stamp (max b c) (max u v))) (max t (max u v))"
proof -
  have "live_stamp (max (live_stamp (max a b) (max t u)) c) (max (max t u) v) =
        live_stamp (max (max a b) c) (max (max t u) v)"
    by (rule live_stamp_absorb) simp
  also have "\<dots> = live_stamp (max (max b c) a) (max t (max u v))"
    by (simp add: ac_simps)
  also have "\<dots> = live_stamp (max (live_stamp (max b c) (max u v)) a) (max t (max u v))"
    by (rule live_stamp_absorb [symmetric]) simp
  finally show ?thesis
    by (simp add: max.commute)
qed

lemma live_stamp_view: "live_stamp (map_option ee_hlc (entry_at p k)) (tomb_at p k) = map_option ee_hlc (entry_at p k)"
  by (simp add: stamp_entry_at)

interpretation payloads: convergent mergeEntriesPayload wf_payload payload_view join_payload
proof
  fix a b c :: "'a entries_payload"
  show "wf_payload a \<Longrightarrow> wf_payload b \<Longrightarrow> wf_payload (mergeEntriesPayload a b)"
    by (rule wf_payload_merge)
  show "wf_payload b \<Longrightarrow>
      payload_view (mergeEntriesPayload a b) = join_payload (payload_view a) (payload_view b)"
    by (rule payload_view_merge)
  show "join_payload (payload_view a) (payload_view b) = join_payload (payload_view b) (payload_view a)"
    by (simp add: payload_view_def join_payload_def max.commute)
  show "join_payload (join_payload (payload_view a) (payload_view b)) (payload_view c) =
        join_payload (payload_view a) (join_payload (payload_view b) (payload_view c))"
    by (simp add: payload_view_def join_payload_def live_stamp_assoc) (simp add: max.assoc fun_eq_iff)
  show "join_payload (payload_view a) (payload_view a) = payload_view a"
    by (simp add: payload_view_def join_payload_def live_stamp_view)
qed

text \<open>The winner rule on whole entries, content included.\<close>

definition alive :: "hlc option \<Rightarrow> encrypted_entry option \<Rightarrow> encrypted_entry option" where
  "alive t x = (case x of None \<Rightarrow> None | Some e \<Rightarrow> if t < Some (ee_hlc e) then Some e else None)"

lemma alive_newer:
  "alive (max t u) (newer ee_hlc x y) = alive (max t u) (newer ee_hlc (alive t x) (alive u y))"
  by (cases x; cases y; cases t; cases u) (auto simp: alive_def newer_def max_def)

lemma entry_at_alive: "entry_at p k = alive (tomb_at p k) (map_of (records (payloadToReplica p)) k)"
  by (simp add: entry_at_def live_lookup_def alive_def tomb_at_def)

lemma entry_at_merge:
  "entry_at (mergeEntriesPayload a b) k =
     alive (max (tomb_at a k) (tomb_at b k)) (newer ee_hlc (entry_at a k) (entry_at b k))"
proof -
  have "entry_at (mergeEntriesPayload a b) k =
      alive (max (tomb_at a k) (tomb_at b k))
        (newer ee_hlc (map_of (records (payloadToReplica a)) k) (map_of (records (payloadToReplica b)) k))"
    by (simp add: entry_at_merge_live live_lookup_def alive_def records_mergeReplicas [of ee_id]
        tombstones_mergeReplicas [of ee_id] tomb_at_def split: option.split)
  also have "\<dots> = alive (max (tomb_at a k) (tomb_at b k)) (newer ee_hlc (entry_at a k) (entry_at b k))"
    by (subst alive_newer) (simp only: entry_at_alive)
  finally show ?thesis .
qed

subsection \<open>Canonical payloads and change detection\<close>

definition canonical :: "'v entries_payload \<Rightarrow> bool" where
  "canonical p \<longleftrightarrow>
     wf_payload p \<and> distinct (map ee_id (entries p)) \<and> distinct (map tb_id (tombs p)) \<and>
     list_all (\<lambda>e. tomb_at p (ee_id e) < Some (ee_hlc e)) (entries p)"

lemma distinct_filter_single:
  "distinct (map f xs) \<Longrightarrow> filter (\<lambda>x. f x = k) xs = (case map_of (map (\<lambda>x. (f x, x)) xs) k of None \<Rightarrow> [] | Some x \<Rightarrow> [x])"
proof (induction xs)
  case Nil
  then show ?case by simp
next
  case (Cons x xs)
  show ?case
  proof (cases "f x = k")
    case True
    then have "map_of (map (\<lambda>x. (f x, x)) xs) k = None"
      using Cons.prems by (auto simp: map_of_eq_None_iff image_iff)
    with True Cons show ?thesis by simp
  next
    case False
    with Cons show ?thesis by simp
  qed
qed

lemma map_of_stamps: "map_of (map (\<lambda>x. (f x, g x)) xs) k = map_option g (map_of (map (\<lambda>x. (f x, x)) xs) k)"
  by (induction xs) auto

lemma canonical_entry_at:
  assumes "canonical p"
  shows "map_of (stampMap (map (\<lambda>e. (ee_id e, ee_hlc e)) (entries p))) k = map_option ee_hlc (entry_at p k)"
proof -
  have d: "distinct_keys (map (\<lambda>e. (ee_id e, ee_hlc e)) (entries p))"
    using assms by (simp add: canonical_def distinct_keys_def comp_def)
  have "entry_at p k = map_of (map (\<lambda>e. (ee_id e, e)) (entries p)) k"
  proof (cases "map_of (map (\<lambda>e. (ee_id e, e)) (entries p)) k")
    case None
    then show ?thesis
      using assms by (simp add: entry_at_def live_lookup_def payloadToReplica_def records_replicaFrom
          canonical_def distinct_filter_single)
  next
    case (Some e)
    then have e: "e \<in> set (entries p)" "ee_id e = k"
      by (auto dest!: map_of_SomeD)
    have rec: "map_of (records (payloadToReplica p)) k = Some e"
      using assms Some by (simp add: payloadToReplica_def records_replicaFrom canonical_def
          distinct_filter_single)
    show ?thesis
      using assms Some e rec
      by (auto simp: entry_at_def live_lookup_def canonical_def list_all_iff tomb_at_def)
  qed
  then show ?thesis
    by (simp add: stampMap_def jsmap_simps map_of_rev_distinct [OF d] map_of_stamps [of ee_id ee_hlc])
qed

lemma canonical_tomb_at:
  assumes "canonical p"
  shows "map_of (stampMap (map (\<lambda>t. (tb_id t, tb_hlc t)) (tombs p))) k = tomb_at p k"
proof -
  have d: "distinct_keys (map (\<lambda>t. (tb_id t, tb_hlc t)) (tombs p))"
    using assms by (simp add: canonical_def distinct_keys_def comp_def)
  show ?thesis
    using assms d
    by (simp add: stampMap_def jsmap_simps map_of_rev_distinct [OF d] map_of_stamps [of tb_id tb_hlc]
        tomb_at_eq canonical_def distinct_filter_single split: option.split)
qed

lemma distinct_keys_map_value: "distinct_keys m \<Longrightarrow> distinct_keys (map (\<lambda>(k, r). (k, f r)) m)"
  by (induction m) force+

lemma settings_stamps_at:
  assumes "wf_payload p"
  shows "map_of (settingsStamps (settings p)) k = map_option ss_hlc (setting_at p k)"
proof (cases "settings p")
  case None
  then show ?thesis
    by (simp add: settingsStamps_def setting_at_def jsmap_simps)
next
  case (Some m)
  with assms have "distinct_keys (map (\<lambda>(k, r). (k, ss_hlc r)) m)"
    by (simp add: wf_payload_def distinct_keys_map_value)
  with Some show ?thesis
    by (simp add: settingsStamps_def setting_at_def jsmap_simps map_of_rev_distinct
        map_of_map_value [where f = "\<lambda>_. ss_hlc"])
qed

lemma distinct_keys_stampMap [simp]: "distinct_keys (stampMap xs)"
  by (simp add: stampMap_def)

lemma distinct_keys_settingsStamps [simp]: "distinct_keys (settingsStamps s)"
  by (simp add: settingsStamps_def)

lemma stampMapsEqual_iff:
  assumes "distinct_keys a" "distinct_keys b"
  shows "stampMapsEqual a b \<longleftrightarrow> map_of a = map_of b"
proof
  assume eq: "stampMapsEqual a b"
  have sub: "map_of b k = Some h" if "map_of a k = Some h" for k h
    using eq map_of_SomeD [OF that]
    by (force simp: stampMapsEqual_def list_all_iff compareHlc_zero_iff split: option.splits)
  have "dom (map_of a) \<subseteq> dom (map_of b)"
    using sub by blast
  moreover have "card (dom (map_of a)) = card (dom (map_of b))"
    using eq assms distinct_card [of "map fst a"] distinct_card [of "map fst b"]
    by (simp add: stampMapsEqual_def dom_map_of_conv_image_fst distinct_keys_def)
  ultimately have dom: "dom (map_of a) = dom (map_of b)"
    by (simp add: card_subset_eq finite_dom_map_of)
  show "map_of a = map_of b"
  proof
    fix k
    show "map_of a k = map_of b k"
      using sub [of k] dom by (cases "map_of a k") (simp, metis domIff, simp)
  qed
next
  assume eq: "map_of a = map_of b"
  then have "fst ` set a = fst ` set b"
    by (simp flip: dom_map_of_conv_image_fst)
  then have "length a = length b"
    using assms distinct_card [of "map fst a"] distinct_card [of "map fst b"]
    by (simp add: distinct_keys_def)
  then show "stampMapsEqual a b"
    by (auto simp: stampMapsEqual_def list_all_iff compareHlc_zero_iff
        distinct_keys_map_of_iff [OF assms(1), THEN iffD2] simp flip: eq)
qed

lemma payloadsEquivalent_view:
  assumes "canonical a" "canonical b"
  shows "payloadsEquivalent a b \<longleftrightarrow> payload_view a = payload_view b"
proof -
  have wf: "wf_payload a" "wf_payload b"
    using assms by (simp_all add: canonical_def)
  have "payloadsEquivalent a b \<longleftrightarrow>
      (\<lambda>k. map_option ee_hlc (entry_at a k)) = (\<lambda>k. map_option ee_hlc (entry_at b k)) \<and>
      tomb_at a = tomb_at b \<and>
      (\<lambda>k. map_option ss_hlc (setting_at a k)) = (\<lambda>k. map_option ss_hlc (setting_at b k))"
    unfolding payloadsEquivalent_def
    by (simp add: stampMapsEqual_iff fun_eq_iff canonical_entry_at [OF assms(1)]
        canonical_entry_at [OF assms(2)] canonical_tomb_at [OF assms(1)] canonical_tomb_at [OF assms(2)]
        settings_stamps_at [OF wf(1)] settings_stamps_at [OF wf(2)])
  then show ?thesis
    by (simp add: payload_view_def)
qed

lemma canonical_merge:
  assumes "wf_payload a" "wf_payload b"
  shows "canonical (mergeEntriesPayload a b)"
proof -
  let ?M = "mergeReplicas ee_hlc (payloadToReplica a) (payloadToReplica b)"
  have wf: "wf_replica ee_id ?M" by simp
  have "map tb_id (tombs (mergeEntriesPayload a b)) = map fst (tombstones ?M)"
    by (simp flip: tombs_merge)
  then have "distinct (map tb_id (tombs (mergeEntriesPayload a b)))"
    using wf unfolding wf_replica_def distinct_keys_def by metis
  moreover have "tomb_at (mergeEntriesPayload a b) (ee_id e) < Some (ee_hlc e)"
    if "e \<in> set (liveRecords ee_hlc ?M)" for e
    using that unfolding set_liveRecords [OF wf]
    by (auto simp: tomb_at_def merged_tombstones live_lookup_def split: option.splits if_splits)
  ultimately show ?thesis
    using assms distinct_liveRecords [OF wf]
    by (simp add: canonical_def wf_payload_merge entries_merge list_all_iff)
qed


subsection \<open>Receiving\<close>

lemma wf_payload_sanitize: "wf_payload p \<Longrightarrow> wf_payload (sanitizeRemoteEntriesPayload p now)"
  by (auto simp: wf_payload_def sanitizeRemoteEntriesPayload_def split: option.splits)

lemma witness_all_beats:
  "witness_all pt hs c = (Inr (), d) \<Longrightarrow>
     stamp_of c \<le> stamp_of d \<and> (\<forall>h \<in> set hs. wall h \<le> pt + HLC_MAX_DRIFT_MS \<longrightarrow> h < stamp_of d)"
proof (induction hs arbitrary: c)
  case Nil
  then show ?case by simp
next
  case (Cons h hs)
  from Cons.prems obtain x where
    "receive pt h c = (Inr x, receive_clock pt h c)" and
    rest: "witness_all pt hs (receive_clock pt h c) = (Inr (), d)"
    by (cases "receive pt h c")
      (auto simp: witness_stamp_def clock_defs split: sum.splits if_splits)
  then show ?case
    using Cons.IH [OF rest] receive_clock_greater [of c pt h] receive_clock_beats_remote [of h pt c]
    by auto
qed

lemma remoteStamps_sanitized:
  "h \<in> set (remoteStamps (sanitizeRemoteEntriesPayload p now)) \<Longrightarrow> wall h \<le> now + HLC_MAX_DRIFT_MS"
  by (auto simp: remoteStamps_def sanitizeRemoteEntriesPayload_def isFutureStamp_def)

lemma applyRemote_calls:
  "snd (applyRemotePayload l r now) =
     (if ar_changed (fst (applyRemotePayload l r now))
      then [WitnessRemote (remoteStamps (sanitizeRemoteEntriesPayload r now)),
            WriteMerged (ar_payload (fst (applyRemotePayload l r now)))]
      else [])"
  by (simp add: applyRemotePayload_def Let_def)

lemma applyRemote_payload:
  "ar_payload (fst (applyRemotePayload l r now)) =
     mergeEntriesPayload l (sanitizeRemoteEntriesPayload r now)"
  by (simp add: applyRemotePayload_def Let_def)

lemma applyRemote_changed:
  "ar_changed (fst (applyRemotePayload l r now)) \<longleftrightarrow>
     \<not> payloadsEquivalent l (mergeEntriesPayload l (sanitizeRemoteEntriesPayload r now))"
  by (simp add: applyRemotePayload_def Let_def)

lemma sync_receive_cases:
  "sync_receive now r s =
     (if ar_changed (fst (applyRemotePayload (stored s) r now))
      then case witness_all now (remoteStamps (sanitizeRemoteEntriesPayload r now)) (host_clock s) of
             (Inl e, c) \<Rightarrow> (Inl e, s\<lparr>host_clock := c\<rparr>)
           | (Inr _, c) \<Rightarrow>
               (Inr (), s\<lparr>host_clock := c,
                  stored := mergeEntriesPayload (stored s) (sanitizeRemoteEntriesPayload r now)\<rparr>)
      else (Inr (), s))"
  by (simp add: sync_receive_def applyRemote_calls applyRemote_payload split: prod.split sum.split)

lemma sanitize_honest:
  assumes "list_all (\<lambda>h. \<not> isFutureStamp h now) (remoteStamps p @ map snd (settingsStamps (settings p)))"
    and "wf_payload p"
  shows "sanitizeRemoteEntriesPayload p now = p"
proof -
  have "filter (\<lambda>(k, r). \<not> isFutureStamp (ss_hlc r) now) m = m" if m: "settings p = Some m" for m
  proof -
    have "map_of (settingsStamps (settings p)) k = Some (ss_hlc r)" if "(k, r) \<in> set m" for k r
      using that m assms(2) settings_stamps_at [OF assms(2), of k]
      by (simp add: setting_at_def wf_payload_def distinct_keys_map_of_iff [THEN iffD2])
    then have "\<not> isFutureStamp (ss_hlc r) now" if "(k, r) \<in> set m" for k r
      using assms(1) that by (force simp: list_all_iff dest!: map_of_SomeD)
    then show ?thesis
      by (auto intro!: filter_True)
  qed
  then show ?thesis
    using assms(1)
    by (cases "settings p")
      (auto simp: sanitizeRemoteEntriesPayload_def remoteStamps_def list_all_iff intro!: filter_True)
qed

lemma view_after_receive:
  "wf_payload r \<Longrightarrow>
   payload_view (ar_payload (fst (applyRemotePayload l r now))) =
     join_payload (payload_view l) (payload_view (sanitizeRemoteEntriesPayload r now))"
  by (simp add: applyRemote_payload payload_view_merge wf_payload_sanitize)

lemma entry_at_mem: "entry_at p k = Some e \<Longrightarrow> e \<in> set (entries p)"
  by (auto simp: entry_at_alive alive_def payloadToReplica_def records_replicaFrom
      dest!: best_mem split: option.splits if_splits)

lemma tomb_at_mem: "tomb_at p k = Some h \<Longrightarrow> h \<in> tb_hlc ` set (tombs p)"
  by (auto simp: tomb_at_eq dest!: best_mem)

lemma setting_at_mem: "setting_at p k = Some r \<Longrightarrow> \<exists>m. settings p = Some m \<and> (k, r) \<in> set m"
  by (auto simp: setting_at_def dest: map_of_SomeD split: option.splits)

lemma sanitized_not_future:
  "map_option ee_hlc (entry_at (sanitizeRemoteEntriesPayload r now) k) = Some h \<Longrightarrow> \<not> isFutureStamp h now"
  "tomb_at (sanitizeRemoteEntriesPayload r now) k = Some h \<Longrightarrow> \<not> isFutureStamp h now"
  "map_option ss_hlc (setting_at (sanitizeRemoteEntriesPayload r now) k) = Some h \<Longrightarrow> \<not> isFutureStamp h now"
  by (auto simp: sanitizeRemoteEntriesPayload_def dest!: entry_at_mem tomb_at_mem setting_at_mem)

lemma not_planted:
  "x \<in> {None, y, z} \<Longrightarrow> (\<And>h. z = Some h \<Longrightarrow> \<not> F h) \<Longrightarrow> x = Some h \<and> F h \<longrightarrow> y = Some h"
  by auto

lemma send_after:
  "h < stamp_of c \<Longrightarrow> fst (send pt c) = Inr w \<Longrightarrow> h < w"
  using send_clock_greater [of c pt] by (auto simp: clock_defs split: if_splits)

lemmas payload_eval =
  emptyEntriesPayload_def mergeEntriesPayload_def replicaToPayload_def payloadToReplica_def
  replicaFrom_def mergeReplicas_def liveRecords_def sanitizeRemoteEntriesPayload_def
  mergeSyncedSettings_def keep_max_def isFutureStamp_def applyRemotePayload_def
  payloadsEquivalent_def stampMap_def stampMapsEqual_def settingsStamps_def map_from_pairs_def
  remoteStamps_def HLC_MAX_DRIFT_MS_def Let_def

subsection \<open>Properties\<close>

lemma payload_gossip:
  assumes "wf_payload s" "list_all wf_payload xs" "set xs = set ys"
  shows "payload_view (fold (\<lambda>x acc. mergeEntriesPayload acc x) xs s)
       = payload_view (fold (\<lambda>x acc. mergeEntriesPayload acc x) ys s)"
  using payloads.gossip_order_irrelevant [OF assms] unfolding payloads.absorb_all_def .

text \<open>Property C2: the merge decides each entry and each setting on its own, by stamp. The merged vault shows an
  entry exactly when it is the newer of the two sides' entries and its stamp beats the newer of
  their tombstones (a deletion wins ties, a later edit resurrects), the sealed envelope is
  carried over verbatim, and the merged tombstone is the newer one. A setting of the merged vault is
  the one of the side that stamped it later, the local one when both have the same stamp, and a setting
  only one side has is kept.\<close>

theorem merge_decides_by_stamp:
  assumes "wf_payload b"
  shows "(entry_at (mergeEntriesPayload a b) k = Some e \<longleftrightarrow>
      newer ee_hlc (entry_at a k) (entry_at b k) = Some e \<and>
      max (tomb_at a k) (tomb_at b k) < Some (ee_hlc e))
   \<and> tomb_at (mergeEntriesPayload a b) k = max (tomb_at a k) (tomb_at b k)
   \<and> (setting_at (mergeEntriesPayload a b) k = Some r \<longleftrightarrow>
      setting_at a k = Some r \<and> (\<forall>r'. setting_at b k = Some r' \<longrightarrow> ss_hlc r' \<le> ss_hlc r) \<or>
      setting_at b k = Some r \<and> (\<forall>r'. setting_at a k = Some r' \<longrightarrow> ss_hlc r' < ss_hlc r))"
proof (intro conjI)
  show "entry_at (mergeEntriesPayload a b) k = Some e \<longleftrightarrow>
      newer ee_hlc (entry_at a k) (entry_at b k) = Some e \<and> max (tomb_at a k) (tomb_at b k) < Some (ee_hlc e)"
    by (auto simp: entry_at_merge alive_def split: option.splits if_splits)
  show "tomb_at (mergeEntriesPayload a b) k = max (tomb_at a k) (tomb_at b k)"
    by (rule tomb_at_merge)
  show "setting_at (mergeEntriesPayload a b) k = Some r \<longleftrightarrow>
      setting_at a k = Some r \<and> (\<forall>r'. setting_at b k = Some r' \<longrightarrow> ss_hlc r' \<le> ss_hlc r) \<or>
      setting_at b k = Some r \<and> (\<forall>r'. setting_at a k = Some r' \<longrightarrow> ss_hlc r' < ss_hlc r)"
    unfolding setting_at_merge [OF assms] newer_def by (auto split: option.split)
qed

theorem merge_decides_by_stamp_witness:
  "let a = \<lparr>entries = [], tombs = [], settings = Some [(''theme'', \<lparr>ss_hlc = Hlc 1 0 ''a'', ss_value = True\<rparr>)]\<rparr>;
       b = \<lparr>entries = [], tombs = [\<lparr>tb_id = ''x'', tb_hlc = Hlc 3 0 ''b''\<rparr>],
            settings = Some [(''theme'', \<lparr>ss_hlc = Hlc 2 0 ''b'', ss_value = False\<rparr>)]\<rparr>
   in setting_at (mergeEntriesPayload a b) ''theme'' = Some \<lparr>ss_hlc = Hlc 2 0 ''b'', ss_value = False\<rparr>"
proof -
  let ?a = "\<lparr>entries = [], tombs = [], settings = Some [(''theme'', \<lparr>ss_hlc = Hlc 1 0 ''a'', ss_value = True\<rparr>)]\<rparr>"
  let ?b = "\<lparr>entries = [], tombs = [\<lparr>tb_id = ''x'', tb_hlc = Hlc 3 0 ''b''\<rparr>],
            settings = Some [(''theme'', \<lparr>ss_hlc = Hlc 2 0 ''b'', ss_value = False\<rparr>)]\<rparr>"
  have "wf_payload ?b" by (simp add: wf_payload_def)
  from merge_decides_by_stamp [OF this, of ?a "''theme''" _ "\<lparr>ss_hlc = Hlc 2 0 ''b'', ss_value = False\<rparr>"] show ?thesis
    by (simp add: Let_def setting_at_def hlc_less_iff)
qed

text \<open>Property C3: pairwise gossip converges. Devices that start from one payload and merge the same
  set of peer payloads, in whatever order and however often, agree on the stamp of every live
  entry, every tombstone and every vault setting.\<close>

theorem payload_gossip_converges:
  assumes "wf_payload s" "list_all wf_payload xs" "set xs = set ys"
  shows "payload_view (fold (\<lambda>x acc. mergeEntriesPayload acc x) xs s)
       = payload_view (fold (\<lambda>x acc. mergeEntriesPayload acc x) ys s)"
  by (rule payload_gossip [OF assms])

theorem payload_gossip_converges_witness:
  "let a = \<lparr>entries = [], tombs = [\<lparr>tb_id = ''x'', tb_hlc = Hlc 3 0 ''a''\<rparr>],
            settings = Some [(''theme'', \<lparr>ss_hlc = Hlc 1 0 ''a'', ss_value = True\<rparr>)]\<rparr>;
       b = \<lparr>entries = [\<lparr>ee_id = ''x'', ee_wrappedDek = [], ee_dekIv = [], ee_ciphertext = [],
                         ee_iv = [], ee_hlc = Hlc 2 0 ''b''\<rparr>], tombs = [],
            settings = Some [(''theme'', \<lparr>ss_hlc = Hlc 2 0 ''b'', ss_value = False\<rparr>)]\<rparr>
   in payload_view (fold (\<lambda>x acc. mergeEntriesPayload acc x) [a, b] emptyEntriesPayload)
    = payload_view (fold (\<lambda>x acc. mergeEntriesPayload acc x) [b, a, a] emptyEntriesPayload)"
  unfolding Let_def
  by (rule payload_gossip_converges) (auto simp: wf_payload_def emptyEntriesPayload_def)

text \<open>A payload with no stamp beyond the drift budget has none at any later clock.\<close>

definition none_future :: "'v entries_payload \<Rightarrow> nat \<Rightarrow> bool" where
  "none_future r now \<longleftrightarrow> list_all (\<lambda>h. \<not> isFutureStamp h now) (remoteStamps r @ map snd (settingsStamps (settings r)))"

lemma sanitize_later:
  assumes "none_future r now" "wf_payload r" "now \<le> later"
  shows "sanitizeRemoteEntriesPayload r later = r"
proof (rule sanitize_honest)
  have "\<not> isFutureStamp h later" if "\<not> isFutureStamp h now" for h
    using that assms(3) by (simp add: isFutureStamp_def)
  then show "list_all (\<lambda>h. \<not> isFutureStamp h later) (remoteStamps r @ map snd (settingsStamps (settings r)))"
    using assms(1) unfolding none_future_def by (auto simp: list_all_iff)
qed (rule assms(2))

text \<open>The local payload after receiving a list of payloads, each at its own time.\<close>

fun receive_all :: "('v entries_payload \<times> nat) list \<Rightarrow> 'v entries_payload \<Rightarrow> 'v entries_payload" where
  "receive_all [] l = l"
| "receive_all ((r, now) # rs) l = receive_all rs (ar_payload (fst (applyRemotePayload l r now)))"

lemma receive_all_fold:
  "receive_all rs l = fold (\<lambda>x acc. mergeEntriesPayload acc x) (map (\<lambda>(r, now). sanitizeRemoteEntriesPayload r now) rs) l"
  by (induction rs l rule: receive_all.induct) (simp_all add: applyRemote_payload)

lemma canonical_wf: "canonical p \<Longrightarrow> wf_payload p"
  by (simp add: canonical_def)

lemma canonical_fold:
  "canonical l \<Longrightarrow> list_all wf_payload xs \<Longrightarrow> canonical (fold (\<lambda>x acc. mergeEntriesPayload acc x) xs l)"
  by (induction xs arbitrary: l) (auto simp: canonical_merge canonical_wf)

text \<open>Property C24: gossip does not loop. Once a remote payload without stamps beyond the drift budget has been applied
  to a canonical local payload, receiving it again at any later time changes nothing, whatever other payloads were
  received in between: the merge reports no change, and nothing is witnessed, written or rebroadcast. (What the
  clock dropped as too far ahead may be accepted later, so a payload with such stamps is not covered.)\<close>

theorem reapplying_remote_is_silent:
  assumes "canonical l" "wf_payload r" "none_future r now" "list_all (\<lambda>(q, t). wf_payload q) qs" "now \<le> later"
  shows "applyRemotePayload (receive_all ((r, now) # qs) l) r later
       = (\<lparr>ar_payload = mergeEntriesPayload (receive_all ((r, now) # qs) l) r, ar_changed = False\<rparr>, [])"
proof -
  let ?m = "receive_all ((r, now) # qs) l"
  let ?xs = "r # map (\<lambda>(r, now). sanitizeRemoteEntriesPayload r now) qs"
  have r: "sanitizeRemoteEntriesPayload r now = r" "sanitizeRemoteEntriesPayload r later = r"
    using sanitize_later [OF assms(3,2)] assms(5) by simp_all
  have m: "?m = fold (\<lambda>x acc. mergeEntriesPayload acc x) ?xs l"
    unfolding receive_all_fold by (simp add: r)
  have wf: "wf_payload l" "list_all wf_payload ?xs" "list_all wf_payload (?xs @ [r])"
    using assms by (auto simp: canonical_def list_all_iff intro: wf_payload_sanitize)
  have c: "canonical ?m"
    unfolding m using assms(1) wf(2) by (rule canonical_fold)
  then have "canonical (mergeEntriesPayload ?m r)"
    using assms(2) by (metis canonical_merge canonical_wf)
  moreover have "payload_view ?m = payload_view (mergeEntriesPayload ?m r)"
    using payload_gossip [OF wf(1,3), of ?xs] unfolding m by auto
  ultimately have "payloadsEquivalent ?m (mergeEntriesPayload ?m r)"
    using c by (simp add: payloadsEquivalent_view)
  then show ?thesis
    by (simp add: applyRemotePayload_def Let_def r(2))
qed

theorem reapplying_remote_is_silent_witness:
  "let r = \<lparr>entries = [], tombs = [\<lparr>tb_id = ''x'', tb_hlc = Hlc 3 0 ''a''\<rparr>], settings = None\<rparr> :: bool entries_payload;
       q = \<lparr>entries = [], tombs = [\<lparr>tb_id = ''y'', tb_hlc = Hlc 4 0 ''b''\<rparr>], settings = None\<rparr>
   in snd (applyRemotePayload (receive_all [(r, 10), (q, 11)] emptyEntriesPayload) r 900000) = []"
proof -
  let ?r = "\<lparr>entries = [], tombs = [\<lparr>tb_id = ''x'', tb_hlc = Hlc 3 0 ''a''\<rparr>], settings = None\<rparr> :: bool entries_payload"
  let ?q = "\<lparr>entries = [], tombs = [\<lparr>tb_id = ''y'', tb_hlc = Hlc 4 0 ''b''\<rparr>], settings = None\<rparr> :: bool entries_payload"
  have "canonical (emptyEntriesPayload :: bool entries_payload)" "wf_payload ?r"
    by (simp_all add: canonical_def emptyEntriesPayload_def wf_payload_def)
  moreover have "none_future ?r 10" "list_all (\<lambda>(q, t). wf_payload q) [(?q, 11 :: nat)]"
    by (simp_all add: none_future_def remoteStamps_def settingsStamps_def map_from_pairs_def isFutureStamp_def wf_payload_def)
  ultimately show ?thesis
    using reapplying_remote_is_silent [of emptyEntriesPayload ?r 10 "[(?q, 11)]" 900000] by (simp add: Let_def)
qed

text \<open>An item dropped as too far ahead is taken when the same payload comes again later.\<close>

lemma dropped_item_taken_later:
  fixes r :: "bool entries_payload"
  defines "r \<equiv> \<lparr>entries = [], tombs = [\<lparr>tb_id = ''x'', tb_hlc = Hlc (HLC_MAX_DRIFT_MS + 20) 0 ''a''\<rparr>], settings = None\<rparr>"
  shows "applyRemotePayload emptyEntriesPayload r 10 = (\<lparr>ar_payload = emptyEntriesPayload, ar_changed = False\<rparr>, [])
    \<and> ar_changed (fst (applyRemotePayload emptyEntriesPayload r 20))"
  by (simp add: r_def payload_eval)

text \<open>Two devices agree after one exchange. When neither side holds stamps beyond the
  drift budget, A receiving B's payload and then B receiving A's result leaves both with the
  same live entry stamps, tombstones and settings stamps.\<close>

lemma exchange_converges:
  assumes "wf_payload a" "wf_payload b"
    and "sanitizeRemoteEntriesPayload b now = b"
    and "sanitizeRemoteEntriesPayload a' now = a'"
    and a': "a' = ar_payload (fst (applyRemotePayload a b now))"
  shows "payload_view (ar_payload (fst (applyRemotePayload b a' now))) = payload_view a'"
proof -
  have m: "a' = mergeEntriesPayload a b" and wf: "wf_payload a'"
    using assms by (simp_all add: applyRemote_payload wf_payload_merge)
  have "payload_view (ar_payload (fst (applyRemotePayload b a' now))) = payload_view (mergeEntriesPayload b a')"
    using assms(4) by (simp add: applyRemote_payload)
  also have "\<dots> = payload_view (mergeEntriesPayload a' b)"
    using assms(2) wf by (rule payloads.merge_comm)
  also have "\<dots> = payload_view a'"
    unfolding m using assms(1,2) by (rule payloads.merge_absorb)
  finally show ?thesis .
qed

text \<open>A peer cannot plant future-dated state. Whatever it sends, every live entry,
  tombstone and setting of the merged payload that is stamped beyond the drift budget was
  already held locally.\<close>

lemma receive_blocks_future_stamps:
  assumes "wf_payload r"
  shows "(map_option ee_hlc (entry_at (ar_payload (fst (applyRemotePayload l r now))) k) = Some h \<and>
            isFutureStamp h now \<longrightarrow> map_option ee_hlc (entry_at l k) = Some h)
    \<and> (tomb_at (ar_payload (fst (applyRemotePayload l r now))) k = Some h \<and>
            isFutureStamp h now \<longrightarrow> tomb_at l k = Some h)
    \<and> (map_option ss_hlc (setting_at (ar_payload (fst (applyRemotePayload l r now))) k) = Some h \<and>
            isFutureStamp h now \<longrightarrow> map_option ss_hlc (setting_at l k) = Some h)"
proof -
  let ?r = "sanitizeRemoteEntriesPayload r now"
  have e: "map_option ee_hlc (entry_at (mergeEntriesPayload l ?r) k)
      \<in> {None, map_option ee_hlc (entry_at l k), map_option ee_hlc (entry_at ?r k)}"
    using newer_cases [of ee_hlc "entry_at l k" "entry_at ?r k"]
    by (auto simp: entry_at_merge alive_def split: option.splits)
  have t: "tomb_at (mergeEntriesPayload l ?r) k \<in> {None, tomb_at l k, tomb_at ?r k}"
    by (simp add: tomb_at_merge max_def)
  have st: "map_option ss_hlc (setting_at (mergeEntriesPayload l ?r) k)
      \<in> {None, map_option ss_hlc (setting_at l k), map_option ss_hlc (setting_at ?r k)}"
    using newer_cases [of ss_hlc "setting_at l k" "setting_at ?r k"] assms
    by (auto simp: setting_at_merge wf_payload_sanitize)
  show ?thesis
    unfolding applyRemote_payload
    by (intro conjI not_planted [OF e] not_planted [OF t] not_planted [OF st])
      (erule sanitized_not_future)+
qed

text \<open>After a successful receive that changed the vault, the next local write wins. The
  stamp the device issues next beats every entry and tombstone stamp of the peer's (filtered)
  payload, so a local edit made after seeing the peer's data is never lost to it. A receive whose
  witnessing overflows the clock is refused and leaves the stored payload as it was.\<close>

lemma receive_orders_local_writes:
  assumes "sync_receive now r s = (res, s')"
  shows "(ar_changed (fst (applyRemotePayload (stored s) r now)) \<and> res = Inr () \<and>
            fst (send pt (host_clock s')) = Inr w
          \<longrightarrow> list_all (\<lambda>h. h < w) (remoteStamps (sanitizeRemoteEntriesPayload r now)))
    \<and> (res \<noteq> Inr () \<longrightarrow> stored s' = stored s)"
proof -
  let ?hs = "remoteStamps (sanitizeRemoteEntriesPayload r now)"
  have ok: "list_all (\<lambda>h. h < w) ?hs"
    if "witness_all now ?hs (host_clock s) = (Inr (), d)" "fst (send pt d) = Inr w" for d
    using witness_all_beats [OF that(1)] send_after [OF _ that(2)] remoteStamps_sanitized [of _ r now]
    by (auto simp: list_all_iff)
  show ?thesis
  proof (cases "ar_changed (fst (applyRemotePayload (stored s) r now))")
    case True
    then show ?thesis
      using assms ok by (auto simp: sync_receive_cases split: prod.splits sum.splits)
  next
    case False
    with assms show ?thesis
      by (simp add: sync_receive_cases)
  qed
qed

text \<open>Settings stamps are not witnessed. The stamps the clock is advanced past are those
  of entries and tombstones only: receiving a payload that carries nothing but a setting stamped
  ahead of this device's clock (inside the drift budget) stores the setting and leaves the clock
  where it was, so this device's next write is stamped before the setting it has just seen.\<close>

lemma setting_stamps_not_witnessed:
  fixes r :: "bool entries_payload"
  defines "r \<equiv> \<lparr>entries = [], tombs = [],
                 settings = Some [(''theme'', \<lparr>ss_hlc = Hlc 1500 0 ''b'', ss_value = True\<rparr>)]\<rparr>"
    and "c \<equiv> \<lparr>clk_wall = 0, clk_counter = 0, clk_node = ''a''\<rparr>"
  shows "sync_receive 1000 r \<lparr>stored = emptyEntriesPayload, host_clock = c\<rparr>
           = (Inr (), \<lparr>stored = r, host_clock = c\<rparr>)
    \<and> fst (send 1001 c) = Inr (Hlc 1001 0 ''a'') \<and> Hlc 1001 0 ''a'' < Hlc 1500 0 ''b''"
  by (simp add: r_def c_def sync_receive_def payload_eval clock_defs send_clock_def MAX_COUNTER_def
      hlc_less_iff)

end
