(* ===== verification/Entries_Blob.thy ===== *)
theory Entries_Blob
  imports Vault_Format Vault_Merge Js_Text "HOL-Library.Countable"
begin

text \<open>
  The entries section of the vault file: its one reader and writer for the app
  (\<open>packages/core/src/vault/entries-blob.ts\<close>), the vault builder (\<open>vault/build-vault.ts\<close>), the
  recovery from a snapshot (\<open>vault/recover-entries.ts\<close>) and the extension background's own
  writer (\<open>platform-extension/src/background/vault-io.ts\<close>).

  The authenticated encryption under the vault key runs in the Rust core and is the argument
  \<open>A\<close>: \<open>seal\<close> (whose randomness is the number of the call) and \<open>unseal\<close>, which fails by
  returning \<open>None\<close>. The adapter around it speaks base64. JSON printing and validated parsing of
  the payload are the argument \<open>C\<close>. A loaded key is \<open>Some k\<close>. The file is what the
  \<open>StorageAdapter\<close> contract says: a write snapshots the previous bytes first.
\<close>

record 'k aead =
  seal :: "'k \<Rightarrow> nat \<Rightarrow> string \<Rightarrow> bytes \<times> bytes"
  unseal :: "'k \<Rightarrow> bytes \<Rightarrow> bytes \<Rightarrow> string option"

record 'v payload_codec =
  encodeEntriesPayload :: "'v entries_payload \<Rightarrow> string"
  decodeEntriesPayload :: "string \<Rightarrow> 'v entries_payload option"

datatype blob_error =
    Locked
  | DecryptFailed
  | BadBase64
  | BadFormat format_error
  | BadPayload
  | KeyMismatch
  | ClockRefused clock_error

definition encryptWithVek :: "'k aead \<Rightarrow> 'k option \<Rightarrow> nat \<Rightarrow> string \<Rightarrow> blob_error + (string \<times> string)" where
  "encryptWithVek A key n p =
     (case key of
        None \<Rightarrow> Inl Locked
      | Some k \<Rightarrow> Inr (map_prod bytesToBase64 bytesToBase64 (seal A k n p)))"

definition decryptWithVek :: "'k aead \<Rightarrow> 'k option \<Rightarrow> string \<Rightarrow> string \<Rightarrow> blob_error + string" where
  "decryptWithVek A key iv ct =
     (case key of
        None \<Rightarrow> Inl Locked
      | Some k \<Rightarrow>
          (case (base64ToBytes iv, base64ToBytes ct) of
             (Some i, Some c) \<Rightarrow> (case unseal A k i c of None \<Rightarrow> Inl DecryptFailed | Some p \<Rightarrow> Inr p)
           | _ \<Rightarrow> Inl BadBase64))"

record vault_file =
  live :: bytes
  snapshot :: "bytes option"

definition writeVaultBlob :: "bytes \<Rightarrow> vault_file \<Rightarrow> vault_file" where
  "writeVaultBlob b f = \<lparr>live = b, snapshot = Some (live f)\<rparr>"

definition restoreVaultFromBackup :: "vault_file \<Rightarrow> vault_file" where
  "restoreVaultFromBackup f = (case snapshot f of None \<Rightarrow> f | Some b \<Rightarrow> f\<lparr>live := b\<rparr>)"

subsection \<open>The entries blob store\<close>

definition decrypt_outer :: "'k aead \<Rightarrow> 'k option \<Rightarrow> vault_blob \<Rightarrow> blob_error + string" where
  "decrypt_outer A key b =
     decryptWithVek A key (bytesToBase64 (entriesIv b)) (bytesToBase64 (entriesCiphertext b))"

text \<open>An empty ciphertext is an empty payload; the background writer reads the same way.\<close>

definition payload_in ::
  "'k aead \<Rightarrow> 'v payload_codec \<Rightarrow> 'k option \<Rightarrow> vault_blob \<Rightarrow> blob_error + 'v entries_payload" where
  "payload_in A C key b =
     (if length (entriesCiphertext b) = 0 then Inr emptyEntriesPayload
      else (case decrypt_outer A key b of
              Inl e \<Rightarrow> Inl e
            | Inr json \<Rightarrow>
                (case decodeEntriesPayload C json of None \<Rightarrow> Inl BadPayload | Some p \<Rightarrow> Inr p)))"

definition readEntriesPayload ::
  "'k aead \<Rightarrow> 'v payload_codec \<Rightarrow> 'k option \<Rightarrow> vault_file \<Rightarrow> blob_error + 'v entries_payload" where
  "readEntriesPayload A C key f =
     (case decodeVaultBlob (live f) of
        Inl e \<Rightarrow> Inl (BadFormat e)
      | Inr b \<Rightarrow> payload_in A C key b)"

text \<open>Seal a payload, turn the adapter's base64 back into bytes and encode the vault.\<close>

definition seal_into ::
  "'k aead \<Rightarrow> 'v payload_codec \<Rightarrow> 'k option \<Rightarrow> nat \<Rightarrow> slot list \<Rightarrow> 'v entries_payload \<Rightarrow> blob_error + bytes" where
  "seal_into A C key n ss p =
     (case encryptWithVek A key n (encodeEntriesPayload C p) of
        Inl e \<Rightarrow> Inl e
      | Inr (iv, ct) \<Rightarrow>
          (case (base64ToBytes iv, base64ToBytes ct) of
             (Some i, Some c) \<Rightarrow>
               (case encodeVaultBlob \<lparr>slots = ss, entriesIv = i, entriesCiphertext = c\<rparr> of
                  Inl e \<Rightarrow> Inl (BadFormat e)
                | Inr bs \<Rightarrow> Inr bs)
           | _ \<Rightarrow> Inl BadBase64))"

text \<open>A write is a call with four waits: for the file, for the check, for the seal and for the store. The key is
  whatever the process has loaded when the core runs the check, and again when it runs the seal; while a write waits,
  other writes go on and the key may be replaced.\<close>

datatype write_phase = ReadingBlob | Checking vault_blob | Sealing vault_blob | Storing bytes

record ('k, 'v) blob_host =
  bh_file :: vault_file
  bh_key :: "'k option"
  bh_calls :: nat
  bh_writes :: "(nat \<times> 'v entries_payload \<times> write_phase) list"
  bh_results :: "(nat \<times> (blob_error + unit)) list"

datatype ('k, 'v) blob_event = WriteBegins nat "'v entries_payload" | WriteResumes nat | KeyLoaded "'k option"

definition write_to :: "nat \<Rightarrow> 'v entries_payload \<Rightarrow> write_phase \<Rightarrow> ('k, 'v) blob_host \<Rightarrow> ('k, 'v) blob_host" where
  "write_to i p ph s = s\<lparr>bh_writes := AList.update i (p, ph) (bh_writes s)\<rparr>"

definition write_ends :: "nat \<Rightarrow> blob_error + unit \<Rightarrow> ('k, 'v) blob_host \<Rightarrow> ('k, 'v) blob_host" where
  "write_ends i r s = s\<lparr>bh_writes := AList.delete i (bh_writes s), bh_results := bh_results s @ [(i, r)]\<rparr>"

definition writeEntriesBlob ::
  "'k aead \<Rightarrow> 'v payload_codec \<Rightarrow> bool \<Rightarrow> nat \<Rightarrow> 'v entries_payload \<Rightarrow> write_phase \<Rightarrow> ('k, 'v) blob_host \<Rightarrow> ('k, 'v) blob_host" where
  "writeEntriesBlob A C verifyVekBeforeWrite i p ph s =
     (case ph of
        ReadingBlob \<Rightarrow>
          (case decodeVaultBlob (live (bh_file s)) of
             Inl e \<Rightarrow> write_ends i (Inl (BadFormat e)) s
           | Inr b \<Rightarrow>
               if verifyVekBeforeWrite \<and> length (entriesCiphertext b) > 0 then write_to i p (Checking b) s
               else write_to i p (Sealing b) s)
      | Checking b \<Rightarrow>
          if isl (decrypt_outer A (bh_key s) b) then write_ends i (Inl KeyMismatch) s else write_to i p (Sealing b) s
      | Sealing b \<Rightarrow>
          (case seal_into A C (bh_key s) (bh_calls s) (slots b) p of
             Inl e \<Rightarrow> write_ends i (Inl e) (s\<lparr>bh_calls := bh_calls s + 1\<rparr>)
           | Inr bs \<Rightarrow> write_to i p (Storing bs) (s\<lparr>bh_calls := bh_calls s + 1\<rparr>))
      | Storing bs \<Rightarrow> write_ends i (Inr ()) (s\<lparr>bh_file := writeVaultBlob bs (bh_file s)\<rparr>))"

fun blob_step :: "'k aead \<Rightarrow> 'v payload_codec \<Rightarrow> bool \<Rightarrow> ('k, 'v) blob_event \<Rightarrow> ('k, 'v) blob_host \<Rightarrow> ('k, 'v) blob_host" where
  "blob_step A C verify (WriteBegins i p) s = (if map_of (bh_writes s) i = None then write_to i p ReadingBlob s else s)"
| "blob_step A C verify (WriteResumes i) s =
     (case map_of (bh_writes s) i of None \<Rightarrow> s | Some (p, ph) \<Rightarrow> writeEntriesBlob A C verify i p ph s)"
| "blob_step A C verify (KeyLoaded key) s = s\<lparr>bh_key := key\<rparr>"

definition blob_run :: "'k aead \<Rightarrow> 'v payload_codec \<Rightarrow> bool \<Rightarrow> ('k, 'v) blob_event list \<Rightarrow> ('k, 'v) blob_host \<Rightarrow> ('k, 'v) blob_host" where
  "blob_run A C verify es s = fold (blob_step A C verify) es s"

definition blob_host_of :: "'k option \<Rightarrow> vault_file \<Rightarrow> ('k, 'v) blob_host" where
  "blob_host_of key f = \<lparr>bh_file = f, bh_key = key, bh_calls = 0, bh_writes = [], bh_results = []\<rparr>"

text \<open>A write with nothing else going on.\<close>

definition write_alone :: "nat \<Rightarrow> 'v entries_payload \<Rightarrow> ('k, 'v) blob_event list" where
  "write_alone i p = [WriteBegins i p, WriteResumes i, WriteResumes i, WriteResumes i, WriteResumes i]"

subsection \<open>Building a vault\<close>

text \<open>
  \<open>wrapVek\<close>: a fresh salt and slot id, and the key wrapped under a secret by the Rust core
  (the argument \<open>wrap\<close>, which is told the format's magic and version).
\<close>

record wrap_out =
  wo_verifier :: string
  wo_wrapIv :: string
  wo_wrappedVek :: string

definition wrapVek ::
  "(string \<Rightarrow> string \<Rightarrow> string \<Rightarrow> bytes \<Rightarrow> wrap_out) \<Rightarrow> string \<Rightarrow> string \<Rightarrow> string \<Rightarrow> key_fields option" where
  "wrapVek wrap saltB64 slotIdB64 secret =
     (let w = wrap secret saltB64 slotIdB64 verifierPrefix
      in case (base64ToBytes slotIdB64, base64ToBytes saltB64, base64ToBytes (wo_verifier w),
               base64ToBytes (wo_wrapIv w), base64ToBytes (wo_wrappedVek w)) of
           (Some i, Some s, Some v, Some wi, Some wv) \<Rightarrow>
             Some \<lparr>slotId = i, salt = s, verifier = v, wrapIv = wi, wrappedVek = wv\<rparr>
         | _ \<Rightarrow> None)"

definition wrapPasswordSlot ::
  "(string \<Rightarrow> string \<Rightarrow> string \<Rightarrow> bytes \<Rightarrow> wrap_out) \<Rightarrow> string \<Rightarrow> string \<Rightarrow> string \<Rightarrow> slot option" where
  "wrapPasswordSlot wrap saltB64 slotIdB64 password =
     map_option PasswordSlot (wrapVek wrap saltB64 slotIdB64 password)"

definition wrapRecoverySlot ::
  "(string \<Rightarrow> string \<Rightarrow> string \<Rightarrow> bytes \<Rightarrow> wrap_out) \<Rightarrow> string \<Rightarrow> string \<Rightarrow> string \<Rightarrow> slot option" where
  "wrapRecoverySlot wrap saltB64 slotIdB64 recovery_code =
     map_option RecoverySlot (wrapVek wrap saltB64 slotIdB64 recovery_code)"

definition buildVaultBytes ::
  "'k aead \<Rightarrow> 'v payload_codec \<Rightarrow> 'k option \<Rightarrow> nat \<Rightarrow> slot list \<Rightarrow> 'v entries_payload \<Rightarrow> blob_error + bytes" where
  "buildVaultBytes A C key n ss p = seal_into A C key n ss p"

subsection \<open>Recovery\<close>

text \<open>\<open>has_backup_store\<close> says whether the platform has \<open>readVaultBackup\<close>.\<close>

definition decryptEntriesOrRecover ::
  "'k aead \<Rightarrow> 'k option \<Rightarrow> bool \<Rightarrow> vault_blob \<Rightarrow> vault_file \<Rightarrow> (blob_error + string) \<times> vault_file" where
  "decryptEntriesOrRecover A key has_backup_store b f =
     (case decrypt_outer A key b of
        Inr p \<Rightarrow> (Inr p, f)
      | Inl err \<Rightarrow>
          if \<not> has_backup_store then (Inl err, f)
          else
            let recovered =
                  (case snapshot f of
                     None \<Rightarrow> None
                   | Some bs \<Rightarrow>
                       (case decodeVaultBlob bs of
                          Inl _ \<Rightarrow> None
                        | Inr s \<Rightarrow>
                            if length (entriesCiphertext s) > 0
                            then (case decrypt_outer A key s of Inl _ \<Rightarrow> None | Inr p \<Rightarrow> Some p)
                            else None))
            in (case recovered of
                  None \<Rightarrow> (Inl err, f)
                | Some p \<Rightarrow> (Inr p, restoreVaultFromBackup f)))"

subsection \<open>The extension background's writer\<close>

text \<open>
  \<open>mutate\<close> is the caller's change to the entry list; it may stamp, so it takes and returns
  the background clock. The rebuilt payload has the mutated entries and the tombstones, and
  nothing else.
\<close>

record outer_result =
  or_entriesIv :: bytes
  or_entriesCiphertext :: bytes
  or_entryCount :: nat

definition reencryptOuterWithEntryChange ::
  "'k aead \<Rightarrow> 'v payload_codec \<Rightarrow> 'k option \<Rightarrow> nat \<Rightarrow> nat \<Rightarrow> vault_blob \<Rightarrow>
   (encrypted_entry list \<Rightarrow> hybrid_clock \<Rightarrow> (blob_error + encrypted_entry list) \<times> hybrid_clock) \<Rightarrow>
   hybrid_clock \<Rightarrow> (blob_error + outer_result) \<times> hybrid_clock" where
  "reencryptOuterWithEntryChange A C key n pt b mutate c =
     (case payload_in A C key b of
        Inl e \<Rightarrow> (Inl e, c)
      | Inr payload \<Rightarrow>
          (case witness_all pt (map ee_hlc (entries payload) @ map tb_hlc (tombs payload)) c of
             (Inl e, c') \<Rightarrow> (Inl (ClockRefused e), c')
           | (Inr _, c') \<Rightarrow>
               (case mutate (entries payload) c' of
                  (Inl e, c'') \<Rightarrow> (Inl e, c'')
                | (Inr mutated, c'') \<Rightarrow>
                    (case encryptWithVek A key n
                            (encodeEntriesPayload C \<lparr>entries = mutated, tombs = tombs payload, settings = None\<rparr>) of
                       Inl e \<Rightarrow> (Inl e, c'')
                     | Inr (iv, ct) \<Rightarrow>
                         (case (base64ToBytes iv, base64ToBytes ct) of
                            (Some i, Some ct') \<Rightarrow>
                              (Inr \<lparr>or_entriesIv = i, or_entriesCiphertext = ct',
                                    or_entryCount = length mutated\<rparr>, c'')
                          | _ \<Rightarrow> (Inl BadBase64, c''))))))"

text \<open>What every background caller does with the result: put it under the file's own slots.\<close>

definition background_write ::
  "'k aead \<Rightarrow> 'v payload_codec \<Rightarrow> 'k option \<Rightarrow> nat \<Rightarrow> nat \<Rightarrow>
   (encrypted_entry list \<Rightarrow> hybrid_clock \<Rightarrow> (blob_error + encrypted_entry list) \<times> hybrid_clock) \<Rightarrow>
   vault_file \<Rightarrow> hybrid_clock \<Rightarrow> (blob_error + vault_file) \<times> hybrid_clock" where
  "background_write A C key n pt mutate f c =
     (case decodeVaultBlob (live f) of
        Inl e \<Rightarrow> (Inl (BadFormat e), c)
      | Inr b \<Rightarrow>
          (case reencryptOuterWithEntryChange A C key n pt b mutate c of
             (Inl e, c') \<Rightarrow> (Inl e, c')
           | (Inr r, c') \<Rightarrow>
               (case encodeVaultBlob \<lparr>slots = slots b, entriesIv = or_entriesIv r,
                                      entriesCiphertext = or_entriesCiphertext r\<rparr> of
                  Inl e \<Rightarrow> (Inl (BadFormat e), c')
                | Inr bs \<Rightarrow> (Inr (writeVaultBlob bs f), c'))))"

subsection \<open>Facts about the store\<close>

text \<open>
  What the model relies on: sealing gives a 12-byte IV and a non-empty ciphertext that opens
  under the same key and no other, and the validated parser reads back what was printed.
\<close>

definition aead_ok :: "'k aead \<Rightarrow> bool" where
  "aead_ok A \<longleftrightarrow>
     (\<forall>k n p. unseal A k (fst (seal A k n p)) (snd (seal A k n p)) = Some p \<and>
              length (fst (seal A k n p)) = LEN_IV \<and> snd (seal A k n p) \<noteq> []) \<and>
     (\<forall>k k' n p. k \<noteq> k' \<longrightarrow> unseal A k' (fst (seal A k n p)) (snd (seal A k n p)) = None)"

definition codec_ok :: "'v payload_codec \<Rightarrow> bool" where
  "codec_ok C \<longleftrightarrow> (\<forall>p. decodeEntriesPayload C (encodeEntriesPayload C p) = Some p)"

lemma decrypt_outer_eq:
  "decrypt_outer A key b =
     (case key of None \<Rightarrow> Inl Locked
      | Some k \<Rightarrow> (case unseal A k (entriesIv b) (entriesCiphertext b) of None \<Rightarrow> Inl DecryptFailed | Some p \<Rightarrow> Inr p))"
  by (simp add: decrypt_outer_def decryptWithVek_def base64_round_trip split: option.split)

lemma seal_into_eq:
  "seal_into A C (Some k) n ss p =
     (case encodeVaultBlob \<lparr>slots = ss, entriesIv = fst (seal A k n (encodeEntriesPayload C p)),
                            entriesCiphertext = snd (seal A k n (encodeEntriesPayload C p))\<rparr> of
        Inl e \<Rightarrow> Inl (BadFormat e) | Inr bs \<Rightarrow> Inr bs)"
  by (cases "seal A k n (encodeEntriesPayload C p)")
    (simp add: seal_into_def encryptWithVek_def base64_round_trip)

lemma seal_into_fits:
  assumes "aead_ok A" "blob_fits b"
  shows "\<exists>bs. seal_into A C (Some k) n (slots b) p = Inr bs \<and>
    decodeVaultBlob bs = Inr \<lparr>slots = slots b, entriesIv = fst (seal A k n (encodeEntriesPayload C p)),
                              entriesCiphertext = snd (seal A k n (encodeEntriesPayload C p))\<rparr>"
proof -
  let ?b = "\<lparr>slots = slots b, entriesIv = fst (seal A k n (encodeEntriesPayload C p)),
             entriesCiphertext = snd (seal A k n (encodeEntriesPayload C p))\<rparr>"
  have "blob_fits ?b"
    using assms by (auto simp: blob_fits_def blob_schema_def aead_ok_def)
  then show ?thesis
    using encode_fits [of ?b] decode_encode_fits [of ?b] by (simp add: seal_into_eq)
qed

text \<open>A file whose entries were sealed under \<open>k\<close> (or that has none yet).\<close>

definition sealed_by :: "'k aead \<Rightarrow> 'k \<Rightarrow> vault_blob \<Rightarrow> bool" where
  "sealed_by A k b \<longleftrightarrow> (\<exists>n p. entriesIv b = fst (seal A k n p) \<and> entriesCiphertext b = snd (seal A k n p))"

lemma sealed_by_nonempty:
  assumes "aead_ok A" "sealed_by A k b"
  shows "entriesCiphertext b \<noteq> []"
proof -
  obtain n p where "entriesCiphertext b = snd (seal A k n p)"
    using assms(2) by (auto simp: sealed_by_def)
  with assms(1) show ?thesis by (simp add: aead_ok_def)
qed

lemma sealed_by_opens:
  assumes "aead_ok A" "sealed_by A k b"
  shows "isl (decrypt_outer A key b) \<longleftrightarrow> key \<noteq> Some k"
proof -
  obtain n p where b: "entriesIv b = fst (seal A k n p)" "entriesCiphertext b = snd (seal A k n p)"
    using assms(2) by (auto simp: sealed_by_def)
  show ?thesis
  proof (cases key)
    case (Some k')
    then show ?thesis
      using assms(1) b by (cases "k' = k") (auto simp: decrypt_outer_eq aead_ok_def)
  qed (simp add: decrypt_outer_eq)
qed

text \<open>The vault of a file: its slots, and no entries yet or entries sealed under the key those slots wrap.\<close>

definition own_blob :: "'k aead \<Rightarrow> 'k \<Rightarrow> slot list \<Rightarrow> vault_blob \<Rightarrow> bool" where
  "own_blob A k ss b \<longleftrightarrow> slots b = ss \<and> (entriesCiphertext b = [] \<or> sealed_by A k b)"

definition own_file :: "'k aead \<Rightarrow> 'k \<Rightarrow> slot list \<Rightarrow> vault_file \<Rightarrow> bool" where
  "own_file A k ss f \<longleftrightarrow> (\<exists>b. decodeVaultBlob (live f) = Inr b \<and> own_blob A k ss b)"

definition sealing :: "('k, 'v) blob_host \<Rightarrow> bool" where
  "sealing s \<longleftrightarrow> list_ex (\<lambda>(i, p, ph). case ph of Sealing _ \<Rightarrow> True | _ \<Rightarrow> False) (bh_writes s)"

text \<open>What the check does not see: another key comes in while a write is between its check and its seal, or a write
  finds a file without entries, which is not checked, while another key is loaded.\<close>

fun steady :: "'k \<Rightarrow> ('k, 'v) blob_event \<Rightarrow> ('k, 'v) blob_host \<Rightarrow> bool" where
  "steady k (KeyLoaded key) s \<longleftrightarrow> sealing s \<longrightarrow> key = None \<or> key = Some k"
| "steady k (WriteResumes i) s \<longleftrightarrow>
     (case (map_of (bh_writes s) i, decodeVaultBlob (live (bh_file s))) of
        (Some (p, ReadingBlob), Inr b) \<Rightarrow> entriesCiphertext b \<noteq> [] \<or> bh_key s = None \<or> bh_key s = Some k
      | _ \<Rightarrow> True)"
| "steady k (WriteBegins i p) s \<longleftrightarrow> True"

fun steady_run :: "'k aead \<Rightarrow> 'v payload_codec \<Rightarrow> 'k \<Rightarrow> ('k, 'v) blob_event list \<Rightarrow> ('k, 'v) blob_host \<Rightarrow> bool" where
  "steady_run A C k [] s \<longleftrightarrow> True"
| "steady_run A C k (e # es) s \<longleftrightarrow> steady k e s \<and> steady_run A C k es (blob_step A C True e s)"

definition phase_ok :: "'k aead \<Rightarrow> 'k \<Rightarrow> slot list \<Rightarrow> 'k option \<Rightarrow> write_phase \<Rightarrow> bool" where
  "phase_ok A k ss key ph \<longleftrightarrow>
     (case ph of
        ReadingBlob \<Rightarrow> True
      | Checking b \<Rightarrow> blob_fits b \<and> slots b = ss \<and> sealed_by A k b
      | Sealing b \<Rightarrow> blob_fits b \<and> slots b = ss \<and> (key = None \<or> key = Some k)
      | Storing bs \<Rightarrow> \<exists>b. decodeVaultBlob bs = Inr b \<and> slots b = ss \<and> sealed_by A k b)"

definition writes_ok :: "'k aead \<Rightarrow> 'k \<Rightarrow> slot list \<Rightarrow> ('k, 'v) blob_host \<Rightarrow> bool" where
  "writes_ok A k ss s \<longleftrightarrow> own_file A k ss (bh_file s) \<and>
     (\<forall>i p ph. map_of (bh_writes s) i = Some (p, ph) \<longrightarrow> phase_ok A k ss (bh_key s) ph)"

lemma write_fields [simp]:
  "bh_file (write_to i p ph s) = bh_file s" "bh_key (write_to i p ph s) = bh_key s"
  "bh_writes (write_to i p ph s) = AList.update i (p, ph) (bh_writes s)"
  "bh_file (write_ends i r s) = bh_file s" "bh_key (write_ends i r s) = bh_key s"
  "bh_writes (write_ends i r s) = AList.delete i (bh_writes s)"
  by (simp_all add: write_to_def write_ends_def)

lemma ok_to: "writes_ok A k ss s \<Longrightarrow> phase_ok A k ss (bh_key s) ph \<Longrightarrow> writes_ok A k ss (write_to i p ph s)"
  by (simp add: writes_ok_def update_conv')

lemma ok_ends: "writes_ok A k ss s \<Longrightarrow> writes_ok A k ss (write_ends i r s)"
  by (simp add: writes_ok_def delete_conv')

lemma ok_calls: "writes_ok A k ss (s\<lparr>bh_calls := n\<rparr>) = writes_ok A k ss s"
  by (simp add: writes_ok_def)

lemma write_step_ok:
  assumes A: "aead_ok A" and ok: "writes_ok A k ss s" and w: "map_of (bh_writes s) i = Some (p, ph)"
    and steady: "steady k (WriteResumes i) s"
  shows "writes_ok A k ss (writeEntriesBlob A C True i p ph s)"
proof (cases ph)
  case ReadingBlob
  obtain b where b: "decodeVaultBlob (live (bh_file s)) = Inr b" "own_blob A k ss b"
    using ok by (auto simp: writes_ok_def own_file_def)
  then show ?thesis
    using ok steady w decoded_fits [OF b(1)] ReadingBlob
    by (auto simp: writeEntriesBlob_def phase_ok_def own_blob_def intro!: ok_to)
next
  case (Checking b)
  have "phase_ok A k ss (bh_key s) (Checking b)"
    using ok w Checking unfolding writes_ok_def by blast
  then have "blob_fits b" "slots b = ss" "sealed_by A k b"
    by (simp_all add: phase_ok_def)
  then show ?thesis
    using ok Checking sealed_by_opens [OF A, of k b "bh_key s"]
    by (auto simp: writeEntriesBlob_def phase_ok_def intro!: ok_to ok_ends)
next
  case (Sealing b)
  have "phase_ok A k ss (bh_key s) (Sealing b)"
    using ok w Sealing unfolding writes_ok_def by blast
  then have b: "blob_fits b" "slots b = ss" "bh_key s = None \<or> bh_key s = Some k"
    by (simp_all add: phase_ok_def)
  show ?thesis
  proof (cases "bh_key s")
    case None
    then show ?thesis
      using ok Sealing by (simp add: writeEntriesBlob_def seal_into_def encryptWithVek_def ok_ends ok_calls)
  next
    case (Some k')
    then have k: "bh_key s = Some k" using b(3) by simp
    obtain bs where bs: "seal_into A C (Some k) (bh_calls s) (slots b) p = Inr bs"
      "decodeVaultBlob bs = Inr \<lparr>slots = slots b, entriesIv = fst (seal A k (bh_calls s) (encodeEntriesPayload C p)),
        entriesCiphertext = snd (seal A k (bh_calls s) (encodeEntriesPayload C p))\<rparr>"
      using seal_into_fits [OF A b(1)] by blast
    then have "phase_ok A k ss (Some k) (Storing bs)"
      using b(2) by (auto simp: phase_ok_def sealed_by_def)
    then show ?thesis
      using ok Sealing k bs(1) by (simp add: writeEntriesBlob_def ok_to ok_calls)
  qed
next
  case (Storing bs)
  have "phase_ok A k ss (bh_key s) (Storing bs)"
    using ok w Storing unfolding writes_ok_def by blast
  then obtain b where "decodeVaultBlob bs = Inr b" "slots b = ss" "sealed_by A k b"
    by (auto simp: phase_ok_def)
  then have "writes_ok A k ss (s\<lparr>bh_file := writeVaultBlob bs (bh_file s)\<rparr>)"
    using ok by (simp add: writes_ok_def own_file_def own_blob_def writeVaultBlob_def)
  then show ?thesis
    using Storing by (simp add: writeEntriesBlob_def ok_ends)
qed

lemma blob_step_ok:
  assumes "aead_ok A" "writes_ok A k ss s" "steady k e s"
  shows "writes_ok A k ss (blob_step A C True e s)"
proof (cases e)
  case (WriteBegins i p)
  then show ?thesis using assms(2) by (simp add: ok_to phase_ok_def)
next
  case (WriteResumes i)
  then show ?thesis
    using assms write_step_ok [OF assms(1,2)] by (auto split: option.split)
next
  case (KeyLoaded key)
  have "phase_ok A k ss key ph" if "map_of (bh_writes s) i = Some (p, ph)" "phase_ok A k ss (bh_key s) ph" for i p ph
  proof (cases ph)
    case (Sealing b)
    then have "sealing s" using map_of_SomeD [OF that(1)] by (force simp: sealing_def list_ex_iff)
    with that(2) assms(3) Sealing KeyLoaded show ?thesis by (auto simp: phase_ok_def)
  qed (use that(2) in \<open>simp_all add: phase_ok_def\<close>)
  then show ?thesis
    using assms(2) KeyLoaded by (simp add: writes_ok_def)
qed

lemma blob_run_ok:
  "aead_ok A \<Longrightarrow> writes_ok A k ss s \<Longrightarrow> steady_run A C k es s \<Longrightarrow> writes_ok A k ss (blob_run A C True es s)"
  by (induction es arbitrary: s) (simp_all add: blob_run_def blob_step_ok)

subsection \<open>A concrete crypto adapter\<close>

instance hlc :: countable
  by countable_datatype

instance encrypted_entry_ext :: (countable) countable
  by (rule countable_classI [of "\<lambda>r. to_nat (ee_id r, ee_wrappedDek r, ee_dekIv r, ee_ciphertext r, ee_iv r,
      ee_hlc r, encrypted_entry.more r)"]) auto

instance tombstone_ext :: (countable) countable
  by (rule countable_classI [of "\<lambda>r. to_nat (tb_id r, tb_hlc r, tombstone.more r)"]) auto

instance synced_setting_ext :: (countable, countable) countable
  by (rule countable_classI [of "\<lambda>r. to_nat (ss_hlc r, ss_value r, synced_setting.more r)"]) auto

instance entries_payload_ext :: (countable, countable) countable
  by (rule countable_classI [of "\<lambda>r. to_nat (entries r, tombs r, settings r, entries_payload.more r)"]) auto

definition sample_codec :: "nat payload_codec" where
  "sample_codec = \<lparr>encodeEntriesPayload = (\<lambda>p. dec (to_nat p)), decodeEntriesPayload = (\<lambda>s. Some (from_nat (undec s)))\<rparr>"

text \<open>A cipher that writes the key's byte in front of the text and checks it on opening.\<close>

definition sample_aead :: "u8 aead" where
  "sample_aead = \<lparr>seal = (\<lambda>k n p. (replicate 12 0, k # map (\<lambda>c. byte (of_char c)) p)),
     unseal = (\<lambda>k iv ct. case ct of [] \<Rightarrow> None | w # cs \<Rightarrow> if w = k then Some (map (\<lambda>b. char_of (unat b)) cs) else None)\<rparr>"

lemma sample_codec_ok: "codec_ok sample_codec"
  by (simp add: codec_ok_def sample_codec_def)

lemma sample_aead_ok: "aead_ok sample_aead"
  by (simp add: aead_ok_def sample_aead_def LEN_IV_def comp_def)

definition sample_file :: "u8 \<Rightarrow> vault_file" where
  "sample_file k = \<lparr>live = [0x56, 0x4c, 0x54, 0x31, 2, 1, 9, 0, 2, 7, 8] @ replicate 12 0 @ [k], snapshot = None\<rparr>"

definition sample_vault_blob :: "u8 \<Rightarrow> vault_blob" where
  "sample_vault_blob k = \<lparr>slots = [OpaqueSlot 9 [7, 8]], entriesIv = replicate 12 0, entriesCiphertext = [k]\<rparr>"

lemma decode_sample_file: "decodeVaultBlob (live (sample_file k)) = Inr (sample_vault_blob k)"
proof (rule decode_encode_fits)
  show "blob_fits (sample_vault_blob k)"
    by (simp add: blob_fits_def sample_vault_blob_def blob_schema_def KNOWN_KINDS_def kind_defs MAX_SLOTS_def
        LEN_IV_def slot_fits_def)
  show "encodeVaultBlob (sample_vault_blob k) = Inr (live (sample_file k))"
    by (simp add: encodeVaultBlob_def sample_vault_blob_def sample_file_def blob_schema_def KNOWN_KINDS_def
        kind_defs MAX_SLOTS_def LEN_IV_def MAGIC_def VERSION_def encode_slot_def u16be_def drop_bit_eq_div)
qed

lemma sample_own: "own_file sample_aead k [OpaqueSlot 9 [7, 8]] (sample_file k)"
  unfolding own_file_def own_blob_def sealed_by_def
  using decode_sample_file
  by (auto simp: sample_vault_blob_def sample_aead_def intro!: exI [of _ "[]"])

lemma sample_opens:
  "isl (decrypt_outer sample_aead (Some 5) (sample_vault_blob 5)) = False"
  "isl (decrypt_outer sample_aead (Some 6) (sample_vault_blob 5)) = True"
  "slots (sample_vault_blob 5) = [OpaqueSlot 9 [7, 8]]" "entriesCiphertext (sample_vault_blob 5) = [5]"
  by (simp_all add: decrypt_outer_eq sample_aead_def sample_vault_blob_def)

lemma sample_seals:
  "\<exists>bs b. seal_into sample_aead sample_codec (Some k) n [OpaqueSlot 9 [7, 8]] p = Inr bs \<and>
     decodeVaultBlob bs = Inr b \<and> slots b = [OpaqueSlot 9 [7, 8]] \<and> sealed_by sample_aead k b"
proof -
  have "sealed_by sample_aead k \<lparr>slots = ss, entriesIv = fst (seal sample_aead k n q), entriesCiphertext = snd (seal sample_aead k n q)\<rparr>"
    for ss q
    unfolding sealed_by_def by (rule exI [of _ n], rule exI [of _ q]) simp
  then show ?thesis
    using seal_into_fits [OF sample_aead_ok decoded_fits [OF decode_sample_file [of 5]], of sample_codec k n p]
    by (auto simp: sample_vault_blob_def)
qed

text \<open>The same vault holding one synced setting.\<close>

definition sample_settings_payload :: "nat entries_payload" where
  "sample_settings_payload =
     \<lparr>entries = [], tombs = [], settings = Some [(''autoLock'', \<lparr>ss_hlc = Hlc 1 0 ''d'', ss_value = 7\<rparr>)]\<rparr>"

definition sample_settings_file :: vault_file where
  "sample_settings_file =
     (case seal_into sample_aead sample_codec (Some 5) 0 [OpaqueSlot 9 [7, 8]] sample_settings_payload of
        Inl _ \<Rightarrow> \<lparr>live = [], snapshot = None\<rparr> | Inr bs \<Rightarrow> \<lparr>live = bs, snapshot = None\<rparr>)"

lemma sample_settings_file_reads:
  "readEntriesPayload sample_aead sample_codec (Some 5) sample_settings_file = Inr sample_settings_payload"
  using seal_into_fits [OF sample_aead_ok decoded_fits [OF decode_sample_file [of 5]], of sample_codec 5 0
      sample_settings_payload] sample_aead_ok sample_codec_ok
  by (auto simp: sample_settings_file_def sample_vault_blob_def readEntriesPayload_def payload_in_def
      decrypt_outer_eq aead_ok_def codec_ok_def)

lemma sample_settings_background_write:
  "\<exists>f'. background_write sample_aead sample_codec (Some 5) 0 9 (\<lambda>es c. (Inr es, c)) sample_settings_file c = (Inr f', c)"
proof -
  obtain b where b: "decodeVaultBlob (live sample_settings_file) = Inr b"
    "payload_in sample_aead sample_codec (Some 5) b = Inr sample_settings_payload"
    using sample_settings_file_reads by (auto simp: readEntriesPayload_def split: sum.splits)
  let ?n = "seal sample_aead 5 0 (encodeEntriesPayload sample_codec \<lparr>entries = [], tombs = [], settings = None\<rparr>)"
  have "blob_fits \<lparr>slots = slots b, entriesIv = fst ?n, entriesCiphertext = snd ?n\<rparr>"
    using decoded_fits [OF b(1)] sample_aead_ok by (auto simp: blob_fits_def blob_schema_def aead_ok_def)
  from encode_fits [OF this] show ?thesis
    by (auto simp: background_write_def b reencryptOuterWithEntryChange_def encryptWithVek_def base64_round_trip
        map_prod_def case_prod_unfold sample_settings_payload_def)
qed

subsection \<open>Properties\<close>

text \<open>What is written is what is read. A write that runs alone to a file that decodes, under a
  loaded key that passes the check (or to a file without entries), succeeds; it keeps the slot list,
  snapshots the old bytes, and reading the new file under that key returns exactly the payload.\<close>

lemma write_alone_run:
  assumes "decodeVaultBlob (live f) = Inr b" "entriesCiphertext b = [] \<or> \<not> isl (decrypt_outer A key b)"
    and "seal_into A C key 0 (slots b) p = Inr bs"
  shows "blob_run A C True (write_alone i p) (blob_host_of key f) =
    \<lparr>bh_file = writeVaultBlob bs f, bh_key = key, bh_calls = 1, bh_writes = [], bh_results = [(i, Inr ())]\<rparr>"
  using assms
  by (cases "entriesCiphertext b = []")
    (simp_all add: blob_run_def write_alone_def blob_host_of_def writeEntriesBlob_def write_to_def write_ends_def)

lemma entries_write_then_read:
  assumes "aead_ok A" "codec_ok C" "decodeVaultBlob (live f) = Inr b"
    and "entriesCiphertext b = [] \<or> \<not> isl (decrypt_outer A (Some k) b)"
  shows "\<exists>s f'. blob_run A C True (write_alone i p) (blob_host_of (Some k) f) = s \<and> bh_results s = [(i, Inr ())] \<and> bh_file s = f' \<and>
    readEntriesPayload A C (Some k) f' = Inr p \<and> snapshot f' = Some (live f) \<and>
    (\<exists>b'. decodeVaultBlob (live f') = Inr b' \<and> slots b' = slots b)"
proof -
  obtain bs where bs: "seal_into A C (Some k) 0 (slots b) p = Inr bs"
    "decodeVaultBlob bs = Inr \<lparr>slots = slots b, entriesIv = fst (seal A k 0 (encodeEntriesPayload C p)),
      entriesCiphertext = snd (seal A k 0 (encodeEntriesPayload C p))\<rparr>"
    using seal_into_fits [OF assms(1) decoded_fits [OF assms(3)]] by blast
  have "readEntriesPayload A C (Some k) (writeVaultBlob bs f) = Inr p"
    using bs(2) assms(1,2)
    by (simp add: readEntriesPayload_def payload_in_def writeVaultBlob_def decrypt_outer_eq aead_ok_def codec_ok_def)
  then show ?thesis
    using write_alone_run [OF assms(3,4) bs(1)] bs(2) by (simp add: writeVaultBlob_def)
qed

text \<open>Property C20: the pre-write check keeps a vault from being stranded while the key is steady. Take a file whose
  slots wrap key \<open>k\<close>, with or without entries, and any number of checked writes and key changes that interleave at
  every wait. As long as no other key is loaded while a write is between its check and its seal, or while a write
  reads the file when it has no entries yet, the file keeps its slots and its entries open under \<open>k\<close>; a write whose
  check runs under another key is refused.\<close>

theorem checked_writes_never_strand:
  assumes "aead_ok A" "own_file A k ss f" "steady_run A C k es (blob_host_of key f)"
  shows "own_file A k ss (bh_file (blob_run A C True es (blob_host_of key f))) \<and>
    (\<forall>i p b. map_of (bh_writes (blob_run A C True es (blob_host_of key f))) i = Some (p, Checking b) \<and>
        bh_key (blob_run A C True es (blob_host_of key f)) \<noteq> Some k \<longrightarrow>
      bh_results (blob_run A C True (es @ [WriteResumes i]) (blob_host_of key f)) =
        bh_results (blob_run A C True es (blob_host_of key f)) @ [(i, Inl KeyMismatch)])"
proof -
  let ?s = "blob_run A C True es (blob_host_of key f)"
  have "writes_ok A k ss (blob_host_of key f :: ('a, 'b) blob_host)"
    using assms(2) by (simp add: writes_ok_def blob_host_of_def)
  from blob_run_ok [OF assms(1) this assms(3)] have ok: "writes_ok A k ss ?s" .
  have "bh_results (blob_run A C True (es @ [WriteResumes i]) (blob_host_of key f)) = bh_results ?s @ [(i, Inl KeyMismatch)]"
    if "map_of (bh_writes ?s) i = Some (p, Checking b)" "bh_key ?s \<noteq> Some k" for i p b
  proof -
    have "sealed_by A k b" using ok that(1) by (force simp: writes_ok_def phase_ok_def)
    then have "isl (decrypt_outer A (bh_key ?s) b)"
      using sealed_by_opens [OF assms(1)] that(2) by blast
    moreover have "blob_run A C True (es @ [WriteResumes i]) (blob_host_of key f) = blob_step A C True (WriteResumes i) ?s"
      by (simp add: blob_run_def)
    ultimately show ?thesis
      using that(1) by (simp add: writeEntriesBlob_def) (simp add: write_ends_def)
  qed
  then show ?thesis
    using ok by (simp add: writes_ok_def)
qed

theorem checked_writes_never_strand_witness:
  "let es = [WriteBegins 1 emptyEntriesPayload, WriteResumes 1, KeyLoaded (Some 6), WriteResumes 1, KeyLoaded (Some 5)] @
         write_alone 2 emptyEntriesPayload;
       s = blob_run sample_aead sample_codec True es (blob_host_of (Some 5) (sample_file 5))
   in own_file sample_aead 5 [OpaqueSlot 9 [7, 8]] (bh_file s) \<and> bh_results s = [(1, Inl KeyMismatch), (2, Inr ())]"
proof -
  let ?e = "emptyEntriesPayload :: nat entries_payload"
  obtain bs where bs: "seal_into sample_aead sample_codec (Some 5) 0 [OpaqueSlot 9 [7, 8]] ?e = Inr bs"
    using sample_seals by blast
  have "steady_run sample_aead sample_codec 5
      ([WriteBegins 1 ?e, WriteResumes 1, KeyLoaded (Some 6), WriteResumes 1, KeyLoaded (Some 5)] @ write_alone 2 ?e)
      (blob_host_of (Some 5) (sample_file 5))"
    by (simp add: sample_opens bs write_alone_def blob_host_of_def writeEntriesBlob_def write_to_def write_ends_def
        decode_sample_file sealing_def)
  from checked_writes_never_strand [OF sample_aead_ok sample_own this]
  show ?thesis
    by (simp add: Let_def) (simp add: blob_run_def sample_opens bs write_alone_def blob_host_of_def writeEntriesBlob_def
        write_to_def write_ends_def decode_sample_file)
qed

text \<open>Without that, the check does not help: a key that is replaced between the check and the seal leaves the slots of
  one key with entries under another, and a file without entries takes them under any key.\<close>

lemma key_switch_strands:
  "\<exists>b. decodeVaultBlob (live (bh_file (blob_run sample_aead sample_codec True
      [WriteBegins 1 emptyEntriesPayload, WriteResumes 1, WriteResumes 1, KeyLoaded (Some 6), WriteResumes 1, WriteResumes 1]
      (blob_host_of (Some 5) (sample_file 5))))) = Inr b \<and>
   slots b = [OpaqueSlot 9 [7, 8]] \<and> isl (decrypt_outer sample_aead (Some 5) b)"
proof -
  obtain bs b where bs: "seal_into sample_aead sample_codec (Some 6) 0 [OpaqueSlot 9 [7, 8]] emptyEntriesPayload = Inr bs"
    "decodeVaultBlob bs = Inr b" "slots b = [OpaqueSlot 9 [7, 8]]" "sealed_by sample_aead 6 b"
    using sample_seals by blast
  show ?thesis
    using sealed_by_opens [OF sample_aead_ok bs(4), of "Some 5"] bs(2,3)
    by (simp add: blob_run_def sample_opens bs(1) blob_host_of_def writeEntriesBlob_def write_to_def write_ends_def
        decode_sample_file writeVaultBlob_def)
qed

lemma unchecked_first_write_strands:
  assumes "aead_ok A" "decodeVaultBlob (live f) = Inr b" "entriesCiphertext b = []" "k' \<noteq> k"
  shows "\<exists>b'. decodeVaultBlob (live (bh_file (blob_run A C True (write_alone i p) (blob_host_of (Some k') f)))) = Inr b' \<and>
    slots b' = slots b \<and> isl (decrypt_outer A (Some k) b')"
proof -
  obtain bs where bs: "seal_into A C (Some k') 0 (slots b) p = Inr bs"
    "decodeVaultBlob bs = Inr \<lparr>slots = slots b, entriesIv = fst (seal A k' 0 (encodeEntriesPayload C p)),
      entriesCiphertext = snd (seal A k' 0 (encodeEntriesPayload C p))\<rparr>"
    using seal_into_fits [OF assms(1) decoded_fits [OF assms(2)]] by blast
  then show ?thesis
    using write_alone_run [OF assms(2) disjI1 [OF assms(3)] bs(1)] assms(1,4)
    by (simp add: writeVaultBlob_def decrypt_outer_eq aead_ok_def)
qed

text \<open>Recovery only ever replaces a file by one that opens. If the live entries open,
  nothing is touched. Otherwise either the snapshot itself opened under the loaded key, and
  then it becomes the live file and its text is returned, or the file is left alone and the
  original error is reported.\<close>

lemma recovery_is_safe:
  "case decryptEntriesOrRecover A key has b f of
     (Inl e, f') \<Rightarrow> f' = f \<and> decrypt_outer A key b = Inl e
   | (Inr p, f') \<Rightarrow>
       (f' = f \<and> decrypt_outer A key b = Inr p) \<or>
       (isl (decrypt_outer A key b) \<and> snapshot f = Some (live f') \<and>
        (\<exists>s. decodeVaultBlob (live f') = Inr s \<and> entriesCiphertext s \<noteq> [] \<and> decrypt_outer A key s = Inr p))"
  by (auto simp: decryptEntriesOrRecover_def restoreVaultFromBackup_def Let_def
      split: sum.splits option.splits if_splits)

text \<open>The background writer erases synced settings. Whenever a background change to the
  entry list succeeds, the payload it leaves on disk has no settings at all, whatever settings
  the file held before; entries are the caller's and tombstones are kept.\<close>

lemma background_write_erases_settings:
  assumes "aead_ok A" "codec_ok C" "readEntriesPayload A C (Some k) f = Inr old"
    and "background_write A C (Some k) n pt mutate f c = (Inr f', c')"
  shows "\<exists>new. readEntriesPayload A C (Some k) f' = Inr new \<and> settings new = None \<and> tombs new = tombs old"
proof -
  obtain b where b: "decodeVaultBlob (live f) = Inr b"
    using assms(4) by (auto simp: background_write_def split: sum.splits)
  have rd: "payload_in A C (Some k) b = Inr old"
    using assms(3) by (simp add: readEntriesPayload_def b)
  obtain m bs where bs: "encodeVaultBlob
      \<lparr>slots = slots b,
       entriesIv = fst (seal A k n (encodeEntriesPayload C \<lparr>entries = m, tombs = tombs old, settings = None\<rparr>)),
       entriesCiphertext = snd (seal A k n (encodeEntriesPayload C \<lparr>entries = m, tombs = tombs old, settings = None\<rparr>))\<rparr> = Inr bs"
    and f': "f' = writeVaultBlob bs f"
    using assms(4)
    by (auto simp: background_write_def b reencryptOuterWithEntryChange_def rd encryptWithVek_def
        base64_round_trip map_prod_def case_prod_unfold split: sum.splits prod.splits)
  let ?p = "\<lparr>entries = m, tombs = tombs old, settings = None\<rparr>"
  have "blob_fits \<lparr>slots = slots b, entriesIv = fst (seal A k n (encodeEntriesPayload C ?p)),
       entriesCiphertext = snd (seal A k n (encodeEntriesPayload C ?p))\<rparr>"
    using decoded_fits [OF b] assms(1) by (auto simp: blob_fits_def blob_schema_def aead_ok_def)
  from decode_encode_fits [OF this bs] have "readEntriesPayload A C (Some k) f' = Inr ?p"
    using assms(1,2) by (simp add: readEntriesPayload_def payload_in_def f' writeVaultBlob_def decrypt_outer_eq aead_ok_def codec_ok_def)
  then show ?thesis by auto
qed

end
