(* ===== verification/Audit_Log.thy ===== *)
theory Audit_Log
  imports Entries_Blob
begin

text \<open>
  The local audit log (\<open>packages/core/src/vault/audit-log.ts\<close>): events sealed one by one under the vault key, kept
  in the metadata store under a key per vault, at most a thousand of them, and a counter of events dropped while the
  vault was locked.

  Sealing is the argument \<open>A\<close> of \<open>Entries_Blob\<close>, with the randomness of the call; printing and parsing an event is
  the argument \<open>J\<close>. \<open>reads\<close>, \<open>writes\<close>: the store's call did not throw.
\<close>

datatype audit_kind =
    VaultUnlock | VaultUnlockFailed | VaultLock | SecretReveal | SecretCopy | EntryExport | AutofillFill | BackupRun
  | VaultVekRotate | DeviceEnroll | DeviceRevoke

record audit_event =
  ae_kind :: audit_kind
  ae_at :: nat
  ae_entryId :: "string option"
  ae_host :: "string option"
  ae_method :: "string option"
  ae_outcome :: "bool option"
  ae_reason :: "string option"

record event_codec =
  print_event :: "audit_event \<Rightarrow> string"
  parse_event :: "string \<Rightarrow> audit_event option"

definition AUDIT_MAX_EVENTS :: nat where "AUDIT_MAX_EVENTS = 1000"

definition auditLogKey :: "string option \<Rightarrow> string" where
  "auditLogKey vaultId = ''audit.log:'' @ (case vaultId of None \<Rightarrow> ''primary'' | Some i \<Rightarrow> i)"

definition dropKey :: "string option \<Rightarrow> string" where
  "dropKey vaultId = ''audit.dropped:'' @ (case vaultId of None \<Rightarrow> ''primary'' | Some i \<Rightarrow> i)"

text \<open>An entry as it is stored. The type calls its first field the kind of the event; the code puts the event there.\<close>

record sealed_entry =
  se_event :: audit_event
  se_sealed :: "string \<times> string"

datatype meta_value = MLog "sealed_entry list" | MCount nat

type_synonym meta_store = "string \<rightharpoonup> meta_value"

definition readSealedLog :: "meta_store \<Rightarrow> string \<Rightarrow> sealed_entry list" where
  "readSealedLog st k = (case st k of Some (MLog es) \<Rightarrow> es | _ \<Rightarrow> [])"

definition drop_count :: "meta_store \<Rightarrow> string option \<Rightarrow> nat" where
  "drop_count st vaultId = (case st (dropKey vaultId) of Some (MCount n) \<Rightarrow> n | _ \<Rightarrow> 0)"

definition bumpDropCounter :: "bool \<Rightarrow> string option \<Rightarrow> meta_store \<Rightarrow> meta_store" where
  "bumpDropCounter writes vaultId st =
     (if writes then st(dropKey vaultId \<mapsto> MCount (drop_count st vaultId + 1)) else st)"

text \<open>\<open>slice(-n)\<close>.\<close>

definition last_n :: "nat \<Rightarrow> 'a list \<Rightarrow> 'a list" where
  "last_n n xs = drop (length xs - n) xs"

definition appendAuditEvent :: "'k aead \<Rightarrow> event_codec \<Rightarrow> bool \<Rightarrow> bool \<Rightarrow> 'k option \<Rightarrow> nat \<Rightarrow> audit_event \<Rightarrow> string option \<Rightarrow>
   meta_store \<Rightarrow> meta_store" where
  "appendAuditEvent A J reads writes key n e vaultId st =
     (if \<not> reads then bumpDropCounter writes vaultId st
      else case encryptWithVek A key n (print_event J e) of
          Inl _ \<Rightarrow> bumpDropCounter writes vaultId st
        | Inr ct \<Rightarrow>
            if writes
            then st(auditLogKey vaultId \<mapsto>
                   MLog (last_n AUDIT_MAX_EVENTS (readSealedLog st (auditLogKey vaultId) @ [\<lparr>se_event = e, se_sealed = ct\<rparr>])))
            else bumpDropCounter writes vaultId st)"

definition readAuditEvents :: "'k aead \<Rightarrow> event_codec \<Rightarrow> 'k option \<Rightarrow> string option \<Rightarrow> meta_store \<Rightarrow> audit_event list" where
  "readAuditEvents A J key vaultId st =
     List.map_filter (\<lambda>se. case decryptWithVek A key (fst (se_sealed se)) (snd (se_sealed se)) of
         Inl _ \<Rightarrow> None | Inr json \<Rightarrow> parse_event J json) (readSealedLog st (auditLogKey vaultId))"

definition takeDroppedCount :: "string option \<Rightarrow> meta_store \<Rightarrow> nat \<times> meta_store" where
  "takeDroppedCount vaultId st =
     (let count = drop_count st vaultId in (count, if count > 0 then st(dropKey vaultId := None) else st))"

definition clearAuditLog :: "string option \<Rightarrow> meta_store \<Rightarrow> meta_store" where
  "clearAuditLog vaultId st = st(auditLogKey vaultId := None, dropKey vaultId := None)"

subsection \<open>Facts\<close>

definition event_codec_ok :: "event_codec \<Rightarrow> bool" where
  "event_codec_ok J \<longleftrightarrow> (\<forall>e. parse_event J (print_event J e) = Some e)"

definition opened :: "'k aead \<Rightarrow> event_codec \<Rightarrow> 'k option \<Rightarrow> sealed_entry \<Rightarrow> audit_event option" where
  "opened A J key se = (case decryptWithVek A key (fst (se_sealed se)) (snd (se_sealed se)) of
     Inl _ \<Rightarrow> None | Inr json \<Rightarrow> parse_event J json)"

lemma opened_sealed:
  assumes "aead_ok A" "event_codec_ok J" "encryptWithVek A (Some k) n (print_event J e) = Inr ct"
  shows "opened A J (Some k) \<lparr>se_event = x, se_sealed = ct\<rparr> = Some e"
  using assms by (auto simp: opened_def encryptWithVek_def decryptWithVek_def base64_round_trip aead_ok_def event_codec_ok_def map_prod_def
      case_prod_unfold)

lemma map_last_n: "map f (last_n n xs) = last_n n (map f xs)"
  by (simp add: last_n_def drop_map)

lemma last_n_last_n: "last_n n (last_n n xs @ ys) = last_n n (xs @ ys)"
proof (cases "n \<le> length xs")
  case True
  then have "length xs - n + n = length xs" "length ys + (length xs - n) = length xs + length ys - n" by auto
  then show ?thesis by (simp add: last_n_def add.commute)
qed (simp add: last_n_def)

lemma last_n_nil [simp]: "last_n n [] = []"
  by (simp add: last_n_def)

lemma read_opened: "map (opened A J key) (readSealedLog st (auditLogKey v)) = map Some es \<Longrightarrow> readAuditEvents A J key v st = es"
proof -
  have "List.map_filter (opened A J key) xs = es" if "map (opened A J key) xs = map Some es" for xs
    using that by (induction xs arbitrary: es) (auto simp: List.map_filter_simps)
  then show "map (opened A J key) (readSealedLog st (auditLogKey v)) = map Some es \<Longrightarrow> readAuditEvents A J key v st = es"
    by (simp add: readAuditEvents_def opened_def [abs_def])
qed

lemma keys_differ [simp]: "dropKey v \<noteq> auditLogKey w" "auditLogKey w \<noteq> dropKey v"
  by (simp_all add: dropKey_def auditLogKey_def)

subsection \<open>A run of the log\<close>

text \<open>Events as they come: whether the read of the store worked, the key that is loaded, the call's randomness.\<close>

record audit_call =
  ac_reads :: bool
  ac_unlocked :: bool
  ac_rnd :: nat
  ac_event :: audit_event

definition audit_call_step :: "'k aead \<Rightarrow> event_codec \<Rightarrow> 'k \<Rightarrow> string option \<Rightarrow> meta_store \<Rightarrow> audit_call \<Rightarrow> meta_store" where
  "audit_call_step A J k v st c =
     appendAuditEvent A J (ac_reads c) True (if ac_unlocked c then Some k else None) (ac_rnd c) (ac_event c) v st"

definition audit_kept :: "audit_call \<Rightarrow> bool" where
  "audit_kept c \<longleftrightarrow> ac_reads c \<and> ac_unlocked c"

lemma audit_run:
  assumes "aead_ok A" "event_codec_ok J"
  shows "map (opened A J (Some k)) (readSealedLog (foldl (audit_call_step A J k v) Map.empty cs) (auditLogKey v)) =
      map Some (last_n AUDIT_MAX_EVENTS (map ac_event (filter audit_kept cs))) \<and>
    drop_count (foldl (audit_call_step A J k v) Map.empty cs) v = length (filter (\<lambda>c. \<not> audit_kept c) cs)"
proof (induction cs rule: rev_induct)
  case Nil
  then show ?case by (simp add: readSealedLog_def drop_count_def)
next
  case (snoc c cs)
  let ?st = "foldl (audit_call_step A J k v) Map.empty cs"
  show ?case
  proof (cases "audit_kept c")
    case True
    obtain ct where ct: "encryptWithVek A (Some k) (ac_rnd c) (print_event J (ac_event c)) = Inr ct"
      by (simp add: encryptWithVek_def)
    have "audit_call_step A J k v ?st c = ?st(auditLogKey v \<mapsto>
        MLog (last_n AUDIT_MAX_EVENTS (readSealedLog ?st (auditLogKey v) @ [\<lparr>se_event = ac_event c, se_sealed = ct\<rparr>])))"
      using True ct by (simp add: audit_call_step_def appendAuditEvent_def audit_kept_def)
    then show ?thesis
      using snoc True opened_sealed [OF assms ct]
      by (simp add: readSealedLog_def drop_count_def map_last_n last_n_last_n flip: map_append) (simp add: map_last_n last_n_last_n)
  next
    case False
    then have "audit_call_step A J k v ?st c = ?st(dropKey v \<mapsto> MCount (drop_count ?st v + 1))"
      by (auto simp: audit_call_step_def appendAuditEvent_def audit_kept_def bumpDropCounter_def encryptWithVek_def)
    then show ?thesis
      using snoc False by (simp add: readSealedLog_def drop_count_def)
  qed
qed

text \<open>Every event of a session is accounted for: the last thousand recorded while unlocked read back in order under the
  vault key, and the counter is the number of the others.\<close>

lemma audit_accounts_for_every_event:
  assumes "aead_ok A" "event_codec_ok J"
  shows "readAuditEvents A J (Some k) v (foldl (audit_call_step A J k v) Map.empty cs) =
      last_n AUDIT_MAX_EVENTS (map ac_event (filter audit_kept cs)) \<and>
    fst (takeDroppedCount v (foldl (audit_call_step A J k v) Map.empty cs)) = length (filter (\<lambda>c. \<not> audit_kept c) cs)"
  using read_opened [OF conjunct1 [OF audit_run [OF assms]]] audit_run [OF assms, of k v cs] by (simp add: takeDroppedCount_def Let_def)

text \<open>The stored entry holds the event itself beside its ciphertext: without any key, the log can be read.\<close>

lemma audit_log_stores_plaintext:
  assumes "aead_ok A" "event_codec_ok J"
  shows "e \<in> se_event ` set (readSealedLog (appendAuditEvent A J True True (Some k) n e v st) (auditLogKey v))"
proof -
  have "last_n AUDIT_MAX_EVENTS (xs @ [x]) \<noteq> [] \<and> last (last_n AUDIT_MAX_EVENTS (xs @ [x])) = x" for x :: sealed_entry and xs
    by (simp add: last_n_def AUDIT_MAX_EVENTS_def last_drop)
  then have "x \<in> set (last_n AUDIT_MAX_EVENTS (xs @ [x]))" for x :: sealed_entry and xs
    by (metis last_in_set)
  then show ?thesis
    by (force simp: appendAuditEvent_def encryptWithVek_def readSealedLog_def)
qed

text \<open>Recording the lock comes after the key is cleared, so it is never recorded, only counted.\<close>

lemma lock_is_never_recorded:
  "readSealedLog (appendAuditEvent A J reads writes None n e v st) (auditLogKey v) = readSealedLog st (auditLogKey v)"
  by (simp add: appendAuditEvent_def encryptWithVek_def bumpDropCounter_def readSealedLog_def)

end
