(* ===== verification/Slot_Policy.thy ===== *)
theory Slot_Policy
  imports Vault_Format
begin

text \<open>
  The slot-mutation policy (\<open>packages/core/src/vault/slot-policy.ts\<close>): adding, replacing
  and removing unlock slots, which never leaves a vault without a primary unlock method
  (the source's invariant B) nor with more slots than the file format holds.
\<close>

datatype policy_error = SlotLimit | KeyNotFound | LastUnlockMethod | NoMasterPassword | PasswordIsLastUnlock

fun isPrimaryUnlock :: "slot \<Rightarrow> bool" where
  "isPrimaryUnlock s \<longleftrightarrow> slot_kind s = SLOT_KIND_PASSWORD \<or> slot_kind s = SLOT_KIND_WEBAUTHN"

definition withSlotLimit :: "vault_blob \<Rightarrow> policy_error + vault_blob" where
  "withSlotLimit b = (if length (slots b) > MAX_SLOTS then Inl SlotLimit else Inr b)"

text \<open>The slots of a file whose kind byte says security key carry a credential id and key fields.\<close>

fun webauthn_credential :: "slot \<Rightarrow> bytes option" where
  "webauthn_credential (WebauthnSlot cid _) = Some cid"
| "webauthn_credential _ = None"

fun webauthn_id :: "slot \<Rightarrow> bytes option" where
  "webauthn_id (WebauthnSlot _ f) = Some (slotId f)"
| "webauthn_id _ = None"

definition matchSlotByCredentialId :: "slot list \<Rightarrow> bytes \<Rightarrow> slot option" where
  "matchSlotByCredentialId ss rawId = find (\<lambda>s. webauthn_credential s = Some rawId) ss"

definition needsSaltMismatchRetry :: "key_fields \<Rightarrow> bytes \<Rightarrow> bool" where
  "needsSaltMismatchRetry used saltUsedInFirstCall \<longleftrightarrow> salt used \<noteq> saltUsedInFirstCall"

datatype webauthn_key_kind = SecurityKey | Platform

record stored_key_label =
  kl_label :: string
  kl_addedAt :: nat
  kl_kind :: "webauthn_key_kind option"
  kl_synced :: "bool option"

record webauthn_key_meta =
  km_slotIdB64 :: string
  km_label :: string
  km_addedAt :: nat
  km_kind :: webauthn_key_kind
  km_synced :: bool

definition describeWebauthnKeys ::
  "bytes list \<Rightarrow> stored_key_label jsmap \<Rightarrow> (bytes \<Rightarrow> string) \<Rightarrow> webauthn_key_meta list" where
  "describeWebauthnKeys ids labels toB64 =
     map (\<lambda>i. let b64 = toB64 i; m = map_of labels b64 in
        \<lparr>km_slotIdB64 = b64,
         km_label = (case m of None \<Rightarrow> ''Security key'' | Some l \<Rightarrow> kl_label l),
         km_addedAt = (case m of None \<Rightarrow> 0 | Some l \<Rightarrow> kl_addedAt l),
         km_kind = (case Option.bind m kl_kind of None \<Rightarrow> SecurityKey | Some k \<Rightarrow> k),
         km_synced = (case Option.bind m kl_synced of None \<Rightarrow> False | Some k \<Rightarrow> k)\<rparr>) ids"

definition addWebauthnSlot :: "vault_blob \<Rightarrow> bytes \<Rightarrow> key_fields \<Rightarrow> policy_error + vault_blob" where
  "addWebauthnSlot b cid f = withSlotLimit (b\<lparr>slots := slots b @ [WebauthnSlot cid f]\<rparr>)"

definition removeWebauthnSlot :: "vault_blob \<Rightarrow> bytes \<Rightarrow> policy_error + vault_blob" where
  "removeWebauthnSlot b i =
     (let filtered = filter (\<lambda>s. \<not> (slot_kind s = SLOT_KIND_WEBAUTHN \<and> webauthn_id s = Some i)) (slots b)
      in if length filtered = length (slots b) then Inl KeyNotFound
         else if \<not> list_ex isPrimaryUnlock filtered then Inl LastUnlockMethod
         else Inr (b\<lparr>slots := filtered\<rparr>))"

definition upsertPasswordSlot :: "vault_blob \<Rightarrow> key_fields \<Rightarrow> policy_error + vault_blob" where
  "upsertPasswordSlot b f =
     (let others = filter (\<lambda>s. slot_kind s \<noteq> SLOT_KIND_PASSWORD) (slots b)
      in withSlotLimit (b\<lparr>slots := others @ [PasswordSlot f]\<rparr>))"

definition removePasswordSlot :: "vault_blob \<Rightarrow> policy_error + vault_blob" where
  "removePasswordSlot b =
     (if \<not> list_ex (\<lambda>s. slot_kind s = SLOT_KIND_PASSWORD) (slots b) then Inl NoMasterPassword
      else
        let filtered = filter (\<lambda>s. slot_kind s \<noteq> SLOT_KIND_PASSWORD) (slots b)
        in if \<not> list_ex isPrimaryUnlock filtered then Inl PasswordIsLastUnlock
           else Inr (b\<lparr>slots := filtered\<rparr>))"

definition upsertRecoverySlot :: "vault_blob \<Rightarrow> key_fields \<Rightarrow> policy_error + vault_blob" where
  "upsertRecoverySlot b f =
     (let others = filter (\<lambda>s. slot_kind s \<noteq> SLOT_KIND_RECOVERY) (slots b)
      in withSlotLimit (b\<lparr>slots := others @ [RecoverySlot f]\<rparr>))"

subsection \<open>Sequences of slot changes\<close>

datatype slot_op =
    AddKey bytes key_fields
  | RemoveKey bytes
  | SetPassword key_fields
  | DropPassword
  | SetRecovery key_fields

fun slot_step :: "slot_op \<Rightarrow> vault_blob \<Rightarrow> policy_error + vault_blob" where
  "slot_step (AddKey cid f) b = addWebauthnSlot b cid f"
| "slot_step (RemoveKey i) b = removeWebauthnSlot b i"
| "slot_step (SetPassword f) b = upsertPasswordSlot b f"
| "slot_step DropPassword b = removePasswordSlot b"
| "slot_step (SetRecovery f) b = upsertRecoverySlot b f"

text \<open>A change that is refused leaves the vault as it was.\<close>

fun slot_run :: "slot_op list \<Rightarrow> vault_blob \<Rightarrow> vault_blob" where
  "slot_run [] b = b"
| "slot_run (x # xs) b = (case slot_step x b of Inl e \<Rightarrow> slot_run xs b | Inr b' \<Rightarrow> slot_run xs b')"

definition count_kind :: "int \<Rightarrow> slot list \<Rightarrow> nat" where
  "count_kind k ss = length (filter (\<lambda>s. slot_kind s = k) ss)"

definition policy_ok :: "vault_blob \<Rightarrow> bool" where
  "policy_ok b \<longleftrightarrow>
     list_ex isPrimaryUnlock (slots b) \<and> length (slots b) \<le> MAX_SLOTS \<and>
     count_kind SLOT_KIND_PASSWORD (slots b) \<le> 1 \<and> count_kind SLOT_KIND_RECOVERY (slots b) \<le> 1"

text \<open>The slots a caller hands in are the ones the unlock ceremonies build: all fields sized.\<close>

fun op_fits :: "slot_op \<Rightarrow> bool" where
  "op_fits (AddKey cid f) \<longleftrightarrow> slot_fits (WebauthnSlot cid f)"
| "op_fits (SetPassword f) \<longleftrightarrow> slot_fits (PasswordSlot f)"
| "op_fits (SetRecovery f) \<longleftrightarrow> slot_fits (RecoverySlot f)"
| "op_fits _ \<longleftrightarrow> True"

lemmas slot_op_defs = addWebauthnSlot_def removeWebauthnSlot_def upsertPasswordSlot_def
  removePasswordSlot_def upsertRecoverySlot_def withSlotLimit_def Let_def

lemma length_filter_eq_iff: "length (filter P xs) = length xs \<longleftrightarrow> list_all P xs"
  by (metis (mono_tags) filter_id_conv length_filter_less list_all_iff nat_neq_iff)

lemma slot_step_primary:
  "list_ex isPrimaryUnlock (slots b) \<Longrightarrow> slot_step x b = Inr b' \<Longrightarrow> list_ex isPrimaryUnlock (slots b')"
  by (cases x) (auto simp: slot_op_defs list_ex_iff kind_defs split: if_splits)

lemma length_filter_le_trans: "length xs \<le> n \<Longrightarrow> length (filter P xs) \<le> n"
  using length_filter_le [of P xs] by linarith

lemma slot_step_limit: "length (slots b) \<le> MAX_SLOTS \<Longrightarrow> slot_step x b = Inr b' \<Longrightarrow> length (slots b') \<le> MAX_SLOTS"
  by (cases x) (auto simp: slot_op_defs length_filter_le_trans split: if_splits)

lemma count_kind_simps [simp]:
  "count_kind k (xs @ ys) = count_kind k xs + count_kind k ys"
  "count_kind k [] = 0"
  "count_kind k [s] = (if slot_kind s = k then 1 else 0)"
  by (auto simp: count_kind_def)

lemma count_kind_filter: "count_kind k (filter P ss) \<le> count_kind k ss"
  unfolding count_kind_def by (induction ss) auto

lemma count_kind_removed: "count_kind k (filter (\<lambda>s. slot_kind s \<noteq> k) ss) = 0"
  unfolding count_kind_def by (induction ss) auto

lemma slot_step_counts:
  assumes "slot_step x b = Inr b'" "k = SLOT_KIND_PASSWORD \<or> k = SLOT_KIND_RECOVERY"
    and "count_kind k (slots b) \<le> 1"
  shows "count_kind k (slots b') \<le> 1"
  using assms count_kind_filter [of k _ "slots b", THEN order_trans, OF assms(3)]
  by (cases x) (auto simp: slot_op_defs count_kind_removed kind_defs split: if_splits)

lemma slot_step_fits:
  "list_all slot_fits (slots b) \<Longrightarrow> op_fits x \<Longrightarrow> slot_step x b = Inr b' \<Longrightarrow> list_all slot_fits (slots b')"
  by (cases x) (auto simp: slot_op_defs list_all_iff split: if_splits)

lemma slot_step_rest:
  "slot_step x b = Inr b' \<Longrightarrow> entriesIv b' = entriesIv b \<and> entriesCiphertext b' = entriesCiphertext b"
  by (cases x) (auto simp: slot_op_defs split: if_splits)

interpretation slot_machine: guarded_machine slot_step policy_ok
  by unfold_locales
    (use slot_step_primary slot_step_limit slot_step_counts in \<open>simp add: policy_ok_def, blast\<close>)

lemma slot_machine_run: "slot_machine.run xs b = slot_run xs b"
  by (induction xs arbitrary: b) (auto split: sum.split)

lemma slot_run_fits:
  "list_all slot_fits (slots b) \<Longrightarrow> list_all op_fits xs \<Longrightarrow> list_all slot_fits (slots (slot_run xs b))"
  by (induction xs arbitrary: b) (auto split: sum.splits dest: slot_step_fits)

lemma slot_run_rest: "entriesIv (slot_run xs b) = entriesIv b \<and> entriesCiphertext (slot_run xs b) = entriesCiphertext b"
  by (induction xs arbitrary: b) (auto split: sum.splits dest: slot_step_rest)

subsection \<open>Properties\<close>

text \<open>Property C23: a vault can always be unlocked and always be saved. From a vault that satisfies the
  slot policy, any sequence of slot changes (refused ones included) keeps a primary unlock
  method, at most one password and one recovery slot and at most 16 slots; the result still
  encodes, decodes to itself, and its encrypted entries are untouched.\<close>

theorem slot_changes_keep_vault_usable:
  assumes "policy_ok b" "blob_fits b" "list_all op_fits xs"
  shows "policy_ok (slot_run xs b) \<and>
    (\<exists>bs. encodeVaultBlob (slot_run xs b) = Inr bs \<and> decodeVaultBlob bs = Inr (slot_run xs b)) \<and>
    entriesIv (slot_run xs b) = entriesIv b \<and> entriesCiphertext (slot_run xs b) = entriesCiphertext b"
proof -
  have ok: "policy_ok (slot_run xs b)"
    using slot_machine.run_inv [OF assms(1), of xs] by (simp add: slot_machine_run)
  have fits: "list_all slot_fits (slots (slot_run xs b))"
    using assms by (simp add: slot_run_fits blob_fits_def)
  have "slots (slot_run xs b) \<noteq> []"
    using ok by (auto simp: policy_ok_def)
  then have "blob_fits (slot_run xs b)"
    using ok fits assms(2)
    by (auto simp: blob_fits_def blob_schema_def policy_ok_def slot_run_rest list_all_iff slot_fits_def
        Suc_le_eq)
  then show ?thesis
    using ok encode_fits [of "slot_run xs b"] decode_encode_fits [of "slot_run xs b"] slot_run_rest [of xs b]
    by auto
qed

definition sample_fields :: "nat \<Rightarrow> key_fields" where
  "sample_fields n =
     \<lparr>slotId = replicate 16 1, salt = replicate n 2, verifier = replicate 32 3, wrapIv = replicate 12 4,
      wrappedVek = replicate 48 5\<rparr>"

lemma sample_fits: "slot_fits (PasswordSlot (sample_fields 16))" "slot_fits (WebauthnSlot [9] (sample_fields 32))"
  by (simp_all add: slot_fits_def key_fields_schema_def sample_fields_def len_defs kind_defs
      encodePasswordPayload_def encodeWebauthnPayload_def u16be_def)

theorem slot_changes_keep_vault_usable_witness:
  "let b = \<lparr>slots = [PasswordSlot (sample_fields 16)], entriesIv = replicate 12 0, entriesCiphertext = [6]\<rparr>
   in policy_ok (slot_run [DropPassword, AddKey [9] (sample_fields 32), DropPassword, RemoveKey (replicate 16 1)] b)"
  unfolding Let_def
  by (rule slot_changes_keep_vault_usable [THEN conjunct1])
    (simp_all add: sample_fits policy_ok_def count_kind_def blob_fits_def blob_schema_def kind_defs
      MAX_SLOTS_def LEN_IV_def sample_fits(1) [unfolded slot_fits_def, simplified])

text \<open>Removals are refused exactly when they must be. Removing a security key succeeds iff
  such a key exists and another primary method remains without it; it then removes every slot
  of that key and nothing else. Dropping the password succeeds iff there is one and a security
  key remains.\<close>

lemma removal_refused_iff_last:
  "((\<exists>b'. removeWebauthnSlot b i = Inr b') \<longleftrightarrow>
      list_ex (\<lambda>s. webauthn_id s = Some i) (slots b) \<and>
      list_ex (\<lambda>s. isPrimaryUnlock s \<and> webauthn_id s \<noteq> Some i) (slots b)) \<and>
   ((\<exists>b'. removePasswordSlot b = Inr b') \<longleftrightarrow>
      count_kind SLOT_KIND_PASSWORD (slots b) > 0 \<and> list_ex (\<lambda>s. slot_kind s = SLOT_KIND_WEBAUTHN) (slots b)) \<and>
   (case removeWebauthnSlot b i of
      Inl e \<Rightarrow> e = KeyNotFound \<or> e = LastUnlockMethod
    | Inr b' \<Rightarrow> slots b' = filter (\<lambda>s. webauthn_id s \<noteq> Some i) (slots b))"
proof -
  have k: "(\<lambda>s. \<not> (slot_kind s = SLOT_KIND_WEBAUTHN \<and> webauthn_id s = Some i)) = (\<lambda>s. webauthn_id s \<noteq> Some i)"
  proof
    fix s show "(\<not> (slot_kind s = SLOT_KIND_WEBAUTHN \<and> webauthn_id s = Some i)) = (webauthn_id s \<noteq> Some i)"
      by (cases s) auto
  qed
  have "(\<exists>b'. removeWebauthnSlot b i = Inr b') \<longleftrightarrow>
      list_ex (\<lambda>s. webauthn_id s = Some i) (slots b) \<and>
      list_ex (\<lambda>s. isPrimaryUnlock s \<and> webauthn_id s \<noteq> Some i) (slots b)"
    unfolding removeWebauthnSlot_def k Let_def length_filter_eq_iff
    by (auto simp: list_ex_iff list_all_iff simp del: isPrimaryUnlock.simps)
  moreover have "(\<exists>b'. removePasswordSlot b = Inr b') \<longleftrightarrow>
      count_kind SLOT_KIND_PASSWORD (slots b) > 0 \<and> list_ex (\<lambda>s. slot_kind s = SLOT_KIND_WEBAUTHN) (slots b)"
    unfolding removePasswordSlot_def Let_def count_kind_def
    by (auto simp: list_ex_iff filter_empty_conv kind_defs)
  moreover have "(case removeWebauthnSlot b i of
      Inl e \<Rightarrow> e = KeyNotFound \<or> e = LastUnlockMethod
    | Inr b' \<Rightarrow> slots b' = filter (\<lambda>s. webauthn_id s \<noteq> Some i) (slots b))"
    unfolding removeWebauthnSlot_def k Let_def by simp
  ultimately show ?thesis by blast
qed

end
