(* ===== verification/Recovery_Code.thy ===== *)
theory Recovery_Code
  imports Bytes
begin

unbundle bit_operations_syntax

text \<open>
  Recovery codes (\<open>packages/core/src/vault/recovery-code.ts\<close>): thirty symbols of Crockford's base 32, printed in
  groups of five, and the normal form every wrap and unwrap uses. The random bytes are the argument.
\<close>

definition ALPHABET :: string where
  "ALPHABET = ''0123456789ABCDEFGHJKMNPQRSTVWXYZ''"

definition CODE_GROUP :: nat where "CODE_GROUP = 5"
definition CODE_GROUPS :: nat where "CODE_GROUPS = 6"

definition code_symbol :: "u8 \<Rightarrow> char" where
  "code_symbol b = ALPHABET ! unat (b AND 0x1f)"

text \<open>\<open>match(/.{1,5}/g)\<close>.\<close>

function grouped :: "string \<Rightarrow> string list" where
  "grouped s = (if s = [] then [] else take CODE_GROUP s # grouped (drop CODE_GROUP s))"
  by pat_completeness auto
termination by (relation "measure length") (auto simp: CODE_GROUP_def)

declare grouped.simps [simp del]

definition generateRecoveryCode :: "bytes \<Rightarrow> string" where
  "generateRecoveryCode bs = join_with ''-'' (grouped (map code_symbol bs))"

text \<open>\<open>toUpperCase\<close> of a Latin-1 character. The two whose upper case lies outside Latin-1 stay: neither form
  survives the next step.\<close>

definition upper_char :: "char \<Rightarrow> string" where
  "upper_char c =
     (let n = (of_char c :: nat)
      in if 97 \<le> n \<and> n \<le> 122 \<or> 224 \<le> n \<and> n \<le> 254 \<and> n \<noteq> 247 then [char_of (n - 32)]
         else if n = 223 then ''SS'' else [c])"

definition is_upper_alnum :: "char \<Rightarrow> bool" where
  "is_upper_alnum c \<longleftrightarrow> is_digit c \<or> 65 \<le> (of_char c :: nat) \<and> (of_char c :: nat) \<le> 90"

definition fold_lookalike :: "char \<Rightarrow> char" where
  "fold_lookalike c = (if c = CHR ''O'' then CHR ''0'' else if c = CHR ''I'' \<or> c = CHR ''L'' then CHR ''1'' else c)"

definition normalizeRecoveryCode :: "string \<Rightarrow> string" where
  "normalizeRecoveryCode s = map fold_lookalike (filter is_upper_alnum (concat (map upper_char s)))"

subsection \<open>Codes typed back\<close>

lemma alphabet_symbols: "list_all (\<lambda>c. upper_char c = [c] \<and> is_upper_alnum c \<and> fold_lookalike c = c) ALPHABET"
  by (simp add: ALPHABET_def upper_char_def is_upper_alnum_def is_digit_def fold_lookalike_def)

lemma code_symbol_in: "code_symbol b \<in> set ALPHABET"
proof -
  have "unat (b AND 0x1f) < 32"
    using word_and_le1 [of b "0x1f"] by (simp add: word_le_nat_alt)
  then show ?thesis unfolding code_symbol_def by (intro nth_mem) (simp add: ALPHABET_def)
qed

lemma normalize_append: "normalizeRecoveryCode (s @ t) = normalizeRecoveryCode s @ normalizeRecoveryCode t"
  by (simp add: normalizeRecoveryCode_def)

lemma normalize_Cons: "normalizeRecoveryCode (c # s) = normalizeRecoveryCode [c] @ normalizeRecoveryCode s"
  by (simp add: normalizeRecoveryCode_def)

lemma normalize_nil: "normalizeRecoveryCode [] = []"
  by (simp add: normalizeRecoveryCode_def)

lemma normalize_dash: "normalizeRecoveryCode (CHR ''-'' # s) = normalizeRecoveryCode s"
  by (simp add: normalizeRecoveryCode_def upper_char_def is_upper_alnum_def is_digit_def)

lemma normalize_symbols: "set s \<subseteq> set ALPHABET \<Longrightarrow> normalizeRecoveryCode s = s"
  using alphabet_symbols by (induction s) (auto simp: normalizeRecoveryCode_def list_all_iff)

lemma normalize_join: "normalizeRecoveryCode (join_with ''-'' ws) = concat (map normalizeRecoveryCode ws)"
proof (induction ws)
  case (Cons w ws)
  then show ?case
    by (cases "ws = []") (simp_all add: join_with_Cons normalize_append normalize_dash)
qed (simp add: normalizeRecoveryCode_def)

lemma concat_grouped: "concat (grouped s) = s"
  by (induction s rule: grouped.induct) (subst grouped.simps, simp)

lemma grouped_subset: "w \<in> set (grouped s) \<Longrightarrow> set w \<subseteq> set s"
  using concat_grouped [of s] by (metis UN_upper set_concat)

lemma normalize_generated: "normalizeRecoveryCode (generateRecoveryCode bs) = map code_symbol bs"
proof -
  have "map normalizeRecoveryCode (grouped (map code_symbol bs)) = grouped (map code_symbol bs)"
    using grouped_subset code_symbol_in by (intro map_idI normalize_symbols) fastforce
  then show ?thesis
    by (simp add: generateRecoveryCode_def normalize_join concat_grouped)
qed

text \<open>What a user may type for a symbol, and between symbols.\<close>

definition symbol_typed :: "char \<Rightarrow> char \<Rightarrow> bool" where
  "symbol_typed x c \<longleftrightarrow> c = x \<or> c = lower_char x \<or> x = CHR ''0'' \<and> c \<in> set ''Oo'' \<or> x = CHR ''1'' \<and> c \<in> set ''IiLl''"

definition is_filler :: "char \<Rightarrow> bool" where
  "is_filler c \<longleftrightarrow> (of_char c :: nat) < 128 \<and> \<not> is_upper_alnum c \<and> \<not> is_upper_alnum (hd (upper_char c))"

definition typed_as :: "string \<Rightarrow> string \<Rightarrow> bool" where
  "typed_as shown t \<longleftrightarrow> list_all2 symbol_typed (filter (\<lambda>c. \<not> is_filler c) shown) (filter (\<lambda>c. \<not> is_filler c) t)"

lemma normalize_filler: "is_filler c \<Longrightarrow> normalizeRecoveryCode [c] = []"
  by (auto simp: normalizeRecoveryCode_def is_filler_def upper_char_def Let_def split: if_splits)

lemma normalize_fillers: "normalizeRecoveryCode (filter (\<lambda>c. \<not> is_filler c) t) = normalizeRecoveryCode t"
proof (induction t)
  case (Cons c t)
  then show ?case
    using normalize_filler [of c] normalize_Cons [of c t] normalize_Cons [of c "filter (\<lambda>c. \<not> is_filler c) t"]
    by (cases "is_filler c") simp_all
qed simp

lemma typed_symbols:
  "list_all (\<lambda>x. normalizeRecoveryCode [x] = [x] \<and> normalizeRecoveryCode [lower_char x] = [x]) ALPHABET"
  "list_all (\<lambda>c. normalizeRecoveryCode [c] = ''0'') ''Oo''"
  "list_all (\<lambda>c. normalizeRecoveryCode [c] = ''1'') ''IiLl''"
  by code_simp+

lemma normalize_typed: "x \<in> set ALPHABET \<Longrightarrow> symbol_typed x c \<Longrightarrow> normalizeRecoveryCode [c] = [x]"
  using typed_symbols unfolding symbol_typed_def list_all_iff by blast

lemma typed_code_normalizes:
  assumes "typed_as (generateRecoveryCode bs) t"
  shows "normalizeRecoveryCode t = normalizeRecoveryCode (generateRecoveryCode bs)"
proof -
  have chars: "c \<in> set (join_with sep ws) \<Longrightarrow> c \<in> set sep \<or> (\<exists>w\<in>set ws. c \<in> set w)" for c sep ws
    by (induction sep ws rule: join_with.induct) auto
  have shown: "set (filter (\<lambda>c. \<not> is_filler c) (generateRecoveryCode bs)) \<subseteq> set ALPHABET"
  proof
    fix c
    assume "c \<in> set (filter (\<lambda>c. \<not> is_filler c) (generateRecoveryCode bs))"
    then have c: "\<not> is_filler c" "c \<in> set (join_with ''-'' (grouped (map code_symbol bs)))"
      by (auto simp: generateRecoveryCode_def)
    have "is_filler CHR ''-''" by code_simp
    with c chars [of c "''-''"] obtain w where "w \<in> set (grouped (map code_symbol bs))" "c \<in> set w"
      by auto
    then show "c \<in> set ALPHABET"
      using grouped_subset code_symbol_in by fastforce
  qed
  have "list_all2 symbol_typed xs ys \<Longrightarrow> set xs \<subseteq> set ALPHABET \<Longrightarrow> normalizeRecoveryCode ys = xs" for xs ys
  proof (induction rule: list_all2_induct)
    case (Cons x xs y ys)
    then show ?case using normalize_typed [of x y] normalize_Cons [of y ys] by simp
  qed (simp add: normalize_nil)
  from this [OF assms [unfolded typed_as_def] shown] have "normalizeRecoveryCode t = filter (\<lambda>c. \<not> is_filler c) (generateRecoveryCode bs)"
    by (simp add: normalize_fillers)
  also have "\<dots> = normalizeRecoveryCode (generateRecoveryCode bs)"
    using normalize_symbols [OF shown] by (simp add: normalize_fillers)
  finally show ?thesis .
qed

text \<open>Two codes are the same only when every symbol is: thirty symbols of five bits.\<close>

lemma code_symbol_inj: "code_symbol b = code_symbol c \<longleftrightarrow> b AND 0x1f = c AND 0x1f"
proof -
  have "unat (b AND 0x1f) < length ALPHABET" for b :: u8
    using word_and_le1 [of b "0x1f"] by (simp add: word_le_nat_alt ALPHABET_def)
  moreover have "distinct ALPHABET" by (simp add: ALPHABET_def)
  ultimately show ?thesis by (simp add: code_symbol_def nth_eq_iff_index_eq word_unat_eq_iff)
qed

end
