(* ===== verification/Vault_Session.thy ===== *)
theory Vault_Session
  imports Entries_Blob Slot_Policy Recovery_Code
begin

text \<open>
  The vault provider (\<open>packages/core/src/hooks/useVault.tsx\<close>): the operations that read the vault file, load or
  replace its key and rewrite its slots. Reading with its fallback, unlocking by password and by recovery code,
  the master password with its check after the write, adding a security key, creating a vault, and the rotation of
  the vault key.

  The key wrapping runs in the Rust core and is the argument \<open>K\<close>, next to the cipher and the payload codec of
  \<open>Entries_Blob\<close>. Which awaits throw is the argument \<open>ok\<close> of an operation, a step that throws being one where it
  is false; the randomness of a call is the number it is given. React state is the lock flag and the entries shown.
\<close>

subsection \<open>Keys, slots and the file\<close>

record 'k slot_crypto =
  sc_aead :: "'k aead"
  sc_wrap :: "'k \<Rightarrow> nat \<Rightarrow> string \<Rightarrow> key_fields"
  sc_unwrap :: "string \<Rightarrow> key_fields \<Rightarrow> 'k option"
  sc_unwrapKey :: "bytes \<Rightarrow> key_fields \<Rightarrow> 'k option"
  sc_verify :: "string \<Rightarrow> key_fields \<Rightarrow> bool"

text \<open>Documented of the core: a wrapped key comes back under its secret, the verifier accepts exactly the secrets
  that unwrap, and a wrapped slot has the sizes of the format.\<close>

definition slot_crypto_ok :: "'k slot_crypto \<Rightarrow> bool" where
  "slot_crypto_ok K \<longleftrightarrow> aead_ok (sc_aead K) \<and>
     (\<forall>k n x. sc_unwrap K x (sc_wrap K k n x) = Some k \<and> slot_fits (PasswordSlot (sc_wrap K k n x)) \<and>
        slot_fits (RecoverySlot (sc_wrap K k n x))) \<and>
     (\<forall>x f. sc_verify K x f \<longleftrightarrow> sc_unwrap K x f \<noteq> None)"

datatype session_error =
    NotUnlocked
  | WrongSecret
  | Unreadable
  | NoSuchSlot
  | PolicyRefused policy_error
  | NotWritten
  | CryptoFailed
  | SaveFailed
  | RotationFailed
  | LoadFailed
  | CeremonyFailed
  | UnknownCredential

record 'k vault_session =
  vs_file :: vault_file
  vs_key :: "'k option"
  vs_locked :: bool

text \<open>\<open>readDecodedBlob\<close>: any failure of the first read, also one that is not a decode failure, restores the
  snapshot. \<open>reads\<close>: the first read of the bytes did not throw.\<close>

definition decode_live :: "vault_file \<Rightarrow> session_error + vault_blob" where
  "decode_live f = (case decodeVaultBlob (live f) of Inl _ \<Rightarrow> Inl Unreadable | Inr b \<Rightarrow> Inr b)"

definition readDecodedBlob :: "bool \<Rightarrow> vault_file \<Rightarrow> (session_error + vault_blob) \<times> vault_file" where
  "readDecodedBlob reads f =
     (case (if reads then decode_live f else Inl Unreadable) of
        Inr b \<Rightarrow> (Inr b, f)
      | Inl e \<Rightarrow>
          if snapshot f = None then (Inl e, f)
          else (decode_live (restoreVaultFromBackup f), restoreVaultFromBackup f))"

text \<open>What the view's refresh does to the file: it is one more read, with the same fallback.\<close>

definition refreshSlotMetadata :: "bool \<Rightarrow> vault_file \<Rightarrow> vault_file" where
  "refreshSlotMetadata reads f = snd (readDecodedBlob reads f)"

text \<open>The write of the platform: a snapshot of the previous bytes that may silently fail, then the bytes.\<close>

definition write_blob :: "bool \<Rightarrow> bool \<Rightarrow> bytes \<Rightarrow> vault_file \<Rightarrow> vault_file" where
  "write_blob snaps writes bs f =
     (let f1 = (if snaps then f\<lparr>snapshot := Some (live f)\<rparr> else f) in if writes then f1\<lparr>live := bs\<rparr> else f1)"

lemma write_blob_all: "write_blob True True bs f = writeVaultBlob bs f"
  by (simp add: write_blob_def writeVaultBlob_def)

subsection \<open>Unlocking\<close>

text \<open>\<open>loadEntries\<close> reads the file again, recovers from a snapshot where the platform can and throws when the entries
  do not open. \<open>backup_store\<close>: the platform has \<open>readVaultBackup\<close>.\<close>

datatype load_step = LRead | LLoadRead | LEntries

definition loadEntries :: "'k slot_crypto \<Rightarrow> 'v payload_codec \<Rightarrow> (load_step \<Rightarrow> bool) \<Rightarrow> bool \<Rightarrow> 'k option \<Rightarrow> vault_file \<Rightarrow>
   (session_error + 'v entries_payload) \<times> vault_file" where
  "loadEntries K C ok backup_store key f0 =
     (case readDecodedBlob (ok LLoadRead) f0 of
        (Inl e, f) \<Rightarrow> (Inl e, f)
      | (Inr b, f) \<Rightarrow>
          if length (entriesCiphertext b) = 0 then (Inr emptyEntriesPayload, f)
          else (case decryptEntriesOrRecover (sc_aead K) key backup_store b f of
                  (Inl _, f') \<Rightarrow> (Inl LoadFailed, f')
                | (Inr json, f') \<Rightarrow>
                    ((case decodeEntriesPayload C json of
                        None \<Rightarrow> Inl LoadFailed
                      | Some p \<Rightarrow> if ok LEntries then Inr p else Inl LoadFailed), f')))"

text \<open>After an unwrap: the key is loaded, then the entries; only a load that returns clears the lock.\<close>

definition finish_unlock :: "'k slot_crypto \<Rightarrow> 'v payload_codec \<Rightarrow> (load_step \<Rightarrow> bool) \<Rightarrow> bool \<Rightarrow> 'k \<Rightarrow> 'k vault_session \<Rightarrow>
   (session_error + unit) \<times> 'k vault_session" where
  "finish_unlock K C ok backup_store k s =
     (case loadEntries K C ok backup_store (Some k) (vs_file s) of
        (Inr _, f) \<Rightarrow> (Inr (), s\<lparr>vs_file := f, vs_key := Some k, vs_locked := False\<rparr>)
      | (Inl e, f) \<Rightarrow> (Inl e, s\<lparr>vs_file := f, vs_key := Some k\<rparr>))"

definition unlock :: "'k slot_crypto \<Rightarrow> 'v payload_codec \<Rightarrow> (load_step \<Rightarrow> bool) \<Rightarrow> bool \<Rightarrow> string \<Rightarrow> 'k vault_session \<Rightarrow>
   (session_error + unit) \<times> 'k vault_session" where
  "unlock K C ok backup_store password s =
     (case readDecodedBlob (ok LRead) (vs_file s) of
        (Inl e, f) \<Rightarrow> (Inl Unreadable, s\<lparr>vs_file := f\<rparr>)
      | (Inr b, f) \<Rightarrow>
          (case findPasswordSlot b of
             None \<Rightarrow> (Inl NoSuchSlot, s\<lparr>vs_file := f\<rparr>)
           | Some slot \<Rightarrow>
               (case sc_unwrap K password slot of
                  None \<Rightarrow> (Inl WrongSecret, s\<lparr>vs_file := f\<rparr>)
                | Some k \<Rightarrow> finish_unlock K C ok backup_store k (s\<lparr>vs_file := f\<rparr>))))"

fun recovery_fields :: "slot \<Rightarrow> key_fields list" where
  "recovery_fields (RecoverySlot f) = [f]"
| "recovery_fields _ = []"

text \<open>The first recovery slot the code opens.\<close>

fun try_slots :: "'k slot_crypto \<Rightarrow> string \<Rightarrow> key_fields list \<Rightarrow> 'k option" where
  "try_slots K x [] = None"
| "try_slots K x (f # fs) = (case sc_unwrap K x f of Some k \<Rightarrow> Some k | None \<Rightarrow> try_slots K x fs)"

definition unlockWithRecoveryCode :: "'k slot_crypto \<Rightarrow> 'v payload_codec \<Rightarrow> (load_step \<Rightarrow> bool) \<Rightarrow> bool \<Rightarrow> string \<Rightarrow>
   'k vault_session \<Rightarrow> (session_error + unit) \<times> 'k vault_session" where
  "unlockWithRecoveryCode K C ok backup_store typed s =
     (case readDecodedBlob (ok LRead) (vs_file s) of
        (Inl e, f) \<Rightarrow> (Inl Unreadable, s\<lparr>vs_file := f\<rparr>)
      | (Inr b, f) \<Rightarrow>
          (if findRecoverySlots b = [] then (Inl NoSuchSlot, s\<lparr>vs_file := f\<rparr>)
           else case try_slots K (normalizeRecoveryCode typed) (concat (map recovery_fields (findRecoverySlots b))) of
               None \<Rightarrow> (Inl WrongSecret, s\<lparr>vs_file := f\<rparr>)
             | Some k \<Rightarrow> finish_unlock K C ok backup_store k (s\<lparr>vs_file := f\<rparr>)))"

text \<open>A tap answers with the credential and its secret, or the ceremony throws. A credential with another salt
  is asked again, narrowed to its own slot.\<close>

fun webauthn_fields :: "slot \<Rightarrow> key_fields option" where
  "webauthn_fields (WebauthnSlot _ f) = Some f"
| "webauthn_fields _ = None"

definition finishWebauthnUnlock :: "'k slot_crypto \<Rightarrow> 'v payload_codec \<Rightarrow> (load_step \<Rightarrow> bool) \<Rightarrow> bool \<Rightarrow> key_fields \<Rightarrow> bytes \<Rightarrow>
   'k vault_session \<Rightarrow> (session_error + unit) \<times> 'k vault_session" where
  "finishWebauthnUnlock K C ok backup_store slot hmacSecret s =
     (case sc_unwrapKey K hmacSecret slot of
        None \<Rightarrow> (Inl WrongSecret, s)
      | Some k \<Rightarrow> finish_unlock K C ok backup_store k s)"

definition unlockWithWebauthnKey :: "'k slot_crypto \<Rightarrow> 'v payload_codec \<Rightarrow> (load_step \<Rightarrow> bool) \<Rightarrow> bool \<Rightarrow>
   (bytes \<times> bytes) option \<Rightarrow> (bytes \<times> bytes) option \<Rightarrow> 'k vault_session \<Rightarrow> (session_error + unit) \<times> 'k vault_session" where
  "unlockWithWebauthnKey K C ok backup_store tap tapAgain s =
     (case readDecodedBlob (ok LRead) (vs_file s) of
        (Inl e, f) \<Rightarrow> (Inl Unreadable, s\<lparr>vs_file := f\<rparr>)
      | (Inr b, f) \<Rightarrow>
          (let s1 = s\<lparr>vs_file := f\<rparr>
           in case findWebauthnSlots b of
                [] \<Rightarrow> (Inl NoSuchSlot, s1)
              | first # others \<Rightarrow>
                  (case tap of
                     None \<Rightarrow> (Inl CeremonyFailed, s1)
                   | Some (rawId, secret) \<Rightarrow>
                       (case Option.bind (matchSlotByCredentialId (first # others) rawId) (\<lambda>u. map_option (Pair u) (webauthn_fields u)) of
                          None \<Rightarrow> (Inl UnknownCredential, s1)
                        | Some (slot_used, used) \<Rightarrow>
                            if needsSaltMismatchRetry used (case webauthn_fields first of None \<Rightarrow> [] | Some g \<Rightarrow> salt g)
                            then (case tapAgain of
                                    None \<Rightarrow> (Inl CeremonyFailed, s1)
                                  | Some (rawId2, secret2) \<Rightarrow>
                                      if matchSlotByCredentialId [slot_used] rawId2 = None then (Inl UnknownCredential, s1)
                                      else finishWebauthnUnlock K C ok backup_store used secret2 s1)
                            else finishWebauthnUnlock K C ok backup_store used secret s1))))"

definition verifyWithWebauthnKey :: "bool \<Rightarrow> (bytes \<times> bytes) option \<Rightarrow> 'k vault_session \<Rightarrow> (session_error + bool) \<times> 'k vault_session" where
  "verifyWithWebauthnKey reads tap s =
     (case readDecodedBlob reads (vs_file s) of
        (Inl e, f) \<Rightarrow> (Inl e, s\<lparr>vs_file := f\<rparr>)
      | (Inr b, f) \<Rightarrow>
          (Inr (findWebauthnSlots b \<noteq> [] \<and>
             (case tap of None \<Rightarrow> False | Some (rawId, _) \<Rightarrow> matchSlotByCredentialId (findWebauthnSlots b) rawId \<noteq> None)),
           s\<lparr>vs_file := f\<rparr>))"

definition lock_session :: "'k vault_session \<Rightarrow> 'k vault_session" where
  "lock_session s = s\<lparr>vs_key := None, vs_locked := True\<rparr>"

definition verifyMasterPassword :: "'k slot_crypto \<Rightarrow> bool \<Rightarrow> bool \<Rightarrow> string \<Rightarrow> 'k vault_session \<Rightarrow>
   (session_error + bool) \<times> 'k vault_session" where
  "verifyMasterPassword K reads verifies password s =
     (case readDecodedBlob reads (vs_file s) of
        (Inl e, f) \<Rightarrow> (Inl e, s\<lparr>vs_file := f\<rparr>)
      | (Inr b, f) \<Rightarrow>
          ((case findPasswordSlot b of
              None \<Rightarrow> Inr False
            | Some slot \<Rightarrow> if verifies then Inr (sc_verify K password slot) else Inl CryptoFailed), s\<lparr>vs_file := f\<rparr>))"

subsection \<open>Changing slots\<close>

text \<open>A slot change on the blob just read, encoded and written.\<close>

definition put_blob :: "bool \<Rightarrow> bool \<Rightarrow> policy_error + vault_blob \<Rightarrow> vault_file \<Rightarrow> session_error + vault_file" where
  "put_blob snaps writes changed f =
     (case changed of
        Inl e \<Rightarrow> Inl (PolicyRefused e)
      | Inr b \<Rightarrow> (case encodeVaultBlob b of Inl _ \<Rightarrow> Inl NotWritten
                   | Inr bs \<Rightarrow> if writes then Inr (write_blob snaps True bs f) else Inl NotWritten))"

text \<open>What the file is after a failed or successful \<open>put_blob\<close>.\<close>

definition file_after :: "bool \<Rightarrow> bool \<Rightarrow> policy_error + vault_blob \<Rightarrow> vault_file \<Rightarrow> vault_file" where
  "file_after snaps writes changed f =
     (case changed of
        Inl e \<Rightarrow> f
      | Inr b \<Rightarrow> (case encodeVaultBlob b of Inl _ \<Rightarrow> f | Inr bs \<Rightarrow> write_blob snaps writes bs f))"

datatype pw_step = PwRead | PwWrap | PwSnapshot | PwWrite | PwReadBack | PwVerify | PwRestore | PwRefresh

text \<open>\<open>writeMasterPasswordSlot\<close>: once written, the slot must verify, else the snapshot is restored.\<close>

definition writeMasterPasswordSlot :: "'k slot_crypto \<Rightarrow> (pw_step \<Rightarrow> bool) \<Rightarrow> nat \<Rightarrow> string \<Rightarrow> 'k \<Rightarrow> vault_file \<Rightarrow>
   (session_error + unit) \<times> vault_file" where
  "writeMasterPasswordSlot K ok n password k f0 =
     (case readDecodedBlob (ok PwRead) f0 of
        (Inl e, f) \<Rightarrow> (Inl e, f)
      | (Inr b, f) \<Rightarrow>
          if \<not> ok PwWrap then (Inl CryptoFailed, f)
          else let changed = upsertPasswordSlot b (sc_wrap K k n password)
            in case put_blob (ok PwSnapshot) (ok PwWrite) changed f of
              Inl e \<Rightarrow> (Inl e, file_after (ok PwSnapshot) (ok PwWrite) changed f)
            | Inr f1 \<Rightarrow>
                (case readDecodedBlob (ok PwReadBack) f1 of
                   (Inr w, f2) \<Rightarrow>
                     if (case findPasswordSlot w of None \<Rightarrow> False | Some slot \<Rightarrow> ok PwVerify \<and> sc_verify K password slot)
                     then (Inr (), refreshSlotMetadata (ok PwRefresh) f2)
                     else (Inl SaveFailed, if ok PwRestore then restoreVaultFromBackup f2 else f2)
                 | (Inl e, f2) \<Rightarrow> (Inl SaveFailed, if ok PwRestore then restoreVaultFromBackup f2 else f2)))"

text \<open>The callers check that the vault is unlocked; changing also that there is a password to change.\<close>

definition changeMasterPassword :: "'k slot_crypto \<Rightarrow> (pw_step \<Rightarrow> bool) \<Rightarrow> bool \<Rightarrow> nat \<Rightarrow> string \<Rightarrow> 'k vault_session \<Rightarrow>
   (session_error + unit) \<times> 'k vault_session" where
  "changeMasterPassword K ok reads n newPassword s =
     (case vs_key s of
        None \<Rightarrow> (Inl NotUnlocked, s)
      | Some k \<Rightarrow>
          (case readDecodedBlob reads (vs_file s) of
             (Inl e, f) \<Rightarrow> (Inl e, s\<lparr>vs_file := f\<rparr>)
           | (Inr b, f) \<Rightarrow>
               if findPasswordSlot b = None then (Inl NoSuchSlot, s\<lparr>vs_file := f\<rparr>)
               else (case writeMasterPasswordSlot K ok n newPassword k f of (r, f') \<Rightarrow> (r, s\<lparr>vs_file := f'\<rparr>))))"

definition setMasterPassword :: "'k slot_crypto \<Rightarrow> (pw_step \<Rightarrow> bool) \<Rightarrow> nat \<Rightarrow> string \<Rightarrow> 'k vault_session \<Rightarrow>
   (session_error + unit) \<times> 'k vault_session" where
  "setMasterPassword K ok n password s =
     (case vs_key s of
        None \<Rightarrow> (Inl NotUnlocked, s)
      | Some k \<Rightarrow> (case writeMasterPasswordSlot K ok n password k (vs_file s) of (r, f') \<Rightarrow> (r, s\<lparr>vs_file := f'\<rparr>)))"

text \<open>The changes that read, change the slots and write, with no check after the write.\<close>

definition change_slots :: "bool \<Rightarrow> bool \<Rightarrow> bool \<Rightarrow> bool \<Rightarrow> (vault_blob \<Rightarrow> policy_error + vault_blob) \<Rightarrow> vault_file \<Rightarrow>
   (session_error + unit) \<times> vault_file" where
  "change_slots reads snaps writes refreshes change f0 =
     (case readDecodedBlob reads f0 of
        (Inl e, f) \<Rightarrow> (Inl e, f)
      | (Inr b, f) \<Rightarrow>
          (case put_blob snaps writes (change b) f of
             Inl e \<Rightarrow> (Inl e, file_after snaps writes (change b) f)
           | Inr f1 \<Rightarrow> (Inr (), refreshSlotMetadata refreshes f1)))"

definition disableMasterPassword :: "bool \<Rightarrow> bool \<Rightarrow> bool \<Rightarrow> bool \<Rightarrow> 'k vault_session \<Rightarrow> (session_error + unit) \<times> 'k vault_session" where
  "disableMasterPassword reads snaps writes refreshes s =
     (if vs_key s = None then (Inl NotUnlocked, s)
      else map_prod id (\<lambda>f. s\<lparr>vs_file := f\<rparr>) (change_slots reads snaps writes refreshes removePasswordSlot (vs_file s)))"

definition resetRecoveryCode :: "'k slot_crypto \<Rightarrow> bool \<Rightarrow> bool \<Rightarrow> bool \<Rightarrow> bool \<Rightarrow> nat \<Rightarrow> bytes \<Rightarrow> 'k vault_session \<Rightarrow>
   (session_error + string) \<times> 'k vault_session" where
  "resetRecoveryCode K reads snaps writes refreshes n rnd s =
     (case vs_key s of
        None \<Rightarrow> (Inl NotUnlocked, s)
      | Some k \<Rightarrow>
          (let code = generateRecoveryCode rnd
           in map_prod (map_sum id (\<lambda>_. code)) (\<lambda>f. s\<lparr>vs_file := f\<rparr>)
                (change_slots reads snaps writes refreshes (\<lambda>b. upsertRecoverySlot b (sc_wrap K k n (normalizeRecoveryCode code))) (vs_file s))))"

definition revokeWebauthnKey :: "bool \<Rightarrow> bool \<Rightarrow> bool \<Rightarrow> bool \<Rightarrow> bytes \<Rightarrow> 'k vault_session \<Rightarrow> (session_error + unit) \<times> 'k vault_session" where
  "revokeWebauthnKey reads snaps writes refreshes i s =
     map_prod id (\<lambda>f. s\<lparr>vs_file := f\<rparr>) (change_slots reads snaps writes refreshes (\<lambda>b. removeWebauthnSlot b i) (vs_file s))"

text \<open>\<open>registerWebauthnKey\<close>: the blob is read before the ceremony and written after it; \<open>between\<close> is what the file
  became while the user tapped. The ceremony and the wrap give a credential and its slot, or throw.\<close>

definition registerWebauthnKey :: "'k option \<Rightarrow> bool \<Rightarrow> bool \<Rightarrow> bool \<Rightarrow> bool \<Rightarrow> (bytes \<times> key_fields) option \<Rightarrow> vault_file \<Rightarrow> vault_file \<Rightarrow>
   session_error + vault_file" where
  "registerWebauthnKey key reads snaps writes refreshes ceremony f between =
     (if key = None then Inl NotUnlocked
      else case readDecodedBlob reads f of
        (Inl e, _) \<Rightarrow> Inl e
      | (Inr b, _) \<Rightarrow>
          (case ceremony of
             None \<Rightarrow> Inl CeremonyFailed
           | Some (cid, kf) \<Rightarrow>
               map_sum id (refreshSlotMetadata refreshes) (put_blob snaps writes (addWebauthnSlot b cid kf) between)))"

text \<open>\<open>createVault\<close>: the key just generated, wrapped by the password and by the code, over an empty payload.\<close>

definition createVault :: "'k slot_crypto \<Rightarrow> 'v payload_codec \<Rightarrow> 'k \<Rightarrow> nat \<Rightarrow> nat \<Rightarrow> nat \<Rightarrow> string \<Rightarrow> bytes \<Rightarrow>
   blob_error + string \<times> bytes" where
  "createVault K C k n1 n2 n3 password rnd =
     (let code = generateRecoveryCode rnd
      in map_sum id (Pair code) (buildVaultBytes (sc_aead K) C (Some k) n3
           [PasswordSlot (sc_wrap K k n1 password), RecoverySlot (sc_wrap K k n2 (normalizeRecoveryCode code))] emptyEntriesPayload))"

subsection \<open>Rotation\<close>

datatype rot_step =
    RVerifyRead | RVerify | RRead | RRotate | RSeal | RWrapPassword | RWrapRecovery | RSnapshot | RWrite | RReadBack
  | RVerifyBack | ROpenBack | RRestore | RLock | RRefresh | RReload | REntries

text \<open>\<open>sealAll\<close>: the in-memory entries as a payload \<open>p\<close>, sealed under the loaded key.\<close>

definition sealAll :: "'k aead \<Rightarrow> 'v payload_codec \<Rightarrow> 'k \<Rightarrow> nat \<Rightarrow> 'v entries_payload \<Rightarrow> bytes \<times> bytes" where
  "sealAll A C k n p =
     (case encryptWithVek A (Some k) n (encodeEntriesPayload C p) of
        Inr (iv, ct) \<Rightarrow> (case (base64ToBytes iv, base64ToBytes ct) of (Some i, Some c) \<Rightarrow> (i, c) | _ \<Rightarrow> ([], []))
      | Inl _ \<Rightarrow> ([], []))"

text \<open>The rotated blob: entries, password, recovery code, and no security key.\<close>

definition rotated_blob :: "'k slot_crypto \<Rightarrow> 'v payload_codec \<Rightarrow> 'k \<Rightarrow> nat \<Rightarrow> nat \<Rightarrow> nat \<Rightarrow> string \<Rightarrow> string \<Rightarrow> 'v entries_payload \<Rightarrow>
   vault_blob \<Rightarrow> policy_error + vault_blob" where
  "rotated_blob K C k n1 n2 n3 password code p b =
     (let sealed = sealAll (sc_aead K) C k n3 p
      in case upsertPasswordSlot (b\<lparr>entriesIv := fst sealed, entriesCiphertext := snd sealed\<rparr>) (sc_wrap K k n1 password) of
          Inl e \<Rightarrow> Inl e
        | Inr b1 \<Rightarrow>
            (case upsertRecoverySlot b1 (sc_wrap K k n2 (normalizeRecoveryCode code)) of
               Inl e \<Rightarrow> Inl e
             | Inr b2 \<Rightarrow> Inr (b2\<lparr>slots := filter (\<lambda>s. slot_kind s \<noteq> SLOT_KIND_WEBAUTHN) (slots b2)\<rparr>)))"

text \<open>The guarded part: whether it went through, and the file.\<close>

definition rotate_guarded :: "'k slot_crypto \<Rightarrow> 'v payload_codec \<Rightarrow> (rot_step \<Rightarrow> bool) \<Rightarrow> 'k \<Rightarrow> string \<Rightarrow>
   policy_error + vault_blob \<Rightarrow> vault_file \<Rightarrow> bool \<times> vault_file" where
  "rotate_guarded K C ok k' password rotated f =
     (if \<not> ok RSeal \<or> \<not> ok RWrapPassword \<or> \<not> ok RWrapRecovery then (False, f)
      else case put_blob (ok RSnapshot) (ok RWrite) rotated f of
          Inl e \<Rightarrow> (False, file_after (ok RSnapshot) (ok RWrite) rotated f)
        | Inr f1 \<Rightarrow>
            (case readDecodedBlob (ok RReadBack) f1 of
               (Inl e, f2) \<Rightarrow> (False, f2)
             | (Inr w, f2) \<Rightarrow>
                 ((case findPasswordSlot w of None \<Rightarrow> False | Some slot \<Rightarrow> ok RVerifyBack \<and> sc_verify K password slot) \<and>
                  ok ROpenBack \<and> \<not> isl (decrypt_outer (sc_aead K) (Some k') w), f2)))"

text \<open>The two refreshes after it, whose failures are swallowed.\<close>

definition refresh_rotated :: "'k slot_crypto \<Rightarrow> 'v payload_codec \<Rightarrow> (rot_step \<Rightarrow> bool) \<Rightarrow> bool \<Rightarrow> 'k \<Rightarrow> vault_file \<Rightarrow> vault_file" where
  "refresh_rotated K C ok backup_store k' f =
     snd (loadEntries K C (\<lambda>st. if st = LEntries then ok REntries else ok RReload) backup_store (Some k')
       (refreshSlotMetadata (ok RRefresh) f))"

definition rotateSecret :: "'k slot_crypto \<Rightarrow> 'v payload_codec \<Rightarrow> (rot_step \<Rightarrow> bool) \<Rightarrow> bool \<Rightarrow> 'k \<Rightarrow> nat \<Rightarrow> nat \<Rightarrow> nat \<Rightarrow> string \<Rightarrow> bytes \<Rightarrow>
   'v entries_payload \<Rightarrow> 'k vault_session \<Rightarrow> (session_error + string) \<times> 'k vault_session" where
  "rotateSecret K C ok backup_store k' n1 n2 n3 password rnd p s =
     (if vs_key s = None then (Inl NotUnlocked, s)
      else case verifyMasterPassword K (ok RVerifyRead) (ok RVerify) password s of
          (Inl e, s1) \<Rightarrow> (Inl e, s1)
        | (Inr right, s1) \<Rightarrow>
            if \<not> right then (Inl WrongSecret, s1)
            else (case readDecodedBlob (ok RRead) (vs_file s1) of
                (Inl e, f) \<Rightarrow> (Inl e, s1\<lparr>vs_file := f\<rparr>)
              | (Inr b, f) \<Rightarrow>
                  if \<not> ok RRotate then (Inl CryptoFailed, s1\<lparr>vs_file := f\<rparr>)
                  else (case rotate_guarded K C ok k' password (rotated_blob K C k' n1 n2 n3 password (generateRecoveryCode rnd) p b) f of
                      (True, f') \<Rightarrow> (Inr (generateRecoveryCode rnd), s1\<lparr>vs_file := refresh_rotated K C ok backup_store k' f', vs_key := Some k'\<rparr>)
                    | (False, f') \<Rightarrow>
                        (Inl RotationFailed,
                         s1\<lparr>vs_file := (if ok RRestore then restoreVaultFromBackup f' else f'),
                            vs_key := (if ok RLock then None else Some k'), vs_locked := True\<rparr>))))"

subsection \<open>Files that open\<close>

text \<open>Some password opens the bytes, under a key other than \<open>k'\<close>.\<close>

definition openable :: "'k slot_crypto \<Rightarrow> 'v payload_codec \<Rightarrow> 'k \<Rightarrow> bytes \<Rightarrow> bool" where
  "openable K C k' bs \<longleftrightarrow> (\<exists>pw k b f. decodeVaultBlob bs = Inr b \<and> findPasswordSlot b = Some f \<and> sc_unwrap K pw f = Some k \<and>
     k \<noteq> k' \<and> sealed_by (sc_aead K) k b \<and> \<not> isl (payload_in (sc_aead K) C (Some k) b))"

definition file_opens :: "'k slot_crypto \<Rightarrow> 'v payload_codec \<Rightarrow> 'k \<Rightarrow> vault_file \<Rightarrow> bool" where
  "file_opens K C k' f \<longleftrightarrow> openable K C k' (live f) \<and> (case snapshot f of None \<Rightarrow> True | Some bs \<Rightarrow> openable K C k' bs)"

lemma restore_opens: "file_opens K C k' f \<Longrightarrow> file_opens K C k' (restoreVaultFromBackup f)"
  by (auto simp: file_opens_def restoreVaultFromBackup_def split: option.splits)

lemma read_opens:
  assumes "file_opens K C k' f" "readDecodedBlob reads f = (r, f')"
  shows "file_opens K C k' f'"
  using assms restore_opens [OF assms(1)] by (auto simp: readDecodedBlob_def split: sum.splits if_splits)

lemma read_decodes: "readDecodedBlob reads f = (Inr b, f') \<Longrightarrow> decodeVaultBlob (live f') = Inr b"
  by (auto simp: readDecodedBlob_def decode_live_def split: sum.splits if_splits)

lemma read_live: "decodeVaultBlob (live f) = Inr b \<Longrightarrow> readDecodedBlob True f = (Inr b, f)"
  by (simp add: readDecodedBlob_def decode_live_def)

lemma read_file: "readDecodedBlob reads f = (r, f') \<Longrightarrow> f' = f \<or> f' = restoreVaultFromBackup f"
  by (auto simp: readDecodedBlob_def split: sum.splits if_splits)

lemma load_opens:
  assumes "decodeVaultBlob (live f) = Inr b" "payload_in (sc_aead K) C key b = Inr p"
  shows "loadEntries K C (\<lambda>_. True) backup_store key f = (Inr p, f)"
  using assms
  by (auto simp: loadEntries_def read_live payload_in_def decryptEntriesOrRecover_def split: if_splits sum.splits option.splits)

lemma finish_opens:
  assumes "decodeVaultBlob (live (vs_file s)) = Inr b" "\<not> isl (payload_in (sc_aead K) C (Some k) b)"
  shows "finish_unlock K C (\<lambda>_. True) backup_store k s = (Inr (), s\<lparr>vs_key := Some k, vs_locked := False\<rparr>)"
  using assms(2) load_opens [OF assms(1), of K C "Some k"]
  by (cases "payload_in (sc_aead K) C (Some k) b") (auto simp: finish_unlock_def)

lemma unlock_opens:
  assumes "decodeVaultBlob (live (vs_file s)) = Inr b" "findPasswordSlot b = Some f" "sc_unwrap K pw f = Some k"
    and "\<not> isl (payload_in (sc_aead K) C (Some k) b)"
  shows "unlock K C (\<lambda>_. True) backup_store pw s = (Inr (), s\<lparr>vs_key := Some k, vs_locked := False\<rparr>)"
  using assms finish_opens [OF assms(1,4)] by (simp add: unlock_def read_live)

lemma openable_unlocks:
  "openable K C k' (live (vs_file s)) \<Longrightarrow> \<exists>pw. fst (unlock K C (\<lambda>_. True) backup_store pw s) = Inr ()"
  unfolding openable_def by (metis unlock_opens fst_conv)

lemma openable_other_key:
  assumes "slot_crypto_ok K" "openable K C k' bs" "decodeVaultBlob bs = Inr b"
  shows "isl (decrypt_outer (sc_aead K) (Some k') b)"
  using assms sealed_by_opens by (fastforce simp: openable_def slot_crypto_ok_def)

subsection \<open>The rotated vault\<close>

lemma sealAll_eq: "sealAll A C k n p = seal A k n (encodeEntriesPayload C p)"
  by (cases "seal A k n (encodeEntriesPayload C p)") (simp add: sealAll_def encryptWithVek_def base64_round_trip)

lemma findPasswordSlot_in_append:
  "findPasswordSlot_in (xs @ ys) = (case findPasswordSlot_in xs of None \<Rightarrow> findPasswordSlot_in ys | Some f \<Rightarrow> Some f)"
  by (induction xs rule: findPasswordSlot_in.induct) auto

lemma findPasswordSlot_in_none:
  "\<forall>s\<in>set xs. slot_kind s \<noteq> SLOT_KIND_PASSWORD \<Longrightarrow> findPasswordSlot_in xs = None"
  by (induction xs rule: findPasswordSlot_in.induct) auto

definition holds_rotated :: "'k slot_crypto \<Rightarrow> 'v payload_codec \<Rightarrow> 'k \<Rightarrow> nat \<Rightarrow> nat \<Rightarrow> nat \<Rightarrow> string \<Rightarrow> string \<Rightarrow> 'v entries_payload \<Rightarrow>
   vault_blob \<Rightarrow> bool" where
  "holds_rotated K C k n1 n2 n3 password code p r \<longleftrightarrow>
     findPasswordSlot r = Some (sc_wrap K k n1 password) \<and> findRecoverySlots r = [RecoverySlot (sc_wrap K k n2 (normalizeRecoveryCode code))] \<and>
     findWebauthnSlots r = [] \<and> entriesIv r = fst (seal (sc_aead K) k n3 (encodeEntriesPayload C p)) \<and>
     entriesCiphertext r = snd (seal (sc_aead K) k n3 (encodeEntriesPayload C p))"

lemma rotated_blob_holds:
  assumes "rotated_blob K C k n1 n2 n3 password code p b = Inr r"
  shows "holds_rotated K C k n1 n2 n3 password code p r"
proof -
  have none: "findPasswordSlot_in (filter (\<lambda>s. slot_kind s \<noteq> SLOT_KIND_WEBAUTHN \<and> slot_kind s \<noteq> SLOT_KIND_RECOVERY \<and>
      slot_kind s \<noteq> SLOT_KIND_PASSWORD) (slots b)) = None"
    by (rule findPasswordSlot_in_none) simp
  show ?thesis
    using assms none
    by (auto simp: rotated_blob_def holds_rotated_def sealAll_eq slot_op_defs findPasswordSlot_def findRecoverySlots_def
        findWebauthnSlots_def findPasswordSlot_in_append filter_filter kind_defs conj_ac split: if_splits)
qed

lemma upsertRecoverySlot_limit: "upsertRecoverySlot b f = Inr b' \<Longrightarrow> length (slots b') \<le> MAX_SLOTS"
  by (auto simp: slot_op_defs split: if_splits)

lemma rotated_blob_fits:
  assumes "slot_crypto_ok K" "blob_fits b" "rotated_blob K C k n1 n2 n3 password code p b = Inr r"
  shows "blob_fits r"
proof -
  obtain b2 where b2: "length (slots b2) \<le> MAX_SLOTS" "r = b2\<lparr>slots := filter (\<lambda>s. slot_kind s \<noteq> SLOT_KIND_WEBAUTHN) (slots b2)\<rparr>"
    using assms(3) upsertRecoverySlot_limit by (auto simp: rotated_blob_def Let_def split: sum.splits)
  have "set (slots r) \<subseteq> set (slots b) \<union> {PasswordSlot (sc_wrap K k n1 password), RecoverySlot (sc_wrap K k n2 (normalizeRecoveryCode code))}"
    "slots r \<noteq> []"
    using assms(3) by (auto simp: rotated_blob_def slot_op_defs kind_defs split: if_splits)
  moreover have "length (slots r) \<le> MAX_SLOTS"
    using b2 by (simp add: length_filter_le_trans)
  moreover have "length (entriesIv r) = LEN_IV"
    using rotated_blob_holds [OF assms(3)] assms(1) by (simp add: holds_rotated_def slot_crypto_ok_def aead_ok_def)
  moreover have "slot_fits (PasswordSlot (sc_wrap K k n1 password))" "slot_fits (RecoverySlot (sc_wrap K k n2 (normalizeRecoveryCode code)))"
    using assms(1) by (auto simp: slot_crypto_ok_def)
  ultimately have "list_all slot_fits (slots r)" "length (slots r) \<le> MAX_SLOTS" "1 \<le> length (slots r)" "length (entriesIv r) = LEN_IV"
    using assms(2) by (auto simp: blob_fits_def list_all_iff Suc_le_eq)
  then show ?thesis
    by (auto simp: blob_fits_def blob_schema_def list_all_iff slot_fits_def)
qed

lemma holds_rotated_decrypts:
  "slot_crypto_ok K \<Longrightarrow> holds_rotated K C k n1 n2 n3 password code p r \<Longrightarrow> \<not> isl (decrypt_outer (sc_aead K) (Some k) r)"
  by (auto simp: slot_crypto_ok_def aead_ok_def holds_rotated_def decrypt_outer_eq)

lemma holds_rotated_opens:
  assumes "slot_crypto_ok K" "codec_ok C" "holds_rotated K C k n1 n2 n3 password code p r" "decodeVaultBlob (live (vs_file s)) = Inr r"
  shows "unlock K C (\<lambda>_. True) backup_store password s = (Inr (), s\<lparr>vs_key := Some k, vs_locked := False\<rparr>)"
    and "normalizeRecoveryCode typed = normalizeRecoveryCode code \<Longrightarrow>
      unlockWithRecoveryCode K C (\<lambda>_. True) backup_store typed s = (Inr (), s\<lparr>vs_key := Some k, vs_locked := False\<rparr>)"
    and "readEntriesPayload (sc_aead K) C (Some k) (vs_file s) = Inr p"
proof -
  have p: "payload_in (sc_aead K) C (Some k) r = Inr p"
    using assms(1-3) by (auto simp: slot_crypto_ok_def aead_ok_def codec_ok_def holds_rotated_def payload_in_def decrypt_outer_eq)
  show "unlock K C (\<lambda>_. True) backup_store password s = (Inr (), s\<lparr>vs_key := Some k, vs_locked := False\<rparr>)"
    using assms p by (auto simp: holds_rotated_def slot_crypto_ok_def intro!: unlock_opens)
  show "unlockWithRecoveryCode K C (\<lambda>_. True) backup_store typed s = (Inr (), s\<lparr>vs_key := Some k, vs_locked := False\<rparr>)"
    if "normalizeRecoveryCode typed = normalizeRecoveryCode code"
    using assms p that
    by (auto simp: holds_rotated_def slot_crypto_ok_def unlockWithRecoveryCode_def read_live finish_opens)
  show "readEntriesPayload (sc_aead K) C (Some k) (vs_file s) = Inr p"
    using assms(4) p by (simp add: readEntriesPayload_def)
qed

text \<open>The file during a rotation: what it holds is an older vault that opens or the rotated one, and the snapshot is an
  older vault that opens.\<close>

definition rotating :: "'k slot_crypto \<Rightarrow> 'v payload_codec \<Rightarrow> 'k \<Rightarrow> (vault_blob \<Rightarrow> bool) \<Rightarrow> vault_file \<Rightarrow> bool" where
  "rotating K C k' R f \<longleftrightarrow>
     (openable K C k' (live f) \<or> (case decodeVaultBlob (live f) of Inl _ \<Rightarrow> False | Inr r \<Rightarrow> R r)) \<and>
     (case snapshot f of None \<Rightarrow> True | Some bs \<Rightarrow> openable K C k' bs)"

lemma file_opens_rotating: "file_opens K C k' f \<Longrightarrow> rotating K C k' R f"
  by (simp add: file_opens_def rotating_def)

lemma rotating_restored: "rotating K C k' R f \<Longrightarrow> rotating K C k' R (restoreVaultFromBackup f)"
  by (auto simp: rotating_def restoreVaultFromBackup_def split: option.splits)

lemma rotating_read: "rotating K C k' R f \<Longrightarrow> readDecodedBlob reads f = (r, f') \<Longrightarrow> rotating K C k' R f'"
  using read_file rotating_restored by metis

lemma put_refused:
  assumes "file_opens K C k' f" "put_blob sn wr changed f = Inl e"
  shows "file_opens K C k' (file_after sn wr changed f)"
  using assms by (auto simp: file_opens_def put_blob_def file_after_def write_blob_def split: sum.splits if_splits)

lemma put_rotating:
  assumes "file_opens K C k' f" "put_blob sn wr changed f = Inr f1"
    and "\<And>r. changed = Inr r \<Longrightarrow> blob_fits r \<and> R r"
  shows "rotating K C k' R f1"
proof -
  obtain r bs where r: "changed = Inr r" "encodeVaultBlob r = Inr bs" "f1 = write_blob sn True bs f"
    using assms(2) by (auto simp: put_blob_def split: sum.splits if_splits)
  have "decodeVaultBlob bs = Inr r" "R r"
    using assms(3) [OF r(1)] decode_encode_fits r(2) by auto
  then show ?thesis
    using assms(1) by (auto simp: r(3) rotating_def file_opens_def write_blob_def split: option.splits)
qed

lemma rotate_guarded_cases:
  assumes "rotate_guarded K C ok k' password rotated f = (went, f')"
  obtains "f' = f" "\<not> went"
  | e where "put_blob (ok RSnapshot) (ok RWrite) rotated f = Inl e" "f' = file_after (ok RSnapshot) (ok RWrite) rotated f" "\<not> went"
  | f1 e where "put_blob (ok RSnapshot) (ok RWrite) rotated f = Inr f1" "readDecodedBlob (ok RReadBack) f1 = (Inl e, f')" "\<not> went"
  | f1 w where "put_blob (ok RSnapshot) (ok RWrite) rotated f = Inr f1" "readDecodedBlob (ok RReadBack) f1 = (Inr w, f')"
      "went \<longrightarrow> \<not> isl (decrypt_outer (sc_aead K) (Some k') w)"
proof (cases "ok RSeal \<and> ok RWrapPassword \<and> ok RWrapRecovery")
  case False
  then show thesis using assms that(1) by (simp add: rotate_guarded_def)
next
  case True
  show thesis
  proof (cases "put_blob (ok RSnapshot) (ok RWrite) rotated f")
    case (Inl e)
    then show thesis using assms True that(2) [OF Inl] by (simp add: rotate_guarded_def)
  next
    case (Inr f1)
    obtain x f2 where x: "readDecodedBlob (ok RReadBack) f1 = (x, f2)" by force
    show thesis
      using assms True Inr x that(3) [OF Inr] that(4) [OF Inr] by (cases x) (simp_all add: rotate_guarded_def, blast)
  qed
qed

lemma guarded_rotation:
  assumes "slot_crypto_ok K" "file_opens K C k' f" "decodeVaultBlob (live f) = Inr b"
    and "rotate_guarded K C ok k' password (rotated_blob K C k' n1 n2 n3 password code p b) f = (went, f')"
  shows "rotating K C k' (holds_rotated K C k' n1 n2 n3 password code p) f'"
    and "went \<Longrightarrow> (case decodeVaultBlob (live f') of Inl _ \<Rightarrow> False | Inr r \<Rightarrow> holds_rotated K C k' n1 n2 n3 password code p r)"
proof -
  let ?R = "holds_rotated K C k' n1 n2 n3 password code p"
  let ?r = "rotated_blob K C k' n1 n2 n3 password code p b"
  have good: "rotating K C k' ?R f1" if "put_blob (ok RSnapshot) (ok RWrite) ?r f = Inr f1" for f1
    by (rule put_rotating [OF assms(2) that], rule conjI [OF rotated_blob_fits [OF assms(1) decoded_fits [OF assms(3)]] rotated_blob_holds])
  have fails: "rotating K C k' ?R (file_after (ok RSnapshot) (ok RWrite) ?r f)"
    if "put_blob (ok RSnapshot) (ok RWrite) ?r f = Inl e" for e
    using put_refused [OF assms(2) that] by (rule file_opens_rotating)
  have old: "rotating K C k' ?R f"
    using assms(2) by (rule file_opens_rotating)
  have both: "rotating K C k' ?R f' \<and> (went \<longrightarrow> (\<exists>w. decodeVaultBlob (live f') = Inr w \<and> \<not> isl (decrypt_outer (sc_aead K) (Some k') w)))"
    using assms(4)
  proof (cases rule: rotate_guarded_cases)
    case 1 then show ?thesis using old by simp
  next
    case (2 e) then show ?thesis using fails by simp
  next
    case (3 f1 e) then show ?thesis using rotating_read [OF good] by blast
  next
    case (4 f1 w) then show ?thesis using rotating_read [OF good] read_decodes by blast
  qed
  then show "rotating K C k' ?R f'" by blast
  show "case decodeVaultBlob (live f') of Inl _ \<Rightarrow> False | Inr r \<Rightarrow> ?R r" if yes: went
  proof -
    obtain w where w: "decodeVaultBlob (live f') = Inr w" "\<not> isl (decrypt_outer (sc_aead K) (Some k') w)"
      using both yes by blast
    then have "\<not> openable K C k' (live f')"
      using openable_other_key [OF assms(1)] by blast
    with both show ?thesis by (simp add: rotating_def)
  qed
qed

lemma rotating_unlocks:
  assumes "slot_crypto_ok K" "codec_ok C" "rotating K C k' (holds_rotated K C k' n1 n2 n3 password code p) (vs_file s)"
  shows "\<exists>pw. fst (unlock K C (\<lambda>_. True) backup_store pw s) = Inr ()"
proof (cases "openable K C k' (live (vs_file s))")
  case True
  then show ?thesis by (rule openable_unlocks)
next
  case False
  then obtain r where "decodeVaultBlob (live (vs_file s)) = Inr r" "holds_rotated K C k' n1 n2 n3 password code p r"
    using assms(3) by (auto simp: rotating_def split: sum.splits)
  from holds_rotated_opens(1) [OF assms(1,2) this(2,1)] show ?thesis by (metis fst_conv)
qed

lemma load_file: "loadEntries K C ok bk key f = (r, f') \<Longrightarrow> rotating K' C' k' R f \<Longrightarrow> rotating K' C' k' R f'"
  by (auto simp: loadEntries_def decryptEntriesOrRecover_def Let_def intro: rotating_restored rotating_read split: prod.splits sum.splits option.splits if_splits)

lemma refresh_rotating: "rotating K C k' R f \<Longrightarrow> rotating K C k' R (refresh_rotated K C ok backup_store k' f)"
  unfolding refresh_rotated_def refreshSlotMetadata_def by (metis load_file rotating_read surjective_pairing)

lemma refresh_keeps:
  assumes "decodeVaultBlob (live f) = Inr b" "\<not> isl (decrypt_outer (sc_aead K) (Some k') b)" "ok RRefresh" "ok RReload"
  shows "refresh_rotated K C ok backup_store k' f = f"
  using assms
  by (auto simp: refresh_rotated_def refreshSlotMetadata_def read_live loadEntries_def decryptEntriesOrRecover_def
      split: sum.splits option.splits if_splits)

lemma read_error: "readDecodedBlob reads f = (Inl e, f') \<Longrightarrow> e = Unreadable"
  by (auto simp: readDecodedBlob_def decode_live_def split: sum.splits if_splits)

lemma verify_session:
  assumes "file_opens K C k' (vs_file s)" "verifyMasterPassword K reads verifies password s = (v, s1)"
  shows "file_opens K C k' (vs_file s1) \<and> vs_key s1 = vs_key s \<and> v \<noteq> Inl RotationFailed"
  using assms read_opens read_error unfolding verifyMasterPassword_def
  by (fastforce split: prod.splits sum.splits option.splits if_splits)

lemma rotateSecret_cases:
  assumes "rotateSecret K C ok backup_store k' n1 n2 n3 password rnd p s = (r, s')" "file_opens K C k' (vs_file s)"
  obtains (early) e where "r = Inl e" "e \<noteq> RotationFailed" "vs_key s' = vs_key s" "file_opens K C k' (vs_file s')"
  | (ran) f b went f' where "file_opens K C k' f" "decodeVaultBlob (live f) = Inr b"
      "rotate_guarded K C ok k' password (rotated_blob K C k' n1 n2 n3 password (generateRecoveryCode rnd) p b) f = (went, f')"
      "went \<Longrightarrow> r = Inr (generateRecoveryCode rnd) \<and> vs_file s' = refresh_rotated K C ok backup_store k' f' \<and> vs_key s' = Some k'"
      "\<not> went \<Longrightarrow> r = Inl RotationFailed \<and> vs_file s' = (if ok RRestore then restoreVaultFromBackup f' else f') \<and>
         vs_key s' = (if ok RLock then None else Some k')"
proof (cases "vs_key s")
  case None
  then show thesis using assms early [of NotUnlocked] by (auto simp: rotateSecret_def)
next
  case (Some k)
  obtain v s1 where v: "verifyMasterPassword K (ok RVerifyRead) (ok RVerify) password s = (v, s1)" by force
  have s1: "file_opens K C k' (vs_file s1)" "vs_key s1 = vs_key s" "v \<noteq> Inl RotationFailed"
    using verify_session [OF assms(2) v] by auto
  show thesis
  proof (cases "v = Inr True")
    case False
    then show thesis using assms(1) Some v s1 early by (cases v) (auto simp: rotateSecret_def)
  next
    case True
    obtain x f where x: "readDecodedBlob (ok RRead) (vs_file s1) = (x, f)" by force
    have f: "file_opens K C k' f" using read_opens [OF s1(1) x] .
    show thesis
    proof (cases x)
      case (Inl e)
      then show thesis using assms(1) Some v True x f s1 early read_error [OF x [unfolded Inl]] by (auto simp: rotateSecret_def)
    next
      case (Inr b)
      have b: "decodeVaultBlob (live f) = Inr b" using read_decodes x Inr by simp
      obtain went f' where g: "rotate_guarded K C ok k' password (rotated_blob K C k' n1 n2 n3 password (generateRecoveryCode rnd) p b) f = (went, f')" by force
      show thesis
      proof (cases "ok RRotate")
        case False
        then show thesis using assms(1) Some v True x Inr f s1 early by (auto simp: rotateSecret_def)
      next
        case rot: True
        show thesis
          by (rule ran [OF f b g]) (use assms(1) Some v True x Inr rot g in \<open>auto simp: rotateSecret_def\<close>)
      qed
    qed
  qed
qed

subsection \<open>A concrete key wrapping\<close>

text \<open>It checks the length of the secret and keeps the key's byte.\<close>

definition sample_slot_crypto :: "u8 slot_crypto" where
  "sample_slot_crypto = \<lparr>sc_aead = sample_aead,
     sc_wrap = (\<lambda>k n x. \<lparr>slotId = replicate 16 (word_of_nat n), salt = replicate 16 0,
       verifier = word_of_nat (length x) # replicate 31 0, wrapIv = replicate 12 0, wrappedVek = k # replicate 47 0\<rparr>),
     sc_unwrap = (\<lambda>x f. if hd (verifier f) = word_of_nat (length x) then Some (hd (wrappedVek f)) else None),
     sc_unwrapKey = (\<lambda>x f. if verifier f = x then Some (hd (wrappedVek f)) else None),
     sc_verify = (\<lambda>x f. hd (verifier f) = word_of_nat (length x))\<rparr>"

lemma sample_slot_crypto_ok: "slot_crypto_ok sample_slot_crypto"
  by (simp add: slot_crypto_ok_def sample_slot_crypto_def sample_aead_ok slot_fits_def key_fields_schema_def len_defs kind_defs
      encodePasswordPayload_def)

definition sample_vault_bytes :: "u8 \<Rightarrow> string \<Rightarrow> bytes" where
  "sample_vault_bytes k password =
     (case createVault sample_slot_crypto sample_codec k 0 1 2 password [] of Inl _ \<Rightarrow> [] | Inr (_, bs) \<Rightarrow> bs)"

definition sample_session :: "u8 vault_session" where
  "sample_session = \<lparr>vs_file = \<lparr>live = sample_vault_bytes 5 ''abc'', snapshot = Some (sample_vault_bytes 5 ''old'')\<rparr>,
     vs_key = Some 5, vs_locked = False\<rparr>"

text \<open>A vault just created opens under its password.\<close>

lemma created_opens:
  assumes "slot_crypto_ok K" "codec_ok C" "k \<noteq> k'"
  shows "\<exists>bs. createVault K C k n1 n2 n3 password rnd = Inr (generateRecoveryCode rnd, bs) \<and> openable K C k' bs"
proof -
  let ?ss = "[PasswordSlot (sc_wrap K k n1 password), RecoverySlot (sc_wrap K k n2 (normalizeRecoveryCode (generateRecoveryCode rnd)))]"
  let ?b = "\<lparr>slots = ?ss, entriesIv = replicate 12 0, entriesCiphertext = []\<rparr>"
  let ?w = "\<lparr>slots = ?ss, entriesIv = fst (seal (sc_aead K) k n3 (encodeEntriesPayload C emptyEntriesPayload)),
    entriesCiphertext = snd (seal (sc_aead K) k n3 (encodeEntriesPayload C emptyEntriesPayload))\<rparr>"
  have "blob_fits ?b"
    using assms(1) by (auto simp: slot_crypto_ok_def blob_fits_def blob_schema_def slot_fits_def MAX_SLOTS_def len_defs)
  then obtain bs where bs: "createVault K C k n1 n2 n3 password rnd = Inr (generateRecoveryCode rnd, bs)" "decodeVaultBlob bs = Inr ?w"
    using seal_into_fits [of "sc_aead K" ?b C k n3 emptyEntriesPayload] assms(1)
    by (auto simp: createVault_def buildVaultBytes_def slot_crypto_ok_def)
  have "sealed_by (sc_aead K) k ?w" "\<not> isl (payload_in (sc_aead K) C (Some k) ?w)"
    using assms(1,2) by (auto simp: sealed_by_def payload_in_def decrypt_outer_eq slot_crypto_ok_def aead_ok_def codec_ok_def)
  moreover have "findPasswordSlot ?w = Some (sc_wrap K k n1 password)" "sc_unwrap K password (sc_wrap K k n1 password) = Some k"
    using assms(1) by (auto simp: findPasswordSlot_def slot_crypto_ok_def)
  ultimately have "openable K C k' bs"
    using bs(2) assms(3) unfolding openable_def by blast
  with bs(1) show ?thesis by blast
qed

lemma sample_bytes_open: "openable sample_slot_crypto sample_codec 9 (sample_vault_bytes 5 password)"
proof -
  obtain bs where "createVault sample_slot_crypto sample_codec 5 0 1 2 password [] = Inr (generateRecoveryCode [], bs)"
    "openable sample_slot_crypto sample_codec 9 bs"
    using created_opens [OF sample_slot_crypto_ok sample_codec_ok, of 5 9 0 1 2 password "[]"] by auto
  then show ?thesis unfolding sample_vault_bytes_def by simp
qed

lemma sample_session_opens: "file_opens sample_slot_crypto sample_codec 9 (vs_file sample_session)"
  unfolding file_opens_def sample_session_def using sample_bytes_open by simp

subsection \<open>Single changes\<close>

text \<open>A full vault without a recovery code cannot be rotated, and trying undoes its last write: the refusal comes
  before anything is written, and the snapshot is restored all the same.\<close>

lemma full_vault_rotation_reverts:
  assumes "vs_key s = Some k" "decodeVaultBlob (live (vs_file s)) = Inr b" "findPasswordSlot b = Some f" "sc_verify K password f"
    and "count_kind SLOT_KIND_PASSWORD (slots b) = 1" "findRecoverySlots b = []" "length (slots b) = MAX_SLOTS"
    and "snapshot (vs_file s) = Some bs"
  shows "rotateSecret K C (\<lambda>_. True) backup_store k' n1 n2 n3 password rnd p s =
    (Inl RotationFailed, s\<lparr>vs_file := (vs_file s)\<lparr>live := bs\<rparr>, vs_key := None, vs_locked := True\<rparr>)"
proof -
  let ?others = "filter (\<lambda>s. slot_kind s \<noteq> SLOT_KIND_PASSWORD) (slots b)"
  have "length ?others + 1 = MAX_SLOTS"
    using assms(5,7) sum_length_filter_compl [of "\<lambda>s. slot_kind s = SLOT_KIND_PASSWORD" "slots b"] by (simp add: count_kind_def)
  moreover have "filter (\<lambda>s. slot_kind s \<noteq> SLOT_KIND_RECOVERY) ?others = ?others"
    using assms(6) by (auto simp: findRecoverySlots_def filter_empty_conv intro!: filter_cong)
  ultimately have "rotated_blob K C k' n1 n2 n3 password (generateRecoveryCode rnd) p b = Inl SlotLimit"
    by (simp add: rotated_blob_def slot_op_defs kind_defs)
  then have "rotate_guarded K C (\<lambda>_. True) k' password (rotated_blob K C k' n1 n2 n3 password (generateRecoveryCode rnd) p b) (vs_file s) = (False, vs_file s)"
    by (simp add: rotate_guarded_def put_blob_def file_after_def)
  then show ?thesis
    using assms(1-4,8)
    by (simp add: rotateSecret_def verifyMasterPassword_def read_live restoreVaultFromBackup_def)
qed

text \<open>A rotation that went through is undone when the read that refreshes the view throws: the snapshot, which still
  holds the old key, comes back, and the new recovery code is returned all the same.\<close>

lemma failed_refresh_undoes_rotation:
  assumes "vs_key s = Some k" "decodeVaultBlob (live (vs_file s)) = Inr b" "findPasswordSlot b = Some f" "sc_verify K password f"
    and "rotated_blob K C k' n1 n2 n3 password (generateRecoveryCode rnd) p b = Inr r" "slot_crypto_ok K"
  shows "\<exists>s'. rotateSecret K C (\<lambda>step. step \<noteq> RRefresh) False k' n1 n2 n3 password rnd p s = (Inr (generateRecoveryCode rnd), s') \<and>
    live (vs_file s') = live (vs_file s)"
proof -
  let ?ok = "\<lambda>step. step \<noteq> RRefresh"
  obtain bs where bs: "encodeVaultBlob r = Inr bs" "decodeVaultBlob bs = Inr r"
    using rotated_blob_fits [OF assms(6) decoded_fits [OF assms(2)] assms(5)] encode_fits decode_encode_fits by metis
  have h: "findPasswordSlot r = Some (sc_wrap K k' n1 password)" "\<not> isl (decrypt_outer (sc_aead K) (Some k') r)"
    using rotated_blob_holds [OF assms(5)] holds_rotated_decrypts [OF assms(6) rotated_blob_holds [OF assms(5)]]
    by (simp_all add: holds_rotated_def)
  have g: "rotate_guarded K C ?ok k' password (Inr r) (vs_file s) = (True, writeVaultBlob bs (vs_file s))"
    using assms(6) bs h by (simp add: rotate_guarded_def put_blob_def write_blob_all read_live writeVaultBlob_def slot_crypto_ok_def)
  have "live (refresh_rotated K C ?ok False k' (writeVaultBlob bs (vs_file s))) = live (vs_file s)"
    using assms(2) by (auto simp: refresh_rotated_def refreshSlotMetadata_def readDecodedBlob_def writeVaultBlob_def
        restoreVaultFromBackup_def decode_live_def loadEntries_def decryptEntriesOrRecover_def split: sum.splits option.splits)
  with assms(1-5) g show ?thesis
    by (simp add: rotateSecret_def verifyMasterPassword_def read_live)
qed

text \<open>A new master password opens the same key and entries, when the reads around it do not throw.\<close>

lemma changed_password_opens:
  assumes "slot_crypto_ok K" "decodeVaultBlob (live (vs_file s)) = Inr b" "payload_in (sc_aead K) C (Some k) b = Inr p"
    and "ok PwRead" "ok PwReadBack" "ok PwRefresh" "writeMasterPasswordSlot K ok n password k (vs_file s) = (Inr (), f')"
  shows "unlock K C (\<lambda>_. True) backup_store password (s\<lparr>vs_file := f'\<rparr>) = (Inr (), s\<lparr>vs_file := f', vs_key := Some k, vs_locked := False\<rparr>) \<and>
    readEntriesPayload (sc_aead K) C (Some k) f' = Inr p"
proof -
  obtain r bs where r: "upsertPasswordSlot b (sc_wrap K k n password) = Inr r" "encodeVaultBlob r = Inr bs"
    using assms(2,4,7)
    by (auto simp: writeMasterPasswordSlot_def read_live put_blob_def Let_def split: if_splits sum.splits prod.splits)
  have rp: "blob_fits r" "entriesIv r = entriesIv b" "entriesCiphertext r = entriesCiphertext b"
      "findPasswordSlot r = Some (sc_wrap K k n password)"
    using r(1) assms(1) decoded_fits [OF assms(2)] findPasswordSlot_in_none [of "filter (\<lambda>s. slot_kind s \<noteq> SLOT_KIND_PASSWORD) (slots b)"]
    by (auto simp: slot_op_defs blob_fits_def blob_schema_def slot_fits_def slot_crypto_ok_def findPasswordSlot_def
        findPasswordSlot_in_append list_all_iff split: if_splits)
  have d: "decodeVaultBlob bs = Inr r" using decode_encode_fits [OF rp(1) r(2)] .
 have decrypt_same: "decrypt_outer (sc_aead K) (Some k) r = decrypt_outer (sc_aead K) (Some k) b"
    using rp(2,3) by (simp add: decrypt_outer_def)
  have payload: "payload_in (sc_aead K) C (Some k) r = Inr p"
    using assms(3) unfolding payload_in_def by (simp only: rp(3) decrypt_same)
  have "live f' = bs"
    using assms(2,4-7) r d
    by (auto simp: refreshSlotMetadata_def writeMasterPasswordSlot_def read_live put_blob_def Let_def write_blob_def split: if_splits)
  then show ?thesis
    using unlock_opens [of "s\<lparr>vs_file := f'\<rparr>" r "sc_wrap K k n password" K password k C] assms(1) rp(4) d payload
    by (simp add: readEntriesPayload_def slot_crypto_ok_def)
qed

text \<open>Entries written while the user taps a new security key are undone by its registration.\<close>

lemma key_registration_undoes_writes:
  assumes "decodeVaultBlob (live f) = Inr b" "slot_fits (WebauthnSlot cid kf)"
    and "registerWebauthnKey (Some k) True snaps True True (Some (cid, kf)) f between = Inr f'"
  shows "\<exists>b'. decodeVaultBlob (live f') = Inr b' \<and> entriesIv b' = entriesIv b \<and> entriesCiphertext b' = entriesCiphertext b"
proof -
  obtain r bs where r: "addWebauthnSlot b cid kf = Inr r" "encodeVaultBlob r = Inr bs" "f' = refreshSlotMetadata True (write_blob snaps True bs between)"
    using assms(1,3) by (auto simp: registerWebauthnKey_def read_live put_blob_def split: sum.splits)
  have "blob_fits r" "entriesIv r = entriesIv b" "entriesCiphertext r = entriesCiphertext b"
    using r(1) assms(2) decoded_fits [OF assms(1)]
    by (auto simp: slot_op_defs blob_fits_def blob_schema_def slot_fits_def split: if_splits)
  then show ?thesis
    using decode_encode_fits r by (auto simp: write_blob_def refreshSlotMetadata_def read_live)
qed

text \<open>An unlock whose entries do not load leaves the key loaded behind the lock screen.\<close>

lemma failed_load_leaves_key:
  assumes "decodeVaultBlob (live (vs_file s)) = Inr b" "findPasswordSlot b = Some f" "sc_unwrap K pw f = Some k"
    and "loadEntries K C ok backup_store (Some k) (vs_file s) = (Inl e, f')" "ok LRead"
  shows "unlock K C ok backup_store pw s = (Inl e, s\<lparr>vs_file := f', vs_key := Some k\<rparr>)"
  using assms by (simp add: unlock_def read_live finish_unlock_def)

subsection \<open>Properties\<close>

text \<open>Property C9: a key rotation never strands the vault. Whichever of its steps throw, from a file that some
  password opens (and so does its snapshot, when there is one): a rotation that reports success leaves a vault that the
  password and the new recovery code, in whatever case and spacing it is typed, each open under the fresh key, with exactly the entries held in memory; one that
  reports an error leaves a file some password still opens, and unless locking itself failed the fresh key, which that
  file may know nothing about, is no longer loaded.\<close>

theorem rotation_never_strands:
  assumes "slot_crypto_ok K" "codec_ok C" "file_opens K C k' (vs_file s)"
    and "rotateSecret K C ok backup_store k' n1 n2 n3 password rnd p s = (r, s')" "typed_as (generateRecoveryCode rnd) typed"
  shows "case r of
      Inr c \<Rightarrow> c = generateRecoveryCode rnd \<and> vs_key s' = Some k' \<and>
        (if ok RRefresh \<and> ok RReload
         then unlock K C (\<lambda>_. True) backup_store password s' = (Inr (), s'\<lparr>vs_key := Some k', vs_locked := False\<rparr>) \<and>
           unlockWithRecoveryCode K C (\<lambda>_. True) backup_store typed s' = (Inr (), s'\<lparr>vs_key := Some k', vs_locked := False\<rparr>) \<and>
           readEntriesPayload (sc_aead K) C (Some k') (vs_file s') = Inr p
         else \<exists>pw. fst (unlock K C (\<lambda>_. True) backup_store pw s') = Inr ())
    | Inl e \<Rightarrow> (\<exists>pw. fst (unlock K C (\<lambda>_. True) backup_store pw s') = Inr ()) \<and>
        vs_key s' = (if e \<noteq> RotationFailed then vs_key s else if ok RLock then None else Some k')"
  using assms(4,3)
proof (cases rule: rotateSecret_cases)
  case (early e)
  then show ?thesis using openable_unlocks by (auto simp: file_opens_def)
next
  case (ran f b went f')
  let ?R = "holds_rotated K C k' n1 n2 n3 password (generateRecoveryCode rnd) p"
  note g = guarded_rotation [OF assms(1) ran(1-3)]
  show ?thesis
  proof (cases went)
    case True
    note s' = ran(4) [OF True]
    from True obtain w where w: "decodeVaultBlob (live f') = Inr w" "?R w"
      using g(2) by (auto split: sum.splits)
    have same: "vs_file s' = f'" if "ok RRefresh" "ok RReload"
      using refresh_keeps [OF w(1) holds_rotated_decrypts [OF assms(1) w(2)] that] s' by simp
    have "\<exists>pw. fst (unlock K C (\<lambda>_. True) backup_store pw s') = Inr ()"
      by (rule rotating_unlocks [OF assms(1,2)]) (use refresh_rotating [OF g(1)] s' in simp)
    moreover have "decodeVaultBlob (live (vs_file s')) = Inr w" if "ok RRefresh" "ok RReload"
      using same [OF that] w(1) by simp
    ultimately show ?thesis
      using s' holds_rotated_opens [OF assms(1,2) w(2), of s'] typed_code_normalizes [OF assms(5)] by auto
  next
    case False
    then have "rotating K C k' ?R (vs_file s')"
      using ran(5) g(1) rotating_restored [OF g(1)] by simp
    then have "\<exists>pw. fst (unlock K C (\<lambda>_. True) backup_store pw s') = Inr ()"
      by (rule rotating_unlocks [OF assms(1,2)])
    with False ran(5) show ?thesis by simp
  qed
qed

theorem rotation_never_strands_witness:
  "\<exists>pw. fst (unlock sample_slot_crypto sample_codec (\<lambda>_. True) False pw (snd (rotateSecret sample_slot_crypto sample_codec
     (\<lambda>step. step \<noteq> RVerifyBack) False 9 3 4 5 ''abc'' [33] emptyEntriesPayload sample_session))) = Inr ()"
proof -
  obtain r s' where rot: "rotateSecret sample_slot_crypto sample_codec (\<lambda>step. step \<noteq> RVerifyBack) False 9 3 4 5 ''abc'' [33]
      emptyEntriesPayload sample_session = (r, s')"
    by force
  have typed: "typed_as (generateRecoveryCode [33]) ''-l''" by code_simp
  show ?thesis
    using rotation_never_strands [OF sample_slot_crypto_ok sample_codec_ok sample_session_opens rot typed] rot
    by (cases r) (auto intro: exI [of _ "''abc''"])
qed

end
