(* ===== verification/Biometric_Unlock.thy ===== *)
theory Biometric_Unlock
  imports Vault_Session
begin

text \<open>
  The biometric gate of the mobile app (\<open>packages/core/src/vault/biometric-unlock.ts\<close>, over the interface
  \<open>adapters/biometric.ts\<close>): a copy of the vault key behind the device's own prompt, one per vault. Arming it,
  re-arming it after an unlock, and the unlock with its recovery from a copy that no longer opens the vault.

  The operating system is the answers it gives: whether a write arms the gate, perhaps after its caller stopped
  waiting, and what the prompt ends in. The file and the session are those of \<open>Vault_Session\<close>.
\<close>

datatype biometric_code = Cancelled | Interrupted | Invalidated | Lockout | OtherCode

definition isBiometricInterrupted :: "biometric_code \<Rightarrow> bool" where "isBiometricInterrupted c \<longleftrightarrow> c = Interrupted"
definition isBiometricCancel :: "biometric_code \<Rightarrow> bool" where "isBiometricCancel c \<longleftrightarrow> c = Cancelled"
definition isBiometricInvalidated :: "biometric_code \<Rightarrow> bool" where "isBiometricInvalidated c \<longleftrightarrow> c = Invalidated"
definition isBiometricLockout :: "biometric_code \<Rightarrow> bool" where "isBiometricLockout c \<longleftrightarrow> c = Lockout"

text \<open>The gates: for a vault, the key held and whether the passcode opens it too.\<close>

type_synonym 'k gates = "string \<rightharpoonup> ('k \<times> bool)"

datatype arm_answer = Arms | ArmsLate | DoesNotArm

datatype biometric_error = NoKeyToCache | GateTimedOut | GateRefused | Prompt biometric_code | StaleBiometricCache

definition effectiveAllowPasscode :: "bool \<Rightarrow> bool \<Rightarrow> bool" where
  "effectiveAllowPasscode biometryEnrolled prefAllows \<longleftrightarrow> \<not> biometryEnrolled \<or> prefAllows"

text \<open>Only a silent write is bounded: where it prompts, a late answer is still awaited.\<close>

definition enableBiometricUnlock :: "bool \<Rightarrow> arm_answer \<Rightarrow> 'k option \<Rightarrow> string \<Rightarrow> bool \<Rightarrow> 'k gates \<Rightarrow> (biometric_error + unit) \<times> 'k gates" where
  "enableBiometricUnlock enableIsSilent answer key vaultId allowPasscode g =
     (case key of
        None \<Rightarrow> (Inl NoKeyToCache, g)
      | Some k \<Rightarrow>
          (case answer of
             Arms \<Rightarrow> (Inr (), g(vaultId \<mapsto> (k, allowPasscode)))
           | ArmsLate \<Rightarrow> (if enableIsSilent then Inl GateTimedOut else Inr (), g(vaultId \<mapsto> (k, allowPasscode)))
           | DoesNotArm \<Rightarrow> (Inl GateRefused, g)))"

definition reconcileBiometricGate :: "bool \<Rightarrow> arm_answer \<Rightarrow> 'k option \<Rightarrow> string \<Rightarrow> bool \<Rightarrow> 'k gates \<Rightarrow> (biometric_error + unit) \<times> 'k gates" where
  "reconcileBiometricGate enableIsSilent answer key vaultId allowPasscode g =
     (if \<not> enableIsSilent then (Inr (), g)
      else if g vaultId = None then (Inr (), g)
      else enableBiometricUnlock enableIsSilent answer key vaultId allowPasscode g)"

text \<open>The prompt: an error, or the key the gate holds.\<close>

definition prompt_key :: "biometric_code option \<Rightarrow> string \<Rightarrow> 'k gates \<Rightarrow> biometric_code + 'k" where
  "prompt_key failure vaultId g =
     (case failure of
        Some c \<Rightarrow> Inl c
      | None \<Rightarrow> (case g vaultId of None \<Rightarrow> Inl OtherCode | Some (k, _) \<Rightarrow> Inr k))"

definition retire_gate :: "bool \<Rightarrow> string \<Rightarrow> 'k gates \<Rightarrow> 'k gates" where
  "retire_gate disables vaultId g = (if disables then g(vaultId := None) else g)"

text \<open>\<open>locks\<close>, \<open>disables\<close>: those calls did not throw. The last result says whether \<open>onStaleCache\<close> was called.\<close>

definition biometricUnlockFlow :: "'k slot_crypto \<Rightarrow> 'v payload_codec \<Rightarrow> (load_step \<Rightarrow> bool) \<Rightarrow> bool \<Rightarrow> bool \<Rightarrow> bool \<Rightarrow>
   biometric_code option \<Rightarrow> string \<Rightarrow> 'k gates \<Rightarrow> 'k vault_session \<Rightarrow> (biometric_error + unit) \<times> 'k gates \<times> 'k vault_session \<times> bool" where
  "biometricUnlockFlow K C ok backup_store locks disables failure vaultId g s =
     (case prompt_key failure vaultId g of
        Inl c \<Rightarrow>
          if isBiometricInvalidated c then (Inl (Prompt c), retire_gate disables vaultId g, s, True)
          else (Inl (Prompt c), g, s, False)
      | Inr k \<Rightarrow>
          (case loadEntries K C ok backup_store (Some k) (vs_file s) of
             (Inr _, f) \<Rightarrow> (Inr (), g, s\<lparr>vs_file := f, vs_key := Some k, vs_locked := False\<rparr>, False)
           | (Inl _, f) \<Rightarrow>
               (Inl StaleBiometricCache, retire_gate disables vaultId g,
                s\<lparr>vs_file := f, vs_key := (if locks then None else Some k)\<rparr>, True)))"

subsection \<open>Facts\<close>

text \<open>Reconciling never arms a gate a vault did not have, touches no other vault's and does nothing where it would prompt.\<close>

lemma reconcile_creates_no_gate:
  assumes "reconcileBiometricGate silent answer key v allowPasscode g = (r, g')"
  shows "dom g' = dom g \<and> (w \<noteq> v \<longrightarrow> g' w = g w) \<and> (\<not> silent \<longrightarrow> g' = g)"
  using assms
  by (auto simp: reconcileBiometricGate_def enableBiometricUnlock_def split: if_splits option.splits arm_answer.splits)

text \<open>A biometric unlock ends with the entries loaded under the key the gate holds, or with no key more than before
  unless locking itself failed; only a gate that was invalidated or whose key failed to load the entries is retired.\<close>

lemma biometric_unlock_outcome:
  assumes "biometricUnlockFlow K C ok backup_store True True failure v g s = (r, g', s', stale)"
  shows "case r of
      Inr _ \<Rightarrow> (\<exists>k b p. g v = Some (k, b) \<and> vs_key s' = Some k \<and> fst (loadEntries K C ok backup_store (Some k) (vs_file s)) = Inr p) \<and> g' = g \<and> \<not> stale
    | Inl e \<Rightarrow> vs_locked s' = vs_locked s \<and> (vs_key s' = vs_key s \<or> vs_key s' = None) \<and>
        (if stale then g' = g(v := None) \<and> (failure = Some Invalidated \<or> e = StaleBiometricCache) else g' = g)"
  using assms
  by (auto simp: biometricUnlockFlow_def prompt_key_def retire_gate_def isBiometricInvalidated_def
      split: option.splits sum.splits if_splits prod.splits)

text \<open>The load is retired as a stale key whatever it failed of: a file that could not be read once costs the user the gate,
  although its key is the right one.\<close>

lemma unreadable_file_retires_gate:
  assumes "snapshot (vs_file s) = None" "g v = Some (k, b)" "\<not> ok LLoadRead"
  shows "biometricUnlockFlow K C ok backup_store True True None v g s = (Inl StaleBiometricCache, g(v := None), s\<lparr>vs_key := None\<rparr>, True)"
  using assms by (simp add: biometricUnlockFlow_def prompt_key_def retire_gate_def loadEntries_def readDecodedBlob_def)

end
