(* ===== verification/Vault_Storage.thy ===== *)
theory Vault_Storage
  imports Entries_Blob
begin

text \<open>
  Where the extension keeps its vaults (\<open>platform-extension/src/storage.ts\<close>), over the registry of vaults
  (\<open>packages/core/src/vault/vault-registry.ts\<close>) and the per-vault sync keys (\<open>sync/sync-keys.ts\<close>).

  \<open>chrome.storage.local\<close> is a map from keys to values shared by all contexts of the extension; each call to it is
  one step. A value is a string (base64 bytes, or a sync value) or what a registry may hold: records that validate
  or not, and the retired \<open>legacyBlobVaultId\<close>. A vault from before the local store is a file handle, which the first
  read copies.
\<close>

subsection \<open>The registry\<close>

record vault_record =
  vr_id :: string
  vr_label :: string
  vr_createdAt :: nat

definition VAULT_REGISTRY_KEY :: string where
  "VAULT_REGISTRY_KEY = ''vault.registry''"

text \<open>\<open>VReg rs l\<close>: an object whose records are \<open>rs\<close> when they validate, with \<open>l\<close> as its retired field.\<close>

datatype sval = VStr string | VReg "vault_record list option" "string option"

type_synonym local_store = "string \<rightharpoonup> sval"

definition parseRegistry :: "sval option \<Rightarrow> vault_record list" where
  "parseRegistry raw = (case raw of Some (VReg (Some rs) _) \<Rightarrow> rs | _ \<Rightarrow> [])"

definition addVault :: "vault_record list \<Rightarrow> vault_record \<Rightarrow> vault_record list option" where
  "addVault reg r = (if list_ex (\<lambda>v. vr_id v = vr_id r) reg then None else Some (reg @ [r]))"

definition removeVault :: "vault_record list \<Rightarrow> string \<Rightarrow> vault_record list" where
  "removeVault reg i = filter (\<lambda>v. vr_id v \<noteq> i) reg"

definition renameVault :: "vault_record list \<Rightarrow> string \<Rightarrow> string \<Rightarrow> vault_record list" where
  "renameVault reg i l = map (\<lambda>v. if vr_id v = i then v\<lparr>vr_label := l\<rparr> else v) reg"

definition findVault :: "vault_record list \<Rightarrow> string \<Rightarrow> vault_record option" where
  "findVault reg i = find (\<lambda>v. vr_id v = i) reg"

definition displayLabel :: "string \<Rightarrow> nat \<Rightarrow> string" where
  "displayLabel l index = (let trimmed = trim l in if trimmed \<noteq> [] then trimmed else ''Vault '' @ dec (index + 1))"

subsection \<open>Keys\<close>

definition VAULT_BLOB_KEY :: string where "VAULT_BLOB_KEY = ''vault-blob-b64''"
definition VAULT_BLOB_BACKUP_KEY :: string where "VAULT_BLOB_BACKUP_KEY = ''vault-blob-backup-b64''"

definition PER_VAULT_SYNC_KEYS :: "string list" where
  "PER_VAULT_SYNC_KEYS = [''sync.group'', ''sync.lastSyncedAt'', ''sync.deviceId'', ''sync.deviceKeypair'', ''sync.signingKey'']"

definition syncKeyFor :: "string \<Rightarrow> string \<Rightarrow> string" where
  "syncKeyFor flatKey vaultId = flatKey @ '':'' @ vaultId"

definition blobKeyFor :: "string \<Rightarrow> string" where
  "blobKeyFor i = VAULT_BLOB_KEY @ '':'' @ i"

definition backupKeyFor :: "string \<Rightarrow> string" where
  "backupKeyFor i = VAULT_BLOB_BACKUP_KEY @ '':'' @ i"

definition isVaultBlobKey :: "string \<Rightarrow> bool" where
  "isVaultBlobKey k \<longleftrightarrow> k = VAULT_BLOB_KEY \<or> take (length VAULT_BLOB_KEY + 1) k = VAULT_BLOB_KEY @ '':''"

definition FLAT_KEYS :: "string list" where
  "FLAT_KEYS = VAULT_BLOB_KEY # VAULT_BLOB_BACKUP_KEY # PER_VAULT_SYNC_KEYS"

datatype storage_error = NoVault | PermissionDenied | BadBytes

definition blobAt :: "string \<Rightarrow> local_store \<Rightarrow> storage_error + bytes option" where
  "blobAt k st =
     (case st k of
        Some (VStr b) \<Rightarrow> if b = [] then Inr None else (case base64ToBytes b of None \<Rightarrow> Inl BadBytes | Some bs \<Rightarrow> Inr (Some bs))
      | _ \<Rightarrow> Inr None)"

text \<open>What can be read at a key.\<close>

definition bytes_at :: "string \<Rightarrow> local_store \<Rightarrow> bytes option" where
  "bytes_at k st = (case blobAt k st of Inl _ \<Rightarrow> None | Inr r \<Rightarrow> r)"

definition set_all :: "(string \<times> sval) list \<Rightarrow> local_store \<Rightarrow> local_store" where
  "set_all ws st = st ++ map_of ws"

definition remove_all :: "string list \<Rightarrow> local_store \<Rightarrow> local_store" where
  "remove_all ks st = (\<lambda>k. if k \<in> set ks then None else st k)"

definition readRegistry :: "local_store \<Rightarrow> vault_record list" where
  "readRegistry st = parseRegistry (st VAULT_REGISTRY_KEY)"

definition writeRegistry :: "vault_record list \<Rightarrow> local_store \<Rightarrow> local_store" where
  "writeRegistry reg st = st(VAULT_REGISTRY_KEY \<mapsto> VReg (Some reg) None)"

definition registryExists :: "local_store \<Rightarrow> bool" where
  "registryExists st \<longleftrightarrow> st VAULT_REGISTRY_KEY \<noteq> None"

subsection \<open>The migration, one storage call at a time\<close>

text \<open>\<open>copyFlatVaultToNamespaced\<close> in its two calls: the values read, and the writes they become.\<close>

definition flat_values :: "local_store \<Rightarrow> (string \<times> sval) list" where
  "flat_values st = List.map_filter (\<lambda>k. map_option (Pair k) (st k)) FLAT_KEYS"

definition namespaced_writes :: "string \<Rightarrow> (string \<times> sval) list \<Rightarrow> (string \<times> sval) list" where
  "namespaced_writes i ws = map (\<lambda>(k, v). (syncKeyFor k i, v)) ws"

definition deleteFlatVaultKeys :: "local_store \<Rightarrow> local_store" where
  "deleteFlatVaultKeys st = remove_all FLAT_KEYS st"

definition has_vault_data :: "string \<Rightarrow> local_store \<Rightarrow> bool" where
  "has_vault_data i st \<longleftrightarrow>
     list_ex (\<lambda>k. st k \<noteq> None) [blobKeyFor i, backupKeyFor i, syncKeyFor ''sync.group'' i]"

text \<open>Where a context's migration is. Crashing is not being scheduled any more.\<close>

datatype mig =
    MStart
  | MLegacyRead "vault_record list" string
  | MLegacyWrite "vault_record list" string "(string \<times> sval) list"
  | MLegacyCut "vault_record list"
  | MLegacyDelete
  | MLocal
  | MHandle
  | MEmptyCheck
  | MEmptyWrite
  | MNewRead
  | MNewWrite "(string \<times> sval) list"
  | MNewCheck
  | MNewDrop
  | MNewCut
  | MNewDelete
  | MReap
  | MReapScan "vault_record list" "vault_record list" "vault_record list"
  | MReapHandle "vault_record list"
  | MReapWrite "vault_record list"
  | MDone
  | MFailed

text \<open>\<open>handle\<close>: a legacy file handle is stored; \<open>new_id\<close> and \<open>now\<close>: the uuid and the time of this context's record.\<close>

fun mig_step :: "bool \<Rightarrow> string \<Rightarrow> nat \<Rightarrow> mig \<Rightarrow> local_store \<Rightarrow> mig \<times> local_store" where
  "mig_step handle new_id now MStart st =
     ((case st VAULT_REGISTRY_KEY of
         None \<Rightarrow> MLocal
       | Some (VReg _ (Some flatId)) \<Rightarrow> MLegacyRead (parseRegistry (st VAULT_REGISTRY_KEY)) flatId
       | Some _ \<Rightarrow> MReap), st)"
| "mig_step handle new_id now (MLegacyRead reg flatId) st = (MLegacyWrite reg flatId (flat_values st), st)"
| "mig_step handle new_id now (MLegacyWrite reg flatId ws) st = (MLegacyCut reg, set_all (namespaced_writes flatId ws) st)"
| "mig_step handle new_id now (MLegacyCut reg) st = (MLegacyDelete, writeRegistry reg st)"
| "mig_step handle new_id now MLegacyDelete st = (MReap, deleteFlatVaultKeys st)"
| "mig_step handle new_id now MLocal st =
     ((case blobAt VAULT_BLOB_KEY st of Inl _ \<Rightarrow> MFailed | Inr None \<Rightarrow> MHandle | Inr (Some _) \<Rightarrow> MNewRead), st)"
| "mig_step handle new_id now MHandle st = (if handle then MNewRead else MEmptyCheck, st)"
| "mig_step handle new_id now MEmptyCheck st = (if registryExists st then MReap else MEmptyWrite, st)"
| "mig_step handle new_id now MEmptyWrite st = (MReap, writeRegistry [] st)"
| "mig_step handle new_id now MNewRead st = (MNewWrite (flat_values st), st)"
| "mig_step handle new_id now (MNewWrite ws) st = (MNewCheck, set_all (namespaced_writes new_id ws) st)"
| "mig_step handle new_id now MNewCheck st = (if registryExists st then MNewDrop else MNewCut, st)"
| "mig_step handle new_id now MNewDrop st = (MReap, remove_all (map (\<lambda>k. syncKeyFor k new_id) FLAT_KEYS) st)"
| "mig_step handle new_id now MNewCut st =
     (MNewDelete, writeRegistry [\<lparr>vr_id = new_id, vr_label = [], vr_createdAt = now\<rparr>] st)"
| "mig_step handle new_id now MNewDelete st = (MReap, deleteFlatVaultKeys st)"
| "mig_step handle new_id now MReap st =
     ((case readRegistry st of [] \<Rightarrow> MDone | v # vs \<Rightarrow> MReapScan (v # vs) (v # vs) []), st)"
| "mig_step handle new_id now (MReapScan reg (v # todo) kept) st =
     (MReapScan reg todo (if has_vault_data (vr_id v) st then kept @ [v] else kept), st)"
| "mig_step handle new_id now (MReapScan reg [] kept) st = (if length kept = length reg then MDone else MReapHandle kept, st)"
| "mig_step handle new_id now (MReapHandle kept) st = (if handle then MDone else MReapWrite kept, st)"
| "mig_step handle new_id now (MReapWrite kept) st = (MDone, writeRegistry kept st)"
| "mig_step handle new_id now MDone st = (MDone, st)"
| "mig_step handle new_id now MFailed st = (MFailed, st)"

text \<open>Any number of contexts, each with its own uuid, over one store; a schedule says whose call runs next.\<close>

record mig_system =
  ms_store :: local_store
  ms_at :: "nat \<Rightarrow> mig"

definition mig_turn :: "bool \<Rightarrow> (nat \<Rightarrow> string) \<Rightarrow> nat \<Rightarrow> nat \<Rightarrow> mig_system \<Rightarrow> mig_system" where
  "mig_turn handle uid now i s =
     (case mig_step handle (uid i) now (ms_at s i) (ms_store s) of
        (p, st) \<Rightarrow> \<lparr>ms_store = st, ms_at = (ms_at s)(i := p)\<rparr>)"

definition mig_run :: "bool \<Rightarrow> (nat \<Rightarrow> string) \<Rightarrow> (nat \<Rightarrow> nat) \<Rightarrow> nat list \<Rightarrow> mig_system \<Rightarrow> mig_system" where
  "mig_run handle uid now sched s = foldl (\<lambda>s i. mig_turn handle uid (now i) i s) s sched"

definition mig_init :: "local_store \<Rightarrow> mig_system" where
  "mig_init st = \<lparr>ms_store = st, ms_at = (\<lambda>_. MStart)\<rparr>"

subsection \<open>Reading and writing\<close>

text \<open>After the migration. \<open>handle\<close> is the legacy file when there is one, with whether the user grants reading it;
  \<open>snaps\<close>: taking the snapshot did not throw.\<close>

record ext_storage =
  es_store :: local_store
  es_handle :: "(bool \<times> bytes) option"

definition first_vault :: "local_store \<Rightarrow> string option" where
  "first_vault st = (case readRegistry st of [] \<Rightarrow> None | v # _ \<Rightarrow> Some (vr_id v))"

definition target_vault :: "string option \<Rightarrow> local_store \<Rightarrow> string option" where
  "target_vault vaultId st = (case vaultId of Some i \<Rightarrow> Some i | None \<Rightarrow> first_vault st)"

definition migrateLegacyVault :: "bool \<times> bytes \<Rightarrow> string \<Rightarrow> ext_storage \<Rightarrow> (storage_error + bytes) \<times> ext_storage" where
  "migrateLegacyVault h i s =
     (case h of (granted, bs) \<Rightarrow>
        if \<not> granted then (Inl PermissionDenied, s)
        else (Inr bs, \<lparr>es_store = (es_store s)(blobKeyFor i \<mapsto> VStr (bytesToBase64 bs)), es_handle = None\<rparr>))"

definition hasVaultHandle :: "string option \<Rightarrow> ext_storage \<Rightarrow> storage_error + bool" where
  "hasVaultHandle vaultId s =
     (case vaultId of
        Some i \<Rightarrow>
          (case blobAt (blobKeyFor i) (es_store s) of
             Inl e \<Rightarrow> Inl e
           | Inr (Some _) \<Rightarrow> Inr True
           | Inr None \<Rightarrow> Inr (first_vault (es_store s) = Some i \<and> es_handle s \<noteq> None))
      | None \<Rightarrow> Inr (readRegistry (es_store s) \<noteq> [] \<or> es_handle s \<noteq> None))"

definition ext_readVaultBlob :: "string option \<Rightarrow> ext_storage \<Rightarrow> (storage_error + bytes) \<times> ext_storage" where
  "ext_readVaultBlob vaultId s =
     (case target_vault vaultId (es_store s) of
        None \<Rightarrow> (Inl NoVault, s)
      | Some i \<Rightarrow>
          (case blobAt (blobKeyFor i) (es_store s) of
             Inl e \<Rightarrow> (Inl e, s)
           | Inr (Some bs) \<Rightarrow> (Inr bs, s)
           | Inr None \<Rightarrow>
               (case (first_vault (es_store s) = Some i, es_handle s) of
                  (True, Some h) \<Rightarrow> migrateLegacyVault h i s
                | _ \<Rightarrow> (Inl NoVault, s))))"

definition snapshotBlob :: "bool \<Rightarrow> string \<Rightarrow> string \<Rightarrow> local_store \<Rightarrow> local_store" where
  "snapshotBlob snaps k backupKey st =
     (if \<not> snaps then st
      else case blobAt k st of
          Inl _ \<Rightarrow> st
        | Inr None \<Rightarrow> st(backupKey := None)
        | Inr (Some existing) \<Rightarrow> st(backupKey \<mapsto> VStr (bytesToBase64 existing)))"

definition ext_writeVaultBlob :: "bool \<Rightarrow> bytes \<Rightarrow> string option \<Rightarrow> ext_storage \<Rightarrow> (storage_error + unit) \<times> ext_storage" where
  "ext_writeVaultBlob snaps blob vaultId s =
     (case target_vault vaultId (es_store s) of
        None \<Rightarrow> (Inl NoVault, s)
      | Some i \<Rightarrow>
          (Inr (), s\<lparr>es_store := (snapshotBlob snaps (blobKeyFor i) (backupKeyFor i) (es_store s))
                                   (blobKeyFor i \<mapsto> VStr (bytesToBase64 blob))\<rparr>))"

definition ext_restoreVaultFromBackup :: "string option \<Rightarrow> ext_storage \<Rightarrow> bool \<times> ext_storage" where
  "ext_restoreVaultFromBackup vaultId s =
     (case target_vault vaultId (es_store s) of
        None \<Rightarrow> (False, s)
      | Some i \<Rightarrow>
          (case es_store s (backupKeyFor i) of
             Some (VStr b64) \<Rightarrow>
               if b64 = [] then (False, s) else (True, s\<lparr>es_store := (es_store s)(blobKeyFor i \<mapsto> VStr b64)\<rparr>)
           | _ \<Rightarrow> (False, s)))"

definition ext_deleteVaultBlob :: "string \<Rightarrow> ext_storage \<Rightarrow> ext_storage" where
  "ext_deleteVaultBlob i s = s\<lparr>es_store := (es_store s)(blobKeyFor i := None, backupKeyFor i := None)\<rparr>"

definition getMeta :: "string \<Rightarrow> ext_storage \<Rightarrow> sval option" where
  "getMeta k s = es_store s k"

definition setMeta :: "string \<Rightarrow> sval \<Rightarrow> ext_storage \<Rightarrow> ext_storage" where
  "setMeta k v s = s\<lparr>es_store := (es_store s)(k \<mapsto> v)\<rparr>"

definition removeMeta :: "string \<Rightarrow> ext_storage \<Rightarrow> ext_storage" where
  "removeMeta k s = s\<lparr>es_store := (es_store s)(k := None)\<rparr>"

subsection \<open>Keys of different vaults\<close>

lemma keys_plain: "list_all (\<lambda>k. CHR '':'' \<notin> set k) (VAULT_REGISTRY_KEY # FLAT_KEYS)" "VAULT_REGISTRY_KEY \<notin> set FLAT_KEYS"
  by code_simp+

lemma flat_key_plain: "k \<in> set FLAT_KEYS \<Longrightarrow> CHR '':'' \<notin> set k"
  using keys_plain(1) by (simp add: list_all_iff)

lemma sync_key_colon: "CHR '':'' \<in> set (syncKeyFor k i)"
  by (simp add: syncKeyFor_def)

lemma sync_key_not_flat [simp]: "syncKeyFor k i \<notin> set FLAT_KEYS" "syncKeyFor k i \<noteq> VAULT_REGISTRY_KEY" "VAULT_REGISTRY_KEY \<noteq> syncKeyFor k i"
  using sync_key_colon [of k i] keys_plain(1) unfolding list_all_iff by auto

lemma takeWhile_plain: "c \<notin> set k \<Longrightarrow> takeWhile (\<lambda>x. x \<noteq> c) (k @ c # r) = k"
  by (induction k) auto

lemma sync_key_inj:
  assumes "k \<in> set FLAT_KEYS" "k' \<in> set FLAT_KEYS"
  shows "syncKeyFor k i = syncKeyFor k' i' \<longleftrightarrow> k = k' \<and> i = i'"
proof
  assume e: "syncKeyFor k i = syncKeyFor k' i'"
  have "takeWhile (\<lambda>x. x \<noteq> CHR '':'') (syncKeyFor k i) = k" "takeWhile (\<lambda>x. x \<noteq> CHR '':'') (syncKeyFor k' i') = k'"
    using takeWhile_plain [OF flat_key_plain [OF assms(1)], of i] takeWhile_plain [OF flat_key_plain [OF assms(2)], of i']
    by (simp_all add: syncKeyFor_def)
  with e have "k = k'" by simp
  with e show "k = k' \<and> i = i'" by (simp add: syncKeyFor_def)
qed simp

lemma map_of_flat_values: "k \<in> set FLAT_KEYS \<Longrightarrow> map_of (flat_values st) k = st k"
proof -
  have "map_of (List.map_filter (\<lambda>k. map_option (Pair k) (st k)) ks) k = (if k \<in> set ks then st k else None)" for ks
    by (induction ks) (auto simp: List.map_filter_simps split: option.splits)
  then show "k \<in> set FLAT_KEYS \<Longrightarrow> map_of (flat_values st) k = st k"
    by (simp add: flat_values_def)
qed

lemma flat_values_keys: "(k, v) \<in> set (flat_values st) \<Longrightarrow> k \<in> set FLAT_KEYS"
  by (auto simp: flat_values_def List.map_filter_def)

lemma map_of_namespaced: "map_of (namespaced_writes i ws) (syncKeyFor k i) = map_of ws k"
  by (induction ws) (auto simp: namespaced_writes_def syncKeyFor_def)

lemma map_of_namespaced_other:
  assumes "\<forall>k\<in>fst ` set ws. k \<in> set FLAT_KEYS" "k' \<in> set FLAT_KEYS" "i \<noteq> i'"
  shows "map_of (namespaced_writes i ws) (syncKeyFor k' i') = None"
  using assms by (auto simp: map_of_eq_None_iff namespaced_writes_def sync_key_inj)

lemma map_of_namespaced_plain:
  "k \<in> set FLAT_KEYS \<or> k = VAULT_REGISTRY_KEY \<Longrightarrow> map_of (namespaced_writes i ws) k = None"
  using keys_plain(1) sync_key_colon by (fastforce simp: map_of_eq_None_iff namespaced_writes_def list_all_iff)

subsection \<open>The migration keeps the vault\<close>

text \<open>The vault as it was before the migration is \<open>st0\<close>. \<open>copied\<close>: all of it is at the keys of \<open>i\<close>; \<open>unused\<close>: nothing is.\<close>

definition flat_kept :: "local_store \<Rightarrow> local_store \<Rightarrow> bool" where
  "flat_kept st0 st \<longleftrightarrow> list_all (\<lambda>k. st k = st0 k) FLAT_KEYS"

definition copied :: "local_store \<Rightarrow> string \<Rightarrow> local_store \<Rightarrow> bool" where
  "copied st0 i st \<longleftrightarrow> list_all (\<lambda>k. st (syncKeyFor k i) = st0 k) FLAT_KEYS"

definition unused :: "string \<Rightarrow> local_store \<Rightarrow> bool" where
  "unused i st \<longleftrightarrow> list_all (\<lambda>k. st (syncKeyFor k i) = None) FLAT_KEYS"

definition lists_only :: "vault_record \<Rightarrow> local_store \<Rightarrow> bool" where
  "lists_only r st \<longleftrightarrow> st VAULT_REGISTRY_KEY = Some (VReg (Some [r]) None)"

text \<open>What a context's position says of the store; \<open>R\<close> are the records that may be published.\<close>

fun mig_ok :: "local_store \<Rightarrow> vault_record set \<Rightarrow> string \<Rightarrow> local_store \<Rightarrow> mig \<Rightarrow> bool" where
  "mig_ok st0 R i st MStart \<longleftrightarrow> unused i st"
| "mig_ok st0 R i st MLocal \<longleftrightarrow> unused i st"
| "mig_ok st0 R i st MHandle \<longleftrightarrow> unused i st \<and> registryExists st"
| "mig_ok st0 R i st MEmptyCheck \<longleftrightarrow> registryExists st"
| "mig_ok st0 R i st MNewRead \<longleftrightarrow> unused i st"
| "mig_ok st0 R i st (MNewWrite ws) \<longleftrightarrow> unused i st \<and> fst ` set ws \<subseteq> set FLAT_KEYS \<and> (registryExists st \<or> ws = flat_values st0)"
| "mig_ok st0 R i st MNewCheck \<longleftrightarrow> registryExists st \<or> copied st0 i st"
| "mig_ok st0 R i st MNewDrop \<longleftrightarrow> registryExists st"
| "mig_ok st0 R i st MNewCut \<longleftrightarrow> copied st0 i st"
| "mig_ok st0 R i st MNewDelete \<longleftrightarrow> registryExists st"
| "mig_ok st0 R i st MReap \<longleftrightarrow> registryExists st"
| "mig_ok st0 R i st (MReapScan reg todo kept) \<longleftrightarrow> registryExists st \<and> kept @ todo = reg \<and> (\<exists>r\<in>R. reg = [r])"
| "mig_ok st0 R i st MDone \<longleftrightarrow> registryExists st"
| "mig_ok st0 R i st _ \<longleftrightarrow> False"

fun settled :: "mig \<Rightarrow> bool" where
  "settled MNewDelete = True"
| "settled MReap = True"
| "settled (MReapScan _ _ _) = True"
| "settled MDone = True"
| "settled _ = False"

text \<open>The records of contexts that are past their cutover with everything copied.\<close>

definition new_record :: "(nat \<Rightarrow> string) \<Rightarrow> (nat \<Rightarrow> nat) \<Rightarrow> nat \<Rightarrow> vault_record" where
  "new_record uid now i = \<lparr>vr_id = uid i, vr_label = [], vr_createdAt = now i\<rparr>"

definition publishable :: "local_store \<Rightarrow> (nat \<Rightarrow> string) \<Rightarrow> (nat \<Rightarrow> nat) \<Rightarrow> mig_system \<Rightarrow> vault_record set" where
  "publishable st0 uid now s = {new_record uid now i | i. settled (ms_at s i) \<and> copied st0 (uid i) (ms_store s)}"

definition flat_or_gone :: "local_store \<Rightarrow> local_store \<Rightarrow> bool" where
  "flat_or_gone st0 st \<longleftrightarrow> list_all (\<lambda>k. st k = st0 k \<or> st k = None) FLAT_KEYS"

definition mig_inv :: "local_store \<Rightarrow> (nat \<Rightarrow> string) \<Rightarrow> (nat \<Rightarrow> nat) \<Rightarrow> mig_system \<Rightarrow> bool" where
  "mig_inv st0 uid now s \<longleftrightarrow>
     (if registryExists (ms_store s) then \<exists>r\<in>publishable st0 uid now s. lists_only r (ms_store s) else flat_kept st0 (ms_store s)) \<and>
     flat_or_gone st0 (ms_store s) \<and>
     (\<forall>i. mig_ok st0 (publishable st0 uid now s) (uid i) (ms_store s) (ms_at s i))"

text \<open>A call of one context leaves the keys of every other id alone, and no call removes the registry.\<close>

lemma step_others:
  assumes "mig_step handle i n p st = (p', st')" "mig_ok st0 R i st p" "k \<in> set FLAT_KEYS" "j \<noteq> i"
  shows "st' (syncKeyFor k j) = st (syncKeyFor k j)"
  using assms
  by (cases "(handle, i, n, p, st)" rule: mig_step.cases)
    (auto simp: set_all_def map_add_def remove_all_def deleteFlatVaultKeys_def writeRegistry_def sync_key_inj
      map_of_namespaced_other image_subset_iff split: if_splits list.splits option.splits)

lemma step_registry:
  assumes "mig_step handle i n p st = (p', st')" "registryExists st"
  shows "registryExists st'"
  using assms keys_plain(2)
  by (cases "(handle, i, n, p, st)" rule: mig_step.cases)
    (auto simp: registryExists_def set_all_def map_add_def remove_all_def deleteFlatVaultKeys_def writeRegistry_def split: option.splits)

lemma mig_ok_mono:
  assumes "mig_ok st0 R i st p" "R \<subseteq> R'" "registryExists st \<Longrightarrow> registryExists st'"
    and "\<forall>k\<in>set FLAT_KEYS. st' (syncKeyFor k i) = st (syncKeyFor k i)"
  shows "mig_ok st0 R' i st' p"
proof -
  have "unused i st' \<longleftrightarrow> unused i st" "copied st0 i st' \<longleftrightarrow> copied st0 i st"
    using assms(4) by (auto simp: unused_def copied_def list_all_iff)
  with assms(1-3) show ?thesis by (cases p) auto
qed

lemma step_settled:
  assumes "mig_step handle i n p st = (p', st')" "mig_ok st0 R i st p" "settled p"
  shows "settled p' \<and> (\<forall>k\<in>set FLAT_KEYS. st' (syncKeyFor k i) = st (syncKeyFor k i))"
  using assms
  by (cases "(handle, i, n, p, st)" rule: mig_step.cases)
    (auto simp: remove_all_def deleteFlatVaultKeys_def split: if_splits list.splits)

lemma copied_has_data:
  assumes "copied st0 i st" "bytes_at VAULT_BLOB_KEY st0 \<noteq> None"
  shows "has_vault_data i st"
proof -
  have "st (blobKeyFor i) = st0 VAULT_BLOB_KEY"
    using assms(1) by (simp add: copied_def FLAT_KEYS_def blobKeyFor_def syncKeyFor_def)
  with assms(2) show ?thesis by (auto simp: has_vault_data_def bytes_at_def blobAt_def split: option.splits)
qed

lemma copy_completes:
  assumes "unused i st" "ws = flat_values st0"
  shows "copied st0 i (set_all (namespaced_writes i ws) st)"
  using assms
  by (auto simp: copied_def unused_def list_all_iff set_all_def map_add_def map_of_namespaced map_of_flat_values split: option.splits)

lemma flat_values_kept: "flat_kept st0 st \<Longrightarrow> flat_values st = flat_values st0"
  unfolding flat_values_def flat_kept_def list_all_iff List.map_filter_def
  by (intro arg_cong2 [where f = map] filter_cong map_cong) auto

lemma step_flat:
  assumes "mig_step handle i n p st = (p', st')" "mig_ok st0 R i st p" "flat_or_gone st0 st"
  shows "flat_or_gone st0 st'"
proof -
  have "st' k = st k \<or> st' k = None" if "k \<in> set FLAT_KEYS" for k
  proof -
    have "k \<noteq> VAULT_REGISTRY_KEY" using that keys_plain(2) by blast
    with assms(1,2) that show ?thesis
      by (cases "(handle, i, n, p, st)" rule: mig_step.cases)
        (auto simp: set_all_def map_add_def remove_all_def deleteFlatVaultKeys_def map_of_namespaced_plain writeRegistry_def split: if_splits)
  qed
  with assms(3) show ?thesis unfolding flat_or_gone_def list_all_iff by metis
qed

lemma step_own:
  assumes "mig_step handle i n p st = (p', st')" "mig_ok st0 R i st p" "bytes_at VAULT_BLOB_KEY st0 \<noteq> None"
    and "if registryExists st then \<exists>r\<in>R. lists_only r st else flat_kept st0 st"
    and "\<forall>r\<in>R. has_vault_data (vr_id r) st" "flat_or_gone st0 st"
  shows "mig_ok st0 R i st' p'"
proof (cases p)
  case MStart
  then show ?thesis using assms(1,2,4) by (auto simp: registryExists_def lists_only_def split: if_splits)
next
  case MLocal
  have "registryExists st" if "blobAt VAULT_BLOB_KEY st = Inr None"
    using that assms(3,4) by (auto simp: flat_kept_def FLAT_KEYS_def blobAt_def bytes_at_def split: if_splits)
  moreover have "\<not> isl (blobAt VAULT_BLOB_KEY st)"
    using assms(3,6) by (auto simp: flat_or_gone_def FLAT_KEYS_def blobAt_def bytes_at_def split: sum.splits)
  ultimately show ?thesis using MLocal assms(1,2) by (auto split: sum.splits option.splits)
next
  case MNewRead
  then show ?thesis
    using assms(1,2,4) flat_values_kept [of st0 st] flat_values_keys by (fastforce split: if_splits)
next
  case (MNewWrite ws)
  have "registryExists st \<Longrightarrow> registryExists st'"
    using step_registry [OF assms(1)] .
  then show ?thesis using MNewWrite assms(1,2) copy_completes [of i st ws st0] by auto
next
  case MReap
  then show ?thesis
    using assms(1,2,4) by (auto simp: registryExists_def lists_only_def readRegistry_def parseRegistry_def split: if_splits)
next
  case (MReapScan reg todo kept)
  then obtain r where r: "registryExists st" "kept @ todo = reg" "r \<in> R" "reg = [r]" using assms(2) by auto
  then show ?thesis
    using MReapScan assms(1,5) by (cases todo; cases kept) (auto split: if_splits)
next
  case MNewCut
  then show ?thesis using assms(1) by (auto simp: registryExists_def writeRegistry_def)
qed (use assms(1,2) step_registry [OF assms(1)] in \<open>auto split: if_splits\<close>)

lemma step_global:
  assumes "mig_step handle i n p st = (p', st')" "mig_ok st0 R i st p"
    and "if registryExists st then \<exists>r\<in>R. lists_only r st else flat_kept st0 st"
    and "p = MNewCut \<Longrightarrow> \<lparr>vr_id = i, vr_label = [], vr_createdAt = n\<rparr> \<in> R'" "R \<subseteq> R'"
  shows "if registryExists st' then \<exists>r\<in>R'. lists_only r st' else flat_kept st0 st'"
proof (cases "p = MNewCut")
  case True
  then show ?thesis using assms(1,4) by (auto simp: registryExists_def writeRegistry_def lists_only_def)
next
  case False
  have "st' VAULT_REGISTRY_KEY = st VAULT_REGISTRY_KEY \<and> (registryExists st \<or> flat_kept st0 st \<longrightarrow> registryExists st \<or> flat_kept st0 st')"
    using assms(1,2) False keys_plain(2)
    by (cases "(handle, i, n, p, st)" rule: mig_step.cases)
      (auto simp: set_all_def map_add_def remove_all_def deleteFlatVaultKeys_def flat_kept_def list_all_iff map_of_namespaced_plain
        registryExists_def split: option.splits)
  then show ?thesis using assms(3,5) by (auto simp: registryExists_def lists_only_def split: if_splits)
qed

lemma mig_turn_inv:
  assumes "inj uid" "bytes_at VAULT_BLOB_KEY st0 \<noteq> None" "mig_inv st0 uid now s"
  shows "mig_inv st0 uid now (mig_turn handle uid (now j) j s)"
proof -
  let ?st = "ms_store s" and ?R = "publishable st0 uid now s"
  obtain p' st' where step: "mig_step handle (uid j) (now j) (ms_at s j) ?st = (p', st')" by force
  let ?s = "\<lparr>ms_store = st', ms_at = (ms_at s)(j := p')\<rparr>"
  let ?R' = "publishable st0 uid now ?s"
  have turn: "mig_turn handle uid (now j) j s = ?s" by (simp add: mig_turn_def step)
  have ok: "mig_ok st0 ?R (uid i) ?st (ms_at s i)" for i using assms(3) by (simp add: mig_inv_def)
  have others: "st' (syncKeyFor k (uid i)) = ?st (syncKeyFor k (uid i))" if "k \<in> set FLAT_KEYS" "i \<noteq> j" for i k
    using step_others [OF step ok that(1)] that(2) assms(1) by (simp add: inj_eq)
  have pub: "settled (ms_at ?s i) \<and> copied st0 (uid i) st'" if "settled (ms_at s i)" "copied st0 (uid i) ?st" for i
  proof (cases "i = j")
    case True
    with that step_settled [OF step ok] show ?thesis by (auto simp: copied_def list_all_iff)
  next
    case False
    with that others show ?thesis by (auto simp: copied_def list_all_iff)
  qed
  then have R: "?R \<subseteq> ?R'" by (auto simp: publishable_def simp del: fun_upd_apply)
  have data: "\<forall>r\<in>?R. has_vault_data (vr_id r) ?st"
    using copied_has_data [OF _ assms(2)] by (auto simp: publishable_def new_record_def)
  have glob: "if registryExists ?st then \<exists>r\<in>?R. lists_only r ?st else flat_kept st0 ?st"
    using assms(3) by (simp add: mig_inv_def)
  have cut: "\<lparr>vr_id = uid j, vr_label = [], vr_createdAt = now j\<rparr> \<in> ?R'" if "ms_at s j = MNewCut"
  proof -
    have "copied st0 (uid j) ?st" using ok [of j] that by simp
    then have "copied st0 (uid j) st'" "p' = MNewDelete"
      using step that by (auto simp: copied_def list_all_iff writeRegistry_def)
    then show ?thesis by (auto simp: publishable_def new_record_def)
  qed
  have gone: "flat_or_gone st0 ?st" "flat_or_gone st0 st'"
    using assms(3) step_flat [OF step ok] by (auto simp: mig_inv_def)
  have "mig_ok st0 ?R' (uid i) st' (ms_at ?s i)" for i
  proof (cases "i = j")
    case True
    have "mig_ok st0 ?R (uid j) st' p'" using step_own [OF step ok assms(2) glob data gone(1)] .
    with True R show ?thesis using mig_ok_mono [of st0 ?R "uid j" st' p' ?R' st'] by simp
  next
    case False
    then show ?thesis using mig_ok_mono [OF ok R step_registry [OF step]] others by simp
  qed
  with step_global [OF step ok glob cut R] gone(2) show ?thesis
    unfolding turn mig_inv_def by simp
qed

lemma mig_init_inv:
  assumes "st0 VAULT_REGISTRY_KEY = None" "\<And>i. unused (uid i) st0"
  shows "mig_inv st0 uid now (mig_init st0)"
  using assms by (simp add: mig_inv_def mig_init_def registryExists_def flat_kept_def flat_or_gone_def list_all_iff)

lemma mig_run_inv:
  assumes "inj uid" "bytes_at VAULT_BLOB_KEY st0 \<noteq> None" "mig_inv st0 uid now s"
  shows "mig_inv st0 uid now (mig_run handle uid now sched s)"
  using assms(3) unfolding mig_run_def
proof (induction sched arbitrary: s)
  case (Cons j sched)
  then show ?case using mig_turn_inv [OF assms(1,2)] by simp
qed simp

text \<open>Every call of a context brings it closer to the end, whatever the others do.\<close>

fun mig_rank :: "mig \<Rightarrow> nat" where
  "mig_rank MStart = 14"
| "mig_rank (MLegacyRead _ _) = 13"
| "mig_rank (MLegacyWrite _ _ _) = 12"
| "mig_rank (MLegacyCut _) = 11"
| "mig_rank MLegacyDelete = 10"
| "mig_rank MLocal = 13"
| "mig_rank MHandle = 12"
| "mig_rank MEmptyCheck = 11"
| "mig_rank MEmptyWrite = 10"
| "mig_rank MNewRead = 11"
| "mig_rank (MNewWrite _) = 10"
| "mig_rank MNewCheck = 9"
| "mig_rank MNewDrop = 8"
| "mig_rank MNewCut = 8"
| "mig_rank MNewDelete = 7"
| "mig_rank MReap = 6"
| "mig_rank (MReapScan _ todo _) = 3 + length todo"
| "mig_rank (MReapHandle _) = 2"
| "mig_rank (MReapWrite _) = 1"
| "mig_rank MDone = 0"
| "mig_rank MFailed = 1"

lemma mig_step_rank:
  assumes "mig_step handle i n p st = (p', st')" "mig_ok st0 R i st p"
    and "if registryExists st then \<exists>r\<in>R. lists_only r st else flat_kept st0 st"
  shows "mig_rank p' \<le> mig_rank p - 1"
  using assms
  by (cases "(handle, i, n, p, st)" rule: mig_step.cases)
    (auto simp: registryExists_def lists_only_def readRegistry_def parseRegistry_def split: if_splits list.splits option.splits sval.splits sum.splits)

lemma mig_run_rank:
  assumes "inj uid" "bytes_at VAULT_BLOB_KEY st0 \<noteq> None" "mig_inv st0 uid now s"
  shows "mig_rank (ms_at (mig_run handle uid now sched s) j) \<le> mig_rank (ms_at s j) - count_list sched j"
  using assms(3)
proof (induction sched arbitrary: s)
  case Nil
  then show ?case by (simp add: mig_run_def)
next
  case (Cons i sched)
  let ?s = "mig_turn handle uid (now i) i s"
  obtain p' st' where step: "mig_step handle (uid i) (now i) (ms_at s i) (ms_store s) = (p', st')" by force
  have "mig_rank p' \<le> mig_rank (ms_at s i) - 1"
    using mig_step_rank [OF step] Cons.prems unfolding mig_inv_def by blast
  then have "mig_rank (ms_at ?s j) \<le> mig_rank (ms_at s j) - (if i = j then 1 else 0)"
    using step by (cases "i = j") (auto simp: mig_turn_def)
  moreover have "mig_rank (ms_at (mig_run handle uid now sched ?s) j) \<le> mig_rank (ms_at ?s j) - count_list sched j"
    using Cons.IH [OF mig_turn_inv [OF assms(1,2) Cons.prems]] .
  ultimately show ?case by (cases "i = j") (simp_all add: mig_run_def)
qed

lemma mig_rank_done: "mig_rank p = 0 \<longleftrightarrow> p = MDone"
  by (cases p) auto

subsection \<open>The storage keeps its contract\<close>

text \<open>The vault file of an id, as the rest of the program sees it: the bytes and the snapshot.\<close>

definition file_of :: "string \<Rightarrow> ext_storage \<Rightarrow> vault_file option" where
  "file_of i s = map_option (\<lambda>bs. \<lparr>live = bs, snapshot = bytes_at (backupKeyFor i) (es_store s)\<rparr>) (bytes_at (blobKeyFor i) (es_store s))"

lemma vault_keys_inj [simp]:
  "blobKeyFor i = blobKeyFor j \<longleftrightarrow> i = j" "backupKeyFor i = backupKeyFor j \<longleftrightarrow> i = j"
  "blobKeyFor i \<noteq> backupKeyFor j" "backupKeyFor j \<noteq> blobKeyFor i"
  by (simp_all add: blobKeyFor_def backupKeyFor_def VAULT_BLOB_KEY_def VAULT_BLOB_BACKUP_KEY_def)

lemma base64_nil: "bytesToBase64 [] = []"
  by code_simp

lemma base64_empty: "bytesToBase64 bs = [] \<longleftrightarrow> bs = []"
  by (metis base64_nil base64_round_trip option.inject)

lemma target_first: "target_vault (Some i) st = Some i"
  by (simp add: target_vault_def)

text \<open>Writing is the contract's write on its own vault and nothing to any other; so is restoring.\<close>

lemma blob_keys_plain [simp]: "blobKeyFor i \<noteq> VAULT_REGISTRY_KEY" "backupKeyFor i \<noteq> VAULT_REGISTRY_KEY"
  "VAULT_REGISTRY_KEY \<noteq> blobKeyFor i" "VAULT_REGISTRY_KEY \<noteq> backupKeyFor i"
  using sync_key_not_flat(2,3) [of VAULT_BLOB_KEY i] sync_key_not_flat(2,3) [of VAULT_BLOB_BACKUP_KEY i]
  by (simp_all add: blobKeyFor_def backupKeyFor_def syncKeyFor_def)

lemma bytes_at_upd: "bytes_at k (st(k \<mapsto> VStr (bytesToBase64 bs))) = (if bs = [] then None else Some bs)"
  by (simp add: bytes_at_def blobAt_def base64_empty base64_round_trip)

lemma bytes_at_upd_other: "k \<noteq> k' \<Longrightarrow> bytes_at k (st(k' := v)) = bytes_at k st"
  by (simp add: bytes_at_def blobAt_def)

lemma bytes_at_removed: "bytes_at k (st(k := None)) = None"
  by (simp add: bytes_at_def blobAt_def)

lemma write_is_contract:
  assumes "bs \<noteq> []" "case file_of i s of None \<Rightarrow> True | Some f \<Rightarrow> live f \<noteq> []" "\<not> isl (blobAt (blobKeyFor i) (es_store s))"
  shows "\<exists>s'. ext_writeVaultBlob True bs (Some i) s = (Inr (), s') \<and>
    file_of i s' = Some (case file_of i s of None \<Rightarrow> \<lparr>live = bs, snapshot = None\<rparr> | Some f \<Rightarrow> writeVaultBlob bs f) \<and>
    (\<forall>j. j \<noteq> i \<longrightarrow> file_of j s' = file_of j s) \<and> readRegistry (es_store s') = readRegistry (es_store s)"
proof -
  obtain r where r: "blobAt (blobKeyFor i) (es_store s) = Inr r" "bytes_at (blobKeyFor i) (es_store s) = r"
    using assms(3) by (cases "blobAt (blobKeyFor i) (es_store s)") (auto simp: bytes_at_def)
  show ?thesis
  proof (cases r)
    case None
    with r assms(1) show ?thesis
      by (simp add: ext_writeVaultBlob_def target_first snapshotBlob_def file_of_def bytes_at_upd bytes_at_upd_other bytes_at_removed
          readRegistry_def)
  next
    case (Some old)
    then have "old \<noteq> []" using r assms(2) by (simp add: file_of_def)
    with Some r assms(1) show ?thesis
      by (simp add: ext_writeVaultBlob_def target_first snapshotBlob_def file_of_def bytes_at_upd bytes_at_upd_other readRegistry_def
          writeVaultBlob_def)
  qed
qed

lemma restore_is_contract:
  assumes "file_of i s = Some f" "snapshot f = Some b" "b \<noteq> []"
  shows "\<exists>s'. ext_restoreVaultFromBackup (Some i) s = (True, s') \<and> file_of i s' = Some (restoreVaultFromBackup f) \<and>
    (\<forall>j. j \<noteq> i \<longrightarrow> file_of j s' = file_of j s)"
proof -
  obtain b64 where b64: "es_store s (backupKeyFor i) = Some (VStr b64)" "b64 \<noteq> []" "base64ToBytes b64 = Some b"
    using assms(1,2) by (auto simp: file_of_def bytes_at_def blobAt_def split: option.splits sum.splits sval.splits if_splits)
  then have st: "bytes_at k ((es_store s)(k \<mapsto> VStr b64)) = Some b" for k by (simp add: bytes_at_def blobAt_def)
  have "bytes_at (backupKeyFor i) (es_store s) = Some b" using b64 by (simp add: bytes_at_def blobAt_def)
  then show ?thesis
    using assms(1,2) b64 st
    by (auto simp: ext_restoreVaultFromBackup_def target_first file_of_def bytes_at_upd_other restoreVaultFromBackup_def)
qed

lemma delete_spares_others:
  "file_of i (ext_deleteVaultBlob i s) = None" "j \<noteq> i \<Longrightarrow> file_of j (ext_deleteVaultBlob i s) = file_of j s"
  by (simp_all add: ext_deleteVaultBlob_def file_of_def bytes_at_upd_other bytes_at_removed)

subsection \<open>What contexts do to each other\<close>

text \<open>Two contexts: the later one looked for a registry before the earlier one published, and replaces it after.
  Whatever was saved meanwhile is at keys no record names.\<close>

definition sample_uid :: "nat \<Rightarrow> string" where
  "sample_uid i = replicate i (CHR ''u'')"

definition flat_store :: local_store where
  "flat_store = [VAULT_BLOB_KEY \<mapsto> VStr ''AQID'']"

lemma late_cutover_replaces_registry:
  "ms_at (mig_run False sample_uid id (replicate 5 1 @ replicate 10 0 @ [1]) (mig_init flat_store)) 0 = MDone \<and>
   readRegistry (ms_store (mig_run False sample_uid id (replicate 5 1 @ replicate 10 0) (mig_init flat_store))) =
     [new_record sample_uid id 0] \<and>
   readRegistry (ms_store (mig_run False sample_uid id (replicate 5 1 @ replicate 10 0 @ [1]) (mig_init flat_store))) =
     [new_record sample_uid id 1]"
  by code_simp

text \<open>The reaper and the retired field's cutover write the registry they read some calls ago: a vault another context
  registered in between is dropped from it, its bytes still stored.\<close>

definition sample_record :: "nat \<Rightarrow> vault_record" where
  "sample_record i = new_record sample_uid id i"

definition add_meanwhile :: "nat \<Rightarrow> mig_system \<Rightarrow> mig_system" where
  "add_meanwhile i s = s\<lparr>ms_store := (writeRegistry (readRegistry (ms_store s) @ [sample_record i]) (ms_store s))
     (blobKeyFor (sample_uid i) \<mapsto> VStr ''BBBB'')\<rparr>"

definition ghost_store :: local_store where
  "ghost_store = [VAULT_REGISTRY_KEY \<mapsto> VReg (Some [sample_record 1, sample_record 2]) None, blobKeyFor (sample_uid 1) \<mapsto> VStr ''AQID'']"

definition retired_store :: local_store where
  "retired_store = [VAULT_REGISTRY_KEY \<mapsto> VReg (Some [sample_record 1]) (Some (sample_uid 1)), VAULT_BLOB_KEY \<mapsto> VStr ''AQID'']"

lemma reaper_drops_new_vault:
  "readRegistry (ms_store (mig_run False sample_uid id [0] (add_meanwhile 3 (mig_run False sample_uid id (replicate 6 0) (mig_init ghost_store))))) =
     [sample_record 1]"
  by code_simp

lemma retired_cutover_drops_new_vault:
  "readRegistry (ms_store (mig_run False sample_uid id [0] (add_meanwhile 3 (mig_run False sample_uid id (replicate 3 0) (mig_init retired_store))))) =
     [sample_record 1]"
  by code_simp

subsection \<open>Properties\<close>

text \<open>Property C11: the move to per-vault keys loses nothing and finishes. From a vault of an old version, with any number of
  contexts migrating at once, their storage calls interleaved in any order and any of them dying at any call: as long as
  no registry is published the old keys are all as they were, and from then on the registry lists one vault, under whose
  keys the bytes, the snapshot and every sync value are exactly the old ones. A context that gets fourteen calls is done,
  with a registry published.\<close>

theorem migration_keeps_the_vault:
  assumes "inj uid" "st0 VAULT_REGISTRY_KEY = None" "bytes_at VAULT_BLOB_KEY st0 \<noteq> None" "\<And>i. unused (uid i) st0"
    and "s = mig_run handle uid now sched (mig_init st0)"
  shows "(if registryExists (ms_store s)
      then \<exists>i. readRegistry (ms_store s) = [new_record uid now i] \<and> list_all (\<lambda>k. ms_store s (syncKeyFor k (uid i)) = st0 k) FLAT_KEYS
      else list_all (\<lambda>k. ms_store s k = st0 k) FLAT_KEYS) \<and>
    (14 \<le> count_list sched j \<longrightarrow> ms_at s j = MDone \<and> registryExists (ms_store s))"
proof -
  have inv: "mig_inv st0 uid now s"
    using mig_run_inv [OF assms(1,3) mig_init_inv [OF assms(2,4)]] assms(5) by simp
  have rank: "mig_rank (ms_at s j) \<le> 14 - count_list sched j"
    using mig_run_rank [OF assms(1,3) mig_init_inv [OF assms(2,4)]] assms(5) by (simp add: mig_init_def)
  have "ms_at s j = MDone \<and> registryExists (ms_store s)" if "14 \<le> count_list sched j"
  proof -
    have "ms_at s j = MDone" using rank that mig_rank_done by simp
    moreover have "mig_ok st0 (publishable st0 uid now s) (uid j) (ms_store s) (ms_at s j)"
      using inv by (simp add: mig_inv_def)
    ultimately show ?thesis by simp
  qed
  moreover have "\<exists>i. readRegistry (ms_store s) = [new_record uid now i] \<and> copied st0 (uid i) (ms_store s)" if "registryExists (ms_store s)"
    using inv that by (auto simp: mig_inv_def publishable_def lists_only_def readRegistry_def parseRegistry_def)
  ultimately show ?thesis
    using inv by (auto simp: mig_inv_def copied_def flat_kept_def)
qed

lemma flat_store_unused: "unused i flat_store"
proof -
  have "VAULT_BLOB_KEY \<in> set FLAT_KEYS" by (simp add: FLAT_KEYS_def)
  then have "syncKeyFor k i \<noteq> VAULT_BLOB_KEY" for k using sync_key_not_flat(1) [of k i] by metis
  then show ?thesis by (simp add: unused_def flat_store_def list_all_iff)
qed

lemma flat_store_old: "flat_store VAULT_REGISTRY_KEY = None" "bytes_at VAULT_BLOB_KEY flat_store \<noteq> None"
  by code_simp+

lemma sample_uid_inj: "inj sample_uid"
  by (rule injI) (metis length_replicate sample_uid_def)

theorem migration_keeps_the_vault_witness:
  "ms_at (mig_run False sample_uid id (replicate 5 1 @ replicate 14 0 @ [1]) (mig_init flat_store)) 0 = MDone"
proof -
  have "14 \<le> count_list (replicate 5 1 @ replicate 14 0 @ [1::nat]) 0" by code_simp
  then show ?thesis
    using migration_keeps_the_vault [OF sample_uid_inj flat_store_old flat_store_unused refl,
        of False id "replicate 5 1 @ replicate 14 0 @ [1]" 0] by blast
qed

end
