(* ===== verification/Sync_Host.thy ===== *)
theory Sync_Host
  imports Js_Text
begin

text \<open>
  The extension's crypto and sync host (\<open>packages/platform-extension/src/offscreen-core.ts\<close>): the atomic
  sections over the scratch key slot, the two continuous sync sessions behind one promise chain, the
  enrollment session with its approval prompt, and the desktop app as a peer
  (\<open>packages/platform-extension/src/link-peer-source.ts\<close>).

  The WASM module is a parameter. Every await is a place where other messages are handled; what it gave comes
  with the event that resumes it.
\<close>

subsection \<open>Operations under a vault key\<close>

text \<open>The operations that use the key in the scratch slot, with their arguments as text.\<close>

datatype vek_op =
    WrapPasswordSlot "string list"
  | WrapWebauthnSlot "string list"
  | Encrypt string
  | Decrypt string string string string
  | DecryptBatch "(string \<times> string \<times> string \<times> string) list"
  | EncryptOuter string
  | DecryptOuter string string

text \<open>The module: an operation under a key (no key: it throws), and what unwrapping a slot recovers.\<close>

record vault_wasm =
  vw_wrap_password :: "string \<Rightarrow> string list \<Rightarrow> string option"
  vw_wrap_webauthn :: "string \<Rightarrow> string list \<Rightarrow> string option"
  vw_encrypt_entry :: "string \<Rightarrow> string \<Rightarrow> string option"
  vw_decrypt_entry :: "string \<Rightarrow> string \<Rightarrow> string \<Rightarrow> string \<Rightarrow> string \<Rightarrow> string option"
  vw_encrypt_outer :: "string \<Rightarrow> string \<Rightarrow> string option"
  vw_decrypt_outer :: "string \<Rightarrow> string \<Rightarrow> string \<Rightarrow> string option"
  vw_unwrap_password :: "string list \<Rightarrow> string option"
  vw_unwrap_webauthn :: "string list \<Rightarrow> string option"

datatype vek_reply = Failed | Gave string | GaveAll "string list" | NotUnwrapped | Unwrapped string

fun run_op :: "vault_wasm \<Rightarrow> string option \<Rightarrow> vek_op \<Rightarrow> vek_reply" where
  "run_op w None op = Failed"
| "run_op w (Some k) (WrapPasswordSlot xs) = (case vw_wrap_password w k xs of Some r \<Rightarrow> Gave r | None \<Rightarrow> Failed)"
| "run_op w (Some k) (WrapWebauthnSlot xs) = (case vw_wrap_webauthn w k xs of Some r \<Rightarrow> Gave r | None \<Rightarrow> Failed)"
| "run_op w (Some k) (Encrypt x) = (case vw_encrypt_entry w k x of Some r \<Rightarrow> Gave r | None \<Rightarrow> Failed)"
| "run_op w (Some k) (Decrypt c iv d di) = (case vw_decrypt_entry w k c iv d di of Some r \<Rightarrow> Gave r | None \<Rightarrow> Failed)"
| "run_op w (Some k) (DecryptBatch es) =
     (case those (map (\<lambda>(c, iv, d, di). vw_decrypt_entry w k c iv d di) es) of Some r \<Rightarrow> GaveAll r | None \<Rightarrow> Failed)"
| "run_op w (Some k) (EncryptOuter x) = (case vw_encrypt_outer w k x of Some r \<Rightarrow> Gave r | None \<Rightarrow> Failed)"
| "run_op w (Some k) (DecryptOuter iv c) = (case vw_decrypt_outer w k iv c of Some r \<Rightarrow> Gave r | None \<Rightarrow> Failed)"

text \<open>One synchronous section: the reply and the slot afterwards.\<close>

definition withVek :: "vault_wasm \<Rightarrow> string option \<Rightarrow> vek_op \<Rightarrow> string option \<Rightarrow> vek_reply \<times> string option" where
  "withVek w vekB64 op slot = (let slot' = (if vekB64 \<noteq> None then vekB64 else slot) in (run_op w slot' op, slot'))"

text \<open>Messages of the switches: the two unwraps leave the key in the slot and export it in the same section;
  the others go through the shared adapter.\<close>

datatype crypto_request =
    UseVek "string option" vek_op
  | UnwrapPasswordSlot "string list"
  | UnwrapWebauthnSlot "string list"
  | GenerateVek string
  | RotateVek string
  | UnlockWithVek string
  | ExportVek
  | LockVek
  | IsLocked

definition unwrap_section :: "string option \<Rightarrow> string option \<Rightarrow> vek_reply \<times> string option" where
  "unwrap_section found slot = (case found of Some k \<Rightarrow> (Unwrapped k, Some k) | None \<Rightarrow> (NotUnwrapped, slot))"

fun dispatchCrypto :: "vault_wasm \<Rightarrow> crypto_request \<Rightarrow> string option \<Rightarrow> vek_reply \<times> string option" where
  "dispatchCrypto w (UseVek v op) slot = withVek w v op slot"
| "dispatchCrypto w (UnwrapPasswordSlot xs) slot = unwrap_section (vw_unwrap_password w xs) slot"
| "dispatchCrypto w (UnwrapWebauthnSlot xs) slot = unwrap_section (vw_unwrap_webauthn w xs) slot"
| "dispatchCrypto w (GenerateVek k) slot = (Gave k, Some k)"
| "dispatchCrypto w (RotateVek k) slot = (if slot = None then (Failed, slot) else (Gave k, Some k))"
| "dispatchCrypto w (UnlockWithVek k) slot = (Gave [], Some k)"
| "dispatchCrypto w ExportVek slot = (case slot of Some k \<Rightarrow> (Gave k, slot) | None \<Rightarrow> (Failed, slot))"
| "dispatchCrypto w LockVek slot = (Gave [], None)"
| "dispatchCrypto w IsLocked slot = (Gave (if slot = None then ''true'' else ''false''), slot)"

text \<open>The replies of any sequence of sections.\<close>

fun crypto_replies :: "vault_wasm \<Rightarrow> crypto_request list \<Rightarrow> string option \<Rightarrow> vek_reply list" where
  "crypto_replies w [] slot = []"
| "crypto_replies w (r # rs) slot = (let (x, slot') = dispatchCrypto w r slot in x # crypto_replies w rs slot')"

definition carries_key :: "crypto_request \<Rightarrow> bool" where
  "carries_key r \<longleftrightarrow> (case r of UseVek v op \<Rightarrow> v \<noteq> None | UnwrapPasswordSlot _ \<Rightarrow> True | UnwrapWebauthnSlot _ \<Rightarrow> True | _ \<Rightarrow> False)"

lemma own_key_only: "carries_key r \<Longrightarrow> fst (dispatchCrypto w r slot) = fst (dispatchCrypto w r None)"
  by (cases "(w, r, slot)" rule: dispatchCrypto.cases)
    (auto simp: carries_key_def withVek_def unwrap_section_def Let_def split: option.splits)

text \<open>Whatever sections run before it, a message that carries its key is answered as if it ran alone.\<close>

lemma vault_keys_do_not_mix:
  assumes "i < length rs" "carries_key (rs ! i)"
  shows "crypto_replies w rs slot ! i = fst (dispatchCrypto w (rs ! i) None)"
  using assms
proof (induction rs arbitrary: i slot)
  case (Cons r rs)
  show ?case
  proof (cases i)
    case 0
    with Cons.prems own_key_only [of r w slot] show ?thesis by (simp add: split_beta)
  next
    case (Suc j)
    with Cons show ?thesis by (simp add: split_beta)
  qed
qed simp

subsection \<open>The continuous sync sessions\<close>

record sync_config =
  sc_relayUrl :: string
  sc_iceUrl :: "string option"
  sc_groupKey :: string
  sc_devicePub :: string

text \<open>\<open>rosterSyncConfigKey\<close>: the roster and the private key are not part of it.\<close>

definition rosterSyncConfigKey :: "sync_config \<Rightarrow> string list" where
  "rosterSyncConfigKey c =
     [sc_relayUrl c, case sc_iceUrl c of Some u \<Rightarrow> u | None \<Rightarrow> [], sc_groupKey c, sc_devicePub c]"

datatype job = StartJob sync_config | StopJob

datatype turn = Queued | LoadingWasm | StartingRelay | StartingLink

text \<open>The host: the held sessions, the config they were started with, the chain with how far its head is, every
  sync session that runs, and the enrollment half below. \<open>sh_next\<close> names sessions.\<close>

datatype role = Inviter | Joiner

record prompt =
  pr_id :: nat
  pr_sas :: string
  pr_label :: string

datatype enroll_phase = EnrollLoading role | EnrollStarting nat

datatype host_output =
    Asked nat
  | Settled nat bool
  | EnrollExpired
  | StatusLine string

record sync_host =
  sh_sync :: "nat option"
  sh_link :: "nat option"
  sh_key :: "string list option"
  sh_chain :: "job list"
  sh_turn :: turn
  sh_live :: "nat list"
  sh_next :: nat
  sh_enroll :: "nat option"
  sh_enrolling :: "(nat \<times> enroll_phase) list"
  sh_liveEnrolls :: "nat list"
  sh_pending :: "prompt option"
  sh_prompts :: nat
  sh_out :: "host_output list"

definition stopSyncSessions :: "sync_host \<Rightarrow> sync_host" where
  "stopSyncSessions s =
     s\<lparr>sh_sync := None, sh_link := None, sh_key := None,
       sh_live := filter (\<lambda>i. Some i \<noteq> sh_sync s \<and> Some i \<noteq> sh_link s) (sh_live s)\<rparr>"

definition job_done :: "sync_host \<Rightarrow> sync_host" where
  "job_done s = s\<lparr>sh_chain := tl (sh_chain s), sh_turn := Queued\<rparr>"

text \<open>\<open>startSyncSessions\<close> and \<open>stopSyncSessions\<close> as the head of the chain. \<open>ok\<close>: the await it resumes from did
  not throw; a job that throws leaves the chain like one that ended.\<close>

definition start_turn :: "sync_config \<Rightarrow> bool \<Rightarrow> sync_host \<Rightarrow> sync_host" where
  "start_turn c ok s =
     (case sh_turn s of
        Queued \<Rightarrow>
          if sh_sync s \<noteq> None \<and> sh_link s \<noteq> None \<and> sh_key s = Some (rosterSyncConfigKey c) then job_done s
          else s\<lparr>sh_turn := LoadingWasm\<rparr>
      | LoadingWasm \<Rightarrow> if \<not> ok then job_done s else (stopSyncSessions s)\<lparr>sh_turn := StartingRelay\<rparr>
      | StartingRelay \<Rightarrow>
          if \<not> ok then job_done s
          else s\<lparr>sh_sync := Some (sh_next s), sh_live := sh_next s # sh_live s, sh_next := sh_next s + 1, sh_turn := StartingLink\<rparr>
      | StartingLink \<Rightarrow>
          if \<not> ok then job_done s
          else job_done (s\<lparr>sh_link := Some (sh_next s), sh_live := sh_next s # sh_live s, sh_next := sh_next s + 1,
            sh_key := Some (rosterSyncConfigKey c)\<rparr>))"

definition chain_turn :: "bool \<Rightarrow> sync_host \<Rightarrow> sync_host" where
  "chain_turn ok s =
     (case sh_chain s of
        [] \<Rightarrow> s
      | StartJob c # _ \<Rightarrow> start_turn c ok s
      | StopJob # _ \<Rightarrow> job_done (stopSyncSessions s))"

subsection \<open>Enrollment and the approval prompt\<close>

definition host_emit :: "host_output \<Rightarrow> sync_host \<Rightarrow> sync_host" where
  "host_emit x s = s\<lparr>sh_out := sh_out s @ [x]\<rparr>"

definition settleApproval :: "bool \<Rightarrow> sync_host \<Rightarrow> sync_host" where
  "settleApproval approved s =
     (case sh_pending s of
        Some p \<Rightarrow> host_emit (Settled (pr_id p) approved) (s\<lparr>sh_pending := None\<rparr>)
      | None \<Rightarrow> s)"

definition stop_enroll :: "sync_host \<Rightarrow> sync_host" where
  "stop_enroll s = s\<lparr>sh_enroll := None, sh_liveEnrolls := filter (\<lambda>i. Some i \<noteq> sh_enroll s) (sh_liveEnrolls s)\<rparr>"

text \<open>Messages, and what the running sessions do: a joiner asks, the invite expires, a session stops itself.\<close>

datatype host_event =
    SyncRosterSync sync_config
  | SyncDisconnect
  | ChainTurns bool
  | SyncEnroll nat role
  | EnrollResumes nat bool
  | SyncEnrollStop
  | SyncEnrollApprove bool
  | JoinerAsks nat string string
  | InviteExpires nat
  | EnrollEnds nat

fun handleHostMessage :: "host_event \<Rightarrow> sync_host \<Rightarrow> sync_host" where
  "handleHostMessage (SyncRosterSync c) s = s\<lparr>sh_chain := sh_chain s @ [StartJob c]\<rparr>"
| "handleHostMessage SyncDisconnect s =
     (let s1 = stop_enroll (settleApproval False s) in s1\<lparr>sh_chain := sh_chain s1 @ [StopJob]\<rparr>)"
| "handleHostMessage (ChainTurns ok) s = chain_turn ok s"
| "handleHostMessage (SyncEnroll t r) s = s\<lparr>sh_enrolling := (t, EnrollLoading r) # sh_enrolling s\<rparr>"
| "handleHostMessage (EnrollResumes t ok) s =
     (case map_of (sh_enrolling s) t of
        Some (EnrollLoading r) \<Rightarrow>
          if \<not> ok then s\<lparr>sh_enrolling := AList.delete t (sh_enrolling s)\<rparr>
          else let s1 = settleApproval False (s\<lparr>sh_liveEnrolls := filter (\<lambda>i. Some i \<noteq> sh_enroll s) (sh_liveEnrolls s)\<rparr>)
            in s1\<lparr>sh_enrolling := AList.update t (EnrollStarting (sh_next s)) (sh_enrolling s1),
                 sh_liveEnrolls := sh_next s # sh_liveEnrolls s1, sh_next := sh_next s + 1\<rparr>
      | Some (EnrollStarting i) \<Rightarrow>
          if \<not> ok then s\<lparr>sh_enrolling := AList.delete t (sh_enrolling s), sh_liveEnrolls := removeAll i (sh_liveEnrolls s)\<rparr>
          else s\<lparr>sh_enrolling := AList.delete t (sh_enrolling s), sh_enroll := Some i\<rparr>
      | None \<Rightarrow> s)"
| "handleHostMessage SyncEnrollStop s = host_emit (StatusLine ''invite closed'') (stop_enroll (settleApproval False s))"
| "handleHostMessage (SyncEnrollApprove a) s = settleApproval a s"
| "handleHostMessage (JoinerAsks i sas label) s =
     (if i \<notin> set (sh_liveEnrolls s) then s
      else host_emit (Asked (sh_prompts s))
        (s\<lparr>sh_pending := Some \<lparr>pr_id = sh_prompts s, pr_sas = sas, pr_label = label\<rparr>, sh_prompts := sh_prompts s + 1\<rparr>))"
| "handleHostMessage (InviteExpires i) s =
     (if i \<notin> set (sh_liveEnrolls s) then s
      else (host_emit EnrollExpired (settleApproval False s))\<lparr>sh_liveEnrolls := removeAll i (sh_liveEnrolls s)\<rparr>)"
| "handleHostMessage (EnrollEnds i) s = s\<lparr>sh_liveEnrolls := removeAll i (sh_liveEnrolls s)\<rparr>"

text \<open>\<open>SYNC_ENROLL_PENDING\<close>: what a reopened popup is shown.\<close>

definition enroll_pending :: "sync_host \<Rightarrow> (string \<times> string) option" where
  "enroll_pending s = map_option (\<lambda>p. (pr_sas p, pr_label p)) (sh_pending s)"

definition new_host :: sync_host where
  "new_host =
     \<lparr>sh_sync = None, sh_link = None, sh_key = None, sh_chain = [], sh_turn = Queued, sh_live = [], sh_next = 0, sh_enroll = None,
      sh_enrolling = [], sh_liveEnrolls = [], sh_pending = None, sh_prompts = 0, sh_out = []\<rparr>"

definition host_run :: "host_event list \<Rightarrow> sync_host \<Rightarrow> sync_host" where
  "host_run es s = fold handleHostMessage es s"

lemma host_run_simps [simp]: "host_run [] s = s" "host_run (e # es) s = host_run es (handleHostMessage e s)"
  by (simp_all add: host_run_def)

subsection \<open>No session is leaked\<close>

definition sessions_held :: "sync_host \<Rightarrow> bool" where
  "sessions_held s \<longleftrightarrow>
     set (sh_live s) = set_option (sh_sync s) \<union> set_option (sh_link s) \<and>
     (\<forall>i \<in> set (sh_live s). i < sh_next s) \<and>
     (sh_turn s = StartingRelay \<longrightarrow> sh_sync s = None \<and> sh_link s = None) \<and>
     (sh_turn s = StartingLink \<longrightarrow> sh_link s = None)"

lemma live_stopped: "set (sh_live s) = set_option (sh_sync s) \<union> set_option (sh_link s) \<Longrightarrow> sh_live (stopSyncSessions s) = []"
  by (auto simp: stopSyncSessions_def filter_empty_conv)

lemma stop_fields [simp]:
  "sh_sync (stopSyncSessions s) = None" "sh_link (stopSyncSessions s) = None" "sh_key (stopSyncSessions s) = None"
  "sh_turn (stopSyncSessions s) = sh_turn s" "sh_next (stopSyncSessions s) = sh_next s" "sh_chain (stopSyncSessions s) = sh_chain s"
  by (simp_all add: stopSyncSessions_def)

lemma job_done_fields [simp]:
  "sh_sync (job_done s) = sh_sync s" "sh_link (job_done s) = sh_link s" "sh_key (job_done s) = sh_key s"
  "sh_turn (job_done s) = Queued" "sh_next (job_done s) = sh_next s" "sh_chain (job_done s) = tl (sh_chain s)"
  "sh_live (job_done s) = sh_live s"
  by (simp_all add: job_done_def)

lemma chain_turn_held:
  assumes "sessions_held s"
  shows "sessions_held (chain_turn ok s)"
proof (cases "sh_chain s")
  case (Cons j js)
  have stop: "sh_live (stopSyncSessions s) = []" using assms by (simp add: sessions_held_def live_stopped)
  show ?thesis
  proof (cases j)
    case (StartJob c)
    with Cons assms stop show ?thesis
      by (cases "sh_turn s") (auto simp: chain_turn_def start_turn_def sessions_held_def less_Suc_eq)
  next
    case StopJob
    with Cons stop show ?thesis by (simp add: chain_turn_def sessions_held_def)
  qed
qed (use assms in \<open>simp add: chain_turn_def\<close>)

lemma enroll_fields [simp]:
  "sh_sync (settleApproval a s) = sh_sync s" "sh_link (settleApproval a s) = sh_link s" "sh_key (settleApproval a s) = sh_key s"
  "sh_turn (settleApproval a s) = sh_turn s" "sh_next (settleApproval a s) = sh_next s" "sh_chain (settleApproval a s) = sh_chain s"
  "sh_live (settleApproval a s) = sh_live s"
  "sh_sync (stop_enroll s) = sh_sync s" "sh_link (stop_enroll s) = sh_link s" "sh_key (stop_enroll s) = sh_key s"
  "sh_turn (stop_enroll s) = sh_turn s" "sh_next (stop_enroll s) = sh_next s" "sh_chain (stop_enroll s) = sh_chain s"
  "sh_live (stop_enroll s) = sh_live s"
  "sh_sync (host_emit x s) = sh_sync s" "sh_link (host_emit x s) = sh_link s" "sh_key (host_emit x s) = sh_key s"
  "sh_turn (host_emit x s) = sh_turn s" "sh_next (host_emit x s) = sh_next s" "sh_chain (host_emit x s) = sh_chain s"
  "sh_live (host_emit x s) = sh_live s"
  by (simp_all add: settleApproval_def stop_enroll_def host_emit_def split: option.split)

lemma sessions_same:
  assumes "sessions_held s" "sh_live s' = sh_live s" "sh_sync s' = sh_sync s" "sh_link s' = sh_link s" "sh_turn s' = sh_turn s"
    "sh_next s \<le> sh_next s'"
  shows "sessions_held s'"
  using assms(1,6) unfolding sessions_held_def assms(2-5) by (meson less_le_trans)

definition chain_event :: "host_event \<Rightarrow> bool" where
  "chain_event e \<longleftrightarrow> (case e of ChainTurns _ \<Rightarrow> True | _ \<Rightarrow> False)"

lemma other_events:
  assumes "\<not> chain_event e"
  shows "sh_live (handleHostMessage e s) = sh_live s" "sh_sync (handleHostMessage e s) = sh_sync s"
    "sh_link (handleHostMessage e s) = sh_link s" "sh_turn (handleHostMessage e s) = sh_turn s"
    "sh_key (handleHostMessage e s) = sh_key s" "sh_next s \<le> sh_next (handleHostMessage e s)"
    "\<exists>js. sh_chain (handleHostMessage e s) = sh_chain s @ js"
  using assms
  by (cases "(e, s)" rule: handleHostMessage.cases;
      simp add: chain_event_def Let_def split: option.splits enroll_phase.splits)+

lemma handle_held: "sessions_held s \<Longrightarrow> sessions_held (handleHostMessage e s)"
proof (cases "chain_event e")
  case True
  assume "sessions_held s"
  with True chain_turn_held show ?thesis by (auto simp: chain_event_def split: host_event.splits)
next
  case False
  assume "sessions_held s"
  then show ?thesis by (rule sessions_same) (rule other_events [OF False])+
qed

lemma run_held: "sessions_held s \<Longrightarrow> sessions_held (host_run es s)"
  by (induction es arbitrary: s) (simp_all add: handle_held)

lemma new_host_held: "sessions_held new_host"
  by (simp add: sessions_held_def new_host_def)

text \<open>The host leaks no sync session. However starts, disconnects and enrollments arrive while others
  are under way, and whichever of their awaits throw, the sync sessions that run are exactly the two the host
  holds, so there are at most two and each of them can still be stopped.\<close>

lemma host_leaks_no_sync_session:
  "set (sh_live (host_run es new_host)) = set_option (sh_sync (host_run es new_host)) \<union> set_option (sh_link (host_run es new_host))"
  using run_held [OF new_host_held, of es] by (simp add: sessions_held_def)

subsection \<open>A disconnect is not overtaken\<close>

fun job_work :: "job \<Rightarrow> nat" where
  "job_work (StartJob c) = 4"
| "job_work StopJob = 1"

fun turns_done :: "turn \<Rightarrow> nat" where
  "turns_done Queued = 0"
| "turns_done LoadingWasm = 1"
| "turns_done StartingRelay = 2"
| "turns_done StartingLink = 3"

definition chain_work :: "sync_host \<Rightarrow> nat" where
  "chain_work s = sum_list (map job_work (sh_chain s)) - turns_done (sh_turn s)"

definition turn_fits :: "sync_host \<Rightarrow> bool" where
  "turn_fits s \<longleftrightarrow> sh_turn s = Queued \<or> (\<exists>c js. sh_chain s = StartJob c # js)"

definition ends_stopped :: "sync_host \<Rightarrow> bool" where
  "ends_stopped s \<longleftrightarrow> sessions_held s \<and> turn_fits s \<and> (if sh_chain s = [] then sh_live s = [] else last (sh_chain s) = StopJob)"

lemma turn_fits_step: "turn_fits s \<Longrightarrow> turn_fits (handleHostMessage e s)"
proof (cases e)
  case (ChainTurns ok)
  assume "turn_fits s"
  with ChainTurns show ?thesis
    by (cases "sh_turn s") (auto simp: turn_fits_def chain_turn_def start_turn_def split: list.splits job.splits)
qed (auto simp: turn_fits_def Let_def split: option.splits enroll_phase.splits)

lemma chain_turn_stops:
  assumes "ends_stopped s"
  shows "ends_stopped (chain_turn ok s)"
proof -
  have h: "sessions_held (chain_turn ok s)" using assms by (simp add: ends_stopped_def chain_turn_held)
  have t: "turn_fits (chain_turn ok s)" using assms turn_fits_step [of s "ChainTurns ok"] by (simp add: ends_stopped_def)
  show ?thesis
  proof (cases "sh_chain s")
    case (Cons j js)
    show ?thesis
    proof (cases j)
      case (StartJob c)
      with Cons assms have "js \<noteq> []" "last js = StopJob" by (auto simp: ends_stopped_def split: if_splits)
      with Cons StartJob h t show ?thesis
        by (cases "sh_turn s") (auto simp: ends_stopped_def chain_turn_def start_turn_def)
    next
      case StopJob
      have "sh_live (stopSyncSessions s) = []" using assms by (simp add: ends_stopped_def sessions_held_def live_stopped)
      with Cons StopJob h t assms show ?thesis by (auto simp: ends_stopped_def chain_turn_def split: if_splits)
    qed
  qed (use assms in \<open>simp add: chain_turn_def\<close>)
qed

definition starts_sync :: "host_event \<Rightarrow> bool" where
  "starts_sync e \<longleftrightarrow> (case e of SyncRosterSync _ \<Rightarrow> True | _ \<Rightarrow> False)"

lemma step_stops:
  assumes "ends_stopped s" "\<not> starts_sync e"
  shows "ends_stopped (handleHostMessage e s)"
proof (cases "\<exists>ok. e = ChainTurns ok")
  case True
  with assms chain_turn_stops show ?thesis by auto
next
  case False
  have "sessions_held (handleHostMessage e s)" "turn_fits (handleHostMessage e s)"
    using assms by (simp_all add: ends_stopped_def handle_held turn_fits_step)
  moreover have "if sh_chain (handleHostMessage e s) = [] then sh_live (handleHostMessage e s) = []
      else last (sh_chain (handleHostMessage e s)) = StopJob"
    using assms False
    by (cases "(e, s)" rule: handleHostMessage.cases)
      (auto simp: ends_stopped_def starts_sync_def Let_def split: option.splits enroll_phase.splits)
  ultimately show ?thesis by (simp add: ends_stopped_def)
qed

lemma run_stops: "ends_stopped s \<Longrightarrow> \<forall>e \<in> set es. \<not> starts_sync e \<Longrightarrow> ends_stopped (host_run es s)"
  by (induction es arbitrary: s) (simp_all add: step_stops)

lemma chain_works:
  assumes "turn_fits s" "sh_chain s \<noteq> []"
  shows "chain_work (chain_turn ok s) < chain_work s"
proof -
  obtain j js where c: "sh_chain s = j # js" using assms(2) by (cases "sh_chain s") auto
  show ?thesis
  proof (cases j)
    case (StartJob x)
    with c show ?thesis
      by (cases "sh_turn s") (auto simp: chain_turn_def start_turn_def chain_work_def)
  next
    case StopJob
    with c assms(1) show ?thesis by (auto simp: chain_turn_def chain_work_def turn_fits_def)
  qed
qed

lemma chain_drains:
  assumes "ends_stopped s" "chain_work s \<le> length oks"
  shows "ends_stopped (host_run (map ChainTurns oks) s) \<and> sh_chain (host_run (map ChainTurns oks) s) = []"
  using assms
proof (induction oks arbitrary: s)
  case Nil
  have "sh_chain s = []"
  proof (rule ccontr)
    assume n: "sh_chain s \<noteq> []"
    then have "chain_work (chain_turn True s) < chain_work s"
      using Nil.prems(1) by (intro chain_works) (simp_all add: ends_stopped_def)
    with Nil.prems(2) show False by simp
  qed
  with Nil show ?case by simp
next
  case (Cons ok oks)
  have "chain_work (chain_turn ok s) \<le> length oks"
  proof (cases "sh_chain s = []")
    case True
    then show ?thesis by (simp add: chain_turn_def chain_work_def)
  next
    case False
    then have "chain_work (chain_turn ok s) < chain_work s"
      using Cons.prems(1) by (intro chain_works) (simp_all add: ends_stopped_def)
    with Cons.prems(2) show ?thesis by simp
  qed
  with Cons.IH [OF chain_turn_stops [OF Cons.prems(1)]] show ?case by simp
qed

text \<open>A disconnect is not overtaken by a start that was already under way. Whatever was in flight when
  \<open>SYNC_DISCONNECT\<close> came, once the chain has had its turns (four for a start, one for a stop, fewer when they
  throw) and no new start arrived, no sync session runs.\<close>

lemma disconnect_drains:
  assumes "\<forall>e \<in> set es. \<not> starts_sync e"
    and "chain_work (host_run (before @ SyncDisconnect # es) new_host) \<le> length oks"
  shows "sh_live (host_run (before @ SyncDisconnect # es @ map ChainTurns oks) new_host) = []"
proof -
  let ?s = "host_run before new_host"
  have h: "sessions_held ?s" by (rule run_held [OF new_host_held])
  have "turn_fits (host_run xs new_host)" for xs
  proof (induction xs rule: rev_induct)
    case (snoc x xs)
    then show ?case using turn_fits_step by (simp add: host_run_def)
  qed (simp add: turn_fits_def new_host_def)
  then have t: "turn_fits (handleHostMessage SyncDisconnect ?s)" by (intro turn_fits_step)
  have "ends_stopped (handleHostMessage SyncDisconnect ?s)"
    using handle_held [OF h, of SyncDisconnect] t by (simp add: ends_stopped_def Let_def)
  then have "ends_stopped (host_run es (handleHostMessage SyncDisconnect ?s))" by (rule run_stops) (fact assms(1))
  moreover have "host_run (before @ SyncDisconnect # es) new_host = host_run es (handleHostMessage SyncDisconnect ?s)"
    by (simp add: host_run_def)
  moreover have "host_run (before @ SyncDisconnect # es @ map ChainTurns oks) new_host =
      host_run (map ChainTurns oks) (host_run es (handleHostMessage SyncDisconnect ?s))"
    by (simp add: host_run_def)
  ultimately show ?thesis using chain_drains assms(2) by (fastforce simp: ends_stopped_def)
qed

text \<open>A repeat of the same config keeps the running pair.\<close>

lemma same_config_keeps_sessions:
  assumes "sh_chain s = [StartJob c]" "sh_turn s = Queued" "sh_sync s = Some i" "sh_link s = Some j"
    "sh_key s = Some (rosterSyncConfigKey c)"
  shows "handleHostMessage (ChainTurns ok) s = s\<lparr>sh_chain := []\<rparr>"
  using assms by (simp add: chain_turn_def start_turn_def job_done_def)

subsection \<open>One answer per prompt\<close>

definition answers :: "sync_host \<Rightarrow> (nat \<times> bool) list" where
  "answers s = List.map_filter (\<lambda>x. case x of Settled n b \<Rightarrow> Some (n, b) | _ \<Rightarrow> None) (sh_out s)"

definition prompts_ok :: "nat \<Rightarrow> sync_host \<Rightarrow> bool" where
  "prompts_ok k s \<longleftrightarrow>
     distinct (map fst (answers s)) \<and> (\<forall>n \<in> fst ` set (answers s). n < sh_prompts s) \<and>
     (\<forall>p. sh_pending s = Some p \<longrightarrow> pr_id p < sh_prompts s \<and> pr_id p \<notin> fst ` set (answers s)) \<and>
     length (filter snd (answers s)) \<le> k"

lemma answers_emit [simp]:
  "answers (host_emit (Settled n b) s) = answers s @ [(n, b)]" "answers (host_emit (Asked n) s) = answers s"
  "answers (host_emit EnrollExpired s) = answers s" "answers (host_emit (StatusLine x) s) = answers s"
  "sh_pending (host_emit y s) = sh_pending s" "sh_prompts (host_emit y s) = sh_prompts s"
  by (simp_all add: answers_def host_emit_def map_filter_def)

lemma prompts_ok_fields [simp]:
  "prompts_ok k (s\<lparr>sh_chain := c\<rparr>) = prompts_ok k s" "prompts_ok k (s\<lparr>sh_enrolling := l\<rparr>) = prompts_ok k s"
  "prompts_ok k (s\<lparr>sh_liveEnrolls := x\<rparr>) = prompts_ok k s" "prompts_ok k (s\<lparr>sh_next := n\<rparr>) = prompts_ok k s"
  "prompts_ok k (s\<lparr>sh_enroll := i\<rparr>) = prompts_ok k s" "prompts_ok k (stop_enroll s) = prompts_ok k s"
  by (simp_all add: prompts_ok_def answers_def stop_enroll_def)

lemma answers_pending [simp]: "answers (s\<lparr>sh_pending := x\<rparr>) = answers s"
  by (simp add: answers_def)

lemma settle_ok: "prompts_ok k s \<Longrightarrow> prompts_ok (if a then k + 1 else k) (settleApproval a s)"
  by (cases "sh_pending s") (auto simp: settleApproval_def prompts_ok_def)

lemma settle_no: "prompts_ok k s \<Longrightarrow> prompts_ok k (settleApproval False s)"
  using settle_ok [of k s False] by simp

lemma ask_ok:
  assumes "prompts_ok k s"
  shows "prompts_ok k (host_emit (Asked n) (s\<lparr>sh_pending := Some \<lparr>pr_id = sh_prompts s, pr_sas = sas, pr_label = label\<rparr>,
    sh_prompts := sh_prompts s + 1\<rparr>))"
proof -
  have "answers (s\<lparr>sh_pending := x, sh_prompts := m\<rparr>) = answers s" for x m by (simp add: answers_def)
  with assms show ?thesis by (auto simp: prompts_ok_def)
qed

lemma emit_ok: "prompts_ok k s \<Longrightarrow> (\<forall>n b. x \<noteq> Settled n b) \<Longrightarrow> prompts_ok k (host_emit x s)"
  by (cases x) (auto simp: prompts_ok_def)

definition says_yes :: "host_event \<Rightarrow> bool" where
  "says_yes e \<longleftrightarrow> e = SyncEnrollApprove True"

lemma chain_turn_out [simp]:
  "sh_out (chain_turn ok s) = sh_out s" "sh_pending (chain_turn ok s) = sh_pending s" "sh_prompts (chain_turn ok s) = sh_prompts s"
  by (simp_all add: chain_turn_def start_turn_def job_done_def stopSyncSessions_def split: list.split job.split turn.split)

lemma prompts_chain: "prompts_ok k (chain_turn ok s) = prompts_ok k s"
  by (simp add: prompts_ok_def answers_def)

lemma step_prompts:
  assumes ok: "prompts_ok k s"
  shows "prompts_ok (if says_yes e then k + 1 else k) (handleHostMessage e s)"
proof (cases e)
  case SyncDisconnect
  have "prompts_ok k (handleHostMessage SyncDisconnect s)"
    using settle_no [OF ok] by (simp add: Let_def)
  with SyncDisconnect show ?thesis by (simp add: says_yes_def)
next
  case (EnrollResumes t b)
  have "prompts_ok k (settleApproval False (s\<lparr>sh_liveEnrolls := x\<rparr>))" for x by (rule settle_no) (simp add: ok)
  with ok show ?thesis
    unfolding EnrollResumes by (simp add: says_yes_def Let_def split: option.split enroll_phase.split)
next
  case SyncEnrollStop
  have "prompts_ok k (stop_enroll (settleApproval False s))"
    using settle_no [OF ok] by simp
  then show ?thesis unfolding SyncEnrollStop by (simp add: says_yes_def emit_ok)
next
  case (SyncEnrollApprove a)
  with settle_ok [OF ok, of a] show ?thesis by (cases a) (simp_all add: says_yes_def)
next
  case (JoinerAsks i sas label)
  with ok ask_ok [OF ok] show ?thesis by (simp add: says_yes_def)
next
  case (InviteExpires i)
  have "prompts_ok k (host_emit EnrollExpired (settleApproval False s))" by (rule emit_ok [OF settle_no [OF ok]]) simp
  with InviteExpires ok show ?thesis by (simp add: says_yes_def)
qed (use ok in \<open>simp_all add: says_yes_def prompts_chain\<close>)

lemma run_prompts: "prompts_ok k s \<Longrightarrow> prompts_ok (k + length (filter says_yes es)) (host_run es s)"
proof (induction es arbitrary: s k)
  case (Cons e es)
  from Cons.IH [OF step_prompts [OF Cons.prems, of e]] show ?case by (cases "says_yes e") simp_all
qed simp

text \<open>What a message does to the prompts: at most the pending one is answered, and a new one takes a fresh number.\<close>

lemma handle_prompts:
  "(answers (handleHostMessage e s) = answers s \<or>
     (\<exists>p b. sh_pending s = Some p \<and> answers (handleHostMessage e s) = answers s @ [(pr_id p, b)])) \<and>
   (sh_pending (handleHostMessage e s) \<in> {None, sh_pending s} \<or>
     (\<exists>q. sh_pending (handleHostMessage e s) = Some q \<and> pr_id q = sh_prompts s)) \<and>
   sh_prompts s \<le> sh_prompts (handleHostMessage e s)"
proof -
  have settle: "(answers (settleApproval a u) = answers u \<or>
       (\<exists>p b. sh_pending u = Some p \<and> answers (settleApproval a u) = answers u @ [(pr_id p, b)])) \<and>
     sh_pending (settleApproval a u) = None \<and> sh_prompts (settleApproval a u) = sh_prompts u" for a u
    by (auto simp: settleApproval_def host_emit_def answers_def map_filter_def split: option.split)
  have same: "answers (u\<lparr>sh_liveEnrolls := x\<rparr>) = answers u" "answers (u\<lparr>sh_chain := c\<rparr>) = answers u"
    "answers (u\<lparr>sh_enrolling := l, sh_liveEnrolls := x, sh_next := n\<rparr>) = answers u" "answers (u\<lparr>sh_enrolling := l\<rparr>) = answers u"
    "answers (u\<lparr>sh_enrolling := l, sh_liveEnrolls := x\<rparr>) = answers u" "answers (u\<lparr>sh_enrolling := l, sh_enroll := i\<rparr>) = answers u"
    "answers (stop_enroll u) = answers u" "sh_pending (stop_enroll u) = sh_pending u" "sh_prompts (stop_enroll u) = sh_prompts u"
    "answers (u\<lparr>sh_pending := q, sh_prompts := m\<rparr>) = answers u" for u x c l n i q m
    by (simp_all add: answers_def stop_enroll_def)
  have chain: "answers (chain_turn ok u) = answers u" for ok u
    by (simp add: answers_def)
  show ?thesis
    using settle [of _ s] settle [of False "s\<lparr>sh_liveEnrolls := filter (\<lambda>i. Some i \<noteq> sh_enroll s) (sh_liveEnrolls s)\<rparr>"]
    by (cases e) (auto simp: Let_def same chain split: option.split enroll_phase.split)
qed

lemma answers_kept: "set (answers s) \<subseteq> set (answers (host_run es s))"
proof (induction es arbitrary: s)
  case (Cons e es)
  have "set (answers s) \<subseteq> set (answers (handleHostMessage e s))"
    using handle_prompts [of e s] by auto
  with Cons [of "handleHostMessage e s"] show ?case by simp
qed simp

text \<open>A prompt that was replaced without an answer gets none.\<close>

definition gone :: "nat \<Rightarrow> sync_host \<Rightarrow> bool" where
  "gone n s \<longleftrightarrow> n < sh_prompts s \<and> n \<notin> fst ` set (answers s) \<and> (\<forall>q. sh_pending s = Some q \<longrightarrow> pr_id q \<noteq> n)"

lemma gone_step: "gone n s \<Longrightarrow> gone n (handleHostMessage e s)"
  using handle_prompts [of e s] unfolding gone_def by (elim conjE disjE) auto

lemma gone_run: "gone n s \<Longrightarrow> gone n (host_run es s)"
  by (induction es arbitrary: s) (simp_all add: gone_step)

lemma run_ok: "prompts_ok (length (filter says_yes es)) (host_run es new_host)"
proof -
  have "prompts_ok 0 new_host" by (simp add: prompts_ok_def answers_def new_host_def map_filter_def)
  from run_prompts [OF this, of es] show ?thesis by simp
qed

text \<open>The messages that put an end to a prompt: a refusal, a closed invite, a disconnect, a new enrollment once its
  module is loaded, and the expiry of an invite.\<close>

fun dismisses :: "host_event \<Rightarrow> sync_host \<Rightarrow> bool" where
  "dismisses SyncDisconnect s \<longleftrightarrow> True"
| "dismisses SyncEnrollStop s \<longleftrightarrow> True"
| "dismisses (SyncEnrollApprove a) s \<longleftrightarrow> \<not> a"
| "dismisses (InviteExpires i) s \<longleftrightarrow> i \<in> set (sh_liveEnrolls s)"
| "dismisses (EnrollResumes t ok) s \<longleftrightarrow> ok \<and> (\<exists>r. map_of (sh_enrolling s) t = Some (EnrollLoading r))"
| "dismisses e s \<longleftrightarrow> False"

lemma dismissed_refused:
  assumes "sh_pending s = Some p" "dismisses e s"
  shows "answers (handleHostMessage e s) = answers s @ [(pr_id p, False)]"
proof -
  have same: "answers (u\<lparr>sh_chain := c\<rparr>) = answers u" "answers (u\<lparr>sh_liveEnrolls := x\<rparr>) = answers u"
    "answers (u\<lparr>sh_enrolling := l, sh_liveEnrolls := x, sh_next := n\<rparr>) = answers u" "answers (stop_enroll u) = answers u" for u c x l n
    by (simp_all add: answers_def stop_enroll_def)
  have settle: "answers (settleApproval False u) = answers u @ [(pr_id p, False)]" if "sh_pending u = Some p" for u
    using that by (simp add: settleApproval_def)
  show ?thesis
    using assms settle [of s] settle [of "s\<lparr>sh_liveEnrolls := filter (\<lambda>i. Some i \<noteq> sh_enroll s) (sh_liveEnrolls s)\<rparr>"]
    by (cases "(e, s)" rule: dismisses.cases) (auto simp: Let_def same)
qed

text \<open>Property C38: a pairing prompt gets at most one answer, and what puts an end to it refuses it. However invites,
  joiners, expiries, disconnects and clicks follow each other, no prompt is answered twice and no more prompts are
  approved than the user said yes. A prompt that is shown when the user refuses, the invite is closed or expires, sync
  is disconnected or another enrollment begins is refused at that moment, and no click that comes later approves it; a
  prompt that another joiner's replaces is never answered.\<close>

theorem prompt_gets_one_answer:
  "distinct (map fst (answers (host_run es new_host))) \<and>
   length (filter snd (answers (host_run es new_host))) \<le> length (filter says_yes es) \<and>
   (\<forall>p e later. sh_pending (host_run es new_host) = Some p \<and> dismisses e (host_run es new_host) \<longrightarrow>
      answers (host_run (es @ [e]) new_host) = answers (host_run es new_host) @ [(pr_id p, False)] \<and>
      (pr_id p, True) \<notin> set (answers (host_run (es @ e # later) new_host))) \<and>
   (\<forall>p i sas label later. sh_pending (host_run es new_host) = Some p \<and> i \<in> set (sh_liveEnrolls (host_run es new_host)) \<longrightarrow>
      pr_id p \<notin> fst ` set (answers (host_run (es @ JoinerAsks i sas label # later) new_host)))"
proof (intro conjI allI impI)
  show "distinct (map fst (answers (host_run es new_host)))"
    "length (filter snd (answers (host_run es new_host))) \<le> length (filter says_yes es)"
    using run_ok [of es] by (simp_all add: prompts_ok_def)
next
  fix p e later
  let ?s = "host_run es new_host"
  assume p: "sh_pending ?s = Some p \<and> dismisses e ?s"
  then show r: "answers (host_run (es @ [e]) new_host) = answers ?s @ [(pr_id p, False)]"
    using dismissed_refused [of ?s p e] by (simp add: host_run_def)
  have "set (answers (host_run (es @ [e]) new_host)) \<subseteq> set (answers (host_run (es @ e # later) new_host))"
    using answers_kept [of "host_run (es @ [e]) new_host" later] by (simp add: host_run_def)
  with r have "(pr_id p, False) \<in> set (answers (host_run (es @ e # later) new_host))" by auto
  moreover have "distinct (map fst (answers (host_run (es @ e # later) new_host)))"
    using run_ok [of "es @ e # later"] by (simp add: prompts_ok_def)
  ultimately show "(pr_id p, True) \<notin> set (answers (host_run (es @ e # later) new_host))"
    by (metis eq_key_imp_eq_value)
next
  fix p i sas label later
  let ?s = "host_run es new_host"
  assume a: "sh_pending ?s = Some p \<and> i \<in> set (sh_liveEnrolls ?s)"
  then have "gone (pr_id p) (handleHostMessage (JoinerAsks i sas label) ?s)"
    using run_ok [of es] by (auto simp: gone_def prompts_ok_def answers_def host_emit_def map_filter_def)
  from gone_run [OF this, of later] show "pr_id p \<notin> fst ` set (answers (host_run (es @ JoinerAsks i sas label # later) new_host))"
    by (simp add: gone_def host_run_def)
qed

theorem prompt_gets_one_answer_witness:
  "(1, True) \<notin> set (answers (host_run ([SyncEnroll 1 Inviter, EnrollResumes 1 True, EnrollResumes 1 True, JoinerAsks 0 ''111111'' ''phone'',
      JoinerAsks 0 ''222222'' ''tablet''] @ SyncEnrollStop # [SyncEnrollApprove True]) new_host))"
proof -
  let ?es = "[SyncEnroll 1 Inviter, EnrollResumes 1 True, EnrollResumes 1 True, JoinerAsks 0 ''111111'' ''phone'',
      JoinerAsks 0 ''222222'' ''tablet'']"
  have "sh_pending (host_run ?es new_host) = Some \<lparr>pr_id = 1, pr_sas = ''222222'', pr_label = ''tablet''\<rparr>" by code_simp
  then have p: "sh_pending (host_run ?es new_host) = Some \<lparr>pr_id = 1, pr_sas = ''222222'', pr_label = ''tablet''\<rparr> \<and>
      dismisses SyncEnrollStop (host_run ?es new_host)"
    by (simp only: dismisses.simps)
  note refused = prompt_gets_one_answer [of ?es, THEN conjunct2, THEN conjunct2, THEN conjunct1, rule_format, OF p,
      of "[SyncEnrollApprove True]", THEN conjunct2]
  show ?thesis
    using refused unfolding prompt.simps .
qed

text \<open>Enrollment starts are not serialised. Two invites that overlap leave one session that nothing can stop, and an
  invite closed while it starts goes on listening.\<close>

definition running_unheld :: "sync_host \<Rightarrow> nat list" where
  "running_unheld s = filter (\<lambda>i. sh_enroll s \<noteq> Some i) (sh_liveEnrolls s)"

lemma overlapping_invites_leak_a_session:
  "(let s = host_run [SyncEnroll 1 Inviter, SyncEnroll 2 Inviter, EnrollResumes 1 True, EnrollResumes 2 True, EnrollResumes 1 True,
      EnrollResumes 2 True, SyncEnrollStop, SyncDisconnect] new_host
    in sh_enroll s = None \<and> sh_enrolling s = [] \<and> running_unheld s = [0])"
  by code_simp

lemma invite_closed_while_starting_still_asks:
  "(let s = host_run [SyncEnroll 1 Inviter, EnrollResumes 1 True, SyncEnrollStop, EnrollResumes 1 True, JoinerAsks 0 ''123456'' ''laptop'']
      new_host in enroll_pending s = Some (''123456'', ''laptop''))"
  by code_simp

text \<open>An answer names no prompt: the click meant for the first is taken for the one that came since.\<close>

lemma click_is_taken_for_the_newest_prompt:
  "answers (host_run [SyncEnroll 1 Inviter, EnrollResumes 1 True, EnrollResumes 1 True, JoinerAsks 0 ''111111'' ''phone'',
      SyncEnroll 2 Inviter, EnrollResumes 2 True, EnrollResumes 2 True, JoinerAsks 1 ''222222'' ''laptop'', SyncEnrollApprove True]
      new_host) = [(0, False), (1, True)]"
  by code_simp

subsection \<open>The desktop app as a peer\<close>

text \<open>Channels are named by their place in \<open>lp_offered\<close>, which lists what each of them was handed.\<close>

record link_peer =
  lp_deliver :: "nat option"
  lp_declinedUntil :: nat
  lp_stopped :: bool
  lp_offered :: "string list list"

definition REOFFER_AFTER_MS :: nat where
  "REOFFER_AFTER_MS = 30000"

definition offer :: "nat \<Rightarrow> link_peer \<Rightarrow> link_peer" where
  "offer now s =
     (if lp_stopped s \<or> lp_deliver s \<noteq> None then s
      else if now < lp_declinedUntil s then s
      else s\<lparr>lp_deliver := Some (length (lp_offered s)), lp_offered := lp_offered s @ [[]]\<rparr>)"

datatype peer_event = AppFrame nat string | SendGave bool | PeerClosed nat | PeerStop

text \<open>A send or a close of any channel, an old one too, forgets the one that is delivered to.\<close>

fun peer_step :: "peer_event \<Rightarrow> link_peer \<Rightarrow> link_peer" where
  "peer_step (AppFrame now f) s =
     (if lp_stopped s then s
      else let s1 = (if lp_deliver s = None then offer now s else s)
        in case lp_deliver s1 of
          Some c \<Rightarrow> s1\<lparr>lp_offered := (lp_offered s1)[c := lp_offered s1 ! c @ [f]]\<rparr>
        | None \<Rightarrow> s1)"
| "peer_step (SendGave ok) s = (if ok then s else s\<lparr>lp_deliver := None\<rparr>)"
| "peer_step (PeerClosed now) s = s\<lparr>lp_deliver := None, lp_declinedUntil := now + REOFFER_AFTER_MS\<rparr>"
| "peer_step PeerStop s = s\<lparr>lp_stopped := True, lp_deliver := None\<rparr>"

text \<open>The frame that brings the app back is delivered to the peer it brings.\<close>

lemma frame_is_not_lost:
  assumes "\<not> lp_stopped s" "lp_declinedUntil s \<le> now" "lp_deliver s = None"
  shows "last (lp_offered (peer_step (AppFrame now f) s)) = [f] \<and>
    lp_deliver (peer_step (AppFrame now f) s) = Some (length (lp_offered s))"
  using assms by (simp add: offer_def Let_def)

text \<open>A refusal holds for half a minute and no longer.\<close>

lemma refusal_is_bounded:
  assumes "\<not> lp_stopped s"
  shows "lp_deliver (peer_step (AppFrame later f) (peer_step (PeerClosed now) s)) \<noteq> None \<longleftrightarrow> now + REOFFER_AFTER_MS \<le> later"
  using assms by (simp add: offer_def Let_def)

definition new_peer :: link_peer where
  "new_peer = \<lparr>lp_deliver = None, lp_declinedUntil = 0, lp_stopped = False, lp_offered = []\<rparr>"

text \<open>The close of a peer that was already replaced drops the one that replaced it.\<close>

lemma late_close_drops_the_new_peer:
  "(let s = fold peer_step [AppFrame 0 ''a'', SendGave False, AppFrame 1 ''b'', PeerClosed 2, AppFrame 3 ''c''] new_peer
    in lp_offered s = [[''a''], [''b'']] \<and> lp_deliver s = None)"
  by (simp add: Let_def offer_def new_peer_def REOFFER_AFTER_MS_def)

end
