(* ===== verification/Sync_Control.thy ===== *)
theory Sync_Control
  imports Vek_Store Sync_Host
begin

text \<open>
  Continuous sync as the background drives it (\<open>packages/platform-extension/src/background/sync.ts\<close>): starting it
  after an unlock, stopping it on a lock, and the messages both send to the sync host.

  \<open>maybeStartSync\<close> and \<open>stopSync\<close> are tasks over the results of their awaits. The vault keys are the store of
  \<open>Vek_Store\<close> in any state; the host is \<open>Sync_Host\<close>. Messages reach the host in the order they are handed over.
\<close>

subsection \<open>State and messages\<close>

text \<open>What a start hands over: relay, ICE endpoint, group key, roster, and this device's two keys.\<close>

record roster_msg =
  rm_relayUrl :: string
  rm_iceUrl :: string
  rm_groupKey :: string
  rm_roster :: string
  rm_devicePriv :: string
  rm_devicePub :: string

datatype control_output =
    RosterMsg nat nat roster_msg
  | DisconnectMsg nat
  | LinkOpened
  | LinkClosed
  | Abandoned nat string

datatype start_phase =
    AwaitStop
  | Resolving
  | ReadingGroup
  | ReadingKeypair "(string \<times> string) option"
  | ReadingRelay "string \<times> string" "string \<times> string"
  | ReadingIce "string \<times> string" "string \<times> string" string
  | HandingOver

record start_task =
  st_epoch :: nat
  st_vekEpoch :: nat
  st_requires :: bool
  st_phase :: start_phase

datatype stop_phase = ClearingAlarm | Disconnecting | StopDone | StopThrew

record sync_control =
  cc_running :: bool
  cc_epoch :: nat
  cc_vek :: vek_state
  cc_stops :: "(nat \<times> stop_phase) list"
  cc_starts :: "(nat \<times> start_task) list"
  cc_log :: "control_output list"

definition log_output :: "control_output \<Rightarrow> sync_control \<Rightarrow> sync_control" where
  "log_output x s = s\<lparr>cc_log := cc_log s @ [x]\<rparr>"

definition end_start :: "nat \<Rightarrow> sync_control \<Rightarrow> sync_control" where
  "end_start t s = s\<lparr>cc_starts := AList.delete t (cc_starts s)\<rparr>"

definition next_phase :: "nat \<Rightarrow> start_task \<Rightarrow> start_phase \<Rightarrow> sync_control \<Rightarrow> sync_control" where
  "next_phase t k p s = s\<lparr>cc_starts := AList.update t (k\<lparr>st_phase := p\<rparr>) (cc_starts s)\<rparr>"

text \<open>\<open>sessionMoved\<close>.\<close>

definition sessionMoved :: "start_task \<Rightarrow> sync_control \<Rightarrow> bool" where
  "sessionMoved k s \<longleftrightarrow>
     st_epoch k \<noteq> cc_epoch s \<or> \<not> vekMutationIsCurrent (st_vekEpoch k) (cc_vek s) \<or>
     st_requires k \<and> activeVaultLocked (cc_vek s)"

definition abandonStart :: "nat \<Rightarrow> start_task \<Rightarrow> string \<Rightarrow> sync_control \<Rightarrow> sync_control" where
  "abandonStart t k stage s = end_start t (log_output (Abandoned (st_epoch k) stage) s)"

subsection \<open>Starting\<close>

definition start_called :: "nat \<Rightarrow> nat option \<Rightarrow> sync_control \<Rightarrow> sync_control" where
  "start_called t expectedVekEpoch s =
     s\<lparr>cc_starts := (t, \<lparr>st_epoch = cc_epoch s,
          st_vekEpoch = (case expectedVekEpoch of Some e \<Rightarrow> e | None \<Rightarrow> mutationEpoch (cc_vek s)),
          st_requires = (expectedVekEpoch \<noteq> None), st_phase = AwaitStop\<rparr>) # cc_starts s\<rparr>"

datatype start_result = GotVault bool | GotPair "(string \<times> string) option" | GotText string | GotDone | Threw

text \<open>\<open>stopInFlight\<close> is the newest stop as the start found it, the one of its epoch.\<close>

definition stop_over :: "nat \<Rightarrow> sync_control \<Rightarrow> stop_phase option" where
  "stop_over e s = (if e = 0 then Some StopDone else map_of (cc_stops s) e)"

fun start_resumes :: "nat \<Rightarrow> start_task \<Rightarrow> start_phase \<Rightarrow> start_result \<Rightarrow> sync_control \<Rightarrow> sync_control" where
  "start_resumes t k AwaitStop r s =
     (case stop_over (st_epoch k) s of
        Some StopDone \<Rightarrow>
          if sessionMoved k s then abandonStart t k ''the disconnect barrier'' s else next_phase t k Resolving s
      | Some StopThrew \<Rightarrow> end_start t s
      | _ \<Rightarrow> s)"
| "start_resumes t k Resolving (GotVault found) s =
     (if \<not> found then end_start t s
      else if sessionMoved k s then abandonStart t k ''resolving the vault'' s
      else next_phase t k ReadingGroup s)"
| "start_resumes t k ReadingGroup (GotPair gr) s = next_phase t k (ReadingKeypair gr) s"
| "start_resumes t k (ReadingKeypair gr) (GotPair kp) s =
     (case (gr, kp) of
        (Some g, Some d) \<Rightarrow>
          if sessionMoved k s then abandonStart t k ''reading the group'' s
          else if cc_running s then end_start t s
          else next_phase t k (ReadingRelay g d) (s\<lparr>cc_running := True\<rparr>)
      | _ \<Rightarrow> end_start t s)"
| "start_resumes t k (ReadingRelay g d) (GotText relay) s = next_phase t k (ReadingIce g d relay) s"
| "start_resumes t k (ReadingIce g d relay) (GotText ice) s =
     (if sessionMoved k s
      then abandonStart t k ''the final check before handing the roster to the host'' (s\<lparr>cc_running := False\<rparr>)
      else next_phase t k HandingOver
        (log_output (RosterMsg (st_epoch k) (st_vekEpoch k)
           \<lparr>rm_relayUrl = relay, rm_iceUrl = ice, rm_groupKey = fst g, rm_roster = snd g, rm_devicePriv = fst d, rm_devicePub = snd d\<rparr>) s))"
| "start_resumes t k HandingOver GotDone s = end_start t (log_output LinkOpened s)"
| "start_resumes t k p Threw s = end_start t s"
| "start_resumes t k p r s = s"

subsection \<open>Stopping\<close>

text \<open>Where the host suspends (Firefox) the keepalive alarm is cleared first, which waits.\<close>

definition stopSync :: "bool \<Rightarrow> sync_control \<Rightarrow> sync_control" where
  "stopSync suspends s =
     (let n = cc_epoch s + 1;
          s1 = log_output LinkClosed (s\<lparr>cc_epoch := n, cc_running := False\<rparr>)
      in if suspends then s1\<lparr>cc_stops := (n, ClearingAlarm) # cc_stops s1\<rparr>
         else (log_output (DisconnectMsg n) s1)\<lparr>cc_stops := (n, Disconnecting) # cc_stops s1\<rparr>)"

definition stop_resumes :: "nat \<Rightarrow> bool \<Rightarrow> sync_control \<Rightarrow> sync_control" where
  "stop_resumes n ok s =
     (case map_of (cc_stops s) n of
        Some ClearingAlarm \<Rightarrow>
          if \<not> ok then s\<lparr>cc_stops := AList.update n StopThrew (cc_stops s)\<rparr>
          else if n \<noteq> cc_epoch s then s\<lparr>cc_stops := AList.update n StopDone (cc_stops s)\<rparr>
          else (log_output (DisconnectMsg n) s)\<lparr>cc_stops := AList.update n Disconnecting (cc_stops s)\<rparr>
      | Some Disconnecting \<Rightarrow> s\<lparr>cc_stops := AList.update n StopDone (cc_stops s)\<rparr>
      | _ \<Rightarrow> s)"

datatype control_event =
    StartCalled nat "nat option"
  | StartResumes nat start_result
  | StopCalled
  | StopResumes nat bool
  | VekBecomes vek_state

fun control_step :: "bool \<Rightarrow> control_event \<Rightarrow> sync_control \<Rightarrow> sync_control" where
  "control_step suspends (StartCalled t e) s = (if map_of (cc_starts s) t = None then start_called t e s else s)"
| "control_step suspends (StartResumes t r) s =
     (case map_of (cc_starts s) t of Some k \<Rightarrow> start_resumes t k (st_phase k) r s | None \<Rightarrow> s)"
| "control_step suspends StopCalled s = stopSync suspends s"
| "control_step suspends (StopResumes n ok) s = stop_resumes n ok s"
| "control_step suspends (VekBecomes v) s = s\<lparr>cc_vek := v\<rparr>"

definition control_run :: "bool \<Rightarrow> control_event list \<Rightarrow> sync_control \<Rightarrow> sync_control" where
  "control_run suspends es s = fold (control_step suspends) es s"

definition new_control :: "vek_state \<Rightarrow> sync_control" where
  "new_control v = \<lparr>cc_running = False, cc_epoch = 0, cc_vek = v, cc_stops = [], cc_starts = [], cc_log = []\<rparr>"

subsection \<open>Messages follow the session order\<close>

text \<open>A disconnect comes before what its session sends, and after what the session before it sent.\<close>

fun rank :: "control_output \<Rightarrow> nat option" where
  "rank (RosterMsg e v m) = Some (2 * e + 1)"
| "rank (DisconnectMsg e) = Some (2 * e)"
| "rank _ = None"

definition ranks :: "sync_control \<Rightarrow> nat list" where
  "ranks s = List.map_filter rank (cc_log s)"

definition past_barrier :: "start_task \<Rightarrow> bool" where
  "past_barrier k \<longleftrightarrow> st_phase k \<noteq> AwaitStop"

definition starts_ok :: "sync_control \<Rightarrow> bool" where
  "starts_ok s \<longleftrightarrow> (\<forall>t k. map_of (cc_starts s) t = Some k \<longrightarrow>
     st_epoch k \<le> cc_epoch s \<and> (past_barrier k \<longrightarrow> stop_over (st_epoch k) s = Some StopDone))"

definition stops_ok :: "sync_control \<Rightarrow> bool" where
  "stops_ok s \<longleftrightarrow>
     (\<forall>n p. map_of (cc_stops s) n = Some p \<longrightarrow> 0 < n \<and> n \<le> cc_epoch s \<and>
        (p = ClearingAlarm \<longrightarrow> 2 * n + 1 \<notin> set (ranks s)) \<and>
        (n = cc_epoch s \<longrightarrow> p = Disconnecting \<or> p = StopDone \<longrightarrow> DisconnectMsg n \<in> set (cc_log s)))"

definition order_inv :: "sync_control \<Rightarrow> bool" where
  "order_inv s \<longleftrightarrow> sorted (ranks s) \<and> (\<forall>r \<in> set (ranks s). r \<le> 2 * cc_epoch s + 1) \<and> starts_ok s \<and> stops_ok s"

lemma ranks_log [simp]:
  "ranks (log_output x s) = ranks s @ (case rank x of Some r \<Rightarrow> [r] | None \<Rightarrow> [])"
  by (cases "rank x") (simp_all add: ranks_def log_output_def map_filter_def)

lemma control_fields [simp]:
  "cc_epoch (log_output x s) = cc_epoch s" "cc_stops (log_output x s) = cc_stops s" "cc_starts (log_output x s) = cc_starts s"
  "cc_log (log_output x s) = cc_log s @ [x]" "cc_vek (log_output x s) = cc_vek s" "cc_running (log_output x s) = cc_running s"
  "cc_epoch (end_start t s) = cc_epoch s" "cc_stops (end_start t s) = cc_stops s" "cc_log (end_start t s) = cc_log s"
  "cc_epoch (next_phase t k p s) = cc_epoch s" "cc_stops (next_phase t k p s) = cc_stops s" "cc_log (next_phase t k p s) = cc_log s"
  "ranks (end_start t s) = ranks s" "ranks (next_phase t k p s) = ranks s" "ranks (s\<lparr>cc_running := b\<rparr>) = ranks s"
  "ranks (s\<lparr>cc_vek := v\<rparr>) = ranks s" "ranks (s\<lparr>cc_stops := l\<rparr>) = ranks s" "ranks (s\<lparr>cc_epoch := n\<rparr>) = ranks s"
  "ranks (s\<lparr>cc_starts := q\<rparr>) = ranks s"
  by (simp_all add: log_output_def end_start_def next_phase_def ranks_def)

lemma stop_over_cong: "cc_stops s' = cc_stops s \<Longrightarrow> stop_over e s' = stop_over e s"
  by (simp add: stop_over_def)

text \<open>Steps that leave the stops alone and log nothing the host gets.\<close>

lemma order_quiet:
  assumes "order_inv s" "ranks s' = ranks s" "cc_epoch s' = cc_epoch s" "cc_stops s' = cc_stops s" "set (cc_log s) \<subseteq> set (cc_log s')"
    "starts_ok s'"
  shows "order_inv s'"
  using assms unfolding order_inv_def stops_ok_def by (metis subsetD)

lemma starts_keep:
  assumes "starts_ok s" "cc_epoch s' = cc_epoch s" "cc_stops s' = cc_stops s"
    "\<And>u k. map_of (cc_starts s') u = Some k \<Longrightarrow> map_of (cc_starts s) u = Some k \<or>
      st_epoch k \<le> cc_epoch s \<and> stop_over (st_epoch k) s = Some StopDone"
  shows "starts_ok s'"
  using assms(1,4) unfolding starts_ok_def stop_over_cong [OF assms(3)] assms(2) by blast

lemma starts_end: "starts_ok s \<Longrightarrow> cc_epoch s' = cc_epoch s \<Longrightarrow> cc_stops s' = cc_stops s \<Longrightarrow>
    cc_starts s' = AList.delete t (cc_starts s) \<Longrightarrow> starts_ok s'"
  by (erule starts_keep) (auto simp: delete_conv' split: if_splits)

lemma starts_next:
  assumes "starts_ok s" "cc_epoch s' = cc_epoch s" "cc_stops s' = cc_stops s"
    "cc_starts s' = AList.update t (k\<lparr>st_phase := p\<rparr>) (cc_starts s)" "st_epoch k \<le> cc_epoch s"
    "stop_over (st_epoch k) s = Some StopDone"
  shows "starts_ok s'"
  by (rule starts_keep [OF assms(1-3)]) (use assms(4-6) in \<open>auto simp: update_conv' split: if_splits\<close>)

lemma starts_same:
  assumes "starts_ok s" "cc_epoch s' = cc_epoch s" "cc_stops s' = cc_stops s" "cc_starts s' = cc_starts s"
  shows "starts_ok s'"
  by (rule starts_keep [OF assms(1-3)]) (use assms(4) in simp)

lemma ended_inv:
  assumes "order_inv s"
  shows "order_inv (end_start t s)" "order_inv (abandonStart t k st s)" "order_inv (abandonStart t k st (s\<lparr>cc_running := b\<rparr>))"
    "order_inv (end_start t (log_output LinkOpened s))"
proof -
  have "starts_ok s" using assms by (simp add: order_inv_def)
  note e = starts_end [OF this]
  show "order_inv (end_start t s)" by (rule order_quiet [OF assms]) (auto simp: end_start_def ranks_def intro: e)
  show "order_inv (abandonStart t k st s)"
    by (rule order_quiet [OF assms]) (auto simp: abandonStart_def intro: e simp: end_start_def log_output_def ranks_def map_filter_def)
  show "order_inv (abandonStart t k st (s\<lparr>cc_running := b\<rparr>))"
    by (rule order_quiet [OF assms]) (auto simp: abandonStart_def intro: e simp: end_start_def log_output_def ranks_def map_filter_def)
  show "order_inv (end_start t (log_output LinkOpened s))"
    by (rule order_quiet [OF assms]) (auto simp: intro: e simp: end_start_def log_output_def ranks_def map_filter_def)
qed

lemma next_inv:
  assumes "order_inv s" "st_epoch k \<le> cc_epoch s" "stop_over (st_epoch k) s = Some StopDone"
  shows "order_inv (next_phase t k p s)" "order_inv (next_phase t k p (s\<lparr>cc_running := b\<rparr>))"
proof -
  have "starts_ok s" using assms(1) by (simp add: order_inv_def)
  note n = starts_next [OF this _ _ _ assms(2,3)]
  show "order_inv (next_phase t k p s)" by (rule order_quiet [OF assms(1)]) (auto simp: next_phase_def ranks_def intro: n)
  show "order_inv (next_phase t k p (s\<lparr>cc_running := b\<rparr>))"
    by (rule order_quiet [OF assms(1)]) (auto simp: next_phase_def ranks_def intro: n)
qed

lemma hand_over_inv:
  assumes inv: "order_inv s" and k: "stop_over (st_epoch k) s = Some StopDone" "\<not> sessionMoved k s"
  shows "order_inv (next_phase t k HandingOver (log_output (RosterMsg (st_epoch k) v m) s))"
proof -
  have e: "st_epoch k = cc_epoch s" using k(2) by (simp add: sessionMoved_def)
  let ?s = "next_phase t k HandingOver (log_output (RosterMsg (st_epoch k) v m) s)"
  have r: "ranks ?s = ranks s @ [2 * cc_epoch s + 1]" using e by simp
  have "starts_ok ?s"
    by (rule starts_next [where k = k and p = HandingOver and t = t]) (use inv k e in \<open>simp_all add: order_inv_def next_phase_def\<close>)
  moreover have "stops_ok ?s"
    unfolding stops_ok_def r
  proof (intro allI impI)
    fix n p
    assume p: "map_of (cc_stops ?s) n = Some p"
    then have n: "0 < n" "n \<le> cc_epoch s" "p = ClearingAlarm \<Longrightarrow> 2 * n + 1 \<notin> set (ranks s)"
      "n = cc_epoch s \<Longrightarrow> p = Disconnecting \<or> p = StopDone \<Longrightarrow> DisconnectMsg n \<in> set (cc_log s)"
      using inv by (auto simp: order_inv_def stops_ok_def)
    have "n \<noteq> cc_epoch s" if "p = ClearingAlarm"
      using k(1) p that n(1) e by (auto simp: stop_over_def)
    with n show "0 < n \<and> n \<le> cc_epoch ?s \<and> (p = ClearingAlarm \<longrightarrow> 2 * n + 1 \<notin> set (ranks s @ [2 * cc_epoch s + 1])) \<and>
        (n = cc_epoch ?s \<longrightarrow> p = Disconnecting \<or> p = StopDone \<longrightarrow> DisconnectMsg n \<in> set (cc_log ?s))"
      by auto
  qed
  moreover have "sorted (ranks ?s)" "\<forall>x \<in> set (ranks ?s). x \<le> 2 * cc_epoch ?s + 1"
    unfolding r using inv by (auto simp: order_inv_def sorted_append)
  ultimately show ?thesis by (simp add: order_inv_def)
qed

lemma start_resumes_inv:
  assumes inv: "order_inv s" and k: "map_of (cc_starts s) t = Some k"
  shows "order_inv (start_resumes t k (st_phase k) r s)"
proof -
  have e: "st_epoch k \<le> cc_epoch s" and past: "st_phase k \<noteq> AwaitStop \<Longrightarrow> stop_over (st_epoch k) s = Some StopDone"
    using inv k by (auto simp: order_inv_def starts_ok_def past_barrier_def)
  note n = next_inv [OF inv e]
  show ?thesis
  proof (cases "st_phase k")
    case AwaitStop
    with ended_inv [OF inv] n inv show ?thesis by (auto split: option.split stop_phase.split)
  next
    case Resolving
    with past ended_inv [OF inv] n inv show ?thesis by (cases r) auto
  next
    case ReadingGroup
    with past ended_inv [OF inv] n inv show ?thesis by (cases r) auto
  next
    case (ReadingKeypair gr)
    with past ended_inv [OF inv] n inv show ?thesis by (cases r) (auto split: option.split)
  next
    case (ReadingRelay g d)
    with past ended_inv [OF inv] n inv show ?thesis by (cases r) auto
  next
    case (ReadingIce g d relay)
    with past ended_inv [OF inv] hand_over_inv [OF inv] inv show ?thesis by (cases r) auto
  next
    case HandingOver
    with past ended_inv [OF inv] inv show ?thesis by (cases r) auto
  qed
qed

lemma start_called_inv:
  assumes inv: "order_inv s" and fresh: "map_of (cc_starts s) t = None"
  shows "order_inv (start_called t e s)"
proof (rule order_quiet [OF inv])
  show "starts_ok (start_called t e s)"
  proof -
    let ?s = "start_called t e s"
    have f: "cc_epoch ?s = cc_epoch s" "stop_over i ?s = stop_over i s" for i by (simp_all add: start_called_def stop_over_def)
    show ?thesis
      unfolding starts_ok_def f
    proof (intro allI impI)
      fix u k
      assume "map_of (cc_starts ?s) u = Some k"
      then have "map_of (cc_starts s) u = Some k \<or> st_epoch k = cc_epoch s \<and> \<not> past_barrier k"
        by (auto simp: start_called_def past_barrier_def split: if_splits)
      moreover have "starts_ok s" using inv by (simp add: order_inv_def)
      ultimately show "st_epoch k \<le> cc_epoch s \<and> (past_barrier k \<longrightarrow> stop_over (st_epoch k) s = Some StopDone)"
        unfolding starts_ok_def by auto
    qed
  qed
qed (simp_all add: start_called_def ranks_def)

lemma stop_called_inv:
  assumes inv: "order_inv s"
  shows "order_inv (stopSync suspends s)"
proof -
  let ?n = "cc_epoch s + 1"
  let ?s = "stopSync suspends s"
  have r: "ranks ?s = ranks s @ (if suspends then [] else [2 * ?n])" and e: "cc_epoch ?s = ?n"
    and st: "cc_starts ?s = cc_starts s" and sp: "cc_stops ?s = (?n, if suspends then ClearingAlarm else Disconnecting) # cc_stops s"
    and l: "set (cc_log s) \<subseteq> set (cc_log ?s)" "\<not> suspends \<Longrightarrow> DisconnectMsg ?n \<in> set (cc_log ?s)"
    by (auto simp: stopSync_def Let_def)
  have low: "x \<in> set (ranks s) \<Longrightarrow> x \<le> 2 * cc_epoch s + 1" for x using inv by (simp add: order_inv_def)
  have "sorted (ranks ?s)" using inv low unfolding r by (fastforce simp: order_inv_def sorted_append)
  moreover have "\<forall>x \<in> set (ranks ?s). x \<le> 2 * cc_epoch ?s + 1" unfolding r e by (auto dest!: low)
  moreover have "starts_ok ?s"
    using inv unfolding starts_ok_def st e order_inv_def by (fastforce simp: stop_over_def sp)
  moreover have "stops_ok ?s"
    unfolding stops_ok_def
  proof (intro allI impI)
    fix n p
    assume p: "map_of (cc_stops ?s) n = Some p"
    show "0 < n \<and> n \<le> cc_epoch ?s \<and> (p = ClearingAlarm \<longrightarrow> 2 * n + 1 \<notin> set (ranks ?s)) \<and>
        (n = cc_epoch ?s \<longrightarrow> p = Disconnecting \<or> p = StopDone \<longrightarrow> DisconnectMsg n \<in> set (cc_log ?s))"
    proof (cases "n = ?n")
      case True
      with p have q: "p = (if suspends then ClearingAlarm else Disconnecting)" by (simp add: sp)
      have "2 * n + 1 \<notin> set (ranks ?s)" using True unfolding r by (auto dest!: low)
      moreover have "DisconnectMsg n \<in> set (cc_log ?s)" if "p = Disconnecting \<or> p = StopDone"
        using l(2) True q that by (auto split: if_splits)
      ultimately show ?thesis using True by (simp add: e)
    next
      case False
      then have n: "0 < n" "n \<le> cc_epoch s" "p = ClearingAlarm \<Longrightarrow> 2 * n + 1 \<notin> set (ranks s)"
        using inv p by (auto simp: order_inv_def stops_ok_def sp)
      then have "p = ClearingAlarm \<Longrightarrow> 2 * n + 1 \<notin> set (ranks ?s)" unfolding r by (auto; presburger)
      with n show ?thesis by (simp add: e)
    qed
  qed
  ultimately show ?thesis by (simp add: order_inv_def)
qed

lemma stop_resumes_inv:
  assumes inv: "order_inv s"
  shows "order_inv (stop_resumes n ok s)"
proof (cases "map_of (cc_stops s) n")
  case (Some p)
  have n: "0 < n" "n \<le> cc_epoch s" "p = ClearingAlarm \<Longrightarrow> 2 * n + 1 \<notin> set (ranks s)"
    "n = cc_epoch s \<Longrightarrow> p = Disconnecting \<or> p = StopDone \<Longrightarrow> DisconnectMsg n \<in> set (cc_log s)"
    using inv Some by (auto simp: order_inv_def stops_ok_def)
  have starts: "starts_ok s'" if "cc_epoch s' = cc_epoch s" "cc_starts s' = cc_starts s" "cc_stops s' = AList.update n q (cc_stops s)"
      "p \<noteq> StopDone" for s' q
  proof -
    have "stop_over i s' = Some StopDone" if "stop_over i s = Some StopDone" for i
      using that Some \<open>p \<noteq> StopDone\<close> \<open>cc_stops s' = _\<close> by (auto simp: stop_over_def update_conv' split: if_splits)
    with inv that(1,2) show ?thesis by (auto simp: order_inv_def starts_ok_def)
  qed
  have upd: "order_inv (s\<lparr>cc_stops := AList.update n q (cc_stops s)\<rparr>)"
    if "p \<noteq> StopDone" "q \<noteq> ClearingAlarm" "n = cc_epoch s \<Longrightarrow> q = StopThrew \<or> DisconnectMsg n \<in> set (cc_log s)" for q
  proof -
    have "stops_ok (s\<lparr>cc_stops := AList.update n q (cc_stops s)\<rparr>)"
      using inv that(2,3) n(1,2) by (auto simp: order_inv_def stops_ok_def update_conv')
    moreover have "starts_ok (s\<lparr>cc_stops := AList.update n q (cc_stops s)\<rparr>)" by (rule starts [OF _ _ _ that(1)]) simp_all
    ultimately show ?thesis using inv by (simp add: order_inv_def)
  qed
  show ?thesis
  proof (cases p)
    case ClearingAlarm
    show ?thesis
    proof (cases "ok \<and> n = cc_epoch s")
      case True
      let ?s = "(log_output (DisconnectMsg n) s)\<lparr>cc_stops := AList.update n Disconnecting (cc_stops s)\<rparr>"
      have low: "x \<le> 2 * n" if "x \<in> set (ranks s)" for x
      proof -
        have "x \<le> 2 * n + 1" using inv that True by (simp add: order_inv_def)
        moreover have "x \<noteq> 2 * n + 1" using n(3) [OF ClearingAlarm] that by blast
        ultimately show ?thesis by simp
      qed
      then have "sorted (ranks ?s)" using inv by (simp add: order_inv_def sorted_append)
      moreover have "\<forall>x \<in> set (ranks ?s). x \<le> 2 * cc_epoch ?s + 1" using True by (auto dest!: low)
      moreover have "starts_ok ?s" by (rule starts [where q = Disconnecting]) (simp_all add: ClearingAlarm)
      moreover have "stops_ok ?s"
        using inv n True by (auto simp: order_inv_def stops_ok_def update_conv')
      ultimately have "order_inv ?s" by (simp add: order_inv_def)
      with Some ClearingAlarm True show ?thesis by (simp add: stop_resumes_def)
    next
      case False
      with Some ClearingAlarm upd show ?thesis by (auto simp: stop_resumes_def)
    qed
  next
    case Disconnecting
    with Some upd n(4) show ?thesis by (simp add: stop_resumes_def)
  qed (use Some inv in \<open>simp_all add: stop_resumes_def\<close>)
qed (use inv in \<open>simp add: stop_resumes_def\<close>)

lemma control_step_inv:
  assumes "order_inv s"
  shows "order_inv (control_step suspends e s)"
proof (cases e)
  case (VekBecomes v)
  have "starts_ok (s\<lparr>cc_vek := v\<rparr>)" by (rule starts_same [of s]) (use assms in \<open>simp_all add: order_inv_def\<close>)
  then have "order_inv (s\<lparr>cc_vek := v\<rparr>)" by (intro order_quiet [OF assms]) simp_all
  with VekBecomes show ?thesis by simp
qed (use assms start_called_inv start_resumes_inv stop_called_inv stop_resumes_inv in \<open>auto split: option.split\<close>)

lemma control_run_inv: "order_inv s \<Longrightarrow> order_inv (control_run suspends es s)"
  by (induction es arbitrary: s) (simp_all add: control_run_def control_step_inv)

lemma new_control_inv: "order_inv (new_control v)"
  by (simp add: order_inv_def starts_ok_def stops_ok_def ranks_def new_control_def map_filter_def)

text \<open>What the host is told follows the order of the sessions. However starts and stops overlap, and
  whether or not the host suspends, the disconnect of a stop is handed over before the roster of any start made
  after it, and after the roster of every start made before it; a start that a stop overtook hands over nothing.\<close>

lemma host_messages_follow_sessions:
  "sorted (ranks (control_run suspends es (new_control v)))"
  using control_run_inv [OF new_control_inv, of suspends es v] by (simp add: order_inv_def)

subsection \<open>A stopped sync stays down\<close>

text \<open>What the messages are to the host: a start with the config of its roster, or a disconnect.\<close>

definition host_config :: "roster_msg \<Rightarrow> sync_config" where
  "host_config m = \<lparr>sc_relayUrl = rm_relayUrl m, sc_iceUrl = Some (rm_iceUrl m), sc_groupKey = rm_groupKey m, sc_devicePub = rm_devicePub m\<rparr>"

fun to_host :: "control_output \<Rightarrow> host_event option" where
  "to_host (RosterMsg e v m) = Some (SyncRosterSync (host_config m))"
| "to_host (DisconnectMsg e) = Some SyncDisconnect"
| "to_host _ = None"

definition sync_message :: "host_event \<Rightarrow> bool" where
  "sync_message e \<longleftrightarrow> starts_sync e \<or> e = SyncDisconnect"

lemma to_host_message: "to_host x = Some e \<Longrightarrow> sync_message e"
  by (cases x) (auto simp: sync_message_def starts_sync_def)

lemma map_filter_snoc: "List.map_filter f (xs @ ys) = List.map_filter f xs @ List.map_filter f ys"
  by (simp add: map_filter_def)

text \<open>In a log in session order the disconnect of the newest session is followed by its rosters only.\<close>

lemma after_last_disconnect:
  assumes "sorted (List.map_filter rank log)" "DisconnectMsg e \<in> set log" "\<forall>v m. RosterMsg e v m \<notin> set log"
    "\<forall>r \<in> set (List.map_filter rank log). r \<le> 2 * e + 1"
  obtains xs ys where "log = xs @ DisconnectMsg e # ys" "\<forall>y \<in> set ys. \<forall>f v m. y \<noteq> RosterMsg f v m"
proof -
  obtain xs ys where l: "log = xs @ DisconnectMsg e # ys" using assms(2) by (auto dest: split_list)
  have "y \<noteq> RosterMsg f v m" if y: "y \<in> set ys" for y f v m
  proof
    assume r: "y = RosterMsg f v m"
    obtain us ws where ys: "ys = us @ y # ws" using y by (auto dest: split_list)
    have "sorted (2 * e # List.map_filter rank ys)"
      using assms(1) unfolding l by (simp add: map_filter_snoc map_filter_simps sorted_append)
    then have "2 * e \<le> 2 * f + 1" using r unfolding ys by (simp add: map_filter_snoc map_filter_simps)
    moreover have "2 * f + 1 \<le> 2 * e + 1" using assms(4) r unfolding l ys by (simp add: map_filter_snoc map_filter_simps)
    ultimately have "f = e" by simp
    with r y assms(3) show False unfolding l by auto
  qed
  with l that show ?thesis by blast
qed

lemma map_filter_split:
  assumes "List.map_filter f zs = as @ a # bs"
  obtains us z ws where "zs = us @ z # ws" "f z = Some a" "List.map_filter f us = as" "List.map_filter f ws = bs"
proof -
  have "\<exists>us z ws. zs = us @ z # ws \<and> f z = Some a \<and> List.map_filter f us = as \<and> List.map_filter f ws = bs"
    using assms
  proof (induction zs arbitrary: as)
    case (Cons x xs)
    show ?case
    proof (cases "f x")
      case None
      with Cons.prems have "List.map_filter f xs = as @ a # bs" by (simp add: map_filter_simps)
      from Cons.IH [OF this] obtain us z ws where "xs = us @ z # ws" "f z = Some a" "List.map_filter f us = as" "List.map_filter f ws = bs" by blast
      with None show ?thesis by (intro exI [of _ "x # us"] exI [of _ z] exI [of _ ws]) (simp add: map_filter_simps)
    next
      case (Some y)
      show ?thesis
      proof (cases as)
        case Nil
        with Cons.prems Some show ?thesis
          by (intro exI [of _ "[]"] exI [of _ x] exI [of _ xs]) (simp add: map_filter_simps)
      next
        case (Cons b cs)
        with Cons.prems Some have "y = b" "List.map_filter f xs = cs @ a # bs" by (simp_all add: map_filter_simps)
        from Cons.IH [OF this(2)] obtain us z ws where "xs = us @ z # ws" "f z = Some a" "List.map_filter f us = cs" "List.map_filter f ws = bs" by blast
        with Some Cons \<open>y = b\<close> show ?thesis by (intro exI [of _ "x # us"] exI [of _ z] exI [of _ ws]) (simp add: map_filter_simps)
      qed
    qed
  qed (simp add: map_filter_simps)
  with that show ?thesis by blast
qed

definition own_messages :: "host_event list \<Rightarrow> host_event list" where
  "own_messages es = filter sync_message es"

text \<open>Property C39: a stopped sync stays down. Once the disconnect of the newest stop has been delivered and no start was
  made since that handed over a roster, then whatever else the host did with the messages it got from the background,
  in the order they were handed over, no sync session runs when its chain has had its turns.\<close>

theorem stopped_sync_stays_down:
  assumes s: "s = control_run suspends es (new_control v)"
    and stopped: "map_of (cc_stops s) (cc_epoch s) = Some StopDone"
    and no_roster: "\<forall>e' m. RosterMsg (cc_epoch s) e' m \<notin> set (cc_log s)"
    and told: "own_messages hs = List.map_filter to_host (cc_log s)"
    and turns: "chain_work (host_run hs new_host) \<le> length oks"
  shows "sh_live (host_run (hs @ map ChainTurns oks) new_host) = []"
proof -
  have inv: "order_inv s" unfolding s by (rule control_run_inv [OF new_control_inv])
  have d: "DisconnectMsg (cc_epoch s) \<in> set (cc_log s)" using inv stopped by (simp add: order_inv_def stops_ok_def)
  have o: "sorted (List.map_filter rank (cc_log s))" "\<forall>r \<in> set (List.map_filter rank (cc_log s)). r \<le> 2 * cc_epoch s + 1"
    using inv by (simp_all add: order_inv_def ranks_def)
  obtain xs ys where l: "cc_log s = xs @ DisconnectMsg (cc_epoch s) # ys" "\<forall>y \<in> set ys. \<forall>f w m. y \<noteq> RosterMsg f w m"
    by (rule after_last_disconnect [OF o(1) d no_roster o(2)])
  have own: "List.map_filter (\<lambda>e. if sync_message e then Some e else None) zs = filter sync_message zs" for zs
    by (induction zs) (simp_all add: map_filter_simps)
  have "List.map_filter (\<lambda>e. if sync_message e then Some e else None) hs =
      List.map_filter to_host xs @ SyncDisconnect # List.map_filter to_host ys"
    using told unfolding own own_messages_def by (simp add: l(1) map_filter_snoc map_filter_simps)
  then obtain us z ws where h: "hs = us @ z # ws" "(if sync_message z then Some z else None) = Some SyncDisconnect"
    "List.map_filter (\<lambda>e. if sync_message e then Some e else None) ws = List.map_filter to_host ys"
    by (rule map_filter_split)
  then have z: "z = SyncDisconnect" and hw: "filter sync_message ws = List.map_filter to_host ys"
    unfolding own by (simp_all split: if_splits)
  have "\<not> starts_sync e" if "e \<in> set ws" for e
  proof
    assume st: "starts_sync e"
    then have "e \<in> set (filter sync_message ws)" using that by (simp add: sync_message_def)
    then have "e \<in> set (List.map_filter to_host ys)" by (simp add: hw)
    then obtain y where "y \<in> set ys" "to_host y = Some e" by (auto simp: map_filter_def)
    with st l(2) show False by (cases y) (auto simp: starts_sync_def)
  qed
  then show ?thesis using disconnect_drains [of ws us oks] turns h(1) z by simp
qed

definition start_events :: "nat \<Rightarrow> control_event list" where
  "start_events t =
     [StartCalled t None, StartResumes t GotDone, StartResumes t (GotVault True), StartResumes t (GotPair (Some (''group'', ''roster''))),
      StartResumes t (GotPair (Some (''private'', ''public''))), StartResumes t (GotText ''wss://relay''), StartResumes t (GotText ''ice'')]"

definition a_message :: roster_msg where
  "a_message = \<lparr>rm_relayUrl = ''wss://relay'', rm_iceUrl = ''ice'', rm_groupKey = ''group'', rm_roster = ''roster'',
     rm_devicePriv = ''private'', rm_devicePub = ''public''\<rparr>"

lemma stopped_sync_stays_down_witness:
  "sh_live (host_run ([SyncRosterSync (host_config a_message), ChainTurns True, ChainTurns True, ChainTurns True, SyncDisconnect] @
     map ChainTurns [True, True]) new_host) = []"
proof (rule stopped_sync_stays_down [OF refl])
  let ?s = "control_run True (start_events 1 @ [StopCalled, StopResumes 1 True, StopResumes 1 True]) (new_control fresh_vek_state)"
  show "map_of (cc_stops ?s) (cc_epoch ?s) = Some StopDone" by code_simp
  have l: "cc_log ?s = [RosterMsg 0 0 a_message, LinkClosed, DisconnectMsg 1]" by code_simp
  have "cc_epoch ?s = 1" by code_simp
  then show "\<forall>e' m. RosterMsg (cc_epoch ?s) e' m \<notin> set (cc_log ?s)" unfolding l by simp
  show "own_messages [SyncRosterSync (host_config a_message), ChainTurns True, ChainTurns True, ChainTurns True, SyncDisconnect] =
      List.map_filter to_host (cc_log ?s)"
    unfolding l by (simp add: own_messages_def sync_message_def starts_sync_def map_filter_simps)
  show "chain_work (host_run [SyncRosterSync (host_config a_message), ChainTurns True, ChainTurns True, ChainTurns True, SyncDisconnect]
      new_host) \<le> length [True, True]" by code_simp
qed

text \<open>A start whose last message fails leaves \<open>syncRunning\<close> set: no later start of that session hands anything over.\<close>

lemma failed_hand_over_blocks_sync:
  "(let s = control_run False (start_events 1 @ [StartResumes 1 Threw] @ start_events 2) (new_control fresh_vek_state)
    in cc_log s = [RosterMsg 0 0 a_message] \<and> cc_running s \<and> cc_starts s = [])"
  by code_simp

text \<open>A stop while the roster is handed over closes the app's link, and the start then opens it again.\<close>

lemma link_opened_after_stop:
  "cc_log (control_run False (start_events 1 @ [StopCalled, StopResumes 1 True, StartResumes 1 GotDone]) (new_control fresh_vek_state)) =
     [RosterMsg 0 0 a_message, LinkClosed, DisconnectMsg 1, LinkOpened]"
  by code_simp

text \<open>Where the alarm cannot be cleared the host is not told of the stop, and every later start of the session throws.\<close>

lemma failed_alarm_clear_keeps_sync_up:
  "(let s = control_run True (start_events 1 @ [StopCalled, StopResumes 1 False, StartCalled 2 None, StartResumes 2 GotDone])
      (new_control fresh_vek_state)
    in cc_log s = [RosterMsg 0 0 a_message, LinkClosed] \<and> map_of (cc_starts s) 2 = None)"
  by code_simp

subsection \<open>This device's keys\<close>

text \<open>\<open>SYNC_DEVICE_PUBKEY\<close> and \<open>SYNC_SIGNING_PUBKEY\<close>: the stored pair, or a generated one that is then stored.
  A pair is its private and its public half; both must be there.\<close>

datatype key_phase = KeyReading | KeyGenerating | KeyStoring "string \<times> string"

record key_calls =
  kc_stored :: "(string \<times> string) option"
  kc_tasks :: "(nat \<times> key_phase) list"
  kc_replies :: "(nat \<times> string option) list"

definition getStoredKeypair :: "(string \<times> string) option \<Rightarrow> (string \<times> string) option" where
  "getStoredKeypair v = (case v of Some (private, public) \<Rightarrow> if private \<noteq> [] \<and> public \<noteq> [] then v else None | None \<Rightarrow> None)"

definition key_reply :: "nat \<Rightarrow> string option \<Rightarrow> key_calls \<Rightarrow> key_calls" where
  "key_reply t r s = s\<lparr>kc_tasks := AList.delete t (kc_tasks s), kc_replies := kc_replies s @ [(t, r)]\<rparr>"

datatype key_event = KeyCalled nat | KeyRead nat | KeyGenerated nat "(string \<times> string) option" | KeyStored nat

fun key_step :: "key_event \<Rightarrow> key_calls \<Rightarrow> key_calls" where
  "key_step (KeyCalled t) s = s\<lparr>kc_tasks := (t, KeyReading) # kc_tasks s\<rparr>"
| "key_step (KeyRead t) s =
     (if map_of (kc_tasks s) t \<noteq> Some KeyReading then s
      else case getStoredKeypair (kc_stored s) of
          Some kp \<Rightarrow> key_reply t (Some (snd kp)) s
        | None \<Rightarrow> s\<lparr>kc_tasks := AList.update t KeyGenerating (kc_tasks s)\<rparr>)"
| "key_step (KeyGenerated t made) s =
     (if map_of (kc_tasks s) t \<noteq> Some KeyGenerating then s
      else case made of
          Some kp \<Rightarrow> s\<lparr>kc_tasks := AList.update t (KeyStoring kp) (kc_tasks s)\<rparr>
        | None \<Rightarrow> key_reply t None s)"
| "key_step (KeyStored t) s =
     (case map_of (kc_tasks s) t of
        Some (KeyStoring kp) \<Rightarrow> key_reply t (Some (snd kp)) (s\<lparr>kc_stored := Some kp\<rparr>)
      | _ \<Rightarrow> s)"

text \<open>Once stored and with no call generating, the key stays and every call replies it.\<close>

lemma stored_key_is_replied:
  assumes "getStoredKeypair (kc_stored s) = Some kp" "map_of (kc_tasks s) t = Some KeyReading"
  shows "kc_replies (key_step (KeyRead t) s) = kc_replies s @ [(t, Some (snd kp))] \<and> kc_stored (key_step (KeyRead t) s) = kc_stored s"
  using assms by (simp add: key_reply_def)

text \<open>Two first calls at once: the second pair replaces the first, whose public half was already replied.\<close>

lemma overlapping_first_calls_disagree:
  "(let s = fold key_step [KeyCalled 1, KeyCalled 2, KeyRead 1, KeyRead 2, KeyGenerated 1 (Some (''a'', ''A'')),
      KeyGenerated 2 (Some (''b'', ''B'')), KeyStored 1, KeyStored 2] \<lparr>kc_stored = None, kc_tasks = [], kc_replies = []\<rparr>
    in kc_replies s = [(1, Some ''A''), (2, Some ''B'')] \<and> kc_stored s = Some (''b'', ''B''))"
  by code_simp

subsection \<open>Starting an enrollment\<close>

text \<open>\<open>withDeviceKey\<close>: the message with this device's keys and, for an invite, the vault's key.\<close>

record enroll_payload =
  ep_devicePriv :: string
  ep_devicePub :: string
  ep_vek :: "string option"

definition withDeviceKey ::
  "bool \<Rightarrow> string option \<Rightarrow> (string \<times> string) option \<Rightarrow> vek_state \<Rightarrow> string + enroll_payload" where
  "withDeviceKey invite vault kp st =
     (case vault of
        None \<Rightarrow> Inl ''no active vault''
      | Some v \<Rightarrow>
          (case getStoredKeypair kp of
             None \<Rightarrow> Inl ''no device key - create a group first''
           | Some (private, public) \<Rightarrow>
               if invite \<and> getVek v st = None then Inl ''unlock this vault first''
               else Inr \<lparr>ep_devicePriv = private, ep_devicePub = public,
                 ep_vek = (if invite then (case getVek v st of Some k \<Rightarrow> if k \<noteq> [] then Some k else None | None \<Rightarrow> None) else None)\<rparr>))"

lemma invite_carries_its_vaults_key:
  assumes "withDeviceKey True (Some v) kp st = Inr m" "\<forall>k. getVek v st = Some k \<longrightarrow> k \<noteq> []"
  shows "ep_vek m = getVek v st \<and> getVek v st \<noteq> None"
  using assms by (auto simp: withDeviceKey_def split: option.splits prod.splits if_splits)

lemma join_carries_no_vault_key: "withDeviceKey False vault kp st = Inr m \<Longrightarrow> ep_vek m = None"
  by (auto simp: withDeviceKey_def split: option.splits prod.splits)

end
