(* ===== verification/Desktop_Link.thy ===== *)
theory Desktop_Link
  imports Js_Text "HOL-Library.Sublist"
begin

text \<open>
  The extension's half of the link to the desktop app
  (\<open>packages/platform-extension/src/background/desktop-link.ts\<close>): pairing, one request over a pipe of its
  own, and the one held link with its keepalive, its requests and the frames the app pushes.

  The held link is a machine. Every asynchronous function is a task that suspends at its awaits; what an await
  returned comes with the event that resumes it. Noise and the crypto host (the offscreen document), the
  browser's pipes and timers are the environment. A session is named by its place in \<open>dl_sessions\<close>.
\<close>

subsection \<open>What is stored and what arrives\<close>

record link_keys =
  lk_privateKey :: string
  lk_publicKey :: string
  lk_appPublicKey :: string
  lk_pairedAt :: nat

definition loadState :: "link_keys option \<Rightarrow> link_keys option" where
  "loadState stored =
     (case stored of
        Some k \<Rightarrow> if lk_privateKey k \<noteq> [] \<and> lk_appPublicKey k \<noteq> [] then Some k else None
      | None \<Rightarrow> None)"

text \<open>A decrypted frame: its \<open>sync\<close> member when that is a string, its \<open>fill\<close> member (user name, password,
  authenticator key), and the whole of it for whoever asked.\<close>

record frame =
  fm_sync :: "string option"
  fm_fill :: "(string option \<times> string option \<times> string option) option"
  fm_body :: string

datatype inbound = SyncIn string | FillIn string string "string option" | AnswerIn string

definition classify :: "frame \<Rightarrow> inbound" where
  "classify f =
     (case fm_sync f of
        Some s \<Rightarrow> SyncIn s
      | None \<Rightarrow>
          (case fm_fill f of
             Some (u, Some p, k) \<Rightarrow> FillIn (case u of Some n \<Rightarrow> n | None \<Rightarrow> []) p k
           | _ \<Rightarrow> AnswerIn (fm_body f)))"

subsection \<open>Pairing, and a request over a pipe of its own\<close>

text \<open>
  Straight-line code over what its awaits gave, in order. \<open>None\<close> for a wait that threw. The transport is
  the page's when it lent one, else the worker's own.
\<close>

record pair_awaits =
  pa_generated :: "(string \<times> string) option"
  pa_started :: bool
  pa_pipe :: bool
  pa_reply :: "bool option"
  pa_next :: "bool option"
  pa_done :: "bool option"
  pa_remote :: "string option"
  pa_saved :: bool

record pair_result =
  pr_state :: "link_keys option"
  pr_written :: "link_keys option"
  pr_noise_closed :: bool
  pr_pipe_closed :: bool

definition pairWithDesktop :: "pair_awaits \<Rightarrow> nat \<Rightarrow> pair_result" where
  "pairWithDesktop a now =
     (case pa_generated a of
        None \<Rightarrow> \<lparr>pr_state = None, pr_written = None, pr_noise_closed = False, pr_pipe_closed = False\<rparr>
      | Some (private, public) \<Rightarrow>
          if \<not> pa_started a then \<lparr>pr_state = None, pr_written = None, pr_noise_closed = False, pr_pipe_closed = False\<rparr>
          else if \<not> pa_pipe a then \<lparr>pr_state = None, pr_written = None, pr_noise_closed = True, pr_pipe_closed = False\<rparr>
          else
            (let state = (if pa_reply a \<noteq> Some True \<or> pa_next a \<noteq> Some True \<or> pa_done a \<noteq> Some True then None
               else map_option (\<lambda>app. \<lparr>lk_privateKey = private, lk_publicKey = public, lk_appPublicKey = app, lk_pairedAt = now\<rparr>)
                 (pa_remote a))
             in \<lparr>pr_state = (if pa_saved a then state else None), pr_written = (if pa_saved a then state else None),
                 pr_noise_closed = True, pr_pipe_closed = True\<rparr>))"

text \<open>A pairing is kept only when the app accepted both messages, and then it is the key the handshake
  proved; the handshake state and the pipe are released either way.\<close>

lemma pairing_needs_both_replies:
  assumes "pr_written (pairWithDesktop a now) = Some k"
  shows "pa_reply a = Some True \<and> pa_done a = Some True \<and> pa_remote a = Some (lk_appPublicKey k) \<and>
    pr_noise_closed (pairWithDesktop a now) \<and> pr_pipe_closed (pairWithDesktop a now)"
  using assms by (auto simp: pairWithDesktop_def Let_def split: option.splits if_splits prod.splits)

subsection \<open>The queue of a pipe\<close>

text \<open>Requests wait in order; the next frame not claimed by the hook answers the first of them, and a dead
  pipe fails them all.\<close>

record pipe =
  pp_queue :: "nat list"
  pp_failed :: "string option"
  pp_settled :: "(nat \<times> string option) list"

definition pipe_request :: "nat \<Rightarrow> pipe \<Rightarrow> pipe" where
  "pipe_request r p =
     (if pp_failed p \<noteq> None then p\<lparr>pp_settled := pp_settled p @ [(r, None)]\<rparr> else p\<lparr>pp_queue := pp_queue p @ [r]\<rparr>)"

definition pipe_message :: "bool \<Rightarrow> string \<Rightarrow> pipe \<Rightarrow> pipe" where
  "pipe_message claimed m p =
     (if claimed then p
      else (case pp_queue p of
          [] \<Rightarrow> p
        | r # rs \<Rightarrow> p\<lparr>pp_queue := rs, pp_settled := pp_settled p @ [(r, Some m)]\<rparr>))"

definition pipe_dies :: "string \<Rightarrow> pipe \<Rightarrow> pipe" where
  "pipe_dies reason p =
     p\<lparr>pp_failed := Some reason, pp_queue := [], pp_settled := pp_settled p @ map (\<lambda>r. (r, None)) (pp_queue p)\<rparr>"

lemma dead_pipe_leaves_nobody_waiting: "pp_queue (pipe_dies reason p) = [] \<and> pp_queue (pipe_request r (pipe_dies reason p)) = []"
  by (simp add: pipe_dies_def pipe_request_def)

subsection \<open>The held link\<close>

record link_session =
  ls_dead :: bool
  ls_closed :: bool
  ls_established :: bool
  ls_chain :: "string list"

text \<open>Who waits for \<open>ensureHeld\<close>: \<open>openDesktopLink\<close>, the keepalive, \<open>askDesktop\<close>, \<open>sendSyncFrame\<close>.\<close>

datatype caller = ForOpen | ForTick | ForAsk | ForSend string

datatype phase =
    OpenLoading
  | OpenChecking
  | Dropping caller nat
  | Loading caller
  | Checking caller
  | Starting caller
  | Greeting caller nat
  | Reading caller nat
  | Refusing caller nat
  | AskLoading
  | AskSealing nat
  | AskWaiting nat
  | AskAlone
  | SendSealing string nat
  | TabSealing nat
  | DropClosing nat
  | LinkClosing nat

datatype link_output =
    ToSync nat string
  | ToFill nat string string "string option"
  | ToAsk nat nat string
  | SentAsk nat nat
  | SentSync nat string
  | SentTab nat
  | AskFailed nat

record link =
  dl_stored :: "link_keys option"
  dl_held :: "nat option"
  dl_wanted :: bool
  dl_keepalive :: bool
  dl_onSync :: bool
  dl_pending :: "nat option"
  dl_timers :: "nat list"
  dl_sessions :: "link_session list"
  dl_tasks :: "(nat \<times> phase) list"
  dl_out :: "link_output list"

definition dead :: "nat \<Rightarrow> link \<Rightarrow> bool" where
  "dead i s \<longleftrightarrow> ls_dead (dl_sessions s ! i)"

text \<open>\<open>postMessage\<close> throws on a pipe that was disconnected, by either side.\<close>

definition send_throws :: "nat \<Rightarrow> link \<Rightarrow> bool" where
  "send_throws i s \<longleftrightarrow> ls_dead (dl_sessions s ! i) \<or> ls_closed (dl_sessions s ! i)"

definition upd_session :: "nat \<Rightarrow> (link_session \<Rightarrow> link_session) \<Rightarrow> link \<Rightarrow> link" where
  "upd_session i f s = s\<lparr>dl_sessions := (dl_sessions s)[i := f (dl_sessions s ! i)]\<rparr>"

definition close_session :: "nat \<Rightarrow> link \<Rightarrow> link" where
  "close_session i s = upd_session i (\<lambda>x. x\<lparr>ls_closed := True\<rparr>) s"

definition to_phase :: "nat \<Rightarrow> phase \<Rightarrow> link \<Rightarrow> link" where
  "to_phase t p s = s\<lparr>dl_tasks := AList.update t p (dl_tasks s)\<rparr>"

definition end_task :: "nat \<Rightarrow> link \<Rightarrow> link" where
  "end_task t s = s\<lparr>dl_tasks := AList.delete t (dl_tasks s)\<rparr>"

definition emit :: "link_output \<Rightarrow> link \<Rightarrow> link" where
  "emit out s = s\<lparr>dl_out := dl_out s @ [out]\<rparr>"

text \<open>What the caller of \<open>ensureHeld\<close> does with its result.\<close>

fun continue_with :: "nat \<Rightarrow> caller \<Rightarrow> nat option \<Rightarrow> link \<Rightarrow> link" where
  "continue_with t ForOpen r s = end_task t s"
| "continue_with t ForTick r s = end_task t s"
| "continue_with t ForAsk (Some i) s = to_phase t (AskSealing i) s"
| "continue_with t ForAsk None s = to_phase t AskAlone s"
| "continue_with t (ForSend frame) (Some i) s = to_phase t (SendSealing frame i) s"
| "continue_with t (ForSend frame) None s = end_task t s"

text \<open>\<open>ensureHeld\<close> up to its first wait, and after the drop of a dead link.\<close>

definition ensure_wanted :: "nat \<Rightarrow> caller \<Rightarrow> link \<Rightarrow> link" where
  "ensure_wanted t c s = (if \<not> dl_wanted s then continue_with t c None s else to_phase t (Loading c) s)"

definition ensureHeld :: "nat \<Rightarrow> caller \<Rightarrow> link \<Rightarrow> link" where
  "ensureHeld t c s =
     (case dl_held s of
        Some i \<Rightarrow>
          if \<not> dead i s then continue_with t c (Some i) s
          else to_phase t (Dropping c i) (s\<lparr>dl_held := None\<rparr>)
      | None \<Rightarrow> ensure_wanted t c s)"

text \<open>\<open>dropHeld\<close> by a task that ends with it.\<close>

definition dropHeld :: "nat \<Rightarrow> link \<Rightarrow> link" where
  "dropHeld t s =
     (case dl_held s of
        Some i \<Rightarrow> to_phase t (DropClosing i) (s\<lparr>dl_held := None\<rparr>)
      | None \<Rightarrow> end_task t s)"

definition new_session :: link_session where
  "new_session = \<lparr>ls_dead = False, ls_closed = False, ls_established = False, ls_chain = []\<rparr>"

definition establish :: "nat \<Rightarrow> caller \<Rightarrow> nat \<Rightarrow> link \<Rightarrow> link" where
  "establish t c i s =
     continue_with t c (Some i) ((upd_session i (\<lambda>x. x\<lparr>ls_established := True\<rparr>) s)\<lparr>dl_held := Some i\<rparr>)"

text \<open>What a wait gave: the stored pairing as it was read, a boolean, the reply of the app (accepted, and with
  a message to read), nothing worth naming, or an exception.\<close>

datatype awaited = GotKeys "link_keys option" | GotBool bool | GotReply bool bool | GotDone | Threw

fun resume :: "nat \<Rightarrow> phase \<Rightarrow> awaited \<Rightarrow> link \<Rightarrow> link" where
  "resume t OpenLoading (GotKeys k) s = (if loadState k = None then end_task t s else to_phase t OpenChecking s)"
| "resume t OpenChecking (GotBool b) s =
     (if \<not> b then end_task t s else ensureHeld t ForOpen (s\<lparr>dl_wanted := True, dl_keepalive := True\<rparr>))"
| "resume t (Dropping c i) w s = ensure_wanted t c (close_session i s)"
| "resume t (Loading c) (GotKeys k) s = (if loadState k = None then continue_with t c None s else to_phase t (Checking c) s)"
| "resume t (Checking c) (GotBool b) s = (if \<not> b then continue_with t c None s else to_phase t (Starting c) s)"
| "resume t (Starting c) GotDone s =
     to_phase t (Greeting c (length (dl_sessions s))) (s\<lparr>dl_sessions := dl_sessions s @ [new_session]\<rparr>)"
| "resume t (Greeting c i) (GotReply ok msg) s =
     (if \<not> ok then to_phase t (Refusing c i) s else if msg then to_phase t (Reading c i) s else establish t c i s)"
| "resume t (Greeting c i) Threw s = to_phase t (Refusing c i) s"
| "resume t (Reading c i) GotDone s = establish t c i s"
| "resume t (Reading c i) Threw s = to_phase t (Refusing c i) s"
| "resume t (Refusing c i) w s = continue_with t c None (close_session i s)"
| "resume t AskLoading (GotKeys k) s =
     (if loadState k = None then emit (AskFailed t) (end_task t s) else ensureHeld t ForAsk s)"
| "resume t (AskSealing i) GotDone s =
     (let s1 = s\<lparr>dl_pending := Some t, dl_timers := t # dl_timers s\<rparr>
      in if send_throws i s1 then emit (AskFailed t) (end_task t s1) else to_phase t (AskWaiting i) (emit (SentAsk i t) s1))"
| "resume t AskAlone w s = (if w = Threw then emit (AskFailed t) (end_task t s) else end_task t s)"
| "resume t (SendSealing frame i) w s =
     (if w = Threw \<or> send_throws i s then dropHeld t s else end_task t (emit (SentSync i frame) s))"
| "resume t (TabSealing i) w s =
     (if w = Threw \<or> send_throws i s then end_task t s else end_task t (emit (SentTab i) s))"
| "resume t (DropClosing i) w s = end_task t (close_session i s)"
| "resume t (LinkClosing i) w s = end_task t (close_session i s)"
| "resume t (AskSealing i) Threw s = emit (AskFailed t) (end_task t s)"
| "resume t (AskWaiting i) w s = s"
| "resume t p Threw s = end_task t s"
| "resume t p w s = s"

text \<open>\<open>closeSyncLink\<close> after the handler was unset, and \<open>closeDesktopLink\<close>.\<close>

definition close_link :: "nat \<Rightarrow> link \<Rightarrow> link" where
  "close_link t s =
     (if dl_wanted s then s
      else let s1 = s\<lparr>dl_keepalive := False, dl_held := None\<rparr>
        in case dl_held s of Some i \<Rightarrow> to_phase t (LinkClosing i) s1 | None \<Rightarrow> s1)"

definition closeSyncLink :: "nat \<Rightarrow> link \<Rightarrow> link" where
  "closeSyncLink t s = close_link t (s\<lparr>dl_onSync := False\<rparr>)"

definition closeDesktopLink :: "nat \<Rightarrow> link \<Rightarrow> link" where
  "closeDesktopLink t s = closeSyncLink t (s\<lparr>dl_wanted := False\<rparr>)"

fun is_waiting :: "phase option \<Rightarrow> bool" where
  "is_waiting (Some (AskWaiting i)) = True"
| "is_waiting _ = False"

lemma is_waiting_iff [simp]: "is_waiting x \<longleftrightarrow> (\<exists>i. x = Some (AskWaiting i))"
  by (cases x rule: is_waiting.cases) auto

text \<open>\<open>routeInbound\<close> once the frame was opened (\<open>None\<close>: it could not be); \<open>t\<close> is a new task for the drop.\<close>

definition routeInbound :: "nat \<Rightarrow> nat \<Rightarrow> frame option \<Rightarrow> link \<Rightarrow> link" where
  "routeInbound t i f s =
     (case map_option classify f of
        None \<Rightarrow> dropHeld t s
      | Some (SyncIn x) \<Rightarrow> if dl_onSync s then emit (ToSync i x) s else s
      | Some (FillIn u p k) \<Rightarrow> emit (ToFill i u p k) s
      | Some (AnswerIn v) \<Rightarrow>
          (case dl_pending s of
             None \<Rightarrow> s
           | Some r \<Rightarrow>
               if is_waiting (map_of (dl_tasks s) r)
               then (emit (ToAsk i r v) (end_task r s))\<lparr>dl_pending := None, dl_timers := removeAll r (dl_timers s)\<rparr>
               else s\<lparr>dl_pending := None, dl_timers := removeAll r (dl_timers s)\<rparr>))"

datatype link_event =
    CallsOpen nat
  | CallsOpenSync nat
  | Ticks nat
  | CallsAsk nat
  | CallsSend nat string
  | CallsTab nat
  | CallsClose nat
  | CallsCloseSync nat
  | Paired link_keys
  | Unlinked
  | Resumes nat awaited
  | FrameArrives nat string
  | FrameOpened nat nat "frame option"
  | PipeDies nat
  | TimerFires nat

definition new_task :: "nat \<Rightarrow> link \<Rightarrow> bool" where
  "new_task t s \<longleftrightarrow> map_of (dl_tasks s) t = None"

text \<open>A frame is claimed by the hook only once the link is established; frames of one session are opened one
  after the other, in the order they came.\<close>

fun link_step :: "link_event \<Rightarrow> link \<Rightarrow> link" where
  "link_step (CallsOpen t) s = to_phase t OpenLoading s"
| "link_step (CallsOpenSync t) s = to_phase t OpenLoading (s\<lparr>dl_onSync := True\<rparr>)"
| "link_step (Ticks t) s = (if dl_keepalive s then ensureHeld t ForTick s else s)"
| "link_step (CallsAsk t) s = to_phase t AskLoading s"
| "link_step (CallsSend t frame) s = ensureHeld t (ForSend frame) s"
| "link_step (CallsTab t) s =
     (case dl_held s of Some i \<Rightarrow> if dead i s then s else to_phase t (TabSealing i) s | None \<Rightarrow> s)"
| "link_step (CallsClose t) s = closeDesktopLink t s"
| "link_step (CallsCloseSync t) s = closeSyncLink t s"
| "link_step (Paired k) s = s\<lparr>dl_stored := Some k\<rparr>"
| "link_step Unlinked s = s\<lparr>dl_stored := None\<rparr>"
| "link_step (Resumes t w) s = (case map_of (dl_tasks s) t of Some p \<Rightarrow> resume t p w s | None \<Rightarrow> s)"
| "link_step (FrameArrives i sealed) s =
     (if ls_established (dl_sessions s ! i) then upd_session i (\<lambda>x. x\<lparr>ls_chain := ls_chain x @ [sealed]\<rparr>) s else s)"
| "link_step (FrameOpened t i f) s =
     (case ls_chain (dl_sessions s ! i) of
        [] \<Rightarrow> s
      | _ # rest \<Rightarrow> routeInbound t i f (upd_session i (\<lambda>x. x\<lparr>ls_chain := rest\<rparr>) s))"
| "link_step (PipeDies i) s =
     (let s1 = upd_session i (\<lambda>x. x\<lparr>ls_dead := True\<rparr>) s
      in if ls_established (dl_sessions s ! i) \<and> dl_held s = Some i then s1\<lparr>dl_held := None\<rparr> else s1)"
| "link_step (TimerFires t) s =
     (if t \<notin> set (dl_timers s) then s
      else let s1 = s\<lparr>dl_pending := None, dl_timers := removeAll t (dl_timers s)\<rparr>
        in if is_waiting (map_of (dl_tasks s) t) then emit (AskFailed t) (end_task t s1) else s1)"

text \<open>Runs: a call is a new task. What else a run may do is \<open>ok\<close>.\<close>

fun event_task :: "link_event \<Rightarrow> nat option" where
  "event_task (CallsOpen t) = Some t"
| "event_task (CallsOpenSync t) = Some t"
| "event_task (Ticks t) = Some t"
| "event_task (CallsAsk t) = Some t"
| "event_task (CallsSend t _) = Some t"
| "event_task (CallsTab t) = Some t"
| "event_task (CallsClose t) = Some t"
| "event_task (CallsCloseSync t) = Some t"
| "event_task (FrameOpened t _ _) = Some t"
| "event_task _ = None"

definition fresh_event :: "link_event \<Rightarrow> link \<Rightarrow> bool" where
  "fresh_event e s \<longleftrightarrow> (case event_task e of None \<Rightarrow> True | Some t \<Rightarrow> map_of (dl_tasks s) t = None \<and> dl_pending s \<noteq> Some t)"

definition new_worker :: "link_keys option \<Rightarrow> link" where
  "new_worker stored =
     \<lparr>dl_stored = stored, dl_held = None, dl_wanted = False, dl_keepalive = False, dl_onSync = False, dl_pending = None,
      dl_timers = [], dl_sessions = [], dl_tasks = [], dl_out = []\<rparr>"

inductive link_run :: "(link_event \<Rightarrow> link \<Rightarrow> bool) \<Rightarrow> link \<Rightarrow> bool" for ok :: "link_event \<Rightarrow> link \<Rightarrow> bool" where
  started: "link_run ok (new_worker stored)"
| stepped: "link_run ok s \<Longrightarrow> fresh_event e s \<Longrightarrow> ok e s \<Longrightarrow> link_run ok (link_step e s)"

subsection \<open>Every request gets its own answer, one at a time\<close>

definition asks_sent :: "nat \<Rightarrow> link \<Rightarrow> nat list" where
  "asks_sent i s = List.map_filter (\<lambda>x. case x of SentAsk j t \<Rightarrow> if j = i then Some t else None | _ \<Rightarrow> None) (dl_out s)"

definition asks_answered :: "nat \<Rightarrow> link \<Rightarrow> nat list" where
  "asks_answered i s = List.map_filter (\<lambda>x. case x of ToAsk j t _ \<Rightarrow> if j = i then Some t else None | _ \<Rightarrow> None) (dl_out s)"

definition is_answer :: "frame \<Rightarrow> bool" where
  "is_answer f \<longleftrightarrow> (case classify f of AnswerIn v \<Rightarrow> True | _ \<Rightarrow> False)"

text \<open>One request at a time, none abandoned, and an app that answers what it was asked.\<close>

definition orderly :: "link_event \<Rightarrow> link \<Rightarrow> bool" where
  "orderly e s \<longleftrightarrow>
     (case e of
        Resumes t w \<Rightarrow> (case map_of (dl_tasks s) t of Some (AskSealing i) \<Rightarrow> dl_pending s = None \<and> \<not> send_throws i s | _ \<Rightarrow> True)
      | TimerFires t \<Rightarrow> False
      | FrameOpened t i (Some f) \<Rightarrow>
          is_answer f \<longrightarrow> length (asks_answered i s) < length (asks_sent i s)
      | _ \<Rightarrow> True)"

definition waits_on :: "nat \<Rightarrow> nat \<Rightarrow> link \<Rightarrow> bool" where
  "waits_on r i s \<longleftrightarrow> map_of (dl_tasks s) r = Some (AskWaiting i)"

definition ask_inv :: "link \<Rightarrow> bool" where
  "ask_inv s \<longleftrightarrow> (\<forall>r i. waits_on r i s \<longrightarrow> dl_pending s = Some r) \<and>
     (\<forall>r. dl_pending s = Some r \<longrightarrow> (\<exists>i. waits_on r i s)) \<and>
     (\<forall>i. asks_sent i s = asks_answered i s @ (case dl_pending s of Some r \<Rightarrow> if waits_on r i s then [r] else [] | None \<Rightarrow> []))"

text \<open>Steps that have nothing to do with a waiting request.\<close>

definition quiet :: "link \<Rightarrow> link \<Rightarrow> bool" where
  "quiet s s' \<longleftrightarrow> dl_pending s' = dl_pending s \<and> (\<forall>r i. waits_on r i s' = waits_on r i s) \<and>
     (\<forall>i. asks_sent i s' = asks_sent i s \<and> asks_answered i s' = asks_answered i s)"

lemma quiet_inv:
  assumes "quiet s s'" "ask_inv s"
  shows "ask_inv s'"
proof -
  have q: "dl_pending s' = dl_pending s" "waits_on r i s' = waits_on r i s" "asks_sent i s' = asks_sent i s"
    "asks_answered i s' = asks_answered i s" for r i
    using assms(1) by (simp_all add: quiet_def)
  show ?thesis using assms(2) unfolding ask_inv_def q .
qed

definition not_waiting :: "nat \<Rightarrow> link \<Rightarrow> bool" where
  "not_waiting t s \<longleftrightarrow> (\<forall>i. \<not> waits_on t i s)"

lemma quiet_step_refl [simp]: "quiet s s"
  by (simp add: quiet_def)

lemma quiet_step_trans: "quiet s s' \<Longrightarrow> quiet s' s'' \<Longrightarrow> quiet s s''"
  by (simp add: quiet_def)

definition ask_output :: "link_output \<Rightarrow> bool" where
  "ask_output x \<longleftrightarrow> (case x of SentAsk _ _ \<Rightarrow> True | ToAsk _ _ _ \<Rightarrow> True | _ \<Rightarrow> False)"

lemma quiet_phase: "not_waiting t s \<Longrightarrow> (\<forall>i. q \<noteq> AskWaiting i) \<Longrightarrow> quiet s s1 \<Longrightarrow> quiet s (to_phase t q s1)"
  by (auto simp: quiet_def to_phase_def waits_on_def not_waiting_def update_conv' asks_sent_def asks_answered_def split: if_splits)

lemma quiet_end: "not_waiting t s \<Longrightarrow> quiet s s1 \<Longrightarrow> quiet s (end_task t s1)"
  by (auto simp: quiet_def end_task_def waits_on_def not_waiting_def delete_conv' asks_sent_def asks_answered_def split: if_splits)

lemma quiet_emit: "\<not> ask_output x \<Longrightarrow> quiet s s1 \<Longrightarrow> quiet s (emit x s1)"
  by (cases x) (auto simp: quiet_def emit_def waits_on_def asks_sent_def asks_answered_def ask_output_def map_filter_def)

lemma quiet_fields [intro!]:
  "quiet s s1 \<Longrightarrow> quiet s (s1\<lparr>dl_held := h\<rparr>)" "quiet s s1 \<Longrightarrow> quiet s (s1\<lparr>dl_stored := k\<rparr>)"
  "quiet s s1 \<Longrightarrow> quiet s (s1\<lparr>dl_keepalive := b\<rparr>)" "quiet s s1 \<Longrightarrow> quiet s (s1\<lparr>dl_onSync := b\<rparr>)"
  "quiet s s1 \<Longrightarrow> quiet s (s1\<lparr>dl_wanted := b\<rparr>)" "quiet s s1 \<Longrightarrow> quiet s (s1\<lparr>dl_sessions := x\<rparr>)"
  "quiet s s1 \<Longrightarrow> quiet s (upd_session i f s1)" "quiet s s1 \<Longrightarrow> quiet s (close_session i s1)"
  by (auto simp: quiet_def waits_on_def asks_sent_def asks_answered_def upd_session_def close_session_def)

lemma quiet_continue: "not_waiting t s \<Longrightarrow> quiet s s1 \<Longrightarrow> quiet s (continue_with t c r s1)"
  by (cases "(t, c, r, s1)" rule: continue_with.cases) (auto intro!: quiet_phase quiet_end)

lemma quiet_ensure:
  "not_waiting t s \<Longrightarrow> quiet s s1 \<Longrightarrow> quiet s (ensure_wanted t c s1)"
  "not_waiting t s \<Longrightarrow> quiet s s1 \<Longrightarrow> quiet s (ensureHeld t c s1)"
  "not_waiting t s \<Longrightarrow> quiet s s1 \<Longrightarrow> quiet s (dropHeld t s1)"
  "not_waiting t s \<Longrightarrow> quiet s s1 \<Longrightarrow> quiet s (establish t c i s1)"
  by (auto simp: ensure_wanted_def ensureHeld_def dropHeld_def establish_def split: option.splits
      intro!: quiet_continue quiet_phase quiet_end)

lemma quiet_close: "not_waiting t s \<Longrightarrow> quiet s s1 \<Longrightarrow> quiet s (close_link t s1)"
  by (auto simp: close_link_def Let_def split: option.splits intro!: quiet_phase)

lemma resume_quiet:
  assumes "map_of (dl_tasks s) t = Some p" "\<forall>i. p \<noteq> AskWaiting i" "(\<exists>i. p = AskSealing i) \<longrightarrow> w \<noteq> GotDone"
  shows "quiet s (resume t p w s)"
proof -
  have t: "not_waiting t s" using assms(1,2) by (simp add: not_waiting_def waits_on_def)
  note q = quiet_phase [OF t] quiet_end [OF t] quiet_emit quiet_continue [OF t] quiet_ensure [OF t] quiet_fields
  show ?thesis
    using assms(2,3)
    by (cases "(t, p, w, s)" rule: resume.cases) (auto intro!: q simp: ask_output_def)
qed

lemma ask_sends:
  assumes "ask_inv s" "map_of (dl_tasks s) t = Some (AskSealing i)" "dl_pending s = None" "\<not> send_throws i s"
  shows "ask_inv (resume t (AskSealing i) GotDone s)"
proof -
  let ?s = "resume t (AskSealing i) GotDone s"
  have "\<not> send_throws i (s\<lparr>dl_pending := Some t, dl_timers := t # dl_timers s\<rparr>)"
    using assms(4) by (simp add: send_throws_def)
  then have s: "?s = to_phase t (AskWaiting i) (emit (SentAsk i t) (s\<lparr>dl_pending := Some t, dl_timers := t # dl_timers s\<rparr>))"
    by (simp add: Let_def)
  have none: "\<not> waits_on r j s" for r j using assms(1,3) by (auto simp: ask_inv_def)
  then have "waits_on r j ?s \<longleftrightarrow> r = t \<and> j = i" for r j
    unfolding s by (auto simp: waits_on_def to_phase_def emit_def update_conv')
  moreover have "asks_sent j ?s = asks_sent j s @ (if j = i then [t] else [])" "asks_answered j ?s = asks_answered j s" for j
    unfolding s by (simp_all add: asks_sent_def asks_answered_def to_phase_def emit_def map_filter_def)
  moreover have "dl_pending ?s = Some t" unfolding s by (simp add: to_phase_def emit_def)
  ultimately show ?thesis
    using assms(1,3) by (simp add: ask_inv_def)
qed

lemma answer_comes:
  assumes inv: "ask_inv s" and c: "classify f = AnswerIn v" and more: "length (asks_answered i s) < length (asks_sent i s)"
  shows "ask_inv (routeInbound t i (Some f) s)"
proof -
  have eq: "asks_sent i s = asks_answered i s @ (case dl_pending s of Some r \<Rightarrow> if waits_on r i s then [r] else [] | None \<Rightarrow> [])"
    using inv unfolding ask_inv_def by blast
  have "(case dl_pending s of Some r \<Rightarrow> if waits_on r i s then [r] else [] | None \<Rightarrow> []) \<noteq> []"
    using arg_cong [OF eq, of length] more by fastforce
  then obtain r where r: "dl_pending s = Some r" "waits_on r i s"
    by (auto split: option.splits if_splits)
  then have waiting: "\<exists>j. map_of (dl_tasks s) r = Some (AskWaiting j)" by (auto simp: waits_on_def)
  let ?s = "routeInbound t i (Some f) s"
  have s: "?s = (emit (ToAsk i r v) (end_task r s))\<lparr>dl_pending := None, dl_timers := removeAll r (dl_timers s)\<rparr>"
    using c r(1) waiting by (simp add: routeInbound_def)
  have only: "waits_on q j s \<Longrightarrow> q = r \<and> j = i" for q j
    using inv r by (auto simp: ask_inv_def waits_on_def)
  then have "\<not> waits_on q j ?s" for q j
    unfolding s by (auto simp: waits_on_def emit_def end_task_def delete_conv')
  moreover have "asks_sent j ?s = asks_sent j s" "asks_answered j ?s = asks_answered j s @ (if j = i then [r] else [])" for j
    unfolding s by (simp_all add: asks_sent_def asks_answered_def end_task_def emit_def map_filter_def)
  moreover have "asks_sent j s = asks_answered j s @ (if j = i then [r] else [])" for j
  proof -
    have "asks_sent j s = asks_answered j s @ (case dl_pending s of Some r \<Rightarrow> if waits_on r j s then [r] else [] | None \<Rightarrow> [])"
      using inv unfolding ask_inv_def by blast
    moreover have "waits_on r j s \<longleftrightarrow> j = i" using only r(2) by blast
    ultimately show ?thesis using r(1) by simp
  qed
  moreover have "dl_pending ?s = None" unfolding s by simp
  ultimately show ?thesis by (simp add: ask_inv_def)
qed

lemma fresh_not_waiting: "fresh_event e s \<Longrightarrow> event_task e = Some t \<Longrightarrow> not_waiting t s"
  by (simp add: fresh_event_def not_waiting_def waits_on_def)

lemma step_asks:
  assumes inv: "ask_inv s" and fresh: "fresh_event e s" and ok: "orderly e s"
  shows "ask_inv (link_step e s)"
proof (cases e)
  case (Resumes t w)
  show ?thesis
  proof (cases "map_of (dl_tasks s) t")
    case (Some p)
    show ?thesis
    proof (cases "(\<exists>i. p = AskSealing i) \<and> w = GotDone")
      case True
      then obtain i where "p = AskSealing i" by blast
      with True ask_sends [OF inv, of t i] ok Some Resumes show ?thesis by (simp add: orderly_def)
    next
      case False
      show ?thesis
      proof (cases "\<exists>i. p = AskWaiting i")
        case True
        with Some Resumes inv show ?thesis by auto
      next
        case False': False
        have "quiet s (resume t p w s)"
          by (rule resume_quiet [OF Some]) (use False False' in auto)
        with Some Resumes quiet_inv [OF _ inv] show ?thesis by simp
      qed
    qed
  qed (use Resumes inv in simp)
next
  case (FrameOpened t i f)
  have t: "not_waiting t s" using fresh_not_waiting [OF fresh] FrameOpened by simp
  show ?thesis
  proof (cases "ls_chain (dl_sessions s ! i)")
    case (Cons x rest)
    let ?s = "upd_session i (\<lambda>x. x\<lparr>ls_chain := rest\<rparr>) s"
    have q: "quiet s ?s" by auto
    show ?thesis
    proof (cases "\<exists>g v. f = Some g \<and> classify g = AnswerIn v")
      case True
      then obtain g v where g: "f = Some g" "classify g = AnswerIn v" by blast
      have "length (asks_answered i ?s) < length (asks_sent i ?s)"
        using ok FrameOpened g q by (simp add: orderly_def quiet_def is_answer_def)
      from answer_comes [OF quiet_inv [OF q inv] g(2) this] show ?thesis using FrameOpened g Cons by simp
    next
      case False
      then have "quiet s (routeInbound t i f ?s)"
        using quiet_ensure(3) [OF t q] q by (auto simp: routeInbound_def ask_output_def split: option.splits inbound.splits intro!: quiet_emit)
      with FrameOpened Cons quiet_inv [OF _ inv] show ?thesis by simp
    qed
  qed (use FrameOpened inv in simp)
next
  case (TimerFires t)
  with ok show ?thesis by (simp add: orderly_def)
next
  case (PipeDies i)
  have "quiet s (link_step (PipeDies i) s)" by (auto simp: Let_def)
  with PipeDies quiet_inv [OF _ inv] show ?thesis by simp
next
  case (FrameArrives i x)
  have "quiet s (link_step (FrameArrives i x) s)" by auto
  with FrameArrives quiet_inv [OF _ inv] show ?thesis by simp
next
  case (CallsTab t)
  then have "quiet s (link_step e s)" using fresh_not_waiting [OF fresh] by (auto split: option.splits intro!: quiet_phase)
  with quiet_inv [OF _ inv] show ?thesis by simp
next
  case (CallsClose t)
  then have "quiet s (link_step e s)" using fresh_not_waiting [OF fresh]
    by (auto simp: closeDesktopLink_def closeSyncLink_def intro!: quiet_close)
  with quiet_inv [OF _ inv] show ?thesis by simp
next
  case (CallsCloseSync t)
  then have "quiet s (link_step e s)" using fresh_not_waiting [OF fresh]
    by (auto simp: closeSyncLink_def intro!: quiet_close)
  with quiet_inv [OF _ inv] show ?thesis by simp
next
  case (Ticks t)
  then have "quiet s (link_step e s)" using fresh_not_waiting [OF fresh] by (auto intro!: quiet_ensure)
  with quiet_inv [OF _ inv] show ?thesis by simp
next
  case (CallsSend t x)
  then have "quiet s (link_step e s)" using fresh_not_waiting [OF fresh] by (auto intro!: quiet_ensure)
  with quiet_inv [OF _ inv] show ?thesis by simp
next
  case (CallsOpen t)
  then have "quiet s (link_step e s)" using fresh_not_waiting [OF fresh] by (auto intro!: quiet_phase)
  with quiet_inv [OF _ inv] show ?thesis by simp
next
  case (CallsOpenSync t)
  then have "quiet s (link_step e s)" using fresh_not_waiting [OF fresh] by (auto intro!: quiet_phase)
  with quiet_inv [OF _ inv] show ?thesis by simp
next
  case (CallsAsk t)
  then have "quiet s (link_step e s)" using fresh_not_waiting [OF fresh] by (auto intro!: quiet_phase)
  with quiet_inv [OF _ inv] show ?thesis by simp
next
  case (Paired k)
  have "quiet s (link_step (Paired k) s)" by auto
  with Paired quiet_inv [OF _ inv] show ?thesis by simp
next
  case Unlinked
  have "quiet s (link_step Unlinked s)" by auto
  with Unlinked quiet_inv [OF _ inv] show ?thesis by simp
qed

text \<open>Over the held link every request gets its own answer, while requests are made one at a time.
  Whatever opens, drops and rebuilds of the link interleave with them: as long as no request is sent while
  another waits and none is abandoned, and the app answers what it was asked, the requests answered over a
  session are the ones sent over it, in that order.\<close>

lemma requests_get_their_own_answers:
  assumes "link_run orderly s"
  shows "prefix (asks_answered i s) (asks_sent i s)"
proof -
  have "ask_inv s"
    using assms
  proof (induction rule: link_run.induct)
    case (started stored)
    show ?case by (simp add: ask_inv_def new_worker_def waits_on_def asks_sent_def asks_answered_def map_filter_def)
  next
    case (stepped s e)
    then show ?case by (intro step_asks)
  qed
  then have "asks_sent i s = asks_answered i s @ (case dl_pending s of Some r \<Rightarrow> if waits_on r i s then [r] else [] | None \<Rightarrow> [])"
    unfolding ask_inv_def by blast
  then show ?thesis by (rule prefixI)
qed

text \<open>A run from its events.\<close>

definition run_events :: "link_event list \<Rightarrow> link \<Rightarrow> link" where
  "run_events es s = fold link_step es s"

fun events_ok :: "(link_event \<Rightarrow> link \<Rightarrow> bool) \<Rightarrow> link_event list \<Rightarrow> link \<Rightarrow> bool" where
  "events_ok ok [] s \<longleftrightarrow> True"
| "events_ok ok (e # es) s \<longleftrightarrow> fresh_event e s \<and> ok e s \<and> events_ok ok es (link_step e s)"

lemma run_of_events: "link_run ok s \<Longrightarrow> events_ok ok es s \<Longrightarrow> link_run ok (run_events es s)"
  by (induction es arbitrary: s) (auto simp: run_events_def intro: link_run.stepped)

definition some_keys :: link_keys where
  "some_keys = \<lparr>lk_privateKey = ''k'', lk_publicKey = ''p'', lk_appPublicKey = ''a'', lk_pairedAt = 1\<rparr>"

definition opening_events :: "link_event list" where
  "opening_events =
     [CallsOpen 1, Resumes 1 (GotKeys (Some some_keys)), Resumes 1 (GotBool True), Resumes 1 (GotKeys (Some some_keys)),
      Resumes 1 (GotBool True), Resumes 1 GotDone, Resumes 1 (GotReply True False)]"

definition ask_events :: "nat \<Rightarrow> link_event list" where
  "ask_events t = [CallsAsk t, Resumes t (GotKeys (Some some_keys)), Resumes t GotDone]"

definition answer_frame :: "string \<Rightarrow> frame" where
  "answer_frame v = \<lparr>fm_sync = None, fm_fill = None, fm_body = v\<rparr>"

definition answer_events :: "nat \<Rightarrow> string \<Rightarrow> link_event list" where
  "answer_events t v = [FrameArrives 0 v, FrameOpened t 0 (Some (answer_frame v))]"

definition two_asks :: "link_event list" where
  "two_asks = opening_events @ ask_events 2 @ answer_events 3 ''one'' @ ask_events 4"

lemma requests_get_their_own_answers_witness:
  "prefix [2::nat] [2, 4] \<and> asks_answered 0 (run_events two_asks (new_worker None)) = [2]"
proof -
  have "events_ok orderly two_asks (new_worker None)" by code_simp
  from requests_get_their_own_answers [OF run_of_events [OF link_run.started this], of 0]
  have "prefix (asks_answered 0 (run_events two_asks (new_worker None))) (asks_sent 0 (run_events two_asks (new_worker None)))" .
  moreover have "asks_answered 0 (run_events two_asks (new_worker None)) = [2]" by code_simp
  moreover have "asks_sent 0 (run_events two_asks (new_worker None)) = [2, 4]" by code_simp
  ultimately show ?thesis by simp
qed

text \<open>The premise matters. The slot \<open>pendingAnswer\<close> holds one request: when a second request is sent while the
  first waits, the first answer goes to the second request, and the second answer to nobody.\<close>

lemma overlapping_asks_cross:
  "dl_out (run_events (opening_events @ ask_events 2 @ ask_events 3 @ answer_events 4 ''for 2'' @ answer_events 5 ''for 3'')
     (new_worker None)) = [SentAsk 0 2, SentAsk 0 3, ToAsk 0 3 ''for 2'']"
  by code_simp

text \<open>The same with one request at a time: after a timeout, the late answer goes to the next request.\<close>

lemma late_answer_goes_to_the_next_ask:
  "dl_out (run_events (opening_events @ ask_events 2 @ [TimerFires 2] @ ask_events 3 @ answer_events 4 ''for 2'')
     (new_worker None)) = [SentAsk 0 2, AskFailed 2, SentAsk 0 3, ToAsk 0 3 ''for 2'']"
  by code_simp

subsection \<open>At most one connection\<close>

fun session_of :: "phase \<Rightarrow> nat option" where
  "session_of (Dropping _ i) = Some i"
| "session_of (Greeting _ i) = Some i"
| "session_of (Reading _ i) = Some i"
| "session_of (Refusing _ i) = Some i"
| "session_of (DropClosing i) = Some i"
| "session_of (LinkClosing i) = Some i"
| "session_of _ = None"

fun opens_link :: "phase \<Rightarrow> bool" where
  "opens_link (Loading _) = True"
| "opens_link (Checking _) = True"
| "opens_link (Starting _) = True"
| "opens_link (Greeting _ _) = True"
| "opens_link (Reading _ _) = True"
| "opens_link _ = False"

definition busy_phase :: "phase \<Rightarrow> bool" where
  "busy_phase p \<longleftrightarrow> opens_link p \<or> session_of p \<noteq> None"

definition busy_tasks :: "link \<Rightarrow> (nat \<times> phase) set" where
  "busy_tasks s = {(t, p). map_of (dl_tasks s) t = Some p \<and> busy_phase p}"

lemma busy_tasks_code [code]:
  "busy_tasks s = set (filter (\<lambda>(t, p). map_of (dl_tasks s) t = Some p \<and> busy_phase p) (dl_tasks s))"
  by (auto simp: busy_tasks_def dest: map_of_SomeD)

definition connected :: "link_session \<Rightarrow> bool" where
  "connected x \<longleftrightarrow> \<not> ls_closed x \<and> \<not> ls_dead x"

text \<open>Nothing opens, drops or closes the link while another task does.\<close>

definition calm :: "link_event \<Rightarrow> link \<Rightarrow> bool" where
  "calm e s \<longleftrightarrow>
     (case e of
        Ticks t \<Rightarrow> busy_tasks s = {}
      | CallsSend t x \<Rightarrow> busy_tasks s = {}
      | CallsClose t \<Rightarrow> busy_tasks s = {}
      | CallsCloseSync t \<Rightarrow> busy_tasks s = {}
      | FrameOpened t i f \<Rightarrow> f = None \<longrightarrow> busy_tasks s = {}
      | Resumes t w \<Rightarrow>
          (case map_of (dl_tasks s) t of
             Some AskLoading \<Rightarrow> busy_tasks s = {}
           | Some OpenChecking \<Rightarrow> busy_tasks s = {}
           | Some (SendSealing f i) \<Rightarrow> busy_tasks s = {}
           | _ \<Rightarrow> True)
      | _ \<Rightarrow> True)"

definition good_link :: "nat option \<Rightarrow> bool \<Rightarrow> link_session list \<Rightarrow> (nat \<times> phase) option \<Rightarrow> bool" where
  "good_link h w ss b \<longleftrightarrow>
     (\<forall>t p. b = Some (t, p) \<longrightarrow> h = None \<and> (opens_link p \<longrightarrow> w) \<and> (\<forall>i. session_of p = Some i \<longrightarrow> i < length ss)) \<and>
     (\<forall>i. h = Some i \<longrightarrow> w \<and> i < length ss) \<and>
     (\<forall>i < length ss. connected (ss ! i) \<longrightarrow> h = Some i \<or> (\<exists>t p. b = Some (t, p) \<and> session_of p = Some i))"

definition link_inv :: "link \<Rightarrow> bool" where
  "link_inv s \<longleftrightarrow> (\<exists>b. busy_tasks s = set_option b \<and> good_link (dl_held s) (dl_wanted s) (dl_sessions s) b)"

lemma busy_update:
  "busy_tasks (to_phase t q s) = {(u, p) \<in> busy_tasks s. u \<noteq> t} \<union> (if busy_phase q then {(t, q)} else {})"
  "busy_tasks (end_task t s) = {(u, p) \<in> busy_tasks s. u \<noteq> t}"
  by (auto simp: busy_tasks_def to_phase_def end_task_def update_conv' delete_conv' split: if_splits)

lemma busy_fields [simp]:
  "busy_tasks (emit x s) = busy_tasks s" "busy_tasks (upd_session i f s) = busy_tasks s"
  "busy_tasks (close_session i s) = busy_tasks s" "busy_tasks (s\<lparr>dl_held := h\<rparr>) = busy_tasks s"
  "busy_tasks (s\<lparr>dl_wanted := b\<rparr>) = busy_tasks s" "busy_tasks (s\<lparr>dl_keepalive := b\<rparr>) = busy_tasks s"
  "busy_tasks (s\<lparr>dl_onSync := b\<rparr>) = busy_tasks s" "busy_tasks (s\<lparr>dl_pending := r\<rparr>) = busy_tasks s"
  "busy_tasks (s\<lparr>dl_timers := l\<rparr>) = busy_tasks s" "busy_tasks (s\<lparr>dl_stored := k\<rparr>) = busy_tasks s"
  "busy_tasks (s\<lparr>dl_sessions := x'\<rparr>) = busy_tasks s"
  by (simp_all add: busy_tasks_def emit_def upd_session_def close_session_def)

lemma link_fields [simp]:
  "dl_held (to_phase t q s) = dl_held s" "dl_held (end_task t s) = dl_held s" "dl_held (emit x s) = dl_held s"
  "dl_wanted (to_phase t q s) = dl_wanted s" "dl_wanted (end_task t s) = dl_wanted s" "dl_wanted (emit x s) = dl_wanted s"
  "dl_sessions (to_phase t q s) = dl_sessions s" "dl_sessions (end_task t s) = dl_sessions s"
  "dl_sessions (emit x s) = dl_sessions s" "dl_held (upd_session i f s) = dl_held s" "dl_wanted (upd_session i f s) = dl_wanted s"
  "dl_sessions (upd_session i f s) = (dl_sessions s)[i := f (dl_sessions s ! i)]"
  "dl_held (close_session i s) = dl_held s" "dl_wanted (close_session i s) = dl_wanted s"
  "dl_sessions (close_session i s) = (dl_sessions s)[i := (dl_sessions s ! i)\<lparr>ls_closed := True\<rparr>]"
  by (simp_all add: to_phase_def end_task_def emit_def upd_session_def close_session_def)

lemma continue_fields [simp]:
  "dl_held (continue_with t c r s) = dl_held s" "dl_wanted (continue_with t c r s) = dl_wanted s"
  "dl_sessions (continue_with t c r s) = dl_sessions s"
  "busy_tasks (continue_with t c r s) = {(u, p) \<in> busy_tasks s. u \<noteq> t}"
  by (cases "(t, c, r, s)" rule: continue_with.cases; simp add: busy_update busy_phase_def)+

text \<open>The invariant with the busy task in hand.\<close>

lemma link_invI:
  "busy_tasks s = set_option b \<Longrightarrow> good_link (dl_held s) (dl_wanted s) (dl_sessions s) b \<Longrightarrow> link_inv s"
  by (auto simp: link_inv_def)

lemma others_idle: "{(u, p) \<in> set_option (Some (t, q)). u \<noteq> t} = {}"
  by auto

lemma idle_inv: "link_inv s \<Longrightarrow> busy_tasks s = {} \<Longrightarrow> good_link (dl_held s) (dl_wanted s) (dl_sessions s) None"
  by (auto simp: link_inv_def) (metis option.set_intros(1) option.exhaust empty_iff)

lemma busy_inv:
  assumes "link_inv s" "map_of (dl_tasks s) t = Some p" "busy_phase p"
  shows "busy_tasks s = {(t, p)} \<and> good_link (dl_held s) (dl_wanted s) (dl_sessions s) (Some (t, p))"
proof -
  obtain b where b: "busy_tasks s = set_option b" "good_link (dl_held s) (dl_wanted s) (dl_sessions s) b"
    using assms(1) by (auto simp: link_inv_def)
  have "(t, p) \<in> busy_tasks s" using assms(2,3) by (simp add: busy_tasks_def)
  with b(1) have "b = Some (t, p)" by (cases b) auto
  with b show ?thesis by simp
qed

lemma good_close:
  assumes "good_link h w ss (Some (t, p))" "session_of p = Some i"
  shows "good_link h w (ss[i := (ss ! i)\<lparr>ls_closed := True\<rparr>]) None"
  using assms by (auto simp: good_link_def connected_def nth_list_update split: if_splits)

lemma good_pick:
  assumes "good_link h w ss None" "h = Some i" "session_of p = Some i" "\<not> opens_link p"
  shows "good_link None w' ss (Some (t, p))"
  using assms by (auto simp: good_link_def)

lemma good_busy:
  "good_link h w ss (Some (t, p)) \<longleftrightarrow> h = None \<and> (opens_link p \<longrightarrow> w) \<and> (\<forall>i. session_of p = Some i \<longrightarrow> i < length ss) \<and>
     (\<forall>i < length ss. connected (ss ! i) \<longrightarrow> session_of p = Some i)"
proof -
  have a: "(\<forall>u q. Some (t, p) = Some (u, q) \<longrightarrow> Q q) = Q p" for Q by auto
  have b: "(\<exists>u q. Some (t, p) = Some (u, q) \<and> Q q) = Q p" for Q by auto
  have "good_link h w ss (Some (t, p)) \<longleftrightarrow>
      (h = None \<and> (opens_link p \<longrightarrow> w) \<and> (\<forall>i. session_of p = Some i \<longrightarrow> i < length ss)) \<and>
      (\<forall>i. h = Some i \<longrightarrow> w \<and> i < length ss) \<and>
      (\<forall>i < length ss. connected (ss ! i) \<longrightarrow> h = Some i \<or> session_of p = Some i)"
    unfolding good_link_def a b by (rule refl)
  then show ?thesis by (cases h) blast+
qed

lemma good_idle:
  "good_link h w ss None \<longleftrightarrow> (\<forall>i. h = Some i \<longrightarrow> w \<and> i < length ss) \<and> (\<forall>i < length ss. connected (ss ! i) \<longrightarrow> h = Some i)"
  unfolding good_link_def by blast

lemma good_phase:
  assumes "good_link h w ss (Some (t, p))" "session_of q = session_of p" "opens_link q \<longrightarrow> opens_link p"
  shows "good_link h w ss (Some (t, q))"
  using assms(1,3) unfolding good_busy assms(2) by blast

lemma good_wanted: "good_link h w ss None \<Longrightarrow> good_link h True ss None"
  unfolding good_idle by blast

lemma good_unwanted: "good_link None w ss None \<Longrightarrow> good_link None w' ss None"
  unfolding good_idle by blast

lemma good_gone: "good_link h w ss (Some (t, p)) \<Longrightarrow> session_of p = None \<Longrightarrow> good_link h w ss None"
  unfolding good_busy good_idle by auto

lemma good_new:
  assumes "good_link h w ss (Some (t, p))" "opens_link p" "session_of p = None" "session_of q = Some (length ss)"
  shows "good_link h w (ss @ [x]) (Some (t, q))"
proof -
  have "h = None" "w" "\<not> connected (ss ! i)" if "i < length ss" for i
    using assms(1-3) that by (simp_all add: good_busy)
  then have "\<not> connected ((ss @ [x]) ! i)" if "i < length ss" for i
    using that by (simp add: nth_append)
  moreover have "h = None" "w" using assms(1,2) by (simp_all add: good_link_def)
  ultimately show ?thesis
    using assms(4) by (auto simp: good_link_def less_Suc_eq)
qed

lemma good_establish:
  assumes "good_link h w ss (Some (t, p))" "session_of p = Some i" "opens_link p"
  shows "good_link (Some i) w (ss[i := (ss ! i)\<lparr>ls_established := True\<rparr>]) None"
proof -
  have i: "i < length ss" "w" and only: "connected (ss ! j) \<Longrightarrow> j < length ss \<Longrightarrow> j = i" for j
    using assms by (auto simp: good_link_def)
  have "connected (ss[i := (ss ! i)\<lparr>ls_established := True\<rparr>] ! j) = connected (ss ! j)" if "j < length ss" for j
    using that by (cases "j = i") (simp_all add: connected_def)
  with i only show ?thesis by (simp add: good_link_def)
qed

lemma inv_ensure_wanted:
  assumes "busy_tasks s = {}" "good_link (dl_held s) (dl_wanted s) (dl_sessions s) None" "dl_held s = None"
  shows "link_inv (ensure_wanted t c s)"
  using assms by (auto simp: ensure_wanted_def busy_update busy_phase_def good_link_def intro: link_invI [of _ None] link_invI [of _ "Some (t, Loading c)"])

lemma inv_same:
  assumes "link_inv s" "busy_tasks s' = busy_tasks s" "dl_held s' = dl_held s" "dl_wanted s' = dl_wanted s"
    "dl_sessions s' = dl_sessions s"
  shows "link_inv s'"
  using assms by (simp add: link_inv_def)

text \<open>From an idle state.\<close>

definition idle :: "link \<Rightarrow> bool" where
  "idle s \<longleftrightarrow> busy_tasks s = {} \<and> good_link (dl_held s) (dl_wanted s) (dl_sessions s) None"

lemma idle_inv': "idle s \<Longrightarrow> link_inv s"
  by (auto simp: idle_def intro: link_invI [of _ None])

lemma inv_idle: "link_inv s \<Longrightarrow> busy_tasks s = {} \<Longrightarrow> idle s"
  by (simp add: idle_def idle_inv)

lemma inv_continue: "idle s \<Longrightarrow> link_inv (continue_with t c r s)"
  by (rule idle_inv') (simp add: idle_def)

lemma inv_pick:
  assumes "idle s" "dl_held s = Some i" "session_of p = Some i" "\<not> opens_link p"
  shows "link_inv (to_phase t p (s\<lparr>dl_held := None\<rparr>))"
proof (rule link_invI [of _ "Some (t, p)"])
  show "busy_tasks (to_phase t p (s\<lparr>dl_held := None\<rparr>)) = set_option (Some (t, p))"
    using assms by (auto simp: busy_update busy_phase_def idle_def)
  show "good_link (dl_held (to_phase t p (s\<lparr>dl_held := None\<rparr>))) (dl_wanted (to_phase t p (s\<lparr>dl_held := None\<rparr>)))
      (dl_sessions (to_phase t p (s\<lparr>dl_held := None\<rparr>))) (Some (t, p))"
    using good_pick [of "dl_held s" "dl_wanted s" "dl_sessions s" i p "dl_wanted s" t] assms by (simp add: idle_def)
qed

lemma inv_end: "idle s \<Longrightarrow> link_inv (end_task t s)"
  by (rule idle_inv') (simp add: idle_def busy_update)

lemma inv_ensure: "idle s \<Longrightarrow> link_inv (ensureHeld t c s)"
  unfolding ensureHeld_def
  by (auto split: option.splits intro!: inv_continue inv_pick inv_ensure_wanted simp: idle_def)

lemma inv_drop: "idle s \<Longrightarrow> link_inv (dropHeld t s)"
  unfolding dropHeld_def by (auto split: option.splits intro!: inv_end inv_pick)

lemma inv_close_link:
  assumes "idle s"
  shows "link_inv (close_link t (s\<lparr>dl_wanted := w\<rparr>))"
proof (cases "w \<or> dl_held s = None")
  case True
  moreover have "good_link None False (dl_sessions s) None" if "dl_held s = None"
    using assms that good_unwanted [of "dl_wanted s" "dl_sessions s"] by (simp add: idle_def)
  moreover have "good_link (dl_held s) True (dl_sessions s) None"
    using assms good_wanted by (auto simp: idle_def)
  ultimately have "idle (close_link t (s\<lparr>dl_wanted := w\<rparr>))"
    using assms by (auto simp: close_link_def Let_def idle_def split: option.splits)
  then show ?thesis by (rule idle_inv')
next
  case False
  then obtain i where i: "dl_held s = Some i" "\<not> w" by auto
  have "link_inv (to_phase t (LinkClosing i) (s\<lparr>dl_wanted := False, dl_keepalive := False, dl_held := None\<rparr>))"
  proof (rule link_invI [of _ "Some (t, LinkClosing i)"])
    show "good_link (dl_held (to_phase t (LinkClosing i) (s\<lparr>dl_wanted := False, dl_keepalive := False, dl_held := None\<rparr>)))
        (dl_wanted (to_phase t (LinkClosing i) (s\<lparr>dl_wanted := False, dl_keepalive := False, dl_held := None\<rparr>)))
        (dl_sessions (to_phase t (LinkClosing i) (s\<lparr>dl_wanted := False, dl_keepalive := False, dl_held := None\<rparr>)))
        (Some (t, LinkClosing i))"
      using good_pick [of "dl_held s" "dl_wanted s" "dl_sessions s" i "LinkClosing i" False t] assms i by (simp add: idle_def)
  qed (use assms in \<open>auto simp: busy_update busy_phase_def idle_def\<close>)
  with i show ?thesis by (simp add: close_link_def Let_def)
qed

text \<open>From a state whose busy task is the one that goes on.\<close>

lemma inv_moves:
  assumes "busy_tasks s = {(t, p)}" "good_link (dl_held s) (dl_wanted s) ss (Some (t, q))" "busy_phase q"
  shows "link_inv (to_phase t q (s\<lparr>dl_sessions := ss\<rparr>))"
  using assms by (auto simp: busy_update intro!: link_invI [of _ "Some (t, q)"])

lemma inv_to_phase:
  assumes "busy_tasks s = {(t, p)}" "good_link (dl_held s) (dl_wanted s) (dl_sessions s) (Some (t, q))" "busy_phase q"
  shows "link_inv (to_phase t q s)"
  using assms by (auto simp: busy_update intro!: link_invI [of _ "Some (t, q)"])

lemma idle_closed:
  assumes "busy_tasks s = {(t, p)}" "good_link (dl_held s) (dl_wanted s) (dl_sessions s) (Some (t, p))" "session_of p = Some i"
  shows "idle (end_task t (close_session i s))" "idle (continue_with t c r (close_session i s))"
  using good_close [OF assms(2,3)] assms(1) by (auto simp: idle_def busy_update)

lemma inv_establish:
  assumes "busy_tasks s = {(t, p)}" "good_link (dl_held s) (dl_wanted s) (dl_sessions s) (Some (t, p))"
    "session_of p = Some i" "opens_link p"
  shows "link_inv (establish t c i s)"
proof -
  have "good_link (Some i) (dl_wanted s) ((dl_sessions s)[i := (dl_sessions s ! i)\<lparr>ls_established := True\<rparr>]) None"
    by (rule good_establish [OF assms(2-4)])
  then show ?thesis
    unfolding establish_def using assms(1) by (auto intro!: idle_inv' simp: idle_def)
qed

lemma resume_link_inv:
  assumes inv: "link_inv s" and p: "map_of (dl_tasks s) t = Some p"
    and calm: "p \<in> {AskLoading, OpenChecking} \<or> (\<exists>f i. p = SendSealing f i) \<longrightarrow> busy_tasks s = {}"
  shows "link_inv (resume t p w s)"
proof (cases "busy_phase p")
  case True
  from busy_inv [OF inv p True] have b: "busy_tasks s = {(t, p)}"
    and g: "good_link (dl_held s) (dl_wanted s) (dl_sessions s) (Some (t, p))" by auto
  have gone: "idle (end_task t s)" "idle (continue_with t c r s)" if "session_of p = None" for c r
    using b good_gone [OF g that] by (auto simp: idle_def busy_update)
  note next_phase = inv_to_phase [OF b good_phase [OF g]]
  show ?thesis
  proof (cases p)
    case (Dropping c i)
    have "good_link (dl_held s) (dl_wanted s) ((dl_sessions s)[i := (dl_sessions s ! i)\<lparr>ls_closed := True\<rparr>]) None"
      by (rule good_close [OF g]) (simp add: Dropping)
    moreover have "dl_held s = None" using g by (simp add: good_link_def)
    moreover have "link_inv (to_phase t (Loading c) (s\<lparr>dl_sessions := (dl_sessions s)[i := (dl_sessions s ! i)\<lparr>ls_closed := True\<rparr>]\<rparr>))"
      if "dl_wanted s"
    proof (rule inv_moves [OF b])
      show "good_link (dl_held s) (dl_wanted s) ((dl_sessions s)[i := (dl_sessions s ! i)\<lparr>ls_closed := True\<rparr>]) (Some (t, Loading c))"
        using calculation that by (simp add: good_link_def)
    qed (simp add: busy_phase_def)
    moreover have "link_inv (continue_with t c None (close_session i s))"
      by (rule idle_inv' [OF idle_closed(2) [OF b g]]) (simp add: Dropping)
    ultimately have "link_inv (ensure_wanted t c (close_session i s))"
      by (simp add: ensure_wanted_def close_session_def upd_session_def)
    with Dropping show ?thesis by simp
  next
    case (Loading c)
    have "link_inv (to_phase t (Checking c) s)" by (rule next_phase) (simp_all add: Loading busy_phase_def)
    with Loading gone inv show ?thesis by (cases w) (simp_all add: idle_inv')
  next
    case (Checking c)
    have "link_inv (to_phase t (Starting c) s)" by (rule next_phase) (simp_all add: Checking busy_phase_def)
    with Checking gone inv show ?thesis by (cases w) (simp_all add: idle_inv')
  next
    case (Starting c)
    have "link_inv (to_phase t (Greeting c (length (dl_sessions s))) (s\<lparr>dl_sessions := dl_sessions s @ [new_session]\<rparr>))"
      by (rule inv_moves [OF b good_new [OF g]]) (simp_all add: Starting busy_phase_def)
    with Starting gone inv show ?thesis by (cases w) (simp_all add: idle_inv')
  next
    case (Greeting c i)
    have "link_inv (to_phase t (Refusing c i) s)" "link_inv (to_phase t (Reading c i) s)"
      by (rule next_phase; simp add: Greeting busy_phase_def)+
    with Greeting inv inv_establish [OF b g] show ?thesis by (cases w) simp_all
  next
    case (Reading c i)
    have "link_inv (to_phase t (Refusing c i) s)" by (rule next_phase) (simp_all add: Reading busy_phase_def)
    with Reading inv inv_establish [OF b g] show ?thesis by (cases w) simp_all
  next
    case (Refusing c i)
    with idle_closed [OF b g] show ?thesis by (auto intro: idle_inv')
  next
    case (DropClosing i)
    with idle_closed [OF b g] show ?thesis by (auto intro: idle_inv')
  next
    case (LinkClosing i)
    with idle_closed [OF b g] show ?thesis by (auto intro: idle_inv')
  qed (use True in \<open>simp_all add: busy_phase_def\<close>)
next
  case False
  have same: "busy_tasks (end_task t s1) = busy_tasks s" "busy_phase q \<Longrightarrow> busy_tasks (to_phase t q s1) = busy_tasks s \<union> {(t, q)}"
    "\<not> busy_phase q \<Longrightarrow> busy_tasks (to_phase t q s1) = busy_tasks s"
    if "busy_tasks s1 = busy_tasks s" for s1 q
  proof -
    have "(t, r) \<notin> busy_tasks s" for r using p False by (auto simp: busy_tasks_def)
    then have "{(u, r) \<in> busy_tasks s1. u \<noteq> t} = busy_tasks s" using that by auto
    then show "busy_tasks (end_task t s1) = busy_tasks s" "busy_phase q \<Longrightarrow> busy_tasks (to_phase t q s1) = busy_tasks s \<union> {(t, q)}"
      "\<not> busy_phase q \<Longrightarrow> busy_tasks (to_phase t q s1) = busy_tasks s"
      by (simp_all only: busy_update if_True if_False Un_empty_right)
  qed
  have ended: "link_inv (end_task t s1)" "\<not> busy_phase q \<Longrightarrow> link_inv (to_phase t q s1)"
    if "busy_tasks s1 = busy_tasks s" "dl_held s1 = dl_held s" "dl_wanted s1 = dl_wanted s" "dl_sessions s1 = dl_sessions s" for s1 q
    using that same [OF that(1)] inv by (auto intro!: inv_same [OF inv])
  have idle: "idle s" if "busy_tasks s = {}" using inv_idle [OF inv that] .
  have wanted: "idle (s\<lparr>dl_wanted := True, dl_keepalive := True\<rparr>)" if "busy_tasks s = {}"
    using idle [OF that] good_wanted [of "dl_held s" "dl_wanted s" "dl_sessions s"] by (simp add: idle_def)
  have em: "link_inv (emit x s1) = link_inv s1" for x s1 by (auto simp: link_inv_def)
  show ?thesis
    using False calm inv
    by (cases "(t, p, w, s)" rule: resume.cases)
      (auto simp: busy_phase_def em Let_def intro!: ended inv_ensure inv_drop idle wanted)
qed

text \<open>Steps that touch only sessions.\<close>

lemma length_upd: "length (dl_sessions (upd_session i f s)) = length (dl_sessions s)"
  by simp

lemma connected_upd:
  assumes "connected ((dl_sessions (upd_session i f s)) ! j)" "j < length (dl_sessions s)" "\<And>x. connected (f x) \<Longrightarrow> connected x"
  shows "connected (dl_sessions s ! j)"
  using assms by (cases "j = i") (auto dest: assms(3))

lemma good_less:
  assumes "good_link h w ss b" "length ss' = length ss" "\<And>j. j < length ss \<Longrightarrow> connected (ss' ! j) \<Longrightarrow> connected (ss ! j)"
  shows "good_link h w ss' b"
proof (cases b)
  case None
  with assms(1) show ?thesis using assms(3) unfolding None good_idle assms(2) by blast
next
  case (Some x)
  obtain t p where x: "x = (t, p)" by (cases x)
  show ?thesis using assms(1,3) unfolding Some x good_busy assms(2) by blast
qed

lemma good_lost:
  assumes "good_link (Some i) w ss b" "\<not> connected (ss ! i)"
  shows "good_link None w ss b"
proof (cases b)
  case None
  show ?thesis using assms unfolding None good_idle by blast
next
  case (Some x)
  obtain t p where x: "x = (t, p)" by (cases x)
  show ?thesis using assms(1) unfolding Some x good_busy by blast
qed

lemma inv_sessions:
  assumes inv: "link_inv s" and busy: "busy_tasks s' = busy_tasks s" and w: "dl_wanted s' = dl_wanted s"
    and len: "length (dl_sessions s') = length (dl_sessions s)"
    and less: "\<And>j. j < length (dl_sessions s) \<Longrightarrow> connected (dl_sessions s' ! j) \<Longrightarrow> connected (dl_sessions s ! j)"
    and h: "dl_held s' = dl_held s \<or> (\<exists>i. dl_held s = Some i \<and> dl_held s' = None \<and> \<not> connected (dl_sessions s' ! i))"
  shows "link_inv s'"
proof -
  obtain b where b: "busy_tasks s = set_option b" "good_link (dl_held s) (dl_wanted s) (dl_sessions s) b"
    using inv unfolding link_inv_def by blast
  have g: "good_link (dl_held s) (dl_wanted s) (dl_sessions s') b" by (rule good_less [OF b(2) len less])
  have "good_link (dl_held s') (dl_wanted s) (dl_sessions s') b"
  proof (cases "dl_held s' = dl_held s")
    case True
    with g show ?thesis by simp
  next
    case False
    with h obtain i where i: "dl_held s = Some i" "dl_held s' = None" "\<not> connected (dl_sessions s' ! i)" by auto
    with g good_lost [of i] show ?thesis by simp
  qed
  with b(1) busy w show ?thesis by (auto intro: link_invI)
qed

lemma busy_other:
  assumes "\<And>p. map_of (dl_tasks s) t = Some p \<Longrightarrow> \<not> busy_phase p"
  shows "busy_tasks (end_task t s) = busy_tasks s" "\<not> busy_phase q \<Longrightarrow> busy_tasks (to_phase t q s) = busy_tasks s"
proof -
  have "(t, r) \<notin> busy_tasks s" for r using assms by (auto simp: busy_tasks_def)
  then have "{(u, r) \<in> busy_tasks s. u \<noteq> t} = busy_tasks s" by auto
  then show "busy_tasks (end_task t s) = busy_tasks s" "\<not> busy_phase q \<Longrightarrow> busy_tasks (to_phase t q s) = busy_tasks s"
    by (simp_all only: busy_update if_False Un_empty_right)
qed

lemma inv_fresh:
  assumes "link_inv s" "map_of (dl_tasks s) t = None" "\<not> busy_phase q"
  shows "link_inv (to_phase t q s)"
  by (rule inv_same [OF assms(1) busy_other(2)]) (use assms(2,3) in simp_all)

lemma calm_idle: "link_inv s \<Longrightarrow> busy_tasks s = {} \<Longrightarrow> idle (s\<lparr>dl_onSync := f\<rparr>)"
  using inv_idle [of s] by (simp add: idle_def)

lemma fresh_task: "fresh_event e s \<Longrightarrow> event_task e = Some t \<Longrightarrow> map_of (dl_tasks s) t = None"
  by (simp add: fresh_event_def)

lemma route_inv:
  assumes inv: "link_inv s" and calm: "f = None \<Longrightarrow> busy_tasks s = {}"
  shows "link_inv (routeInbound t i f s)"
proof -
  have keep: "link_inv (emit x s)" for x by (rule inv_same [OF inv]) simp_all
  have answer: "link_inv ((emit x (end_task r s))\<lparr>dl_pending := a, dl_timers := l\<rparr>)" if "map_of (dl_tasks s) r = Some (AskWaiting j)" for x r a l j
    by (rule inv_same [OF inv]) (use that busy_other(1) [of s r] in \<open>simp_all add: busy_phase_def\<close>)
  have forget: "link_inv (s\<lparr>dl_pending := a, dl_timers := l\<rparr>)" for a l by (rule inv_same [OF inv]) simp_all
  show ?thesis
    using inv_drop [OF inv_idle [OF inv calm]] keep answer forget inv
    by (auto simp: routeInbound_def split: option.splits inbound.splits)
qed

lemma step_link_inv:
  assumes inv: "link_inv s" and fresh: "fresh_event e s" and calm: "calm e s"
  shows "link_inv (link_step e s)"
proof (cases e)
  case (CallsOpen t)
  with inv_fresh [OF inv fresh_task [OF fresh]] show ?thesis by (simp add: busy_phase_def)
next
  case (CallsOpenSync t)
  have "link_inv (s\<lparr>dl_onSync := True\<rparr>)" by (rule inv_same [OF inv]) simp_all
  from inv_fresh [OF this] fresh_task [OF fresh] CallsOpenSync show ?thesis by (simp add: busy_phase_def)
next
  case (CallsAsk t)
  with inv_fresh [OF inv fresh_task [OF fresh]] show ?thesis by (simp add: busy_phase_def)
next
  case (CallsTab t)
  with inv_fresh [OF inv fresh_task [OF fresh]] inv show ?thesis by (auto simp: busy_phase_def split: option.splits)
next
  case (Ticks t)
  with inv_ensure [OF inv_idle [OF inv]] calm inv show ?thesis by (simp add: calm_def)
next
  case (CallsSend t x)
  with inv_ensure [OF inv_idle [OF inv]] calm show ?thesis by (simp add: calm_def)
next
  case (CallsClose t)
  have "link_inv (close_link t (s\<lparr>dl_onSync := False\<rparr>\<lparr>dl_wanted := False\<rparr>))"
    by (rule inv_close_link [OF calm_idle [OF inv]]) (use CallsClose calm in \<open>simp add: calm_def\<close>)
  moreover have "s\<lparr>dl_onSync := False\<rparr>\<lparr>dl_wanted := False\<rparr> = s\<lparr>dl_wanted := False\<rparr>\<lparr>dl_onSync := False\<rparr>"
    by (cases s) simp
  ultimately show ?thesis using CallsClose by (simp add: closeDesktopLink_def closeSyncLink_def)
next
  case (CallsCloseSync t)
  have "link_inv (close_link t (s\<lparr>dl_onSync := False\<rparr>\<lparr>dl_wanted := dl_wanted s\<rparr>))"
    by (rule inv_close_link [OF calm_idle [OF inv]]) (use CallsCloseSync calm in \<open>simp add: calm_def\<close>)
  with CallsCloseSync show ?thesis by (simp add: closeSyncLink_def)
next
  case (Resumes t w)
  show ?thesis
  proof (cases "map_of (dl_tasks s) t")
    case (Some p)
    have "link_inv (resume t p w s)"
      by (rule resume_link_inv [OF inv Some]) (use calm Resumes Some in \<open>auto simp: calm_def\<close>)
    with Resumes Some show ?thesis by simp
  qed (use Resumes inv in simp)
next
  case (FrameArrives i x)
  have "link_inv (upd_session i (\<lambda>x'. x'\<lparr>ls_chain := ls_chain x' @ [x]\<rparr>) s)"
    by (rule inv_sessions [OF inv]) (rule connected_upd, assumption+, simp add: connected_def | simp)+
  with FrameArrives inv show ?thesis by simp
next
  case (FrameOpened t i f)
  have popped: "link_inv (upd_session i (\<lambda>x. x\<lparr>ls_chain := rest\<rparr>) s)" for rest
    by (rule inv_sessions [OF inv]) (rule connected_upd, assumption+, simp add: connected_def | simp)+
  show ?thesis
    using route_inv [OF popped] FrameOpened inv calm by (auto simp: calm_def split: list.splits)
next
  case (PipeDies i)
  have "link_inv (link_step (PipeDies i) s)"
  proof (rule inv_sessions [OF inv])
    show "dl_held (link_step (PipeDies i) s) = dl_held s \<or>
        (\<exists>j. dl_held s = Some j \<and> dl_held (link_step (PipeDies i) s) = None \<and> \<not> connected (dl_sessions (link_step (PipeDies i) s) ! j))"
    proof (cases "ls_established (dl_sessions s ! i) \<and> dl_held s = Some i")
      case True
      moreover have "i < length (dl_sessions s)"
        using inv True by (auto simp: link_inv_def good_link_def)
      ultimately show ?thesis by (simp add: Let_def connected_def)
    qed (auto simp: Let_def)
    show "connected (dl_sessions s ! j)" if "j < length (dl_sessions s)" "connected (dl_sessions (link_step (PipeDies i) s) ! j)" for j
    proof (rule connected_upd [where f = "\<lambda>x. x\<lparr>ls_dead := True\<rparr>"])
      show "connected (dl_sessions (upd_session i (\<lambda>x. x\<lparr>ls_dead := True\<rparr>) s) ! j)"
        using that(2) by (simp add: Let_def split: if_splits)
    qed (use that(1) in \<open>simp_all add: connected_def\<close>)
  qed (simp_all add: Let_def)
  with PipeDies show ?thesis by simp
next
  case (TimerFires t)
  have fired: "link_inv (s\<lparr>dl_pending := None, dl_timers := l\<rparr>)" for l by (rule inv_same [OF inv]) simp_all
  have waited: "link_inv (emit x (end_task t (s\<lparr>dl_pending := None, dl_timers := l\<rparr>)))"
    if "map_of (dl_tasks s) t = Some (AskWaiting i)" for x l i
    by (rule inv_same [OF inv]) (use that busy_other(1) [of "s\<lparr>dl_pending := None, dl_timers := l\<rparr>" t] in \<open>simp_all add: busy_phase_def\<close>)
  from fired waited inv TimerFires show ?thesis by (auto simp: Let_def)
next
  case (Paired k)
  have "link_inv (s\<lparr>dl_stored := Some k\<rparr>)" by (rule inv_same [OF inv]) simp_all
  with Paired show ?thesis by simp
next
  case Unlinked
  have "link_inv (s\<lparr>dl_stored := None\<rparr>)" by (rule inv_same [OF inv]) simp_all
  with Unlinked show ?thesis by simp
qed

lemma calm_run_inv: "link_run calm s \<Longrightarrow> link_inv s"
proof (induction rule: link_run.induct)
  case (started stored)
  have "busy_tasks (new_worker stored) = {}" by (simp add: busy_tasks_def new_worker_def)
  then show ?case by (intro link_invI [of _ None]) (simp_all add: new_worker_def good_idle)
next
  case (stepped s e)
  then show ?case by (intro step_link_inv)
qed

lemma filter_at_most_one:
  assumes "\<And>i j. i < length xs \<Longrightarrow> j < length xs \<Longrightarrow> P (xs ! i) \<Longrightarrow> P (xs ! j) \<Longrightarrow> i = j"
  shows "length (filter P xs) \<le> 1"
proof -
  have "card {i. i < length xs \<and> P (xs ! i)} \<le> 1"
    by (rule card_le_Suc0_iff_eq [THEN iffD2, folded One_nat_def]) (use assms in auto)
  then show ?thesis by (simp add: length_filter_conv_card)
qed

text \<open>The extension holds at most one connection to the app. As long as nothing opens, drops or
  closes the link while another task is at it, no two sessions are connected at the same time, and a link that is
  held is one that is wanted.\<close>

lemma one_link_while_calm:
  assumes "link_run calm s"
  shows "length (filter connected (dl_sessions s)) \<le> 1 \<and> (dl_held s = None \<or> dl_wanted s)"
proof -
  obtain b where b: "good_link (dl_held s) (dl_wanted s) (dl_sessions s) b"
    using calm_run_inv [OF assms] unfolding link_inv_def by blast
  have one: "i = j" if "i < length (dl_sessions s)" "j < length (dl_sessions s)" "connected (dl_sessions s ! i)"
      "connected (dl_sessions s ! j)" for i j
  proof (cases b)
    case None
    with b that have "dl_held s = Some i" "dl_held s = Some j" unfolding None good_idle by blast+
    then show ?thesis by simp
  next
    case (Some x)
    obtain t p where x: "x = (t, p)" by (cases x)
    have "session_of p = Some i" "session_of p = Some j" using b that unfolding Some x good_busy by blast+
    then show ?thesis by simp
  qed
  have "dl_held s = None \<or> dl_wanted s"
  proof (cases "dl_held s")
    case (Some i)
    with b have "dl_wanted s" unfolding good_link_def by blast
    then show ?thesis by simp
  qed simp
  with filter_at_most_one [OF one] show ?thesis by blast
qed

lemma one_link_while_calm_witness:
  "length (filter connected (dl_sessions (run_events (two_asks @ [PipeDies 0, Ticks 5]) (new_worker None)))) \<le> 1 \<and>
   dl_held (run_events two_asks (new_worker None)) = Some 0"
proof -
  have "events_ok calm (two_asks @ [PipeDies 0, Ticks 5]) (new_worker None)" by code_simp
  from one_link_while_calm [OF run_of_events [OF link_run.started this]]
  have "length (filter connected (dl_sessions (run_events (two_asks @ [PipeDies 0, Ticks 5]) (new_worker None)))) \<le> 1" by blast
  moreover have "dl_held (run_events two_asks (new_worker None)) = Some 0" by code_simp
  ultimately show ?thesis by blast
qed

text \<open>Two openings at once make two connections: \<open>ensureHeld\<close> does not remember that one is on its way, and the
  session that is no longer held is closed by nobody. So does a close during the handshake leave a link held that
  is not wanted.\<close>

definition opening_by :: "nat \<Rightarrow> link_event list" where
  "opening_by t =
     [CallsOpen t, Resumes t (GotKeys (Some some_keys)), Resumes t (GotBool True), Resumes t (GotKeys (Some some_keys)),
      Resumes t (GotBool True), Resumes t GotDone]"

lemma overlapping_openings_make_two_links:
  "(let s = run_events (opening_by 1 @ opening_by 2 @ [Resumes 1 (GotReply True False), Resumes 2 (GotReply True False)]) (new_worker None)
    in map connected (dl_sessions s) = [True, True] \<and> dl_held s = Some 1 \<and> dl_tasks s = [])"
  by code_simp

lemma close_during_handshake_leaves_a_link:
  "(let s = run_events (opening_by 1 @ [CallsClose 2, Resumes 1 (GotReply True False)]) (new_worker None)
    in dl_held s = Some 0 \<and> \<not> dl_wanted s \<and> map connected (dl_sessions s) = [True])"
  by code_simp

text \<open>The link outlives the sync it was opened for: \<open>closeSyncLink\<close> leaves a wanted link alone, and
  \<open>openSyncLink\<close> makes it wanted.\<close>

lemma sync_link_outlives_its_sync:
  "(let s = run_events ([CallsOpenSync 1] @ tl (opening_by 1) @ [Resumes 1 (GotReply True False), CallsCloseSync 2]) (new_worker None)
    in dl_held s = Some 0 \<and> dl_keepalive s \<and> \<not> dl_onSync s)"
  by code_simp

end
