(* ===== verification/LastPass.thy ===== *)
theory LastPass
  imports Csv_Import Cards
begin

text \<open>
  The LastPass importer (\<open>packages/core/src/import/lastpass.ts\<close>): login rows, and secure notes whose
  \<open>extra\<close> column holds a typed block of fields read against the template of its type.
\<close>

subsection \<open>Typed blocks\<close>

definition TEMPLATES :: "(string \<times> string list) list" where
  "TEMPLATES =
     [(''Bank Account'', [''Bank Name'', ''Account Type'', ''Routing Number'', ''Account Number'',
        ''SWIFT Code'', ''IBAN Number'', ''Pin'', ''Branch Address'', ''Branch Phone'']),
      (''Credit Card'', [''Name on Card'', ''Type'', ''Number'', ''Security Code'', ''Start Date'',
        ''Expiration Date'']),
      (''Database'', [''Type'', ''Hostname'', ''Port'', ''Database'', ''Username'', ''Password'', ''SID'',
        ''Alias'']),
      ((''Driver'' @ CHR 0x27 # ''s License''), [''Number'', ''Expiration Date'', ''License Class'',
        ''Name'', ''Address'', ''City / Town'', ''State'', ''ZIP / Postal Code'', ''Country'',
        ''Date of Birth'', ''Sex'', ''Height'']),
      (''Email Account'', [''Username'', ''Password'', ''Server'', ''Port'', ''Type'', ''SMTP Server'',
        ''SMTP Port'']),
      (''Health Insurance'', [''Company'', ''Company Phone'', ''Policy Type'', ''Policy Number'',
        ''Group ID'', ''Member Name'', ''Member ID'', ''Physician Name'', ''Physician Phone'',
        ''Physician Address'', ''Co-pay'']),
      (''Instant Messenger'', [''Type'', ''Username'', ''Password'', ''Server'', ''Port'']),
      (''Insurance'', [''Company'', ''Policy Type'', ''Policy Number'', ''Expiration'', ''Agent Name'',
        ''Agent Phone'', ''URL'']),
      (''Membership'', [''Organization'', ''Membership Number'', ''Member Name'', ''Start Date'',
        ''Expiration Date'', ''Website'', ''Telephone'', ''Password'']),
      (''Passport'', [''Type'', ''Name'', ''Country'', ''Number'', ''Sex'', ''Nationality'',
        ''Date of Birth'', ''Issued Date'', ''Expiration Date'']),
      (''Server'', [''Hostname'', ''Username'', ''Password'']),
      (''Software License'', [''License Key'', ''Licensee'', ''Version'', ''Publisher'', ''Support Email'',
        ''Website'', ''Price'', ''Purchase Date'', ''Order Number'', ''Number of Licenses'',
        ''Order Total'']),
      (''SSH Key'', [''Bit Strength'', ''Format'', ''Passphrase'', ''Private Key'', ''Public Key'',
        ''Hostname'', ''Date'']),
      (''Social Security'', [''Name'', ''Number'']),
      (''Wi-Fi Password'', [''SSID'', ''Password'', ''Connection Type'', ''Connection Mode'',
        ''Authentication'', ''Encryption'', ''Use 802.1X'', ''FIPS Mode'', ''Key Type'', ''Protected'',
        ''Key Index'']),
      (''Address'', [''Title'', ''First Name'', ''Middle Name'', ''Last Name'', ''Username'', ''Gender'',
        ''Birthday'', ''Company'', ''Address 1'', ''Address 2'', ''Address 3'', ''City / Town'', ''County'',
        ''State'', ''Zip / Postal Code'', ''Country'', ''Timezone'', ''Email Address'', ''Phone'',
        ''Evening Phone'', ''Mobile Phone'', ''Fax''])]"

definition MONTHS :: "string list" where
  "MONTHS = [''january'', ''february'', ''march'', ''april'', ''may'', ''june'', ''july'', ''august'', ''september'',
     ''october'', ''november'', ''december'']"

text \<open>A type that is a member of every JavaScript object finds that member, and spreading it throws.\<close>

definition INHERITED :: "string list" where
  "INHERITED = [''constructor'', ''hasOwnProperty'', ''isPrototypeOf'', ''propertyIsEnumerable'', ''toLocaleString'',
     ''toString'', ''valueOf'', ''__proto__'', ''__defineGetter__'', ''__defineSetter__'', ''__lookupGetter__'', ''__lookupSetter__'']"

record note_block =
  nb_noteType :: string
  nb_fields :: "string jsmap"
  nb_notes :: string

record note_state =
  ns_fields :: "string jsmap"
  ns_key :: string
  ns_value :: "string list"
  ns_next :: nat

definition flush :: "note_state \<Rightarrow> string jsmap" where
  "flush s = (if ns_key s \<noteq> [] then AList.update (ns_key s) (join_with [CHR 0x0A] (ns_value s)) (ns_fields s) else ns_fields s)"

text \<open>The first label from index \<open>i\<close> on that the line opens.\<close>

fun opens_from :: "nat \<Rightarrow> nat \<Rightarrow> string list \<Rightarrow> string \<Rightarrow> nat option" where
  "opens_from i n [] line = None"
| "opens_from i n (k # ks) line =
     (if i \<ge> n \<and> prefix (k @ '':'') line then Some i else opens_from (Suc i) n ks line)"

definition open_field :: "string \<Rightarrow> string \<Rightarrow> nat \<Rightarrow> note_state \<Rightarrow> note_state" where
  "open_field k line n s =
     \<lparr>ns_fields = flush s, ns_key = k, ns_value = [drop (length k + 1) line], ns_next = n\<rparr>"

definition generic_key :: "string \<Rightarrow> string option" where
  "generic_key line =
     (let k = takeWhile (\<lambda>c. c \<noteq> CHR '':'') line in if k \<noteq> [] \<and> length k < length line then Some k else None)"

definition note_line :: "bool \<Rightarrow> string list \<Rightarrow> note_state \<Rightarrow> string \<Rightarrow> note_state" where
  "note_line templated expected s line =
     (let more = s\<lparr>ns_value := ns_value s @ [line]\<rparr>
      in if ns_key s = ''Notes'' then more
         else (case opens_from 0 (ns_next s) expected line of
             Some i \<Rightarrow> open_field (expected ! i) line (Suc i) s
           | None \<Rightarrow> if templated then more
               else (case generic_key line of
                   Some k \<Rightarrow> open_field k line (ns_next s) s
                 | None \<Rightarrow> more)))"

definition first_state :: note_state where
  "first_state = \<lparr>ns_fields = [], ns_key = [], ns_value = [], ns_next = 0\<rparr>"

text \<open>\<open>Inl\<close> is a thrown error; \<open>None\<close> an ordinary note body.\<close>

definition parseNoteBlock :: "string \<Rightarrow> string + note_block option" where
  "parseNoteBlock extra =
     (if \<not> prefix ''NoteType:'' extra then Inr None
      else let lines = split_on CHR 0x0A extra; noteType = trim (drop 9 (hd lines))
        in if noteType \<in> set INHERITED then Inl ''TypeError: template is not iterable''
           else let template = map_of TEMPLATES noteType;
               expected = [''Language''] @ (case template of Some t \<Rightarrow> t | None \<Rightarrow> []) @ [''Notes''];
               fields = flush (foldl (note_line (template \<noteq> None) expected) first_state (tl lines))
             in Inr (Some \<lparr>nb_noteType = noteType,
                  nb_fields = AList.delete ''Language'' (AList.delete ''Notes'' fields),
                  nb_notes = (case map_of fields ''Notes'' of Some n \<Rightarrow> n | None \<Rightarrow> [])\<rparr>))"

subsection \<open>Entries\<close>

definition blankish :: "string \<Rightarrow> bool" where
  "blankish v \<longleftrightarrow> list_all (\<lambda>c. c = CHR '','' \<or> is_space c) v"

definition SECRET_FIELDS :: "string list" where
  "SECRET_FIELDS = [''password'', ''pin'', ''passphrase'', ''private key'']"

definition splitExpiry :: "string \<Rightarrow> string \<times> string" where
  "splitExpiry v =
     (let parts = map trim (split_on CHR '','' v)
      in (case index_of (to_lower (hd parts)) MONTHS of None \<Rightarrow> [] | Some m \<Rightarrow> dec (m + 1),
          case find (\<lambda>p. list_all is_digit p \<and> (length p = 2 \<or> length p = 4)) (tl parts) of None \<Rightarrow> [] | Some y \<Rightarrow> y))"

definition BRANDS :: "(string \<times> string) list" where
  "BRANDS = [(''visa'', ''Visa''), (''mastercard'', ''Mastercard''), (''master card'', ''Mastercard''), (''amex'', ''Amex''),
     (''american express'', ''Amex''), (''discover'', ''Discover'')]"

definition brandOf :: "string \<Rightarrow> string \<Rightarrow> string option" where
  "brandOf number type =
     (case cardBrand number of Some b \<Rightarrow> Some (brand_name b) | None \<Rightarrow> map_of BRANDS (to_lower (trim type)))"

definition leftovers :: "string jsmap \<Rightarrow> string list \<Rightarrow> raw_field list" where
  "leftovers fs used =
     map (\<lambda>(k, v). \<lparr>rf_key = k, rf_value = v, rf_hidden = (if to_lower k \<in> set SECRET_FIELDS then Some True else None)\<rparr>)
       (filter (\<lambda>(k, v). k \<notin> set used \<and> \<not> blankish v) fs)"

definition CARD_FIELDS :: "string list" where
  "CARD_FIELDS = [''Name on Card'', ''Number'', ''Security Code'', ''Expiration Date'']"

definition SSH_FIELDS :: "string list" where
  "SSH_FIELDS = [''Public Key'', ''Private Key'', ''Passphrase'']"

definition get :: "string jsmap \<Rightarrow> string \<Rightarrow> string" where
  "get m k = (case map_of m k of Some v \<Rightarrow> v | None \<Rightarrow> [])"

definition imported_entry ::
  "string \<Rightarrow> string option \<Rightarrow> custom_field list option \<Rightarrow> string list option \<Rightarrow> entry_body \<Rightarrow> entry_data" where
  "imported_entry name notes custom tags body =
     \<lparr>en_name = name, en_notes = notes, en_customFields = custom, en_createdAt = None, en_updatedAt = None,
      en_lastUsedAt = None, en_archivedAt = None, en_tags = tags, en_body = body\<rparr>"

definition fromNoteBlock :: "note_block \<Rightarrow> string \<Rightarrow> string list option \<Rightarrow> entry_data" where
  "fromNoteBlock block name tags =
     (let f = nb_fields block; notes = some_text (nb_notes block); publicKey = get f ''Public Key''; privateKey = get f ''Private Key''
      in if nb_noteType block = ''Credit Card'' then
           (let number = get f ''Number''; type = get f ''Type''; brand = brandOf number type;
                used = (if brand \<noteq> None \<and> to_lower (trim type) \<in> fst ` set BRANDS then CARD_FIELDS @ [''Type''] else CARD_FIELDS);
                expiry = splitExpiry (get f ''Expiration Date'')
            in imported_entry name notes (toCustomFields (leftovers f used)) tags
                 (Card \<lparr>cd_cardholderName = get f ''Name on Card'', cd_number = number, cd_brand = brand,
                    cd_expMonth = fst expiry, cd_expYear = snd expiry, cd_cvv = get f ''Security Code''\<rparr>))
         else if nb_noteType block = ''SSH Key'' \<and> (publicKey \<noteq> [] \<or> privateKey \<noteq> []) then
           imported_entry name notes (toCustomFields (leftovers f SSH_FIELDS)) tags
             (SshKey \<lparr>sk_publicKey = publicKey, sk_privateKey = privateKey, sk_passphrase = some_text (get f ''Passphrase''),
                sk_keyType = deriveKeyType publicKey privateKey\<rparr>)
         else imported_entry name notes (toCustomFields (leftovers f [])) tags Note)"

definition SECURE_NOTE_URL :: string where "SECURE_NOTE_URL = ''http://sn''"
definition NO_URL :: string where "NO_URL = ''http://''"

record lastpass_row =
  lp_url :: string
  lp_username :: string
  lp_password :: string
  lp_totp :: string
  lp_extra :: string
  lp_name :: string
  lp_grouping :: string

definition lastpass_entry ::
  "url_parser \<Rightarrow> (string \<Rightarrow> string) \<Rightarrow> lastpass_row \<Rightarrow> string + entry_data" where
  "lastpass_entry url lower r =
     (let tags = normalizeTags lower (Some (split_on CHR 0x5C (lp_grouping r)))
      in if lp_url r = SECURE_NOTE_URL then
           (case parseNoteBlock (lp_extra r) of
              Inl e \<Rightarrow> Inl e
            | Inr (Some block) \<Rightarrow> Inr (fromNoteBlock block (lp_name r) tags)
            | Inr None \<Rightarrow> Inr (imported_entry (lp_name r) (some_text (lp_extra r)) None tags Note))
         else let link = (if lp_url r = NO_URL then [] else lp_url r); host = hostLabel url link
           in Inr (plain_login (if lp_name r \<noteq> [] then lp_name r else if host \<noteq> [] then host else lp_username r)
                (some_text (lp_extra r)) (if link \<noteq> [] then [link] else []) (lp_username r) (lp_password r)
                (some_text (lp_totp r)) tags))"

definition empty_row :: "lastpass_row \<Rightarrow> bool" where
  "empty_row r \<longleftrightarrow> lp_url r = [] \<and> lp_username r = [] \<and> lp_password r = [] \<and> lp_extra r = [] \<and> lp_name r = []"

text \<open>The rows in order; the first that throws ends the import.\<close>

fun lastpass_rows ::
  "url_parser \<Rightarrow> (string \<Rightarrow> string) \<Rightarrow> lastpass_row list \<Rightarrow> entry_data list \<Rightarrow> nat \<Rightarrow> nat \<Rightarrow> string + import_result" where
  "lastpass_rows url lower [] imported skipped foldered =
     Inr (summarize Some imported skipped
       (if foldered > 0 then [dec foldered @ '' item(s) were in a LastPass folder, imported as tags.''] else []))"
| "lastpass_rows url lower (r # rs) imported skipped foldered =
     (if empty_row r then lastpass_rows url lower rs imported (Suc skipped) foldered
      else (case lastpass_entry url lower r of
          Inl e \<Rightarrow> Inl e
        | Inr e \<Rightarrow> lastpass_rows url lower rs (imported @ [e]) skipped
            (if normalizeTags lower (Some (split_on CHR 0x5C (lp_grouping r))) \<noteq> None then Suc foldered else foldered)))"

definition lastpass_cells :: "string list \<Rightarrow> string list \<Rightarrow> lastpass_row" where
  "lastpass_cells header row =
     (let c = (\<lambda>h. cell row (index_of h header))
      in \<lparr>lp_url = c ''url'', lp_username = c ''username'', lp_password = c ''password'', lp_totp = c ''totp'',
          lp_extra = c ''extra'', lp_name = trim (c ''name''), lp_grouping = trim (c ''grouping'')\<rparr>)"

definition parseLastPass :: "url_parser \<Rightarrow> (string \<Rightarrow> string) \<Rightarrow> string \<Rightarrow> string + import_result" where
  "parseLastPass url lower text =
     (let rows = parseCsvRows text; header = headerLabels rows
      in case assertFormat LASTPASS_CSV header of
           Inl e \<Rightarrow> Inl e
         | Inr _ \<Rightarrow> lastpass_rows url lower (map (lastpass_cells header) (drop 1 rows)) [] 0 0)"

subsection \<open>A typed block is read as it was written\<close>

text \<open>A block as LastPass writes it: the type, then each field that was filled in, in the order of the
  template, its value with whatever line breaks it holds.\<close>

definition write_block :: "string \<Rightarrow> (string \<times> string) list \<Rightarrow> string" where
  "write_block ty fs = ''NoteType:'' @ ty @ concat (map (\<lambda>(k, v). CHR 0x0A # k @ CHR '':'' # v) fs)"

text \<open>The fields follow the labels' order from index \<open>n\<close> on, and no later line of a value opens a field still to
  come; what follows \<open>Notes\<close> is free.\<close>

fun in_order :: "string list \<Rightarrow> nat \<Rightarrow> (string \<times> string) list \<Rightarrow> bool" where
  "in_order labels n [] \<longleftrightarrow> True"
| "in_order labels n ((k, v) # fs) \<longleftrightarrow>
     (case index_of k labels of
        None \<Rightarrow> False
      | Some i \<Rightarrow> n \<le> i \<and> in_order labels (Suc i) fs \<and>
          (if k = ''Notes'' then fs = []
           else list_all (\<lambda>l. opens_from 0 (Suc i) labels l = None) (tl (split_on CHR 0x0A v))))"

definition labels_ok :: "string list \<Rightarrow> bool" where
  "labels_ok ks \<longleftrightarrow> distinct ks \<and> list_all (\<lambda>k. k \<noteq> [] \<and> CHR '':'' \<notin> set k \<and> CHR 0x0A \<notin> set k) ks"

lemma templates_ok:
  assumes "map_of TEMPLATES ty = Some template"
  shows "labels_ok (''Language'' # template @ [''Notes'']) \<and> ty \<notin> set INHERITED \<and> trim ty = ty \<and> CHR 0x0A \<notin> set ty"
proof -
  have "list_all (\<lambda>(ty, t). labels_ok (''Language'' # t @ [''Notes'']) \<and> ty \<notin> set INHERITED \<and> trim ty = ty \<and>
      CHR 0x0A \<notin> set ty) TEMPLATES"
    by code_simp
  with map_of_SomeD [OF assms] show ?thesis by (auto simp: list_all_iff)
qed

lemma colon_prefix:
  "CHR '':'' \<notin> set k \<Longrightarrow> CHR '':'' \<notin> set k' \<Longrightarrow> prefix (k' @ '':'') (k @ CHR '':'' # w) \<longleftrightarrow> k' = k"
proof (induction k' arbitrary: k)
  case Nil
  then show ?case by (cases k) auto
next
  case (Cons c k')
  then show ?case by (cases k) auto
qed

lemma opens_label:
  assumes "list_all (\<lambda>k. CHR '':'' \<notin> set k) ks" "index_of k ks = Some i" "n \<le> j + i"
  shows "opens_from j n ks (k @ CHR '':'' # w) = Some (j + i)"
  using assms
proof (induction ks arbitrary: j i)
  case (Cons x ks)
  have "CHR '':'' \<notin> set k"
    using Cons.prems by (metis index_of_absent list_all_iff option.distinct(1))
  with Cons show ?case
    by (auto simp: colon_prefix split: if_splits)
qed simp

lemma index_of_nth: "index_of k ks = Some i \<Longrightarrow> i < length ks \<and> ks ! i = k"
  by (induction ks arbitrary: i) (auto split: if_splits)

lemma label_nonempty: "labels_ok ks \<Longrightarrow> index_of k ks = Some i \<Longrightarrow> k \<noteq> []"
  using index_of_nth [of k ks i] nth_mem [of i ks] by (auto simp: labels_ok_def list_all_iff)

lemma more_lines:
  "ns_key s = ''Notes'' \<or> list_all (\<lambda>l. opens_from 0 (ns_next s) labels l = None) ls \<Longrightarrow>
   foldl (note_line True labels) s ls = s\<lparr>ns_value := ns_value s @ ls\<rparr>"
proof (induction ls arbitrary: s)
  case (Cons l ls)
  then have "note_line True labels s l = s\<lparr>ns_value := ns_value s @ [l]\<rparr>"
    by (auto simp: note_line_def Let_def)
  with Cons.IH [of "s\<lparr>ns_value := ns_value s @ [l]\<rparr>"] Cons.prems show ?case by auto
qed simp

lemma one_field:
  assumes "labels_ok labels" "ns_key s \<noteq> ''Notes''" "index_of k labels = Some i" "ns_next s \<le> i"
    and "k = ''Notes'' \<or> list_all (\<lambda>l. opens_from 0 (Suc i) labels l = None) (tl (split_on CHR 0x0A v))"
  shows "foldl (note_line True labels) s (split_on CHR 0x0A (k @ CHR '':'' # v)) =
    \<lparr>ns_fields = flush s, ns_key = k, ns_value = split_on CHR 0x0A v, ns_next = Suc i\<rparr>"
proof -
  have k: "CHR 0x0A \<notin> set k" and colons: "list_all (\<lambda>k. CHR '':'' \<notin> set k) labels"
    using assms(1) index_of_nth [OF assms(3)] by (auto simp: labels_ok_def list_all_iff)
  have "split_on CHR 0x0A ((k @ '':'') @ v) = ((k @ '':'') @ hd (split_on CHR 0x0A v)) # tl (split_on CHR 0x0A v)"
    by (rule split_on_prefixed) (use k in simp)
  then have lines: "split_on CHR 0x0A (k @ CHR '':'' # v) = (k @ CHR '':'' # hd (split_on CHR 0x0A v)) # tl (split_on CHR 0x0A v)"
    by simp
  have "note_line True labels s (k @ CHR '':'' # hd (split_on CHR 0x0A v)) =
      \<lparr>ns_fields = flush s, ns_key = k, ns_value = [hd (split_on CHR 0x0A v)], ns_next = Suc i\<rparr>"
    using opens_label [OF colons assms(3), of "ns_next s" 0] assms(2,4) index_of_nth [OF assms(3)]
    by (simp add: note_line_def open_field_def Let_def)
  then show ?thesis
    using assms(5) by (simp add: lines more_lines)
qed

lemma all_fields:
  assumes "labels_ok labels" "in_order labels (ns_next s) fs" "fs = [] \<or> ns_key s \<noteq> ''Notes''"
  shows "flush (foldl (note_line True labels) s (concat (map (\<lambda>(k, v). split_on CHR 0x0A (k @ CHR '':'' # v)) fs))) =
    fold (\<lambda>(k, v). AList.update k v) fs (flush s)"
  using assms(2,3)
proof (induction fs arbitrary: s)
  case (Cons f fs)
  obtain k v where f: "f = (k, v)" by (cases f)
  with Cons.prems obtain i where i: "index_of k labels = Some i" "ns_next s \<le> i" "in_order labels (Suc i) fs"
    "if k = ''Notes'' then fs = [] else list_all (\<lambda>l. opens_from 0 (Suc i) labels l = None) (tl (split_on CHR 0x0A v))"
    by (auto split: option.splits)
  let ?s = "\<lparr>ns_fields = flush s, ns_key = k, ns_value = split_on CHR 0x0A v, ns_next = Suc i\<rparr>"
  have step: "foldl (note_line True labels) s (split_on CHR 0x0A (k @ CHR '':'' # v)) = ?s"
    using one_field [OF assms(1) _ i(1,2)] Cons.prems(2) i(4) by (auto split: if_splits)
  have "k \<noteq> []" using label_nonempty [OF assms(1) i(1)] .
  then have "flush ?s = AList.update k v (flush s)" by (simp add: flush_def)
  with Cons.IH [of ?s] i(3,4) f step show ?case by (auto split: if_splits)
qed simp

lemma split_block:
  "split_on CHR 0x0A (a @ concat (map (\<lambda>(k, v). CHR 0x0A # k @ CHR '':'' # v) fs)) =
   split_on CHR 0x0A a @ concat (map (\<lambda>(k, v). split_on CHR 0x0A (k @ CHR '':'' # v)) fs)"
proof (induction fs arbitrary: a)
  case (Cons f fs)
  obtain k v where f: "f = (k, v)" by (cases f)
  have "split_on CHR 0x0A (a @ CHR 0x0A # (k @ CHR '':'' # v) @ concat (map (\<lambda>(k, v). CHR 0x0A # k @ CHR '':'' # v) fs)) =
      split_on CHR 0x0A a @ split_on CHR 0x0A ((k @ CHR '':'' # v) @ concat (map (\<lambda>(k, v). CHR 0x0A # k @ CHR '':'' # v) fs))"
    by (rule split_on_append)
  with Cons [of "k @ CHR '':'' # v"] f show ?case by simp
qed simp

lemma in_order_keys:
  "in_order labels n fs \<Longrightarrow> distinct (map fst fs) \<and> (\<forall>k \<in> fst ` set fs. \<exists>i \<ge> n. index_of k labels = Some i)"
proof (induction labels n fs rule: in_order.induct)
  case (2 labels n k v fs)
  from "2.prems" obtain i where i: "index_of k labels = Some i" "n \<le> i" "in_order labels (Suc i) fs"
    by (auto split: option.splits)
  with "2.IH" have fs: "distinct (map fst fs)" "\<forall>k \<in> fst ` set fs. \<exists>j \<ge> Suc i. index_of k labels = Some j" by auto
  have "k \<notin> fst ` set fs"
  proof
    assume "k \<in> fst ` set fs"
    with fs(2) i(1) show False by fastforce
  qed
  with fs i(1,2) show ?case by (fastforce intro: le_trans [of n i])
qed simp

lemma update_new: "k \<notin> fst ` set m \<Longrightarrow> AList.update k v m = m @ [(k, v)]"
  by (induction m) auto

lemma fold_update_new:
  "distinct (map fst (m @ fs)) \<Longrightarrow> fold (\<lambda>(k, v). AList.update k v) fs m = m @ fs"
proof (induction fs arbitrary: m)
  case (Cons f fs)
  obtain k v where f: "f = (k, v)" by (cases f)
  with Cons.prems have "k \<notin> fst ` set m" by auto
  with Cons f show ?case by (simp add: update_new)
qed simp

definition block_fields :: "string \<Rightarrow> (string \<times> string) list \<Rightarrow> string \<Rightarrow> (string \<times> string) list" where
  "block_fields lang fs notes = (''Language'', lang) # fs @ [(''Notes'', notes)]"

lemma block_round_trip:
  assumes t: "map_of TEMPLATES ty = Some template"
    and ord: "in_order (''Language'' # template @ [''Notes'']) 0 (block_fields lang fs notes)"
  shows "parseNoteBlock (write_block ty (block_fields lang fs notes)) =
    Inr (Some \<lparr>nb_noteType = ty, nb_fields = fs, nb_notes = notes\<rparr>)"
proof -
  let ?labels = "''Language'' # template @ [''Notes'']" and ?fs = "block_fields lang fs notes"
  note ok = templates_ok [OF t]
  have lines: "split_on CHR 0x0A (write_block ty ?fs) =
      (''NoteType:'' @ ty) # concat (map (\<lambda>(k, v). split_on CHR 0x0A (k @ CHR '':'' # v)) ?fs)"
    using split_block [of "''NoteType:'' @ ty" ?fs] ok split_on_none [of "CHR 0x0A" "''NoteType:'' @ ty"]
    by (simp add: write_block_def)
  have dist: "distinct (map fst ?fs)" using in_order_keys [OF ord] by simp
  have "flush (foldl (note_line True ?labels) first_state (concat (map (\<lambda>(k, v). split_on CHR 0x0A (k @ CHR '':'' # v)) ?fs))) =
      fold (\<lambda>(k, v). AList.update k v) ?fs (flush first_state)"
    by (rule all_fields) (use ok ord in \<open>simp_all add: first_state_def\<close>)
  also have "\<dots> = ?fs"
    using fold_update_new [of "[]" ?fs] dist by (simp add: first_state_def flush_def)
  finally have fields: "flush (foldl (note_line True ?labels) first_state
      (concat (map (\<lambda>(k, v). split_on CHR 0x0A (k @ CHR '':'' # v)) ?fs))) = ?fs" .
  have keys: "''Language'' \<notin> fst ` set fs" "''Notes'' \<notin> fst ` set fs"
    using dist by (auto simp: block_fields_def)
  have "map_of ?fs ''Notes'' = Some notes" "AList.delete ''Language'' (AList.delete ''Notes'' ?fs) = fs"
  proof -
    have none: "map_of fs ''Notes'' = None" using keys(2) by (simp add: map_of_eq_None_iff)
    then show "map_of ?fs ''Notes'' = Some notes" by (simp add: block_fields_def map_add_def)
    have "AList.delete ''Notes'' ?fs = (''Language'', lang) # fs" "AList.delete ''Language'' fs = fs"
      using keys by (simp_all add: block_fields_def AList.delete_eq filter_id_conv) force+
    then show "AList.delete ''Language'' (AList.delete ''Notes'' ?fs) = fs" by simp
  qed
  then show ?thesis
    using ok lines fields t by (simp add: parseNoteBlock_def Let_def write_block_def)
qed

subsection \<open>Nothing of it is lost\<close>

text \<open>Where a field has to go. A value is filled in when it has more than commas and white space.\<close>

definition filled_in :: "string \<Rightarrow> bool" where
  "filled_in v \<longleftrightarrow> (\<exists>c \<in> set v. c \<noteq> CHR '','' \<and> \<not> is_space c)"

definition has_custom :: "entry_data \<Rightarrow> string \<Rightarrow> string \<Rightarrow> bool" where
  "has_custom e k v \<longleftrightarrow> (\<exists>cs. en_customFields e = Some cs \<and>
     \<lparr>cf_key = k, cf_value = v,
      cf_hidden = (if to_lower k \<in> {''password'', ''pin'', ''passphrase'', ''private key''} then Some True else None)\<rparr> \<in> set cs)"

definition month_names :: "string list" where
  "month_names = [''January'', ''February'', ''March'', ''April'', ''May'', ''June'', ''July'', ''August'', ''September'',
     ''October'', ''November'', ''December'']"

definition card_types :: "string list" where
  "card_types = [''visa'', ''mastercard'', ''master card'', ''amex'', ''american express'', ''discover'']"

definition card_field :: "card_data \<Rightarrow> entry_data \<Rightarrow> string \<Rightarrow> string \<Rightarrow> bool" where
  "card_field c e k v \<longleftrightarrow>
     (if k = ''Name on Card'' then cd_cardholderName c = v
      else if k = ''Number'' then cd_number c = v
      else if k = ''Security Code'' then cd_cvv c = v
      else if k = ''Expiration Date'' then
        (\<forall>m y. m < 12 \<and> list_all is_digit y \<and> length y \<in> {2, 4} \<and> v = (month_names ! m) @ '','' @ y \<longrightarrow>
           cd_expMonth c = dec (m + 1) \<and> cd_expYear c = y)
      else if k = ''Type'' \<and> to_lower (trim v) \<in> set card_types then cd_brand c \<noteq> None
      else has_custom e k v)"

definition key_field :: "ssh_data \<Rightarrow> entry_data \<Rightarrow> string \<Rightarrow> string \<Rightarrow> bool" where
  "key_field s e k v \<longleftrightarrow>
     (if k = ''Public Key'' then sk_publicKey s = v
      else if k = ''Private Key'' then sk_privateKey s = v
      else if k = ''Passphrase'' then sk_passphrase s = Some v
      else has_custom e k v)"

definition lands :: "string \<Rightarrow> (string \<times> string) list \<Rightarrow> entry_data \<Rightarrow> string \<Rightarrow> string \<Rightarrow> bool" where
  "lands ty fs e k v \<longleftrightarrow>
     (if ty = ''Credit Card'' then \<exists>c. en_body e = Card c \<and> card_field c e k v
      else if ty = ''SSH Key'' \<and> (\<exists>(k, v) \<in> set fs. k \<in> {''Public Key'', ''Private Key''} \<and> v \<noteq> [])
      then \<exists>s. en_body e = SshKey s \<and> key_field s e k v
      else en_body e = Note \<and> has_custom e k v)"

lemma not_blankish: "\<not> blankish v \<longleftrightarrow> filled_in v"
  by (auto simp: blankish_def filled_in_def list_all_iff)

lemma leftover_kept:
  assumes "(k, v) \<in> set fs" "k \<notin> set used" "\<not> blankish v" "k \<noteq> []" "en_customFields e = toCustomFields (leftovers fs used)"
  shows "has_custom e k v"
proof -
  have "v \<noteq> []" using assms(3) by (auto simp: blankish_def)
  let ?hidden = "if to_lower k \<in> set SECRET_FIELDS then Some True else None"
  let ?f = "\<lparr>rf_key = k, rf_value = v, rf_hidden = ?hidden\<rparr>"
  let ?out = "filter (\<lambda>f. rf_key f \<noteq> [] \<and> rf_value f \<noteq> []) (leftovers fs used)"
  let ?cf = "\<lambda>f. \<lparr>cf_key = rf_key f, cf_value = rf_value f, cf_hidden = (if rf_hidden f = Some True then Some True else None)\<rparr>"
  have "?f \<in> set (leftovers fs used)"
    unfolding leftovers_def set_map by (rule image_eqI [of _ _ "(k, v)"]) (use assms in simp_all)
  then have f: "?f \<in> set ?out" using assms(4) \<open>v \<noteq> []\<close> by simp
  then have "?out \<noteq> []" by (metis empty_iff empty_set)
  then have "en_customFields e = Some (map ?cf ?out)"
    by (simp add: assms(5) toCustomFields_def Let_def)
  moreover have "?cf ?f \<in> set (map ?cf ?out)"
    using f unfolding set_map by (rule imageI)
  moreover have "?cf ?f = \<lparr>cf_key = k, cf_value = v,
      cf_hidden = (if to_lower k \<in> {''password'', ''pin'', ''passphrase'', ''private key''} then Some True else None)\<rparr>"
    by (simp add: SECRET_FIELDS_def)
  ultimately show ?thesis unfolding has_custom_def by (intro exI conjI) (assumption, simp only:)
qed

lemma get_field: "distinct (map fst fs) \<Longrightarrow> (k, v) \<in> set fs \<Longrightarrow> get fs k = v"
  by (simp add: get_def)

lemma month_expiry:
  assumes "m < 12" "list_all is_digit y" "length y = 2 \<or> length y = 4"
  shows "splitExpiry ((month_names ! m) @ '','' @ y) = (dec (m + 1), y)"
proof -
  have "list_all (\<lambda>m. CHR '','' \<notin> set (month_names ! m) \<and> index_of (to_lower (trim (month_names ! m))) MONTHS = Some m) [0 ..< 12]"
    by code_simp
  then have m: "CHR '','' \<notin> set (month_names ! m)" "index_of (to_lower (trim (month_names ! m))) MONTHS = Some m"
    using assms(1) by (auto simp: list_all_iff)
  have digit: "c \<noteq> CHR '','' \<and> \<not> is_space c" if "c \<in> set y" for c
    using assms(2) that by (auto simp: list_all_iff is_digit_def is_space_def Let_def)
  have "y \<noteq> []" using assms(3) by auto
  then have y: "trim y = y" "split_on CHR '','' y = [y]"
    using trim_surrounded [of "[]" "[]" y] digit split_on_none [of "CHR '',''" y] by auto
  have "split_on CHR '','' ((month_names ! m) @ '','' @ y) = [month_names ! m, y]"
    using split_on_append [of "CHR '',''" "month_names ! m" y] split_on_none m(1) y(2) by simp
  then show ?thesis
    using m(2) y(1) assms(2,3) by (simp add: splitExpiry_def Let_def)
qed

lemma known_type_brand: "to_lower (trim type) \<in> set card_types \<Longrightarrow> brandOf number type \<noteq> None"
proof -
  assume "to_lower (trim type) \<in> set card_types"
  moreover have "set card_types = fst ` set BRANDS"
    by (simp add: BRANDS_def card_types_def)
  ultimately have "map_of BRANDS (to_lower (trim type)) \<noteq> None"
    by (simp add: map_of_eq_None_iff)
  then show ?thesis
    by (simp add: brandOf_def split: option.split)
qed

lemma some_key:
  assumes "distinct (map fst fs)"
  shows "(\<exists>(k, v) \<in> set fs. k \<in> {a, b} \<and> v \<noteq> []) \<longleftrightarrow> get fs a \<noteq> [] \<or> get fs b \<noteq> []"
proof
  assume "\<exists>(k, v) \<in> set fs. k \<in> {a, b} \<and> v \<noteq> []"
  then show "get fs a \<noteq> [] \<or> get fs b \<noteq> []"
    using get_field [OF assms] by fastforce
next
  assume "get fs a \<noteq> [] \<or> get fs b \<noteq> []"
  then obtain k v where "k \<in> {a, b}" "map_of fs k = Some v" "v \<noteq> []"
    by (auto simp: get_def split: option.splits)
  then show "\<exists>(k, v) \<in> set fs. k \<in> {a, b} \<and> v \<noteq> []"
    by (intro bexI [of _ "(k, v)"]) (simp_all add: map_of_SomeD)
qed

lemma field_lands:
  assumes "distinct (map fst fs)" "(k, v) \<in> set fs" "k \<noteq> []" "\<not> blankish v"
  shows "lands ty fs (fromNoteBlock \<lparr>nb_noteType = ty, nb_fields = fs, nb_notes = notes\<rparr> name tags) k v"
proof -
  let ?e = "fromNoteBlock \<lparr>nb_noteType = ty, nb_fields = fs, nb_notes = notes\<rparr> name tags"
  have v: "v \<noteq> []" using assms(4) by (auto simp: blankish_def)
  note get = get_field [OF assms(1,2)] and kept = leftover_kept [OF assms(2) _ assms(4,3)]
  consider "ty = ''Credit Card''"
    | "ty = ''SSH Key''" "get fs ''Public Key'' \<noteq> [] \<or> get fs ''Private Key'' \<noteq> []"
    | "ty \<noteq> ''Credit Card''" "\<not> (ty = ''SSH Key'' \<and> (get fs ''Public Key'' \<noteq> [] \<or> get fs ''Private Key'' \<noteq> []))"
    by blast
  then show ?thesis
  proof cases
    case 1
    let ?brand = "brandOf (get fs ''Number'') (get fs ''Type'')"
    let ?x = "splitExpiry (get fs ''Expiration Date'')"
    let ?c = "\<lparr>cd_cardholderName = get fs ''Name on Card'', cd_number = get fs ''Number'', cd_brand = ?brand,
        cd_expMonth = fst ?x, cd_expYear = snd ?x, cd_cvv = get fs ''Security Code''\<rparr>"
    let ?used = "if ?brand \<noteq> None \<and> to_lower (trim (get fs ''Type'')) \<in> fst ` set BRANDS then CARD_FIELDS @ [''Type''] else CARD_FIELDS"
    have e: "en_body ?e = Card ?c" "en_customFields ?e = toCustomFields (leftovers fs ?used)"
      using 1 by (simp_all add: fromNoteBlock_def imported_entry_def Let_def)
    have types: "fst ` set BRANDS = set card_types"
      by (simp add: BRANDS_def card_types_def)
    have "card_field ?c ?e k v"
    proof (cases "k \<in> set CARD_FIELDS")
      case True
      then consider "k = ''Name on Card''" | "k = ''Number''" | "k = ''Security Code''" | "k = ''Expiration Date''"
        by (auto simp: CARD_FIELDS_def)
      then show ?thesis
        using get month_expiry by cases (auto simp: card_field_def)
    next
      case False
      have "?brand \<noteq> None" if "k = ''Type''" "to_lower (trim v) \<in> set card_types"
        using that get known_type_brand by simp
      moreover have "k \<notin> set ?used" if "\<not> (k = ''Type'' \<and> to_lower (trim v) \<in> set card_types)"
        using that get False types by (auto split: if_splits)
      ultimately show ?thesis
        using kept [OF _ e(2)] False by (auto simp: card_field_def CARD_FIELDS_def)
    qed
    then show ?thesis
      using 1 e(1) by (simp add: lands_def)
  next
    case 2
    let ?s = "\<lparr>sk_publicKey = get fs ''Public Key'', sk_privateKey = get fs ''Private Key'',
        sk_passphrase = some_text (get fs ''Passphrase''),
        sk_keyType = deriveKeyType (get fs ''Public Key'') (get fs ''Private Key'')\<rparr>"
    have e: "en_body ?e = SshKey ?s" "en_customFields ?e = toCustomFields (leftovers fs SSH_FIELDS)"
      using 2 by (auto simp: fromNoteBlock_def imported_entry_def Let_def)
    have "key_field ?s ?e k v"
      using get v kept [OF _ e(2)] unfolding key_field_def by (auto simp: some_text_def SSH_FIELDS_def)
    then show ?thesis
      using 2 e(1) unfolding lands_def some_key [OF assms(1)] by simp
  next
    case 3
    then have e: "en_body ?e = Note" "en_customFields ?e = toCustomFields (leftovers fs [])"
      by (auto simp: fromNoteBlock_def imported_entry_def Let_def)
    show ?thesis
      using e(1) kept [OF _ e(2)] unfolding lands_def some_key [OF assms(1)] if_not_P [OF 3(1)] if_not_P [OF 3(2)] by simp
  qed
qed

lemma block_entry_fields:
  "en_name (fromNoteBlock b name tags) = name" "en_notes (fromNoteBlock b name tags) = some_text (nb_notes b)"
  by (simp_all add: fromNoteBlock_def imported_entry_def Let_def)


definition sample_note :: lastpass_row where
  "sample_note = \<lparr>lp_url = ''http://sn'', lp_username = [], lp_password = [], lp_totp = [],
     lp_extra = write_block ''SSH Key'' (block_fields ''en-US''
       [(''Private Key'', ''-----BEGIN'' @ [CHR 0x0A] @ ''Proc-Type: 4''), (''Hostname'', ''h'')] ''Notes: n''),
     lp_name = ''key'', lp_grouping = []\<rparr>"


text \<open>What is lost: an expiry date in another form than month and year, the text before the first field of a
  user-defined type; and a type named like a member of every object ends the whole import.\<close>

lemma other_expiry_is_dropped: "splitExpiry ''03/2027'' = ([], [])"
  by code_simp

lemma leading_text_is_dropped:
  "parseNoteBlock (''NoteType:Custom_1'' @ CHR 0x0A # ''hello'') =
   Inr (Some \<lparr>nb_noteType = ''Custom_1'', nb_fields = [], nb_notes = []\<rparr>)"
  by code_simp

lemma inherited_type_ends_import:
  assumes "lp_url r = SECURE_NOTE_URL" "lp_extra r = ''NoteType:constructor''"
  shows "lastpass_rows url lower (r # rs) imported skipped foldered = Inl ''TypeError: template is not iterable''"
proof -
  have "parseNoteBlock ''NoteType:constructor'' = Inl ''TypeError: template is not iterable''" by code_simp
  with assms show ?thesis by (simp add: lastpass_entry_def empty_row_def Let_def)
qed

end
