(* ===== verification/Crypto_Session.thy ===== *)
theory Crypto_Session
  imports Autofill_Session
begin

text \<open>
  The one seam to the crypto host (\<open>sendToOffscreen\<close> of
  \<open>packages/platform-extension/src/background/offscreen-client.ts\<close>) and the message handler on top of it
  that locks and unlocks the session (\<open>background/session.ts\<close>, with the pre-dispatch hook of the router).

  A handler is a task that suspends at every \<open>await\<close>; its phase says what it waits for, and between two
  phases anything else may run. The vault keys and their commits are \<open>Vek_Store\<close>'s; here they change in
  steps of the environment that keep the epoch's count.
\<close>

subsection \<open>The crypto host\<close>

record crypto_msg =
  cm_type :: string
  cm_vaultId :: "string option"
  cm_vekB64 :: "string option"
  cm_body :: string

datatype reply_data = NoData | BoolData bool | TextData string | UnwrapData bool "string option"

record host_reply =
  hr_ok :: bool
  hr_data :: reply_data
  hr_error :: "string option"

definition ok_reply :: "reply_data \<Rightarrow> host_reply" where
  "ok_reply d = \<lparr>hr_ok = True, hr_data = d, hr_error = None\<rparr>"

definition error_reply :: "string \<Rightarrow> host_reply" where
  "error_reply e = \<lparr>hr_ok = False, hr_data = NoData, hr_error = Some e\<rparr>"

definition CRYPTO_SESSION_CHANGED :: string where
  "CRYPTO_SESSION_CHANGED = ''CRYPTO_SESSION_CHANGED''"

definition USE_VEK :: "string list" where
  "USE_VEK = [''CRYPTO_WRAP_PASSWORD_SLOT'', ''CRYPTO_WRAP_WEBAUTHN_SLOT'', ''CRYPTO_ENCRYPT'', ''CRYPTO_DECRYPT'',
     ''CRYPTO_DECRYPT_BATCH'', ''CRYPTO_ENCRYPT_OUTER'', ''CRYPTO_DECRYPT_OUTER'']"

text \<open>
  \<open>sendToOffscreen\<close> up to its first wait, and from the host's reply on. It may answer at once, deliver a
  message to the host, or install a key (\<open>setVek\<close>) and answer with the given reply when that held.
\<close>

datatype send_step = Answer host_reply | Deliver crypto_msg | Install string string host_reply

definition is_crypto :: "string \<Rightarrow> bool" where
  "is_crypto type \<longleftrightarrow> prefix ''CRYPTO_'' type"

definition send_begin :: "crypto_msg \<Rightarrow> string option \<Rightarrow> vek_state \<Rightarrow> send_step" where
  "send_begin m vaultId w =
     (if \<not> is_crypto (cm_type m) then Deliver m
      else if cm_type m = ''CRYPTO_EXPORT_VEK'' then
        Answer (case vaultId of
            None \<Rightarrow> error_reply ''vault locked''
          | Some v \<Rightarrow> (case getVek v w of Some k \<Rightarrow> ok_reply (TextData k) | None \<Rightarrow> error_reply ''vault locked''))
      else if cm_type m = ''CRYPTO_IS_LOCKED'' then
        Answer (ok_reply (BoolData (\<not> (case vaultId of None \<Rightarrow> False | Some v \<Rightarrow> hasVek v w))))
      else if cm_type m = ''CRYPTO_UNLOCK_WITH_VEK'' then
        (case (vaultId, cm_vekB64 m) of
           (Some v, Some k) \<Rightarrow> Install v k (ok_reply NoData)
         | _ \<Rightarrow> Answer (error_reply ''unlock needs a vault id and vek''))
      else if cm_type m \<in> set USE_VEK then
        (case vaultId of
           None \<Rightarrow> Answer (error_reply ''vault locked'')
         | Some v \<Rightarrow>
             (case getVek v w of
                None \<Rightarrow> Answer (error_reply ''vault locked'')
              | Some k \<Rightarrow> Deliver (m\<lparr>cm_vekB64 := Some k\<rparr>)))
      else Deliver m)"

definition send_reply :: "string \<Rightarrow> string option \<Rightarrow> host_reply \<Rightarrow> send_step" where
  "send_reply type vaultId res =
     (if type = ''CRYPTO_GENERATE_VEK'' \<or> type = ''CRYPTO_ROTATE_VEK'' then
        (case (hr_ok res, hr_data res, vaultId) of
           (True, TextData k, Some v) \<Rightarrow> Install v k res
         | _ \<Rightarrow> Answer res)
      else if type = ''CRYPTO_UNWRAP_PASSWORD_SLOT'' \<or> type = ''CRYPTO_UNWRAP_WEBAUTHN_SLOT'' then
        (if \<not> hr_ok res then Answer res
         else (case hr_data res of
             UnwrapData opened key \<Rightarrow>
               (case (opened, key, vaultId) of
                  (True, Some k, Some v) \<Rightarrow> Install v k (ok_reply (BoolData opened))
                | _ \<Rightarrow> Answer (ok_reply (BoolData opened)))
           | _ \<Rightarrow> Answer (ok_reply (BoolData False))))
      else Answer res)"

definition installed :: "bool \<Rightarrow> host_reply \<Rightarrow> host_reply" where
  "installed held res = (if held then res else error_reply CRYPTO_SESSION_CHANGED)"

text \<open>Each operation is keyed with the key of its own vault, or not at all.\<close>

lemma delivered_key:
  assumes "send_begin m vaultId w = Deliver m'"
  shows "cm_type m' = cm_type m \<and> cm_body m' = cm_body m \<and>
    (if cm_type m \<in> set USE_VEK then \<exists>v. vaultId = Some v \<and> getVek v w \<noteq> None \<and> cm_vekB64 m' = getVek v w
     else cm_vekB64 m' = cm_vekB64 m)"
proof (cases "cm_type m \<in> set USE_VEK")
  case True
  then have "is_crypto (cm_type m)" "cm_type m \<notin> {''CRYPTO_EXPORT_VEK'', ''CRYPTO_IS_LOCKED'', ''CRYPTO_UNLOCK_WITH_VEK''}"
    by (auto simp: USE_VEK_def is_crypto_def)
  with True assms show ?thesis by (auto simp: send_begin_def split: option.splits)
next
  case False
  with assms show ?thesis by (auto simp: send_begin_def split: if_splits option.splits)
qed

text \<open>An unwrap answers a boolean, never the key.\<close>

definition is_unwrap :: "string \<Rightarrow> bool" where
  "is_unwrap type \<longleftrightarrow> type = ''CRYPTO_UNWRAP_PASSWORD_SLOT'' \<or> type = ''CRYPTO_UNWRAP_WEBAUTHN_SLOT''"

lemma unwrap_reply:
  assumes "is_unwrap type" "send_reply type vaultId res = Answer r \<or> send_reply type vaultId res = Install v k r"
    and "hr_ok res"
  shows "\<exists>b. r = ok_reply (BoolData b)"
  using assms
  by (auto simp: is_unwrap_def send_reply_def split: reply_data.splits option.splits bool.splits prod.splits)

subsection \<open>The handler\<close>

datatype phase =
    LockResolving
  | LockSending "string option"
  | LockRefreshing "string option" host_reply
  | LockClearing host_reply
  | LockRemoving host_reply
  | WalkClearing
  | UnlockRefreshing string
  | UnlockSending string nat
  | UnlockSettling string nat host_reply
  | UnlockScheduling string nat host_reply

record crypto_session =
  cs_bg :: bg
  cs_prestarted :: nat
  cs_stored :: "string option option"
  cs_tasks :: "(nat \<times> phase) list"
  cs_replies :: "(nat \<times> host_reply) list"
  cs_random :: "nat \<Rightarrow> string"

text \<open>Tokens are drawn from \<open>cs_random\<close>, one per generation.\<close>

definition token :: "crypto_session \<Rightarrow> string" where
  "token s = cs_random s (autofillSessionGeneration (cs_bg s))"

definition begin_lock :: "crypto_session \<Rightarrow> crypto_session" where
  "begin_lock s = s\<lparr>cs_bg := beginAutofillLockTransition (token s) (cs_bg s)\<rparr>"

definition end_lock :: "crypto_session \<Rightarrow> crypto_session" where
  "end_lock s = s\<lparr>cs_bg := endAutofillLockTransition (cs_bg s)\<rparr>"

definition begin_mutation :: "crypto_session \<Rightarrow> crypto_session" where
  "begin_mutation s = s\<lparr>cs_bg := (cs_bg s)\<lparr>bg_veks := snd (beginVekMutation (bg_veks (cs_bg s)))\<rparr>\<rparr>"

definition epoch :: "crypto_session \<Rightarrow> nat" where
  "epoch s = mutationEpoch (bg_veks (cs_bg s))"

definition to_phase :: "nat \<Rightarrow> phase \<Rightarrow> crypto_session \<Rightarrow> crypto_session" where
  "to_phase i p s = s\<lparr>cs_tasks := AList.update i p (cs_tasks s)\<rparr>"

definition finish :: "nat \<Rightarrow> host_reply \<Rightarrow> crypto_session \<Rightarrow> crypto_session" where
  "finish i r s = s\<lparr>cs_tasks := AList.delete i (cs_tasks s), cs_replies := cs_replies s @ [(i, r)]\<rparr>"

text \<open>\<open>refreshActiveVaultId\<close> once the stored id was read (\<open>None\<close>: the read failed).\<close>

definition refresh_active :: "crypto_session \<Rightarrow> crypto_session" where
  "refresh_active s =
     (case cs_stored s of
        None \<Rightarrow> s
      | Some v \<Rightarrow> s\<lparr>cs_bg := snd (applyActiveVaultTransition v (token s) (cs_bg s))\<rparr>)"

text \<open>The pre-dispatch hook: a lock from an extension page takes effect before hydration is awaited.\<close>

definition before_dispatch :: "af_host \<Rightarrow> crypto_msg \<Rightarrow> sender \<Rightarrow> crypto_session \<Rightarrow> crypto_session" where
  "before_dispatch h m sd s =
     (if cm_type m \<noteq> ''CRYPTO_LOCK'' \<or> \<not> isExtensionSender h sd then s
      else let s1 = begin_mutation (begin_lock s) in s1\<lparr>cs_prestarted := Suc (cs_prestarted s1)\<rparr>)"

definition install_begins :: "nat \<Rightarrow> string \<Rightarrow> crypto_session \<Rightarrow> crypto_session" where
  "install_begins i type s =
     (let s1 = begin_mutation s in to_phase i (UnlockSending type (epoch s1)) (begin_lock s1))"

text \<open>The handler up to its first wait, for an extension sender; others are refused by \<open>extensionOnly\<close>.
  An operation that replaces no key is one call of \<open>sendToOffscreen\<close> and is answered by it.\<close>

definition handler_starts ::
  "af_host \<Rightarrow> nat \<Rightarrow> crypto_msg \<Rightarrow> sender \<Rightarrow> crypto_session \<Rightarrow> crypto_session" where
  "handler_starts h i m sd s =
     (if \<not> isExtensionSender h sd then finish i (error_reply ''forbidden'') s
      else if cm_type m = ''CRYPTO_LOCK'' then
        (let s1 = (if cs_prestarted s > 0 then s\<lparr>cs_prestarted := cs_prestarted s - 1\<rparr> else begin_lock s)
         in to_phase i (case cm_vaultId m of Some v \<Rightarrow> LockSending (Some v) | None \<Rightarrow> LockResolving) s1)
      else if replacesVek (cm_type m) then to_phase i (UnlockRefreshing (cm_type m)) s
      else s)"

text \<open>
  \<open>clearSession\<close> up to its first wait (all keys are then being cleared), and \<open>lockVault\<close>.
\<close>

definition clear_begins :: "nat \<Rightarrow> phase \<Rightarrow> crypto_session \<Rightarrow> crypto_session" where
  "clear_begins i ph s =
     (let s1 = begin_mutation (begin_lock s)
      in to_phase i ph (begin_mutation (s1\<lparr>cs_bg := clearIndex (cs_bg s1)\<rparr>)))"

definition lock_vault :: "nat \<Rightarrow> string option \<Rightarrow> host_reply \<Rightarrow> crypto_session \<Rightarrow> crypto_session" where
  "lock_vault i vaultId res s =
     (case vaultId of
        None \<Rightarrow> clear_begins i (LockClearing res) s
      | Some v \<Rightarrow>
          if getActiveVaultId (cs_bg s) = Some v then clear_begins i (LockClearing res) s
          else to_phase i (LockRemoving res) (begin_mutation s))"

definition announces_unlock :: "string \<Rightarrow> host_reply \<Rightarrow> bool" where
  "announces_unlock type res \<longleftrightarrow>
     hr_ok res \<and> (type = ''CRYPTO_GENERATE_VEK'' \<or> (is_unwrap type \<and> hr_data res = BoolData True))"

text \<open>
  From one wait to the next. \<open>Inl e\<close> is a wait that threw, which the router answers with the error after
  the \<open>finally\<close>. What a wait returned is in the second component: for the host call its reply, for
  \<open>LockResolving\<close> the id the read gave.
\<close>

datatype wait_result = Fulfilled host_reply | Resolved "string option"

fun resume_task ::
  "nat \<Rightarrow> phase \<Rightarrow> string + wait_result \<Rightarrow> crypto_session \<Rightarrow> crypto_session" where
  "resume_task i LockResolving (Inr (Resolved v)) s = to_phase i (LockSending v) s"
| "resume_task i (LockSending v) (Inr (Fulfilled res)) s = to_phase i (LockRefreshing v res) s"
| "resume_task i (LockRefreshing v res) (Inr _) s = lock_vault i v res (refresh_active s)"
| "resume_task i (LockClearing res) (Inr _) s = finish i res (end_lock (end_lock s))"
| "resume_task i (LockRemoving res) (Inr _) s = finish i res (end_lock s)"
| "resume_task i WalkClearing _ s = finish i (ok_reply NoData) (end_lock s)"
| "resume_task i (UnlockRefreshing type) (Inr _) s = install_begins i type (refresh_active s)"
| "resume_task i (UnlockSending type ep) (Inr (Fulfilled res)) s =
     (if ep \<noteq> epoch s then finish i (error_reply CRYPTO_SESSION_CHANGED) (end_lock s)
      else if announces_unlock type res \<or> (hr_ok res \<and> (type = ''CRYPTO_UNLOCK_WITH_VEK'' \<or> type = ''CRYPTO_ROTATE_VEK''))
      then to_phase i (UnlockSettling type ep res) s
      else finish i res (end_lock s))"
| "resume_task i (UnlockSettling type ep res) (Inr _) s =
     (let s1 = refresh_active s
      in if ep \<noteq> epoch s1 then finish i (error_reply CRYPTO_SESSION_CHANGED) (end_lock s1)
         else let s2 = s1\<lparr>cs_bg := advanceAutofillSession (token s1) (cs_bg s1)\<rparr>
           in if announces_unlock type res then to_phase i (UnlockScheduling type ep res) s2
              else finish i res (end_lock s2))"
| "resume_task i (UnlockScheduling type ep res) (Inr _) s =
     (if ep \<noteq> epoch s then finish i (error_reply CRYPTO_SESSION_CHANGED) (end_lock s)
      else finish i res (end_lock s))"
| "resume_task i (UnlockRefreshing type) (Inl e) s = finish i (error_reply e) s"
| "resume_task i (LockClearing res) (Inl e) s = finish i (error_reply e) (end_lock (end_lock s))"
| "resume_task i p (Inl e) s = finish i (error_reply e) (end_lock s)"
| "resume_task i p (Inr _) s = s"

text \<open>What can happen: a message is dispatched, its handler starts once hydration ended, a wait ends, a
  walk-away lock begins or ends (the auto-lock alarm, the lock command, the screen lock), the stored active
  id changes, the key store commits.\<close>

datatype crypto_event =
    Dispatched crypto_msg sender
  | HandlerStarts nat crypto_msg sender
  | WaitEnds nat "string + wait_result"
  | WalkAwayBegins nat
  | StoredActive "string option option"
  | KeysChange vek_state

text \<open>Handlers are told apart by fresh numbers; the epoch never goes back.\<close>

definition fresh_task :: "nat \<Rightarrow> crypto_session \<Rightarrow> bool" where
  "fresh_task i s \<longleftrightarrow> i \<notin> fst ` set (cs_tasks s) \<and> i \<notin> fst ` set (cs_replies s)"

fun crypto_step :: "af_host \<Rightarrow> crypto_event \<Rightarrow> crypto_session \<Rightarrow> crypto_session" where
  "crypto_step h (Dispatched m sd) s = before_dispatch h m sd s"
| "crypto_step h (HandlerStarts i m sd) s = (if fresh_task i s then handler_starts h i m sd s else s)"
| "crypto_step h (WaitEnds i r) s =
     (case map_of (cs_tasks s) i of None \<Rightarrow> s | Some p \<Rightarrow> resume_task i p r s)"
| "crypto_step h (WalkAwayBegins i) s = (if fresh_task i s then clear_begins i WalkClearing s else s)"
| "crypto_step h (StoredActive v) s = s\<lparr>cs_stored := v\<rparr>"
| "crypto_step h (KeysChange w) s =
     (if mutationEpoch w \<ge> epoch s \<and> (activeId w = getActiveVaultId (cs_bg s) \<or> activeId w = None)
      then s\<lparr>cs_bg := (cs_bg s)\<lparr>bg_veks := w\<rparr>\<rparr> else s)"

fun crypto_run :: "af_host \<Rightarrow> crypto_event list \<Rightarrow> crypto_session \<Rightarrow> crypto_session" where
  "crypto_run h [] s = s"
| "crypto_run h (e # es) s = crypto_run h es (crypto_step h e s)"

subsection \<open>Lock transitions balance\<close>

fun depth :: "phase \<Rightarrow> nat" where
  "depth (LockClearing _) = 2"
| "depth (UnlockRefreshing _) = 0"
| "depth _ = 1"

definition balanced :: "crypto_session \<Rightarrow> bool" where
  "balanced s \<longleftrightarrow> distinct (map fst (cs_tasks s)) \<and>
     lockTransitions (cs_bg s) = cs_prestarted s + sum_list (map (depth \<circ> snd) (cs_tasks s))"

lemma sum_delete:
  assumes "distinct (map fst ts)" "map_of ts i = Some p"
  shows "sum_list (map (depth \<circ> snd) (AList.delete i ts)) + depth p = sum_list (map (depth \<circ> snd) ts)"
  using assms
proof (induction ts)
  case (Cons t ts)
  obtain j q where t: "t = (j, q)" by (cases t)
  show ?case
  proof (cases "j = i")
    case True
    with Cons.prems t have "i \<notin> fst ` set ts" by auto
    then have "AList.delete i ts = ts" by (rule delete_id)
    with True t Cons.prems show ?thesis by simp
  next
    case False
    with Cons t show ?thesis by (auto simp: algebra_simps)
  qed
qed simp

lemma sum_update:
  assumes "distinct (map fst ts)" "map_of ts i = Some p"
  shows "sum_list (map (depth \<circ> snd) (AList.update i q ts)) + depth p = sum_list (map (depth \<circ> snd) ts) + depth q"
  using assms by (induction ts) (auto split: if_splits)

lemma sum_new:
  "i \<notin> fst ` set ts \<Longrightarrow> sum_list (map (depth \<circ> snd) (AList.update i q ts)) = sum_list (map (depth \<circ> snd) ts) + depth q"
  by (induction ts) auto

definition transitions :: "crypto_session \<Rightarrow> nat" where
  "transitions s = lockTransitions (cs_bg s)"

definition held :: "crypto_session \<Rightarrow> nat" where
  "held s = cs_prestarted s + sum_list (map (depth \<circ> snd) (cs_tasks s))"

definition tasks_ok :: "crypto_session \<Rightarrow> bool" where
  "tasks_ok s \<longleftrightarrow> distinct (map fst (cs_tasks s))"

lemma balanced_iff: "balanced s \<longleftrightarrow> tasks_ok s \<and> transitions s = held s"
  by (simp add: balanced_def tasks_ok_def transitions_def held_def)

lemma apply_active_transitions [simp]:
  "lockTransitions (snd (applyActiveVaultTransition v tok s)) = lockTransitions s"
  by (auto simp: applyActiveVaultTransition_def advanceAutofillSession_def split: prod.splits bool.splits)

text \<open>What the small steps do to the count and to the tasks.\<close>

lemma small_steps [simp]:
  "transitions (begin_lock s) = Suc (transitions s)" "transitions (end_lock s) = transitions s - 1"
  "transitions (begin_mutation s) = transitions s" "transitions (refresh_active s) = transitions s"
  "cs_tasks (begin_lock s) = cs_tasks s" "cs_tasks (end_lock s) = cs_tasks s"
  "cs_tasks (begin_mutation s) = cs_tasks s" "cs_tasks (refresh_active s) = cs_tasks s"
  "cs_prestarted (begin_lock s) = cs_prestarted s" "cs_prestarted (end_lock s) = cs_prestarted s"
  "cs_prestarted (begin_mutation s) = cs_prestarted s" "cs_prestarted (refresh_active s) = cs_prestarted s"
  "cs_replies (begin_lock s) = cs_replies s" "cs_replies (end_lock s) = cs_replies s"
  "cs_replies (begin_mutation s) = cs_replies s" "cs_replies (refresh_active s) = cs_replies s"
  by (auto simp: transitions_def begin_lock_def end_lock_def begin_mutation_def refresh_active_def
      beginAutofillLockTransition_def endAutofillLockTransition_def advanceAutofillSession_def split: option.splits)

lemma bg_steps [simp]:
  "transitions (s\<lparr>cs_bg := clearIndex (cs_bg s)\<rparr>) = transitions s"
  "transitions (s\<lparr>cs_bg := advanceAutofillSession tok (cs_bg s)\<rparr>) = transitions s"
  "transitions (s\<lparr>cs_bg := (cs_bg s)\<lparr>bg_veks := w\<rparr>\<rparr>) = transitions s"
  "transitions (s\<lparr>cs_stored := v\<rparr>) = transitions s" "transitions (s\<lparr>cs_prestarted := n\<rparr>) = transitions s"
  by (auto simp: transitions_def clearIndex_def advanceAutofillSession_def)

lemma held_cong:
  "cs_tasks s' = cs_tasks s \<Longrightarrow> cs_prestarted s' = cs_prestarted s \<Longrightarrow> held s' = held s \<and> tasks_ok s' = tasks_ok s"
  by (simp add: held_def tasks_ok_def)

lemma held_same [simp]:
  "held (begin_lock s) = held s" "held (end_lock s) = held s" "held (begin_mutation s) = held s"
  "held (refresh_active s) = held s" "tasks_ok (begin_lock s) = tasks_ok s" "tasks_ok (end_lock s) = tasks_ok s"
  "tasks_ok (begin_mutation s) = tasks_ok s" "tasks_ok (refresh_active s) = tasks_ok s"
  "held (s\<lparr>cs_bg := b\<rparr>) = held s" "tasks_ok (s\<lparr>cs_bg := b\<rparr>) = tasks_ok s"
  "held (s\<lparr>cs_stored := v\<rparr>) = held s" "tasks_ok (s\<lparr>cs_stored := v\<rparr>) = tasks_ok s"
  by (simp_all add: held_def tasks_ok_def)

lemma task_finished:
  assumes "tasks_ok s" "map_of (cs_tasks s) i = Some p" "transitions s + depth p = held s"
  shows "balanced (finish i r s)"
  using assms sum_delete [of "cs_tasks s" i p] distinct_delete [of "cs_tasks s" i]
  by (auto simp: balanced_iff tasks_ok_def transitions_def held_def finish_def)

lemma task_moved:
  assumes "tasks_ok s" "map_of (cs_tasks s) i = Some p" "transitions s + depth p = held s + depth q"
  shows "balanced (to_phase i q s)"
  using assms sum_update [of "cs_tasks s" i p q] distinct_update [of "cs_tasks s" i q]
  by (auto simp: balanced_iff tasks_ok_def transitions_def held_def to_phase_def)

lemma task_started:
  assumes "tasks_ok s" "i \<notin> fst ` set (cs_tasks s)" "transitions s = held s + depth q"
  shows "balanced (to_phase i q s)"
  using assms sum_new [of i "cs_tasks s" q] distinct_update [of "cs_tasks s" i q]
  by (auto simp: balanced_iff tasks_ok_def transitions_def held_def to_phase_def)

lemma held_depth:
  assumes "tasks_ok s" "map_of (cs_tasks s) i = Some p"
  shows "depth p \<le> held s"
  using sum_delete [of "cs_tasks s" i p] assms by (simp add: tasks_ok_def held_def)

lemma resume_balanced:
  assumes "balanced s" "map_of (cs_tasks s) i = Some p"
  shows "balanced (resume_task i p r s)"
proof -
  have b: "tasks_ok s" "transitions s = held s" and le: "depth p \<le> held s"
    using assms held_depth by (auto simp: balanced_iff)
  note move = task_finished [where p = p] task_moved [where p = p]
  show ?thesis
    using b le assms
    by (cases "(i, p, r, s)" rule: resume_task.cases)
      (auto simp: lock_vault_def clear_begins_def install_begins_def Let_def split: option.splits intro!: move)
qed

lemma dispatch_balanced: "balanced s \<Longrightarrow> balanced (before_dispatch h m sd s)"
  by (auto simp: before_dispatch_def Let_def balanced_iff tasks_ok_def held_def)

lemma start_balanced: "balanced s \<Longrightarrow> fresh_task i s \<Longrightarrow> balanced (handler_starts h i m sd s)"
proof -
  assume b: "balanced s" "fresh_task i s"
  have "map_of (cs_tasks s) i = None"
    using b(2) by (auto simp: fresh_task_def map_of_eq_None_iff)
  then have refused: "balanced (finish i r s)" for r
    using b(1) by (simp add: finish_def balanced_def delete_id map_of_eq_None_iff)
  have pre: "held (s\<lparr>cs_prestarted := cs_prestarted s - 1\<rparr>) = held s - 1" if "cs_prestarted s > 0"
    using that by (simp add: held_def)
  show ?thesis
    using b refused pre
    by (auto simp: handler_starts_def balanced_iff [of s] fresh_task_def Let_def split: option.splits
        intro!: task_started) (auto simp: tasks_ok_def held_def)
qed

lemma step_balanced: "balanced s \<Longrightarrow> balanced (crypto_step h e s)"
proof (cases e)
  case (WalkAwayBegins i)
  assume "balanced s"
  then show ?thesis
    using WalkAwayBegins
    by (auto simp: clear_begins_def Let_def balanced_iff [of s] fresh_task_def intro!: task_started)
next
  case (StoredActive v)
  assume "balanced s"
  then show ?thesis using StoredActive by (simp add: balanced_iff)
next
  case (KeysChange w)
  assume "balanced s"
  then show ?thesis using KeysChange by (simp add: balanced_iff)
qed (auto simp: dispatch_balanced start_balanced resume_balanced split: option.splits)

lemma run_balanced: "balanced s \<Longrightarrow> balanced (crypto_run h es s)"
  by (induction es arbitrary: s) (simp_all add: step_balanced)

definition fresh_session :: "bg \<Rightarrow> (nat \<Rightarrow> string) \<Rightarrow> crypto_session" where
  "fresh_session b rnd =
     \<lparr>cs_bg = b\<lparr>lockTransitions := 0\<rparr>, cs_prestarted = 0, cs_stored = None, cs_tasks = [], cs_replies = [],
      cs_random = rnd\<rparr>"

text \<open>A lock under way: dispatched and not yet started, or started and not yet answered.\<close>

definition lock_under_way :: "crypto_session \<Rightarrow> bool" where
  "lock_under_way s \<longleftrightarrow> cs_prestarted s > 0 \<or>
     list_ex (\<lambda>(i, p). depth p > 0) (cs_tasks s)"

text \<open>The lock gate closes at once and always opens again. Whatever locks, unlocks, walk-away
  locks, failing waits and session changes interleave, from the moment a lock is dispatched until it has
  been answered (and while an unlock installs a key) no decrypted autofill data has an owner; and once no
  handler is at work nothing is left closed, however its handlers ended.\<close>

lemma lock_gate_balances:
  assumes "s = crypto_run h es (fresh_session b rnd)"
  shows "(lock_under_way s \<longrightarrow> autofillSessionOwner (cs_bg s) = None) \<and>
    (cs_tasks s = [] \<and> cs_prestarted s = 0 \<longrightarrow> lockTransitions (cs_bg s) = 0)"
proof -
  have "balanced (fresh_session b rnd)"
    by (simp add: balanced_def fresh_session_def)
  then have bal: "lockTransitions (cs_bg s) = cs_prestarted s + sum_list (map (depth \<circ> snd) (cs_tasks s))"
    using run_balanced assms by (simp add: balanced_def)
  have "lockTransitions (cs_bg s) > 0" if l: "lock_under_way s"
  proof (cases "cs_prestarted s > 0")
    case False
    with l obtain i p where p: "(i, p) \<in> set (cs_tasks s)" "depth p > 0"
      by (auto simp: lock_under_way_def list_ex_iff)
    have "depth p \<le> sum_list (map (depth \<circ> snd) (cs_tasks s))"
      using p(1) by (intro member_le_sum_list; force)
    then show ?thesis using bal p(2) by simp
  qed (use bal in simp)
  then have "lock_under_way s \<longrightarrow> autofillSessionOwner (cs_bg s) = None"
    by (auto simp: autofillSessionOwner_def autofillSessionIsCurrent_def autofillSessionIsStable_def split: option.splits)
  with bal show ?thesis by simp
qed


text \<open>The events that lock: an extension page's lock, as soon as it is dispatched, and a walk-away lock.\<close>

definition locks :: "af_host \<Rightarrow> crypto_event \<Rightarrow> crypto_session \<Rightarrow> bool" where
  "locks h e s \<longleftrightarrow>
     (case e of
        Dispatched m sd \<Rightarrow> cm_type m = ''CRYPTO_LOCK'' \<and> isExtensionSender h sd
      | WalkAwayBegins k \<Rightarrow> fresh_task k s
      | _ \<Rightarrow> False)"

text \<open>An unlock on its way when a lock is dispatched.\<close>

definition ext_view :: sender where
  "ext_view = \<lparr>sd_origin = Some ''chrome-extension://x'', sd_url = None, sd_tab_id = None, sd_tab_url = None,
     sd_has_tab = False, sd_id = Some ''x''\<rparr>"

definition crypto_call :: "string \<Rightarrow> crypto_msg" where
  "crypto_call type = \<lparr>cm_type = type, cm_vaultId = None, cm_vekB64 = None, cm_body = []\<rparr>"

definition unlock_runs :: "crypto_event list" where
  "unlock_runs = [HandlerStarts 1 (crypto_call ''CRYPTO_UNWRAP_PASSWORD_SLOT'') ext_view,
     WaitEnds 1 (Inr (Resolved None))]"

definition lock_comes :: crypto_event where
  "lock_comes = Dispatched (crypto_call ''CRYPTO_LOCK'') ext_view"

definition unlock_ends :: crypto_event where
  "unlock_ends = WaitEnds 1 (Inr (Fulfilled (ok_reply (BoolData True))))"

definition sample_session :: crypto_session where
  "sample_session = fresh_session sample_bg (\<lambda>n. replicate n CHR ''t'')"

definition unlocking :: crypto_session where
  "unlocking = crypto_run sample_af_host unlock_runs sample_session"

lemma unlocking_facts:
  "cs_tasks unlocking = [(1, UnlockSending ''CRYPTO_UNWRAP_PASSWORD_SLOT'' 1)]"
  "lock_under_way unlocking" "locks sample_af_host lock_comes unlocking"
  "cs_replies (crypto_step sample_af_host unlock_ends (crypto_step sample_af_host lock_comes unlocking)) =
     [(1, error_reply CRYPTO_SESSION_CHANGED)]"
  by code_simp+

subsection \<open>A lock outdates every unlock before it\<close>

fun unlock_epoch :: "phase \<Rightarrow> nat option" where
  "unlock_epoch (UnlockSending _ ep) = Some ep"
| "unlock_epoch (UnlockSettling _ ep _) = Some ep"
| "unlock_epoch (UnlockScheduling _ ep _) = Some ep"
| "unlock_epoch _ = None"

lemma apply_active_epoch: "epoch s \<le> epoch (refresh_active s)"
  by (auto simp: refresh_active_def epoch_def applyActiveVaultTransition_def applyActiveVaultId_def
      beginVekMutation_def advanceAutofillSession_def split: option.splits prod.splits bool.splits if_splits)

lemma small_epochs [simp]:
  "epoch (begin_lock s) = epoch s" "epoch (end_lock s) = epoch s" "epoch (begin_mutation s) = Suc (epoch s)"
  "epoch (to_phase i p s) = epoch s" "epoch (finish i r s) = epoch s" "epoch (s\<lparr>cs_prestarted := n\<rparr>) = epoch s"
  "epoch (s\<lparr>cs_stored := v\<rparr>) = epoch s" "epoch (s\<lparr>cs_bg := clearIndex (cs_bg s)\<rparr>) = epoch s"
  "epoch (s\<lparr>cs_bg := advanceAutofillSession tok (cs_bg s)\<rparr>) = epoch s"
  by (simp_all add: epoch_def begin_lock_def end_lock_def begin_mutation_def to_phase_def finish_def clearIndex_def
      beginAutofillLockTransition_def endAutofillLockTransition_def advanceAutofillSession_def beginVekMutation_def)

text \<open>What one step does to the epoch, the tasks and the replies: task \<open>i\<close> moves on, or ends with a reply.\<close>

definition moves :: "nat \<Rightarrow> crypto_session \<Rightarrow> crypto_session \<Rightarrow> bool" where
  "moves i s s' \<longleftrightarrow> epoch s \<le> epoch s' \<and>
     ((\<exists>q. cs_tasks s' = AList.update i q (cs_tasks s) \<and> cs_replies s' = cs_replies s \<and>
         (\<forall>ep. unlock_epoch q = Some ep \<longrightarrow> ep \<le> epoch s') \<and>
         (\<forall>p ep. map_of (cs_tasks s) i = Some p \<and> unlock_epoch p = Some ep \<longrightarrow>
            unlock_epoch q = Some ep \<and> epoch s \<le> ep)) \<or>
      (\<exists>r. cs_tasks s' = AList.delete i (cs_tasks s) \<and> cs_replies s' = cs_replies s @ [(i, r)] \<and>
         (\<forall>p ep. map_of (cs_tasks s) i = Some p \<and> unlock_epoch p = Some ep \<and> ep \<noteq> epoch s' \<longrightarrow> \<not> hr_ok r)) \<or>
      (cs_tasks s' = cs_tasks s \<and> cs_replies s' = cs_replies s))"

lemma task_fields [simp]:
  "cs_tasks (to_phase i p s) = AList.update i p (cs_tasks s)" "cs_replies (to_phase i p s) = cs_replies s"
  "cs_tasks (finish i r s) = AList.delete i (cs_tasks s)" "cs_replies (finish i r s) = cs_replies s @ [(i, r)]"
  by (simp_all add: to_phase_def finish_def)

lemma moves_phase:
  assumes "epoch s \<le> epoch s1" "cs_tasks s1 = cs_tasks s" "cs_replies s1 = cs_replies s"
    and "\<And>ep. unlock_epoch q = Some ep \<Longrightarrow> ep \<le> epoch s1"
    and "\<And>p ep. map_of (cs_tasks s) i = Some p \<Longrightarrow> unlock_epoch p = Some ep \<Longrightarrow> unlock_epoch q = Some ep \<and> epoch s \<le> ep"
  shows "moves i s (to_phase i q s1)"
  unfolding moves_def using assms by (intro conjI disjI1 exI [of _ q]) auto

lemma moves_finish:
  assumes "epoch s \<le> epoch s1" "cs_tasks s1 = cs_tasks s" "cs_replies s1 = cs_replies s"
    and "\<And>p ep. map_of (cs_tasks s) i = Some p \<Longrightarrow> unlock_epoch p = Some ep \<Longrightarrow> ep \<noteq> epoch s1 \<Longrightarrow> \<not> hr_ok r"
  shows "moves i s (finish i r s1)"
  unfolding moves_def using assms by (intro conjI disjI2 disjI1 exI [of _ r]) auto

lemma error_not_ok [simp]: "\<not> hr_ok (error_reply e)"
  by (simp add: error_reply_def)

lemma resume_moves:
  assumes "map_of (cs_tasks s) i = Some p"
  shows "moves i s (resume_task i p r s)"
  using assms apply_active_epoch [of s]
  by (cases "(i, p, r, s)" rule: resume_task.cases)
    (auto simp: lock_vault_def clear_begins_def install_begins_def Let_def
      split: option.splits intro!: moves_phase moves_finish, auto simp: moves_def)

text \<open>Handlers keep to their numbers, and an unlock's epoch is one that was current.\<close>

definition numbered :: "crypto_session \<Rightarrow> bool" where
  "numbered s \<longleftrightarrow> fst ` set (cs_tasks s) \<inter> fst ` set (cs_replies s) = {} \<and>
     (\<forall>i p ep. map_of (cs_tasks s) i = Some p \<longrightarrow> unlock_epoch p = Some ep \<longrightarrow> ep \<le> epoch s)"

definition stale :: "nat \<Rightarrow> crypto_session \<Rightarrow> bool" where
  "stale j s \<longleftrightarrow>
     (case map_of (cs_tasks s) j of
        Some p \<Rightarrow> \<exists>ep. unlock_epoch p = Some ep \<and> ep < epoch s
      | None \<Rightarrow> j \<in> fst ` set (cs_replies s)) \<and>
     (\<forall>r. (j, r) \<in> set (cs_replies s) \<longrightarrow> \<not> hr_ok r)"

lemma dom_tasks: "i \<in> fst ` set ts \<longleftrightarrow> map_of ts i \<noteq> None"
  by (metis map_of_eq_None_iff)

lemma numbered_moves:
  assumes "numbered s" "moves i s s'" "i \<notin> fst ` set (cs_replies s)"
  shows "numbered s'"
proof -
  have apart: "k \<notin> fst ` set (cs_replies s)" if "map_of (cs_tasks s) k = Some p" for k p
    using assms(1) that dom_tasks [of k "cs_tasks s"] by (auto simp: numbered_def)
  have old: "ep \<le> epoch s" if "map_of (cs_tasks s) k = Some p" "unlock_epoch p = Some ep" for k p ep
    using assms(1) that by (simp add: numbered_def)
  have le: "epoch s \<le> epoch s'" using assms(2) by (simp add: moves_def)
  have iff: "numbered s' \<longleftrightarrow> (\<forall>k p. map_of (cs_tasks s') k = Some p \<longrightarrow> k \<notin> fst ` set (cs_replies s') \<and>
      (\<forall>ep. unlock_epoch p = Some ep \<longrightarrow> ep \<le> epoch s'))"
    unfolding numbered_def using dom_tasks [of _ "cs_tasks s'"] by (simp only: disjoint_iff) (auto; blast)
  show ?thesis
    unfolding iff
  proof (intro allI impI)
    fix k p assume k: "map_of (cs_tasks s') k = Some p"
    from assms(2) show "k \<notin> fst ` set (cs_replies s') \<and> (\<forall>ep. unlock_epoch p = Some ep \<longrightarrow> ep \<le> epoch s')"
      unfolding moves_def
    proof (elim conjE disjE exE)
      fix q assume q: "cs_tasks s' = AList.update i q (cs_tasks s)" "cs_replies s' = cs_replies s"
        "\<forall>ep. unlock_epoch q = Some ep \<longrightarrow> ep \<le> epoch s'"
      show ?thesis
      proof (cases "k = i")
        case True
        with k q assms(3) show ?thesis by (simp add: update_conv')
      next
        case False
        with k q have "map_of (cs_tasks s) k = Some p" by (simp add: update_conv')
        with apart old le q(2) show ?thesis by (metis le_trans)
      qed
    next
      fix r assume r: "cs_tasks s' = AList.delete i (cs_tasks s)" "cs_replies s' = cs_replies s @ [(i, r)]"
      from k r(1) have "k \<noteq> i" "map_of (cs_tasks s) k = Some p"
        by (auto simp: delete_conv' split: if_splits)
      with apart [of k p] old [of k p] le r(2) show ?thesis by (auto intro: le_trans)
    next
      assume e: "cs_tasks s' = cs_tasks s" "cs_replies s' = cs_replies s"
      with k have "map_of (cs_tasks s) k = Some p" by simp
      with apart old le e show ?thesis by (metis le_trans)
    qed
  qed
qed

lemma stale_moves:
  assumes "stale j s" "moves i s s'" "i = j \<Longrightarrow> map_of (cs_tasks s) j \<noteq> None"
  shows "stale j s'"
  using assms(2)
  unfolding moves_def
proof (elim conjE disjE exE)
  fix q assume q: "epoch s \<le> epoch s'" "cs_tasks s' = AList.update i q (cs_tasks s)" "cs_replies s' = cs_replies s"
    "\<forall>p ep. map_of (cs_tasks s) i = Some p \<and> unlock_epoch p = Some ep \<longrightarrow> unlock_epoch q = Some ep \<and> epoch s \<le> ep"
  have "i \<noteq> j"
    using assms(1,3) q(4) by (fastforce simp: stale_def)
  with q assms(1) show ?thesis
    by (auto simp: stale_def jsmap_simps split: option.splits)
next
  fix r assume r: "epoch s \<le> epoch s'" "cs_tasks s' = AList.delete i (cs_tasks s)" "cs_replies s' = cs_replies s @ [(i, r)]"
    "\<forall>p ep. map_of (cs_tasks s) i = Some p \<and> unlock_epoch p = Some ep \<and> ep \<noteq> epoch s' \<longrightarrow> \<not> hr_ok r"
  show ?thesis
  proof (cases "i = j")
    case True
    with assms(1,3) r show ?thesis by (fastforce simp: stale_def jsmap_simps)
  next
    case False
    with assms(1) r show ?thesis by (auto simp: stale_def jsmap_simps split: option.splits)
  qed
next
  assume "epoch s \<le> epoch s'" "cs_tasks s' = cs_tasks s" "cs_replies s' = cs_replies s"
  then show ?thesis using assms(1) by (auto simp: stale_def split: option.splits)
qed

lemma fresh_start_moves:
  "fresh_task i s \<Longrightarrow> moves i s (handler_starts h i m sd s)" "fresh_task i s \<Longrightarrow> moves i s (clear_begins i WalkClearing s)"
proof -
  assume "fresh_task i s"
  then have new: "map_of (cs_tasks s) i = None" by (auto simp: fresh_task_def map_of_eq_None_iff)
  define s1 where "s1 = (if cs_prestarted s > 0 then s\<lparr>cs_prestarted := cs_prestarted s - 1\<rparr> else begin_lock s)"
  have s1: "cs_tasks s1 = cs_tasks s" "cs_replies s1 = cs_replies s" "epoch s1 = epoch s"
    by (simp_all add: s1_def)
  show "moves i s (handler_starts h i m sd s)"
    unfolding handler_starts_def s1_def [symmetric] Let_def
    using new s1
    by (auto split: option.splits intro!: moves_phase moves_finish) (auto simp: moves_def)
  show "moves i s (clear_begins i WalkClearing s)"
    using new by (auto simp: clear_begins_def Let_def intro!: moves_phase)
qed

text \<open>Steps that are no task's.\<close>

fun task_of :: "crypto_event \<Rightarrow> nat option" where
  "task_of (HandlerStarts i _ _) = Some i"
| "task_of (WaitEnds i _) = Some i"
| "task_of (WalkAwayBegins i) = Some i"
| "task_of _ = None"

lemma other_step_moves: assumes "task_of e = None" shows "moves i s (crypto_step h e s)"
proof (cases e)
  case (KeysChange w)
  then show ?thesis by (simp add: moves_def epoch_def)
qed (use assms in \<open>auto simp: moves_def before_dispatch_def Let_def\<close>)

lemma step_moves: "task_of e = Some i \<Longrightarrow> crypto_step h e s = s \<or>
    (moves i s (crypto_step h e s) \<and> (map_of (cs_tasks s) i \<noteq> None \<or> fresh_task i s))"
  using resume_moves [of s i] fresh_start_moves [of i s] by (cases e) (auto split: option.splits)

lemma numbered_step:
  assumes "numbered s"
  shows "numbered (crypto_step h e s)"
proof (cases "task_of e")
  case None
  have "finite (fst ` set (cs_replies s))" by simp
  then obtain i where "i \<notin> fst ` set (cs_replies s)"
    using ex_new_if_finite infinite_UNIV_nat by blast
  with numbered_moves [OF assms other_step_moves [OF None]] show ?thesis by blast
next
  case (Some i)
  have "i \<notin> fst ` set (cs_replies s)" if "map_of (cs_tasks s) i \<noteq> None \<or> fresh_task i s"
    using that assms dom_tasks [of i "cs_tasks s"] by (auto simp: numbered_def fresh_task_def)
  with step_moves [OF Some, of h s] numbered_moves [OF assms, of i] assms show ?thesis by auto
qed

lemma stale_step:
  assumes "stale j s"
  shows "stale j (crypto_step h e s)"
proof (cases "task_of e")
  case None
  show ?thesis
    by (rule stale_moves [OF assms other_step_moves [OF None], of "Suc j"]) simp
next
  case (Some i)
  have "j \<in> fst ` set (cs_tasks s) \<or> j \<in> fst ` set (cs_replies s)"
    using assms dom_tasks [of j "cs_tasks s"] by (auto simp: stale_def split: option.splits)
  then have "i = j \<Longrightarrow> \<not> fresh_task i s" by (auto simp: fresh_task_def)
  with step_moves [OF Some, of h s] stale_moves [OF assms, of i] assms show ?thesis by metis
qed

lemma numbered_run: "numbered s \<Longrightarrow> numbered (crypto_run h es s)"
  by (induction es arbitrary: s) (simp_all add: numbered_step)

lemma stale_run: "stale j s \<Longrightarrow> stale j (crypto_run h es s)"
  by (induction es arbitrary: s) (simp_all add: stale_step)

lemma lock_makes_stale:
  assumes "numbered s" "map_of (cs_tasks s) i = Some p" "unlock_epoch p = Some ep" "locks h e s"
  shows "stale i (crypto_step h e s)"
proof -
  have le: "ep \<le> epoch s" and no: "i \<notin> fst ` set (cs_replies s)"
    using assms(1-3) dom_tasks [of i "cs_tasks s"] by (auto simp: numbered_def)
  have t: "map_of (cs_tasks (crypto_step h e s)) i = Some p \<and> cs_replies (crypto_step h e s) = cs_replies s \<and>
      epoch s < epoch (crypto_step h e s)"
    using assms(2,4) dom_tasks [of i "cs_tasks s"]
    by (cases e) (auto simp: locks_def before_dispatch_def clear_begins_def Let_def fresh_task_def update_conv')
  show ?thesis
    using t le no assms(3) by (auto simp: stale_def image_iff)
qed

text \<open>Property C31: a lock outdates every unlock that has begun to change the keys. From the moment a lock is
  dispatched (or a walk-away lock begins), an unlock, key generation or key rotation that has taken its epoch,
  whether it waits for the crypto host, for the stored vault id after that or for the auto-lock alarm, can only
  answer with a failure, however the rest interleaves. An unlock still reading the stored vault id before it
  takes its epoch is not outdated (the next lemma).\<close>

theorem lock_outdates_unlocks:
  assumes "s = crypto_run h before (fresh_session b rnd)"
    and "map_of (cs_tasks s) i = Some p" "unlock_epoch p = Some ep" "locks h e s"
    and "(i, r) \<in> set (cs_replies (crypto_run h after (crypto_step h e s)))"
  shows "\<not> hr_ok r"
proof -
  have "numbered (fresh_session b rnd)" by (simp add: numbered_def fresh_session_def)
  then have "numbered s" using numbered_run assms(1) by simp
  then have "stale i (crypto_run h after (crypto_step h e s))"
    using lock_makes_stale stale_run assms(2-4) by blast
  with assms(5) show ?thesis by (auto simp: stale_def)
qed

theorem lock_outdates_unlocks_witness:
  "\<exists>r. cs_replies (crypto_run sample_af_host [unlock_ends] (crypto_step sample_af_host lock_comes unlocking)) = [(1, r)] \<and> \<not> hr_ok r"
proof -
  let ?after = "crypto_run sample_af_host [unlock_ends] (crypto_step sample_af_host lock_comes unlocking)"
  have p: "map_of (cs_tasks unlocking) 1 = Some (UnlockSending ''CRYPTO_UNWRAP_PASSWORD_SLOT'' 1)"
    by (simp add: unlocking_facts)
  have r: "cs_replies ?after = [(1, error_reply CRYPTO_SESSION_CHANGED)]"
    by (simp add: unlocking_facts(4))
  have r': "(1, error_reply CRYPTO_SESSION_CHANGED) \<in> set (cs_replies ?after)"
    unfolding r by simp
  have "\<not> hr_ok (error_reply CRYPTO_SESSION_CHANGED)"
    by (rule lock_outdates_unlocks [OF unlocking_def [unfolded sample_session_def] p _ unlocking_facts(3) r']) simp
  with r show ?thesis by blast
qed

text \<open>An unlock that still reads the stored vault id when the lock is dispatched takes its epoch after the lock's and
  answers with success, although the lock came first; the lock's own clearing of the keys comes later.\<close>

definition late_unlock :: crypto_session where
  "late_unlock = crypto_run sample_af_host
     [Dispatched (crypto_call ''CRYPTO_UNWRAP_PASSWORD_SLOT'') ext_view,
      HandlerStarts 1 (crypto_call ''CRYPTO_UNWRAP_PASSWORD_SLOT'') ext_view,
      lock_comes, HandlerStarts 2 (crypto_call ''CRYPTO_LOCK'') ext_view,
      WaitEnds 1 (Inr (Resolved None)), unlock_ends, WaitEnds 1 (Inr (Resolved None)), WaitEnds 1 (Inr (Resolved None))]
     sample_session"

lemma reading_unlock_not_outdated:
  "cs_replies late_unlock = [(1, ok_reply (BoolData True))] \<and> map_of (cs_tasks late_unlock) 2 = Some LockResolving"
  by code_simp

end
