(* ===== verification/Security_Keys.thy ===== *)
theory Security_Keys
  imports Js_Text
begin

text \<open>
  Vautix's own WebAuthn ceremonies: the relying party ids an unlock tries and in which order, the prompt
  that yields the PRF secret, the registration of a key (\<open>packages/core/src/vault/webauthn-ceremony.ts\<close>),
  and the interception of all other WebAuthn that is paused meanwhile
  (\<open>platform-extension/src/background/webauthn-proxy-init.ts\<close>).

  A prompt is an argument: for each relying party id (\<open>None\<close> is the implicit one, the extension's origin)
  what \<open>navigator.credentials\<close> answers.
\<close>

subsection \<open>Relying party ids\<close>

datatype key_kind = SecurityKey | Platform

record rp_config =
  rc_platformRpId :: "string option"
  rc_implicitUsable :: bool

definition webauthnUnlockPossible :: "rp_config \<Rightarrow> bool" where
  "webauthnUnlockPossible C \<longleftrightarrow> rc_platformRpId C \<noteq> None \<or> rc_implicitUsable C"

definition rpIdFor :: "rp_config \<Rightarrow> key_kind \<Rightarrow> string option" where
  "rpIdFor C kind = (case kind of Platform \<Rightarrow> rc_platformRpId C | SecurityKey \<Rightarrow> None)"

text \<open>\<open>order.filter((v, i) => order.indexOf(v) === i)\<close> keeps the first occurrence of each value.\<close>

fun first_occurrences :: "'a list \<Rightarrow> 'a list" where
  "first_occurrences [] = []"
| "first_occurrences (x # xs) = x # filter (\<lambda>y. y \<noteq> x) (first_occurrences xs)"

definition unlockRpIdOrder :: "rp_config \<Rightarrow> bool \<Rightarrow> string option list" where
  "unlockRpIdOrder C hasPlatformKey =
     (let order = (if hasPlatformKey then [rc_platformRpId C, None] else [None, rc_platformRpId C]);
          deduped = first_occurrences order;
          usable = filter (\<lambda>v. v \<noteq> None \<or> rc_implicitUsable C) deduped
      in if length usable > 0 then usable else [None])"

subsection \<open>The prompts\<close>

datatype key_error =
    DomFailure string
  | UnlockFailed
  | NoCredentialReturned
  | NoPrf key_kind
  | NoRpId
  | TooOld
  | Cancelled key_kind

datatype get_answer =
    Tapped string "string option"
  | NothingReturned
  | Threw string

definition getPrfSecret ::
  "(string option \<Rightarrow> get_answer) \<Rightarrow> string option \<Rightarrow> bool \<Rightarrow> key_error + (string \<times> string)" where
  "getPrfSecret prompt rpId forUnlock =
     (case prompt rpId of
        Threw name \<Rightarrow> Inl (if forUnlock \<and> name = ''NotAllowedError'' then UnlockFailed else DomFailure name)
      | NothingReturned \<Rightarrow> Inl (if forUnlock then UnlockFailed else NoCredentialReturned)
      | Tapped rawId secret \<Rightarrow>
          (case secret of Some s \<Rightarrow> Inr (rawId, s) | None \<Rightarrow> Inl (NoPrf SecurityKey)))"

text \<open>The second component lists the ids that were prompted for.\<close>

fun getPrfSecretAcrossRpIds ::
  "(string option \<Rightarrow> get_answer) \<Rightarrow> string option list \<Rightarrow>
   (key_error + (string \<times> string \<times> string option)) \<times> string option list" where
  "getPrfSecretAcrossRpIds prompt [] = (Inl NoRpId, [])"
| "getPrfSecretAcrossRpIds prompt (rpId # rest) =
     (let isLast = (rest = [])
      in case getPrfSecret prompt rpId isLast of
           Inr (rawId, secret) \<Rightarrow> (Inr (rawId, secret, rpId), [rpId])
         | Inl e \<Rightarrow>
             if isLast then (Inl e, [rpId])
             else if e = DomFailure ''NotAllowedError'' \<or> e = DomFailure ''SecurityError''
             then let (r, tried) = getPrfSecretAcrossRpIds prompt rest in (r, rpId # tried)
             else (Inl e, [rpId]))"

text \<open>Registration. The answer of \<open>create\<close>: the new credential's id, what it says of PRF
  (\<open>results.first\<close> and \<open>enabled\<close>) and the backup flag, or nothing, or the name it threw.\<close>

record created_key =
  ck_rawId :: string
  ck_first :: "string option"
  ck_enabled :: "bool option"
  ck_authData :: "nat list option"

datatype create_answer = Created created_key | NothingCreated | CreateThrew string

record registered_key =
  rk_credentialId :: string
  rk_salt :: string
  rk_hmacSecret :: string
  rk_synced :: bool

text \<open>Bit 4 of the flags byte that follows the 32 bytes of the relying party's hash.\<close>

definition readSyncedFlag :: "nat list option \<Rightarrow> bool" where
  "readSyncedFlag authData =
     (case authData of None \<Rightarrow> False | Some b \<Rightarrow> length b > 32 \<and> odd (b ! 32 div 16))"

definition registration_error :: "key_kind \<Rightarrow> string option \<Rightarrow> key_error \<Rightarrow> key_error" where
  "registration_error kind rpId e =
     (if rpId \<noteq> None \<and> rpId \<noteq> Some [] \<and> e = DomFailure ''SecurityError'' then TooOld
      else if e = DomFailure ''NotAllowedError'' then Cancelled kind
      else e)"

definition createPrfCredential ::
  "rp_config \<Rightarrow> (string option \<Rightarrow> create_answer) \<Rightarrow> (string option \<Rightarrow> get_answer) \<Rightarrow>
   key_kind \<Rightarrow> string option \<Rightarrow> string \<Rightarrow> key_error + registered_key" where
  "createPrfCredential C create prompt kind explicitRpId salt =
     (let rpId = (case explicitRpId of Some r \<Rightarrow> Some r | None \<Rightarrow> rpIdFor C kind);
          result =
            (case create rpId of
               CreateThrew name \<Rightarrow> Inl (DomFailure name)
             | NothingCreated \<Rightarrow> Inl NoCredentialReturned
             | Created k \<Rightarrow>
                 (let registered = (\<lambda>secret. \<lparr>rk_credentialId = ck_rawId k, rk_salt = salt,
                        rk_hmacSecret = secret, rk_synced = readSyncedFlag (ck_authData k)\<rparr>)
                  in case ck_first k of
                       Some s \<Rightarrow> Inr (registered s)
                     | None \<Rightarrow>
                         if ck_enabled k = Some False then Inl (NoPrf kind)
                         else (case getPrfSecret prompt rpId False of
                                 Inl e \<Rightarrow> Inl e
                               | Inr (_, s) \<Rightarrow> Inr (registered s))))
      in case result of Inl e \<Rightarrow> Inl (registration_error kind rpId e) | Inr r \<Rightarrow> Inr r)"

lemma set_first_occurrences [simp]: "set (first_occurrences xs) = set xs"
  by (induction xs) auto

lemma distinct_first_occurrences [simp]: "distinct (first_occurrences xs)"
  by (induction xs) auto

text \<open>The ids a vault's slots can be registered under in this browser.\<close>

definition usable_rpId :: "rp_config \<Rightarrow> string option \<Rightarrow> bool" where
  "usable_rpId C v \<longleftrightarrow> (v = None \<and> rc_implicitUsable C) \<or> (v \<noteq> None \<and> v = rc_platformRpId C)"

lemma unlock_order:
  "distinct (unlockRpIdOrder C p) \<and> unlockRpIdOrder C p \<noteq> [] \<and> length (unlockRpIdOrder C p) \<le> 2 \<and>
   (\<forall>v. usable_rpId C v \<longrightarrow> v \<in> set (unlockRpIdOrder C p)) \<and>
   (webauthnUnlockPossible C \<longrightarrow> (\<forall>v \<in> set (unlockRpIdOrder C p). usable_rpId C v))"
  by (cases "rc_platformRpId C")
    (auto simp: unlockRpIdOrder_def usable_rpId_def webauthnUnlockPossible_def Let_def)

lemma single_kind_costs_one_prompt:
  assumes "getPrfSecret prompt (hd (unlockRpIdOrder C p)) False = Inr r"
  shows "snd (getPrfSecretAcrossRpIds prompt (unlockRpIdOrder C p)) = [hd (unlockRpIdOrder C p)]"
  using assms unlock_order [of C p]
  by (cases "unlockRpIdOrder C p") (auto simp: getPrfSecret_def split: get_answer.splits option.splits)

text \<open>An answer that says "no key here", after which the next id is tried.\<close>

definition passes_over :: "get_answer \<Rightarrow> bool" where
  "passes_over a \<longleftrightarrow> a = Threw ''NotAllowedError'' \<or> a = Threw ''SecurityError''"

lemma across_tried: "set (snd (getPrfSecretAcrossRpIds prompt ids)) \<subseteq> set ids"
proof (induction ids)
  case (Cons rpId rest)
  obtain r tried where "getPrfSecretAcrossRpIds prompt rest = (r, tried)"
    by (cases "getPrfSecretAcrossRpIds prompt rest")
  with Cons show ?case
    by (cases "getPrfSecret prompt rpId (rest = [])") (auto split: prod.splits)
qed simp

lemma across_finds:
  assumes "v \<in> set ids" "distinct ids" "prompt v = Tapped raw (Some s)"
    and "\<forall>u \<in> set ids. u \<noteq> v \<longrightarrow> passes_over (prompt u)"
  shows "fst (getPrfSecretAcrossRpIds prompt ids) = Inr (raw, s, v)"
  using assms
proof (induction prompt ids rule: getPrfSecretAcrossRpIds.induct)
  case (2 prompt rpId rest)
  show ?case
  proof (cases "rpId = v")
    case True
    with 2 show ?thesis by (simp add: getPrfSecret_def)
  next
    case False
    then have "rest \<noteq> []" "passes_over (prompt rpId)" using 2 by auto
    with False 2 show ?thesis
      by (auto simp: getPrfSecret_def passes_over_def split: prod.splits)
  qed
qed simp

text \<open>A registered key is found whichever relying party id it was registered under. When a
  key answers under an id this browser can use and the other id has no key to offer (or may not be
  claimed), unlocking asks at most twice, only for usable ids, and returns the secret of that key.\<close>

lemma unlock_finds_the_key:
  assumes "usable_rpId C v" "prompt v = Tapped raw (Some s)"
    and "\<And>u. u \<noteq> v \<Longrightarrow> passes_over (prompt u)"
  shows "fst (getPrfSecretAcrossRpIds prompt (unlockRpIdOrder C p)) = Inr (raw, s, v) \<and>
    length (unlockRpIdOrder C p) \<le> 2 \<and>
    (\<forall>u \<in> set (snd (getPrfSecretAcrossRpIds prompt (unlockRpIdOrder C p))). usable_rpId C u)"
proof -
  have "webauthnUnlockPossible C"
    using assms(1) by (auto simp: webauthnUnlockPossible_def usable_rpId_def)
  with unlock_order [of C p] assms(1)
  have order: "v \<in> set (unlockRpIdOrder C p)" "distinct (unlockRpIdOrder C p)" "length (unlockRpIdOrder C p) \<le> 2"
    "\<forall>u \<in> set (unlockRpIdOrder C p). usable_rpId C u" by auto
  have "\<forall>u \<in> set (unlockRpIdOrder C p). u \<noteq> v \<longrightarrow> passes_over (prompt u)"
    using assms(3) by blast
  from across_finds [of v _ prompt, OF order(1,2) assms(2) this] order(3,4) across_tried
  show ?thesis by blast
qed

subsection \<open>Interception and its pause\<close>

text \<open>
  The state of \<open>webauthn-proxy-init.ts\<close>, with the calls that wait: attaching the proxy, detaching it and
  failing the requests in flight. A pause is \<open>Failing\<close> while it answers the requests in flight and
  \<open>Detaching\<close> while it detaches; a toggle that detaches waits too. \<open>px_replies\<close> lists the requests
  completed, in order, with whether they were answered by a pause.
\<close>

datatype proxy_task = Attaching "bool option" | Failing | DetachingForPause | Detaching

record proxy =
  px_pauseDepth :: nat
  px_pausedWhileAttached :: bool
  px_attached :: bool
  px_enabled :: bool
  px_inFlight :: "nat list"
  px_tasks :: "proxy_task list"
  px_replies :: "(nat \<times> bool) list"

definition fresh_proxy :: "bool \<Rightarrow> proxy" where
  "fresh_proxy enabled =
     \<lparr>px_pauseDepth = 0, px_pausedWhileAttached = False, px_attached = False, px_enabled = enabled,
      px_inFlight = [], px_tasks = [], px_replies = []\<rparr>"

definition begin_task :: "proxy_task \<Rightarrow> proxy \<Rightarrow> proxy" where
  "begin_task t s = s\<lparr>px_tasks := px_tasks s @ [t]\<rparr>"

definition initWebauthnProxy :: "bool option \<Rightarrow> proxy \<Rightarrow> proxy" where
  "initWebauthnProxy previous s =
     (if px_pauseDepth s > 0 then s\<lparr>px_pausedWhileAttached := True\<rparr>
      else if px_attached s then s
      else begin_task (Attaching previous) s)"

definition detachWebauthnProxy :: "proxy_task \<Rightarrow> proxy \<Rightarrow> proxy \<Rightarrow> proxy" where
  "detachWebauthnProxy t otherwise s = (if px_attached s then begin_task t s else otherwise)"

definition failInFlightRequests :: "proxy \<Rightarrow> proxy" where
  "failInFlightRequests s =
     s\<lparr>px_inFlight := [], px_replies := px_replies s @ map (\<lambda>r. (r, True)) (px_inFlight s)\<rparr>"

definition deepen :: "proxy \<Rightarrow> proxy" where
  "deepen s = s\<lparr>px_pauseDepth := Suc (px_pauseDepth s)\<rparr>"

definition pause_begins :: "proxy \<Rightarrow> proxy" where
  "pause_begins s =
     (if px_pauseDepth s = 0 \<and> px_attached s
      then begin_task Failing (failInFlightRequests (s\<lparr>px_pausedWhileAttached := True\<rparr>))
      else deepen s)"

definition resume_begins :: "proxy \<Rightarrow> proxy" where
  "resume_begins s =
     (let s1 = s\<lparr>px_pauseDepth := px_pauseDepth s - 1\<rparr>
      in if px_pauseDepth s1 = 0 \<and> px_pausedWhileAttached s1
         then let s2 = s1\<lparr>px_pausedWhileAttached := False\<rparr>
           in if px_enabled s2 then initWebauthnProxy None s2 else s2
         else s1)"

definition toggled :: "bool \<Rightarrow> proxy \<Rightarrow> proxy" where
  "toggled enabled s =
     (let s1 = s\<lparr>px_enabled := enabled\<rparr>
      in if enabled then initWebauthnProxy (Some (px_enabled s)) s1 else detachWebauthnProxy Detaching s1 s1)"

text \<open>A wait ends: \<open>ok\<close> is whether \<open>attach\<close> succeeded; on failure a toggle restores the flag it found.\<close>

fun task_ends :: "proxy_task \<Rightarrow> bool \<Rightarrow> proxy \<Rightarrow> proxy" where
  "task_ends (Attaching previous) ok s =
     (if ok then s\<lparr>px_attached := True\<rparr>
      else case previous of Some v \<Rightarrow> s\<lparr>px_enabled := v\<rparr> | None \<Rightarrow> s)"
| "task_ends Failing ok s = detachWebauthnProxy DetachingForPause (deepen s) s"
| "task_ends DetachingForPause ok s = deepen (s\<lparr>px_attached := False\<rparr>)"
| "task_ends Detaching ok s = s\<lparr>px_attached := False\<rparr>"

definition settle :: "proxy_task \<Rightarrow> bool \<Rightarrow> proxy \<Rightarrow> proxy" where
  "settle t ok s = task_ends t ok (s\<lparr>px_tasks := remove1 t (px_tasks s)\<rparr>)"

text \<open>A request handed over by the browser, and the handler's answer to it: a request a pause has
  answered is gone from the map and is not completed again.\<close>

definition request_arrives :: "nat \<Rightarrow> proxy \<Rightarrow> proxy" where
  "request_arrives r s = s\<lparr>px_inFlight := px_inFlight s @ [r]\<rparr>"

definition request_handled :: "nat \<Rightarrow> proxy \<Rightarrow> proxy" where
  "request_handled r s =
     (if r \<notin> set (px_inFlight s) then s
      else s\<lparr>px_inFlight := removeAll r (px_inFlight s), px_replies := px_replies s @ [(r, False)]\<rparr>)"

text \<open>
  The states a worker can reach, where the browser hands over requests under fresh numbers and only while
  the proxy is attached. \<open>serial\<close> runs are those in which no attach waits when a pause begins and
  none begins while a pause waits.
\<close>

definition pausing :: "proxy \<Rightarrow> bool" where
  "pausing s \<longleftrightarrow> Failing \<in> set (px_tasks s) \<or> DetachingForPause \<in> set (px_tasks s)"

definition attaching :: "proxy \<Rightarrow> bool" where
  "attaching s \<longleftrightarrow> (\<exists>v. Attaching v \<in> set (px_tasks s))"

inductive proxy_run :: "bool \<Rightarrow> proxy \<Rightarrow> bool" for serial :: bool where
  started: "proxy_run serial (if enabled then initWebauthnProxy None (fresh_proxy enabled) else fresh_proxy enabled)"
| paused: "proxy_run serial (pause_begins s)"
    if "proxy_run serial s" "serial \<longrightarrow> \<not> attaching s"
| resumed: "proxy_run serial (resume_begins s)"
    if "proxy_run serial s" "serial \<longrightarrow> \<not> pausing s"
| toggle: "proxy_run serial (toggled enabled s)"
    if "proxy_run serial s" "serial \<and> enabled \<longrightarrow> \<not> pausing s"
| settled: "proxy_run serial (settle t ok s)"
    if "proxy_run serial s" "t \<in> set (px_tasks s)"
| arrived: "proxy_run serial (request_arrives r s)"
    if "proxy_run serial s" "px_attached s" "r \<notin> set (px_inFlight s)" "r \<notin> fst ` set (px_replies s)"
| handled: "proxy_run serial (request_handled r s)"
    if "proxy_run serial s"

lemmas proxy_defs = fresh_proxy_def begin_task_def initWebauthnProxy_def detachWebauthnProxy_def
  failInFlightRequests_def deepen_def pause_begins_def resume_begins_def toggled_def settle_def
  request_arrives_def request_handled_def pausing_def attaching_def

lemma in_remove1: "x \<in> set (remove1 t xs) \<Longrightarrow> x \<in> set xs"
  using set_remove1_subset by fastforce

text \<open>Every request is completed once.\<close>

lemma replies_once:
  "proxy_run serial s \<Longrightarrow>
   distinct (map fst (px_replies s)) \<and> distinct (px_inFlight s) \<and> fst ` set (px_replies s) \<inter> set (px_inFlight s) = {}"
proof (induction rule: proxy_run.induct)
  case (settled s t ok)
  then show ?case by (cases t) (auto simp: proxy_defs split: option.splits)
qed (auto simp: proxy_defs Let_def comp_def distinct_removeAll)

text \<open>While a ceremony of its own is under way nothing is attached and nothing attaches.\<close>

lemma serial_pause_holds:
  "proxy_run serial s \<Longrightarrow> serial \<Longrightarrow>
   (px_pauseDepth s > 0 \<longrightarrow> \<not> px_attached s \<and> \<not> attaching s) \<and> (pausing s \<longrightarrow> \<not> attaching s)"
proof (induction rule: proxy_run.induct)
  case (settled s t ok)
  have rest: "attaching (s\<lparr>px_tasks := remove1 t (px_tasks s)\<rparr>) \<Longrightarrow> attaching s"
    "pausing (s\<lparr>px_tasks := remove1 t (px_tasks s)\<rparr>) \<Longrightarrow> pausing s"
    by (auto simp: attaching_def pausing_def dest: in_remove1)
  show ?case
    using settled rest
    by (cases t) (auto simp: settle_def detachWebauthnProxy_def deepen_def begin_task_def pausing_def attaching_def
        split: option.splits)
qed (auto simp: proxy_defs Let_def split: if_splits)

text \<open>The extension's own ceremony is not intercepted, and no request is answered twice. In a
  run where attaching and pausing do not overlap, whenever a pause is in force the proxy is detached and
  stays so until the resume, whatever toggles and requests come meanwhile; and in any run every request is
  completed at most once.\<close>

lemma pause_keeps_proxy_off:
  assumes "proxy_run serial s"
  shows "(serial \<and> px_pauseDepth s > 0 \<longrightarrow> \<not> px_attached s \<and> \<not> attaching s) \<and> distinct (map fst (px_replies s))"
  using assms serial_pause_holds replies_once by blast

definition paused_proxy :: proxy where
  "paused_proxy =
     settle DetachingForPause True (settle Failing True (pause_begins
       (request_arrives 7 (settle (Attaching None) True (initWebauthnProxy None (fresh_proxy True))))))"

lemma paused_proxy_run: "proxy_run True paused_proxy"
proof -
  let ?a = "initWebauthnProxy None (fresh_proxy True)"
  let ?b = "settle (Attaching None) True ?a"
  let ?c = "request_arrives 7 ?b"
  let ?d = "pause_begins ?c"
  let ?e = "settle Failing True ?d"
  have "proxy_run True ?a" using proxy_run.started [of True True] by simp
  then have "proxy_run True ?b" by (rule proxy_run.settled) (simp add: proxy_defs)
  then have "proxy_run True ?c" by (rule proxy_run.arrived) (simp_all add: proxy_defs)
  then have "proxy_run True ?d" by (rule proxy_run.paused) (simp add: proxy_defs)
  then have "proxy_run True ?e" by (rule proxy_run.settled) (simp add: proxy_defs)
  then have "proxy_run True (settle DetachingForPause True ?e)" by (rule proxy_run.settled) (simp add: proxy_defs)
  then show ?thesis by (simp add: paused_proxy_def)
qed

text \<open>Without that care: the attach at start-up is still waiting when a pause begins, and completes under
  it, so the extension intercepts its own unlock. And a toggle off and on in quick succession leaves the
  proxy detached although it is enabled.\<close>

lemma attach_completes_under_pause:
  "\<exists>s. proxy_run False s \<and> px_pauseDepth s > 0 \<and> px_attached s"
proof -
  let ?a = "initWebauthnProxy None (fresh_proxy True)"
  have "proxy_run False ?a" using proxy_run.started [of False True] by simp
  then have "proxy_run False (pause_begins ?a)" by (rule proxy_run.paused) simp
  then have "proxy_run False (settle (Attaching None) True (pause_begins ?a))"
    by (rule proxy_run.settled) (simp add: proxy_defs)
  moreover have "px_pauseDepth (settle (Attaching None) True (pause_begins ?a)) > 0"
    "px_attached (settle (Attaching None) True (pause_begins ?a))"
    by (simp_all add: proxy_defs)
  ultimately show ?thesis by blast
qed

lemma quick_toggle_leaves_detached:
  assumes "px_attached s" "px_pauseDepth s = 0"
  shows "\<not> px_attached (settle Detaching True (toggled True (toggled False s))) \<and>
    px_enabled (settle Detaching True (toggled True (toggled False s)))"
  using assms by (simp add: proxy_defs Let_def)

end
