(* ===== verification/Passkeys.thy ===== *)
theory Passkeys
  imports Entry_Data Bytes "HOL-Library.Sublist"
begin

text \<open>
  The passkey provider: which stored passkey answers a sign-in and where a new one is kept
  (\<open>packages/core/src/vault/passkey.ts\<close>), the check of the relying party against the page's origin
  (\<open>platform-extension/src/background/webauthn-json.ts\<close>), the two ceremonies and their handlers
  (\<open>webauthn-proxy.ts\<close>, \<open>webauthn-provider.ts\<close>) and what a placement does to the vault
  (\<open>passkey-store.ts\<close>).

  The handlers await cards, the unlock, the vault and the crypto host. These are the ports of a record,
  functions on an arbitrary world that may change in every call, so whatever else the extension does
  meanwhile is part of the world. Every call is logged with its answer. The platform's URL parser and
  the public suffix list are arguments; the options arrive as \<open>JSON.parse\<close> returns them, or as the
  message it throws.
\<close>

subsection \<open>Finding and placing passkeys\<close>

definition COSE_ES256 :: int where
  "COSE_ES256 = -7"

record passkey_match =
  pm_entryId :: string
  pm_passkey :: passkey

definition allow_set :: "string list option \<Rightarrow> string list option" where
  "allow_set ids = (case ids of Some (c # cs) \<Rightarrow> Some (c # cs) | _ \<Rightarrow> None)"

definition wanted_passkey :: "string \<Rightarrow> string list option \<Rightarrow> passkey \<Rightarrow> bool" where
  "wanted_passkey rpId allow p \<longleftrightarrow>
     pk_rpId p = rpId \<and> (case allow of None \<Rightarrow> True | Some ids \<Rightarrow> pk_credentialId p \<in> set ids)"

definition passkeys_in :: "string \<Rightarrow> string list option \<Rightarrow> entry \<Rightarrow> passkey_match list" where
  "passkeys_in rpId allow e =
     (case en_body e of
        Login d \<Rightarrow>
          (case lg_passkeys d of
             None \<Rightarrow> []
           | Some ps \<Rightarrow>
               if en_archivedAt e \<noteq> None then []
               else map (\<lambda>p. \<lparr>pm_entryId = en_id e, pm_passkey = p\<rparr>)
                      (filter (wanted_passkey rpId allow) ps))
      | _ \<Rightarrow> [])"

definition findPasskeys :: "entry list \<Rightarrow> string \<Rightarrow> string list option \<Rightarrow> passkey_match list" where
  "findPasskeys es rpId allowCredentialIds =
     concat (map (passkeys_in rpId (allow_set allowCredentialIds)) es)"

text \<open>A host equals another or is a subdomain of it.\<close>

definition within_domain :: "string \<Rightarrow> string \<Rightarrow> bool" where
  "within_domain host i \<longleftrightarrow> host = i \<or> suffix (CHR ''.'' # i) host"

definition loginCoversRpId :: "url_parser \<Rightarrow> string list \<Rightarrow> string \<Rightarrow> bool" where
  "loginCoversRpId url urls rpId =
     (let i = to_lower rpId
      in list_ex (\<lambda>u. u \<noteq> [] \<and>
           within_domain (to_lower (case url u of Some (_, host) \<Rightarrow> host | None \<Rightarrow> u)) i) urls)"

definition covers :: "url_parser \<Rightarrow> string \<Rightarrow> entry \<Rightarrow> bool" where
  "covers url rpId e \<longleftrightarrow>
     (case en_body e of
        Login d \<Rightarrow> en_archivedAt e = None \<and> loginCoversRpId url (lg_urls d) rpId
      | _ \<Rightarrow> False)"

definition loginsCoveringRpId :: "url_parser \<Rightarrow> entry list \<Rightarrow> string \<Rightarrow> entry list" where
  "loginsCoveringRpId url es rpId = filter (covers url rpId) es"

definition username_of :: "entry \<Rightarrow> string" where
  "username_of e = (case en_body e of Login d \<Rightarrow> lg_username d | _ \<Rightarrow> [])"

definition login_passkeys :: "entry \<Rightarrow> passkey list" where
  "login_passkeys e =
     (case en_body e of Login d \<Rightarrow> (case lg_passkeys d of Some ps \<Rightarrow> ps | None \<Rightarrow> []) | _ \<Rightarrow> [])"

definition passkeyAttachTarget :: "url_parser \<Rightarrow> entry list \<Rightarrow> string \<Rightarrow> string option \<Rightarrow> entry option" where
  "passkeyAttachTarget url es rpId userName =
     (let covering = loginsCoveringRpId url es rpId
      in if length covering \<le> 1 then (case covering of [] \<Rightarrow> None | e # _ \<Rightarrow> Some e)
         else case userName of
           None \<Rightarrow> None
         | Some n \<Rightarrow>
             (let uname = to_lower (trim n)
              in if uname = [] then None
                 else case filter (\<lambda>e. to_lower (trim (username_of e)) = uname) covering of
                   [e] \<Rightarrow> Some e
                 | _ \<Rightarrow> None))"

datatype placement = Attach string "passkey list" | CreateLogin entry_data

definition attachPasskeyTo :: "entry \<Rightarrow> passkey \<Rightarrow> placement" where
  "attachPasskeyTo e p = Attach (en_id e) (login_passkeys e @ [p])"

definition newPasskeyLogin :: "string \<Rightarrow> string option \<Rightarrow> passkey \<Rightarrow> placement" where
  "newPasskeyLogin rpId rpName p =
     CreateLogin \<lparr>en_name = (case rpName of Some n \<Rightarrow> if trim n \<noteq> [] then trim n else rpId | None \<Rightarrow> rpId),
       en_notes = None, en_customFields = None, en_createdAt = None, en_updatedAt = None,
       en_lastUsedAt = None, en_archivedAt = None, en_tags = None,
       en_body = Login \<lparr>lg_urls = [''https://'' @ rpId],
         lg_username = (case pk_userName p of Some n \<Rightarrow> n
           | None \<Rightarrow> (case pk_userDisplayName p of Some n \<Rightarrow> n | None \<Rightarrow> [])),
         lg_password = [], lg_totp = None, lg_breach = None, lg_autofillEnabled = None,
         lg_autoSubmit = None, lg_subdomainMatch = None, lg_passkeys = Some [p],
         lg_passwordChangelog = None\<rparr>\<rparr>"

definition planPasskeyPlacement ::
  "url_parser \<Rightarrow> entry list \<Rightarrow> string \<Rightarrow> string option \<Rightarrow> passkey \<Rightarrow> placement" where
  "planPasskeyPlacement url es rpId rpName p =
     (case passkeyAttachTarget url es rpId (pk_userName p) of
        Some e \<Rightarrow> attachPasskeyTo e p
      | None \<Rightarrow> newPasskeyLogin rpId rpName p)"

text \<open>What \<open>savePlacement\<close> makes of the decrypted entries; \<open>new_id\<close> is the random id it draws.\<close>

definition set_passkeys :: "passkey list \<Rightarrow> entry \<Rightarrow> entry" where
  "set_passkeys ps e =
     (case en_body e of Login d \<Rightarrow> e\<lparr>en_body := Login (d\<lparr>lg_passkeys := Some ps\<rparr>)\<rparr> | _ \<Rightarrow> e)"

fun place :: "string \<Rightarrow> placement \<Rightarrow> entry list \<Rightarrow> entry list" where
  "place new_id (CreateLogin d) es = es @ [with_id new_id d]"
| "place new_id (Attach i ps) es = map (\<lambda>e. if en_id e \<noteq> i then e else set_passkeys ps e) es"

subsection \<open>Requests, origins and client data\<close>

record creation_json =
  cj_rp :: "(string option \<times> string option) option"
  cj_user :: "(string option \<times> string option \<times> string option) option"
  cj_params :: "int option list option"
  cj_exclude :: "string option list option"
  cj_challenge :: "string option"

record request_json =
  rj_rpId :: "string option"
  rj_challenge :: "string option"
  rj_allow :: "string option list option"

record creation_options =
  co_rpId :: "string option"
  co_rpName :: "string option"
  co_userHandleB64Url :: string
  co_userName :: "string option"
  co_userDisplayName :: "string option"
  co_challenge :: string
  co_algs :: "int list"
  co_excludeCredentialsB64Url :: "string list"

record request_options =
  ro_rpId :: "string option"
  ro_challenge :: string
  ro_allowCredentialsB64Url :: "string list"

definition or_empty :: "string option \<Rightarrow> string" where
  "or_empty v = (case v of Some s \<Rightarrow> s | None \<Rightarrow> [])"

definition credential_ids :: "string option list option \<Rightarrow> string list" where
  "credential_ids v = (case v of None \<Rightarrow> [] | Some l \<Rightarrow> filter (\<lambda>s. s \<noteq> []) (List.map_filter (\<lambda>x. x) l))"

definition parseCreationOptions :: "creation_json \<Rightarrow> creation_options" where
  "parseCreationOptions j =
     (let (rp_id, rp_name) = (case cj_rp j of Some r \<Rightarrow> r | None \<Rightarrow> (None, None));
          (u_id, u_name, u_display) = (case cj_user j of Some u \<Rightarrow> u | None \<Rightarrow> (None, None, None))
      in \<lparr>co_rpId = rp_id, co_rpName = rp_name, co_userHandleB64Url = or_empty u_id,
          co_userName = u_name, co_userDisplayName = u_display, co_challenge = or_empty (cj_challenge j),
          co_algs = (case cj_params j of None \<Rightarrow> [] | Some ps \<Rightarrow> List.map_filter (\<lambda>a. a) ps),
          co_excludeCredentialsB64Url = credential_ids (cj_exclude j)\<rparr>)"

definition parseRequestOptions :: "request_json \<Rightarrow> request_options" where
  "parseRequestOptions j =
     \<lparr>ro_rpId = rj_rpId j, ro_challenge = or_empty (rj_challenge j),
      ro_allowCredentialsB64Url = credential_ids (rj_allow j)\<rparr>"

record web =
  wb_url :: url_parser
  wb_getDomain :: "string \<Rightarrow> string option"

text \<open>A failure as the page sees it: the name and the message of a \<open>DOMException\<close>.\<close>

type_synonym dom_error = "string \<times> string"

definition not_allowed :: "string \<Rightarrow> dom_error" where
  "not_allowed m = (''NotAllowedError'', m)"

definition originHostname :: "web \<Rightarrow> string \<Rightarrow> string option" where
  "originHostname W origin = map_option (to_lower \<circ> snd) (wb_url W origin)"

definition defaultRpId :: "string \<Rightarrow> string" where
  "defaultRpId host = to_lower host"

definition isRegistrableSuffix :: "web \<Rightarrow> string \<Rightarrow> string \<Rightarrow> bool" where
  "isRegistrableSuffix W originHost rpId =
     (if rpId = [] then False
      else let host = to_lower originHost; i = to_lower rpId
        in if \<not> within_domain host i then False
           else if i = ''localhost'' then True
           else wb_getDomain W i \<noteq> None)"

definition resolveRpId :: "web \<Rightarrow> string \<Rightarrow> string option \<Rightarrow> dom_error + string" where
  "resolveRpId W origin requested =
     (if origin = [] then Inl (not_allowed ''request has no origin'')
      else case originHostname W origin of
        None \<Rightarrow> Inl (not_allowed ''Invalid URL'')
      | Some host \<Rightarrow>
          (let rpId = (case requested of Some r \<Rightarrow> r | None \<Rightarrow> defaultRpId host)
           in if isRegistrableSuffix W host rpId then Inr rpId
              else Inl (''SecurityError'', ''rpId '' @ rpId @ '' is not valid for origin '' @ origin)))"

definition clientDataJson :: "string \<Rightarrow> string \<Rightarrow> string \<Rightarrow> string" where
  "clientDataJson typ challenge origin =
     json_object [(''type'', json_string typ), (''challenge'', json_string challenge),
       (''origin'', json_string origin), (''crossOrigin'', ''false'')]"

definition text_bytes :: "string \<Rightarrow> bytes" where
  "text_bytes s = map byte (utf8_bytes (map of_char s))"

record registration =
  rg_credentialId :: string
  rg_publicKeyCose :: string
  rg_privateKey :: string
  rg_attestationObject :: string
  rg_authenticatorData :: string
  rg_publicKey :: string

record assertion =
  as_authenticatorData :: string
  as_signature :: string

definition response_json :: "string \<Rightarrow> (string \<times> string) list \<Rightarrow> string" where
  "response_json credentialId response =
     (let i = json_string (base64ToBase64Url credentialId)
      in json_object [(''id'', i), (''rawId'', i), (''type'', json_string ''public-key''),
           (''authenticatorAttachment'', json_string ''platform''),
           (''response'', json_object response), (''clientExtensionResults'', ''{}'')])"

definition registrationResponseJSON :: "registration \<Rightarrow> string \<Rightarrow> string" where
  "registrationResponseJSON r clientDataB64Url =
     response_json (rg_credentialId r)
       [(''clientDataJSON'', json_string clientDataB64Url),
        (''attestationObject'', json_string (base64ToBase64Url (rg_attestationObject r))),
        (''authenticatorData'', json_string (base64ToBase64Url (rg_authenticatorData r))),
        (''transports'', json_array [json_string ''internal'', json_string ''hybrid'']),
        (''publicKeyAlgorithm'', ''-7''),
        (''publicKey'', json_string (base64ToBase64Url (rg_publicKey r)))]"

definition authenticationResponseJSON :: "string \<Rightarrow> assertion \<Rightarrow> string \<Rightarrow> string \<Rightarrow> string" where
  "authenticationResponseJSON credentialId a clientDataB64Url userHandle =
     response_json credentialId
       [(''clientDataJSON'', json_string clientDataB64Url),
        (''authenticatorData'', json_string (base64ToBase64Url (as_authenticatorData a))),
        (''signature'', json_string (base64ToBase64Url (as_signature a))),
        (''userHandle'', if userHandle \<noteq> [] then json_string (base64ToBase64Url userHandle) else ''null'')]"

subsection \<open>The ceremonies\<close>

record card =
  ca_existingLoginName :: "string option"
  ca_candidates :: "(string \<times> string \<times> string) list option"
  ca_passkeyChoices :: "(string \<times> string) list option"

record card_reply =
  cr_approved :: bool
  cr_choice :: "string option"

datatype create_choice = NewLogin | ToLogin string

datatype decision = Declined | Approved bool "string option" "create_choice option"

datatype passkey_event =
    CardShown card card_reply
  | UnlockAwaited bool
  | EntriesLoaded "string + entry list"
  | Minted string bool "string + registration"
  | PlacementSaved placement "string + unit"
  | SavedNotice string string bool
  | Signed string string int string bool "string + assertion"

record 'w passkey_ports =
  pp_tab :: "'w \<Rightarrow> nat option \<times> 'w"
  pp_locked :: "'w \<Rightarrow> bool"
  pp_showCard :: "card \<Rightarrow> 'w \<Rightarrow> card_reply \<times> 'w"
  pp_ensureUnlocked :: "'w \<Rightarrow> bool \<times> 'w"
  pp_loadEntries :: "'w \<Rightarrow> (string + entry list) \<times> 'w"
  pp_make :: "string \<Rightarrow> bool \<Rightarrow> 'w \<Rightarrow> (string + registration) \<times> 'w"
  pp_sign :: "string \<Rightarrow> string \<Rightarrow> int \<Rightarrow> string \<Rightarrow> bool \<Rightarrow> 'w \<Rightarrow> (string + assertion) \<times> 'w"
  pp_save :: "placement \<Rightarrow> 'w \<Rightarrow> (string + unit) \<times> 'w"
  pp_now :: "'w \<Rightarrow> nat"
  pp_sha256 :: "bytes \<Rightarrow> string"

record 'w passkey_run =
  pr_world :: 'w
  pr_log :: "passkey_event list"

definition logged :: "('a \<Rightarrow> passkey_event) \<Rightarrow> ('w \<Rightarrow> 'a \<times> 'w) \<Rightarrow> 'w passkey_run \<Rightarrow> 'a \<times> 'w passkey_run" where
  "logged ev port s =
     (let (a, w) = port (pr_world s) in (a, s\<lparr>pr_world := w, pr_log := pr_log s @ [ev a]\<rparr>))"

definition plain_card :: card where
  "plain_card = \<lparr>ca_existingLoginName = None, ca_candidates = None, ca_passkeyChoices = None\<rparr>"

definition showCard :: "'w passkey_ports \<Rightarrow> card \<Rightarrow> 'w passkey_run \<Rightarrow> card_reply \<times> 'w passkey_run" where
  "showCard P c = logged (CardShown c) (pp_showCard P c)"

definition loadEntries :: "'w passkey_ports \<Rightarrow> 'w passkey_run \<Rightarrow> (string + entry list) \<times> 'w passkey_run" where
  "loadEntries P = logged EntriesLoaded (pp_loadEntries P)"

definition confirm_unlock :: "'w passkey_ports \<Rightarrow> bool \<Rightarrow> 'w passkey_run \<Rightarrow> bool \<times> 'w passkey_run" where
  "confirm_unlock P startedLocked s =
     (if \<not> startedLocked then (True, s)
      else let (r, s1) = showCard P plain_card s
        in if \<not> cr_approved r then (False, s1)
           else logged UnlockAwaited (pp_ensureUnlocked P) s1)"

definition entries_or_none :: "string + entry list \<Rightarrow> entry list" where
  "entries_or_none l = (case l of Inr es \<Rightarrow> es | Inl _ \<Rightarrow> [])"

definition passkeyLabel :: "passkey \<Rightarrow> string" where
  "passkeyLabel p =
     (if trim (or_empty (pk_userName p)) \<noteq> [] then trim (or_empty (pk_userName p))
      else if trim (or_empty (pk_userDisplayName p)) \<noteq> [] then trim (or_empty (pk_userDisplayName p))
      else ''Passkey'')"

definition match_id :: "passkey_match \<Rightarrow> string" where
  "match_id m = pk_credentialId (pm_passkey m)"

definition runGetCeremony ::
  "'w passkey_ports \<Rightarrow> string \<Rightarrow> string list option \<Rightarrow> bool \<Rightarrow> 'w passkey_run \<Rightarrow> decision \<times> 'w passkey_run" where
  "runGetCeremony P rpId allowCredentials startedLocked s =
     (let (ok, s1) = confirm_unlock P startedLocked s
      in if \<not> ok then (Declined, s1)
         else let (loaded, s2) = loadEntries P s1;
                  matches = findPasskeys (entries_or_none loaded) rpId allowCredentials
           in if matches = [] then
                (if startedLocked then (Approved True None None, s2)
                 else let (r, s3) = showCard P plain_card s2
                   in (if cr_approved r then Approved True None None else Declined, s3))
              else if startedLocked \<and> length matches = 1
                then (Approved True (Some (match_id (hd matches))) None, s2)
              else let (r, s3) = showCard P (plain_card\<lparr>ca_passkeyChoices :=
                          Some (map (\<lambda>m. (match_id m, passkeyLabel (pm_passkey m))) matches)\<rparr>) s2
                in (if cr_approved r
                    then Approved True (Some (case cr_choice r of Some c \<Rightarrow> c | None \<Rightarrow> match_id (hd matches))) None
                    else Declined, s3))"

definition runCreateCeremony ::
  "url_parser \<Rightarrow> 'w passkey_ports \<Rightarrow> string \<Rightarrow> string option \<Rightarrow> bool \<Rightarrow> 'w passkey_run \<Rightarrow> decision \<times> 'w passkey_run" where
  "runCreateCeremony url P rpId userName startedLocked s =
     (let (ok, s1) = confirm_unlock P startedLocked s
      in if \<not> ok then (Declined, s1)
         else let (loaded, s2) = loadEntries P s1;
                  es = entries_or_none loaded;
                  candidates = loginsCoveringRpId url es rpId
           in case passkeyAttachTarget url es rpId userName of
                Some target \<Rightarrow>
                  (let answer = Approved True None (Some (ToLogin (en_id target)))
                   in if startedLocked then (answer, s2)
                      else let (r, s3) = showCard P (plain_card\<lparr>ca_existingLoginName := Some (en_name target)\<rparr>) s2
                        in (if cr_approved r then answer else Declined, s3))
              | None \<Rightarrow>
                  (if candidates = [] then
                     (let answer = Approved True None (Some NewLogin)
                      in if startedLocked then (answer, s2)
                         else let (r, s3) = showCard P plain_card s2
                           in (if cr_approved r then answer else Declined, s3))
                   else let (r, s3) = showCard P (plain_card\<lparr>ca_candidates :=
                               Some (map (\<lambda>c. (en_id c, en_name c, username_of c)) candidates)\<rparr>) s2
                     in (if cr_approved r
                         then Approved True None (Some
                           (case cr_choice r of
                              Some c \<Rightarrow> if c \<noteq> [] \<and> c \<noteq> ''new'' then ToLogin c else NewLogin
                            | None \<Rightarrow> NewLogin))
                         else Declined, s3)))"

text \<open>\<open>cornerCeremonyForTab\<close>: the card needs a tab, and the lock state is read once.\<close>

definition cornerCeremony ::
  "'w passkey_ports \<Rightarrow> (bool \<Rightarrow> 'w passkey_run \<Rightarrow> decision \<times> 'w passkey_run) \<Rightarrow> 'w passkey_run \<Rightarrow> decision \<times> 'w passkey_run" where
  "cornerCeremony P ceremony s =
     (let (tab, w) = pp_tab P (pr_world s); s1 = s\<lparr>pr_world := w\<rparr>
      in case tab of None \<Rightarrow> (Declined, s1) | Some _ \<Rightarrow> ceremony (pp_locked P w) s1)"

subsection \<open>The handlers\<close>

definition resolveCreatePlan ::
  "url_parser \<Rightarrow> create_choice option \<Rightarrow> entry list \<Rightarrow> string \<Rightarrow> string option \<Rightarrow> passkey \<Rightarrow> placement" where
  "resolveCreatePlan url choice es rpId rpName credential =
     (case choice of
        Some NewLogin \<Rightarrow> newPasskeyLogin rpId rpName credential
      | Some (ToLogin i) \<Rightarrow>
          (case find (\<lambda>e. (case en_body e of Login _ \<Rightarrow> True | _ \<Rightarrow> False) \<and> en_id e = i) es of
             Some target \<Rightarrow> attachPasskeyTo target credential
           | None \<Rightarrow> planPasskeyPlacement url es rpId rpName credential)
      | None \<Rightarrow> planPasskeyPlacement url es rpId rpName credential)"

definition new_credential :: "string \<Rightarrow> creation_options \<Rightarrow> registration \<Rightarrow> nat \<Rightarrow> passkey" where
  "new_credential rpId opts reg now =
     \<lparr>pk_credentialId = rg_credentialId reg, pk_rpId = rpId, pk_rpName = co_rpName opts,
      pk_userHandle = base64UrlToBase64 (co_userHandleB64Url opts), pk_userName = co_userName opts,
      pk_userDisplayName = co_userDisplayName opts, pk_alg = COSE_ES256,
      pk_publicKeyCose = rg_publicKeyCose reg, pk_privateKey = rg_privateKey reg, pk_signCount = 0,
      pk_createdAt = now, pk_lastUsedAt = None\<rparr>"

definition saved_name :: "string \<Rightarrow> entry list \<Rightarrow> placement \<Rightarrow> string" where
  "saved_name rpId es plan =
     (case plan of
        CreateLogin d \<Rightarrow> en_name d
      | Attach i _ \<Rightarrow> (case find (\<lambda>e. en_id e = i) es of Some e \<Rightarrow> en_name e | None \<Rightarrow> rpId))"

definition is_create :: "placement \<Rightarrow> bool" where
  "is_create plan = (case plan of CreateLogin _ \<Rightarrow> True | _ \<Rightarrow> False)"

text \<open>The handler from the user's approval on: the exclusion check, the new key, its placement.\<close>

definition mint_and_save ::
  "web \<Rightarrow> 'w passkey_ports \<Rightarrow> creation_options \<Rightarrow> string \<Rightarrow> string \<Rightarrow> bool \<Rightarrow> create_choice option \<Rightarrow>
   'w passkey_run \<Rightarrow> (dom_error + string) \<times> 'w passkey_run" where
  "mint_and_save W P opts origin rpId uv choice s =
     (case loadEntries P s of
        (Inl m, s1) \<Rightarrow> (Inl (not_allowed m), s1)
      | (Inr es, s1) \<Rightarrow>
          (let excluded = map base64UrlToBase64 (co_excludeCredentialsB64Url opts)
           in if excluded \<noteq> [] \<and> findPasskeys es rpId (Some excluded) \<noteq> []
              then (Inl (''InvalidStateError'', ''a passkey for this account is already stored''), s1)
              else case logged (Minted rpId uv) (pp_make P rpId uv) s1 of
                (Inl m, s2) \<Rightarrow> (Inl (not_allowed m), s2)
              | (Inr reg, s2) \<Rightarrow>
                  (let credential = new_credential rpId opts reg (pp_now P (pr_world s2));
                       plan = resolveCreatePlan (wb_url W) choice es rpId (co_rpName opts) credential
                   in case logged (PlacementSaved plan) (pp_save P plan) s2 of
                        (Inl m, s3) \<Rightarrow> (Inl (not_allowed m), s3)
                      | (Inr _, s3) \<Rightarrow>
                          (Inr (registrationResponseJSON reg
                             (bytesToBase64Url (text_bytes (clientDataJson ''webauthn.create'' (co_challenge opts) origin)))),
                           s3\<lparr>pr_log := pr_log s3 @ [SavedNotice rpId (saved_name rpId es plan) (is_create plan)]\<rparr>))))"

definition handleCreate ::
  "web \<Rightarrow> 'w passkey_ports \<Rightarrow> string + creation_json \<Rightarrow> string \<Rightarrow> 'w passkey_run \<Rightarrow>
   (dom_error + string) \<times> 'w passkey_run" where
  "handleCreate W P request origin s =
     (case request of
        Inl m \<Rightarrow> (Inl (not_allowed m), s)
      | Inr j \<Rightarrow>
          (let opts = parseCreationOptions j
           in case resolveRpId W origin (co_rpId opts) of
                Inl e \<Rightarrow> (Inl e, s)
              | Inr rpId \<Rightarrow>
                  if COSE_ES256 \<notin> set (co_algs opts)
                  then (Inl (''NotSupportedError'', ''only ES256 (-7) is supported''), s)
                  else case cornerCeremony P (runCreateCeremony (wb_url W) P rpId (co_userName opts)) s of
                    (Declined, s1) \<Rightarrow> (Inl (not_allowed ''user declined''), s1)
                  | (Approved uv _ choice, s1) \<Rightarrow> mint_and_save W P opts origin rpId uv choice s1))"

definition chosen_match :: "string option \<Rightarrow> passkey_match list \<Rightarrow> passkey_match option" where
  "chosen_match credentialId matches =
     (case find (\<lambda>m. Some (match_id m) = credentialId) matches of
        Some m \<Rightarrow> Some m
      | None \<Rightarrow> (case matches of [] \<Rightarrow> None | m # _ \<Rightarrow> Some m))"

definition allow_list :: "string list \<Rightarrow> string list option" where
  "allow_list ids = (if ids \<noteq> [] then Some ids else None)"

text \<open>The handler from the user's approval on: the chosen passkey signs the client data.\<close>

definition sign_chosen ::
  "'w passkey_ports \<Rightarrow> request_options \<Rightarrow> string \<Rightarrow> string \<Rightarrow> bool \<Rightarrow> string option \<Rightarrow>
   'w passkey_run \<Rightarrow> (dom_error + string) \<times> 'w passkey_run" where
  "sign_chosen P opts origin rpId uv credentialId s =
     (let allowStd = map base64UrlToBase64 (ro_allowCredentialsB64Url opts);
          allow = (case credentialId of
                     Some c \<Rightarrow> if c \<noteq> [] then Some [c] else allow_list allowStd
                   | None \<Rightarrow> allow_list allowStd)
      in case loadEntries P s of
           (Inl m, s1) \<Rightarrow> (Inl (not_allowed m), s1)
         | (Inr es, s1) \<Rightarrow>
             (case chosen_match credentialId (findPasskeys es rpId allow) of
                None \<Rightarrow> (Inl (not_allowed ''no matching passkey''), s1)
              | Some chosen \<Rightarrow>
                  (let p = pm_passkey chosen;
                       clientData = text_bytes (clientDataJson ''webauthn.get'' (ro_challenge opts) origin);
                       hash = pp_sha256 P clientData
                   in case logged (Signed rpId (pk_privateKey p) (pk_alg p) hash uv)
                            (pp_sign P rpId (pk_privateKey p) (pk_alg p) hash uv) s1 of
                        (Inl m, s2) \<Rightarrow> (Inl (not_allowed m), s2)
                      | (Inr a, s2) \<Rightarrow>
                          (Inr (authenticationResponseJSON (pk_credentialId p) a
                             (bytesToBase64Url clientData) (pk_userHandle p)), s2))))"

definition handleGet ::
  "web \<Rightarrow> 'w passkey_ports \<Rightarrow> string + request_json \<Rightarrow> string \<Rightarrow> 'w passkey_run \<Rightarrow>
   (dom_error + string) \<times> 'w passkey_run" where
  "handleGet W P request origin s =
     (case request of
        Inl m \<Rightarrow> (Inl (not_allowed m), s)
      | Inr j \<Rightarrow>
          (let opts = parseRequestOptions j
           in case resolveRpId W origin (ro_rpId opts) of
                Inl e \<Rightarrow> (Inl e, s)
              | Inr rpId \<Rightarrow>
                  (case cornerCeremony P (runGetCeremony P rpId
                          (allow_list (map base64UrlToBase64 (ro_allowCredentialsB64Url opts)))) s of
                     (Declined, s1) \<Rightarrow> (Inl (not_allowed ''user declined''), s1)
                   | (Approved uv credentialId _, s1) \<Rightarrow> sign_chosen P opts origin rpId uv credentialId s1)))"


subsection \<open>What a run of a handler logs\<close>

fun is_quiet :: "passkey_event \<Rightarrow> bool" where
  "is_quiet (CardShown _ _) = True"
| "is_quiet (UnlockAwaited _) = True"
| "is_quiet (EntriesLoaded _) = True"
| "is_quiet _ = False"

fun is_approval :: "passkey_event \<Rightarrow> bool" where
  "is_approval (CardShown _ r) = cr_approved r"
| "is_approval _ = False"

fun is_pick :: "string \<Rightarrow> passkey_event \<Rightarrow> bool" where
  "is_pick i (CardShown _ r) = (cr_approved r \<and> cr_choice r = Some i)"
| "is_pick i _ = False"

definition live_passkey :: "entry list \<Rightarrow> passkey \<Rightarrow> bool" where
  "live_passkey es p \<longleftrightarrow> list_ex (\<lambda>e. en_archivedAt e = None \<and> p \<in> set (login_passkeys e)) es"

definition rp_allowed :: "web \<Rightarrow> string \<Rightarrow> string \<Rightarrow> bool" where
  "rp_allowed W origin rpId \<longleftrightarrow>
     (case wb_url W origin of
        None \<Rightarrow> False
      | Some (_, host) \<Rightarrow>
          rpId \<noteq> [] \<and> within_domain (to_lower host) (to_lower rpId) \<and>
          (to_lower rpId = ''localhost'' \<or> wb_getDomain W (to_lower rpId) \<noteq> None))"

lemma resolved_rp_allowed: "resolveRpId W origin r = Inr rpId \<Longrightarrow> rp_allowed W origin rpId"
  by (auto simp: resolveRpId_def originHostname_def isRegistrableSuffix_def rp_allowed_def Let_def
      split: if_splits option.splits)

lemma logged_log:
  "logged ev port s = (a, s') \<Longrightarrow> pr_log s' = pr_log s @ [ev a]"
  by (auto simp: logged_def split: prod.splits)

lemma passkeys_in_login:
  "passkeys_in rpId allow e =
     (if en_archivedAt e \<noteq> None then []
      else map (\<lambda>p. \<lparr>pm_entryId = en_id e, pm_passkey = p\<rparr>)
        (filter (wanted_passkey rpId allow) (login_passkeys e)))"
  by (auto simp: passkeys_in_def login_passkeys_def split: entry_body.splits option.splits)

lemma set_findPasskeys:
  "m \<in> set (findPasskeys es rpId allow) \<longleftrightarrow>
     (\<exists>e \<in> set es. en_archivedAt e = None \<and> pm_entryId m = en_id e \<and> pm_passkey m \<in> set (login_passkeys e) \<and>
       wanted_passkey rpId (allow_set allow) (pm_passkey m))"
  by (cases m) (auto simp: findPasskeys_def passkeys_in_login split: if_splits)

lemma findPasskeys_live:
  assumes "m \<in> set (findPasskeys es rpId allow)"
  shows "live_passkey es (pm_passkey m) \<and> pk_rpId (pm_passkey m) = rpId \<and>
    (\<forall>ids. allow = Some ids \<longrightarrow> ids = [] \<or> match_id m \<in> set ids)"
  using assms
  by (auto simp: set_findPasskeys live_passkey_def list_ex_iff wanted_passkey_def match_id_def allow_set_def
      split: list.splits)

lemma findPasskeys_none:
  assumes "findPasskeys es rpId (Some ids) = []" "live_passkey es p" "pk_rpId p = rpId"
  shows "pk_credentialId p \<notin> set ids"
proof
  assume i: "pk_credentialId p \<in> set ids"
  from assms(2) obtain e where "e \<in> set es" "en_archivedAt e = None" "p \<in> set (login_passkeys e)"
    by (auto simp: live_passkey_def list_ex_iff)
  with i assms(3) have "\<lparr>pm_entryId = en_id e, pm_passkey = p\<rparr> \<in> set (findPasskeys es rpId (Some ids))"
    by (cases ids) (auto simp: set_findPasskeys wanted_passkey_def allow_set_def)
  with assms(1) show False by simp
qed

text \<open>Consent: an approved card, and the unlock where the ceremony began locked.\<close>

definition consented :: "bool \<Rightarrow> passkey_event list \<Rightarrow> bool" where
  "consented locked evs \<longleftrightarrow>
     list_all is_quiet evs \<and> list_ex is_approval evs \<and> (locked \<longrightarrow> UnlockAwaited True \<in> set evs)"

lemma confirm_unlock_log:
  assumes "confirm_unlock P locked s = (ok, s')"
  shows "\<exists>evs. pr_log s' = pr_log s @ evs \<and> list_all is_quiet evs \<and>
    (ok \<longrightarrow> locked \<longrightarrow> list_ex is_approval evs \<and> UnlockAwaited True \<in> set evs)"
  using assms
  by (auto simp: confirm_unlock_def showCard_def split: if_splits prod.splits dest!: logged_log)

lemma loadEntries_log: "loadEntries P s = (l, s') \<Longrightarrow> pr_log s' = pr_log s @ [EntriesLoaded l]"
  by (auto simp: loadEntries_def dest: logged_log)

lemma showCard_log: "showCard P c s = (r, s') \<Longrightarrow> pr_log s' = pr_log s @ [CardShown c r]"
  by (auto simp: showCard_def dest: logged_log)

lemma get_ceremony_log:
  assumes "runGetCeremony P rpId allow locked s = (d, s')"
  shows "\<exists>evs. pr_log s' = pr_log s @ evs \<and> list_all is_quiet evs \<and>
    (\<forall>uv c k. d = Approved uv c k \<longrightarrow> consented locked evs \<and> uv \<and>
      (\<forall>i. c = Some i \<longrightarrow> list_ex (is_pick i) evs \<or>
        (\<forall>ids. allow = Some ids \<longrightarrow> ids = [] \<or> i \<in> set ids)))"
proof -
  obtain ok s1 where c: "confirm_unlock P locked s = (ok, s1)" by (cases "confirm_unlock P locked s")
  from confirm_unlock_log [OF c] obtain e1 where e1:
    "pr_log s1 = pr_log s @ e1" "list_all is_quiet e1"
    "ok \<longrightarrow> locked \<longrightarrow> list_ex is_approval e1 \<and> UnlockAwaited True \<in> set e1" by blast
  obtain l s2 where l: "loadEntries P s1 = (l, s2)" by (cases "loadEntries P s1")
  note l' = loadEntries_log [OF l]
  let ?ms = "findPasskeys (entries_or_none l) rpId allow"
  have hd: "?ms \<noteq> [] \<Longrightarrow> \<forall>ids. allow = Some ids \<longrightarrow> ids = [] \<or> match_id (hd ?ms) \<in> set ids"
    using findPasskeys_live [OF hd_in_set] by blast
  show ?thesis
  proof (cases ok)
    case False
    with assms c e1 show ?thesis by (auto simp: runGetCeremony_def)
  next
    case True
    show ?thesis
      using assms True e1 l' hd
      by (auto simp: runGetCeremony_def c l Let_def consented_def
          split: if_splits prod.splits option.splits dest!: showCard_log)
  qed
qed

lemma create_ceremony_log:
  assumes "runCreateCeremony url P rpId userName locked s = (d, s')"
  shows "\<exists>evs. pr_log s' = pr_log s @ evs \<and> list_all is_quiet evs \<and>
    (\<forall>uv c k. d = Approved uv c k \<longrightarrow> consented locked evs \<and> uv)"
proof -
  obtain ok s1 where c: "confirm_unlock P locked s = (ok, s1)" by (cases "confirm_unlock P locked s")
  from confirm_unlock_log [OF c] obtain e1 where e1:
    "pr_log s1 = pr_log s @ e1" "list_all is_quiet e1"
    "ok \<longrightarrow> locked \<longrightarrow> list_ex is_approval e1 \<and> UnlockAwaited True \<in> set e1" by blast
  obtain l s2 where l: "loadEntries P s1 = (l, s2)" by (cases "loadEntries P s1")
  note l' = loadEntries_log [OF l]
  show ?thesis
  proof (cases ok)
    case False
    with assms c e1 show ?thesis by (auto simp: runCreateCeremony_def)
  next
    case True
    show ?thesis
      using assms True e1 l'
      by (auto simp: runCreateCeremony_def c l Let_def consented_def
          split: if_splits prod.splits option.splits dest!: showCard_log)
  qed
qed

text \<open>The lock state a ceremony begins with.\<close>

definition starts_locked :: "'w passkey_ports \<Rightarrow> 'w passkey_run \<Rightarrow> bool" where
  "starts_locked P s = pp_locked P (snd (pp_tab P (pr_world s)))"

lemma corner_ceremony_log:
  assumes "cornerCeremony P ceremony s = (Approved uv c k, s')"
  obtains s1 where "pr_log s1 = pr_log s" "ceremony (starts_locked P s) s1 = (Approved uv c k, s')"
proof (rule that)
  let ?s1 = "s\<lparr>pr_world := snd (pp_tab P (pr_world s))\<rparr>"
  show "pr_log ?s1 = pr_log s" by simp
  show "ceremony (starts_locked P s) ?s1 = (Approved uv c k, s')"
    using assms by (auto simp: cornerCeremony_def starts_locked_def Let_def split: prod.splits option.splits)
qed

lemma corner_ceremony_declined:
  assumes "cornerCeremony P ceremony s = (Declined, s')"
    and "\<And>locked s1 s'. ceremony locked s1 = (Declined, s') \<Longrightarrow> \<exists>evs. pr_log s' = pr_log s1 @ evs \<and> list_all is_quiet evs"
  shows "\<exists>evs. pr_log s' = pr_log s @ evs \<and> list_all is_quiet evs"
  using assms(1)
  by (auto simp: cornerCeremony_def Let_def split: prod.splits option.splits dest!: assms(2))

lemma consented_append:
  "consented locked evs \<Longrightarrow> list_all is_quiet later \<Longrightarrow> consented locked (evs @ later)"
  by (auto simp: consented_def)

subsection \<open>Signing in\<close>

text \<open>A signature over the client data of this request at this origin, with a stored passkey of the
  relying party, after the user approved a card.\<close>

definition signature_for ::
  "web \<Rightarrow> 'w passkey_ports \<Rightarrow> request_options \<Rightarrow> string \<Rightarrow> bool \<Rightarrow> passkey_event list \<Rightarrow> passkey_event \<Rightarrow> bool" where
  "signature_for W P opts origin locked before ev \<longleftrightarrow>
     (\<exists>rpId es p result.
        ev = Signed rpId (pk_privateKey p) (pk_alg p)
          (pp_sha256 P (text_bytes (clientDataJson ''webauthn.get'' (ro_challenge opts) origin))) True result \<and>
        rp_allowed W origin rpId \<and> pk_rpId p = rpId \<and>
        live_passkey es p \<and> before \<noteq> [] \<and> last before = EntriesLoaded (Inr es) \<and>
        consented locked before \<and>
        (ro_allowCredentialsB64Url opts = [] \<or> list_ex (is_pick (pk_credentialId p)) before \<or>
         pk_credentialId p \<in> set (map base64UrlToBase64 (ro_allowCredentialsB64Url opts))))"

lemma sign_chosen_log:
  assumes "sign_chosen P opts origin rpId True c s = (res, s')" "rp_allowed W origin rpId"
    and "pr_log s = l0 @ evs" "consented locked evs"
    and "\<forall>i. c = Some i \<longrightarrow> list_ex (is_pick i) evs \<or>
       ro_allowCredentialsB64Url opts = [] \<or> i \<in> set (map base64UrlToBase64 (ro_allowCredentialsB64Url opts))"
  shows "\<exists>before. pr_log s' = l0 @ before \<and> list_all is_quiet before \<and> (\<exists>e. res = Inl e) \<or>
    (\<exists>before ev. pr_log s' = l0 @ before @ [ev] \<and> signature_for W P opts origin locked before ev)"
proof -
  define allow where "allow = (case c of Some i \<Rightarrow> if i \<noteq> [] then Some [i]
      else allow_list (map base64UrlToBase64 (ro_allowCredentialsB64Url opts))
    | None \<Rightarrow> allow_list (map base64UrlToBase64 (ro_allowCredentialsB64Url opts)))"
  obtain l s1 where l: "loadEntries P s = (l, s1)" by (cases "loadEntries P s")
  note l' = loadEntries_log [OF l]
  show ?thesis
  proof (cases l)
    case (Inl m)
    with assms(1,3,4) l l' show ?thesis by (auto simp: sign_chosen_def consented_def)
  next
    case (Inr es)
    let ?ms = "findPasskeys es rpId allow"
    show ?thesis
    proof (cases "chosen_match c ?ms")
      case None
      with assms(1,3,4) l l' Inr show ?thesis
        by (auto simp: sign_chosen_def consented_def Let_def simp flip: allow_def)
    next
      case (Some m)
      let ?p = "pm_passkey m"
      have m: "m \<in> set ?ms"
        using Some by (auto simp: chosen_match_def find_Some_iff split: option.splits list.splits)
      note live = findPasskeys_live [OF m]
      have picked: "ro_allowCredentialsB64Url opts = [] \<or> list_ex (is_pick (pk_credentialId ?p)) evs \<or>
          pk_credentialId ?p \<in> set (map base64UrlToBase64 (ro_allowCredentialsB64Url opts))"
        using live assms(5) by (auto simp: allow_def allow_list_def match_id_def split: option.splits if_splits)
      let ?b = "evs @ [EntriesLoaded l]"
      have "\<exists>r. pr_log s' = l0 @ ?b @ [Signed rpId (pk_privateKey ?p) (pk_alg ?p)
          (pp_sha256 P (text_bytes (clientDataJson ''webauthn.get'' (ro_challenge opts) origin))) True r]"
        using assms(1,3) l l' Inr Some
        by (auto simp: sign_chosen_def Let_def simp flip: allow_def
            split: prod.splits sum.splits dest!: logged_log)
      then obtain r where r: "pr_log s' = l0 @ ?b @ [Signed rpId (pk_privateKey ?p) (pk_alg ?p)
          (pp_sha256 P (text_bytes (clientDataJson ''webauthn.get'' (ro_challenge opts) origin))) True r]" ..
      have "signature_for W P opts origin locked ?b (Signed rpId (pk_privateKey ?p) (pk_alg ?p)
          (pp_sha256 P (text_bytes (clientDataJson ''webauthn.get'' (ro_challenge opts) origin))) True r)"
        unfolding signature_for_def
        using live assms(2,4) picked Inr
        by (intro exI [of _ rpId] exI [of _ es] exI [of _ ?p] exI [of _ r]) (auto intro: consented_append)
      with r show ?thesis by blast
    qed
  qed
qed

text \<open>Property C12: a sign-in is bound to its origin and to the user's consent. Whatever the page asks and
  whatever changes while the handler waits, a request is answered with an error and no signature, or with
  exactly one signature, made last: over the client data of this challenge and this origin, by a live stored
  passkey whose relying party is the page's host or a registrable parent of it, that the request allows or
  the user picked, read from the vault after the user approved a card and, if the vault was locked,
  after it was unlocked.\<close>

theorem sign_in_bound_to_origin:
  "(\<exists>before e. pr_log (snd (handleGet W P request origin s)) = pr_log s @ before \<and>
      list_all is_quiet before \<and> fst (handleGet W P request origin s) = Inl e) \<or>
   (\<exists>before ev j. pr_log (snd (handleGet W P request origin s)) = pr_log s @ before @ [ev] \<and>
      request = Inr j \<and> signature_for W P (parseRequestOptions j) origin (starts_locked P s) before ev)"
proof (cases request)
  case (Inl m)
  then show ?thesis by (simp add: handleGet_def)
next
  case (Inr j)
  define opts where "opts = parseRequestOptions j"
  define allow where "allow = allow_list (map base64UrlToBase64 (ro_allowCredentialsB64Url opts))"
  show ?thesis
  proof (cases "resolveRpId W origin (ro_rpId opts)")
    case (Inl e)
    with Inr show ?thesis by (simp add: handleGet_def opts_def)
  next
    case rp: (Inr rpId)
    obtain d s1 where c: "cornerCeremony P (runGetCeremony P rpId allow) s = (d, s1)"
      by (cases "cornerCeremony P (runGetCeremony P rpId allow) s")
    show ?thesis
    proof (cases d)
      case Declined
      with c have "\<exists>evs. pr_log s1 = pr_log s @ evs \<and> list_all is_quiet evs"
        using corner_ceremony_declined get_ceremony_log by metis
      moreover have "handleGet W P request origin s = (Inl (not_allowed ''user declined''), s1)"
        using c Inr rp Declined by (simp add: handleGet_def Let_def flip: opts_def allow_def)
      ultimately show ?thesis by simp
    next
      case (Approved uv cid k)
      then obtain s2 where s2: "pr_log s2 = pr_log s"
          "runGetCeremony P rpId allow (starts_locked P s) s2 = (Approved uv cid k, s1)"
        using c corner_ceremony_log by metis
      from get_ceremony_log [OF s2(2)] obtain evs where evs: "pr_log s1 = pr_log s2 @ evs"
          "consented (starts_locked P s) evs" uv
          "\<forall>i. cid = Some i \<longrightarrow> list_ex (is_pick i) evs \<or> (\<forall>ids. allow = Some ids \<longrightarrow> ids = [] \<or> i \<in> set ids)"
        by auto
      have h: "handleGet W P request origin s = sign_chosen P opts origin rpId True cid s1"
        using c Inr rp Approved evs(3) by (simp add: handleGet_def Let_def flip: opts_def allow_def)
      obtain res s' where r: "sign_chosen P opts origin rpId True cid s1 = (res, s')"
        by (cases "sign_chosen P opts origin rpId True cid s1")
      have "\<forall>i. cid = Some i \<longrightarrow> list_ex (is_pick i) evs \<or>
          ro_allowCredentialsB64Url opts = [] \<or> i \<in> set (map base64UrlToBase64 (ro_allowCredentialsB64Url opts))"
        using evs(4) by (auto simp: allow_def allow_list_def split: if_splits)
      from sign_chosen_log [OF r resolved_rp_allowed [OF rp] _ evs(2) this, of "pr_log s"] evs(1) s2(1)
      show ?thesis unfolding h r using Inr by (auto simp: opts_def)
    qed
  qed
qed

subsection \<open>Creating a passkey\<close>

text \<open>The login a plan keeps the new passkey in: a new one holding only it, or a stored one holding it
  after those it held.\<close>

definition keeps_passkeys :: "entry list \<Rightarrow> passkey \<Rightarrow> placement \<Rightarrow> bool" where
  "keeps_passkeys es p plan \<longleftrightarrow>
     (case plan of
        CreateLogin d \<Rightarrow> en_archivedAt d = None \<and> (\<exists>l. en_body d = Login l \<and> lg_passkeys l = Some [p])
      | Attach i ps \<Rightarrow> \<exists>e \<in> set es. en_id e = i \<and> (\<exists>l. en_body e = Login l) \<and> ps = login_passkeys e @ [p])"

lemma new_login_keeps [simp]: "keeps_passkeys es p (newPasskeyLogin rpId rpName p)"
  by (simp add: newPasskeyLogin_def keeps_passkeys_def)

lemma attach_keeps: "e \<in> set es \<Longrightarrow> en_body e = Login l \<Longrightarrow> keeps_passkeys es p (attachPasskeyTo e p)"
  by (auto simp: attachPasskeyTo_def keeps_passkeys_def)

lemma attach_target_covers:
  assumes "passkeyAttachTarget url es rpId userName = Some e"
  shows "e \<in> set es \<and> covers url rpId e"
proof -
  have "e \<in> set (loginsCoveringRpId url es rpId)"
  proof (cases "length (loginsCoveringRpId url es rpId) \<le> 1")
    case True
    with assms show ?thesis by (auto simp: passkeyAttachTarget_def Let_def split: list.splits)
  next
    case False
    with assms obtain n where "filter (\<lambda>e. to_lower (trim (username_of e)) = n) (loginsCoveringRpId url es rpId) = [e]"
      by (auto simp: passkeyAttachTarget_def Let_def split: list.splits option.splits if_splits)
    then have "e \<in> set (filter (\<lambda>e. to_lower (trim (username_of e)) = n) (loginsCoveringRpId url es rpId))"
      by simp
    then show ?thesis by simp
  qed
  then show ?thesis by (simp add: loginsCoveringRpId_def)
qed

lemma covers_login: "covers url rpId e \<Longrightarrow> \<exists>l. en_body e = Login l \<and> en_archivedAt e = None"
  by (auto simp: covers_def split: entry_body.splits)

lemma plan_keeps: "keeps_passkeys es p (planPasskeyPlacement url es rpId rpName p)"
  using attach_target_covers covers_login
  by (fastforce simp: planPasskeyPlacement_def split: option.splits intro: attach_keeps)

lemma found_login:
  assumes "find (\<lambda>e. (case en_body e of Login _ \<Rightarrow> True | _ \<Rightarrow> False) \<and> en_id e = i) es = Some e"
  shows "e \<in> set es \<and> en_id e = i \<and> (\<exists>l. en_body e = Login l)"
proof -
  from assms have "e \<in> set es" "en_id e = i" "case en_body e of Login _ \<Rightarrow> True | _ \<Rightarrow> False"
    by (auto simp: find_Some_iff)
  then show ?thesis by (auto split: entry_body.splits)
qed

lemma create_plan_keeps: "keeps_passkeys es p (resolveCreatePlan url choice es rpId rpName p)"
proof (cases choice)
  case None
  then show ?thesis by (simp add: resolveCreatePlan_def plan_keeps)
next
  case (Some k)
  show ?thesis
  proof (cases k)
    case NewLogin
    with Some show ?thesis by (simp add: resolveCreatePlan_def)
  next
    case (ToLogin i)
    with Some show ?thesis
      using found_login [of i es]
      by (fastforce simp: resolveCreatePlan_def plan_keeps split: option.splits intro: attach_keeps)
  qed
qed

text \<open>A passkey minted for this request: after consent, with no twin of an excluded credential in the
  vault it was planned against, kept without losing another.\<close>

definition minting_for ::
  "web \<Rightarrow> creation_options \<Rightarrow> string \<Rightarrow> bool \<Rightarrow> passkey_event list \<Rightarrow> passkey_event list \<Rightarrow> bool" where
  "minting_for W opts origin locked before evs \<longleftrightarrow>
     (\<exists>rpId es minted rest.
        evs = Minted rpId True minted # rest \<and> rp_allowed W origin rpId \<and> COSE_ES256 \<in> set (co_algs opts) \<and>
        before \<noteq> [] \<and> last before = EntriesLoaded (Inr es) \<and> consented locked before \<and>
        (\<forall>p. live_passkey es p \<longrightarrow> pk_rpId p = rpId \<longrightarrow>
           pk_credentialId p \<notin> set (map base64UrlToBase64 (co_excludeCredentialsB64Url opts))) \<and>
        (rest = [] \<or>
         (\<exists>reg now plan saved notice.
            minted = Inr reg \<and> rest = PlacementSaved plan saved # notice \<and>
            keeps_passkeys es (new_credential rpId opts reg now) plan \<and>
            (notice = [] \<or> saved = Inr () \<and> notice = [SavedNotice rpId (saved_name rpId es plan) (is_create plan)]))))"

lemma mint_and_save_log:
  assumes "mint_and_save W P opts origin rpId True choice s = (res, s')" "rp_allowed W origin rpId"
    and "pr_log s = l0 @ evs" "consented locked evs" "COSE_ES256 \<in> set (co_algs opts)"
  shows "\<exists>before evs. pr_log s' = l0 @ before @ evs \<and> list_all is_quiet before \<and>
    (evs = [] \<and> (\<exists>e. res = Inl e) \<or> minting_for W opts origin locked before evs)"
proof -
  obtain l s1 where l: "loadEntries P s = (l, s1)" by (cases "loadEntries P s")
  note l' = loadEntries_log [OF l]
  let ?b = "evs @ [EntriesLoaded l]"
  have quiet: "list_all is_quiet ?b" and con: "consented locked ?b"
    using assms(4) by (auto simp: consented_def)
  let ?ex = "map base64UrlToBase64 (co_excludeCredentialsB64Url opts)"
  show ?thesis
  proof (cases l)
    case (Inl m)
    with assms(1,3) l l' quiet show ?thesis
      by (intro exI [of _ ?b] exI [of _ "[]"]) (auto simp: mint_and_save_def)
  next
    case (Inr es)
    show ?thesis
    proof (cases "?ex \<noteq> [] \<and> findPasskeys es rpId (Some ?ex) \<noteq> []")
      case True
      with assms(1,3) l l' Inr quiet show ?thesis
        by (intro exI [of _ ?b] exI [of _ "[]"]) (auto simp: mint_and_save_def Let_def)
    next
      case False
      have twin: "\<forall>p. live_passkey es p \<longrightarrow> pk_rpId p = rpId \<longrightarrow> pk_credentialId p \<notin> set ?ex"
        using False findPasskeys_none by fastforce
      obtain m s2 where m: "logged (Minted rpId True) (pp_make P rpId True) s1 = (m, s2)"
        by (cases "logged (Minted rpId True) (pp_make P rpId True) s1")
      note m' = logged_log [OF m]
      have run: "mint_and_save W P opts origin rpId True choice s =
        (case m of Inl e \<Rightarrow> (Inl (not_allowed e), s2)
         | Inr reg \<Rightarrow>
            (let credential = new_credential rpId opts reg (pp_now P (pr_world s2));
                 plan = resolveCreatePlan (wb_url W) choice es rpId (co_rpName opts) credential
             in case logged (PlacementSaved plan) (pp_save P plan) s2 of
                  (Inl e, s3) \<Rightarrow> (Inl (not_allowed e), s3)
                | (Inr _, s3) \<Rightarrow>
                    (Inr (registrationResponseJSON reg
                       (bytesToBase64Url (text_bytes (clientDataJson ''webauthn.create'' (co_challenge opts) origin)))),
                     s3\<lparr>pr_log := pr_log s3 @ [SavedNotice rpId (saved_name rpId es plan) (is_create plan)]\<rparr>)))"
        using l Inr False m by (auto simp: mint_and_save_def split: sum.splits)
      show ?thesis
      proof (cases m)
        case (Inl e)
        have "minting_for W opts origin locked ?b [Minted rpId True m]"
          unfolding minting_for_def using assms(2,5) Inr con twin by auto
        moreover have "pr_log s' = l0 @ ?b @ [Minted rpId True m]"
          using assms(1,3) run Inl l' m' by simp
        ultimately show ?thesis using quiet by blast
      next
        case reg: (Inr reg)
        define plan where "plan = resolveCreatePlan (wb_url W) choice es rpId (co_rpName opts)
          (new_credential rpId opts reg (pp_now P (pr_world s2)))"
        obtain v s3 where v: "logged (PlacementSaved plan) (pp_save P plan) s2 = (v, s3)"
          by (cases "logged (PlacementSaved plan) (pp_save P plan) s2")
        note v' = logged_log [OF v]
        have keeps: "keeps_passkeys es (new_credential rpId opts reg (pp_now P (pr_world s2))) plan"
          unfolding plan_def by (rule create_plan_keeps)
        define notice where "notice = (case v of Inl _ \<Rightarrow> []
          | Inr _ \<Rightarrow> [SavedNotice rpId (saved_name rpId es plan) (is_create plan)])"
        have "minting_for W opts origin locked ?b (Minted rpId True m # PlacementSaved plan v # notice)"
          unfolding minting_for_def using assms(2,5) Inr con twin reg keeps
          by (auto simp: notice_def split: sum.splits)
        moreover have "pr_log s' = l0 @ ?b @ (Minted rpId True m # PlacementSaved plan v # notice)"
          using assms(1,3) run reg l' m' v v'
          by (auto simp: notice_def Let_def simp flip: plan_def split: sum.splits)
        ultimately show ?thesis using quiet by blast
      qed
    qed
  qed
qed



subsection \<open>What a placement does to the vault\<close>

lemma login_passkeys_set: "en_body e = Login l \<Longrightarrow> login_passkeys (set_passkeys ps e) = ps"
  by (simp add: set_passkeys_def login_passkeys_def)

lemma set_passkeys_simps [simp]:
  "en_id (set_passkeys ps e) = en_id e" "en_archivedAt (set_passkeys ps e) = en_archivedAt e"
  by (simp_all add: set_passkeys_def split: entry_body.splits)

text \<open>A target the user did not archive, as every candidate offered is.\<close>

definition live_target :: "entry list \<Rightarrow> create_choice option \<Rightarrow> bool" where
  "live_target es choice \<longleftrightarrow>
     (case choice of
        Some (ToLogin i) \<Rightarrow> list_all (\<lambda>e. en_id e = i \<longrightarrow> en_archivedAt e = None) es
      | _ \<Rightarrow> True)"

lemma attached_login_is_live:
  assumes "resolveCreatePlan url choice es rpId rpName p = Attach i ps" "live_target es choice"
  obtains e l where "e \<in> set es" "en_id e = i" "en_body e = Login l" "en_archivedAt e = None"
    "ps = login_passkeys e @ [p]"
proof -
  have "\<exists>e l. e \<in> set es \<and> en_id e = i \<and> en_body e = Login l \<and> en_archivedAt e = None \<and> ps = login_passkeys e @ [p]"
    if plan: "planPasskeyPlacement url es rpId rpName p = Attach i ps"
  proof -
    from plan obtain e where e: "passkeyAttachTarget url es rpId (pk_userName p) = Some e" "attachPasskeyTo e p = Attach i ps"
      by (auto simp: planPasskeyPlacement_def newPasskeyLogin_def split: option.splits)
    then show ?thesis
      using attach_target_covers [OF e(1)] covers_login [of url rpId e] by (auto simp: attachPasskeyTo_def)
  qed
  with that have plan: "planPasskeyPlacement url es rpId rpName p = Attach i ps \<Longrightarrow> thesis" by blast
  show thesis
  proof (cases choice)
    case None
    with assms(1) plan show thesis by (simp add: resolveCreatePlan_def)
  next
    case (Some k)
    show thesis
    proof (cases k)
      case NewLogin
      with Some assms(1) show thesis by (simp add: resolveCreatePlan_def newPasskeyLogin_def)
    next
      case (ToLogin j)
      show thesis
      proof (cases "find (\<lambda>e. (case en_body e of Login _ \<Rightarrow> True | _ \<Rightarrow> False) \<and> en_id e = j) es")
        case None
        with Some ToLogin assms(1) plan show thesis by (simp add: resolveCreatePlan_def)
      next
        case found: (Some e)
        from found_login [OF this] obtain l where "e \<in> set es" "en_id e = j" "en_body e = Login l" by auto
        then show thesis
          using Some ToLogin found assms that [of e l]
          by (auto simp: resolveCreatePlan_def attachPasskeyTo_def live_target_def list_all_iff)
      qed
    qed
  qed
qed

lemma placement_keeps:
  assumes "plan = resolveCreatePlan url choice es rpId rpName p" "distinct (map en_id es)" "live_target es choice"
  shows "live_passkey (place new_id plan es) q \<longleftrightarrow> q = p \<or> live_passkey es q"
proof (cases plan)
  case (CreateLogin d)
  with create_plan_keeps [of es p url choice rpId rpName] assms(1)
  obtain l where d: "en_archivedAt d = None" "en_body d = Login l" "lg_passkeys l = Some [p]"
    by (auto simp: keeps_passkeys_def split: placement.splits)
  then have "en_archivedAt (with_id new_id d) = None" "login_passkeys (with_id new_id d) = [p]"
    by (simp_all add: with_id_def login_passkeys_def entry_data.defs)
  with CreateLogin show ?thesis by (auto simp: live_passkey_def)
next
  case (Attach i ps)
  from attached_login_is_live [OF Attach [unfolded assms(1)] assms(3)]
  obtain e l where e: "e \<in> set es" "en_id e = i" "en_body e = Login l" "en_archivedAt e = None"
    "ps = login_passkeys e @ [p]" .
  have only: "x = e" if "x \<in> set es" "en_id x = i" for x
    using that e(1,2) assms(2) by (auto simp: distinct_map dest: inj_onD)
  have new: "login_passkeys (set_passkeys ps e) = login_passkeys e @ [p]"
    using login_passkeys_set [OF e(3)] e(5) by simp
  let ?f = "\<lambda>x. if en_id x \<noteq> i then x else set_passkeys ps x"
  let ?others = "{x \<in> set es. en_id x \<noteq> i}"
  have all: "set es = insert e ?others"
  proof (intro set_eqI iffI)
    fix x assume "x \<in> set es"
    with only [of x] show "x \<in> insert e ?others" by (cases "en_id x = i") auto
  qed (use e(1) in auto)
  have others: "?f ` ?others = ?others" by auto
  have "?f ` insert e ?others = insert (set_passkeys ps e) ?others"
    unfolding image_insert others using e(2) by simp
  then have "?f ` set es = insert (set_passkeys ps e) ?others"
    by (subst all)
  then have mem: "set (place new_id plan es) = insert (set_passkeys ps e) ?others"
    using Attach by simp
  have "live_passkey (place new_id plan es) q \<longleftrightarrow>
      q \<in> set (login_passkeys e @ [p]) \<or> (\<exists>x \<in> set es. en_id x \<noteq> i \<and> en_archivedAt x = None \<and> q \<in> set (login_passkeys x))"
    unfolding live_passkey_def list_ex_iff mem using new e(4) by auto
  moreover have "live_passkey es q \<longleftrightarrow>
      q \<in> set (login_passkeys e) \<or> (\<exists>x \<in> set es. en_id x \<noteq> i \<and> en_archivedAt x = None \<and> q \<in> set (login_passkeys x))"
  proof
    assume "live_passkey es q"
    then obtain x where "x \<in> set es" "en_archivedAt x = None" "q \<in> set (login_passkeys x)"
      by (auto simp: live_passkey_def list_ex_iff)
    with only [of x] show "q \<in> set (login_passkeys e) \<or>
        (\<exists>x \<in> set es. en_id x \<noteq> i \<and> en_archivedAt x = None \<and> q \<in> set (login_passkeys x))"
      by (cases "en_id x = i") auto
  qed (use e(1,4) in \<open>auto simp: live_passkey_def list_ex_iff\<close>)
  ultimately show ?thesis by auto
qed

text \<open>A world that answers: a tab, a vault with these entries that unlocks, cards approved without a pick,
  a crypto host that signs.\<close>

definition cooperative :: "'w passkey_ports \<Rightarrow> entry list \<Rightarrow> bool" where
  "cooperative P es \<longleftrightarrow>
     (\<forall>w. fst (pp_tab P w) \<noteq> None \<and> fst (pp_loadEntries P w) = Inr es \<and> fst (pp_ensureUnlocked P w) \<and>
        (\<forall>c. fst (pp_showCard P c w) = \<lparr>cr_approved = True, cr_choice = None\<rparr>) \<and>
        (\<forall>r k a h u. \<exists>x. fst (pp_sign P r k a h u w) = Inr x))"

lemma cooperative_ports:
  assumes "cooperative P es"
  shows "\<exists>s'. showCard P c s = (\<lparr>cr_approved = True, cr_choice = None\<rparr>, s')"
    "\<exists>s'. loadEntries P s = (Inr es, s')"
    "\<exists>s'. confirm_unlock P locked s = (True, s')"
    "\<exists>x s'. logged (Signed r k a h u) (pp_sign P r k a h u) s = (Inr x, s')"
    "\<exists>s' locked. cornerCeremony P C s = C locked s'"
proof -
  have p: "fst (pp_tab P w) \<noteq> None" "fst (pp_loadEntries P w) = Inr es" "fst (pp_ensureUnlocked P w)"
    "fst (pp_showCard P c w) = \<lparr>cr_approved = True, cr_choice = None\<rparr>"
    "\<exists>x. fst (pp_sign P r k a h u w) = Inr x" for w c
    using assms by (simp_all add: cooperative_def)
  show card: "\<exists>s'. showCard P c s = (\<lparr>cr_approved = True, cr_choice = None\<rparr>, s')" for c s
    using p(4) [of c "pr_world s"] by (cases "pp_showCard P c (pr_world s)") (simp add: showCard_def logged_def)
  show "\<exists>s'. loadEntries P s = (Inr es, s')"
    using p(2) [of "pr_world s"] by (cases "pp_loadEntries P (pr_world s)") (simp add: loadEntries_def logged_def)
  show "\<exists>s'. confirm_unlock P locked s = (True, s')"
  proof (cases locked)
    case True
    obtain s1 where "showCard P plain_card s = (\<lparr>cr_approved = True, cr_choice = None\<rparr>, s1)"
      using card by blast
    with True show ?thesis
      using p(3) [of "pr_world s1"]
      by (cases "pp_ensureUnlocked P (pr_world s1)") (simp add: confirm_unlock_def logged_def)
  qed (simp add: confirm_unlock_def)
  show "\<exists>x s'. logged (Signed r k a h u) (pp_sign P r k a h u) s = (Inr x, s')"
    using p(5) [of "pr_world s"] by (auto simp: logged_def split: prod.splits)
  show "\<exists>s' locked. cornerCeremony P C s = C locked s'"
    using p(1) [of "pr_world s"] by (auto simp: cornerCeremony_def Let_def split: prod.splits option.splits)
qed

lemma cooperative_get:
  assumes P: "cooperative P es"
    and ms: "findPasskeys es rpId allow = ms" "ms \<noteq> []"
  shows "\<exists>s'. runGetCeremony P rpId allow locked s = (Approved True (Some (match_id (hd ms))) None, s')"
proof -
  obtain s1 where 1: "confirm_unlock P locked s = (True, s1)"
    using cooperative_ports(3) [OF P] by blast
  obtain s2 where 2: "loadEntries P s1 = (Inr es, s2)"
    using cooperative_ports(2) [OF P] by blast
  obtain s3 where 3: "showCard P (plain_card\<lparr>ca_passkeyChoices :=
      Some (map (\<lambda>m. (match_id m, passkeyLabel (pm_passkey m))) ms)\<rparr>) s2 = (\<lparr>cr_approved = True, cr_choice = None\<rparr>, s3)"
    using cooperative_ports(1) [OF P] by blast
  from ms 1 2 3 show ?thesis
    by (simp add: runGetCeremony_def entries_or_none_def)
qed


lemma base64_nonempty: "bs \<noteq> [] \<Longrightarrow> bytesToBase64 bs \<noteq> [] \<and> bytesToBase64Url bs \<noteq> []"
proof -
  assume "bs \<noteq> []"
  then have "bytesToBase64 bs \<noteq> []"
    using base64_round_trip [of bs] base64_round_trip [of "[]"]
    by (auto simp: bytesToBase64_def [of "[]"] pad_b64_def)
  moreover have "base64UrlToBase64 [] = []"
    by (simp add: base64UrlToBase64_def replace_char_def)
  ultimately show ?thesis
    using base64url_round_trip [of bs] by (auto simp: bytesToBase64Url_def)
qed

lemma cooperative_sign:
  assumes P: "cooperative P es"
    and ms: "findPasskeys es rpId (Some [c]) = m # ms" "c \<noteq> []" "match_id m = c"
  shows "\<exists>a. fst (sign_chosen P opts origin rpId uv (Some c) s) = Inr (authenticationResponseJSON (pk_credentialId (pm_passkey m)) a
     (bytesToBase64Url (text_bytes (clientDataJson ''webauthn.get'' (ro_challenge opts) origin))) (pk_userHandle (pm_passkey m)))"
proof -
  let ?p = "pm_passkey m"
  let ?h = "pp_sha256 P (text_bytes (clientDataJson ''webauthn.get'' (ro_challenge opts) origin))"
  obtain s1 where 1: "loadEntries P s = (Inr es, s1)"
    using cooperative_ports(2) [OF P] by blast
  obtain a s2 where 2: "logged (Signed rpId (pk_privateKey ?p) (pk_alg ?p) ?h uv)
      (pp_sign P rpId (pk_privateKey ?p) (pk_alg ?p) ?h uv) s1 = (Inr a, s2)"
    using cooperative_ports(4) [OF P] by blast
  from ms 1 2 show ?thesis by (auto simp: sign_chosen_def chosen_match_def Let_def)
qed

text \<open>Property C14: a passkey just created signs its owner in. Take any vault and any placement the
  create ceremony may choose for a new passkey, on a login that is not archived. In the vault as saved
  every passkey that could be found before can still be found, and the next sign-in of that page that
  names the new credential is answered with a signature of the new key, provided the user approves.\<close>

theorem new_passkey_signs_in:
  assumes plan: "plan = resolveCreatePlan url choice es rpId rpName p" "distinct (map en_id es)" "live_target es choice"
    and cred: "pk_credentialId p = bytesToBase64 bs" "bs \<noteq> []" "pk_rpId p = rpId"
    and only: "\<forall>q. live_passkey es q \<longrightarrow> pk_credentialId q \<noteq> pk_credentialId p"
    and page: "resolveRpId W origin (rj_rpId j) = Inr rpId" "rj_allow j = Some [Some (bytesToBase64Url bs)]"
    and world: "cooperative P (place new_id plan es)"
  shows "(\<forall>q. live_passkey es q \<longrightarrow> live_passkey (place new_id plan es) q) \<and>
    (\<exists>a. fst (handleGet W P (Inr j) origin s) = Inr (authenticationResponseJSON (pk_credentialId p) a
       (bytesToBase64Url (text_bytes (clientDataJson ''webauthn.get'' (or_empty (rj_challenge j)) origin)))
       (pk_userHandle p)))"
proof
  let ?es = "place new_id plan es" and ?cid = "bytesToBase64 bs"
  note live = placement_keeps [OF plan, of new_id]
  then show "\<forall>q. live_passkey es q \<longrightarrow> live_passkey ?es q" by simp
  have ne: "?cid \<noteq> []" "bytesToBase64Url bs \<noteq> []" using base64_nonempty [OF cred(2)] by auto
  have decoded: "base64UrlToBase64 (bytesToBase64Url bs) = ?cid"
    by (simp add: bytesToBase64Url_def base64url_round_trip)
  let ?ms = "findPasskeys ?es rpId (Some [?cid])"
  have mine: "pm_passkey m = p" if "m \<in> set ?ms" for m
    using findPasskeys_live [OF that] live [of "pm_passkey m"] only cred(1) by (auto simp: match_id_def)
  have "?ms \<noteq> []"
    using findPasskeys_none [of ?es rpId "[?cid]" p] live [of p] cred by auto
  then obtain m ms where ms: "?ms = m # ms" by (cases ?ms) auto
  have m: "pm_passkey m = p" "match_id m = ?cid"
    using mine [of m] ms cred(1) by (auto simp: match_id_def)
  let ?opts = "parseRequestOptions j"
  have opts: "ro_rpId ?opts = rj_rpId j" "ro_challenge ?opts = or_empty (rj_challenge j)"
    "map base64UrlToBase64 (ro_allowCredentialsB64Url ?opts) = [?cid]"
    using page(2) ne decoded by (simp_all add: parseRequestOptions_def credential_ids_def map_filter_simps)
  obtain s1 locked where c: "cornerCeremony P (runGetCeremony P rpId (Some [?cid])) s =
      runGetCeremony P rpId (Some [?cid]) locked s1"
    using cooperative_ports(5) [OF world] by blast
  obtain s2 where d: "runGetCeremony P rpId (Some [?cid]) locked s1 = (Approved True (Some ?cid) None, s2)"
    using cooperative_get [OF world ms] m(2) by fastforce
  have "handleGet W P (Inr j) origin s = sign_chosen P ?opts origin rpId True (Some ?cid) s2"
    using page(1) opts c d by (simp add: handleGet_def Let_def allow_list_def)
  then show "\<exists>a. fst (handleGet W P (Inr j) origin s) = Inr (authenticationResponseJSON (pk_credentialId p) a
       (bytesToBase64Url (text_bytes (clientDataJson ''webauthn.get'' (or_empty (rj_challenge j)) origin)))
       (pk_userHandle p))"
    using cooperative_sign [OF world ms ne(1) m(2), of ?opts origin True s2] m(1) opts(2) by simp
qed


definition sample_web :: web where
  "sample_web = \<lparr>wb_url = (\<lambda>_. Some (''https:'', ''a.com'')), wb_getDomain = (\<lambda>d. Some d)\<rparr>"

definition sample_passkey :: passkey where
  "sample_passkey =
     \<lparr>pk_credentialId = bytesToBase64 [7], pk_rpId = ''a.com'', pk_rpName = None, pk_userHandle = ''dQ=='',
      pk_userName = Some ''ann'', pk_userDisplayName = None, pk_alg = -7, pk_publicKeyCose = [],
      pk_privateKey = ''k'', pk_signCount = 0, pk_createdAt = 1, pk_lastUsedAt = None\<rparr>"

definition sample_site :: entry where
  "sample_site =
     \<lparr>en_name = ''A'', en_notes = None, en_customFields = None, en_createdAt = None, en_updatedAt = None,
      en_lastUsedAt = None, en_archivedAt = None, en_tags = None,
      en_body = Login \<lparr>lg_urls = [''https://a.com/login''], lg_username = ''ann'', lg_password = ''pw'',
        lg_totp = None, lg_breach = None, lg_autofillEnabled = None, lg_autoSubmit = None,
        lg_subdomainMatch = None, lg_passkeys = None, lg_passwordChangelog = None\<rparr>,
      en_id = ''1''\<rparr>"

definition sample_plan :: placement where
  "sample_plan = resolveCreatePlan (wb_url sample_web) (Some (ToLogin ''1'')) [sample_site] ''a.com'' None sample_passkey"

definition sample_ports :: "entry list \<Rightarrow> unit passkey_ports" where
  "sample_ports es =
     \<lparr>pp_tab = (\<lambda>w. (Some 1, w)), pp_locked = (\<lambda>_. True),
      pp_showCard = (\<lambda>_ w. (\<lparr>cr_approved = True, cr_choice = None\<rparr>, w)), pp_ensureUnlocked = (\<lambda>w. (True, w)),
      pp_loadEntries = (\<lambda>w. (Inr es, w)), pp_make = (\<lambda>_ _ w. (Inl ''unused'', w)),
      pp_sign = (\<lambda>_ k _ _ _ w. (Inr \<lparr>as_authenticatorData = ''AA=='', as_signature = k\<rparr>, w)),
      pp_save = (\<lambda>_ w. (Inr (), w)), pp_now = (\<lambda>_. 0), pp_sha256 = (\<lambda>_. [])\<rparr>"

theorem new_passkey_signs_in_witness:
  "\<exists>a. fst (handleGet sample_web (sample_ports (place ''2'' sample_plan [sample_site]))
       (Inr \<lparr>rj_rpId = None, rj_challenge = Some ''c'', rj_allow = Some [Some (bytesToBase64Url [7])]\<rparr>) ''https://a.com''
       \<lparr>pr_world = (), pr_log = []\<rparr>) =
     Inr (authenticationResponseJSON (bytesToBase64 [7]) a
       (bytesToBase64Url (text_bytes (clientDataJson ''webauthn.get'' ''c'' ''https://a.com''))) ''dQ=='')"
proof -
  have lower: "to_lower ''a.com'' = ''a.com''"
    by (simp add: to_lower_def lower_char_def)
  have rp: "resolveRpId sample_web ''https://a.com'' None = Inr ''a.com''"
    by (simp add: resolveRpId_def originHostname_def sample_web_def isRegistrableSuffix_def within_domain_def
        defaultRpId_def lower)
  have world: "cooperative (sample_ports es) es" for es
    by (simp add: cooperative_def sample_ports_def)
  have none: "\<forall>q. live_passkey [sample_site] q \<longrightarrow> pk_credentialId q \<noteq> pk_credentialId sample_passkey"
    by (simp add: live_passkey_def login_passkeys_def sample_site_def)
  have target: "live_target [sample_site] (Some (ToLogin ''1''))"
    by (simp add: live_target_def sample_site_def)
  show ?thesis
    using new_passkey_signs_in [OF sample_plan_def _ target _ _ _ none, of "[7]" sample_web "''https://a.com''"
        "\<lparr>rj_rpId = None, rj_challenge = Some ''c'', rj_allow = Some [Some (bytesToBase64Url [7])]\<rparr>"
        "sample_ports (place ''2'' sample_plan [sample_site])" "''2''" "\<lparr>pr_world = (), pr_log = []\<rparr>"]
      rp world
    by (simp add: sample_passkey_def or_empty_def)
qed

text \<open>Two creations for one login whose waits overlap read the same passkeys, and the placement saved
  second overwrites the passkey the first one saved.\<close>

lemma overlapping_creations_lose_a_passkey:
  assumes "loginsCoveringRpId url es rpId = [e]" "distinct (map en_id es)"
    and "p \<noteq> q" "\<not> live_passkey es p"
  shows "\<not> live_passkey (place n2 (planPasskeyPlacement url es rpId rpName q)
    (place n1 (planPasskeyPlacement url es rpId rpName p) es)) p"
proof -
  have e: "e \<in> set es" "covers url rpId e"
  proof -
    have "e \<in> set (loginsCoveringRpId url es rpId)" using assms(1) by simp
    then show "e \<in> set es" "covers url rpId e" by (simp_all add: loginsCoveringRpId_def)
  qed
  obtain l where l: "en_body e = Login l" "en_archivedAt e = None" using covers_login [OF e(2)] by blast
  have plan: "planPasskeyPlacement url es rpId rpName r = Attach (en_id e) (login_passkeys e @ [r])" for r
    using assms(1) by (simp add: planPasskeyPlacement_def passkeyAttachTarget_def attachPasskeyTo_def)
  have old: "p \<notin> set (login_passkeys x)" if "x \<in> set es" "en_archivedAt x = None" for x
    using assms(4) that by (auto simp: live_passkey_def list_ex_iff)
  have twice: "set_passkeys b (set_passkeys a x) = set_passkeys b x" for a b x
    by (cases "en_body x") (simp_all add: set_passkeys_def)
  have "place n2 (Attach i b) (place n1 (Attach i a) es) = place n2 (Attach i b) es" for i a b
    by (simp add: twice)
  moreover have "\<not> live_passkey (place n2 (Attach (en_id e) (login_passkeys e @ [q])) es) p"
  proof
    assume "live_passkey (place n2 (Attach (en_id e) (login_passkeys e @ [q])) es) p"
    then obtain x where x: "x \<in> set es" "en_archivedAt x = None"
      "p \<in> set (login_passkeys (if en_id x \<noteq> en_id e then x else set_passkeys (login_passkeys e @ [q]) x))"
      by (auto simp: live_passkey_def list_ex_iff split: if_splits)
    show False
    proof (cases "en_id x = en_id e")
      case True
      with x(1) e(1) assms(2) have "x = e" by (auto simp: distinct_map dest: inj_onD)
      with x(3) l login_passkeys_set [OF l(1)] old [OF e(1) l(2)] assms(3) show False by auto
    next
      case False
      with x old show False by auto
    qed
  qed
  ultimately show ?thesis unfolding plan by metis
qed

text \<open>A login that is gone by the time its placement is saved (deleted by a sync, or the active vault
  changed) takes the new passkey with it: nothing is written and the creation still succeeds.\<close>

lemma attach_to_missing_login_saves_nothing:
  "i \<notin> set (map en_id es) \<Longrightarrow> place n (Attach i ps) es = es"
  by (induction es) auto

end
