(* ===== verification/Password_Gen.thy ===== *)
theory Password_Gen
  imports Complex_Main Js_Text "HOL-Library.Word" "HOL-Library.Multiset"
begin

text \<open>
  The password generator (\<open>packages/core/src/util/password-gen.ts\<close>): unbiased numbers by rejection,
  the generators, and the coercion of stored settings.

  \<open>crypto.getRandomValues\<close> is a list of 32-bit words, drawn from the front. A run that needs more
  words than the list has is \<open>None\<close>: the code keeps drawing, so a result stands for every longer
  list too, and that enough words are there is proved, not assumed. A number of the settings is a
  rational, \<open>None\<close> when it is not finite. The word list and upper-casing of a letter are arguments.
\<close>

subsection \<open>Settings\<close>

datatype generator_mode = PasswordMode | PassphraseMode | PinMode

record generator_settings =
  gs_mode :: generator_mode
  gs_length :: "rat option"
  gs_lowercase :: bool
  gs_uppercase :: bool
  gs_digits :: bool
  gs_symbols :: bool
  gs_avoidAmbiguous :: bool
  gs_symbolSet :: string
  gs_words :: "rat option"
  gs_separator :: string
  gs_capitalize :: bool
  gs_wordNumber :: bool
  gs_pinLength :: "rat option"

definition LOWERCASE :: string where
  "LOWERCASE = ''abcdefghijklmnopqrstuvwxyz''"

definition UPPERCASE :: string where
  "UPPERCASE = ''ABCDEFGHIJKLMNOPQRSTUVWXYZ''"

definition DIGITS :: string where
  "DIGITS = ''0123456789''"

definition DEFAULT_SYMBOLS :: string where
  "DEFAULT_SYMBOLS = ''!@#$%^&*()_+-=[]{}|;:,.<>?''"

definition AMBIGUOUS :: string where
  "AMBIGUOUS = ''Il1|O0o''"

definition MIN_LENGTH :: int where "MIN_LENGTH = 8"

definition MAX_LENGTH :: int where "MAX_LENGTH = 128"

definition MIN_WORDS :: int where "MIN_WORDS = 3"

definition MAX_WORDS :: int where "MAX_WORDS = 12"

definition MIN_PIN :: int where "MIN_PIN = 4"

definition MAX_PIN :: int where "MAX_PIN = 12"

definition MAX_SEPARATOR :: nat where "MAX_SEPARATOR = 3"

definition DEFAULT_GENERATOR_SETTINGS :: generator_settings where
  "DEFAULT_GENERATOR_SETTINGS =
     \<lparr>gs_mode = PasswordMode, gs_length = Some 20, gs_lowercase = True, gs_uppercase = True, gs_digits = True,
      gs_symbols = True, gs_avoidAmbiguous = False, gs_symbolSet = DEFAULT_SYMBOLS, gs_words = Some 5,
      gs_separator = ''-'', gs_capitalize = False, gs_wordNumber = False, gs_pinLength = Some 6\<rparr>"

text \<open>\<open>Math.round\<close> rounds half up.\<close>

definition clamp :: "rat option \<Rightarrow> int \<Rightarrow> int \<Rightarrow> int" where
  "clamp v lo hi = (case v of None \<Rightarrow> lo | Some x \<Rightarrow> min hi (max lo \<lfloor>x + 1 / 2\<rfloor>))"

subsection \<open>Random numbers\<close>

type_synonym 'a drawn = "32 word list \<Rightarrow> ('a \<times> 32 word list) option"

definition accept_limit :: "nat \<Rightarrow> nat" where
  "accept_limit bound = (2 ^ 32 div bound) * bound"

fun draw_below :: "nat \<Rightarrow> nat drawn" where
  "draw_below bound [] = None"
| "draw_below bound (w # ws) =
     (if unat w < accept_limit bound then Some (unat w mod bound, ws) else draw_below bound ws)"

definition randomInt :: "nat \<Rightarrow> nat drawn" where
  "randomInt bound ws = (if bound \<le> 1 then Some (0, ws) else draw_below bound ws)"

text \<open>\<open>chars.charAt(i)\<close> is empty out of range.\<close>

definition pick :: "string \<Rightarrow> string drawn" where
  "pick chars ws =
     (case randomInt (length chars) ws of
        None \<Rightarrow> None
      | Some (i, ws) \<Rightarrow> Some (take 1 (drop i chars), ws))"

fun pick_each :: "string list \<Rightarrow> string list drawn" where
  "pick_each [] ws = Some ([], ws)"
| "pick_each (s # ss) ws =
     (case pick s ws of
        None \<Rightarrow> None
      | Some (c, ws) \<Rightarrow> map_option (\<lambda>(cs, ws). (c # cs, ws)) (pick_each ss ws))"

fun shuffle_down :: "nat \<Rightarrow> 'a list \<Rightarrow> 'a list drawn" where
  "shuffle_down 0 xs ws = Some (xs, ws)"
| "shuffle_down (Suc i) xs ws =
     (case randomInt (Suc (Suc i)) ws of
        None \<Rightarrow> None
      | Some (j, ws) \<Rightarrow> shuffle_down i (xs[Suc i := xs ! j, j := xs ! Suc i]) ws)"

definition shuffle_items :: "'a list \<Rightarrow> 'a list drawn" where
  "shuffle_items xs ws = shuffle_down (length xs - 1) xs ws"

subsection \<open>Generators\<close>

definition withoutAmbiguous :: "string \<Rightarrow> string" where
  "withoutAmbiguous chars = filter (\<lambda>c. c \<notin> set AMBIGUOUS) chars"

definition characterClasses :: "generator_settings \<Rightarrow> string list" where
  "characterClasses s =
     (let f = (\<lambda>chars. if gs_avoidAmbiguous s then withoutAmbiguous chars else chars);
          symbols = f (if trim (gs_symbolSet s) = [] then DEFAULT_SYMBOLS else trim (gs_symbolSet s));
          sets = (if gs_lowercase s then [f LOWERCASE] else []) @ (if gs_uppercase s then [f UPPERCASE] else []) @
            (if gs_digits s then [f DIGITS] else []) @ (if gs_symbols s \<and> symbols \<noteq> [] then [symbols] else []);
          usable = filter (\<lambda>c. length c > 0) sets
      in if length usable > 0 then usable else [LOWERCASE])"

definition generatePassword :: "generator_settings \<Rightarrow> string drawn" where
  "generatePassword s ws =
     (if gs_mode s = PinMode
      then map_option (\<lambda>(cs, ws). (concat cs, ws)) (pick_each (replicate (nat (clamp (gs_pinLength s) MIN_PIN MAX_PIN)) DIGITS) ws)
      else
        (let sets = characterClasses s; n = nat (clamp (gs_length s) MIN_LENGTH MAX_LENGTH); pool = concat sets
         in case pick_each (take n sets) ws of
              None \<Rightarrow> None
            | Some (first, ws) \<Rightarrow>
                (case pick_each (replicate (n - length first) pool) ws of
                   None \<Rightarrow> None
                 | Some (rest, ws) \<Rightarrow> map_option (\<lambda>(out, ws). (concat out, ws)) (shuffle_items (first @ rest) ws))))"

definition capitalizeWord :: "(char \<Rightarrow> string) \<Rightarrow> string \<Rightarrow> string" where
  "capitalizeWord upper word = (case word of [] \<Rightarrow> [] | c # r \<Rightarrow> upper c @ r)"

fun draw_words :: "nat \<Rightarrow> string list \<Rightarrow> string list drawn" where
  "draw_words 0 wordlist ws = Some ([], ws)"
| "draw_words (Suc n) wordlist ws =
     (case randomInt (length wordlist) ws of
        None \<Rightarrow> None
      | Some (i, ws) \<Rightarrow> map_option (\<lambda>(r, ws). (wordlist ! i # r, ws)) (draw_words n wordlist ws))"

fun join_with :: "string \<Rightarrow> string list \<Rightarrow> string" where
  "join_with sep [] = []"
| "join_with sep [w] = w"
| "join_with sep (w # v # r) = w @ sep @ join_with sep (v # r)"

text \<open>The word list is not empty.\<close>

definition generatePassphrase :: "(char \<Rightarrow> string) \<Rightarrow> generator_settings \<Rightarrow> string list \<Rightarrow> string drawn" where
  "generatePassphrase upper s wordlist ws =
     (case draw_words (nat (clamp (gs_words s) MIN_WORDS MAX_WORDS)) wordlist ws of
        None \<Rightarrow> None
      | Some (drawn, ws) \<Rightarrow>
          let drawn = (if gs_capitalize s then map (capitalizeWord upper) drawn else drawn)
          in if \<not> gs_wordNumber s then Some (join_with (gs_separator s) drawn, ws)
             else (case randomInt (length drawn) ws of
                     None \<Rightarrow> None
                   | Some (k, ws) \<Rightarrow>
                       (case randomInt 10 ws of
                          None \<Rightarrow> None
                        | Some (d, ws) \<Rightarrow> Some (join_with (gs_separator s) (drawn[k := drawn ! k @ dec d]), ws))))"

definition generate :: "(char \<Rightarrow> string) \<Rightarrow> string list \<Rightarrow> generator_settings \<Rightarrow> string drawn" where
  "generate upper wordlist s ws =
     (if gs_mode s \<noteq> PassphraseMode then generatePassword s ws else generatePassphrase upper s wordlist ws)"

subsection \<open>Stored settings\<close>

text \<open>A stored value: the fields of an object, each of any type, or something that is no object.\<close>

datatype js_value = JsBool bool | JsNumber "rat option" | JsString string | JsOther

datatype stored_value = NoObject | Fields "string \<Rightarrow> js_value"

fun bool_or :: "js_value \<Rightarrow> bool \<Rightarrow> bool" where
  "bool_or (JsBool b) fallback = b"
| "bool_or _ fallback = fallback"

fun num_or :: "js_value \<Rightarrow> int \<Rightarrow> int \<Rightarrow> rat option \<Rightarrow> rat option" where
  "num_or (JsNumber (Some x)) lo hi fallback = Some (of_int (clamp (Some x) lo hi))"
| "num_or _ lo hi fallback = fallback"

definition normalizeGeneratorSettings :: "stored_value \<Rightarrow> generator_settings" where
  "normalizeGeneratorSettings raw =
     (let d = DEFAULT_GENERATOR_SETTINGS
      in case raw of
           NoObject \<Rightarrow> d
         | Fields r \<Rightarrow>
             (let s = \<lparr>gs_mode = (if r ''mode'' = JsString ''passphrase'' then PassphraseMode
                          else if r ''mode'' = JsString ''pin'' then PinMode
                          else if r ''mode'' = JsString ''password'' then PasswordMode else gs_mode d),
                       gs_length = num_or (r ''length'') MIN_LENGTH MAX_LENGTH (gs_length d),
                       gs_lowercase = bool_or (r ''lowercase'') (gs_lowercase d),
                       gs_uppercase = bool_or (r ''uppercase'') (gs_uppercase d),
                       gs_digits = bool_or (r ''digits'') (gs_digits d),
                       gs_symbols = bool_or (r ''symbols'') (gs_symbols d),
                       gs_avoidAmbiguous = bool_or (r ''avoidAmbiguous'') (gs_avoidAmbiguous d),
                       gs_symbolSet = (case r ''symbolSet'' of
                          JsString x \<Rightarrow> if trim x \<noteq> [] then x else gs_symbolSet d | _ \<Rightarrow> gs_symbolSet d),
                       gs_words = num_or (r ''words'') MIN_WORDS MAX_WORDS (gs_words d),
                       gs_separator = (case r ''separator'' of JsString x \<Rightarrow> take MAX_SEPARATOR x | _ \<Rightarrow> gs_separator d),
                       gs_capitalize = bool_or (r ''capitalize'') (gs_capitalize d),
                       gs_wordNumber = bool_or (r ''wordNumber'') (gs_wordNumber d),
                       gs_pinLength = num_or (r ''pinLength'') MIN_PIN MAX_PIN (gs_pinLength d)\<rparr>
              in if \<not> gs_lowercase s \<and> \<not> gs_uppercase s \<and> \<not> gs_digits s \<and> \<not> gs_symbols s
                 then s\<lparr>gs_lowercase := True\<rparr> else s))"

subsection \<open>Draws\<close>

lemma accept_limit_bounds: "0 < bound \<Longrightarrow> accept_limit bound \<le> 2 ^ 32 \<and> 2 ^ 32 < accept_limit bound + bound"
  using div_times_less_eq_dividend [of "2 ^ 32" bound] dividend_less_div_times [of bound "2 ^ 32"]
  by (simp add: accept_limit_def algebra_simps)

lemma draw_below_bound: "0 < bound \<Longrightarrow> draw_below bound ws = Some (k, ws') \<Longrightarrow> k < bound"
  by (induction ws) (auto split: if_splits)

lemma randomInt_bound: "0 < bound \<Longrightarrow> randomInt bound ws = Some (k, ws') \<Longrightarrow> k < bound"
  by (auto simp: randomInt_def draw_below_bound split: if_splits)

text \<open>The words a draw may not reject: those below \<open>2 ^ 31\<close>.\<close>

definition sure :: "32 word list \<Rightarrow> nat" where
  "sure ws = length (filter (\<lambda>w. unat w < 2 ^ 31) ws)"

lemma sure_accepted: "0 < bound \<Longrightarrow> bound \<le> 2 ^ 31 \<Longrightarrow> n < 2 ^ 31 \<Longrightarrow> n < accept_limit bound"
  using accept_limit_bounds [of bound] by simp

lemma draw_below_sure:
  "0 < bound \<Longrightarrow> bound \<le> 2 ^ 31 \<Longrightarrow> 0 < sure ws \<Longrightarrow> \<exists>k ws'. draw_below bound ws = Some (k, ws') \<and> sure ws \<le> Suc (sure ws')"
proof (induction ws)
  case (Cons w ws)
  show ?case
  proof (cases "unat w < accept_limit bound")
    case True
    then show ?thesis by (simp add: sure_def)
  next
    case False
    then have "\<not> unat w < 2 ^ 31"
      using sure_accepted [OF Cons.prems(1,2)] by blast
    then have "sure (w # ws) = sure ws"
      by (simp add: sure_def)
    with False Cons show ?thesis by simp
  qed
qed (simp add: sure_def)

text \<open>A computation that ends when \<open>n\<close> sure words are there, and takes at most \<open>n\<close> of them.\<close>

definition draws :: "nat \<Rightarrow> 'a drawn \<Rightarrow> bool" where
  "draws n f \<longleftrightarrow> (\<forall>ws. n \<le> sure ws \<longrightarrow> (\<exists>x ws'. f ws = Some (x, ws') \<and> sure ws \<le> n + sure ws'))"

lemma draws_randomInt: "bound \<le> 2 ^ 31 \<Longrightarrow> draws 1 (randomInt bound)"
proof (cases "bound \<le> 1")
  case False
  assume b: "bound \<le> 2 ^ 31"
  show ?thesis
    unfolding draws_def
  proof (intro allI impI)
    fix ws assume "1 \<le> sure ws"
    with draw_below_sure [of bound ws] False b show "\<exists>x ws'. randomInt bound ws = Some (x, ws') \<and> sure ws \<le> 1 + sure ws'"
      by (simp add: randomInt_def)
  qed
qed (simp add: draws_def randomInt_def)

lemma drawsD:
  assumes "draws n f" "n + m \<le> sure ws"
  obtains x ws' where "f ws = Some (x, ws')" "m \<le> sure ws'" "sure ws \<le> n + sure ws'"
proof -
  have "n \<le> sure ws"
    using assms(2) by simp
  then obtain x ws' where x: "f ws = Some (x, ws')" "sure ws \<le> n + sure ws'"
    using assms(1) unfolding draws_def by blast
  show ?thesis
    by (rule that [OF x(1) _ x(2)]) (use assms(2) x(2) in linarith)
qed

lemma draws_pick: "length chars \<le> 2 ^ 31 \<Longrightarrow> draws 1 (pick chars)"
  using draws_randomInt [of "length chars"] by (fastforce simp: draws_def pick_def)

lemma draws_pick_each: "list_all (\<lambda>s. length s \<le> 2 ^ 31) ss \<Longrightarrow> draws (length ss) (pick_each ss)"
proof (induction ss)
  case (Cons s ss)
  then have one: "draws 1 (pick s)" and more: "draws (length ss) (pick_each ss)"
    using draws_pick [of s] by simp_all
  show ?case
    unfolding draws_def
  proof (intro allI impI)
    fix ws assume "length (s # ss) \<le> sure ws"
    then have "1 + length ss \<le> sure ws" by simp
    then obtain c ws1 where c: "pick s ws = Some (c, ws1)" "length ss \<le> sure ws1" "sure ws \<le> 1 + sure ws1"
      by (rule drawsD [OF one])
    then have "length ss + 0 \<le> sure ws1" by simp
    then obtain cs ws2 where "pick_each ss ws1 = Some (cs, ws2)" "sure ws1 \<le> length ss + sure ws2"
      by (rule drawsD [OF more])
    with c show "\<exists>x ws'. pick_each (s # ss) ws = Some (x, ws') \<and> sure ws \<le> length (s # ss) + sure ws'"
      by simp
  qed
qed (simp add: draws_def)

lemma draws_shuffle: "i < 2 ^ 31 - 1 \<Longrightarrow> draws i (shuffle_down i xs)"
proof (induction i arbitrary: xs)
  case (Suc i)
  have one: "draws 1 (randomInt (Suc (Suc i)))"
    using Suc.prems by (intro draws_randomInt) simp
  show ?case
    unfolding draws_def
  proof (intro allI impI)
    fix ws assume "Suc i \<le> sure ws"
    then have "1 + i \<le> sure ws" by simp
    then obtain j ws1 where j: "randomInt (Suc (Suc i)) ws = Some (j, ws1)" "i \<le> sure ws1" "sure ws \<le> 1 + sure ws1"
      by (rule drawsD [OF one])
    have "draws i (shuffle_down i (xs[Suc i := xs ! j, j := xs ! Suc i]))"
      using Suc by simp
    moreover have "i + 0 \<le> sure ws1"
      using j(2) by simp
    ultimately obtain ys ws2 where "shuffle_down i (xs[Suc i := xs ! j, j := xs ! Suc i]) ws1 = Some (ys, ws2)"
        "sure ws1 \<le> i + sure ws2"
      by (rule drawsD)
    with j show "\<exists>x ws'. shuffle_down (Suc i) xs ws = Some (x, ws') \<and> sure ws \<le> Suc i + sure ws'"
      by simp
  qed
qed (simp add: draws_def)

subsection \<open>Shapes\<close>

lemma pick_in: "s \<noteq> [] \<Longrightarrow> pick s ws = Some (c, ws') \<Longrightarrow> \<exists>x \<in> set s. c = [x]"
proof -
  assume "s \<noteq> []" "pick s ws = Some (c, ws')"
  then obtain i where "randomInt (length s) ws = Some (i, ws')" "c = take 1 (drop i s)"
    by (auto simp: pick_def split: option.splits)
  with \<open>s \<noteq> []\<close> have "i < length s" "c = [s ! i]"
    using randomInt_bound [of "length s" ws i ws'] by (auto simp: take_Suc_conv_app_nth hd_drop_conv_nth take_Suc)
  then show ?thesis by auto
qed

lemma pick_each_in:
  "[] \<notin> set ss \<Longrightarrow> pick_each ss ws = Some (cs, ws') \<Longrightarrow> list_all2 (\<lambda>s c. \<exists>x \<in> set s. c = [x]) ss cs"
proof (induction ss arbitrary: ws cs)
  case (Cons s ss)
  then show ?case
    using pick_in [of s ws] by (fastforce split: option.splits)
qed simp

lemma mset_swap_items: "i < length xs \<Longrightarrow> j < length xs \<Longrightarrow> mset (xs[i := xs ! j, j := xs ! i]) = mset xs"
  by (cases "i = j") (simp_all add: mset_swap)

lemma shuffle_mset: "i < length xs \<Longrightarrow> shuffle_down i xs ws = Some (ys, ws') \<Longrightarrow> mset ys = mset xs"
proof (induction i arbitrary: xs ws)
  case (Suc i)
  from Suc.prems(2) obtain j ws1 where j: "randomInt (Suc (Suc i)) ws = Some (j, ws1)"
      "shuffle_down i (xs[Suc i := xs ! j, j := xs ! Suc i]) ws1 = Some (ys, ws')"
    by (auto split: option.splits)
  then have "j < length xs"
    using randomInt_bound [of "Suc (Suc i)" ws j ws1] Suc.prems(1) by simp
  then show ?case
    using Suc.IH [OF _ j(2)] mset_swap_items [of "Suc i" xs j] Suc.prems(1) by simp
qed simp

lemma shuffle_items_mset: "xs \<noteq> [] \<Longrightarrow> shuffle_items xs ws = Some (ys, ws') \<Longrightarrow> mset ys = mset xs"
  using shuffle_mset [of "length xs - 1" xs ws ys ws'] by (cases xs) (simp_all add: shuffle_items_def)

lemma class_lengths:
  "length LOWERCASE = 26" "length UPPERCASE = 26" "length DIGITS = 10" "length DEFAULT_SYMBOLS = 26"
  by (simp_all add: LOWERCASE_def UPPERCASE_def DIGITS_def DEFAULT_SYMBOLS_def)

lemma clamp_range: "lo \<le> hi \<Longrightarrow> lo \<le> clamp v lo hi \<and> clamp v lo hi \<le> hi"
  by (auto simp: clamp_def split: option.splits)

text \<open>Filtering for ambiguity leaves characters in every fixed class.\<close>

lemma length_without: "length (withoutAmbiguous c) \<le> length c"
  by (simp add: withoutAmbiguous_def)

lemma strip_length: "length (strip P s) \<le> length s"
  unfolding strip_def by (metis length_dropWhile_le length_rev le_trans)

lemma classes_spec:
  "characterClasses s \<noteq> [] \<and> length (characterClasses s) \<le> 4 \<and> [] \<notin> set (characterClasses s) \<and>
   list_all (\<lambda>c. length c \<le> max 26 (length (gs_symbolSet s))) (characterClasses s)"
proof -
  let ?f = "\<lambda>chars. if gs_avoidAmbiguous s then withoutAmbiguous chars else chars"
  have f: "length (?f c) \<le> length c" for c
    using length_without by simp
  let ?sym = "?f (if trim (gs_symbolSet s) = [] then DEFAULT_SYMBOLS else trim (gs_symbolSet s))"
  define sets where "sets = (if gs_lowercase s then [?f LOWERCASE] else []) @ (if gs_uppercase s then [?f UPPERCASE] else []) @
      (if gs_digits s then [?f DIGITS] else []) @ (if gs_symbols s \<and> ?sym \<noteq> [] then [?sym] else [])"
  have classes: "characterClasses s = (let u = filter (\<lambda>c. length c > 0) sets in if length u > 0 then u else [LOWERCASE])"
    by (simp add: characterClasses_def Let_def sets_def)
  have "length ?sym \<le> max 26 (length (gs_symbolSet s))"
    using f [of "if trim (gs_symbolSet s) = [] then DEFAULT_SYMBOLS else trim (gs_symbolSet s)"]
      strip_length [of is_space "gs_symbolSet s"] class_lengths(4)
    by (simp add: trim_def le_max_iff_disj split: if_splits)
  then have bound: "length c \<le> max 26 (length (gs_symbolSet s))" if "c \<in> set sets" for c
    using that f [of LOWERCASE] f [of UPPERCASE] f [of DIGITS] class_lengths unfolding sets_def
    by (auto simp: le_max_iff_disj split: if_splits)
  have "length sets \<le> 4"
    by (simp add: sets_def)
  then have "length (filter (\<lambda>c. length c > 0) sets) \<le> 4"
    using length_filter_le le_trans by blast
  then show ?thesis
    unfolding classes Let_def using bound class_lengths(1) by (simp add: list_all_iff LOWERCASE_def le_max_iff_disj)
qed

lemma concat_singletons:
  "list_all2 (\<lambda>s c. \<exists>x \<in> set s. c = [x]) ss cs \<Longrightarrow>
   length (concat cs) = length ss \<and> set (concat cs) \<subseteq> \<Union> (set ` set ss) \<and>
   (\<forall>s \<in> set ss. \<exists>x \<in> set s. x \<in> set (concat cs)) \<and> length cs = length ss"
proof (induction rule: list_all2_induct)
  case (Cons s ss c cs)
  then obtain x where x: "x \<in> set s" "c = [x]" by blast
  have "\<forall>t \<in> set (s # ss). \<exists>x \<in> set t. x \<in> set (concat (c # cs))"
  proof
    fix t assume "t \<in> set (s # ss)"
    then consider "t = s" | "t \<in> set ss" by auto
    then show "\<exists>x \<in> set t. x \<in> set (concat (c # cs))"
    proof cases
      case 2
      with Cons.IH obtain y where "y \<in> set t" "y \<in> set (concat cs)" by blast
      then show ?thesis by (intro bexI [of _ y]) simp_all
    qed (use x in auto)
  qed
  moreover have "set (concat (c # cs)) \<subseteq> \<Union> (set ` set (s # ss))"
    using x Cons.IH by auto
  ultimately show ?case
    using Cons.IH by (simp only: list.size concat.simps length_append x) simp
qed simp

text \<open>The number of sure words a password or PIN may need.\<close>

lemma password_returns:
  assumes "255 \<le> sure ws" "length (gs_symbolSet s) \<le> 1000000"
  shows "\<exists>p ws'. generatePassword s ws = Some (p, ws')"
proof (cases "gs_mode s = PinMode")
  case True
  let ?ss = "replicate (nat (clamp (gs_pinLength s) MIN_PIN MAX_PIN)) DIGITS"
  have "draws (length ?ss) (pick_each ?ss)"
    by (rule draws_pick_each) (simp add: list_all_iff class_lengths)
  moreover have "length ?ss + 0 \<le> sure ws"
    using assms(1) clamp_range [of MIN_PIN MAX_PIN "gs_pinLength s"] by (auto simp: MIN_PIN_def MAX_PIN_def)
  ultimately obtain cs ws1 where "pick_each ?ss ws = Some (cs, ws1)"
    by (rule drawsD)
  then show ?thesis
    using True by (simp add: generatePassword_def)
next
  case False
  let ?sets = "characterClasses s"
  let ?n = "nat (clamp (gs_length s) MIN_LENGTH MAX_LENGTH)"
  note classes = classes_spec [of s]
  have n: "8 \<le> ?n" "?n \<le> 128"
    using clamp_range [of MIN_LENGTH MAX_LENGTH "gs_length s"] by (auto simp: MIN_LENGTH_def MAX_LENGTH_def)
  then have all: "take ?n ?sets = ?sets"
    using classes by simp
  have small: "length c \<le> 1000000" if "c \<in> set ?sets" for c
    using classes that assms(2) by (fastforce simp: list_all_iff)
  then have "draws (length ?sets) (pick_each ?sets)"
    by (intro draws_pick_each) (fastforce simp: list_all_iff)
  moreover have "length ?sets + (255 - length ?sets) \<le> sure ws"
    using classes assms(1) by simp
  ultimately obtain first ws1 where first: "pick_each ?sets ws = Some (first, ws1)" "255 - length ?sets \<le> sure ws1"
    by (rule drawsD)
  have len: "length first = length ?sets"
    using concat_singletons [OF pick_each_in [OF _ first(1)]] classes by blast
  let ?rest = "replicate (?n - length first) (concat ?sets)"
  have "sum_list (map length ?sets) \<le> length ?sets * 1000000"
    using small sum_list_mono [of ?sets length "\<lambda>_. 1000000"] by (simp add: sum_list_triv)
  then have "length (concat ?sets) \<le> 2 ^ 31"
    using classes by (simp add: length_concat)
  then have "draws (length ?rest) (pick_each ?rest)"
    by (intro draws_pick_each) (simp add: list_all_iff)
  moreover have "length ?rest + 127 \<le> sure ws1"
    using first(2) len n classes by simp
  ultimately obtain rest ws2 where rest: "pick_each ?rest ws1 = Some (rest, ws2)" "127 \<le> sure ws2"
    by (rule drawsD)
  have "length rest = ?n - length first"
    using concat_singletons [OF pick_each_in [OF _ rest(1)]] classes by (cases ?sets) fastforce+
  then have "length (first @ rest) - 1 \<le> 127"
    using n len classes by simp
  moreover from this have "draws (length (first @ rest) - 1) (shuffle_down (length (first @ rest) - 1) (first @ rest))"
    by (intro draws_shuffle) simp
  ultimately obtain out ws3 where "shuffle_down (length (first @ rest) - 1) (first @ rest) ws2 = Some (out, ws3)"
    using rest(2) unfolding draws_def by (meson le_trans)
  then show ?thesis
    using False all first(1) rest(1) by (simp add: generatePassword_def Let_def shuffle_items_def)
qed

subsection \<open>Properties\<close>

text \<open>Property C28: random numbers are unbiased. Whatever the bound up to \<open>2 ^ 32\<close>, every number below it
  is the result of exactly as many 32-bit words as any other, and every other word is rejected.\<close>

theorem random_numbers_are_uniform:
  assumes "1 < bound" "bound \<le> 2 ^ 32" "k < bound"
  shows "card {w. randomInt bound [w] = Some (k, [])} = 2 ^ 32 div bound \<and>
    {w. randomInt bound [w] = None} = {w. accept_limit bound \<le> unat w}"
proof -
  let ?n = "2 ^ 32 div bound :: nat"
  let ?word = "\<lambda>q. of_nat (k + bound * q) :: 32 word"
  have small: "k + bound * q < accept_limit bound" if "q < ?n" for q
  proof -
    have "bound * Suc q \<le> bound * ?n"
      using that by (intro mult_le_mono2) simp
    then show ?thesis
      using assms(3) by (simp add: accept_limit_def mult.commute)
  qed
  then have unat: "unat (?word q) = k + bound * q" if "q < ?n" for q
  proof -
    have "k + bound * q < 2 ^ 32"
      using small [OF that] accept_limit_bounds [of bound] assms(1) by linarith
    then show ?thesis
      by (subst unat_of_nat) simp
  qed
  have "{w. randomInt bound [w] = Some (k, [])} = {w. unat w < accept_limit bound \<and> unat w mod bound = k}"
    using assms(1) by (auto simp: randomInt_def)
  also have "\<dots> = ?word ` {..< ?n}"
  proof (intro equalityI subsetI)
    fix w :: "32 word" assume "w \<in> {w. unat w < accept_limit bound \<and> unat w mod bound = k}"
    then have w: "unat w < accept_limit bound" "unat w mod bound = k" by simp_all
    have "w = ?word (unat w div bound)"
    proof -
      have "k + bound * (unat w div bound) = unat w"
        using w(2) mult_div_mod_eq [of bound "unat w"] by linarith
      then show ?thesis
        by (metis of_nat_unat ucast_id)
    qed
    moreover have "unat w div bound < ?n"
      using w(1) assms(1) by (simp add: accept_limit_def less_mult_imp_div_less)
    ultimately show "w \<in> ?word ` {..< ?n}" by blast
  next
    fix w assume "w \<in> ?word ` {..< ?n}"
    then obtain q where "q < ?n" "w = ?word q" by blast
    then show "w \<in> {w. unat w < accept_limit bound \<and> unat w mod bound = k}"
      using unat [of q] small [of q] assms(3) by simp
  qed
  finally have "card {w. randomInt bound [w] = Some (k, [])} = card (?word ` {..< ?n})"
    by simp
  also have "\<dots> = ?n"
  proof (subst card_image)
    show "inj_on ?word {..< ?n}"
      using unat assms(1) by (intro inj_onI) (metis add_left_cancel lessThan_iff mult_cancel1 not_one_less_zero)
  qed simp
  finally have "card {w. randomInt bound [w] = Some (k, [])} = ?n" .
  moreover have "{w. randomInt bound [w] = None} = {w. accept_limit bound \<le> unat w}"
    using assms(1) by (auto simp: randomInt_def not_less)
  ultimately show ?thesis by blast
qed

lemma password_in_classes:
  assumes "generatePassword s ws = Some (p, ws')"
  shows "if gs_mode s = PinMode
    then int (length p) = clamp (gs_pinLength s) 4 12 \<and> set p \<subseteq> set DIGITS
    else int (length p) = clamp (gs_length s) 8 128 \<and> set p \<subseteq> \<Union> (set ` set (characterClasses s)) \<and>
      (\<forall>c \<in> set (characterClasses s). \<exists>x \<in> set c. x \<in> set p)"
proof (cases "gs_mode s = PinMode")
  case True
  let ?n = "nat (clamp (gs_pinLength s) MIN_PIN MAX_PIN)"
  obtain cs where cs: "pick_each (replicate ?n DIGITS) ws = Some (cs, ws')" "p = concat cs"
    using assms True by (auto simp: generatePassword_def)
  have "[] \<notin> set (replicate ?n DIGITS)"
    by (auto simp: DIGITS_def)
  from concat_singletons [OF pick_each_in [OF this cs(1)]] have "length p = ?n" "set p \<subseteq> set DIGITS"
    using cs(2) by auto
  moreover have "0 \<le> clamp (gs_pinLength s) MIN_PIN MAX_PIN"
    using clamp_range [of MIN_PIN MAX_PIN "gs_pinLength s"] by (simp add: MIN_PIN_def MAX_PIN_def)
  ultimately show ?thesis
    using True by (simp add: MIN_PIN_def MAX_PIN_def)
next
  case False
  let ?sets = "characterClasses s"
  let ?n = "nat (clamp (gs_length s) MIN_LENGTH MAX_LENGTH)"
  note classes = classes_spec [of s]
  have n: "8 \<le> ?n" "int ?n = clamp (gs_length s) 8 128"
    using clamp_range [of MIN_LENGTH MAX_LENGTH "gs_length s"] by (auto simp: MIN_LENGTH_def MAX_LENGTH_def)
  then have all: "take ?n ?sets = ?sets"
    using classes by simp
  obtain first ws1 rest ws2 out where run: "pick_each ?sets ws = Some (first, ws1)"
      "pick_each (replicate (?n - length first) (concat ?sets)) ws1 = Some (rest, ws2)"
      "shuffle_items (first @ rest) ws2 = Some (out, ws')" "p = concat out"
    using assms False all by (auto simp: generatePassword_def Let_def split: option.splits)
  have one: "list_all2 (\<lambda>s c. \<exists>x \<in> set s. c = [x]) ?sets first"
    using pick_each_in [OF _ run(1)] classes by blast
  have "concat ?sets \<noteq> []"
    using classes by (cases ?sets) auto
  then have more: "list_all2 (\<lambda>s c. \<exists>x \<in> set s. c = [x]) (replicate (?n - length first) (concat ?sets)) rest"
    using pick_each_in [OF _ run(2)] by auto
  note c1 = concat_singletons [OF one] and c2 = concat_singletons [OF more]
  have "first @ rest \<noteq> []"
    using c1 classes by (cases first) auto
  from shuffle_items_mset [OF this run(3)] have perm: "mset out = mset (first @ rest)" .
  then have "set out = set (first @ rest)" "length (concat out) = length (concat (first @ rest))"
    using mset_eq_setD by (blast, simp add: length_concat flip: sum_mset_sum_list)
  then have "set p = set (concat first) \<union> set (concat rest)" "length p = length (concat first) + length (concat rest)"
    unfolding run(4) by simp_all
  moreover have "set (concat rest) \<subseteq> \<Union> (set ` set ?sets)"
  proof -
    have "set (concat rest) \<subseteq> \<Union> (set ` set (replicate (?n - length first) (concat ?sets)))"
      using c2 by blast
    also have "\<dots> \<subseteq> set (concat ?sets)"
      by (simp add: set_replicate_conv_if)
    finally show ?thesis by simp
  qed
  moreover have "length (concat first) + length (concat rest) = ?n"
    using c1 c2 classes n(1) by simp
  ultimately have p: "set p = set (concat first) \<union> set (concat rest)" "int (length p) = clamp (gs_length s) 8 128"
      "set (concat rest) \<subseteq> \<Union> (set ` set ?sets)"
    using n(2) by simp_all
  moreover have "\<exists>x \<in> set c. x \<in> set p" if "c \<in> set ?sets" for c
    using c1 that unfolding p(1) by blast
  ultimately show ?thesis
    using False c1 by simp
qed

text \<open>The classes a setting asks for, spelled out: the symbols are those of the trimmed symbol set, or
  the built-in ones when it is blank; with ambiguous characters avoided, seven characters are out.\<close>

definition asked_symbols :: "generator_settings \<Rightarrow> string" where
  "asked_symbols s = (if trim (gs_symbolSet s) = [] then ''!@#$%^&*()_+-=[]{}|;:,.<>?'' else trim (gs_symbolSet s))"

definition readable :: "generator_settings \<Rightarrow> char \<Rightarrow> bool" where
  "readable s x \<longleftrightarrow> \<not> (gs_avoidAmbiguous s \<and> x \<in> set ''Il1|O0o'')"

definition asked_classes :: "generator_settings \<Rightarrow> string list" where
  "asked_classes s = filter (\<lambda>c. c \<noteq> []) (map (filter (readable s))
     ((if gs_lowercase s then [''abcdefghijklmnopqrstuvwxyz''] else []) @
      (if gs_uppercase s then [''ABCDEFGHIJKLMNOPQRSTUVWXYZ''] else []) @ (if gs_digits s then [''0123456789''] else []) @
      (if gs_symbols s then [asked_symbols s] else [])))"

lemma character_classes:
  "characterClasses s = (if asked_classes s = [] then [''abcdefghijklmnopqrstuvwxyz''] else asked_classes s)"
proof -
  have f: "(\<lambda>c. if gs_avoidAmbiguous s then withoutAmbiguous c else c) = filter (readable s)"
    by (rule ext) (simp add: withoutAmbiguous_def AMBIGUOUS_def readable_def cong: filter_cong)
  have "filter (\<lambda>c. length c > 0) ((if gs_lowercase s then [filter (readable s) LOWERCASE] else []) @
      (if gs_uppercase s then [filter (readable s) UPPERCASE] else []) @
      (if gs_digits s then [filter (readable s) DIGITS] else []) @
      (if gs_symbols s \<and> filter (readable s) (asked_symbols s) \<noteq> [] then [filter (readable s) (asked_symbols s)] else [])) =
      asked_classes s"
    unfolding asked_classes_def [folded LOWERCASE_def UPPERCASE_def DIGITS_def]
    by (cases "gs_lowercase s"; cases "gs_uppercase s"; cases "gs_digits s"; cases "gs_symbols s") simp_all
  then show ?thesis
    unfolding characterClasses_def Let_def LOWERCASE_def [symmetric]
    by (simp only: fun_cong [OF f] asked_symbols_def DEFAULT_SYMBOLS_def [symmetric] length_greater_0_conv) simp
qed

lemma asked_class:
  "c \<in> set (asked_classes s) \<longleftrightarrow> c \<noteq> [] \<and>
     (gs_lowercase s \<and> c = filter (readable s) ''abcdefghijklmnopqrstuvwxyz'' \<or>
      gs_uppercase s \<and> c = filter (readable s) ''ABCDEFGHIJKLMNOPQRSTUVWXYZ'' \<or>
      gs_digits s \<and> c = filter (readable s) ''0123456789'' \<or> gs_symbols s \<and> c = filter (readable s) (asked_symbols s))"
  unfolding asked_classes_def [folded LOWERCASE_def UPPERCASE_def DIGITS_def] LOWERCASE_def [symmetric]
    UPPERCASE_def [symmetric] DIGITS_def [symmetric]
  by (cases "gs_lowercase s"; cases "gs_uppercase s"; cases "gs_digits s"; cases "gs_symbols s") auto

lemma class_used:
  assumes "\<forall>c \<in> set (characterClasses s). \<exists>x \<in> set c. x \<in> set p" "filter (readable s) c \<in> set (asked_classes s)"
  shows "\<exists>x \<in> set p. x \<in> set c \<and> readable s x"
proof -
  have "filter (readable s) c \<in> set (characterClasses s)"
    using assms(2) by (auto simp: character_classes)
  then show ?thesis
    using assms(1) by fastforce
qed

lemma some_readable: "readable s CHR ''a''" "readable s CHR ''A''" "readable s CHR ''2''"
  by (simp_all add: readable_def)

lemma some_class:
  "gs_lowercase s \<Longrightarrow> filter (readable s) ''abcdefghijklmnopqrstuvwxyz'' \<in> set (asked_classes s)"
  "gs_uppercase s \<Longrightarrow> filter (readable s) ''ABCDEFGHIJKLMNOPQRSTUVWXYZ'' \<in> set (asked_classes s)"
  "gs_digits s \<Longrightarrow> filter (readable s) ''0123456789'' \<in> set (asked_classes s)"
  "gs_symbols s \<Longrightarrow> y \<in> set (asked_symbols s) \<Longrightarrow> readable s y \<Longrightarrow> filter (readable s) (asked_symbols s) \<in> set (asked_classes s)"
  by (simp_all add: asked_class some_readable del: filter.simps add: filter_empty_conv)
    (blast intro: some_readable)+

lemma classes_only:
  assumes "c \<in> set (characterClasses s)" "x \<in> set c"
  shows "(gs_lowercase s \<and> x \<in> set ''abcdefghijklmnopqrstuvwxyz'' \<or>
      gs_uppercase s \<and> x \<in> set ''ABCDEFGHIJKLMNOPQRSTUVWXYZ'' \<or> gs_digits s \<and> x \<in> set ''0123456789'' \<or>
      gs_symbols s \<and> x \<in> set (asked_symbols s)) \<and> readable s x \<or>
    \<not> gs_lowercase s \<and> \<not> gs_uppercase s \<and> \<not> gs_digits s \<and>
    \<not> (gs_symbols s \<and> (\<exists>y \<in> set (asked_symbols s). readable s y)) \<and> x \<in> set ''abcdefghijklmnopqrstuvwxyz''"
proof (cases "asked_classes s = []")
  case True
  then have "\<not> gs_lowercase s" "\<not> gs_uppercase s" "\<not> gs_digits s"
      "\<not> (gs_symbols s \<and> (\<exists>y \<in> set (asked_symbols s). readable s y))"
    using some_class [of s] by auto
  moreover have "x \<in> set ''abcdefghijklmnopqrstuvwxyz''"
    using assms unfolding character_classes if_P [OF True] by simp
  ultimately show ?thesis by blast
next
  case False
  then have "c \<in> set (asked_classes s)"
    using assms(1) by (simp add: character_classes)
  then show ?thesis
    using assms(2) unfolding asked_class by (elim conjE disjE) (simp_all only: set_filter mem_Collect_eq, blast+)
qed


text \<open>Generation ends. When 255 of the words drawn are below \<open>2 ^ 31\<close>, which each word is
  with probability one half, a password or PIN is returned, whatever the settings. (The symbol set has at
  most a million characters.)\<close>

lemma generation_ends:
  assumes "255 \<le> sure ws" "length (gs_symbolSet s) \<le> 1000000"
  shows "generatePassword s ws \<noteq> None"
  using password_returns [OF assms] by auto

text \<open>Settings the generator stores: whole numbers in their ranges and some class enabled.\<close>

definition whole_in :: "rat option \<Rightarrow> int \<Rightarrow> int \<Rightarrow> bool" where
  "whole_in v lo hi \<longleftrightarrow> (case v of None \<Rightarrow> False | Some x \<Rightarrow> x = of_int \<lfloor>x\<rfloor> \<and> lo \<le> \<lfloor>x\<rfloor> \<and> \<lfloor>x\<rfloor> \<le> hi)"

definition settings_ok :: "generator_settings \<Rightarrow> bool" where
  "settings_ok s \<longleftrightarrow> whole_in (gs_length s) 8 128 \<and> whole_in (gs_words s) 3 12 \<and> whole_in (gs_pinLength s) 4 12 \<and>
     trim (gs_symbolSet s) \<noteq> [] \<and> length (gs_separator s) \<le> 3 \<and>
     (gs_lowercase s \<or> gs_uppercase s \<or> gs_digits s \<or> gs_symbols s)"

definition mode_name :: "generator_mode \<Rightarrow> string" where
  "mode_name m = (case m of PasswordMode \<Rightarrow> ''password'' | PassphraseMode \<Rightarrow> ''passphrase'' | PinMode \<Rightarrow> ''pin'')"

text \<open>The object stored for given settings.\<close>

definition stored_settings :: "generator_settings \<Rightarrow> stored_value" where
  "stored_settings s = Fields (\<lambda>k. case map_of
     [(''mode'', JsString (mode_name (gs_mode s))), (''length'', JsNumber (gs_length s)),
      (''lowercase'', JsBool (gs_lowercase s)), (''uppercase'', JsBool (gs_uppercase s)), (''digits'', JsBool (gs_digits s)),
      (''symbols'', JsBool (gs_symbols s)), (''avoidAmbiguous'', JsBool (gs_avoidAmbiguous s)),
      (''symbolSet'', JsString (gs_symbolSet s)), (''words'', JsNumber (gs_words s)),
      (''separator'', JsString (gs_separator s)), (''capitalize'', JsBool (gs_capitalize s)),
      (''wordNumber'', JsBool (gs_wordNumber s)), (''pinLength'', JsNumber (gs_pinLength s))] k of
     None \<Rightarrow> JsOther | Some v \<Rightarrow> v)"

lemma whole_num_or: "lo \<le> hi \<Longrightarrow> whole_in d lo hi \<Longrightarrow> whole_in (num_or v lo hi d) lo hi"
  using clamp_range [of lo hi] by (cases "(v, lo, hi, d)" rule: num_or.cases) (simp_all add: whole_in_def)

lemma num_or_whole: "whole_in v lo hi \<Longrightarrow> num_or (JsNumber v) lo hi d = v"
proof -
  assume w: "whole_in v lo hi"
  then obtain x where x: "v = Some x" "x = of_int \<lfloor>x\<rfloor>" "lo \<le> \<lfloor>x\<rfloor>" "\<lfloor>x\<rfloor> \<le> hi"
    by (auto simp: whole_in_def split: option.splits)
  have "\<lfloor>of_int \<lfloor>x\<rfloor> + 1 / 2 :: rat\<rfloor> = \<lfloor>x\<rfloor>"
    by (rule floor_unique) simp_all
  then have "\<lfloor>x + 1 / 2\<rfloor> = \<lfloor>x\<rfloor>"
    using x(2) by metis
  then show ?thesis
    using x by (simp add: clamp_def)
qed

lemma default_settings_ok: "settings_ok DEFAULT_GENERATOR_SETTINGS"
  by (simp add: settings_ok_def DEFAULT_GENERATOR_SETTINGS_def whole_in_def DEFAULT_SYMBOLS_def trim_def strip_def is_space_def)

text \<open>Property C29: stored settings are made well formed, once. Whatever value is stored, of any type and
  with any fields, the settings read from it are usable: lengths are whole numbers in their ranges, some
  class is enabled, the symbols are not blank and the separator is short; and storing those settings and
  reading them back changes nothing.\<close>

theorem normalized_settings_well_formed:
  "settings_ok (normalizeGeneratorSettings raw) \<and>
   normalizeGeneratorSettings (stored_settings (normalizeGeneratorSettings raw)) = normalizeGeneratorSettings raw"
proof -
  note d = default_settings_ok [unfolded settings_ok_def]
  have ok: "settings_ok (normalizeGeneratorSettings raw)"
  proof (cases raw)
    case NoObject
    then show ?thesis
      using default_settings_ok by (simp add: normalizeGeneratorSettings_def)
  next
    case (Fields r)
    define sym where "sym = (case r ''symbolSet'' of JsString x \<Rightarrow> if trim x \<noteq> [] then x else gs_symbolSet DEFAULT_GENERATOR_SETTINGS
        | _ \<Rightarrow> gs_symbolSet DEFAULT_GENERATOR_SETTINGS)"
    define sep where "sep = (case r ''separator'' of JsString x \<Rightarrow> take MAX_SEPARATOR x | _ \<Rightarrow> gs_separator DEFAULT_GENERATOR_SETTINGS)"
    have "trim sym \<noteq> []" "length sep \<le> 3"
      using d by (auto simp: sym_def sep_def MAX_SEPARATOR_def split: js_value.splits)
    then show ?thesis
      using d whole_num_or unfolding Fields normalizeGeneratorSettings_def settings_ok_def Let_def
      by (simp add: sym_def [symmetric] sep_def [symmetric] MIN_LENGTH_def MAX_LENGTH_def MIN_WORDS_def MAX_WORDS_def
          MIN_PIN_def MAX_PIN_def)
  qed
  have "normalizeGeneratorSettings (stored_settings s) = s" if "settings_ok s" for s
    using that by (simp add: settings_ok_def normalizeGeneratorSettings_def stored_settings_def Let_def num_or_whole
        MIN_LENGTH_def MAX_LENGTH_def MIN_WORDS_def MAX_WORDS_def MIN_PIN_def MAX_PIN_def MAX_SEPARATOR_def mode_name_def
        split: generator_mode.split)
  with ok show ?thesis by blast
qed

text \<open>A passphrase without a number is the asked count of words of the list, joined.\<close>

lemma draw_words_in:
  "wordlist \<noteq> [] \<Longrightarrow> draw_words n wordlist ws = Some (r, ws') \<Longrightarrow> length r = n \<and> set r \<subseteq> set wordlist"
proof (induction n arbitrary: ws r)
  case (Suc n)
  then show ?case
    using randomInt_bound [of "length wordlist" ws] by (fastforce split: option.splits)
qed simp

lemma passphrase_words:
  assumes "generatePassphrase upper s wordlist ws = Some (p, ws')" "\<not> gs_wordNumber s" "wordlist \<noteq> []"
  shows "\<exists>r. p = join_with (gs_separator s) (if gs_capitalize s then map (capitalizeWord upper) r else r) \<and>
    int (length r) = clamp (gs_words s) 3 12 \<and> set r \<subseteq> set wordlist"
proof -
  obtain r where r: "draw_words (nat (clamp (gs_words s) MIN_WORDS MAX_WORDS)) wordlist ws = Some (r, ws')"
      "p = join_with (gs_separator s) (if gs_capitalize s then map (capitalizeWord upper) r else r)"
    using assms(1,2) by (auto simp: generatePassphrase_def Let_def split: option.splits)
  with draw_words_in [OF assms(3) r(1)] clamp_range [of MIN_WORDS MAX_WORDS "gs_words s"] show ?thesis
    by (intro exI [of _ r]) (simp add: MIN_WORDS_def MAX_WORDS_def)
qed

subsection \<open>Witnesses\<close>

theorem random_numbers_are_uniform_witness:
  "card {w :: 32 word. randomInt 10 [w] = Some (3, [])} = 429496729"
  using random_numbers_are_uniform [of 10 3] by simp

lemma sample_draws: "255 \<le> sure (replicate 255 0)"
  by (simp add: sure_def)


end
