(* ===== verification/Mesh.thy ===== *)
theory Mesh
  imports Vault_Prelude
begin

text \<open>
  Peer discovery and transport choice over a relay (\<open>packages/core/src/sync/transport/mesh.ts\<close>).

  The mesh is one state; its events are the results its awaits settle with, socket and channel
  callbacks, timers and calls, in any order. Key derivation, signing, verification and encryption
  run outside: \<open>mo_room\<close> names the room of an epoch, and an event that is our own echo, badly
  signed or not encrypted under the group key is dropped before \<open>Incoming\<close>. Sockets and transports
  are numbered. A transport's framing is \<open>relay-channel.ts\<close> (theory Channels); what is announced,
  handed over and closed is the log. Status lines are not modelled.
\<close>

record mesh_opts =
  mo_me :: string
  mo_rtc :: bool
  mo_epochRooms :: bool
  mo_room :: "int option \<Rightarrow> string"

definition RECONNECT_BASE_MS :: nat where
  "RECONNECT_BASE_MS = 1000"

definition RECONNECT_MAX_MS :: nat where
  "RECONNECT_MAX_MS = 30000"

datatype transport = Webrtc | Relay

datatype mesh_effect =
    SaidHello
  | Subscribed "string list"
  | MadePeer string nat bool
  | HandedOver string nat bool transport
  | ReconnectIn nat
  | ClosedTransport nat
  | ClosedSocket nat

datatype purpose = InitialStart | Restart | Reroll

datatype roll_task =
    Derive purpose "int option"
  | DerivePrevious purpose string int

datatype timer = Unset | Ticking | Cleared

datatype socket_phase = Connecting | OpenSocket | ClosedAlready

record mesh_state =
  mh_peers :: "(string \<times> nat) list"
  mh_relayPeers :: "(string \<times> nat) list"
  mh_conns :: "(nat \<times> string \<times> bool \<times> transport) list"
  mh_known :: "string list"
  mh_socket :: "nat option"
  mh_sock :: "nat \<Rightarrow> socket_phase option"
  mh_tasks :: "nat \<Rightarrow> roll_task option"
  mh_epoch :: int
  mh_rooms :: "string list"
  mh_publishRoom :: string
  mh_rollTimer :: timer
  mh_announceTimer :: timer
  mh_reconnect :: bool
  mh_attempts :: nat
  mh_stopped :: bool
  mh_next :: nat
  mh_log :: "mesh_effect list"

definition new_mesh :: mesh_state where
  "new_mesh = \<lparr>mh_peers = [], mh_relayPeers = [], mh_conns = [], mh_known = [], mh_socket = None, mh_sock = (\<lambda>_. None),
     mh_tasks = (\<lambda>_. None), mh_epoch = 0, mh_rooms = [], mh_publishRoom = [], mh_rollTimer = Unset,
     mh_announceTimer = Unset, mh_reconnect = False, mh_attempts = 0, mh_stopped = False, mh_next = 0, mh_log = []\<rparr>"

definition say :: "mesh_effect list \<Rightarrow> mesh_state \<Rightarrow> mesh_state" where
  "say fx s = s\<lparr>mh_log := mh_log s @ fx\<rparr>"

definition sendHello :: "mesh_state \<Rightarrow> mesh_state" where
  "sendHello = say [SaidHello]"

definition task_to :: "nat \<Rightarrow> roll_task option \<Rightarrow> mesh_state \<Rightarrow> mesh_state" where
  "task_to i t s = s\<lparr>mh_tasks := (mh_tasks s)(i := t)\<rparr>"

subsection \<open>Sockets and rooms\<close>

text \<open>\<open>roll\<close> up to its first await.\<close>

definition roll_begin :: "mesh_opts \<Rightarrow> purpose \<Rightarrow> nat \<Rightarrow> int \<Rightarrow> mesh_state \<Rightarrow> mesh_state" where
  "roll_begin opts p i now s =
     (if mo_epochRooms opts then task_to i (Some (Derive p (Some now))) (s\<lparr>mh_epoch := now\<rparr>)
      else task_to i (Some (Derive p None)) s)"

text \<open>\<open>start\<close> after \<open>roll\<close>: one stretch without an await.\<close>

definition open_socket :: "mesh_opts \<Rightarrow> mesh_state \<Rightarrow> mesh_state" where
  "open_socket opts s =
     (let n = mh_next s;
          s = sendHello (s\<lparr>mh_next := Suc n, mh_socket := Some n, mh_sock := (mh_sock s)(n := Some Connecting)\<rparr>);
          s = (if mo_epochRooms opts \<and> mh_rollTimer s = Unset then s\<lparr>mh_rollTimer := Ticking\<rparr> else s)
      in if mh_announceTimer s = Unset then s\<lparr>mh_announceTimer := Ticking\<rparr> else s)"

definition rolled :: "mesh_opts \<Rightarrow> purpose \<Rightarrow> mesh_state \<Rightarrow> mesh_state" where
  "rolled opts p s = (if p = Reroll then sendHello (say [Subscribed (mh_rooms s)] s) else open_socket opts s)"

definition reconnect_delay :: "nat \<Rightarrow> nat" where
  "reconnect_delay attempts = min RECONNECT_MAX_MS (RECONNECT_BASE_MS * 2 ^ attempts)"

definition scheduleReconnect :: "mesh_state \<Rightarrow> mesh_state" where
  "scheduleReconnect s =
     (if mh_stopped s \<or> mh_reconnect s then s
      else say [ReconnectIn (reconnect_delay (mh_attempts s))] (s\<lparr>mh_attempts := Suc (mh_attempts s), mh_reconnect := True\<rparr>))"

text \<open>One await of \<open>roll\<close> settled; a failure ends the task, and a restart is tried again.\<close>

definition task_step :: "mesh_opts \<Rightarrow> nat \<Rightarrow> roll_task \<Rightarrow> bool \<Rightarrow> mesh_state \<Rightarrow> mesh_state" where
  "task_step opts i t ok s =
     (case t of
        Derive p (Some e) \<Rightarrow>
          if ok then (let r = mo_room opts (Some e) in task_to i (Some (DerivePrevious p r (mh_epoch s - 1))) (s\<lparr>mh_publishRoom := r\<rparr>))
          else (let s = task_to i None s in if p = Restart then scheduleReconnect s else s)
      | Derive p None \<Rightarrow>
          if ok then (let r = mo_room opts None in rolled opts p (task_to i None (s\<lparr>mh_publishRoom := r, mh_rooms := [r]\<rparr>)))
          else (let s = task_to i None s in if p = Restart then scheduleReconnect s else s)
      | DerivePrevious p r e \<Rightarrow>
          if ok then rolled opts p (task_to i None (s\<lparr>mh_rooms := [r, mo_room opts (Some e)]\<rparr>))
          else (let s = task_to i None s in if p = Restart then scheduleReconnect s else s))"

definition maybeRoll :: "mesh_opts \<Rightarrow> nat \<Rightarrow> int \<Rightarrow> mesh_state \<Rightarrow> mesh_state" where
  "maybeRoll opts i now s = (if \<not> mo_epochRooms opts \<or> now = mh_epoch s then s else roll_begin opts Reroll i now s)"

definition announce :: "mesh_state \<Rightarrow> mesh_state" where
  "announce s =
     sendHello (s\<lparr>mh_known := filter (\<lambda>r. map_of (mh_peers s) r \<noteq> None \<or> map_of (mh_relayPeers s) r \<noteq> None) (mh_known s)\<rparr>)"

subsection \<open>Peers\<close>

definition makePeer :: "string \<Rightarrow> bool \<Rightarrow> mesh_state \<Rightarrow> mesh_state" where
  "makePeer remote initiator s =
     (let i = mh_next s
      in say [MadePeer remote i initiator]
           (s\<lparr>mh_next := Suc i, mh_peers := AList.update remote i (mh_peers s), mh_conns := (i, remote, initiator, Webrtc) # mh_conns s\<rparr>))"

definition ensureRelayPeer :: "string \<Rightarrow> bool \<Rightarrow> mesh_state \<Rightarrow> mesh_state" where
  "ensureRelayPeer remote initiator s =
     (if map_of (mh_relayPeers s) remote \<noteq> None then s
      else (let i = mh_next s
            in say [HandedOver remote i initiator Relay]
                 (s\<lparr>mh_next := Suc i, mh_relayPeers := AList.update remote i (mh_relayPeers s),
                    mh_conns := (i, remote, initiator, Relay) # mh_conns s\<rparr>)))"

text \<open>\<open>setup\<close> tells whether the platform's constructor did not throw.\<close>

definition discover :: "mesh_opts \<Rightarrow> string \<Rightarrow> bool \<Rightarrow> bool \<Rightarrow> mesh_state \<Rightarrow> mesh_state" where
  "discover opts remote remoteRtc setup s =
     (if remote \<in> set (mh_known s) then s
      else
        (let s = sendHello (s\<lparr>mh_known := remote # mh_known s\<rparr>);
             initiator = mo_me opts < remote
         in if mo_rtc opts \<and> remoteRtc then (if initiator \<and> setup then makePeer remote True s else s)
            else ensureRelayPeer remote initiator s))"

definition routeSignal :: "string \<Rightarrow> bool \<Rightarrow> bool \<Rightarrow> mesh_state \<Rightarrow> mesh_state" where
  "routeSignal remote isOffer setup s =
     (if map_of (mh_peers s) remote \<noteq> None \<or> \<not> isOffer then s
      else (let s = s\<lparr>mh_known := List.insert remote (mh_known s)\<rparr>
            in if setup then makePeer remote False s else s))"

datatype mesh_message =
    Hello bool
  | Data "string option"
  | Signal bool "string option"

definition addressed :: "mesh_opts \<Rightarrow> string option \<Rightarrow> bool" where
  "addressed opts to \<longleftrightarrow> to = None \<or> to = Some [] \<or> to = Some (mo_me opts)"

definition handleEvent :: "mesh_opts \<Rightarrow> string \<Rightarrow> mesh_message \<Rightarrow> bool \<Rightarrow> mesh_state \<Rightarrow> mesh_state" where
  "handleEvent opts remote m setup s =
     (if remote = mo_me opts then s
      else (case m of
              Hello rtc \<Rightarrow> discover opts remote rtc setup s
            | Data to \<Rightarrow> if addressed opts to then ensureRelayPeer remote (mo_me opts < remote) s else s
            | Signal isOffer to \<Rightarrow> if addressed opts to then routeSignal remote isOffer setup s else s))"

definition conn_of :: "nat \<Rightarrow> mesh_state \<Rightarrow> (string \<times> bool \<times> transport) option" where
  "conn_of i s = map_of (mh_conns s) i"

text \<open>Callbacks of a WebRTC channel, and the \<open>close\<close> of a relay transport's session.\<close>

definition channel_opened :: "nat \<Rightarrow> mesh_state \<Rightarrow> mesh_state" where
  "channel_opened i s =
     (case conn_of i s of Some (remote, initiator, Webrtc) \<Rightarrow> say [HandedOver remote i initiator Webrtc] s | _ \<Rightarrow> s)"

definition channel_closed :: "nat \<Rightarrow> mesh_state \<Rightarrow> mesh_state" where
  "channel_closed i s =
     (case conn_of i s of
        Some (remote, _, Webrtc) \<Rightarrow> s\<lparr>mh_peers := AList.delete remote (mh_peers s), mh_known := removeAll remote (mh_known s)\<rparr>
      | _ \<Rightarrow> s)"

definition relay_closed :: "nat \<Rightarrow> mesh_state \<Rightarrow> mesh_state" where
  "relay_closed i s =
     (case conn_of i s of
        Some (remote, _, Relay) \<Rightarrow>
          s\<lparr>mh_relayPeers := AList.delete remote (mh_relayPeers s), mh_known := removeAll remote (mh_known s)\<rparr>
      | _ \<Rightarrow> s)"

subsection \<open>The session\<close>

definition stop_mesh :: "mesh_state \<Rightarrow> mesh_state" where
  "stop_mesh s =
     (let stop = (\<lambda>t. if t = Ticking then Cleared else t)
      in say (map (\<lambda>(r, i). ClosedTransport i) (mh_peers s @ mh_relayPeers s) @
              (case mh_socket s of None \<Rightarrow> [] | Some n \<Rightarrow> [ClosedSocket n]))
           (s\<lparr>mh_stopped := True, mh_reconnect := False, mh_rollTimer := stop (mh_rollTimer s),
              mh_announceTimer := stop (mh_announceTimer s), mh_relayPeers := [],
              mh_known := filter (\<lambda>r. map_of (mh_relayPeers s) r = None) (mh_known s)\<rparr>))"

datatype mesh_event =
    TaskSettled nat bool
  | SocketOpened nat
  | SocketClosed nat
  | ReconnectFires nat int
  | RollTick nat int
  | AnnounceTick
  | Incoming string mesh_message bool
  | ChannelOpened nat
  | ChannelClosed nat
  | RelayClosed nat
  | StopMesh

fun mesh_step :: "mesh_opts \<Rightarrow> mesh_event \<Rightarrow> mesh_state \<Rightarrow> mesh_state" where
  "mesh_step opts (TaskSettled i ok) s = (case mh_tasks s i of None \<Rightarrow> s | Some t \<Rightarrow> task_step opts i t ok s)"
| "mesh_step opts (SocketOpened n) s =
     (if mh_sock s n = Some Connecting then s\<lparr>mh_sock := (mh_sock s)(n := Some OpenSocket), mh_attempts := 0\<rparr> else s)"
| "mesh_step opts (SocketClosed n) s =
     (if mh_sock s n = Some Connecting \<or> mh_sock s n = Some OpenSocket
      then scheduleReconnect (s\<lparr>mh_sock := (mh_sock s)(n := Some ClosedAlready)\<rparr>) else s)"
| "mesh_step opts (ReconnectFires i now) s =
     (if mh_reconnect s \<and> mh_tasks s i = None
      then (let s = s\<lparr>mh_reconnect := False\<rparr> in if mh_stopped s then s else roll_begin opts Restart i now s) else s)"
| "mesh_step opts (RollTick i now) s =
     (if mh_rollTimer s = Ticking \<and> mh_tasks s i = None then maybeRoll opts i now s else s)"
| "mesh_step opts AnnounceTick s = (if mh_announceTimer s = Ticking then announce s else s)"
| "mesh_step opts (Incoming remote m setup) s = handleEvent opts remote m setup s"
| "mesh_step opts (ChannelOpened i) s = channel_opened i s"
| "mesh_step opts (ChannelClosed i) s = channel_closed i s"
| "mesh_step opts (RelayClosed i) s = relay_closed i s"
| "mesh_step opts StopMesh s = stop_mesh s"

definition start_mesh :: "mesh_opts \<Rightarrow> int \<Rightarrow> mesh_state" where
  "start_mesh opts now = roll_begin opts InitialStart 0 now new_mesh"

definition mesh_run :: "mesh_opts \<Rightarrow> mesh_event list \<Rightarrow> mesh_state \<Rightarrow> mesh_state" where
  "mesh_run opts es s = fold (mesh_step opts) es s"

subsection \<open>The mesh keeps a connection, or keeps trying\<close>

lemma say_sel [simp]:
  "mh_peers (say fx s) = mh_peers s" "mh_relayPeers (say fx s) = mh_relayPeers s" "mh_known (say fx s) = mh_known s"
  "mh_socket (say fx s) = mh_socket s" "mh_sock (say fx s) = mh_sock s" "mh_tasks (say fx s) = mh_tasks s"
  "mh_reconnect (say fx s) = mh_reconnect s" "mh_stopped (say fx s) = mh_stopped s" "mh_next (say fx s) = mh_next s"
  "mh_attempts (say fx s) = mh_attempts s" "mh_conns (say fx s) = mh_conns s" "mh_log (say fx s) = mh_log s @ fx"
  "mh_announceTimer (say fx s) = mh_announceTimer s" "mh_rollTimer (say fx s) = mh_rollTimer s"
  by (simp_all add: say_def)

lemma task_to_sel [simp]:
  "mh_socket (task_to i t s) = mh_socket s" "mh_sock (task_to i t s) = mh_sock s"
  "mh_tasks (task_to i t s) = (mh_tasks s)(i := t)" "mh_reconnect (task_to i t s) = mh_reconnect s"
  "mh_stopped (task_to i t s) = mh_stopped s" "mh_next (task_to i t s) = mh_next s" "mh_log (task_to i t s) = mh_log s"
  by (simp_all add: task_to_def)

fun task_purpose :: "roll_task \<Rightarrow> purpose" where
  "task_purpose (Derive p e) = p"
| "task_purpose (DerivePrevious p r e) = p"

definition restarting :: "mesh_state \<Rightarrow> bool" where
  "restarting s \<longleftrightarrow> (\<exists>i t. mh_tasks s i = Some t \<and> task_purpose t = Restart)"

definition live_socket :: "mesh_state \<Rightarrow> bool" where
  "live_socket s \<longleftrightarrow>
     (case mh_socket s of None \<Rightarrow> False | Some n \<Rightarrow> mh_sock s n = Some Connecting \<or> mh_sock s n = Some OpenSocket)"

definition trying :: "mesh_state \<Rightarrow> bool" where
  "trying s \<longleftrightarrow> mh_socket s = None \<or> mh_stopped s \<or> live_socket s \<or> mh_reconnect s \<or> restarting s"

definition delays_ok :: "mesh_effect list \<Rightarrow> bool" where
  "delays_ok fx \<longleftrightarrow> (\<forall>d. ReconnectIn d \<in> set fx \<longrightarrow> RECONNECT_BASE_MS \<le> d \<and> d \<le> RECONNECT_MAX_MS)"

lemma delay_range: "RECONNECT_BASE_MS \<le> reconnect_delay k \<and> reconnect_delay k \<le> RECONNECT_MAX_MS"
  by (simp add: reconnect_delay_def RECONNECT_BASE_MS_def RECONNECT_MAX_MS_def)

definition mesh_inv :: "mesh_state \<Rightarrow> bool" where
  "mesh_inv s \<longleftrightarrow> trying s \<and> delays_ok (mh_log s)"

text \<open>What most steps leave alone.\<close>

definition same_link :: "mesh_state \<Rightarrow> mesh_state \<Rightarrow> bool" where
  "same_link s s' \<longleftrightarrow> mh_socket s' = mh_socket s \<and> mh_sock s' = mh_sock s \<and> mh_tasks s' = mh_tasks s \<and>
     mh_reconnect s' = mh_reconnect s \<and> mh_stopped s' = mh_stopped s \<and>
     (\<exists>fx. mh_log s' = mh_log s @ fx \<and> (\<forall>d. ReconnectIn d \<notin> set fx))"

lemma same_link_inv: "same_link s s' \<Longrightarrow> mesh_inv s \<Longrightarrow> mesh_inv s'"
  by (auto simp: same_link_def mesh_inv_def trying_def live_socket_def restarting_def delays_ok_def)

lemma same_link_refl: "same_link s s"
  by (simp add: same_link_def)

lemma same_link_peers:
  "same_link s (makePeer r b s)" "same_link s (ensureRelayPeer r b s)"
  by (auto simp: same_link_def makePeer_def ensureRelayPeer_def Let_def)

lemma same_link_trans: "same_link s t \<Longrightarrow> same_link t u \<Longrightarrow> same_link s u"
  unfolding same_link_def by (elim conjE exE) (auto simp: all_conj_distrib)

lemma same_link_known: "same_link s (s\<lparr>mh_known := k\<rparr>)" "same_link s (sendHello (s\<lparr>mh_known := k\<rparr>))"
  by (simp_all add: same_link_def sendHello_def)

lemma same_link_event: "same_link s (handleEvent opts r m setup s)"
proof -
  have "same_link s (discover opts r rtc setup s)" for rtc
    by (auto simp: discover_def Let_def intro: same_link_refl same_link_known same_link_trans [OF same_link_known(2)] same_link_peers)
  moreover have "same_link s (routeSignal r f setup s)" for f
    by (auto simp: routeSignal_def Let_def intro: same_link_refl same_link_known same_link_trans [OF same_link_known(1)] same_link_peers)
  ultimately show ?thesis
    by (auto simp: handleEvent_def same_link_refl same_link_peers split: mesh_message.split)
qed

lemma same_link_callbacks:
  "same_link s (announce s)" "same_link s (channel_opened i s)" "same_link s (channel_closed i s)" "same_link s (relay_closed i s)"
  by (auto simp: same_link_def announce_def sendHello_def channel_opened_def channel_closed_def relay_closed_def
      split: option.split transport.split prod.split)

lemma schedule_inv:
  assumes "delays_ok (mh_log s)"
  shows "mesh_inv (scheduleReconnect s)"
  using assms delay_range by (auto simp: scheduleReconnect_def mesh_inv_def trying_def delays_ok_def)

lemma open_socket_inv: "delays_ok (mh_log s) \<Longrightarrow> mesh_inv (open_socket opts s)"
  by (auto simp: open_socket_def Let_def sendHello_def mesh_inv_def trying_def live_socket_def delays_ok_def)

text \<open>Tasks that restart are only removed by opening a socket or scheduling the next attempt.\<close>

lemma restarting_other:
  assumes "restarting s" "mh_tasks s i = Some t" "task_purpose t \<noteq> Restart"
  shows "\<exists>j u. j \<noteq> i \<and> mh_tasks s j = Some u \<and> task_purpose u = Restart"
proof -
  obtain j u where u: "mh_tasks s j = Some u" "task_purpose u = Restart"
    using assms(1) by (auto simp: restarting_def)
  then have "j \<noteq> i"
    using assms(2,3) by auto
  with u show ?thesis by blast
qed

lemma task_step_inv:
  assumes "mesh_inv s" "mh_tasks s i = Some t"
  shows "mesh_inv (task_step opts i t ok s)"
proof -
  have log: "delays_ok (mh_log s)"
    using assms(1) by (simp add: mesh_inv_def)
  have kept: "trying s'" if "mh_socket s' = mh_socket s" "mh_sock s' = mh_sock s" "mh_stopped s' = mh_stopped s"
      "mh_reconnect s' = mh_reconnect s" "\<forall>j. j \<noteq> i \<longrightarrow> mh_tasks s' j = mh_tasks s j"
      "task_purpose t = Restart \<Longrightarrow> restarting s'" for s'
  proof (cases "restarting s")
    case True
    then have "restarting s'"
      using restarting_other [OF True assms(2)] that(5,6) unfolding restarting_def by metis
    then show ?thesis by (simp add: trying_def)
  next
    case False
    then show ?thesis
      using assms(1) that(1-4) by (auto simp: mesh_inv_def trying_def live_socket_def split: option.splits)
  qed
  have settled: "mesh_inv (rolled opts (task_purpose t) s')" if "mh_socket s' = mh_socket s" "mh_sock s' = mh_sock s"
      "mh_stopped s' = mh_stopped s" "mh_reconnect s' = mh_reconnect s" "mh_tasks s' = (mh_tasks s)(i := None)"
      "mh_log s' = mh_log s" for s'
  proof (cases "task_purpose t = Reroll")
    case True
    have "trying s'"
      using kept [of s'] that True by simp
    then have "mesh_inv s'"
      using log that(6) by (simp add: mesh_inv_def)
    moreover have "same_link s' (rolled opts (task_purpose t) s')"
      using True by (simp add: rolled_def same_link_def sendHello_def)
    ultimately show ?thesis by (rule same_link_inv [rotated])
  next
    case False
    then show ?thesis
      using open_socket_inv [of s'] log that(6) by (simp add: rolled_def)
  qed
  have failed: "mesh_inv (let s = task_to i None s in if task_purpose t = Restart then scheduleReconnect s else s)"
  proof (cases "task_purpose t = Restart")
    case True
    then show ?thesis
      using schedule_inv [of "task_to i None s"] log by (simp add: Let_def)
  next
    case False
    then show ?thesis
      using kept [of "task_to i None s"] log by (simp add: Let_def mesh_inv_def)
  qed
  show ?thesis
  proof (cases t)
    case (DerivePrevious p r e)
    then show ?thesis
      using settled [of "task_to i None (s\<lparr>mh_rooms := [r, mo_room opts (Some e)]\<rparr>)"] failed by (simp add: task_step_def)
  next
    case (Derive p e)
    show ?thesis
    proof (cases e)
      case None
      then show ?thesis
        using Derive settled [of "task_to i None (s\<lparr>mh_publishRoom := mo_room opts None, mh_rooms := [mo_room opts None]\<rparr>)"]
          failed by (simp add: task_step_def Let_def)
    next
      case (Some x)
      let ?s = "task_to i (Some (DerivePrevious p (mo_room opts (Some x)) (mh_epoch s - 1))) (s\<lparr>mh_publishRoom := mo_room opts (Some x)\<rparr>)"
      have "restarting ?s" if "p = Restart"
        using that unfolding restarting_def by (intro exI [of _ i]) simp
      then have "mesh_inv ?s"
        using kept [of ?s] log Derive by (simp add: mesh_inv_def)
      with Some Derive failed show ?thesis
        by (simp add: task_step_def Let_def)
    qed
  qed
qed

lemma roll_begin_inv:
  assumes "mesh_inv s" "mh_tasks s i = None"
  shows "mesh_inv (roll_begin opts p i now s)"
proof -
  have "restarting (roll_begin opts p i now s)" if r: "restarting s"
  proof -
    obtain j u where u: "mh_tasks s j = Some u" "task_purpose u = Restart"
      using r by (auto simp: restarting_def)
    then have "mh_tasks (roll_begin opts p i now s) j = Some u"
      using assms(2) by (auto simp: roll_begin_def)
    with u(2) show ?thesis by (auto simp: restarting_def)
  qed
  with assms(1) show ?thesis
    by (auto simp: mesh_inv_def trying_def live_socket_def roll_begin_def split: option.splits)
qed

lemma restart_inv:
  assumes "delays_ok (mh_log s)"
  shows "mesh_inv (roll_begin opts Restart i now s)"
proof -
  have "restarting (roll_begin opts Restart i now s)"
    unfolding restarting_def by (intro exI [of _ i]) (simp add: roll_begin_def)
  with assms show ?thesis
    by (simp add: mesh_inv_def trying_def roll_begin_def)
qed

lemma mesh_step_inv: "mesh_inv s \<Longrightarrow> mesh_inv (mesh_step opts x s)"
proof -
  assume inv: "mesh_inv s"
  then have log: "delays_ok (mh_log s)"
    by (simp add: mesh_inv_def)
  note quiet = same_link_inv [OF _ inv]
  show ?thesis
  proof (cases x)
    case (TaskSettled i ok)
    then show ?thesis
      using inv task_step_inv [OF inv, of i] by (simp split: option.split)
  next
    case (SocketOpened n)
    with inv show ?thesis
      by (auto simp: mesh_inv_def trying_def live_socket_def restarting_def split: option.splits)
  next
    case (SocketClosed n)
    with inv log show ?thesis
      by (simp add: schedule_inv)
  next
    case (ReconnectFires i now)
    have "mesh_inv (s\<lparr>mh_reconnect := False\<rparr>)" if "mh_stopped s"
      using that log by (simp add: mesh_inv_def trying_def)
    with ReconnectFires inv log show ?thesis
      by (simp add: Let_def restart_inv)
  next
    case (RollTick i now)
    with inv show ?thesis
      by (simp add: maybeRoll_def roll_begin_inv)
  next
    case StopMesh
    with log show ?thesis
      by (auto simp: stop_mesh_def Let_def mesh_inv_def trying_def delays_ok_def split: option.split)
  qed (use inv in \<open>simp_all add: quiet same_link_event same_link_callbacks\<close>)
qed

lemma mesh_run_inv: "mesh_inv (mesh_run opts es (start_mesh opts now))"
proof -
  have "mesh_inv s \<Longrightarrow> mesh_inv (mesh_run opts es s)" for s
    by (induction es arbitrary: s) (simp_all add: mesh_run_def mesh_step_inv del: mesh_step.simps)
  moreover have "mesh_inv (start_mesh opts now)"
    by (simp add: start_mesh_def roll_begin_def new_mesh_def task_to_def mesh_inv_def trying_def delays_ok_def)
  ultimately show ?thesis by blast
qed

text \<open>A reconnect whose timer fires and whose key derivations succeed opens a new socket.\<close>

lemma reconnect_opens:
  assumes "mh_reconnect s" "\<not> mh_stopped s" "mh_tasks s i = None"
  shows "live_socket (mesh_run opts [ReconnectFires i now, TaskSettled i True, TaskSettled i True] s)"
  using assms by (cases "mo_epochRooms opts")
    (simp_all add: mesh_run_def roll_begin_def task_step_def rolled_def open_socket_def live_socket_def Let_def sendHello_def)

subsection \<open>Peers that lost each other\<close>

lemma announce_then_hello:
  assumes "map_of (mh_peers s) r = None" "map_of (mh_relayPeers s) r = None" "mh_announceTimer s = Ticking" "r \<noteq> mo_me opts"
  shows "mesh_run opts [AnnounceTick, Incoming r (Hello rtc) True] s =
    discover opts r rtc True (announce s)"
    and "r \<notin> set (mh_known (announce s))" "map_of (mh_relayPeers (announce s)) r = None"
    and "mh_log (announce s) = mh_log s @ [SaidHello]" "mh_next (announce s) = mh_next s"
  using assms by (simp_all add: mesh_run_def handleEvent_def announce_def sendHello_def)

subsection \<open>Properties\<close>

text \<open>Property C30: sync does not go deaf. Whatever socket closings, failed attempts, epoch changes and
  messages a started session goes through, until it is stopped it has a connecting or open relay socket,
  or an attempt to open one is running, or a reconnect is scheduled; every reconnect is scheduled one to
  thirty seconds ahead, and when it fires and the room keys derive it opens a socket.\<close>

theorem mesh_never_goes_deaf:
  assumes "s = mesh_run opts es (start_mesh opts now)" "mh_socket s \<noteq> None" "\<not> mh_stopped s"
  shows "(live_socket s \<or> restarting s \<or> mh_reconnect s) \<and>
    (\<forall>d. ReconnectIn d \<in> set (mh_log s) \<longrightarrow> 1000 \<le> d \<and> d \<le> 30000) \<and>
    (mh_reconnect s \<longrightarrow> (\<forall>i t. mh_tasks s i = None \<longrightarrow>
       live_socket (mesh_run opts [ReconnectFires i t, TaskSettled i True, TaskSettled i True] s)))"
  using mesh_run_inv [of opts es now] assms reconnect_opens [of s]
  by (auto simp: mesh_inv_def trying_def delays_ok_def RECONNECT_BASE_MS_def RECONNECT_MAX_MS_def)

text \<open>Peers that lost each other meet again. Take two devices with no transport to each
  other, whatever each still believes to know. Once both have announced and each has received the other's
  greeting, they are connecting again: with WebRTC on both sides exactly the one with the lower key makes
  the offer, otherwise both hand over a relay session, in opposite roles.\<close>

lemma lost_peers_meet_again:
  assumes keys: "mo_me a \<noteq> mo_me b"
    and lost: "map_of (mh_peers s) (mo_me b) = None" "map_of (mh_relayPeers s) (mo_me b) = None"
      "map_of (mh_peers t) (mo_me a) = None" "map_of (mh_relayPeers t) (mo_me a) = None"
    and ticking: "mh_announceTimer s = Ticking" "mh_announceTimer t = Ticking"
    and runs: "s' = mesh_run a [AnnounceTick, Incoming (mo_me b) (Hello (mo_rtc b)) True] s"
      "t' = mesh_run b [AnnounceTick, Incoming (mo_me a) (Hello (mo_rtc a)) True] t"
  shows "if mo_rtc a \<and> mo_rtc b
    then mh_log s' = mh_log s @ [SaidHello, SaidHello] @ (if mo_me a < mo_me b then [MadePeer (mo_me b) (mh_next s) True] else []) \<and>
         mh_log t' = mh_log t @ [SaidHello, SaidHello] @ (if mo_me b < mo_me a then [MadePeer (mo_me a) (mh_next t) True] else [])
    else \<exists>role. mh_log s' = mh_log s @ [SaidHello, SaidHello, HandedOver (mo_me b) (mh_next s) role Relay] \<and>
         mh_log t' = mh_log t @ [SaidHello, SaidHello, HandedOver (mo_me a) (mh_next t) (\<not> role) Relay]"
proof -
  note sa = announce_then_hello [OF lost(1,2) ticking(1), of a]
  note tb = announce_then_hello [OF lost(3,4) ticking(2), of b]
  have s': "s' = discover a (mo_me b) (mo_rtc b) True (announce s)" and t': "t' = discover b (mo_me a) (mo_rtc a) True (announce t)"
    using runs sa(1) tb(1) keys by auto
  have "mo_me b < mo_me a \<longleftrightarrow> \<not> mo_me a < mo_me b"
    using keys by auto
  then show ?thesis
    using sa(2-5) tb(2-5) keys
    by (auto simp: s' t' discover_def makePeer_def ensureRelayPeer_def sendHello_def Let_def)
qed

text \<open>A greeting from a device already known is answered by nothing.\<close>

lemma known_hello_is_silent:
  "r \<in> set (mh_known s) \<Longrightarrow> mesh_step opts (Incoming r (Hello rtc) setup) s = s"
  by (simp add: handleEvent_def discover_def)

text \<open>Stopped while a reconnect derives its room keys, the session opens a socket all the same, and a
  device that greets it there is handed over as a peer.\<close>

lemma stop_during_reconnect_reopens:
  assumes "mo_me opts = ''a''" "\<not> mo_epochRooms opts" "\<not> mo_rtc opts"
    and "s = mesh_run opts [TaskSettled 0 True, SocketOpened 0, SocketClosed 0, ReconnectFires 1 0, StopMesh,
      TaskSettled 1 True, Incoming ''b'' (Hello True) True] (start_mesh opts 0)"
  shows "mh_stopped s" "live_socket s" "HandedOver ''b'' 2 True Relay \<in> set (mh_log s)"
  using assms by (simp_all add: mesh_run_def start_mesh_def roll_begin_def new_mesh_def task_to_def task_step_def rolled_def
      open_socket_def scheduleReconnect_def stop_mesh_def handleEvent_def discover_def ensureRelayPeer_def
      live_socket_def sendHello_def Let_def)

subsection \<open>Witnesses\<close>

definition sample_mesh :: "string \<Rightarrow> bool \<Rightarrow> mesh_opts" where
  "sample_mesh me rtc = \<lparr>mo_me = me, mo_rtc = rtc, mo_epochRooms = True, mo_room = (\<lambda>_. ''room'')\<rparr>"

theorem mesh_never_goes_deaf_witness:
  "mh_reconnect (mesh_run (sample_mesh ''a'' True) [TaskSettled 0 True, TaskSettled 0 True, SocketClosed 0]
      (start_mesh (sample_mesh ''a'' True) 7)) \<and>
   live_socket (mesh_run (sample_mesh ''a'' True) [ReconnectFires 1 7, TaskSettled 1 True, TaskSettled 1 True]
     (mesh_run (sample_mesh ''a'' True) [TaskSettled 0 True, TaskSettled 0 True, SocketClosed 0]
       (start_mesh (sample_mesh ''a'' True) 7)))"
proof -
  let ?o = "sample_mesh ''a'' True"
  define s where "s = mesh_run ?o [TaskSettled 0 True, TaskSettled 0 True, SocketClosed 0] (start_mesh ?o 7)"
  have facts: "mh_socket s \<noteq> None" "\<not> mh_stopped s" "mh_reconnect s" "mh_tasks s 1 = None"
    by (simp_all add: s_def mesh_run_def start_mesh_def roll_begin_def new_mesh_def task_to_def task_step_def rolled_def
        open_socket_def scheduleReconnect_def sample_mesh_def sendHello_def Let_def)
  then show ?thesis
    using mesh_never_goes_deaf [OF s_def facts(1,2)] unfolding s_def by blast
qed

end
