(* ===== verification/Backup_Retention.thy ===== *)
theory Backup_Retention
  imports Js_Text "HOL-Library.Sublist"
begin

text \<open>
  One cloud backup (\<open>packages/core/src/backup/orchestrator.ts\<close>): the dated object key, the
  keep-last-N rule, and \<open>runBackup\<close> on a bucket.

  Times are milliseconds since 1970 up to the year 9999, where \<open>toISOString\<close> prints four year
  digits. Objects are their keys: nothing else of a listing is read. The providers (S3, WebDAV,
  Dropbox) are a bucket, a map from keys to bodies, with requests that may fail: whether the
  upload and each removal succeed and what the listing returns are arguments. SHA-256 is the
  argument \<open>sha\<close>.
\<close>

subsection \<open>Dates\<close>

definition leap :: "nat \<Rightarrow> bool" where
  "leap y \<longleftrightarrow> y mod 4 = 0 \<and> (y mod 100 \<noteq> 0 \<or> y mod 400 = 0)"

definition month_lengths :: "nat \<Rightarrow> nat list" where
  "month_lengths y = [31, if leap y then 29 else 28, 31, 30, 31, 30, 31, 31, 30, 31, 30, 31]"

definition year_length :: "nat \<Rightarrow> nat" where
  "year_length y = (if leap y then 366 else 365)"

text \<open>The year and the day of the year \<open>n\<close> days after the start of year \<open>y\<close>.\<close>

function year_of :: "nat \<Rightarrow> nat \<Rightarrow> nat \<times> nat" where
  "year_of y n = (if n < year_length y then (y, n) else year_of (Suc y) (n - year_length y))"
  by pat_completeness auto

termination
  by (relation "measure snd") (auto simp: year_length_def)

declare year_of.simps [simp del]

fun month_of :: "nat list \<Rightarrow> nat \<Rightarrow> nat \<Rightarrow> nat \<times> nat" where
  "month_of [] m n = (m, n)"
| "month_of (l # ls) m n = (if n < l then (m, n) else month_of ls (Suc m) (n - l))"

abbreviation zeros :: "nat \<Rightarrow> nat \<Rightarrow> string" where
  "zeros w n \<equiv> pad_start w (dec n)"

definition toISOString :: "nat \<Rightarrow> string" where
  "toISOString t =
     (case year_of 1970 (t div 86400000) of
        (y, n) \<Rightarrow>
          (case month_of (month_lengths y) 1 n of
             (m, d) \<Rightarrow>
               zeros 4 y @ ''-'' @ zeros 2 m @ ''-'' @ zeros 2 (Suc d) @ ''T'' @ zeros 2 (t div 3600000 mod 24) @ '':'' @
               zeros 2 (t div 60000 mod 60) @ '':'' @ zeros 2 (t div 1000 mod 60) @ ''.'' @ zeros 3 (t mod 1000) @ ''Z''))"

text \<open>\<open>replace(/[:-]|\.\d{3}/g, "")\<close>.\<close>

function drop_marks :: "string \<Rightarrow> string" where
  "drop_marks [] = []"
| "drop_marks (c # s) =
     (if c = CHR '':'' \<or> c = CHR ''-'' then drop_marks s
      else if c = CHR ''.'' \<and> 3 \<le> length s \<and> list_all is_digit (take 3 s) then drop_marks (drop 3 s)
      else c # drop_marks s)"
  by pat_completeness auto

termination
  by (relation "measure length") auto

definition compactStamp :: "nat \<Rightarrow> string" where
  "compactStamp t = drop_marks (toISOString t)"

subsection \<open>Object keys\<close>

definition vaultTag :: "string \<Rightarrow> string" where
  "vaultTag vaultId = take 8 (filter (\<lambda>c. c \<noteq> CHR ''-'') vaultId)"

text \<open>The optional vault id is truthy when it is there and not empty.\<close>

definition has_vault :: "string option \<Rightarrow> bool" where
  "has_vault v \<longleftrightarrow> v \<noteq> None \<and> v \<noteq> Some []"

definition backupKey :: "string \<Rightarrow> string \<Rightarrow> string \<Rightarrow> string option \<Rightarrow> string" where
  "backupKey pre stamp hash vaultId =
     (let tag = (if has_vault vaultId then ''-v'' @ vaultTag (the vaultId) else [])
      in pre @ ''/vautix-'' @ stamp @ ''-'' @ take 8 hash @ tag @ ''.vautix'')"

text \<open>\<open>/-v[0-9a-f]{8}\.vautix$/i\<close>.\<close>

definition lower_ascii :: "char \<Rightarrow> char" where
  "lower_ascii c = (let n = of_char c :: nat in if 65 \<le> n \<and> n \<le> 90 then char_of (n + 32) else c)"

definition is_hex_lower :: "char \<Rightarrow> bool" where
  "is_hex_lower c \<longleftrightarrow> is_digit c \<or> (97 \<le> (of_char c :: nat) \<and> (of_char c :: nat) \<le> 102)"

definition tagged :: "string \<Rightarrow> bool" where
  "tagged key \<longleftrightarrow>
     (let t = map lower_ascii (drop (length key - 17) key)
      in length t = 17 \<and> take 2 t = ''-v'' \<and> list_all is_hex_lower (take 8 (drop 2 t)) \<and> drop 10 t = ''.vautix'')"

definition own_snapshot :: "string option \<Rightarrow> string \<Rightarrow> bool" where
  "own_snapshot vaultId key \<longleftrightarrow>
     sublist ''/vautix-'' key \<and>
     (if has_vault vaultId then suffix (''-v'' @ vaultTag (the vaultId) @ ''.vautix'') key else \<not> tagged key)"

text \<open>The sort is descending; equal keys are equal objects here.\<close>

definition selectForPruning :: "string list \<Rightarrow> int \<Rightarrow> string option \<Rightarrow> string list" where
  "selectForPruning objects keep vaultId =
     (if keep \<le> 0 then []
      else drop (nat keep) (rev (sort (filter (own_snapshot vaultId) objects))))"

subsection \<open>Running one backup\<close>

type_synonym 'b bucket = "(string \<times> 'b) list"

record 'b requests =
  rq_put :: bool
  rq_list :: "'b bucket \<Rightarrow> string \<Rightarrow> string list option"
  rq_remove :: "string \<Rightarrow> bool"

record backup_result =
  br_key :: string
  br_hash :: string
  br_prunedKeys :: "string list"

fun remove_each :: "(string \<Rightarrow> bool) \<Rightarrow> string list \<Rightarrow> 'b bucket \<Rightarrow> 'b bucket" where
  "remove_each ok [] b = b"
| "remove_each ok (k # ks) b = remove_each ok ks (if ok k then AList.delete k b else b)"

text \<open>\<open>None\<close> is a failed upload, which fails the backup.\<close>

definition runBackup ::
  "('b \<Rightarrow> string) \<Rightarrow> 'b requests \<Rightarrow> string \<Rightarrow> int \<Rightarrow> nat \<Rightarrow> string option \<Rightarrow> 'b \<Rightarrow> 'b bucket \<Rightarrow>
   backup_result option \<times> 'b bucket" where
  "runBackup sha R pre keep now vaultId blob b =
     (let hash = sha blob; key = backupKey pre (compactStamp now) hash vaultId
      in if \<not> rq_put R then (None, b)
         else
           let b = AList.update key blob b
           in if keep \<le> 0 then (Some \<lparr>br_key = key, br_hash = hash, br_prunedKeys = []\<rparr>, b)
              else (case rq_list R b (pre @ ''/'') of
                      None \<Rightarrow> (Some \<lparr>br_key = key, br_hash = hash, br_prunedKeys = []\<rparr>, b)
                    | Some objects \<Rightarrow>
                        let ks = selectForPruning objects keep vaultId
                        in (Some \<lparr>br_key = key, br_hash = hash, br_prunedKeys = ks\<rparr>, remove_each (rq_remove R) ks b)))"

subsection \<open>Stamps sort chronologically\<close>

lemma year_of_bounds: "year_of y n = (y', d) \<Longrightarrow> y \<le> y' \<and> d < year_length y'"
proof (induction y n arbitrary: y' d rule: year_of.induct)
  case (1 y n)
  show ?case
  proof (cases "n < year_length y")
    case True
    with 1(2) show ?thesis by (subst (asm) year_of.simps) auto
  next
    case False
    with 1(2) have "year_of (Suc y) (n - year_length y) = (y', d)"
      by (subst (asm) year_of.simps) simp
    with 1(1) [OF False] show ?thesis by fastforce
  qed
qed

lemma year_of_mono:
  "n < n' \<Longrightarrow> year_of y n = (a, d) \<Longrightarrow> year_of y n' = (a', d') \<Longrightarrow> a < a' \<or> a = a' \<and> d < d'"
proof (induction y n arbitrary: n' rule: year_of.induct)
  case (1 y n)
  show ?case
  proof (cases "n < year_length y")
    case True
    then have "a = y" "d = n"
      using 1(3) by (subst (asm) year_of.simps; simp)+
    moreover have "a' = y \<and> d' = n' \<or> y < a'"
      using 1(4) year_of_bounds [of "Suc y" "n' - year_length y" a' d']
      by (subst (asm) year_of.simps) (auto split: if_splits)
    ultimately show ?thesis
      using 1(2) by auto
  next
    case False
    with 1(2) have "n - year_length y < n' - year_length y" "\<not> n' < year_length y"
      by auto
    with 1(1) [OF False this(1)] 1(3,4) False show ?thesis
      by (auto simp: year_of.simps [of y])
  qed
qed

lemma month_of_from: "month_of ls m n = (m', d) \<Longrightarrow> m \<le> m'"
  by (induction ls m n rule: month_of.induct) (simp_all split: if_splits)

lemma month_of_within:
  "month_of ls m n = (m', d) \<Longrightarrow> n < sum_list ls \<Longrightarrow> m' < m + length ls \<and> (\<exists>l \<in> set ls. d < l)"
proof (induction ls m n rule: month_of.induct)
  case (2 l ls m n)
  then show ?case by (cases "n < l") fastforce+
qed simp

lemma month_of_mono:
  "n < n' \<Longrightarrow> n' < sum_list ls \<Longrightarrow> month_of ls m n = (a, d) \<Longrightarrow> month_of ls m n' = (a', d') \<Longrightarrow>
   a < a' \<or> a = a' \<and> d < d'"
proof (induction ls m n arbitrary: n' rule: month_of.induct)
  case (2 l ls m n)
  show ?case
  proof (cases "n < l")
    case True
    then show ?thesis
      using 2(2,4,5) month_of_from [of ls "Suc m" "n' - l" a' d'] by (simp split: if_splits)
  next
    case False
    moreover have "n - l < n' - l" "\<not> n' < l" "n' - l < sum_list ls"
      using False 2(2,3) by simp_all
    ultimately show ?thesis
      using 2(1) [of "n' - l"] 2(4,5) by simp
  qed
qed simp

lemma month_lengths_sum: "sum_list (month_lengths y) = year_length y"
  by (simp add: month_lengths_def year_length_def)

lemma day_of_month:
  assumes "n < year_length y" "month_of (month_lengths y) 1 n = (m, d)"
  shows "m \<le> 12 \<and> d \<le> 30"
proof -
  have "m < 1 + length (month_lengths y)" "\<exists>l \<in> set (month_lengths y). d < l"
    using month_of_within [OF assms(2)] assms(1) by (simp_all add: month_lengths_sum)
  then show ?thesis
    by (auto simp: month_lengths_def split: if_splits)
qed

text \<open>The dates \<open>toISOString\<close> prints with a four-digit year.\<close>

definition printable :: "nat \<Rightarrow> bool" where
  "printable t \<longleftrightarrow> fst (year_of 1970 (t div 86400000)) < 10000"

lemma printable_mono:
  assumes "t \<le> t'" "printable t'"
  shows "printable t"
proof (cases "t div 86400000 = t' div 86400000")
  case False
  then have "t div 86400000 < t' div 86400000"
    using div_le_mono [OF assms(1), of 86400000] by simp
  moreover obtain y d y' d' where y: "year_of 1970 (t div 86400000) = (y, d)" "year_of 1970 (t' div 86400000) = (y', d')"
    by fastforce
  ultimately have "y \<le> y'"
    using year_of_mono [OF _ y] by auto
  with y assms(2) show ?thesis
    unfolding printable_def by simp
qed (use assms in \<open>simp add: printable_def\<close>)

lemma digit_not_mark: "is_digit c \<Longrightarrow> c \<noteq> CHR '':'' \<and> c \<noteq> CHR ''-'' \<and> c \<noteq> CHR ''.''"
  by (auto simp: is_digit_def)

lemma drop_marks_digits: "list_all is_digit s \<Longrightarrow> drop_marks (s @ r) = s @ drop_marks r"
  by (induction s) (simp_all add: digit_not_mark)

lemma drop_marks_millis:
  assumes "list_all is_digit s" "length s = 3"
  shows "drop_marks (CHR ''.'' # s @ r) = drop_marks r"
  using assms by simp

lemma compact_stamp:
  assumes "printable t" "year_of 1970 (t div 86400000) = (y, n)" "month_of (month_lengths y) 1 n = (m, d)"
  shows "compactStamp t = zeros 4 y @ zeros 2 m @ zeros 2 (Suc d) @ ''T'' @ zeros 2 (t div 3600000 mod 24) @
      zeros 2 (t div 60000 mod 60) @ zeros 2 (t div 1000 mod 60) @ ''Z''"
    and "y < 10 ^ 4" "m < 10 ^ 2" "Suc d < 10 ^ 2"
proof -
  show bounds: "y < 10 ^ 4" "m < 10 ^ 2" "Suc d < 10 ^ 2"
    using assms(1,2) year_of_bounds [OF assms(2)] day_of_month [of n y m d] assms(3) by (auto simp: printable_def)
  have digits: "list_all is_digit (zeros 4 y)" "list_all is_digit (zeros 2 m)" "list_all is_digit (zeros 2 (Suc d))"
      "list_all is_digit (zeros 2 (t div 3600000 mod 24))" "list_all is_digit (zeros 2 (t div 60000 mod 60))"
      "list_all is_digit (zeros 2 (t div 1000 mod 60))" "list_all is_digit (zeros 3 (t mod 1000))"
    using bounds by (auto intro!: padded_dec(3) intro: less_trans [of _ 60] less_trans [of _ 24])
  moreover have "length (zeros 3 (t mod 1000)) = 3"
    by (rule padded_dec(1)) simp_all
  ultimately show "compactStamp t = zeros 4 y @ zeros 2 m @ zeros 2 (Suc d) @ ''T'' @ zeros 2 (t div 3600000 mod 24) @
      zeros 2 (t div 60000 mod 60) @ zeros 2 (t div 1000 mod 60) @ ''Z''"
    using assms(2,3) by (simp add: compactStamp_def toISOString_def drop_marks_digits drop_marks_millis is_digit_def)
qed

lemma clock_parts:
  fixes t :: nat
  shows "t div 1000 = 86400 * (t div 86400000) + 3600 * (t div 3600000 mod 24) + 60 * (t div 60000 mod 60) + t div 1000 mod 60"
proof -
  have "t div 60000 = t div 1000 div 60" "t div 3600000 = t div 1000 div 60 div 60" "t div 86400000 = t div 1000 div 60 div 60 div 24"
    by (simp_all flip: div_mult2_eq)
  moreover have "s = 86400 * (s div 60 div 60 div 24) + 3600 * (s div 60 div 60 mod 24) + 60 * (s div 60 mod 60) + s mod 60" for s :: nat
    using mult_div_mod_eq [of 60 s] mult_div_mod_eq [of 60 "s div 60"] mult_div_mod_eq [of 24 "s div 60 div 60"] by linarith
  ultimately show ?thesis by metis
qed

lemma clock_parts_less:
  fixes h m s :: nat
  assumes "3600 * h + 60 * m + s < 3600 * h' + 60 * m' + s'" "m < 60" "m' < 60" "s < 60" "s' < 60"
  shows "h < h' \<or> h = h' \<and> (m < m' \<or> m = m' \<and> s < s')"
proof (cases h h' rule: linorder_cases)
  case greater
  with assms show ?thesis by linarith
next
  case equal
  with assms show ?thesis by (cases m m' rule: linorder_cases) linarith+
qed simp

text \<open>A later second has the greater stamp, whatever text follows.\<close>

lemma stamps_increase:
  assumes "t div 1000 < t' div 1000" "printable t'"
  shows "compactStamp t @ r < compactStamp t' @ r'"
proof -
  have "t \<le> t'"
    using assms(1) div_le_mono [of t' t 1000] by (meson leD nle_le)
  then have t: "printable t"
    using assms(2) printable_mono by blast
  obtain y n m d where date: "year_of 1970 (t div 86400000) = (y, n)" "month_of (month_lengths y) 1 n = (m, d)"
    by fastforce
  obtain y' n' m' d' where date': "year_of 1970 (t' div 86400000) = (y', n')" "month_of (month_lengths y') 1 n' = (m', d')"
    by fastforce
  note S = compact_stamp [OF t date] compact_stamp [OF assms(2) date']
  have small: "t div 3600000 mod 24 < 10 ^ 2" "t' div 3600000 mod 24 < 10 ^ 2" "t div 60000 mod 60 < 10 ^ 2"
      "t' div 60000 mod 60 < 10 ^ 2" "t div 1000 mod 60 < 10 ^ 2" "t' div 1000 mod 60 < 10 ^ 2"
    by (rule less_trans [OF mod_less_divisor]; simp)+
  have "y < y' \<or> y = y' \<and> (m < m' \<or> m = m' \<and> (d < d' \<or> d = d' \<and>
      (t div 3600000 mod 24 < t' div 3600000 mod 24 \<or> t div 3600000 mod 24 = t' div 3600000 mod 24 \<and>
       (t div 60000 mod 60 < t' div 60000 mod 60 \<or> t div 60000 mod 60 = t' div 60000 mod 60 \<and>
        t div 1000 mod 60 < t' div 1000 mod 60))))"
  proof (cases "t div 86400000 = t' div 86400000")
    case True
    then have "y = y'" "m = m'" "d = d'"
      using date date' by auto
    moreover have "3600 * (t div 3600000 mod 24) + 60 * (t div 60000 mod 60) + t div 1000 mod 60 <
        3600 * (t' div 3600000 mod 24) + 60 * (t' div 60000 mod 60) + t' div 1000 mod 60"
      using assms(1) clock_parts [of t] clock_parts [of t'] True by linarith
    ultimately show ?thesis
      using clock_parts_less [of _ "t div 60000 mod 60"] by simp
  next
    case False
    then have "t div 86400000 < t' div 86400000"
      using div_le_mono [OF \<open>t \<le> t'\<close>, of 86400000] by linarith
    from year_of_mono [OF this date(1) date'(1)] show ?thesis
    proof
      assume "y = y' \<and> n < n'"
      moreover from this have "n' < sum_list (month_lengths y)"
        using year_of_bounds [OF date'(1)] by (simp add: month_lengths_sum)
      ultimately show ?thesis
        using month_of_mono [of n n' "month_lengths y" 1 m d m' d'] date(2) date'(2) by auto
    qed simp
  qed
  then show ?thesis
    using S(2-4,6-8) small by (simp add: S(1,5) padded_less) blast
qed

lemma compact_stamp_length:
  assumes "printable t"
  shows "length (compactStamp t) = 16"
proof -
  obtain y n m d where date: "year_of 1970 (t div 86400000) = (y, n)" "month_of (month_lengths y) 1 n = (m, d)"
    by fastforce
  have small: "t div 3600000 mod 24 < 10 ^ 2" "t div 60000 mod 60 < 10 ^ 2" "t div 1000 mod 60 < 10 ^ 2"
    by (rule less_trans [OF mod_less_divisor]; simp)+
  show ?thesis
    using compact_stamp(2-4) [OF assms date] small by (simp add: compact_stamp(1) [OF assms date] padded_dec(1))
qed

lemma keys_increase:
  assumes "t div 1000 < t' div 1000" "printable t'"
  shows "backupKey pre (compactStamp t) h v < backupKey pre (compactStamp t') h' v'"
proof -
  have "pre @ x < pre @ y \<longleftrightarrow> x < y" for x y :: string
    by (induction pre) auto
  then show ?thesis
    using stamps_increase [OF assms] by (simp add: backupKey_def Let_def)
qed

subsection \<open>What a prune may delete\<close>

lemma map_of_remove_each:
  "map_of (remove_each ok ks b) k = (if k \<in> set ks \<and> ok k then None else map_of b k)"
  by (induction ks arbitrary: b) (auto simp: delete_conv')

lemma distinct_remove_each: "distinct (map fst b) \<Longrightarrow> distinct (map fst (remove_each ok ks b))"
  by (induction ks arbitrary: b) (simp_all add: distinct_delete)

lemma selected_own: "k \<in> set (selectForPruning objects keep v) \<Longrightarrow> k \<in> set objects \<and> own_snapshot v k"
  by (auto simp: selectForPruning_def dest!: in_set_dropD split: if_splits)

lemma run_backup_map_of:
  assumes "runBackup sha R pre keep now v blob b = (res, b')" "k \<noteq> backupKey pre (compactStamp now) (sha blob) v"
  shows "map_of b' k = map_of b k \<or> own_snapshot v k \<and> map_of b' k = None"
  using assms selected_own [of k _ keep v]
  by (auto simp: runBackup_def Let_def map_of_remove_each update_conv' split: if_splits option.splits)

text \<open>The newest of the own snapshots are the ones kept.\<close>

lemma sorted_drop_less:
  assumes "sorted xs" "distinct xs" "x \<in> set (take n xs)" "y \<in> set (drop n xs)"
  shows "x < (y :: 'a :: linorder)"
proof -
  have "x \<le> y"
    using assms(1,3,4) sorted_append [of "take n xs" "drop n xs"] by auto
  moreover have "x \<noteq> y"
    using assms(2-4) set_take_disj_set_drop_if_distinct [of xs n n] by auto
  ultimately show ?thesis by simp
qed

lemma set_minus_take: "distinct xs \<Longrightarrow> set xs - set (take n xs) = set (drop n xs)"
  using set_take_disj_set_drop_if_distinct [of xs n n]
  by (subst (1) append_take_drop_id [of n xs, symmetric]) (auto simp del: append_take_drop_id)

lemma newest_kept:
  assumes "distinct ks" "0 < keep" "pruned = set (selectForPruning ks keep v)" "own = {k \<in> set ks. own_snapshot v k}"
  shows "pruned \<subseteq> own" "card (own - pruned) = min (nat keep) (card own)" "x \<in> pruned \<Longrightarrow> y \<in> own - pruned \<Longrightarrow> x < y"
proof -
  let ?s = "sort (filter (own_snapshot v) ks)"
  let ?n = "length ?s - nat keep"
  have distinct: "distinct ?s" and set_s: "set ?s = own"
    using assms(1,4) by auto
  have pruned: "pruned = set (take ?n ?s)"
    using assms(2,3) by (simp add: selectForPruning_def drop_rev)
  then have kept: "own - pruned = set (drop ?n ?s)"
    using set_minus_take [OF distinct] set_s by blast
  show "pruned \<subseteq> own"
    using pruned set_s by (auto dest: in_set_takeD)
  have "card own = length ?s"
    using distinct_card [OF distinct] set_s by simp
  then show "card (own - pruned) = min (nat keep) (card own)"
    using distinct by (simp add: kept distinct_card)
  show "x \<in> pruned \<Longrightarrow> y \<in> own - pruned \<Longrightarrow> x < y"
    using sorted_drop_less [OF sorted_sort distinct] kept pruned by blast
qed

subsection \<open>Keys of different vaults\<close>

lemma lower_hex: "is_hex_lower c \<Longrightarrow> lower_ascii c = c"
  by (auto simp: is_hex_lower_def is_digit_def lower_ascii_def Let_def)

lemma tagged_key:
  assumes "length (vaultTag v) = 8" "list_all is_hex_lower (vaultTag v)"
  shows "tagged (x @ ''-v'' @ vaultTag v @ ''.vautix'')"
proof -
  have "map lower_ascii (vaultTag v) = vaultTag v"
    using assms(2) by (auto simp: list_all_iff lower_hex intro: map_idI)
  moreover have "map lower_ascii ''-v'' = ''-v''" "map lower_ascii ''.vautix'' = ''.vautix''"
    by code_simp+
  ultimately show ?thesis
    using assms by (simp add: tagged_def)
qed

lemma other_tag_not_own:
  assumes "length (vaultTag v) = 8" "list_all is_hex_lower (vaultTag v)"
    and "has_vault w \<Longrightarrow> length (vaultTag (the w)) = 8 \<and> vaultTag (the w) \<noteq> vaultTag v"
  shows "\<not> own_snapshot w (x @ ''-v'' @ vaultTag v @ ''.vautix'')"
proof (cases "has_vault w")
  case True
  have "\<not> suffix (''-v'' @ vaultTag (the w) @ ''.vautix'') (x @ ''-v'' @ vaultTag v @ ''.vautix'')"
  proof
    assume "suffix (''-v'' @ vaultTag (the w) @ ''.vautix'') (x @ ''-v'' @ vaultTag v @ ''.vautix'')"
    then obtain z where "(x @ ''-v'') @ vaultTag v = (z @ ''-v'') @ vaultTag (the w)"
      by (auto simp: suffix_def)
    then show False
      using assms(1) assms(3) [OF True] by (metis append_eq_append_conv)
  qed
  then show ?thesis
    using True by (simp add: own_snapshot_def)
next
  case False
  then show ?thesis
    using tagged_key [OF assms(1,2), of x] unfolding own_snapshot_def by simp
qed

lemma other_tag_other_key:
  assumes "length (vaultTag v) = 8" "8 \<le> length h"
    and "has_vault w \<Longrightarrow> length (vaultTag (the w)) = 8 \<and> vaultTag (the w) \<noteq> vaultTag v"
  shows "x @ ''-v'' @ vaultTag v @ ''.vautix'' \<noteq> backupKey pre st h w"
proof
  assume eq: "x @ ''-v'' @ vaultTag v @ ''.vautix'' = backupKey pre st h w"
  show False
  proof (cases "has_vault w")
    case True
    with eq have "(x @ ''-v'') @ vaultTag v = (pre @ ''/vautix-'' @ st @ ''-'' @ take 8 h @ ''-v'') @ vaultTag (the w)"
      by (simp add: backupKey_def)
    then show False
      using assms(1) assms(3) [OF True] by (metis append_eq_append_conv)
  next
    case False
    with eq have "(x @ ''-v'') @ vaultTag v = (pre @ ''/vautix-'' @ st @ ''-'') @ take 8 h"
      by (simp add: backupKey_def)
    then have "x @ ''-v'' = pre @ ''/vautix-'' @ st @ ''-''"
      using assms(1,2) by (metis (no_types, lifting) append_eq_append_conv length_take min.absorb2)
    then have "last (x @ ''-v'') = last (pre @ ''/vautix-'' @ st @ ''-'')"
      by (rule arg_cong)
    then show False by simp
  qed
qed

subsection \<open>Properties\<close>

text \<open>Property C18: a backup never touches another vault's snapshots. Whatever the requests return and
  wherever the folders are, a snapshot key made for a vault with another tag holds after a backup run what
  it held before. (Vault ids are UUIDs, so tags have eight hexadecimal digits, and so has the hash.)\<close>

theorem backup_spares_other_vaults:
  assumes "runBackup sha R pre keep now w blob b = (res, b')"
    and "length (vaultTag v) = 8" "list_all is_hex_lower (vaultTag v)" "8 \<le> length (sha blob)"
    and "has_vault w \<Longrightarrow> length (vaultTag (the w)) = 8 \<and> vaultTag (the w) \<noteq> vaultTag v"
    and "k = backupKey pre' stamp hash (Some v)" "v \<noteq> []"
  shows "map_of b' k = map_of b k"
proof -
  have k: "k = (pre' @ ''/vautix-'' @ stamp @ ''-'' @ take 8 hash) @ ''-v'' @ vaultTag v @ ''.vautix''"
    using assms(6,7) by (simp add: backupKey_def has_vault_def)
  show ?thesis
    using run_backup_map_of [OF assms(1), of k] other_tag_not_own [OF assms(2,3,5)]
      other_tag_other_key [OF assms(2,4,5)] unfolding k by blast
qed

text \<open>Retention keeps exactly the newest snapshots. When the folder's listing is complete and
  the removals succeed, the vault's own snapshots below the folder that remain are the \<open>keep\<close> greatest
  keys among the old ones and the new one, each with its contents, and nothing else changed; and since
  stamps sort chronologically, the snapshot just uploaded remains whenever the others carry an earlier
  second.\<close>

lemma retention_keeps_newest:
  assumes run: "runBackup sha R pre keep now v blob b = (Some res, b')" "0 < keep"
    and listing: "rq_list R (AList.update (br_key res) blob b) (pre @ ''/'') = Some ks" "distinct ks"
      "set ks = {k \<in> insert (br_key res) (fst ` set b). prefix (pre @ ''/'') k}"
    and removals: "\<forall>k. rq_remove R k" and date: "printable now"
    and own: "own = {k \<in> set ks. own_snapshot v k}" "kept = {k \<in> own. map_of b' k \<noteq> None}"
  shows "(\<forall>k. k \<notin> own - kept \<longrightarrow> map_of b' k = ((map_of b)(br_key res \<mapsto> blob)) k)
      \<and> card kept = min (nat keep) (card own) \<and> (\<forall>x \<in> own - kept. \<forall>y \<in> kept. x < y)
      \<and> ((\<forall>k \<in> own - {br_key res}. \<exists>t h. k = backupKey pre (compactStamp t) h v \<and> t div 1000 < now div 1000) \<longrightarrow>
         map_of b' (br_key res) = Some blob)"
proof -
  let ?pruned = "set (selectForPruning ks keep v)"
  have key: "br_key res = backupKey pre (compactStamp now) (sha blob) v"
    using run by (auto simp: runBackup_def Let_def split: if_splits option.splits)
  then have b': "map_of b' k = (if k \<in> ?pruned then None else ((map_of b)(br_key res \<mapsto> blob)) k)" for k
    using run listing(1) removals by (auto simp: runBackup_def Let_def map_of_remove_each update_conv' split: if_splits)
  note new = newest_kept [OF listing(2) run(2) refl own(1)]
  have there: "((map_of b)(br_key res \<mapsto> blob)) k \<noteq> None" if "k \<in> own" for k
    using that own(1) listing(3) by (auto simp: map_of_eq_None_iff simp del: not_None_eq)
  have kept: "kept = own - ?pruned"
    unfolding own(2) b' using there by (auto simp del: fun_upd_apply not_None_eq)
  then have pruned: "own - kept = ?pruned"
    using new(1) by blast
  moreover have "map_of b' (br_key res) = Some blob"
    if older: "\<forall>k \<in> own - {br_key res}. \<exists>t h. k = backupKey pre (compactStamp t) h v \<and> t div 1000 < now div 1000"
  proof -
    have "br_key res \<notin> ?pruned"
    proof
      assume x: "br_key res \<in> ?pruned"
      then have "card own > 0" "0 < nat keep"
        using new(1) run(2) own(1) by (auto simp: card_gt_0_iff)
      then have "own - ?pruned \<noteq> {}"
        using new(2) by (metis card.empty min_less_iff_conj less_irrefl)
      then obtain y where y: "y \<in> own - ?pruned" by blast
      with older x obtain t h where "y = backupKey pre (compactStamp t) h v" "t div 1000 < now div 1000"
        by blast
      then have "y < br_key res"
        using keys_increase [OF _ date] key by simp
      then show False
        using new(3) [OF x y] by simp
    qed
    then show ?thesis
      by (simp add: b')
  qed
  ultimately show ?thesis
    using new(2,3) b' kept by simp
qed

subsection \<open>Witnesses and boundary cases\<close>

definition sample_requests :: "nat requests" where
  "sample_requests = \<lparr>rq_put = True, rq_list = (\<lambda>b p. Some (filter (prefix p) (map fst b))), rq_remove = (\<lambda>_. True)\<rparr>"

definition sample_snapshot :: "string \<Rightarrow> nat \<Rightarrow> string" where
  "sample_snapshot folder t = backupKey folder (compactStamp t) ''00000000'' (Some ''aaaaaaaa'')"

definition sample_backup :: "nat \<Rightarrow> nat bucket \<Rightarrow> backup_result option \<times> nat bucket" where
  "sample_backup now b = runBackup (\<lambda>_. ''00000000'') sample_requests ''f'' 2 now (Some ''aaaaaaaa'') 9 b"

theorem backup_spares_other_vaults_witness:
  "map_of (snd (sample_backup 5000 [(backupKey ''g'' ''s'' ''h'' (Some ''bbbbbbbb''), 1)]))
     (backupKey ''g'' ''s'' ''h'' (Some ''bbbbbbbb'')) = Some 1"
proof -
  let ?b = "[(backupKey ''g'' ''s'' ''h'' (Some ''bbbbbbbb''), 1 :: nat)]"
  obtain r b' where run: "sample_backup 5000 ?b = (r, b')"
    by fastforce
  have "map_of b' (backupKey ''g'' ''s'' ''h'' (Some ''bbbbbbbb'')) = map_of ?b (backupKey ''g'' ''s'' ''h'' (Some ''bbbbbbbb''))"
    by (rule backup_spares_other_vaults [OF run [unfolded sample_backup_def] _ _ _ _ refl])
      (simp_all add: vaultTag_def is_hex_lower_def)
  with run show ?thesis by simp
qed

lemma zeros_digits: "list_all is_digit (replicate n (CHR ''0''))"
  by (simp add: list_all_iff is_digit_def)

lemma sample_digits:
  "digit_char 0 = CHR ''0''" "digit_char (Suc 0) = CHR ''1''" "digit_char 5 = CHR ''5''" "digit_char 7 = CHR ''7''"
  "digit_char 8 = CHR ''8''" "digit_char 9 = CHR ''9''"
  by code_simp+

lemma sample_stamps:
  "compactStamp 1000 = ''19700101T000001Z''" "compactStamp 5000 = ''19700101T000005Z''"
  "compactStamp 8000 = ''19700101T000008Z''" "compactStamp 9000 = ''19700101T000009Z''"
  by (simp_all add: compactStamp_def toISOString_def year_of.simps [of 1970 0] year_length_def leap_def month_lengths_def
      pad_start_def dec.simps sample_digits is_digit_def zeros_digits)

lemma sample_dates: "printable 5000" "sample_snapshot ''f'' 1000 = ''f/vautix-19700101T000001Z-00000000-vaaaaaaaa.vautix''"
  "sample_snapshot ''f'' 5000 = ''f/vautix-19700101T000005Z-00000000-vaaaaaaaa.vautix''"
  "sample_snapshot ''f'' 8000 = ''f/vautix-19700101T000008Z-00000000-vaaaaaaaa.vautix''"
  "sample_snapshot ''f'' 9000 = ''f/vautix-19700101T000009Z-00000000-vaaaaaaaa.vautix''"
  "sample_snapshot ''f/s'' 9000 = ''f/s/vautix-19700101T000009Z-00000000-vaaaaaaaa.vautix''"
  by (simp_all add: printable_def year_of.simps [of 1970 0] year_length_def leap_def sample_snapshot_def sample_stamps
      backupKey_def has_vault_def vaultTag_def)

lemma sample_backup_eq:
  "sample_backup 5000 b =
     (let b = AList.update (sample_snapshot ''f'' 5000) 9 b;
          ks = selectForPruning (filter (prefix ''f/'') (map fst b)) 2 (Some ''aaaaaaaa'')
      in (Some \<lparr>br_key = sample_snapshot ''f'' 5000, br_hash = ''00000000'', br_prunedKeys = ks\<rparr>, remove_each (\<lambda>_. True) ks b))"
  by (simp add: sample_backup_def runBackup_def sample_requests_def sample_snapshot_def Let_def)

text \<open>When the clock is behind the stamps in the folder, the snapshot just uploaded is among the oldest
  and is deleted by its own run, which still reports success.\<close>

lemma upload_with_slow_clock_is_pruned:
  "sample_backup 5000 [(sample_snapshot ''f'' 9000, 1), (sample_snapshot ''f'' 8000, 2)] =
     (Some \<lparr>br_key = sample_snapshot ''f'' 5000, br_hash = ''00000000'', br_prunedKeys = [sample_snapshot ''f'' 5000]\<rparr>,
      [(sample_snapshot ''f'' 9000, 1), (sample_snapshot ''f'' 8000, 2)])"
  unfolding sample_backup_eq sample_dates by code_simp

text \<open>A folder's listing reaches into its subfolders, so a second target of the same vault below it
  loses newer snapshots than the ones the prune keeps.\<close>

lemma nested_folder_is_pruned:
  "snd (sample_backup 5000 [(sample_snapshot ''f'' 1000, 1), (sample_snapshot ''f/s'' 9000, 2)]) =
     [(sample_snapshot ''f'' 1000, 1), (sample_snapshot ''f'' 5000, 9)]"
  unfolding sample_backup_eq sample_dates by code_simp

end
