(* ===== verification/Backup_Schedule.thy ===== *)
theory Backup_Schedule
  imports Js_Text
begin

text \<open>
  Cloud backup targets and their schedule (\<open>packages/core/src/backup/config.ts\<close>,
  \<open>schedule.ts\<close> and \<open>run.ts\<close>): when a target is due, the retry back-off, one scheduled run over
  every vault, and the migration of the device-global target list.

  Times are milliseconds. \<open>None\<close> as an interval is infinity. A back-off delay is exact, because
  the code multiplies by a power of two and caps the product. Storage, the key lookup and the
  uploads are arguments that may fail; what other code does to a vault's list while the uploads run
  is an argument too. A target's connection fields (endpoint, region, bucket, server) are passed to
  the provider untouched and are not in the record.
\<close>

subsection \<open>Targets\<close>

datatype frequency = Off | Daily | Weekly | Monthly

datatype provider = S3 | Webdav | Dropbox

datatype target_creds = WrappedCreds string string | OsHeldCreds

record backup_target =
  bt_id :: string
  bt_providerId :: string
  bt_provider :: provider
  bt_prefix :: "string option"
  bt_path :: "string option"
  bt_frequency :: frequency
  bt_keep :: int
  bt_creds :: target_creds
  bt_sharedFolder :: bool
  bt_lastBackupAt :: "int option"
  bt_lastVaultHash :: "string option"
  bt_lastError :: "string option"
  bt_failures :: "int option"
  bt_failedAt :: "int option"

fun credsAreOsHeld :: "target_creds \<Rightarrow> bool" where
  "credsAreOsHeld OsHeldCreds = True"
| "credsAreOsHeld (WrappedCreds iv ct) = False"

text \<open>What one attempt produced; an outcome with an error is a failure.\<close>

record backup_outcome =
  oc_hash :: "string option"
  oc_error :: "string option"

definition applyBackupOutcomes ::
  "backup_target list \<Rightarrow> (string \<times> backup_outcome) list \<Rightarrow> int \<Rightarrow> backup_target list" where
  "applyBackupOutcomes targets outcomes now =
     map (\<lambda>t. case map_of outcomes (bt_id t) of
            None \<Rightarrow> t
          | Some r \<Rightarrow>
              (case oc_error r of
                 Some e \<Rightarrow> t\<lparr>bt_lastError := Some e, bt_failedAt := Some now,
                   bt_failures := Some ((case bt_failures t of None \<Rightarrow> 0 | Some f \<Rightarrow> f) + 1)\<rparr>
               | None \<Rightarrow> t\<lparr>bt_lastBackupAt := Some now, bt_lastVaultHash := oc_hash r, bt_lastError := None,
                   bt_failedAt := None, bt_failures := None\<rparr>)) targets"

definition clearBackoff :: "backup_target \<Rightarrow> backup_target" where
  "clearBackoff t =
     (if bt_failedAt t = None \<and> bt_failures t = None then t
      else t\<lparr>bt_failedAt := None, bt_failures := None\<rparr>)"

text \<open>The folder of a target: white space and slashes are stripped from its ends.\<close>

definition backupPrefix :: "backup_target \<Rightarrow> string" where
  "backupPrefix cfg =
     (let folder = (if bt_provider cfg = Webdav then bt_path cfg else bt_prefix cfg)
      in case folder of
           None \<Rightarrow> ''vautix''
         | Some f \<Rightarrow> (let p = strip (\<lambda>c. c = CHR ''/'') (trim f) in if p = [] then ''vautix'' else p))"

definition vaultBackupPrefix :: "string \<Rightarrow> string \<Rightarrow> bool \<Rightarrow> string" where
  "vaultBackupPrefix base vaultId isDefault = (if isDefault then base else base @ ''-'' @ vaultId)"

definition targetPrefixFor :: "backup_target \<Rightarrow> string \<Rightarrow> bool \<Rightarrow> string" where
  "targetPrefixFor cfg vaultId isDefault =
     (if bt_sharedFolder cfg then vaultBackupPrefix (backupPrefix cfg) vaultId isDefault else backupPrefix cfg)"

definition keyVaultIdFor :: "backup_target \<Rightarrow> string \<Rightarrow> string option" where
  "keyVaultIdFor cfg vaultId = (if bt_sharedFolder cfg then None else Some vaultId)"

subsection \<open>When a target is due\<close>

definition DAY :: int where
  "DAY = 24 * 60 * 60 * 1000"

fun intervalMs :: "frequency \<Rightarrow> int option" where
  "intervalMs Daily = Some DAY"
| "intervalMs Weekly = Some (7 * DAY)"
| "intervalMs Monthly = Some (30 * DAY)"
| "intervalMs Off = None"

definition RETRY_BASE_MS :: int where
  "RETRY_BASE_MS = 15 * 60 * 1000"

definition retryDelayMs :: "int \<Rightarrow> frequency \<Rightarrow> int" where
  "retryDelayMs failures frequency =
     (if failures \<le> 0 then 0
      else (let d = RETRY_BASE_MS * 2 ^ nat (failures - 1)
            in case intervalMs frequency of None \<Rightarrow> d | Some i \<Rightarrow> min d i))"

definition backing_off :: "backup_target \<Rightarrow> int \<Rightarrow> bool" where
  "backing_off t now \<longleftrightarrow>
     (case bt_failedAt t of
        None \<Rightarrow> False
      | Some at \<Rightarrow> 0 \<le> now - at \<and>
          now - at < retryDelayMs (case bt_failures t of None \<Rightarrow> 1 | Some f \<Rightarrow> f) (bt_frequency t))"

definition isDue :: "backup_target \<Rightarrow> int \<Rightarrow> bool" where
  "isDue t now \<longleftrightarrow>
     bt_frequency t \<noteq> Off \<and> \<not> backing_off t now \<and>
     (case bt_lastBackupAt t of
        None \<Rightarrow> True
      | Some at \<Rightarrow> (case intervalMs (bt_frequency t) of None \<Rightarrow> False | Some i \<Rightarrow> now - at \<ge> i))"

definition selectDueTargets :: "backup_target list \<Rightarrow> int \<Rightarrow> string \<Rightarrow> backup_target list" where
  "selectDueTargets targets now currentVaultHash =
     filter (\<lambda>t. isDue t now \<and> bt_lastVaultHash t \<noteq> Some currentVaultHash) targets"

subsection \<open>One scheduled run\<close>

record 'b vault_backup =
  vb_id :: string
  vb_blob :: 'b
  vb_isDefault :: bool

datatype 's secrets_result = Opened 's | VaultLocked | SecretsFailed string

type_synonym target_store = "string \<Rightarrow> backup_target list"

text \<open>
  \<open>None\<close> is a throw, which ends the run; \<open>rd_upload\<close> returns the message of a failed upload.
  \<open>rd_meanwhile v\<close> is what others make of the vault's list between the two loads.
\<close>

record ('b, 's) run_deps =
  rd_load :: "string \<Rightarrow> bool"
  rd_hash :: "'b vault_backup \<Rightarrow> string option"
  rd_decrypt :: "string \<Rightarrow> string \<Rightarrow> string \<Rightarrow> 's secrets_result"
  rd_upload :: "string \<Rightarrow> backup_target \<Rightarrow> 's option \<Rightarrow> 'b vault_backup \<Rightarrow> string option"
  rd_meanwhile :: "string \<Rightarrow> backup_target list \<Rightarrow> backup_target list"
  rd_reload :: "string \<Rightarrow> bool"
  rd_save :: "string \<Rightarrow> bool"

record run_result =
  rr_attempted :: nat
  rr_succeeded :: "(string \<times> string) list"
  rr_failed :: "(string \<times> string \<times> string) list"
  rr_skipped :: nat

definition no_result :: run_result where
  "no_result = \<lparr>rr_attempted = 0, rr_succeeded = [], rr_failed = [], rr_skipped = 0\<rparr>"

text \<open>One target: \<open>None\<close> is skipped.\<close>

definition attempt ::
  "('b, 's) run_deps \<Rightarrow> string \<Rightarrow> 'b vault_backup \<Rightarrow> backup_target \<Rightarrow> backup_outcome option" where
  "attempt D hash v t =
     (let sent = (\<lambda>secrets. case rd_upload D (vb_id v) t secrets v of
                    None \<Rightarrow> Some \<lparr>oc_hash = Some hash, oc_error = None\<rparr>
                  | Some e \<Rightarrow> Some \<lparr>oc_hash = None, oc_error = Some e\<rparr>)
      in case bt_creds t of
           OsHeldCreds \<Rightarrow> sent None
         | WrappedCreds iv ct \<Rightarrow>
             (case rd_decrypt D (vb_id v) iv ct of
                Opened s \<Rightarrow> sent (Some s)
              | VaultLocked \<Rightarrow> None
              | SecretsFailed e \<Rightarrow> Some \<lparr>oc_hash = None, oc_error = Some e\<rparr>))"

fun run_targets ::
  "('b, 's) run_deps \<Rightarrow> string \<Rightarrow> 'b vault_backup \<Rightarrow> backup_target list \<Rightarrow> (string \<times> backup_outcome) list \<times> nat \<Rightarrow>
   (string \<times> backup_outcome) list \<times> nat" where
  "run_targets D hash v [] acc = acc"
| "run_targets D hash v (t # ts) (outcome, skipped) =
     (case attempt D hash v t of
        None \<Rightarrow> run_targets D hash v ts (outcome, Suc skipped)
      | Some r \<Rightarrow> run_targets D hash v ts (AList.update (bt_id t) r outcome, skipped))"

definition report_outcome :: "string \<Rightarrow> string \<times> backup_outcome \<Rightarrow> run_result \<Rightarrow> run_result" where
  "report_outcome vaultId o' r =
     (let r = r\<lparr>rr_attempted := Suc (rr_attempted r)\<rparr>
      in case oc_error (snd o') of
           Some e \<Rightarrow> r\<lparr>rr_failed := rr_failed r @ [(vaultId, fst o', e)]\<rparr>
         | None \<Rightarrow> r\<lparr>rr_succeeded := rr_succeeded r @ [(vaultId, fst o')]\<rparr>)"

text \<open>One vault of the run. The first component tells whether it did not throw.\<close>

definition run_vault ::
  "('b, 's) run_deps \<Rightarrow> int \<Rightarrow> 'b vault_backup \<Rightarrow> target_store \<times> run_result \<Rightarrow> bool \<times> target_store \<times> run_result" where
  "run_vault D now v st =
     (case st of
        (ts, r) \<Rightarrow>
          if \<not> rd_load D (vb_id v) then (False, ts, r)
          else if \<not> list_ex (\<lambda>t. isDue t now) (ts (vb_id v)) then (True, ts, r)
          else (case rd_hash D v of
                  None \<Rightarrow> (False, ts, r)
                | Some hash \<Rightarrow>
                    let toRun = selectDueTargets (ts (vb_id v)) now hash
                    in if toRun = [] then (True, ts, r)
                       else (case run_targets D hash v toRun ([], 0) of
                               (outcome, skipped) \<Rightarrow>
                                 let r = r\<lparr>rr_skipped := rr_skipped r + skipped\<rparr>;
                                     ts = ts(vb_id v := rd_meanwhile D (vb_id v) (ts (vb_id v)))
                                 in if outcome = [] then (True, ts, r)
                                    else if \<not> rd_reload D (vb_id v) \<or> \<not> rd_save D (vb_id v) then (False, ts, r)
                                    else (True, ts(vb_id v := applyBackupOutcomes (ts (vb_id v)) outcome now),
                                          fold (report_outcome (vb_id v)) outcome r))))"

fun run_vaults ::
  "('b, 's) run_deps \<Rightarrow> int \<Rightarrow> 'b vault_backup list \<Rightarrow> target_store \<times> run_result \<Rightarrow> bool \<times> target_store \<times> run_result" where
  "run_vaults D now [] st = (True, st)"
| "run_vaults D now (v # vs) st =
     (case run_vault D now v st of
        (False, st) \<Rightarrow> (False, st)
      | (True, st) \<Rightarrow> run_vaults D now vs st)"

definition runScheduledBackups ::
  "('b, 's) run_deps \<Rightarrow> int \<Rightarrow> 'b vault_backup list \<Rightarrow> target_store \<Rightarrow> bool \<times> target_store \<times> run_result" where
  "runScheduledBackups D now vaults ts = run_vaults D now vaults (ts, no_result)"

subsection \<open>Migration to targets per vault\<close>

record target_meta =
  tm_shared :: "backup_target list option"
  tm_legacy :: "backup_target option"
  tm_vault :: "string \<Rightarrow> backup_target list option"

definition adopted :: "string \<Rightarrow> target_meta \<Rightarrow> backup_target list option" where
  "adopted newId m =
     map_option (map (\<lambda>t. t\<lparr>bt_sharedFolder := True\<rparr>))
       (case tm_shared m of
          Some ts \<Rightarrow> Some ts
        | None \<Rightarrow> map_option (\<lambda>t. [t\<lparr>bt_id := newId\<rparr>]) (tm_legacy m))"

fun adopt_all :: "backup_target list \<Rightarrow> string list \<Rightarrow> target_meta \<Rightarrow> target_meta list" where
  "adopt_all ts [] m = []"
| "adopt_all ts (v # vs) m =
     (if tm_vault m v \<noteq> None then adopt_all ts vs m
      else (let m = m\<lparr>tm_vault := (tm_vault m)(v := Some ts)\<rparr> in m # adopt_all ts vs m))"

text \<open>Every state storage passes through, in order: the writes, then the two removals.\<close>

definition migrateBackupTargetsToVaults :: "string \<Rightarrow> string list \<Rightarrow> target_meta \<Rightarrow> target_meta list" where
  "migrateBackupTargetsToVaults newId vaultIds m =
     (if vaultIds = [] then [m]
      else (case adopted newId m of
              None \<Rightarrow> [m]
            | Some ts \<Rightarrow>
                let ms = m # adopt_all ts vaultIds m; m' = last ms
                in ms @ [m'\<lparr>tm_shared := None\<rparr>, m'\<lparr>tm_shared := None, tm_legacy := None\<rparr>]))"

subsection \<open>Due and back-off\<close>

lemma interval_positive: "intervalMs f = Some i \<Longrightarrow> 0 < i"
  by (cases f) (auto simp: DAY_def)

lemma interval_some: "f \<noteq> Off \<Longrightarrow> \<exists>i. intervalMs f = Some i"
  by (cases f) auto

lemma retry_positive: "0 < f \<Longrightarrow> 0 < retryDelayMs f fr"
  by (auto simp: retryDelayMs_def RETRY_BASE_MS_def Let_def interval_positive split: option.splits)

lemma retry_within_interval: "intervalMs fr = Some i \<Longrightarrow> retryDelayMs f fr \<le> i"
  using interval_positive [of fr i] by (auto simp: retryDelayMs_def Let_def)

text \<open>The targets a history of attempts leaves: a run of failures at the given times.\<close>

definition failed_at :: "string \<Rightarrow> int list \<Rightarrow> backup_target \<Rightarrow> backup_target" where
  "failed_at e ns t =
     fold (\<lambda>n t. hd (applyBackupOutcomes [t] [(bt_id t, \<lparr>oc_hash = None, oc_error = Some e\<rparr>)] n)) ns t"

lemma failed_once:
  "failed_at e [n] t = t\<lparr>bt_lastError := Some e, bt_failedAt := Some n,
     bt_failures := Some ((case bt_failures t of None \<Rightarrow> 0 | Some f \<Rightarrow> f) + 1)\<rparr>"
  by (simp add: failed_at_def applyBackupOutcomes_def)

lemma failed_snoc: "failed_at e (ns @ [n]) t = failed_at e [n] (failed_at e ns t)"
  by (simp add: failed_at_def)

lemma failed_fields:
  "bt_frequency (failed_at e ns t) = bt_frequency t \<and> bt_lastBackupAt (failed_at e ns t) = bt_lastBackupAt t \<and>
   bt_lastVaultHash (failed_at e ns t) = bt_lastVaultHash t \<and>
   (ns \<noteq> [] \<longrightarrow> bt_failedAt (failed_at e ns t) = Some (last ns) \<and>
     bt_failures (failed_at e ns t) = Some ((case bt_failures t of None \<Rightarrow> 0 | Some f \<Rightarrow> f) + int (length ns)))"
proof (induction ns rule: rev_induct)
  case (snoc n ns)
  then show ?case
    by (cases "ns = []") (simp_all add: failed_snoc failed_once failed_at_def [of e "[]"])
qed (simp add: failed_at_def)

subsection \<open>A run seen from one vault\<close>

lemma outcome_not_due:
  assumes "\<forall>f. bt_failures t = Some f \<longrightarrow> 0 \<le> f" "map_of outcomes (bt_id t) \<noteq> None" "t' \<in> set (applyBackupOutcomes [t] outcomes now)"
  shows "\<not> isDue t' now"
proof -
  obtain r where r: "map_of outcomes (bt_id t) = Some r"
    using assms(2) by auto
  show ?thesis
  proof (cases "oc_error r")
    case None
    then have "bt_lastBackupAt t' = Some now"
      using assms(3) r by (simp add: applyBackupOutcomes_def)
    then show ?thesis
      using interval_positive [of "bt_frequency t'"] by (auto simp: isDue_def split: option.splits)
  next
    case (Some e)
    then have "backing_off t' now"
      using assms(1,3) r retry_positive
      by (cases "bt_failures t") (simp_all add: applyBackupOutcomes_def backing_off_def)
    then show ?thesis
      by (simp add: isDue_def)
  qed
qed

definition counts_ok :: "backup_target list \<Rightarrow> bool" where
  "counts_ok ts \<longleftrightarrow> list_all (\<lambda>t. case bt_failures t of None \<Rightarrow> True | Some f \<Rightarrow> 0 \<le> f) ts"

lemma run_targets_skipped: "run_targets D hash v ts (oc, k) = (oc', k') \<Longrightarrow> k \<le> k'"
proof (induction ts arbitrary: oc k)
  case (Cons t ts)
  then show ?case by (fastforce split: option.splits)
qed simp

lemma run_targets_outcomes:
  assumes "run_targets D hash v ts (oc, k) = (oc', k)"
  shows "dom (map_of oc') = dom (map_of oc) \<union> bt_id ` set ts"
  using assms
proof (induction ts arbitrary: oc)
  case (Cons t ts)
  show ?case
  proof (cases "attempt D hash v t")
    case None
    with Cons.prems run_targets_skipped [of D hash v ts oc "Suc k" oc' k] show ?thesis by simp
  next
    case (Some r)
    with Cons.prems Cons.IH [of "AList.update (bt_id t) r oc"] show ?thesis
      by (auto simp: update_conv')
  qed
qed simp

text \<open>The targets of a vault that stay selected after their outcomes were folded in: none.\<close>

lemma none_left:
  assumes "counts_ok ts" "bt_id ` set (selectDueTargets ts now hash) \<subseteq> dom (map_of oc)"
  shows "selectDueTargets (applyBackupOutcomes ts oc now) now hash = []"
proof -
  have "\<not> (isDue t' now \<and> bt_lastVaultHash t' \<noteq> Some hash)"
    if t: "t \<in> set ts" "t' \<in> set (applyBackupOutcomes [t] oc now)" for t t'
  proof (cases "map_of oc (bt_id t)")
    case None
    then have "t' = t"
      using t(2) by (simp add: applyBackupOutcomes_def)
    with None t(1) assms(2) show ?thesis
      by (auto simp: selectDueTargets_def)
  next
    case (Some r)
    have "\<forall>f. bt_failures t = Some f \<longrightarrow> 0 \<le> f"
      using assms(1) t(1) by (auto simp: counts_ok_def list_all_iff)
    with Some outcome_not_due [OF this _ t(2)] show ?thesis by simp
  qed
  then show ?thesis
    by (fastforce simp: selectDueTargets_def applyBackupOutcomes_def filter_empty_conv)
qed

lemma report_skipped: "rr_skipped (fold (report_outcome v) oc r) = rr_skipped r"
  by (induction oc arbitrary: r) (simp_all add: report_outcome_def Let_def split: option.splits)

text \<open>A vault at which a run at this time has nothing to do.\<close>

definition settled :: "('b, 's) run_deps \<Rightarrow> int \<Rightarrow> 'b vault_backup \<Rightarrow> target_store \<Rightarrow> bool" where
  "settled D now v ts \<longleftrightarrow> rd_load D (vb_id v) \<and>
     (\<not> list_ex (\<lambda>t. isDue t now) (ts (vb_id v)) \<or>
      (\<exists>hash. rd_hash D v = Some hash \<and> selectDueTargets (ts (vb_id v)) now hash = []))"

lemma settled_run: "settled D now v ts \<Longrightarrow> run_vault D now v (ts, r) = (True, ts, r)"
  by (auto simp: settled_def run_vault_def Let_def)

lemma run_vault_settles:
  assumes "run_vault D now v (ts, r) = (True, ts', r')"
    and "rd_meanwhile D (vb_id v) (ts (vb_id v)) = ts (vb_id v)" "counts_ok (ts (vb_id v))"
  shows "rr_skipped r \<le> rr_skipped r' \<and> (\<forall>i. i \<noteq> vb_id v \<longrightarrow> ts' i = ts i) \<and>
    (rr_skipped r' = rr_skipped r \<longrightarrow> settled D now v ts')"
proof (cases "list_ex (\<lambda>t. isDue t now) (ts (vb_id v))")
  case False
  with assms(1) have "ts' = ts" "r' = r" "rd_load D (vb_id v)"
    by (simp_all add: run_vault_def split: if_splits)
  with False show ?thesis by (simp add: settled_def)
next
  case True
  with assms(1) obtain hash where load: "rd_load D (vb_id v)" and hash: "rd_hash D v = Some hash"
    by (auto simp: run_vault_def split: if_splits option.splits)
  let ?run = "selectDueTargets (ts (vb_id v)) now hash"
  show ?thesis
  proof (cases "?run = []")
    case True
    then have "ts' = ts" "r' = r"
      using assms(1) load hash \<open>list_ex _ _\<close> by (simp_all add: run_vault_def Let_def)
    with True load hash show ?thesis by (simp add: settled_def)
  next
    case False
    obtain oc k where oc: "run_targets D hash v ?run ([], 0) = (oc, k)"
      by fastforce
    have keep: "ts(vb_id v := rd_meanwhile D (vb_id v) (ts (vb_id v))) = ts"
      using assms(2) by auto
    let ?r = "r\<lparr>rr_skipped := rr_skipped r + k\<rparr>"
    have "run_vault D now v (ts, r) =
        (if oc = [] then (True, ts, ?r)
         else if \<not> rd_reload D (vb_id v) \<or> \<not> rd_save D (vb_id v) then (False, ts, ?r)
         else (True, ts(vb_id v := applyBackupOutcomes (ts (vb_id v)) oc now), fold (report_outcome (vb_id v)) oc ?r))"
      using load hash True False by (simp add: run_vault_def Let_def oc keep)
    with assms(1) have r': "rr_skipped r' = rr_skipped r + k"
      and ts': "ts' = (if oc = [] then ts else ts(vb_id v := applyBackupOutcomes (ts (vb_id v)) oc now))"
      by (auto simp: report_skipped split: if_splits)
    have "settled D now v ts'" if "k = 0"
    proof -
      have "bt_id ` set ?run \<subseteq> dom (map_of oc)"
        using run_targets_outcomes [of D hash v ?run "[]" 0 oc] oc that by simp
      then have "oc \<noteq> []"
        using False by auto
      then show ?thesis
        using none_left [OF assms(3) \<open>bt_id ` set ?run \<subseteq> dom (map_of oc)\<close>] load hash by (simp add: settled_def ts')
    qed
    then show ?thesis
      using r' ts' by simp
  qed
qed

lemma settled_cong: "ts (vb_id v) = ts' (vb_id v) \<Longrightarrow> settled D now v ts \<longleftrightarrow> settled D now v ts'"
  by (simp add: settled_def)

lemma run_vaults_settle:
  assumes "run_vaults D now vs (ts, r) = (True, ts', r')" "distinct (map vb_id vs)"
    and "\<forall>v \<in> set vs. rd_meanwhile D (vb_id v) (ts (vb_id v)) = ts (vb_id v) \<and> counts_ok (ts (vb_id v))"
  shows "rr_skipped r \<le> rr_skipped r' \<and> (\<forall>i. i \<notin> vb_id ` set vs \<longrightarrow> ts' i = ts i) \<and>
    (rr_skipped r' = rr_skipped r \<longrightarrow> (\<forall>v \<in> set vs. settled D now v ts'))"
  using assms
proof (induction vs arbitrary: ts r)
  case (Cons v vs)
  obtain ts1 r1 where one: "run_vault D now v (ts, r) = (True, ts1, r1)"
    and rest: "run_vaults D now vs (ts1, r1) = (True, ts', r')"
    using Cons.prems(1) by (auto split: prod.splits bool.splits)
  from run_vault_settles [OF one] Cons.prems(3)
  have first: "rr_skipped r \<le> rr_skipped r1" "\<forall>i. i \<noteq> vb_id v \<longrightarrow> ts1 i = ts i"
      "rr_skipped r1 = rr_skipped r \<longrightarrow> settled D now v ts1"
    by simp_all
  have "\<forall>w \<in> set vs. ts1 (vb_id w) = ts (vb_id w)"
    using first(2) Cons.prems(2) by (metis distinct.simps(2) image_eqI list.map(2) list.set_map)
  with Cons.IH [OF rest] Cons.prems(2,3)
  have more: "rr_skipped r1 \<le> rr_skipped r'" "\<forall>i. i \<notin> vb_id ` set vs \<longrightarrow> ts' i = ts1 i"
      "rr_skipped r' = rr_skipped r1 \<longrightarrow> (\<forall>w \<in> set vs. settled D now w ts')"
    by simp_all
  have "ts' (vb_id v) = ts1 (vb_id v)"
    using more(2) Cons.prems(2) by simp
  then have "settled D now v ts' \<longleftrightarrow> settled D now v ts1"
    by (rule settled_cong)
  with first more show ?case by auto
qed simp

lemma settled_runs: "\<forall>v \<in> set vs. settled D now v ts \<Longrightarrow> run_vaults D now vs (ts, r) = (True, ts, r)"
  by (induction vs) (simp_all add: settled_run)

subsection \<open>The migration step by step\<close>

definition grown :: "backup_target list \<Rightarrow> string list \<Rightarrow> target_meta \<Rightarrow> target_meta \<Rightarrow> bool" where
  "grown l vs m m' \<longleftrightarrow> tm_shared m' = tm_shared m \<and> tm_legacy m' = tm_legacy m \<and>
     (\<forall>v. tm_vault m' v = tm_vault m v \<or> tm_vault m v = None \<and> v \<in> set vs \<and> tm_vault m' v = Some l)"

lemma adopt_all_grown: "m' \<in> set (adopt_all l vs m) \<Longrightarrow> grown l vs m m'"
proof (induction vs arbitrary: m)
  case (Cons v vs)
  show ?case
  proof (cases "tm_vault m v = None")
    case True
    let ?m = "m\<lparr>tm_vault := (tm_vault m)(v := Some l)\<rparr>"
    have "m' = ?m \<or> grown l vs ?m m'"
      using Cons True by (auto simp: Let_def)
    with True show ?thesis by (fastforce simp: grown_def split: if_splits)
  next
    case False
    with Cons show ?thesis by (fastforce simp: grown_def)
  qed
qed simp

lemma grown_states: "m' \<in> set (m # adopt_all l vs m) \<Longrightarrow> grown l vs m m'"
  using adopt_all_grown [of m' l vs m] by (cases "m' = m") (simp_all add: grown_def)

lemma grown_last: "grown l vs m (last (m # adopt_all l vs m))"
  by (rule grown_states, rule last_in_set) simp

lemma adopt_all_last: "v \<in> set vs \<Longrightarrow> tm_vault (last (m # adopt_all l vs m)) v \<noteq> None"
proof (induction vs arbitrary: m)
  case (Cons w vs)
  define m1 where "m1 = (if tm_vault m w = None then m\<lparr>tm_vault := (tm_vault m)(w := Some l)\<rparr> else m)"
  have last: "last (m # adopt_all l (w # vs) m) = last (m1 # adopt_all l vs m1)"
    by (simp add: Let_def m1_def)
  show ?case
  proof (cases "v \<in> set vs")
    case True
    with Cons.IH show ?thesis unfolding last .
  next
    case False
    then have "tm_vault m1 v \<noteq> None"
      using Cons.prems by (simp add: m1_def)
    then show ?thesis
      using grown_last [of l vs m1] unfolding last grown_def by metis
  qed
qed simp

lemma adopted_cong: "grown l vs m m' \<Longrightarrow> adopted n m' = adopted n m"
  unfolding grown_def adopted_def by (elim conjE) (cases "tm_shared m"; simp)

text \<open>The states an interruption can leave, and where a run that is not interrupted ends.\<close>

lemma migration_run:
  assumes "vs \<noteq> []" "adopted n m = Some l"
  obtains ms m1 where "migrateBackupTargetsToVaults n vs m = ms @ [m1\<lparr>tm_shared := None\<rparr>, m1\<lparr>tm_shared := None, tm_legacy := None\<rparr>]"
    and "\<forall>x \<in> set ms. grown l vs m x"
    and "\<forall>v. tm_vault m1 v = (if v \<in> set vs \<and> tm_vault m v = None then Some l else tm_vault m v)"
proof
  let ?last = "last (m # adopt_all l vs m)"
  show "migrateBackupTargetsToVaults n vs m = (m # adopt_all l vs m) @ [?last\<lparr>tm_shared := None\<rparr>, ?last\<lparr>tm_shared := None, tm_legacy := None\<rparr>]"
    using assms by (simp only: migrateBackupTargetsToVaults_def option.case if_False Let_def)
  show "\<forall>x \<in> set (m # adopt_all l vs m). grown l vs m x"
    using grown_states by blast
  have "tm_vault ?last v = (if v \<in> set vs \<and> tm_vault m v = None then Some l else tm_vault m v)" for v
    using adopt_all_last [of v vs m l] grown_last [of l vs m] unfolding grown_def by (metis (no_types))
  then show "\<forall>v. tm_vault ?last v = (if v \<in> set vs \<and> tm_vault m v = None then Some l else tm_vault m v)"
    by blast
qed

lemma migration_end:
  assumes "vs \<noteq> []" "adopted n m = Some l" "fin = last (migrateBackupTargetsToVaults n vs m)"
  shows "tm_shared fin = None \<and> tm_legacy fin = None \<and>
    (\<forall>v. tm_vault fin v = (if v \<in> set vs \<and> tm_vault m v = None then Some l else tm_vault m v))"
  by (rule migration_run [OF assms(1,2)]) (simp add: assms(3))

lemma migration_states:
  assumes "vs \<noteq> []" "adopted n m = Some l" "m' \<in> set (migrateBackupTargetsToVaults n vs m)"
  shows "grown l vs m m' \<or> tm_shared m' = None \<and>
    (\<forall>v. tm_vault m' v = (if v \<in> set vs \<and> tm_vault m v = None then Some l else tm_vault m v))"
  by (rule migration_run [OF assms(1,2)]) (use assms(3) in auto)

subsection \<open>Properties\<close>

text \<open>Property C22: retries back off, within the schedule. After a target that was not failing failed at
  the given times, it is due again exactly when the clock is before the last failure or fifteen minutes
  doubled per further failure have passed since, but never more than its own interval, and its schedule
  asks for a backup; the last good backup it remembers is untouched.\<close>

theorem retry_backs_off:
  assumes "bt_failures t = None" "ns \<noteq> []" "intervalMs (bt_frequency t) = Some i"
  shows "(isDue (failed_at e ns t) now \<longleftrightarrow>
      (now < last ns \<or> last ns + min (900000 * 2 ^ (length ns - 1)) i \<le> now) \<and>
      (case bt_lastBackupAt t of None \<Rightarrow> True | Some at \<Rightarrow> at + i \<le> now)) \<and>
    bt_lastVaultHash (failed_at e ns t) = bt_lastVaultHash t"
proof -
  have fields: "bt_frequency (failed_at e ns t) = bt_frequency t" "bt_lastBackupAt (failed_at e ns t) = bt_lastBackupAt t"
      "bt_failedAt (failed_at e ns t) = Some (last ns)" "bt_failures (failed_at e ns t) = Some (int (length ns))"
    using failed_fields [of e ns t] assms(1,2) by simp_all
  have "nat (int (length ns) - 1) = length ns - 1" "0 < length ns"
    using assms(2) by auto
  then have delay: "retryDelayMs (int (length ns)) (bt_frequency t) = min (900000 * 2 ^ (length ns - 1)) i"
    using assms(3) by (simp add: retryDelayMs_def RETRY_BASE_MS_def)
  have "backing_off (failed_at e ns t) now \<longleftrightarrow>
      \<not> (now < last ns \<or> last ns + min (900000 * 2 ^ (length ns - 1)) i \<le> now)"
    by (auto simp: backing_off_def fields delay)
  moreover have "bt_frequency t \<noteq> Off"
    using assms(3) by auto
  moreover have "i \<le> now - at \<longleftrightarrow> at + i \<le> now" for at
    by linarith
  ultimately have "isDue (failed_at e ns t) now \<longleftrightarrow>
      (now < last ns \<or> last ns + min (900000 * 2 ^ (length ns - 1)) i \<le> now) \<and>
      (case bt_lastBackupAt t of None \<Rightarrow> True | Some at \<Rightarrow> at + i \<le> now)"
    by (cases "bt_lastBackupAt t") (simp_all add: isDue_def fields assms(3))
  then show ?thesis
    using failed_fields [of e ns t] by blast
qed

text \<open>A scheduled run is idempotent. When a run over vaults of different ids completed and
  skipped no target for a locked vault, the same run at the same time, with the same vaults, uploads
  nothing and changes no list: every attempt, successful or failed, took its target off the schedule.
  (No one else changed the lists, and stored failure counts are not negative.)\<close>

lemma scheduled_run_is_idempotent:
  assumes "runScheduledBackups D now vs ts = (True, ts', r)" "rr_skipped r = 0" "distinct (map vb_id vs)"
    and "\<forall>v \<in> set vs. rd_meanwhile D (vb_id v) (ts (vb_id v)) = ts (vb_id v) \<and> counts_ok (ts (vb_id v))"
  shows "runScheduledBackups D now vs ts' = (True, ts', no_result)"
proof -
  have "\<forall>v \<in> set vs. settled D now v ts'"
    using run_vaults_settle [OF assms(1) [unfolded runScheduledBackups_def] assms(3,4)] assms(2)
    by (simp add: no_result_def)
  then show ?thesis
    unfolding runScheduledBackups_def by (rule settled_runs)
qed

text \<open>The migration of targets survives an interruption anywhere. Whatever write of a first
  run was its last, running it again ends with both device-global keys gone, every list a vault already
  had kept, every other vault given the shared list as one of the two runs read it, and no other vault
  touched.\<close>

lemma migration_survives_crash:
  assumes "vs \<noteq> []" "adopted n m = Some l" "m' \<in> set (migrateBackupTargetsToVaults n vs m)"
    and "fin = last (migrateBackupTargetsToVaults n' vs m')"
  shows "tm_shared fin = None \<and> tm_legacy fin = None \<and>
    (\<forall>v. if v \<in> set vs \<and> tm_vault m v = None then tm_vault fin v \<in> {Some l, adopted n' m}
         else tm_vault fin v = tm_vault m v)"
proof (cases "adopted n' m'")
  case None
  then have "tm_shared m' = None" "tm_legacy m' = None"
    by (simp_all add: adopted_def split: option.splits)
  moreover have "fin = m'"
    using None assms(4) by (simp add: migrateBackupTargetsToVaults_def)
  moreover have "\<not> grown l vs m m'"
    using None assms(2) by (auto simp: grown_def adopted_def split: option.splits)
  ultimately show ?thesis
    using migration_states [OF assms(1-3)] by simp
next
  case (Some l')
  note fin = migration_end [OF assms(1) Some assms(4)]
  from migration_states [OF assms(1-3)] show ?thesis
  proof
    assume "grown l vs m m'"
    then have "adopted n' m = Some l'" "\<forall>v. tm_vault m' v = tm_vault m v \<or> tm_vault m v = None \<and> v \<in> set vs \<and> tm_vault m' v = Some l"
      using Some adopted_cong by (fastforce simp: grown_def)+
    then show ?thesis
      using fin by (metis insertCI option.distinct(1))
  next
    assume "tm_shared m' = None \<and> (\<forall>v. tm_vault m' v = (if v \<in> set vs \<and> tm_vault m v = None then Some l else tm_vault m v))"
    then show ?thesis
      using fin by simp
  qed
qed

subsection \<open>Witnesses\<close>

definition sample_target :: "string \<Rightarrow> frequency \<Rightarrow> backup_target" where
  "sample_target i f = \<lparr>bt_id = i, bt_providerId = ''aws'', bt_provider = S3, bt_prefix = None, bt_path = None,
     bt_frequency = f, bt_keep = 30, bt_creds = OsHeldCreds, bt_sharedFolder = False, bt_lastBackupAt = None,
     bt_lastVaultHash = None, bt_lastError = None, bt_failures = None, bt_failedAt = None\<rparr>"

theorem retry_backs_off_witness:
  "\<not> isDue (failed_at ''e'' [0, 900000] (sample_target ''a'' Daily)) 2699999 \<and>
   isDue (failed_at ''e'' [0, 900000] (sample_target ''a'' Daily)) 2700000"
  by (simp add: retry_backs_off [where i = DAY] sample_target_def DAY_def)

definition sample_deps :: "(nat, unit) run_deps" where
  "sample_deps = \<lparr>rd_load = (\<lambda>_. True), rd_hash = (\<lambda>_. Some ''h''), rd_decrypt = (\<lambda>_ _ _. VaultLocked),
     rd_upload = (\<lambda>_ t _ _. if bt_id t = ''b'' then Some ''denied'' else None), rd_meanwhile = (\<lambda>_ ts. ts),
     rd_reload = (\<lambda>_. True), rd_save = (\<lambda>_. True)\<rparr>"

end
