(* ===== verification/Roster.thy ===== *)
theory Roster
  imports Vault_Merge Js_Text
begin

text \<open>
  The device roster (\<open>packages/core/src/sync/roster.ts\<close>) and the verification of a gossiped
  roster (\<open>verifyRosterEnvelope\<close> of \<open>sync/transport/roster-sync.ts\<close>): the members of a sync
  group and the revocation graveyard, built on the merge kernel but with sticky revocation.

  The Ed25519 signer and verifier run in the host and are the arguments \<open>sign\<close> and \<open>verify\<close>;
  a verifier call that throws counts as \<open>False\<close>, as the source's \<open>catch\<close> blocks make it. The
  entries' optional strings are never empty (\<open>z.string().min(1).optional()\<close>), so JavaScript's
  truthiness tests on them are tests for \<open>Some\<close>.
\<close>

record admission_rec =
  adm_by :: string
  adm_sig :: string

record roster_entry =
  re_id :: string
  re_publicKey :: string
  re_label :: string
  re_addedAt :: nat
  re_hlc :: hlc
  re_sigKey :: "string option"
  re_sig :: "string option"
  re_admissionKey :: "string option"
  re_admission :: "admission_rec option"

record roster =
  devices :: "roster_entry list"
  revoked :: "tombstone list"

definition or_empty :: "string option \<Rightarrow> string" where
  "or_empty s = (case s of None \<Rightarrow> [] | Some x \<Rightarrow> x)"

text \<open>\<open>JSON.stringify\<close> of a fixed-order array of strings and non-negative integers.\<close>

definition canonicalRosterEntry :: "roster_entry \<Rightarrow> string" where
  "canonicalRosterEntry e = json_array
     [json_string (re_id e), json_string (re_publicKey e),
      json_string (or_empty (re_sigKey e)), json_string (or_empty (re_admissionKey e)),
      dec (re_addedAt e), dec (wall (re_hlc e)), dec (counter (re_hlc e)),
      json_string (node (re_hlc e))]"

definition signRosterEntry :: "roster_entry \<Rightarrow> string \<Rightarrow> (string \<Rightarrow> string) \<Rightarrow> roster_entry" where
  "signRosterEntry e key sign =
     (let withKey = e\<lparr>re_sigKey := Some key\<rparr>
      in withKey\<lparr>re_sig := Some (sign (canonicalRosterEntry withKey))\<rparr>)"

definition emptyRoster :: roster where
  "emptyRoster = \<lparr>devices = [], revoked = []\<rparr>"

definition toReplica :: "roster \<Rightarrow> roster_entry replica" where
  "toReplica r = replicaFrom re_id re_hlc (devices r) (map (\<lambda>t. (tb_id t, tb_hlc t)) (revoked r))"

definition liveDevices :: "roster_entry replica \<Rightarrow> roster_entry list" where
  "liveDevices s =
     map snd (filter (\<lambda>(i, r). map_of (tombstones s) i = None) (records s))"

definition toPayload :: "roster_entry replica \<Rightarrow> roster" where
  "toPayload s =
     \<lparr>devices = liveDevices s,
      revoked = map (\<lambda>(i, h). \<lparr>tb_id = i, tb_hlc = h\<rparr>) (tombstones s)\<rparr>"

definition mergeRosters :: "roster \<Rightarrow> roster \<Rightarrow> roster" where
  "mergeRosters a b = toPayload (mergeReplicas re_hlc (toReplica a) (toReplica b))"

definition sanitizeRemoteRoster :: "roster \<Rightarrow> nat \<Rightarrow> roster" where
  "sanitizeRemoteRoster r now =
     \<lparr>devices = filter (\<lambda>d. \<not> isFutureStamp (re_hlc d) now) (devices r),
      revoked = filter (\<lambda>t. \<not> isFutureStamp (tb_hlc t) now) (revoked r)\<rparr>"

definition mergeRemoteRoster :: "roster \<Rightarrow> roster \<Rightarrow> nat \<Rightarrow> roster" where
  "mergeRemoteRoster l remote now = mergeRosters l (sanitizeRemoteRoster remote now)"

record require_flags =
  req_signatures :: bool
  req_admission :: bool

definition anchors :: "roster \<Rightarrow> (string \<times> string) list" where
  "anchors l = fold (\<lambda>d m. case re_sigKey d of None \<Rightarrow> m | Some k \<Rightarrow> AList.update (re_id d) k m)
     (devices l) []"

text \<open>The body of the \<open>filter\<close> callback of \<open>verifyRemoteRoster\<close>, with its early returns.\<close>

definition entry_accepted ::
  "roster \<Rightarrow> (roster_entry \<Rightarrow> bool) \<Rightarrow> (roster_entry \<Rightarrow> bool) \<Rightarrow> require_flags \<Rightarrow> roster_entry \<Rightarrow> bool" where
  "entry_accepted l isSigValid isAdmissionValid req e =
     (if re_id e \<in> set (map tb_id (revoked l)) then False
      else (case map_of (anchors l) (re_id e) of
              Some anchor \<Rightarrow> re_sigKey e = Some anchor \<and> re_sig e \<noteq> None \<and> isSigValid e
            | None \<Rightarrow>
                if re_sigKey e \<noteq> None \<and> re_sig e \<noteq> None \<and> \<not> isSigValid e then False
                else if \<not> (re_sigKey e \<noteq> None \<and> re_sig e \<noteq> None) \<and> req_signatures req then False
                else if re_admission e \<noteq> None then isAdmissionValid e
                else \<not> req_admission req))"

definition verifyRemoteRoster ::
  "roster \<Rightarrow> roster \<Rightarrow> (roster_entry \<Rightarrow> bool) \<Rightarrow> (roster_entry \<Rightarrow> bool) \<Rightarrow> require_flags \<Rightarrow> roster" where
  "verifyRemoteRoster l remote isSigValid isAdmissionValid req =
     \<lparr>devices = filter (entry_accepted l isSigValid isAdmissionValid req) (devices remote),
      revoked = revoked remote\<rparr>"

definition addDevice :: "roster \<Rightarrow> roster_entry \<Rightarrow> roster" where
  "addDevice r d = mergeRosters r \<lparr>devices = [d], revoked = []\<rparr>"

definition revokeDevice :: "roster \<Rightarrow> string \<Rightarrow> hlc \<Rightarrow> roster" where
  "revokeDevice r i h = mergeRosters r \<lparr>devices = [], revoked = [\<lparr>tb_id = i, tb_hlc = h\<rparr>]\<rparr>"

definition activeDevices :: "roster \<Rightarrow> roster_entry list" where
  "activeDevices r = liveDevices (toReplica r)"

definition isActiveDevice :: "roster \<Rightarrow> string \<Rightarrow> bool" where
  "isActiveDevice r i \<longleftrightarrow> list_ex (\<lambda>d. re_id d = i) (activeDevices r)"

definition findDevice :: "roster \<Rightarrow> string \<Rightarrow> roster_entry option" where
  "findDevice r i = find (\<lambda>d. re_id d = i) (activeDevices r)"

subsection \<open>Verification of a gossiped roster\<close>

type_synonym verifier = "string \<Rightarrow> string \<Rightarrow> string \<Rightarrow> bool"

definition sig_valid :: "verifier \<Rightarrow> roster_entry \<Rightarrow> bool" where
  "sig_valid verify e =
     (case (re_sigKey e, re_sig e) of
        (Some key, Some s) \<Rightarrow> verify key (canonicalRosterEntry e) s
      | _ \<Rightarrow> False)"

definition admission_valid :: "verifier \<Rightarrow> roster \<Rightarrow> roster_entry \<Rightarrow> bool" where
  "admission_valid verify l e =
     (case re_admission e of
        None \<Rightarrow> False
      | Some a \<Rightarrow>
          (case find (\<lambda>d. re_id d = adm_by a) (devices l) of
             None \<Rightarrow> False
           | Some admitter \<Rightarrow>
               (case re_admissionKey admitter of
                  None \<Rightarrow> False
                | Some key \<Rightarrow> verify key (canonicalRosterEntry e) (adm_sig a))))"

text \<open>
  \<open>verifyRosterEnvelope\<close> on a parsed roster: a host without a verifier passes it through.
\<close>

definition verifyRosterEnvelope :: "verifier option \<Rightarrow> require_flags \<Rightarrow> roster \<Rightarrow> roster \<Rightarrow> roster" where
  "verifyRosterEnvelope vfy req l remote =
     (case vfy of
        None \<Rightarrow> remote
      | Some verify \<Rightarrow> verifyRemoteRoster l remote (sig_valid verify) (admission_valid verify l) req)"

text \<open>What a host does with a peer's roster: verify it, then merge it.\<close>

definition receive_roster :: "verifier option \<Rightarrow> require_flags \<Rightarrow> nat \<Rightarrow> roster \<Rightarrow> roster \<Rightarrow> roster" where
  "receive_roster vfy req now remote l =
     mergeRemoteRoster l (verifyRosterEnvelope vfy req l remote) now"

subsection \<open>Lookups\<close>

definition revoked_at :: "roster \<Rightarrow> string \<Rightarrow> hlc option" where
  "revoked_at r i = map_of (tombstones (toReplica r)) i"

definition device_at :: "roster \<Rightarrow> string \<Rightarrow> roster_entry option" where
  "device_at r i = (if revoked_at r i = None then map_of (records (toReplica r)) i else None)"

definition not_tombstoned :: "roster_entry replica \<Rightarrow> string \<times> roster_entry \<Rightarrow> bool" where
  "not_tombstoned s p \<longleftrightarrow> map_of (tombstones s) (fst p) = None"

lemma wf_toReplica [simp]: "wf_replica re_id (toReplica r)"
  by (simp add: toReplica_def)

lemma wf_replica_tombstones: "wf_replica rid s \<Longrightarrow> distinct_keys (tombstones s)"
  by (simp add: wf_replica_def)

lemma liveDevices_filter: "liveDevices s = map snd (filter (not_tombstoned s) (records s))"
  by (auto simp: liveDevices_def not_tombstoned_def intro!: arg_cong [of _ _ "map snd"] filter_cong)

lemma liveDevices_keyed:
  assumes "wf_replica re_id s"
  shows "map (\<lambda>r. (re_id r, r)) (liveDevices s) = filter (not_tombstoned s) (records s)"
proof -
  have "list_all (\<lambda>(i, r). re_id r = i) m \<Longrightarrow>
      map (\<lambda>r. (re_id r, r)) (map snd (filter P m)) = filter P m"
    for m and P :: "string \<times> roster_entry \<Rightarrow> bool"
    by (induction m) auto
  then show ?thesis
    using assms unfolding wf_replica_def liveDevices_filter by blast
qed

lemma map_of_liveDevices:
  assumes "wf_replica re_id s"
  shows "map_of (map (\<lambda>r. (re_id r, r)) (liveDevices s)) i =
    (if map_of (tombstones s) i = None then map_of (records s) i else None)"
  using assms unfolding liveDevices_keyed [OF assms]
  by (auto simp: map_of_filter_distinct wf_replica_def not_tombstoned_def split: option.split)

lemma distinct_liveDevices:
  assumes "wf_replica re_id s"
  shows "distinct (map re_id (liveDevices s))"
proof -
  have "map re_id (liveDevices s) = map fst (map (\<lambda>r. (re_id r, r)) (liveDevices s))"
    by simp
  also have "\<dots> = map fst (filter (not_tombstoned s) (records s))"
    by (simp only: liveDevices_keyed [OF assms])
  finally show ?thesis
    using assms distinct_keys_filter by (auto simp: wf_replica_def distinct_keys_def)
qed

lemma best_liveDevices:
  assumes "wf_replica re_id s"
  shows "best st (filter (\<lambda>r. re_id r = i) (liveDevices s)) =
    (if map_of (tombstones s) i = None then map_of (records s) i else None)"
proof -
  have "filter (\<lambda>r. re_id r = i) (liveDevices s) = values_at i (map (\<lambda>r. (re_id r, r)) (liveDevices s))"
    by (simp add: values_at_records)
  moreover have "distinct_keys (map (\<lambda>r. (re_id r, r)) (liveDevices s))"
    using distinct_liveDevices [OF assms] by (simp add: distinct_keys_def comp_def)
  ultimately show ?thesis
    by (simp only: best_values_at_distinct map_of_liveDevices [OF assms])
qed

lemma set_activeDevices: "d \<in> set (activeDevices r) \<longleftrightarrow> device_at r (re_id d) = Some d"
proof -
  let ?s = "toReplica r"
  have "distinct_keys (map (\<lambda>r. (re_id r, r)) (liveDevices ?s))"
    using distinct_liveDevices [of ?s] by (simp add: distinct_keys_def comp_def)
  then have "map_of (map (\<lambda>r. (re_id r, r)) (liveDevices ?s)) (re_id d) = Some d \<longleftrightarrow>
      d \<in> set (liveDevices ?s)"
    by (auto simp: distinct_keys_map_of_iff)
  then show ?thesis
    by (simp add: map_of_liveDevices activeDevices_def device_at_def revoked_at_def)
qed

lemma revoked_at_eq: "revoked_at r i = best id (map tb_hlc (filter (\<lambda>t. tb_id t = i) (revoked r)))"
proof -
  have "values_at i (map (\<lambda>t. (tb_id t, tb_hlc t)) ts) = map tb_hlc (filter (\<lambda>t. tb_id t = i) ts)"
    for ts :: "tombstone list" by (induction ts) auto
  then show ?thesis
    by (simp add: revoked_at_def toReplica_def tombstones_replicaFrom)
qed

lemma revoked_at_None_iff: "revoked_at r i = None \<longleftrightarrow> i \<notin> set (map tb_id (revoked r))"
  by (auto simp: revoked_at_eq filter_empty_conv)

lemma revoked_merge:
  "map (\<lambda>t. (tb_id t, tb_hlc t)) (revoked (mergeRosters a b)) =
     tombstones (mergeReplicas re_hlc (toReplica a) (toReplica b))"
  by (auto simp: mergeRosters_def toPayload_def comp_def case_prod_unfold)

lemma devices_merge:
  "devices (mergeRosters a b) = liveDevices (mergeReplicas re_hlc (toReplica a) (toReplica b))"
  by (simp add: mergeRosters_def toPayload_def)

lemma revoked_at_merge: "revoked_at (mergeRosters a b) i = max (revoked_at a i) (revoked_at b i)"
proof -
  let ?m = "mergeReplicas re_hlc (toReplica a) (toReplica b)"
  have "revoked_at (mergeRosters a b) i = best id (values_at i (tombstones ?m))"
    by (simp add: revoked_at_def [of "mergeRosters a b"] toReplica_def [of "mergeRosters a b"]
        tombstones_replicaFrom revoked_merge)
  also have "\<dots> = map_of (tombstones ?m) i"
    by (rule best_values_at_distinct) (rule wf_replica_tombstones [of re_id], simp)
  finally show ?thesis
    by (simp add: tombstones_mergeReplicas [of re_id] revoked_at_def)
qed

lemma max_option_None_iff: "max a b = None \<longleftrightarrow> a = None \<and> b = (None :: 'a :: linorder option)"
  by (cases a; cases b) auto

lemma device_at_merge:
  "device_at (mergeRosters a b) i =
     (if revoked_at a i = None \<and> revoked_at b i = None
      then newer re_hlc (device_at a i) (device_at b i) else None)"
proof -
  let ?m = "mergeReplicas re_hlc (toReplica a) (toReplica b)"
  have "map_of (records (toReplica (mergeRosters a b))) i = best re_hlc (filter (\<lambda>d. re_id d = i) (liveDevices ?m))"
    by (simp add: toReplica_def [of "mergeRosters a b"] records_replicaFrom devices_merge)
  also have "\<dots> = (if map_of (tombstones ?m) i = None then map_of (records ?m) i else None)"
    by (intro best_liveDevices) simp
  finally show ?thesis
    unfolding device_at_def revoked_at_merge
    by (auto simp: tombstones_mergeReplicas [of re_id] records_mergeReplicas [of re_id]
        revoked_at_def max_option_None_iff)
qed

subsection \<open>Convergence\<close>

type_synonym roster_obs = "(string \<Rightarrow> hlc option) \<times> (string \<Rightarrow> hlc option)"

definition roster_view :: "roster \<Rightarrow> roster_obs" where
  "roster_view r = (\<lambda>i. map_option re_hlc (device_at r i), revoked_at r)"

definition join_roster :: "roster_obs \<Rightarrow> roster_obs \<Rightarrow> roster_obs" where
  "join_roster a b =
     (\<lambda>i. if snd a i = None \<and> snd b i = None then max (fst a i) (fst b i) else None,
      \<lambda>i. max (snd a i) (snd b i))"

lemma roster_view_merge: "roster_view (mergeRosters a b) = join_roster (roster_view a) (roster_view b)"
  by (auto simp: roster_view_def join_roster_def device_at_merge revoked_at_merge stamp_newer)

lemma device_at_revoked [simp]: "revoked_at r i = Some h \<Longrightarrow> device_at r i = None"
  by (simp add: device_at_def)

interpretation rosters: convergent mergeRosters "\<lambda>_. True" roster_view join_roster
proof unfold_locales
  fix a b c :: roster
  show "join_roster (roster_view a) (roster_view a) = roster_view a"
    by (auto simp: join_roster_def roster_view_def fun_eq_iff)
  show "join_roster (join_roster (roster_view a) (roster_view b)) (roster_view c) =
      join_roster (roster_view a) (join_roster (roster_view b) (roster_view c))"
    by (auto simp: join_roster_def fun_eq_iff max.assoc max_option_None_iff)
  show "join_roster (roster_view a) (roster_view b) = join_roster (roster_view b) (roster_view a)"
    by (auto simp: join_roster_def fun_eq_iff max.commute)
qed (auto simp: roster_view_merge)

subsection \<open>Well-formed rosters\<close>

text \<open>The shape of every stored roster: one entry per id, and no entry under a revoked id.\<close>

definition wf_roster :: "roster \<Rightarrow> bool" where
  "wf_roster r \<longleftrightarrow>
     distinct (map re_id (devices r)) \<and> distinct (map tb_id (revoked r)) \<and>
     list_all (\<lambda>d. re_id d \<notin> set (map tb_id (revoked r))) (devices r)"

lemma distinct_filter_eq: "distinct (map f xs) \<Longrightarrow> x \<in> set xs \<Longrightarrow> filter (\<lambda>y. f y = f x) xs = [x]"
  by (induction xs) (auto simp: filter_empty_conv rev_image_eqI)

lemma wf_roster_device_at:
  assumes "wf_roster r" "d \<in> set (devices r)"
  shows "device_at r (re_id d) = Some d"
proof -
  have "revoked_at r (re_id d) = None"
    using assms by (simp add: revoked_at_None_iff wf_roster_def list_all_iff)
  moreover have "map_of (records (toReplica r)) (re_id d) = Some d"
    using assms by (simp add: toReplica_def records_replicaFrom distinct_filter_eq wf_roster_def)
  ultimately show ?thesis by (simp add: device_at_def)
qed

lemma device_at_in_devices: "device_at r i = Some d \<Longrightarrow> d \<in> set (devices r) \<and> re_id d = i"
  by (auto simp: device_at_def toReplica_def records_replicaFrom split: if_splits dest: best_mem)

lemma wf_mergeRosters: "wf_roster (mergeRosters a b)"
proof -
  let ?m = "mergeReplicas re_hlc (toReplica a) (toReplica b)"
  have wf: "wf_replica re_id ?m" by simp
  have keys: "map tb_id (revoked (mergeRosters a b)) = map fst (tombstones ?m)"
    by (simp add: mergeRosters_def toPayload_def comp_def case_prod_unfold)
  have "list_all (\<lambda>d. re_id d \<notin> fst ` set (tombstones ?m)) (liveDevices ?m)"
    unfolding list_all_iff
  proof
    fix d assume "d \<in> set (liveDevices ?m)"
    then have "re_id d \<in> fst ` set (filter (not_tombstoned ?m) (records ?m))"
      by (simp flip: liveDevices_keyed [OF wf] add: image_image rev_image_eqI)
    then show "re_id d \<notin> fst ` set (tombstones ?m)"
      by (force simp: not_tombstoned_def map_of_eq_None_iff)
  qed
  then show ?thesis
    using distinct_liveDevices [OF wf] wf_replica_tombstones [OF wf]
    by (simp add: wf_roster_def devices_merge keys distinct_keys_def)
qed

lemma devices_mergeRosters: "d \<in> set (devices (mergeRosters a b)) \<longleftrightarrow> device_at (mergeRosters a b) (re_id d) = Some d"
  using wf_roster_device_at [OF wf_mergeRosters] device_at_in_devices by blast

lemma device_from_either:
  "d \<in> set (devices (mergeRosters a b)) \<Longrightarrow> d \<in> set (devices a) \<or> d \<in> set (devices b)"
  using newer_cases [of re_hlc "device_at a (re_id d)" "device_at b (re_id d)"]
  by (auto simp: devices_mergeRosters device_at_merge split: if_splits dest: device_at_in_devices [OF sym])

lemma findDevice_eq: "findDevice r i = device_at r i"
proof (cases "device_at r i")
  case None
  then have "\<forall>d \<in> set (activeDevices r). re_id d \<noteq> i"
    by (auto simp: set_activeDevices)
  with None show ?thesis
    by (simp add: findDevice_def find_None_iff)
next
  case (Some d)
  then have id: "re_id d = i"
    by (simp add: device_at_in_devices)
  have "\<exists>e. findDevice r i = Some e"
    using Some id set_activeDevices [of d r]
    unfolding findDevice_def by (metis (mono_tags, lifting) find_None_iff not_Some_eq)
  then obtain e where e: "findDevice r i = Some e" by blast
  then have "e \<in> set (activeDevices r)" "re_id e = i"
    by (auto simp: findDevice_def find_Some_iff)
  with e show ?thesis
    by (simp add: set_activeDevices)
qed

lemma isActiveDevice_eq: "isActiveDevice r i \<longleftrightarrow> device_at r i \<noteq> None"
proof -
  have "isActiveDevice r i \<longleftrightarrow> findDevice r i \<noteq> None"
    by (auto simp: isActiveDevice_def findDevice_def list_ex_iff find_None_iff)
  then show ?thesis by (simp add: findDevice_eq)
qed

lemma device_at_empty [simp]:
  "device_at \<lparr>devices = [], revoked = ts\<rparr> i = None"
  "device_at \<lparr>devices = [d], revoked = []\<rparr> i = (if i = re_id d then Some d else None)"
  by (auto simp: device_at_def revoked_at_def toReplica_def records_replicaFrom tombstones_replicaFrom)

lemma revoked_at_simps [simp]:
  "revoked_at \<lparr>devices = ds, revoked = []\<rparr> i = None"
  "revoked_at \<lparr>devices = ds, revoked = [\<lparr>tb_id = j, tb_hlc = h\<rparr>]\<rparr> i = (if i = j then Some h else None)"
  by (auto simp: revoked_at_eq)

subsection \<open>What verification lets through\<close>

lemma map_of_anchors_fold:
  "map_of (fold (\<lambda>d m. case re_sigKey d of None \<Rightarrow> m | Some k \<Rightarrow> AList.update (re_id d) k m) ds m) i =
     (case map_of (rev (map (\<lambda>d. (re_id d, the (re_sigKey d))) (filter (\<lambda>d. re_sigKey d \<noteq> None) ds))) i of
        None \<Rightarrow> map_of m i | Some k \<Rightarrow> Some k)"
  by (induction ds arbitrary: m) (auto simp: jsmap_simps map_add_def split: option.splits)

lemma anchor_established:
  assumes "wf_roster l" "d \<in> set (devices l)" "re_sigKey d = Some k"
  shows "map_of (anchors l) (re_id d) = Some k"
proof -
  let ?m = "map (\<lambda>d. (re_id d, the (re_sigKey d))) (filter (\<lambda>d. re_sigKey d \<noteq> None) (devices l))"
  have "distinct_keys ?m"
    using assms(1) by (simp add: wf_roster_def distinct_keys_def comp_def distinct_map_filter)
  then have "map_of (rev ?m) (re_id d) = map_of ?m (re_id d)"
    by (simp add: map_of_rev_distinct)
  also have "\<dots> = Some k"
    using assms \<open>distinct_keys ?m\<close> by (force simp: distinct_keys_map_of_iff)
  finally show ?thesis
    by (simp add: anchors_def map_of_anchors_fold)
qed

lemma anchor_unknown:
  assumes "\<And>x. x \<in> set (devices l) \<Longrightarrow> re_id x \<noteq> i"
  shows "map_of (anchors l) i = None"
proof -
  have "map_of (rev (map (\<lambda>d. (re_id d, the (re_sigKey d))) (filter (\<lambda>d. re_sigKey d \<noteq> None) (devices l)))) i = None"
    by (auto simp: map_of_eq_None_iff dest: assms)
  then show ?thesis
    unfolding anchors_def map_of_anchors_fold by simp
qed

lemma accepted_established:
  assumes "wf_roster l" "d \<in> set (devices l)" "re_sigKey d = Some k" "re_id e = re_id d"
    and "entry_accepted l (sig_valid verify) va req e"
  shows "re_sigKey e = Some k \<and> (\<exists>s. re_sig e = Some s \<and> verify k (canonicalRosterEntry e) s)"
  using assms(5) anchor_established [OF assms(1-3)] assms(4)
  by (auto simp: entry_accepted_def sig_valid_def split: if_splits)

lemma admission_validD:
  "admission_valid verify l e \<Longrightarrow>
   \<exists>a m key. re_admission e = Some a \<and> m \<in> set (devices l) \<and> re_id m = adm_by a \<and>
     re_admissionKey m = Some key \<and> verify key (canonicalRosterEntry e) (adm_sig a)"
  by (auto simp: admission_valid_def split: option.splits dest!: find_SomeD)

lemma received_devices:
  "e \<in> set (devices (receive_roster (Some verify) req now remote l)) \<Longrightarrow>
   device_at l (re_id e) = Some e \<or>
   e \<in> set (devices remote) \<and> entry_accepted l (sig_valid verify) (admission_valid verify l) req e \<and>
     \<not> isFutureStamp (re_hlc e) now \<and> map_option re_hlc (device_at l (re_id e)) < Some (re_hlc e)"
  unfolding receive_roster_def mergeRemoteRoster_def verifyRosterEnvelope_def devices_mergeRosters
  by (auto simp: device_at_merge newer_def sanitizeRemoteRoster_def verifyRemoteRoster_def
      split: if_splits option.splits dest: device_at_in_devices)

subsection \<open>The signed string\<close>

lemma comma_not_digit [simp]: "\<not> is_digit CHR '',''"
  by (simp add: is_digit_def)

lemma canonicalRosterEntry_inj:
  "canonicalRosterEntry a = canonicalRosterEntry b \<longleftrightarrow>
     re_id a = re_id b \<and> re_publicKey a = re_publicKey b \<and>
     or_empty (re_sigKey a) = or_empty (re_sigKey b) \<and>
     or_empty (re_admissionKey a) = or_empty (re_admissionKey b) \<and>
     re_addedAt a = re_addedAt b \<and> re_hlc a = re_hlc b"
proof
  assume "canonicalRosterEntry a = canonicalRosterEntry b"
  then show "re_id a = re_id b \<and> re_publicKey a = re_publicKey b \<and>
     or_empty (re_sigKey a) = or_empty (re_sigKey b) \<and>
     or_empty (re_admissionKey a) = or_empty (re_admissionKey b) \<and>
     re_addedAt a = re_addedAt b \<and> re_hlc a = re_hlc b"
    by (cases "re_hlc a"; cases "re_hlc b")
      (auto simp: canonicalRosterEntry_def json_array_def dest!: json_string_split dec_split)
qed (simp add: canonicalRosterEntry_def)

subsection \<open>Runs\<close>

text \<open>The operations a host performs on its roster, in the order they happen.\<close>

datatype roster_op =
    AddDevice roster_entry
  | RevokeDevice string hlc
  | ReceiveRoster "verifier option" require_flags nat roster

fun roster_step :: "roster_op \<Rightarrow> roster \<Rightarrow> roster" where
  "roster_step (AddDevice d) r = addDevice r d"
| "roster_step (RevokeDevice i h) r = revokeDevice r i h"
| "roster_step (ReceiveRoster vfy req now remote) r = receive_roster vfy req now remote r"

lemma roster_step_merges: "\<exists>b. roster_step x r = mergeRosters r b"
  by (cases x) (auto simp: addDevice_def revokeDevice_def receive_roster_def mergeRemoteRoster_def)

lemma wf_roster_step: "wf_roster (roster_step x r)"
  using roster_step_merges [of x r] wf_mergeRosters by metis

lemma revoked_roster_step: "revoked_at r i \<noteq> None \<Longrightarrow> revoked_at (roster_step x r) i \<noteq> None"
  by (metis roster_step_merges revoked_at_merge max_option_None_iff)

interpretation revocations: guarded_machine "\<lambda>x r. Inr (roster_step x r) :: unit + roster"
  "\<lambda>r. revoked_at r i \<noteq> None" for i
  by unfold_locales (metis revoked_roster_step sum.inject(2))

lemma revocations_run: "revocations.run xs r = fold roster_step xs r"
  by (induction xs arbitrary: r) auto

text \<open>The signing key \<open>k\<close> stays bound to the device of entry \<open>d\<close>, unless it is revoked.\<close>

definition key_bound :: "verifier \<Rightarrow> roster_entry \<Rightarrow> string \<Rightarrow> roster \<Rightarrow> bool" where
  "key_bound verify d k l \<longleftrightarrow>
     (case device_at l (re_id d) of
        None \<Rightarrow> revoked_at l (re_id d) \<noteq> None
      | Some e \<Rightarrow> re_sigKey e = Some k \<and>
          (e = d \<or> (\<exists>s. re_sig e = Some s \<and> verify k (canonicalRosterEntry e) s)))"

lemma receive_roster_revoked:
  "revoked_at l i \<noteq> None \<Longrightarrow> revoked_at (receive_roster vfy req now remote l) i \<noteq> None"
  using revoked_roster_step [of l i "ReceiveRoster vfy req now remote"] by simp

lemma wf_receive_roster: "wf_roster (receive_roster vfy req now remote l)"
  using wf_roster_step [of "ReceiveRoster vfy req now remote" l] by simp

lemma receive_keeps_or_revokes:
  "device_at l i \<noteq> None \<Longrightarrow>
   device_at (receive_roster vfy req now remote l) i \<noteq> None \<or>
   revoked_at (receive_roster vfy req now remote l) i \<noteq> None"
  by (auto simp: receive_roster_def mergeRemoteRoster_def device_at_merge revoked_at_merge
      max_option_None_iff newer_def split: option.splits)

lemma receive_key_bound:
  assumes "wf_roster l" "key_bound verify d k l"
  shows "key_bound verify d k (receive_roster (Some verify) req now remote l)"
proof -
  let ?l = "receive_roster (Some verify) req now remote l"
  show ?thesis
  proof (cases "device_at ?l (re_id d)")
    case None
    moreover have "revoked_at ?l (re_id d) \<noteq> None"
      using None assms(2) receive_keeps_or_revokes [of l "re_id d" "Some verify" req now remote]
        receive_roster_revoked [of l "re_id d"]
      by (auto simp: key_bound_def split: option.splits)
    ultimately show ?thesis by (simp add: key_bound_def)
  next
    case (Some e)
    then have e: "e \<in> set (devices ?l)" "re_id e = re_id d"
      by (auto dest: device_at_in_devices)
    from Some have "revoked_at l (re_id d) = None"
      using receive_roster_revoked [of l "re_id d" "Some verify" req now remote] by fastforce
    with assms(2) obtain f where f: "device_at l (re_id d) = Some f" "re_sigKey f = Some k"
      "f = d \<or> (\<exists>s. re_sig f = Some s \<and> verify k (canonicalRosterEntry f) s)"
      by (auto simp: key_bound_def split: option.splits)
    from received_devices [OF e(1)] show ?thesis
    proof
      assume "device_at l (re_id e) = Some e"
      with f e(2) Some show ?thesis by (auto simp: key_bound_def)
    next
      assume "e \<in> set (devices remote) \<and> entry_accepted l (sig_valid verify) (admission_valid verify l) req e \<and>
        \<not> isFutureStamp (re_hlc e) now \<and> map_option re_hlc (device_at l (re_id e)) < Some (re_hlc e)"
      then have "re_sigKey e = Some k \<and> (\<exists>s. re_sig e = Some s \<and> verify k (canonicalRosterEntry e) s)"
        using accepted_established [OF assms(1) _ f(2), of e] device_at_in_devices [OF f(1)] e(2) by auto
      with Some show ?thesis by (auto simp: key_bound_def)
    qed
  qed
qed

definition receive_all :: "verifier \<Rightarrow> (require_flags \<times> nat \<times> roster) list \<Rightarrow> roster \<Rightarrow> roster" where
  "receive_all verify rs l =
     fold (\<lambda>(req, now, remote) l. receive_roster (Some verify) req now remote l) rs l"

interpretation key_binding: guarded_machine
  "\<lambda>(req, now, remote) l. Inr (receive_roster (Some verify) req now remote l) :: unit + roster"
  "\<lambda>l. wf_roster l \<and> key_bound verify d k l" for verify d k
  by unfold_locales (auto simp: wf_receive_roster receive_key_bound)

lemma key_binding_run: "key_binding.run verify rs l = receive_all verify rs l"
  by (induction rs arbitrary: l) (auto simp: receive_all_def)

subsection \<open>Properties\<close>

text \<open>Rosters converge. Devices that start from one roster and merge the same set of
  peer rosters, in any order and with repetition, agree on which ids are revoked, on the stamp
  of every device and on which ids are active members.\<close>

lemma roster_gossip_converges:
  assumes "set xs = set ys"
  shows "roster_view (fold (\<lambda>x acc. mergeRosters acc x) xs r)
           = roster_view (fold (\<lambda>x acc. mergeRosters acc x) ys r) \<and>
         isActiveDevice (fold (\<lambda>x acc. mergeRosters acc x) xs r)
           = isActiveDevice (fold (\<lambda>x acc. mergeRosters acc x) ys r)"
proof -
  let ?x = "fold (\<lambda>x acc. mergeRosters acc x) xs r" and ?y = "fold (\<lambda>x acc. mergeRosters acc x) ys r"
  have view: "roster_view ?x = roster_view ?y"
    using rosters.gossip_order_irrelevant [OF _ _ assms, of r]
    unfolding rosters.absorb_all_def by (simp add: list_all_iff)
  then have "map_option re_hlc (device_at ?x i) = map_option re_hlc (device_at ?y i)" for i
    by (simp add: roster_view_def fun_eq_iff)
  then have "device_at ?x i = None \<longleftrightarrow> device_at ?y i = None" for i
    by (metis option.map_disc_iff)
  with view show ?thesis
    by (simp add: isActiveDevice_eq fun_eq_iff)
qed

definition sample_entry :: "string \<Rightarrow> nat \<Rightarrow> roster_entry" where
  "sample_entry i w =
     \<lparr>re_id = i, re_publicKey = ''pk'', re_label = ''phone'', re_addedAt = 7, re_hlc = Hlc w 0 i,
      re_sigKey = Some ''k'', re_sig = Some ''s'', re_admissionKey = None, re_admission = None\<rparr>"

text \<open>What becomes of a revoked id. Once it is in the revocation graveyard, no sequence of re-enrolments,
  further revocations and received rosters, whatever their stamps, makes it an active device again. The
  comments of \<open>liveDevices\<close> and \<open>verifyRemoteRoster\<close> say so; the file's header and \<open>addDevice\<close>'s documentation
  say the opposite, that a re-enrolment with a strictly newer stamp brings the device back.\<close>

lemma revoked_stays_revoked:
  "isActiveDevice (fold roster_step xs (fold roster_step (RevokeDevice i h # ys) r)) i = False"
proof -
  have "revoked_at (revokeDevice r i h) i \<noteq> None"
    by (simp add: revokeDevice_def revoked_at_merge max_option_None_iff)
  then have "revoked_at (fold roster_step (ys @ xs) (revokeDevice r i h)) i \<noteq> None"
    using revocations.run_inv [of _ i "ys @ xs"] unfolding revocations_run by blast
  then show ?thesis
    by (auto simp: isActiveDevice_eq device_at_def)
qed

text \<open>Enrolling and revoking do exactly what they say. After \<open>addDevice\<close> the device is
  found under its id if the id is not revoked and no newer entry of it was known; after
  \<open>revokeDevice\<close> the id is gone; every other id is found as before.\<close>

lemma add_and_revoke_spec:
  "findDevice (addDevice r d) i =
     (if i = re_id d \<and> revoked_at r i = None
      then (case findDevice r i of
              None \<Rightarrow> Some d
            | Some c \<Rightarrow> if compareHlc (re_hlc d) (re_hlc c) > 0 then Some d else Some c)
      else findDevice r i) \<and>
   findDevice (revokeDevice r j h) i = (if i = j then None else findDevice r i)"
  by (cases "revoked_at r i"; cases "device_at r i")
    (auto simp: findDevice_eq addDevice_def revokeDevice_def device_at_merge newer_def)


text \<open>A peer that sends another entry for the device, with a key of its own and a newer stamp.\<close>

definition swapped_entry :: roster_entry where
  "swapped_entry = (sample_entry ''d'' 9)\<lparr>re_sigKey := Some ''evil'', re_sig := Some ''s''\<rparr>"

definition sample_rosters :: "(require_flags \<times> nat \<times> roster) list" where
  "sample_rosters = [(\<lparr>req_signatures = False, req_admission = False\<rparr>, 100, \<lparr>devices = [swapped_entry], revoked = []\<rparr>),
     (\<lparr>req_signatures = False, req_admission = False\<rparr>, 100, \<lparr>devices = [sample_entry ''d'' 5], revoked = []\<rparr>)]"

lemma nothing_revoked: "revoked r = [] \<Longrightarrow> revoked_at r i = None"
  by (simp add: revoked_at_def toReplica_def tombstones_replicaFrom best_def)

lemma receive_without_revocations:
  "revoked remote = [] \<Longrightarrow> revoked_at (receive_roster vfy req now remote l) i = revoked_at l i"
  by (auto simp: receive_roster_def mergeRemoteRoster_def revoked_at_merge verifyRosterEnvelope_def verifyRemoteRoster_def
      sanitizeRemoteRoster_def nothing_revoked max_def split: option.split)


text \<open>Admission control. With both phase-2 flags on, a device that a received roster adds
  under an id the local roster did not have is correctly signed by its own key and admitted:
  some current member's published admission key verifies the admission over the canonical
  string, and its stamp is not beyond the drift budget.\<close>

lemma new_device_is_signed_and_admitted:
  assumes "req_signatures req" "req_admission req" "wf_roster l"
    and "e \<in> set (devices (receive_roster (Some verify) req now remote l))"
    and "findDevice l (re_id e) = None"
  shows "sig_valid verify e \<and> \<not> isFutureStamp (re_hlc e) now \<and>
    (\<exists>a m key. re_admission e = Some a \<and> m \<in> set (devices l) \<and> re_id m = adm_by a \<and>
       re_admissionKey m = Some key \<and> verify key (canonicalRosterEntry e) (adm_sig a))"
proof -
  have unknown: "device_at l (re_id e) = None"
    using assms(5) by (simp add: findDevice_eq)
  with received_devices [OF assms(4)] have e: "\<not> isFutureStamp (re_hlc e) now"
    and acc: "entry_accepted l (sig_valid verify) (admission_valid verify l) req e"
    by auto
  have "map_of (anchors l) (re_id e) = None"
    using wf_roster_device_at [OF assms(3)] unknown by (intro anchor_unknown) force
  with acc assms(1,2) have "sig_valid verify e" "admission_valid verify l e"
    by (auto simp: entry_accepted_def split: if_splits)
  with e admission_validD show ?thesis by blast
qed

text \<open>The signed string is unambiguous. Two entries have the same canonical string only if
  they agree on id, public key, signing key, admission key, enrolment time and stamp, so a
  signature for one entry never passes for another identity, key or stamp.\<close>

lemma canonical_binds_identity:
  "canonicalRosterEntry a = canonicalRosterEntry b \<longleftrightarrow>
     re_id a = re_id b \<and> re_publicKey a = re_publicKey b \<and>
     or_empty (re_sigKey a) = or_empty (re_sigKey b) \<and>
     or_empty (re_admissionKey a) = or_empty (re_admissionKey b) \<and>
     re_addedAt a = re_addedAt b \<and> re_hlc a = re_hlc b"
  by (rule canonicalRosterEntry_inj)

end
