(* ===== verification/Roster_Sync.thy ===== *)
theory Roster_Sync
  imports Roster
begin

text \<open>
  Continuous sync between enrolled devices (\<open>packages/core/src/sync/transport/roster-sync.ts\<close>):
  each connection authenticates a peer against the current roster, then exchanges envelopes with
  it, while a timer drops silent and revoked peers and broadcasts.

  The session is one state and its events are the results its awaits settle with, in any order:
  every segment of code between two awaits is one step. The host's storage is part of the state
  (the stored roster, \<open>None\<close> when it cannot be read, and the local entries), and changes between
  steps; processing one received envelope is a single step. What is sent, applied and closed is the log. Status lines are not modelled; the framing
  of one message is \<open>secure-channel.ts\<close>, so an envelope is sent and received whole here.
\<close>

record sync_opts =
  so_fetch_roster :: bool
  so_push_roster :: bool
  so_snapshot :: roster
  so_verify :: "verifier option"
  so_flags :: require_flags

definition REBROADCAST_MS :: int where
  "REBROADCAST_MS = 4000"

definition STALE_MS :: int where
  "STALE_MS = 5 * REBROADCAST_MS"

text \<open>An envelope's roster is absent when it is missing or does not parse.\<close>

record sync_envelope =
  env_entries :: string
  env_roster :: "roster option"

datatype conn_phase =
    AwaitPub
  | AwaitKeys string
  | SendInitial string
  | Receiving string
  | Ended

datatype cast_phase =
    CastCheck
  | CastRead
  | CastSend sync_envelope "nat list"

datatype sync_effect =
    SentPub nat
  | SentEnvelope nat string sync_envelope
  | AppliedEntries nat string string
  | ClosedConn nat

record sync_state =
  sy_stored :: "roster option"
  sy_local :: string
  sy_peers :: "(string \<times> nat) list"
  sy_lastSeen :: "nat \<Rightarrow> int"
  sy_conn :: "nat \<Rightarrow> conn_phase option"
  sy_casts :: "nat \<Rightarrow> cast_phase option"
  sy_stopped :: bool
  sy_log :: "sync_effect list"

definition start_sync :: "roster \<Rightarrow> string \<Rightarrow> sync_state" where
  "start_sync r es = \<lparr>sy_stored = Some r, sy_local = es, sy_peers = [], sy_lastSeen = (\<lambda>_. 0), sy_conn = (\<lambda>_. None),
     sy_casts = (\<lambda>_. None), sy_stopped = False, sy_log = []\<rparr>"

definition inRoster :: "roster \<Rightarrow> string \<Rightarrow> bool" where
  "inRoster r pubkey \<longleftrightarrow> list_ex (\<lambda>d. re_publicKey d = pubkey) (devices r)"

definition currentRoster :: "sync_opts \<Rightarrow> sync_state \<Rightarrow> roster" where
  "currentRoster opts s =
     (if \<not> so_fetch_roster opts then so_snapshot opts
      else (case sy_stored s of None \<Rightarrow> so_snapshot opts | Some r \<Rightarrow> r))"

definition localEnvelope :: "sync_opts \<Rightarrow> sync_state \<Rightarrow> sync_envelope" where
  "localEnvelope opts s =
     \<lparr>env_entries = sy_local s, env_roster = (if so_fetch_roster opts then sy_stored s else None)\<rparr>"

definition log_sync :: "sync_effect list \<Rightarrow> sync_state \<Rightarrow> sync_state" where
  "log_sync fx s = s\<lparr>sy_log := sy_log s @ fx\<rparr>"

definition conn_to :: "nat \<Rightarrow> conn_phase \<Rightarrow> sync_state \<Rightarrow> sync_state" where
  "conn_to c ph s = s\<lparr>sy_conn := (sy_conn s)(c := Some ph)\<rparr>"

text \<open>Close and drop every peer the test selects; both reapers walk the map this way.\<close>

definition drop_peers :: "(string \<times> nat \<Rightarrow> bool) \<Rightarrow> sync_state \<Rightarrow> sync_state" where
  "drop_peers gone s =
     log_sync (map (\<lambda>(pub, c). ClosedConn c) (filter gone (sy_peers s)))
       (s\<lparr>sy_peers := filter (\<lambda>x. \<not> gone x) (sy_peers s)\<rparr>)"

definition reapRevoked :: "roster \<Rightarrow> sync_state \<Rightarrow> sync_state" where
  "reapRevoked r = drop_peers (\<lambda>(pub, c). \<not> inRoster r pub)"

definition reapStale :: "int \<Rightarrow> sync_state \<Rightarrow> sync_state" where
  "reapStale now s = drop_peers (\<lambda>(pub, c). now - sy_lastSeen s c > STALE_MS) s"

text \<open>A peer's envelope: its roster is verified and merged first, then its entries are handed over.\<close>

definition applyEnvelope :: "sync_opts \<Rightarrow> nat \<Rightarrow> nat \<Rightarrow> string \<Rightarrow> sync_envelope option \<Rightarrow> sync_state \<Rightarrow> sync_state" where
  "applyEnvelope opts now c pub env s =
     (case env of
        None \<Rightarrow> s
      | Some e \<Rightarrow>
          (let s = (case env_roster e of
                      None \<Rightarrow> s
                    | Some remote \<Rightarrow>
                        if so_push_roster opts
                        then s\<lparr>sy_stored := map_option (\<lambda>l. mergeRemoteRoster l
                               (verifyRosterEnvelope (so_verify opts) (so_flags opts) (currentRoster opts s) remote) now)
                             (sy_stored s)\<rparr>
                        else s)
           in if env_entries e = [] then s else log_sync [AppliedEntries c pub (env_entries e)] s))"

datatype sync_event =
    Connected nat
  | PubSettled nat "string option"
  | KeysSettled nat bool int
  | InitialSettled nat
  | Inbound nat "sync_envelope option" int
  | InboundClosed nat
  | InboundBroken nat
  | Tick nat int
  | BroadcastNow nat
  | CastStep nat
  | RosterStored "roster option"
  | LocalEdited string
  | StopSync

subsection \<open>One connection: \<open>syncPeer\<close>\<close>

definition pub_settled :: "sync_opts \<Rightarrow> nat \<Rightarrow> string option \<Rightarrow> sync_state \<Rightarrow> sync_state" where
  "pub_settled opts c r s =
     (case r of
        None \<Rightarrow> log_sync [ClosedConn c] (conn_to c Ended s)
      | Some pub \<Rightarrow>
          if inRoster (currentRoster opts s) pub then conn_to c (AwaitKeys pub) s
          else log_sync [ClosedConn c] (conn_to c Ended s))"

definition keys_settled :: "nat \<Rightarrow> string \<Rightarrow> bool \<Rightarrow> int \<Rightarrow> sync_state \<Rightarrow> sync_state" where
  "keys_settled c pub ok now s =
     (if \<not> ok then log_sync [ClosedConn c] (conn_to c Ended s)
      else conn_to c (SendInitial pub)
        (s\<lparr>sy_peers := AList.update pub c (sy_peers s), sy_lastSeen := (sy_lastSeen s)(c := now)\<rparr>))"

definition initial_settled :: "sync_opts \<Rightarrow> nat \<Rightarrow> string \<Rightarrow> sync_state \<Rightarrow> sync_state" where
  "initial_settled opts c pub s =
     log_sync [SentEnvelope c pub (localEnvelope opts s)] (conn_to c (Receiving pub) s)"

definition inbound :: "sync_opts \<Rightarrow> nat \<Rightarrow> string \<Rightarrow> sync_envelope option \<Rightarrow> int \<Rightarrow> sync_state \<Rightarrow> sync_state" where
  "inbound opts c pub env now s =
     (let s = s\<lparr>sy_lastSeen := (sy_lastSeen s)(c := now)\<rparr>
      in if \<not> inRoster (currentRoster opts s) pub
         then log_sync [ClosedConn c] (conn_to c Ended (s\<lparr>sy_peers := AList.delete pub (sy_peers s)\<rparr>))
         else (let s = applyEnvelope opts (nat now) c pub env s in reapRevoked (currentRoster opts s) s))"

subsection \<open>One broadcast\<close>

text \<open>
  Each await of \<open>broadcast\<close> is a step: the roster was read, the payload was read, one peer was
  sent to. The loop walks the live map, so it goes to the first peer it has not visited.
\<close>

definition cast_to :: "nat \<Rightarrow> cast_phase option \<Rightarrow> sync_state \<Rightarrow> sync_state" where
  "cast_to i ph s = s\<lparr>sy_casts := (sy_casts s)(i := ph)\<rparr>"

definition cast_start :: "nat \<Rightarrow> sync_state \<Rightarrow> sync_state" where
  "cast_start i s = (if sy_peers s = [] \<or> sy_casts s i \<noteq> None then s else cast_to i (Some CastCheck) s)"

definition cast_step :: "sync_opts \<Rightarrow> nat \<Rightarrow> cast_phase \<Rightarrow> sync_state \<Rightarrow> sync_state" where
  "cast_step opts i ph s =
     (case ph of
        CastCheck \<Rightarrow>
          (let s = reapRevoked (currentRoster opts s) s
           in cast_to i (if sy_peers s = [] then None else Some CastRead) s)
      | CastRead \<Rightarrow> cast_to i (Some (CastSend (localEnvelope opts s) [])) s
      | CastSend payload visited \<Rightarrow>
          (case find (\<lambda>(pub, c). c \<notin> set visited) (sy_peers s) of
             None \<Rightarrow> cast_to i None s
           | Some (pub, c) \<Rightarrow>
               log_sync [SentEnvelope c pub payload] (cast_to i (Some (CastSend payload (visited @ [c]))) s)))"

subsection \<open>The session\<close>

definition stop_sync :: "sync_state \<Rightarrow> sync_state" where
  "stop_sync s = (if sy_stopped s then s else (drop_peers (\<lambda>_. True) s)\<lparr>sy_stopped := True\<rparr>)"

fun sync_step :: "sync_opts \<Rightarrow> sync_event \<Rightarrow> sync_state \<Rightarrow> sync_state" where
  "sync_step opts (Connected c) s =
     (if sy_conn s c = None then log_sync [SentPub c] (conn_to c AwaitPub s) else s)"
| "sync_step opts (PubSettled c r) s = (if sy_conn s c = Some AwaitPub then pub_settled opts c r s else s)"
| "sync_step opts (KeysSettled c ok now) s =
     (case sy_conn s c of Some (AwaitKeys pub) \<Rightarrow> keys_settled c pub ok now s | _ \<Rightarrow> s)"
| "sync_step opts (InitialSettled c) s =
     (case sy_conn s c of Some (SendInitial pub) \<Rightarrow> initial_settled opts c pub s | _ \<Rightarrow> s)"
| "sync_step opts (Inbound c env now) s =
     (case sy_conn s c of Some (Receiving pub) \<Rightarrow> inbound opts c pub env now s | _ \<Rightarrow> s)"
| "sync_step opts (InboundClosed c) s =
     (case sy_conn s c of Some (Receiving pub) \<Rightarrow> conn_to c Ended s | _ \<Rightarrow> s)"
| "sync_step opts (InboundBroken c) s =
     (case sy_conn s c of Some (Receiving pub) \<Rightarrow> conn_to c Ended s | _ \<Rightarrow> s)"
| "sync_step opts (Tick i now) s = (if sy_stopped s then s else cast_start i (reapStale now s))"
| "sync_step opts (BroadcastNow i) s = cast_start i s"
| "sync_step opts (CastStep i) s = (case sy_casts s i of None \<Rightarrow> s | Some ph \<Rightarrow> cast_step opts i ph s)"
| "sync_step opts (RosterStored r) s = s\<lparr>sy_stored := r\<rparr>"
| "sync_step opts (LocalEdited es) s = s\<lparr>sy_local := es\<rparr>"
| "sync_step opts StopSync s = stop_sync s"

definition sync_run :: "sync_opts \<Rightarrow> sync_event list \<Rightarrow> sync_state \<Rightarrow> sync_state" where
  "sync_run opts es s = fold (sync_step opts) es s"

subsection \<open>Updates seen from outside\<close>

lemma sync_updates [simp]:
  "sy_stored (log_sync fx s) = sy_stored s" "sy_peers (log_sync fx s) = sy_peers s" "sy_conn (log_sync fx s) = sy_conn s"
  "sy_casts (log_sync fx s) = sy_casts s" "sy_log (log_sync fx s) = sy_log s @ fx" "sy_local (log_sync fx s) = sy_local s"
  "sy_stored (conn_to c ph s) = sy_stored s" "sy_peers (conn_to c ph s) = sy_peers s"
  "sy_conn (conn_to c ph s) = (sy_conn s)(c := Some ph)" "sy_casts (conn_to c ph s) = sy_casts s"
  "sy_log (conn_to c ph s) = sy_log s" "sy_local (conn_to c ph s) = sy_local s"
  "sy_stored (cast_to i k s) = sy_stored s" "sy_peers (cast_to i k s) = sy_peers s" "sy_conn (cast_to i k s) = sy_conn s"
  "sy_casts (cast_to i k s) = (sy_casts s)(i := k)" "sy_log (cast_to i k s) = sy_log s" "sy_local (cast_to i k s) = sy_local s"
  "sy_stored (drop_peers g s) = sy_stored s" "sy_peers (drop_peers g s) = filter (\<lambda>x. \<not> g x) (sy_peers s)"
  "sy_conn (drop_peers g s) = sy_conn s" "sy_casts (drop_peers g s) = sy_casts s" "sy_local (drop_peers g s) = sy_local s"
  "sy_log (drop_peers g s) = sy_log s @ map (\<lambda>(pub, c). ClosedConn c) (filter g (sy_peers s))"
  by (simp_all add: log_sync_def conn_to_def cast_to_def drop_peers_def)

lemma currentRoster_cong: "sy_stored s = sy_stored t \<Longrightarrow> currentRoster opts s = currentRoster opts t"
  by (simp add: currentRoster_def)

lemma localEnvelope_cong: "sy_stored s = sy_stored t \<Longrightarrow> sy_local s = sy_local t \<Longrightarrow> localEnvelope opts s = localEnvelope opts t"
  by (simp add: localEnvelope_def)

lemma reap_defs: "reapRevoked r s = drop_peers (\<lambda>(pub, c). \<not> inRoster r pub) s"
  "reapStale now s = drop_peers (\<lambda>(pub, c). now - sy_lastSeen s c > STALE_MS) s"
  by (simp_all add: reapRevoked_def reapStale_def)

text \<open>What the steps may log about a peer, and which connections and peers they may add.\<close>

fun about :: "string \<Rightarrow> sync_effect \<Rightarrow> bool" where
  "about pub (SentEnvelope _ q _) = (q = pub)"
| "about pub (AppliedEntries _ q _) = (q = pub)"
| "about pub _ = False"

lemma about_closed [simp]: "\<not> about pub (case x of (q, c) \<Rightarrow> ClosedConn c)"
  by (cases x) simp

lemma applyEnvelope_frame [simp]:
  "sy_peers (applyEnvelope opts now c pub env s) = sy_peers s" "sy_conn (applyEnvelope opts now c pub env s) = sy_conn s"
  "sy_casts (applyEnvelope opts now c pub env s) = sy_casts s"
  by (auto simp: applyEnvelope_def Let_def split: option.split)

lemma applyEnvelope_log:
  "sy_log (applyEnvelope opts now c pub env s) = sy_log s @
     (case env of None \<Rightarrow> [] | Some e \<Rightarrow> if env_entries e = [] then [] else [AppliedEntries c pub (env_entries e)])"
  by (auto simp: applyEnvelope_def Let_def split: option.split)

subsection \<open>A revoked device stays cut off\<close>

text \<open>No map entry of the key, and no connection of it between its roster check and its first envelope.\<close>

definition cut_off :: "string \<Rightarrow> sync_state \<Rightarrow> bool" where
  "cut_off pub s \<longleftrightarrow>
     pub \<notin> fst ` set (sy_peers s) \<and>
     (\<forall>c. sy_conn s c \<noteq> Some (AwaitKeys pub) \<and> sy_conn s c \<noteq> Some (SendInitial pub))"

definition quiet_step :: "string \<Rightarrow> sync_state \<Rightarrow> sync_state \<Rightarrow> bool" where
  "quiet_step pub s s' \<longleftrightarrow> (\<exists>fx. sy_log s' = sy_log s @ fx \<and> list_all (\<lambda>f. \<not> about pub f) fx)"

lemma cut_conn_to: "cut_off pub s \<Longrightarrow> ph \<noteq> AwaitKeys pub \<Longrightarrow> ph \<noteq> SendInitial pub \<Longrightarrow> cut_off pub (conn_to c ph s)"
  by (simp add: cut_off_def)

lemma cut_other:
  "cut_off pub (log_sync fx s) = cut_off pub s" "cut_off pub (cast_to i k s) = cut_off pub s"
  "cut_off pub s \<Longrightarrow> cut_off pub (drop_peers g s)"
  by (auto simp: cut_off_def)

lemma quiet_refl: "quiet_step pub s s"
  by (auto simp: quiet_step_def)

lemma quiet_log: "sy_log s' = sy_log s @ fx \<Longrightarrow> list_all (\<lambda>f. \<not> about pub f) fx \<Longrightarrow> quiet_step pub s s'"
  by (auto simp: quiet_step_def)

lemma quiet_trans: "quiet_step pub s t \<Longrightarrow> quiet_step pub t u \<Longrightarrow> quiet_step pub s u"
  by (auto simp: quiet_step_def)

lemma cut_cast_step:
  assumes "cut_off pub s"
  shows "cut_off pub (cast_step opts i ph s) \<and> quiet_step pub s (cast_step opts i ph s)"
proof (cases ph)
  case CastCheck
  then show ?thesis
    using assms by (auto simp: cast_step_def Let_def reap_defs cut_other list_all_iff intro!: quiet_log)
next
  case CastRead
  then show ?thesis
    using assms by (auto simp: cast_step_def cut_other intro!: quiet_log)
next
  case (CastSend payload visited)
  show ?thesis
  proof (cases "find (\<lambda>(q, c). c \<notin> set visited) (sy_peers s)")
    case None
    with CastSend assms show ?thesis
      by (auto simp: cast_step_def cut_other intro!: quiet_log)
  next
    case (Some x)
    then have "x \<in> set (sy_peers s)"
      by (metis find_Some_iff nth_mem)
    then have "fst x \<noteq> pub"
      using assms by (auto simp: cut_off_def)
    with CastSend Some assms show ?thesis
      by (cases x) (auto simp: cast_step_def cut_other intro!: quiet_log)
  qed
qed

lemma cut_inbound:
  assumes "cut_off pub s" "\<not> inRoster (currentRoster opts s) pub"
  shows "cut_off pub (inbound opts c q env now s) \<and> quiet_step pub s (inbound opts c q env now s)"
proof -
  let ?s = "s\<lparr>sy_lastSeen := (sy_lastSeen s)(c := now)\<rparr>"
  have cur: "currentRoster opts ?s = currentRoster opts s"
    by (rule currentRoster_cong) simp
  show ?thesis
  proof (cases "inRoster (currentRoster opts s) q")
    case False
    have "cut_off pub (s\<lparr>sy_lastSeen := l, sy_peers := AList.delete q (sy_peers s)\<rparr>)" for l
      using assms(1) by (auto simp: cut_off_def AList.delete_eq)
    with False show ?thesis
      by (auto simp: inbound_def cur cut_conn_to cut_other intro!: quiet_log)
  next
    case True
    then have "q \<noteq> pub"
      using assms(2) by auto
    moreover have "cut_off pub (applyEnvelope opts (nat now) c q env ?s)"
      using assms(1) by (simp add: cut_off_def)
    ultimately show ?thesis
      using True by (auto simp: inbound_def cur Let_def reap_defs cut_other applyEnvelope_log list_all_iff
          split: option.splits if_splits intro!: quiet_log)
  qed
qed

lemma cut_step:
  assumes "cut_off pub s" "\<not> inRoster (currentRoster opts s) pub"
  shows "cut_off pub (sync_step opts x s) \<and> quiet_step pub s (sync_step opts x s)"
proof (cases x)
  case (PubSettled c r)
  then show ?thesis
    using assms by (cases r) (auto simp: pub_settled_def quiet_refl cut_other intro!: cut_conn_to quiet_log)
next
  case (KeysSettled c ok now)
  have "cut_off pub (keys_settled c q ok now s) \<and> quiet_step pub s (keys_settled c q ok now s)"
    if "sy_conn s c = Some (AwaitKeys q)" for q
    using assms(1) that by (auto simp: keys_settled_def cut_off_def dom_update quiet_refl intro!: quiet_log)
  with KeysSettled assms show ?thesis
    by (auto simp: quiet_refl split: option.split conn_phase.split)
next
  case (InitialSettled c)
  have "cut_off pub (initial_settled opts c q s) \<and> quiet_step pub s (initial_settled opts c q s)"
    if "sy_conn s c = Some (SendInitial q)" for q
    using assms(1) that by (auto simp: initial_settled_def cut_off_def intro!: quiet_log)
  with InitialSettled assms show ?thesis
    by (auto simp: quiet_refl split: option.split conn_phase.split)
next
  case (Inbound c env now)
  then show ?thesis
    using cut_inbound [OF assms] assms(1) by (auto simp: quiet_refl split: option.split conn_phase.split)
next
  case (CastStep i)
  then show ?thesis
    using cut_cast_step [OF assms(1)] assms(1) by (auto simp: quiet_refl split: option.split)
next
  case StopSync
  then show ?thesis
    using assms(1) by (auto simp: stop_sync_def quiet_refl cut_off_def list_all_iff intro!: quiet_log)
next
  case (Tick i now)
  then show ?thesis
    using assms(1) by (auto simp: cast_start_def quiet_refl cut_other reap_defs list_all_iff intro!: quiet_log)
qed (use assms in \<open>auto simp: quiet_refl cut_conn_to cut_other cast_start_def cut_off_def split: option.split conn_phase.split intro!: quiet_log\<close>)

subsection \<open>Only members take part\<close>

text \<open>The connection passed the roster check, in the roster of that moment, and then proved the key.\<close>

definition admitted :: "sync_opts \<Rightarrow> sync_state \<Rightarrow> sync_event list \<Rightarrow> nat \<Rightarrow> string \<Rightarrow> bool" where
  "admitted opts s0 es c pub \<longleftrightarrow>
     (\<exists>es1 es2. es = es1 @ PubSettled c (Some pub) # es2 \<and> inRoster (currentRoster opts (sync_run opts es1 s0)) pub)"

definition authed :: "sync_opts \<Rightarrow> sync_state \<Rightarrow> sync_event list \<Rightarrow> nat \<Rightarrow> string \<Rightarrow> bool" where
  "authed opts s0 es c pub \<longleftrightarrow>
     (\<exists>es1 es2 t. es = es1 @ PubSettled c (Some pub) # es2 \<and> inRoster (currentRoster opts (sync_run opts es1 s0)) pub \<and>
        KeysSettled c True t \<in> set es2)"

definition applied_as_member :: "sync_opts \<Rightarrow> sync_state \<Rightarrow> sync_event list \<Rightarrow> nat \<Rightarrow> string \<Rightarrow> string \<Rightarrow> bool" where
  "applied_as_member opts s0 es c pub e \<longleftrightarrow>
     (\<exists>es1 env t es2. es = es1 @ Inbound c (Some env) t # es2 \<and> env_entries env = e \<and>
        inRoster (currentRoster opts (sync_run opts es1 s0)) pub)"

lemma admitted_later: "admitted opts s0 es c pub \<Longrightarrow> admitted opts s0 (es @ es') c pub"
  unfolding admitted_def by (metis append_Cons append_assoc)

lemma authed_later: "authed opts s0 es c pub \<Longrightarrow> authed opts s0 (es @ es') c pub"
  unfolding authed_def by (metis Un_iff append_Cons append_assoc set_append)

lemma applied_later: "applied_as_member opts s0 es c pub e \<Longrightarrow> applied_as_member opts s0 (es @ es') c pub e"
  unfolding applied_as_member_def by (metis append_Cons append_assoc)

definition sync_trace :: "sync_opts \<Rightarrow> sync_state \<Rightarrow> sync_event list \<Rightarrow> sync_state \<Rightarrow> bool" where
  "sync_trace opts s0 es s \<longleftrightarrow>
     (\<forall>c pub. sy_conn s c = Some (AwaitKeys pub) \<longrightarrow> admitted opts s0 es c pub) \<and>
     (\<forall>c pub. sy_conn s c = Some (SendInitial pub) \<or> sy_conn s c = Some (Receiving pub) \<or> (pub, c) \<in> set (sy_peers s)
        \<longrightarrow> authed opts s0 es c pub) \<and>
     (\<forall>c pub env. SentEnvelope c pub env \<in> set (sy_log s) \<longrightarrow> authed opts s0 es c pub) \<and>
     (\<forall>c pub e. AppliedEntries c pub e \<in> set (sy_log s) \<longrightarrow>
        authed opts s0 es c pub \<and> applied_as_member opts s0 es c pub e)"

text \<open>A step keeps the trace when what it adds is accounted for.\<close>

lemma sync_trace_step:
  assumes tr: "sync_trace opts s0 es s" and log: "sy_log s' = sy_log s @ fx"
    and "\<And>c pub. sy_conn s' c = Some (AwaitKeys pub) \<Longrightarrow>
      sy_conn s c = Some (AwaitKeys pub) \<or> admitted opts s0 (es @ [x]) c pub"
    and "\<And>c pub. sy_conn s' c = Some (SendInitial pub) \<or> sy_conn s' c = Some (Receiving pub) \<or> (pub, c) \<in> set (sy_peers s') \<Longrightarrow>
      sy_conn s c = Some (SendInitial pub) \<or> sy_conn s c = Some (Receiving pub) \<or> (pub, c) \<in> set (sy_peers s) \<or>
      authed opts s0 (es @ [x]) c pub"
    and "\<And>c pub env. SentEnvelope c pub env \<in> set fx \<Longrightarrow> authed opts s0 (es @ [x]) c pub"
    and "\<And>c pub e. AppliedEntries c pub e \<in> set fx \<Longrightarrow>
      authed opts s0 (es @ [x]) c pub \<and> applied_as_member opts s0 (es @ [x]) c pub e"
  shows "sync_trace opts s0 (es @ [x]) s'"
  unfolding sync_trace_def
proof (intro conjI allI impI)
  fix c pub
  assume "sy_conn s' c = Some (AwaitKeys pub)"
  then show "admitted opts s0 (es @ [x]) c pub"
    using tr assms(3) [of c pub] admitted_later [of opts s0 es c pub "[x]"] unfolding sync_trace_def by blast
next
  fix c pub
  assume "sy_conn s' c = Some (SendInitial pub) \<or> sy_conn s' c = Some (Receiving pub) \<or> (pub, c) \<in> set (sy_peers s')"
  then show "authed opts s0 (es @ [x]) c pub"
    using tr assms(4) [of c pub] authed_later [of opts s0 es c pub "[x]"] unfolding sync_trace_def by blast
next
  fix c pub env
  assume "SentEnvelope c pub env \<in> set (sy_log s')"
  then show "authed opts s0 (es @ [x]) c pub"
    using tr assms(5) [of c pub env] authed_later [of opts s0 es c pub "[x]"]
    unfolding sync_trace_def log set_append by blast
next
  fix c pub e
  assume h: "AppliedEntries c pub e \<in> set (sy_log s')"
  then show "authed opts s0 (es @ [x]) c pub"
    using tr assms(6) [of c pub e] authed_later [of opts s0 es c pub "[x]"]
    unfolding sync_trace_def log set_append by blast
  from h show "applied_as_member opts s0 (es @ [x]) c pub e"
    using tr assms(6) [of c pub e] applied_later [of opts s0 es c pub e "[x]"]
    unfolding sync_trace_def log set_append by blast
qed

text \<open>A step that adds no connection and no peer, and sends and applies nothing.\<close>

lemma sync_trace_quiet:
  assumes "sync_trace opts s0 es s" "sy_log s' = sy_log s @ fx"
    and "\<forall>f \<in> set fx. \<forall>pub. \<not> about pub f" "set (sy_peers s') \<subseteq> set (sy_peers s)"
    and "\<And>c. sy_conn s' c = sy_conn s c \<or> sy_conn s' c = Some AwaitPub \<or> sy_conn s' c = Some Ended"
  shows "sync_trace opts s0 (es @ [x]) s'"
proof (rule sync_trace_step [OF assms(1,2)])
  fix c pub
  assume "sy_conn s' c = Some (AwaitKeys pub)"
  with assms(5) [of c] show "sy_conn s c = Some (AwaitKeys pub) \<or> admitted opts s0 (es @ [x]) c pub"
    by auto
next
  fix c pub
  assume "sy_conn s' c = Some (SendInitial pub) \<or> sy_conn s' c = Some (Receiving pub) \<or> (pub, c) \<in> set (sy_peers s')"
  with assms(4) assms(5) [of c] show "sy_conn s c = Some (SendInitial pub) \<or> sy_conn s c = Some (Receiving pub) \<or>
      (pub, c) \<in> set (sy_peers s) \<or> authed opts s0 (es @ [x]) c pub"
    by auto
qed (use assms(3) in force)+

lemma set_delete_subset: "set (AList.delete k xs) \<subseteq> set xs"
  by (auto simp: AList.delete_eq)

lemma sync_trace_inbound:
  assumes "sync_trace opts s0 es (sync_run opts es s0)" "sy_conn (sync_run opts es s0) c = Some (Receiving pub)"
  shows "sync_trace opts s0 (es @ [Inbound c env now]) (inbound opts c pub env now (sync_run opts es s0))"
proof -
  define s where "s = sync_run opts es s0"
  let ?s = "s\<lparr>sy_lastSeen := (sy_lastSeen s)(c := now)\<rparr>"
  have cur: "currentRoster opts ?s = currentRoster opts s"
    by (rule currentRoster_cong) simp
  have tr: "sync_trace opts s0 es s"
    using assms(1) by (simp add: s_def)
  show ?thesis
  proof (cases "inRoster (currentRoster opts s) pub")
    case False
    then show ?thesis
      using set_delete_subset [of pub "sy_peers s"] unfolding s_def [symmetric]
      by (intro sync_trace_quiet [OF tr, where fx = "[ClosedConn c]"]) (auto simp: inbound_def cur)
  next
    case True
    let ?fx = "case env of None \<Rightarrow> [] | Some e \<Rightarrow> if env_entries e = [] then [] else [AppliedEntries c pub (env_entries e)]"
    let ?r = "currentRoster opts (applyEnvelope opts (nat now) c pub env ?s)"
    have i: "inbound opts c pub env now s = reapRevoked ?r (applyEnvelope opts (nat now) c pub env ?s)"
      using True by (simp add: inbound_def cur Let_def)
    have "authed opts s0 es c pub"
      using assms unfolding sync_trace_def by blast
    then have ok: "authed opts s0 (es @ [Inbound c env now]) c pub"
      by (rule authed_later)
    have app: "applied_as_member opts s0 (es @ [Inbound c (Some e) now]) c pub (env_entries e)" for e
      using True unfolding applied_as_member_def s_def
      by (intro exI [of _ es] exI [of _ e] exI [of _ now] exI [of _ "[]"]) simp
    show ?thesis
      unfolding s_def [symmetric] i
    proof (rule sync_trace_step [OF tr, where fx = "?fx @ map (\<lambda>(pub, c). ClosedConn c)
          (filter (\<lambda>(pub, c). \<not> inRoster ?r pub) (sy_peers s))"])
      fix d q e
      assume "AppliedEntries d q e \<in> set (?fx @ map (\<lambda>(pub, c). ClosedConn c)
          (filter (\<lambda>(pub, c). \<not> inRoster ?r pub) (sy_peers s)))"
      then have "env \<noteq> None \<and> d = c \<and> q = pub \<and> e = env_entries (the env)"
        by (auto split: option.splits if_splits)
      then show "authed opts s0 (es @ [Inbound c env now]) d q \<and> applied_as_member opts s0 (es @ [Inbound c env now]) d q e"
        using ok app by auto
    qed (auto simp: reap_defs applyEnvelope_log split: option.splits if_splits)
  qed
qed

lemma sync_trace_cast:
  assumes "sync_trace opts s0 es s"
  shows "sync_trace opts s0 (es @ [x]) (cast_step opts i ph s)"
proof (cases ph)
  case CastCheck
  then show ?thesis
    by (intro sync_trace_quiet [OF assms]) (auto simp: cast_step_def Let_def reap_defs)
next
  case CastRead
  then show ?thesis
    by (intro sync_trace_quiet [OF assms, where fx = "[]"]) (auto simp: cast_step_def)
next
  case (CastSend payload visited)
  show ?thesis
  proof (cases "find (\<lambda>(q, c). c \<notin> set visited) (sy_peers s)")
    case None
    with CastSend show ?thesis
      by (intro sync_trace_quiet [OF assms, where fx = "[]"]) (auto simp: cast_step_def)
  next
    case (Some y)
    then obtain q c where y: "y = (q, c)" "(q, c) \<in> set (sy_peers s)"
      by (metis find_Some_iff nth_mem surj_pair)
    then have "authed opts s0 es c q"
      using assms unfolding sync_trace_def by blast
    with CastSend Some y show ?thesis
      by (intro sync_trace_step [OF assms, where fx = "[SentEnvelope c q payload]"])
        (auto simp: cast_step_def intro: authed_later)
  qed
qed

lemma sync_trace_event:
  assumes "sync_trace opts s0 es (sync_run opts es s0)"
  shows "sync_trace opts s0 (es @ [x]) (sync_step opts x (sync_run opts es s0))"
proof -
  define s where "s = sync_run opts es s0"
  have tr: "sync_trace opts s0 es s"
    using assms by (simp add: s_def)
  have stay: "sync_trace opts s0 (es @ [x]) s"
    by (rule sync_trace_quiet [OF tr, where fx = "[]"]) simp_all
  show ?thesis
    unfolding s_def [symmetric]
  proof (cases x)
    case (PubSettled c r)
    show "sync_trace opts s0 (es @ [x]) (sync_step opts x s)"
    proof (cases "\<exists>pub. r = Some pub \<and> inRoster (currentRoster opts s) pub")
      case True
      then obtain pub where r: "r = Some pub" "inRoster (currentRoster opts s) pub" by auto
      then have "admitted opts s0 (es @ [x]) c pub"
        unfolding admitted_def PubSettled s_def by (intro exI [of _ es] exI [of _ "[]"]) simp
      then show ?thesis
        using PubSettled r stay by (auto simp: pub_settled_def split: if_splits intro!: sync_trace_step [OF tr, where fx = "[]"])
    next
      case False
      then show ?thesis
        using PubSettled stay by (auto simp: pub_settled_def split: option.splits intro!: sync_trace_quiet [OF tr, where fx = "[ClosedConn c]"])
    qed
  next
    case (KeysSettled c ok now)
    have "sync_trace opts s0 (es @ [x]) (keys_settled c pub ok now s)" if h: "sy_conn s c = Some (AwaitKeys pub)" for pub
    proof (cases ok)
      case True
      obtain es1 es2 where "es = es1 @ PubSettled c (Some pub) # es2" "inRoster (currentRoster opts (sync_run opts es1 s0)) pub"
        using tr h unfolding sync_trace_def admitted_def by blast
      then have "authed opts s0 (es @ [x]) c pub"
        unfolding authed_def KeysSettled by (intro exI [of _ es1] exI [of _ "es2 @ [KeysSettled c ok now]"]) (auto simp: True)
      then show ?thesis
        using True set_update_subset [of pub c "sy_peers s"]
        by (intro sync_trace_step [OF tr, where fx = "[]"]) (auto simp: keys_settled_def split: if_splits)
    next
      case False
      then show ?thesis
        by (intro sync_trace_quiet [OF tr, where fx = "[ClosedConn c]"]) (auto simp: keys_settled_def)
    qed
    with KeysSettled stay show "sync_trace opts s0 (es @ [x]) (sync_step opts x s)"
      by (auto split: option.split conn_phase.split)
  next
    case (InitialSettled c)
    have "sync_trace opts s0 (es @ [x]) (initial_settled opts c pub s)" if h: "sy_conn s c = Some (SendInitial pub)" for pub
    proof -
      have "authed opts s0 es c pub"
        using tr h unfolding sync_trace_def by blast
      then show ?thesis
        by (intro sync_trace_step [OF tr, where fx = "[SentEnvelope c pub (localEnvelope opts s)]"])
          (auto simp: initial_settled_def intro: authed_later split: if_splits)
    qed
    with InitialSettled stay show "sync_trace opts s0 (es @ [x]) (sync_step opts x s)"
      by (auto split: option.split conn_phase.split)
  next
    case (Inbound c env now)
    then show "sync_trace opts s0 (es @ [x]) (sync_step opts x s)"
      using sync_trace_inbound [OF assms, of c] stay unfolding s_def by (auto split: option.split conn_phase.split)
  next
    case (CastStep i)
    then show "sync_trace opts s0 (es @ [x]) (sync_step opts x s)"
      using sync_trace_cast [OF tr] stay by (auto split: option.split)
  next
    case (Connected c)
    then show "sync_trace opts s0 (es @ [x]) (sync_step opts x s)"
      using stay by (auto intro!: sync_trace_quiet [OF tr, where fx = "[SentPub c]"])
  next
    case StopSync
    then show "sync_trace opts s0 (es @ [x]) (sync_step opts x s)"
      using stay by (auto simp: stop_sync_def intro!: sync_trace_quiet [OF tr])
  next
    case (Tick i now)
    then show "sync_trace opts s0 (es @ [x]) (sync_step opts x s)"
      using stay by (auto simp: cast_start_def reap_defs intro!: sync_trace_quiet [OF tr])
  qed (use stay in \<open>auto simp: cast_start_def split: option.split conn_phase.split intro!: sync_trace_quiet [OF tr, where fx = "[]"]\<close>)
qed

lemma sync_trace_run: "sync_trace opts (start_sync r l) es (sync_run opts es (start_sync r l))"
proof (induction es rule: rev_induct)
  case Nil
  show ?case by (simp add: sync_trace_def sync_run_def start_sync_def)
next
  case (snoc x es)
  from sync_trace_event [OF snoc, of x] show ?case
    by (simp add: sync_run_def)
qed

subsection \<open>Broadcasts and gossiped revocations\<close>

text \<open>Once its payload is read, an undisturbed broadcast sends it to every peer of the map, in order.\<close>

definition members :: "roster \<Rightarrow> (string \<times> nat) list \<Rightarrow> (string \<times> nat) list" where
  "members r ps = filter (\<lambda>(pub, c). inRoster r pub) ps"

lemma find_append: "find P (xs @ ys) = (case find P xs of None \<Rightarrow> find P ys | Some x \<Rightarrow> Some x)"
  by (induction xs) auto

lemma find_unvisited:
  assumes "distinct (map snd (ps @ qs))"
  shows "find (\<lambda>(q, c). c \<notin> set (map snd ps)) (ps @ qs) = (case qs of [] \<Rightarrow> None | x # _ \<Rightarrow> Some x)"
proof -
  have "find (\<lambda>(q, c). c \<notin> set (map snd ps)) ps = None"
    by (force simp: find_None_iff)
  then show ?thesis
    using assms by (cases qs) (auto simp: find_append image_iff split_beta)
qed

lemma cast_sends:
  assumes "sy_casts s i = Some (CastSend payload (map snd ps))" "sy_peers s = ps @ qs" "distinct (map snd (ps @ qs))"
  shows "sy_log (sync_run opts (replicate (Suc (length qs)) (CastStep i)) s) =
      sy_log s @ map (\<lambda>(pub, c). SentEnvelope c pub payload) qs \<and>
    sy_casts (sync_run opts (replicate (Suc (length qs)) (CastStep i)) s) i = None"
  using assms
proof (induction qs arbitrary: s ps)
  case Nil
  then show ?case
    using find_unvisited [of ps "[]"] by (simp add: sync_run_def cast_step_def)
next
  case (Cons y qs)
  obtain pub c where y: "y = (pub, c)" by fastforce
  let ?s = "log_sync [SentEnvelope c pub payload] (cast_to i (Some (CastSend payload (map snd ps @ [c]))) s)"
  have step: "sync_step opts (CastStep i) s = ?s"
    using find_unvisited [of ps "y # qs"] Cons.prems y by (simp add: cast_step_def)
  have "sync_run opts (replicate (Suc (length (y # qs))) (CastStep i)) s =
      sync_run opts (replicate (Suc (length qs)) (CastStep i)) (sync_step opts (CastStep i) s)"
    by (simp add: sync_run_def)
  moreover have "sy_log (sync_run opts (replicate (Suc (length qs)) (CastStep i)) ?s) =
      sy_log ?s @ map (\<lambda>(pub, c). SentEnvelope c pub payload) qs \<and>
      sy_casts (sync_run opts (replicate (Suc (length qs)) (CastStep i)) ?s) i = None"
    using Cons.prems y by (intro Cons.IH [of _ "ps @ [y]"]) simp_all
  ultimately show ?case
    unfolding step by (simp add: y)
qed

lemma broadcast_run:
  assumes "sy_casts s i = Some CastCheck" "distinct (map snd (sy_peers s))" "members (currentRoster opts s) (sy_peers s) \<noteq> []"
  shows "sy_log (sync_run opts (replicate (3 + length (members (currentRoster opts s) (sy_peers s))) (CastStep i)) s) =
    sy_log s @ map (\<lambda>(pub, c). ClosedConn c) (filter (\<lambda>(pub, c). \<not> inRoster (currentRoster opts s) pub) (sy_peers s)) @
    map (\<lambda>(pub, c). SentEnvelope c pub (localEnvelope opts s)) (members (currentRoster opts s) (sy_peers s)) \<and>
    sy_casts (sync_run opts (replicate (3 + length (members (currentRoster opts s) (sy_peers s))) (CastStep i)) s) i = None"
proof -
  let ?r = "currentRoster opts s"
  let ?ms = "members ?r (sy_peers s)"
  let ?s1 = "cast_to i (Some CastRead) (reapRevoked ?r s)"
  let ?s2 = "cast_to i (Some (CastSend (localEnvelope opts ?s1) [])) ?s1"
  have peers: "sy_peers (reapRevoked ?r s) = ?ms"
    by (auto simp: reap_defs members_def intro!: filter_cong)
  have env: "localEnvelope opts ?s1 = localEnvelope opts s"
    by (rule localEnvelope_cong) (simp_all add: reap_defs)
  have 1: "sync_step opts (CastStep i) s = ?s1"
    using assms(1,3) peers by (simp add: cast_step_def Let_def)
  have 2: "sync_step opts (CastStep i) ?s1 = ?s2"
    by (simp add: cast_step_def)
  have "sync_run opts (replicate (3 + length ?ms) (CastStep i)) s =
      sync_run opts (replicate (Suc (length ?ms)) (CastStep i)) (sync_step opts (CastStep i) (sync_step opts (CastStep i) s))"
    by (simp add: sync_run_def numeral_3_eq_3)
  moreover have "distinct (map snd ?ms)"
    unfolding members_def by (rule distinct_map_filter [OF assms(2)])
  ultimately show ?thesis
    unfolding 1 2 using cast_sends [of ?s2 i "localEnvelope opts s" "[]" ?ms opts] peers env
    by (simp add: reap_defs)
qed

text \<open>In every reachable state each connection has at most one entry of the map.\<close>

fun past_keys :: "conn_phase option \<Rightarrow> bool" where
  "past_keys (Some (SendInitial _)) = True"
| "past_keys (Some (Receiving _)) = True"
| "past_keys (Some Ended) = True"
| "past_keys _ = False"

definition peers_ok :: "sync_state \<Rightarrow> bool" where
  "peers_ok s \<longleftrightarrow> distinct (map snd (sy_peers s)) \<and>
     (\<forall>c \<in> snd ` set (sy_peers s). past_keys (sy_conn s c))"

lemma distinct_snd_update:
  "distinct (map snd ps) \<Longrightarrow> c \<notin> snd ` set ps \<Longrightarrow> distinct (map snd (AList.update k c ps))"
  using set_update_subset [of k c] by (induction ps) fastforce+

lemma peers_ok_shrink:
  assumes "peers_ok s" "distinct (map snd (sy_peers s'))" "set (sy_peers s') \<subseteq> set (sy_peers s)"
    and "\<And>c. c \<in> snd ` set (sy_peers s) \<Longrightarrow> sy_conn s' c = sy_conn s c \<or> past_keys (sy_conn s' c)"
  shows "peers_ok s'"
  unfolding peers_ok_def
proof (intro conjI ballI)
  fix c
  assume "c \<in> snd ` set (sy_peers s')"
  then have "c \<in> snd ` set (sy_peers s)"
    using assms(3) by auto
  then show "past_keys (sy_conn s' c)"
    using assms(1) assms(4) [of c] by (auto simp: peers_ok_def)
qed (rule assms(2))

lemma peers_ok_filter: "peers_ok s \<Longrightarrow> distinct (map snd (filter P (sy_peers s)))"
  by (simp add: peers_ok_def distinct_map_filter)

lemma peers_ok_step:
  assumes "peers_ok s"
  shows "peers_ok (sync_step opts x s)"
proof (cases x)
  case (KeysSettled c ok now)
  have "peers_ok (keys_settled c pub ok now s)" if h: "sy_conn s c = Some (AwaitKeys pub)" for pub
  proof -
    have c: "c \<notin> snd ` set (sy_peers s)"
      using assms h by (fastforce simp: peers_ok_def)
    show ?thesis
    proof (cases ok)
      case True
      then show ?thesis
        using assms c set_update_subset [of pub c "sy_peers s"] distinct_snd_update [of "sy_peers s" c pub]
        by (fastforce simp: keys_settled_def peers_ok_def)
    qed (use assms c in \<open>auto simp: keys_settled_def intro!: peers_ok_shrink [OF assms] simp: peers_ok_def\<close>)
  qed
  with KeysSettled assms show ?thesis
    by (auto split: option.split conn_phase.split)
next
  case (Inbound c env now)
  have "peers_ok (inbound opts c pub env now s)" if "sy_conn s c = Some (Receiving pub)" for pub
    using that assms set_delete_subset [of pub "sy_peers s"] peers_ok_filter [OF assms]
    by (intro peers_ok_shrink [OF assms]) (auto simp: inbound_def Let_def reap_defs AList.delete_eq)
  with Inbound assms show ?thesis
    by (auto split: option.split conn_phase.split)
next
  case (CastStep i)
  have "peers_ok (cast_step opts i ph s)" for ph
    using peers_ok_filter [OF assms] assms
    by (intro peers_ok_shrink [OF assms]) (auto simp: cast_step_def Let_def reap_defs peers_ok_def split: cast_phase.split option.split)
  with CastStep assms show ?thesis
    by (auto split: option.split)
qed (use assms peers_ok_filter [OF assms] in \<open>auto simp: cast_start_def stop_sync_def reap_defs pub_settled_def
    initial_settled_def peers_ok_def split: option.split conn_phase.split\<close>)

lemma peers_ok_run: "peers_ok (sync_run opts es (start_sync r l))"
proof -
  have "peers_ok s \<Longrightarrow> peers_ok (sync_run opts es s)" for s
    by (induction es arbitrary: s) (simp_all add: sync_run_def peers_ok_step)
  then show ?thesis
    by (simp add: peers_ok_def start_sync_def)
qed

lemma received_revocation:
  assumes "t \<in> set (revoked remote)" "\<not> isFutureStamp (tb_hlc t) now" "d \<in> set (devices (mergeRemoteRoster l (verifyRosterEnvelope vfy req l' remote) now))"
  shows "re_id d \<noteq> tb_id t"
proof
  assume id: "re_id d = tb_id t"
  let ?m = "sanitizeRemoteRoster (verifyRosterEnvelope vfy req l' remote) now"
  have "t \<in> set (revoked ?m)"
    using assms(1,2) by (auto simp: sanitizeRemoteRoster_def verifyRosterEnvelope_def verifyRemoteRoster_def split: option.split)
  then have "revoked_at ?m (tb_id t) \<noteq> None"
    by (simp add: revoked_at_None_iff)
  then have "revoked_at (mergeRosters l ?m) (re_id d) \<noteq> None"
    by (simp add: revoked_at_merge max_option_None_iff id)
  then show False
    using assms(3) device_at_revoked by (fastforce simp: mergeRemoteRoster_def devices_mergeRosters)
qed

subsection \<open>Properties\<close>

text \<open>Property C15: only roster members take part in sync. Whatever happens in a session, an envelope was
  sent only on a connection whose key was in the current roster when it presented it and which then
  completed the handshake for that key; and entries were applied only from such a connection, from an
  envelope that arrived while the key was still in the current roster.\<close>

theorem only_members_sync:
  assumes "s = sync_run opts es (start_sync r l)"
  shows "(\<forall>c pub env. SentEnvelope c pub env \<in> set (sy_log s) \<longrightarrow>
      (\<exists>es1 es2 t. es = es1 @ PubSettled c (Some pub) # es2 \<and>
         inRoster (currentRoster opts (sync_run opts es1 (start_sync r l))) pub \<and> KeysSettled c True t \<in> set es2)) \<and>
    (\<forall>c pub e. AppliedEntries c pub e \<in> set (sy_log s) \<longrightarrow>
      (\<exists>es1 es2 t. es = es1 @ PubSettled c (Some pub) # es2 \<and> KeysSettled c True t \<in> set es2) \<and>
      (\<exists>es1 env t es2. es = es1 @ Inbound c (Some env) t # es2 \<and> env_entries env = e \<and>
         inRoster (currentRoster opts (sync_run opts es1 (start_sync r l))) pub))"
  using sync_trace_run [of opts r l es] unfolding assms sync_trace_def authed_def applied_as_member_def by blast


text \<open>A broadcast reaches exactly the members. When its steps are not interrupted, it closes
  the connections of every peer no longer in the roster and sends the current envelope once to every
  peer that is, in the order of the map, and then ends.\<close>

lemma broadcast_reaches_members:
  assumes "s = sync_run opts es (start_sync r l)" "sy_casts s i = Some CastCheck"
    and "members (currentRoster opts s) (sy_peers s) \<noteq> []"
  shows "\<exists>n. sy_casts (sync_run opts (replicate n (CastStep i)) s) i = None \<and>
    sy_log (sync_run opts (replicate n (CastStep i)) s) =
    sy_log s @ map (\<lambda>(pub, c). ClosedConn c) (filter (\<lambda>(pub, c). \<not> inRoster (currentRoster opts s) pub) (sy_peers s)) @
    map (\<lambda>(pub, c). SentEnvelope c pub (localEnvelope opts s)) (members (currentRoster opts s) (sy_peers s))"
proof -
  have "distinct (map snd (sy_peers s))"
    using peers_ok_run [of opts es r l] assms(1) by (simp add: peers_ok_def)
  from broadcast_run [OF assms(2) this assms(3)] show ?thesis by blast
qed

text \<open>A gossiped revocation takes effect at once. When a member's envelope revokes a device
  with a stamp that is not in the future, the stored roster that results no longer lists the device, and
  every connection kept after that one step belongs to a key the new roster still lists.\<close>

lemma gossiped_revocation_cuts_peer:
  assumes "so_fetch_roster opts" "so_push_roster opts" "sy_stored s = Some l"
    and "sy_conn s c = Some (Receiving pub)" "inRoster l pub"
    and "env_roster env = Some remote" "t \<in> set (revoked remote)" "\<not> isFutureStamp (tb_hlc t) (nat now)"
  shows "\<exists>l'. sy_stored (sync_step opts (Inbound c (Some env) now) s) = Some l' \<and>
    tb_id t \<notin> re_id ` set (devices l') \<and>
    fst ` set (sy_peers (sync_step opts (Inbound c (Some env) now) s)) \<subseteq> re_publicKey ` set (devices l')"
proof -
  let ?s = "s\<lparr>sy_lastSeen := (sy_lastSeen s)(c := now)\<rparr>"
  let ?l' = "mergeRemoteRoster l (verifyRosterEnvelope (so_verify opts) (so_flags opts) l remote) (nat now)"
  have cur: "currentRoster opts ?s = l"
    using assms(1,3) by (simp add: currentRoster_def)
  have stored: "sy_stored (applyEnvelope opts (nat now) c pub (Some env) ?s) = Some ?l'"
    using assms(2,3,6) cur by (simp add: applyEnvelope_def Let_def)
  then have cur': "currentRoster opts (applyEnvelope opts (nat now) c pub (Some env) ?s) = ?l'"
    using assms(1) by (simp add: currentRoster_def)
  have "sync_step opts (Inbound c (Some env) now) s = reapRevoked ?l' (applyEnvelope opts (nat now) c pub (Some env) ?s)"
    using assms(4,5) by (simp add: inbound_def cur cur' Let_def)
  moreover have "tb_id t \<notin> re_id ` set (devices ?l')"
    using received_revocation [OF assms(7,8)] by fastforce
  ultimately show ?thesis
    using stored by (auto simp: reap_defs inRoster_def list_ex_iff)
qed

text \<open>Revoked between its roster check and the end of its handshake, a device is still sent the vault.\<close>

lemma revoked_during_handshake_gets_vault:
  assumes "so_fetch_roster opts" "inRoster r pub" "\<not> inRoster r' pub"
    and "s = sync_run opts [Connected 0, PubSettled 0 (Some pub), RosterStored (Some r'), KeysSettled 0 True 5, InitialSettled 0]
      (start_sync r vault)"
  shows "SentEnvelope 0 pub \<lparr>env_entries = vault, env_roster = Some r'\<rparr> \<in> set (sy_log s)"
    and "\<not> inRoster (currentRoster opts s) pub"
  using assms by (simp_all add: sync_run_def start_sync_def pub_settled_def keys_settled_def initial_settled_def
      currentRoster_def localEnvelope_def)

subsection \<open>Witnesses\<close>

definition sync_device :: "string \<Rightarrow> roster_entry" where
  "sync_device i = \<lparr>re_id = i, re_publicKey = i, re_label = i, re_addedAt = 0, re_hlc = Hlc 1 0 i,
     re_sigKey = None, re_sig = None, re_admissionKey = None, re_admission = None\<rparr>"

definition sample_roster :: roster where
  "sample_roster = \<lparr>devices = [sync_device ''a'', sync_device ''b''], revoked = []\<rparr>"

definition sample_opts :: sync_opts where
  "sample_opts = \<lparr>so_fetch_roster = True, so_push_roster = True, so_snapshot = sample_roster, so_verify = None,
     so_flags = \<lparr>req_signatures = False, req_admission = False\<rparr>\<rparr>"

definition sample_joins :: "sync_event list" where
  "sample_joins = [Connected 0, PubSettled 0 (Some ''a''), KeysSettled 0 True 5, InitialSettled 0]"

definition sample_session :: sync_state where
  "sample_session = sync_run sample_opts sample_joins (start_sync sample_roster ''v'')"

lemmas sample_sync_defs = sample_session_def sample_joins_def sample_opts_def sample_roster_def sync_device_def
  sync_run_def start_sync_def pub_settled_def keys_settled_def initial_settled_def currentRoster_def inRoster_def
  localEnvelope_def

lemma sample_session_facts:
  "sy_log sample_session = [SentPub 0, SentEnvelope 0 ''a'' \<lparr>env_entries = ''v'', env_roster = Some sample_roster\<rparr>]"
  "sy_conn sample_session 0 = Some (Receiving ''a'')" "sy_stored sample_session = Some sample_roster"
  "sy_peers sample_session = [(''a'', 0)]"
  by (simp_all add: sample_sync_defs)

theorem only_members_sync_witness:
  "\<exists>es1 es2 t. sample_joins = es1 @ PubSettled 0 (Some ''a'') # es2 \<and> KeysSettled 0 True t \<in> set es2"
  using only_members_sync [of sample_session sample_opts sample_joins sample_roster "''v''"] sample_session_facts(1)
  unfolding sample_session_def by fastforce


end
