(* ===== verification/Pairing.thy ===== *)
theory Pairing
  imports Bytes Js_Text "HOL-Library.List_Lexorder" "HOL-Library.Char_ord"
begin

unbundle bit_operations_syntax

text \<open>
  The out-of-band part of pairing two devices: the short authentication string both users compare
  (\<open>packages/core/src/sync/pairing-sas.ts\<close>) and the pairing code with its expiry
  (\<open>sync/enrollment.ts\<close>).

  HKDF runs in the browser's WebCrypto and is the argument \<open>hkdf\<close>, from the key bytes and the
  salt text to the derived bytes (eight of them). JSON printing and the validated parsing of a
  pairing code, with the UTF-8 codec around them, are the argument \<open>P\<close>.
\<close>

subsection \<open>The short authentication string\<close>

definition SAS_DIGITS :: nat where
  "SAS_DIGITS = 12"

definition SAS_GROUP :: nat where
  "SAS_GROUP = 4"

definition BITS_PER_EMOJI :: nat where
  "BITS_PER_EMOJI = 6"

definition SAS_EMOJI_LEN :: nat where
  "SAS_EMOJI_LEN = 7"

record pairing_sas =
  sas_emoji :: "nat list"
  sas_digits :: string

text \<open>
  The accumulator is a 32-bit integer. The inner loop takes groups off its top; shift counts
  stay below 32 because \<open>held\<close> is less than \<open>width + 8\<close>.
\<close>

function take_groups :: "nat \<Rightarrow> nat \<Rightarrow> 32 word \<Rightarrow> nat \<Rightarrow> nat list \<Rightarrow> nat list \<times> nat" where
  "take_groups width count acc held out =
     (if width \<le> held \<and> length out < count
      then take_groups width count acc (held - width)
             (out @ [unat (drop_bit (held - width) acc AND (push_bit width 1 - 1))])
      else (out, held))"
  by pat_completeness auto

termination
  by (relation "measure (\<lambda>(width, count, acc, held, out). count - length out)") auto

declare take_groups.simps [simp del]

fun group_loop :: "nat \<Rightarrow> nat \<Rightarrow> 32 word \<Rightarrow> nat \<Rightarrow> nat list \<Rightarrow> bytes \<Rightarrow> nat list" where
  "group_loop width count acc held out [] = out"
| "group_loop width count acc held out (b # bs) =
     (let acc = push_bit 8 acc OR ucast b;
          (out, held) = take_groups width count acc (held + 8) out;
          acc = acc AND (push_bit held 1 - 1)
      in if length out = count then out else group_loop width count acc held out bs)"

definition bitGroups :: "bytes \<Rightarrow> nat \<Rightarrow> nat \<Rightarrow> nat list" where
  "bitGroups bs width count = group_loop width count 0 0 [] bs"

definition big_endian :: "bytes \<Rightarrow> nat" where
  "big_endian bs = foldl (\<lambda>n b. n * 256 + unat b) 0 bs"

definition pad_digits :: "string \<Rightarrow> string" where
  "pad_digits s = pad_start SAS_DIGITS s"

definition sas_salt :: "string \<Rightarrow> string \<Rightarrow> string" where
  "sas_salt pubA pubB = (if pubB < pubA then pubB @ pubA else pubA @ pubB)"

definition sas_of_bytes :: "bytes \<Rightarrow> pairing_sas" where
  "sas_of_bytes bs =
     (let digits = pad_digits (dec (big_endian bs mod 10 ^ SAS_DIGITS))
      in \<lparr>sas_emoji = bitGroups bs BITS_PER_EMOJI SAS_EMOJI_LEN,
          sas_digits = take SAS_GROUP digits @ '' '' @ take SAS_GROUP (drop SAS_GROUP digits) @ '' '' @
            drop (2 * SAS_GROUP) digits\<rparr>)"

text \<open>A key that is not base64 throws, here \<open>None\<close>.\<close>

definition pairingSas :: "(bytes \<Rightarrow> string \<Rightarrow> bytes) \<Rightarrow> string \<Rightarrow> string \<Rightarrow> string \<Rightarrow> pairing_sas option" where
  "pairingSas hkdf pskB64 pubA pubB =
     map_option (\<lambda>k. sas_of_bytes (hkdf k (sas_salt pubA pubB))) (base64ToBytes pskB64)"

subsection \<open>The pairing code\<close>

definition PAIRING_PREFIX :: string where
  "PAIRING_PREFIX = ''vautix-pair-1.''"

definition INVITE_TTL_MS :: int where
  "INVITE_TTL_MS = 3 * 60000"

definition EXPIRY_GRACE_MS :: int where
  "EXPIRY_GRACE_MS = 60000"

text \<open>The version field is the literal 1.\<close>

record pairing_code =
  pc_groupKey :: string
  pc_inviterPub :: string
  pc_psk :: string
  pc_relay :: string
  pc_iceUrl :: "string option"
  pc_exp :: "int option"

definition pairing_schema :: "pairing_code \<Rightarrow> bool" where
  "pairing_schema c \<longleftrightarrow>
     pc_groupKey c \<noteq> [] \<and> pc_inviterPub c \<noteq> [] \<and> pc_psk c \<noteq> [] \<and> pc_relay c \<noteq> [] \<and>
     (case pc_exp c of None \<Rightarrow> True | Some t \<Rightarrow> 0 < t)"

definition pairingCodeExpired :: "pairing_code \<Rightarrow> int \<Rightarrow> int \<Rightarrow> bool" where
  "pairingCodeExpired c nowMs graceMs \<longleftrightarrow>
     (case pc_exp c of None \<Rightarrow> False | Some t \<Rightarrow> nowMs - graceMs > t)"

record pairing_json =
  print_code :: "pairing_code \<Rightarrow> bytes"
  parse_code :: "bytes \<Rightarrow> pairing_code option"

definition encodePairingCode :: "pairing_json \<Rightarrow> pairing_code \<Rightarrow> string option" where
  "encodePairingCode P c =
     (if pairing_schema c then Some (PAIRING_PREFIX @ bytesToBase64 (print_code P c)) else None)"

definition decodePairingCode :: "pairing_json \<Rightarrow> string \<Rightarrow> pairing_code option" where
  "decodePairingCode P text =
     (let trimmed = trim text
      in if take (length PAIRING_PREFIX) trimmed \<noteq> PAIRING_PREFIX then None
         else (case base64ToBytes (drop (length PAIRING_PREFIX) trimmed) of
                 None \<Rightarrow> None
               | Some bs \<Rightarrow>
                   (case parse_code P bs of
                      None \<Rightarrow> None
                    | Some c \<Rightarrow> if pairing_schema c then Some c else None)))"

subsection \<open>Bit groups are the leading bits\<close>

text \<open>The group \<open>i\<close> of a number of \<open>bits\<close> bits, most significant first.\<close>

definition bit_group :: "nat \<Rightarrow> nat \<Rightarrow> nat \<Rightarrow> nat \<Rightarrow> nat" where
  "bit_group width bits n i = n div 2 ^ (bits - width * Suc i) mod 2 ^ width"

lemma unat_mask_word:
  assumes "held < 32"
  shows "unat (w AND (push_bit held 1 - 1) :: 32 word) = unat w mod 2 ^ held"
proof -
  have "push_bit held 1 - 1 = (mask held :: 32 word)"
    by (simp add: mask_eq_exp_minus_1)
  then have "w AND (push_bit held 1 - 1) = take_bit held w"
    by (simp add: take_bit_eq_mask)
  then have "unat (w AND (push_bit held 1 - 1)) = take_bit held (unat w)"
    by (simp only: unsigned_take_bit_eq)
  also have "\<dots> = unat w mod 2 ^ held"
    by (rule take_bit_eq_mod)
  finally show ?thesis .
qed

lemma take_bit_32_unat: "take_bit 32 (unat (w :: 32 word)) = unat w"
  by (rule take_bit_nat_eq_self) (rule order_less_le_trans [OF unsigned_less], simp)

lemma take_groups_spec:
  assumes "0 < width" "held < 32"
  shows "take_groups width count acc held out =
    (let k = min (count - length out) (held div width)
     in (out @ map (bit_group width held (unat acc)) [0..<k], held - width * k))"
  using assms
proof (induction width count acc held out rule: take_groups.induct)
  case (1 width count acc held out)
  show ?case
  proof (cases "width \<le> held \<and> length out < count")
    case False
    then have "min (count - length out) (held div width) = 0"
      by auto
    with False show ?thesis
      by (subst take_groups.simps) (simp only: if_False Let_def, simp)
  next
    case True
    define g where "g = unat (drop_bit (held - width) acc AND (push_bit width 1 - 1))"
    define k where "k = min (count - length (out @ [g])) ((held - width) div width)"
    have "g = unat (drop_bit (held - width) acc) mod 2 ^ width"
      unfolding g_def using True 1(3) by (intro unat_mask_word) simp
    moreover have "unat (drop_bit (held - width) acc) = unat acc div 2 ^ (held - width)"
      by (subst unsigned_drop_bit_eq) (simp add: drop_bit_eq_div take_bit_32_unat)
    ultimately have g: "g = bit_group width held (unat acc) 0"
      by (simp add: bit_group_def)
    have k: "min (count - length out) (held div width) = Suc k"
      using True 1(2) by (auto simp: k_def le_div_geq)
    have shift: "bit_group width (held - width) (unat acc) i = bit_group width held (unat acc) (Suc i)" for i
      by (simp add: bit_group_def)
    have "take_groups width count acc held out = take_groups width count acc (held - width) (out @ [g])"
      using True by (subst take_groups.simps) (simp add: g_def)
    also have "\<dots> = (out @ [g] @ map (bit_group width (held - width) (unat acc)) [0..<k], held - width - width * k)"
      using 1(1) True 1(2,3) by (simp add: g_def Let_def k_def)
    also have "\<dots> = (out @ map (bit_group width held (unat acc)) [0..<Suc k], held - width * Suc k)"
      by (simp add: g map_upt_Suc shift del: upt_Suc)
    finally show ?thesis
      by (simp only: k Let_def)
  qed
qed

text \<open>The bytes still to come, and all the bits not yet given out.\<close>

lemma big_endian_fold: "foldl (\<lambda>n b. n * 256 + unat b) a bs = a * 256 ^ length bs + big_endian bs"
proof (induction bs arbitrary: a)
  case (Cons b bs)
  show ?case
    using Cons [of "a * 256 + unat b"] Cons [of "unat b"] by (simp add: big_endian_def algebra_simps)
qed (simp add: big_endian_def)

lemma big_endian_Cons: "big_endian (b # bs) = unat b * 256 ^ length bs + big_endian bs"
  using big_endian_fold [of "unat b" bs] by (simp add: big_endian_def)

lemma big_endian_less: "big_endian bs < 256 ^ length bs"
proof (induction bs)
  case (Cons b bs)
  have "big_endian (b # bs) < (unat b + 1) * 256 ^ length bs"
    using Cons by (simp add: big_endian_Cons)
  also have "\<dots> \<le> 256 * 256 ^ length bs"
    using unat_u8 [of b] by (intro mult_le_mono1) linarith
  finally show ?case by simp
qed (simp add: big_endian_def)

lemma unat_push_byte:
  assumes "unat (acc :: 32 word) < 2 ^ held" "held \<le> 24"
  shows "unat (push_bit 8 acc OR ucast (b :: u8)) = unat acc * 256 + unat b"
proof -
  have small: "unat acc < 2 ^ 24"
    using assms order_less_le_trans [OF assms(1) power_increasing [OF assms(2), of 2]] by simp
  have b: "unat (ucast b :: 32 word) = unat b"
    unfolding unsigned_ucast_eq by (rule take_bit_nat_eq_self) (rule order_less_trans [OF unat_u8], simp)
  have p: "unat (push_bit 8 acc) = unat acc * 256"
    using small by (subst unsigned_push_bit_eq) (simp add: push_bit_eq_mult take_bit_nat_eq_self)
  have "push_bit 8 (unat acc) AND unat b = 0"
  proof (rule bit_eqI)
    fix n
    have "\<not> bit (unat b) n" if "8 \<le> n"
      using that by (auto simp: bit_unsigned_iff dest: bit_imp_le_length)
    then show "bit (push_bit 8 (unat acc) AND unat b) n = bit (0 :: nat) n"
      by (auto simp: bit_and_iff bit_push_bit_iff)
  qed
  then have "push_bit 8 (unat acc) OR unat b = push_bit 8 (unat acc) + unat b"
    by (simp add: disjunctive_add_eq_or)
  then show ?thesis
    unfolding unsigned_or_eq b p by (simp add: push_bit_eq_mult)
qed

text \<open>Groups of a number are groups of the same number with more bits behind it.\<close>

lemma bit_group_append:
  assumes "width * Suc i \<le> held" "c < 2 ^ k"
  shows "bit_group width (held + k) (a * 2 ^ k + c) i = bit_group width held a i"
proof -
  define d where "d = held - width * Suc i"
  have "held + k - width * Suc i = k + d"
    using assms(1) by (simp add: d_def)
  moreover have "(a * 2 ^ k + c) div 2 ^ (k + d) = a div 2 ^ d"
    using assms(2) by (simp add: power_add div_mult2_eq)
  ultimately show ?thesis
    by (simp add: bit_group_def d_def)
qed

lemma bit_group_mod:
  assumes "width * Suc i \<le> r"
  shows "bit_group width r (a mod 2 ^ r) i = bit_group width (r + width * q) a (q + i)"
proof -
  define d where "d = r - width * Suc i"
  have r: "width \<le> r - d"
    using assms by (simp add: d_def)
  have "take_bit width (drop_bit d (take_bit r a)) = take_bit width (drop_bit d a)"
    using r by (simp add: drop_bit_take_bit min_absorb1)
  then have "a mod 2 ^ r div 2 ^ d mod 2 ^ width = a div 2 ^ d mod 2 ^ width"
    by (simp add: take_bit_eq_mod drop_bit_eq_div)
  moreover have "r + width * q - width * Suc (q + i) = d"
    by (simp add: d_def algebra_simps)
  ultimately show ?thesis
    by (simp add: bit_group_def d_def)
qed

lemma mod_append:
  fixes B :: nat
  assumes "B < 2 ^ m"
  shows "(A mod 2 ^ h) * 2 ^ m + B = (A * 2 ^ m + B) mod 2 ^ (h + m)"
proof -
  have "(A mod 2 ^ h) * 2 ^ m + B < (A mod 2 ^ h + 1) * 2 ^ m"
    using assms by simp
  also have "\<dots> \<le> 2 ^ h * 2 ^ m"
    by (intro mult_le_mono1) (simp add: Suc_leI)
  finally have small: "(A mod 2 ^ h) * 2 ^ m + B < 2 ^ (h + m)"
    by (simp add: power_add)
  define d where "d = A div 2 ^ h"
  define r where "r = A mod 2 ^ h"
  have "A = r + 2 ^ h * d"
    by (simp add: d_def r_def)
  then have "A * 2 ^ m + B = 2 ^ (h + m) * d + (r * 2 ^ m + B)"
    by (simp add: power_add algebra_simps)
  then show ?thesis
    using small unfolding r_def [symmetric] by (simp only: mod_mult_self4 mod_less)
qed

lemma map_upt_add: "map f [0..<m + n] = map f [0..<m] @ map (\<lambda>i. f (m + i)) [0..<n]"
  by (induction n) simp_all

text \<open>The loop gives out the leading groups of the bits it holds and the bytes to come.\<close>

lemma group_loop_spec:
  assumes "0 < width" "width \<le> 16" "held < width" "unat acc < 2 ^ held" "length out \<le> count"
  shows "group_loop width count acc held out bs =
    out @ map (bit_group width (held + 8 * length bs) (unat acc * 256 ^ length bs + big_endian bs))
            [0..<min (count - length out) ((held + 8 * length bs) div width)]"
  using assms
proof (induction bs arbitrary: acc held out)
  case Nil
  then show ?case by simp
next
  case (Cons b bs)
  define L where "L = length bs"
  define A where "A = unat acc * 256 + unat b"
  define T where "T = A * 2 ^ (8 * L) + big_endian bs"
  define k1 where "k1 = min (count - length out) ((held + 8) div width)"
  define out1 where "out1 = out @ map (bit_group width (held + 8) A) [0..<k1]"
  define h2 where "h2 = held + 8 - width * k1"
  define acc1 where "acc1 = push_bit 8 acc OR ucast b"
  define acc2 where "acc2 = acc1 AND (push_bit h2 1 - 1)"
  have pow: "(256 :: nat) ^ L = 2 ^ (8 * L)"
    by (simp add: power_mult)
  have B: "big_endian bs < 2 ^ (8 * L)"
    using big_endian_less [of bs] by (simp add: pow flip: L_def)
  have whole: "unat acc * 256 ^ length (b # bs) + big_endian (b # bs) = T"
    by (simp add: T_def A_def big_endian_Cons pow algebra_simps flip: L_def)
  have A: "unat acc1 = A"
    using Cons.prems unat_push_byte [of acc held b] by (simp add: acc1_def A_def)
  have groups: "take_groups width count acc1 (held + 8) out = (out1, h2)"
    using Cons.prems take_groups_spec [of width "held + 8" count acc1 out]
    by (simp add: A Let_def out1_def h2_def k1_def)
  have wk: "width * k1 \<le> held + 8"
    by (simp add: k1_def min_def) (metis le_trans mult_le_mono2 nat_le_linear times_div_less_eq_dividend)
  have loop: "group_loop width count acc held out (b # bs) =
      (if length out1 = count then out1 else group_loop width count acc2 h2 out1 bs)"
    by (simp add: Let_def groups flip: acc1_def) (simp add: acc2_def)
  have len: "held + 8 * length (b # bs) = held + 8 + 8 * L"
    by (simp add: L_def)
  have first: "map (bit_group width (held + 8) A) [0..<k1] = map (bit_group width (held + 8 + 8 * L) T) [0..<k1]"
  proof (intro map_cong refl)
    fix i
    assume "i \<in> set [0..<k1]"
    then have "width * Suc i \<le> held + 8"
      using wk by (metis atLeastLessThan_iff le_trans mult_le_mono2 set_upt Suc_leI)
    then show "bit_group width (held + 8) A i = bit_group width (held + 8 + 8 * L) T i"
      using bit_group_append [OF _ B] by (simp add: T_def)
  qed
  show ?case
  proof (cases "length out1 = count")
    case True
    then have k: "k1 = count - length out"
      using Cons.prems(5) by (simp add: out1_def)
    then have "count - length out \<le> (held + 8) div width"
      by (simp add: k1_def)
    also have "\<dots> \<le> (held + 8 + 8 * L) div width"
      by (rule div_le_mono) simp
    finally show ?thesis
      using True first unfolding loop whole len by (simp add: out1_def k min_absorb1)
  next
    case False
    then have k1: "k1 = (held + 8) div width" and lt: "k1 < count - length out"
      using Cons.prems(5) by (auto simp: out1_def k1_def min_def split: if_splits)
    have h2: "h2 = (held + 8) mod width"
      by (simp add: h2_def k1 minus_mult_div_eq_mod)
    have n: "held + 8 + 8 * L = h2 + 8 * L + width * k1"
      using wk by (simp add: h2_def)
    have acc2: "unat acc2 = A mod 2 ^ h2"
      using Cons.prems(1,2) unat_mask_word [of h2 acc1] mod_less_divisor [of width "held + 8"]
      by (simp add: acc2_def A h2 order_less_le_trans del: mod_less_divisor)
    have T2: "unat acc2 * 256 ^ L + big_endian bs = T mod 2 ^ (h2 + 8 * L)"
      using mod_append [OF B, of A h2] by (simp add: acc2 pow T_def)
    define k2 where "k2 = min (count - length out1) ((h2 + 8 * L) div width)"
    have "group_loop width count acc2 h2 out1 bs =
        out1 @ map (bit_group width (h2 + 8 * L) (T mod 2 ^ (h2 + 8 * L))) [0..<k2]"
      using Cons.IH [OF Cons.prems(1,2), of h2 acc2 out1, folded L_def, unfolded T2, folded k2_def] Cons.prems(1) lt acc2
      by (simp add: h2 out1_def)
    also have "map (bit_group width (h2 + 8 * L) (T mod 2 ^ (h2 + 8 * L))) [0..<k2] =
        map (\<lambda>i. bit_group width (held + 8 + 8 * L) T (k1 + i)) [0..<k2]"
    proof (intro map_cong refl)
      fix i
      assume "i \<in> set [0..<k2]"
      then have "Suc i \<le> (h2 + 8 * L) div width"
        by (simp add: k2_def)
      then have "width * Suc i \<le> h2 + 8 * L"
        by (metis le_trans mult_le_mono2 times_div_less_eq_dividend)
      then show "bit_group width (h2 + 8 * L) (T mod 2 ^ (h2 + 8 * L)) i = bit_group width (held + 8 + 8 * L) T (k1 + i)"
        using bit_group_mod [of width i "h2 + 8 * L" T k1] by (simp add: n)
    qed
    also have "out1 @ \<dots> = out @ map (bit_group width (held + 8 + 8 * L) T) [0..<k1 + k2]"
      unfolding out1_def first by (simp only: map_upt_add append_assoc)
    also have "k1 + k2 = min (count - length out) ((held + 8 + 8 * L) div width)"
    proof -
      have "(held + 8 + 8 * L) div width = k1 + (h2 + 8 * L) div width"
        using Cons.prems(1) by (simp add: n)
      then show ?thesis
        using lt by (simp add: k2_def out1_def)
    qed
    finally show ?thesis
      unfolding loop whole len if_not_P [OF False] .
  qed
qed

lemma bitGroups_spec:
  assumes "0 < width" "width \<le> 16"
  shows "bitGroups bs width count =
    map (bit_group width (8 * length bs) (big_endian bs)) [0..<min count (8 * length bs div width)]"
  using group_loop_spec [of width 0 0 "[]" count bs] assms by (simp add: bitGroups_def)

subsection \<open>The string both users compare\<close>

lemma bit_group_bound: "bit_group width n a i < 2 ^ width"
  by (simp add: bit_group_def)

text \<open>Read as digits, the first groups are the leading bits.\<close>

lemma groups_are_leading_bits:
  assumes "a < 2 ^ n" "width * count \<le> n"
  shows "foldl (\<lambda>x g. x * 2 ^ width + g) 0 (map (bit_group width n a) [0..<count]) = a div 2 ^ (n - width * count)"
  using assms(2)
proof (induction count)
  case 0
  then show ?case using assms(1) by simp
next
  case (Suc c)
  define e where "e = n - width * Suc c"
  have "n - width * c = e + width"
    using Suc.prems by (simp add: e_def)
  then have "foldl (\<lambda>x g. x * 2 ^ width + g) 0 (map (bit_group width n a) [0..<c]) = a div 2 ^ e div 2 ^ width"
    using Suc by (simp add: power_add div_mult2_eq)
  moreover have "bit_group width n a c = a div 2 ^ e mod 2 ^ width"
    by (simp add: bit_group_def e_def)
  ultimately show ?case
    using div_mult_mod_eq [of "a div 2 ^ e" "2 ^ width"] unfolding e_def [symmetric] by simp
qed

lemma pad_digits_ok:
  assumes "n < 10 ^ SAS_DIGITS"
  shows "length (pad_digits (dec n)) = SAS_DIGITS" "undec (pad_digits (dec n)) = n"
    "list_all is_digit (pad_digits (dec n))"
  using padded_dec [of n SAS_DIGITS] assms by (simp_all add: pad_digits_def SAS_DIGITS_def)

lemma digits_no_space: "list_all is_digit s \<Longrightarrow> filter (\<lambda>c. c \<noteq> CHR '' '') s = s"
  by (auto simp: list_all_iff is_digit_def intro!: filter_True)

lemma sas_of_bytes_spec:
  assumes "length bs = 8"
  shows "length (sas_emoji (sas_of_bytes bs)) = 7 \<and> list_all (\<lambda>g. g < 64) (sas_emoji (sas_of_bytes bs)) \<and>
    foldl (\<lambda>x g. x * 64 + g) 0 (sas_emoji (sas_of_bytes bs)) = big_endian bs div 2 ^ 22 \<and>
    length (sas_digits (sas_of_bytes bs)) = 14 \<and>
    undec (filter (\<lambda>c. c \<noteq> CHR '' '') (sas_digits (sas_of_bytes bs))) = big_endian bs mod 10 ^ 12"
proof -
  let ?d = "pad_digits (dec (big_endian bs mod 10 ^ SAS_DIGITS))"
  have emoji: "sas_emoji (sas_of_bytes bs) = map (bit_group 6 64 (big_endian bs)) [0..<7]"
    using assms by (simp add: sas_of_bytes_def Let_def bitGroups_spec BITS_PER_EMOJI_def SAS_EMOJI_LEN_def)
  have "big_endian bs < 2 ^ 64"
    using big_endian_less [of bs] assms by simp
  then have val: "foldl (\<lambda>x g. x * 64 + g) 0 (sas_emoji (sas_of_bytes bs)) = big_endian bs div 2 ^ 22"
    unfolding emoji using groups_are_leading_bits [of "big_endian bs" 64 6 7] by simp
  have d: "length ?d = 12" "undec ?d = big_endian bs mod 10 ^ 12" "list_all is_digit ?d"
    using pad_digits_ok [of "big_endian bs mod 10 ^ SAS_DIGITS"] by (simp_all add: SAS_DIGITS_def)
  have digits: "sas_digits (sas_of_bytes bs) = take 4 ?d @ '' '' @ take 4 (drop 4 ?d) @ '' '' @ drop 8 ?d"
    by (simp add: sas_of_bytes_def Let_def SAS_GROUP_def)
  have parts: "list_all is_digit (take 4 ?d)" "list_all is_digit (take 4 (drop 4 ?d))" "list_all is_digit (drop 8 ?d)"
    using d(3) by (auto simp: list_all_iff dest: in_set_takeD in_set_dropD)
  have "take 4 ?d @ take 4 (drop 4 ?d) @ drop 8 ?d = ?d"
    by (metis append_assoc append_take_drop_id take_add numeral_Bit0)
  then have "filter (\<lambda>c. c \<noteq> CHR '' '') (sas_digits (sas_of_bytes bs)) = ?d"
    unfolding digits filter_append parts [THEN digits_no_space] by simp
  moreover have "length (sas_digits (sas_of_bytes bs)) = 14"
    unfolding digits using d(1) by simp
  moreover have "list_all (\<lambda>g. g < 64) (sas_emoji (sas_of_bytes bs))"
    unfolding emoji using bit_group_bound [of 6] by (auto simp: list_all_iff)
  ultimately show ?thesis
    using val d(2) by (simp add: emoji)
qed

text \<open>Both devices show the same string, and it carries the bits it claims. Whichever key
  each device passes first, they derive one string; its seven symbols are the top 42 of the 64
  derived bits, and its three groups of four digits their value modulo \<open>10 ^ 12\<close>. (HKDF returns the
  eight bytes asked for, and the invite's secret is base64.)\<close>

lemma sas_shows_derived_bits:
  assumes "base64ToBytes psk = Some k" "length (hkdf k (sas_salt a b)) = 8"
  shows "\<exists>s. pairingSas hkdf psk a b = Some s \<and> pairingSas hkdf psk b a = Some s \<and>
    length (sas_emoji s) = 7 \<and> list_all (\<lambda>g. g < 64) (sas_emoji s) \<and>
    foldl (\<lambda>x g. x * 64 + g) 0 (sas_emoji s) = big_endian (hkdf k (sas_salt a b)) div 2 ^ 22 \<and>
    length (sas_digits s) = 14 \<and>
    undec (filter (\<lambda>c. c \<noteq> CHR '' '') (sas_digits s)) = big_endian (hkdf k (sas_salt a b)) mod 10 ^ 12"
proof -
  have "sas_salt b a = sas_salt a b"
    by (auto simp: sas_salt_def)
  then show ?thesis
    using sas_of_bytes_spec [OF assms(2)] assms(1) by (simp add: pairingSas_def)
qed

definition sample_hkdf :: "bytes \<Rightarrow> string \<Rightarrow> bytes" where
  "sample_hkdf k t = replicate 7 (byte (length k)) @ [byte (length t)]"

lemma sample_hkdf_length: "length (sample_hkdf k t) = 8"
  by (simp add: sample_hkdf_def)

subsection \<open>Pairing codes survive copying\<close>

definition pairing_json_ok :: "pairing_json \<Rightarrow> bool" where
  "pairing_json_ok P \<longleftrightarrow> (\<forall>c. pairing_schema c \<longrightarrow> parse_code P (print_code P c) = Some c)"

lemma base64_no_space: "c \<in> set (bytesToBase64 bs) \<Longrightarrow> \<not> is_space c"
proof -
  have alphabet: "list_all (\<lambda>c. \<not> is_space c) B64_ALPHABET" "\<not> is_space (CHR ''='')" "length B64_ALPHABET = 64"
    by (simp_all add: B64_ALPHABET_def is_space_def)
  obtain n where n: "bytesToBase64 bs = map b64_char (btoa_nat (map unat bs)) @ replicate n (CHR ''='')"
    using pad_b64_append by (auto simp: bytesToBase64_def)
  have "\<not> is_space (b64_char v)" if "v < 64" for v
    using alphabet(1,3) that by (simp add: b64_char_def list_all_length)
  then show "c \<in> set (bytesToBase64 bs) \<Longrightarrow> \<not> is_space c"
    using alphabet(2) btoa_bytes_range [of bs] by (auto simp: n list_all_iff)
qed

text \<open>A pairing code survives being copied. Whatever white space surrounds the text an
  inviter encoded, the joiner decodes exactly the code that was encoded, and only codes the schema
  accepts are encoded or decoded. (The JSON and UTF-8 of a valid code parse back to it.)\<close>

lemma pairing_code_round_trip:
  assumes "pairing_json_ok P" "encodePairingCode P c = Some t"
    and "list_all is_space l" "list_all is_space r"
  shows "decodePairingCode P (l @ t @ r) = Some c \<and> pairing_schema c"
proof -
  have c: "pairing_schema c" and t: "t = PAIRING_PREFIX @ bytesToBase64 (print_code P c)"
    using assms(2) by (simp_all add: encodePairingCode_def split: if_splits)
  have "last t \<in> set (bytesToBase64 (print_code P c)) \<or> last t = CHR ''.''"
    by (auto simp: t PAIRING_PREFIX_def last_append)
  then have "\<not> is_space (last t)"
    using base64_no_space by (auto simp: is_space_def)
  moreover have "t \<noteq> []" "\<not> is_space (hd t)"
    by (simp_all add: t PAIRING_PREFIX_def is_space_def)
  ultimately have "trim (l @ t @ r) = t"
    using assms(3,4) by (intro trim_surrounded)
  then show ?thesis
    using assms(1) c by (simp add: decodePairingCode_def t base64_round_trip pairing_json_ok_def)
qed

text \<open>A code is refused as expired only after its time has passed by more than the grace; an invite
  the joiner accepts at its creation is not yet expired.\<close>

lemma expiry_exact:
  "pairingCodeExpired c now EXPIRY_GRACE_MS \<longleftrightarrow> (\<exists>t. pc_exp c = Some t \<and> t + 60000 < now)"
  by (auto simp: pairingCodeExpired_def EXPIRY_GRACE_MS_def split: option.splits)

end
