(* ===== verification/Enrollment.thy ===== *)
theory Enrollment
  imports Roster Entries_Blob Pairing "HOL-Library.Sublist"
begin

text \<open>
  Enrolling a device (\<open>packages/core/src/sync/transport/enroll-host.ts\<close>, the bundle of
  \<open>sync/enrollment.ts\<close>): one invite serves one device, after the user compared the
  authentication string on both screens.

  The handlers of both roles are machines: a state and the results their awaits settle with, in
  any order, for any number of connections (numbered; each runs its own handler). A wait that
  times out or a message that cannot be read is the result \<open>None\<close>. What a handler sends and which
  callbacks it calls is its log, in order. The plaintexts of a session are a datatype: the texts
  \<open>sendSecure\<close> carries are told apart by the fixed words and by the validated parsers. The
  status lines of \<open>report\<close> are not modelled.

  Noise, HKDF, the key wrapping and the cipher run outside and are arguments, as in the theories
  this one builds on.
\<close>

subsection \<open>Messages\<close>

record wire_slot =
  ws_saltB64 :: string
  ws_slotIdB64 :: string
  ws_verifierB64 :: string
  ws_wrapIvB64 :: string
  ws_wrappedVekB64 :: string

record password_check =
  ck_saltB64 :: string
  ck_slotIdB64 :: string
  ck_verifierB64 :: string

record 'v enrollment_bundle =
  eb_vek :: string
  eb_roster :: roster
  eb_entries :: "'v entries_payload"
  eb_primaryPasswordCheck :: "password_check option"
  eb_recoverySlots :: "wire_slot list option"

datatype 'v plain =
    Hello roster_entry
  | Bundle "'v enrollment_bundle"
  | EnrollRejected
  | Receipt
  | OtherText string

datatype failure = NoResponse | BadIntroduction | NotCompleted | NotConfirmed | WrongPassword

datatype 'v effect =
    Sent nat "'v plain"
  | AskApproval nat pairing_sas string
  | ShowSas nat pairing_sas
  | OnEnrolled roster_entry
  | OnEnrollFailed failure
  | OnEnrollAttemptFailed
  | OnInviteExpired
  | OnJoined nat string roster
  | OnJoinError failure
  | PeerClosed nat

text \<open>A truthy optional string.\<close>

definition given :: "string option \<Rightarrow> bool" where
  "given s \<longleftrightarrow> s \<noteq> None \<and> s \<noteq> Some []"

subsection \<open>The inviter\<close>

record 'v inviter_opts =
  io_psk :: string
  io_devicePub :: "string option"
  io_vek :: "string option"
  io_roster :: "roster option"
  io_entries :: "'v entries_payload option"
  io_passwordCheck :: "password_check option"
  io_recoverySlots :: "wire_slot list option"
  io_hasApprove :: bool

datatype inviter_phase =
    Handshaking
  | AwaitingHello string
  | AwaitingApproval string roster_entry
  | AwaitingReceipt
  | Finished

record 'v inviter =
  iv_consumed :: bool
  iv_stopped :: bool
  iv_phase :: "nat \<Rightarrow> inviter_phase option"
  iv_log :: "'v effect list"

definition start_inviter :: "'v inviter" where
  "start_inviter = \<lparr>iv_consumed = False, iv_stopped = False, iv_phase = (\<lambda>_. None), iv_log = []\<rparr>"

datatype 'v inviter_event =
    PeerOpened nat
  | HandshakeSettled nat "string option"
  | HelloSettled nat "'v plain option"
  | ApprovalSettled nat "bool option"
  | ReceiptSettled nat
  | InviteTimer
  | HostStop

definition set_phase :: "nat \<Rightarrow> inviter_phase \<Rightarrow> 'v inviter \<Rightarrow> 'v inviter" where
  "set_phase p ph s = s\<lparr>iv_phase := (iv_phase s)(p := Some ph)\<rparr>"

definition emit :: "'v effect list \<Rightarrow> 'v inviter \<Rightarrow> 'v inviter" where
  "emit fx s = s\<lparr>iv_log := iv_log s @ fx\<rparr>"

definition stop_session :: "'v inviter \<Rightarrow> 'v inviter" where
  "stop_session s = s\<lparr>iv_stopped := True\<rparr>"

text \<open>The handler of the claimed peer ends, by return or throw: the \<open>finally\<close> stops the session.\<close>

definition end_claim :: "nat \<Rightarrow> 'v inviter \<Rightarrow> 'v inviter" where
  "end_claim p s = stop_session (set_phase p Finished s)"

text \<open>\<open>sendBundle\<close>: refused without an explicit key.\<close>

definition sendBundle :: "'v inviter_opts \<Rightarrow> 'v enrollment_bundle option" where
  "sendBundle opts =
     (case io_vek opts of
        None \<Rightarrow> None
      | Some vek \<Rightarrow>
          if vek = [] then None
          else Some \<lparr>eb_vek = vek,
                 eb_roster = (case io_roster opts of None \<Rightarrow> emptyRoster | Some r \<Rightarrow> r),
                 eb_entries = (case io_entries opts of None \<Rightarrow> emptyEntriesPayload | Some e \<Rightarrow> e),
                 eb_primaryPasswordCheck = io_passwordCheck opts,
                 eb_recoverySlots = io_recoverySlots opts\<rparr>)"

text \<open>After the handshake: the claim and the send happen without an await between them.\<close>

definition handshake_settled :: "'v inviter_opts \<Rightarrow> nat \<Rightarrow> string option \<Rightarrow> 'v inviter \<Rightarrow> 'v inviter" where
  "handshake_settled opts p r s =
     (case r of
        None \<Rightarrow> emit [OnEnrollAttemptFailed, PeerClosed p] (set_phase p Finished s)
      | Some remoteStatic \<Rightarrow>
          if iv_consumed s then emit [PeerClosed p] (set_phase p Finished s)
          else if \<not> given (io_devicePub opts) \<or> \<not> io_hasApprove opts
          then end_claim p (s\<lparr>iv_consumed := True\<rparr>)
          else set_phase p (AwaitingHello remoteStatic) (s\<lparr>iv_consumed := True\<rparr>))"

definition recvJoinerHello :: "string \<Rightarrow> 'v plain option \<Rightarrow> failure + roster_entry" where
  "recvJoinerHello remoteStatic m =
     (case m of
        None \<Rightarrow> Inl NoResponse
      | Some (Hello e) \<Rightarrow> if re_publicKey e = remoteStatic then Inr e else Inl BadIntroduction
      | Some _ \<Rightarrow> Inl BadIntroduction)"

definition hello_settled ::
  "(bytes \<Rightarrow> string \<Rightarrow> bytes) \<Rightarrow> 'v inviter_opts \<Rightarrow> nat \<Rightarrow> string \<Rightarrow> 'v plain option \<Rightarrow> 'v inviter \<Rightarrow> 'v inviter" where
  "hello_settled hkdf opts p remoteStatic m s =
     (case recvJoinerHello remoteStatic m of
        Inl f \<Rightarrow> end_claim p (emit [OnEnrollFailed f] s)
      | Inr e \<Rightarrow>
          (case pairingSas hkdf (io_psk opts) (the (io_devicePub opts)) remoteStatic of
             None \<Rightarrow> end_claim p s
           | Some sas \<Rightarrow>
               set_phase p (AwaitingApproval remoteStatic e) (emit [AskApproval p sas (re_label e)] s)))"

definition approval_settled ::
  "'v inviter_opts \<Rightarrow> nat \<Rightarrow> roster_entry \<Rightarrow> bool option \<Rightarrow> 'v inviter \<Rightarrow> 'v inviter" where
  "approval_settled opts p e answer s =
     (case answer of
        None \<Rightarrow> end_claim p s
      | Some False \<Rightarrow> set_phase p AwaitingReceipt (emit [Sent p EnrollRejected] s)
      | Some True \<Rightarrow>
          (case sendBundle opts of
             None \<Rightarrow> end_claim p s
           | Some b \<Rightarrow> set_phase p AwaitingReceipt (emit [Sent p (Bundle b), OnEnrolled e] s)))"

fun inviter_step ::
  "(bytes \<Rightarrow> string \<Rightarrow> bytes) \<Rightarrow> 'v inviter_opts \<Rightarrow> 'v inviter_event \<Rightarrow> 'v inviter \<Rightarrow> 'v inviter" where
  "inviter_step hkdf opts (PeerOpened p) s = (if iv_phase s p = None then set_phase p Handshaking s else s)"
| "inviter_step hkdf opts (HandshakeSettled p r) s =
     (if iv_phase s p = Some Handshaking then handshake_settled opts p r s else s)"
| "inviter_step hkdf opts (HelloSettled p m) s =
     (case iv_phase s p of Some (AwaitingHello rs) \<Rightarrow> hello_settled hkdf opts p rs m s | _ \<Rightarrow> s)"
| "inviter_step hkdf opts (ApprovalSettled p a) s =
     (case iv_phase s p of Some (AwaitingApproval rs e) \<Rightarrow> approval_settled opts p e a s | _ \<Rightarrow> s)"
| "inviter_step hkdf opts (ReceiptSettled p) s =
     (if iv_phase s p = Some AwaitingReceipt then end_claim p s else s)"
| "inviter_step hkdf opts InviteTimer s =
     (if iv_stopped s then s else stop_session (emit [OnInviteExpired] s))"
| "inviter_step hkdf opts HostStop s = stop_session s"

definition inviter_run ::
  "(bytes \<Rightarrow> string \<Rightarrow> bytes) \<Rightarrow> 'v inviter_opts \<Rightarrow> 'v inviter_event list \<Rightarrow> 'v inviter \<Rightarrow> 'v inviter" where
  "inviter_run hkdf opts es s = fold (inviter_step hkdf opts) es s"

subsection \<open>The joiner\<close>

record joiner_opts =
  jo_psk :: string
  jo_inviterPub :: "string option"
  jo_password :: "string option"
  jo_ownEntry :: "roster_entry option"

text \<open>
  What the joiner's crypto does: check a password against slot fields, load a key from its
  base64, wrap the loaded key under a password, seal. The salt, the slot id and the number of
  the sealing call are the fresh values of one rebuild.
\<close>

record ('k, 'v) joiner_crypto =
  jc_verify :: "string \<Rightarrow> string \<Rightarrow> string \<Rightarrow> string \<Rightarrow> bytes \<Rightarrow> bool"
  jc_load :: "string \<Rightarrow> 'k option"
  jc_wrap :: "'k \<Rightarrow> string \<Rightarrow> string \<Rightarrow> string \<Rightarrow> bytes \<Rightarrow> wrap_out"
  jc_aead :: "'k aead"
  jc_codec :: "'v payload_codec"
  jc_saltB64 :: string
  jc_slotIdB64 :: string
  jc_call :: nat

datatype joiner_phase = JHandshaking | JAwaitingBundle string | JFinished

record 'v joiner =
  jn_phase :: "nat \<Rightarrow> joiner_phase option"
  jn_log :: "'v effect list"

definition start_joiner :: "'v joiner" where
  "start_joiner = \<lparr>jn_phase = (\<lambda>_. None), jn_log = []\<rparr>"

datatype 'v joiner_event =
    JPeerOpened nat
  | JHandshakeSettled nat "string option"
  | BundleSettled nat "'v plain option"

definition joiner_to :: "nat \<Rightarrow> joiner_phase \<Rightarrow> 'v effect list \<Rightarrow> 'v joiner \<Rightarrow> 'v joiner" where
  "joiner_to p ph fx s = s\<lparr>jn_phase := (jn_phase s)(p := Some ph), jn_log := jn_log s @ fx\<rparr>"

definition recovery_slot :: "wire_slot \<Rightarrow> slot option" where
  "recovery_slot w =
     (case (base64ToBytes (ws_slotIdB64 w), base64ToBytes (ws_saltB64 w), base64ToBytes (ws_verifierB64 w),
            base64ToBytes (ws_wrapIvB64 w), base64ToBytes (ws_wrappedVekB64 w)) of
        (Some i, Some s, Some v, Some wi, Some wv) \<Rightarrow>
          Some (RecoverySlot \<lparr>slotId = i, salt = s, verifier = v, wrapIv = wi, wrappedVek = wv\<rparr>)
      | _ \<Rightarrow> None)"

text \<open>The rebuilt vault: \<open>None\<close> is a throw.\<close>

definition rebuild_vault :: "('k, 'v) joiner_crypto \<Rightarrow> string \<Rightarrow> 'v enrollment_bundle \<Rightarrow> bytes option" where
  "rebuild_vault J password b =
     (case jc_load J (eb_vek b) of
        None \<Rightarrow> None
      | Some k \<Rightarrow>
          (case (wrapPasswordSlot (jc_wrap J k) (jc_saltB64 J) (jc_slotIdB64 J) password,
                 all_some (map recovery_slot (case eb_recoverySlots b of None \<Rightarrow> [] | Some ws \<Rightarrow> ws))) of
             (Some sl, Some rs) \<Rightarrow>
               (case buildVaultBytes (jc_aead J) (jc_codec J) (Some k) (jc_call J) (sl # rs) (eb_entries b) of
                  Inl _ \<Rightarrow> None
                | Inr bs \<Rightarrow> Some bs)
           | _ \<Rightarrow> None))"

definition password_matches :: "('k, 'v) joiner_crypto \<Rightarrow> string \<Rightarrow> 'v enrollment_bundle \<Rightarrow> bool" where
  "password_matches J password b \<longleftrightarrow>
     (case eb_primaryPasswordCheck b of
        None \<Rightarrow> True
      | Some c \<Rightarrow> jc_verify J password (ck_saltB64 c) (ck_slotIdB64 c) (ck_verifierB64 c) verifierPrefix)"

text \<open>What \<open>receiveBundle\<close> does with the first message, with the \<open>catch\<close> of its caller.\<close>

definition receiveBundle ::
  "('k, 'v) joiner_crypto \<Rightarrow> joiner_opts \<Rightarrow> nat \<Rightarrow> 'v plain option \<Rightarrow> 'v effect list" where
  "receiveBundle J opts p m =
     (let password = (case jo_password opts of None \<Rightarrow> [] | Some pw \<Rightarrow> pw)
      in case m of
           Some EnrollRejected \<Rightarrow> [Sent p Receipt, PeerClosed p, OnJoinError NotConfirmed]
         | Some (Bundle b) \<Rightarrow>
             if eb_vek b = [] then [PeerClosed p, OnJoinError NotCompleted]
             else if \<not> password_matches J password b then [PeerClosed p, OnJoinError WrongPassword]
             else (case rebuild_vault J password b of
                     None \<Rightarrow> [PeerClosed p, OnJoinError NotCompleted]
                   | Some bs \<Rightarrow> [Sent p Receipt, OnJoined p (bytesToBase64 bs) (eb_roster b)])
         | _ \<Rightarrow> [PeerClosed p, OnJoinError NotCompleted])"

definition joiner_handshake ::
  "(bytes \<Rightarrow> string \<Rightarrow> bytes) \<Rightarrow> joiner_opts \<Rightarrow> nat \<Rightarrow> string option \<Rightarrow> 'v joiner \<Rightarrow> 'v joiner" where
  "joiner_handshake hkdf opts p r s =
     (case r of
        None \<Rightarrow> joiner_to p JFinished [PeerClosed p] s
      | Some remoteStatic \<Rightarrow>
          if \<not> given (jo_inviterPub opts) then joiner_to p JFinished [] s
          else if jo_inviterPub opts \<noteq> Some remoteStatic then joiner_to p JFinished [PeerClosed p] s
          else (case jo_ownEntry opts of
                  None \<Rightarrow> joiner_to p JFinished [] s
                | Some e \<Rightarrow>
                    (case pairingSas hkdf (jo_psk opts) (re_publicKey e) remoteStatic of
                       None \<Rightarrow> joiner_to p JFinished [Sent p (Hello e), PeerClosed p, OnJoinError NotCompleted] s
                     | Some sas \<Rightarrow> joiner_to p (JAwaitingBundle remoteStatic) [Sent p (Hello e), ShowSas p sas] s)))"

fun joiner_step ::
  "(bytes \<Rightarrow> string \<Rightarrow> bytes) \<Rightarrow> ('k, 'v) joiner_crypto \<Rightarrow> joiner_opts \<Rightarrow> 'v joiner_event \<Rightarrow> 'v joiner \<Rightarrow> 'v joiner" where
  "joiner_step hkdf J opts (JPeerOpened p) s =
     (if jn_phase s p = None then joiner_to p JHandshaking [] s else s)"
| "joiner_step hkdf J opts (JHandshakeSettled p r) s =
     (if jn_phase s p = Some JHandshaking then joiner_handshake hkdf opts p r s else s)"
| "joiner_step hkdf J opts (BundleSettled p m) s =
     (case jn_phase s p of
        Some (JAwaitingBundle rs) \<Rightarrow> joiner_to p JFinished (receiveBundle J opts p m) s
      | _ \<Rightarrow> s)"

definition joiner_run ::
  "(bytes \<Rightarrow> string \<Rightarrow> bytes) \<Rightarrow> ('k, 'v) joiner_crypto \<Rightarrow> joiner_opts \<Rightarrow> 'v joiner_event list \<Rightarrow> 'v joiner \<Rightarrow> 'v joiner" where
  "joiner_run hkdf J opts es s = fold (joiner_step hkdf J opts) es s"

subsection \<open>One invite serves one device\<close>

fun is_ask :: "'v effect \<Rightarrow> bool" where
  "is_ask (AskApproval _ _ _) = True"
| "is_ask _ = False"

fun is_bundle :: "'v effect \<Rightarrow> bool" where
  "is_bundle (Sent _ (Bundle _)) = True"
| "is_bundle _ = False"

definition asks :: "'v inviter \<Rightarrow> nat" where
  "asks s = length (filter is_ask (iv_log s))"

definition bundles :: "'v inviter \<Rightarrow> nat" where
  "bundles s = length (filter is_bundle (iv_log s))"

fun awaits_hello :: "inviter_phase option \<Rightarrow> bool" where
  "awaits_hello (Some (AwaitingHello _)) = True"
| "awaits_hello _ = False"

fun unsent :: "inviter_phase option \<Rightarrow> bool" where
  "unsent (Some (AwaitingHello _)) = True"
| "unsent (Some (AwaitingApproval _ _)) = True"
| "unsent _ = False"

fun claimed :: "inviter_phase option \<Rightarrow> bool" where
  "claimed (Some AwaitingReceipt) = True"
| "claimed ph = unsent ph"

text \<open>
  Only the connection \<open>h\<close> can hold the claim, and the invite has asked and sent at most what the
  phase of \<open>h\<close> allows. A spent claim has stopped the session.
\<close>

definition claim_at :: "nat \<Rightarrow> 'v inviter \<Rightarrow> bool" where
  "claim_at h s \<longleftrightarrow>
     (\<forall>q. q \<noteq> h \<longrightarrow> \<not> claimed (iv_phase s q)) \<and>
     asks s \<le> 1 \<and> bundles s \<le> 1 \<and>
     (awaits_hello (iv_phase s h) \<longrightarrow> asks s = 0) \<and>
     (unsent (iv_phase s h) \<longrightarrow> bundles s = 0) \<and>
     (iv_consumed s \<longrightarrow> claimed (iv_phase s h) \<or> iv_stopped s) \<and>
     (\<not> iv_consumed s \<longrightarrow> \<not> claimed (iv_phase s h) \<and> asks s = 0 \<and> bundles s = 0)"

definition claim_inv :: "'v inviter \<Rightarrow> bool" where
  "claim_inv s \<longleftrightarrow> (\<exists>h. claim_at h s)"

lemma claimed_unsent: "unsent ph \<Longrightarrow> claimed ph"
  by (cases ph rule: unsent.cases) simp_all

text \<open>What each update does to the observed parts.\<close>

lemma inviter_updates [simp]:
  "iv_phase (set_phase p ph s) = (iv_phase s)(p := Some ph)" "iv_consumed (set_phase p ph s) = iv_consumed s"
  "iv_stopped (set_phase p ph s) = iv_stopped s" "iv_log (set_phase p ph s) = iv_log s"
  "iv_phase (emit fx s) = iv_phase s" "iv_consumed (emit fx s) = iv_consumed s"
  "iv_stopped (emit fx s) = iv_stopped s" "iv_log (emit fx s) = iv_log s @ fx"
  "iv_phase (stop_session s) = iv_phase s" "iv_consumed (stop_session s) = iv_consumed s"
  "iv_stopped (stop_session s)" "iv_log (stop_session s) = iv_log s"
  "iv_phase (end_claim p s) = (iv_phase s)(p := Some Finished)" "iv_consumed (end_claim p s) = iv_consumed s"
  "iv_stopped (end_claim p s)" "iv_log (end_claim p s) = iv_log s"
  by (simp_all add: set_phase_def emit_def stop_session_def end_claim_def)

lemma effect_counts [simp]:
  "asks (set_phase p ph s) = asks s" "asks (stop_session s) = asks s" "asks (end_claim p s) = asks s"
  "asks (emit fx s) = asks s + length (filter is_ask fx)" "asks (s\<lparr>iv_consumed := c\<rparr>) = asks s"
  "bundles (set_phase p ph s) = bundles s" "bundles (stop_session s) = bundles s" "bundles (end_claim p s) = bundles s"
  "bundles (emit fx s) = bundles s + length (filter is_bundle fx)" "bundles (s\<lparr>iv_consumed := c\<rparr>) = bundles s"
  by (simp_all add: asks_def bundles_def)

lemma claim_inv_start: "claim_inv start_inviter"
  by (simp add: claim_inv_def claim_at_def start_inviter_def asks_def bundles_def)

lemma claim_inv_handshake:
  assumes "claim_at h s" "iv_phase s p = Some Handshaking"
  shows "claim_inv (handshake_settled opts p r s)"
proof (cases "r = None \<or> iv_consumed s")
  case True
  then have "claim_at h (handshake_settled opts p r s)"
    using assms by (cases r; cases "p = h") (auto simp: handshake_settled_def claim_at_def)
  then show ?thesis
    by (auto simp: claim_inv_def)
next
  case False
  then have idle: "\<not> claimed (iv_phase s q)" for q
    using assms(1) by (cases "q = h") (auto simp: claim_at_def)
  have "asks s = 0" "bundles s = 0"
    using assms(1) False by (auto simp: claim_at_def)
  with idle have "claim_at p (handshake_settled opts p r s)"
    using False by (cases "given (io_devicePub opts) \<longrightarrow> \<not> io_hasApprove opts")
      (auto simp: handshake_settled_def claim_at_def)
  then show ?thesis
    by (auto simp: claim_inv_def)
qed

lemma claim_is_held: "claim_at h s \<Longrightarrow> claimed (iv_phase s p) \<Longrightarrow> p = h \<and> iv_consumed s"
  by (auto simp: claim_at_def)

lemma claim_inv_hello:
  assumes "claim_at h s" "iv_phase s p = Some (AwaitingHello rs)"
  shows "claim_at h (hello_settled hkdf opts p rs m s)"
  using assms claim_is_held [OF assms(1), of p]
  by (cases "recvJoinerHello rs m"; cases "pairingSas hkdf (io_psk opts) (the (io_devicePub opts)) rs")
    (auto simp: hello_settled_def claim_at_def)

lemma claim_inv_approval:
  assumes "claim_at h s" "iv_phase s p = Some (AwaitingApproval rs e)"
  shows "claim_at h (approval_settled opts p e a s)"
  using assms claim_is_held [OF assms(1), of p]
  by (cases a; cases "the a"; cases "sendBundle opts") (auto simp: approval_settled_def claim_at_def)

lemma claim_inv_step:
  assumes "claim_inv s"
  shows "claim_inv (inviter_step hkdf opts x s)"
proof -
  obtain h where h: "claim_at h s"
    using assms by (auto simp: claim_inv_def)
  show ?thesis
  proof (cases "\<exists>p r. x = HandshakeSettled p r")
    case True
    then show ?thesis
      using claim_inv_handshake [OF h] assms by auto
  next
    case False
    then have "claim_at h (inviter_step hkdf opts x s)"
    proof (cases x)
      case (PeerOpened p)
      then show ?thesis
        using h by (cases "p = h") (auto simp: claim_at_def)
    next
      case (HelloSettled p m)
      then show ?thesis
        using h claim_inv_hello [OF h] by (auto split: option.split inviter_phase.split)
    next
      case (ApprovalSettled p a)
      then show ?thesis
        using h claim_inv_approval [OF h] by (auto split: option.split inviter_phase.split)
    next
      case (ReceiptSettled p)
      then show ?thesis
        using h claim_is_held [OF h, of p] by (auto simp: claim_at_def)
    qed (use h in \<open>auto simp: claim_at_def\<close>)
    then show ?thesis
      by (auto simp: claim_inv_def)
  qed
qed

interpretation invite: guarded_machine
  "\<lambda>x s. Inr (inviter_step hkdf opts x s) :: unit + 'v inviter" claim_inv for hkdf and opts :: "'v inviter_opts"
  by unfold_locales (auto intro: claim_inv_step)

lemma inviter_run_is_run: "inviter_run hkdf opts es s = invite.run hkdf opts es s"
  by (induction es arbitrary: s) (simp_all add: inviter_run_def)

lemma claim_inv_run: "claim_inv (inviter_run hkdf opts es start_inviter)"
  unfolding inviter_run_is_run by (rule invite.run_inv) (rule claim_inv_start)

subsection \<open>What happened before the bundle left\<close>

lemma subseq_later: "subseq xs ys \<Longrightarrow> subseq xs (ys @ zs)"
  using list_emb_append_mono [of "(=)" xs ys "[]" zs] by simp

lemma subseq_now: "subseq xs ys \<Longrightarrow> subseq (xs @ zs) (ys @ zs)"
  by (rule list_emb_append_mono) simp_all

text \<open>The connection proved the key of the entry it sent.\<close>

definition introduced :: "'v inviter_event list \<Rightarrow> nat \<Rightarrow> roster_entry \<Rightarrow> bool" where
  "introduced es p e \<longleftrightarrow>
     subseq [HandshakeSettled p (Some (re_publicKey e)), HelloSettled p (Some (Hello e))] es"

text \<open>The user was shown the string of exactly these two keys, and said yes.\<close>

definition bundle_approved ::
  "(bytes \<Rightarrow> string \<Rightarrow> bytes) \<Rightarrow> 'v inviter_opts \<Rightarrow> 'v inviter_event list \<Rightarrow> 'v effect list \<Rightarrow>
   nat \<Rightarrow> 'v enrollment_bundle \<Rightarrow> roster_entry \<Rightarrow> bool" where
  "bundle_approved hkdf opts es fx p b e \<longleftrightarrow>
     subseq [HandshakeSettled p (Some (re_publicKey e)), HelloSettled p (Some (Hello e)),
             ApprovalSettled p (Some True)] es \<and>
     sendBundle opts = Some b \<and>
     (\<exists>sas. pairingSas hkdf (io_psk opts) (the (io_devicePub opts)) (re_publicKey e) = Some sas \<and>
        subseq [AskApproval p sas (re_label e), Sent p (Bundle b), OnEnrolled e] fx)"

lemma bundle_approved_later:
  "bundle_approved hkdf opts es fx p b e \<Longrightarrow> bundle_approved hkdf opts (es @ es') (fx @ fx') p b e"
  unfolding bundle_approved_def by (auto intro: subseq_later)

definition trace_ok ::
  "(bytes \<Rightarrow> string \<Rightarrow> bytes) \<Rightarrow> 'v inviter_opts \<Rightarrow> 'v inviter_event list \<Rightarrow> 'v inviter \<Rightarrow> bool" where
  "trace_ok hkdf opts es s \<longleftrightarrow>
     (\<forall>p rs. iv_phase s p = Some (AwaitingHello rs) \<longrightarrow> HandshakeSettled p (Some rs) \<in> set es) \<and>
     (\<forall>p rs e. iv_phase s p = Some (AwaitingApproval rs e) \<longrightarrow> introduced es p e \<and>
        (\<exists>sas. pairingSas hkdf (io_psk opts) (the (io_devicePub opts)) (re_publicKey e) = Some sas \<and>
           AskApproval p sas (re_label e) \<in> set (iv_log s))) \<and>
     (\<forall>p b. Sent p (Bundle b) \<in> set (iv_log s) \<longrightarrow> (\<exists>e. bundle_approved hkdf opts es (iv_log s) p b e)) \<and>
     (\<forall>e. OnEnrolled e \<in> set (iv_log s) \<longrightarrow> (\<exists>p b. bundle_approved hkdf opts es (iv_log s) p b e))"

text \<open>A step that sends no bundle keeps the trace when its new phases are accounted for.\<close>

lemma trace_ok_step:
  assumes "trace_ok hkdf opts es s" "iv_log s' = iv_log s @ fx"
    and "\<And>p rs. iv_phase s' p = Some (AwaitingHello rs) \<Longrightarrow>
      iv_phase s p = Some (AwaitingHello rs) \<or> x = HandshakeSettled p (Some rs)"
    and "\<And>p rs e. iv_phase s' p = Some (AwaitingApproval rs e) \<Longrightarrow>
      iv_phase s p = Some (AwaitingApproval rs e) \<or>
      introduced (es @ [x]) p e \<and>
      (\<exists>sas. pairingSas hkdf (io_psk opts) (the (io_devicePub opts)) (re_publicKey e) = Some sas \<and>
         AskApproval p sas (re_label e) \<in> set fx)"
    and "\<And>p b. Sent p (Bundle b) \<in> set fx \<Longrightarrow> \<exists>e. bundle_approved hkdf opts (es @ [x]) (iv_log s @ fx) p b e"
    and "\<And>e. OnEnrolled e \<in> set fx \<Longrightarrow> \<exists>p b. bundle_approved hkdf opts (es @ [x]) (iv_log s @ fx) p b e"
  shows "trace_ok hkdf opts (es @ [x]) s'"
  unfolding trace_ok_def
proof (intro conjI allI impI)
  fix p rs
  assume "iv_phase s' p = Some (AwaitingHello rs)"
  then show "HandshakeSettled p (Some rs) \<in> set (es @ [x])"
    using assms(1) assms(3) [of p rs] by (auto simp: trace_ok_def)
next
  fix p rs e
  assume h: "iv_phase s' p = Some (AwaitingApproval rs e)"
  have "introduced es p e \<Longrightarrow> introduced (es @ [x]) p e"
    by (simp add: introduced_def subseq_later)
  then show "introduced (es @ [x]) p e"
    using assms(1) assms(4) [OF h] by (auto simp: trace_ok_def)
  show "\<exists>sas. pairingSas hkdf (io_psk opts) (the (io_devicePub opts)) (re_publicKey e) = Some sas \<and>
      AskApproval p sas (re_label e) \<in> set (iv_log s')"
    using assms(1) assms(4) [OF h] unfolding trace_ok_def assms(2) set_append by blast
next
  fix p b
  assume "Sent p (Bundle b) \<in> set (iv_log s')"
  then show "\<exists>e. bundle_approved hkdf opts (es @ [x]) (iv_log s') p b e"
    using assms(1) assms(5) [of p b] bundle_approved_later unfolding assms(2) trace_ok_def by fastforce
next
  fix e
  assume "OnEnrolled e \<in> set (iv_log s')"
  then show "\<exists>p b. bundle_approved hkdf opts (es @ [x]) (iv_log s') p b e"
    using assms(1) assms(6) [of e] bundle_approved_later unfolding assms(2) trace_ok_def by fastforce
qed

lemma trace_ok_hello:
  assumes "trace_ok hkdf opts es s" "iv_phase s p = Some (AwaitingHello rs)"
  shows "trace_ok hkdf opts (es @ [HelloSettled p m]) (hello_settled hkdf opts p rs m s)"
proof (cases "recvJoinerHello rs m")
  case (Inl f)
  then show ?thesis
    by (intro trace_ok_step [OF assms(1), where fx = "[OnEnrollFailed f]"])
      (auto simp: hello_settled_def split: if_splits)
next
  case (Inr e)
  then have m: "m = Some (Hello e)" "re_publicKey e = rs"
    by (auto simp: recvJoinerHello_def split: option.splits plain.splits if_splits)
  have "subseq [HandshakeSettled p (Some rs)] es"
    using assms by (auto simp: trace_ok_def subseq_singleton_left)
  then have intro: "introduced (es @ [HelloSettled p m]) p e"
    using subseq_now [of "[HandshakeSettled p (Some rs)]" es "[HelloSettled p m]"] m by (simp add: introduced_def)
  show ?thesis
  proof (cases "pairingSas hkdf (io_psk opts) (the (io_devicePub opts)) rs")
    case None
    with Inr show ?thesis
      by (intro trace_ok_step [OF assms(1), where fx = "[]"]) (auto simp: hello_settled_def split: if_splits)
  next
    case (Some sas)
    with Inr show ?thesis
      using intro m(2) by (intro trace_ok_step [OF assms(1), where fx = "[AskApproval p sas (re_label e)]"])
        (auto simp: hello_settled_def split: if_splits)
  qed
qed

lemma trace_ok_approval:
  assumes "trace_ok hkdf opts es s" "iv_phase s p = Some (AwaitingApproval rs e)"
  shows "trace_ok hkdf opts (es @ [ApprovalSettled p a]) (approval_settled opts p e a s)"
proof (cases "a = Some True \<and> sendBundle opts \<noteq> None")
  case False
  then have "iv_log (approval_settled opts p e a s) = iv_log s @ (if a = Some False then [Sent p EnrollRejected] else [])"
    "\<exists>ph. \<not> unsent (Some ph) \<and> iv_phase (approval_settled opts p e a s) = (iv_phase s)(p := Some ph)"
    by (auto simp: approval_settled_def split: option.split bool.split intro: exI [of _ Finished] exI [of _ AwaitingReceipt])
  then show ?thesis
    by (intro trace_ok_step [OF assms(1), where fx = "if a = Some False then [Sent p EnrollRejected] else []"])
      (auto split: if_splits)
next
  case True
  then obtain b where b: "a = Some True" "sendBundle opts = Some b"
    by auto
  obtain sas where i: "introduced es p e" and sas: "pairingSas hkdf (io_psk opts) (the (io_devicePub opts)) (re_publicKey e) = Some sas"
    "AskApproval p sas (re_label e) \<in> set (iv_log s)"
    using assms unfolding trace_ok_def by blast
  have "subseq [HandshakeSettled p (Some (re_publicKey e)), HelloSettled p (Some (Hello e)), ApprovalSettled p a] (es @ [ApprovalSettled p a])"
    using i subseq_now [of "[HandshakeSettled p (Some (re_publicKey e)), HelloSettled p (Some (Hello e))]" es "[ApprovalSettled p a]"]
    by (simp add: introduced_def)
  moreover have "subseq [AskApproval p sas (re_label e), Sent p (Bundle b), OnEnrolled e] (iv_log s @ [Sent p (Bundle b), OnEnrolled e])"
    using sas(2) subseq_now [of "[AskApproval p sas (re_label e)]" "iv_log s" "[Sent p (Bundle b), OnEnrolled e]"]
    by (simp add: subseq_singleton_left)
  ultimately have ok: "bundle_approved hkdf opts (es @ [ApprovalSettled p a]) (iv_log s @ [Sent p (Bundle b), OnEnrolled e]) p b e"
    using b sas(1) by (auto simp: bundle_approved_def)
  then show ?thesis
    using b by (intro trace_ok_step [OF assms(1), where fx = "[Sent p (Bundle b), OnEnrolled e]"])
      (auto simp: approval_settled_def split: if_splits)
qed

lemma trace_ok_quiet:
  assumes "trace_ok hkdf opts es s" "iv_log s' = iv_log s @ fx"
    and "\<forall>f \<in> set fx. \<not> is_bundle f \<and> (\<forall>e. f \<noteq> OnEnrolled e)"
    and "\<And>q. iv_phase s' q = iv_phase s q \<or> \<not> unsent (iv_phase s' q)"
  shows "trace_ok hkdf opts (es @ [x]) s'"
proof (rule trace_ok_step [OF assms(1,2)])
  fix p rs
  assume "iv_phase s' p = Some (AwaitingHello rs)"
  with assms(4) [of p] show "iv_phase s p = Some (AwaitingHello rs) \<or> x = HandshakeSettled p (Some rs)"
    by auto
next
  fix p rs e
  assume "iv_phase s' p = Some (AwaitingApproval rs e)"
  with assms(4) [of p] show "iv_phase s p = Some (AwaitingApproval rs e) \<or>
      introduced (es @ [x]) p e \<and>
      (\<exists>sas. pairingSas hkdf (io_psk opts) (the (io_devicePub opts)) (re_publicKey e) = Some sas \<and>
         AskApproval p sas (re_label e) \<in> set fx)"
    by auto
qed (use assms(3) in force)+

lemma trace_ok_step_event:
  assumes "trace_ok hkdf opts es s"
  shows "trace_ok hkdf opts (es @ [x]) (inviter_step hkdf opts x s)"
proof -
  note same = trace_ok_quiet [OF assms]
  show ?thesis
  proof (cases x)
    case (PeerOpened p)
    then show ?thesis
      using same [of "inviter_step hkdf opts x s" "[]"] by auto
  next
    case (HandshakeSettled p r)
    show ?thesis
    proof (cases "iv_phase s p = Some Handshaking \<and> r \<noteq> None \<and> \<not> iv_consumed s")
      case True
      with HandshakeSettled show ?thesis
        by (intro trace_ok_step [OF assms, where fx = "[]"])
          (auto simp: handshake_settled_def split: if_splits)
    next
      case False
      then show ?thesis
        using HandshakeSettled same [of "inviter_step hkdf opts x s" "[]"]
          same [of "inviter_step hkdf opts x s" "[PeerClosed p]"]
          same [of "inviter_step hkdf opts x s" "[OnEnrollAttemptFailed, PeerClosed p]"]
        by (cases r) (auto simp: handshake_settled_def split: if_splits)
    qed
  next
    case (HelloSettled p m)
    then show ?thesis
      using trace_ok_hello [OF assms, of p] same [of s "[]"] by (auto split: option.split inviter_phase.split)
  next
    case (ApprovalSettled p a)
    then show ?thesis
      using trace_ok_approval [OF assms, of p] same [of s "[]"] by (auto split: option.split inviter_phase.split)
  next
    case (ReceiptSettled p)
    then show ?thesis
      using same [of "inviter_step hkdf opts x s" "[]"] by auto
  next
    case InviteTimer
    then show ?thesis
      using same [of s "[]"] same [of "inviter_step hkdf opts x s" "[OnInviteExpired]"] by auto
  next
    case HostStop
    then show ?thesis
      using same [of "inviter_step hkdf opts x s" "[]"] by auto
  qed
qed

lemma trace_ok_run: "trace_ok hkdf opts es (inviter_run hkdf opts es start_inviter)"
proof (induction es rule: rev_induct)
  case Nil
  show ?case by (simp add: trace_ok_def inviter_run_def start_inviter_def)
next
  case (snoc x es)
  then show ?case
    using trace_ok_step_event by (simp add: inviter_run_def)
qed

lemma stopped_stays: "iv_stopped s \<Longrightarrow> iv_stopped (inviter_step hkdf opts x s)"
  by (cases x) (auto simp: handshake_settled_def hello_settled_def approval_settled_def
      split: option.split inviter_phase.split sum.split bool.split)

subsection \<open>The joiner\<close>

definition joiner_trace ::
  "(bytes \<Rightarrow> string \<Rightarrow> bytes) \<Rightarrow> ('k, 'v) joiner_crypto \<Rightarrow> joiner_opts \<Rightarrow> 'v joiner_event list \<Rightarrow> 'v joiner \<Rightarrow> bool" where
  "joiner_trace hkdf J opts es s \<longleftrightarrow>
     (\<forall>p rs. jn_phase s p = Some (JAwaitingBundle rs) \<longrightarrow>
        jo_inviterPub opts = Some rs \<and> JHandshakeSettled p (Some rs) \<in> set es) \<and>
     (\<forall>p e. Sent p (Hello e) \<in> set (jn_log s) \<longrightarrow>
        jo_inviterPub opts \<noteq> None \<and> jo_ownEntry opts = Some e \<and> JHandshakeSettled p (jo_inviterPub opts) \<in> set es) \<and>
     (\<forall>p blob r. OnJoined p blob r \<in> set (jn_log s) \<longrightarrow>
        (\<exists>b bs. jo_inviterPub opts \<noteq> None \<and> subseq [JHandshakeSettled p (jo_inviterPub opts), BundleSettled p (Some (Bundle b))] es \<and>
           password_matches J (case jo_password opts of None \<Rightarrow> [] | Some pw \<Rightarrow> pw) b \<and>
           rebuild_vault J (case jo_password opts of None \<Rightarrow> [] | Some pw \<Rightarrow> pw) b = Some bs \<and>
           blob = bytesToBase64 bs \<and> r = eb_roster b))"

lemma joiner_trace_later:
  assumes "joiner_trace hkdf J opts es s"
  shows "joiner_trace hkdf J opts (es @ [x]) s"
  using assms unfolding joiner_trace_def by (fastforce intro: subseq_later)

lemma joiner_to_sel [simp]:
  "jn_phase (joiner_to p ph fx s) = (jn_phase s)(p := Some ph)" "jn_log (joiner_to p ph fx s) = jn_log s @ fx"
  by (simp_all add: joiner_to_def)

text \<open>A step that ends a wait without a hello or a vault.\<close>

lemma joiner_trace_quiet:
  assumes "joiner_trace hkdf J opts es s" "\<forall>f \<in> set fx. (\<forall>q e. f \<noteq> Sent q (Hello e)) \<and> (\<forall>q b r. f \<noteq> OnJoined q b r)"
    "\<forall>rs. ph \<noteq> JAwaitingBundle rs"
  shows "joiner_trace hkdf J opts (es @ [x]) (joiner_to p ph fx s)"
  using joiner_trace_later [OF assms(1), of x] assms(2,3) unfolding joiner_trace_def by force

lemma joiner_trace_handshake:
  assumes "joiner_trace hkdf J opts es s"
  shows "joiner_trace hkdf J opts (es @ [JHandshakeSettled p r]) (joiner_handshake hkdf opts p r s)"
proof (cases "r \<noteq> None \<and> given (jo_inviterPub opts) \<and> jo_inviterPub opts = r \<and> jo_ownEntry opts \<noteq> None")
  case False
  then show ?thesis
    using joiner_trace_quiet [OF assms] by (auto simp: joiner_handshake_def split: option.split)
next
  case True
  then obtain rs e where r: "r = Some rs" "jo_inviterPub opts = Some rs" "jo_ownEntry opts = Some e" "given (jo_inviterPub opts)"
    by auto
  show ?thesis
    using joiner_trace_later [OF assms, of "JHandshakeSettled p r"] r
    by (auto simp: joiner_handshake_def joiner_trace_def split: option.split)
qed

lemma joiner_trace_bundle:
  assumes "joiner_trace hkdf J opts es s" "jn_phase s p = Some (JAwaitingBundle rs)"
  shows "joiner_trace hkdf J opts (es @ [BundleSettled p m]) (joiner_to p JFinished (receiveBundle J opts p m) s)"
proof (cases "\<exists>q blob r. OnJoined q blob r \<in> set (receiveBundle J opts p m)")
  case False
  moreover have "Sent q (Hello e) \<notin> set (receiveBundle J opts p m)" for q e
    by (auto simp: receiveBundle_def Let_def split: option.split plain.split)
  ultimately show ?thesis
    using joiner_trace_quiet [OF assms(1), of "receiveBundle J opts p m" JFinished "BundleSettled p m" p] by fastforce
next
  case True
  define pw where "pw = (case jo_password opts of None \<Rightarrow> [] | Some w \<Rightarrow> w)"
  obtain b bs where b: "m = Some (Bundle b)" "password_matches J pw b" "rebuild_vault J pw b = Some bs"
    "receiveBundle J opts p m = [Sent p Receipt, OnJoined p (bytesToBase64 bs) (eb_roster b)]"
    using True by (auto simp: receiveBundle_def Let_def pw_def split: option.splits plain.splits if_splits)
  have rs: "jo_inviterPub opts = Some rs" "subseq [JHandshakeSettled p (Some rs)] es"
    using assms by (auto simp: joiner_trace_def subseq_singleton_left)
  then have "subseq [JHandshakeSettled p (jo_inviterPub opts), BundleSettled p (Some (Bundle b))] (es @ [BundleSettled p m])"
    using subseq_now [OF rs(2), of "[BundleSettled p m]"] b(1) by simp
  then show ?thesis
    using joiner_trace_later [OF assms(1), of "BundleSettled p m"] b rs(1) unfolding joiner_trace_def pw_def by auto
qed

lemma joiner_trace_run: "joiner_trace hkdf J opts es (joiner_run hkdf J opts es start_joiner)"
proof (induction es rule: rev_induct)
  case Nil
  show ?case by (simp add: joiner_trace_def joiner_run_def start_joiner_def)
next
  case (snoc x es)
  let ?s = "joiner_run hkdf J opts es start_joiner"
  have "joiner_trace hkdf J opts (es @ [x]) (joiner_step hkdf J opts x ?s)"
    using joiner_trace_later [OF snoc, of x] joiner_trace_quiet [OF snoc, of "[]"]
      joiner_trace_handshake [OF snoc] joiner_trace_bundle [OF snoc]
    by (cases x) (auto split: option.split joiner_phase.split)
  then show ?case
    by (simp add: joiner_run_def)
qed

text \<open>The rebuilt vault opens under the bundle's key and holds what the bundle held.\<close>

lemma all_some_in: "all_some (map f xs) = Some ys \<Longrightarrow> y \<in> set ys \<Longrightarrow> \<exists>x. f x = Some y"
proof (induction xs arbitrary: ys)
  case (Cons a xs)
  then show ?case
    by (cases "f a"; cases "all_some (map f xs)") auto
qed simp

lemma recovery_slot_kind: "recovery_slot w = Some s \<Longrightarrow> slot_kind s = SLOT_KIND_RECOVERY"
  by (auto simp: recovery_slot_def split: option.splits)

lemma recovery_slots_kind:
  "all_some (map recovery_slot ws) = Some rs \<Longrightarrow> list_all (\<lambda>s. slot_kind s = SLOT_KIND_RECOVERY) rs"
  using all_some_in [of recovery_slot ws rs] recovery_slot_kind by (fastforce simp: list_all_iff)

lemma rebuilt_vault:
  assumes "aead_ok (jc_aead J)" "codec_ok (jc_codec J)" "rebuild_vault J pw b = Some bs"
  shows "\<exists>k v f rs. jc_load J (eb_vek b) = Some k \<and> decodeVaultBlob bs = Inr v \<and> slots v = PasswordSlot f # rs \<and>
    wrapVek (jc_wrap J k) (jc_saltB64 J) (jc_slotIdB64 J) pw = Some f \<and>
    all_some (map recovery_slot (case eb_recoverySlots b of None \<Rightarrow> [] | Some ws \<Rightarrow> ws)) = Some rs \<and>
    payload_in (jc_aead J) (jc_codec J) (Some k) v = Inr (eb_entries b)"
proof -
  let ?A = "jc_aead J" and ?C = "jc_codec J"
  obtain k f rs where k: "jc_load J (eb_vek b) = Some k" "wrapVek (jc_wrap J k) (jc_saltB64 J) (jc_slotIdB64 J) pw = Some f"
    "all_some (map recovery_slot (case eb_recoverySlots b of None \<Rightarrow> [] | Some ws \<Rightarrow> ws)) = Some rs"
    "seal_into ?A ?C (Some k) (jc_call J) (PasswordSlot f # rs) (eb_entries b) = Inr bs"
    using assms(3) by (auto simp: rebuild_vault_def wrapPasswordSlot_def buildVaultBytes_def split: option.splits sum.splits)
  let ?c = "seal ?A k (jc_call J) (encodeEntriesPayload ?C (eb_entries b))"
  let ?v = "\<lparr>slots = PasswordSlot f # rs, entriesIv = fst ?c, entriesCiphertext = snd ?c\<rparr>"
  have enc: "encodeVaultBlob ?v = Inr bs"
    using k(4) by (auto simp: seal_into_eq split: sum.splits)
  have "list_all (\<lambda>s. 0 \<le> slot_kind s \<and> slot_kind s < 256) (slots ?v)"
    using recovery_slots_kind [OF k(3)] by (auto simp: list_all_iff kind_defs)
  from decode_encode_fits [OF encoded_fits [OF enc this] enc] have "decodeVaultBlob bs = Inr ?v" .
  moreover have "payload_in ?A ?C (Some k) ?v = Inr (eb_entries b)"
    using assms(1,2) by (auto simp: payload_in_def decrypt_outer_eq aead_ok_def codec_ok_def)
  ultimately show ?thesis
    using k by auto
qed

subsection \<open>A whole enrollment\<close>

definition first_sent :: "nat \<Rightarrow> 'v effect list \<Rightarrow> 'v plain option" where
  "first_sent p fx =
     (case filter (\<lambda>f. case f of Sent q _ \<Rightarrow> q = p | _ \<Rightarrow> False) fx of Sent _ m # _ \<Rightarrow> Some m | _ \<Rightarrow> None)"

text \<open>What each role does when its peer is the other role and the user confirms.\<close>

definition inviter_events :: "string \<Rightarrow> 'v plain option \<Rightarrow> 'v inviter_event list" where
  "inviter_events joinerPub hello =
     [PeerOpened 0, HandshakeSettled 0 (Some joinerPub), HelloSettled 0 hello, ApprovalSettled 0 (Some True)]"

definition joiner_events :: "string \<Rightarrow> 'v plain option \<Rightarrow> 'v joiner_event list" where
  "joiner_events inviterPub m =
     [JPeerOpened 0, JHandshakeSettled 0 (Some inviterPub), BundleSettled 0 m]"

lemma sas_both: "pairingSas hkdf psk a b = pairingSas hkdf psk b a"
  by (auto simp: pairingSas_def sas_salt_def)

lemma inviter_confirms:
  assumes "pairingSas hkdf (io_psk opts) (the (io_devicePub opts)) (re_publicKey e) = Some sas"
    and "given (io_devicePub opts)" "io_hasApprove opts" "sendBundle opts = Some b"
  shows "iv_log (inviter_run hkdf opts (inviter_events (re_publicKey e) (Some (Hello e))) start_inviter) =
    [AskApproval 0 sas (re_label e), Sent 0 (Bundle b), OnEnrolled e]"
  using assms
  by (simp add: inviter_run_def inviter_events_def start_inviter_def handshake_settled_def hello_settled_def
      recvJoinerHello_def approval_settled_def)

lemma joiner_joins:
  assumes "pairingSas hkdf (jo_psk opts) (re_publicKey e) rs = Some sas"
    and "given (jo_inviterPub opts)" "jo_inviterPub opts = Some rs" "jo_ownEntry opts = Some e"
    and "eb_vek b \<noteq> []" "password_matches J (case jo_password opts of None \<Rightarrow> [] | Some pw \<Rightarrow> pw) b"
    and "rebuild_vault J (case jo_password opts of None \<Rightarrow> [] | Some pw \<Rightarrow> pw) b = Some bs"
  shows "jn_log (joiner_run hkdf J opts (joiner_events rs (Some (Bundle b))) start_joiner) =
    [Sent 0 (Hello e), ShowSas 0 sas, Sent 0 Receipt, OnJoined 0 (bytesToBase64 bs) (eb_roster b)]"
  using assms
  by (simp add: joiner_run_def joiner_events_def start_joiner_def joiner_handshake_def receiveBundle_def)

subsection \<open>Properties\<close>

text \<open>Property C4: the vault key leaves the inviter only to a device the user confirmed. Whatever
  connections, handshakes, introductions and answers arrive, in any order, when a bundle was sent to
  a connection, that connection had completed the handshake, then introduced itself with an entry
  whose key is the one it proved, the user was shown the string of the inviter's key and exactly
  that key and then said yes; the key sent is the one captured for this invite.\<close>

theorem vault_leaves_only_after_approval:
  assumes "Sent p (Bundle b) \<in> set (iv_log (inviter_run hkdf opts es start_inviter))"
  shows "\<exists>e sas. subseq [HandshakeSettled p (Some (re_publicKey e)), HelloSettled p (Some (Hello e)),
        ApprovalSettled p (Some True)] es \<and>
      pairingSas hkdf (io_psk opts) (the (io_devicePub opts)) (re_publicKey e) = Some sas \<and>
      subseq [AskApproval p sas (re_label e), Sent p (Bundle b), OnEnrolled e]
        (iv_log (inviter_run hkdf opts es start_inviter)) \<and>
      io_vek opts = Some (eb_vek b)"
proof -
  obtain e where "bundle_approved hkdf opts es (iv_log (inviter_run hkdf opts es start_inviter)) p b e"
    using trace_ok_run [of hkdf opts es] assms unfolding trace_ok_def by blast
  then show ?thesis
    unfolding bundle_approved_def by (auto simp: sendBundle_def split: option.splits if_splits)
qed

text \<open>Property C6: an invite serves one device. However many devices race for it, the user is asked at
  most once and the vault is sent at most once.\<close>

theorem invite_serves_one_device:
  "asks (inviter_run hkdf opts es start_inviter) \<le> 1 \<and> bundles (inviter_run hkdf opts es start_inviter) \<le> 1"
  using claim_inv_run [of hkdf opts es] by (auto simp: claim_inv_def claim_at_def)

text \<open>A claimed invite always ends. In every state an inviter can reach with its invite
  claimed, there is one connection such that once its introduction, the user's answer and the receipt
  have settled, each in whatever way, the session is stopped.\<close>

lemma claimed_invite_ends:
  assumes "s = inviter_run hkdf opts es start_inviter" "iv_consumed s"
  shows "\<exists>p. \<forall>m a. iv_stopped (inviter_run hkdf opts [HelloSettled p m, ApprovalSettled p a, ReceiptSettled p] s)"
proof -
  obtain h where h: "claim_at h s"
    using claim_inv_run [of hkdf opts es] assms(1) by (auto simp: claim_inv_def)
  have "iv_stopped (inviter_run hkdf opts [HelloSettled h m, ApprovalSettled h a, ReceiptSettled h] s)" for m a
  proof (cases "iv_stopped s")
    case True
    then show ?thesis
      by (simp add: inviter_run_def stopped_stays del: inviter_step.simps)
  next
    case False
    then have "claimed (iv_phase s h)"
      using h assms(2) by (auto simp: claim_at_def)
    then consider rs where "iv_phase s h = Some (AwaitingHello rs)" | rs e where "iv_phase s h = Some (AwaitingApproval rs e)"
      | "iv_phase s h = Some AwaitingReceipt"
      by (cases "iv_phase s h" rule: claimed.cases) auto
    then show ?thesis
      by cases (auto simp: inviter_run_def hello_settled_def approval_settled_def
          split: sum.split option.split bool.split)
  qed
  then show ?thesis by blast
qed

text \<open>Property C17: a joiner trusts only the inviter its code names. Whatever connections and messages
  arrive, and whether or not it ends up with a vault, it introduces itself only on connections that proved
  the pinned key and only as itself, and it accepts a vault only as the message that followed the handshake with that key, when the typed password matched the
  one the bundle names; the vault handed to the host is the one rebuilt from that bundle.\<close>

theorem joiner_trusts_pinned_inviter:
  "(\<forall>q e. Sent q (Hello e) \<in> set (jn_log (joiner_run hkdf J opts es start_joiner)) \<longrightarrow>
      jo_inviterPub opts \<noteq> None \<and> jo_ownEntry opts = Some e \<and> JHandshakeSettled q (jo_inviterPub opts) \<in> set es) \<and>
   (\<forall>p blob r. OnJoined p blob r \<in> set (jn_log (joiner_run hkdf J opts es start_joiner)) \<longrightarrow>
      (\<exists>b bs. jo_inviterPub opts \<noteq> None \<and>
        subseq [JHandshakeSettled p (jo_inviterPub opts), BundleSettled p (Some (Bundle b))] es \<and>
        password_matches J (case jo_password opts of None \<Rightarrow> [] | Some pw \<Rightarrow> pw) b \<and>
        rebuild_vault J (case jo_password opts of None \<Rightarrow> [] | Some pw \<Rightarrow> pw) b = Some bs \<and>
        blob = bytesToBase64 bs \<and> r = eb_roster b))"
  using joiner_trace_run [of hkdf J opts es] unfolding joiner_trace_def by blast

text \<open>Property C5: a confirmed enrollment carries the vault over. When the two devices hold the same
  secret, each authenticated the other's key and the user confirms, both show the same string, the
  inviter enrolls exactly the entry the joiner introduced itself with, and the joiner's new vault file
  decodes, opens under the shared key to the inviter's entries, and holds the joiner's password slot
  followed by the inviter's recovery slots. (The inviter's key is loadable, its password check passes,
  and the rebuilt vault fits the format.)\<close>

theorem enrollment_carries_vault:
  assumes keys: "given (io_devicePub io)" "io_devicePub io = jo_inviterPub jo" "io_psk io = jo_psk jo"
    and roles: "jo_ownEntry jo = Some e" "io_hasApprove io" "sendBundle io = Some b"
    and sas: "pairingSas hkdf (io_psk io) (the (io_devicePub io)) (re_publicKey e) = Some sas"
    and crypto: "aead_ok (jc_aead J)" "codec_ok (jc_codec J)"
    and vault: "password_matches J (case jo_password jo of None \<Rightarrow> [] | Some pw \<Rightarrow> pw) b"
      "rebuild_vault J (case jo_password jo of None \<Rightarrow> [] | Some pw \<Rightarrow> pw) b = Some bs"
    and runs: "il = iv_log (inviter_run hkdf io (inviter_events (re_publicKey e) (Some (Hello e))) start_inviter)"
      "jl = jn_log (joiner_run hkdf J jo (joiner_events (the (io_devicePub io)) (first_sent 0 il)) start_joiner)"
  shows "AskApproval 0 sas (re_label e) \<in> set il \<and> ShowSas 0 sas \<in> set jl \<and> OnEnrolled e \<in> set il \<and>
    first_sent 0 jl = Some (Hello e) \<and> OnJoined 0 (bytesToBase64 bs) (eb_roster b) \<in> set jl \<and>
    (\<exists>k v f rs. jc_load J (eb_vek b) = Some k \<and> decodeVaultBlob bs = Inr v \<and> slots v = PasswordSlot f # rs \<and>
       all_some (map recovery_slot (case eb_recoverySlots b of None \<Rightarrow> [] | Some ws \<Rightarrow> ws)) = Some rs \<and>
       payload_in (jc_aead J) (jc_codec J) (Some k) v = Inr (eb_entries b))"
proof -
  have il: "il = [AskApproval 0 sas (re_label e), Sent 0 (Bundle b), OnEnrolled e]"
    using inviter_confirms [OF sas keys(1) roles(2,3)] runs(1) by simp
  have "eb_vek b \<noteq> []"
    using roles(3) by (auto simp: sendBundle_def split: option.splits if_splits)
  moreover obtain rs where rs: "jo_inviterPub jo = Some rs" "the (io_devicePub io) = rs" "given (jo_inviterPub jo)"
    using keys by (auto simp: given_def)
  moreover have "pairingSas hkdf (jo_psk jo) (re_publicKey e) rs = Some sas"
    using sas keys(3) rs(2) sas_both by metis
  moreover have "first_sent 0 il = Some (Bundle b)"
    by (simp add: il first_sent_def)
  ultimately have jl: "jl = [Sent 0 (Hello e), ShowSas 0 sas, Sent 0 Receipt, OnJoined 0 (bytesToBase64 bs) (eb_roster b)]"
    using joiner_joins [OF _ _ _ roles(1) _ vault, of hkdf rs sas] runs(2) by simp
  show ?thesis
    using rebuilt_vault [OF crypto vault(2)] by (auto simp: il jl first_sent_def)
qed

subsection \<open>Witnesses\<close>

definition sample_device :: "string \<Rightarrow> string \<Rightarrow> roster_entry" where
  "sample_device i pub = \<lparr>re_id = i, re_publicKey = pub, re_label = i, re_addedAt = 0, re_hlc = Hlc 1 0 i,
     re_sigKey = None, re_sig = None, re_admissionKey = None, re_admission = None\<rparr>"

definition sample_inviter :: "nat inviter_opts" where
  "sample_inviter = \<lparr>io_psk = bytesToBase64 [1, 2, 3], io_devicePub = Some ''ip'', io_vek = Some ''vek'',
     io_roster = None, io_entries = None, io_passwordCheck = None, io_recoverySlots = None, io_hasApprove = True\<rparr>"

definition sample_joiner :: joiner_opts where
  "sample_joiner = \<lparr>jo_psk = bytesToBase64 [1, 2, 3], jo_inviterPub = Some ''ip'', jo_password = Some ''pw'',
     jo_ownEntry = Some (sample_device ''new'' ''jp'')\<rparr>"

definition zeros64 :: "nat \<Rightarrow> string" where
  "zeros64 n = bytesToBase64 (replicate n 0)"

definition sample_crypto :: "(u8, nat) joiner_crypto" where
  "sample_crypto = \<lparr>jc_verify = (\<lambda>_ _ _ _ _. True), jc_load = (\<lambda>v. Some 5),
     jc_wrap = (\<lambda>_ _ _ _ _. \<lparr>wo_verifier = zeros64 32, wo_wrapIv = zeros64 12, wo_wrappedVek = zeros64 48\<rparr>),
     jc_aead = sample_aead, jc_codec = sample_codec, jc_saltB64 = zeros64 16, jc_slotIdB64 = zeros64 16, jc_call = 0\<rparr>"

definition sample_bundle :: "nat enrollment_bundle" where
  "sample_bundle = \<lparr>eb_vek = ''vek'', eb_roster = emptyRoster, eb_entries = emptyEntriesPayload,
     eb_primaryPasswordCheck = None, eb_recoverySlots = None\<rparr>"

definition sample_sas :: pairing_sas where
  "sample_sas = sas_of_bytes (sample_hkdf [1, 2, 3] ''ipjp'')"

lemma sample_pairing:
  "pairingSas sample_hkdf (io_psk sample_inviter) (the (io_devicePub sample_inviter)) ''jp'' = Some sample_sas"
  by (simp add: sample_inviter_def pairingSas_def base64_round_trip sas_salt_def sample_sas_def)

lemma sample_sends: "sendBundle sample_inviter = Some sample_bundle"
  by (simp add: sendBundle_def sample_inviter_def sample_bundle_def)

lemma sample_device_key [simp]: "re_publicKey (sample_device i k) = k"
  by (simp add: sample_device_def)

lemma sample_inviter_log:
  "iv_log (inviter_run sample_hkdf sample_inviter (inviter_events ''jp'' (Some (Hello (sample_device ''new'' ''jp'')))) start_inviter) =
     [AskApproval 0 sample_sas (re_label (sample_device ''new'' ''jp'')), Sent 0 (Bundle sample_bundle),
      OnEnrolled (sample_device ''new'' ''jp'')]"
  using inviter_confirms [of sample_hkdf sample_inviter "sample_device ''new'' ''jp''"] sample_pairing sample_sends
  by (simp add: sample_inviter_def given_def)

lemma sample_rebuild: "\<exists>bs. rebuild_vault sample_crypto ''pw'' sample_bundle = Some bs"
proof -
  define f :: key_fields where "f = \<lparr>slotId = replicate 16 0, salt = replicate 16 0, verifier = replicate 32 0,
    wrapIv = replicate 12 0, wrappedVek = replicate 48 0\<rparr>"
  have f: "wrapVek (jc_wrap sample_crypto 5) (jc_saltB64 sample_crypto) (jc_slotIdB64 sample_crypto) ''pw'' = Some f"
    by (simp add: wrapVek_def sample_crypto_def zeros64_def base64_round_trip f_def)
  have "blob_fits \<lparr>slots = [PasswordSlot f], entriesIv = replicate 12 0, entriesCiphertext = []\<rparr>"
    by (simp add: blob_fits_def blob_schema_def slot_fits_def key_fields_schema_def f_def len_defs MAX_SLOTS_def
        kind_defs encodePasswordPayload_def)
  from seal_into_fits [OF sample_aead_ok this, of sample_codec 5 0 emptyEntriesPayload]
  obtain bs where "seal_into sample_aead sample_codec (Some 5) 0 [PasswordSlot f] emptyEntriesPayload = Inr bs"
    by auto
  then show ?thesis
    using f by (simp add: rebuild_vault_def wrapPasswordSlot_def buildVaultBytes_def sample_crypto_def sample_bundle_def)
qed

definition sample_vault :: bytes where
  "sample_vault = the (rebuild_vault sample_crypto ''pw'' sample_bundle)"

lemma sample_vault: "rebuild_vault sample_crypto ''pw'' sample_bundle = Some sample_vault"
  using sample_rebuild by (auto simp: sample_vault_def)

lemma sample_joiner_log:
  "jn_log (joiner_run sample_hkdf sample_crypto sample_joiner (joiner_events ''ip'' (Some (Bundle sample_bundle))) start_joiner) =
     [Sent 0 (Hello (sample_device ''new'' ''jp'')), ShowSas 0 sample_sas, Sent 0 Receipt,
      OnJoined 0 (bytesToBase64 sample_vault) emptyRoster]"
  using joiner_joins [of sample_hkdf sample_joiner "sample_device ''new'' ''jp''" "''ip''" sample_sas sample_bundle sample_crypto sample_vault]
    sample_pairing sample_vault sas_both [of sample_hkdf "bytesToBase64 [1, 2, 3]" "''ip''" "''jp''"]
  by (simp add: sample_joiner_def sample_inviter_def given_def password_matches_def sample_bundle_def)

theorem vault_leaves_only_after_approval_witness:
  "\<exists>e sas. subseq [HandshakeSettled 0 (Some (re_publicKey e)), HelloSettled 0 (Some (Hello e)), ApprovalSettled 0 (Some True)]
     (inviter_events ''jp'' (Some (Hello (sample_device ''new'' ''jp''))) :: nat inviter_event list) \<and>
     io_vek sample_inviter = Some ''vek''"
  using vault_leaves_only_after_approval [of 0 sample_bundle sample_hkdf sample_inviter
      "inviter_events ''jp'' (Some (Hello (sample_device ''new'' ''jp'')))"]
  unfolding sample_inviter_log by (auto simp: sample_bundle_def)

theorem joiner_trusts_pinned_inviter_witness:
  "(\<exists>b. subseq [JHandshakeSettled 0 (Some ''ip''), BundleSettled 0 (Some (Bundle b))]
      (joiner_events ''ip'' (Some (Bundle sample_bundle))) \<and> eb_roster b = emptyRoster) \<and>
   \<not> (\<exists>e. Sent 0 (Hello e) \<in> set (jn_log (joiner_run sample_hkdf sample_crypto sample_joiner
      [JPeerOpened 0, JHandshakeSettled 0 (Some ''other''), JPeerOpened 1, JHandshakeSettled 1 (Some ''ip'')] start_joiner)))"
proof
  show "\<exists>b. subseq [JHandshakeSettled 0 (Some ''ip''), BundleSettled 0 (Some (Bundle b))]
      (joiner_events ''ip'' (Some (Bundle sample_bundle))) \<and> eb_roster b = emptyRoster"
    using joiner_trusts_pinned_inviter [of sample_hkdf sample_crypto sample_joiner "joiner_events ''ip'' (Some (Bundle sample_bundle))"]
    unfolding sample_joiner_log by (auto simp: sample_joiner_def)
  have "jo_inviterPub sample_joiner = Some ''ip''" by (simp add: sample_joiner_def)
  then show "\<not> (\<exists>e. Sent 0 (Hello e) \<in> set (jn_log (joiner_run sample_hkdf sample_crypto sample_joiner
      [JPeerOpened 0, JHandshakeSettled 0 (Some ''other''), JPeerOpened 1, JHandshakeSettled 1 (Some ''ip'')] start_joiner)))"
    using joiner_trusts_pinned_inviter [of sample_hkdf sample_crypto sample_joiner
        "[JPeerOpened 0, JHandshakeSettled 0 (Some ''other''), JPeerOpened 1, JHandshakeSettled 1 (Some ''ip'')]"]
    by auto
qed

theorem enrollment_carries_vault_witness:
  "\<exists>k v f rs. jc_load sample_crypto ''vek'' = Some k \<and> decodeVaultBlob sample_vault = Inr v \<and>
     slots v = PasswordSlot f # rs \<and>
     payload_in sample_aead sample_codec (Some k) v = Inr (emptyEntriesPayload :: nat entries_payload)"
proof -
  have "password_matches sample_crypto (case jo_password sample_joiner of None \<Rightarrow> [] | Some pw \<Rightarrow> pw) sample_bundle"
    "rebuild_vault sample_crypto (case jo_password sample_joiner of None \<Rightarrow> [] | Some pw \<Rightarrow> pw) sample_bundle = Some sample_vault"
    using sample_vault by (simp_all add: password_matches_def sample_bundle_def sample_joiner_def)
  then show ?thesis
    using enrollment_carries_vault [where io = sample_inviter and jo = sample_joiner and J = sample_crypto and
        e = "sample_device ''new'' ''jp''" and b = sample_bundle and bs = sample_vault and hkdf = sample_hkdf and
        sas = sample_sas, OF _ _ _ _ _ sample_sends _ _ _ _ _ refl refl]
      sample_pairing sample_aead_ok sample_codec_ok
    by (auto simp: sample_inviter_def sample_joiner_def given_def sample_crypto_def sample_bundle_def)
qed

end
