(* ===== verification/Entry_Mutations.thy ===== *)
theory Entry_Mutations
  imports Vault_Merge Entry_Data "HOL-Library.Countable"
begin

text \<open>
  Every local change to a vault's entries (\<open>packages/core/src/vault/entry-mutations.ts\<close>): add,
  import, update, delete, archive, tag, touch and settings writes. A mutation takes the
  in-memory \<open>VaultEntries\<close> and either fails or returns the next ones after one write of the
  re-encrypted payload and one rebuild of the autofill index.

  What a mutation uses of its host is a record of arguments: the successive readings of the
  wall clock and of the random UUID generator, the entry encryption (whose randomness is the
  call number), whether the file write and the index update succeed, the entry schema, the
  locale's lower-casing and the URL parser. The file is modelled by the payload its writer
  seals (\<open>writeEntriesBlob\<close> seals and stores exactly its argument).
\<close>

record sealed =
  sl_wrappedDek :: string
  sl_dekIv :: string
  sl_ciphertext :: string
  sl_iv :: string

record mut_host =
  now_at :: "nat \<Rightarrow> nat"
  uuid_at :: "nat \<Rightarrow> string"
  encryptEntry :: "nat \<Rightarrow> entry_data \<Rightarrow> sealed"
  write_ok :: bool
  index_ok :: bool
  schema :: "entry_data \<Rightarrow> bool"
  lower :: "string \<Rightarrow> string"
  url :: url_parser

record 'v vault_entries =
  ve_entries :: "entry list"
  ve_stamps :: "hlc jsmap"
  ve_tombstones :: "hlc jsmap"
  ve_settings :: "'v synced_settings option"

record 'v mut_env =
  ev_clock :: hybrid_clock
  ev_disk :: "'v entries_payload"
  ev_index :: "index_entry list"

datatype mut_error =
    InvalidEntry
  | ClockError clock_error
  | MissingStamp string
  | WriteFailed
  | IndexFailed

type_synonym 'v mut_result = "(mut_error + 'v vault_entries) \<times> 'v mut_env"

definition USE_COALESCE_MS :: nat where
  "USE_COALESCE_MS = 60000"

subsection \<open>Persisting\<close>

fun build_entries ::
  "mut_host \<Rightarrow> hlc jsmap \<Rightarrow> nat \<Rightarrow> entry list \<Rightarrow> mut_error + encrypted_entry list" where
  "build_entries h stamps k [] = Inr []"
| "build_entries h stamps k (e # es) =
     (let enc = encryptEntry h k (without_id e)
      in case map_of stamps (en_id e) of
           None \<Rightarrow> Inl (MissingStamp (en_id e))
         | Some hlc \<Rightarrow>
             (case build_entries h stamps (Suc k) es of
                Inl x \<Rightarrow> Inl x
              | Inr rest \<Rightarrow>
                  Inr (\<lparr>ee_id = en_id e, ee_wrappedDek = sl_wrappedDek enc, ee_dekIv = sl_dekIv enc,
                        ee_ciphertext = sl_ciphertext enc, ee_iv = sl_iv enc, ee_hlc = hlc\<rparr> # rest)))"

definition buildPayload :: "mut_host \<Rightarrow> 'v vault_entries \<Rightarrow> mut_error + 'v entries_payload" where
  "buildPayload h nxt =
     (case build_entries h (ve_stamps nxt) 0 (ve_entries nxt) of
        Inl x \<Rightarrow> Inl x
      | Inr es \<Rightarrow>
          Inr \<lparr>entries = es,
               tombs = map (\<lambda>(i, h). \<lparr>tb_id = i, tb_hlc = h\<rparr>) (ve_tombstones nxt),
               settings = ve_settings nxt\<rparr>)"

definition persist :: "mut_host \<Rightarrow> 'v vault_entries \<Rightarrow> 'v mut_env \<Rightarrow> 'v mut_result" where
  "persist h nxt env =
     (case buildPayload h nxt of
        Inl x \<Rightarrow> (Inl x, env)
      | Inr p \<Rightarrow>
          if \<not> write_ok h then (Inl WriteFailed, env)
          else
            let env = env\<lparr>ev_disk := p\<rparr>
            in if \<not> index_ok h then (Inl IndexFailed, env)
               else (Inr nxt, env\<lparr>ev_index := toAutofillIndex (url h) (ve_entries nxt)\<rparr>))"

subsection \<open>Stamping\<close>

text \<open>
  \<open>xs.map(x => ...)\<close> with a callback that stamps the selected elements: \<open>sel\<close> selects,
  \<open>keep\<close> is the result for the others, \<open>edit n hlc\<close> the result for the \<open>n\<close>-th selected one,
  whose id gets the stamp. A clock that overflows aborts the whole map.
\<close>

fun stamp_map ::
  "mut_host \<Rightarrow> ('a \<Rightarrow> bool) \<Rightarrow> ('a \<Rightarrow> entry) \<Rightarrow> (nat \<Rightarrow> hlc \<Rightarrow> 'a \<Rightarrow> entry) \<Rightarrow> nat \<Rightarrow> 'a list \<Rightarrow>
   hlc jsmap \<Rightarrow> hybrid_clock \<Rightarrow> (mut_error + (entry list \<times> hlc jsmap)) \<times> hybrid_clock" where
  "stamp_map h sel keep edit n [] stamps c = (Inr ([], stamps), c)"
| "stamp_map h sel keep edit n (x # xs) stamps c =
     (if sel x then
        (case send (now_at h n) c of
           (Inl e, c') \<Rightarrow> (Inl (ClockError e), c')
         | (Inr hlc, c') \<Rightarrow>
             (let y = edit n hlc x
              in case stamp_map h sel keep edit (Suc n) xs (AList.update (en_id y) hlc stamps) c' of
                   (Inl e, c'') \<Rightarrow> (Inl e, c'')
                 | (Inr (ys, st), c'') \<Rightarrow> (Inr (y # ys, st), c'')))
      else
        (case stamp_map h sel keep edit n xs stamps c of
           (Inl e, c') \<Rightarrow> (Inl e, c')
         | (Inr (ys, st), c') \<Rightarrow> (Inr (keep x # ys, st), c')))"

text \<open>One stamp.\<close>

definition with_stamp ::
  "mut_host \<Rightarrow> 'v mut_env \<Rightarrow> (hlc \<Rightarrow> 'v mut_env \<Rightarrow> 'v mut_result) \<Rightarrow> 'v mut_result" where
  "with_stamp h env k =
     (case send (now_at h 0) (ev_clock env) of
        (Inl e, c) \<Rightarrow> (Inl (ClockError e), env\<lparr>ev_clock := c\<rparr>)
      | (Inr hlc, c) \<Rightarrow> k hlc (env\<lparr>ev_clock := c\<rparr>))"

text \<open>The members of \<open>new Set(xs)\<close>, in insertion order.\<close>

definition js_set :: "'a list \<Rightarrow> 'a list" where
  "js_set xs = rev (remdups (rev xs))"

fun bury ::
  "mut_host \<Rightarrow> nat \<Rightarrow> string list \<Rightarrow> hlc jsmap \<times> hlc jsmap \<Rightarrow> hybrid_clock \<Rightarrow>
   (mut_error + (hlc jsmap \<times> hlc jsmap)) \<times> hybrid_clock" where
  "bury h n [] m c = (Inr m, c)"
| "bury h n (i # is) (stamps, graves) c =
     (case send (now_at h n) c of
        (Inl e, c') \<Rightarrow> (Inl (ClockError e), c')
      | (Inr hlc, c') \<Rightarrow>
          bury h (Suc n) is (AList.delete i stamps, AList.update i hlc graves) c')"

subsection \<open>The mutations\<close>

definition created_entry :: "mut_host \<Rightarrow> nat \<Rightarrow> hlc \<Rightarrow> entry_data \<Rightarrow> entry" where
  "created_entry h n hlc d =
     withPasswordChangelog
       (with_id (uuid_at h n)
          (d\<lparr>en_createdAt := Some (case en_createdAt d of None \<Rightarrow> wall hlc | Some t \<Rightarrow> t),
             en_updatedAt := Some (wall hlc)\<rparr>))
       None (wall hlc)"

definition add :: "mut_host \<Rightarrow> 'v vault_entries \<Rightarrow> entry_data \<Rightarrow> 'v mut_env \<Rightarrow> 'v mut_result" where
  "add h cur d env =
     (if \<not> schema h d then (Inl InvalidEntry, env)
      else with_stamp h env (\<lambda>hlc env.
        let e = created_entry h 0 hlc d
        in persist h (cur\<lparr>ve_entries := ve_entries cur @ [e],
                          ve_stamps := AList.update (en_id e) hlc (ve_stamps cur)\<rparr>) env))"

definition imported_entry :: "mut_host \<Rightarrow> nat \<Rightarrow> hlc \<Rightarrow> entry_data \<Rightarrow> entry" where
  "imported_entry h n hlc d =
     withPasswordChangelog
       (with_id (uuid_at h n)
          (d\<lparr>en_createdAt := Some (case en_createdAt d of None \<Rightarrow> wall hlc | Some t \<Rightarrow> t),
             en_updatedAt := Some (case en_updatedAt d of None \<Rightarrow> wall hlc | Some t \<Rightarrow> t)\<rparr>))
       None (wall hlc)"

definition importMany ::
  "mut_host \<Rightarrow> 'v vault_entries \<Rightarrow> entry_data list \<Rightarrow> 'v mut_env \<Rightarrow> 'v mut_result" where
  "importMany h cur items env =
     (if \<not> list_all (schema h) items then (Inl InvalidEntry, env)
      else (case stamp_map h (\<lambda>_. True) (with_id []) (imported_entry h) 0 items (ve_stamps cur) (ev_clock env) of
              (Inl e, c) \<Rightarrow> (Inl e, env\<lparr>ev_clock := c\<rparr>)
            | (Inr (withIds, stamps), c) \<Rightarrow>
                persist h (cur\<lparr>ve_entries := ve_entries cur @ withIds, ve_stamps := stamps\<rparr>)
                  (env\<lparr>ev_clock := c\<rparr>)))"

definition updated_entry :: "hlc \<Rightarrow> string \<Rightarrow> entry option \<Rightarrow> entry_data \<Rightarrow> entry" where
  "updated_entry hlc i prev d =
     withPasswordChangelog
       (with_id i
          (d\<lparr>en_createdAt := Some
               (case Option.bind prev en_createdAt of
                  Some t \<Rightarrow> t
                | None \<Rightarrow> (case en_createdAt d of Some t \<Rightarrow> t | None \<Rightarrow> wall hlc)),
             en_updatedAt := Some (wall hlc),
             en_lastUsedAt :=
               (case en_lastUsedAt d of Some t \<Rightarrow> Some t | None \<Rightarrow> Option.bind prev en_lastUsedAt)\<rparr>))
       prev (wall hlc)"

definition update ::
  "mut_host \<Rightarrow> 'v vault_entries \<Rightarrow> string \<Rightarrow> entry_data \<Rightarrow> 'v mut_env \<Rightarrow> 'v mut_result" where
  "update h cur i d env =
     (if \<not> schema h d then (Inl InvalidEntry, env)
      else with_stamp h env (\<lambda>hlc env.
        let prev = find (\<lambda>e. en_id e = i) (ve_entries cur)
        in persist h (cur\<lparr>ve_entries := map (\<lambda>e. if en_id e = i then updated_entry hlc i prev d else e) (ve_entries cur),
                          ve_stamps := AList.update i hlc (ve_stamps cur)\<rparr>) env))"

definition removeMany :: "mut_host \<Rightarrow> 'v vault_entries \<Rightarrow> string list \<Rightarrow> 'v mut_env \<Rightarrow> 'v mut_result" where
  "removeMany h cur ids env =
     (let doomed = js_set ids
      in if doomed = [] then (Inr cur, env)
         else (case bury h 0 doomed (ve_stamps cur, ve_tombstones cur) (ev_clock env) of
                 (Inl e, c) \<Rightarrow> (Inl e, env\<lparr>ev_clock := c\<rparr>)
               | (Inr (stamps, graves), c) \<Rightarrow>
                   persist h (cur\<lparr>ve_entries := filter (\<lambda>e. en_id e \<notin> set doomed) (ve_entries cur),
                                  ve_stamps := stamps, ve_tombstones := graves\<rparr>)
                     (env\<lparr>ev_clock := c\<rparr>)))"

definition remove :: "mut_host \<Rightarrow> 'v vault_entries \<Rightarrow> string \<Rightarrow> 'v mut_env \<Rightarrow> 'v mut_result" where
  "remove h cur i env = removeMany h cur [i] env"

text \<open>What \<open>setArchived\<close> and \<open>setTags\<close> share: re-stamp the changed entries, or return early.\<close>

definition restamp ::
  "mut_host \<Rightarrow> 'v vault_entries \<Rightarrow> string set \<Rightarrow> (hlc \<Rightarrow> entry \<Rightarrow> entry) \<Rightarrow> 'v mut_env \<Rightarrow> 'v mut_result" where
  "restamp h cur changing edit env =
     (if changing = {} then (Inr cur, env)
      else (case stamp_map h (\<lambda>e. en_id e \<in> changing) (\<lambda>e. e) (\<lambda>_. edit) 0 (ve_entries cur)
                   (ve_stamps cur) (ev_clock env) of
              (Inl e, c) \<Rightarrow> (Inl e, env\<lparr>ev_clock := c\<rparr>)
            | (Inr (es, stamps), c) \<Rightarrow>
                persist h (cur\<lparr>ve_entries := es, ve_stamps := stamps\<rparr>) (env\<lparr>ev_clock := c\<rparr>)))"

definition setArchived ::
  "mut_host \<Rightarrow> 'v vault_entries \<Rightarrow> string list \<Rightarrow> bool \<Rightarrow> 'v mut_env \<Rightarrow> 'v mut_result" where
  "setArchived h cur ids archived env =
     (let changing = set (map en_id (filter (\<lambda>e. en_id e \<in> set ids \<and> (en_archivedAt e \<noteq> None) \<noteq> archived)
                                            (ve_entries cur)))
      in restamp h cur changing
           (\<lambda>hlc e. e\<lparr>en_archivedAt := (if archived then Some (wall hlc) else None)\<rparr>) env)"

definition next_tags ::
  "mut_host \<Rightarrow> string list \<Rightarrow> string set \<Rightarrow> entry \<Rightarrow> string list option" where
  "next_tags h ad removeKeys e =
     (let kept = filter (\<lambda>t. tagKey (lower h) t \<notin> removeKeys)
                   (case en_tags e of None \<Rightarrow> [] | Some ts \<Rightarrow> ts)
      in normalizeTags (lower h) (Some (kept @ ad)))"

definition setTags ::
  "mut_host \<Rightarrow> 'v vault_entries \<Rightarrow> string list \<Rightarrow> string list option \<Rightarrow> string list option \<Rightarrow>
   'v mut_env \<Rightarrow> 'v mut_result" where
  "setTags h cur ids addTags removeTags env =
     (let ad = (case normalizeTags (lower h) addTags of None \<Rightarrow> [] | Some ts \<Rightarrow> ts);
          removeKeys = set (filter (\<lambda>k. k \<noteq> [])
            (map (tagKey (lower h)) (case removeTags of None \<Rightarrow> [] | Some ts \<Rightarrow> ts)))
      in if ad = [] \<and> removeKeys = {} then (Inr cur, env)
         else
           let changed = fold (\<lambda>e m.
                 if en_id e \<notin> set ids then m
                 else let nxt = next_tags h ad removeKeys e
                      in if \<not> tagsEqual (en_tags e) nxt then AList.update (en_id e) nxt m else m)
                 (ve_entries cur) []
           in restamp h cur (fst ` set changed)
                (\<lambda>_ e. e\<lparr>en_tags := (case map_of changed (en_id e) of None \<Rightarrow> None | Some nxt \<Rightarrow> nxt)\<rparr>) env)"

definition setSetting :: "mut_host \<Rightarrow> 'v vault_entries \<Rightarrow> string \<Rightarrow> 'v \<Rightarrow> 'v mut_env \<Rightarrow> 'v mut_result" where
  "setSetting h cur key v env =
     with_stamp h env (\<lambda>hlc env.
       persist h (cur\<lparr>ve_settings := Some (AList.update key \<lparr>ss_hlc = hlc, ss_value = v\<rparr>
                        (case ve_settings cur of None \<Rightarrow> [] | Some m \<Rightarrow> m))\<rparr>) env)"

definition touch :: "mut_host \<Rightarrow> 'v vault_entries \<Rightarrow> string \<Rightarrow> 'v mut_env \<Rightarrow> 'v mut_result" where
  "touch h cur i env =
     (case find (\<lambda>e. en_id e = i) (ve_entries cur) of
        None \<Rightarrow> (Inr cur, env)
      | Some prev \<Rightarrow>
          with_stamp h env (\<lambda>hlc env.
            if (case en_lastUsedAt prev of
                  None \<Rightarrow> False
                | Some t \<Rightarrow> int (wall hlc) - int t < int USE_COALESCE_MS)
            then (Inr cur, env)
            else persist h
              (cur\<lparr>ve_entries := map (\<lambda>e. if en_id e = i then e\<lparr>en_lastUsedAt := Some (wall hlc)\<rparr> else e) (ve_entries cur),
                   ve_stamps := AList.update i hlc (ve_stamps cur)\<rparr>) env))"

subsection \<open>The file and the index mirror memory\<close>

definition sealed_of :: "encrypted_entry \<Rightarrow> sealed" where
  "sealed_of e = \<lparr>sl_wrappedDek = ee_wrappedDek e, sl_dekIv = ee_dekIv e,
                  sl_ciphertext = ee_ciphertext e, sl_iv = ee_iv e\<rparr>"

text \<open>
  The file holds, under the entry decryption \<open>unseal\<close>, exactly the entries, stamps, tombstones
  and settings in memory, and the autofill index is the projection of those entries.
\<close>

definition in_file :: "(sealed \<Rightarrow> entry_data option) \<Rightarrow> 'v vault_entries \<Rightarrow> 'v mut_env \<Rightarrow> bool" where
  "in_file unseal cur env \<longleftrightarrow>
     map (\<lambda>e. (ee_id e, Some (ee_hlc e), unseal (sealed_of e))) (entries (ev_disk env)) =
       map (\<lambda>e. (en_id e, map_of (ve_stamps cur) (en_id e), Some (without_id e))) (ve_entries cur) \<and>
     map (\<lambda>t. (tb_id t, tb_hlc t)) (tombs (ev_disk env)) = ve_tombstones cur \<and>
     settings (ev_disk env) = ve_settings cur"

definition in_sync ::
  "(sealed \<Rightarrow> entry_data option) \<Rightarrow> url_parser \<Rightarrow> 'v vault_entries \<Rightarrow> 'v mut_env \<Rightarrow> bool" where
  "in_sync unseal u cur env \<longleftrightarrow> in_file unseal cur env \<and> ev_index env = toAutofillIndex u (ve_entries cur)"

lemma sealed_eta [simp]:
  "\<lparr>sl_wrappedDek = sl_wrappedDek x, sl_dekIv = sl_dekIv x, sl_ciphertext = sl_ciphertext x,
    sl_iv = sl_iv x\<rparr> = (x :: sealed)"
  by simp

lemma build_entries_sync:
  "(\<And>k d. unseal (encryptEntry h k d) = Some d) \<Longrightarrow> build_entries h st k es = Inr rs \<Longrightarrow>
   map (\<lambda>e. (ee_id e, Some (ee_hlc e), unseal (sealed_of e))) rs =
     map (\<lambda>e. (en_id e, map_of st (en_id e), Some (without_id e))) es"
  by (induction es arbitrary: k rs) (auto simp: Let_def sealed_of_def split: option.splits sum.splits)

lemma build_entries_total:
  "list_all (\<lambda>e. map_of st (en_id e) \<noteq> None) es \<Longrightarrow> \<exists>rs. build_entries h st k es = Inr rs"
  by (induction es arbitrary: k) (auto simp: Let_def split: option.splits sum.splits, metis sum.distinct(1))

lemma persist_Inr:
  assumes "persist h nxt env = (Inr r, env')" "\<And>k d. unseal (encryptEntry h k d) = Some d"
  shows "r = nxt \<and> ev_clock env' = ev_clock env \<and> in_sync unseal (url h) nxt env'"
  using assms(1) build_entries_sync [OF assms(2)]
  by (auto simp: persist_def buildPayload_def in_sync_def in_file_def Let_def comp_def case_prod_unfold
      split: sum.splits if_splits)

lemma persist_in_file:
  assumes "buildPayload h nxt = Inr p" "\<And>k d. unseal (encryptEntry h k d) = Some d"
  shows "in_file unseal nxt (env\<lparr>ev_disk := p\<rparr>)"
  using assms(1) build_entries_sync [OF assms(2)]
  by (auto simp: buildPayload_def in_file_def comp_def case_prod_unfold split: sum.splits)

lemma build_entries_error: "build_entries h st k es = Inl e \<Longrightarrow> \<exists>i. e = MissingStamp i"
  by (induction es arbitrary: k) (auto simp: Let_def split: option.splits sum.splits)

lemma persist_Inl:
  "persist h nxt env = (Inl e, env') \<Longrightarrow> e \<noteq> IndexFailed \<Longrightarrow> env' = env"
  by (auto simp: persist_def Let_def split: sum.splits if_splits)

lemma persist_clock: "persist h nxt env = (r, env') \<Longrightarrow> ev_clock env' = ev_clock env"
  by (auto simp: persist_def Let_def split: sum.splits if_splits)

subsection \<open>Stamps only move forward\<close>

definition ids :: "'v vault_entries \<Rightarrow> string set" where
  "ids cur = en_id ` set (ve_entries cur)"

definition live_st :: "'v vault_entries \<Rightarrow> string \<Rightarrow> hlc option" where
  "live_st cur k = (if k \<in> ids cur then map_of (ve_stamps cur) k else None)"

definition setting_st :: "'v vault_entries \<Rightarrow> string \<Rightarrow> hlc option" where
  "setting_st cur k = map_option ss_hlc (Option.bind (ve_settings cur) (\<lambda>m. map_of m k))"

definition ve_view :: "'v vault_entries \<Rightarrow> payload_obs" where
  "ve_view cur = (live_st cur, map_of (ve_tombstones cur), setting_st cur)"

text \<open>
  The invariant of a vault in memory beside a clock: one entry per id, every entry stamped
  above any tombstone of its id, and no entry or tombstone stamp above the clock's last one.
\<close>

definition ve_ok :: "'v vault_entries \<Rightarrow> hybrid_clock \<Rightarrow> bool" where
  "ve_ok cur c \<longleftrightarrow>
     distinct (map en_id (ve_entries cur)) \<and> distinct_keys (ve_tombstones cur) \<and>
     (case ve_settings cur of None \<Rightarrow> True | Some m \<Rightarrow> distinct_keys m) \<and>
     (\<forall>k \<in> ids cur. map_of (ve_stamps cur) k \<noteq> None) \<and>
     (\<forall>k \<in> ids cur. map_of (ve_tombstones cur) k < map_of (ve_stamps cur) k) \<and>
     (\<forall>k. live_st cur k \<le> Some (stamp_of c)) \<and>
     (\<forall>k. map_of (ve_tombstones cur) k \<le> Some (stamp_of c))"

text \<open>Loading a file advances the clock past its entry and tombstone stamps, not past its settings' stamps.\<close>

definition settings_seen :: "'v vault_entries \<Rightarrow> hybrid_clock \<Rightarrow> bool" where
  "settings_seen cur c \<longleftrightarrow> (\<forall>k. setting_st cur k \<le> Some (stamp_of c))"

definition fresh_at :: "hybrid_clock \<Rightarrow> hybrid_clock \<Rightarrow> hlc jsmap \<Rightarrow> string \<Rightarrow> bool" where
  "fresh_at c c' m k \<longleftrightarrow> Some (stamp_of c) < map_of m k \<and> map_of m k \<le> Some (stamp_of c')"

definition restamped :: "hybrid_clock \<Rightarrow> hybrid_clock \<Rightarrow> hlc jsmap \<Rightarrow> hlc jsmap \<Rightarrow> bool" where
  "restamped c c' m m' \<longleftrightarrow>
     stamp_of c \<le> stamp_of c' \<and> (\<forall>k. map_of m' k = map_of m k \<or> fresh_at c c' m' k)"

text \<open>What a successful mutation does to the stamps.\<close>

definition advances ::
  "'v vault_entries \<Rightarrow> hybrid_clock \<Rightarrow> 'v vault_entries \<Rightarrow> hybrid_clock \<Rightarrow> bool" where
  "advances cur c nxt c' \<longleftrightarrow>
     ve_ok nxt c' \<and> stamp_of c \<le> stamp_of c' \<and>
     (settings_seen cur c \<longrightarrow> settings_seen nxt c' \<and> join_payload (ve_view cur) (ve_view nxt) = ve_view nxt)"

lemma join_payload_above:
  assumes "\<And>k. t k \<le> t' k" "\<And>k. s k \<le> s' k"
    and "\<And>k. (e' k = e k \<and> t' k = t k \<and> live_stamp (e k) (t k) = e k) \<or> (e k \<le> e' k \<and> t' k < e' k)
            \<or> (e' k = None \<and> e k \<le> t' k)"
  shows "join_payload (e, t, s) (e', t', s') = (e', t', s' :: string \<Rightarrow> hlc option)"
proof -
  have "live_stamp (max (e k) (e' k)) (max (t k) (t' k)) = e' k" for k
    using assms(3) [of k] assms(1) [of k] by (auto simp: live_stamp_def max_def split: if_splits)
  then show ?thesis
    using assms(1,2) by (auto simp: join_payload_def max_def fun_eq_iff)
qed

lemma option_le_trans: "x \<le> Some a \<Longrightarrow> a \<le> b \<Longrightarrow> x \<le> Some (b :: 'a :: linorder)"
  by (metis less_eq_option_Some order_trans)

lemma ve_ok_live: "ve_ok cur c \<Longrightarrow> live_stamp (live_st cur k) (map_of (ve_tombstones cur) k) = live_st cur k"
  by (auto simp: ve_ok_def live_st_def live_stamp_def)

lemma ve_ok_stamp:
  "ve_ok cur c \<Longrightarrow> k \<in> ids cur \<Longrightarrow>
   map_of (ve_tombstones cur) k < map_of (ve_stamps cur) k \<and> map_of (ve_stamps cur) k \<le> Some (stamp_of c)"
  unfolding ve_ok_def live_st_def by metis

lemma ve_ok_later: "ve_ok cur c \<Longrightarrow> stamp_of c \<le> stamp_of c' \<Longrightarrow> ve_ok cur c'"
  unfolding ve_ok_def by (auto intro: option_le_trans)

lemma advances_refl: "ve_ok cur c \<Longrightarrow> stamp_of c \<le> stamp_of c' \<Longrightarrow> advances cur c cur c'"
  unfolding advances_def ve_view_def
  by (intro conjI impI join_payload_above) (auto simp: ve_ok_live settings_seen_def intro: ve_ok_later option_le_trans)

lemma advance_edit:
  assumes ok: "ve_ok cur c" and st: "restamped c c' (ve_stamps cur) m"
    and dist: "distinct (map en_id es)" and sub: "ids cur \<subseteq> en_id ` set es"
    and new: "\<And>k. k \<in> en_id ` set es \<Longrightarrow> k \<in> ids cur \<or> fresh_at c c' m k"
  shows "advances cur c (cur\<lparr>ve_entries := es, ve_stamps := m\<rparr>) c'" (is "advances cur c ?n c'")
proof -
  have le: "stamp_of c \<le> stamp_of c'"
    using st by (simp add: restamped_def)
  have ids: "ids ?n = en_id ` set es"
    by (simp add: ids_def)
  have key: "k \<in> ids ?n \<Longrightarrow> (k \<in> ids cur \<and> map_of m k = map_of (ve_stamps cur) k) \<or> fresh_at c c' m k" for k
    using new [of k] st by (auto simp: ids restamped_def)
  have tomb: "map_of (ve_tombstones cur) k < map_of m k \<and> map_of m k \<le> Some (stamp_of c')" if "k \<in> ids ?n" for k
    using key [OF that]
  proof
    assume "k \<in> ids cur \<and> map_of m k = map_of (ve_stamps cur) k"
    then show ?thesis
      using ve_ok_stamp [OF ok, of k] le by (auto intro: option_le_trans)
  next
    assume "fresh_at c c' m k"
    then show ?thesis
      using ok by (auto simp: fresh_at_def ve_ok_def intro: le_less_trans)
  qed
  have some: "map_of m k \<noteq> None" if "k \<in> ids ?n" for k
    using tomb [OF that] by (cases "map_of m k") auto
  have "ve_ok ?n c'"
    using ok le dist tomb some
    by (auto simp: ve_ok_def live_st_def setting_st_def ids_def intro: option_le_trans)
  moreover have "join_payload (ve_view cur) (ve_view ?n) = ve_view ?n"
    unfolding ve_view_def
  proof (rule join_payload_above)
    fix k
    show "live_st ?n k = live_st cur k \<and> map_of (ve_tombstones ?n) k = map_of (ve_tombstones cur) k \<and>
        live_stamp (live_st cur k) (map_of (ve_tombstones cur) k) = live_st cur k \<or>
      live_st cur k \<le> live_st ?n k \<and> map_of (ve_tombstones ?n) k < live_st ?n k \<or>
      live_st ?n k = None \<and> live_st cur k \<le> map_of (ve_tombstones ?n) k"
    proof (cases "k \<in> ids ?n")
      case False
      then have "k \<notin> ids cur" using sub ids by blast
      with False show ?thesis
        using ok by (simp add: live_st_def live_stamp_def)
    next
      case True
      have "live_st cur k \<le> map_of m k"
        using key [OF True] ok
        by (auto simp: fresh_at_def live_st_def ve_ok_def intro: order_trans less_imp_le dest!: spec [of _ k])
      then show ?thesis
        using tomb [OF True] True by (simp add: live_st_def)
    qed
  qed (auto simp: setting_st_def)
  moreover have "settings_seen cur c \<longrightarrow> settings_seen ?n c'"
    using le by (auto simp: settings_seen_def setting_st_def intro: option_le_trans)
  ultimately show ?thesis
    using le by (simp add: advances_def)
qed

subsection \<open>What the stamping loops do\<close>

lemma send_Inr: "send pt c = (Inr h, c') \<Longrightarrow> h = stamp_of c' \<and> stamp_of c < stamp_of c'"
  using send_clock_greater [of c pt] by (auto simp: clock_defs split: if_splits)

lemma send_le: "send pt c = (r, c') \<Longrightarrow> stamp_of c \<le> stamp_of c'"
  using send_clock_greater [of c pt] by (auto simp: clock_defs)

lemma fresh_at_widen: "stamp_of c < stamp_of c1 \<Longrightarrow> fresh_at c1 c' m k \<Longrightarrow> fresh_at c c' m k"
  by (cases "map_of m k") (auto simp: fresh_at_def)

lemma restamped_refl: "stamp_of c \<le> stamp_of c' \<Longrightarrow> restamped c c' m m"
  by (simp add: restamped_def)

lemma restamped_update:
  assumes "send pt c = (Inr h, c1)" "restamped c1 c' (AList.update k h m) m'"
  shows "restamped c c' m m' \<and> fresh_at c c' m' k"
proof -
  have h: "h = stamp_of c1" "stamp_of c < stamp_of c1" "stamp_of c1 \<le> stamp_of c'"
    using send_Inr [OF assms(1)] assms(2) by (auto simp: restamped_def)
  have wide: "fresh_at c1 c' m' i \<Longrightarrow> fresh_at c c' m' i" for i
    using h(2) by (rule fresh_at_widen)
  have "(i \<noteq> k \<longrightarrow> map_of m' i = map_of m i \<or> fresh_at c c' m' i) \<and> (i = k \<longrightarrow> fresh_at c c' m' i)" for i
  proof -
    consider "map_of m' i = map_of (AList.update k h m) i" | "fresh_at c1 c' m' i"
      using assms(2) unfolding restamped_def by blast
    then show ?thesis
    proof cases
      case 1
      with h show ?thesis by (auto simp: jsmap_simps fresh_at_def)
    next
      case 2
      with wide show ?thesis by blast
    qed
  qed
  then have "\<forall>i. map_of m' i = map_of m i \<or> fresh_at c c' m' i" "fresh_at c c' m' k"
    by blast+
  then show ?thesis
    using h by (auto simp: restamped_def intro: order_trans less_imp_le)
qed

text \<open>The result of the loop, element by element.\<close>

definition mapped_to ::
  "('a \<Rightarrow> bool) \<Rightarrow> ('a \<Rightarrow> entry) \<Rightarrow> (nat \<Rightarrow> hlc \<Rightarrow> 'a \<Rightarrow> entry) \<Rightarrow> (string \<Rightarrow> bool) \<Rightarrow> 'a \<Rightarrow> entry \<Rightarrow> bool" where
  "mapped_to sel keep edit fresh x y \<longleftrightarrow>
     (if sel x then (\<exists>n h. y = edit n h x) \<and> fresh (en_id y) else y = keep x)"

lemma stamp_map_Inr:
  "stamp_map h sel keep edit n xs st c = (Inr (ys, st'), c') \<Longrightarrow>
   restamped c c' st st' \<and> list_all2 (mapped_to sel keep edit (fresh_at c c' st')) xs ys"
proof (induction xs arbitrary: n st c ys)
  case Nil
  then show ?case by (simp add: restamped_refl)
next
  case (Cons x xs)
  show ?case
  proof (cases "sel x")
    case False
    with Cons.prems obtain zs where zs: "stamp_map h sel keep edit n xs st c = (Inr (zs, st'), c')"
      and ys: "ys = keep x # zs"
      by (auto split: prod.splits sum.splits)
    from Cons.IH [OF zs] ys False show ?thesis
      by (simp add: mapped_to_def)
  next
    case True
    with Cons.prems obtain hl c1 zs where send: "send (now_at h n) c = (Inr hl, c1)"
      and zs: "stamp_map h sel keep edit (Suc n) xs (AList.update (en_id (edit n hl x)) hl st) c1 = (Inr (zs, st'), c')"
      and ys: "ys = edit n hl x # zs"
      by (auto simp: Let_def split: prod.splits sum.splits)
    have r: "restamped c c' st st'" "fresh_at c c' st' (en_id (edit n hl x))"
      using restamped_update [OF send] Cons.IH [OF zs] by blast+
    have "mapped_to sel keep edit (fresh_at c1 c' st') a b \<Longrightarrow> mapped_to sel keep edit (fresh_at c c' st') a b"
      for a b
      using send_Inr [OF send] by (auto simp: mapped_to_def intro: fresh_at_widen split: if_splits)
    then have "list_all2 (mapped_to sel keep edit (fresh_at c c' st')) xs zs"
      using Cons.IH [OF zs] by (auto elim: list.rel_mono_strong)
    moreover have "mapped_to sel keep edit (fresh_at c c' st') x (edit n hl x)"
      using r True by (auto simp: mapped_to_def)
    ultimately show ?thesis
      using r ys by simp
  qed
qed

lemma stamp_map_clock: "stamp_map h sel keep edit n xs st c = (r, c') \<Longrightarrow> stamp_of c \<le> stamp_of c'"
proof (induction xs arbitrary: n st c r)
  case (Cons x xs)
  then show ?case
    by (auto simp: Let_def split: prod.splits sum.splits if_splits dest!: send_le) (meson order_trans)+
qed simp

lemma stamp_map_ids:
  "stamp_map h (\<lambda>_. True) keep edit n xs st c = (Inr (ys, st'), c') \<Longrightarrow>
   (\<And>m hl x. en_id (edit m hl x) = f m) \<Longrightarrow> map en_id ys = map f [n ..< n + length xs]"
proof (induction xs arbitrary: n st c ys)
  case (Cons x xs)
  then obtain hl c1 zs where "stamp_map h (\<lambda>_. True) keep edit (Suc n) xs (AList.update (en_id (edit n hl x)) hl st) c1 = (Inr (zs, st'), c')"
      and ys: "ys = edit n hl x # zs"
    by (auto simp: Let_def split: prod.splits sum.splits)
  with Cons.IH Cons.prems(2) show ?case
    by (fastforce simp: upt_conv_Cons simp del: upt_Suc)
qed simp

lemma bury_clock: "bury h n is m c = (r, c') \<Longrightarrow> stamp_of c \<le> stamp_of c'"
  by (induction h n "is" m c rule: bury.induct)
    (auto split: prod.splits sum.splits dest!: send_le dest: order_trans)

lemma bury_Inr:
  "bury h n is (st, g) c = (Inr (st', g'), c') \<Longrightarrow>
   (\<forall>k. map_of st' k = (if k \<in> set is then None else map_of st k)) \<and>
   restamped c c' g g' \<and> (\<forall>k \<in> set is. fresh_at c c' g' k) \<and>
   (distinct_keys g \<longrightarrow> distinct_keys g')"
proof (induction "is" arbitrary: n st g c)
  case Nil
  then show ?case by (simp add: restamped_refl)
next
  case (Cons i "is")
  then obtain hl c1 where send: "send (now_at h n) c = (Inr hl, c1)"
    and rest: "bury h (Suc n) is (AList.delete i st, AList.update i hl g) c1 = (Inr (st', g'), c')"
    by (auto split: prod.splits sum.splits)
  note IH = Cons.IH [OF rest]
  have "restamped c c' g g'" "fresh_at c c' g' i"
    using restamped_update [OF send] IH by blast+
  moreover have "fresh_at c c' g' k" if "k \<in> set is" for k
    using IH that send_Inr [OF send] fresh_at_widen by blast
  ultimately show ?case
    using IH by (auto simp: jsmap_simps)
qed

subsection \<open>Each mutation advances\<close>

text \<open>The environment in which a mutation is run; the file write and the index update may fail.\<close>

definition host_ok :: "(sealed \<Rightarrow> entry_data option) \<Rightarrow> url_parser \<Rightarrow> mut_host \<Rightarrow> 'v vault_entries \<Rightarrow> bool" where
  "host_ok unseal u h cur \<longleftrightarrow>
     (\<forall>k d. unseal (encryptEntry h k d) = Some d) \<and> url h = u \<and>
     inj (uuid_at h) \<and> (\<forall>k. uuid_at h k \<notin> ids cur)"

text \<open>The only ways a mutation can fail in such a host.\<close>

definition ok_error :: "mut_error \<Rightarrow> bool" where
  "ok_error e \<longleftrightarrow> e = InvalidEntry \<or> e = WriteFailed \<or> e = IndexFailed \<or> e = ClockError CounterOverflow"

lemma send_error: "send pt c = (Inl e, c') \<Longrightarrow> ok_error (ClockError e)"
  by (auto simp: clock_defs ok_error_def split: if_splits)

lemma stamp_map_error: "stamp_map h sel keep edit n xs st c = (Inl e, c') \<Longrightarrow> ok_error e"
  by (induction xs arbitrary: n st c)
    (auto simp: Let_def split: prod.splits sum.splits if_splits intro: send_error)

lemma bury_error: "bury h n is m c = (Inl e, c') \<Longrightarrow> ok_error e"
  by (induction h n "is" m c rule: bury.induct) (auto split: prod.splits sum.splits intro: send_error)

text \<open>What every mutation guarantees about its outcome.\<close>

definition outcome_ok ::
  "(sealed \<Rightarrow> entry_data option) \<Rightarrow> url_parser \<Rightarrow> 'v vault_entries \<Rightarrow> 'v mut_env \<Rightarrow> 'v mut_result \<Rightarrow> bool" where
  "outcome_ok unseal u cur env res \<longleftrightarrow>
     (case res of
        (Inl e, env') \<Rightarrow>
          ok_error e \<and> stamp_of (ev_clock env) \<le> stamp_of (ev_clock env') \<and> ev_index env' = ev_index env \<and>
          (ev_disk env' = ev_disk env \<or> e = IndexFailed \<and>
            (\<exists>nxt. advances cur (ev_clock env) nxt (ev_clock env') \<and> in_file unseal nxt env'))
      | (Inr nxt, env') \<Rightarrow>
          advances cur (ev_clock env) nxt (ev_clock env') \<and>
          (in_sync unseal u nxt env' \<or> nxt = cur \<and> ev_disk env' = ev_disk env \<and> ev_index env' = ev_index env))"

lemma outcome_persist:
  assumes "host_ok unseal u h cur" "advances cur (ev_clock env0) nxt (ev_clock env)"
    and "ev_disk env = ev_disk env0" "ev_index env = ev_index env0"
  shows "outcome_ok unseal u cur env0 (persist h nxt env)"
proof (cases "persist h nxt env")
  case (Pair r env')
  show ?thesis
  proof (cases r)
    case (Inr r')
    with Pair have "r' = nxt" "ev_clock env' = ev_clock env" "in_sync unseal u nxt env'"
      using persist_Inr [of h nxt env r' env' unseal] assms(1) by (auto simp: host_ok_def)
    then show ?thesis
      using Pair Inr assms by (simp add: outcome_ok_def)
  next
    case (Inl e)
    have "\<exists>p. buildPayload h nxt = Inr p"
      using build_entries_total [of "ve_stamps nxt" "ve_entries nxt" h 0] assms(2)
      by (auto simp: buildPayload_def advances_def ve_ok_def ids_def list_all_iff split: sum.split)
    then obtain p where p: "buildPayload h nxt = Inr p" by blast
    consider "\<not> write_ok h" "e = WriteFailed" "env' = env" | "write_ok h" "e = IndexFailed" "env' = env\<lparr>ev_disk := p\<rparr>"
      using p Pair Inl by (auto simp: persist_def Let_def split: if_splits)
    then show ?thesis
    proof cases
      case 1
      then show ?thesis
        using Pair Inl assms by (simp add: outcome_ok_def advances_def ok_error_def)
    next
      case 2
      have "in_file unseal nxt env'"
        using persist_in_file [OF p, of unseal env] assms(1) 2 by (simp add: host_ok_def)
      then have "\<exists>nxt. advances cur (ev_clock env0) nxt (ev_clock env') \<and> in_file unseal nxt env'"
        using assms(2) 2 by auto
      then show ?thesis
        using Pair Inl assms(2-4) 2 by (simp add: outcome_ok_def advances_def ok_error_def)
    qed
  qed
qed

lemma outcome_same:
  "ve_ok cur (ev_clock env) \<Longrightarrow> stamp_of (ev_clock env) \<le> stamp_of c \<Longrightarrow>
   outcome_ok unseal u cur env (Inr cur, env\<lparr>ev_clock := c\<rparr>)"
  by (simp add: outcome_ok_def advances_refl)

lemma outcome_error:
  "stamp_of (ev_clock env) \<le> stamp_of c \<Longrightarrow> ok_error e \<Longrightarrow> outcome_ok unseal u cur env (Inl e, env\<lparr>ev_clock := c\<rparr>)"
  by (simp add: outcome_ok_def)

text \<open>The mutations that stamp one id.\<close>

lemma outcome_with_stamp:
  assumes "\<And>hl c. send (now_at h 0) (ev_clock env) = (Inr hl, c) \<Longrightarrow>
      outcome_ok unseal u cur env (k hl (env\<lparr>ev_clock := c\<rparr>))"
  shows "outcome_ok unseal u cur env (with_stamp h env k)"
  using assms by (auto simp: with_stamp_def intro!: outcome_error dest: send_le send_error split: prod.split sum.split)

lemma restamped_one:
  assumes "send pt c = (Inr hl, c')"
  shows "restamped c c' m (AList.update k hl m)" "fresh_at c c' (AList.update k hl m) k"
  using restamped_update [OF assms restamped_refl [of c' c']] by auto

lemma ids_map: "(\<And>e. en_id (f e) = en_id e) \<Longrightarrow> map en_id (map f es) = map en_id es"
  by simp

lemma en_id_withPasswordChangelog [simp]: "en_id (withPasswordChangelog e p t) = en_id e"
  by (simp add: withPasswordChangelog_def split: entry_body.split)

lemma advance_map:
  assumes ok: "ve_ok cur c" and send: "send pt c = (Inr hl, c')"
    and f: "\<And>e. en_id (f e) = en_id e"
  shows "advances cur c (cur\<lparr>ve_entries := map f (ve_entries cur),
    ve_stamps := AList.update k hl (ve_stamps cur)\<rparr>) c'"
  using ok f
  by (intro advance_edit restamped_one [OF send]) (auto simp: ve_ok_def ids_def image_image comp_def)

lemma add_ok:
  assumes "host_ok unseal u h cur" "ve_ok cur (ev_clock env)"
  shows "outcome_ok unseal u cur env (add h cur d env)"
proof -
  have "outcome_ok unseal u cur env (with_stamp h env (\<lambda>hlc env.
        let e = created_entry h 0 hlc d
        in persist h (cur\<lparr>ve_entries := ve_entries cur @ [e],
                          ve_stamps := AList.update (en_id e) hlc (ve_stamps cur)\<rparr>) env))"
  proof (rule outcome_with_stamp, unfold Let_def, rule outcome_persist [OF assms(1)])
    fix hl c assume send: "send (now_at h 0) (ev_clock env) = (Inr hl, c)"
    have i: "en_id (created_entry h 0 hl d) = uuid_at h 0" by (simp add: created_entry_def)
    show "advances cur (ev_clock env)
        (cur\<lparr>ve_entries := ve_entries cur @ [created_entry h 0 hl d],
             ve_stamps := AList.update (en_id (created_entry h 0 hl d)) hl (ve_stamps cur)\<rparr>)
        (ev_clock (env\<lparr>ev_clock := c\<rparr>))"
      using assms restamped_one [OF send, where m = "ve_stamps cur"]
      by (intro advance_edit) (auto simp: i host_ok_def ve_ok_def ids_def)
  qed simp_all
  then show ?thesis
    using outcome_error [of env "ev_clock env" InvalidEntry] by (simp add: ok_error_def add_def)
qed

lemma update_ok:
  assumes "host_ok unseal u h cur" "ve_ok cur (ev_clock env)"
  shows "outcome_ok unseal u cur env (update h cur i d env)"
proof -
  have "outcome_ok unseal u cur env (with_stamp h env (\<lambda>hlc env.
        let prev = find (\<lambda>e. en_id e = i) (ve_entries cur)
        in persist h (cur\<lparr>ve_entries := map (\<lambda>e. if en_id e = i then updated_entry hlc i prev d else e) (ve_entries cur),
                          ve_stamps := AList.update i hlc (ve_stamps cur)\<rparr>) env))"
    by (rule outcome_with_stamp, unfold Let_def, rule outcome_persist [OF assms(1)])
      (auto intro!: advance_map assms(2) simp: updated_entry_def)
  then show ?thesis
    using outcome_error [of env "ev_clock env" InvalidEntry] by (simp add: ok_error_def update_def)
qed

lemma touch_ok:
  assumes "host_ok unseal u h cur" "ve_ok cur (ev_clock env)"
  shows "outcome_ok unseal u cur env (touch h cur i env)"
proof (cases "find (\<lambda>e. en_id e = i) (ve_entries cur)")
  case None
  then show ?thesis
    using outcome_same [OF assms(2), of "ev_clock env"] by (simp add: touch_def)
next
  case (Some prev)
  show ?thesis
    unfolding touch_def Some option.case
    by (rule outcome_with_stamp)
      (auto intro!: outcome_persist [OF assms(1)] outcome_same [OF assms(2)] advance_map assms(2) dest: send_le)
qed

lemma setSetting_ok:
  assumes "host_ok unseal u h cur" "ve_ok cur (ev_clock env)"
  shows "outcome_ok unseal u cur env (setSetting h cur key v env)"
  unfolding setSetting_def
proof (rule outcome_with_stamp, rule outcome_persist [OF assms(1)])
  fix hl c assume send: "send (now_at h 0) (ev_clock env) = (Inr hl, c)"
  let ?n = "cur\<lparr>ve_settings := Some (AList.update key \<lparr>ss_hlc = hl, ss_value = v\<rparr>
    (case ve_settings cur of None \<Rightarrow> [] | Some m \<Rightarrow> m))\<rparr>"
  have hl: "hl = stamp_of c" "stamp_of (ev_clock env) < stamp_of c"
    using send_Inr [OF send] by auto
  have st: "setting_st ?n = (setting_st cur)(key := Some hl)"
    by (auto simp: setting_st_def jsmap_simps fun_eq_iff split: option.split)
  have rest: "live_st ?n = live_st cur" "ids ?n = ids cur"
    by (auto simp: live_st_def ids_def)
  have ok: "ve_ok cur c"
    using assms(2) hl(2) by (auto intro: ve_ok_later)
  then have "ve_ok ?n c"
    unfolding ve_ok_def rest st by (auto simp: hl split: option.splits)
  moreover have "settings_seen ?n c \<and> join_payload (ve_view cur) (ve_view ?n) = ve_view ?n"
    if seen: "settings_seen cur (ev_clock env)"
  proof
    have bound: "setting_st cur k \<le> Some (stamp_of (ev_clock env))" for k
      using seen by (simp add: settings_seen_def)
    then show "settings_seen ?n c"
      unfolding settings_seen_def st using hl by (auto intro: option_le_trans [OF bound])
    show "join_payload (ve_view cur) (ve_view ?n) = ve_view ?n"
      unfolding ve_view_def rest st
      using bound [of key] hl
      by (intro join_payload_above) (auto simp: ve_ok_live [OF assms(2)] intro: option_le_trans)
  qed
  ultimately show "advances cur (ev_clock env) ?n (ev_clock (env\<lparr>ev_clock := c\<rparr>))"
    using hl by (simp add: advances_def)
qed simp_all

lemma bury_other:
  "bury h n is (st, g) c = (Inr (st', g'), c') \<Longrightarrow> k \<notin> set is \<Longrightarrow> map_of g' k = map_of g k"
proof (induction "is" arbitrary: n st g c)
  case (Cons i "is")
  then obtain hl c1 where
    rest: "bury h (Suc n) is (AList.delete i st, AList.update i hl g) c1 = (Inr (st', g'), c')"
    by (auto split: prod.splits sum.splits)
  from Cons.IH [OF rest] Cons.prems(2) show ?case
    by (simp add: jsmap_simps)
qed simp

lemma importMany_ok:
  assumes "host_ok unseal u h cur" "ve_ok cur (ev_clock env)"
  shows "outcome_ok unseal u cur env (importMany h cur items env)"
proof (cases "list_all (schema h) items")
  case False
  then show ?thesis
    using outcome_error [of env "ev_clock env" InvalidEntry] by (simp add: ok_error_def importMany_def)
next
  case True
  obtain r c where sm: "stamp_map h (\<lambda>_. True) (with_id []) (imported_entry h) 0 items (ve_stamps cur) (ev_clock env) = (r, c)"
    by (cases "stamp_map h (\<lambda>_. True) (with_id []) (imported_entry h) 0 items (ve_stamps cur) (ev_clock env)")
  have le: "stamp_of (ev_clock env) \<le> stamp_of c"
    using stamp_map_clock [OF sm] .
  show ?thesis
  proof (cases r)
    case (Inl e)
    with sm True le show ?thesis by (simp add: importMany_def outcome_error stamp_map_error [of h])
  next
    case (Inr ys_st)
    obtain ys st where r: "r = Inr (ys, st)" using Inr by (cases ys_st) auto
    note sm = sm [unfolded r]
    have new: "map en_id ys = map (uuid_at h) [0 ..< length items]"
      using stamp_map_ids [OF sm, of "uuid_at h"] by (simp add: imported_entry_def)
    have spec: "restamped (ev_clock env) c (ve_stamps cur) st"
      and each: "list_all2 (mapped_to (\<lambda>_. True) (with_id []) (imported_entry h) (fresh_at (ev_clock env) c st)) items ys"
      using stamp_map_Inr [OF sm] by blast+
    have fresh: "fresh_at (ev_clock env) c st (en_id y)" if "y \<in> set ys" for y
      using each that by (auto simp: list_all2_conv_all_nth in_set_conv_nth mapped_to_def)
    have dist: "distinct (map en_id (ve_entries cur @ ys))"
      using assms new by (auto simp: host_ok_def ve_ok_def ids_def distinct_map intro: inj_on_subset
          dest: arg_cong [of _ _ set])
        (metis image_eqI list.set_map rangeI)
    have "advances cur (ev_clock env)
        (cur\<lparr>ve_entries := ve_entries cur @ ys, ve_stamps := st\<rparr>) c"
      using assms(2) spec dist fresh by (intro advance_edit) (auto simp: ids_def)
    then show ?thesis
      using True outcome_persist [OF assms(1), of env _ "env\<lparr>ev_clock := c\<rparr>"]
      by (simp add: importMany_def sm)
  qed
qed

lemma list_all2_ids:
  "list_all2 (mapped_to sel (\<lambda>e. e) edit fresh) xs ys \<Longrightarrow> (\<And>n hl x. en_id (edit n hl x) = en_id x) \<Longrightarrow>
   map en_id ys = map en_id xs"
  by (induction rule: list_all2_induct) (auto simp: mapped_to_def split: if_splits)

lemma restamp_ok:
  assumes "host_ok unseal u h cur" "ve_ok cur (ev_clock env)" "\<And>hl e. en_id (edit hl e) = en_id e"
  shows "outcome_ok unseal u cur env (restamp h cur changing edit env)"
proof (cases "changing = {}")
  case True
  then show ?thesis
    using outcome_same [OF assms(2), of "ev_clock env"] by (simp add: restamp_def)
next
  case False
  obtain r c where sm: "stamp_map h (\<lambda>e. en_id e \<in> changing) (\<lambda>e. e) (\<lambda>_. edit) 0 (ve_entries cur)
      (ve_stamps cur) (ev_clock env) = (r, c)"
    by (cases "stamp_map h (\<lambda>e. en_id e \<in> changing) (\<lambda>e. e) (\<lambda>_. edit) 0 (ve_entries cur)
      (ve_stamps cur) (ev_clock env)")
  have le: "stamp_of (ev_clock env) \<le> stamp_of c"
    using stamp_map_clock [OF sm] .
  show ?thesis
  proof (cases r)
    case (Inl e)
    with sm False le show ?thesis by (simp add: restamp_def outcome_error stamp_map_error [of h])
  next
    case (Inr ys_st)
    obtain ys st where r: "r = Inr (ys, st)" using Inr by (cases ys_st) auto
    note sm = sm [unfolded r]
    have spec: "restamped (ev_clock env) c (ve_stamps cur) st"
      and each: "list_all2 (mapped_to (\<lambda>e. en_id e \<in> changing) (\<lambda>e. e) (\<lambda>_. edit) (fresh_at (ev_clock env) c st))
        (ve_entries cur) ys"
      using stamp_map_Inr [OF sm] by blast+
    have ids_eq: "map en_id ys = map en_id (ve_entries cur)"
      using list_all2_ids [OF each] assms(3) by simp
    then have "en_id ` set ys = ids cur"
      unfolding ids_def by (metis list.set_map)
    then have "advances cur (ev_clock env) (cur\<lparr>ve_entries := ys, ve_stamps := st\<rparr>) c"
      using assms(2) spec ids_eq by (intro advance_edit) (auto simp: ve_ok_def)
    then show ?thesis
      using False outcome_persist [OF assms(1), of env _ "env\<lparr>ev_clock := c\<rparr>"]
      by (simp add: restamp_def sm)
  qed
qed

lemma setArchived_ok:
  "host_ok unseal u h cur \<Longrightarrow> ve_ok cur (ev_clock env) \<Longrightarrow>
   outcome_ok unseal u cur env (setArchived h cur is archived env)"
  unfolding setArchived_def Let_def by (rule restamp_ok) auto

lemma setTags_ok:
  "host_ok unseal u h cur \<Longrightarrow> ve_ok cur (ev_clock env) \<Longrightarrow>
   outcome_ok unseal u cur env (setTags h cur is addTags removeTags env)"
  using outcome_same [of cur env "ev_clock env"]
  unfolding setTags_def Let_def by (auto intro!: restamp_ok)

lemma set_js_set [simp]: "set (js_set xs) = set xs"
  by (simp add: js_set_def)

lemma js_set_Nil_iff [simp]: "js_set xs = [] \<longleftrightarrow> xs = []"
  by (simp add: js_set_def)

lemma bury_advances:
  assumes ok: "ve_ok cur c" and bury: "bury h n is (ve_stamps cur, ve_tombstones cur) c = (Inr (st, g), c')"
  shows "advances cur c (cur\<lparr>ve_entries := filter (\<lambda>e. en_id e \<notin> set is) (ve_entries cur),
      ve_stamps := st, ve_tombstones := g\<rparr>) c'" (is "advances cur c ?n c'")
proof -
  note spec = bury_Inr [OF bury]
  have le: "stamp_of c \<le> stamp_of c'"
    using spec by (simp add: restamped_def)
  have idn: "ids ?n = ids cur - set is"
    by (auto simp: ids_def)
  have live: "live_st ?n k = (if k \<in> set is then None else live_st cur k)" for k
    using spec by (auto simp: live_st_def idn)
  have keep: "map_of g k = map_of (ve_tombstones cur) k" if "k \<notin> set is" for k
    using bury_other [OF bury that] .
  have dead: "fresh_at c c' g k" if "k \<in> set is" for k
    using spec that by blast
  have dist: "distinct (map en_id (filter (\<lambda>e. en_id e \<notin> set is) (ve_entries cur)))"
    using ok by (simp add: ve_ok_def distinct_map_filter)
  have bound: "map_of g k \<le> Some (stamp_of c')" for k
    using ok le keep [of k] dead [of k] option_le_trans [of _ "stamp_of c" "stamp_of c'"]
    by (cases "k \<in> set is") (auto simp: fresh_at_def ve_ok_def)
  have stamps: "map_of st k = map_of (ve_stamps cur) k \<and> map_of g k = map_of (ve_tombstones cur) k"
    if "k \<in> ids ?n" for k
    using that spec keep [of k] by (simp add: idn)
  have "ve_ok ?n c'"
    using ve_ok_later [OF ok le] dist bound spec stamps live
    by (simp add: ve_ok_def setting_st_def idn)
  moreover have "join_payload (ve_view cur) (ve_view ?n) = ve_view ?n"
    unfolding ve_view_def
  proof (rule join_payload_above)
    fix k
    show "map_of (ve_tombstones cur) k \<le> map_of (ve_tombstones ?n) k"
      using keep [of k] dead [of k] ok
      by (cases "k \<in> set is") (auto simp: fresh_at_def ve_ok_def intro: order_trans less_imp_le)
    show "live_st ?n k = live_st cur k \<and> map_of (ve_tombstones ?n) k = map_of (ve_tombstones cur) k \<and>
        live_stamp (live_st cur k) (map_of (ve_tombstones cur) k) = live_st cur k \<or>
      live_st cur k \<le> live_st ?n k \<and> map_of (ve_tombstones ?n) k < live_st ?n k \<or>
      live_st ?n k = None \<and> live_st cur k \<le> map_of (ve_tombstones ?n) k"
      using keep [of k] dead [of k] ok
      by (cases "k \<in> set is")
        (auto simp: live ve_ok_live fresh_at_def ve_ok_def intro: order_trans less_imp_le)
  qed (auto simp: setting_st_def)
  moreover have "settings_seen cur c \<longrightarrow> settings_seen ?n c'"
    using le by (auto simp: settings_seen_def setting_st_def intro: option_le_trans)
  ultimately show ?thesis
    using le by (simp add: advances_def)
qed

lemma removeMany_ok:
  assumes "host_ok unseal u h cur" "ve_ok cur (ev_clock env)"
  shows "outcome_ok unseal u cur env (removeMany h cur is env)"
proof (cases "is = []")
  case True
  then show ?thesis
    using outcome_same [OF assms(2), of "ev_clock env"] by (simp add: removeMany_def)
next
  case False
  obtain r c where bury: "bury h 0 (js_set is) (ve_stamps cur, ve_tombstones cur) (ev_clock env) = (r, c)"
    by (cases "bury h 0 (js_set is) (ve_stamps cur, ve_tombstones cur) (ev_clock env)")
  show ?thesis
  proof (cases r)
    case (Inl e)
    with bury False show ?thesis
      by (simp add: removeMany_def outcome_error bury_clock [OF bury] bury_error [of h])
  next
    case (Inr st_g)
    obtain st g where r: "r = Inr (st, g)" using Inr by (cases st_g) auto
    have "advances cur (ev_clock env) (cur\<lparr>ve_entries := filter (\<lambda>e. en_id e \<notin> set (js_set is)) (ve_entries cur),
        ve_stamps := st, ve_tombstones := g\<rparr>) c"
      using bury_advances [OF assms(2)] bury [unfolded r] by blast
    then show ?thesis
      using False bury [unfolded r] outcome_persist [OF assms(1), of env _ "env\<lparr>ev_clock := c\<rparr>"]
      by (simp add: removeMany_def)
  qed
qed

subsection \<open>Any mutation\<close>

datatype 'v mutation =
    Add entry_data
  | Import "entry_data list"
  | Update string entry_data
  | RemoveMany "string list"
  | SetArchived "string list" bool
  | SetTags "string list" "string list option" "string list option"
  | SetSetting string 'v
  | Touch string

fun mutate :: "mut_host \<Rightarrow> 'v mutation \<Rightarrow> 'v vault_entries \<Rightarrow> 'v mut_env \<Rightarrow> 'v mut_result" where
  "mutate h (Add d) cur env = add h cur d env"
| "mutate h (Import ds) cur env = importMany h cur ds env"
| "mutate h (Update i d) cur env = update h cur i d env"
| "mutate h (RemoveMany is) cur env = removeMany h cur is env"
| "mutate h (SetArchived is b) cur env = setArchived h cur is b env"
| "mutate h (SetTags is a r) cur env = setTags h cur is a r env"
| "mutate h (SetSetting k v) cur env = setSetting h cur k v env"
| "mutate h (Touch i) cur env = touch h cur i env"

lemma mutate_ok:
  "host_ok unseal u h cur \<Longrightarrow> ve_ok cur (ev_clock env) \<Longrightarrow> outcome_ok unseal u cur env (mutate h x cur env)"
  by (cases x)
    (simp_all add: add_ok importMany_ok update_ok removeMany_ok setArchived_ok setTags_ok setSetting_ok touch_ok)

subsection \<open>The file's view is memory's view\<close>

lemma map_of_keyed: "map_of (map (\<lambda>e. (f e, g (f e))) es) k = (if k \<in> f ` set es then Some (g k) else None)"
  by (induction es) auto

lemma sync_ids: "in_file unseal cur env \<Longrightarrow> map ee_id (entries (ev_disk env)) = map en_id (ve_entries cur)"
proof -
  assume "in_file unseal cur env"
  then have "map (\<lambda>e. (ee_id e, Some (ee_hlc e), unseal (sealed_of e))) (entries (ev_disk env)) =
       map (\<lambda>e. (en_id e, map_of (ve_stamps cur) (en_id e), Some (without_id e))) (ve_entries cur)"
    by (simp add: in_file_def)
  from arg_cong [OF this, of "map fst"] show ?thesis
    by (simp add: comp_def)
qed

lemma tomb_of_disk: "in_file unseal cur env \<Longrightarrow> ve_ok cur c \<Longrightarrow> tomb_at (ev_disk env) = map_of (ve_tombstones cur)"
  by (auto simp: fun_eq_iff tomb_at_def payloadToReplica_def tombstones_replicaFrom in_file_def ve_ok_def
      best_values_at_distinct)

lemma view_of_disk:
  assumes "in_file unseal cur env" "ve_ok cur c"
  shows "payload_view (ev_disk env) = ve_view cur"
proof -
  let ?p = "ev_disk env"
  note tomb = tomb_of_disk [OF assms]
  have set_: "setting_at ?p k = Option.bind (ve_settings cur) (\<lambda>m. map_of m k)" for k
    using assms(1) by (auto simp: setting_at_def in_file_def split: option.split)
  have rec: "map_option ee_hlc (map_of (records (payloadToReplica ?p)) k) = live_st cur k" for k
  proof -
    let ?m = "map (\<lambda>e. (ee_id e, e)) (entries ?p)"
    have "distinct_keys ?m"
      using sync_ids [OF assms(1)] assms(2) by (simp add: distinct_keys_def comp_def ve_ok_def)
    then have "map_of (records (payloadToReplica ?p)) k = map_of ?m k"
      by (simp add: payloadToReplica_def records_replicaFrom best_values_at_distinct flip: values_at_records)
    moreover have "map_option (\<lambda>e. Some (ee_hlc e)) (map_of (map (\<lambda>e. (ee_id e, e)) xs) k) =
        map_of (map (\<lambda>e. (ee_id e, Some (ee_hlc e))) xs) k" for xs :: "encrypted_entry list"
      by (induction xs) auto
    moreover have "map (\<lambda>e. (ee_id e, Some (ee_hlc e))) (entries ?p) =
        map (\<lambda>e. (en_id e, map_of (ve_stamps cur) (en_id e))) (ve_entries cur)"
    proof -
      have "map (\<lambda>(i, st, d). (i, st)) (map (\<lambda>e. (ee_id e, Some (ee_hlc e), unseal (sealed_of e))) (entries ?p)) =
          map (\<lambda>(i, st, d). (i, st)) (map (\<lambda>e. (en_id e, map_of (ve_stamps cur) (en_id e), Some (without_id e))) (ve_entries cur))"
        using assms(1) by (simp only: in_file_def)
      then show ?thesis by (simp add: comp_def)
    qed
    ultimately have "map_option (\<lambda>e. Some (ee_hlc e)) (map_of (records (payloadToReplica ?p)) k) =
        map_of (map (\<lambda>e. (en_id e, map_of (ve_stamps cur) (en_id e))) (ve_entries cur)) k"
      by simp
    also have "\<dots> = (if k \<in> ids cur then Some (map_of (ve_stamps cur) k) else None)"
      by (simp add: map_of_keyed ids_def)
    finally have "map_option (\<lambda>e. Some (ee_hlc e)) (map_of (records (payloadToReplica ?p)) k) =
        (if k \<in> ids cur then Some (map_of (ve_stamps cur) k) else None)" .
    then show ?thesis
      by (auto simp: live_st_def split: if_splits)
  qed
  have "map_option ee_hlc (entry_at ?p k) = live_st cur k" for k
    by (simp add: stamp_entry_at rec tomb ve_ok_live [OF assms(2)])
  then show ?thesis
    by (simp add: payload_view_def ve_view_def tomb set_ setting_st_def fun_eq_iff)
qed

lemma wf_disk: "in_file unseal cur env \<Longrightarrow> ve_ok cur c \<Longrightarrow> wf_payload (ev_disk env)"
  by (simp add: wf_payload_def in_file_def ve_ok_def)

subsection \<open>Sessions\<close>

text \<open>The file a vault in memory was written to holds one entry and one tombstone per id, and no entry that a
  tombstone covers.\<close>

lemma canonical_disk:
  assumes held: "in_file unseal cur env" and ok: "ve_ok cur c"
  shows "canonical (ev_disk env)"
proof -
  have ids: "distinct (map ee_id (entries (ev_disk env)))"
    using sync_ids [OF held] ok by (simp add: ve_ok_def)
  have "map (\<lambda>t. (tb_id t, tb_hlc t)) (tombs (ev_disk env)) = ve_tombstones cur"
    using held by (simp add: in_file_def)
  then have "map tb_id (tombs (ev_disk env)) = map fst (ve_tombstones cur)"
    by (auto simp: comp_def dest: arg_cong [of _ _ "map fst"])
  then have graves: "distinct (map tb_id (tombs (ev_disk env)))"
    using ok by (simp add: ve_ok_def distinct_keys_def)
  have "tomb_at (ev_disk env) (ee_id e) < Some (ee_hlc e)" if "e \<in> set (entries (ev_disk env))" for e
  proof -
    have "(ee_id e, Some (ee_hlc e), unseal (sealed_of e)) \<in>
        set (map (\<lambda>e. (en_id e, map_of (ve_stamps cur) (en_id e), Some (without_id e))) (ve_entries cur))"
      using that held unfolding in_file_def by (metis (no_types, lifting) image_eqI list.set_map)
    then obtain m where m: "m \<in> set (ve_entries cur)" "ee_id e = en_id m" "map_of (ve_stamps cur) (en_id m) = Some (ee_hlc e)"
      by auto
    then have "en_id m \<in> ids cur" by (simp add: ids_def)
    then show ?thesis
      using ve_ok_stamp [OF ok] m tomb_of_disk [OF held ok] by fastforce
  qed
  then show ?thesis
    using ids graves wf_disk [OF held ok] by (simp add: canonical_def list_all_iff)
qed

text \<open>Loading the file into memory: the stamps, the graveyard and the settings are replaced first, then the clock is
  moved past the stamps and the entries are decrypted, and only then are the entries replaced and the index published,
  which the host may refuse. A load that fails in between leaves memory half replaced. The clock does not see the
  settings' stamps.\<close>

definition load_refs :: "'v entries_payload \<Rightarrow> 'v vault_entries \<Rightarrow> 'v vault_entries" where
  "load_refs p cur = cur\<lparr>ve_stamps := stampMap (map (\<lambda>e. (ee_id e, ee_hlc e)) (entries p)),
     ve_tombstones := stampMap (map (\<lambda>t. (tb_id t, tb_hlc t)) (tombs p)), ve_settings := settings p\<rparr>"

fun decryptEntries :: "(sealed \<Rightarrow> entry_data option) \<Rightarrow> encrypted_entry list \<Rightarrow> entry list option" where
  "decryptEntries unseal [] = Some []"
| "decryptEntries unseal (e # es) =
     (case (unseal (sealed_of e), decryptEntries unseal es) of
        (Some d, Some xs) \<Rightarrow> Some (with_id (ee_id e) d # xs)
      | _ \<Rightarrow> None)"

definition reload ::
  "(sealed \<Rightarrow> entry_data option) \<Rightarrow> url_parser \<Rightarrow> nat \<Rightarrow> bool \<Rightarrow> 'v vault_entries \<Rightarrow> 'v mut_env \<Rightarrow>
   (bool \<times> 'v vault_entries) \<times> 'v mut_env" where
  "reload unseal u pt published cur env =
     (let p = ev_disk env; mid = load_refs p cur
      in case witness_all pt (remoteStamps p) (ev_clock env) of
           (Inl _, c) \<Rightarrow> ((False, mid), env\<lparr>ev_clock := c\<rparr>)
         | (Inr _, c) \<Rightarrow>
             (case decryptEntries unseal (entries p) of
                None \<Rightarrow> ((False, mid), env\<lparr>ev_clock := c\<rparr>)
              | Some es \<Rightarrow>
                  ((True, mid\<lparr>ve_entries := es\<rparr>),
                   env\<lparr>ev_clock := c,
                       ev_index := (if published then toAutofillIndex u es else ev_index env)\<rparr>)))"

text \<open>A stamp further ahead than this is ignored by the clock; what peers send is cleared of such stamps.\<close>

definition timely :: "nat \<Rightarrow> 'v entries_payload \<Rightarrow> bool" where
  "timely pt p \<longleftrightarrow> list_all (\<lambda>h. wall h \<le> pt + HLC_MAX_DRIFT_MS) (remoteStamps p)"

lemma decryptEntries_Some:
  "decryptEntries unseal es = Some xs \<Longrightarrow>
   list_all2 (\<lambda>e x. en_id x = ee_id e \<and> unseal (sealed_of e) = Some (without_id x)) es xs"
  by (induction es arbitrary: xs) (auto split: option.splits)

lemma map_from_pairs_distinct: "distinct_keys ps \<Longrightarrow> map_from_pairs ps = ps"
proof -
  have "distinct_keys (m @ ps) \<Longrightarrow> fold (\<lambda>(k, v). AList.update k v) ps m = m @ ps" for m :: "('a \<times> 'b) list"
  proof (induction ps arbitrary: m)
    case (Cons p ps)
    obtain k v where p: "p = (k, v)" by (cases p)
    have "k \<notin> fst ` set m \<Longrightarrow> AList.update k v m = m @ [(k, v)]" for m :: "('a \<times> 'b) list"
      by (induction m) auto
    then have "AList.update k v m = m @ [(k, v)]"
      using Cons.prems by (auto simp: p distinct_keys_def)
    then show ?case
      using Cons.IH [of "m @ [(k, v)]"] Cons.prems by (simp add: p)
  qed simp
  from this [of "[]"] show "distinct_keys ps \<Longrightarrow> map_from_pairs ps = ps"
    by (simp add: map_from_pairs_def)
qed

lemma reload_ok:
  assumes p: "canonical (ev_disk env)" "timely pt (ev_disk env)"
    and ld: "reload unseal u pt published cur env = ((True, nxt), env')"
  shows "ve_ok nxt (ev_clock env') \<and> in_file unseal nxt env' \<and> ev_disk env' = ev_disk env \<and>
    (published \<longrightarrow> ev_index env' = toAutofillIndex u (ve_entries nxt)) \<and> stamp_of (ev_clock env) \<le> stamp_of (ev_clock env')"
proof -
  let ?p = "ev_disk env"
  obtain c es where c: "witness_all pt (remoteStamps ?p) (ev_clock env) = (Inr (), c)"
    and es: "decryptEntries unseal (entries ?p) = Some es"
    and nxt: "nxt = (load_refs ?p cur)\<lparr>ve_entries := es\<rparr>"
    and env': "env' = env\<lparr>ev_clock := c, ev_index := (if published then toAutofillIndex u es else ev_index env)\<rparr>"
    using ld unfolding reload_def Let_def by (auto split: sum.splits prod.splits option.splits)
  have d: "distinct_keys (map (\<lambda>e. (ee_id e, ee_hlc e)) (entries ?p))" "distinct_keys (map (\<lambda>t. (tb_id t, tb_hlc t)) (tombs ?p))"
    using p(1) by (simp_all add: canonical_def distinct_keys_def comp_def)
  have st: "ve_stamps nxt = map (\<lambda>e. (ee_id e, ee_hlc e)) (entries ?p)"
    and tb: "ve_tombstones nxt = map (\<lambda>t. (tb_id t, tb_hlc t)) (tombs ?p)"
    using map_from_pairs_distinct [OF d(1)] map_from_pairs_distinct [OF d(2)] by (simp_all add: nxt load_refs_def stampMap_def)
  have each: "list_all2 (\<lambda>e x. en_id x = ee_id e \<and> unseal (sealed_of e) = Some (without_id x)) (entries ?p) es"
    using decryptEntries_Some [OF es] .
  have stamp: "map_of (ve_stamps nxt) (ee_id e) = Some (ee_hlc e)" if "e \<in> set (entries ?p)" for e
    using that d(1) by (auto simp: st distinct_keys_map_of_iff)
  have held: "in_file unseal nxt env'"
  proof -
    have "list_all2 (\<lambda>e x. (ee_id e, Some (ee_hlc e), unseal (sealed_of e)) =
        (en_id x, map_of (ve_stamps nxt) (en_id x), Some (without_id x))) (entries ?p) es"
      using each stamp by (auto elim!: list.rel_mono_strong)
    then show ?thesis
      unfolding in_file_def env' tb by (simp add: nxt load_refs_def list_all2_eq list.rel_map)
  qed
  have early: "h \<in> set (remoteStamps ?p) \<Longrightarrow> Some h \<le> Some (stamp_of c)" for h
    using witness_all_beats [OF c] p(2) by (auto simp: timely_def list_all_iff)
  have idq: "map en_id es = map ee_id (entries ?p)"
    using each by (induction rule: list_all2_induct) auto
  have tomb: "map_of (ve_tombstones nxt) k = tomb_at ?p k" for k
    using canonical_tomb_at [OF p(1), of k] map_from_pairs_distinct [OF d(2)] by (simp add: tb stampMap_def)
  have key: "\<exists>e \<in> set (entries ?p). ee_id e = k" if "k \<in> ids nxt" for k
    using that arg_cong [OF idq, of set] by (auto simp: ids_def nxt)
  have below: "map_of (ve_tombstones nxt) k < map_of (ve_stamps nxt) k \<and> map_of (ve_stamps nxt) k \<le> Some (stamp_of c)"
    if "k \<in> ids nxt" for k
  proof -
    obtain e where e: "e \<in> set (entries ?p)" "ee_id e = k"
      using key [OF \<open>k \<in> ids nxt\<close>] by blast
    then have "tomb_at ?p k < Some (ee_hlc e)"
      using p(1) by (auto simp: canonical_def list_all_iff)
    then show ?thesis
      using stamp [OF e(1)] e early [of "ee_hlc e"] tomb by (auto simp: remoteStamps_def)
  qed
  have grave: "map_of (ve_tombstones nxt) k \<le> Some (stamp_of c)" for k
  proof (cases "map_of (ve_tombstones nxt) k")
    case (Some h)
    then have "h \<in> set (remoteStamps ?p)"
      by (auto simp: tb remoteStamps_def dest!: map_of_SomeD)
    then show ?thesis
      unfolding Some by (rule early)
  qed simp
  have some: "map_of (ve_stamps nxt) k \<noteq> None" if "k \<in> ids nxt" for k
    using below [OF that] by (cases "map_of (ve_stamps nxt) k") auto
  have "ve_ok nxt c"
    unfolding ve_ok_def
  proof (intro conjI ballI allI)
    show "distinct (map en_id (ve_entries nxt))" using p(1) idq by (simp add: nxt canonical_def)
    show "distinct_keys (ve_tombstones nxt)" using d(2) by (simp add: tb)
    show "case ve_settings nxt of None \<Rightarrow> True | Some m \<Rightarrow> distinct_keys m"
      using p(1) by (simp add: nxt load_refs_def canonical_def wf_payload_def)
    show "live_st nxt k \<le> Some (stamp_of c)" for k
      using below by (auto simp: live_st_def)
  qed (use below grave some in blast)+
  then show ?thesis
    using held witness_all_beats [OF c] by (auto simp: env' nxt)
qed

text \<open>
  The states an unlocked vault passes through. It is loaded; each mutation then either succeeds and replaces the state
  in memory or fails and leaves it, whatever of the file or the index was written by then; another context may replace
  the file, with a peer's payload merged in or with a change of its own; and the file may be loaded again. Two marks
  are kept: whether what the file holds was last written from memory or read into it, and whether the index was last
  published from memory.
\<close>

inductive session ::
  "(sealed \<Rightarrow> entry_data option) \<Rightarrow> url_parser \<Rightarrow> 'v vault_entries \<Rightarrow> 'v mut_env \<Rightarrow> bool \<Rightarrow> bool \<Rightarrow> bool"
  for unseal :: "sealed \<Rightarrow> entry_data option" and u :: url_parser
where
  loaded: "canonical (ev_disk env) \<Longrightarrow> timely pt (ev_disk env) \<Longrightarrow>
    reload unseal u pt published cur0 env = ((True, cur), env') \<Longrightarrow> session unseal u cur env' True published"
| saved: "session unseal u cur env in_step indexed \<Longrightarrow> host_ok unseal u h cur \<Longrightarrow>
    mutate h x cur env = (Inr nxt, env') \<Longrightarrow>
    session unseal u nxt env' (in_step \<or> ev_disk env' \<noteq> ev_disk env) (indexed \<or> ev_disk env' \<noteq> ev_disk env)"
| refused: "session unseal u cur env in_step indexed \<Longrightarrow> host_ok unseal u h cur \<Longrightarrow>
    mutate h x cur env = (Inl e, env') \<Longrightarrow> session unseal u cur env' (in_step \<and> ev_disk env' = ev_disk env) indexed"
| overtaken: "session unseal u cur env in_step indexed \<Longrightarrow> canonical p \<Longrightarrow>
    session unseal u cur (env\<lparr>ev_disk := p\<rparr>) False indexed"
| reloaded: "session unseal u cur env in_step indexed \<Longrightarrow> timely pt (ev_disk env) \<Longrightarrow>
    reload unseal u pt published cur env = ((True, nxt), env') \<Longrightarrow> session unseal u nxt env' True published"

lemma in_file_cong: "ev_disk env' = ev_disk env \<Longrightarrow> in_file unseal cur env \<Longrightarrow> in_file unseal cur env'"
  by (simp add: in_file_def)

text \<open>A peer's payload, merged into the file.\<close>

lemma session_merged:
  assumes "session unseal u cur env in_step indexed" "wf_payload (ev_disk env)" "wf_payload p"
  shows "session unseal u cur (env\<lparr>ev_disk := mergeEntriesPayload (ev_disk env) p\<rparr>) False indexed"
  using assms(1) canonical_merge [OF assms(2,3)] by (rule session.overtaken)

lemma session_inv:
  "session unseal u cur env in_step indexed \<Longrightarrow>
   ve_ok cur (ev_clock env) \<and> canonical (ev_disk env) \<and> (in_step \<longrightarrow> in_file unseal cur env) \<and>
   (indexed \<longrightarrow> ev_index env = toAutofillIndex u (ve_entries cur))"
proof (induction rule: session.induct)
  case (loaded env pt published cur0 cur env')
  then show ?case using reload_ok [of env pt unseal u published cur0 cur env'] by simp
next
  case (saved cur env in_step indexed h x nxt env')
  have out: "advances cur (ev_clock env) nxt (ev_clock env')"
    "in_sync unseal u nxt env' \<or> nxt = cur \<and> ev_disk env' = ev_disk env \<and> ev_index env' = ev_index env"
    using mutate_ok [of unseal u h cur env x] saved by (auto simp: outcome_ok_def)
  then have ok: "ve_ok nxt (ev_clock env')" by (simp add: advances_def)
  from out(2) show ?case
  proof
    assume "in_sync unseal u nxt env'"
    then show ?thesis using ok canonical_disk [of unseal nxt env'] by (simp add: in_sync_def)
  next
    assume "nxt = cur \<and> ev_disk env' = ev_disk env \<and> ev_index env' = ev_index env"
    then show ?thesis using ok saved.IH in_file_cong [of env' env] by auto
  qed
next
  case (refused cur env in_step indexed h x e env')
  have out: "stamp_of (ev_clock env) \<le> stamp_of (ev_clock env')" "ev_index env' = ev_index env"
    "ev_disk env' = ev_disk env \<or> (\<exists>nxt. ve_ok nxt (ev_clock env') \<and> in_file unseal nxt env')"
    using mutate_ok [of unseal u h cur env x] refused by (auto simp: outcome_ok_def advances_def)
  have "canonical (ev_disk env')"
    using out(3) refused.IH canonical_disk by fastforce
  then show ?case
    using out refused.IH ve_ok_later in_file_cong [of env' env] by auto
next
  case (reloaded cur env in_step indexed pt published nxt env')
  then show ?case using reload_ok [of env pt unseal u published cur nxt env'] by simp
qed simp

subsection \<open>What a mutation leaves alone\<close>

fun targets :: "'v mutation \<Rightarrow> string set" where
  "targets (Update i d) = {i}"
| "targets (RemoveMany is) = set is"
| "targets (SetArchived is b) = set is"
| "targets (SetTags is a r) = set is"
| "targets (Touch i) = {i}"
| "targets _ = {}"

text \<open>Entries with other ids stay verbatim, in their place and under their stamp.\<close>

definition setting_rec :: "'v vault_entries \<Rightarrow> string \<Rightarrow> 'v synced_setting option" where
  "setting_rec cur k = Option.bind (ve_settings cur) (\<lambda>m. map_of m k)"

fun setting_targets :: "'v mutation \<Rightarrow> string set" where
  "setting_targets (SetSetting k v) = {k}"
| "setting_targets _ = {}"

definition frame :: "string set \<Rightarrow> string set \<Rightarrow> 'v vault_entries \<Rightarrow> 'v vault_entries \<Rightarrow> bool" where
  "frame T S cur nxt \<longleftrightarrow>
     (\<forall>e \<in> set (ve_entries cur). en_id e \<notin> T \<longrightarrow>
        e \<in> set (ve_entries nxt) \<and> map_of (ve_stamps nxt) (en_id e) = map_of (ve_stamps cur) (en_id e)) \<and>
     (\<forall>k. k \<notin> T \<longrightarrow> map_of (ve_tombstones nxt) k = map_of (ve_tombstones cur) k) \<and>
     (\<forall>k. k \<notin> S \<longrightarrow> setting_rec nxt k = setting_rec cur k)"

lemma frame_refl [simp]: "frame T S cur cur"
  by (simp add: frame_def setting_rec_def)

lemma persist_result: "persist h nxt env = (Inr r, env') \<Longrightarrow> r = nxt"
  by (auto simp: persist_def Let_def split: sum.splits if_splits)

lemma with_stamp_Inr:
  assumes "with_stamp h env k = (Inr r, env')"
  obtains hl c where "send (now_at h 0) (ev_clock env) = (Inr hl, c)" "k hl (env\<lparr>ev_clock := c\<rparr>) = (Inr r, env')"
  using assms by (auto simp: with_stamp_def split: prod.splits sum.splits)

lemma stamp_map_other:
  "stamp_map h sel keep edit n xs st c = (Inr (ys, st'), c') \<Longrightarrow>
   (\<And>x m hl. x \<in> set xs \<Longrightarrow> sel x \<Longrightarrow> en_id (edit m hl x) \<noteq> k) \<Longrightarrow> map_of st' k = map_of st k"
proof (induction xs arbitrary: n st c ys)
  case (Cons x xs)
  show ?case
  proof (cases "sel x")
    case False
    with Cons.prems(1) obtain zs where "stamp_map h sel keep edit n xs st c = (Inr (zs, st'), c')"
      by (auto split: prod.splits sum.splits)
    with Cons.IH Cons.prems(2) show ?thesis by auto
  next
    case True
    with Cons.prems(1) obtain hl c1 zs where
      "stamp_map h sel keep edit (Suc n) xs (AList.update (en_id (edit n hl x)) hl st) c1 = (Inr (zs, st'), c')"
      by (auto simp: Let_def split: prod.splits sum.splits)
    from Cons.IH [OF this] Cons.prems(2) True show ?thesis
      by (auto simp: jsmap_simps)
  qed
qed simp

lemma add_frame: "host_ok unseal u h cur \<Longrightarrow> add h cur d env = (Inr nxt, env') \<Longrightarrow> frame T S cur nxt"
  by (auto simp: add_def Let_def split: if_splits elim!: with_stamp_Inr dest!: persist_result)
    (auto simp: frame_def setting_rec_def jsmap_simps created_entry_def host_ok_def ids_def, metis image_eqI)

lemma update_frame: "update h cur i d env = (Inr nxt, env') \<Longrightarrow> frame {i} S cur nxt"
  by (auto simp: update_def Let_def split: if_splits elim!: with_stamp_Inr dest!: persist_result)
    (auto simp: frame_def setting_rec_def jsmap_simps)

lemma touch_frame: "touch h cur i env = (Inr nxt, env') \<Longrightarrow> frame {i} S cur nxt"
  by (auto simp: touch_def split: option.splits if_splits elim!: with_stamp_Inr dest!: persist_result)
    (auto simp: frame_def setting_rec_def jsmap_simps)

lemma setSetting_frame: "setSetting h cur k v env = (Inr nxt, env') \<Longrightarrow> frame T {k} cur nxt"
  by (auto simp: setSetting_def elim!: with_stamp_Inr dest!: persist_result) (auto simp: frame_def setting_rec_def jsmap_simps split: option.split)

lemma importMany_frame:
  assumes "host_ok unseal u h cur" "importMany h cur items env = (Inr nxt, env')"
  shows "frame T S cur nxt"
proof -
  obtain ys st c where sm: "stamp_map h (\<lambda>_. True) (with_id []) (imported_entry h) 0 items (ve_stamps cur) (ev_clock env) = (Inr (ys, st), c)"
    and nxt: "nxt = cur\<lparr>ve_entries := ve_entries cur @ ys, ve_stamps := st\<rparr>"
    using assms(2) by (auto simp: importMany_def split: if_splits prod.splits sum.splits dest!: persist_result)
  have "map_of st k = map_of (ve_stamps cur) k" if "k \<in> ids cur" for k
    using assms(1) that by (intro stamp_map_other [OF sm]) (auto simp: imported_entry_def host_ok_def)
  then show ?thesis
    by (auto simp: frame_def setting_rec_def nxt ids_def)
qed

lemma restamp_frame:
  assumes "restamp h cur changing edit env = (Inr nxt, env')" "\<And>hl e. en_id (edit hl e) = en_id e" "changing \<subseteq> T"
  shows "frame T S cur nxt"
proof (cases "changing = {}")
  case True
  with assms(1) show ?thesis by (simp add: restamp_def)
next
  case False
  with assms(1) obtain ys st c where sm: "stamp_map h (\<lambda>e. en_id e \<in> changing) (\<lambda>e. e) (\<lambda>_. edit) 0
      (ve_entries cur) (ve_stamps cur) (ev_clock env) = (Inr (ys, st), c)"
    and nxt: "nxt = cur\<lparr>ve_entries := ys, ve_stamps := st\<rparr>"
    by (auto simp: restamp_def split: prod.splits sum.splits dest!: persist_result)
  have each: "list_all2 (mapped_to (\<lambda>e. en_id e \<in> changing) (\<lambda>e. e) (\<lambda>_. edit) (fresh_at (ev_clock env) c st))
      (ve_entries cur) ys"
    using stamp_map_Inr [OF sm] by blast
  have "e \<in> set ys" if "e \<in> set (ve_entries cur)" "en_id e \<notin> T" for e
    using each that assms(3)
    by (induction rule: list_all2_induct) (auto simp: mapped_to_def split: if_splits)
  moreover have "map_of st k = map_of (ve_stamps cur) k" if "k \<notin> T" for k
    using that assms(2,3) by (intro stamp_map_other [OF sm]) auto
  ultimately show ?thesis
    by (simp add: frame_def setting_rec_def nxt)
qed

lemma changed_tags_subset:
  "fst ` set (fold (\<lambda>e m. if en_id e \<notin> S then m else let nxt = f e
      in if \<not> tagsEqual (en_tags e) nxt then AList.update (en_id e) nxt m else m) es m) \<subseteq> S \<union> fst ` set m"
proof (induction es arbitrary: m)
  case (Cons e es)
  show ?case
    using Cons [of m] Cons [of "AList.update (en_id e) (f e) m"]
    by (auto simp: Let_def dom_update)
qed simp

lemma removeMany_frame:
  assumes "removeMany h cur is env = (Inr nxt, env')"
  shows "frame (set is) S cur nxt"
proof (cases "is = []")
  case True
  with assms show ?thesis by (simp add: removeMany_def)
next
  case False
  with assms obtain st g c where bury: "bury h 0 (js_set is) (ve_stamps cur, ve_tombstones cur) (ev_clock env) = (Inr (st, g), c)"
    and nxt: "nxt = cur\<lparr>ve_entries := filter (\<lambda>e. en_id e \<notin> set is) (ve_entries cur), ve_stamps := st, ve_tombstones := g\<rparr>"
    by (auto simp: removeMany_def Let_def split: prod.splits sum.splits dest!: persist_result)
  show ?thesis
    using bury_Inr [OF bury] bury_other [OF bury] by (auto simp: frame_def setting_rec_def nxt)
qed

lemma mutate_frame:
  assumes "host_ok unseal u h cur" "mutate h x cur env = (Inr nxt, env')"
  shows "frame (targets x) (setting_targets x) cur nxt"
proof (cases x)
  case (SetTags "is" a r)
  then show ?thesis
    using assms(2) changed_tags_subset
    by (auto simp: setTags_def Let_def split: if_splits intro!: restamp_frame [where T = "set is"]
        dest!: subsetD [OF changed_tags_subset])
next
  case (SetArchived "is" b)
  then show ?thesis
    using assms(2) by (auto simp: setArchived_def Let_def intro!: restamp_frame)
qed (use assms add_frame update_frame touch_frame setSetting_frame importMany_frame removeMany_frame in auto)

subsection \<open>A concrete host\<close>

text \<open>
  Entries are countable, so an entry can be written down as a decimal number and read back:
  a stand-in for the entry encryption that has the one law the model uses.
\<close>

instance custom_field_ext :: (countable) countable
  by (rule countable_classI [of "\<lambda>r. to_nat (cf_key r, cf_value r, cf_hidden r, custom_field.more r)"]) auto

instance passkey_ext :: (countable) countable
  by (rule countable_classI [of "\<lambda>r. to_nat ((pk_credentialId r, pk_rpId r, pk_rpName r, pk_userHandle r,
      pk_userName r, pk_userDisplayName r), pk_alg r, pk_publicKeyCose r, pk_privateKey r, pk_signCount r,
      pk_createdAt r, pk_lastUsedAt r, passkey.more r)"]) auto

instance password_change_ext :: (countable) countable
  by (rule countable_classI [of "\<lambda>r. to_nat (pc_value r, pc_changedAt r, password_change.more r)"]) auto

instance breach_status_ext :: (countable) countable
  by (rule countable_classI [of "\<lambda>r. to_nat (br_leaked r, br_checkedAt r, breach_status.more r)"]) auto

instance subdomain_match :: countable
  by countable_datatype

instance login_data_ext :: (countable) countable
  by (rule countable_classI [of "\<lambda>r. to_nat ((lg_urls r, lg_username r, lg_password r, lg_totp r, lg_breach r),
      lg_autofillEnabled r, lg_autoSubmit r, lg_subdomainMatch r, lg_passkeys r, lg_passwordChangelog r,
      login_data.more r)"]) auto

instance card_data_ext :: (countable) countable
  by (rule countable_classI [of "\<lambda>r. to_nat (cd_cardholderName r, cd_number r, cd_brand r, cd_expMonth r,
      cd_expYear r, cd_cvv r, card_data.more r)"]) auto

instance ssh_data_ext :: (countable) countable
  by (rule countable_classI [of "\<lambda>r. to_nat (sk_publicKey r, sk_privateKey r, sk_passphrase r, sk_keyType r,
      ssh_data.more r)"]) auto

instance entry_body :: countable
  by countable_datatype

instance entry_data_ext :: (countable) countable
  by (rule countable_classI [of "\<lambda>r. to_nat ((en_name r, en_notes r, en_customFields r, en_createdAt r,
      en_updatedAt r), en_lastUsedAt r, en_archivedAt r, en_tags r, en_body r, entry_data.more r)"]) auto

definition sample_host :: mut_host where
  "sample_host = \<lparr>now_at = (\<lambda>n. 1000 + n), uuid_at = (\<lambda>n. ''uuid-'' @ dec n),
     encryptEntry = (\<lambda>k d. \<lparr>sl_wrappedDek = dec k, sl_dekIv = [], sl_ciphertext = dec (to_nat d), sl_iv = []\<rparr>),
     write_ok = True, index_ok = True, schema = (\<lambda>_. True), lower = id, url = (\<lambda>_. None)\<rparr>"

definition sample_unseal :: "sealed \<Rightarrow> entry_data option" where
  "sample_unseal s = Some (from_nat (undec (sl_ciphertext s)))"

definition sample_vault :: "nat vault_entries" where
  "sample_vault = \<lparr>ve_entries = [], ve_stamps = [], ve_tombstones = [], ve_settings = None\<rparr>"

definition sample_env :: "nat mut_env" where
  "sample_env = \<lparr>ev_clock = \<lparr>clk_wall = 0, clk_counter = 0, clk_node = ''a''\<rparr>,
                 ev_disk = emptyEntriesPayload, ev_index = []\<rparr>"

definition sample_note :: entry_data where
  "sample_note = \<lparr>en_name = ''note'', en_notes = None, en_customFields = None, en_createdAt = None,
     en_updatedAt = None, en_lastUsedAt = None, en_archivedAt = None, en_tags = None, en_body = Note\<rparr>"

lemma sample_host_ok: "host_ok sample_unseal (\<lambda>_. None) sample_host sample_vault"
  by (auto simp: host_ok_def sample_host_def sample_unseal_def ids_def sample_vault_def inj_def dec_inj)

lemma sample_session: "session sample_unseal (\<lambda>_. None) sample_vault sample_env True True"
proof (rule session.loaded [of _ 0 _ _ True sample_vault])
  show "canonical (ev_disk sample_env)" "timely 0 (ev_disk sample_env)"
    by (simp_all add: sample_env_def emptyEntriesPayload_def canonical_def wf_payload_def timely_def remoteStamps_def)
  show "reload sample_unseal (\<lambda>_. None) 0 True sample_vault sample_env = ((True, sample_vault), sample_env)"
    by (simp add: reload_def sample_env_def sample_vault_def emptyEntriesPayload_def remoteStamps_def load_refs_def
        stampMap_def map_from_pairs_def)
qed

definition sample_added :: "nat vault_entries" where
  "sample_added = sample_vault\<lparr>
     ve_entries := [with_id ''uuid-0'' (sample_note\<lparr>en_createdAt := Some 1000, en_updatedAt := Some 1000\<rparr>)],
     ve_stamps := [(''uuid-0'', Hlc 1000 0 ''a'')]\<rparr>"

lemma dec_0: "dec 0 = ''0''"
  by (subst dec.simps) code_simp

lemma sample_add:
  "\<exists>env'. mutate sample_host (Add sample_note) sample_vault sample_env = (Inr sample_added, env') \<and>
     ev_clock env' = \<lparr>clk_wall = 1000, clk_counter = 0, clk_node = ''a''\<rparr>"
  by (simp add: add_def with_stamp_def clock_defs send_clock_def sample_host_def sample_env_def sample_vault_def
      MAX_COUNTER_def created_entry_def withPasswordChangelog_def with_id_def entry_data.defs sample_note_def
      persist_def buildPayload_def Let_def sample_added_def dec_0)

lemma sample_add_disk:
  "ev_disk (snd (mutate sample_host (Add sample_note) sample_vault sample_env)) \<noteq> ev_disk sample_env"
  by (simp add: add_def with_stamp_def clock_defs send_clock_def sample_host_def sample_env_def sample_vault_def
      MAX_COUNTER_def created_entry_def withPasswordChangelog_def with_id_def entry_data.defs sample_note_def
      persist_def buildPayload_def Let_def dec_0 emptyEntriesPayload_def)

text \<open>A later mutation, in a host whose index update fails.\<close>

definition sample_host2 :: mut_host where
  "sample_host2 = sample_host\<lparr>index_ok := False, uuid_at := \<lambda>n. ''uuid-'' @ dec (Suc n)\<rparr>"

lemma uuid_not_0: "''uuid-'' @ dec (Suc n) \<noteq> ''uuid-0''"
  using dec_inj [of "Suc n" 0] by (auto simp: dec_0)

lemma sample_host_ok_added:
  "host_ok sample_unseal (\<lambda>_. None) sample_host2 sample_added"
  using uuid_not_0
  by (auto simp: host_ok_def sample_host2_def sample_host_def sample_unseal_def ids_def sample_vault_def sample_added_def inj_def dec_inj)

lemma sample_index_fails:
  "ev_clock env = \<lparr>clk_wall = 1000, clk_counter = 0, clk_node = ''a''\<rparr> \<Longrightarrow>
   \<exists>env'. mutate sample_host2 (SetSetting ''k'' 3) sample_added env =
     (Inl IndexFailed, env')"
  by (simp add: setSetting_def with_stamp_def clock_defs send_clock_def sample_host2_def sample_host_def sample_vault_def
      MAX_COUNTER_def sample_added_def persist_def buildPayload_def Let_def)

subsection \<open>Properties\<close>



text \<open>A mutation that writes makes the file what memory holds, so what another context wrote there since the last load
  is gone: neither the entries nor the settings of the file are read again before it is rewritten.\<close>

lemma write_drops_unloaded_change:
  assumes "host_ok unseal u h cur" "ve_ok cur (ev_clock env)" "mutate h x cur env = (Inr nxt, env')"
    and "ev_disk env' \<noteq> ev_disk env"
  shows "in_file unseal nxt env'"
  using mutate_ok [OF assms(1,2), of x] assms(3,4) by (auto simp: outcome_ok_def in_sync_def)

text \<open>A mutation in the middle of a load. A load replaces the stamps first and the entries after decrypting them; a
  change made in between writes the entries memory still has under the stamps of the file it has just read. An entry
  edited by a peer goes back to its old content under the peer's own stamp, and no later merge can tell the two apart.\<close>

lemma change_during_load_reverts_entry:
  assumes "host_ok unseal u h cur" "e \<in> set (ve_entries cur)"
    and "setSetting h (load_refs p cur) k v env = (Inr nxt, env')"
  shows "\<exists>s \<in> set (entries (ev_disk env')). ee_id s = en_id e \<and> unseal (sealed_of s) = Some (without_id e) \<and>
    Some (ee_hlc s) = map_of (stampMap (map (\<lambda>e. (ee_id e, ee_hlc e)) (entries p))) (en_id e)"
proof -
  have enc: "\<And>k d. unseal (encryptEntry h k d) = Some d"
    using assms(1) by (simp add: host_ok_def)
  obtain hl c where nxt: "persist h ((load_refs p cur)\<lparr>ve_settings := Some (AList.update k \<lparr>ss_hlc = hl, ss_value = v\<rparr>
      (case ve_settings (load_refs p cur) of None \<Rightarrow> [] | Some m \<Rightarrow> m))\<rparr>) (env\<lparr>ev_clock := c\<rparr>) = (Inr nxt, env')"
    using assms(3) by (auto simp: setSetting_def with_stamp_def split: prod.splits sum.splits)
  have held: "in_file unseal nxt env'" and n: "ve_entries nxt = ve_entries cur" "ve_stamps nxt = ve_stamps (load_refs p cur)"
    using persist_Inr [OF nxt enc] by (auto simp: in_sync_def load_refs_def)
  have "(en_id e, map_of (ve_stamps nxt) (en_id e), Some (without_id e)) \<in>
      set (map (\<lambda>e. (ee_id e, Some (ee_hlc e), unseal (sealed_of e))) (entries (ev_disk env')))"
    using held assms(2) n(1) unfolding in_file_def by (metis (no_types, lifting) image_eqI list.set_map)
  then show ?thesis
    by (auto simp: n(2) load_refs_def)
qed

text \<open>A local change always wins over the state it was made on. After a successful mutation,
  merging the old file with the new one, as a peer that still has the old state does, yields
  the new state: no edit, delete, tag, archive or setting is lost, and none comes back. (The clock has to be past
  the settings' stamps, which loading a file does not see to.)\<close>

lemma mutation_survives_merge:
  assumes "session unseal u cur env True indexed" "host_ok unseal u h cur" "mutate h x cur env = (Inr nxt, env')"
    and "settings_seen cur (ev_clock env)"
  shows "payload_view (mergeEntriesPayload (ev_disk env) (ev_disk env')) = payload_view (ev_disk env') \<and>
    payload_view (mergeEntriesPayload (ev_disk env') (ev_disk env)) = payload_view (ev_disk env')"
proof -
  have ok: "ve_ok cur (ev_clock env)" "in_file unseal cur env"
    using session_inv [OF assms(1)] by auto
  have adv: "advances cur (ev_clock env) nxt (ev_clock env')"
    using mutate_ok [OF assms(2) ok(1), of x] assms(3) by (simp add: outcome_ok_def)
  have ok': "ve_ok nxt (ev_clock env')" "in_file unseal nxt env'"
    using session_inv [OF session.saved [OF assms(1-3)]] by auto
  have "payload_view (mergeEntriesPayload (ev_disk env) (ev_disk env')) =
      join_payload (ve_view cur) (ve_view nxt)"
    using payload_view_merge [OF wf_disk [OF ok'(2,1)]] view_of_disk [OF ok(2,1)] view_of_disk [OF ok'(2,1)] by simp
  moreover have "payload_view (mergeEntriesPayload (ev_disk env) (ev_disk env')) =
      payload_view (mergeEntriesPayload (ev_disk env') (ev_disk env))"
    using wf_disk [OF ok(2,1)] wf_disk [OF ok'(2,1)] by (rule payloads.merge_comm)
  ultimately show ?thesis
    using adv assms(4) view_of_disk [OF ok'(2,1)] by (simp add: advances_def)
qed

text \<open>A refused change changes nothing in memory, nor the index. The failure is an invalid entry, a failed write, a
  failed index update or an exhausted clock counter, a missing stamp cannot occur, and only a failed index update has
  the file ahead of memory.\<close>

lemma refused_mutation_changes_nothing:
  assumes "session unseal u cur env in_step indexed" "host_ok unseal u h cur" "mutate h x cur env = (Inl e, env')"
  shows "ev_index env' = ev_index env \<and> (ev_disk env' = ev_disk env \<or> e = IndexFailed) \<and>
    (e = InvalidEntry \<or> e = WriteFailed \<or> e = IndexFailed \<or> e = ClockError CounterOverflow)"
  using mutate_ok [OF assms(2), of env x] session_inv [OF assms(1)] assms(3)
  by (auto simp: outcome_ok_def ok_error_def)

lemma sample_refused:
  "mutate (sample_host\<lparr>schema := \<lambda>_. False\<rparr>) (Add sample_note) sample_vault sample_env = (Inl InvalidEntry, sample_env)"
  by (simp add: add_def)

text \<open>A stale peer cannot bring a deleted entry back. After a successful bulk delete, merging
  in any payload whose entries of a deleted id are not stamped beyond this device's clock at
  the time leaves that id without an entry.\<close>

lemma deleted_entry_stays_deleted:
  assumes "session unseal u cur env True indexed" "host_ok unseal u h cur"
    and "mutate h (RemoveMany is) cur env = (Inr nxt, env')" "i \<in> set is"
    and "map_option ee_hlc (entry_at remote i) \<le> Some (stamp_of (ev_clock env))"
  shows "entry_at (mergeEntriesPayload (ev_disk env') remote) i = None"
proof -
  have ok: "ve_ok cur (ev_clock env)"
    using session_inv [OF assms(1)] by auto
  have ok': "ve_ok nxt (ev_clock env')" "in_file unseal nxt env'"
    using session_inv [OF session.saved [OF assms(1-3)]] by auto
  have "is \<noteq> []" using assms(4) by auto
  then obtain st g c where bury: "bury h 0 (js_set is) (ve_stamps cur, ve_tombstones cur) (ev_clock env) = (Inr (st, g), c)"
    and nxt: "nxt = cur\<lparr>ve_entries := filter (\<lambda>e. en_id e \<notin> set is) (ve_entries cur), ve_stamps := st, ve_tombstones := g\<rparr>"
    using assms(3) by (auto simp: removeMany_def Let_def split: prod.splits sum.splits dest!: persist_result)
  have view: "payload_view (ev_disk env') = ve_view nxt"
    using ok' by (intro view_of_disk)
  then have "map_option ee_hlc (entry_at (ev_disk env') i) = live_st nxt i"
    by (simp add: payload_view_def ve_view_def fun_eq_iff)
  moreover have "live_st nxt i = None"
    using assms(4) by (auto simp: nxt live_st_def ids_def)
  ultimately have gone: "entry_at (ev_disk env') i = None"
    by simp
  have "tomb_at (ev_disk env') i = map_of g i"
    using view by (auto simp: payload_view_def ve_view_def nxt fun_eq_iff)
  moreover have "Some (stamp_of (ev_clock env)) < map_of g i"
    using bury_Inr [OF bury] assms(4) by (auto simp: fresh_at_def)
  ultimately have "map_option ee_hlc (entry_at remote i) < tomb_at (ev_disk env') i"
    using assms(5) by (metis le_less_trans)
  then have old: "map_option ee_hlc (entry_at remote i) < max (tomb_at (ev_disk env') i) (tomb_at remote i)"
    by (rule less_le_trans) simp
  show ?thesis
  proof (cases "entry_at remote i")
    case (Some e)
    with old have "\<not> max (tomb_at (ev_disk env') i) (tomb_at remote i) < Some (ee_hlc e)"
      by (metis less_asym option.simps(9))
    with Some show ?thesis
      by (simp add: entry_at_merge gone alive_def)
  qed (simp add: entry_at_merge gone alive_def)
qed

text \<open>A mutation touches only what it names. Entries with other ids stay verbatim and keep
  their stamps, tombstones of other ids stay, and every setting but the one written is carried
  through the rewrite of the payload.\<close>

lemma mutation_leaves_rest_alone:
  assumes "host_ok unseal u h cur" "mutate h x cur env = (Inr nxt, env')"
  shows "frame (targets x) (setting_targets x) cur nxt"
  using assms by (rule mutate_frame)

end
