(* ===== verification/Channels.thy ===== *)
theory Channels
  imports Js_Text "HOL-Library.Multiset"
begin

text \<open>
  How a message between two devices is cut into pieces and put together again: the relay
  transport (\<open>packages/core/src/sync/transport/relay-channel.ts\<close>: size padding, chunks,
  reassembly) and the framing of an authenticated Noise session
  (\<open>sync/transport/secure-channel.ts\<close>), over the queueing channel of \<open>channel.ts\<close>.

  Relay messages are strings whose characters are UTF-16 units; the messages of a Noise session
  are lists of Unicode scalar values, encoded as UTF-8 by \<open>TextEncoder\<close>. Noise itself runs in
  the Rust core and is the argument \<open>N\<close>: encryption and decryption at a nonce.
\<close>

subsection \<open>Size padding\<close>

definition LEN_HEADER :: nat where
  "LEN_HEADER = 8"

text \<open>\<open>Math.floor(Math.log2(n))\<close> for a positive \<open>n\<close>.\<close>

fun log2_floor :: "nat \<Rightarrow> nat" where
  "log2_floor n = (if n < 2 then 0 else Suc (log2_floor (n div 2)))"

declare log2_floor.simps [simp del]

text \<open>\<open>1 << k\<close>: the shift count is taken modulo 32, and bit 31 is the sign.\<close>

definition shl_one :: "nat \<Rightarrow> int" where
  "shl_one k = (if k mod 32 = 31 then - (2 ^ 31) else 2 ^ (k mod 32))"

definition paddedLen :: "nat \<Rightarrow> nat" where
  "paddedLen n =
     (if n \<le> 32 then 32
      else let nextPower = shl_one (log2_floor (n - 1) + 1);
               step = (if nextPower \<le> 256 then 32 else nat (nextPower div 8))
           in step * ((n - 1) div step + 1))"

text \<open>\<open>toString(16)\<close> and \<open>padStart\<close>.\<close>

definition hex_char :: "nat \<Rightarrow> char" where
  "hex_char d = ''0123456789abcdef'' ! d"

fun hex_digits :: "nat \<Rightarrow> string" where
  "hex_digits n = (if n < 16 then [hex_char n] else hex_digits (n div 16) @ [hex_char (n mod 16)])"

declare hex_digits.simps [simp del]

definition padStart :: "nat \<Rightarrow> char \<Rightarrow> string \<Rightarrow> string" where
  "padStart n c s = replicate (n - length s) c @ s"

text \<open>\<open>Number.parseInt(s, 16)\<close> on hexadecimal digits; it stops at the first other character.\<close>

fun hex_val :: "char \<Rightarrow> nat option" where
  "hex_val c =
     (let n = (of_char c :: nat)
      in if 48 \<le> n \<and> n \<le> 57 then Some (n - 48)
         else if 97 \<le> n \<and> n \<le> 102 then Some (n - 87)
         else if 65 \<le> n \<and> n \<le> 70 then Some (n - 55)
         else None)"

fun parse_hex :: "nat \<Rightarrow> string \<Rightarrow> nat" where
  "parse_hex acc [] = acc"
| "parse_hex acc (c # s) = (case hex_val c of None \<Rightarrow> acc | Some d \<Rightarrow> parse_hex (acc * 16 + d) s)"

definition padMessage :: "string \<Rightarrow> string" where
  "padMessage s =
     (let header = padStart LEN_HEADER (CHR ''0'') (hex_digits (length s));
          total = paddedLen (LEN_HEADER + length s)
      in header @ s @ replicate (total - LEN_HEADER - length s) (CHR ''0''))"

definition unpadMessage :: "string \<Rightarrow> string" where
  "unpadMessage padded =
     (let n = parse_hex 0 (take LEN_HEADER padded) in take n (drop LEN_HEADER padded))"

subsection \<open>Chunks\<close>

definition MAX_CHUNK :: nat where
  "MAX_CHUNK = 32 * 1024"

record data_frame =
  df_msgId :: nat
  df_idx :: int
  df_total :: nat
  df_chunk :: string

definition chunk_count :: "string \<Rightarrow> nat" where
  "chunk_count s = max 1 ((length s + MAX_CHUNK - 1) div MAX_CHUNK)"

definition chunk_at :: "string \<Rightarrow> nat \<Rightarrow> string" where
  "chunk_at s i = take MAX_CHUNK (drop (i * MAX_CHUNK) s)"

definition chunkMessage :: "nat \<Rightarrow> string \<Rightarrow> data_frame list" where
  "chunkMessage msgId s =
     map (\<lambda>i. \<lparr>df_msgId = msgId, df_idx = int i, df_total = chunk_count s, df_chunk = chunk_at s i\<rparr>)
       [0..<chunk_count s]"

text \<open>
  The reassembler's pending messages; its step returns what it delivers. A frame may carry any
  index; \<open>total\<close> is the one of the first frame seen.
\<close>

record pending_message =
  pm_parts :: "string option list"
  pm_have :: nat
  pm_total :: nat

definition pending_entry :: "data_frame \<Rightarrow> (nat \<times> pending_message) list \<Rightarrow> pending_message" where
  "pending_entry f pending =
     (case map_of pending (df_msgId f) of
        Some e \<Rightarrow> e
      | None \<Rightarrow> \<lparr>pm_parts = replicate (df_total f) None, pm_have = 0, pm_total = df_total f\<rparr>)"

definition add_part :: "data_frame \<Rightarrow> pending_message \<Rightarrow> pending_message" where
  "add_part f e =
     (if 0 \<le> df_idx f \<and> df_idx f < int (pm_total e) \<and> pm_parts e ! nat (df_idx f) = None
      then e\<lparr>pm_parts := (pm_parts e)[nat (df_idx f) := Some (df_chunk f)], pm_have := Suc (pm_have e)\<rparr>
      else e)"

definition joined :: "pending_message \<Rightarrow> string" where
  "joined e = concat (map (\<lambda>p. case p of None \<Rightarrow> [] | Some c \<Rightarrow> c) (pm_parts e))"

definition reassemble :: "data_frame \<Rightarrow> (nat \<times> pending_message) list \<Rightarrow> string option \<times> (nat \<times> pending_message) list" where
  "reassemble f pending =
     (let e = add_part f (pending_entry f pending)
      in if pm_have e = pm_total e then (Some (joined e), AList.delete (df_msgId f) pending)
         else (None, AList.update (df_msgId f) e pending))"

fun reassemble_all :: "data_frame list \<Rightarrow> (nat \<times> pending_message) list \<Rightarrow> string list \<times> (nat \<times> pending_message) list" where
  "reassemble_all [] pending = ([], pending)"
| "reassemble_all (f # fs) pending =
     (case reassemble f pending of
        (d, p) \<Rightarrow> (case reassemble_all fs p of (ds, q) \<Rightarrow> ((case d of None \<Rightarrow> ds | Some s \<Rightarrow> s # ds), q)))"

subsection \<open>The queueing channel\<close>

text \<open>\<open>waiting\<close> counts at most one receiver; a push wakes it or is queued.\<close>

record 'm chan =
  ch_queue :: "'m list"
  ch_waiting :: bool

definition chan_recv :: "'m chan \<Rightarrow> 'm option \<times> 'm chan" where
  "chan_recv c =
     (case ch_queue c of
        x # xs \<Rightarrow> (Some x, c\<lparr>ch_queue := xs\<rparr>)
      | [] \<Rightarrow> (None, c\<lparr>ch_waiting := True\<rparr>))"

definition chan_push :: "'m \<Rightarrow> 'm chan \<Rightarrow> 'm option \<times> 'm chan" where
  "chan_push x c =
     (if ch_waiting c then (Some x, c\<lparr>ch_waiting := False\<rparr>)
      else (None, c\<lparr>ch_queue := ch_queue c @ [x]\<rparr>))"

subsection \<open>UTF-8 chunks\<close>

text \<open>\<open>TextDecoder.decode\<close>, which drops a leading byte order mark.\<close>

definition is_continuation :: "nat \<Rightarrow> bool" where
  "is_continuation b \<longleftrightarrow> 128 \<le> b \<and> b < 192"

fun utf8_decode_nobom :: "nat list \<Rightarrow> nat list" where
  "utf8_decode_nobom [] = []"
| "utf8_decode_nobom (a # bs) =
     (if a < 128 then a # utf8_decode_nobom bs
      else if a < 224 then
        (case bs of b # r \<Rightarrow> ((a - 192) * 64 + (b - 128)) # utf8_decode_nobom r | _ \<Rightarrow> [65533])
      else if a < 240 then
        (case bs of b # c # r \<Rightarrow> ((a - 224) * 4096 + (b - 128) * 64 + (c - 128)) # utf8_decode_nobom r | _ \<Rightarrow> [65533])
      else
        (case bs of b # c # d # r \<Rightarrow>
            ((a - 240) * 262144 + (b - 128) * 4096 + (c - 128) * 64 + (d - 128)) # utf8_decode_nobom r
          | _ \<Rightarrow> [65533]))"

definition BOM :: nat where
  "BOM = 65279"

definition utf8_decode :: "nat list \<Rightarrow> nat list" where
  "utf8_decode bs =
     (case utf8_decode_nobom bs of [] \<Rightarrow> [] | c # s \<Rightarrow> if c = BOM then s else c # s)"

definition CHUNK_BYTES :: nat where
  "CHUNK_BYTES = 32 * 1024"

text \<open>Back off from \<open>e\<close> to a codepoint boundary, not below \<open>start\<close>.\<close>

fun back_off :: "nat list \<Rightarrow> nat \<Rightarrow> nat \<Rightarrow> nat" where
  "back_off bs start 0 = 0"
| "back_off bs start (Suc e) =
     (if Suc e < length bs \<and> is_continuation (bs ! Suc e) \<and> start < Suc e then back_off bs start e else Suc e)"

text \<open>The loop; it makes no progress when one codepoint is longer than \<open>maxBytes\<close>, so it has fuel.\<close>

fun chunk_loop :: "nat \<Rightarrow> nat list \<Rightarrow> nat \<Rightarrow> nat \<Rightarrow> nat list list option" where
  "chunk_loop fuel bs maxBytes start =
     (if length bs \<le> start then Some []
      else (case fuel of
              0 \<Rightarrow> None
            | Suc k \<Rightarrow>
                (let e = back_off bs start (min (start + maxBytes) (length bs))
                 in map_option ((#) (utf8_decode (take (e - start) (drop start bs))))
                      (chunk_loop k bs maxBytes e))))"

declare chunk_loop.simps [simp del]

definition chunkUtf8 :: "nat \<Rightarrow> nat list \<Rightarrow> nat \<Rightarrow> nat list list option" where
  "chunkUtf8 fuel s maxBytes =
     (let bs = utf8_bytes s
      in if length bs \<le> maxBytes then Some [s] else chunk_loop fuel bs maxBytes 0)"

subsection \<open>Noise frames\<close>

record noise =
  n_encrypt :: "nat \<Rightarrow> nat list \<Rightarrow> string"
  n_decrypt :: "nat \<Rightarrow> string \<Rightarrow> nat list option"

text \<open>
  A channel message: a bare base64 ciphertext or the JSON of a frame. A base64 text never
  starts with the brace that starts the JSON, so \<open>parseFrame\<close> tells them apart.
\<close>

datatype wire = Bare string | Framed nat nat string

text \<open>\<open>sendSecure\<close>: the messages sent and the sender's next nonce.\<close>

fun send_frames :: "noise \<Rightarrow> nat \<Rightarrow> nat \<Rightarrow> nat \<Rightarrow> nat list list \<Rightarrow> wire list" where
  "send_frames N nonce i n [] = []"
| "send_frames N nonce i n (c # cs) = Framed i n (n_encrypt N nonce c) # send_frames N (Suc nonce) (Suc i) n cs"

definition sendSecure :: "noise \<Rightarrow> nat \<Rightarrow> nat list \<Rightarrow> (wire list \<times> nat) option" where
  "sendSecure N nonce plaintext =
     (case chunkUtf8 (Suc (length (utf8_bytes plaintext))) plaintext CHUNK_BYTES of
        None \<Rightarrow> None
      | Some chunks \<Rightarrow>
          Some (if length chunks = 1 then [Bare (n_encrypt N nonce (hd chunks))]
                else send_frames N nonce 0 (length chunks) chunks,
                nonce + length chunks))"

datatype 'a received = Got 'a | Closed | Broken

text \<open>
  \<open>recvSecure\<close> on the messages still to come; running out of them is the closed channel. A
  wrong frame, or a frame that does not decrypt, throws.
\<close>

fun recv_frames :: "noise \<Rightarrow> nat \<Rightarrow> nat \<Rightarrow> nat \<Rightarrow> nat list \<Rightarrow> wire list \<Rightarrow> (nat list received) \<times> nat \<times> wire list" where
  "recv_frames N nonce i 0 out ms = (Got out, nonce, ms)"
| "recv_frames N nonce i (Suc k) out [] = (Closed, nonce, [])"
| "recv_frames N nonce i (Suc k) out (Bare c # ms) = (Broken, nonce, ms)"
| "recv_frames N nonce i (Suc k) out (Framed j n c # ms) =
     (if j \<noteq> i then (Broken, nonce, ms)
      else (case n_decrypt N nonce c of
              None \<Rightarrow> (Broken, nonce, ms)
            | Some p \<Rightarrow> recv_frames N (Suc nonce) (Suc i) k (out @ p) ms))"

fun recvSecure :: "noise \<Rightarrow> nat \<Rightarrow> wire list \<Rightarrow> (nat list received) \<times> nat \<times> wire list" where
  "recvSecure N nonce [] = (Closed, nonce, [])"
| "recvSecure N nonce (Bare c # ms) =
     (case n_decrypt N nonce c of None \<Rightarrow> (Broken, nonce, ms) | Some p \<Rightarrow> (Got p, Suc nonce, ms))"
| "recvSecure N nonce (Framed i n c # ms) =
     (case n_decrypt N nonce c of
        None \<Rightarrow> (Broken, nonce, ms)
      | Some p \<Rightarrow> recv_frames N (Suc nonce) 1 (n - 1) p ms)"

subsection \<open>Padding loses nothing and bounds the overhead\<close>

lemma hex_char_val: "d < 16 \<Longrightarrow> hex_val (hex_char d) = Some d"
proof -
  have "list_all (\<lambda>d. hex_val (hex_char d) = Some d) [0..<16]"
    by code_simp
  then show "d < 16 \<Longrightarrow> hex_val (hex_char d) = Some d"
    by (simp add: list_all_iff del: hex_val.simps)
qed

lemma parse_hex_append:
  "list_all (\<lambda>c. hex_val c \<noteq> None) xs \<Longrightarrow> parse_hex acc (xs @ ys) = parse_hex (parse_hex acc xs) ys"
  by (induction xs arbitrary: acc) (auto simp del: hex_val.simps split: option.split)

lemma hex_digits_ok: "list_all (\<lambda>c. hex_val c \<noteq> None) (hex_digits n) \<and> hex_digits n \<noteq> []"
proof (induction n rule: hex_digits.induct)
  case (1 n)
  then show ?case
    by (subst (1 2) hex_digits.simps) (auto simp: hex_char_val simp del: hex_val.simps)
qed

lemma parse_hex_of_digits: "parse_hex acc (hex_digits n) = acc * 16 ^ length (hex_digits n) + n"
proof (induction n arbitrary: acc rule: hex_digits.induct)
  case (1 n)
  show ?case
  proof (cases "n < 16")
    case True
    then show ?thesis
      by (subst (1 2) hex_digits.simps) (simp add: hex_char_val del: hex_val.simps)
  next
    case False
    have n: "hex_digits n = hex_digits (n div 16) @ [hex_char (n mod 16)]"
      using False by (subst hex_digits.simps) simp
    show ?thesis
      using 1 [OF False, of acc] hex_digits_ok [of "n div 16"]
      by (simp add: n parse_hex_append hex_char_val algebra_simps del: hex_val.simps)
  qed
qed

lemma hex_digits_length: "n < 16 ^ Suc k \<Longrightarrow> length (hex_digits n) \<le> Suc k"
proof (induction k arbitrary: n)
  case 0
  then show ?case by (subst hex_digits.simps) simp
next
  case (Suc k)
  show ?case
  proof (cases "n < 16")
    case False
    have "n div 16 < 16 ^ Suc k"
      using Suc.prems by (simp add: less_mult_imp_div_less mult.commute)
    with Suc.IH [OF this] False show ?thesis
      by (subst hex_digits.simps) simp
  qed (subst hex_digits.simps, simp)
qed

lemma parse_hex_zeros: "parse_hex 0 (replicate k (CHR ''0'') @ s) = parse_hex 0 s"
  by (induction k) simp_all

lemma header_parses:
  "n < 16 ^ LEN_HEADER \<Longrightarrow>
   length (padStart LEN_HEADER (CHR ''0'') (hex_digits n)) = LEN_HEADER \<and>
   parse_hex 0 (padStart LEN_HEADER (CHR ''0'') (hex_digits n)) = n"
  using hex_digits_length [of n 7] parse_hex_of_digits [of 0 n]
  by (simp add: padStart_def LEN_HEADER_def parse_hex_zeros)

lemma log2_floor_bounds: "0 < n \<Longrightarrow> 2 ^ log2_floor n \<le> n \<and> n < 2 ^ Suc (log2_floor n)"
proof (induction n rule: log2_floor.induct)
  case (1 n)
  show ?case
  proof (cases "n < 2")
    case True
    with 1(2) have "n = 1" by simp
    then show ?thesis by (simp add: log2_floor.simps)
  next
    case False
    then have "2 ^ log2_floor (n div 2) \<le> n div 2 \<and> n div 2 < 2 ^ Suc (log2_floor (n div 2))"
      using 1 by simp
    with False show ?thesis
      by (subst (1 2) log2_floor.simps) auto
  qed
qed

lemma round_up_bounds: "0 < k \<Longrightarrow> 0 < n \<Longrightarrow> n \<le> k * ((n - 1) div k + 1) \<and> k * ((n - 1) div k + 1) < n + (k :: nat)"
  using dividend_less_times_div [of k "n - 1"] times_div_less_eq_dividend [of k "n - 1"]
  unfolding distrib_left mult_1_right by linarith

lemma shl_one_le: "shl_one k \<le> 2 ^ k"
proof -
  have "(2 :: int) ^ (k mod 32) \<le> 2 ^ k"
    by (rule power_increasing) auto
  moreover have "- (2 ^ 31 :: int) \<le> 2 ^ k"
    by (smt (verit) zero_le_power)
  ultimately show ?thesis
    by (simp add: shl_one_def)
qed

lemma paddedLen_bounds: "n \<le> paddedLen n \<and> paddedLen n \<le> n + max 32 (n div 4)"
proof (cases "n \<le> 32")
  case False
  define L where "L = log2_floor (n - 1)"
  define k :: nat where "k = (if shl_one (L + 1) \<le> 256 then 32 else nat (shl_one (L + 1) div 8))"
  have "2 ^ L \<le> n"
    using log2_floor_bounds [of "n - 1"] False unfolding L_def by linarith
  then have "2 ^ (L + 1) \<le> int (2 * n)"
    by (metis of_nat_le_iff of_nat_numeral of_nat_power power_add power_one_right mult.commute mult_le_mono2 nat_mult_le_cancel1)
  then have "shl_one (L + 1) \<le> int (2 * n)"
    using shl_one_le [of "L + 1"] by linarith
  then have "shl_one (L + 1) div 8 \<le> int (n div 4)"
    by (simp add: zdiv_int)
  then have "k \<le> max 32 (n div 4)"
    by (auto simp: k_def)
  moreover have "0 < k"
    by (auto simp: k_def)
  moreover have "paddedLen n = k * ((n - 1) div k + 1)"
    using False by (simp add: paddedLen_def Let_def k_def L_def)
  ultimately show ?thesis
    using round_up_bounds [of k n] False by simp
qed (simp add: paddedLen_def)

text \<open>A quarter is reached: 1025 characters are padded to 1280.\<close>

lemma overhead_near_a_quarter: "paddedLen 1025 = 1280"
  by code_simp

subsection \<open>Reassembly\<close>

lemma concat_chunks: "concat (map (\<lambda>i. take k (drop (i * k) s)) [0..<m]) = take (m * k) s"
  by (induction m) (simp_all add: add.commute flip: take_add)

lemma chunks_cover: "length s \<le> chunk_count s * MAX_CHUNK"
proof -
  have "length s \<le> (length s + MAX_CHUNK - 1) div MAX_CHUNK * MAX_CHUNK"
    by (simp add: MAX_CHUNK_def)
  then show ?thesis
    by (auto simp: chunk_count_def max_def MAX_CHUNK_def split: if_splits)
qed

lemma concat_chunk_at: "concat (map (chunk_at s) [0..<chunk_count s]) = s"
  using concat_chunks [of MAX_CHUNK s "chunk_count s"] chunks_cover [of s] by (simp add: chunk_at_def [abs_def])

lemma chunk_count_pos: "0 < chunk_count s"
  by (simp add: chunk_count_def)

text \<open>The frame with index \<open>i\<close> of message \<open>d\<close>.\<close>

definition frame_of :: "(nat \<Rightarrow> string) \<Rightarrow> nat \<Rightarrow> nat \<Rightarrow> data_frame" where
  "frame_of M d i = \<lparr>df_msgId = d, df_idx = int i, df_total = chunk_count (M d), df_chunk = chunk_at (M d) i\<rparr>"

text \<open>The entry of a message of which exactly the frames \<open>S\<close> have arrived.\<close>

definition entry_of :: "(nat \<Rightarrow> string) \<Rightarrow> nat \<Rightarrow> nat set \<Rightarrow> pending_message" where
  "entry_of M d S =
     \<lparr>pm_parts = map (\<lambda>i. if i \<in> S then Some (chunk_at (M d) i) else None) [0..<chunk_count (M d)],
      pm_have = card S, pm_total = chunk_count (M d)\<rparr>"

definition arrived :: "data_frame set \<Rightarrow> (nat \<Rightarrow> string) \<Rightarrow> nat \<Rightarrow> nat set" where
  "arrived F M d = {i. i < chunk_count (M d) \<and> frame_of M d i \<in> F}"

definition complete :: "data_frame set \<Rightarrow> (nat \<Rightarrow> string) \<Rightarrow> nat \<Rightarrow> bool" where
  "complete F M d \<longleftrightarrow> arrived F M d = {..<chunk_count (M d)}"

definition pending_ok :: "data_frame set \<Rightarrow> (nat \<Rightarrow> string) \<Rightarrow> (nat \<times> pending_message) list \<Rightarrow> bool" where
  "pending_ok F M pending \<longleftrightarrow>
     (\<forall>d. map_of pending d =
        (if arrived F M d = {} \<or> complete F M d then None else Some (entry_of M d (arrived F M d))))"

lemma frame_of_inj [simp]: "frame_of M d i = frame_of M d' i' \<longleftrightarrow> d = d' \<and> i = i'"
  by (auto simp: frame_of_def)

lemma arrived_insert:
  "i < chunk_count (M d) \<Longrightarrow>
   arrived (insert (frame_of M d i) F) M d' = (if d' = d then insert i (arrived F M d) else arrived F M d')"
  by (auto simp: arrived_def)

lemma finite_arrived [simp]: "finite (arrived F M d)"
  by (simp add: arrived_def)

lemma add_part_entry:
  assumes "i < chunk_count (M d)" "i \<notin> S" "finite S"
  shows "add_part (frame_of M d i) (entry_of M d S) = entry_of M d (insert i S)"
  using assms by (auto simp: add_part_def frame_of_def entry_of_def nth_list_update intro!: nth_equalityI)

lemma pending_entry_ok:
  assumes "pending_ok F M pending" "\<not> complete F M d"
  shows "pending_entry (frame_of M d i) pending = entry_of M d (arrived F M d)"
proof -
  have "\<lparr>pm_parts = replicate (chunk_count (M d)) None, pm_have = 0, pm_total = chunk_count (M d)\<rparr> = entry_of M d {}"
    by (simp add: entry_of_def map_replicate_const)
  then show ?thesis
    using assms by (simp add: pending_entry_def pending_ok_def frame_of_def)
qed

lemma joined_full: "joined (entry_of M d {..<chunk_count (M d)}) = M d"
proof -
  have "joined (entry_of M d {..<chunk_count (M d)}) = concat (map (chunk_at (M d)) [0..<chunk_count (M d)])"
    by (auto simp: joined_def entry_of_def comp_def intro!: arg_cong [of _ _ concat] map_cong)
  then show ?thesis by (simp add: concat_chunk_at)
qed

lemma reassemble_step:
  assumes ok: "pending_ok F M pending" and i: "i < chunk_count (M d)" and new: "frame_of M d i \<notin> F"
  shows "case reassemble (frame_of M d i) pending of
    (r, pending') \<Rightarrow>
      pending_ok (insert (frame_of M d i) F) M pending' \<and>
      r = (if complete (insert (frame_of M d i) F) M d then Some (M d) else None)"
proof -
  let ?S = "arrived F M d"
  have S: "i \<notin> ?S" "?S \<subseteq> {..<chunk_count (M d)}"
    using new by (auto simp: arrived_def)
  have "\<not> complete F M d"
    using S(1) i by (auto simp: complete_def)
  then have e: "add_part (frame_of M d i) (pending_entry (frame_of M d i) pending) = entry_of M d (insert i ?S)"
    using pending_entry_ok [OF ok] add_part_entry [of i M d ?S] i S(1) by simp
  have full: "card (insert i ?S) = chunk_count (M d) \<longleftrightarrow> insert i ?S = {..<chunk_count (M d)}"
    using i S(2) by (metis card_lessThan card_subset_eq finite_lessThan insert_subset lessThan_iff)
  have "pm_have (entry_of M d (insert i ?S)) = card (insert i ?S)" "pm_total (entry_of M d (insert i ?S)) = chunk_count (M d)"
    "df_msgId (frame_of M d i) = d"
    by (simp_all add: entry_of_def frame_of_def)
  then have r: "reassemble (frame_of M d i) pending =
      (if insert i ?S = {..<chunk_count (M d)}
       then (Some (M d), AList.delete d pending)
       else (None, AList.update d (entry_of M d (insert i ?S)) pending))"
    using joined_full [of M d] by (simp only: reassemble_def e Let_def full) simp
  show ?thesis
    using ok i S(1)
    by (auto simp: r pending_ok_def complete_def arrived_insert jsmap_simps)
qed

text \<open>Frames of the messages \<open>M\<close>, each at most once, in any order: the messages they complete come out.\<close>

definition frames_ok :: "(nat \<Rightarrow> string) \<Rightarrow> data_frame list \<Rightarrow> bool" where
  "frames_ok M fs \<longleftrightarrow> (\<forall>f \<in> set fs. \<exists>d i. i < chunk_count (M d) \<and> f = frame_of M d i)"

definition newly :: "data_frame set \<Rightarrow> data_frame list \<Rightarrow> (nat \<Rightarrow> string) \<Rightarrow> nat set" where
  "newly F fs M = {d. complete (F \<union> set fs) M d \<and> \<not> complete F M d}"

lemma complete_mono: "F \<subseteq> G \<Longrightarrow> complete F M d \<Longrightarrow> complete G M d"
  by (auto simp: complete_def arrived_def)

lemma complete_insert_other:
  "i < chunk_count (M d) \<Longrightarrow> d' \<noteq> d \<Longrightarrow> complete (insert (frame_of M d i) F) M d' \<longleftrightarrow> complete F M d'"
  by (simp add: complete_def arrived_insert)

lemma finite_newly: "frames_ok M fs \<Longrightarrow> finite (newly F fs M)"
proof (induction fs arbitrary: F)
  case (Cons f fs)
  obtain d i where f: "i < chunk_count (M d)" "f = frame_of M d i"
    using Cons.prems by (auto simp: frames_ok_def)
  have "newly F (f # fs) M \<subseteq> insert d (newly (insert f F) fs M)"
    using complete_insert_other [of i M d] f by (auto simp: newly_def)
  moreover have "finite (newly (insert f F) fs M)"
    using Cons by (simp add: frames_ok_def)
  ultimately show ?case by (meson finite_insert finite_subset)
qed (simp add: newly_def)

lemma reassemble_all_complete:
  assumes "pending_ok F M pending" "frames_ok M fs" "distinct fs" "set fs \<inter> F = {}"
  shows "case reassemble_all fs pending of
    (ds, pending') \<Rightarrow> pending_ok (F \<union> set fs) M pending' \<and> mset ds = image_mset M (mset_set (newly F fs M))"
  using assms
proof (induction fs arbitrary: F pending)
  case (Cons f fs)
  obtain d i where f: "i < chunk_count (M d)" "f = frame_of M d i"
    using Cons.prems(2) by (auto simp: frames_ok_def)
  obtain r p where r: "reassemble f pending = (r, p)" by fastforce
  have new: "f \<notin> F" and step: "pending_ok (insert f F) M p" "r = (if complete (insert f F) M d then Some (M d) else None)"
    using reassemble_step [OF Cons.prems(1) f(1)] Cons.prems(4) f r by auto
  obtain ds q where ds: "reassemble_all fs p = (ds, q)" by fastforce
  have ih: "pending_ok (insert f F \<union> set fs) M q" "mset ds = image_mset M (mset_set (newly (insert f F) fs M))"
    using Cons.IH [OF step(1)] Cons.prems(2-4) ds by (auto simp: frames_ok_def)
  have "\<not> complete F M d"
    using new f by (auto simp: complete_def arrived_def)
  then have split: "newly F (f # fs) M =
      (if complete (insert f F) M d then insert d (newly (insert f F) fs M) else newly (insert f F) fs M)"
    (is "?l = ?r")
  proof (intro set_eqI)
    fix x
    show "x \<in> ?l \<longleftrightarrow> x \<in> ?r"
      using complete_insert_other [of i M d x F, OF f(1)] f(2) complete_mono [of "insert f F" "insert f F \<union> set fs" M d]
        \<open>\<not> complete F M d\<close>
      by (cases "x = d") (auto simp: newly_def)
  qed
  have "d \<notin> newly (insert f F) fs M" if "complete (insert f F) M d"
    using that by (simp add: newly_def)
  moreover have "finite (newly (insert f F) fs M)"
    using Cons.prems(2) finite_newly [of M fs] by (simp add: frames_ok_def)
  ultimately show ?case
    using ih r ds step(2) split by simp
qed (simp add: newly_def)

lemma chunkMessage_frames: "chunkMessage d (M d) = map (frame_of M d) [0..<chunk_count (M d)]"
  by (simp add: chunkMessage_def frame_of_def [abs_def])

lemma distinct_frames: "distinct ids \<Longrightarrow> distinct (concat (map (\<lambda>d. chunkMessage d (M d)) ids))"
  by (induction ids) (auto simp: chunkMessage_frames distinct_map inj_on_def)

subsection \<open>UTF-8\<close>

definition scalars :: "nat list \<Rightarrow> bool" where
  "scalars s \<longleftrightarrow> list_all (\<lambda>c. c < 1114112 \<and> c \<noteq> BOM) s"

lemma utf8_decode_step:
  assumes "c < 1114112"
  shows "utf8_decode_nobom (utf8 c @ bs) = c # utf8_decode_nobom bs"
proof -
  define a where "a = c div 64"
  define b where "b = a div 64"
  have dv: "c div 4096 = b" "c div 262144 = b div 64"
    by (simp_all add: a_def b_def flip: div_mult2_eq)
  have whole: "a * 64 + c mod 64 = c" "b * 64 + a mod 64 = a" "b div 64 * 64 + b mod 64 = b"
    by (simp_all add: a_def b_def)
  consider "c < 128" | "128 \<le> c" "c < 2048" | "2048 \<le> c" "c < 65536" | "65536 \<le> c"
    by linarith
  then show ?thesis
  proof cases
    case 2
    then have "a < 32" by (simp add: a_def)
    then show ?thesis
      using 2 whole(1) by (simp add: utf8_def flip: a_def)
  next
    case 3
    then have "b < 16" by (simp add: a_def b_def)
    moreover have "b * 4096 + a mod 64 * 64 + c mod 64 = c"
      using whole(1,2) by linarith
    ultimately show ?thesis
      using 3 by (simp add: utf8_def dv flip: a_def)
  next
    case 4
    have "b div 64 * 262144 + b mod 64 * 4096 + a mod 64 * 64 + c mod 64 = c"
      using whole by linarith
    with 4 show ?thesis
      by (simp add: utf8_def dv flip: a_def)
  qed (simp add: utf8_def)
qed

lemma utf8_bytes_simps [simp]: "utf8_bytes [] = []" "utf8_bytes (c # s) = utf8 c @ utf8_bytes s"
  by (simp_all add: utf8_bytes_def)

lemma utf8_decode_bytes: "list_all (\<lambda>c. c < 1114112) s \<Longrightarrow> utf8_decode_nobom (utf8_bytes s) = s"
  by (induction s) (auto simp: utf8_decode_step)

lemma utf8_decode_scalars: "scalars s \<Longrightarrow> utf8_decode (utf8_bytes s) = s"
  using utf8_decode_bytes [of s] by (cases s) (auto simp: utf8_decode_def scalars_def list_all_iff)

lemma utf8_length: "0 < length (utf8 c) \<and> length (utf8 c) \<le> 4"
  by (simp add: utf8_def)

lemma utf8_lead: "c < 1114112 \<Longrightarrow> \<not> is_continuation (utf8 c ! 0)"
  by (auto simp: utf8_def is_continuation_def)

lemma utf8_tail: "c < 1114112 \<Longrightarrow> 0 < i \<Longrightarrow> i < length (utf8 c) \<Longrightarrow> is_continuation (utf8 c ! i)"
  by (auto simp: utf8_def is_continuation_def less_Suc_eq nth_Cons' split: if_splits)

text \<open>Where a codepoint starts, and the chunk that a boundary cuts off.\<close>

lemma boundary:
  "list_all (\<lambda>c. c < 1114112) s \<Longrightarrow> e \<le> length (utf8_bytes s) \<Longrightarrow>
   e = length (utf8_bytes s) \<or> \<not> is_continuation (utf8_bytes s ! e) \<Longrightarrow>
   \<exists>k. take e (utf8_bytes s) = utf8_bytes (take k s) \<and> drop e (utf8_bytes s) = utf8_bytes (drop k s)"
proof (induction s arbitrary: e)
  case (Cons c s)
  show ?case
  proof (cases "e < length (utf8 c)")
    case True
    then have "e = 0"
      using Cons.prems utf8_tail [of c e] by (auto simp: nth_append)
    then show ?thesis
      by (intro exI [of _ 0]) simp
  next
    case False
    let ?e = "e - length (utf8 c)"
    have "?e \<le> length (utf8_bytes s)" "?e = length (utf8_bytes s) \<or> \<not> is_continuation (utf8_bytes s ! ?e)"
      using Cons.prems(2,3) False by (auto simp: nth_append)
    with Cons.IH [of ?e] Cons.prems(1) obtain k where
      "take ?e (utf8_bytes s) = utf8_bytes (take k s)" "drop ?e (utf8_bytes s) = utf8_bytes (drop k s)"
      by auto
    with False show ?thesis
      by (intro exI [of _ "Suc k"]) simp
  qed
qed simp

lemma back_off_spec:
  "start \<le> e \<Longrightarrow> start \<le> back_off bs start e \<and> back_off bs start e \<le> e \<and>
   (back_off bs start e = start \<or> back_off bs start e \<ge> length bs \<or> \<not> is_continuation (bs ! back_off bs start e)) \<and>
   (\<forall>j. back_off bs start e < j \<and> j \<le> e \<longrightarrow> j < length bs \<and> is_continuation (bs ! j))"
proof (induction bs start e rule: back_off.induct)
  case (2 bs start e)
  then show ?case
    by (auto simp: le_Suc_eq not_le)
qed simp

text \<open>Each round cuts off at least one whole codepoint and at most \<open>maxBytes\<close> bytes.\<close>

lemma chunk_round:
  assumes "list_all (\<lambda>c. c < 1114112) r" "r \<noteq> []" "4 \<le> maxBytes"
    and "drop start bs = utf8_bytes r" "start < length bs"
    and "e = back_off bs start (min (start + maxBytes) (length bs))"
  shows "start < e \<and> e \<le> start + maxBytes \<and> e \<le> length bs \<and>
    (\<exists>k. take (e - start) (drop start bs) = utf8_bytes (take k r) \<and> drop e bs = utf8_bytes (drop k r))"
proof -
  let ?m = "min (start + maxBytes) (length bs)"
  have m: "start \<le> ?m"
    using assms(5) by simp
  note S = back_off_spec [OF m, of bs, folded assms(6)]
  have spec: "start \<le> e" "e \<le> ?m" "e = start \<or> e \<ge> length bs \<or> \<not> is_continuation (bs ! e)"
    "\<And>j. e < j \<Longrightarrow> j \<le> ?m \<Longrightarrow> j < length bs \<and> is_continuation (bs ! j)"
    using S by blast+
  have len: "length (utf8_bytes r) = length bs - start"
    using assms(4) by (metis length_drop)
  have nth: "bs ! (start + i) = utf8_bytes r ! i" if "i < length (utf8_bytes r)" for i
    using nth_drop [of start bs i] assms(5) unfolding assms(4) by simp
  obtain c t where r: "r = c # t"
    using assms(2) by (cases r) auto
  let ?n = "length (utf8 c)"
  have n: "0 < ?n" "?n \<le> 4" "?n \<le> length (utf8_bytes r)"
    using utf8_length [of c] by (simp_all add: r)
  have "start < e"
  proof (rule ccontr)
    assume "\<not> start < e"
    with spec(1) have "e = start" by simp
    moreover have "start + ?n \<le> ?m"
      using n assms(3,5) len by simp
    ultimately have j: "start + ?n < length bs" "is_continuation (bs ! (start + ?n))"
      using spec(4) [of "start + ?n"] n(1) by auto
    then have "?n < length (utf8_bytes r)" "is_continuation (utf8_bytes r ! ?n)"
      using nth [of ?n] len by auto
    then have "t \<noteq> []" "is_continuation (utf8_bytes t ! 0)"
      by (auto simp: r nth_append)
    then show False
      using utf8_lead [of "hd t"] utf8_length [of "hd t"] assms(1) by (cases t) (auto simp: r nth_append)
  qed
  moreover have "e - start \<le> length (utf8_bytes r)"
    using spec(2) len by (simp add: diff_le_mono)
  moreover have "e - start = length (utf8_bytes r) \<or> \<not> is_continuation (utf8_bytes r ! (e - start))"
    using spec(2,3) calculation nth [of "e - start"] len assms(5) by (cases "e < length bs") auto
  ultimately obtain k where "take (e - start) (utf8_bytes r) = utf8_bytes (take k r)"
    "drop (e - start) (utf8_bytes r) = utf8_bytes (drop k r)" and lt: "start < e"
    using boundary [OF assms(1), of "e - start"] by blast
  moreover have "drop e bs = drop (e - start) (utf8_bytes r)"
    using lt by (simp flip: assms(4))
  ultimately have "\<exists>k. take (e - start) (drop start bs) = utf8_bytes (take k r) \<and> drop e bs = utf8_bytes (drop k r)"
    unfolding assms(4) by auto
  with lt spec(2) show ?thesis by simp
qed

lemma chunk_loop_ok:
  assumes "scalars r" "4 \<le> maxBytes" "drop start bs = utf8_bytes r" "start \<le> length bs" "length bs - start < fuel"
  shows "\<exists>cs. chunk_loop fuel bs maxBytes start = Some cs \<and> concat cs = r \<and>
    list_all (\<lambda>c. length (utf8_bytes c) \<le> maxBytes) cs"
  using assms
proof (induction fuel arbitrary: start r)
  case (Suc fuel)
  show ?case
  proof (cases "length bs \<le> start")
    case True
    then have "utf8_bytes r = []"
      using Suc.prems(3) by simp
    then have "r = []"
      using utf8_length by (cases r) auto
    with True show ?thesis
      by (simp add: chunk_loop.simps)
  next
    case False
    then have r: "r \<noteq> []" "list_all (\<lambda>c. c < 1114112) r"
      using Suc.prems(1,3) by (auto simp: scalars_def list_all_iff)
    define e where "e = back_off bs start (min (start + maxBytes) (length bs))"
    obtain k where e: "start < e" "e \<le> start + maxBytes" "e \<le> length bs"
      "take (e - start) (drop start bs) = utf8_bytes (take k r)" "drop e bs = utf8_bytes (drop k r)"
      using chunk_round [OF r(2,1) Suc.prems(2,3) _ e_def] False by auto
    have sc: "scalars (take k r)" "scalars (drop k r)"
      using Suc.prems(1) unfolding scalars_def by (metis append_take_drop_id list_all_append)+
    obtain cs where cs: "chunk_loop fuel bs maxBytes e = Some cs" "concat cs = drop k r"
      "list_all (\<lambda>c. length (utf8_bytes c) \<le> maxBytes) cs"
      using Suc.IH [OF sc(2) Suc.prems(2) e(5,3)] e(1,3) Suc.prems(5) by force
    have "length (utf8_bytes (take k r)) \<le> maxBytes"
      using e(2) by (simp flip: e(4))
    then show ?thesis
      using False cs sc(1) e(4)
      by (subst chunk_loop.simps) (simp add: Let_def utf8_decode_scalars flip: e_def)
  qed
qed simp

subsection \<open>A session\<close>

definition noise_ok :: "noise \<Rightarrow> bool" where
  "noise_ok N \<longleftrightarrow> (\<forall>n p. n_decrypt N n (n_encrypt N n p) = Some p)"

lemma recv_send_frames:
  assumes "noise_ok N"
  shows "recv_frames N nonce i (length cs) out (send_frames N nonce i n cs @ rest) =
    (Got (out @ concat cs), nonce + length cs, rest)"
  using assms by (induction cs arbitrary: nonce i out) (simp_all add: noise_ok_def)

lemma chunkUtf8_ok:
  assumes "scalars p" "4 \<le> maxBytes"
  shows "\<exists>cs. chunkUtf8 (Suc (length (utf8_bytes p))) p maxBytes = Some cs \<and> concat cs = p \<and> cs \<noteq> [] \<and>
    list_all (\<lambda>c. length (utf8_bytes c) \<le> maxBytes) cs"
proof (cases "length (utf8_bytes p) \<le> maxBytes")
  case False
  then obtain cs where "chunk_loop (Suc (length (utf8_bytes p))) (utf8_bytes p) maxBytes 0 = Some cs" "concat cs = p"
    "list_all (\<lambda>c. length (utf8_bytes c) \<le> maxBytes) cs"
    using chunk_loop_ok [of p maxBytes 0 "utf8_bytes p"] assms by auto
  with False show ?thesis
    by (intro exI [of _ cs]) (auto simp: chunkUtf8_def)
qed (simp add: chunkUtf8_def)

lemma secure_one:
  assumes "noise_ok N" "scalars p"
  shows "\<exists>ms k. sendSecure N nonce p = Some (ms, k) \<and> recvSecure N nonce (ms @ rest) = (Got p, k, rest)"
proof -
  obtain cs where cs: "chunkUtf8 (Suc (length (utf8_bytes p))) p CHUNK_BYTES = Some cs" "concat cs = p" "cs \<noteq> []"
    using chunkUtf8_ok [OF assms(2), of CHUNK_BYTES] by (auto simp: CHUNK_BYTES_def)
  obtain c t where c: "cs = c # t"
    using cs(3) by (cases cs) auto
  show ?thesis
  proof (cases t)
    case Nil
    then show ?thesis
      using cs c assms(1) by (simp add: sendSecure_def noise_ok_def)
  next
    case (Cons d u)
    then show ?thesis
      using cs c assms(1) recv_send_frames [OF assms(1), of "Suc nonce" 1 t c "length cs" rest]
      by (simp add: sendSecure_def noise_ok_def)
  qed
qed

text \<open>Messages sent one after the other, and received the same way.\<close>

fun send_all :: "noise \<Rightarrow> nat \<Rightarrow> nat list list \<Rightarrow> (wire list \<times> nat) option" where
  "send_all N nonce [] = Some ([], nonce)"
| "send_all N nonce (p # ps) =
     (case sendSecure N nonce p of
        None \<Rightarrow> None
      | Some (ms, k) \<Rightarrow> map_option (\<lambda>(ms', k'). (ms @ ms', k')) (send_all N k ps))"

fun recv_all :: "noise \<Rightarrow> nat \<Rightarrow> nat \<Rightarrow> wire list \<Rightarrow> nat list received list \<times> nat" where
  "recv_all N nonce 0 ms = ([], nonce)"
| "recv_all N nonce (Suc n) ms =
     (case recvSecure N nonce ms of
        (r, k, rest) \<Rightarrow> (case recv_all N k n rest of (rs, k') \<Rightarrow> (r # rs, k')))"

text \<open>Two messages of several frames whose sends interleave break the receiver.\<close>

lemma interleaved_sends_break:
  assumes "noise_ok N"
  shows "recvSecure N 0 (Framed 0 (Suc (Suc a)) (n_encrypt N 0 p) # Framed 0 m (n_encrypt N 1 q) # ms) = (Broken, 1, ms)"
proof -
  have "n_decrypt N 0 (n_encrypt N 0 p) = Some p"
    using assms by (simp add: noise_ok_def)
  then show ?thesis by simp
qed

text \<open>A repeated frame of a finished message starts it again: a one-frame message comes out twice.\<close>

lemma one_frame_message:
  "length s \<le> MAX_CHUNK \<Longrightarrow> chunkMessage d s = [\<lparr>df_msgId = d, df_idx = 0, df_total = 1, df_chunk = s\<rparr>]"
proof -
  assume s: "length s \<le> MAX_CHUNK"
  then have "(length s + MAX_CHUNK - 1) div MAX_CHUNK \<le> 1"
    by (simp add: MAX_CHUNK_def)
  then have "chunk_count s = 1"
    by (simp add: chunk_count_def)
  with s show ?thesis
    by (simp add: chunkMessage_def chunk_at_def)
qed

lemma duplicate_redelivers:
  "length s \<le> MAX_CHUNK \<Longrightarrow> fst (reassemble_all (chunkMessage d s @ chunkMessage d s) []) = [s, s]"
  by (simp add: one_frame_message reassemble_def pending_entry_def add_part_def joined_def)

subsection \<open>Properties\<close>

text \<open>Property C25: an authenticated session delivers every message whole, in order. Whatever messages
  are sent one after the other, of any size, the receiver gets exactly them, both nonces stay in
  step, and nothing is left over. (Noise decrypts what it encrypted at the same nonce; the
  messages hold no byte order mark, which the decoder drops at the start of a chunk.)\<close>

theorem secure_session_delivers:
  assumes "noise_ok N" "list_all scalars ps"
  shows "\<exists>ms k. send_all N nonce ps = Some (ms, k) \<and> recv_all N nonce (length ps) ms = (map Got ps, k)"
  using assms(2)
proof (induction ps arbitrary: nonce)
  case (Cons p ps)
  obtain ms' k' where rest: "sendSecure N nonce p = Some (ms', k')"
    using secure_one [OF assms(1), of p] Cons.prems by fastforce
  obtain ms k where ps: "send_all N k' ps = Some (ms, k)" "recv_all N k' (length ps) ms = (map Got ps, k)"
    using Cons by fastforce
  have "recvSecure N nonce (ms' @ ms) = (Got p, k', ms)"
    using secure_one [OF assms(1), of p nonce ms] rest Cons.prems by auto
  with rest ps show ?case by simp
qed simp

text \<open>A noise for the witness: the ciphertext writes each number in unary, and a mark after it.\<close>

definition unary :: "nat list \<Rightarrow> string" where
  "unary p = concat (map (\<lambda>c. replicate c (CHR ''1'') @ ''0'') p)"

fun read_unary :: "nat \<Rightarrow> string \<Rightarrow> nat list" where
  "read_unary k [] = []"
| "read_unary k (c # s) = (if c = CHR ''1'' then read_unary (Suc k) s else k # read_unary 0 s)"

definition unary_noise :: noise where
  "unary_noise = \<lparr>n_encrypt = (\<lambda>n p. unary (n # p)),
     n_decrypt = (\<lambda>n c. case read_unary 0 c of [] \<Rightarrow> None | m # p \<Rightarrow> if m = n then Some p else None)\<rparr>"

lemma read_unary_one: "read_unary k (replicate c (CHR ''1'') @ s) = read_unary (k + c) s"
  by (induction c arbitrary: k) simp_all

lemma read_unary_inverse: "read_unary 0 (unary p) = p"
  by (induction p) (simp_all add: unary_def read_unary_one)

lemma unary_noise_ok: "noise_ok unary_noise"
  by (simp add: noise_ok_def unary_noise_def read_unary_inverse)

theorem secure_session_delivers_witness:
  "\<exists>ms k. send_all unary_noise 5 [[104, 8364], replicate 40000 97, []] = Some (ms, k) \<and>
     recv_all unary_noise 5 3 ms = ([Got [104, 8364], Got (replicate 40000 97), Got []], k)"
  using secure_session_delivers [OF unary_noise_ok, of "[[104, 8364], replicate 40000 97, []]" 5]
  by (simp add: scalars_def BOM_def list_all_iff numeral_3_eq_3)

text \<open>The relay transport delivers every message exactly once whatever the order its
  frames arrive in. If the frames of a set of messages arrive in any permutation, interleaved as the
  relay likes and each once, the reassembler delivers exactly those messages, and keeps nothing
  pending.\<close>

lemma relay_reassembly:
  assumes "distinct ids" "mset fs = mset (concat (map (\<lambda>d. chunkMessage d (M d)) ids))"
  shows "mset (fst (reassemble_all fs [])) = mset (map M ids) \<and> snd (reassemble_all fs []) = []"
proof -
  have set: "set fs = {frame_of M d i |d i. d \<in> set ids \<and> i < chunk_count (M d)}"
    using arg_cong [OF assms(2), of set_mset] by (auto simp: chunkMessage_frames)
  have "distinct fs"
    using assms(2) distinct_frames [OF assms(1)] by (metis mset_eq_imp_distinct_iff)
  moreover have "frames_ok M fs"
    by (auto simp: frames_ok_def set)
  moreover have "pending_ok {} M []"
    by (simp add: pending_ok_def arrived_def)
  ultimately have all: "pending_ok (set fs) M (snd (reassemble_all fs []))"
    "mset (fst (reassemble_all fs [])) = image_mset M (mset_set (newly {} fs M))"
    using reassemble_all_complete [of "{}" M "[]" fs] by (auto split: prod.splits)
  have arr: "arrived (set fs) M d = (if d \<in> set ids then {..<chunk_count (M d)} else {})" for d
    by (auto simp: arrived_def set)
  have "0 \<in> {..<chunk_count (M d)}" for d
    using chunk_count_pos [of "M d"] by simp
  then have "{..<chunk_count (M d)} \<noteq> {}" for d
    by blast
  moreover have "arrived {} M d = {}" for d
    by (simp add: arrived_def)
  ultimately have comp: "complete (set fs) M d \<longleftrightarrow> d \<in> set ids" "\<not> complete {} M d" for d
    unfolding complete_def arr by auto
  then have "newly {} fs M = set ids"
    by (simp add: newly_def)
  moreover have "map_of (snd (reassemble_all fs [])) d = None" for d
    using all(1) comp(1) [of d] arr [of d] by (cases "d \<in> set ids") (simp_all add: pending_ok_def)
  ultimately show ?thesis
    using all(2) assms(1) by (simp add: mset_set_set flip: map_of_eq_empty_iff) (simp add: fun_eq_iff)
qed

text \<open>Size padding loses nothing and hides the size in coarse steps. Any message a
  JavaScript string can hold comes back from its padding; the padded text has a length of the
  padding scheme, which exceeds the message and its header by at most 32 or a quarter.\<close>

lemma padding_round_trip:
  assumes "length s < 16 ^ 8"
  shows "unpadMessage (padMessage s) = s \<and> length (padMessage s) = paddedLen (8 + length s) \<and>
    8 + length s \<le> length (padMessage s) \<and>
    length (padMessage s) \<le> 8 + length s + max 32 ((8 + length s) div 4)"
  using header_parses [of "length s"] paddedLen_bounds [of "8 + length s"] assms
  by (simp add: padMessage_def unpadMessage_def Let_def LEN_HEADER_def)

end
