(* ===== verification/Spec2Isabelle.thy ===== *)
theory Spec2Isabelle
  imports KeePass Bitwarden Zip_Imports Corner_Prompt Entry_Identity Audit_Log Biometric_Unlock Vault_Storage Vault_Session Sync_Control Desktop_Link Exchange LastPass Crypto_Session Security_Keys Passkeys Password_Gen Mesh Backup_Retention Backup_Schedule Roster_Sync Enrollment Slot_Policy Entry_Mutations Autofill_Session Channels
begin

text \<open>
  A verification library for the vault and sync core of Vautix.
\<close>

end
